(* ===== verification/OCF_Prelude.thy ===== *)
theory OCF_Prelude
  imports Main "HOL-Library.Word" "HOL-Library.Monad_Syntax"
begin

text \<open>
  Shared vocabulary of the development.

  The C sources use fixed-width unsigned integers throughout; they are words here, so that
  \<open>+\<close> and \<open>-\<close> wrap around and \<open><\<close> is the unsigned comparison, as in C.
  The macro \<open>ENV_BUG_ON\<close> (and an access to a metadata entry out of range, which the
  sources guard with it) stops the program: code that can reach it is modelled in the option
  type, and \<open>None\<close> is "the program stopped at a bug check".

  The second half of the theory is about doubly linked lists kept in index arrays: the form in
  which the cache keeps its LRU lists, its collision lists and the collision lists of the
  promotion policy.  A list is described by its \<open>next\<close> and \<open>prev\<close> fields as
  functions of the index, its contents as a HOL list.
\<close>

unbundle bit_operations_syntax

type_synonym u8 = "8 word"
type_synonym u16 = "16 word"
type_synonym u32 = "32 word"
type_synonym u64 = "64 word"
type_synonym u128 = "128 word"

named_theorems bug_simps \<open>unfolding of the bug-check monad\<close>
named_theorems dll_simps \<open>facts about doubly linked lists in index arrays\<close>

subsection \<open>Bug checks\<close>

definition ENV_BUG_ON :: "bool \<Rightarrow> unit option" where
  "ENV_BUG_ON c = (if c then None else Some ())"

lemma ENV_BUG_ON_simps [simp, bug_simps]:
  "ENV_BUG_ON False = Some ()"
  "ENV_BUG_ON True = None"
  by (simp_all add: ENV_BUG_ON_def)

lemma ENV_BUG_ON_eq_Some [simp, bug_simps]: "ENV_BUG_ON c = Some u \<longleftrightarrow> \<not> c"
  by (simp add: ENV_BUG_ON_def)

lemma bind_ENV_BUG_ON_eq_Some [simp, bug_simps]:
  "(ENV_BUG_ON c \<bind> f) = Some y \<longleftrightarrow> \<not> c \<and> f () = Some y"
  by (simp add: ENV_BUG_ON_def)

lemma bind_ENV_BUG_ON_not [simp]: "\<not> c \<Longrightarrow> (ENV_BUG_ON c \<bind> f) = f ()"
  by (simp add: ENV_BUG_ON_def)

subsection \<open>Words\<close>

lemma unat_of_nat_u32: "n < 2 ^ 32 \<Longrightarrow> unat (of_nat n :: u32) = n"
  by (simp add: unat_of_nat)

lemma unat_ucast_u64: "unat (ucast (n :: u32) :: u64) = unat n"
  using unsigned_less [of n, where ?'a = nat] by (simp add: unsigned_ucast_eq take_bit_nat_eq_self)

text \<open>Arithmetic that does not wrap around.\<close>

lemma unat_mult_nowrap: "unat a * unat b < 2 ^ LENGTH('a) \<Longrightarrow> unat ((a :: ('a :: len) word) * b) = unat a * unat b"
  by (simp add: unat_mult_lem [symmetric])

lemma unat_add_nowrap: "unat a + unat b < 2 ^ LENGTH('a) \<Longrightarrow> unat ((a :: ('a :: len) word) + b) = unat a + unat b"
  by (simp add: unat_add_lem [symmetric])

lemma unat_sub_nowrap: "unat b \<le> unat a \<Longrightarrow> unat ((a :: ('a :: len) word) - b) = unat a - unat b"
  by (simp add: unat_sub word_le_nat_alt)

lemma distinct_below_length:
  fixes xs :: "u32 list"
  assumes "distinct xs" and "\<forall>x\<in>set xs. x < e"
  shows "length xs \<le> unat e"
proof -
  have "unat ` set xs \<subseteq> {..<unat e}"
    using assms(2) by (auto simp: word_less_nat_alt)
  then have "card (unat ` set xs) \<le> unat e"
    by (metis card_lessThan card_mono finite_lessThan)
  moreover have "inj_on unat (set xs)"
    by (rule inj_onI) (simp add: unsigned_word_eqI)
  ultimately show ?thesis
    using assms(1) by (simp add: card_image distinct_card)
qed

lemma card_below: "card {x :: u32. x < n} = unat n"
proof -
  have n: "unat n < 2 ^ 32" using unsigned_less [of n, where ?'a = nat] by simp
  have "{x :: u32. x < n} = of_nat ` {..<unat n}"
  proof (intro equalityI subsetI)
    fix x assume "x \<in> {x. x < n}"
    then have "unat x \<in> {..<unat n}" by (simp add: word_less_nat_alt)
    then show "x \<in> of_nat ` {..<unat n}" by (intro image_eqI [of _ _ "unat x"]) simp_all
  next
    fix x :: u32 assume "x \<in> of_nat ` {..<unat n}"
    then show "x \<in> {x. x < n}" using n by (auto simp: word_less_nat_alt unat_of_nat_u32)
  qed
  moreover have "inj_on (of_nat :: nat \<Rightarrow> u32) {..<unat n}"
  proof (rule inj_onI)
    fix i j assume "i \<in> {..<unat n}" "j \<in> {..<unat n}" "(of_nat i :: u32) = of_nat j"
    then have "unat (of_nat i :: u32) = unat (of_nat j :: u32)" "i < 2 ^ 32" "j < 2 ^ 32" using n by auto
    then show "i = j" by (simp add: unat_of_nat_u32)
  qed
  ultimately show ?thesis by (simp add: card_image)
qed

subsection \<open>Lists\<close>

lemma length_remove1_Suc: "x \<in> set xs \<Longrightarrow> length xs = Suc (length (remove1 x xs))"
  by (induction xs) auto

subsection \<open>Doubly linked lists in index arrays\<close>

definition dl_first :: "'i list \<Rightarrow> 'i \<Rightarrow> 'i" where
  "dl_first xs e = (case xs of [] \<Rightarrow> e | x # _ \<Rightarrow> x)"

definition dl_last :: "'i list \<Rightarrow> 'i \<Rightarrow> 'i" where
  "dl_last xs e = (if xs = [] then e else last xs)"

lemma dl_first_simps [simp, dll_simps]:
  "dl_first [] e = e" "dl_first (x # xs) e = x"
  by (simp_all add: dl_first_def)

lemma dl_last_simps [simp, dll_simps]:
  "dl_last [] e = e" "dl_last (x # xs) e = dl_last xs x" "dl_last (xs @ [x]) e = x"
  by (simp_all add: dl_last_def)

lemma dl_first_append: "dl_first (xs @ ys) e = dl_first xs (dl_first ys e)"
  by (cases xs) simp_all

lemma dl_last_append: "dl_last (xs @ ys) e = dl_last ys (dl_last xs e)"
  by (simp add: dl_last_def)

lemma dl_first_neq: "xs \<noteq> [] \<Longrightarrow> dl_first xs e = hd xs"
  by (cases xs) simp_all

lemma dl_last_neq: "xs \<noteq> [] \<Longrightarrow> dl_last xs e = last xs"
  by (simp add: dl_last_def)

lemma dl_first_in: "xs \<noteq> [] \<Longrightarrow> dl_first xs e \<in> set xs"
  by (cases xs) simp_all

lemma dl_last_in: "xs \<noteq> [] \<Longrightarrow> dl_last xs e \<in> set xs"
  by (simp add: dl_last_def)

lemma dl_first_eq_end: "e \<notin> set xs \<Longrightarrow> dl_first xs e = e \<longleftrightarrow> xs = []"
  by (cases xs) auto

lemma dl_last_eq_end: "e \<notin> set xs \<Longrightarrow> dl_last xs e = e \<longleftrightarrow> xs = []"
  by (auto simp: dl_last_def dest: last_in_set)

text \<open>
  \<open>dll n p b xs a\<close>: following \<open>n\<close> from the first element of \<open>xs\<close> visits
  \<open>xs\<close> and ends at \<open>a\<close>, following \<open>p\<close> from the last one visits it backwards and ends
  at \<open>b\<close>.
\<close>

primrec dll :: "('i \<Rightarrow> 'i) \<Rightarrow> ('i \<Rightarrow> 'i) \<Rightarrow> 'i \<Rightarrow> 'i list \<Rightarrow> 'i \<Rightarrow> bool" where
  "dll n p b [] a = True"
| "dll n p b (x # xs) a = (p x = b \<and> n x = dl_first xs a \<and> dll n p x xs a)"

lemma dll_append:
  "dll n p b (xs @ ys) a \<longleftrightarrow> dll n p b xs (dl_first ys a) \<and> dll n p (dl_last xs b) ys a"
  by (induction xs arbitrary: b) (auto simp: dl_first_append)

lemma dll_cong:
  assumes "dll n p b xs a" and "\<forall>y\<in>set xs. n' y = n y \<and> p' y = p y"
  shows "dll n' p' b xs a"
  using assms by (induction xs arbitrary: b) auto

lemma dll_middle:
  assumes "dll n p b (xs @ x # ys) a"
  shows "n x = dl_first ys a" and "p x = dl_last xs b"
  using assms by (simp_all add: dll_append)

lemma dll_last_next: "dll n p b xs a \<Longrightarrow> xs \<noteq> [] \<Longrightarrow> n (last xs) = a"
  by (induction xs arbitrary: b) (auto simp: dl_first_def split: list.splits)

lemma dll_hd_prev: "dll n p b xs a \<Longrightarrow> xs \<noteq> [] \<Longrightarrow> p (hd xs) = b"
  by (cases xs) simp_all

lemma dll_change_end:
  assumes "dll n p b xs a" "distinct xs"
    and "\<forall>y\<in>set xs. p' y = p y"
    and "\<forall>y\<in>set xs. n' y = (if y = last xs then a' else n y)"
  shows "dll n' p' b xs a'"
  using assms
proof (induction xs arbitrary: b)
  case Nil
  then show ?case by simp
next
  case (Cons x xs)
  show ?case
  proof (cases xs)
    case Nil
    with Cons.prems show ?thesis by simp
  next
    case (Cons y ys)
    with Cons.prems have "x \<noteq> last xs" by auto
    moreover have "dll n' p' x xs a'"
      using Cons.prems \<open>xs = y # ys\<close> by (intro Cons.IH) auto
    ultimately show ?thesis using Cons.prems \<open>xs = y # ys\<close> by simp
  qed
qed

lemma dll_change_begin:
  assumes "dll n p b xs a" "distinct xs"
    and "\<forall>y\<in>set xs. n' y = n y"
    and "\<forall>y\<in>set xs. p' y = (if y = hd xs then b' else p y)"
  shows "dll n' p' b' xs a"
proof (cases xs)
  case Nil
  then show ?thesis by simp
next
  case (Cons x ys)
  then have "\<forall>y\<in>set ys. n' y = n y \<and> p' y = p y" using assms(2-4) by auto
  moreover have "dll n p x ys a" using assms(1) Cons by simp
  ultimately have "dll n' p' x ys a" by (blast intro: dll_cong)
  with Cons assms show ?thesis by simp
qed

text \<open>Pushing an element in front, and unlinking one, in the form in which every client of these
  lists does it: what the new fields are is said pointwise, so that the order in which the code
  writes them does not matter.\<close>

lemma dll_push:
  assumes "dll n p b xs a" "distinct xs"
    and "n' x = dl_first xs a" "p' x = b"
    and "\<forall>y\<in>set xs. n' y = n y"
    and "\<forall>y\<in>set xs. p' y = (if y = hd xs then x else p y)"
  shows "dll n' p' b (x # xs) a"
  using assms dll_change_begin [OF assms(1,2,5,6)] by simp

lemma dll_unlink:
  assumes l: "dll n p b (xs @ x # ys) a" and d: "distinct (xs @ x # ys)"
    and n': "\<forall>y\<in>set (xs @ ys). n' y = (if xs \<noteq> [] \<and> y = last xs then n x else n y)"
    and p': "\<forall>y\<in>set (xs @ ys). p' y = (if ys \<noteq> [] \<and> y = hd ys then p x else p y)"
  shows "dll n' p' b (xs @ ys) a"
proof -
  have nx: "n x = dl_first ys a" and px: "p x = dl_last xs b"
    using dll_middle [OF l] by auto
  have lx: "dll n p b xs x" and ly: "dll n p x ys a"
    using l by (auto simp: dll_append)
  have "dll n' p' b xs (dl_first ys a)"
    using d n' p' nx
    by (intro dll_change_end [OF lx]) (auto dest: hd_in_set last_in_set)
  moreover have "dll n' p' (dl_last xs b) ys a"
    using d n' p' px
    by (intro dll_change_begin [OF ly]) (auto dest: hd_in_set last_in_set)
  ultimately show ?thesis by (simp add: dll_append)
qed

end
