(* ===== verification/Chunking.thy ===== *)
theory Chunking
  imports OCF_Prelude
begin

text \<open>
  The chunking loop of the compressor: the branch of \<open>zfile_compress\<close>
  (\<^verbatim>\<open>src/overlaybd/zfile/zfile.cpp\<close>) that cuts the data it has read into chunks of
  variable size and hands them to the compressor in batches, and how
  \<open>BaseCompressor::compress_batch\<close> (\<^verbatim>\<open>compressor.cpp\<close>) finds the blocks of a batch.

  The loop relies on its chunker through the locale \<open>chunker\<close>: a cut is never empty,
  stays inside the data and within the configured sizes.  The lemmas about the loop are proved
  there; \<^verbatim>\<open>FastCDC.thy\<close> interprets the locale on the chunker the code uses.
\<close>

subsection \<open>Batches\<close>

text \<open>The blocks that \<open>compress_batch\<close> takes from \<open>src\<close>: consecutive slices of the
  given lengths, the running \<open>src_offset\<close> being the start of each.\<close>

fun slices :: "u8 list \<Rightarrow> nat list \<Rightarrow> u8 list list" where
  "slices src [] = []"
| "slices src (l # ls) = take l src # slices (drop l src) ls"

text \<open>A call \<open>compress_batch(raw_data + start, lens, \<dots>)\<close>.\<close>

type_synonym batch = "nat \<times> nat list"

definition batch_blocks :: "u8 list \<Rightarrow> batch \<Rightarrow> u8 list list" where
  "batch_blocks data b = slices (drop (fst b) data) (snd b)"

text \<open>
  The loop \<open>while (offset < readn)\<close>: \<open>next_chunk\<close> is the chunker, \<open>st\<close> its state,
  \<open>lens\<close> the array \<open>raw_chunk_len[0..n-1]\<close> of the batch being collected and
  \<open>out\<close> the batches already compressed.  A chunk size of zero or beyond the remaining data
  is replaced by the remaining data.  After the loop the chunks left over are compressed too.
\<close>

function chunk_loop ::
  "('s \<Rightarrow> u8 list \<Rightarrow> (nat \<times> 's) option) \<Rightarrow> nat \<Rightarrow> u8 list \<Rightarrow> 's \<Rightarrow> nat \<Rightarrow> nat \<Rightarrow> nat list \<Rightarrow>
   batch list \<Rightarrow> ('s \<times> batch list) option" where
  "chunk_loop next_chunk nbatch data st offset batch_start lens out =
     (if offset < length data then
        (let remaining = length data - offset in
         case next_chunk st (drop offset data) of
           None \<Rightarrow> None
         | Some (chunk_size, st) \<Rightarrow>
             (let chunk_size = (if chunk_size = 0 \<or> chunk_size > remaining then remaining else chunk_size);
                  lens = lens @ [chunk_size];
                  offset = offset + chunk_size
              in if length lens \<ge> nbatch
                 then chunk_loop next_chunk nbatch data st offset offset [] (out @ [(batch_start, lens)])
                 else chunk_loop next_chunk nbatch data st offset batch_start lens out))
      else Some (st, if lens \<noteq> [] then out @ [(batch_start, lens)] else out))"
  by pat_completeness auto
termination
  by (relation "measure (\<lambda>(nc, nb, data, st, offset, bs, lens, out). length data - offset)")
    (auto split: if_splits)

declare chunk_loop.simps [simp del]

definition chunk_data ::
  "('s \<Rightarrow> u8 list \<Rightarrow> (nat \<times> 's) option) \<Rightarrow> nat \<Rightarrow> u8 list \<Rightarrow> 's \<Rightarrow> ('s \<times> batch list) option" where
  "chunk_data next_chunk nbatch data st = chunk_loop next_chunk nbatch data st 0 0 [] []"

text \<open>All the chunk lengths, in order.\<close>

definition batch_lens :: "batch list \<Rightarrow> nat list" where
  "batch_lens bs = concat (map snd bs)"

lemma batch_lens_simps [simp]:
  "batch_lens [] = []" "batch_lens (bs @ [b]) = batch_lens bs @ snd b"
  by (simp_all add: batch_lens_def)

lemma concat_slices: "sum_list ls \<le> length src \<Longrightarrow> concat (slices src ls) = take (sum_list ls) src"
proof (induction src ls rule: slices.induct)
  case (2 src l ls)
  then have "concat (slices (drop l src) ls) = take (sum_list ls) (drop l src)" by simp
  then show ?case by (simp add: take_add)
qed simp

lemma concat_batch_blocks:
  "start + sum_list ls \<le> length data \<Longrightarrow>
   take start data @ concat (batch_blocks data (start, ls)) = take (start + sum_list ls) data"
  by (simp add: batch_blocks_def concat_slices take_add)

subsection \<open>The contract of a chunker and what the loop makes of it\<close>

locale chunker =
  fixes next_chunk :: "'s \<Rightarrow> u8 list \<Rightarrow> (nat \<times> 's) option"
    and inv :: "'s \<Rightarrow> bool"
    and lo :: "'s \<Rightarrow> nat"
    and hi :: "'s \<Rightarrow> nat"
  assumes cut: "inv st \<Longrightarrow> bs \<noteq> [] \<Longrightarrow>
    \<exists>k st'. next_chunk st bs = Some (k, st') \<and> 0 < k \<and> k \<le> length bs \<and> k \<le> hi st \<and>
      min (lo st) (length bs) \<le> k \<and> inv st' \<and> lo st' = lo st \<and> hi st' = hi st"
begin

text \<open>What holds when the loop has reached \<open>offset\<close>.\<close>

definition loop_inv :: "'s \<Rightarrow> nat \<Rightarrow> u8 list \<Rightarrow> nat \<Rightarrow> nat \<Rightarrow> nat list \<Rightarrow> batch list \<Rightarrow> bool" where
  "loop_inv st nbatch data offset batch_start lens out \<longleftrightarrow>
     inv st \<and> offset \<le> length data \<and> batch_start + sum_list lens = offset \<and> length lens < nbatch \<and>
     concat (concat (map (batch_blocks data) out)) = take batch_start data \<and>
     (\<forall>b\<in>set out. snd b \<noteq> [] \<and> length (snd b) \<le> nbatch \<and> fst b + sum_list (snd b) \<le> length data) \<and>
     (\<forall>l\<in>set (batch_lens out @ lens). 0 < l \<and> l \<le> hi st) \<and>
     (\<forall>l\<in>set (butlast (batch_lens out @ lens)). lo st \<le> l) \<and>
     (offset < length data \<longrightarrow> (\<forall>l\<in>set (batch_lens out @ lens). lo st \<le> l))"

definition loop_post :: "'s \<Rightarrow> nat \<Rightarrow> u8 list \<Rightarrow> batch list \<Rightarrow> bool" where
  "loop_post st nbatch data bs \<longleftrightarrow>
     concat (concat (map (batch_blocks data) bs)) = data \<and>
     (\<forall>b\<in>set bs. snd b \<noteq> [] \<and> length (snd b) \<le> nbatch \<and> fst b + sum_list (snd b) \<le> length data) \<and>
     (\<forall>l\<in>set (batch_lens bs). 0 < l \<and> l \<le> hi st) \<and>
     (\<forall>l\<in>set (butlast (batch_lens bs)). lo st \<le> l)"

lemma loop_inv_flush:
  assumes "loop_inv st nbatch data offset batch_start lens out" "lens \<noteq> []"
  shows "concat (concat (map (batch_blocks data) (out @ [(batch_start, lens)]))) = take offset data"
  using assms concat_batch_blocks [of batch_start lens data] by (auto simp: loop_inv_def)

lemma loop_inv_done:
  assumes "loop_inv st nbatch data offset batch_start lens out" "\<not> offset < length data"
  shows "loop_post st nbatch data (if lens \<noteq> [] then out @ [(batch_start, lens)] else out)"
proof -
  have o: "take offset data = data" using assms by (simp add: loop_inv_def)
  show ?thesis
  proof (cases "lens = []")
    case True
    then show ?thesis using assms o by (auto simp: loop_inv_def loop_post_def)
  next
    case False
    then show ?thesis
      using assms loop_inv_flush [OF assms(1) False] o by (auto simp: loop_inv_def loop_post_def)
  qed
qed

lemma loop_inv_step:
  assumes i: "loop_inv st nbatch data offset batch_start lens out" and lt: "offset < length data"
    and k: "next_chunk st (drop offset data) = Some (k, st')"
  shows "inv st' \<and> lo st' = lo st \<and> hi st' = hi st \<and> 0 < k \<and> k \<le> length data - offset"
    and "length (lens @ [k]) < nbatch \<Longrightarrow> loop_inv st' nbatch data (offset + k) batch_start (lens @ [k]) out"
    and "length (lens @ [k]) \<ge> nbatch \<Longrightarrow>
      loop_inv st' nbatch data (offset + k) (offset + k) [] (out @ [(batch_start, lens @ [k])])"
proof -
  have c: "0 < k" "k \<le> length data - offset" "k \<le> hi st" "min (lo st) (length data - offset) \<le> k"
    "inv st'" "lo st' = lo st" "hi st' = hi st"
    using cut [of st "drop offset data"] i lt k by (auto simp: loop_inv_def)
  then show "inv st' \<and> lo st' = lo st \<and> hi st' = hi st \<and> 0 < k \<and> k \<le> length data - offset" by simp
  have sizes: "\<forall>l\<in>set ((batch_lens out @ lens) @ [k]). 0 < l \<and> l \<le> hi st'"
    "\<forall>l\<in>set (butlast ((batch_lens out @ lens) @ [k])). lo st' \<le> l"
    "offset + k < length data \<longrightarrow> (\<forall>l\<in>set ((batch_lens out @ lens) @ [k]). lo st' \<le> l)"
    using i lt c by (auto simp: loop_inv_def min_le_iff_disj butlast_append)
  then show "loop_inv st' nbatch data (offset + k) batch_start (lens @ [k]) out"
    if "length (lens @ [k]) < nbatch"
    using i c that lt by (auto simp: loop_inv_def)
  have "take batch_start data @ concat (batch_blocks data (batch_start, lens @ [k])) =
      take (batch_start + sum_list (lens @ [k])) data"
    using i c lt by (intro concat_batch_blocks) (auto simp: loop_inv_def)
  then show "loop_inv st' nbatch data (offset + k) (offset + k) [] (out @ [(batch_start, lens @ [k])])"
    if "length (lens @ [k]) \<ge> nbatch"
    using i c sizes that lt by (auto simp: loop_inv_def add.assoc)
qed

lemma chunk_loop_ok:
  assumes "loop_inv st nbatch data offset batch_start lens out"
  shows "\<exists>st' bs. chunk_loop next_chunk nbatch data st offset batch_start lens out = Some (st', bs) \<and>
     inv st' \<and> lo st' = lo st \<and> hi st' = hi st \<and> loop_post st nbatch data bs"
  using assms
proof (induction "length data - offset" arbitrary: st offset batch_start lens out rule: less_induct)
  case less
  note unf = chunk_loop.simps [of next_chunk nbatch data st offset batch_start lens out]
  show ?case
  proof (cases "offset < length data")
    case False
    have "inv st" using less.prems by (simp add: loop_inv_def)
    with False loop_inv_done [OF less.prems False] show ?thesis by (simp add: unf)
  next
    case True
    then obtain k st' where k: "next_chunk st (drop offset data) = Some (k, st')"
      using cut [of st "drop offset data"] less.prems by (auto simp: loop_inv_def)
    note step = loop_inv_step [OF less.prems True k]
    have post: "loop_post st' nbatch data bs = loop_post st nbatch data bs" for bs
      using step(1) by (simp add: loop_post_def)
    have dec: "length data - (offset + k) < length data - offset" using step(1) True by auto
    show ?thesis
    proof (cases "length (lens @ [k]) \<ge> nbatch")
      case full: True
      from less.hyps [OF dec step(3) [OF full]] step(1) full True k post
      show ?thesis by (auto simp: unf Let_def)
    next
      case False
      then have "length (lens @ [k]) < nbatch" by simp
      from less.hyps [OF dec step(2) [OF this]] step(1) False True k post
      show ?thesis by (auto simp: unf Let_def)
    qed
  qed
qed

lemma chunk_data_ok:
  assumes "inv st" "0 < nbatch"
  shows "\<exists>st' bs. chunk_data next_chunk nbatch data st = Some (st', bs) \<and>
     inv st' \<and> lo st' = lo st \<and> hi st' = hi st \<and> loop_post st nbatch data bs"
  unfolding chunk_data_def using assms by (intro chunk_loop_ok) (simp add: loop_inv_def)

end

end
