(* ===== verification/FastCDC.thy ===== *)
theory FastCDC
  imports Chunking
begin

text \<open>
  The content-defined chunker: \<^verbatim>\<open>FastCDC-c/fastcdc.c\<close> (the C library) and
  \<^verbatim>\<open>src/overlaybd/zfile/fastcdc_wrapper.cpp\<close> (the class the compressor uses).

  The library's global variables are the record \<open>fastcdc_globals\<close>; a chunking function
  takes the globals and returns them changed, since \<open>normalized_chunking_64\<close> writes
  \<open>MinSize\<close>.  A buffer is a list of bytes and reading it out of range is \<open>None\<close>.
  The C type \<open>int\<close> is \<open>int\<close> with the conversions to and from the unsigned globals
  written out: a comparison of an \<open>int\<close> with a \<open>uint32_t\<close> is the unsigned
  comparison of \<open>word_of_int n\<close>, and assigning a \<open>uint32_t\<close> to an \<open>int\<close>
  is \<open>sint\<close>.
\<close>

subsection \<open>The gear table and the globals\<close>

definition GEARv2 :: "u64 list" where
  "GEARv2 = [
     0xdc377e207d3c5d43, 0x626790b237a4ab52, 0xfad9bf3a472cfe4d, 0xa2a6bc5395bbce52,
     0xce0a8e4ef2f3ee3f, 0xb4b5b36cf31b4d66, 0x468f4da9d12660f7, 0x9005e918384c13d0,
     0x29ba77f861e74697, 0x8237cf1734b2c668, 0xee06f9f1df6ced7b, 0x142936b9399add6a,
     0xcb3c0a27878d6de5, 0x49b827acbe6d77ac, 0x65903aad1d6c1e9f, 0x7a7c66f221cf20ca,
     0x9a0f5565415a795, 0xbe5a882391e5527e, 0x14d2a06077f8339d, 0xcad2bce34bf19652,
     0x5541cc588464c621, 0xc44d981a4aa21e70, 0xb5f4dbb200e75029, 0xa0fc23f2eef70334,
     0xfe36dbfaed334ef3, 0xdd1b785765b2bb6, 0xcc3461a160502f47, 0x64b1c122c7083b1a,
     0x388e6a418b6fd359, 0x65809585f16ab490, 0x3eb1ec4b9577e4c7, 0xd80e411261617dd8,
     0x7da08fd8df71e169, 0xa20af93edb933a86, 0x59fb1b86e1ff5415, 0x5b596e7a23e7af9a,
     0x50a905ffc0a402c3, 0x3a8cefabefd9dbbe, 0xc9762597ccab4a09, 0xd8de3774872f3efe,
     0xc9f1075d9ebc3c51, 0x3b55ac8bfcf8f51e, 0xe4e88fb0fa555bd1, 0xfa725ab5e019900a,
     0x4be7597f3fcb499d, 0xe108b91410eb4788, 0xb9f7fc4896cbf4c3, 0x8cdaddac2fc852ee,
     0x5c1d3439307f3d03, 0x60e5ae5e93c82d50, 0x340d48d6be8c5b09, 0x9a02c3be5b6c05e8,
     0x56014afc31084d83, 0x85b888f604ea56f2, 0x5cb1a8a10079cb23, 0xc52b57c63ff9a0ca,
     0xf35659fc64e0143, 0xbdf325035c594f38, 0xd1f8101a35320afd, 0xe899458626d703f8,
     0xbf97f530ac049837, 0x895021a6620ae70, 0x948596cd24280401, 0x471f6accca7627f4,
     0x4a129ff1164598bd, 0x71405c568bef229e, 0x4fda2755c3737887, 0x909a3cc70ee44b32,
     0xd1a8a3c3dc9fd44d, 0x5ebb36a043ede1ca, 0xf6a89a10d5e68b53, 0xd9bf7a1aaa5016b2,
     0x71030478353d66cb, 0x6806d8ba045b5ae0, 0xa7672b4808466f67, 0xf93e0da0d5011f0a,
     0xa8aeeeec63465029, 0xe958e539a532a76e, 0xfd8bf78ab9628da1, 0xca1eb1fe8a769e6a,
     0x2a96875d6c8f9257, 0x501c523d559d7d12, 0x9b7e72aa3d7f1a65, 0x25554c1d398077a,
     0xcdd8af6cd9c471e1, 0x39bea30bd9a49e, 0x233b737e0eeee721, 0xd6d57c6896b14ed4,
     0x8dabe80e8c70e265, 0x1b859ed8c291ddbc, 0x6b3385f41e0a598b, 0xcf05250d14390e94,
     0xc58d5e7d9c8b9f73, 0x49a5c7a9ba27febc, 0x4841a129f0804005, 0xe7ffa313ce3144a,
     0x13d8768f158b32cb, 0x5d4a2c0fe9cd7afe, 0xe5d0ae6ab568df33, 0xd5e94a4243d9b506,
     0xc6dc1d3da6a23d23, 0xf3b4295d0dd364f2, 0x57750173991256b5, 0x119097313522fa6a,
     0xbeecd02c90273c43, 0xef69efdc30e9077e, 0xcf28f3bbba364c83, 0xc8b80c742bfdd966,
     0x83f12924c9400e15, 0xa35b3222d11d583e, 0x9c9a9d426cde5fdd, 0xf298ed021e76023a,
     0xb9e8b29602ced7f3, 0x853af80c4f919742, 0x505b7d96bf01b253, 0xa318b2bff19ed50c,
     0x5308029ce76f358f, 0x9a398f26b33f24a, 0x74595977a450ca7b, 0x4e8468ce85680390,
     0x2436fba706b7bf67, 0xfc0923f5563e8424, 0x5fcbfacf4f88506b, 0xbe722684e90680f2,
     0x1119ab5f71bd737d, 0xc739c71894e34ba8, 0xcd822b0cb4e2e159, 0x67b583610a0410e0,
     0xae18b6eb024bdfdb, 0x865951f3e76f5834, 0x18eebfb065ebcb59, 0xd35f0999dd5e5b00,
     0x241ad24ae452fe07, 0x942b4c3c79dd1dbe, 0x99b14f06198c22a7, 0xe2987fcf99376312,
     0x844daa9a945c9067, 0xfa234ecf470184dc, 0x6d97ccd39c1eb593, 0x8bf12e40249118d0,
     0x923f72bcdb934d2f, 0x69bd5c907fc76c8e, 0xe5827868949fc4f3, 0x4f5d13c3d6e20e0a,
     0xb3646a9d0111233, 0xf0af68353b17c0c8, 0xc920f56447f90673, 0x8960c8168641fe16,
     0xfee91d454a19219, 0xb25b446e135cf6b2, 0x761b04f2362314f9, 0xa151afe2fb1ff5be,
     0x2e973d6af5de4037, 0x485c4501258ab54c, 0xf21bd1e05d869951, 0xd79097aaa1050314,
     0x2b5e8c12e04ff4f9, 0x4e43a881e78d9764, 0x16d02eca685abdab, 0x7913757d06ccfaec,
     0x513242305e9af1ef, 0xc847965583801b62, 0x8862452b0de8c5e5, 0xce5ae051740dea5a,
     0x1a028ca4bb2875a3, 0x5680bba4aad7ffa6, 0x324d2adfb43a331b, 0xe456b7b1c0301b68,
     0x7801a00c795d859d, 0x41bdd48db6ae14a, 0x5fa8107e14c841fb, 0xd0e4bdea28bef85c,
     0x77bdb5eb30614b89, 0xdefa9fd302bbd858, 0x8a54bfa54688dad, 0x682ec11a915f0980,
     0xc4af0b1c0ffec719, 0xf76fd41604e89104, 0xeb01bf3d9ced6817, 0xa87180c091474c6e,
     0x351bdb3557277969, 0xee81b4ce09b723aa, 0x3bd353a36b05adb, 0x7bcb44892055af78,
     0xadfb4e960a0ca951, 0x2273bad9b4ac3d74, 0xebb4454444aaa94b, 0xe686846acad641a8,
     0x6a6c096404d1c7a3, 0x3d857f91fc5f6232, 0x5c63557a89fa3a27, 0x3ee7bc50de6d3e04,
     0x2490253782ef8a57, 0xad4d59ff8fa5f4c, 0x1c01a62b4c726533, 0x9ef66ba35cb5ab2e,
     0x4c47d62317d71cdf, 0x2a40c557d5a3f2a0, 0xf758338d53442abd, 0x1eaefcd073bcdd10,
     0xb9833e0eb50e8fd7, 0x8c966374151a67b6, 0x3edf7efe33cdfd7b, 0x5a2c4a1a310be558,
     0x69e43fcb628fbeb7, 0x99bd77ef54c90d36, 0xbab1c4f59f066e65, 0x797fd05581e14764,
     0x75de5603975e3ea9, 0x11ef41165111c73c, 0xb7ddf0821a4031f5, 0x3eec9e62cf45d24c,
     0xcda86289d51cd2c7, 0x127483edee743fae, 0x4c62baba754703cf, 0xcd8d463bb2e9583a,
     0xaa38a80cc6c609f3, 0x5f97356ca50a5986, 0x220a1b6bc88caeb, 0x20420bdd061f48c4,
     0xb0e0c20838c35c57, 0xeddd78004259c3d2, 0xb7b854be9806aa3b, 0xa2256b1fc3bd00fe,
     0x3ea3e4597d23917d, 0xd952cb1a7656852e, 0x89e052b4e095f921, 0x4be913d1c4f79a82,
     0x9d36a507aa427257, 0x69b7818b57dbbf8, 0x21102213d2cae2cd, 0x27ec5888afbdb47e,
     0x4f16a4e8c63e27f9, 0x250a3857af744546, 0x3e97bbeec0fcabdd, 0x4b6c65f8ca7fd632,
     0xa91fce0f23e1be61, 0x5050c5a688052206, 0x9e2e3f1a6b85328f, 0xe09ec18b956f5fea,
     0x4000f41b1b5b25e7, 0x3fbea3faba569084, 0xe471347f40647f65, 0xda7abaa5f3caf2c8,
     0x189201a4940001f9, 0x29e183e37d7da328, 0xd2ae28418f093e67, 0x8e5cb797039be80e,
     0x41604277260a071d, 0x11edac1b01696b0e, 0x6e27fc4394cebee3, 0xeeffd1b2b382a2c0,
     0x2443385d4c4e195, 0x2ee724f1ad94f68e, 0xa4491e380c5cf7b, 0xeb48a728aaf18d2e]"

definition GEAR :: "u8 \<Rightarrow> u64" where
  "GEAR b = GEARv2 ! unat b"

record fastcdc_globals =
  MinSize :: u32
  MinSize_divide_by_2 :: u32
  MaxSize :: u32
  expectCS :: u32
  Mask_15 :: u32
  Mask_11 :: u32
  Mask_11_64 :: u64
  Mask_15_64 :: u64
  LEARv2 :: "u64 list"
  g_global_matrix :: "u32 list"
  g_global_matrix_left :: "u32 list"

definition FING_GEAR_08KB_64 :: u64 where "FING_GEAR_08KB_64 = 0x0000d93003530000"
definition FING_GEAR_02KB_64 :: u64 where "FING_GEAR_02KB_64 = 0x0000d90003530000"
definition FING_GEAR_32KB_64 :: u64 where "FING_GEAR_32KB_64 = 0x0000d9f003530000"
definition FING_GEAR_08KB_ls_64 :: u64 where "FING_GEAR_08KB_ls_64 = push_bit 1 0x0000d93003530000"
definition FING_GEAR_02KB_ls_64 :: u64 where "FING_GEAR_02KB_ls_64 = push_bit 1 0x0000d90003530000"
definition FING_GEAR_32KB_ls_64 :: u64 where "FING_GEAR_32KB_ls_64 = push_bit 1 0x0000d9f003530000"

definition SymbolCount :: nat where "SymbolCount = 256"
definition SeedLength :: nat where "SeedLength = 64"

text \<open>The first four bytes of a digest, copied by \<open>memcpy\<close> into a little-endian word.\<close>

definition memcpy_u32 :: "u8 list \<Rightarrow> u32" where
  "memcpy_u32 bs =
     ucast (bs ! 0) OR push_bit 8 (ucast (bs ! 1)) OR push_bit 16 (ucast (bs ! 2))
       OR push_bit 24 (ucast (bs ! 3))"

text \<open>\<open>MD5\<close> is the digest function of the OpenSSL library, a parameter.\<close>

definition fastCDC_init :: "(u8 list \<Rightarrow> u8 list) \<Rightarrow> fastcdc_globals \<Rightarrow> fastcdc_globals" where
  "fastCDC_init MD5 g =
     (let matrix = map (\<lambda>i. memcpy_u32 (MD5 (replicate SeedLength (of_nat i)))) [0..<SymbolCount]
      in g\<lparr>g_global_matrix := matrix,
           g_global_matrix_left := map (push_bit 1) matrix,
           LEARv2 := map (\<lambda>i. push_bit 1 (GEARv2 ! i)) [0..<SymbolCount],
           MinSize := 8192 div 4,
           MaxSize := 8192 * 4,
           Mask_15 := 0xf9070353,
           Mask_11 := 0xd9000353,
           Mask_11_64 := 0x0000d90003530000,
           Mask_15_64 := 0x0000f90703530000,
           MinSize_divide_by_2 := (8192 div 4) div 2\<rparr>)"

subsection \<open>The scanning loops\<close>

text \<open>C's \<open>n / 2\<close>, which rounds towards zero, and reading \<open>p[i]\<close>.\<close>

definition half :: "int \<Rightarrow> int" where
  "half n = (if 0 \<le> n then n div 2 else - ((- n) div 2))"


definition byte_at :: "u8 list \<Rightarrow> int \<Rightarrow> u8 option" where
  "byte_at p i = (if 0 \<le> i \<and> nat i < length p then Some (p ! nat i) else None)"

text \<open>
  The loop \<open>while (i < bound) { fingerprint = (fingerprint << 1) + GEARv2[p[i]]; if
  (!(fingerprint & msk)) return i; i++; }\<close>: \<open>Inl i\<close> is the return of a cut point,
  \<open>Inr (i, fingerprint)\<close> the end of the loop.
\<close>

function gear_loop :: "u64 \<Rightarrow> u8 list \<Rightarrow> int \<Rightarrow> int \<Rightarrow> u64 \<Rightarrow> (int + int \<times> u64) option" where
  "gear_loop msk p bound i fingerprint =
     (if i < bound then
        (case byte_at p i of
           None \<Rightarrow> None
         | Some b \<Rightarrow>
             (let fingerprint = push_bit 1 fingerprint + GEAR b
              in if fingerprint AND msk = 0 then Some (Inl i)
                 else gear_loop msk p bound (i + 1) fingerprint))
      else Some (Inr (i, fingerprint)))"
  by pat_completeness auto
termination
  by (relation "measure (\<lambda>(msk, p, bound, i, fingerprint). nat (bound - i))") auto

declare gear_loop.simps [simp del]

text \<open>
  The loop of the two-byte variants: \<open>while (i < bound) { int a = i * 2; fingerprint =
  (fingerprint << 2) + LEARv2[p[a]]; if (!(fingerprint & msk_ls)) return a; fingerprint +=
  GEARv2[p[a + 1]]; if (!(fingerprint & msk)) return a + 1; i++; }\<close>.
\<close>

function gear_loop2 ::
  "u64 list \<Rightarrow> u64 \<Rightarrow> u64 \<Rightarrow> u8 list \<Rightarrow> int \<Rightarrow> int \<Rightarrow> u64 \<Rightarrow> (int + int \<times> u64) option" where
  "gear_loop2 lear msk_ls msk p bound i fingerprint =
     (if i < bound then
        (let a = i * 2 in
         case byte_at p a of
           None \<Rightarrow> None
         | Some b0 \<Rightarrow>
             (let fingerprint = push_bit 2 fingerprint + lear ! unat b0
              in if fingerprint AND msk_ls = 0 then Some (Inl a)
                 else (case byte_at p (a + 1) of
                         None \<Rightarrow> None
                       | Some b1 \<Rightarrow>
                           (let fingerprint = fingerprint + GEAR b1
                            in if fingerprint AND msk = 0 then Some (Inl (a + 1))
                               else gear_loop2 lear msk_ls msk p bound (i + 1) fingerprint))))
      else Some (Inr (i, fingerprint)))"
  by pat_completeness auto
termination
  by (relation "measure (\<lambda>(lear, msk_ls, msk, p, bound, i, fingerprint). nat (bound - i))") auto

declare gear_loop2.simps [simp del]

subsection \<open>The chunking functions\<close>

definition cdc_origin_64 :: "fastcdc_globals \<Rightarrow> u8 list \<Rightarrow> int \<Rightarrow> (int \<times> fastcdc_globals) option" where
  "cdc_origin_64 g p n =
     (let i = sint (MinSize g) in
      if word_of_int n \<le> MinSize g then Some (n, g)
      else
        (let n = (if word_of_int n > MaxSize g then sint (MaxSize g) else n) in
         case gear_loop FING_GEAR_08KB_64 p n i 0 of
           None \<Rightarrow> None
         | Some (Inl r) \<Rightarrow> Some (r, g)
         | Some (Inr _) \<Rightarrow> Some (n, g)))"

definition rolling_data_2byes_64 ::
  "fastcdc_globals \<Rightarrow> u8 list \<Rightarrow> int \<Rightarrow> (int \<times> fastcdc_globals) option" where
  "rolling_data_2byes_64 g p n =
     (let i = sint (MinSize_divide_by_2 g) in
      if word_of_int n \<le> MinSize g then Some (n, g)
      else
        (let n = (if word_of_int n > MaxSize g then sint (MaxSize g) else n) in
         case gear_loop2 (LEARv2 g) FING_GEAR_08KB_ls_64 FING_GEAR_08KB_64 p (half n) i 0 of
           None \<Rightarrow> None
         | Some (Inl r) \<Rightarrow> Some (r, g)
         | Some (Inr _) \<Rightarrow> Some (n, g)))"

definition normalized_chunking_64 ::
  "fastcdc_globals \<Rightarrow> u8 list \<Rightarrow> int \<Rightarrow> (int \<times> fastcdc_globals) option" where
  "normalized_chunking_64 g p n =
     (let g = g\<lparr>MinSize := 6 * 1024\<rparr>;
          i = sint (MinSize g);
          Mid = 8 * 1024 in
      if word_of_int n \<le> MinSize g then Some (n, g)
      else
        (let (n, Mid) = (if word_of_int n > MaxSize g then (sint (MaxSize g), Mid)
                         else if n < Mid then (n, n) else (n, Mid)) in
         case gear_loop FING_GEAR_32KB_64 p Mid i 0 of
           None \<Rightarrow> None
         | Some (Inl r) \<Rightarrow> Some (r, g)
         | Some (Inr (i, fingerprint)) \<Rightarrow>
             (case gear_loop FING_GEAR_02KB_64 p n i fingerprint of
                None \<Rightarrow> None
              | Some (Inl r) \<Rightarrow> Some (r, g)
              | Some (Inr _) \<Rightarrow> Some (n, g))))"

definition normalized_chunking_2byes_64 ::
  "fastcdc_globals \<Rightarrow> u8 list \<Rightarrow> int \<Rightarrow> (int \<times> fastcdc_globals) option" where
  "normalized_chunking_2byes_64 g p n =
     (let g = g\<lparr>MinSize := 6 * 1024\<rparr>;
          i = sint (MinSize g div 2);
          Mid = 8 * 1024 in
      if word_of_int n \<le> MinSize g then Some (n, g)
      else
        (let (n, Mid) = (if word_of_int n > MaxSize g then (sint (MaxSize g), Mid)
                         else if n < Mid then (n, n) else (n, Mid)) in
         case gear_loop2 (LEARv2 g) FING_GEAR_32KB_ls_64 FING_GEAR_32KB_64 p (half Mid) i 0 of
           None \<Rightarrow> None
         | Some (Inl r) \<Rightarrow> Some (r, g)
         | Some (Inr (i, fingerprint)) \<Rightarrow>
             (case gear_loop2 (LEARv2 g) FING_GEAR_02KB_ls_64 FING_GEAR_02KB_64 p (half n) i
                     fingerprint of
                None \<Rightarrow> None
              | Some (Inl r) \<Rightarrow> Some (r, g)
              | Some (Inr _) \<Rightarrow> Some (n, g))))"

subsection \<open>The class \<open>FastCDCChunker\<close>\<close>

record FastCDCChunker =
  m_min_size :: u32
  m_avg_size :: u32
  m_max_size :: u32

text \<open>
  The constructor, with the static flag \<open>s_initialized\<close>: the gear tables are set up once,
  the sizes are written to the library's globals every time.
\<close>

definition FastCDCChunker_new ::
  "(u8 list \<Rightarrow> u8 list) \<Rightarrow> bool \<Rightarrow> fastcdc_globals \<Rightarrow> u32 \<Rightarrow> u32 \<Rightarrow> u32 \<Rightarrow>
   FastCDCChunker \<times> bool \<times> fastcdc_globals" where
  "FastCDCChunker_new MD5 s_initialized g min_size avg_size max_size =
     (let g = (if \<not> s_initialized then fastCDC_init MD5 g else g)
      in (\<lparr>m_min_size = min_size, m_avg_size = avg_size, m_max_size = max_size\<rparr>, True,
          g\<lparr>MinSize := min_size, MaxSize := max_size, expectCS := avg_size\<rparr>))"

definition INT_MAX :: nat where "INT_MAX = 2147483647"

text \<open>
  \<open>next_chunk\<close>: \<open>length\<close> is a \<open>size_t\<close>, a natural number here, since no operation
  on it can overflow.  A null \<open>data\<close> pointer is \<open>None\<close> as an argument.
\<close>

definition next_chunk ::
  "fastcdc_globals \<Rightarrow> FastCDCChunker \<Rightarrow> u8 list option \<Rightarrow> nat \<Rightarrow> (nat \<times> fastcdc_globals) option" where
  "next_chunk g c data len =
     (case data of
        None \<Rightarrow> Some (0, g)
      | Some p \<Rightarrow>
          if len = 0 then Some (0, g)
          else
            (let m_min = unat (m_min_size c); m_max = unat (m_max_size c);
                 actual_length = (if len > m_max then m_max else len);
                 actual_length = (if actual_length > INT_MAX then INT_MAX else actual_length)
             in case normalized_chunking_64 g p (int actual_length) of
                  None \<Rightarrow> None
                | Some (chunk_size, g) \<Rightarrow>
                    Some
                      (if chunk_size \<le> 0 then (if m_min < len then m_min else len)
                       else if nat chunk_size < m_min then (if len < m_min then len else m_min)
                       else if nat chunk_size > m_max then m_max
                       else nat chunk_size, g)))"


subsection \<open>What the loops compute\<close>

text \<open>The gear hash of a run of bytes, and the reference description of a cut point: the first
  index from \<open>i\<close> on whose hash, taken over the bytes from \<open>i\<close>, has no bit of the mask.\<close>

definition gear_hash :: "u64 \<Rightarrow> u8 list \<Rightarrow> u64" where
  "gear_hash fp bs = fold (\<lambda>b fp. push_bit 1 fp + GEAR b) bs fp"

definition is_cut :: "u64 \<Rightarrow> u8 list \<Rightarrow> u64 \<Rightarrow> int \<Rightarrow> int \<Rightarrow> bool" where
  "is_cut msk p fp i r \<longleftrightarrow>
     gear_hash fp (take (nat (r + 1 - i)) (drop (nat i) p)) AND msk = 0"

definition first_cut :: "u64 \<Rightarrow> u8 list \<Rightarrow> u64 \<Rightarrow> int \<Rightarrow> int \<Rightarrow> int \<Rightarrow> bool" where
  "first_cut msk p fp i bound r \<longleftrightarrow>
     i \<le> r \<and> r < bound \<and> is_cut msk p fp i r \<and> (\<forall>k. i \<le> k \<and> k < r \<longrightarrow> \<not> is_cut msk p fp i k)"

lemma byte_at_in: "0 \<le> i \<Longrightarrow> i < int (length p) \<Longrightarrow> byte_at p i = Some (p ! nat i)"
  by (simp add: byte_at_def)

lemma take_drop_step:
  assumes "0 \<le> i" "i < int (length p)" "i < k"
  shows "take (nat (k - i)) (drop (nat i) p) = p ! nat i # take (nat (k - (i + 1))) (drop (nat (i + 1)) p)"
proof -
  have "drop (nat i) p = p ! nat i # drop (Suc (nat i)) p"
    using assms by (intro Cons_nth_drop_Suc [symmetric]) auto
  moreover have "nat (k - i) = Suc (nat (k - (i + 1)))" "nat (i + 1) = Suc (nat i)"
    using assms by auto
  ultimately show ?thesis by simp
qed

lemma is_cut_step:
  assumes "0 \<le> i" "i < int (length p)" "i < k"
  shows "is_cut msk p fp i k = is_cut msk p (push_bit 1 fp + GEAR (p ! nat i)) (i + 1) k"
  using take_drop_step [of i p "k + 1"] assms by (simp add: is_cut_def gear_hash_def)

lemma is_cut_here:
  assumes "0 \<le> i" "i < int (length p)"
  shows "is_cut msk p fp i i \<longleftrightarrow> (push_bit 1 fp + GEAR (p ! nat i)) AND msk = 0"
  using take_drop_step [of i p "i + 1"] assms by (simp add: is_cut_def gear_hash_def)

lemma gear_loop_spec:
  assumes "0 \<le> i" "bound \<le> int (length p)"
  shows "(\<exists>r. gear_loop msk p bound i fp = Some (Inl r) \<and> first_cut msk p fp i bound r) \<or>
     (\<exists>fp'. gear_loop msk p bound i fp = Some (Inr (max i bound, fp')) \<and>
        (\<forall>k. i \<le> k \<and> k < bound \<longrightarrow> \<not> is_cut msk p fp i k))"
  using assms
proof (induction msk p bound i fp rule: gear_loop.induct)
  case (1 msk p bound i fp)
  show ?case
  proof (cases "i < bound")
    case False
    then show ?thesis by (auto simp: gear_loop.simps [of msk p bound i])
  next
    case True
    let ?fp = "push_bit 1 fp + GEAR (p ! nat i)"
    have b: "byte_at p i = Some (p ! nat i)" using True "1.prems" by (simp add: byte_at_in)
    have here: "is_cut msk p fp i i \<longleftrightarrow> ?fp AND msk = 0"
      using True "1.prems" by (intro is_cut_here) auto
    have later: "is_cut msk p fp i k = is_cut msk p ?fp (i + 1) k" if "i < k" for k
      using True "1.prems" that by (intro is_cut_step) auto
    have split: "(\<forall>k. i \<le> k \<and> k < e \<longrightarrow> \<not> is_cut msk p fp i k) \<longleftrightarrow>
        (i < e \<longrightarrow> \<not> is_cut msk p fp i i) \<and> (\<forall>k. i + 1 \<le> k \<and> k < e \<longrightarrow> \<not> is_cut msk p ?fp (i + 1) k)"
      for e
      using later by (metis order_le_less zless_imp_add1_zle add1_zle_eq)
    show ?thesis
    proof (cases "?fp AND msk = 0")
      case cut: True
      then have "gear_loop msk p bound i fp = Some (Inl i)"
        using True b by (simp add: gear_loop.simps [of msk p bound i] Let_def)
      then show ?thesis using True cut here by (auto simp: first_cut_def)
    next
      case False
      have "gear_loop msk p bound i fp = gear_loop msk p bound (i + 1) ?fp"
        using True False b by (simp add: gear_loop.simps [of msk p bound i] Let_def)
      moreover have "first_cut msk p fp i bound r" if "first_cut msk p ?fp (i + 1) bound r" for r
        using that False here later [of r] by (auto simp: first_cut_def split)
      ultimately show ?thesis
        using "1.IH" [OF True b refl False] "1.prems" True False here
        by (auto simp: split [of bound])
    qed
  qed
qed

text \<open>The same result on every buffer with the same bytes up to the cut.\<close>

lemma is_cut_cong:
  assumes "take (nat (r + 1)) p = take (nat (r + 1)) q" "0 \<le> i" "i \<le> r"
  shows "is_cut msk p fp i r = is_cut msk q fp i r"
proof -
  have "take (nat (r + 1 - i)) (drop (nat i) xs) = drop (nat i) (take (nat (r + 1)) xs)" for xs :: "u8 list"
    using assms(2,3) by (simp add: take_drop nat_add_distrib [symmetric])
  with assms(1) show ?thesis by (simp add: is_cut_def)
qed

lemma first_cut_unique:
  "first_cut msk p fp i bound r \<Longrightarrow> first_cut msk p fp i bound s \<Longrightarrow> r = s"
  unfolding first_cut_def by (metis linorder_neqE_linordered_idom)


lemma gear_loop_Inr:
  assumes "gear_loop msk p bound i fp = Some (Inr (j, fp'))" "0 \<le> i" "i \<le> bound"
    "bound \<le> int (length p)"
  shows "j = bound \<and> fp' = gear_hash fp (take (nat (bound - i)) (drop (nat i) p))"
  using assms
proof (induction msk p bound i fp rule: gear_loop.induct)
  case (1 msk p bound i fp)
  show ?case
  proof (cases "i < bound")
    case False
    then have "gear_loop msk p bound i fp = Some (Inr (i, fp))"
      by (simp add: gear_loop.simps [of msk p bound i])
    with "1.prems"(1) have "j = i" "fp' = fp" by simp_all
    with False "1.prems" show ?thesis by (simp add: gear_hash_def)
  next
    case True
    let ?fp = "push_bit 1 fp + GEAR (p ! nat i)"
    have b: "byte_at p i = Some (p ! nat i)" using True "1.prems" by (simp add: byte_at_in)
    have nz: "?fp AND msk \<noteq> 0" and rec: "gear_loop msk p bound (i + 1) ?fp = Some (Inr (j, fp'))"
      using "1.prems"(1) True b
      by (auto simp: gear_loop.simps [of msk p bound i] Let_def split: if_splits)
    have "j = bound \<and> fp' = gear_hash ?fp (take (nat (bound - (i + 1))) (drop (nat (i + 1)) p))"
      using True "1.prems" by (intro "1.IH" [OF True b refl nz rec]) auto
    then show ?thesis
      using take_drop_step [of i p bound] True "1.prems" by (simp add: gear_hash_def)
  qed
qed

lemma is_cut_shift:
  assumes "0 \<le> i" "i \<le> m" "m \<le> k" "m \<le> int (length p)"
  shows "is_cut msk p (gear_hash fp (take (nat (m - i)) (drop (nat i) p))) m k = is_cut msk p fp i k"
proof -
  have "take (nat (k + 1 - i)) (drop (nat i) p) =
      take (nat (m - i)) (drop (nat i) p) @ take (nat (k + 1 - m)) (drop (nat m) p)"
  proof -
    have "nat (k + 1 - i) = nat (m - i) + nat (k + 1 - m)" "nat (m - i) + nat i = nat m"
      using assms by auto
    then show ?thesis by (simp add: take_add)
  qed
  then show ?thesis by (simp add: is_cut_def gear_hash_def)
qed

subsection \<open>Conversions between \<open>int\<close> and the unsigned globals\<close>

lemma uint_word_of_int_small: "0 \<le> n \<Longrightarrow> n < 2 ^ 31 \<Longrightarrow> uint (word_of_int n :: u32) = n"
  by (simp add: uint_word_of_int)

lemma le_of_int_u32:
  fixes w :: u32
  assumes "0 \<le> n" "n < 2 ^ 31"
  shows "word_of_int n \<le> w \<longleftrightarrow> n \<le> uint w"
  using uint_word_of_int_small [OF assms] by (simp add: word_le_def)

lemma sint_u32_small:
  assumes "uint (w :: u32) < 2 ^ 31"
  shows "sint w = uint w"
proof -
  have "- (2 ^ 31) \<le> (0 :: int)" by simp
  also have "0 \<le> uint w" by simp
  finally have "- (2 ^ 31) \<le> uint w" .
  then have "signed_take_bit 31 (uint w) = uint w"
    using assms by (rule signed_take_bit_int_eq_self)
  then show ?thesis by (simp add: sint_uint)
qed

subsection \<open>The two-byte loop is the one-byte loop\<close>

lemma push_bit_AND_zero:
  fixes x m :: u64
  assumes "\<not> bit m 63"
  shows "push_bit 1 x AND push_bit 1 m = 0 \<longleftrightarrow> x AND m = 0"
proof -
  have "push_bit 1 x AND push_bit 1 m = push_bit 1 (x AND m)"
    by (simp add: push_bit_and)
  moreover have "push_bit 1 (x AND m) = 0 \<longleftrightarrow> x AND m = 0"
  proof
    assume z: "push_bit 1 (x AND m) = 0"
    show "x AND m = 0"
    proof (rule bit_word_eqI)
      fix k :: nat
      assume k: "k < LENGTH(64)"
      have "\<not> bit (push_bit 1 (x AND m)) (Suc k)" using z by simp
      then show "bit (x AND m) k = bit 0 k"
        using assms k
        by (cases "k = 63") (auto simp: bit_push_bit_iff bit_and_iff simp del: push_bit_Suc)
    qed
  qed simp
  ultimately show ?thesis by simp
qed

definition lear_ok :: "u64 list \<Rightarrow> bool" where
  "lear_ok lear \<longleftrightarrow> (\<forall>b :: u8. lear ! unat b = push_bit 1 (GEAR b))"

lemma lear_ok_init: "lear_ok (LEARv2 (fastCDC_init MD5 g))"
proof -
  have "unat b < 256" for b :: u8
    using unsigned_less [of b, where 'a = nat] by simp
  then show ?thesis
    by (simp add: lear_ok_def fastCDC_init_def Let_def SymbolCount_def GEAR_def)
qed

lemma gear_loop2_eq:
  assumes "lear_ok lear" "\<And>x. push_bit 1 x AND msk_ls = 0 \<longleftrightarrow> x AND msk = 0" "0 \<le> i"
  shows "gear_loop2 lear msk_ls msk p bound i fp =
    map_option (map_sum id (\<lambda>(j, f). (j div 2, f))) (gear_loop msk p (2 * bound) (2 * i) fp)"
  using assms
proof (induction lear msk_ls msk p bound i fp rule: gear_loop2.induct)
  case (1 lear msk_ls msk p bound i fp)
  note [simp del] = push_bit_Suc
  note one = gear_loop.simps [of msk p "2 * bound" "2 * i" fp]
  note two = gear_loop.simps [of msk p "2 * bound" "2 * i + 1"]
  note unf = gear_loop2.simps [of lear msk_ls msk p bound i fp, unfolded mult.commute [of i 2]]
  show ?case
  proof (cases "i < bound")
    case False
    then show ?thesis by (simp add: one unf)
  next
    case True
    then have lt: "2 * i < 2 * bound" "2 * i + 1 < 2 * bound" by auto
    show ?thesis
    proof (cases "byte_at p (i * 2)")
      case None
      then have "byte_at p (2 * i) = None" by (simp add: mult.commute)
      then show ?thesis using True lt by (simp add: one unf)
    next
      case b0: (Some b0)
      let ?f1 = "push_bit 1 fp + GEAR b0"
      have f: "push_bit 2 fp + lear ! unat b0 = push_bit 1 ?f1"
        using "1.prems"(1) by (simp add: lear_ok_def push_bit_add push_bit_push_bit numeral_2_eq_2)
      have b0': "byte_at p (2 * i) = Some b0" using b0 by (simp add: mult.commute)
      show ?thesis
      proof (cases "?f1 AND msk = 0")
        case cut: True
        have "push_bit 1 ?f1 AND msk_ls = 0"
          using cut "1.prems"(2) by blast
        then show ?thesis
          using True lt b0' cut f by (simp add: one unf Let_def)
      next
        case c1: False
        have n1: "push_bit 1 ?f1 AND msk_ls \<noteq> 0"
          using c1 "1.prems"(2) by blast
        show ?thesis
        proof (cases "byte_at p (i * 2 + 1)")
          case None
          then have "byte_at p (2 * i + 1) = None" by (simp add: mult.commute)
          then show ?thesis
            using True lt b0' c1 n1 f by (simp add: one two unf Let_def)
        next
          case b1: (Some b1)
          then have b1': "byte_at p (2 * i + 1) = Some b1" by (simp add: mult.commute)
          let ?f2 = "push_bit 1 ?f1 + GEAR b1"
          have g1: "gear_loop msk p (2 * bound) (2 * i) fp =
              gear_loop msk p (2 * bound) (2 * i + 1) ?f1"
            using lt b0' c1 by (simp add: one Let_def)
          show ?thesis
          proof (cases "?f2 AND msk = 0")
            case cut: True
            then show ?thesis
              using True lt b0' b1' n1 f g1 by (simp add: two unf Let_def)
          next
            case c2: False
            have l: "gear_loop2 lear msk_ls msk p bound i fp =
                gear_loop2 lear msk_ls msk p bound (i + 1) ?f2"
              using True b0' b1' n1 c2 f by (simp add: unf Let_def)
            have r: "gear_loop msk p (2 * bound) (2 * i) fp =
                gear_loop msk p (2 * bound) (2 * (i + 1)) ?f2"
              using lt b1' c2 g1 by (simp add: two Let_def distrib_left add.commute [of "2 * i" 2])
            have "gear_loop2 lear msk_ls msk p bound (i + 1) (push_bit 2 fp + lear ! unat b0 + GEAR b1) =
                map_option (map_sum id (\<lambda>(j, f). (j div 2, f)))
                  (gear_loop msk p (2 * bound) (2 * (i + 1)) (push_bit 2 fp + lear ! unat b0 + GEAR b1))"
              using n1 c2 b1 "1.prems" unfolding f [symmetric]
              by (intro "1.IH" [OF True refl b0 refl _ b1 refl]) auto
            then show ?thesis unfolding l r f .
          qed
        qed
      qed
    qed
  qed
qed


lemma masks_ls:
  "push_bit 1 x AND FING_GEAR_08KB_ls_64 = 0 \<longleftrightarrow> x AND FING_GEAR_08KB_64 = 0"
  "push_bit 1 x AND FING_GEAR_02KB_ls_64 = 0 \<longleftrightarrow> x AND FING_GEAR_02KB_64 = 0"
  "push_bit 1 x AND FING_GEAR_32KB_ls_64 = 0 \<longleftrightarrow> x AND FING_GEAR_32KB_64 = 0"
proof -
  have b: "\<not> bit FING_GEAR_08KB_64 63" "\<not> bit FING_GEAR_02KB_64 63" "\<not> bit FING_GEAR_32KB_64 63"
    by (simp_all add: FING_GEAR_08KB_64_def FING_GEAR_02KB_64_def FING_GEAR_32KB_64_def)
  have e: "FING_GEAR_08KB_ls_64 = push_bit 1 FING_GEAR_08KB_64"
    "FING_GEAR_02KB_ls_64 = push_bit 1 FING_GEAR_02KB_64"
    "FING_GEAR_32KB_ls_64 = push_bit 1 FING_GEAR_32KB_64"
    unfolding FING_GEAR_08KB_ls_64_def FING_GEAR_02KB_ls_64_def FING_GEAR_32KB_ls_64_def
      FING_GEAR_08KB_64_def FING_GEAR_02KB_64_def FING_GEAR_32KB_64_def by (rule refl)+
  show "push_bit 1 x AND FING_GEAR_08KB_ls_64 = 0 \<longleftrightarrow> x AND FING_GEAR_08KB_64 = 0"
    "push_bit 1 x AND FING_GEAR_02KB_ls_64 = 0 \<longleftrightarrow> x AND FING_GEAR_02KB_64 = 0"
    "push_bit 1 x AND FING_GEAR_32KB_ls_64 = 0 \<longleftrightarrow> x AND FING_GEAR_32KB_64 = 0"
    unfolding e by (rule push_bit_AND_zero [OF b(1)], rule push_bit_AND_zero [OF b(2)],
      rule push_bit_AND_zero [OF b(3)])
qed

lemma half_even: "0 \<le> n \<Longrightarrow> even n \<Longrightarrow> 2 * half n = n"
  by (simp add: half_def)

lemma gear_loop_Inr_index:
  "gear_loop msk p bound i fp = Some (Inr (j, f)) \<Longrightarrow> j = max i bound"
proof (induction msk p bound i fp rule: gear_loop.induct)
  case (1 msk p bound i fp)
  then show ?case
    by (cases "i < bound")
      (fastforce simp: gear_loop.simps [of msk p bound i fp] Let_def split: option.splits if_splits)+
qed

subsection \<open>The normalised chunker finds the first cut\<close>

definition norm_mask :: "int \<Rightarrow> int \<Rightarrow> u64" where
  "norm_mask Mid r = (if r < Mid then FING_GEAR_32KB_64 else FING_GEAR_02KB_64)"

lemma normalized_chunking_64_loops:
  assumes "6144 < n" "n < 2 ^ 31" "n \<le> uint (MaxSize g)" "n \<le> int (length p)"
  defines "Mid \<equiv> min n 8192"
  shows "\<exists>r. normalized_chunking_64 g p n = Some (r, g\<lparr>MinSize := 6144\<rparr>) \<and> 6144 \<le> r \<and> r \<le> n \<and>
      (\<forall>k. 6144 \<le> k \<and> k < r \<longrightarrow> \<not> is_cut (norm_mask Mid k) p 0 6144 k) \<and>
      (r < n \<longrightarrow> is_cut (norm_mask Mid r) p 0 6144 r)"
proof -
  let ?m1 = FING_GEAR_32KB_64 and ?m2 = FING_GEAR_02KB_64
  have M: "6144 \<le> Mid" "Mid \<le> n" "Mid \<le> int (length p)" using assms by (auto simp: Mid_def)
  have le: "\<not> word_of_int n \<le> (6144 :: u32)" "\<not> word_of_int n > MaxSize g"
    using assms(1-3) le_of_int_u32 [of n "6144"] le_of_int_u32 [of n "MaxSize g"]
    by (auto simp: not_less)
  have unf: "normalized_chunking_64 g p n =
      (case gear_loop ?m1 p Mid 6144 0 of
         None \<Rightarrow> None
       | Some (Inl r) \<Rightarrow> Some (r, g\<lparr>MinSize := 6144\<rparr>)
       | Some (Inr (i, f)) \<Rightarrow>
           (case gear_loop ?m2 p n i f of
              None \<Rightarrow> None
            | Some (Inl r) \<Rightarrow> Some (r, g\<lparr>MinSize := 6144\<rparr>)
            | Some (Inr _) \<Rightarrow> Some (n, g\<lparr>MinSize := 6144\<rparr>)))"
    using le by (simp add: normalized_chunking_64_def Let_def Mid_def min_def)
  from gear_loop_spec [of 6144 Mid p ?m1 0] M consider
      (cut) r where "gear_loop ?m1 p Mid 6144 0 = Some (Inl r)" "first_cut ?m1 p 0 6144 Mid r"
    | (no) f where "gear_loop ?m1 p Mid 6144 0 = Some (Inr (Mid, f))"
        "\<forall>k. 6144 \<le> k \<and> k < Mid \<longrightarrow> \<not> is_cut ?m1 p 0 6144 k"
    by (auto simp: max_def)
  then show ?thesis
  proof cases
    case cut
    then show ?thesis using M by (auto simp: unf first_cut_def norm_mask_def)
  next
    case no
    have f: "f = gear_hash 0 (take (nat (Mid - 6144)) (drop (nat 6144) p))"
      using gear_loop_Inr [OF no(1)] M by simp
    have sh: "is_cut ?m2 p f Mid k = is_cut ?m2 p 0 6144 k" if "Mid \<le> k" for k
      unfolding f using M that by (intro is_cut_shift) auto
    from gear_loop_spec [of Mid n p ?m2 f] M assms(4) consider
        (cut2) r where "gear_loop ?m2 p n Mid f = Some (Inl r)" "first_cut ?m2 p f Mid n r"
      | (no2) f' where "gear_loop ?m2 p n Mid f = Some (Inr (n, f'))"
          "\<forall>k. Mid \<le> k \<and> k < n \<longrightarrow> \<not> is_cut ?m2 p f Mid k"
      by (auto simp: max_def split: if_splits)
    then show ?thesis
    proof cases
      case cut2
      then show ?thesis using M no sh by (auto simp: unf first_cut_def norm_mask_def)
    next
      case no2
      then show ?thesis using M no sh by (auto simp: unf norm_mask_def)
    qed
  qed
qed


lemma normalized_chunking_64_small:
  assumes "0 \<le> n" "n \<le> 6144"
  shows "normalized_chunking_64 g p n = Some (n, g\<lparr>MinSize := 6144\<rparr>)"
  using assms le_of_int_u32 [of n "6144"] by (simp add: normalized_chunking_64_def Let_def)

lemma normalized_chunking_64_bounds:
  assumes "0 < n" "n < 2 ^ 31" "n \<le> uint (MaxSize g)" "n \<le> int (length p)"
  shows "\<exists>r. normalized_chunking_64 g p n = Some (r, g\<lparr>MinSize := 6144\<rparr>) \<and> min n 6144 \<le> r \<and> r \<le> n"
proof (cases "n \<le> 6144")
  case True
  then show ?thesis using assms(1) by (simp add: normalized_chunking_64_small)
next
  case False
  then show ?thesis using normalized_chunking_64_loops [of n g p] assms by auto
qed

subsection \<open>The chunker keeps the contract of the chunking loop\<close>

text \<open>A chunker whose maximal size is the one in the library's globals, as the constructor leaves
  it, and whose sizes are sensible.\<close>

definition chunker_ok :: "fastcdc_globals \<times> FastCDCChunker \<Rightarrow> bool" where
  "chunker_ok s \<longleftrightarrow> MaxSize (fst s) = m_max_size (snd s) \<and> 0 < m_min_size (snd s) \<and>
     m_min_size (snd s) \<le> m_max_size (snd s) \<and> unat (m_max_size (snd s)) \<le> INT_MAX"

definition chunker_next :: "fastcdc_globals \<times> FastCDCChunker \<Rightarrow> u8 list \<Rightarrow>
    (nat \<times> (fastcdc_globals \<times> FastCDCChunker)) option" where
  "chunker_next s bs = map_option (\<lambda>(k, g). (k, (g, snd s)))
     (next_chunk (fst s) (snd s) (Some bs) (length bs))"

lemma next_chunk_bounds:
  assumes "chunker_ok (g, c)" "0 < len" "len \<le> length p"
  shows "\<exists>k. next_chunk g c (Some p) len = Some (k, g\<lparr>MinSize := 6144\<rparr>) \<and> 0 < k \<and> k \<le> len \<and>
     k \<le> unat (m_max_size c) \<and> min (unat (m_min_size c)) len \<le> k"
proof -
  let ?min = "unat (m_min_size c)" and ?max = "unat (m_max_size c)"
  define n where "n = (if len > ?max then ?max else len)"
  have c: "MaxSize g = m_max_size c" "0 < ?min" "?min \<le> ?max" "?max \<le> INT_MAX"
    using assms(1) by (auto simp: chunker_ok_def word_le_nat_alt word_less_nat_alt)
  have n: "0 < n" "n \<le> len" "n \<le> ?max" "min ?min len \<le> n" "\<not> n > INT_MAX"
    using c assms(2) by (auto simp: n_def)
  have "int n \<le> uint (MaxSize g)" using n(3) by (simp only: c(1) uint_nat of_nat_le_iff)
  moreover have "int n < 2 ^ 31" using n(5) by (simp add: INT_MAX_def)
  ultimately obtain r where r: "normalized_chunking_64 g p (int n) = Some (r, g\<lparr>MinSize := 6144\<rparr>)"
    "min (int n) 6144 \<le> r" "r \<le> int n"
    using normalized_chunking_64_bounds [of "int n" g p] n assms(3) by auto
  have "next_chunk g c (Some p) len =
      Some (if r \<le> 0 then (if ?min < len then ?min else len)
            else if nat r < ?min then (if len < ?min then len else ?min)
            else if nat r > ?max then ?max else nat r, g\<lparr>MinSize := 6144\<rparr>)"
    using assms(2) r(1) n(5) by (simp add: next_chunk_def Let_def n_def)
  then show ?thesis using r(2,3) n c by (auto simp: min_def split: if_splits)
qed

interpretation fastcdc: chunker chunker_next chunker_ok
  "\<lambda>s. unat (m_min_size (snd s))" "\<lambda>s. unat (m_max_size (snd s))"
proof
  fix st :: "fastcdc_globals \<times> FastCDCChunker" and bs :: "u8 list"
  assume "chunker_ok st" "bs \<noteq> []"
  then show "\<exists>k st'. chunker_next st bs = Some (k, st') \<and> 0 < k \<and> k \<le> length bs \<and>
      k \<le> unat (m_max_size (snd st)) \<and> min (unat (m_min_size (snd st))) (length bs) \<le> k \<and>
      chunker_ok st' \<and> unat (m_min_size (snd st')) = unat (m_min_size (snd st)) \<and>
      unat (m_max_size (snd st')) = unat (m_max_size (snd st))"
    using next_chunk_bounds [of "fst st" "snd st" "length bs" bs]
    by (auto simp: chunker_next_def chunker_ok_def)
qed

subsection \<open>Properties\<close>

text \<open>
  C16. The normalised chunker, on a buffer that holds \<open>n\<close> bytes with \<open>n\<close> between the
  minimum of 6144 and the configured maximum, reads only inside the buffer and returns the first
  position from 6144 on at which the gear hash of the bytes read since 6144 has no bit of the
  mask in force there (the strict mask below \<open>Mid\<close>, the loose one from \<open>Mid\<close> on),
  and \<open>n\<close> when there is none.
\<close>
theorem normalized_chunking_64_first_cut:
  assumes "6144 < n" "n < 2 ^ 31" "n \<le> uint (MaxSize g)" "n \<le> int (length p)"
  shows "\<exists>r. normalized_chunking_64 g p n = Some (r, g\<lparr>MinSize := 6144\<rparr>) \<and> 6144 \<le> r \<and> r \<le> n \<and>
      (\<forall>k. 6144 \<le> k \<and> k < r \<longrightarrow> \<not> is_cut (norm_mask (min n 8192) k) p 0 6144 k) \<and>
      (r < n \<longrightarrow> is_cut (norm_mask (min n 8192) r) p 0 6144 r)"
  by (rule normalized_chunking_64_loops) (use assms in auto)

definition globals0 :: fastcdc_globals where
  "globals0 = \<lparr>MinSize = 2048, MinSize_divide_by_2 = 1024, MaxSize = 65536, expectCS = 8192,
     Mask_15 = 0, Mask_11 = 0, Mask_11_64 = 0, Mask_15_64 = 0, LEARv2 = map (push_bit 1) GEARv2,
     g_global_matrix = [], g_global_matrix_left = []\<rparr>"

theorem normalized_chunking_64_first_cut_witness:
  "\<exists>r. normalized_chunking_64 globals0 (replicate 7000 0) 7000 =
      Some (r, globals0\<lparr>MinSize := 6144\<rparr>) \<and> 6144 \<le> r \<and> r \<le> 7000"
proof -
  have "6144 < (7000 :: int)" "(7000 :: int) < 2 ^ 31" "7000 \<le> uint (MaxSize globals0)"
    "7000 \<le> int (length (replicate 7000 (0 :: u8)))"
    by (simp_all add: globals0_def)
  from normalized_chunking_64_first_cut [OF this] show ?thesis by blast
qed

text \<open>
  C17. The cut point is content defined: it depends only on the bytes up to and including it.  Two
  buffers that agree on them are cut at the same place, whatever follows and however long the two
  buffers are (both at least \<open>Mid\<close> long and within the maximum).
\<close>
theorem normalized_chunking_64_content_defined:
  assumes r: "normalized_chunking_64 g p n = Some (r, g')" "r < n"
    and p: "8192 \<le> n" "n < 2 ^ 31" "n \<le> uint (MaxSize g)" "n \<le> int (length p)"
    and q: "8192 \<le> m" "r < m" "m < 2 ^ 31" "m \<le> uint (MaxSize g)" "m \<le> int (length q)"
    and same: "take (nat (r + 1)) p = take (nat (r + 1)) q"
  shows "normalized_chunking_64 g q m = Some (r, g')"
proof -
  let ?cut = "\<lambda>k p. is_cut (norm_mask 8192 k) p 0 6144 k"
  have a: "6144 \<le> r" "?cut r p" "\<And>k. 6144 \<le> k \<Longrightarrow> k < r \<Longrightarrow> \<not> ?cut k p" "g' = g\<lparr>MinSize := 6144\<rparr>"
    using normalized_chunking_64_loops [of n g p] r p by (auto simp: min_def split: if_splits)
  obtain s where s: "normalized_chunking_64 g q m = Some (s, g\<lparr>MinSize := 6144\<rparr>)" "6144 \<le> s" "s \<le> m"
    "\<And>k. 6144 \<le> k \<Longrightarrow> k < s \<Longrightarrow> \<not> ?cut k q" "s < m \<Longrightarrow> ?cut s q"
    using normalized_chunking_64_loops [of m g q] q by (auto simp: min_def split: if_splits)
  have eq: "?cut k p = ?cut k q" if "6144 \<le> k" "k \<le> r" for k
  proof (rule is_cut_cong)
    have "take (nat (k + 1)) (take (nat (r + 1)) xs) = take (nat (k + 1)) xs" for xs :: "u8 list"
      using that by (simp add: min_absorb1)
    then show "take (nat (k + 1)) p = take (nat (k + 1)) q" by (metis same)
  qed (use that in auto)
  have "\<not> r < s" using s(4) [of r] a(1,2) eq [of r] by auto
  moreover have "\<not> s < r"
    using s(2,5) q(2) a(3) [of s] eq [of s] by force
  ultimately show ?thesis using s(1) a(4) by simp
qed

text \<open>
  Rolling two bytes at a time is only an optimisation: after \<open>fastCDC_init\<close> the
  two-byte variant of the original chunker returns what the one-byte variant returns, for every
  buffer and every even length (for an odd length the two-byte loop does not look at the last
  byte).
\<close>
lemma rolling_data_2byes_64_eq:
  assumes "even n" "0 \<le> n" "n < 2 ^ 31"
  shows "rolling_data_2byes_64 (fastCDC_init MD5 g) p n = cdc_origin_64 (fastCDC_init MD5 g) p n"
proof -
  let ?g = "fastCDC_init MD5 g"
  have c: "MinSize ?g = 2048" "MaxSize ?g = 32768" "MinSize_divide_by_2 ?g = 1024"
    by (simp_all add: fastCDC_init_def Let_def)
  define m where "m = (if word_of_int n > MaxSize ?g then sint (MaxSize ?g) else n)"
  have m: "0 \<le> m" "even m" using assms by (auto simp: m_def c)
  have "gear_loop2 (LEARv2 ?g) FING_GEAR_08KB_ls_64 FING_GEAR_08KB_64 p (half m) 1024 0 =
      map_option (map_sum id (\<lambda>(j, f). (j div 2, f))) (gear_loop FING_GEAR_08KB_64 p m 2048 0)"
    using gear_loop2_eq [OF lear_ok_init masks_ls(1), of 1024 MD5 g p "half m" 0] half_even [OF m]
    by simp
  moreover have "rolling_data_2byes_64 ?g p n =
      (if word_of_int n \<le> (2048 :: u32) then Some (n, ?g)
       else case gear_loop2 (LEARv2 ?g) FING_GEAR_08KB_ls_64 FING_GEAR_08KB_64 p (half m) 1024 0 of
              None \<Rightarrow> None | Some (Inl r) \<Rightarrow> Some (r, ?g) | Some (Inr _) \<Rightarrow> Some (m, ?g))"
    by (simp only: rolling_data_2byes_64_def c Let_def m_def) simp
  moreover have "cdc_origin_64 ?g p n =
      (if word_of_int n \<le> (2048 :: u32) then Some (n, ?g)
       else case gear_loop FING_GEAR_08KB_64 p m 2048 0 of
              None \<Rightarrow> None | Some (Inl r) \<Rightarrow> Some (r, ?g) | Some (Inr _) \<Rightarrow> Some (m, ?g))"
    by (simp only: cdc_origin_64_def c Let_def m_def) simp
  ultimately show ?thesis
    by (cases "gear_loop FING_GEAR_08KB_64 p m 2048 0") (auto split: sum.split)
qed

text \<open>
  The same for the normalised chunker, for every state of the globals in which the table
  \<open>LEARv2\<close> has been set up and the maximal chunk size is even.
\<close>
lemma normalized_chunking_2byes_64_eq:
  assumes "even n" "0 \<le> n" "n < 2 ^ 31"
    and "lear_ok (LEARv2 g)" "even (uint (MaxSize g))" "uint (MaxSize g) < 2 ^ 31"
  shows "normalized_chunking_2byes_64 g p n = normalized_chunking_64 g p n"
proof -
  define Mid where "Mid = (if word_of_int n > MaxSize g then 8192 else if n < 8192 then n else 8192)"
  define m where "m = (if word_of_int n > MaxSize g then sint (MaxSize g) else n)"
  have m: "0 \<le> m" "even m" and Mid: "0 \<le> Mid" "even Mid"
    using assms sint_u32_small [OF assms(6)] by (auto simp: m_def Mid_def)
  have l1: "gear_loop2 (LEARv2 g) FING_GEAR_32KB_ls_64 FING_GEAR_32KB_64 p (half Mid) 3072 0 =
      map_option (map_sum id (\<lambda>(j, f). (j div 2, f))) (gear_loop FING_GEAR_32KB_64 p Mid 6144 0)"
    using gear_loop2_eq [OF assms(4) masks_ls(3), of 3072 p "half Mid" 0] half_even [OF Mid] by simp
  have l2: "gear_loop2 (LEARv2 g) FING_GEAR_02KB_ls_64 FING_GEAR_02KB_64 p (half m) (j div 2) f =
      map_option (map_sum id (\<lambda>(j, f). (j div 2, f))) (gear_loop FING_GEAR_02KB_64 p m j f)"
    if "gear_loop FING_GEAR_32KB_64 p Mid 6144 0 = Some (Inr (j, f))" for j f
  proof -
    have "j = max 6144 Mid" using gear_loop_Inr_index [OF that] .
    with Mid(2) have "even j" "0 \<le> j" by (auto simp: max_def)
    then show ?thesis
      using gear_loop2_eq [OF assms(4) masks_ls(2), of "j div 2" p "half m" f] half_even [OF m] by simp
  qed
  let ?g = "g\<lparr>MinSize := 6144\<rparr>"
  have num: "(6 * 1024 :: u32) = 6144" "(8 * 1024 :: int) = 8192"
    and fields: "LEARv2 ?g = LEARv2 g" "MaxSize ?g = MaxSize g" "MinSize ?g = 6144"
    and start: "sint (6144 div 2 :: u32) = 3072" "sint (6144 :: u32) = 6144"
    by simp_all
  have sel: "(if word_of_int n > MaxSize g then (sint (MaxSize g), 8192)
      else if n < 8192 then (n, n) else (n, 8192)) = (m, Mid)"
    by (simp add: m_def Mid_def)
  have u2: "normalized_chunking_2byes_64 g p n =
      (if word_of_int n \<le> (6144 :: u32) then Some (n, ?g)
       else case gear_loop2 (LEARv2 g) FING_GEAR_32KB_ls_64 FING_GEAR_32KB_64 p (half Mid) 3072 0 of
              None \<Rightarrow> None | Some (Inl r) \<Rightarrow> Some (r, ?g)
            | Some (Inr (i, f)) \<Rightarrow>
                (case gear_loop2 (LEARv2 g) FING_GEAR_02KB_ls_64 FING_GEAR_02KB_64 p (half m) i f of
                   None \<Rightarrow> None | Some (Inl r) \<Rightarrow> Some (r, ?g) | Some (Inr _) \<Rightarrow> Some (m, ?g)))"
    unfolding normalized_chunking_2byes_64_def Let_def num fields start sel prod.case ..
  have u1: "normalized_chunking_64 g p n =
      (if word_of_int n \<le> (6144 :: u32) then Some (n, ?g)
       else case gear_loop FING_GEAR_32KB_64 p Mid 6144 0 of
              None \<Rightarrow> None | Some (Inl r) \<Rightarrow> Some (r, ?g)
            | Some (Inr (i, f)) \<Rightarrow>
                (case gear_loop FING_GEAR_02KB_64 p m i f of
                   None \<Rightarrow> None | Some (Inl r) \<Rightarrow> Some (r, ?g) | Some (Inr _) \<Rightarrow> Some (m, ?g)))"
    unfolding normalized_chunking_64_def Let_def num fields start sel prod.case ..
  show ?thesis
    unfolding u1 u2 l1
    by (cases "gear_loop FING_GEAR_32KB_64 p Mid 6144 0") (auto simp: l2 split: option.split sum.split)
qed

lemma first_cut_example:
  "normalized_chunking_64 globals0 (replicate 6144 0 @ [35, 91] @ replicate 3000 0) 9000 =
   Some (6145, globals0\<lparr>MinSize := 6144\<rparr>)"
proof -
  define p where "p = replicate 6144 (0 :: u8) @ [35, 91] @ replicate 3000 0"
  have p: "byte_at p 6144 = Some 35" "byte_at p 6145 = Some 91"
    by (simp_all add: byte_at_def nth_append p_def)
  have "gear_loop FING_GEAR_32KB_64 p 8192 6144 0 = Some (Inl 6145)"
    by (simp add: gear_loop.simps [of _ p _ 6144] gear_loop.simps [of _ p _ 6145] p Let_def
        GEAR_def GEARv2_def FING_GEAR_32KB_64_def)
  then have "normalized_chunking_64 globals0 p 9000 = Some (6145, globals0\<lparr>MinSize := 6144\<rparr>)"
    by (simp add: normalized_chunking_64_def globals0_def Let_def)
  then show ?thesis by (simp only: p_def)
qed

theorem normalized_chunking_64_content_defined_witness:
  "normalized_chunking_64 globals0 (replicate 6144 0 @ [35, 91] @ replicate 4000 7) 10000 =
   Some (6145, globals0\<lparr>MinSize := 6144\<rparr>)"
  by (rule normalized_chunking_64_content_defined [OF first_cut_example])
    (simp_all add: globals0_def take_Cons')

text \<open>
  C18. The chunk size that the compressor's chunker returns for non-empty data is positive, within
  the data, at most the configured maximum, and at least the configured minimum unless the data
  is shorter; the buffer is never read out of range.  The library call leaves 6144 in the global
  \<open>MinSize\<close>, whatever was configured.
\<close>
theorem next_chunk_in_range:
  assumes "chunker_ok (g, c)" "0 < len" "len \<le> length p"
  shows "\<exists>k. next_chunk g c (Some p) len = Some (k, g\<lparr>MinSize := 6144\<rparr>) \<and> 0 < k \<and> k \<le> len \<and>
     k \<le> unat (m_max_size c) \<and> min (unat (m_min_size c)) len \<le> k"
  by (rule next_chunk_bounds [OF assms])

definition chunker0 :: FastCDCChunker where
  "chunker0 = \<lparr>m_min_size = 2048, m_avg_size = 8192, m_max_size = 65536\<rparr>"

lemma chunker_ok_0: "chunker_ok (globals0, chunker0)"
  by (simp add: chunker_ok_def chunker0_def globals0_def INT_MAX_def)

theorem next_chunk_in_range_witness:
  "\<exists>k. next_chunk globals0 chunker0 (Some [1, 2, 3]) 3 = Some (k, globals0\<lparr>MinSize := 6144\<rparr>) \<and>
     0 < k \<and> k \<le> 3"
  using next_chunk_in_range [OF chunker_ok_0, of 3 "[1, 2, 3]"] by auto

text \<open>
  C13. The chunking loop of \<open>zfile_compress\<close> with the FastCDC chunker loses nothing: it
  returns for every input, the blocks of all the batches it hands to the compressor, put one after
  the other, are the data; no batch is empty or larger than \<open>nbatch\<close>; every block is
  non-empty and at most the configured maximum, and every block but the last has at least the
  configured minimum.
\<close>
theorem zfile_chunking_complete:
  assumes "chunker_ok st" "0 < nbatch"
  shows "\<exists>st' bs. chunk_data chunker_next nbatch data st = Some (st', bs) \<and> chunker_ok st' \<and>
     concat (concat (map (batch_blocks data) bs)) = data \<and>
     (\<forall>b\<in>set bs. snd b \<noteq> [] \<and> length (snd b) \<le> nbatch) \<and>
     (\<forall>l\<in>set (batch_lens bs). 0 < l \<and> l \<le> unat (m_max_size (snd st))) \<and>
     (\<forall>l\<in>set (butlast (batch_lens bs)). unat (m_min_size (snd st)) \<le> l)"
  using fastcdc.chunk_data_ok [OF assms, of data] by (auto simp: fastcdc.loop_post_def)

theorem zfile_chunking_complete_witness:
  "\<exists>st' bs. chunk_data chunker_next 4 [1, 2, 3] (globals0, chunker0) = Some (st', bs) \<and>
     concat (concat (map (batch_blocks [1, 2, 3]) bs)) = [1, 2, 3]"
  using zfile_chunking_complete [OF chunker_ok_0, of 4 "[1, 2, 3]"] by auto

end
