(* ===== verification/Cache_State.thy ===== *)
theory Cache_State
  imports OCF_Prelude
begin

text \<open>
  The state of a cache instance, as far as the cache line metadata is concerned, and the accessors
  of its tables (\<open>metadata/metadata_core.c\<close>, \<open>metadata_partition.c\<close>,
  \<open>metadata_eviction_policy.c\<close>, the hash table part of \<open>metadata.c\<close>,
  \<open>metadata_raw.h\<close>).

  A metadata table is a function from the index; its descriptor holds the number of entries, and
  every access checks the index against it first (\<open>_raw_bug_on\<close>), so an access out of range
  is the value \<open>None\<close>.  The tables live in memory (the raw types \<open>ram\<close> and
  \<open>volatile\<close>), hence an accessor never returns a null pointer and the branches that
  handle one are not part of the model.

  The status words \<open>valid\<close> and \<open>dirty\<close> of a line have one bit per sector, in one of
  five types selected by the cache line size; the source instantiates its code for each of them
  with a macro.  Here the type is the parameter \<open>'s\<close>.

  Partitions are referred to by their identifier: \<open>&cache->user_parts[i].part\<close> has identifier
  \<open>i\<close> (\<open>ocf_user_part_init\<close>) and \<open>&cache->free\<close> has \<open>PARTITION_FREELIST\<close>.
\<close>

subsection \<open>Constants\<close>

definition OCF_CORE_MAX :: u16 where "OCF_CORE_MAX = 4096"
definition OCF_CORE_ID_INVALID :: u16 where "OCF_CORE_ID_INVALID = OCF_CORE_MAX"
definition OCF_USER_IO_CLASS_MAX :: u16 where "OCF_USER_IO_CLASS_MAX = 33"
definition PARTITION_DEFAULT :: u16 where "PARTITION_DEFAULT = 0"
definition PARTITION_UNSPECIFIED :: u16 where "PARTITION_UNSPECIFIED = - 1"
definition PARTITION_FREELIST :: u16 where "PARTITION_FREELIST = OCF_USER_IO_CLASS_MAX + 1"
definition OCF_NUM_LRU_LISTS :: u32 where "OCF_NUM_LRU_LISTS = 32"
definition end_marker :: u32 where "end_marker = - 1"

subsection \<open>Tables\<close>

text \<open>The enumeration \<open>ocf_cache_line_size_t\<close>; the value of a constructor is its size in bytes.\<close>

datatype ocf_cache_line_size =
  ocf_cache_line_size_none | ocf_cache_line_size_4 | ocf_cache_line_size_8 |
  ocf_cache_line_size_16 | ocf_cache_line_size_32 | ocf_cache_line_size_64

fun line_size_bytes :: "ocf_cache_line_size \<Rightarrow> u64" where
  "line_size_bytes ocf_cache_line_size_none = 0"
| "line_size_bytes ocf_cache_line_size_4 = 4096"
| "line_size_bytes ocf_cache_line_size_8 = 8192"
| "line_size_bytes ocf_cache_line_size_16 = 16384"
| "line_size_bytes ocf_cache_line_size_32 = 32768"
| "line_size_bytes ocf_cache_line_size_64 = 65536"

datatype ocf_metadata_layout = ocf_metadata_layout_striping | ocf_metadata_layout_seq

record (overloaded) ('s :: len) ocf_metadata_map =
  core_line :: u64
  core_id :: u16
  valid :: "'s word"
  dirty :: "'s word"

record ocf_metadata_list_info =
  prev_col :: u32
  next_col :: u32
  partition_id :: u8

record ocf_lru_meta =
  lru_prev :: u32
  lru_next :: u32
  lru_hot :: bool

record ocf_lru_list =
  num_nodes :: u32
  head :: u32
  tail :: u32
  num_hot :: u32
  last_hot :: u32
  track_hot :: bool

text \<open>A pointer to an LRU list: partition, index in its array \<open>lru\<close>, clean or dirty.\<close>

type_synonym lru_ref = "u16 \<times> u32 \<times> bool"

record (overloaded) ('s :: len) ocf_cache =
  size :: ocf_cache_line_size
  sector_count :: u64
  sector_start :: u64
  sector_end :: u64
  layout :: ocf_metadata_layout
  collision_table_entries :: u32
  hash_table_entries :: u32
  entries_in_page :: u32
  ssd_pages :: u32
  seg_collision :: "u32 \<Rightarrow> 's ocf_metadata_map"
  seg_list_info :: "u32 \<Rightarrow> ocf_metadata_list_info"
  seg_hash :: "u32 \<Rightarrow> u32"
  seg_lru :: "u32 \<Rightarrow> ocf_lru_meta"
  lru :: "lru_ref \<Rightarrow> ocf_lru_list"
  curr_size :: "u16 \<Rightarrow> u32"
  cached_clines :: "u16 \<Rightarrow> u32"
  part_cached_clines :: "u16 \<Rightarrow> u16 \<Rightarrow> u32"
  dirty_clines :: "u16 \<Rightarrow> u32"
  part_dirty_clines :: "u16 \<Rightarrow> u16 \<Rightarrow> u32"
  dirty_since :: "u16 \<Rightarrow> u64"

text \<open>\<open>ocf_metadata_config_init\<close>: the settings that follow from the line size.\<close>

definition ocf_metadata_config_init :: "('s :: len) ocf_cache \<Rightarrow> ocf_cache_line_size \<Rightarrow> 's ocf_cache option" where
  "ocf_metadata_config_init cache sz = do {
     ENV_BUG_ON (sz = ocf_cache_line_size_none);
     let sectors = line_size_bytes sz div 512;
     Some (cache\<lparr>size := sz, sector_count := sectors, sector_start := 0, sector_end := sectors - 1\<rparr>)
   }"

definition ocf_bytes_2_lines :: "('s :: len) ocf_cache \<Rightarrow> u64 \<Rightarrow> u64" where
  "ocf_bytes_2_lines cache bytes = bytes div line_size_bytes (size cache)"

subsection \<open>Access to the tables\<close>

definition raw_bug_on :: "u32 \<Rightarrow> u32 \<Rightarrow> unit option" where
  "raw_bug_on entries entry = ENV_BUG_ON (entry \<ge> entries)"

lemma raw_bug_on_simps [simp, bug_simps]:
  "i < n \<Longrightarrow> raw_bug_on n i = Some ()"
  "\<not> i < n \<Longrightarrow> raw_bug_on n i = None"
  "raw_bug_on n i = Some u \<longleftrightarrow> i < n"
  by (auto simp: raw_bug_on_def ENV_BUG_ON_def not_le)

lemma bind_raw_bug_on_eq_Some [simp, bug_simps]:
  "(raw_bug_on n i \<bind> f) = Some y \<longleftrightarrow> i < n \<and> f () = Some y"
  by (cases "i < n") simp_all

definition ocf_metadata_get_lru :: "('s :: len) ocf_cache \<Rightarrow> u32 \<Rightarrow> ocf_lru_meta option" where
  "ocf_metadata_get_lru cache line = do {
     raw_bug_on (collision_table_entries cache) line;
     Some (seg_lru cache line)
   }"

text \<open>A store through the pointer that \<open>ocf_metadata_get_lru\<close> returned.\<close>

definition set_lru :: "('s :: len) ocf_cache \<Rightarrow> u32 \<Rightarrow> (ocf_lru_meta \<Rightarrow> ocf_lru_meta) \<Rightarrow> 's ocf_cache" where
  "set_lru cache line f = cache\<lparr>seg_lru := (seg_lru cache)(line := f (seg_lru cache line))\<rparr>"

definition ocf_metadata_get_hash :: "('s :: len) ocf_cache \<Rightarrow> u32 \<Rightarrow> u32 option" where
  "ocf_metadata_get_hash cache index = do {
     raw_bug_on (hash_table_entries cache) index;
     Some (seg_hash cache index)
   }"

definition ocf_metadata_set_hash :: "('s :: len) ocf_cache \<Rightarrow> u32 \<Rightarrow> u32 \<Rightarrow> 's ocf_cache option" where
  "ocf_metadata_set_hash cache index line = do {
     raw_bug_on (hash_table_entries cache) index;
     Some (cache\<lparr>seg_hash := (seg_hash cache)(index := line)\<rparr>)
   }"

definition ocf_metadata_get_core_info :: "('s :: len) ocf_cache \<Rightarrow> u32 \<Rightarrow> (u16 \<times> u64) option" where
  "ocf_metadata_get_core_info cache line = do {
     raw_bug_on (collision_table_entries cache) line;
     Some (core_id (seg_collision cache line), core_line (seg_collision cache line))
   }"

definition ocf_metadata_set_core_info ::
    "('s :: len) ocf_cache \<Rightarrow> u32 \<Rightarrow> u16 \<Rightarrow> u64 \<Rightarrow> 's ocf_cache option" where
  "ocf_metadata_set_core_info cache line cid core_sector = do {
     raw_bug_on (collision_table_entries cache) line;
     let m = seg_collision cache line;
     Some (cache\<lparr>seg_collision :=
       (seg_collision cache)(line := m\<lparr>core_id := cid, core_line := core_sector\<rparr>)\<rparr>)
   }"

definition ocf_metadata_get_core_id :: "('s :: len) ocf_cache \<Rightarrow> u32 \<Rightarrow> u16 option" where
  "ocf_metadata_get_core_id cache line = do {
     raw_bug_on (collision_table_entries cache) line;
     Some (core_id (seg_collision cache line))
   }"

text \<open>The field \<open>partition_id\<close> is a bit field of eight bits: reading it widens, writing it
  truncates.\<close>

definition ocf_metadata_get_partition_id :: "('s :: len) ocf_cache \<Rightarrow> u32 \<Rightarrow> u16 option" where
  "ocf_metadata_get_partition_id cache line = do {
     raw_bug_on (collision_table_entries cache) line;
     Some (ucast (partition_id (seg_list_info cache line)))
   }"

definition ocf_metadata_set_partition_id ::
    "('s :: len) ocf_cache \<Rightarrow> u32 \<Rightarrow> u16 \<Rightarrow> 's ocf_cache option" where
  "ocf_metadata_set_partition_id cache line part_id = do {
     raw_bug_on (collision_table_entries cache) line;
     let i = seg_list_info cache line;
     Some (cache\<lparr>seg_list_info :=
       (seg_list_info cache)(line := i\<lparr>partition_id := ucast part_id\<rparr>)\<rparr>)
   }"

lemmas table_access_defs =
  ocf_metadata_get_lru_def set_lru_def ocf_metadata_get_hash_def ocf_metadata_set_hash_def
  ocf_metadata_get_core_info_def ocf_metadata_set_core_info_def ocf_metadata_get_core_id_def
  ocf_metadata_get_partition_id_def ocf_metadata_set_partition_id_def

lemma partition_id_roundtrip:
  assumes "line < collision_table_entries cache" "p \<le> PARTITION_FREELIST"
  shows "\<exists>cache'. ocf_metadata_set_partition_id cache line p = Some cache' \<and>
    ocf_metadata_get_partition_id cache' line = Some p"
proof -
  have "unat p < 2 ^ 8"
    using assms(2) by (simp add: word_le_nat_alt PARTITION_FREELIST_def OCF_USER_IO_CLASS_MAX_def)
  then have "unat (ucast (ucast p :: u8) :: u16) = unat p"
    by (simp add: unsigned_ucast_eq unsigned_take_bit_eq take_bit_nat_eq_self)
  then have "(ucast (ucast p :: u8) :: u16) = p" by (simp only: word_unat_eq_iff)
  then show ?thesis using assms(1) by (simp add: table_access_defs)
qed

end
