(* ===== verification/Striping.thy ===== *)
theory Striping
  imports Cache_State
begin

text \<open>
  The mapping between collision table indices and physical cache lines
  (\<open>metadata/metadata_collision.c\<close>, first half).

  In the striping layout consecutive physical lines are described by entries in different pages
  of the collision table, so that a sequential write does not lock one page all the time.  The
  last page may be only partly used, which is what makes the arithmetic interesting.
\<close>

subsection \<open>The mapping functions\<close>

definition ocf_metadata_map_lg2phy_seq :: "('s :: len) ocf_cache \<Rightarrow> u32 \<Rightarrow> u32" where
  "ocf_metadata_map_lg2phy_seq cache coll_idx = coll_idx"

definition ocf_metadata_map_phy2lg_seq :: "('s :: len) ocf_cache \<Rightarrow> u32 \<Rightarrow> u32" where
  "ocf_metadata_map_phy2lg_seq cache cache_line = cache_line"

definition ocf_metadata_map_lg2phy_striping :: "('s :: len) ocf_cache \<Rightarrow> u32 \<Rightarrow> u32" where
  "ocf_metadata_map_lg2phy_striping cache coll_idx = (
     let pages = ssd_pages cache;
         delta = (entries_in_page cache * pages) - collision_table_entries cache;
         row = coll_idx mod entries_in_page cache;
         offset = (if row > entries_in_page cache - delta then row - (entries_in_page cache - delta) else 0)
     in (row * pages) + (coll_idx div entries_in_page cache) - offset)"

definition ocf_metadata_map_phy2lg_striping :: "('s :: len) ocf_cache \<Rightarrow> u32 \<Rightarrow> u32" where
  "ocf_metadata_map_phy2lg_striping cache cache_line = (
     let pages = ssd_pages cache;
         rest = collision_table_entries cache mod entries_in_page cache;
         entries_in_last_page = (if rest \<noteq> 0 then rest else entries_in_page cache);
         last = entries_in_last_page * pages;
         (row, coll) =
           (if cache_line < last then (cache_line mod pages, cache_line div pages)
            else let cache_line = cache_line - last
                 in (cache_line mod (pages - 1), cache_line div (pages - 1) + entries_in_last_page))
     in (row * entries_in_page cache) + coll)"

definition ocf_metadata_map_lg2phy :: "('s :: len) ocf_cache \<Rightarrow> u32 \<Rightarrow> u32" where
  "ocf_metadata_map_lg2phy cache coll_idx = (case layout cache of
       ocf_metadata_layout_striping \<Rightarrow> ocf_metadata_map_lg2phy_striping cache coll_idx
     | ocf_metadata_layout_seq \<Rightarrow> ocf_metadata_map_lg2phy_seq cache coll_idx)"

definition ocf_metadata_map_phy2lg :: "('s :: len) ocf_cache \<Rightarrow> u32 \<Rightarrow> u32" where
  "ocf_metadata_map_phy2lg cache cache_line = (case layout cache of
       ocf_metadata_layout_striping \<Rightarrow> ocf_metadata_map_phy2lg_striping cache cache_line
     | ocf_metadata_layout_seq \<Rightarrow> ocf_metadata_map_phy2lg_seq cache cache_line)"

subsection \<open>The same on natural numbers\<close>

text \<open>\<open>n\<close> entries in \<open>p\<close> pages of \<open>e\<close>, of which the last holds \<open>l\<close>.\<close>

definition lg2phy_nat :: "nat \<Rightarrow> nat \<Rightarrow> nat \<Rightarrow> nat \<Rightarrow> nat" where
  "lg2phy_nat e p l x = (x mod e) * p + x div e - (x mod e - l)"

definition phy2lg_nat :: "nat \<Rightarrow> nat \<Rightarrow> nat \<Rightarrow> nat \<Rightarrow> nat" where
  "phy2lg_nat e p l y =
     (if y < l * p then (y mod p) * e + y div p
      else ((y - l * p) mod (p - 1)) * e + ((y - l * p) div (p - 1) + l))"

lemma div_mod_cell:
  fixes a b m :: nat
  assumes "b < m"
  shows "(a * m + b) mod m = b" "(a * m + b) div m = a"
  using assms by simp_all

lemma phy2lg_lg2phy_nat:
  fixes e :: nat
  assumes "0 < l" "l \<le> e" "x < (p - 1) * e + l" "0 < p"
  shows "phy2lg_nat e p l (lg2phy_nat e p l x) = x" "lg2phy_nat e p l x < (p - 1) * e + l"
proof -
  define r where "r = x mod e"
  define c where "c = x div e"
  obtain q where p: "p = Suc q" using assms(4) by (cases p) auto
  have re: "r < e" using assms by (simp add: r_def)
  have x: "x = c * e + r" by (simp add: r_def c_def)
  have xl: "c * e + r < q * e + l" using assms(3) by (simp add: x p)
  have "c < Suc q"
  proof (rule ccontr)
    assume "\<not> c < Suc q"
    then have "Suc q * e \<le> c * e" by (intro mult_le_mono) auto
    with xl assms(2) show False by simp
  qed
  then have cq: "c \<le> q" by simp
  have y: "lg2phy_nat e p l x = r * p + c - (r - l)" by (simp add: lg2phy_nat_def r_def c_def)
  show "phy2lg_nat e p l (lg2phy_nat e p l x) = x" "lg2phy_nat e p l x < (p - 1) * e + l"
  proof -
    show "phy2lg_nat e p l (lg2phy_nat e p l x) = x"
    proof (cases "r < l")
      case True
      then have "Suc r * p \<le> l * p" by (intro mult_le_mono) auto
      moreover have cp: "c < p" using cq p by simp
      ultimately have "r * p + c < l * p" by simp
      moreover have "lg2phy_nat e p l x = r * p + c" using True y by simp
      ultimately show ?thesis using cp by (simp add: phy2lg_nat_def x)
    next
      case False
      then have "c < q" using xl cq by (cases "c = q") auto
      obtain d where d: "r = l + d" using False le_Suc_ex [of l r] by auto
      have "lg2phy_nat e p l x = l * p + (d * q + c)" unfolding y by (simp add: d p algebra_simps)
      then show ?thesis using \<open>c < q\<close> by (simp add: phy2lg_nat_def p div_mod_cell x d)
    qed
    show "lg2phy_nat e p l x < (p - 1) * e + l"
    proof (cases "r < l")
      case True
      have "Suc r * q \<le> e * q" using re by (intro mult_le_mono) auto
      then have "r * q + q \<le> q * e" by (simp add: algebra_simps)
      then show ?thesis using True cq unfolding y by (simp add: p)
    next
      case False
      then have "c < q" using xl cq by (cases "c = q") auto
      obtain d where d: "r = l + d" using False le_Suc_ex [of l r] by auto
      have "Suc r * q \<le> e * q" using re by (intro mult_le_mono) auto
      then show ?thesis using \<open>c < q\<close> unfolding y by (simp add: p d algebra_simps)
    qed
  qed
qed

lemma lg2phy_phy2lg_nat:
  fixes e :: nat
  assumes "0 < l" "l \<le> e" "y < (p - 1) * e + l" "0 < p"
  shows "lg2phy_nat e p l (phy2lg_nat e p l y) = y" "phy2lg_nat e p l y < (p - 1) * e + l"
proof -
  obtain q where p: "p = Suc q" using assms(4) by (cases p) auto
  have "lg2phy_nat e p l (phy2lg_nat e p l y) = y \<and> phy2lg_nat e p l y < (p - 1) * e + l"
  proof (cases "y < l * p")
    case True
    define r where "r = y div p"
    define c where "c = y mod p"
    have y: "y = r * p + c" by (simp add: r_def c_def)
    have cp: "c < p" by (simp add: c_def p)
    have "r < l" using True by (simp add: r_def less_mult_imp_div_less)
    moreover have "phy2lg_nat e p l y = c * e + r" using True by (simp add: phy2lg_nat_def r_def c_def)
    moreover have "c * e + r < q * e + l"
      using cp \<open>r < l\<close> by (intro add_le_less_mono mult_le_mono) (auto simp: p)
    ultimately show ?thesis using assms(2) y by (simp add: lg2phy_nat_def div_mod_cell p)
  next
    case False
    define z where "z = y - l * p"
    define d where "d = z div q"
    define c where "c = z mod q"
    have zy: "y = l * p + z" using False by (simp add: z_def)
    have "z + l * Suc q < q * e + l" using assms(3) by (simp add: zy p)
    then have zq: "z < q * (e - l)" by (simp add: algebra_simps diff_mult_distrib2)
    then have q: "0 < q" by (cases q) auto
    have dl: "d < e - l" unfolding d_def using zq by (simp add: less_mult_imp_div_less mult.commute)
    have z: "z = d * q + c" "c < q" using q by (simp_all add: d_def c_def)
    have ph: "phy2lg_nat e p l y = c * e + (d + l)"
      using False by (simp add: phy2lg_nat_def p d_def c_def z_def)
    moreover have "Suc c * e \<le> q * e" using z(2) by (intro mult_le_mono) auto
    moreover have "lg2phy_nat e p l (c * e + (d + l)) = (d + l) * p + c - d"
      using dl by (simp add: lg2phy_nat_def div_mod_cell)
    moreover have "(d + l) * p + c - d = y" by (simp add: zy z p algebra_simps)
    ultimately show ?thesis using dl by (simp add: p)
  qed
  then show "lg2phy_nat e p l (phy2lg_nat e p l y) = y" "phy2lg_nat e p l y < (p - 1) * e + l"
    by simp_all
qed


subsection \<open>The word arithmetic does not wrap around\<close>

text \<open>A layout as \<open>ocf_metadata_calculate_metadata_size\<close> computes it: the entries fill all pages but the last.\<close>

definition layout_ok :: "('s :: len) ocf_cache \<Rightarrow> bool" where
  "layout_ok cache \<longleftrightarrow> layout cache = ocf_metadata_layout_seq \<or>
     (unat (ssd_pages cache) - 1) * unat (entries_in_page cache) < unat (collision_table_entries cache) \<and>
     unat (collision_table_entries cache) \<le> unat (ssd_pages cache) * unat (entries_in_page cache) \<and>
     unat (ssd_pages cache) * unat (entries_in_page cache) < 2 ^ 32"

text \<open>The geometry of a striping layout on natural numbers.\<close>

lemma layout_geometry:
  assumes "layout_ok cache" "layout cache = ocf_metadata_layout_striping"
  defines "e \<equiv> unat (entries_in_page cache)" and "p \<equiv> unat (ssd_pages cache)"
  obtains l where "0 < l" "l \<le> e" "unat (collision_table_entries cache) = (p - 1) * e + l" "0 < p"
    "e * p < 2 ^ 32" "(p - 1) * e + e = p * e"
proof -
  let ?n = "unat (collision_table_entries cache)"
  have a: "(p - 1) * e < ?n" "?n \<le> p * e" "p * e < 2 ^ 32"
    using assms(1,2) by (auto simp: layout_ok_def e_def p_def)
  then have "0 < p" by (cases p) auto
  then have pe: "(p - 1) * e + e = p * e" by (cases p) auto
  show thesis
    by (rule that [of "?n - (p - 1) * e"]) (use a pe \<open>0 < p\<close> in \<open>auto simp: mult.commute\<close>)
qed

lemma lg2phy_unat:
  assumes ok: "layout_ok cache" and st: "layout cache = ocf_metadata_layout_striping"
    and x: "x < collision_table_entries cache"
    and l: "unat (collision_table_entries cache) = (unat (ssd_pages cache) - 1) * unat (entries_in_page cache) + l"
      "0 < l" "l \<le> unat (entries_in_page cache)"
  shows "unat (ocf_metadata_map_lg2phy_striping cache x) =
    lg2phy_nat (unat (entries_in_page cache)) (unat (ssd_pages cache)) l (unat x)"
proof -
  let ?e = "entries_in_page cache" and ?p = "ssd_pages cache" and ?n = "collision_table_entries cache"
  define r where "r = unat x mod unat ?e"
  define c where "c = unat x div unat ?e"
  have g: "0 < unat ?p" "unat ?e * unat ?p < 2 ^ 32" "(unat ?p - 1) * unat ?e + unat ?e = unat ?p * unat ?e"
    using layout_geometry [OF ok st] by blast+
  have re: "r < unat ?e" using l by (simp add: r_def)
  have "unat x < unat ?p * unat ?e" using x l g(3) by (simp add: word_less_nat_alt)
  then have cp: "c < unat ?p" by (simp add: c_def less_mult_imp_div_less)
  have ep: "unat (?e * ?p) = unat ?e * unat ?p" using g(2) by (intro unat_mult_nowrap) simp
  have "unat (?e * ?p - ?n) = unat ?e * unat ?p - unat ?n"
    using l g(3) by (subst unat_sub_nowrap) (simp_all add: ep mult.commute)
  then have "unat (?e * ?p - ?n) = unat ?e - l" using l g(3) by (simp add: mult.commute)
  then have last: "unat (?e - (?e * ?p - ?n)) = l" using l by (subst unat_sub_nowrap) auto
  have row: "unat (x mod ?e) = r" "unat (x div ?e) = c" by (simp_all add: r_def c_def unat_mod unat_div)
  have "Suc r * unat ?p \<le> unat ?e * unat ?p" using re by (intro mult_le_mono) auto
  then have rc: "r * unat ?p + c < 2 ^ 32" using cp g(2) by simp
  have "unat (x mod ?e * ?p) = r * unat ?p" using rc by (subst unat_mult_nowrap) (simp_all add: row)
  then have sum: "unat (x mod ?e * ?p + x div ?e) = r * unat ?p + c"
    using rc by (subst unat_add_nowrap) (simp_all add: row)
  have off: "unat (if x mod ?e > ?e - (?e * ?p - ?n) then x mod ?e - (?e - (?e * ?p - ?n)) else 0) = r - l"
    by (auto simp: word_less_nat_alt last row unat_sub_nowrap not_less)
  have "r - l \<le> r * unat ?p + c" using g(1) by (cases "unat ?p") auto
  then have "unat (ocf_metadata_map_lg2phy_striping cache x) = r * unat ?p + c - (r - l)"
    unfolding ocf_metadata_map_lg2phy_striping_def Let_def
    by (subst unat_sub_nowrap) (simp_all only: off sum)
  then show ?thesis by (simp add: lg2phy_nat_def r_def c_def)
qed


lemma phy2lg_unat:
  assumes ok: "layout_ok cache" and st: "layout cache = ocf_metadata_layout_striping"
    and y: "y < collision_table_entries cache"
    and l: "unat (collision_table_entries cache) = (unat (ssd_pages cache) - 1) * unat (entries_in_page cache) + l"
      "0 < l" "l \<le> unat (entries_in_page cache)"
  shows "unat (ocf_metadata_map_phy2lg_striping cache y) =
    phy2lg_nat (unat (entries_in_page cache)) (unat (ssd_pages cache)) l (unat y)"
proof -
  let ?e = "entries_in_page cache" and ?p = "ssd_pages cache" and ?n = "collision_table_entries cache"
  let ?last = "if ?n mod ?e \<noteq> 0 then ?n mod ?e else ?e"
  have g: "0 < unat ?p" "unat ?e * unat ?p < 2 ^ 32" "(unat ?p - 1) * unat ?e + unat ?e = unat ?p * unat ?e"
    using layout_geometry [OF ok st] by blast+
  have p1: "unat (?p - 1) = unat ?p - 1" using g(1) by (subst unat_sub_nowrap) auto
  have "unat (?n mod ?e) = (if l = unat ?e then 0 else l)"
    using l(2,3) by (simp add: unat_mod l(1))
  then have last: "unat ?last = l"
    using l(2) by (auto simp: word_unat_eq_iff split: if_splits)
  have "l * unat ?p \<le> unat ?e * unat ?p" using l(3) by (intro mult_le_mono) auto
  then have "unat ?last * unat ?p < 2 ^ LENGTH(32)" unfolding last using le_less_trans [OF _ g(2)] by simp
  then have lp: "unat (?last * ?p) = l * unat ?p" by (simp only: unat_mult_nowrap last)
  have ylt: "y < ?last * ?p \<longleftrightarrow> unat y < l * unat ?p" by (simp only: word_less_nat_alt lp)
  have cell: "unat (a * ?e + b) = unat a * unat ?e + unat b" if "unat a * unat ?e + unat b < 2 ^ 32" for a b
    using that by (simp add: unat_add_nowrap unat_mult_nowrap)
  have ph: "phy2lg_nat (unat ?e) (unat ?p) l (unat y) < 2 ^ 32"
    using lg2phy_phy2lg_nat(2) [OF l(2,3) _ g(1), of "unat y"] y l(1) unsigned_less [of ?n, where ?'a = nat]
    by (simp add: word_less_nat_alt)
  show ?thesis
  proof (cases "unat y < l * unat ?p")
    case True
    then have "ocf_metadata_map_phy2lg_striping cache y = y mod ?p * ?e + y div ?p"
      using ylt by (simp add: ocf_metadata_map_phy2lg_striping_def Let_def)
    then show ?thesis
      using ph True by (simp add: phy2lg_nat_def cell unat_mod unat_div)
  next
    case False
    let ?z = "y - ?last * ?p"
    have z: "unat ?z = unat y - l * unat ?p" using False lp by (subst unat_sub_nowrap) (simp_all only: lp not_less)
    have s: "unat (?z div (?p - 1) + ?last) = unat ?z div (unat ?p - 1) + l"
      if "unat ?z div (unat ?p - 1) + l < 2 ^ 32"
      using that by (subst unat_add_nowrap) (simp_all only: unat_div p1 last, simp)
    have ph': "unat ?z mod (unat ?p - 1) * unat ?e + (unat ?z div (unat ?p - 1) + l) < 2 ^ 32"
      using ph False by (simp only: phy2lg_nat_def z if_False)
    then have s': "unat (?z div (?p - 1) + ?last) = unat ?z div (unat ?p - 1) + l" by (intro s) simp
    have "ocf_metadata_map_phy2lg_striping cache y = ?z mod (?p - 1) * ?e + (?z div (?p - 1) + ?last)"
      using False ylt by (simp add: ocf_metadata_map_phy2lg_striping_def Let_def)
    moreover have "unat (?z mod (?p - 1) * ?e + (?z div (?p - 1) + ?last)) =
        unat ?z mod (unat ?p - 1) * unat ?e + (unat ?z div (unat ?p - 1) + l)"
      using ph' by (subst cell) (simp_all only: s' unat_mod p1)
    ultimately show ?thesis using False by (simp only: phy2lg_nat_def z if_False)
  qed
qed

lemma map_roundtrip:
  assumes ok: "layout_ok cache" and x: "x < collision_table_entries cache"
  shows "ocf_metadata_map_phy2lg cache (ocf_metadata_map_lg2phy cache x) = x"
    and "ocf_metadata_map_lg2phy cache x < collision_table_entries cache"
    and "ocf_metadata_map_lg2phy cache (ocf_metadata_map_phy2lg cache x) = x"
    and "ocf_metadata_map_phy2lg cache x < collision_table_entries cache"
proof -
  let ?e = "unat (entries_in_page cache)" and ?p = "unat (ssd_pages cache)"
  have "ocf_metadata_map_phy2lg cache (ocf_metadata_map_lg2phy cache x) = x \<and>
      ocf_metadata_map_lg2phy cache x < collision_table_entries cache \<and>
      ocf_metadata_map_lg2phy cache (ocf_metadata_map_phy2lg cache x) = x \<and>
      ocf_metadata_map_phy2lg cache x < collision_table_entries cache"
  proof (cases "layout cache")
    case ocf_metadata_layout_seq
    then show ?thesis
      using x by (simp add: ocf_metadata_map_lg2phy_def ocf_metadata_map_phy2lg_def
          ocf_metadata_map_lg2phy_seq_def ocf_metadata_map_phy2lg_seq_def)
  next
    case ocf_metadata_layout_striping
    note st = this
    obtain l where l: "unat (collision_table_entries cache) = (?p - 1) * ?e + l" "0 < l" "l \<le> ?e" and p: "0 < ?p"
      using layout_geometry [OF ok st] by blast
    have xl: "unat x < (?p - 1) * ?e + l" using x l(1) by (simp add: word_less_nat_alt)
    note f = lg2phy_unat [OF ok st _ l] and b = phy2lg_unat [OF ok st _ l]
    note nat1 = phy2lg_lg2phy_nat [OF l(2,3) xl p] and nat2 = lg2phy_phy2lg_nat [OF l(2,3) xl p]
    have lt: "ocf_metadata_map_lg2phy_striping cache x < collision_table_entries cache"
      "ocf_metadata_map_phy2lg_striping cache x < collision_table_entries cache"
      using nat1(2) nat2(2) by (simp_all add: word_less_nat_alt f [OF x] b [OF x] l(1))
    then show ?thesis
      using nat1(1) nat2(1) st
      by (simp add: ocf_metadata_map_lg2phy_def ocf_metadata_map_phy2lg_def word_unat_eq_iff
          b [OF lt(1)] f [OF x] f [OF lt(2)] b [OF x])
  qed
  then show "ocf_metadata_map_phy2lg cache (ocf_metadata_map_lg2phy cache x) = x"
    and "ocf_metadata_map_lg2phy cache x < collision_table_entries cache"
    and "ocf_metadata_map_lg2phy cache (ocf_metadata_map_phy2lg cache x) = x"
    and "ocf_metadata_map_phy2lg cache x < collision_table_entries cache"
    by simp_all
qed


subsection \<open>Properties\<close>

text \<open>
  C20. In both layouts the mappings between collision indices and physical cache lines stay inside
  the table and are inverse to each other, also when the last page is only partly used.
\<close>
theorem striping_roundtrip:
  assumes "layout_ok cache" "x < collision_table_entries cache"
  shows "ocf_metadata_map_phy2lg cache (ocf_metadata_map_lg2phy cache x) = x \<and>
    ocf_metadata_map_lg2phy cache (ocf_metadata_map_phy2lg cache x) = x \<and>
    ocf_metadata_map_lg2phy cache x < collision_table_entries cache \<and>
    ocf_metadata_map_phy2lg cache x < collision_table_entries cache"
  using map_roundtrip [OF assms] by simp

definition striped_cache :: "8 ocf_cache" where
  "striped_cache = \<lparr>size = ocf_cache_line_size_4, sector_count = 8, sector_start = 0, sector_end = 7,
     layout = ocf_metadata_layout_striping, collision_table_entries = 10, hash_table_entries = 4,
     entries_in_page = 4, ssd_pages = 3,
     seg_collision = (\<lambda>_. \<lparr>core_line = 0, core_id = OCF_CORE_MAX, valid = 0, dirty = 0\<rparr>),
     seg_list_info = (\<lambda>_. \<lparr>prev_col = 10, next_col = 10, partition_id = 0\<rparr>),
     seg_hash = (\<lambda>_. 10),
     seg_lru = (\<lambda>_. \<lparr>lru_prev = end_marker, lru_next = end_marker, lru_hot = False\<rparr>),
     lru = (\<lambda>(p, _, _). \<lparr>num_nodes = 0, head = end_marker, tail = end_marker, num_hot = 0,
       last_hot = end_marker, track_hot = (p \<noteq> PARTITION_FREELIST)\<rparr>),
     curr_size = (\<lambda>_. 0), cached_clines = (\<lambda>_. 0), part_cached_clines = (\<lambda>_ _. 0),
     dirty_clines = (\<lambda>_. 0), part_dirty_clines = (\<lambda>_ _. 0), dirty_since = (\<lambda>_. 0)\<rparr>"

theorem striping_roundtrip_witness:
  "ocf_metadata_map_lg2phy striped_cache 3 = 8 \<and>
   ocf_metadata_map_phy2lg striped_cache (ocf_metadata_map_lg2phy striped_cache 3) = 3"
proof
  show "ocf_metadata_map_lg2phy striped_cache 3 = 8"
    by (simp add: ocf_metadata_map_lg2phy_def ocf_metadata_map_lg2phy_striping_def striped_cache_def Let_def)
  show "ocf_metadata_map_phy2lg striped_cache (ocf_metadata_map_lg2phy striped_cache 3) = 3"
    using striping_roundtrip [of striped_cache 3] by (simp add: layout_ok_def striped_cache_def)
qed

end
