(* ===== verification/Line_Index.thy ===== *)
theory Line_Index
  imports OCF_Prelude
begin

text \<open>
  The interface of the table that says which cache line holds which core line: a finite map from
  core lines to cache lines, injective, updated by inserting an unused line and by removing a
  line.  The client lemmas are about runs of such operations; replacement, the way the cache makes room for new data,
  is one of them.
\<close>

datatype ('k, 'v) index_op = Map_Line 'k 'v | Unmap_Line 'v

text \<open>When an operation may be called, and what it does to the map.\<close>

fun op_allowed :: "('v \<Rightarrow> bool) \<Rightarrow> ('k \<rightharpoonup> 'v) \<Rightarrow> ('k, 'v) index_op \<Rightarrow> bool" where
  "op_allowed line m (Map_Line k v) \<longleftrightarrow> line v \<and> v \<notin> ran m \<and> m k = None"
| "op_allowed line m (Unmap_Line v) \<longleftrightarrow> v \<in> ran m"

fun map_op :: "('k \<rightharpoonup> 'v) \<Rightarrow> ('k, 'v) index_op \<Rightarrow> ('k \<rightharpoonup> 'v)" where
  "map_op m (Map_Line k v) = m(k \<mapsto> v)"
| "map_op m (Unmap_Line v) = (\<lambda>k. if m k = Some v then None else m k)"

fun ops_allowed :: "('v \<Rightarrow> bool) \<Rightarrow> ('k \<rightharpoonup> 'v) \<Rightarrow> ('k, 'v) index_op list \<Rightarrow> bool" where
  "ops_allowed line m [] \<longleftrightarrow> True"
| "ops_allowed line m (p # ps) \<longleftrightarrow> op_allowed line m p \<and> ops_allowed line (map_op m p) ps"

locale line_index =
  fixes ok :: "'c \<Rightarrow> bool"
    and idx :: "'c \<Rightarrow> 'k \<Rightarrow> 'v option"
    and line :: "'c \<Rightarrow> 'v \<Rightarrow> bool"
    and ins :: "'c \<Rightarrow> 'k \<Rightarrow> 'v \<Rightarrow> 'c option"
    and del :: "'c \<Rightarrow> 'v \<Rightarrow> 'c option"
  assumes idx_inj: "ok c \<Longrightarrow> idx c k = Some v \<Longrightarrow> idx c k' = Some v \<Longrightarrow> k = k'"
    and idx_line: "ok c \<Longrightarrow> idx c k = Some v \<Longrightarrow> line c v"
    and ins_ok: "ok c \<Longrightarrow> line c v \<Longrightarrow> v \<notin> ran (idx c) \<Longrightarrow> idx c k = None \<Longrightarrow>
      \<exists>c'. ins c k v = Some c' \<and> ok c' \<and> idx c' = (idx c)(k \<mapsto> v) \<and> line c' = line c"
    and del_ok: "ok c \<Longrightarrow> idx c k = Some v \<Longrightarrow>
      \<exists>c'. del c v = Some c' \<and> ok c' \<and> idx c' = (idx c)(k := None) \<and> line c' = line c"
begin

text \<open>Runs of operations; a replacement is a removal and an insertion of the same line.\<close>

fun step :: "'c \<Rightarrow> ('k, 'v) index_op \<Rightarrow> 'c option" where
  "step c (Map_Line k v) = ins c k v"
| "step c (Unmap_Line v) = del c v"

fun run :: "'c \<Rightarrow> ('k, 'v) index_op list \<Rightarrow> 'c option" where
  "run c [] = Some c"
| "run c (p # ps) = do { c' \<leftarrow> step c p; run c' ps }"

lemma step_ok:
  assumes "ok c" "op_allowed (line c) (idx c) p"
  shows "\<exists>c'. step c p = Some c' \<and> ok c' \<and> idx c' = map_op (idx c) p \<and> line c' = line c"
proof (cases p)
  case (Map_Line k v)
  then show ?thesis using assms ins_ok [OF assms(1), of v k] by simp
next
  case (Unmap_Line v)
  then obtain k where k: "idx c k = Some v" using assms(2) by (auto simp: ran_def)
  have "map_op (idx c) p = (idx c)(k := None)"
  proof
    fix k'
    show "map_op (idx c) p k' = ((idx c)(k := None)) k'" using idx_inj [OF assms(1) k, of k'] k by (cases "k' = k") (auto simp: Unmap_Line)
  qed
  then show ?thesis using del_ok [OF assms(1) k] Unmap_Line by simp
qed

lemma run_ok:
  "ok c \<Longrightarrow> ops_allowed (line c) (idx c) ps \<Longrightarrow> \<exists>c'. run c ps = Some c' \<and> ok c' \<and> idx c' = foldl map_op (idx c) ps \<and> line c' = line c"
proof (induction ps arbitrary: c)
  case (Cons p ps)
  obtain c1 where c1: "step c p = Some c1" "ok c1" "idx c1 = map_op (idx c) p" "line c1 = line c" using step_ok [OF Cons.prems(1)] Cons.prems(2) by auto
  then show ?case using Cons.IH [OF c1(2)] Cons.prems(2) by simp
qed simp

end

end
