(* ===== verification/Metadata_Collision.thy ===== *)
theory Metadata_Collision
  imports Striping Line_Index
begin

text \<open>
  The hash table of cached core lines (\<open>metadata/metadata_collision.c\<close>, second half,
  \<open>metadata_misc.h\<close> and \<open>metadata_misc.c\<close>, and the lookup loop of
  \<open>engine/engine_common.c\<close>).

  A bucket of the hash table holds the index of the first cache line of its collision list; the
  list is doubly linked through the table \<open>seg_list_info\<close>, and the number of entries of that
  table marks both ends.
\<close>

subsection \<open>Operations\<close>

definition ocf_metadata_hash_func :: "('s :: len) ocf_cache \<Rightarrow> u64 \<Rightarrow> u16 \<Rightarrow> u32" where
  "ocf_metadata_hash_func cache core_line_num cid = (
     let entries = hash_table_entries cache
     in ucast ((core_line_num + ucast (ucast cid * (entries div 32))) mod (ucast entries :: u64)))"

definition ocf_metadata_set_collision_info ::
    "('s :: len) ocf_cache \<Rightarrow> u32 \<Rightarrow> u32 \<Rightarrow> u32 \<Rightarrow> 's ocf_cache option" where
  "ocf_metadata_set_collision_info cache line nxt prv = do {
     raw_bug_on (collision_table_entries cache) line;
     let info = seg_list_info cache line;
     Some (cache\<lparr>seg_list_info := (seg_list_info cache)(line := info\<lparr>next_col := nxt, prev_col := prv\<rparr>)\<rparr>)
   }"

definition ocf_metadata_set_collision_next ::
    "('s :: len) ocf_cache \<Rightarrow> u32 \<Rightarrow> u32 \<Rightarrow> 's ocf_cache option" where
  "ocf_metadata_set_collision_next cache line nxt = do {
     raw_bug_on (collision_table_entries cache) line;
     let info = seg_list_info cache line;
     Some (cache\<lparr>seg_list_info := (seg_list_info cache)(line := info\<lparr>next_col := nxt\<rparr>)\<rparr>)
   }"

definition ocf_metadata_set_collision_prev ::
    "('s :: len) ocf_cache \<Rightarrow> u32 \<Rightarrow> u32 \<Rightarrow> 's ocf_cache option" where
  "ocf_metadata_set_collision_prev cache line prv = do {
     raw_bug_on (collision_table_entries cache) line;
     let info = seg_list_info cache line;
     Some (cache\<lparr>seg_list_info := (seg_list_info cache)(line := info\<lparr>prev_col := prv\<rparr>)\<rparr>)
   }"

text \<open>The pair of the two out parameters, next first.\<close>

definition ocf_metadata_get_collision_info :: "('s :: len) ocf_cache \<Rightarrow> u32 \<Rightarrow> (u32 \<times> u32) option" where
  "ocf_metadata_get_collision_info cache line = do {
     raw_bug_on (collision_table_entries cache) line;
     Some (next_col (seg_list_info cache line), prev_col (seg_list_info cache line))
   }"

definition ocf_metadata_get_collision_next :: "('s :: len) ocf_cache \<Rightarrow> u32 \<Rightarrow> u32 option" where
  "ocf_metadata_get_collision_next cache line = map_option fst (ocf_metadata_get_collision_info cache line)"

definition ocf_metadata_get_collision_prev :: "('s :: len) ocf_cache \<Rightarrow> u32 \<Rightarrow> u32 option" where
  "ocf_metadata_get_collision_prev cache line = map_option snd (ocf_metadata_get_collision_info cache line)"

definition ocf_metadata_add_to_collision ::
    "('s :: len) ocf_cache \<Rightarrow> u16 \<Rightarrow> u64 \<Rightarrow> u32 \<Rightarrow> u32 \<Rightarrow> 's ocf_cache option" where
  "ocf_metadata_add_to_collision cache cid cline hash cache_line = do {
     prev_cache_line \<leftarrow> ocf_metadata_get_hash cache hash;
     let line_entries = collision_table_entries cache;
     let hash_entries = hash_table_entries cache;
     ENV_BUG_ON (\<not> hash < hash_entries);
     ENV_BUG_ON (\<not> cache_line < line_entries);
     cache \<leftarrow> ocf_metadata_set_core_info cache cache_line cid cline;
     cache \<leftarrow> ocf_metadata_set_collision_info cache cache_line prev_cache_line line_entries;
     cache \<leftarrow> (if prev_cache_line \<noteq> line_entries
               then ocf_metadata_set_collision_prev cache prev_cache_line cache_line
               else Some cache);
     ocf_metadata_set_hash cache hash cache_line
   }"

definition ocf_metadata_remove_from_collision :: "('s :: len) ocf_cache \<Rightarrow> u32 \<Rightarrow> u16 \<Rightarrow> 's ocf_cache option" where
  "ocf_metadata_remove_from_collision cache line part_id = do {
     let line_entries = collision_table_entries cache;
     let hash_entries = hash_table_entries cache;
     ENV_BUG_ON (\<not> line < line_entries);
     (next_line, prev_line) \<leftarrow> ocf_metadata_get_collision_info cache line;
     cache \<leftarrow> (if prev_line \<noteq> line_entries
               then ocf_metadata_set_collision_next cache prev_line next_line else Some cache);
     cache \<leftarrow> (if next_line \<noteq> line_entries
               then ocf_metadata_set_collision_prev cache next_line prev_line else Some cache);
     (cid, core_sector) \<leftarrow> ocf_metadata_get_core_info cache line;
     let hash_father = ocf_metadata_hash_func cache core_sector cid;
     ENV_BUG_ON (\<not> hash_father < hash_entries);
     first \<leftarrow> ocf_metadata_get_hash cache hash_father;
     cache \<leftarrow> (if first = line then ocf_metadata_set_hash cache hash_father next_line else Some cache);
     cache \<leftarrow> ocf_metadata_set_collision_info cache line line_entries line_entries;
     ocf_metadata_set_core_info cache line OCF_CORE_MAX (- 1)
   }"

definition ocf_metadata_remove_cache_line :: "('s :: len) ocf_cache \<Rightarrow> u32 \<Rightarrow> 's ocf_cache option" where
  "ocf_metadata_remove_cache_line cache cache_line = do {
     part_id \<leftarrow> ocf_metadata_get_partition_id cache cache_line;
     ocf_metadata_remove_from_collision cache cache_line part_id
   }"

text \<open>The loop of \<open>ocf_engine_lookup_map_entry\<close> from \<open>line\<close> on: the line that holds the core line,
  or nothing.  It follows pointers, so it may run forever on a damaged table; \<open>None\<close> stands
  for that and for an access out of range.\<close>

partial_function (option) collision_walk ::
    "('s :: len) ocf_cache \<Rightarrow> u16 \<Rightarrow> u64 \<Rightarrow> u32 \<Rightarrow> u32 option option" where
  "collision_walk cache cid cline line =
     (if line = collision_table_entries cache then Some None
      else do {
        (curr_core_id, curr_core_line) \<leftarrow> ocf_metadata_get_core_info cache line;
        if cid = curr_core_id \<and> curr_core_line = cline then Some (Some line)
        else do {
          nxt \<leftarrow> ocf_metadata_get_collision_next cache line;
          collision_walk cache cid cline nxt
        }
      })"

definition collision_lookup :: "('s :: len) ocf_cache \<Rightarrow> u16 \<Rightarrow> u64 \<Rightarrow> u32 option option" where
  "collision_lookup cache cid cline = do {
     line \<leftarrow> ocf_metadata_get_hash cache (ocf_metadata_hash_func cache cline cid);
     collision_walk cache cid cline line
   }"

subsection \<open>The contents of the hash table\<close>

definition bucket :: "('s :: len) ocf_cache \<Rightarrow> u32 \<Rightarrow> u32 list \<Rightarrow> bool" where
  "bucket cache h xs \<longleftrightarrow>
     seg_hash cache h = dl_first xs (collision_table_entries cache) \<and> distinct xs \<and>
     (\<forall>x\<in>set xs. x < collision_table_entries cache) \<and>
     dll (\<lambda>i. next_col (seg_list_info cache i)) (\<lambda>i. prev_col (seg_list_info cache i))
       (collision_table_entries cache) xs (collision_table_entries cache)"

definition line_hash :: "('s :: len) ocf_cache \<Rightarrow> u32 \<Rightarrow> u32" where
  "line_hash cache x =
     ocf_metadata_hash_func cache (core_line (seg_collision cache x)) (core_id (seg_collision cache x))"

text \<open>\<open>H\<close> gives the collision list of every bucket.\<close>

definition coll_ok :: "('s :: len) ocf_cache \<Rightarrow> (u32 \<Rightarrow> u32 list) \<Rightarrow> bool" where
  "coll_ok cache H \<longleftrightarrow> (\<forall>h < hash_table_entries cache. bucket cache h (H h) \<and> (\<forall>x\<in>set (H h). line_hash cache x = h))"

lemma coll_ok_disjoint:
  assumes "coll_ok cache H" "h < hash_table_entries cache" "h' < hash_table_entries cache" "x \<in> set (H h)" "x \<in> set (H h')"
  shows "h = h'"
  using assms unfolding coll_ok_def by metis

lemma hash_func_lt:
  assumes "0 < hash_table_entries cache"
  shows "ocf_metadata_hash_func cache cl cid < hash_table_entries cache"
proof -
  let ?n = "hash_table_entries cache"
  have n: "unat (ucast ?n :: u64) = unat ?n" by (rule unat_ucast_u64)
  define v where "v = (cl + ucast (ucast cid * (?n div 32))) mod (ucast ?n :: u64)"
  have "0 < unat ?n" using assms by (simp add: word_less_nat_alt)
  then have "unat v < unat ?n" unfolding v_def by (simp add: unat_mod n)
  moreover have "unat (ucast v :: u32) \<le> unat v"
    by (simp add: unsigned_ucast_eq unsigned_take_bit_eq take_bit_nat_less_eq_self)
  ultimately show ?thesis
    unfolding ocf_metadata_hash_func_def Let_def v_def [symmetric] by (simp add: word_less_nat_alt)
qed


text \<open>What the operations on the hash table leave alone.\<close>

definition coll_frame :: "('s :: len) ocf_cache \<Rightarrow> 's ocf_cache \<Rightarrow> bool" where
  "coll_frame c c' \<longleftrightarrow> (\<exists>f g h. c' = c\<lparr>seg_collision := f, seg_list_info := g, seg_hash := h\<rparr> \<and>
     (\<forall>y. valid (f y) = valid (seg_collision c y) \<and> dirty (f y) = dirty (seg_collision c y) \<and>
       partition_id (g y) = partition_id (seg_list_info c y)))"

lemma coll_frameI:
  assumes "c' = c\<lparr>seg_collision := f, seg_list_info := g, seg_hash := h\<rparr>"
    "\<And>y. valid (f y) = valid (seg_collision c y)" "\<And>y. dirty (f y) = dirty (seg_collision c y)"
    "\<And>y. partition_id (g y) = partition_id (seg_list_info c y)"
  shows "coll_frame c c'"
  using assms unfolding coll_frame_def by blast

lemma coll_frame_fields:
  assumes "coll_frame c c'"
  shows "collision_table_entries c' = collision_table_entries c" "hash_table_entries c' = hash_table_entries c"
    "lru c' = lru c" "seg_lru c' = seg_lru c" "curr_size c' = curr_size c" "size c' = size c"
    "sector_count c' = sector_count c" "sector_start c' = sector_start c" "sector_end c' = sector_end c" "cached_clines c' = cached_clines c"
    "part_cached_clines c' = part_cached_clines c" "dirty_clines c' = dirty_clines c"
    "part_dirty_clines c' = part_dirty_clines c" "dirty_since c' = dirty_since c"
    "layout c' = layout c" "entries_in_page c' = entries_in_page c" "ssd_pages c' = ssd_pages c"
    "valid (seg_collision c' y) = valid (seg_collision c y)"
    "dirty (seg_collision c' y) = dirty (seg_collision c y)"
    "partition_id (seg_list_info c' y) = partition_id (seg_list_info c y)"
  using assms by (auto simp: coll_frame_def)

lemma hash_func_frame: "hash_table_entries c' = hash_table_entries c \<Longrightarrow> ocf_metadata_hash_func c' = ocf_metadata_hash_func c"
  by (simp add: ocf_metadata_hash_func_def fun_eq_iff)

lemmas collision_defs =
  ocf_metadata_set_collision_info_def ocf_metadata_set_collision_next_def ocf_metadata_set_collision_prev_def
  ocf_metadata_get_collision_info_def ocf_metadata_get_hash_def ocf_metadata_set_hash_def
  ocf_metadata_get_core_info_def ocf_metadata_set_core_info_def Let_def

lemma add_to_collision_effect:
  assumes "h < hash_table_entries c" "x < collision_table_entries c"
    and p: "p = seg_hash c h" "p \<noteq> collision_table_entries c \<Longrightarrow> p < collision_table_entries c" "p \<noteq> x"
  shows "\<exists>c'. ocf_metadata_add_to_collision c cid cl h x = Some c' \<and> coll_frame c c' \<and>
    seg_hash c' = (seg_hash c)(h := x) \<and>
    (\<forall>y. next_col (seg_list_info c' y) = (if y = x then p else next_col (seg_list_info c y))) \<and>
    (\<forall>y. prev_col (seg_list_info c' y) = (if y = x then collision_table_entries c
       else if p \<noteq> collision_table_entries c \<and> y = p then x else prev_col (seg_list_info c y))) \<and>
    (\<forall>y. core_id (seg_collision c' y) = (if y = x then cid else core_id (seg_collision c y))) \<and>
    (\<forall>y. core_line (seg_collision c' y) = (if y = x then cl else core_line (seg_collision c y)))"
proof (cases "p = collision_table_entries c")
  case True
  then show ?thesis using assms
    by (simp add: ocf_metadata_add_to_collision_def collision_defs coll_frameI [OF refl])
next
  case False
  then show ?thesis using assms
    by (auto simp add: ocf_metadata_add_to_collision_def collision_defs intro!: coll_frameI)
qed


lemma remove_from_collision_effect:
  assumes "x < collision_table_entries c" "line_hash c x < hash_table_entries c"
    and e: "E = collision_table_entries c" "n = next_col (seg_list_info c x)" "p = prev_col (seg_list_info c x)"
    and "n \<noteq> E \<Longrightarrow> n < E" "p \<noteq> E \<Longrightarrow> p < E" "n \<noteq> x" "p \<noteq> x"
  shows "\<exists>c'. ocf_metadata_remove_from_collision c x part = Some c' \<and> coll_frame c c' \<and>
    seg_hash c' = (if seg_hash c (line_hash c x) = x then (seg_hash c)(line_hash c x := n) else seg_hash c) \<and>
    (\<forall>y. next_col (seg_list_info c' y) = (if y = x then E else if p \<noteq> E \<and> y = p then n else next_col (seg_list_info c y))) \<and>
    (\<forall>y. prev_col (seg_list_info c' y) = (if y = x then E else if n \<noteq> E \<and> y = n then p else prev_col (seg_list_info c y))) \<and>
    (\<forall>y. core_id (seg_collision c' y) = (if y = x then OCF_CORE_MAX else core_id (seg_collision c y))) \<and>
    (\<forall>y. core_line (seg_collision c' y) = (if y = x then - 1 else core_line (seg_collision c y)))"
proof -
  let ?f = "(seg_collision c)(x := (seg_collision c x)\<lparr>core_id := OCF_CORE_MAX, core_line := - 1\<rparr>)"
  let ?g1 = "if p \<noteq> E then (seg_list_info c)(p := (seg_list_info c p)\<lparr>next_col := n\<rparr>) else seg_list_info c"
  let ?g2 = "if n \<noteq> E then ?g1(n := (?g1 n)\<lparr>prev_col := p\<rparr>) else ?g1"
  let ?g = "?g2(x := (?g2 x)\<lparr>next_col := E, prev_col := E\<rparr>)"
  let ?h = "if seg_hash c (line_hash c x) = x then (seg_hash c)(line_hash c x := n) else seg_hash c"
  have h: "ocf_metadata_hash_func (c\<lparr>seg_list_info := g\<rparr>) = ocf_metadata_hash_func c" for g
    by (rule hash_func_frame) simp
  have "ocf_metadata_remove_from_collision c x part =
      Some (c\<lparr>seg_collision := ?f, seg_list_info := ?g, seg_hash := ?h\<rparr>)"
    using assms unfolding ocf_metadata_remove_from_collision_def line_hash_def
    by (cases "p = E"; cases "n = E"; cases "seg_hash c (line_hash c x) = x")
      (simp_all add: collision_defs h line_hash_def)
  moreover have "coll_frame c (c\<lparr>seg_collision := ?f, seg_list_info := ?g, seg_hash := ?h\<rparr>)"
    by (rule coll_frameI [OF refl]) auto
  ultimately show ?thesis using assms by (auto split: if_splits)
qed


lemma bucket_cong:
  assumes "bucket c h xs" "seg_hash c' h = seg_hash c h" "collision_table_entries c' = collision_table_entries c"
    "\<And>y. y \<in> set xs \<Longrightarrow> next_col (seg_list_info c' y) = next_col (seg_list_info c y) \<and>
      prev_col (seg_list_info c' y) = prev_col (seg_list_info c y)"
  shows "bucket c' h xs"
  using assms(1,2,3) dll_cong [of "\<lambda>i. next_col (seg_list_info c i)" "\<lambda>i. prev_col (seg_list_info c i)"
      "collision_table_entries c" xs "collision_table_entries c"
      "\<lambda>i. next_col (seg_list_info c' i)" "\<lambda>i. prev_col (seg_list_info c' i)"] assms(4)
  by (simp add: bucket_def)

text \<open>A line that is in no bucket.\<close>

definition unmapped :: "('s :: len) ocf_cache \<Rightarrow> (u32 \<Rightarrow> u32 list) \<Rightarrow> u32 \<Rightarrow> bool" where
  "unmapped c H x \<longleftrightarrow> (\<forall>h < hash_table_entries c. x \<notin> set (H h))"

lemma add_to_collision_ok:
  assumes ok: "coll_ok c H" and n: "0 < hash_table_entries c" and x: "x < collision_table_entries c" "unmapped c H x"
    and h: "h = ocf_metadata_hash_func c cl cid"
  shows "\<exists>c'. ocf_metadata_add_to_collision c cid cl h x = Some c' \<and> coll_ok c' (H(h := x # H h)) \<and> coll_frame c c' \<and>
    core_id (seg_collision c' x) = cid \<and> core_line (seg_collision c' x) = cl \<and>
    (\<forall>y. y \<noteq> x \<longrightarrow> seg_collision c' y = seg_collision c y)"
proof -
  have hn: "h < hash_table_entries c" unfolding h by (rule hash_func_lt [OF n])
  have b: "bucket c h (H h)" and xh: "x \<notin> set (H h)" using ok hn x(2) by (auto simp: coll_ok_def unmapped_def)
  have p: "seg_hash c h \<noteq> collision_table_entries c \<Longrightarrow> seg_hash c h \<in> set (H h)"
    using b by (cases "H h") (auto simp: bucket_def)
  have "seg_hash c h \<noteq> x" using p xh x(1) by (cases "seg_hash c h = collision_table_entries c") auto
  then obtain c' where r: "ocf_metadata_add_to_collision c cid cl h x = Some c'" and f: "coll_frame c c'"
    and sh: "seg_hash c' = (seg_hash c)(h := x)"
    and nx: "\<And>y. next_col (seg_list_info c' y) = (if y = x then seg_hash c h else next_col (seg_list_info c y))"
    and pv: "\<And>y. prev_col (seg_list_info c' y) = (if y = x then collision_table_entries c
       else if seg_hash c h \<noteq> collision_table_entries c \<and> y = seg_hash c h then x else prev_col (seg_list_info c y))"
    and ci: "\<And>y. core_id (seg_collision c' y) = (if y = x then cid else core_id (seg_collision c y))"
    and cl: "\<And>y. core_line (seg_collision c' y) = (if y = x then cl else core_line (seg_collision c y))"
    using add_to_collision_effect [OF hn x(1) refl, of cid cl] p b by (fastforce simp: bucket_def)
  note ff = coll_frame_fields [OF f]
  have lh: "line_hash c' y = (if y = x then h else line_hash c y)" for y
    by (simp add: line_hash_def ci cl h hash_func_frame [OF ff(2)])
  have hd: "y \<in> set (H h) \<Longrightarrow> seg_hash c h = hd (H h) \<and> hd (H h) < collision_table_entries c" for y
    using b by (cases "H h") (auto simp: bucket_def)
  have "dll (\<lambda>i. next_col (seg_list_info c' i)) (\<lambda>i. prev_col (seg_list_info c' i))
      (collision_table_entries c) (x # H h) (collision_table_entries c)"
    by (rule dll_push [of "\<lambda>i. next_col (seg_list_info c i)" "\<lambda>i. prev_col (seg_list_info c i)"])
      (use b xh hd in \<open>auto simp: bucket_def nx pv\<close>)
  then have "bucket c' h (x # H h)" using b xh x(1) by (simp add: bucket_def ff sh)
  moreover have "bucket c' h' (H h')" if "h' < hash_table_entries c" "h' \<noteq> h" for h'
  proof (rule bucket_cong)
    show "bucket c h' (H h')" using ok that by (simp add: coll_ok_def)
    show "next_col (seg_list_info c' y) = next_col (seg_list_info c y) \<and>
      prev_col (seg_list_info c' y) = prev_col (seg_list_info c y)" if "y \<in> set (H h')" for y
      using that x(2) p coll_ok_disjoint [OF ok \<open>h' < _\<close> hn that] \<open>h' \<noteq> h\<close> \<open>h' < _\<close>
      by (auto simp: nx pv unmapped_def)
  qed (simp_all add: sh that ff)
  ultimately have "coll_ok c' (H(h := x # H h))"
    using ok x(2) by (auto simp: coll_ok_def ff lh unmapped_def)
  moreover have "\<forall>y. y \<noteq> x \<longrightarrow> seg_collision c' y = seg_collision c y"
    by (auto simp: ci cl ff intro!: ocf_metadata_map.equality)
  ultimately show ?thesis using r f by (auto simp: ci cl)
qed


lemma remove_from_collision_ok:
  assumes ok: "coll_ok c H" and h: "h < hash_table_entries c" "x \<in> set (H h)"
  shows "\<exists>c'. ocf_metadata_remove_from_collision c x part = Some c' \<and> coll_ok c' (H(h := remove1 x (H h))) \<and>
    coll_frame c c' \<and> core_id (seg_collision c' x) = OCF_CORE_MAX \<and>
    (\<forall>y. y \<noteq> x \<longrightarrow> seg_collision c' y = seg_collision c y)"
proof -
  let ?E = "collision_table_entries c" and ?n = "next_col (seg_list_info c x)" and ?p = "prev_col (seg_list_info c x)"
  obtain ys zs where hh: "H h = ys @ x # zs" "x \<notin> set ys" using split_list_first [OF h(2)] by blast
  have b: "bucket c h (ys @ x # zs)" and lhx: "line_hash c x = h" using ok h hh by (auto simp: coll_ok_def)
  then have d: "distinct (ys @ x # zs)" and lt: "\<forall>y\<in>set (ys @ x # zs). y < ?E"
    and dl: "dll (\<lambda>i. next_col (seg_list_info c i)) (\<lambda>i. prev_col (seg_list_info c i)) ?E (ys @ x # zs) ?E"
    and sh: "seg_hash c h = dl_first (ys @ x # zs) ?E"
    by (simp_all add: bucket_def)
  have n: "?n = dl_first zs ?E" and p: "?p = dl_last ys ?E" using dll_middle [OF dl] by simp_all
  have E: "?E \<notin> set (ys @ x # zs)" using lt by auto
  have ne: "?n \<noteq> ?E \<longleftrightarrow> zs \<noteq> []" "?p \<noteq> ?E \<longleftrightarrow> ys \<noteq> []"
    using E by (simp_all add: n p dl_first_eq_end dl_last_eq_end)
  have "zs \<noteq> [] \<Longrightarrow> ?n = hd zs \<and> hd zs \<in> set zs" "ys \<noteq> [] \<Longrightarrow> ?p = last ys \<and> last ys \<in> set ys"
    by (simp_all add: n p dl_first_neq dl_last_neq)
  note np = this
  have "\<exists>c'. ocf_metadata_remove_from_collision c x part = Some c' \<and> coll_frame c c' \<and>
    seg_hash c' = (if seg_hash c (line_hash c x) = x then (seg_hash c)(line_hash c x := ?n) else seg_hash c) \<and>
    (\<forall>y. next_col (seg_list_info c' y) = (if y = x then ?E else if ?p \<noteq> ?E \<and> y = ?p then ?n else next_col (seg_list_info c y))) \<and>
    (\<forall>y. prev_col (seg_list_info c' y) = (if y = x then ?E else if ?n \<noteq> ?E \<and> y = ?n then ?p else prev_col (seg_list_info c y))) \<and>
    (\<forall>y. core_id (seg_collision c' y) = (if y = x then OCF_CORE_MAX else core_id (seg_collision c y))) \<and>
    (\<forall>y. core_line (seg_collision c' y) = (if y = x then - 1 else core_line (seg_collision c y)))"
    using lt d ne np h(1) lhx E by (intro remove_from_collision_effect) auto
  then obtain c' where r: "ocf_metadata_remove_from_collision c x part = Some c'" and f: "coll_frame c c'"
    and sh': "seg_hash c' = (if seg_hash c h = x then (seg_hash c)(h := ?n) else seg_hash c)"
    and nx: "\<And>y. next_col (seg_list_info c' y) = (if y = x then ?E else if ?p \<noteq> ?E \<and> y = ?p then ?n else next_col (seg_list_info c y))"
    and pv: "\<And>y. prev_col (seg_list_info c' y) = (if y = x then ?E else if ?n \<noteq> ?E \<and> y = ?n then ?p else prev_col (seg_list_info c y))"
    and ci: "\<And>y. core_id (seg_collision c' y) = (if y = x then OCF_CORE_MAX else core_id (seg_collision c y))"
    and cl: "\<And>y. core_line (seg_collision c' y) = (if y = x then - 1 else core_line (seg_collision c y))"
    unfolding lhx by blast
  note ff = coll_frame_fields [OF f]
  have lh: "y \<noteq> x \<Longrightarrow> line_hash c' y = line_hash c y" for y
    by (simp add: line_hash_def ci cl hash_func_frame [OF ff(2)])
  have rem: "remove1 x (H h) = ys @ zs" using hh by (simp add: remove1_append)
  have "dll (\<lambda>i. next_col (seg_list_info c' i)) (\<lambda>i. prev_col (seg_list_info c' i)) ?E (ys @ zs) ?E"
    using d np ne by (intro dll_unlink [OF dl d]) (auto simp: nx pv)
  moreover have "seg_hash c' h = dl_first (ys @ zs) ?E"
    using sh d by (cases ys) (auto simp: sh' n)
  ultimately have "bucket c' h (remove1 x (H h))" using d lt by (simp add: bucket_def rem ff)
  moreover have "bucket c' h' (H h')" if "h' < hash_table_entries c" "h' \<noteq> h" for h'
  proof (rule bucket_cong)
    show "bucket c h' (H h')" using ok that by (simp add: coll_ok_def)
    show "next_col (seg_list_info c' y) = next_col (seg_list_info c y) \<and>
      prev_col (seg_list_info c' y) = prev_col (seg_list_info c y)" if "y \<in> set (H h')" for y
    proof -
      have "y \<notin> set (H h)" using coll_ok_disjoint [OF ok \<open>h' < _\<close> h(1) that] \<open>h' \<noteq> h\<close> by blast
      then have "(y = x) = False" "(?p \<noteq> ?E \<and> y = ?p) = False" "(?n \<noteq> ?E \<and> y = ?n) = False"
        using ne np by (auto simp: hh)
      then show ?thesis unfolding nx pv by (simp only: if_False simp_thms)
    qed
  qed (use that in \<open>auto simp: sh' ff\<close>)
  moreover have "\<forall>y\<in>set (remove1 x (H h)). line_hash c' y = h"
  proof
    fix y assume "y \<in> set (remove1 x (H h))"
    then have "y \<in> set (H h)" "y \<noteq> x" using d hh(1) rem by auto
    then show "line_hash c' y = h" using ok h(1) lh by (simp add: coll_ok_def)
  qed
  moreover have "\<forall>y\<in>set (H h'). line_hash c' y = h'" if "h' < hash_table_entries c" "h' \<noteq> h" for h'
    using ok that lhx lh by (metis coll_ok_def)
  ultimately have "coll_ok c' (H(h := remove1 x (H h)))" by (simp add: coll_ok_def ff)
  moreover have "\<forall>y. y \<noteq> x \<longrightarrow> seg_collision c' y = seg_collision c y"
    by (auto simp: ci cl ff intro!: ocf_metadata_map.equality)
  ultimately show ?thesis using r f by (auto simp: ci)
qed


subsection \<open>Lookup\<close>

text \<open>The core line that a cache line holds.\<close>

definition holds :: "('s :: len) ocf_cache \<Rightarrow> u16 \<Rightarrow> u64 \<Rightarrow> u32 \<Rightarrow> bool" where
  "holds c cid cl x \<longleftrightarrow> core_id (seg_collision c x) = cid \<and> core_line (seg_collision c x) = cl"

lemma collision_walk_find:
  assumes "dll (\<lambda>i. next_col (seg_list_info c i)) (\<lambda>i. prev_col (seg_list_info c i)) b xs (collision_table_entries c)"
    "\<forall>x\<in>set xs. x < collision_table_entries c"
  shows "collision_walk c cid cl (dl_first xs (collision_table_entries c)) = Some (find (holds c cid cl) xs)"
  using assms
proof (induction xs arbitrary: b)
  case Nil
  then show ?case by (subst collision_walk.simps) simp
next
  case (Cons x xs)
  then have "collision_walk c cid cl (dl_first xs (collision_table_entries c)) = Some (find (holds c cid cl) xs)"
    using Cons.IH [of x] by simp
  moreover have "x < collision_table_entries c" "next_col (seg_list_info c x) = dl_first xs (collision_table_entries c)"
    using Cons.prems by simp_all
  ultimately show ?case
    unfolding collision_walk.simps [of c cid cl "dl_first (x # xs) _"]
    by (cases "holds c cid cl x") (auto simp: collision_defs ocf_metadata_get_collision_next_def holds_def [of c cid cl x])
qed

lemma collision_lookup_find:
  assumes "coll_ok c H" "0 < hash_table_entries c"
  shows "collision_lookup c cid cl = Some (find (holds c cid cl) (H (ocf_metadata_hash_func c cl cid)))"
proof -
  let ?h = "ocf_metadata_hash_func c cl cid"
  have h: "?h < hash_table_entries c" by (rule hash_func_lt [OF assms(2)])
  then have "bucket c ?h (H ?h)" using assms(1) by (simp add: coll_ok_def)
  then show ?thesis
    using h collision_walk_find [of c "collision_table_entries c" "H ?h" cid cl]
    by (simp add: collision_lookup_def ocf_metadata_get_hash_def bucket_def)
qed

text \<open>The lookup finds a line exactly when some bucket holds one for the core line.\<close>

lemma collision_lookup_Some:
  assumes "coll_ok c H" "0 < hash_table_entries c" "collision_lookup c cid cl = Some (Some x)"
  shows "holds c cid cl x" "x \<in> set (H (ocf_metadata_hash_func c cl cid))"
  using assms collision_lookup_find [OF assms(1,2), of cid cl] by (auto simp: find_Some_iff)

lemma collision_lookup_None:
  assumes "coll_ok c H" "0 < hash_table_entries c" "collision_lookup c cid cl = Some None"
    "h < hash_table_entries c" "x \<in> set (H h)"
  shows "\<not> holds c cid cl x"
proof
  assume x: "holds c cid cl x"
  have "line_hash c x = h" using assms(1,4,5) by (simp add: coll_ok_def)
  then have "h = ocf_metadata_hash_func c cl cid" using x by (simp add: line_hash_def holds_def)
  then show False
    using assms(3,5) x collision_lookup_find [OF assms(1,2), of cid cl] by (auto simp: find_None_iff)
qed


subsection \<open>The table as a map from core lines to cache lines\<close>

definition coll_unique :: "('s :: len) ocf_cache \<Rightarrow> (u32 \<Rightarrow> u32 list) \<Rightarrow> bool" where
  "coll_unique c H \<longleftrightarrow> (\<forall>h < hash_table_entries c. \<forall>x\<in>set (H h). \<forall>y\<in>set (H h).
     core_id (seg_collision c x) = core_id (seg_collision c y) \<longrightarrow>
     core_line (seg_collision c x) = core_line (seg_collision c y) \<longrightarrow> x = y)"

definition index_ok :: "('s :: len) ocf_cache \<Rightarrow> bool" where
  "index_ok c \<longleftrightarrow> 0 < hash_table_entries c \<and> (\<exists>H. coll_ok c H \<and> coll_unique c H)"

definition index :: "('s :: len) ocf_cache \<Rightarrow> u16 \<times> u64 \<Rightarrow> u32 option" where
  "index c k = (case collision_lookup c (fst k) (snd k) of None \<Rightarrow> None | Some r \<Rightarrow> r)"

definition index_add :: "('s :: len) ocf_cache \<Rightarrow> u16 \<times> u64 \<Rightarrow> u32 \<Rightarrow> 's ocf_cache option" where
  "index_add c k x = ocf_metadata_add_to_collision c (fst k) (snd k) (ocf_metadata_hash_func c (snd k) (fst k)) x"

lemma index_iff:
  assumes "coll_ok c H" "coll_unique c H" "0 < hash_table_entries c"
  shows "index c (cid, cl) = Some x \<longleftrightarrow> (\<exists>h < hash_table_entries c. x \<in> set (H h)) \<and> holds c cid cl x"
proof
  let ?h = "ocf_metadata_hash_func c cl cid"
  note f = collision_lookup_find [OF assms(1,3), of cid cl] and hn = hash_func_lt [OF assms(3), of cl cid]
  show "(\<exists>h < hash_table_entries c. x \<in> set (H h)) \<and> holds c cid cl x" if "index c (cid, cl) = Some x"
    using that f hn by (auto simp: index_def find_Some_iff)
  assume a: "(\<exists>h < hash_table_entries c. x \<in> set (H h)) \<and> holds c cid cl x"
  then obtain h where h: "h < hash_table_entries c" "x \<in> set (H h)" by blast
  then have "h = ?h" using a assms(1) by (auto simp: coll_ok_def line_hash_def holds_def)
  then obtain y where y: "find (holds c cid cl) (H ?h) = Some y" using a h by (cases "find (holds c cid cl) (H ?h)") (auto simp: find_None_iff)
  then have "y \<in> set (H ?h)" "holds c cid cl y" by (auto simp: find_Some_iff)
  then have "x = y" using a h \<open>h = ?h\<close> assms(2) by (auto simp: coll_unique_def holds_def)
  then show "index c (cid, cl) = Some x" using f y by (simp add: index_def)
qed

lemma mem_push:
  fixes h n :: u32
  assumes "h < n"
  shows "(\<exists>h' < n. y \<in> set ((H(h := x # H h)) h')) \<longleftrightarrow> y = x \<or> (\<exists>h' < n. y \<in> set (H h'))"
proof
  assume "\<exists>h' < n. y \<in> set ((H(h := x # H h)) h')"
  then show "y = x \<or> (\<exists>h' < n. y \<in> set (H h'))" by (auto split: if_splits)
next
  assume a: "y = x \<or> (\<exists>h' < n. y \<in> set (H h'))"
  show "\<exists>h' < n. y \<in> set ((H(h := x # H h)) h')"
  proof (cases "y = x")
    case True
    then show ?thesis using assms by (intro exI [of _ h]) simp
  next
    case False
    then obtain h' where "h' < n" "y \<in> set (H h')" using a by blast
    then show ?thesis by (intro exI [of _ h']) auto
  qed
qed

lemma mem_remove:
  fixes h n :: u32
  assumes "h < n" "distinct (H h)" "\<And>h'. h' < n \<Longrightarrow> x \<in> set (H h') \<Longrightarrow> h' = h"
  shows "(\<exists>h' < n. y \<in> set ((H(h := remove1 x (H h))) h')) \<longleftrightarrow> y \<noteq> x \<and> (\<exists>h' < n. y \<in> set (H h'))"
proof
  assume "\<exists>h' < n. y \<in> set ((H(h := remove1 x (H h))) h')"
  then show "y \<noteq> x \<and> (\<exists>h' < n. y \<in> set (H h'))" using assms by (auto split: if_splits)
next
  assume a: "y \<noteq> x \<and> (\<exists>h' < n. y \<in> set (H h'))"
  then obtain h' where "h' < n" "y \<in> set (H h')" by blast
  then show "\<exists>h' < n. y \<in> set ((H(h := remove1 x (H h))) h')" using a by (intro exI [of _ h']) auto
qed

lemma index_add_ok:
  assumes ok: "index_ok c" and x: "x < collision_table_entries c" "x \<notin> ran (index c)" and k: "index c k = None"
  shows "\<exists>c'. index_add c k x = Some c' \<and> index_ok c' \<and> index c' = (index c)(k \<mapsto> x) \<and>
    coll_frame c c' \<and> core_id (seg_collision c' x) = fst k \<and> core_line (seg_collision c' x) = snd k \<and>
    (\<forall>y. y \<noteq> x \<longrightarrow> seg_collision c' y = seg_collision c y)"
proof -
  obtain cid cl where kk: "k = (cid, cl)" by (cases k)
  obtain H where H: "coll_ok c H" "coll_unique c H" and n: "0 < hash_table_entries c" using ok by (auto simp: index_ok_def)
  note iff = index_iff [OF H n]
  define h where "h = ocf_metadata_hash_func c cl cid"
  have um: "unmapped c H x"
    using x(2) iff [of "core_id (seg_collision c x)" "core_line (seg_collision c x)" x]
    by (auto simp: unmapped_def holds_def ran_def)
  obtain c' where r: "ocf_metadata_add_to_collision c cid cl h x = Some c'" "coll_ok c' (H(h := x # H h))" "coll_frame c c'"
    "core_id (seg_collision c' x) = cid" "core_line (seg_collision c' x) = cl"
    "\<forall>y. y \<noteq> x \<longrightarrow> seg_collision c' y = seg_collision c y"
    using add_to_collision_ok [OF H(1) n x(1) um h_def] by blast
  note ff = coll_frame_fields [OF r(3)]
  have nh: "\<not> holds c cid cl y" if "h' < hash_table_entries c" "y \<in> set (H h')" for h' y
    using k iff [of cid cl y] that kk by auto
  have hn: "h < hash_table_entries c" unfolding h_def by (rule hash_func_lt [OF n])
  have holds': "holds c' a b y = (if y = x then (a, b) = (cid, cl) else holds c a b y)" for a b y
    using r(4-6) by (auto simp: holds_def)
  have mem: "(\<exists>h' < hash_table_entries c. y \<in> set ((H(h := x # H h)) h')) \<longleftrightarrow>
      y = x \<or> (\<exists>h' < hash_table_entries c. y \<in> set (H h'))" for y
    by (rule mem_push [OF hn])
  have u: "coll_unique c' (H(h := x # H h))"
    using H(2) nh um hn r(4-6) unfolding coll_unique_def ff unmapped_def holds_def
    by (auto split: if_splits) metis+
  have "index c' = (index c)(k \<mapsto> x)"
  proof
    fix k' :: "u16 \<times> u64" obtain a b where k': "k' = (a, b)" by (cases k')
    have "index c' (a, b) = Some y \<longleftrightarrow> ((index c)(k \<mapsto> x)) (a, b) = Some y" for y
      unfolding index_iff [OF r(2) u n [folded ff(2)]] holds' ff(2) mem
      using um iff nh by (auto simp: unmapped_def kk)
    then show "index c' k' = ((index c)(k \<mapsto> x)) k'" unfolding k' by (metis option.exhaust)
  qed
  moreover have "index_ok c'" using r(2) u n ff by (auto simp: index_ok_def)
  ultimately show ?thesis using r kk by (simp add: index_add_def h_def)
qed


lemma index_remove_ok:
  assumes ok: "index_ok c" and k: "index c k = Some x"
  shows "\<exists>c'. ocf_metadata_remove_from_collision c x part = Some c' \<and> index_ok c' \<and>
    index c' = (index c)(k := None) \<and> coll_frame c c' \<and> core_id (seg_collision c' x) = OCF_CORE_MAX \<and>
    (\<forall>y. y \<noteq> x \<longrightarrow> seg_collision c' y = seg_collision c y)"
proof -
  obtain cid cl where kk: "k = (cid, cl)" by (cases k)
  obtain H where H: "coll_ok c H" "coll_unique c H" and n: "0 < hash_table_entries c" using ok by (auto simp: index_ok_def)
  note iff = index_iff [OF H n]
  obtain h where h: "h < hash_table_entries c" "x \<in> set (H h)" and hx: "holds c cid cl x"
    using k iff [of cid cl x] kk by auto
  obtain c' where r: "ocf_metadata_remove_from_collision c x part = Some c'" "coll_ok c' (H(h := remove1 x (H h)))"
    "coll_frame c c'" "core_id (seg_collision c' x) = OCF_CORE_MAX"
    "\<forall>y. y \<noteq> x \<longrightarrow> seg_collision c' y = seg_collision c y"
    using remove_from_collision_ok [OF H(1) h] by blast
  note ff = coll_frame_fields [OF r(3)]
  have d: "distinct (H h)" using H(1) h(1) by (simp add: coll_ok_def bucket_def)
  have mem: "(\<exists>h' < hash_table_entries c. y \<in> set ((H(h := remove1 x (H h))) h')) \<longleftrightarrow>
      y \<noteq> x \<and> (\<exists>h' < hash_table_entries c. y \<in> set (H h'))" for y
    using coll_ok_disjoint [OF H(1) _ h(1) _ h(2)] by (intro mem_remove h d)
  have holds': "y \<noteq> x \<Longrightarrow> holds c' a b y = holds c a b y" for a b y
    using r(5) by (simp add: holds_def)
  have u: "coll_unique c' (H(h := remove1 x (H h)))"
    unfolding coll_unique_def ff
  proof (intro allI impI ballI)
    fix h' y z
    assume a: "h' < hash_table_entries c" "y \<in> set ((H(h := remove1 x (H h))) h')" "z \<in> set ((H(h := remove1 x (H h))) h')"
      "core_id (seg_collision c' y) = core_id (seg_collision c' z)"
      "core_line (seg_collision c' y) = core_line (seg_collision c' z)"
    have "y \<noteq> x" "z \<noteq> x" using a(1-3) mem by blast+
    moreover have "y \<in> set (H h')" "z \<in> set (H h')"
      using a(2,3) by (auto simp: d split: if_splits)
    ultimately show "y = z" using a(1,4,5) H(2) r(5) by (simp add: coll_unique_def)
  qed
  have "index c' = (index c)(k := None)"
  proof
    fix k' :: "u16 \<times> u64" obtain a b where k': "k' = (a, b)" by (cases k')
    have "index c' (a, b) = Some y \<longleftrightarrow> ((index c)(k := None)) (a, b) = Some y" for y
      unfolding index_iff [OF r(2) u n [folded ff(2)]] ff(2) mem
      using iff [of a b y] iff [of cid cl y] holds' [of y a b] hx k by (auto simp: kk holds_def)
    then show "index c' k' = ((index c)(k := None)) k'" unfolding k' by (metis option.exhaust)
  qed
  moreover have "index_ok c'" using r(2) u n ff by (auto simp: index_ok_def)
  ultimately show ?thesis using r by blast
qed

lemma index_inj:
  assumes "index_ok c" "index c k = Some x" "index c k' = Some x"
  shows "k = k'" "holds c (fst k) (snd k) x" "x < collision_table_entries c"
proof -
  obtain H where H: "coll_ok c H" "coll_unique c H" and n: "0 < hash_table_entries c" using assms(1) by (auto simp: index_ok_def)
  note iff = index_iff [OF H n]
  show "holds c (fst k) (snd k) x" using assms(2) iff [of "fst k" "snd k" x] by simp
  moreover have "holds c (fst k') (snd k') x" using assms(3) iff [of "fst k'" "snd k'" x] by simp
  ultimately show "k = k'" by (simp add: holds_def prod_eq_iff)
  show "x < collision_table_entries c"
    using assms(2) iff [of "fst k" "snd k" x] H(1) by (auto simp: coll_ok_def bucket_def)
qed

lemma remove_cache_line_ok:
  assumes "index_ok c" "index c k = Some x"
  shows "\<exists>c'. ocf_metadata_remove_cache_line c x = Some c' \<and> index_ok c' \<and> index c' = (index c)(k := None) \<and>
    coll_frame c c' \<and> core_id (seg_collision c' x) = OCF_CORE_MAX \<and>
    (\<forall>y. y \<noteq> x \<longrightarrow> seg_collision c' y = seg_collision c y)"
  using index_remove_ok [OF assms] index_inj(3) [OF assms assms(2)]
  by (simp add: ocf_metadata_remove_cache_line_def ocf_metadata_get_partition_id_def)

interpretation collision: line_index index_ok index "\<lambda>c x. x < collision_table_entries c"
  index_add ocf_metadata_remove_cache_line
proof
  fix c :: "('a :: len) ocf_cache" and k k' v
  show "index_ok c \<Longrightarrow> index c k = Some v \<Longrightarrow> index c k' = Some v \<Longrightarrow> k = k'" by (rule index_inj)
  show "index_ok c \<Longrightarrow> index c k = Some v \<Longrightarrow> v < collision_table_entries c" by (rule index_inj)
  show "index_ok c \<Longrightarrow> v < collision_table_entries c \<Longrightarrow> v \<notin> ran (index c) \<Longrightarrow> index c k = None \<Longrightarrow>
    \<exists>c'. index_add c k v = Some c' \<and> index_ok c' \<and> index c' = (index c)(k \<mapsto> v) \<and>
      (\<lambda>x. x < collision_table_entries c') = (\<lambda>x. x < collision_table_entries c)"
    using index_add_ok [of c v k] by (fastforce dest: coll_frame_fields(1))
  show "index_ok c \<Longrightarrow> index c k = Some v \<Longrightarrow>
    \<exists>c'. ocf_metadata_remove_cache_line c v = Some c' \<and> index_ok c' \<and> index c' = (index c)(k := None) \<and>
      (\<lambda>x. x < collision_table_entries c') = (\<lambda>x. x < collision_table_entries c)"
    using remove_cache_line_ok [of c k v] by (fastforce dest: coll_frame_fields(1))
qed


lemma collision_lookup_index:
  assumes "index_ok c"
  shows "collision_lookup c cid cl = Some (index c (cid, cl))"
proof -
  obtain H where "coll_ok c H" "0 < hash_table_entries c" using assms by (auto simp: index_ok_def)
  then show ?thesis using collision_lookup_find [of c H cid cl] by (simp add: index_def)
qed

lemma index_ok_empty:
  assumes "0 < hash_table_entries c" "\<And>h. seg_hash c h = collision_table_entries c"
  shows "index_ok c \<and> index c = Map.empty"
proof
  have "coll_ok c (\<lambda>_. [])" "coll_unique c (\<lambda>_. [])" using assms by (simp_all add: coll_ok_def bucket_def coll_unique_def)
  then show "index_ok c" using assms(1) by (auto simp: index_ok_def)
  show "index c = Map.empty"
    using collision_lookup_find [OF \<open>coll_ok c _\<close> assms(1)] by (simp add: index_def fun_eq_iff)
qed

lemma unat_hash_func:
  assumes "0 < hash_table_entries c" "unat cl < 2 ^ 64 - 2 ^ 32"
  shows "unat (ocf_metadata_hash_func c cl cid) =
    (unat cl + unat (ucast cid * (hash_table_entries c div 32) :: u32)) mod unat (hash_table_entries c)"
proof -
  let ?n = "hash_table_entries c" and ?k = "ucast cid * (hash_table_entries c div 32) :: u32"
  have k: "unat ?k < 2 ^ 32" using unsigned_less [of ?k, where ?'a = nat] by simp
  then have "unat (cl + (ucast ?k :: u64)) = unat cl + unat ?k"
    using assms(2) by (subst unat_add_nowrap) (simp_all add: unat_ucast_u64)
  then have m: "unat ((cl + ucast ?k) mod (ucast ?n :: u64)) = (unat cl + unat ?k) mod unat ?n"
    by (simp add: unat_mod unat_ucast_u64)
  have "(unat cl + unat ?k) mod unat ?n < unat ?n" using assms(1) by (simp add: word_less_nat_alt)
  then have "(unat cl + unat ?k) mod unat ?n < 2 ^ 32" using unsigned_less [of ?n, where ?'a = nat] by simp
  then have "unat (ucast ((cl + ucast ?k) mod (ucast ?n :: u64)) :: u32) = (unat cl + unat ?k) mod unat ?n"
    unfolding unsigned_ucast_eq m [symmetric]
    by (simp add: unsigned_take_bit_eq take_bit_nat_eq_self)
  then show ?thesis by (simp only: ocf_metadata_hash_func_def Let_def)
qed

text \<open>Consecutive core lines hash to consecutive buckets, cyclically; the ordered locking of hash buckets relies on it.\<close>

lemma unat_hash_consecutive:
  assumes "0 < hash_table_entries c" "unat cl + i < 2 ^ 64 - 2 ^ 32"
  shows "unat (ocf_metadata_hash_func c (cl + of_nat i) cid) =
    (unat (ocf_metadata_hash_func c cl cid) + i) mod unat (hash_table_entries c)"
proof -
  have "unat (of_nat i :: u64) = i" using assms(2) by (simp add: unat_of_nat take_bit_nat_eq_self)
  then have "unat (cl + of_nat i) = unat cl + i" using assms(2) by (subst unat_add_nowrap) auto
  then show ?thesis using unat_hash_func [OF assms(1), of cl cid] unat_hash_func [OF assms(1), of "cl + of_nat i" cid] assms
    by (simp add: mod_add_left_eq add.assoc add.commute [of i])
qed

subsection \<open>Properties\<close>

text \<open>
  Mapping a free cache line to a core line that is not cached succeeds; afterwards the lookup
  of every core line ends, finds the line just mapped for its core line and what it found before
  for every other.
\<close>
lemma collision_insert_lookup:
  assumes "index_ok c" "x < collision_table_entries c" "x \<notin> ran (index c)" "index c (cid, cl) = None"
  shows "\<exists>c'. ocf_metadata_add_to_collision c cid cl (ocf_metadata_hash_func c cl cid) x = Some c' \<and>
    index_ok c' \<and> (\<forall>a b. collision_lookup c' a b =
      (if (a, b) = (cid, cl) then Some (Some x) else collision_lookup c a b))"
  using collision.ins_ok [OF assms] assms(1)
  by (auto simp: index_add_def collision_lookup_index)

text \<open>
  C6. Every sequence of insertions and removals refines the map from core lines to cache lines: when each insertion, at its turn, takes a
  line that holds no core line and a core line that is not cached, and each removal a line that holds a core line, no step fails, and
  afterwards the lookup of every core line ends and finds what the same sequence gives on the map.  A line may be replaced many times, and a
  core line may come back after it was evicted.
\<close>
theorem collision_run_refines_map:
  assumes "index_ok c" "ops_allowed (\<lambda>x. x < collision_table_entries c) (index c) ps"
  shows "\<exists>c'. collision.run c ps = Some c' \<and> index_ok c' \<and>
    (\<forall>cid cl. collision_lookup c' cid cl = Some (foldl map_op (\<lambda>(cid, cl). the (collision_lookup c cid cl)) ps (cid, cl)))"
proof -
  obtain c' where c': "collision.run c ps = Some c'" "index_ok c'" "index c' = foldl map_op (index c) ps"
    using collision.run_ok [OF assms] by blast
  have "(\<lambda>(cid, cl). the (collision_lookup c cid cl)) = index c" by (auto simp: collision_lookup_index [OF assms(1)])
  then show ?thesis using c' by (intro exI [of _ c']) (simp add: collision_lookup_index)
qed

theorem collision_run_refines_map_witness:
  "\<exists>c'. collision.run (striped_cache :: 8 ocf_cache) [Map_Line (1, 7) 3, Unmap_Line 3, Map_Line (2, 9) 3, Unmap_Line 3, Map_Line (1, 7) 4] = Some c' \<and>
    collision_lookup c' 1 7 = Some (Some 4) \<and> collision_lookup c' 2 9 = Some None"
proof -
  have e: "index_ok striped_cache" "index striped_cache = Map.empty"
    using index_ok_empty [of striped_cache] by (simp_all add: striped_cache_def)
  let ?ps = "[Map_Line (1, 7) 3, Unmap_Line 3, Map_Line (2, 9) 3, Unmap_Line 3, Map_Line (1, 7) 4] :: (u16 \<times> u64, u32) index_op list"
  have "ops_allowed (\<lambda>x. x < collision_table_entries striped_cache) (index striped_cache) ?ps"
    unfolding e(2) by (simp add: striped_cache_def ran_def)
  then obtain c' where "collision.run striped_cache ?ps = Some c'"
    "\<And>cid cl. collision_lookup c' cid cl = Some (foldl map_op (\<lambda>(cid, cl). the (collision_lookup striped_cache cid cl)) ?ps (cid, cl))"
    using collision_run_refines_map [OF e(1)] by blast
  then show ?thesis by (intro exI [of _ c']) (simp add: collision_lookup_index [OF e(1)] e(2))
qed

end
