(* ===== verification/Recency_List.thy ===== *)
theory Recency_List
  imports OCF_Prelude
begin

text \<open>
  The interface between the lists of cache lines and their clients.  A list lives partly in a
  shared state \<open>'c\<close> (the nodes) and partly in a structure of its own \<open>'l\<close>; several lists
  share the state, so every operation promises which nodes it leaves alone.

  The client lemmas: the operations on one list of a family of disjoint lists.
\<close>

locale recency_list =
  fixes ok :: "'c \<Rightarrow> 'l \<Rightarrow> 'i list \<Rightarrow> bool"
    and fr :: "'i set \<Rightarrow> 'c \<Rightarrow> 'c \<Rightarrow> bool"
    and elem :: "'c \<Rightarrow> 'i \<Rightarrow> bool"
    and kind :: "'l \<Rightarrow> bool"
    and add :: "'c \<Rightarrow> 'l \<Rightarrow> 'i \<Rightarrow> ('c \<times> 'l) option"
    and rem :: "'c \<Rightarrow> 'l \<Rightarrow> 'i \<Rightarrow> ('c \<times> 'l) option"
    and touch :: "'c \<Rightarrow> 'l \<Rightarrow> 'i \<Rightarrow> ('c \<times> 'l) option"
  assumes ok_distinct: "ok c l xs \<Longrightarrow> distinct xs"
    and ok_elem: "ok c l xs \<Longrightarrow> x \<in> set xs \<Longrightarrow> elem c x"
    and fr_refl: "fr S c c"
    and fr_trans: "fr S c c' \<Longrightarrow> fr T c' c'' \<Longrightarrow> S \<subseteq> U \<Longrightarrow> T \<subseteq> U \<Longrightarrow> fr U c c''"
    and fr_ok: "fr S c c' \<Longrightarrow> ok c l xs \<Longrightarrow> S \<inter> set xs = {} \<Longrightarrow> ok c' l xs"
    and fr_elem: "fr S c c' \<Longrightarrow> elem c' x = elem c x"
    and add_ok: "ok c l xs \<Longrightarrow> elem c x \<Longrightarrow> x \<notin> set xs \<Longrightarrow>
      \<exists>c' l'. add c l x = Some (c', l') \<and> ok c' l' (x # xs) \<and> fr (insert x (set xs)) c c' \<and> kind l' = kind l"
    and rem_ok: "ok c l xs \<Longrightarrow> x \<in> set xs \<Longrightarrow>
      \<exists>c' l'. rem c l x = Some (c', l') \<and> ok c' l' (remove1 x xs) \<and> fr (set xs) c c' \<and> kind l' = kind l"
    and touch_ok: "ok c l xs \<Longrightarrow> x \<in> set xs \<Longrightarrow>
      \<exists>c' l'. touch c l x = Some (c', l') \<and> ok c' l' (x # remove1 x xs) \<and> fr (set xs) c c' \<and> kind l' = kind l"
begin

text \<open>A family of lists over one state, no element in two of them.\<close>

definition family :: "'c \<Rightarrow> ('r \<Rightarrow> 'l) \<Rightarrow> ('r \<Rightarrow> 'i list) \<Rightarrow> 'r set \<Rightarrow> bool" where
  "family c M L R \<longleftrightarrow> (\<forall>r\<in>R. ok c (M r) (L r)) \<and> (\<forall>r\<in>R. \<forall>s\<in>R. r \<noteq> s \<longrightarrow> set (L r) \<inter> set (L s) = {})"

lemma family_update:
  assumes "family c M L R" "r \<in> R" "fr S c c'" "ok c' l' ys" "set ys \<subseteq> S" "\<forall>s\<in>R. s \<noteq> r \<longrightarrow> S \<inter> set (L s) = {}"
  shows "family c' (M(r := l')) (L(r := ys)) R"
proof -
  have "ok c' (M s) (L s)" if "s \<in> R" "s \<noteq> r" for s
    using that assms(1,6) by (intro fr_ok [OF assms(3)]) (auto simp: family_def)
  moreover have "set ys \<inter> set (L s) = {}" if "s \<in> R" "s \<noteq> r" for s
    using that assms(5,6) by blast
  ultimately show ?thesis using assms(1,2,4) by (auto simp: family_def)
qed

lemma family_add:
  assumes "family c M L R" "r \<in> R" "elem c x" "\<forall>s\<in>R. x \<notin> set (L s)"
  shows "\<exists>c' l'. add c (M r) x = Some (c', l') \<and> family c' (M(r := l')) (L(r := x # L r)) R \<and>
    fr (insert x (set (L r))) c c' \<and> kind l' = kind (M r)"
proof -
  have "ok c (M r) (L r)" using assms(1,2) by (simp add: family_def)
  then obtain c' l' where a: "add c (M r) x = Some (c', l')" "ok c' l' (x # L r)" "fr (insert x (set (L r))) c c'"
    "kind l' = kind (M r)"
    using add_ok assms(2-4) by blast
  moreover have "family c' (M(r := l')) (L(r := x # L r)) R"
    using assms(1,2,4) by (intro family_update [OF assms(1,2) a(3,2)]) (auto simp: family_def)
  ultimately show ?thesis by blast
qed

lemma family_rem:
  assumes "family c M L R" "r \<in> R" "x \<in> set (L r)"
  shows "\<exists>c' l'. rem c (M r) x = Some (c', l') \<and> family c' (M(r := l')) (L(r := remove1 x (L r))) R \<and>
    fr (set (L r)) c c' \<and> kind l' = kind (M r)"
proof -
  have "ok c (M r) (L r)" using assms(1,2) by (simp add: family_def)
  then obtain c' l' where a: "rem c (M r) x = Some (c', l')" "ok c' l' (remove1 x (L r))" "fr (set (L r)) c c'"
    "kind l' = kind (M r)"
    using rem_ok assms(3) by blast
  moreover have "family c' (M(r := l')) (L(r := remove1 x (L r))) R"
    using assms(1,2) set_remove1_subset [of x "L r"]
    by (intro family_update [OF assms(1,2) a(3,2)]) (auto simp: family_def)
  ultimately show ?thesis by blast
qed

lemma family_touch:
  assumes "family c M L R" "r \<in> R" "x \<in> set (L r)"
  shows "\<exists>c' l'. touch c (M r) x = Some (c', l') \<and> family c' (M(r := l')) (L(r := x # remove1 x (L r))) R \<and>
    fr (set (L r)) c c' \<and> kind l' = kind (M r)"
proof -
  have "ok c (M r) (L r)" using assms(1,2) by (simp add: family_def)
  then obtain c' l' where a: "touch c (M r) x = Some (c', l')" "ok c' l' (x # remove1 x (L r))" "fr (set (L r)) c c'"
    "kind l' = kind (M r)"
    using touch_ok assms(3) by blast
  moreover have "family c' (M(r := l')) (L(r := x # remove1 x (L r))) R"
    using assms set_remove1_subset [of x "L r"]
    by (intro family_update [OF assms(1,2) a(3,2)]) (auto simp: family_def)
  ultimately show ?thesis by blast
qed

end

end
