(* ===== verification/Lru_List.thy ===== *)
theory Lru_List
  imports Cache_State Recency_List
begin

text \<open>
  The doubly linked LRU list with its hot prefix: the static functions of \<open>ocf_lru.c\<close> up to
  \<open>ocf_lru_init_cline\<close>, and their refinement to operations on HOL lists.

  The nodes of a list are entries of the table \<open>seg_lru\<close>; the list structure is passed by
  value and returned, the caller stores it back.  A list holds its hot elements at its head, and
  every public operation ends with \<open>balance_lru_list\<close>, which moves the border of the hot part
  by at most one element so that half of the elements are hot.
\<close>

subsection \<open>Operations\<close>

definition OCF_LRU_HOT_RATIO :: u32 where "OCF_LRU_HOT_RATIO = 2"

definition balance_update_last_hot ::
    "('s :: len) ocf_cache \<Rightarrow> ocf_lru_list \<Rightarrow> int \<Rightarrow> (ocf_lru_list \<times> u32) option" where
  "balance_update_last_hot cache l change = do {
     let last_hot_old = last_hot l;
     last_hot_new \<leftarrow>
       (if change > 0 then do {
          ENV_BUG_ON (change \<noteq> 1);
          if last_hot l = end_marker then Some (head l)
          else do {
            node \<leftarrow> ocf_metadata_get_lru cache (last_hot l);
            ENV_BUG_ON (lru_next node = end_marker);
            Some (lru_next node)
          }
        } else if change < 0 then do {
          ENV_BUG_ON (change \<noteq> - 1);
          ENV_BUG_ON (last_hot l = end_marker);
          node \<leftarrow> ocf_metadata_get_lru cache (last_hot l);
          Some (lru_prev node)
        } else Some (last_hot l));
     Some (l\<lparr>last_hot := last_hot_new\<rparr>,
       if change = 0 then end_marker else if change > 0 then last_hot_new else last_hot_old)
   }"

definition balance_lru_list ::
    "('s :: len) ocf_cache \<Rightarrow> ocf_lru_list \<Rightarrow> ('s ocf_cache \<times> ocf_lru_list) option" where
  "balance_lru_list cache l = (
     let target_hot_count = num_nodes l div OCF_LRU_HOT_RATIO;
         change = sint (target_hot_count - num_hot l) in
     if \<not> track_hot l then Some (cache, l)
     else do {
       (l, pivot) \<leftarrow> balance_update_last_hot cache (l\<lparr>num_hot := target_hot_count\<rparr>) change;
       if pivot \<noteq> end_marker then do {
         _ \<leftarrow> ocf_metadata_get_lru cache pivot;
         Some (set_lru cache pivot (\<lambda>n. n\<lparr>lru_hot := (change \<ge> 0)\<rparr>), l)
       } else Some (cache, l)
     })"

definition add_lru_head_nobalance ::
    "('s :: len) ocf_cache \<Rightarrow> ocf_lru_list \<Rightarrow> u32 \<Rightarrow> ('s ocf_cache \<times> ocf_lru_list) option" where
  "add_lru_head_nobalance cache l collision_index = do {
     ENV_BUG_ON (collision_index = end_marker);
     _ \<leftarrow> ocf_metadata_get_lru cache collision_index;
     let cache = set_lru cache collision_index (\<lambda>n. n\<lparr>lru_hot := False\<rparr>);
     if num_nodes l = 0 then
       Some (set_lru cache collision_index (\<lambda>n. n\<lparr>lru_next := end_marker, lru_prev := end_marker\<rparr>),
             l\<lparr>head := collision_index, tail := collision_index, num_nodes := 1\<rparr>)
     else do {
       let curr_head_index = head l;
       ENV_BUG_ON (curr_head_index = end_marker);
       _ \<leftarrow> ocf_metadata_get_lru cache curr_head_index;
       let cache = set_lru cache collision_index
             (\<lambda>n. n\<lparr>lru_next := curr_head_index, lru_prev := end_marker\<rparr>);
       let cache = set_lru cache curr_head_index (\<lambda>n. n\<lparr>lru_prev := collision_index\<rparr>);
       let (cache, l) =
         (if track_hot l then
            let cache = set_lru cache collision_index (\<lambda>n. n\<lparr>lru_hot := True\<rparr>);
                l = (if \<not> lru_hot (seg_lru cache curr_head_index)
                     then l\<lparr>last_hot := collision_index\<rparr> else l)
            in (cache, l\<lparr>num_hot := num_hot l + 1\<rparr>)
          else (cache, l));
       Some (cache, l\<lparr>head := collision_index, num_nodes := num_nodes l + 1\<rparr>)
     }
   }"

definition add_lru_head ::
    "('s :: len) ocf_cache \<Rightarrow> ocf_lru_list \<Rightarrow> u32 \<Rightarrow> ('s ocf_cache \<times> ocf_lru_list) option" where
  "add_lru_head cache l collision_index = do {
     (cache, l) \<leftarrow> add_lru_head_nobalance cache l collision_index;
     balance_lru_list cache l
   }"

definition remove_update_ptrs ::
    "('s :: len) ocf_cache \<Rightarrow> ocf_lru_list \<Rightarrow> u32 \<Rightarrow> ('s ocf_cache \<times> ocf_lru_list) option" where
  "remove_update_ptrs cache l collision_index = do {
     node \<leftarrow> ocf_metadata_get_lru cache collision_index;
     let next_lru_node = lru_next node;
     let prev_lru_node = lru_prev node;
     let is_head = (lru_prev node = end_marker);
     let is_tail = (lru_next node = end_marker);
     (cache, l) \<leftarrow>
       (if is_head \<and> is_tail then Some (cache, l\<lparr>head := end_marker, tail := end_marker\<rparr>)
        else if is_head then do {
          _ \<leftarrow> ocf_metadata_get_lru cache next_lru_node;
          Some (set_lru cache next_lru_node (\<lambda>n. n\<lparr>lru_prev := end_marker\<rparr>), l\<lparr>head := next_lru_node\<rparr>)
        } else if is_tail then do {
          _ \<leftarrow> ocf_metadata_get_lru cache prev_lru_node;
          Some (set_lru cache prev_lru_node (\<lambda>n. n\<lparr>lru_next := end_marker\<rparr>), l\<lparr>tail := prev_lru_node\<rparr>)
        } else do {
          _ \<leftarrow> ocf_metadata_get_lru cache next_lru_node;
          _ \<leftarrow> ocf_metadata_get_lru cache prev_lru_node;
          let cache = set_lru cache prev_lru_node
                (\<lambda>n. n\<lparr>lru_next := lru_next (seg_lru cache collision_index)\<rparr>);
          let cache = set_lru cache next_lru_node
                (\<lambda>n. n\<lparr>lru_prev := lru_prev (seg_lru cache collision_index)\<rparr>);
          Some (cache, l)
        });
     Some (cache, if last_hot l = collision_index then l\<lparr>last_hot := prev_lru_node\<rparr> else l)
   }"

definition remove_lru_list_nobalance ::
    "('s :: len) ocf_cache \<Rightarrow> ocf_lru_list \<Rightarrow> u32 \<Rightarrow> ('s ocf_cache \<times> ocf_lru_list) option" where
  "remove_lru_list_nobalance cache l collision_index = do {
     ENV_BUG_ON (collision_index = end_marker);
     node \<leftarrow> ocf_metadata_get_lru cache collision_index;
     let is_head = (head l = collision_index);
     let is_tail = (tail l = collision_index);
     ENV_BUG_ON (is_head = (lru_prev node \<noteq> end_marker));
     ENV_BUG_ON (is_tail = (lru_next node \<noteq> end_marker));
     (cache, l) \<leftarrow> remove_update_ptrs cache l collision_index;
     let l = l\<lparr>num_nodes := num_nodes l - 1\<rparr>;
     let l = (if lru_hot (seg_lru cache collision_index) then l\<lparr>num_hot := num_hot l - 1\<rparr> else l);
     Some (set_lru cache collision_index
             (\<lambda>n. n\<lparr>lru_next := end_marker, lru_prev := end_marker, lru_hot := False\<rparr>), l)
   }"

definition remove_lru_list ::
    "('s :: len) ocf_cache \<Rightarrow> ocf_lru_list \<Rightarrow> u32 \<Rightarrow> ('s ocf_cache \<times> ocf_lru_list) option" where
  "remove_lru_list cache l cline = do {
     (cache, l) \<leftarrow> remove_lru_list_nobalance cache l cline;
     balance_lru_list cache l
   }"

definition ocf_lru_set_hot ::
    "('s :: len) ocf_cache \<Rightarrow> ocf_lru_list \<Rightarrow> u32 \<Rightarrow> ('s ocf_cache \<times> ocf_lru_list) option" where
  "ocf_lru_set_hot cache l cline = do {
     (cache, l) \<leftarrow> remove_lru_list_nobalance cache l cline;
     (cache, l) \<leftarrow> add_lru_head_nobalance cache l cline;
     balance_lru_list cache l
   }"

definition ocf_lru_init_cline :: "('s :: len) ocf_cache \<Rightarrow> u32 \<Rightarrow> 's ocf_cache option" where
  "ocf_lru_init_cline cache cline = do {
     _ \<leftarrow> ocf_metadata_get_lru cache cline;
     Some (set_lru cache cline
             (\<lambda>n. n\<lparr>lru_hot := False, lru_prev := end_marker, lru_next := end_marker\<rparr>))
   }"

definition lru_list_init :: "bool \<Rightarrow> ocf_lru_list" where
  "lru_list_init track = \<lparr>num_nodes = 0, head = end_marker, tail = end_marker, num_hot = 0,
     last_hot = end_marker, track_hot = track\<rparr>"

subsection \<open>The list that a structure represents\<close>

text \<open>
  \<open>lru_rep cache l xs k\<close>: the structure \<open>l\<close> and the table hold the list \<open>xs\<close>, most
  recently used first, and its first \<open>k\<close> elements are the hot ones.
\<close>

definition lru_rep :: "('s :: len) ocf_cache \<Rightarrow> ocf_lru_list \<Rightarrow> u32 list \<Rightarrow> nat \<Rightarrow> bool" where
  "lru_rep cache l xs k \<longleftrightarrow>
     distinct xs \<and> (\<forall>x\<in>set xs. x < collision_table_entries cache) \<and>
     k \<le> length xs \<and> (\<not> track_hot l \<longrightarrow> k = 0) \<and>
     dll (\<lambda>i. lru_next (seg_lru cache i)) (\<lambda>i. lru_prev (seg_lru cache i)) end_marker xs end_marker \<and>
     head l = dl_first xs end_marker \<and> tail l = dl_last xs end_marker \<and>
     num_nodes l = of_nat (length xs) \<and> num_hot l = of_nat k \<and>
     last_hot l = dl_last (take k xs) end_marker \<and>
     (\<forall>x\<in>set xs. lru_hot (seg_lru cache x) \<longleftrightarrow> x \<in> set (take k xs))"

text \<open>The number of hot elements that balancing aims at.\<close>

definition hot_target :: "ocf_lru_list \<Rightarrow> u32 list \<Rightarrow> nat" where
  "hot_target l xs = (if track_hot l then length xs div 2 else 0)"

text \<open>Only the nodes in \<open>S\<close> differ between two states.\<close>

definition lru_frame :: "u32 set \<Rightarrow> ('s :: len) ocf_cache \<Rightarrow> 's ocf_cache \<Rightarrow> bool" where
  "lru_frame S c c' \<longleftrightarrow> (\<exists>f. c' = c\<lparr>seg_lru := f\<rparr> \<and> (\<forall>y. y \<notin> S \<longrightarrow> f y = seg_lru c y))"

lemma lru_frame_refl [simp]: "lru_frame S c c"
  unfolding lru_frame_def by (rule exI [of _ "seg_lru c"]) simp

lemma lru_frame_set_lru [simp]: "x \<in> S \<Longrightarrow> lru_frame S c (set_lru c x f)"
  unfolding lru_frame_def set_lru_def by (rule exI [of _ "(seg_lru c)(x := f (seg_lru c x))"]) auto

lemma lru_frame_step [simp]: "lru_frame S c c' \<Longrightarrow> x \<in> S \<Longrightarrow> lru_frame S c (set_lru c' x f)"
  unfolding lru_frame_def set_lru_def by (erule exE, rule exI) auto

lemma lru_frame_trans:
  assumes "lru_frame S c c'" "lru_frame T c' c''" "S \<subseteq> U" "T \<subseteq> U"
  shows "lru_frame U c c''"
proof -
  obtain f g where f: "c' = c\<lparr>seg_lru := f\<rparr>" "\<forall>y. y \<notin> S \<longrightarrow> f y = seg_lru c y"
    and g: "c'' = c'\<lparr>seg_lru := g\<rparr>" "\<forall>y. y \<notin> T \<longrightarrow> g y = seg_lru c' y"
    using assms(1,2) by (auto simp: lru_frame_def)
  have "c'' = c\<lparr>seg_lru := g\<rparr>" using f(1) g(1) by simp
  moreover have "\<forall>y. y \<notin> U \<longrightarrow> g y = seg_lru c y" 
  proof (intro allI impI)
    fix y assume "y \<notin> U"
    then have "y \<notin> S" "y \<notin> T" using assms(3,4) by auto
    then show "g y = seg_lru c y" using f g(2) by simp
  qed
  ultimately show ?thesis unfolding lru_frame_def by blast
qed

lemma lru_frame_fields:
  assumes "lru_frame S c c'"
  shows "collision_table_entries c' = collision_table_entries c" "lru c' = lru c"
    "seg_list_info c' = seg_list_info c" "seg_collision c' = seg_collision c"
    "curr_size c' = curr_size c" "size c' = size c" "sector_start c' = sector_start c"
    "sector_count c' = sector_count c" "sector_end c' = sector_end c"
  using assms by (auto simp: lru_frame_def)

lemma lru_frame_other: "lru_frame S c c' \<Longrightarrow> y \<notin> S \<Longrightarrow> seg_lru c' y = seg_lru c y"
  by (auto simp: lru_frame_def)

lemma lru_rep_cong:
  assumes "lru_rep c l xs k" "\<forall>x\<in>set xs. seg_lru c' x = seg_lru c x"
    "collision_table_entries c' = collision_table_entries c"
  shows "lru_rep c' l xs k"
  using assms dll_cong [of "\<lambda>i. lru_next (seg_lru c i)" "\<lambda>i. lru_prev (seg_lru c i)" end_marker xs
      end_marker "\<lambda>i. lru_next (seg_lru c' i)" "\<lambda>i. lru_prev (seg_lru c' i)"]
  by (simp add: lru_rep_def)

lemma lru_frame_rep:
  assumes "lru_frame S c c'" "lru_rep c l xs k" "S \<inter> set xs = {}"
  shows "lru_rep c' l xs k"
  using assms by (intro lru_rep_cong [OF assms(2)] ballI) (auto intro: lru_frame_fields lru_frame_other)

lemma less_neq_end_marker [simp]: "x < (n :: u32) \<Longrightarrow> x \<noteq> end_marker"
  unfolding end_marker_def by (metis not_less word_order.extremum)

lemma lru_rep_end [simp]: "lru_rep c l xs k \<Longrightarrow> end_marker \<notin> set xs"
  using less_neq_end_marker by (fastforce simp: lru_rep_def)

lemma lru_rep_length:
  assumes "lru_rep c l xs k"
  shows "length xs < 2 ^ 32"
  using distinct_below_length [of xs "collision_table_entries c"] assms
    unsigned_less [of "collision_table_entries c", where ?'a = nat]
  by (simp add: lru_rep_def)

lemma lru_rep_empty [simp]: "lru_rep c (lru_list_init track) [] 0"
  by (simp add: lru_rep_def lru_list_init_def)

lemma lru_rep_num_nodes_0:
  assumes "lru_rep c l xs k"
  shows "num_nodes l = 0 \<longleftrightarrow> xs = []"
  using assms lru_rep_length [OF assms] unat_of_nat_u32 [of "length xs"]
  by (auto simp: lru_rep_def unat_eq_0)

lemma get_lru_simps [simp]:
  "i < collision_table_entries c \<Longrightarrow> ocf_metadata_get_lru c i = Some (seg_lru c i)"
  "collision_table_entries (set_lru c x f) = collision_table_entries c"
  "seg_lru (set_lru c x f) y = (if y = x then f (seg_lru c x) else seg_lru c y)"
  by (simp_all add: ocf_metadata_get_lru_def set_lru_def)

subsection \<open>Every operation on the structure is the operation on the list\<close>

lemma add_lru_head_nobalance_rep:
  assumes rep: "lru_rep c l xs k" and x: "x \<notin> set xs" "x < collision_table_entries c"
  shows "\<exists>c' l'. add_lru_head_nobalance c l x = Some (c', l') \<and>
    lru_rep c' l' (x # xs) (if xs = [] \<or> \<not> track_hot l then 0 else k + 1) \<and>
    lru_frame (insert x (set xs)) c c' \<and> track_hot l' = track_hot l"
proof (cases xs)
  case Nil
  then have "num_nodes l = 0" using lru_rep_num_nodes_0 [OF rep] by simp
  then show ?thesis
    using rep x Nil
    by (auto simp: add_lru_head_nobalance_def lru_rep_def)
next
  case (Cons h ys)
  have h: "head l = h" "h < collision_table_entries c" "h \<noteq> x" "num_nodes l \<noteq> 0"
    using rep x Cons lru_rep_num_nodes_0 [OF rep] by (auto simp: lru_rep_def)
  let ?t = "track_hot l"
  have "\<exists>c' l'. add_lru_head_nobalance c l x = Some (c', l') \<and>
      lru_frame (insert x (set xs)) c c' \<and>
      (\<forall>y. lru_next (seg_lru c' y) = (if y = x then h else lru_next (seg_lru c y))) \<and>
      (\<forall>y. lru_prev (seg_lru c' y) =
        (if y = x then end_marker else if y = h then x else lru_prev (seg_lru c y))) \<and>
      (\<forall>y. lru_hot (seg_lru c' y) = (if y = x then ?t else lru_hot (seg_lru c y))) \<and>
      head l' = x \<and> tail l' = tail l \<and> track_hot l' = ?t \<and> num_nodes l' = num_nodes l + 1 \<and>
      last_hot l' = (if ?t \<and> \<not> lru_hot (seg_lru c h) then x else last_hot l) \<and>
      num_hot l' = (if ?t then num_hot l + 1 else num_hot l)"
    using h x Cons
    by (cases "track_hot l"; cases "lru_hot (seg_lru c h)") (simp_all add: add_lru_head_nobalance_def Let_def)
  then obtain c' l' where r: "add_lru_head_nobalance c l x = Some (c', l')"
    and f: "lru_frame (insert x (set xs)) c c'"
    and nx: "\<And>y. lru_next (seg_lru c' y) = (if y = x then h else lru_next (seg_lru c y))"
    and pv: "\<And>y. lru_prev (seg_lru c' y) =
      (if y = x then end_marker else if y = h then x else lru_prev (seg_lru c y))"
    and ht: "\<And>y. lru_hot (seg_lru c' y) = (if y = x then ?t else lru_hot (seg_lru c y))"
    and l': "head l' = x" "tail l' = tail l" "track_hot l' = ?t" "num_nodes l' = num_nodes l + 1"
      "last_hot l' = (if ?t \<and> \<not> lru_hot (seg_lru c h) then x else last_hot l)"
      "num_hot l' = (if ?t then num_hot l + 1 else num_hot l)"
    by blast
  have "dll (\<lambda>i. lru_next (seg_lru c' i)) (\<lambda>i. lru_prev (seg_lru c' i)) end_marker (x # xs) end_marker"
    using rep x Cons by (intro dll_push [where xs = xs]) (auto simp: lru_rep_def nx pv)
  moreover have "lru_hot (seg_lru c h) \<longleftrightarrow> k > 0"
    using rep Cons by (cases k) (auto simp: lru_rep_def)
  ultimately have "lru_rep c' l' (x # xs) (if \<not> ?t then 0 else k + 1)"
    using rep x Cons by (auto simp: lru_rep_def l' ht lru_frame_fields [OF f] dl_last_def)
  then show ?thesis using r f l' Cons by auto
qed


lemma remove_lru_list_nobalance_effect:
  assumes rep: "lru_rep c l (ys @ x # zs) k"
  shows "\<exists>c' l'. remove_lru_list_nobalance c l x = Some (c', l') \<and>
    lru_frame (set (ys @ x # zs)) c c' \<and>
    (\<forall>y. lru_next (seg_lru c' y) = (if y = x then end_marker
       else if ys \<noteq> [] \<and> y = last ys then lru_next (seg_lru c x) else lru_next (seg_lru c y))) \<and>
    (\<forall>y. lru_prev (seg_lru c' y) = (if y = x then end_marker
       else if zs \<noteq> [] \<and> y = hd zs then lru_prev (seg_lru c x) else lru_prev (seg_lru c y))) \<and>
    (\<forall>y. lru_hot (seg_lru c' y) = (y \<noteq> x \<and> lru_hot (seg_lru c y))) \<and>
    head l' = dl_first (ys @ zs) end_marker \<and> tail l' = dl_last (ys @ zs) end_marker \<and>
    track_hot l' = track_hot l \<and> num_nodes l' = num_nodes l - 1 \<and>
    last_hot l' = (if last_hot l = x then lru_prev (seg_lru c x) else last_hot l) \<and>
    num_hot l' = (if lru_hot (seg_lru c x) then num_hot l - 1 else num_hot l)"
proof -
  have x: "x < collision_table_entries c" and nx: "lru_next (seg_lru c x) = dl_first zs end_marker"
    and pv: "lru_prev (seg_lru c x) = dl_last ys end_marker" and d: "distinct (ys @ x # zs)"
    and ht: "head l = dl_first (ys @ x # zs) end_marker" "tail l = dl_last (ys @ x # zs) end_marker"
    using rep dll_middle [of _ _ end_marker ys x zs end_marker] by (auto simp: lru_rep_def)
  have b: "\<And>y. y \<in> set ys \<union> set zs \<Longrightarrow> y < collision_table_entries c"
    using rep by (auto simp: lru_rep_def)
  have e: "end_marker \<notin> set (ys @ x # zs)" by (rule lru_rep_end [OF rep])
  have tl: "tail l = x \<longleftrightarrow> zs = []"
    using d ht(2) by (auto simp: dl_last_append dl_last_def dest: last_in_set)
  show ?thesis
  proof (cases ys rule: rev_cases)
    case Nil
    then show ?thesis using x nx pv d ht b e tl
      by (cases zs) (auto simp: remove_lru_list_nobalance_def remove_update_ptrs_def Let_def)
  next
    case (snoc ys' y)
    then have "head l \<noteq> x" using d ht(1) by (cases ys') auto
    then show ?thesis using snoc x nx pv d ht b e tl
      by (cases zs) (auto simp: remove_lru_list_nobalance_def remove_update_ptrs_def Let_def
          dl_first_append dl_last_append)
  qed
qed


lemma remove_lru_list_nobalance_rep:
  assumes rep: "lru_rep c l (ys @ x # zs) k"
  shows "\<exists>c' l'. remove_lru_list_nobalance c l x = Some (c', l') \<and>
    lru_rep c' l' (ys @ zs) (if length ys < k then k - 1 else k) \<and>
    lru_frame (set (ys @ x # zs)) c c' \<and> track_hot l' = track_hot l"
proof -
  obtain c' l' where r: "remove_lru_list_nobalance c l x = Some (c', l')"
    and f: "lru_frame (set (ys @ x # zs)) c c'"
    and n: "\<forall>y. lru_next (seg_lru c' y) = (if y = x then end_marker
       else if ys \<noteq> [] \<and> y = last ys then lru_next (seg_lru c x) else lru_next (seg_lru c y))"
    and p: "\<forall>y. lru_prev (seg_lru c' y) = (if y = x then end_marker
       else if zs \<noteq> [] \<and> y = hd zs then lru_prev (seg_lru c x) else lru_prev (seg_lru c y))"
    and ht: "\<forall>y. lru_hot (seg_lru c' y) = (y \<noteq> x \<and> lru_hot (seg_lru c y))"
    and l': "head l' = dl_first (ys @ zs) end_marker" "tail l' = dl_last (ys @ zs) end_marker"
      "track_hot l' = track_hot l" "num_nodes l' = num_nodes l - 1"
      "last_hot l' = (if last_hot l = x then lru_prev (seg_lru c x) else last_hot l)"
      "num_hot l' = (if lru_hot (seg_lru c x) then num_hot l - 1 else num_hot l)"
    using remove_lru_list_nobalance_effect [OF rep] by blast
  have d: "distinct (ys @ x # zs)"
    and dl: "dll (\<lambda>i. lru_next (seg_lru c i)) (\<lambda>i. lru_prev (seg_lru c i)) end_marker (ys @ x # zs) end_marker"
    using rep by (auto simp: lru_rep_def)
  have "dll (\<lambda>i. lru_next (seg_lru c' i)) (\<lambda>i. lru_prev (seg_lru c' i)) end_marker (ys @ zs) end_marker"
    using d by (intro dll_unlink [OF dl d]) (auto simp: n p)
  moreover have pv: "lru_prev (seg_lru c x) = dl_last ys end_marker"
    by (rule dll_middle(2) [OF dl])
  moreover have "lru_rep c' l' (ys @ zs) (if length ys < k then k - 1 else k)"
    if dl': "dll (\<lambda>i. lru_next (seg_lru c' i)) (\<lambda>i. lru_prev (seg_lru c' i)) end_marker (ys @ zs) end_marker"
  proof (cases "length ys < k")
    case True
    then obtain j where k: "k = Suc (length ys + j)" by (auto dest: less_imp_Suc_add)
    have t: "take k (ys @ x # zs) = ys @ x # take j zs" "take (k - 1) (ys @ zs) = ys @ take j zs"
      by (simp_all add: k)
    have lx: "dl_last (take j zs) x = x \<longleftrightarrow> take j zs = []"
      using d by (intro dl_last_eq_end) (auto dest: in_set_takeD)
    have "x \<in> set (take k (ys @ x # zs))" unfolding t(1) by simp
    moreover have "last_hot l' = dl_last (take (k - 1) (ys @ zs)) end_marker"
      using rep lx unfolding l'(5) pv lru_rep_def t by (auto simp: dl_last_append dl_last_def [of "take j zs"])
    moreover have "\<forall>y\<in>set (ys @ zs). lru_hot (seg_lru c' y) \<longleftrightarrow> y \<in> set (take (k - 1) (ys @ zs))"
      using rep d unfolding lru_rep_def t by (auto simp: ht)
    ultimately show ?thesis
      using rep d True dl' l'
      by (simp add: lru_rep_def lru_frame_fields [OF f] k del: take_append)
  next
    case False
    then have t: "take k (ys @ x # zs) = take k ys" "take k (ys @ zs) = take k ys" by simp_all
    then have nx: "x \<notin> set (take k ys)" using d by (auto dest: in_set_takeD)
    then have "dl_last (take k ys) end_marker \<noteq> x"
      using lru_rep_end [OF rep] by (auto simp: dl_last_def dest: last_in_set)
    moreover have "\<forall>y\<in>set (ys @ zs). lru_hot (seg_lru c' y) \<longleftrightarrow> y \<in> set (take k ys)"
      using rep nx unfolding lru_rep_def t by (auto simp: ht)
    ultimately show ?thesis
      using rep d False dl' l' nx
      by (simp add: lru_rep_def lru_frame_fields [OF f] t del: take_append)
  qed
  ultimately show ?thesis using r f l'(3) by blast
qed


lemma balance_change:
  assumes "n < 2 ^ 32" "int (n div 2) - int k \<in> {-1, 0, 1}"
  shows "sint ((of_nat n :: u32) div 2 - of_nat k) = int (n div 2) - int k"
    and "(of_nat n :: u32) div 2 = of_nat (n div 2)"
proof -
  show h: "(of_nat n :: u32) div 2 = of_nat (n div 2)"
    using assms(1) by (simp add: word_unat_eq_iff unat_div unat_of_nat)
  have "(of_nat n :: u32) div 2 - of_nat k = of_int (int (n div 2) - int k)"
    by (simp add: h)
  moreover have "sint (of_int d :: u32) = d" if "d \<in> {-1, 0, 1}" for d
    using that by auto
  ultimately show "sint ((of_nat n :: u32) div 2 - of_nat k) = int (n div 2) - int k"
    using assms(2) by (simp only:)
qed

lemma lru_rep_set_border:
  assumes rep: "lru_rep c l (as @ y # bs) k" and k: "k = length as \<or> k = Suc (length as)" and t: "track_hot l"
  shows "lru_rep (set_lru c y (\<lambda>n. n\<lparr>lru_hot := True\<rparr>))
      (l\<lparr>num_hot := of_nat (Suc (length as)), last_hot := y\<rparr>) (as @ y # bs) (Suc (length as))"
    and "lru_rep (set_lru c y (\<lambda>n. n\<lparr>lru_hot := False\<rparr>))
      (l\<lparr>num_hot := of_nat (length as), last_hot := dl_last as end_marker\<rparr>) (as @ y # bs) (length as)"
proof -
  have "dll (\<lambda>i. lru_next (seg_lru (set_lru c y (\<lambda>n. n\<lparr>lru_hot := h\<rparr>)) i))
      (\<lambda>i. lru_prev (seg_lru (set_lru c y (\<lambda>n. n\<lparr>lru_hot := h\<rparr>)) i)) end_marker (as @ y # bs) end_marker" for h
    by (rule dll_cong [of "\<lambda>i. lru_next (seg_lru c i)" "\<lambda>i. lru_prev (seg_lru c i)"])
      (use rep in \<open>simp_all add: lru_rep_def\<close>)
  moreover have h: "\<forall>x\<in>set (as @ bs). lru_hot (seg_lru c x) \<longleftrightarrow> x \<in> set as"
    and d: "distinct (as @ y # bs)"
    using rep k by (auto simp: lru_rep_def)
  moreover have "take (Suc (length as)) (as @ y # bs) = as @ [y]" "take (length as) (as @ y # bs) = as"
    by simp_all
  moreover have "\<forall>x\<in>set (as @ y # bs). lru_hot (seg_lru (set_lru c y (\<lambda>n. n\<lparr>lru_hot := True\<rparr>)) x) \<longleftrightarrow> x \<in> set (as @ [y])"
    "\<forall>x\<in>set (as @ y # bs). lru_hot (seg_lru (set_lru c y (\<lambda>n. n\<lparr>lru_hot := False\<rparr>)) x) \<longleftrightarrow> x \<in> set as"
    using h d by auto
  ultimately show "lru_rep (set_lru c y (\<lambda>n. n\<lparr>lru_hot := True\<rparr>))
      (l\<lparr>num_hot := of_nat (Suc (length as)), last_hot := y\<rparr>) (as @ y # bs) (Suc (length as))"
    and "lru_rep (set_lru c y (\<lambda>n. n\<lparr>lru_hot := False\<rparr>))
      (l\<lparr>num_hot := of_nat (length as), last_hot := dl_last as end_marker\<rparr>) (as @ y # bs) (length as)"
    using rep t unfolding lru_rep_def
    by (simp_all del: of_nat_Suc take_append get_lru_simps(3) set_append)
qed

lemma balance_lru_list_rep:
  assumes rep: "lru_rep c l xs k" and k: "track_hot l \<Longrightarrow> int (length xs div 2) - int k \<in> {-1, 0, 1}"
  shows "\<exists>c' l'. balance_lru_list c l = Some (c', l') \<and> lru_rep c' l' xs (hot_target l xs) \<and>
    lru_frame (set xs) c c' \<and> track_hot l' = track_hot l"
proof (cases "track_hot l")
  case False
  with rep show ?thesis by (auto simp: balance_lru_list_def hot_target_def lru_rep_def)
next
  case True
  define t where "t = length xs div 2"
  note bc2 = balance_change(2) [OF lru_rep_length [OF rep] k [OF True], folded t_def]
  note bc1 = balance_change(1) [OF lru_rep_length [OF rep] k [OF True], folded t_def, unfolded bc2]
  have nn: "num_nodes l = of_nat (length xs)" "num_hot l = of_nat k"
    and lh: "last_hot l = dl_last (take k xs) end_marker" "head l = dl_first xs end_marker"
    and b: "\<forall>x\<in>set xs. x < collision_table_entries c"
    and dl: "dll (\<lambda>i. lru_next (seg_lru c i)) (\<lambda>i. lru_prev (seg_lru c i)) end_marker xs end_marker"
    using rep by (simp_all add: lru_rep_def)
  have unf: "balance_lru_list c l = do {
      (l, pivot) \<leftarrow> balance_update_last_hot c (l\<lparr>num_hot := of_nat t\<rparr>) (int t - int k);
      if pivot \<noteq> end_marker then do {
        _ \<leftarrow> ocf_metadata_get_lru c pivot;
        Some (set_lru c pivot (\<lambda>n. n\<lparr>lru_hot := (int t - int k \<ge> 0)\<rparr>), l)
      } else Some (c, l) }"
    unfolding balance_lru_list_def Let_def OCF_LRU_HOT_RATIO_def nn bc2 bc1 using True by simp
  have tgt: "hot_target l xs = t" using True by (simp add: hot_target_def t_def)
  consider (same) "t = k" | (more) "t = Suc k" | (less) "k = Suc t"
    using k [OF True, folded t_def] by force
  then show ?thesis
  proof cases
    case same
    then show ?thesis using rep tgt by (simp add: unf balance_update_last_hot_def lru_rep_def)
  next
    case more
    then have "k < length xs" by (simp add: t_def)
    then obtain as y bs where xs: "xs = as @ y # bs" "length as = k"
      by (metis id_take_nth_drop length_take min.absorb4)
    have y: "y < collision_table_entries c" "as \<noteq> [] \<Longrightarrow> last as < collision_table_entries c"
      using b xs by auto
    have "as \<noteq> [] \<Longrightarrow> lru_next (seg_lru c (last as)) = y"
      using dl xs by (auto simp: dll_append dest: dll_last_next)
    then have "balance_lru_list c l =
        Some (set_lru c y (\<lambda>n. n\<lparr>lru_hot := True\<rparr>), l\<lparr>num_hot := of_nat t, last_hot := y\<rparr>)"
      using xs y lh more
      by (cases "as = []") (simp_all add: unf balance_update_last_hot_def dl_last_def del: of_nat_Suc)
    then show ?thesis
      using lru_rep_set_border(1) [of c l as y bs k] rep True xs more tgt by simp
  next
    case less
    then have "t < length xs" using rep by (simp add: lru_rep_def)
    then obtain as y bs where xs: "xs = as @ y # bs" "length as = t"
      by (metis id_take_nth_drop length_take min.absorb4)
    have y: "y < collision_table_entries c" using b xs by auto
    have "lru_prev (seg_lru c y) = dl_last as end_marker" "last_hot l = y"
      using dll_middle(2) [of _ _ end_marker as y bs end_marker] dl lh xs less by auto
    then have "balance_lru_list c l =
        Some (set_lru c y (\<lambda>n. n\<lparr>lru_hot := False\<rparr>),
          l\<lparr>num_hot := of_nat t, last_hot := dl_last as end_marker\<rparr>)"
      using y less by (simp add: unf balance_update_last_hot_def)
    then show ?thesis
      using lru_rep_set_border(2) [of c l as y bs k] rep True xs less tgt by simp
  qed
qed


subsection \<open>Balanced lists\<close>

definition lru_list_ok :: "('s :: len) ocf_cache \<Rightarrow> ocf_lru_list \<Rightarrow> u32 list \<Rightarrow> bool" where
  "lru_list_ok c l xs \<longleftrightarrow> lru_rep c l xs (hot_target l xs)"

lemma hot_target_track: "track_hot l' = track_hot l \<Longrightarrow> hot_target l' xs = hot_target l xs"
  by (simp add: hot_target_def)

lemma add_lru_head_ok:
  assumes ok: "lru_list_ok c l xs" and x: "x < collision_table_entries c" "x \<notin> set xs"
  shows "\<exists>c' l'. add_lru_head c l x = Some (c', l') \<and> lru_list_ok c' l' (x # xs) \<and>
    lru_frame (insert x (set xs)) c c' \<and> track_hot l' = track_hot l"
proof -
  let ?k = "if xs = [] \<or> \<not> track_hot l then 0 else hot_target l xs + 1"
  obtain c1 l1 where a: "add_lru_head_nobalance c l x = Some (c1, l1)" "lru_rep c1 l1 (x # xs) ?k"
    "lru_frame (insert x (set xs)) c c1" "track_hot l1 = track_hot l"
    using add_lru_head_nobalance_rep [of c l xs "hot_target l xs" x] ok x by (auto simp: lru_list_ok_def)
  have "track_hot l1 \<Longrightarrow> int (length (x # xs) div 2) - int ?k \<in> {-1, 0, 1}"
    using a(4) by (auto simp: hot_target_def)
  then obtain c2 l2 where b: "balance_lru_list c1 l1 = Some (c2, l2)"
    "lru_rep c2 l2 (x # xs) (hot_target l1 (x # xs))" "lru_frame (set (x # xs)) c1 c2"
    "track_hot l2 = track_hot l1"
    using balance_lru_list_rep [OF a(2)] by blast
  then show ?thesis
    using a lru_frame_trans [OF a(3) b(3), of "insert x (set xs)"] hot_target_track [OF b(4)]
    by (simp add: add_lru_head_def lru_list_ok_def)
qed

lemma remove_lru_list_nobalance_ok:
  assumes ok: "lru_list_ok c l xs" and x: "x \<in> set xs"
  shows "\<exists>c' l' k. remove_lru_list_nobalance c l x = Some (c', l') \<and> lru_rep c' l' (remove1 x xs) k \<and>
    k \<le> hot_target l xs \<and> hot_target l xs \<le> k + 1 \<and> lru_frame (set xs) c c' \<and> track_hot l' = track_hot l"
proof -
  obtain ys zs where xs: "xs = ys @ x # zs" "x \<notin> set ys" using split_list_first [OF x] by blast
  then have "remove1 x xs = ys @ zs" by (simp add: remove1_append)
  moreover define k where "k = (if length ys < hot_target l xs then hot_target l xs - 1 else hot_target l xs)"
  moreover have "k \<le> hot_target l xs" "hot_target l xs \<le> k + 1" by (auto simp: k_def)
  ultimately show ?thesis
    using remove_lru_list_nobalance_rep [of c l ys x zs "hot_target l xs"] ok xs(1)
    by (auto simp: lru_list_ok_def)
qed

lemma remove_lru_list_ok:
  assumes ok: "lru_list_ok c l xs" and x: "x \<in> set xs"
  shows "\<exists>c' l'. remove_lru_list c l x = Some (c', l') \<and> lru_list_ok c' l' (remove1 x xs) \<and>
    lru_frame (set xs) c c' \<and> track_hot l' = track_hot l"
proof -
  obtain c1 l1 k where a: "remove_lru_list_nobalance c l x = Some (c1, l1)" "lru_rep c1 l1 (remove1 x xs) k"
    "k \<le> hot_target l xs" "hot_target l xs \<le> k + 1" "lru_frame (set xs) c c1" "track_hot l1 = track_hot l"
    using remove_lru_list_nobalance_ok [OF ok x] by blast
  have "length xs = Suc (length (remove1 x xs))" by (rule length_remove1_Suc [OF x])
  then have "track_hot l1 \<Longrightarrow> int (length (remove1 x xs) div 2) - int k \<in> {-1, 0, 1}"
    using a(3,4,6) by (auto simp: hot_target_def)
  then obtain c2 l2 where b: "balance_lru_list c1 l1 = Some (c2, l2)"
    "lru_rep c2 l2 (remove1 x xs) (hot_target l1 (remove1 x xs))" "lru_frame (set (remove1 x xs)) c1 c2"
    "track_hot l2 = track_hot l1"
    using balance_lru_list_rep [OF a(2)] by blast
  then show ?thesis
    using a lru_frame_trans [OF a(5) b(3), of "set xs"] hot_target_track [OF b(4)] set_remove1_subset [of x xs]
    by (simp add: remove_lru_list_def lru_list_ok_def)
qed

lemma ocf_lru_set_hot_ok:
  assumes ok: "lru_list_ok c l xs" and x: "x \<in> set xs"
  shows "\<exists>c' l'. ocf_lru_set_hot c l x = Some (c', l') \<and> lru_list_ok c' l' (x # remove1 x xs) \<and>
    lru_frame (set xs) c c' \<and> track_hot l' = track_hot l"
proof -
  let ?ys = "remove1 x xs"
  obtain c1 l1 k where a: "remove_lru_list_nobalance c l x = Some (c1, l1)" "lru_rep c1 l1 ?ys k"
    "k \<le> hot_target l xs" "hot_target l xs \<le> k + 1" "lru_frame (set xs) c c1" "track_hot l1 = track_hot l"
    using remove_lru_list_nobalance_ok [OF ok x] by blast
  have "distinct xs" "x < collision_table_entries c1"
    using ok x lru_frame_fields [OF a(5)] by (auto simp: lru_list_ok_def lru_rep_def)
  then obtain c2 l2 where b: "add_lru_head_nobalance c1 l1 x = Some (c2, l2)"
    "lru_rep c2 l2 (x # ?ys) (if ?ys = [] \<or> \<not> track_hot l1 then 0 else k + 1)"
    "lru_frame (insert x (set ?ys)) c1 c2" "track_hot l2 = track_hot l1"
    using add_lru_head_nobalance_rep [OF a(2), of x] by auto
  have "length xs = length (x # ?ys)" using length_remove1_Suc [OF x] by simp
  then have "track_hot l2 \<Longrightarrow> int (length (x # ?ys) div 2) -
      int (if ?ys = [] \<or> \<not> track_hot l1 then 0 else k + 1) \<in> {-1, 0, 1}"
    using a(3,4,6) b(4) by (auto simp: hot_target_def)
  then obtain c3 l3 where d: "balance_lru_list c2 l2 = Some (c3, l3)"
    "lru_rep c3 l3 (x # ?ys) (hot_target l2 (x # ?ys))" "lru_frame (set (x # ?ys)) c2 c3"
    "track_hot l3 = track_hot l2"
    using balance_lru_list_rep [OF b(2)] by blast
  have s: "set (x # ?ys) \<subseteq> set xs" using x set_remove1_subset [of x xs] by auto
  then have "lru_frame (set xs) c c3"
    using lru_frame_trans [OF lru_frame_trans [OF a(5) b(3)] d(3)] by (metis list.simps(15) subset_refl)
  then show ?thesis
    using a b d hot_target_track [OF d(4)] by (simp add: ocf_lru_set_hot_def lru_list_ok_def)
qed


lemma lru_list_ok_elems:
  assumes "lru_list_ok c l xs"
  shows "distinct xs" "x \<in> set xs \<Longrightarrow> x < collision_table_entries c"
  using assms by (auto simp: lru_list_ok_def lru_rep_def)

lemma lru_frame_ok: "lru_frame S c c' \<Longrightarrow> lru_list_ok c l xs \<Longrightarrow> S \<inter> set xs = {} \<Longrightarrow> lru_list_ok c' l xs"
  by (simp add: lru_list_ok_def lru_frame_rep)

interpretation lru_list: recency_list lru_list_ok lru_frame "\<lambda>c x. x < collision_table_entries c"
  track_hot add_lru_head remove_lru_list ocf_lru_set_hot
  by unfold_locales
    (fact lru_list_ok_elems lru_frame_refl lru_frame_trans lru_frame_ok add_lru_head_ok remove_lru_list_ok
      ocf_lru_set_hot_ok | simp add: lru_frame_fields)+


subsection \<open>Properties\<close>

text \<open>
  C7. Each public list operation, on a well-formed list, passes all its bug checks and is the
  operation on the sequence of its elements: adding puts a line in front, removing takes it out,
  marking a line hot moves it to the front.  Afterwards exactly the first half of the list is hot,
  all links and counters are right, and no node outside the list has changed.
\<close>
theorem lru_list_operations:
  assumes "lru_list_ok c l xs" "x < collision_table_entries c"
  shows "(x \<notin> set xs \<longrightarrow> (\<exists>c' l'. add_lru_head c l x = Some (c', l') \<and> lru_list_ok c' l' (x # xs) \<and>
      lru_frame (insert x (set xs)) c c')) \<and>
    (x \<in> set xs \<longrightarrow> (\<exists>c' l'. remove_lru_list c l x = Some (c', l') \<and> lru_list_ok c' l' (remove1 x xs) \<and>
      lru_frame (set xs) c c') \<and>
     (\<exists>c' l'. ocf_lru_set_hot c l x = Some (c', l') \<and> lru_list_ok c' l' (x # remove1 x xs) \<and>
      lru_frame (set xs) c c'))"
  using assms add_lru_head_ok [of c l xs x] remove_lru_list_ok [of c l xs x] ocf_lru_set_hot_ok [of c l xs x]
  by blast

definition lru_cache0 :: "8 ocf_cache" where
  "lru_cache0 = \<lparr>size = ocf_cache_line_size_4, sector_count = 8, sector_start = 0, sector_end = 7,
     layout = ocf_metadata_layout_seq, collision_table_entries = 10, hash_table_entries = 4,
     entries_in_page = 4, ssd_pages = 3,
     seg_collision = (\<lambda>_. \<lparr>core_line = 0, core_id = OCF_CORE_MAX, valid = 0, dirty = 0\<rparr>),
     seg_list_info = (\<lambda>_. \<lparr>prev_col = 10, next_col = 10, partition_id = 0\<rparr>),
     seg_hash = (\<lambda>_. 10),
     seg_lru = (\<lambda>_. \<lparr>lru_prev = 0, lru_next = 0, lru_hot = False\<rparr>),
     lru = (\<lambda>_. lru_list_init False),
     curr_size = (\<lambda>_. 0), cached_clines = (\<lambda>_. 0), part_cached_clines = (\<lambda>_ _. 0),
     dirty_clines = (\<lambda>_. 0), part_dirty_clines = (\<lambda>_ _. 0), dirty_since = (\<lambda>_. 0)\<rparr>"

lemma lru_cache0_list: "lru_list_ok lru_cache0 (lru_list_init True) []"
  by (simp add: lru_list_ok_def hot_target_def)

theorem lru_list_operations_witness:
  "\<exists>c' l'. add_lru_head lru_cache0 (lru_list_init True) 3 = Some (c', l') \<and> lru_list_ok c' l' [3] \<and>
     lru_frame {3} lru_cache0 c'"
  using lru_list_operations [OF lru_cache0_list, of 3] by (simp add: lru_cache0_def)

end
