(* ===== verification/Metadata_Status.thy ===== *)
theory Metadata_Status
  imports Cache_State
begin

text \<open>
  The status bits of a cache line: \<open>metadata/metadata_bit.h\<close>, the size dispatch in
  \<open>metadata.c\<close> and the accessors of \<open>metadata/metadata_status.h\<close>.

  The source generates its functions with two macros, once for each status type and once for
  each of \<open>dirty\<close> and \<open>valid\<close>.  The status type is the type parameter \<open>'s\<close> of the
  cache, the field is the argument \<open>what\<close>.  The dispatch on the cache line size picks the
  copy for the type of that size; a cache of size \<open>none\<close> stops at a bug check.
\<close>

subsection \<open>Sector masks\<close>

definition get_mask :: "u8 \<Rightarrow> u8 \<Rightarrow> u64 option" where
  "get_mask start stop = do {
     ENV_BUG_ON (start \<ge> 64);
     ENV_BUG_ON (stop \<ge> 64);
     ENV_BUG_ON (stop < start);
     let mask = (NOT 0 :: u64);
     let mask = drop_bit (unat start + (63 - unat stop)) mask;
     Some (push_bit (unat start) mask)
   }"

definition get_mask_u128 :: "u8 \<Rightarrow> u8 \<Rightarrow> u128 option" where
  "get_mask_u128 start stop = do {
     ENV_BUG_ON (start \<ge> 128);
     ENV_BUG_ON (stop \<ge> 128);
     ENV_BUG_ON (stop < start);
     let mask = (NOT 0 :: u128);
     let mask = drop_bit (unat start + (127 - unat stop)) mask;
     Some (push_bit (unat start) mask)
   }"

text \<open>The macros \<open>_get_mask_u8\<close> to \<open>_get_mask_u64\<close>, whose result is converted to the status
  type on assignment, and \<open>_get_mask_u128\<close>.\<close>

definition get_mask_type :: "u8 \<Rightarrow> u8 \<Rightarrow> ('s :: len) word option" where
  "get_mask_type start stop =
     (if LENGTH('s) \<le> 64 then map_option ucast (get_mask start stop)
      else map_option ucast (get_mask_u128 start stop))"

subsection \<open>The generated functions\<close>

datatype what = Dirty | Valid

fun get_what :: "what \<Rightarrow> ('s :: len) ocf_cache \<Rightarrow> u32 \<Rightarrow> 's word" where
  "get_what Dirty cache line = dirty (seg_collision cache line)"
| "get_what Valid cache line = valid (seg_collision cache line)"

fun set_what :: "what \<Rightarrow> ('s :: len) ocf_cache \<Rightarrow> u32 \<Rightarrow> 's word \<Rightarrow> 's ocf_cache" where
  "set_what Dirty cache line w =
     cache\<lparr>seg_collision := (seg_collision cache)(line := (seg_collision cache line)\<lparr>dirty := w\<rparr>)\<rparr>"
| "set_what Valid cache line w =
     cache\<lparr>seg_collision := (seg_collision cache)(line := (seg_collision cache line)\<lparr>valid := w\<rparr>)\<rparr>"

definition bit_test :: "what \<Rightarrow> ('s :: len) ocf_cache \<Rightarrow> u32 \<Rightarrow> u8 \<Rightarrow> u8 \<Rightarrow> bool \<Rightarrow> bool option" where
  "bit_test what cache line start stop all = do {
     mask \<leftarrow> get_mask_type start stop;
     raw_bug_on (collision_table_entries cache) line;
     Some (if all then mask = get_what what cache line AND mask
           else get_what what cache line AND mask \<noteq> 0)
   }"

definition bit_test_out :: "what \<Rightarrow> ('s :: len) ocf_cache \<Rightarrow> u32 \<Rightarrow> u8 \<Rightarrow> u8 \<Rightarrow> bool option" where
  "bit_test_out what cache line start stop = do {
     mask \<leftarrow> get_mask_type start stop;
     raw_bug_on (collision_table_entries cache) line;
     Some (get_what what cache line AND NOT mask \<noteq> 0)
   }"

definition bit_clear :: "what \<Rightarrow> ('s :: len) ocf_cache \<Rightarrow> u32 \<Rightarrow> u8 \<Rightarrow> u8 \<Rightarrow> ('s ocf_cache \<times> bool) option" where
  "bit_clear what cache line start stop = do {
     mask \<leftarrow> get_mask_type start stop;
     raw_bug_on (collision_table_entries cache) line;
     let cache = set_what what cache line (get_what what cache line AND NOT mask);
     Some (cache, get_what what cache line \<noteq> 0)
   }"

definition bit_set :: "what \<Rightarrow> ('s :: len) ocf_cache \<Rightarrow> u32 \<Rightarrow> u8 \<Rightarrow> u8 \<Rightarrow> ('s ocf_cache \<times> bool) option" where
  "bit_set what cache line start stop = do {
     mask \<leftarrow> get_mask_type start stop;
     raw_bug_on (collision_table_entries cache) line;
     let result = (get_what what cache line \<noteq> 0);
     Some (set_what what cache line (get_what what cache line OR mask), result)
   }"

definition bit_test_and_set ::
    "what \<Rightarrow> ('s :: len) ocf_cache \<Rightarrow> u32 \<Rightarrow> u8 \<Rightarrow> u8 \<Rightarrow> bool \<Rightarrow> ('s ocf_cache \<times> bool) option" where
  "bit_test_and_set what cache line start stop all = do {
     mask \<leftarrow> get_mask_type start stop;
     raw_bug_on (collision_table_entries cache) line;
     let test = (if all then mask = get_what what cache line AND mask
                 else get_what what cache line AND mask \<noteq> 0);
     Some (set_what what cache line (get_what what cache line OR mask), test)
   }"

definition bit_test_and_clear ::
    "what \<Rightarrow> ('s :: len) ocf_cache \<Rightarrow> u32 \<Rightarrow> u8 \<Rightarrow> u8 \<Rightarrow> bool \<Rightarrow> ('s ocf_cache \<times> bool) option" where
  "bit_test_and_clear what cache line start stop all = do {
     mask \<leftarrow> get_mask_type start stop;
     raw_bug_on (collision_table_entries cache) line;
     let test = (if all then mask = get_what what cache line AND mask
                 else get_what what cache line AND mask \<noteq> 0);
     Some (set_what what cache line (get_what what cache line AND NOT mask), test)
   }"

definition bit_check :: "('s :: len) ocf_cache \<Rightarrow> u32 \<Rightarrow> bool option" where
  "bit_check cache line = do {
     raw_bug_on (collision_table_entries cache) line;
     Some (get_what Dirty cache line AND NOT (get_what Valid cache line) = 0)
   }"

subsection \<open>Dispatch on the cache line size\<close>

definition size_switch :: "('s :: len) ocf_cache \<Rightarrow> 'r option \<Rightarrow> 'r option" where
  "size_switch cache r = (case size cache of ocf_cache_line_size_none \<Rightarrow> None | _ \<Rightarrow> r)"

definition ocf_metadata_test where
  "ocf_metadata_test what cache line start stop all = size_switch cache (bit_test what cache line start stop all)"
definition ocf_metadata_test_out where
  "ocf_metadata_test_out what cache line start stop = size_switch cache (bit_test_out what cache line start stop)"
definition ocf_metadata_clear where
  "ocf_metadata_clear what cache line start stop = size_switch cache (bit_clear what cache line start stop)"
definition ocf_metadata_set where
  "ocf_metadata_set what cache line start stop = size_switch cache (bit_set what cache line start stop)"
definition ocf_metadata_test_and_set where
  "ocf_metadata_test_and_set what cache line start stop all =
     size_switch cache (bit_test_and_set what cache line start stop all)"
definition ocf_metadata_test_and_clear where
  "ocf_metadata_test_and_clear what cache line start stop all =
     size_switch cache (bit_test_and_clear what cache line start stop all)"
definition ocf_metadata_check where
  "ocf_metadata_check cache line = size_switch cache (bit_check cache line)"

text \<open>The sector bounds of the settings, converted to \<open>uint8_t\<close> in the calls.\<close>

abbreviation sstart :: "('s :: len) ocf_cache \<Rightarrow> u8" where "sstart cache \<equiv> ucast (sector_start cache)"
abbreviation send :: "('s :: len) ocf_cache \<Rightarrow> u8" where "send cache \<equiv> ucast (sector_end cache)"

subsection \<open>Dirty bits\<close>

definition metadata_init_status_bits :: "('s :: len) ocf_cache \<Rightarrow> u32 \<Rightarrow> 's ocf_cache option" where
  "metadata_init_status_bits cache line = do {
     (cache, _) \<leftarrow> ocf_metadata_clear Dirty cache line (sstart cache) (send cache);
     (cache, _) \<leftarrow> ocf_metadata_clear Valid cache line (sstart cache) (send cache);
     Some cache
   }"

definition metadata_test_dirty_all where
  "metadata_test_dirty_all cache line = ocf_metadata_test Dirty cache line (sstart cache) (send cache) True"
definition metadata_test_dirty where
  "metadata_test_dirty cache line = ocf_metadata_test Dirty cache line (sstart cache) (send cache) False"
definition metadata_set_dirty where
  "metadata_set_dirty cache line = map_option fst (ocf_metadata_set Dirty cache line (sstart cache) (send cache))"
definition metadata_clear_dirty where
  "metadata_clear_dirty cache line = map_option fst (ocf_metadata_clear Dirty cache line (sstart cache) (send cache))"
definition metadata_test_and_clear_dirty where
  "metadata_test_and_clear_dirty cache line =
     ocf_metadata_test_and_clear Dirty cache line (sstart cache) (send cache) False"
definition metadata_test_and_set_dirty where
  "metadata_test_and_set_dirty cache line =
     ocf_metadata_test_and_set Dirty cache line (sstart cache) (send cache) False"
definition metadata_test_dirty_sec where
  "metadata_test_dirty_sec cache line start stop = ocf_metadata_test Dirty cache line start stop False"
definition metadata_test_dirty_all_sec where
  "metadata_test_dirty_all_sec cache line start stop = ocf_metadata_test Dirty cache line start stop True"
definition metadata_test_dirty_one where
  "metadata_test_dirty_one cache line pos = metadata_test_dirty_sec cache line pos pos"
definition metadata_test_dirty_out_sec where
  "metadata_test_dirty_out_sec cache line start stop = ocf_metadata_test_out Dirty cache line start stop"
definition metadata_set_dirty_sec where
  "metadata_set_dirty_sec cache line start stop = map_option fst (ocf_metadata_set Dirty cache line start stop)"
definition metadata_clear_dirty_sec where
  "metadata_clear_dirty_sec cache line start stop = map_option fst (ocf_metadata_clear Dirty cache line start stop)"
definition metadata_set_dirty_sec_one where
  "metadata_set_dirty_sec_one cache line pos = map_option fst (ocf_metadata_set Dirty cache line pos pos)"
definition metadata_clear_dirty_sec_one where
  "metadata_clear_dirty_sec_one cache line pos = map_option fst (ocf_metadata_clear Dirty cache line pos pos)"
definition metadata_test_and_clear_dirty_sec where
  "metadata_test_and_clear_dirty_sec cache line start stop =
     ocf_metadata_test_and_clear Dirty cache line start stop False"

text \<open>The result is the state, \<open>sec_changed\<close> and the out parameter.\<close>

definition metadata_clear_dirty_sec_changed where
  "metadata_clear_dirty_sec_changed cache line start stop = do {
     sec_changed \<leftarrow> ocf_metadata_test Dirty cache line start stop False;
     (cache, still) \<leftarrow> ocf_metadata_clear Dirty cache line start stop;
     Some (cache, sec_changed, \<not> still)
   }"

definition metadata_set_dirty_sec_changed where
  "metadata_set_dirty_sec_changed cache line start stop = do {
     all_dirty \<leftarrow> ocf_metadata_test Dirty cache line start stop True;
     (cache, line_was_dirty) \<leftarrow> ocf_metadata_set Dirty cache line start stop;
     Some (cache, \<not> all_dirty, line_was_dirty)
   }"

subsection \<open>Valid bits\<close>

definition metadata_test_valid_any where
  "metadata_test_valid_any cache line = ocf_metadata_test Valid cache line (sstart cache) (send cache) False"
definition metadata_test_valid where
  "metadata_test_valid cache line = ocf_metadata_test Valid cache line (sstart cache) (send cache) True"
definition metadata_set_valid where
  "metadata_set_valid cache line = map_option fst (ocf_metadata_set Valid cache line (sstart cache) (send cache))"
definition metadata_clear_valid where
  "metadata_clear_valid cache line = map_option fst (ocf_metadata_clear Valid cache line (sstart cache) (send cache))"
definition metadata_test_and_clear_valid where
  "metadata_test_and_clear_valid cache line =
     ocf_metadata_test_and_clear Valid cache line (sstart cache) (send cache) True"
definition metadata_test_and_set_valid where
  "metadata_test_and_set_valid cache line =
     ocf_metadata_test_and_set Valid cache line (sstart cache) (send cache) True"
definition metadata_test_valid_sec where
  "metadata_test_valid_sec cache line start stop = ocf_metadata_test Valid cache line start stop True"
definition metadata_test_valid_any_out_sec where
  "metadata_test_valid_any_out_sec cache line start stop = ocf_metadata_test_out Valid cache line start stop"
definition metadata_test_valid_one where
  "metadata_test_valid_one cache line pos = metadata_test_valid_sec cache line pos pos"
definition metadata_set_valid_sec_changed where
  "metadata_set_valid_sec_changed cache line start stop = do {
     (cache, was) \<leftarrow> ocf_metadata_set Valid cache line start stop;
     Some (cache, \<not> was)
   }"
definition metadata_clear_valid_sec where
  "metadata_clear_valid_sec cache line start stop = map_option fst (ocf_metadata_clear Valid cache line start stop)"
definition metadata_clear_valid_sec_one where
  "metadata_clear_valid_sec_one cache line pos = map_option fst (ocf_metadata_clear Valid cache line pos pos)"
definition metadata_set_valid_sec_one where
  "metadata_set_valid_sec_one cache line pos = map_option fst (ocf_metadata_set Valid cache line pos pos)"

text \<open>The result is the state, the returned value and the out parameter \<open>is_valid\<close>.\<close>

definition metadata_clear_valid_sec_changed where
  "metadata_clear_valid_sec_changed cache line start stop = do {
     was_any_valid \<leftarrow> ocf_metadata_test Valid cache line (sstart cache) (send cache) False;
     (cache, is_valid) \<leftarrow> ocf_metadata_clear Valid cache line start stop;
     Some (cache, was_any_valid \<and> \<not> is_valid, is_valid)
   }"


subsection \<open>The status words as sets of sectors\<close>

definition secs :: "what \<Rightarrow> ('s :: len) ocf_cache \<Rightarrow> u32 \<Rightarrow> nat set" where
  "secs what cache line = {i. bit (get_what what cache line) i}"

definition sec_range :: "u8 \<Rightarrow> u8 \<Rightarrow> nat set" where
  "sec_range start stop = {unat start..unat stop}"

definition word_secs :: "('s :: len) word \<Rightarrow> nat set" where
  "word_secs w = {i. bit w i}"

lemma word_secs_simps [simp]:
  "word_secs (v AND w) = word_secs v \<inter> word_secs w"
  "word_secs (v OR w) = word_secs v \<union> word_secs w"
  "word_secs (v AND NOT w) = word_secs v - word_secs w"
  "word_secs w = {} \<longleftrightarrow> w = 0"
  "word_secs v = word_secs w \<longleftrightarrow> v = w"
  by (auto simp: word_secs_def bit_simps bit_eq_iff possible_bit_def dest: bit_imp_le_length)

lemma secs_word_secs: "secs what cache line = word_secs (get_what what cache line)"
  by (simp add: secs_def word_secs_def)

lemma get_mask_secs:
  assumes "start \<le> stop" "unat stop < 64"
  shows "\<exists>m. get_mask start stop = Some m \<and> word_secs m = sec_range start stop"
proof -
  have s: "unat start \<le> unat stop" using assms(1) by (simp add: word_le_nat_alt)
  then have "\<not> start \<ge> 64" "\<not> stop \<ge> 64" "\<not> stop < start"
    using assms(2) by (simp_all add: word_le_nat_alt word_less_nat_alt)
  moreover have "word_secs (push_bit (unat start) (drop_bit (unat start + (63 - unat stop)) (NOT 0 :: u64))) =
      sec_range start stop"
    using s assms(2) by (auto simp: word_secs_def sec_range_def bit_simps possible_bit_def)
  ultimately show ?thesis by (simp add: get_mask_def)
qed

lemma get_mask_u128_secs:
  assumes "start \<le> stop" "unat stop < 128"
  shows "\<exists>m. get_mask_u128 start stop = Some m \<and> word_secs m = sec_range start stop"
proof -
  have s: "unat start \<le> unat stop" using assms(1) by (simp add: word_le_nat_alt)
  then have "\<not> start \<ge> 128" "\<not> stop \<ge> 128" "\<not> stop < start"
    using assms(2) by (simp_all add: word_le_nat_alt word_less_nat_alt)
  moreover have "word_secs (push_bit (unat start) (drop_bit (unat start + (127 - unat stop)) (NOT 0 :: u128))) =
      sec_range start stop"
    using s assms(2) by (auto simp: word_secs_def sec_range_def bit_simps possible_bit_def)
  ultimately show ?thesis by (simp add: get_mask_u128_def)
qed

lemma get_mask_type_secs:
  assumes "start \<le> stop" "unat stop < LENGTH('s :: len)" "LENGTH('s) \<le> 128"
  shows "\<exists>m :: 's word. get_mask_type start stop = Some m \<and> word_secs m = sec_range start stop"
proof (cases "LENGTH('s) \<le> 64")
  case True
  then obtain m where m: "get_mask start stop = Some m" "word_secs m = sec_range start stop"
    using get_mask_secs [OF assms(1)] assms(2) by auto
  have "word_secs (ucast m :: 's word) = sec_range start stop"
    using m(2) assms(2) by (auto simp: word_secs_def bit_simps possible_bit_def sec_range_def)
  then show ?thesis using m True by (simp add: get_mask_type_def)
next
  case False
  then obtain m where m: "get_mask_u128 start stop = Some m" "word_secs m = sec_range start stop"
    using get_mask_u128_secs [OF assms(1)] assms(2,3) by auto
  have "word_secs (ucast m :: 's word) = sec_range start stop"
    using m(2) assms(2) by (auto simp: word_secs_def bit_simps possible_bit_def sec_range_def)
  then show ?thesis using m False by (simp add: get_mask_type_def)
qed

lemma get_set_what [simp]:
  "get_what w (set_what w' cache line v) l = (if w = w' \<and> l = line then v else get_what w cache l)"
  "collision_table_entries (set_what w' cache line v) = collision_table_entries cache"
  "size (set_what w' cache line v) = size cache"
  "sector_start (set_what w' cache line v) = sector_start cache"
  "sector_end (set_what w' cache line v) = sector_end cache"
  by (cases w; cases w'; simp)+

text \<open>A cache whose settings agree with its status type, as \<open>ocf_metadata_config_init\<close> makes them.\<close>

definition settings_ok :: "('s :: len) ocf_cache \<Rightarrow> bool" where
  "settings_ok (cache :: 's ocf_cache) \<longleftrightarrow> size cache \<noteq> ocf_cache_line_size_none \<and>
     LENGTH('s) = unat (line_size_bytes (size cache)) div 512 \<and>
     sector_count cache = line_size_bytes (size cache) div 512 \<and> sector_start cache = 0 \<and> sector_end cache = line_size_bytes (size cache) div 512 - 1"

lemma settings_ok_length:
  assumes "settings_ok (cache :: ('s :: len) ocf_cache)"
  shows "LENGTH('s) \<le> 128" "unat (sstart cache) = 0" "Suc (unat (send cache)) = LENGTH('s)"
    "size_switch cache r = r"
  using assms by (cases "size cache"; simp add: settings_ok_def size_switch_def)+

lemma full_range:
  assumes "settings_ok (cache :: ('s :: len) ocf_cache)"
  shows "sec_range (sstart cache) (send cache) = {..<LENGTH('s)}"
    and "sstart cache \<le> send cache" and "unat (send cache) < LENGTH('s)"
  using settings_ok_length [OF assms] by (auto simp: sec_range_def word_le_nat_alt)


lemma secs_set_what [simp]:
  "secs w (set_what w' cache line v) l = (if w = w' \<and> l = line then word_secs v else secs w cache l)"
  by (simp add: secs_word_secs)

text \<open>Arguments of a status operation that pass its bug checks.\<close>

definition status_args :: "('s :: len) ocf_cache \<Rightarrow> u32 \<Rightarrow> u8 \<Rightarrow> u8 \<Rightarrow> bool" where
  "status_args (cache :: 's ocf_cache) line start stop \<longleftrightarrow> settings_ok cache \<and>
     line < collision_table_entries cache \<and> start \<le> stop \<and> unat stop < LENGTH('s)"

lemma status_args_full:
  "settings_ok cache \<Longrightarrow> line < collision_table_entries cache \<Longrightarrow> status_args cache line (sstart cache) (send cache)"
  by (simp add: status_args_def full_range)

lemma status_mask:
  fixes cache :: "('s :: len) ocf_cache"
  assumes "status_args cache line start stop"
  shows "\<exists>m :: 's word. get_mask_type start stop = Some m \<and> word_secs m = sec_range start stop"
  using assms by (intro get_mask_type_secs) (auto simp: status_args_def settings_ok_length)

lemma status_args_simps [simp]:
  assumes "status_args cache line start stop"
  shows "line < collision_table_entries cache" "size_switch cache r = r"
  using assms by (auto simp: status_args_def settings_ok_length)

lemma subset_secs_iff: "m = w AND m \<longleftrightarrow> word_secs m \<subseteq> word_secs w"
  by (metis inf.absorb_iff2 word_secs_simps(1,5))

lemma nonzero_secs: "w \<noteq> 0 \<longleftrightarrow> word_secs w \<noteq> {}"
  by simp

lemma ocf_metadata_test_secs:
  fixes cache :: "('s :: len) ocf_cache"
  assumes "status_args cache line start stop"
  shows "ocf_metadata_test what cache line start stop all =
    Some (if all then sec_range start stop \<subseteq> secs what cache line
          else secs what cache line \<inter> sec_range start stop \<noteq> {})"
proof -
  obtain m :: "'s word" where m: "get_mask_type start stop = Some m" "word_secs m = sec_range start stop"
    using status_mask [OF assms] by blast
  show ?thesis
    unfolding ocf_metadata_test_def bit_test_def m(1) secs_word_secs subset_secs_iff nonzero_secs
      word_secs_simps(1) using assms m(2) by simp
qed

lemma ocf_metadata_test_out_secs:
  fixes cache :: "('s :: len) ocf_cache"
  assumes "status_args cache line start stop"
  shows "ocf_metadata_test_out what cache line start stop = Some (secs what cache line - sec_range start stop \<noteq> {})"
proof -
  obtain m :: "'s word" where m: "get_mask_type start stop = Some m" "word_secs m = sec_range start stop"
    using status_mask [OF assms] by blast
  show ?thesis
    unfolding ocf_metadata_test_out_def bit_test_out_def m(1) secs_word_secs nonzero_secs
      word_secs_simps(3) using assms m(2) by simp
qed

lemma ocf_metadata_clear_secs:
  fixes cache :: "('s :: len) ocf_cache"
  assumes "status_args cache line start stop"
  shows "\<exists>v. word_secs v = secs what cache line - sec_range start stop \<and>
    ocf_metadata_clear what cache line start stop = Some (set_what what cache line v, word_secs v \<noteq> {})"
proof -
  obtain m :: "'s word" where m: "get_mask_type start stop = Some m" "word_secs m = sec_range start stop"
    using status_mask [OF assms] by blast
  show ?thesis
    using assms m
    by (intro exI [of _ "get_what what cache line AND NOT m"])
      (simp add: ocf_metadata_clear_def bit_clear_def secs_word_secs nonzero_secs
        del: word_secs_simps(1,4))
qed

lemma ocf_metadata_set_secs:
  fixes cache :: "('s :: len) ocf_cache"
  assumes "status_args cache line start stop"
  shows "\<exists>v. word_secs v = secs what cache line \<union> sec_range start stop \<and>
    ocf_metadata_set what cache line start stop = Some (set_what what cache line v, secs what cache line \<noteq> {})"
proof -
  obtain m :: "'s word" where m: "get_mask_type start stop = Some m" "word_secs m = sec_range start stop"
    using status_mask [OF assms] by blast
  show ?thesis
    using assms m
    by (intro exI [of _ "get_what what cache line OR m"])
      (simp add: ocf_metadata_set_def bit_set_def secs_word_secs)
qed


lemma secs_below: "secs what (cache :: ('s :: len) ocf_cache) line \<subseteq> {..<LENGTH('s)}"
  by (auto simp: secs_def dest: bit_imp_le_length)

lemma whole_line_tests:
  assumes "settings_ok cache" "line < collision_table_entries cache"
  shows "metadata_test_dirty cache line = Some (secs Dirty cache line \<noteq> {})"
    and "metadata_test_valid_any cache line = Some (secs Valid cache line \<noteq> {})"
  using secs_below [of _ cache line] ocf_metadata_test_secs [OF status_args_full [OF assms]]
  by (simp_all add: metadata_test_dirty_def metadata_test_valid_any_def full_range [OF assms(1)] Int_absorb2)

text \<open>One status operation changed the bits of one field of one line and nothing else.\<close>

definition status_change ::
    "what \<Rightarrow> u32 \<Rightarrow> nat set \<Rightarrow> ('s :: len) ocf_cache \<Rightarrow> 's ocf_cache \<Rightarrow> bool" where
  "status_change what line S cache cache' \<longleftrightarrow> (\<exists>v. cache' = set_what what cache line v \<and> word_secs v = S)"

lemma status_change_secs:
  assumes "status_change what line S cache cache'"
  shows "secs w cache' l = (if w = what \<and> l = line then S else secs w cache l)"
  using assms by (auto simp: status_change_def)

lemma status_change_frame:
  assumes "status_change what line S cache cache'"
  shows "settings_ok cache' = settings_ok cache" "collision_table_entries cache' = collision_table_entries cache"
    "core_line (seg_collision cache' l) = core_line (seg_collision cache l)"
    "core_id (seg_collision cache' l) = core_id (seg_collision cache l)"
    "seg_lru cache' = seg_lru cache" "lru cache' = lru cache" "seg_list_info cache' = seg_list_info cache"
    "seg_hash cache' = seg_hash cache" "curr_size cache' = curr_size cache" "cached_clines cache' = cached_clines cache"
    "sstart cache' = sstart cache" "send cache' = send cache" "size_switch cache' = size_switch cache"
  using assms by (cases what; auto simp: status_change_def settings_ok_def size_switch_def fun_eq_iff)+

lemma status_change_args:
  "status_change what line S cache cache' \<Longrightarrow> status_args cache' l start stop = status_args cache l start stop"
  by (simp add: status_args_def status_change_frame)

lemma ocf_metadata_clear_change:
  assumes "status_args cache line start stop"
  shows "\<exists>cache'. ocf_metadata_clear what cache line start stop =
      Some (cache', secs what cache line - sec_range start stop \<noteq> {}) \<and>
    status_change what line (secs what cache line - sec_range start stop) cache cache'"
  using ocf_metadata_clear_secs [OF assms, of what] unfolding status_change_def by metis

lemma ocf_metadata_set_change:
  assumes "status_args cache line start stop"
  shows "\<exists>cache'. ocf_metadata_set what cache line start stop = Some (cache', secs what cache line \<noteq> {}) \<and>
    status_change what line (secs what cache line \<union> sec_range start stop) cache cache'"
  using ocf_metadata_set_secs [OF assms, of what] unfolding status_change_def by metis

subsection \<open>Properties\<close>

text \<open>
  C19. On arguments in range (a line of the table, a sector range inside the line) no status operation stops
  at a bug check, and each is the set operation on the sectors whose bit is set: the tests are
  inclusion in, intersection with and difference from the range, set is union and returns whether
  any sector was set before, clear is difference and returns whether any sector is left; the other
  field, the other lines and the rest of the metadata do not change.
\<close>
theorem status_operations_are_set_operations:
  assumes "status_args cache line start stop"
  shows "ocf_metadata_test what cache line start stop True = Some (sec_range start stop \<subseteq> secs what cache line) \<and>
    ocf_metadata_test what cache line start stop False =
      Some (secs what cache line \<inter> sec_range start stop \<noteq> {}) \<and>
    ocf_metadata_test_out what cache line start stop =
      Some (secs what cache line - sec_range start stop \<noteq> {}) \<and>
    (\<exists>cache'. ocf_metadata_set what cache line start stop = Some (cache', secs what cache line \<noteq> {}) \<and>
      status_change what line (secs what cache line \<union> sec_range start stop) cache cache') \<and>
    (\<exists>cache'. ocf_metadata_clear what cache line start stop =
        Some (cache', secs what cache line - sec_range start stop \<noteq> {}) \<and>
      status_change what line (secs what cache line - sec_range start stop) cache cache')"
  using ocf_metadata_test_secs [OF assms, of what True] ocf_metadata_test_secs [OF assms, of what False]
    ocf_metadata_test_out_secs [OF assms] ocf_metadata_clear_change [OF assms] ocf_metadata_set_change [OF assms]
  by simp

definition status_cache :: "8 ocf_cache" where
  "status_cache = \<lparr>size = ocf_cache_line_size_4, sector_count = 8, sector_start = 0, sector_end = 7,
     layout = ocf_metadata_layout_seq, collision_table_entries = 10, hash_table_entries = 4,
     entries_in_page = 4, ssd_pages = 3,
     seg_collision = (\<lambda>_. \<lparr>core_line = 0, core_id = 0, valid = 0x0f, dirty = 0x03\<rparr>),
     seg_list_info = (\<lambda>_. \<lparr>prev_col = 10, next_col = 10, partition_id = 0\<rparr>),
     seg_hash = (\<lambda>_. 10),
     seg_lru = (\<lambda>_. \<lparr>lru_prev = end_marker, lru_next = end_marker, lru_hot = False\<rparr>),
     lru = (\<lambda>_. \<lparr>num_nodes = 0, head = end_marker, tail = end_marker, num_hot = 0,
       last_hot = end_marker, track_hot = True\<rparr>),
     curr_size = (\<lambda>_. 0), cached_clines = (\<lambda>_. 0), part_cached_clines = (\<lambda>_ _. 0),
     dirty_clines = (\<lambda>_. 0), part_dirty_clines = (\<lambda>_ _. 0), dirty_since = (\<lambda>_. 0)\<rparr>"

lemma status_cache_args: "status_args status_cache 3 2 5"
  by (simp add: status_args_def settings_ok_def status_cache_def)

theorem status_operations_are_set_operations_witness:
  "ocf_metadata_test Valid status_cache 3 2 5 True = Some (sec_range 2 5 \<subseteq> secs Valid status_cache 3)"
  using status_operations_are_set_operations [OF status_cache_args, of Valid] by blast


lemma metadata_clear_dirty_sec_changed_secs:
  assumes "status_args cache line start stop"
  shows "\<exists>cache'. metadata_clear_dirty_sec_changed cache line start stop =
      Some (cache', secs Dirty cache line \<inter> sec_range start stop \<noteq> {}, secs Dirty cache' line = {}) \<and>
    status_change Dirty line (secs Dirty cache line - sec_range start stop) cache cache'"
  using ocf_metadata_clear_change [OF assms, of Dirty] ocf_metadata_test_secs [OF assms, of Dirty False]
  by (auto simp: metadata_clear_dirty_sec_changed_def status_change_secs)

lemma metadata_set_dirty_sec_changed_secs:
  assumes "status_args cache line start stop"
  shows "\<exists>cache'. metadata_set_dirty_sec_changed cache line start stop =
      Some (cache', \<not> sec_range start stop \<subseteq> secs Dirty cache line, secs Dirty cache line \<noteq> {}) \<and>
    status_change Dirty line (secs Dirty cache line \<union> sec_range start stop) cache cache'"
  using ocf_metadata_set_change [OF assms, of Dirty] ocf_metadata_test_secs [OF assms, of Dirty True]
  by (auto simp: metadata_set_dirty_sec_changed_def)

lemma metadata_set_valid_sec_changed_secs:
  assumes "status_args cache line start stop"
  shows "\<exists>cache'. metadata_set_valid_sec_changed cache line start stop = Some (cache', secs Valid cache line = {}) \<and>
    status_change Valid line (secs Valid cache line \<union> sec_range start stop) cache cache'"
  using ocf_metadata_set_change [OF assms, of Valid] by (auto simp: metadata_set_valid_sec_changed_def)

lemma metadata_clear_valid_sec_changed_secs:
  assumes "status_args cache line start stop"
  shows "\<exists>cache'. metadata_clear_valid_sec_changed cache line start stop =
      Some (cache', secs Valid cache line \<noteq> {} \<and> secs Valid cache' line = {}, secs Valid cache' line \<noteq> {}) \<and>
    status_change Valid line (secs Valid cache line - sec_range start stop) cache cache'"
proof -
  have "ocf_metadata_test Valid cache line (sstart cache) (send cache) False = Some (secs Valid cache line \<noteq> {})"
    using whole_line_tests(2) [of cache line] assms by (simp add: metadata_test_valid_any_def status_args_def)
  then show ?thesis
    using ocf_metadata_clear_change [OF assms, of Valid]
    by (auto simp: metadata_clear_valid_sec_changed_def status_change_secs)
qed

text \<open>
  The results that the engines act on.  \<open>metadata_clear_dirty_sec_changed\<close> tells whether a
  sector of the range was dirty and whether the line has become clean;
  \<open>metadata_set_dirty_sec_changed\<close> whether a sector of the range became dirty and whether the
  line was dirty before; \<open>metadata_set_valid_sec_changed\<close> is true exactly when no sector of the
  line was valid before; \<open>metadata_clear_valid_sec_changed\<close> is true exactly when the last
  valid sectors of a line were cleared.
\<close>
lemma sec_changed_results:
  assumes "status_args cache line start stop"
  shows "(\<exists>cache'. metadata_clear_dirty_sec_changed cache line start stop =
        Some (cache', secs Dirty cache line \<inter> sec_range start stop \<noteq> {}, secs Dirty cache' line = {}) \<and>
      status_change Dirty line (secs Dirty cache line - sec_range start stop) cache cache') \<and>
    (\<exists>cache'. metadata_set_dirty_sec_changed cache line start stop =
        Some (cache', \<not> sec_range start stop \<subseteq> secs Dirty cache line, secs Dirty cache line \<noteq> {}) \<and>
      status_change Dirty line (secs Dirty cache line \<union> sec_range start stop) cache cache') \<and>
    (\<exists>cache'. metadata_set_valid_sec_changed cache line start stop =
        Some (cache', secs Valid cache line = {}) \<and>
      status_change Valid line (secs Valid cache line \<union> sec_range start stop) cache cache') \<and>
    (\<exists>cache'. metadata_clear_valid_sec_changed cache line start stop =
        Some (cache', secs Valid cache line \<noteq> {} \<and> secs Valid cache' line = {}, secs Valid cache' line \<noteq> {}) \<and>
      status_change Valid line (secs Valid cache line - sec_range start stop) cache cache')"
  by (intro conjI metadata_clear_dirty_sec_changed_secs metadata_set_dirty_sec_changed_secs
      metadata_set_valid_sec_changed_secs metadata_clear_valid_sec_changed_secs assms)

end
