(* ===== verification/Lru.thy ===== *)
theory Lru
  imports Lru_List Metadata_Status Striping
begin

text \<open>
  The LRU lists of the partitions (\<open>ocf_lru.c\<close>): which list a cache line belongs to and how
  the cache moves lines between the lists of clean and dirty lines, of user partitions and of the
  free list.

  The spin locks of the lists are not part of the state: every operation is modelled as the
  atomic section that it is under its lock.
\<close>

subsection \<open>Operations\<close>

definition ocf_lru_get_list :: "u16 \<Rightarrow> u32 \<Rightarrow> bool \<Rightarrow> lru_ref" where
  "ocf_lru_get_list part lru_idx clean =
     (part, lru_idx, if part = PARTITION_FREELIST then True else clean)"

text \<open>\<open>&cache->user_parts[part_id].part\<close>: the array has \<open>OCF_USER_IO_CLASS_MAX + 1\<close> elements.\<close>

definition user_part :: "u16 \<Rightarrow> u16 option" where
  "user_part part_id = (if part_id \<le> OCF_USER_IO_CLASS_MAX then Some part_id else None)"

definition lru_get_cline_list :: "('s :: len) ocf_cache \<Rightarrow> u32 \<Rightarrow> lru_ref option" where
  "lru_get_cline_list cache cline = do {
     let lru_list = cline mod OCF_NUM_LRU_LISTS;
     part_id \<leftarrow> ocf_metadata_get_partition_id cache cline;
     ENV_BUG_ON (part_id > OCF_USER_IO_CLASS_MAX);
     part \<leftarrow> user_part part_id;
     dirty \<leftarrow> metadata_test_dirty cache cline;
     Some (ocf_lru_get_list part lru_list (\<not> dirty))
   }"

text \<open>A call of a list function with a pointer to one of the lists.\<close>

definition on_list ::
    "(('s :: len) ocf_cache \<Rightarrow> ocf_lru_list \<Rightarrow> u32 \<Rightarrow> ('s ocf_cache \<times> ocf_lru_list) option) \<Rightarrow>
     's ocf_cache \<Rightarrow> lru_ref \<Rightarrow> u32 \<Rightarrow> 's ocf_cache option" where
  "on_list f cache r cline = do {
     (cache, l) \<leftarrow> f cache (lru cache r) cline;
     Some (cache\<lparr>lru := (lru cache)(r := l)\<rparr>)
   }"

definition ocf_lru_add :: "('s :: len) ocf_cache \<Rightarrow> u32 \<Rightarrow> 's ocf_cache option" where
  "ocf_lru_add cache cline = do {
     r \<leftarrow> lru_get_cline_list cache cline;
     on_list add_lru_head cache r cline
   }"

definition ocf_lru_move :: "('s :: len) ocf_cache \<Rightarrow> u32 \<Rightarrow> lru_ref \<Rightarrow> lru_ref \<Rightarrow> 's ocf_cache option" where
  "ocf_lru_move cache cline src_list dst_list = do {
     cache \<leftarrow> on_list remove_lru_list cache src_list cline;
     on_list add_lru_head cache dst_list cline
   }"

definition ocf_lru_repart_locked :: "('s :: len) ocf_cache \<Rightarrow> u32 \<Rightarrow> u16 \<Rightarrow> u16 \<Rightarrow> 's ocf_cache option" where
  "ocf_lru_repart_locked cache cline src_part dst_part = do {
     let lru_list = cline mod OCF_NUM_LRU_LISTS;
     dirty \<leftarrow> metadata_test_dirty cache cline;
     let clean = (\<not> dirty);
     let src_list = ocf_lru_get_list src_part lru_list clean;
     let dst_list = ocf_lru_get_list dst_part lru_list clean;
     cache \<leftarrow> ocf_lru_move cache cline src_list dst_list;
     cache \<leftarrow> ocf_metadata_set_partition_id cache cline dst_part;
     let cache = cache\<lparr>curr_size := (curr_size cache)(src_part := curr_size cache src_part - 1)\<rparr>;
     Some (cache\<lparr>curr_size := (curr_size cache)(dst_part := curr_size cache dst_part + 1)\<rparr>)
   }"

definition ocf_lru_repart :: "('s :: len) ocf_cache \<Rightarrow> u32 \<Rightarrow> u16 \<Rightarrow> u16 \<Rightarrow> 's ocf_cache option" where
  "ocf_lru_repart cache cline src_part dst_part = ocf_lru_repart_locked cache cline src_part dst_part"

definition ocf_lru_rm_cline :: "('s :: len) ocf_cache \<Rightarrow> u32 \<Rightarrow> 's ocf_cache option" where
  "ocf_lru_rm_cline cache cline = do {
     part_id \<leftarrow> ocf_metadata_get_partition_id cache cline;
     part \<leftarrow> user_part part_id;
     ocf_lru_repart cache cline part PARTITION_FREELIST
   }"

definition ocf_lru_hot_cline :: "('s :: len) ocf_cache \<Rightarrow> u32 \<Rightarrow> 's ocf_cache option" where
  "ocf_lru_hot_cline cache cline = do {
     let lru_list = cline mod OCF_NUM_LRU_LISTS;
     node \<leftarrow> ocf_metadata_get_lru cache cline;
     if lru_hot node then Some cache
     else do {
       part_id \<leftarrow> ocf_metadata_get_partition_id cache cline;
       part \<leftarrow> user_part part_id;
       dirty \<leftarrow> metadata_test_dirty cache cline;
       let r = ocf_lru_get_list part lru_list (\<not> dirty);
       ENV_BUG_ON (lru_next node = end_marker \<and> tail (lru cache r) \<noteq> cline);
       ENV_BUG_ON (lru_prev node = end_marker \<and> head (lru cache r) \<noteq> cline);
       on_list ocf_lru_set_hot cache r cline
     }
   }"

text \<open>\<open>_lru_init\<close> on the lists of a partition, for \<open>i\<close> below \<open>OCF_NUM_LRU_LISTS\<close>.  The free
  list has only clean lists: \<open>ocf_lru_get_list\<close> gives the same pointer for both.\<close>

definition ocf_lru_init :: "('s :: len) ocf_cache \<Rightarrow> u16 \<Rightarrow> 's ocf_cache" where
  "ocf_lru_init cache part = (
     let init1 = (\<lambda>m i.
           let clean_list = ocf_lru_get_list part (of_nat i) True;
               dirty_list = ocf_lru_get_list part (of_nat i) False in
           if part = PARTITION_FREELIST then m(clean_list := lru_list_init False)
           else (m(clean_list := lru_list_init True))(dirty_list := lru_list_init True))
     in cache\<lparr>lru := foldl init1 (lru cache) [0..<unat OCF_NUM_LRU_LISTS],
              curr_size := (curr_size cache)(part := 0)\<rparr>)"

definition ocf_lru_clean_cline :: "('s :: len) ocf_cache \<Rightarrow> u16 \<Rightarrow> u32 \<Rightarrow> 's ocf_cache option" where
  "ocf_lru_clean_cline cache part cline = do {
     let lru_list = cline mod OCF_NUM_LRU_LISTS;
     let clean_list = ocf_lru_get_list part lru_list True;
     let dirty_list = ocf_lru_get_list part lru_list False;
     cache \<leftarrow> on_list remove_lru_list cache dirty_list cline;
     on_list add_lru_head cache clean_list cline
   }"

definition ocf_lru_dirty_cline :: "('s :: len) ocf_cache \<Rightarrow> u16 \<Rightarrow> u32 \<Rightarrow> 's ocf_cache option" where
  "ocf_lru_dirty_cline cache part cline = do {
     let lru_list = cline mod OCF_NUM_LRU_LISTS;
     let clean_list = ocf_lru_get_list part lru_list True;
     let dirty_list = ocf_lru_get_list part lru_list False;
     cache \<leftarrow> on_list remove_lru_list cache clean_list cline;
     on_list add_lru_head cache dirty_list cline
   }"

text \<open>The loop of \<open>next_phys_invalid\<close> ends at the end of the table: its first argument is the number of
  entries that are left.\<close>

fun next_phys_invalid_loop :: "nat \<Rightarrow> ('s :: len) ocf_cache \<Rightarrow> u32 \<Rightarrow> u32 option" where
  "next_phys_invalid_loop 0 cache phys = None"
| "next_phys_invalid_loop (Suc left) cache phys = do {
     let lg = ocf_metadata_map_phy2lg cache phys;
     any \<leftarrow> metadata_test_valid_any cache lg;
     if any then
       (let phys = phys + 1 in
        if phys = collision_table_entries cache then Some phys
        else next_phys_invalid_loop left cache phys)
     else Some phys
   }"

definition next_phys_invalid :: "('s :: len) ocf_cache \<Rightarrow> u32 \<Rightarrow> u32 option" where
  "next_phys_invalid cache phys =
     (if phys = collision_table_entries cache then Some (collision_table_entries cache)
      else next_phys_invalid_loop (unat (collision_table_entries cache - phys)) cache phys)"

fun populate_loop :: "nat \<Rightarrow> ('s :: len) ocf_cache \<Rightarrow> u32 \<Rightarrow> ('s ocf_cache \<times> u32) option" where
  "populate_loop 0 cache phys = Some (cache, phys)"
| "populate_loop (Suc i) cache phys = do {
     phys \<leftarrow> next_phys_invalid cache phys;
     ENV_BUG_ON (phys = collision_table_entries cache);
     let cline = ocf_metadata_map_phy2lg cache phys;
     let phys = phys + 1;
     cache \<leftarrow> ocf_metadata_set_partition_id cache cline PARTITION_FREELIST;
     let lru_list = cline mod OCF_NUM_LRU_LISTS;
     let r = ocf_lru_get_list PARTITION_FREELIST lru_list True;
     cache \<leftarrow> on_list add_lru_head cache r cline;
     populate_loop i cache phys
   }"

definition ocf_lru_populate :: "('s :: len) ocf_cache \<Rightarrow> u32 \<Rightarrow> 's ocf_cache option" where
  "ocf_lru_populate cache num_free_clines = do {
     (cache, phys) \<leftarrow> populate_loop (unat num_free_clines) cache 0;
     phys \<leftarrow> next_phys_invalid cache phys;
     ENV_BUG_ON (phys \<noteq> collision_table_entries cache);
     Some (cache\<lparr>curr_size := (curr_size cache)(PARTITION_FREELIST := num_free_clines)\<rparr>)
   }"

definition ocf_lru_num_free :: "('s :: len) ocf_cache \<Rightarrow> u32" where
  "ocf_lru_num_free cache = curr_size cache PARTITION_FREELIST"

subsection \<open>The lists of a cache\<close>

definition lru_refs :: "lru_ref set" where
  "lru_refs = {(p, i, clean). p \<le> PARTITION_FREELIST \<and> i < OCF_NUM_LRU_LISTS \<and> (p = PARTITION_FREELIST \<longrightarrow> clean)}"

text \<open>\<open>lists_ok c L\<close>: \<open>L\<close> gives the contents of all lists; no line is in two of them; only the free
  list does not track hot lines.\<close>

definition lists_ok :: "('s :: len) ocf_cache \<Rightarrow> (lru_ref \<Rightarrow> u32 list) \<Rightarrow> bool" where
  "lists_ok c L \<longleftrightarrow> lru_list.family c (lru c) L lru_refs \<and>
     (\<forall>r\<in>lru_refs. track_hot (lru c r) = (fst r \<noteq> PARTITION_FREELIST))"

definition part_of :: "('s :: len) ocf_cache \<Rightarrow> u32 \<Rightarrow> u16" where
  "part_of c x = ucast (partition_id (seg_list_info c x))"

text \<open>The list on which a line belongs.\<close>

definition home :: "('s :: len) ocf_cache \<Rightarrow> u32 \<Rightarrow> lru_ref" where
  "home c x = ocf_lru_get_list (part_of c x) (x mod OCF_NUM_LRU_LISTS) (secs Dirty c x = {})"

text \<open>Every line of a list belongs there, every line of a partition is on its list, and the
  partition sizes are right.\<close>

definition home_ok :: "('s :: len) ocf_cache \<Rightarrow> (lru_ref \<Rightarrow> u32 list) \<Rightarrow> bool" where
  "home_ok c L \<longleftrightarrow> (\<forall>r\<in>lru_refs. \<forall>x\<in>set (L r). home c x = r) \<and>
     (\<forall>x < collision_table_entries c. part_of c x \<le> PARTITION_FREELIST \<and> x \<in> set (L (home c x)))"

definition part_lines :: "('s :: len) ocf_cache \<Rightarrow> u16 \<Rightarrow> u32 set" where
  "part_lines c p = {x. x < collision_table_entries c \<and> part_of c x = p}"

definition sizes_ok :: "('s :: len) ocf_cache \<Rightarrow> bool" where
  "sizes_ok c \<longleftrightarrow> (\<forall>p \<le> PARTITION_FREELIST. unat (curr_size c p) = card (part_lines c p))"

definition lru_inv :: "('s :: len) ocf_cache \<Rightarrow> (lru_ref \<Rightarrow> u32 list) \<Rightarrow> bool" where
  "lru_inv c L \<longleftrightarrow> settings_ok c \<and> lists_ok c L \<and> home_ok c L \<and> sizes_ok c"


subsection \<open>Operations on one list of the cache\<close>

definition lru_only :: "('s :: len) ocf_cache \<Rightarrow> 's ocf_cache \<Rightarrow> bool" where
  "lru_only c c' \<longleftrightarrow> (\<exists>f m. c' = c\<lparr>seg_lru := f, lru := m\<rparr>)"

lemma lru_only_fields:
  assumes "lru_only c c'"
  shows "collision_table_entries c' = collision_table_entries c" "seg_list_info c' = seg_list_info c"
    "seg_collision c' = seg_collision c" "curr_size c' = curr_size c" "size c' = size c"
    "sector_count c' = sector_count c" "sector_start c' = sector_start c" "sector_end c' = sector_end c" "seg_hash c' = seg_hash c"
    "hash_table_entries c' = hash_table_entries c" "cached_clines c' = cached_clines c"
    "part_cached_clines c' = part_cached_clines c" "dirty_clines c' = dirty_clines c"
    "part_dirty_clines c' = part_dirty_clines c" "dirty_since c' = dirty_since c" "layout c' = layout c"
    "entries_in_page c' = entries_in_page c" "ssd_pages c' = ssd_pages c"
  using assms by (auto simp: lru_only_def)

lemma lru_only_trans:
  assumes "lru_only c c'" "lru_only c' c''"
  shows "lru_only c c''"
proof -
  obtain f m f' m' where "c' = c\<lparr>seg_lru := f, lru := m\<rparr>" "c'' = c'\<lparr>seg_lru := f', lru := m'\<rparr>"
    using assms by (auto simp: lru_only_def)
  then have "c'' = c\<lparr>seg_lru := f', lru := m'\<rparr>" by simp
  then show ?thesis unfolding lru_only_def by blast
qed

lemma lru_only_derived:
  assumes "lru_only c c'"
  shows "settings_ok c' = settings_ok c" "part_of c' x = part_of c x" "secs w c' x = secs w c x"
    "home c' x = home c x" "part_lines c' p = part_lines c p"
  using lru_only_fields [OF assms]
  by (auto simp: settings_ok_def part_of_def secs_def home_def part_lines_def, (cases w, simp_all)+)

lemma lru_list_ok_lru [simp]: "lru_list_ok (c\<lparr>lru := m\<rparr>) l xs = lru_list_ok c l xs"
  by (simp add: lru_list_ok_def lru_rep_def)

lemma family_lru [simp]: "lru_list.family (c\<lparr>lru := m\<rparr>) M L R = lru_list.family c M L R"
  by (simp add: lru_list.family_def)

lemma on_list_result:
  assumes "f c (lru c r) x = Some (c1, l)" "lru_list.family c1 ((lru c)(r := l)) L lru_refs" "lru_frame S c c1"
    "track_hot l = track_hot (lru c r)" "lists_ok c L0" "r \<in> lru_refs"
  shows "on_list f c r x = Some (c1\<lparr>lru := (lru c1)(r := l)\<rparr>) \<and> lists_ok (c1\<lparr>lru := (lru c1)(r := l)\<rparr>) L \<and>
    lru_only c (c1\<lparr>lru := (lru c1)(r := l)\<rparr>)"
proof -
  have "lru c1 = lru c" using assms(3) by (rule lru_frame_fields)
  moreover have "lru_only c (c1\<lparr>lru := (lru c1)(r := l)\<rparr>)"
    using assms(3) unfolding lru_frame_def lru_only_def by blast
  ultimately show ?thesis using assms by (auto simp: on_list_def lists_ok_def)
qed

lemma on_list_add:
  assumes "lists_ok c L" "r \<in> lru_refs" "x < collision_table_entries c" "\<forall>s\<in>lru_refs. x \<notin> set (L s)"
  shows "\<exists>c'. on_list add_lru_head c r x = Some c' \<and> lists_ok c' (L(r := x # L r)) \<and> lru_only c c'"
proof -
  have "lru_list.family c (lru c) L lru_refs" using assms(1) by (simp add: lists_ok_def)
  from lru_list.family_add [OF this assms(2-4)]
  show ?thesis using on_list_result [OF _ _ _ _ assms(1,2)] by blast
qed

lemma on_list_remove:
  assumes "lists_ok c L" "r \<in> lru_refs" "x \<in> set (L r)"
  shows "\<exists>c'. on_list remove_lru_list c r x = Some c' \<and> lists_ok c' (L(r := remove1 x (L r))) \<and> lru_only c c'"
proof -
  have "lru_list.family c (lru c) L lru_refs" using assms(1) by (simp add: lists_ok_def)
  from lru_list.family_rem [OF this assms(2,3)]
  show ?thesis using on_list_result [OF _ _ _ _ assms(1,2)] by blast
qed

lemma on_list_set_hot:
  assumes "lists_ok c L" "r \<in> lru_refs" "x \<in> set (L r)"
  shows "\<exists>c'. on_list ocf_lru_set_hot c r x = Some c' \<and> lists_ok c' (L(r := x # remove1 x (L r))) \<and> lru_only c c'"
proof -
  have "lru_list.family c (lru c) L lru_refs" using assms(1) by (simp add: lists_ok_def)
  from lru_list.family_touch [OF this assms(2,3)]
  show ?thesis using on_list_result [OF _ _ _ _ assms(1,2)] by blast
qed

lemma lists_ok_elem:
  assumes "lists_ok c L" "r \<in> lru_refs"
  shows "lru_list_ok c (lru c r) (L r)" "distinct (L r)" "x \<in> set (L r) \<Longrightarrow> x < collision_table_entries c"
  using assms lru_list_ok_elems [of c "lru c r" "L r"] by (auto simp: lists_ok_def lru_list.family_def)

lemma lists_ok_disjoint:
  assumes "lists_ok c L" "r \<in> lru_refs" "s \<in> lru_refs" "x \<in> set (L r)" "x \<in> set (L s)"
  shows "r = s"
  using assms unfolding lists_ok_def lru_list.family_def by blast

text \<open>Moving a line from one list to the head of another, or of the same.\<close>

definition moved :: "(lru_ref \<Rightarrow> u32 list) \<Rightarrow> u32 \<Rightarrow> lru_ref \<Rightarrow> lru_ref \<Rightarrow> lru_ref \<Rightarrow> u32 list" where
  "moved L x src dst = (let L1 = L(src := remove1 x (L src)) in L1(dst := x # L1 dst))"

lemma ocf_lru_move_ok:
  assumes ok: "lists_ok c L" and r: "src \<in> lru_refs" "dst \<in> lru_refs" and x: "x \<in> set (L src)"
  shows "\<exists>c'. ocf_lru_move c x src dst = Some c' \<and> lists_ok c' (moved L x src dst) \<and> lru_only c c'"
proof -
  obtain c1 where a: "on_list remove_lru_list c src x = Some c1" "lists_ok c1 (L(src := remove1 x (L src)))" "lru_only c c1"
    using on_list_remove [OF ok r(1) x] by blast
  have "x < collision_table_entries c1" using lists_ok_elem(3) [OF ok r(1) x] lru_only_fields(1) [OF a(3)] by simp
  moreover have "\<forall>s\<in>lru_refs. x \<notin> set ((L(src := remove1 x (L src))) s)"
    using lists_ok_disjoint [OF ok r(1) _ x] lists_ok_elem(2) [OF ok r(1)] by auto
  ultimately obtain c2 where "on_list add_lru_head c1 dst x = Some c2" "lists_ok c2 (moved L x src dst)" "lru_only c1 c2"
    using on_list_add [OF a(2) r(2)] by (auto simp: moved_def Let_def)
  then show ?thesis using a lru_only_trans by (auto simp: ocf_lru_move_def)
qed


lemma moved_mem:
  assumes "lists_ok c L" "src \<in> lru_refs" "x \<in> set (L src)" "r \<in> lru_refs"
  shows "y \<in> set (moved L x src dst r) \<longleftrightarrow> (if y = x then r = dst else y \<in> set (L r))"
proof -
  have d: "set (remove1 x (L src)) = set (L src) - {x}" using lists_ok_elem(2) [OF assms(1,2)] by simp
  have n: "x \<in> set (L r) \<Longrightarrow> r = src" using lists_ok_disjoint [OF assms(1,2,4,3)] by simp
  show ?thesis
    by (cases "r = src"; cases "r = dst"; cases "dst = src") (use n in \<open>auto simp: moved_def Let_def d\<close>)
qed

subsection \<open>Moving a line to another partition\<close>

lemma home_in_refs: "part_of c x \<le> PARTITION_FREELIST \<Longrightarrow> home c x \<in> lru_refs"
  by (auto simp: home_def ocf_lru_get_list_def lru_refs_def OCF_NUM_LRU_LISTS_def word_less_nat_alt unat_mod)

lemma get_list_in_refs: "p \<le> PARTITION_FREELIST \<Longrightarrow> ocf_lru_get_list p (x mod OCF_NUM_LRU_LISTS) b \<in> lru_refs"
  by (auto simp: ocf_lru_get_list_def lru_refs_def OCF_NUM_LRU_LISTS_def word_less_nat_alt unat_mod)

lemma part_id_cast: "p \<le> PARTITION_FREELIST \<Longrightarrow> (ucast (ucast p :: u8) :: u16) = p"
proof -
  assume "p \<le> PARTITION_FREELIST"
  then have "unat p < 2 ^ 8"
    by (simp add: word_le_nat_alt PARTITION_FREELIST_def OCF_USER_IO_CLASS_MAX_def)
  then have "unat (ucast (ucast p :: u8) :: u16) = unat p"
    by (simp add: unsigned_ucast_eq unsigned_take_bit_eq take_bit_nat_eq_self)
  then show ?thesis by (simp only: word_unat_eq_iff)
qed

lemma card_part_lines: "card (part_lines c p) \<le> unat (collision_table_entries c)"
proof -
  have "part_lines c p \<subseteq> {x. x < collision_table_entries c}" by (auto simp: part_lines_def)
  moreover have "finite {x. x < collision_table_entries c}" by simp
  ultimately show ?thesis by (metis card_below card_mono)
qed

lemma sizes_ok_move:
  fixes c :: "('s :: len) ocf_cache"
  assumes ok: "sizes_ok c" and x: "x < collision_table_entries c" "part_of c x = src"
    and p: "src \<le> PARTITION_FREELIST" "dst \<le> PARTITION_FREELIST"
    and c': "collision_table_entries c' = collision_table_entries c"
      "\<And>y. part_of c' y = (if y = x then dst else part_of c y)"
      "curr_size c' = (let s = (curr_size c)(src := curr_size c src - 1) in s(dst := s dst + 1))"
  shows "sizes_ok c'"
  unfolding sizes_ok_def
proof (intro allI impI)
  fix q assume q: "q \<le> PARTITION_FREELIST"
  have fin: "finite (part_lines (c :: 's ocf_cache) r)" for c r by simp
  have cs: "unat (curr_size c src) = card (part_lines c src)" "unat (curr_size c q) = card (part_lines c q)"
    using ok p q by (auto simp: sizes_ok_def)
  have xs: "x \<in> part_lines c src" using x by (simp add: part_lines_def)
  have pos: "0 < card (part_lines c src)" using fin xs by (auto simp: card_gt_0_iff)
  have "part_lines c' q = (if q = dst then insert x (part_lines c q) else if q = src then part_lines c q - {x} else part_lines c q)"
    using x c' by (auto simp: part_lines_def)
  then have card': "card (part_lines c' q) = (if src = dst then card (part_lines c q)
      else if q = dst then card (part_lines c q) + 1 else if q = src then card (part_lines c q) - 1 else card (part_lines c q))"
    using xs x by (auto simp: part_lines_def insert_absorb card_insert_if)
  have "card (part_lines c' q) < 2 ^ 32"
    using card_part_lines [of c' q] unsigned_less [of "collision_table_entries c'", where ?'a = nat] by simp
  moreover have "unat (curr_size c src - 1) = card (part_lines c src) - 1"
    using pos cs(1) by (subst unat_sub_nowrap) auto
  moreover have "unat (curr_size c q + 1) = card (part_lines c q) + 1" if "card (part_lines c q) + 1 < 2 ^ 32"
    using that cs(2) by (subst unat_add_nowrap) auto
  ultimately show "unat (curr_size c' q) = card (part_lines c' q)"
    using cs pos card' by (auto simp: c'(3) Let_def split: if_splits)
qed


text \<open>What moving lines between partitions leaves alone: the mapping, the status bits, the counters of
  the cores.\<close>

definition part_frame :: "('s :: len) ocf_cache \<Rightarrow> 's ocf_cache \<Rightarrow> bool" where
  "part_frame c c' \<longleftrightarrow> (\<exists>f m g s. c' = c\<lparr>seg_lru := f, lru := m, seg_list_info := g, curr_size := s\<rparr> \<and>
     (\<forall>y. next_col (g y) = next_col (seg_list_info c y) \<and> prev_col (g y) = prev_col (seg_list_info c y)))"

lemma part_frame_fields:
  assumes "part_frame c c'"
  shows "collision_table_entries c' = collision_table_entries c" "seg_collision c' = seg_collision c"
    "size c' = size c" "sector_count c' = sector_count c" "sector_start c' = sector_start c" "sector_end c' = sector_end c" "seg_hash c' = seg_hash c"
    "hash_table_entries c' = hash_table_entries c" "cached_clines c' = cached_clines c"
    "part_cached_clines c' = part_cached_clines c" "dirty_clines c' = dirty_clines c"
    "part_dirty_clines c' = part_dirty_clines c" "dirty_since c' = dirty_since c" "layout c' = layout c"
    "next_col (seg_list_info c' y) = next_col (seg_list_info c y)"
    "prev_col (seg_list_info c' y) = prev_col (seg_list_info c y)"
    "entries_in_page c' = entries_in_page c" "ssd_pages c' = ssd_pages c"
  using assms by (auto simp: part_frame_def)

lemma part_frame_secs: "part_frame c c' \<Longrightarrow> secs w c' x = secs w c x"
  by (cases w) (simp_all add: secs_def part_frame_fields)

lemma part_frame_settings: "part_frame c c' \<Longrightarrow> settings_ok c' = settings_ok c"
  by (simp add: settings_ok_def part_frame_fields)

lemma lru_only_part_frame: "lru_only c c' \<Longrightarrow> part_frame c c'"
  unfolding lru_only_def part_frame_def
  by (elim exE) (rule exI, rule exI, rule exI [of _ "seg_list_info c"], rule exI [of _ "curr_size c"], simp)

lemma lru_only_refl [simp]: "lru_only c c"
  unfolding lru_only_def by (rule exI [of _ "seg_lru c"], rule exI [of _ "lru c"]) simp

lemma part_frame_refl [simp]: "part_frame c c"
  by (rule lru_only_part_frame) simp

lemma home_ok_moved:
  assumes ok: "lists_ok c L" and h: "home_ok c L" and x: "x < collision_table_entries c"
    and c': "collision_table_entries c' = collision_table_entries c" "\<And>y. y \<noteq> x \<Longrightarrow> home c' y = home c y"
      "\<And>y. y \<noteq> x \<Longrightarrow> part_of c' y = part_of c y" "part_of c' x \<le> PARTITION_FREELIST"
  shows "home_ok c' (moved L x (home c x) (home c' x))"
proof -
  have hx: "home c x \<in> lru_refs" "x \<in> set (L (home c x))" using h x by (auto simp: home_ok_def home_in_refs)
  note mem = moved_mem [OF ok hx]
  have "home c' y = r" if r: "r \<in> lru_refs" "y \<in> set (moved L x (home c x) (home c' x) r)" for r y
    using r mem [OF r(1)] h c'(2) by (auto simp: home_ok_def split: if_splits)
  moreover have "part_of c' y \<le> PARTITION_FREELIST \<and> y \<in> set (moved L x (home c x) (home c' x) (home c' y))"
    if "y < collision_table_entries c'" for y
  proof -
    have p: "part_of c' y \<le> PARTITION_FREELIST" using that h c' by (cases "y = x") (auto simp: home_ok_def)
    then show ?thesis using that h c' mem [OF home_in_refs [OF p]] by (auto simp: home_ok_def split: if_splits)
  qed
  ultimately show ?thesis by (simp add: home_ok_def)
qed

lemma lists_ok_cong:
  assumes "seg_lru c' = seg_lru c" "lru c' = lru c" "collision_table_entries c' = collision_table_entries c"
  shows "lists_ok c' L = lists_ok c L"
  using assms by (simp add: lists_ok_def lru_list.family_def lru_list_ok_def lru_rep_def)

lemma ocf_lru_repart_ok:
  assumes inv: "lru_inv c L" and x: "x < collision_table_entries c" and p: "part_of c x = src" "dst \<le> PARTITION_FREELIST"
  shows "\<exists>c'. ocf_lru_repart c x src dst = Some c' \<and> lru_inv c' (moved L x (home c x) (home c' x)) \<and>
    part_frame c c' \<and> (\<forall>y. part_of c' y = (if y = x then dst else part_of c y))"
proof -
  have i: "settings_ok c" "lists_ok c L" "home_ok c L" "sizes_ok c" using inv by (auto simp: lru_inv_def)
  have src: "src \<le> PARTITION_FREELIST" and hx: "home c x \<in> lru_refs" "x \<in> set (L (home c x))"
    using i(3) x p by (auto simp: home_ok_def home_in_refs)
  let ?clean = "secs Dirty c x = {}"
  let ?dst = "ocf_lru_get_list dst (x mod OCF_NUM_LRU_LISTS) ?clean"
  obtain c1 where m: "ocf_lru_move c x (home c x) ?dst = Some c1" "lists_ok c1 (moved L x (home c x) ?dst)" "lru_only c c1"
    using ocf_lru_move_ok [OF i(2) hx(1) get_list_in_refs [OF p(2)] hx(2)] by blast
  note f1 = lru_only_fields [OF m(3)]
  define info where "info = (seg_list_info c x)\<lparr>partition_id := ucast dst\<rparr>"
  define sz where "sz = (let s = (curr_size c)(src := curr_size c src - 1) in s(dst := s dst + 1))"
  define c' where "c' = c1\<lparr>seg_list_info := (seg_list_info c)(x := info), curr_size := sz\<rparr>"
  have r: "ocf_lru_repart c x src dst = Some c'"
    using m(1) x whole_line_tests(1) [OF i(1) x] p(1)
    by (simp add: ocf_lru_repart_def ocf_lru_repart_locked_def home_def ocf_metadata_set_partition_id_def
        f1 c'_def sz_def info_def Let_def)
  obtain f mm where "c1 = c\<lparr>seg_lru := f, lru := mm\<rparr>" using m(3) by (auto simp: lru_only_def)
  then have "c' = c\<lparr>seg_lru := f, lru := mm, seg_list_info := (seg_list_info c)(x := info), curr_size := sz\<rparr>"
    by (simp add: c'_def)
  then have fr: "part_frame c c'" unfolding part_frame_def by (force simp: info_def)
  have po: "part_of c' y = (if y = x then dst else part_of c y)" for y
    by (simp add: part_of_def c'_def info_def part_id_cast [OF p(2)])
  have hm: "home c' y = (if y = x then ?dst else home c y)" for y
    by (simp add: home_def po part_frame_secs [OF fr])
  have "sizes_ok c'"
    using i(4) x p src po f1 by (intro sizes_ok_move [of c x src dst c']) (simp_all add: c'_def sz_def)
  moreover have "home_ok c' (moved L x (home c x) (home c' x))"
    using i x hm po p(2) by (intro home_ok_moved) (simp_all add: c'_def f1)
  moreover have "lists_ok c' (moved L x (home c x) (home c' x))"
    using m(2) hm [of x] lists_ok_cong [of c' c1] by (simp add: c'_def)
  ultimately show ?thesis using r fr po i(1) by (simp add: lru_inv_def part_frame_settings)
qed


lemma get_partition_id_part_of:
  "x < collision_table_entries c \<Longrightarrow> ocf_metadata_get_partition_id c x = Some (part_of c x)"
  by (simp add: ocf_metadata_get_partition_id_def part_of_def)

lemma user_part_Some: "p \<le> OCF_USER_IO_CLASS_MAX \<Longrightarrow> user_part p = Some p"
  by (simp add: user_part_def)

lemma user_le_freelist: "p \<le> OCF_USER_IO_CLASS_MAX \<Longrightarrow> p \<le> PARTITION_FREELIST \<and> p \<noteq> PARTITION_FREELIST"
  by (auto simp: OCF_USER_IO_CLASS_MAX_def PARTITION_FREELIST_def word_le_nat_alt)

lemma ocf_lru_rm_cline_ok:
  assumes "lru_inv c L" "x < collision_table_entries c" "part_of c x \<le> OCF_USER_IO_CLASS_MAX"
  shows "\<exists>c'. ocf_lru_rm_cline c x = Some c' \<and> lru_inv c' (moved L x (home c x) (home c' x)) \<and>
    part_frame c c' \<and> (\<forall>y. part_of c' y = (if y = x then PARTITION_FREELIST else part_of c y))"
  using ocf_lru_repart_ok [OF assms(1,2) refl, of PARTITION_FREELIST] assms(2,3)
  by (simp add: ocf_lru_rm_cline_def get_partition_id_part_of user_part_Some)

lemma lru_rep_ends:
  assumes "lru_rep c l xs k" "x \<in> set xs"
  shows "lru_next (seg_lru c x) = end_marker \<Longrightarrow> tail l = x" "lru_prev (seg_lru c x) = end_marker \<Longrightarrow> head l = x"
proof -
  obtain ys zs where xs: "xs = ys @ x # zs" using assms(2) by (auto simp: in_set_conv_decomp)
  have dl: "dll (\<lambda>i. lru_next (seg_lru c i)) (\<lambda>i. lru_prev (seg_lru c i)) end_marker (ys @ x # zs) end_marker"
    and ht: "head l = dl_first (ys @ x # zs) end_marker" "tail l = dl_last (ys @ x # zs) end_marker"
    using assms(1) xs by (auto simp: lru_rep_def)
  have e: "end_marker \<notin> set ys" "end_marker \<notin> set zs" using lru_rep_end [OF assms(1)] xs by auto
  show "lru_next (seg_lru c x) = end_marker \<Longrightarrow> tail l = x"
    using dll_middle(1) [OF dl] dl_first_eq_end [OF e(2)] ht(2) by (simp add: dl_last_append)
  show "lru_prev (seg_lru c x) = end_marker \<Longrightarrow> head l = x"
    using dll_middle(2) [OF dl] dl_last_eq_end [OF e(1)] ht(1) by simp
qed

lemma lru_inv_reorder:
  assumes "lru_inv c L" "lru_only c c'" "lists_ok c' L'" "\<And>r. r \<in> lru_refs \<Longrightarrow> set (L' r) = set (L r)"
  shows "lru_inv c' L'"
  using assms home_in_refs [of c]
  by (auto simp: lru_inv_def home_ok_def sizes_ok_def lru_only_derived lru_only_fields)

lemma ocf_lru_hot_cline_ok:
  assumes inv: "lru_inv c L" and x: "x < collision_table_entries c" "part_of c x \<le> OCF_USER_IO_CLASS_MAX"
  shows "\<exists>c'. ocf_lru_hot_cline c x = Some c' \<and> lru_only c c' \<and>
    lru_inv c' (if lru_hot (seg_lru c x) then L else L(home c x := x # remove1 x (L (home c x))))"
proof (cases "lru_hot (seg_lru c x)")
  case True
  then show ?thesis using inv x by (auto simp: ocf_lru_hot_cline_def lru_only_def intro!: exI [of _ "seg_lru c"] exI [of _ "lru c"])
next
  case False
  have i: "settings_ok c" "lists_ok c L" "home_ok c L" using inv by (auto simp: lru_inv_def)
  have hx: "home c x \<in> lru_refs" "x \<in> set (L (home c x))" using i(3) x(1) by (auto simp: home_ok_def home_in_refs)
  obtain c' where r: "on_list ocf_lru_set_hot c (home c x) x = Some c'"
    "lists_ok c' (L(home c x := x # remove1 x (L (home c x))))" "lru_only c c'"
    using on_list_set_hot [OF i(2) hx] by blast
  have "lru_rep c (lru c (home c x)) (L (home c x)) (hot_target (lru c (home c x)) (L (home c x)))"
    using lists_ok_elem(1) [OF i(2) hx(1)] by (simp add: lru_list_ok_def)
  note ends = lru_rep_ends [OF this hx(2)]
  have "ocf_lru_hot_cline c x = Some c'"
    using r(1) False ends x whole_line_tests(1) [OF i(1) x(1)]
    by (auto simp: ocf_lru_hot_cline_def get_partition_id_part_of user_part_Some home_def Let_def)
  moreover have "lru_inv c' (L(home c x := x # remove1 x (L (home c x))))"
    using hx lists_ok_elem(2) [OF i(2) hx(1)] by (intro lru_inv_reorder [OF inv r(3,2)]) auto
  ultimately show ?thesis using r(3) False by auto
qed

lemma ocf_lru_clean_dirty_move:
  "ocf_lru_clean_cline c p x = ocf_lru_move c x (ocf_lru_get_list p (x mod OCF_NUM_LRU_LISTS) False)
     (ocf_lru_get_list p (x mod OCF_NUM_LRU_LISTS) True)"
  "ocf_lru_dirty_cline c p x = ocf_lru_move c x (ocf_lru_get_list p (x mod OCF_NUM_LRU_LISTS) True)
     (ocf_lru_get_list p (x mod OCF_NUM_LRU_LISTS) False)"
  by (simp_all add: ocf_lru_clean_cline_def ocf_lru_dirty_cline_def ocf_lru_move_def Let_def)


subsection \<open>Filling the free list\<close>

lemma next_phys_invalid_loop_ok:
  assumes "settings_ok c" "layout_ok c" "phys < collision_table_entries c"
    "left = unat (collision_table_entries c - phys)"
  shows "\<exists>p. next_phys_invalid_loop left c phys = Some p \<and> phys \<le> p \<and> p \<le> collision_table_entries c \<and>
    (\<forall>q. phys \<le> q \<and> q < p \<longrightarrow> secs Valid c (ocf_metadata_map_phy2lg c q) \<noteq> {}) \<and>
    (p < collision_table_entries c \<longrightarrow> secs Valid c (ocf_metadata_map_phy2lg c p) = {})"
  using assms(3,4)
proof (induction left arbitrary: phys)
  case 0
  then show ?case by (simp add: unat_eq_0)
next
  case (Suc left)
  let ?E = "collision_table_entries c"
  have lg: "ocf_metadata_map_phy2lg c phys < ?E" by (rule map_roundtrip(4) [OF assms(2) Suc.prems(1)])
  note t = whole_line_tests(2) [OF assms(1) lg]
  show ?case
  proof (cases "secs Valid c (ocf_metadata_map_phy2lg c phys) = {}")
    case True
    then show ?thesis using t Suc.prems(1) by auto
  next
    case False
    have n: "unat (phys + 1) = unat phys + 1"
      using Suc.prems(1) unsigned_less [of ?E, where ?'a = nat] by (subst unat_add_nowrap) (auto simp: word_less_nat_alt)
    have ge: "q = phys \<or> phys + 1 \<le> q" if "phys \<le> q" for q
      using that n by (auto simp: word_le_nat_alt word_unat_eq_iff)
    show ?thesis
    proof (cases "phys + 1 = ?E")
      case True
      then have "\<forall>q. phys \<le> q \<and> q < ?E \<longrightarrow> q = phys" using ge by (metis not_less)
      then show ?thesis using t False True Suc.prems(1) by auto
    next
      case ne: False
      have lt: "phys + 1 < ?E" using ne Suc.prems(1) n by (auto simp: word_less_nat_alt word_unat_eq_iff)
      have "left = unat (?E - (phys + 1))"
        using Suc.prems n lt by (simp add: unat_sub_nowrap word_less_nat_alt)
      from Suc.IH [OF lt this] obtain p where p: "next_phys_invalid_loop left c (phys + 1) = Some p" "phys + 1 \<le> p" "p \<le> ?E"
        "\<forall>q. phys + 1 \<le> q \<and> q < p \<longrightarrow> secs Valid c (ocf_metadata_map_phy2lg c q) \<noteq> {}"
        "p < ?E \<longrightarrow> secs Valid c (ocf_metadata_map_phy2lg c p) = {}" by blast
      have "phys \<le> p" using p(2) n by (simp add: word_le_nat_alt)
      then show ?thesis using p t False ne ge by (auto simp: Let_def)
    qed
  qed
qed

text \<open>The physical lines from \<open>phys\<close> on that hold no valid data.\<close>

definition invalid_from :: "('s :: len) ocf_cache \<Rightarrow> u32 \<Rightarrow> u32 set" where
  "invalid_from c phys = {q. phys \<le> q \<and> q < collision_table_entries c \<and> secs Valid c (ocf_metadata_map_phy2lg c q) = {}}"

lemma next_phys_invalid_ok:
  assumes "settings_ok c" "layout_ok c" "phys \<le> collision_table_entries c"
  shows "\<exists>p. next_phys_invalid c phys = Some p \<and>
    (if invalid_from c phys = {} then p = collision_table_entries c
     else p \<in> invalid_from c phys \<and> invalid_from c (p + 1) = invalid_from c phys - {p} \<and>
       p + 1 \<le> collision_table_entries c)"
proof (cases "phys = collision_table_entries c")
  case True
  then show ?thesis by (auto simp: next_phys_invalid_def invalid_from_def)
next
  case False
  let ?E = "collision_table_entries c"
  have lt: "phys < ?E" using False assms(3) by simp
  obtain p where p: "next_phys_invalid c phys = Some p" "phys \<le> p" "p \<le> ?E"
    "\<And>q. phys \<le> q \<Longrightarrow> q < p \<Longrightarrow> secs Valid c (ocf_metadata_map_phy2lg c q) \<noteq> {}"
    "p < ?E \<Longrightarrow> secs Valid c (ocf_metadata_map_phy2lg c p) = {}"
    using next_phys_invalid_loop_ok [OF assms(1,2) lt refl] False by (auto simp: next_phys_invalid_def)
  show ?thesis
  proof (cases "p = ?E")
    case True
    then have "invalid_from c phys = {}" using p(4) by (auto simp: invalid_from_def)
    then show ?thesis using p True by simp
  next
    case False
    then have pE: "p < ?E" using p(3) by simp
    have n: "unat (p + 1) = unat p + 1"
      using pE unsigned_less [of ?E, where ?'a = nat] by (subst unat_add_nowrap) (auto simp: word_less_nat_alt)
    have pq: "unat phys \<le> unat q \<Longrightarrow> secs Valid c (ocf_metadata_map_phy2lg c q) = {} \<Longrightarrow> unat p \<le> unat q" for q
      using p(4) [of q] by (fastforce simp: word_le_nat_alt word_less_nat_alt)
    have "q \<in> invalid_from c (p + 1) \<longleftrightarrow> q \<in> invalid_from c phys - {p}" for q
      using p(2) pq [of q] n
      by (auto simp: invalid_from_def word_le_nat_alt word_less_nat_alt word_unat_eq_iff)
    then have "invalid_from c (p + 1) = invalid_from c phys - {p}" by blast
    moreover have "p \<in> invalid_from c phys" using p(2,5) pE by (simp add: invalid_from_def)
    moreover have "p + 1 \<le> ?E" using pE n by (simp add: word_less_nat_alt word_le_nat_alt)
    ultimately show ?thesis using p(1) by auto
  qed
qed


lemma phy2lg_frame:
  assumes "part_frame c c'"
  shows "ocf_metadata_map_phy2lg c' q = ocf_metadata_map_phy2lg c q" "layout_ok c' = layout_ok c"
    "invalid_from c' p = invalid_from c p"
proof -
  show e: "ocf_metadata_map_phy2lg c' q = ocf_metadata_map_phy2lg c q" for q
    unfolding ocf_metadata_map_phy2lg_def ocf_metadata_map_phy2lg_striping_def ocf_metadata_map_phy2lg_seq_def
      part_frame_fields [OF assms] ..
  show "layout_ok c' = layout_ok c" using part_frame_fields [OF assms] by (simp add: layout_ok_def)
  show "invalid_from c' p = invalid_from c p"
    by (simp add: invalid_from_def e part_frame_secs [OF assms] part_frame_fields [OF assms])
qed

lemma part_frame_trans:
  assumes "part_frame c c'" "part_frame c' c''"
  shows "part_frame c c''"
proof -
  obtain f m g s where a: "c' = c\<lparr>seg_lru := f, lru := m, seg_list_info := g, curr_size := s\<rparr>"
    "\<forall>y. next_col (g y) = next_col (seg_list_info c y) \<and> prev_col (g y) = prev_col (seg_list_info c y)"
    using assms(1) by (auto simp: part_frame_def)
  obtain f' m' g' s' where b: "c'' = c'\<lparr>seg_lru := f', lru := m', seg_list_info := g', curr_size := s'\<rparr>"
    "\<forall>y. next_col (g' y) = next_col (seg_list_info c' y) \<and> prev_col (g' y) = prev_col (seg_list_info c' y)"
    using assms(2) by (auto simp: part_frame_def)
  have "c'' = c\<lparr>seg_lru := f', lru := m', seg_list_info := g', curr_size := s'\<rparr>" using a(1) b(1) by simp
  moreover have "\<forall>y. next_col (g' y) = next_col (seg_list_info c y) \<and> prev_col (g' y) = prev_col (seg_list_info c y)"
    using a b by simp
  ultimately show ?thesis unfolding part_frame_def by blast
qed

lemma set_partition_id_ok:
  assumes "x < collision_table_entries c" "p \<le> PARTITION_FREELIST"
  shows "\<exists>c'. ocf_metadata_set_partition_id c x p = Some c' \<and> part_frame c c' \<and> curr_size c' = curr_size c \<and>
    (\<forall>y. part_of c' y = (if y = x then p else part_of c y)) \<and> (\<forall>L. lists_ok c' L = lists_ok c L)"
proof -
  let ?g = "(seg_list_info c)(x := (seg_list_info c x)\<lparr>partition_id := ucast p\<rparr>)"
  have "part_frame c (c\<lparr>seg_list_info := ?g\<rparr>)"
    unfolding part_frame_def
    by (rule exI [of _ "seg_lru c"], rule exI [of _ "lru c"], rule exI [of _ ?g], rule exI [of _ "curr_size c"]) simp
  then show ?thesis
    using assms lists_ok_cong [of "c\<lparr>seg_list_info := ?g\<rparr>" c]
    by (simp add: ocf_metadata_set_partition_id_def part_of_def part_id_cast)
qed

text \<open>The free list that a line is put on.\<close>

abbreviation free_ref :: "u32 \<Rightarrow> lru_ref" where
  "free_ref x \<equiv> ocf_lru_get_list PARTITION_FREELIST (x mod OCF_NUM_LRU_LISTS) True"

lemma free_one_ok:
  assumes ok: "lists_ok c L" and x: "x < collision_table_entries c" "\<forall>r\<in>lru_refs. x \<notin> set (L r)"
  shows "\<exists>c1 c2. ocf_metadata_set_partition_id c x PARTITION_FREELIST = Some c1 \<and>
    on_list add_lru_head c1 (free_ref x) x = Some c2 \<and>
    lists_ok c2 (L(free_ref x := x # L (free_ref x))) \<and> part_frame c c2 \<and> curr_size c2 = curr_size c \<and>
    (\<forall>y. part_of c2 y = (if y = x then PARTITION_FREELIST else part_of c y))"
proof -
  obtain c1 where a: "ocf_metadata_set_partition_id c x PARTITION_FREELIST = Some c1" "part_frame c c1"
    "curr_size c1 = curr_size c" "\<forall>y. part_of c1 y = (if y = x then PARTITION_FREELIST else part_of c y)"
    "\<forall>L. lists_ok c1 L = lists_ok c L"
    using set_partition_id_ok [OF x(1), of PARTITION_FREELIST] by auto
  have "lists_ok c1 L" "x < collision_table_entries c1" using a x ok part_frame_fields(1) [OF a(2)] by auto
  then obtain c2 where b: "on_list add_lru_head c1 (free_ref x) x = Some c2"
    "lists_ok c2 (L(free_ref x := x # L (free_ref x)))" "lru_only c1 c2"
    using on_list_add [OF _ get_list_in_refs [OF order_refl] _ x(2)] by blast
  have "part_frame c c2" by (rule part_frame_trans [OF a(2) lru_only_part_frame [OF b(3)]])
  then show ?thesis using a b lru_only_fields(4) [OF b(3)] lru_only_derived(2) [OF b(3)] by auto
qed


lemma phy2lg_inj:
  assumes "layout_ok c"
  shows "inj_on (ocf_metadata_map_phy2lg c) {q. q < collision_table_entries c}"
  using map_roundtrip(3) [OF assms] by (metis (mono_tags, lifting) inj_onI mem_Collect_eq)

lemma populate_loop_ok:
  assumes "settings_ok c" "layout_ok c" "lists_ok c L" "phys \<le> collision_table_entries c"
    "n \<le> card (invalid_from c phys)"
    "\<forall>q\<in>invalid_from c phys. \<forall>r\<in>lru_refs. ocf_metadata_map_phy2lg c q \<notin> set (L r)"
  shows "\<exists>c' phys' L' S. populate_loop n c phys = Some (c', phys') \<and> lists_ok c' L' \<and> part_frame c c' \<and>
    curr_size c' = curr_size c \<and> phys' \<le> collision_table_entries c \<and> S \<subseteq> invalid_from c phys \<and> card S = n \<and>
    invalid_from c phys' = invalid_from c phys - S \<and>
    (\<forall>y. part_of c' y = (if y \<in> ocf_metadata_map_phy2lg c ` S then PARTITION_FREELIST else part_of c y)) \<and>
    (\<forall>r\<in>lru_refs. \<forall>y. y \<in> set (L' r) \<longleftrightarrow> y \<in> set (L r) \<or> (y \<in> ocf_metadata_map_phy2lg c ` S \<and> r = free_ref y))"
  using assms
proof (induction n arbitrary: c L phys)
  case 0
  then show ?case
    by (intro exI [of _ c] exI [of _ phys] exI [of _ L] exI [of _ "{}"]) simp
next
  case (Suc n)
  let ?lg = "ocf_metadata_map_phy2lg c" and ?E = "collision_table_entries c"
  have "invalid_from c phys \<noteq> {}" using Suc.prems(5) by auto
  then obtain p where p: "next_phys_invalid c phys = Some p" "p \<in> invalid_from c phys"
    "invalid_from c (p + 1) = invalid_from c phys - {p}" "p + 1 \<le> ?E"
    using next_phys_invalid_ok [OF Suc.prems(1,2,4)] by auto
  have pE: "p < ?E" using p(2) by (simp add: invalid_from_def)
  define x where "x = ?lg p"
  have x: "x < ?E" unfolding x_def by (rule map_roundtrip(4) [OF Suc.prems(2) pE])
  obtain c1 c2 where a: "ocf_metadata_set_partition_id c x PARTITION_FREELIST = Some c1"
    "on_list add_lru_head c1 (free_ref x) x = Some c2"
    "lists_ok c2 (L(free_ref x := x # L (free_ref x)))" "part_frame c c2" "curr_size c2 = curr_size c"
    "\<forall>y. part_of c2 y = (if y = x then PARTITION_FREELIST else part_of c y)"
    using free_one_ok [OF Suc.prems(3) x] Suc.prems(6) p(2) unfolding x_def by blast
  note pf = phy2lg_frame [OF a(4)] and ff = part_frame_fields [OF a(4)]
  have ne: "?lg q \<noteq> x" if "q \<in> invalid_from c phys - {p}" for q
    using that inj_onD [OF phy2lg_inj [OF Suc.prems(2)], of q p] pE by (auto simp: x_def invalid_from_def)
  have "card (invalid_from c phys - {p}) = card (invalid_from c phys) - 1" using p(2) by simp
  then have cd: "n \<le> card (invalid_from c2 (p + 1))" using Suc.prems(5) by (simp add: pf p(3))
  have fresh: "\<forall>q\<in>invalid_from c2 (p + 1). \<forall>r\<in>lru_refs. ocf_metadata_map_phy2lg c2 q \<notin> set ((L(free_ref x := x # L (free_ref x))) r)"
    using Suc.prems(6) ne by (auto simp: pf p(3))
  have pr: "settings_ok c2" "layout_ok c2" "p + 1 \<le> collision_table_entries c2"
    using Suc.prems(1,2) p(4) by (simp_all add: pf ff part_frame_settings [OF a(4)])
  obtain c' phys' L' S where r: "populate_loop n c2 (p + 1) = Some (c', phys')" "lists_ok c' L'" "part_frame c2 c'"
    "curr_size c' = curr_size c2" "phys' \<le> collision_table_entries c2" "S \<subseteq> invalid_from c2 (p + 1)" "card S = n"
    "invalid_from c2 phys' = invalid_from c2 (p + 1) - S"
    "\<forall>y. part_of c' y = (if y \<in> ocf_metadata_map_phy2lg c2 ` S then PARTITION_FREELIST else part_of c2 y)"
    "\<forall>r\<in>lru_refs. \<forall>y. y \<in> set (L' r) \<longleftrightarrow> y \<in> set ((L(free_ref x := x # L (free_ref x))) r) \<or> (y \<in> ocf_metadata_map_phy2lg c2 ` S \<and> r = free_ref y)"
    using Suc.IH [OF pr(1,2) a(3) pr(3) cd fresh] by blast
  have S: "S \<subseteq> invalid_from c phys - {p}" using r(6) by (simp add: pf p(3))
  have "populate_loop (Suc n) c phys = Some (c', phys')"
    using p(1) pE a(1,2) r(1) by (simp add: x_def Let_def)
  moreover have "card (insert p S) = Suc n" using S r(7) by (subst card_insert_disjoint) auto
  moreover have "invalid_from c phys' = invalid_from c phys - insert p S" using r(8) by (auto simp: pf p(3))
  moreover have "insert p S \<subseteq> invalid_from c phys" using S p(2) by auto
  moreover have "\<forall>y. part_of c' y = (if y \<in> ?lg ` insert p S then PARTITION_FREELIST else part_of c y)"
    using r(9) a(6) by (simp add: pf x_def)
  moreover have "\<forall>r\<in>lru_refs. \<forall>y. y \<in> set (L' r) \<longleftrightarrow> y \<in> set (L r) \<or> (y \<in> ?lg ` insert p S \<and> r = free_ref y)"
    using r(10) by (auto simp: pf x_def)
  ultimately show ?case
    using r(2,5) a(5) r(4) part_frame_trans [OF a(4) r(3)]
    by (intro exI [of _ c'] exI [of _ phys'] exI [of _ L'] exI [of _ "insert p S"]) (simp add: ff)
qed


definition invalid_lines :: "('s :: len) ocf_cache \<Rightarrow> u32 set" where
  "invalid_lines c = {x. x < collision_table_entries c \<and> secs Valid c x = {}}"

lemma invalid_lines_phys:
  assumes "layout_ok c"
  shows "ocf_metadata_map_phy2lg c ` invalid_from c 0 = invalid_lines c" "card (invalid_from c 0) = card (invalid_lines c)"
proof -
  show e: "ocf_metadata_map_phy2lg c ` invalid_from c 0 = invalid_lines c"
    using map_roundtrip [OF assms] by (force simp: invalid_from_def invalid_lines_def image_iff)
  have "inj_on (ocf_metadata_map_phy2lg c) (invalid_from c 0)"
    by (rule inj_on_subset [OF phy2lg_inj [OF assms]]) (auto simp: invalid_from_def)
  then show "card (invalid_from c 0) = card (invalid_lines c)" by (metis e card_image)
qed

text \<open>A cache before its free list is filled: the lines with valid data are on the lists of their
  user partitions and counted there, the others are on no list.\<close>

definition loaded_ok :: "('s :: len) ocf_cache \<Rightarrow> (lru_ref \<Rightarrow> u32 list) \<Rightarrow> bool" where
  "loaded_ok c L \<longleftrightarrow> settings_ok c \<and> layout_ok c \<and> lists_ok c L \<and>
     (\<forall>r\<in>lru_refs. \<forall>x\<in>set (L r). x \<notin> invalid_lines c \<and> home c x = r) \<and>
     (\<forall>x < collision_table_entries c. x \<notin> invalid_lines c \<longrightarrow>
        part_of c x \<le> OCF_USER_IO_CLASS_MAX \<and> x \<in> set (L (home c x))) \<and>
     (\<forall>p \<le> OCF_USER_IO_CLASS_MAX. unat (curr_size c p) = card (part_lines c p - invalid_lines c))"

lemma le_freelist_cases: "p \<le> PARTITION_FREELIST \<longleftrightarrow> p \<le> OCF_USER_IO_CLASS_MAX \<or> p = PARTITION_FREELIST"
  by (auto simp: OCF_USER_IO_CLASS_MAX_def PARTITION_FREELIST_def word_le_nat_alt word_unat_eq_iff)

lemma ocf_lru_populate_ok:
  assumes ok: "loaded_ok c L" and num: "unat num = card (invalid_lines c)"
  shows "\<exists>c' L'. ocf_lru_populate c num = Some c' \<and> lru_inv c' L' \<and> part_frame c c' \<and>
    part_lines c' PARTITION_FREELIST = invalid_lines c \<and> ocf_lru_num_free c' = num"
proof -
  let ?E = "collision_table_entries c" and ?lg = "ocf_metadata_map_phy2lg c" and ?I = "invalid_lines c"
  have i: "settings_ok c" "layout_ok c" "lists_ok c L" using ok by (auto simp: loaded_ok_def)
  note ph = invalid_lines_phys [OF i(2)]
  have n0: "\<forall>q\<in>invalid_from c 0. \<forall>r\<in>lru_refs. ?lg q \<notin> set (L r)"
    using ok ph(1) by (fastforce simp: loaded_ok_def)
  obtain c' phys' L' S where r: "populate_loop (unat num) c 0 = Some (c', phys')" "lists_ok c' L'" "part_frame c c'"
    "curr_size c' = curr_size c" "phys' \<le> ?E" "S \<subseteq> invalid_from c 0" "card S = unat num"
    "invalid_from c phys' = invalid_from c 0 - S"
    "\<forall>y. part_of c' y = (if y \<in> ?lg ` S then PARTITION_FREELIST else part_of c y)"
    "\<forall>r\<in>lru_refs. \<forall>y. y \<in> set (L' r) \<longleftrightarrow> y \<in> set (L r) \<or> (y \<in> ?lg ` S \<and> r = free_ref y)"
    using populate_loop_ok [OF i(1,2,3) _ _ n0, of "unat num"] ph(2) num by auto
  have "S = invalid_from c 0" using r(6,7) num ph(2) by (intro card_subset_eq) auto
  then have S: "?lg ` S = ?I" "invalid_from c phys' = {}" using ph(1) r(8) by auto
  note ff = part_frame_fields [OF r(3)] and pf = phy2lg_frame [OF r(3)]
  have "next_phys_invalid c' phys' = Some ?E"
    using next_phys_invalid_ok [of c' phys'] r(5) i S(2) by (auto simp: pf ff part_frame_settings [OF r(3)])
  define d where "d = c'\<lparr>curr_size := (curr_size c')(PARTITION_FREELIST := num)\<rparr>"
  have res: "ocf_lru_populate c num = Some d"
    using r(1) \<open>next_phys_invalid c' phys' = _\<close> by (simp add: ocf_lru_populate_def d_def ff)
  have po: "part_of d y = (if y \<in> ?I then PARTITION_FREELIST else part_of c y)" for y
    using r(9) by (simp add: d_def part_of_def S)
  have sd: "secs w d y = secs w c y" "collision_table_entries d = ?E" for w y
    by (cases w; simp add: secs_def d_def ff)+
  have hm: "home d y = (if y \<in> ?I then free_ref y else home c y)" for y
    by (simp add: home_def po sd ocf_lru_get_list_def)
  have "part_lines d p = (if p = PARTITION_FREELIST then ?I else part_lines c p - ?I)" if "p \<le> PARTITION_FREELIST" for p
    using ok that user_le_freelist by (auto simp: part_lines_def po sd loaded_ok_def invalid_lines_def)
  note pl = this
  have "sizes_ok d"
    using ok num r(4) pl by (auto simp: sizes_ok_def d_def le_freelist_cases loaded_ok_def dest: user_le_freelist)
  moreover have "lists_ok d L'" using r(2) by (simp add: d_def lists_ok_cong [of "c'\<lparr>curr_size := s\<rparr>" c' for s])
  moreover have "home_ok d L'"
    using ok r(10) hm home_in_refs [of c] get_list_in_refs [of PARTITION_FREELIST]
    by (auto simp: home_ok_def S sd po loaded_ok_def le_freelist_cases split: if_splits)
  moreover have "part_frame c' d"
    unfolding part_frame_def d_def
    by (rule exI [of _ "seg_lru c'"], rule exI [of _ "lru c'"], rule exI [of _ "seg_list_info c'"],
        rule exI [of _ "(curr_size c')(PARTITION_FREELIST := num)"]) simp
  ultimately show ?thesis
    using res pl [OF order_refl] i(1) part_frame_trans [OF r(3)] part_frame_settings [of c d]
    by (intro exI [of _ d] exI [of _ L']) (auto simp: lru_inv_def ocf_lru_num_free_def d_def)
qed


subsection \<open>Initialisation\<close>

lemma init_fold:
  assumes "n \<le> 32"
  shows "foldl (\<lambda>m i. if part = PARTITION_FREELIST then m(ocf_lru_get_list part (of_nat i) True := lru_list_init False)
      else (m(ocf_lru_get_list part (of_nat i) True := lru_list_init True))
             (ocf_lru_get_list part (of_nat i) False := lru_list_init True)) m [0..<n] (p, i, clean) =
    (if p = part \<and> unat i < n \<and> (p = PARTITION_FREELIST \<longrightarrow> clean) then lru_list_init (p \<noteq> PARTITION_FREELIST) else m (p, i, clean))"
  using assms
proof (induction n)
  case 0
  then show ?case by simp
next
  case (Suc n)
  have "unat (of_nat n :: u32) = n" using Suc.prems by (simp add: unat_of_nat_u32)
  then have "i = of_nat n \<longleftrightarrow> unat i = n" by (metis word_unat_eq_iff)
  then show ?case
    using Suc by (cases clean) (auto simp: ocf_lru_get_list_def less_Suc_eq)
qed

lemma ocf_lru_init_lru:
  "lru (ocf_lru_init c part) (p, i, clean) =
    (if p = part \<and> i < OCF_NUM_LRU_LISTS \<and> (p = PARTITION_FREELIST \<longrightarrow> clean)
     then lru_list_init (p \<noteq> PARTITION_FREELIST) else lru c (p, i, clean))"
  using init_fold [of 32 part "lru c" p i clean]
  by (simp add: ocf_lru_init_def OCF_NUM_LRU_LISTS_def word_less_nat_alt Let_def cong: if_cong)

lemma init_all_lru:
  "lru (foldl ocf_lru_init c ps) (p, i, clean) =
    (if p \<in> set ps \<and> i < OCF_NUM_LRU_LISTS \<and> (p = PARTITION_FREELIST \<longrightarrow> clean)
     then lru_list_init (p \<noteq> PARTITION_FREELIST) else lru c (p, i, clean))"
  by (induction ps arbitrary: c) (auto simp: ocf_lru_init_lru)

lemma init_all_sizes:
  "p \<in> set ps \<Longrightarrow> curr_size (foldl ocf_lru_init c ps) p = 0"
proof -
  have z: "curr_size c p = 0 \<Longrightarrow> curr_size (foldl ocf_lru_init c ps) p = 0" for c ps
    by (induction ps arbitrary: c) (simp_all add: ocf_lru_init_def Let_def)
  show "p \<in> set ps \<Longrightarrow> curr_size (foldl ocf_lru_init c ps) p = 0"
    by (induction ps arbitrary: c) (auto intro: z simp: ocf_lru_init_def Let_def)
qed

lemma init_frame:
  "collision_table_entries (ocf_lru_init c p) = collision_table_entries c"
  "settings_ok (ocf_lru_init c p) = settings_ok c" "layout_ok (ocf_lru_init c p) = layout_ok c"
  "seg_collision (ocf_lru_init c p) = seg_collision c" "seg_hash (ocf_lru_init c p) = seg_hash c"
  "hash_table_entries (ocf_lru_init c p) = hash_table_entries c" "size (ocf_lru_init c p) = size c"
  "cached_clines (ocf_lru_init c p) = cached_clines c" "part_cached_clines (ocf_lru_init c p) = part_cached_clines c"
  "dirty_clines (ocf_lru_init c p) = dirty_clines c" "part_dirty_clines (ocf_lru_init c p) = part_dirty_clines c"
  by (simp_all add: ocf_lru_init_def Let_def settings_ok_def layout_ok_def)

lemma init_all_frame:
  "collision_table_entries (foldl ocf_lru_init c ps) = collision_table_entries c"
  "settings_ok (foldl ocf_lru_init c ps) = settings_ok c" "layout_ok (foldl ocf_lru_init c ps) = layout_ok c"
  "seg_collision (foldl ocf_lru_init c ps) = seg_collision c" "seg_hash (foldl ocf_lru_init c ps) = seg_hash c"
  "hash_table_entries (foldl ocf_lru_init c ps) = hash_table_entries c" "size (foldl ocf_lru_init c ps) = size c"
  "cached_clines (foldl ocf_lru_init c ps) = cached_clines c" "part_cached_clines (foldl ocf_lru_init c ps) = part_cached_clines c"
  "dirty_clines (foldl ocf_lru_init c ps) = dirty_clines c" "part_dirty_clines (foldl ocf_lru_init c ps) = part_dirty_clines c"
  by (induction ps arbitrary: c) (simp_all add: init_frame)

lemma init_all_loaded:
  assumes "settings_ok c" "layout_ok c" "\<forall>x < collision_table_entries c. secs Valid c x = {}"
    "set ps = {p. p \<le> PARTITION_FREELIST}"
  shows "loaded_ok (foldl ocf_lru_init c ps) (\<lambda>_. [])"
proof -
  let ?d = "foldl ocf_lru_init c ps"
  have "invalid_lines ?d = {x. x < collision_table_entries c}"
    using assms(3) by (auto simp: invalid_lines_def secs_def init_all_frame)
  then have "part_lines ?d p - invalid_lines ?d = {}" for p by (auto simp: part_lines_def init_all_frame)
  moreover have "lists_ok ?d (\<lambda>_. [])"
    using assms(4) by (auto simp: lists_ok_def lru_list.family_def lru_list_ok_def lru_refs_def init_all_lru
        hot_target_def lru_list_init_def lru_rep_def)
  moreover have "\<forall>p \<le> OCF_USER_IO_CLASS_MAX. curr_size ?d p = 0"
    using assms(4) by (auto dest: user_le_freelist intro!: init_all_sizes)
  ultimately show ?thesis
    using assms(1,2) \<open>invalid_lines ?d = _\<close> by (auto simp: loaded_ok_def init_all_frame)
qed


lemma start_ok:
  assumes "settings_ok c" "layout_ok c" "\<forall>x < collision_table_entries c. secs Valid c x = {}"
    "set ps = {p. p \<le> PARTITION_FREELIST}"
  shows "\<exists>c' L. ocf_lru_populate (foldl ocf_lru_init c ps) (collision_table_entries c) = Some c' \<and> lru_inv c' L \<and>
    (\<forall>x < collision_table_entries c. part_of c' x = PARTITION_FREELIST) \<and>
    ocf_lru_num_free c' = collision_table_entries c \<and> collision_table_entries c' = collision_table_entries c \<and>
    part_frame (foldl ocf_lru_init c ps) c'"
proof -
  let ?d = "foldl ocf_lru_init c ps" and ?E = "collision_table_entries c"
  have "invalid_lines ?d = {x. x < ?E}"
    using assms(3) by (auto simp: invalid_lines_def secs_def init_all_frame)
  then have "unat ?E = card (invalid_lines ?d)" by (simp add: card_below)
  from ocf_lru_populate_ok [OF init_all_loaded [OF assms] this]
  obtain c' L where c': "ocf_lru_populate ?d ?E = Some c'" "lru_inv c' L" "part_frame ?d c'" "part_lines c' PARTITION_FREELIST = {x. x < ?E}"
    "ocf_lru_num_free c' = ?E" using \<open>invalid_lines ?d = _\<close> by auto
  then show ?thesis using part_frame_fields(1) [OF c'(3)]
    by (intro exI [of _ c'] exI [of _ L]) (auto simp: part_lines_def init_all_frame set_eq_iff)
qed

subsection \<open>Uses of lines\<close>

text \<open>What a use does to a list: a line of its hot half stays where it is, any other goes to the head.\<close>

definition use_line :: "u32 list \<Rightarrow> u32 \<Rightarrow> u32 list" where
  "use_line xs x = (if x \<in> set (take (length xs div 2) xs) then xs else x # remove1 x xs)"

fun use_lines :: "('s :: len) ocf_cache \<Rightarrow> u32 list \<Rightarrow> 's ocf_cache option" where
  "use_lines cache [] = Some cache"
| "use_lines cache (x # xs) = do { cache \<leftarrow> ocf_lru_hot_cline cache x; use_lines cache xs }"

lemma hot_cline_use:
  assumes inv: "lru_inv c L" and x: "x < collision_table_entries c" "part_of c x \<le> OCF_USER_IO_CLASS_MAX"
  shows "\<exists>c'. ocf_lru_hot_cline c x = Some c' \<and> lru_only c c' \<and> lru_inv c' (L(home c x := use_line (L (home c x)) x))"
proof -
  have i: "lists_ok c L" "home_ok c L" using inv by (auto simp: lru_inv_def)
  have hx: "home c x \<in> lru_refs" "x \<in> set (L (home c x))" using i(2) x(1) by (auto simp: home_ok_def home_in_refs)
  have "track_hot (lru c (home c x))" using i(1) hx(1) x(2) user_le_freelist [OF x(2)] by (auto simp: lists_ok_def home_def ocf_lru_get_list_def)
  moreover have "lru_rep c (lru c (home c x)) (L (home c x)) (hot_target (lru c (home c x)) (L (home c x)))"
    using lists_ok_elem(1) [OF i(1) hx(1)] by (simp add: lru_list_ok_def)
  ultimately have "lru_hot (seg_lru c x) \<longleftrightarrow> x \<in> set (take (length (L (home c x)) div 2) (L (home c x)))" using hx(2) by (simp add: lru_rep_def hot_target_def)
  then show ?thesis using ocf_lru_hot_cline_ok [OF assms] by (auto simp: use_line_def)
qed

lemma use_lines_ok:
  "lru_inv c L \<Longrightarrow> \<forall>x\<in>set ts. x < collision_table_entries c \<and> part_of c x \<le> OCF_USER_IO_CLASS_MAX \<Longrightarrow>
   \<exists>c'. use_lines c ts = Some c' \<and> lru_only c c' \<and> lru_inv c' (\<lambda>r. foldl use_line (L r) (filter (\<lambda>x. home c x = r) ts))"
proof (induction ts arbitrary: c L)
  case (Cons t ts)
  obtain c1 where c1: "ocf_lru_hot_cline c t = Some c1" "lru_only c c1" "lru_inv c1 (L(home c t := use_line (L (home c t)) t))"
    using hot_cline_use [OF Cons.prems(1)] Cons.prems(2) by auto
  note d = lru_only_derived [OF c1(2)] lru_only_fields(1) [OF c1(2)]
  obtain c2 where c2: "use_lines c1 ts = Some c2" "lru_only c1 c2"
    "lru_inv c2 (\<lambda>r. foldl use_line ((L(home c t := use_line (L (home c t)) t)) r) (filter (\<lambda>x. home c1 x = r) ts))"
    using Cons.IH [OF c1(3)] Cons.prems(2) d by auto
  have "(\<lambda>r. foldl use_line ((L(home c t := use_line (L (home c t)) t)) r) (filter (\<lambda>x. home c1 x = r) ts)) =
      (\<lambda>r. foldl use_line (L r) (filter (\<lambda>x. home c x = r) (t # ts)))" by (auto simp: fun_eq_iff d)
  then show ?case using c1(1) c2 lru_only_trans [OF c1(2) c2(2)] by simp
qed simp

text \<open>Another use moves a line back by at most one place.\<close>

lemma take_remove1: "x \<in> set (take p xs) \<Longrightarrow> x \<noteq> y \<Longrightarrow> x \<in> set (take p (remove1 y xs))"
proof (induction xs arbitrary: p)
  case (Cons z zs)
  then obtain q where p: "p = Suc q" by (cases p) auto
  show ?case
  proof (cases "z = y")
    case True
    then have "x \<in> set (take q zs)" using Cons.prems p by simp
    then show ?thesis using True p by (auto dest: in_set_takeD simp: take_Suc_conv_app_nth) (metis in_mono le_SucI order_refl set_take_subset_set_take)
  qed (use Cons p in auto)
qed simp

lemma use_line_simps:
  assumes "x \<in> set xs" "distinct xs"
  shows "length (use_line xs x) = length xs" "set (use_line xs x) = set xs" "distinct (use_line xs x)"
proof -
  have "0 < length xs" using assms(1) by (cases xs) auto
  then show "length (use_line xs x) = length xs" using assms(1) by (simp add: use_line_def length_remove1)
qed (use assms in \<open>auto simp: use_line_def\<close>)

lemma use_line_moves: "x \<in> set (take p xs) \<Longrightarrow> x \<in> set (take (Suc p) (use_line xs y))"
  using take_remove1 [of x p xs y] set_take_subset_set_take [of p "Suc p" xs] by (auto simp: use_line_def)

lemma uses_simps:
  "set us \<subseteq> set xs \<Longrightarrow> distinct xs \<Longrightarrow> length (foldl use_line xs us) = length xs \<and> set (foldl use_line xs us) = set xs \<and> distinct (foldl use_line xs us)"
  by (induction us arbitrary: xs) (simp_all add: use_line_simps)

lemma uses_move: "x \<in> set (take p xs) \<Longrightarrow> x \<in> set (take (p + length us) (foldl use_line xs us))"
  using use_line_moves by (induction us arbitrary: p xs) (fastforce+)

lemma recent_not_last:
  assumes d: "distinct xs" and n: "1 < length xs" and us: "set us \<subseteq> set xs" and x: "x \<in> set (drop (length us - (length xs - length xs div 2)) us)"
  shows "last (foldl use_line xs us) \<noteq> x"
proof -
  let ?m = "length us - (length xs - length xs div 2)"
  obtain as bs where s: "drop ?m us = as @ x # bs" using x by (auto simp: in_set_conv_decomp)
  define vs where "vs = take ?m us @ as"
  have us': "us = vs @ x # bs" unfolding vs_def append_assoc append_Cons [symmetric] s [symmetric] by (rule append_take_drop_id [symmetric])
  have "length (drop ?m us) \<le> length xs - length xs div 2" by simp
  then have b: "length bs < length xs - length xs div 2" unfolding s by simp
  let ?ys = "foldl use_line xs vs"
  have ys: "length ?ys = length xs" "set ?ys = set xs" "distinct ?ys" using uses_simps [of vs xs] us d unfolding us' by auto
  have "x \<in> set (take (length xs div 2) (use_line ?ys x))" using n ys(1) by (cases "length xs div 2") (auto simp: use_line_def)
  then have t: "x \<in> set (take (length xs div 2 + length bs) (foldl use_line xs us))" using uses_move unfolding us' by fastforce
  let ?zs = "foldl use_line xs us"
  have zs: "length ?zs = length xs" "distinct ?zs" using uses_simps [OF us d] by auto
  have le: "length xs div 2 + length bs \<le> length xs - 1" using b by linarith
  have "x \<in> set (butlast ?zs)" using t zs(1) le set_take_subset_set_take [of "length xs div 2 + length bs" "length xs - 1" ?zs]
    by (auto simp: butlast_conv_take)
  moreover have "?zs = butlast ?zs @ [last ?zs]" using n zs(1) by (intro append_butlast_last_id [symmetric]) auto
  then have "last ?zs \<notin> set (butlast ?zs)" using zs(2) by (metis distinct_append disjoint_insert(1) list.simps(15))
  ultimately show ?thesis by blast
qed

subsection \<open>Properties\<close>

text \<open>
  C22. Any sequence of uses of cached lines ends without a bug check and keeps the invariant of the lists.  It changes each list as its uses do one
  by one: a line that is in the hot half of its list is left where it is, any other line is moved to the head.  Though the lists are
  therefore not in the order of last use, the tail of a list of \<open>n\<close> lines, which is the first to be evicted, is never one
  of the lines of its last \<open>n - n div 2\<close> uses.
\<close>
theorem recently_used_not_evicted:
  assumes "lru_inv c L" "\<forall>x\<in>set ts. x < collision_table_entries c \<and> part_of c x \<le> OCF_USER_IO_CLASS_MAX"
  shows "\<exists>c'. use_lines c ts = Some c' \<and> lru_inv c' (\<lambda>r. foldl use_line (L r) (filter (\<lambda>x. home c x = r) ts)) \<and>
    (\<forall>r\<in>lru_refs. 1 < length (L r) \<longrightarrow>
      (let us = filter (\<lambda>x. home c x = r) ts in tail (lru c' r) \<notin> set (drop (length us - (length (L r) - length (L r) div 2)) us)))"
proof -
  let ?us = "\<lambda>r. filter (\<lambda>x. home c x = r) ts" and ?L = "\<lambda>r. foldl use_line (L r) (filter (\<lambda>x. home c x = r) ts)"
  obtain c' where c': "use_lines c ts = Some c'" "lru_inv c' ?L" using use_lines_ok [OF assms] by blast
  have "tail (lru c' r) \<notin> set (drop (length (?us r) - (length (L r) - length (L r) div 2)) (?us r))" if r: "r \<in> lru_refs" and n: "1 < length (L r)" for r
  proof -
    have ok: "lru_list_ok c (lru c r) (L r)" "lru_list_ok c' (lru c' r) (?L r)"
      using assms(1) c'(2) r by (auto simp: lru_inv_def lists_ok_def lru_list.family_def)
    have d: "distinct (L r)" using ok(1) by (simp add: lru_list_ok_def lru_rep_def)
    have us: "set (?us r) \<subseteq> set (L r)" using assms by (auto simp: lru_inv_def home_ok_def)
    have "?L r \<noteq> []" using uses_simps [OF us d] n by auto
    then have "tail (lru c' r) = last (?L r)" using ok(2) by (simp add: lru_list_ok_def lru_rep_def dl_last_neq)
    then show ?thesis using recent_not_last [OF d n us] by auto
  qed
  then show ?thesis using c' by (intro exI [of _ c']) (simp add: Let_def)
qed

text \<open>
  C14. Moving a line to another partition keeps the invariant of the lists: every line is on
  exactly the list that its partition, its index and its dirty bits ask for, all lists are
  well-formed, and the sizes of the partitions are the numbers of their lines.  It does not touch
  the hash table, the status bits or the counters of the cores.
\<close>
theorem repart_keeps_lists:
  assumes "lru_inv c L" "x < collision_table_entries c" "dst \<le> PARTITION_FREELIST"
  shows "\<exists>c'. ocf_lru_repart c x (part_of c x) dst = Some c' \<and>
    lru_inv c' (moved L x (home c x) (home c' x)) \<and> part_of c' x = dst \<and> part_frame c c'"
  using ocf_lru_repart_ok [OF assms(1,2) refl assms(3)] by auto

text \<open>
  C23. Starting a cache: initialise the lists of all partitions, in any order, and populate the free
  list with all lines, none of which holds valid data.  The population loop ends without a bug
  check, the invariant holds, and every line is on the free list.
\<close>
theorem start_fills_free_list:
  assumes "settings_ok c" "layout_ok c" "\<forall>x < collision_table_entries c. secs Valid c x = {}"
    "set ps = {p. p \<le> PARTITION_FREELIST}"
  shows "\<exists>c' L. ocf_lru_populate (foldl ocf_lru_init c ps) (collision_table_entries c) = Some c' \<and> lru_inv c' L \<and>
    (\<forall>x < collision_table_entries c. part_of c' x = PARTITION_FREELIST) \<and>
    ocf_lru_num_free c' = collision_table_entries c"
  using start_ok [OF assms] by blast

definition all_parts :: "u16 list" where
  "all_parts = map of_nat [0..<35]"

lemma all_parts_set: "set all_parts = {p. p \<le> PARTITION_FREELIST}"
proof (intro equalityI subsetI)
  fix p assume "p \<in> set all_parts"
  then obtain i where "i < 35" "p = of_nat i" by (auto simp: all_parts_def)
  then show "p \<in> {p. p \<le> PARTITION_FREELIST}"
    by (simp add: PARTITION_FREELIST_def OCF_USER_IO_CLASS_MAX_def word_le_nat_alt unat_of_nat take_bit_nat_eq_self)
next
  fix p :: u16 assume "p \<in> {p. p \<le> PARTITION_FREELIST}"
  then have "unat p < 35" by (simp add: PARTITION_FREELIST_def OCF_USER_IO_CLASS_MAX_def word_le_nat_alt)
  then show "p \<in> set all_parts" by (auto simp: all_parts_def intro!: image_eqI [of _ _ "unat p"])
qed

lemma lru_cache0_start:
  "settings_ok lru_cache0" "layout_ok lru_cache0" "\<forall>x < collision_table_entries lru_cache0. secs Valid lru_cache0 x = {}"
  by (simp_all add: settings_ok_def layout_ok_def lru_cache0_def secs_def)

theorem start_fills_free_list_witness:
  "\<exists>c'. ocf_lru_populate (foldl ocf_lru_init lru_cache0 all_parts) (collision_table_entries lru_cache0) = Some c' \<and>
     part_of c' 3 = PARTITION_FREELIST \<and> ocf_lru_num_free c' = 10"
  using start_fills_free_list [OF lru_cache0_start all_parts_set] by (auto simp: lru_cache0_def)

lemma started: "\<exists>(c :: 8 ocf_cache) L. lru_inv c L \<and> collision_table_entries c = 10 \<and> part_of c 3 = 5"
proof -
  obtain c :: "8 ocf_cache" and L where a: "lru_inv c L" "collision_table_entries c = collision_table_entries lru_cache0"
    using start_ok [OF lru_cache0_start all_parts_set] by blast
  have x: "3 < collision_table_entries c" "5 \<le> PARTITION_FREELIST"
    using a(2) by (simp_all add: lru_cache0_def PARTITION_FREELIST_def OCF_USER_IO_CLASS_MAX_def)
  obtain c' where c': "lru_inv c' (moved L 3 (home c 3) (home c' 3))" "part_frame c c'" "part_of c' 3 = 5"
    using ocf_lru_repart_ok [OF a(1) x(1) refl x(2)] by auto
  then have "collision_table_entries c' = 10" using a(2) part_frame_fields(1) [OF c'(2)] by (simp add: lru_cache0_def)
  then show ?thesis using c' by blast
qed

theorem repart_keeps_lists_witness:
  "\<exists>(c :: 8 ocf_cache) c'. ocf_lru_repart c 3 (part_of c 3) 7 = Some c' \<and> part_of c' 3 = 7"
proof -
  obtain c :: "8 ocf_cache" and L where "lru_inv c L" "collision_table_entries c = 10" using started by blast
  then show ?thesis
    using repart_keeps_lists [of c L 3 7] by (auto simp: PARTITION_FREELIST_def OCF_USER_IO_CLASS_MAX_def)
qed

definition lru_cache1 :: "8 ocf_cache" where
  "lru_cache1 = lru_cache0\<lparr>collision_table_entries := 100, ssd_pages := 25\<rparr>"

lemma lru_cache1_start:
  "settings_ok lru_cache1" "layout_ok lru_cache1" "\<forall>x < collision_table_entries lru_cache1. secs Valid lru_cache1 x = {}"
  by (simp_all add: settings_ok_def layout_ok_def lru_cache0_def lru_cache1_def secs_def)

text \<open>Two lines of one list.\<close>

lemma two_lines: "\<exists>(c :: 8 ocf_cache) L. lru_inv c L \<and> collision_table_entries c = 100 \<and> part_of c 3 = 5 \<and> part_of c 35 = 5 \<and> home c 35 = home c 3"
proof -
  obtain c :: "8 ocf_cache" and L where a: "lru_inv c L" "collision_table_entries c = 100" "part_frame (foldl ocf_lru_init lru_cache1 all_parts) c"
    using start_ok [OF lru_cache1_start all_parts_set] by (auto simp: lru_cache1_def)
  have x: "3 < collision_table_entries c" "35 < collision_table_entries c" "5 \<le> PARTITION_FREELIST"
    using a(2) by (simp_all add: PARTITION_FREELIST_def OCF_USER_IO_CLASS_MAX_def)
  obtain c1 L1 where c1: "lru_inv c1 L1" "part_frame c c1" "part_of c1 3 = 5"
    using ocf_lru_repart_ok [OF a(1) x(1) refl x(3)] by auto
  have e1: "collision_table_entries c1 = collision_table_entries c" using part_frame_fields(1) [OF c1(2)] by simp
  obtain c2 L2 where c2: "lru_inv c2 L2" "part_frame c1 c2" "\<And>y. part_of c2 y = (if y = 35 then 5 else part_of c1 y)"
    using ocf_lru_repart_ok [OF c1(1) x(2) [folded e1] refl x(3)] by auto
  have "secs Dirty c2 y = {}" for y
    unfolding part_frame_secs [OF c2(2)] part_frame_secs [OF c1(2)] part_frame_secs [OF a(3)] by (simp add: secs_def init_all_frame lru_cache1_def lru_cache0_def)
  then have "home c2 35 = home c2 3" using c2(3) c1(3) by (simp add: home_def OCF_NUM_LRU_LISTS_def)
  then show ?thesis using c2 c1(3) a(2) e1 part_frame_fields(1) [OF c2(2)] by (intro exI [of _ c2] exI [of _ L2]) simp
qed

theorem recently_used_not_evicted_witness:
  "\<exists>(c :: 8 ocf_cache) c'. use_lines c [35, 3] = Some c' \<and> home c 35 = home c 3 \<and> tail (lru c' (home c 3)) \<noteq> 3"
proof -
  obtain c :: "8 ocf_cache" and L where c: "lru_inv c L" "collision_table_entries c = 100" "part_of c 3 = 5" "part_of c 35 = 5" "home c 35 = home c 3" using two_lines by blast
  let ?r = "home c 3"
  have u: "\<forall>x\<in>set [35, 3]. x < collision_table_entries c \<and> part_of c x \<le> OCF_USER_IO_CLASS_MAX" using c by (simp add: OCF_USER_IO_CLASS_MAX_def)
  have h: "home_ok c L" "lists_ok c L" using c(1) by (auto simp: lru_inv_def)
  have "part_of c 3 \<le> PARTITION_FREELIST" using h(1) c(2) by (simp add: home_ok_def)
  then have r: "?r \<in> lru_refs" by (rule home_in_refs)
  have "3 \<in> set (L ?r)" "35 \<in> set (L ?r)" using h(1) c(2,5) by (auto simp: home_ok_def dest!: spec [of _ 35])
  then have "card {3, 35 :: u32} \<le> card (set (L ?r))" by (intro card_mono) auto
  then have n: "1 < length (L ?r)" using card_length [of "L ?r"] by simp
  obtain c' where c': "use_lines c [35, 3] = Some c'"
    "tail (lru c' ?r) \<notin> set (drop (length [35, 3 :: u32] - (length (L ?r) - length (L ?r) div 2)) [35, 3])"
    using recently_used_not_evicted [OF c(1) u] r n c(5) by (auto simp: Let_def)
  have "3 \<in> set (drop (length [35, 3 :: u32] - (length (L ?r) - length (L ?r) div 2)) [35, 3])"
    using n by (cases "length (L ?r) - length (L ?r) div 2") (auto simp: drop_Cons split: nat.splits)
  then show ?thesis using c' c(5) by metis
qed

end
