(* ===== verification/Alock.thy ===== *)
theory Alock
  imports OCF_Prelude
begin

text \<open>
  The asynchronous reader-writer locks of cache lines (\<open>utils/utils_alock.c\<close>).

  An entry's lock word is 0 when it is free, \<open>INT_MAX\<close> when it is write locked and otherwise
  the number of its readers.  A request that cannot get the lock leaves a waiter in a list that
  it shares with the other entries of the same hash; whoever unlocks the entry hands the lock to
  the waiters.  A request resumes once it holds all its locks: \<open>resumed\<close> logs the calls of the
  completion functions.

  The functions below run under the spin lock of the waiters list, or are a single atomic
  operation, and are one step each.  A request locks an entry in two such steps, the attempt and
  the registration as a waiter, and other requests may run between them.
\<close>

subsection \<open>State\<close>

datatype rw = OCF_READ | OCF_WRITE

definition INT_MAX_acc :: int where "INT_MAX_acc = 2147483647"
definition OCF_CACHE_LINE_ACCESS_WR :: int where "OCF_CACHE_LINE_ACCESS_WR = INT_MAX_acc"
definition OCF_CACHE_LINE_ACCESS_IDLE :: int where "OCF_CACHE_LINE_ACCESS_IDLE = 0"
definition OCF_CACHE_LINE_ACCESS_ONE_RD :: int where "OCF_CACHE_LINE_ACCESS_ONE_RD = 1"

lemmas access_defs =
  OCF_CACHE_LINE_ACCESS_WR_def OCF_CACHE_LINE_ACCESS_IDLE_def OCF_CACHE_LINE_ACCESS_ONE_RD_def INT_MAX_acc_def

record ocf_alock_waiter =
  w_entry :: u32
  w_idx :: u32
  w_req :: nat
  w_rw :: rw

text \<open>\<open>lists_no\<close> is \<open>_WAITERS_LIST_ENTRIES\<close>, which depends on the size of a spin lock on the platform.
  The last three fields are the fields of the requests that the lock functions use, by request.\<close>

record ocf_alock =
  num_entries :: u32
  lists_no :: u32
  acc :: "u32 \<Rightarrow> int"
  waiters_lsts :: "u32 \<Rightarrow> ocf_alock_waiter list"
  waiting :: int
  alock_status :: "nat \<Rightarrow> u32 \<Rightarrow> bool"
  lock_remaining :: "nat \<Rightarrow> int"
  resumed :: "nat list"

definition waiters_list_item :: "ocf_alock \<Rightarrow> u32 \<Rightarrow> u32" where
  "waiters_list_item a entry = entry mod lists_no a"

text \<open>The value before and the value after.\<close>

definition env_atomic_cmpxchg :: "int \<Rightarrow> int \<Rightarrow> int \<Rightarrow> int \<times> int" where
  "env_atomic_cmpxchg v old new = (v, if v = old then new else v)"

definition env_atomic_add_unless :: "int \<Rightarrow> int \<Rightarrow> int \<Rightarrow> bool \<times> int" where
  "env_atomic_add_unless v i u = (v \<noteq> u, if v = u then v else v + i)"

text \<open>\<open>ocf_alock_init_inplace\<close>; the arguments say whether the mutex, the array of lock words, the allocator and
  the spin locks could be set up.\<close>

definition ocf_alock_init_inplace :: "bool \<Rightarrow> bool \<Rightarrow> bool \<Rightarrow> bool \<Rightarrow> u32 \<Rightarrow> u32 \<Rightarrow> ocf_alock option" where
  "ocf_alock_init_inplace mutex words alloc spin n lsts =
     (if mutex \<and> words \<and> alloc \<and> spin
      then Some \<lparr>num_entries = n, lists_no = lsts, acc = (\<lambda>_. 0), waiters_lsts = (\<lambda>_. []), waiting = 0,
                 alock_status = (\<lambda>_ _. False), lock_remaining = (\<lambda>_. 0), resumed = []\<rparr>
      else None)"

subsection \<open>Requests\<close>

definition ocf_alock_mark_index_locked :: "ocf_alock \<Rightarrow> nat \<Rightarrow> u32 \<Rightarrow> bool \<Rightarrow> ocf_alock" where
  "ocf_alock_mark_index_locked a req index locked =
     a\<lparr>alock_status := (alock_status a)(req := (alock_status a req)(index := locked))\<rparr>"

definition ocf_alock_is_index_locked :: "ocf_alock \<Rightarrow> nat \<Rightarrow> u32 \<Rightarrow> bool" where
  "ocf_alock_is_index_locked a req index = alock_status a req index"

definition ocf_alock_entry_locked :: "ocf_alock \<Rightarrow> nat \<Rightarrow> ocf_alock" where
  "ocf_alock_entry_locked a req = (
     let n = lock_remaining a req - 1;
         a = a\<lparr>lock_remaining := (lock_remaining a)(req := n)\<rparr>
     in if n = 0 then a\<lparr>waiting := waiting a - 1, resumed := resumed a @ [req]\<rparr> else a)"

subsection \<open>Waiters\<close>

definition ocf_alock_waitlist_is_empty_locked :: "ocf_alock \<Rightarrow> u32 \<Rightarrow> bool" where
  "ocf_alock_waitlist_is_empty_locked a entry =
     (\<not> list_ex (\<lambda>w. w_entry w = entry) (waiters_lsts a (waiters_list_item a entry)))"

definition ocf_alock_waitlist_add :: "ocf_alock \<Rightarrow> u32 \<Rightarrow> ocf_alock_waiter \<Rightarrow> ocf_alock" where
  "ocf_alock_waitlist_add a entry waiter = (
     let idx = waiters_list_item a entry
     in a\<lparr>waiters_lsts := (waiters_lsts a)(idx := waiters_lsts a idx @ [waiter])\<rparr>)"

definition ocf_alock_waitlist_is_empty :: "ocf_alock \<Rightarrow> u32 \<Rightarrow> bool option" where
  "ocf_alock_waitlist_is_empty a entry = do {
     ENV_BUG_ON (entry \<ge> num_entries a);
     Some (ocf_alock_waitlist_is_empty_locked a entry)
   }"

definition ocf_cache_line_is_used :: "ocf_alock \<Rightarrow> u32 \<Rightarrow> bool option" where
  "ocf_cache_line_is_used a entry = do {
     ENV_BUG_ON (entry \<ge> num_entries a);
     if acc a entry \<noteq> 0 then Some True
     else map_option Not (ocf_alock_waitlist_is_empty a entry)
   }"

definition ocf_cache_line_are_waiters :: "ocf_alock \<Rightarrow> u32 \<Rightarrow> bool option" where
  "ocf_cache_line_are_waiters a line = map_option Not (ocf_alock_waitlist_is_empty a line)"

subsection \<open>The lock word\<close>

text \<open>\<open>&alock->access[entry]\<close>, an array of \<open>num_entries\<close> words.\<close>

definition access_word :: "ocf_alock \<Rightarrow> u32 \<Rightarrow> int option" where
  "access_word a entry = (if entry < num_entries a then Some (acc a entry) else None)"

definition set_access :: "ocf_alock \<Rightarrow> u32 \<Rightarrow> int \<Rightarrow> ocf_alock" where
  "set_access a entry v = a\<lparr>acc := (acc a)(entry := v)\<rparr>"

definition ocf_alock_trylock_entry_wr :: "ocf_alock \<Rightarrow> u32 \<Rightarrow> (ocf_alock \<times> bool) option" where
  "ocf_alock_trylock_entry_wr a entry = do {
     v \<leftarrow> access_word a entry;
     let (prev, v) = env_atomic_cmpxchg v OCF_CACHE_LINE_ACCESS_IDLE OCF_CACHE_LINE_ACCESS_WR;
     Some (set_access a entry v, prev = OCF_CACHE_LINE_ACCESS_IDLE)
   }"

definition ocf_alock_trylock_entry_rd_idle :: "ocf_alock \<Rightarrow> u32 \<Rightarrow> (ocf_alock \<times> bool) option" where
  "ocf_alock_trylock_entry_rd_idle a entry = do {
     v \<leftarrow> access_word a entry;
     let (prev, v) = env_atomic_cmpxchg v OCF_CACHE_LINE_ACCESS_IDLE OCF_CACHE_LINE_ACCESS_ONE_RD;
     Some (set_access a entry v, prev = OCF_CACHE_LINE_ACCESS_IDLE)
   }"

definition ocf_alock_trylock_entry_rd :: "ocf_alock \<Rightarrow> u32 \<Rightarrow> (ocf_alock \<times> bool) option" where
  "ocf_alock_trylock_entry_rd a entry = do {
     v \<leftarrow> access_word a entry;
     let (added, v) = env_atomic_add_unless v 1 OCF_CACHE_LINE_ACCESS_WR;
     Some (set_access a entry v, added)
   }"

definition ocf_alock_unlock_entry_wr :: "ocf_alock \<Rightarrow> u32 \<Rightarrow> ocf_alock option" where
  "ocf_alock_unlock_entry_wr a entry = do {
     v \<leftarrow> access_word a entry;
     ENV_BUG_ON (v \<noteq> OCF_CACHE_LINE_ACCESS_WR);
     Some (set_access a entry OCF_CACHE_LINE_ACCESS_IDLE)
   }"

definition ocf_alock_unlock_entry_rd :: "ocf_alock \<Rightarrow> u32 \<Rightarrow> ocf_alock option" where
  "ocf_alock_unlock_entry_rd a entry = do {
     v \<leftarrow> access_word a entry;
     ENV_BUG_ON (v = 0);
     ENV_BUG_ON (v = OCF_CACHE_LINE_ACCESS_WR);
     Some (set_access a entry (v - 1))
   }"

definition ocf_alock_trylock_entry_wr2wr :: "ocf_alock \<Rightarrow> u32 \<Rightarrow> (ocf_alock \<times> bool) option" where
  "ocf_alock_trylock_entry_wr2wr a entry = do {
     v \<leftarrow> access_word a entry;
     ENV_BUG_ON (v \<noteq> OCF_CACHE_LINE_ACCESS_WR);
     Some (a, True)
   }"

definition ocf_alock_trylock_entry_wr2rd :: "ocf_alock \<Rightarrow> u32 \<Rightarrow> (ocf_alock \<times> bool) option" where
  "ocf_alock_trylock_entry_wr2rd a entry = do {
     v \<leftarrow> access_word a entry;
     ENV_BUG_ON (v \<noteq> OCF_CACHE_LINE_ACCESS_WR);
     Some (set_access a entry OCF_CACHE_LINE_ACCESS_ONE_RD, True)
   }"

definition ocf_alock_trylock_entry_rd2wr :: "ocf_alock \<Rightarrow> u32 \<Rightarrow> (ocf_alock \<times> bool) option" where
  "ocf_alock_trylock_entry_rd2wr a entry = do {
     v \<leftarrow> access_word a entry;
     ENV_BUG_ON (v = OCF_CACHE_LINE_ACCESS_IDLE);
     ENV_BUG_ON (v = OCF_CACHE_LINE_ACCESS_WR);
     let (prev, v) = env_atomic_cmpxchg v OCF_CACHE_LINE_ACCESS_ONE_RD OCF_CACHE_LINE_ACCESS_WR;
     Some (set_access a entry v, prev = OCF_CACHE_LINE_ACCESS_ONE_RD)
   }"

definition ocf_alock_trylock_entry_rd2rd :: "ocf_alock \<Rightarrow> u32 \<Rightarrow> (ocf_alock \<times> bool) option" where
  "ocf_alock_trylock_entry_rd2rd a entry = do {
     v \<leftarrow> access_word a entry;
     ENV_BUG_ON (v = OCF_CACHE_LINE_ACCESS_IDLE);
     ENV_BUG_ON (v = OCF_CACHE_LINE_ACCESS_WR);
     Some (a, True)
   }"

subsection \<open>Locking an entry\<close>

text \<open>The attempt with which \<open>ocf_alock_lock_one_wr\<close> begins; \<open>True\<close> is the return.\<close>

definition lock_one_wr_try :: "ocf_alock \<Rightarrow> u32 \<Rightarrow> nat \<Rightarrow> u32 \<Rightarrow> (ocf_alock \<times> bool) option" where
  "lock_one_wr_try a entry req idx = do {
     (a, ok) \<leftarrow> ocf_alock_trylock_entry_wr a entry;
     if ok then Some (ocf_alock_entry_locked (ocf_alock_mark_index_locked a req idx True) req, True)
     else Some (a, False)
   }"

text \<open>Its second part, under the lock of the waiters list.\<close>

definition lock_one_wr_wait :: "ocf_alock \<Rightarrow> u32 \<Rightarrow> nat \<Rightarrow> u32 \<Rightarrow> ocf_alock option" where
  "lock_one_wr_wait a entry req idx = do {
     (a, ok) \<leftarrow> ocf_alock_trylock_entry_wr a entry;
     if ok then Some (ocf_alock_entry_locked (ocf_alock_mark_index_locked a req idx True) req)
     else Some (ocf_alock_waitlist_add a entry \<lparr>w_entry = entry, w_idx = idx, w_req = req, w_rw = OCF_WRITE\<rparr>)
   }"

text \<open>The whole function when nothing runs in between; \<open>alloc\<close> says whether the allocation of the
  waiter succeeds.\<close>

definition ocf_alock_lock_one_wr :: "bool \<Rightarrow> ocf_alock \<Rightarrow> u32 \<Rightarrow> nat \<Rightarrow> u32 \<Rightarrow> (ocf_alock \<times> bool) option" where
  "ocf_alock_lock_one_wr alloc a entry req idx = do {
     (a, ok) \<leftarrow> lock_one_wr_try a entry req idx;
     if ok then Some (a, True)
     else if \<not> alloc then Some (a, False)
     else map_option (\<lambda>a. (a, True)) (lock_one_wr_wait a entry req idx)
   }"

definition lock_one_rd_try :: "ocf_alock \<Rightarrow> u32 \<Rightarrow> nat \<Rightarrow> u32 \<Rightarrow> (ocf_alock \<times> bool) option" where
  "lock_one_rd_try a entry req idx = do {
     (a, ok) \<leftarrow> ocf_alock_trylock_entry_rd_idle a entry;
     if ok then Some (ocf_alock_entry_locked (ocf_alock_mark_index_locked a req idx True) req, True)
     else Some (a, False)
   }"

definition lock_one_rd_wait :: "ocf_alock \<Rightarrow> u32 \<Rightarrow> nat \<Rightarrow> u32 \<Rightarrow> ocf_alock option" where
  "lock_one_rd_wait a entry req idx = do {
     (a, ok) \<leftarrow> (if ocf_alock_waitlist_is_empty_locked a entry then ocf_alock_trylock_entry_rd a entry
                else Some (a, False));
     if ok then Some (ocf_alock_entry_locked (ocf_alock_mark_index_locked a req idx True) req)
     else Some (ocf_alock_waitlist_add a entry \<lparr>w_entry = entry, w_idx = idx, w_req = req, w_rw = OCF_READ\<rparr>)
   }"

definition ocf_alock_lock_one_rd :: "bool \<Rightarrow> ocf_alock \<Rightarrow> u32 \<Rightarrow> nat \<Rightarrow> u32 \<Rightarrow> (ocf_alock \<times> bool) option" where
  "ocf_alock_lock_one_rd alloc a entry req idx = do {
     (a, ok) \<leftarrow> lock_one_rd_try a entry req idx;
     if ok then Some (a, True)
     else if \<not> alloc then Some (a, False)
     else map_option (\<lambda>a. (a, True)) (lock_one_rd_wait a entry req idx)
   }"

subsection \<open>Unlocking an entry\<close>

text \<open>The loop over the waiters list.  \<open>x_wr\<close> and \<open>x_rd\<close> exchange the lock that the caller holds for the
  first waiter; the result is the state, the waiters that stay, and \<open>exchanged\<close>.\<close>

fun unlock_scan ::
    "(ocf_alock \<Rightarrow> u32 \<Rightarrow> (ocf_alock \<times> bool) option) \<Rightarrow> (ocf_alock \<Rightarrow> u32 \<Rightarrow> (ocf_alock \<times> bool) option) \<Rightarrow>
     u32 \<Rightarrow> bool \<Rightarrow> ocf_alock_waiter list \<Rightarrow> ocf_alock \<Rightarrow> (ocf_alock \<times> ocf_alock_waiter list \<times> bool) option" where
  "unlock_scan x_wr x_rd entry exchanged [] a = Some (a, [], exchanged)"
| "unlock_scan x_wr x_rd entry exchanged (w # ws) a =
     (if entry \<noteq> w_entry w then do {
        (a, rest, e) \<leftarrow> unlock_scan x_wr x_rd entry exchanged ws a;
        Some (a, w # rest, e)
      } else do {
        (a, locked) \<leftarrow>
          (if exchanged then
             (case w_rw w of OCF_WRITE \<Rightarrow> x_wr a entry | OCF_READ \<Rightarrow> x_rd a entry)
           else
             (case w_rw w of OCF_WRITE \<Rightarrow> ocf_alock_trylock_entry_wr a entry
                           | OCF_READ \<Rightarrow> ocf_alock_trylock_entry_rd a entry));
        if locked then
          unlock_scan x_wr x_rd entry False ws
            (ocf_alock_entry_locked (ocf_alock_mark_index_locked a (w_req w) (w_idx w) True) (w_req w))
        else Some (a, w # ws, exchanged)
      })"

definition ocf_alock_unlock_one_rd_common :: "ocf_alock \<Rightarrow> u32 \<Rightarrow> ocf_alock option" where
  "ocf_alock_unlock_one_rd_common a entry = do {
     let idx = waiters_list_item a entry;
     (a, rest, exchanged) \<leftarrow> unlock_scan ocf_alock_trylock_entry_rd2wr ocf_alock_trylock_entry_rd2rd
       entry True (waiters_lsts a idx) a;
     let a = a\<lparr>waiters_lsts := (waiters_lsts a)(idx := rest)\<rparr>;
     if exchanged then ocf_alock_unlock_entry_rd a entry else Some a
   }"

definition ocf_alock_unlock_one_wr_common :: "ocf_alock \<Rightarrow> u32 \<Rightarrow> ocf_alock option" where
  "ocf_alock_unlock_one_wr_common a entry = do {
     let idx = waiters_list_item a entry;
     (a, rest, exchanged) \<leftarrow> unlock_scan ocf_alock_trylock_entry_wr2wr ocf_alock_trylock_entry_wr2rd
       entry True (waiters_lsts a idx) a;
     let a = a\<lparr>waiters_lsts := (waiters_lsts a)(idx := rest)\<rparr>;
     if exchanged then ocf_alock_unlock_entry_wr a entry else Some a
   }"

definition ocf_alock_trylock_one_rd :: "ocf_alock \<Rightarrow> u32 \<Rightarrow> (ocf_alock \<times> bool) option" where
  "ocf_alock_trylock_one_rd a entry = ocf_alock_trylock_entry_rd_idle a entry"

definition ocf_alock_unlock_one_rd :: "ocf_alock \<Rightarrow> u32 \<Rightarrow> ocf_alock option" where
  "ocf_alock_unlock_one_rd a entry = ocf_alock_unlock_one_rd_common a entry"

definition ocf_alock_unlock_one_wr :: "ocf_alock \<Rightarrow> u32 \<Rightarrow> ocf_alock option" where
  "ocf_alock_unlock_one_wr a entry = ocf_alock_unlock_one_wr_common a entry"

text \<open>The first waiter of the request in the list of the entry, whatever entry it waits for.\<close>

fun remove_req_waiter :: "nat \<Rightarrow> ocf_alock_waiter list \<Rightarrow> ocf_alock_waiter list" where
  "remove_req_waiter req [] = []"
| "remove_req_waiter req (w # ws) = (if w_req w = req then ws else w # remove_req_waiter req ws)"

definition ocf_alock_waitlist_remove_entry :: "ocf_alock \<Rightarrow> nat \<Rightarrow> u32 \<Rightarrow> u32 \<Rightarrow> rw \<Rightarrow> ocf_alock option" where
  "ocf_alock_waitlist_remove_entry a req entry i rw = do {
     let idx = waiters_list_item a entry;
     if ocf_alock_is_index_locked a req i then do {
       a \<leftarrow> (case rw of OCF_READ \<Rightarrow> ocf_alock_unlock_one_rd_common a entry
                     | OCF_WRITE \<Rightarrow> ocf_alock_unlock_one_wr_common a entry);
       Some (ocf_alock_mark_index_locked a req i False)
     } else Some (a\<lparr>waiters_lsts := (waiters_lsts a)(idx := remove_req_waiter req (waiters_lsts a idx))\<rparr>)
   }"

definition ocf_alock_waitlist_count :: "ocf_alock \<Rightarrow> int" where
  "ocf_alock_waitlist_count a = waiting a"

text \<open>The functions by which the cache line code calls them (\<open>ocf_cache_line_concurrency.c\<close>).\<close>

definition ocf_cache_line_try_lock_rd :: "ocf_alock \<Rightarrow> u32 \<Rightarrow> (ocf_alock \<times> bool) option" where
  "ocf_cache_line_try_lock_rd a line = ocf_alock_trylock_one_rd a line"

definition ocf_cache_line_unlock_rd :: "ocf_alock \<Rightarrow> u32 \<Rightarrow> ocf_alock option" where
  "ocf_cache_line_unlock_rd a line = ocf_alock_unlock_one_rd a line"

definition ocf_cache_line_try_lock_wr :: "ocf_alock \<Rightarrow> u32 \<Rightarrow> (ocf_alock \<times> bool) option" where
  "ocf_cache_line_try_lock_wr a line = ocf_alock_trylock_entry_wr a line"

definition ocf_cache_line_unlock_wr :: "ocf_alock \<Rightarrow> u32 \<Rightarrow> ocf_alock option" where
  "ocf_cache_line_unlock_wr a line = ocf_alock_unlock_one_wr a line"


subsection \<open>Whom an unlock wakes\<close>

definition wake :: "ocf_alock \<Rightarrow> ocf_alock_waiter \<Rightarrow> ocf_alock" where
  "wake a w = ocf_alock_entry_locked (ocf_alock_mark_index_locked a (w_req w) (w_idx w) True) (w_req w)"

lemma wake_simps [simp]:
  "acc (wake a w) = acc a" "waiters_lsts (wake a w) = waiters_lsts a" "num_entries (wake a w) = num_entries a"
  "lists_no (wake a w) = lists_no a" "wake (set_access a e v) w = set_access (wake a w) e v"
  by (simp_all add: wake_def ocf_alock_entry_locked_def ocf_alock_mark_index_locked_def set_access_def Let_def)

lemma set_access_simps [simp]:
  "acc (set_access a e v) = (acc a)(e := v)" "waiters_lsts (set_access a e v) = waiters_lsts a"
  "num_entries (set_access a e v) = num_entries a" "lists_no (set_access a e v) = lists_no a"
  "set_access (set_access a e v) e v' = set_access a e v'" "set_access a e (acc a e) = a"
  by (simp_all add: set_access_def)

lemma wake_all_simps [simp]:
  "acc (foldl wake a ws) = acc a" "waiters_lsts (foldl wake a ws) = waiters_lsts a"
  "num_entries (foldl wake a ws) = num_entries a" "lists_no (foldl wake a ws) = lists_no a"
  "foldl wake (set_access a e v) ws = set_access (foldl wake a ws) e v"
  by (induction ws arbitrary: a) simp_all

abbreviation queue :: "u32 \<Rightarrow> ocf_alock_waiter list \<Rightarrow> ocf_alock_waiter list" where
  "queue e ws \<equiv> filter (\<lambda>w. w_entry w = e) ws"

text \<open>Without its first \<open>k\<close> waiters for \<open>e\<close>.\<close>

fun drop_queue :: "u32 \<Rightarrow> nat \<Rightarrow> ocf_alock_waiter list \<Rightarrow> ocf_alock_waiter list" where
  "drop_queue e 0 ws = ws"
| "drop_queue e (Suc k) [] = []"
| "drop_queue e (Suc k) (w # ws) = (if w_entry w = e then drop_queue e k ws else w # drop_queue e (Suc k) ws)"

lemma queue_drop_queue: "queue e' (drop_queue e k ws) = (if e' = e then drop k (queue e ws) else queue e' ws)"
  by (induction e k ws rule: drop_queue.induct) auto

lemma drop_queue_other: "w_entry w \<noteq> e \<Longrightarrow> drop_queue e k (w # ws) = w # drop_queue e k ws"
  by (cases k) simp_all

abbreviation readers :: "ocf_alock_waiter list \<Rightarrow> ocf_alock_waiter list" where
  "readers q \<equiv> takeWhile (\<lambda>w. w_rw w = OCF_READ) q"

lemma scan_held_wr:
  assumes "e < num_entries a" "acc a e = OCF_CACHE_LINE_ACCESS_WR"
  shows "unlock_scan x_wr x_rd e False ws a = Some (a, ws, False)"
  using assms
proof (induction ws)
  case Nil
  then show ?case by simp
next
  case (Cons w ws)
  have "set_access a e OCF_CACHE_LINE_ACCESS_WR = a" using Cons.prems(2) by (metis set_access_simps(6))
  then show ?case
    using Cons
    by (cases "w_rw w") (auto simp: ocf_alock_trylock_entry_wr_def ocf_alock_trylock_entry_rd_def access_word_def
        env_atomic_cmpxchg_def env_atomic_add_unless_def access_defs)
qed

lemma scan_held_rd:
  assumes "e < num_entries a" "0 < acc a e" "acc a e + int (length (queue e ws)) < OCF_CACHE_LINE_ACCESS_WR"
  shows "unlock_scan x_wr x_rd e False ws a =
    Some (set_access (foldl wake a (readers (queue e ws))) e (acc a e + int (length (readers (queue e ws)))),
          drop_queue e (length (readers (queue e ws))) ws, False)"
  using assms
proof (induction ws arbitrary: a)
  case Nil
  then show ?case by simp
next
  case (Cons w ws)
  show ?case
  proof (cases "w_entry w = e")
    case False
    then show ?thesis using Cons by (simp add: drop_queue_other)
  next
    case True
    show ?thesis
    proof (cases "w_rw w")
      case OCF_WRITE
      then show ?thesis
        using True Cons.prems
        by (simp add: ocf_alock_trylock_entry_wr_def access_word_def env_atomic_cmpxchg_def access_defs)
    next
      case OCF_READ
      let ?a = "wake (set_access a e (acc a e + 1)) w"
      have "unlock_scan x_wr x_rd e False (w # ws) a = unlock_scan x_wr x_rd e False ws ?a"
        using True OCF_READ Cons.prems
        by (simp add: ocf_alock_trylock_entry_rd_def access_word_def env_atomic_add_unless_def wake_def)
      also have "\<dots> = Some (set_access (foldl wake ?a (readers (queue e ws))) e
            (acc ?a e + int (length (readers (queue e ws)))), drop_queue e (length (readers (queue e ws))) ws, False)"
        using True Cons.prems by (intro Cons.IH) simp_all
      finally show ?thesis using True OCF_READ by (simp add: ac_simps)
    qed
  qed
qed

lemma scan_exchange_none: "queue e ws = [] \<Longrightarrow> unlock_scan x_wr x_rd e True ws a = Some (a, ws, True)"
  by (induction ws) (auto split: if_splits)

lemma scan_exchange_writer:
  assumes "e < num_entries a" "queue e ws = w # q" "w_rw w = OCF_WRITE"
    and "x_wr a e = Some (set_access a e OCF_CACHE_LINE_ACCESS_WR, True)"
  shows "unlock_scan x_wr x_rd e True ws a =
    Some (set_access (wake a w) e OCF_CACHE_LINE_ACCESS_WR, drop_queue e 1 ws, False)"
  using assms
proof (induction ws)
  case (Cons v ws)
  show ?case
  proof (cases "w_entry v = e")
    case True
    then show ?thesis
      using Cons.prems scan_held_wr [of e "set_access (wake a w) e OCF_CACHE_LINE_ACCESS_WR" x_wr x_rd ws]
      by (auto simp: wake_def [symmetric])
  qed (use Cons in \<open>simp add: drop_queue_other\<close>)
qed simp

lemma scan_exchange_refused:
  assumes "queue e ws = w # q" "w_rw w = OCF_WRITE" "x_wr a e = Some (a, False)"
  shows "unlock_scan x_wr x_rd e True ws a = Some (a, ws, True)"
  using assms by (induction ws) (auto split: if_splits)

lemma scan_exchange_readers:
  assumes "e < num_entries a" "queue e ws = w # q" "w_rw w = OCF_READ" "0 < r"
    and "r + int (length q) < OCF_CACHE_LINE_ACCESS_WR" "x_rd a e = Some (set_access a e r, True)"
  shows "unlock_scan x_wr x_rd e True ws a =
    Some (set_access (foldl wake a (readers (queue e ws))) e (r - 1 + int (length (readers (queue e ws)))),
          drop_queue e (length (readers (queue e ws))) ws, False)"
  using assms
proof (induction ws)
  case (Cons v ws)
  show ?case
  proof (cases "w_entry v = e")
    case True
    then show ?thesis
      using Cons.prems scan_held_rd [of e "set_access (wake a w) e r" ws x_wr x_rd]
      by (auto simp: wake_def [symmetric] ac_simps)
  qed (use Cons in \<open>simp add: drop_queue_other\<close>)
qed simp

text \<open>How many of the waiters \<open>q\<close> an unlock wakes, and the lock word it leaves.\<close>

fun hand_wr :: "ocf_alock_waiter list \<Rightarrow> nat \<times> int" where
  "hand_wr [] = (0, OCF_CACHE_LINE_ACCESS_IDLE)"
| "hand_wr (w # q) = (if w_rw w = OCF_WRITE then (1, OCF_CACHE_LINE_ACCESS_WR)
     else (length (readers (w # q)), int (length (readers (w # q)))))"

fun hand_rd :: "int \<Rightarrow> ocf_alock_waiter list \<Rightarrow> nat \<times> int" where
  "hand_rd n [] = (0, n - 1)"
| "hand_rd n (w # q) =
     (if w_rw w = OCF_WRITE then if n = 1 then (1, OCF_CACHE_LINE_ACCESS_WR) else (0, n - 1)
      else (length (readers (w # q)), n - 1 + int (length (readers (w # q)))))"

definition waiters_of :: "ocf_alock \<Rightarrow> u32 \<Rightarrow> ocf_alock_waiter list" where
  "waiters_of a e = queue e (waiters_lsts a (waiters_list_item a e))"

text \<open>The state after the first waiters for \<open>e\<close> got the lock and its word became the given value.\<close>

definition handed :: "ocf_alock \<Rightarrow> u32 \<Rightarrow> nat \<times> int \<Rightarrow> ocf_alock" where
  "handed a e h = (
     let i = waiters_list_item a e; a' = foldl wake (set_access a e (snd h)) (take (fst h) (waiters_of a e))
     in a'\<lparr>waiters_lsts := (waiters_lsts a)(i := drop_queue e (fst h) (waiters_lsts a i))\<rparr>)"

lemma take_readers: "take (length (readers q)) q = readers q"
  by (induction q) auto

lemma handed_none:
  "handed a e (0, v) = set_access a e v"
  by (simp add: handed_def Let_def set_access_def)

lemmas exchange_defs = ocf_alock_trylock_entry_wr2wr_def ocf_alock_trylock_entry_wr2rd_def
  ocf_alock_trylock_entry_rd2wr_def ocf_alock_trylock_entry_rd2rd_def ocf_alock_unlock_entry_wr_def
  ocf_alock_unlock_entry_rd_def access_word_def env_atomic_cmpxchg_def

lemma unlock_wr_ok:
  assumes "e < num_entries a" "acc a e = OCF_CACHE_LINE_ACCESS_WR"
    and "int (length (waiters_of a e)) < OCF_CACHE_LINE_ACCESS_WR"
  shows "ocf_alock_unlock_one_wr a e = Some (handed a e (hand_wr (waiters_of a e)))"
proof -
  let ?ws = "waiters_lsts a (waiters_list_item a e)"
  let ?scan = "unlock_scan ocf_alock_trylock_entry_wr2wr ocf_alock_trylock_entry_wr2rd e True ?ws a"
  note defs = ocf_alock_unlock_one_wr_def ocf_alock_unlock_one_wr_common_def
  have same: "set_access a e OCF_CACHE_LINE_ACCESS_WR = a" using assms(2) by (metis set_access_simps(6))
  show ?thesis
  proof (cases "waiters_of a e")
    case Nil
    then have "?scan = Some (a, ?ws, True)" by (simp add: scan_exchange_none waiters_of_def)
    then show ?thesis using assms Nil by (simp add: defs handed_none exchange_defs)
  next
    case (Cons w q)
    then have q: "queue e ?ws = w # q" by (simp add: waiters_of_def)
    show ?thesis
    proof (cases "w_rw w")
      case OCF_WRITE
      have "?scan = Some (set_access (wake a w) e OCF_CACHE_LINE_ACCESS_WR, drop_queue e 1 ?ws, False)"
        using assms OCF_WRITE q same by (intro scan_exchange_writer) (simp_all add: exchange_defs)
      then show ?thesis using Cons OCF_WRITE by (simp add: defs handed_def Let_def)
    next
      case OCF_READ
      have "?scan = Some (set_access (foldl wake a (readers (queue e ?ws))) e
          (1 - 1 + int (length (readers (queue e ?ws)))), drop_queue e (length (readers (queue e ?ws))) ?ws, False)"
        using assms OCF_READ q Cons
        by (intro scan_exchange_readers) (simp_all add: exchange_defs OCF_CACHE_LINE_ACCESS_ONE_RD_def)
      then show ?thesis using Cons OCF_READ q by (simp add: defs handed_def take_readers Let_def)
    qed
  qed
qed

lemma unlock_rd_ok:
  assumes "e < num_entries a" "0 < acc a e" "acc a e + int (length (waiters_of a e)) < OCF_CACHE_LINE_ACCESS_WR"
  shows "ocf_alock_unlock_one_rd a e = Some (handed a e (hand_rd (acc a e) (waiters_of a e)))"
proof -
  let ?ws = "waiters_lsts a (waiters_list_item a e)"
  let ?scan = "unlock_scan ocf_alock_trylock_entry_rd2wr ocf_alock_trylock_entry_rd2rd e True ?ws a"
  note defs = ocf_alock_unlock_one_rd_def ocf_alock_unlock_one_rd_common_def
  have n: "acc a e \<noteq> 0" "acc a e \<noteq> OCF_CACHE_LINE_ACCESS_WR" "acc a e \<noteq> OCF_CACHE_LINE_ACCESS_IDLE"
    using assms by (simp_all add: OCF_CACHE_LINE_ACCESS_IDLE_def)
  show ?thesis
  proof (cases "waiters_of a e")
    case Nil
    then have "?scan = Some (a, ?ws, True)" by (simp add: scan_exchange_none waiters_of_def)
    then show ?thesis using assms Nil n by (simp add: defs handed_none exchange_defs)
  next
    case (Cons w q)
    then have q: "queue e ?ws = w # q" by (simp add: waiters_of_def)
    have room: "acc a e + int (length q) < OCF_CACHE_LINE_ACCESS_WR" using assms(3) Cons by simp
    show ?thesis
    proof (cases "w_rw w")
      case OCF_READ
      have "?scan = Some (set_access (foldl wake a (readers (queue e ?ws))) e
          (acc a e - 1 + int (length (readers (queue e ?ws)))), drop_queue e (length (readers (queue e ?ws))) ?ws, False)"
        using assms(1,2) OCF_READ q n room by (intro scan_exchange_readers) (simp_all add: exchange_defs)
      then show ?thesis using Cons OCF_READ q by (simp add: defs handed_def take_readers Let_def)
    next
      case OCF_WRITE
      show ?thesis
      proof (cases "acc a e = 1")
        case True
        have "?scan = Some (set_access (wake a w) e OCF_CACHE_LINE_ACCESS_WR, drop_queue e 1 ?ws, False)"
          using assms OCF_WRITE q True n
          by (intro scan_exchange_writer) (simp_all add: exchange_defs OCF_CACHE_LINE_ACCESS_ONE_RD_def)
        then show ?thesis using Cons OCF_WRITE True by (simp add: defs handed_def Let_def)
      next
        case False
        then have "?scan = Some (a, ?ws, True)"
          using assms OCF_WRITE q n
          by (intro scan_exchange_refused) (simp_all add: exchange_defs OCF_CACHE_LINE_ACCESS_ONE_RD_def)
        then show ?thesis using assms Cons OCF_WRITE n False by (simp add: defs handed_none exchange_defs)
      qed
    qed
  qed
qed






subsection \<open>All interleavings\<close>

text \<open>The state of the locks together with the locks that are held, by entry.\<close>

type_synonym lock_state = "ocf_alock \<times> (u32 \<Rightarrow> rw list)"

text \<open>The waiters that were granted the lock of \<open>e\<close> between two states: the head of the queue that is gone.\<close>

definition granted :: "ocf_alock \<Rightarrow> ocf_alock \<Rightarrow> u32 \<Rightarrow> rw list" where
  "granted a a' e = map w_rw (take (length (waiters_of a e) - length (waiters_of a' e)) (waiters_of a e))"

text \<open>The readers and the waiters of an entry can be counted in its lock word.\<close>

definition room :: "lock_state \<Rightarrow> u32 \<Rightarrow> bool" where
  "room s e \<longleftrightarrow> int (length (snd s e)) + int (length (waiters_of (fst s) e)) + 1 < OCF_CACHE_LINE_ACCESS_WR"

text \<open>Requests lock entries in two steps, give up waiting, and unlock what they hold, in any order.\<close>

inductive lock_step :: "lock_state \<Rightarrow> lock_state \<Rightarrow> bool" where
  try_wr: "lock_one_wr_try a e req i = Some (a', ok) \<Longrightarrow>
    lock_step (a, H) (a', if ok then H(e := OCF_WRITE # H e) else H)"
| try_rd: "lock_one_rd_try a e req i = Some (a', ok) \<Longrightarrow>
    lock_step (a, H) (a', if ok then H(e := OCF_READ # H e) else H)"
| wait_wr: "room (a, H) e \<Longrightarrow> lock_one_wr_wait a e req i = Some a' \<Longrightarrow>
    lock_step (a, H) (a', if waiters_of a' e = waiters_of a e then H(e := OCF_WRITE # H e) else H)"
| wait_rd: "room (a, H) e \<Longrightarrow> lock_one_rd_wait a e req i = Some a' \<Longrightarrow>
    lock_step (a, H) (a', if waiters_of a' e = waiters_of a e then H(e := OCF_READ # H e) else H)"
| unlock_wr: "OCF_WRITE \<in> set (H e) \<Longrightarrow> ocf_alock_unlock_one_wr a e = Some a' \<Longrightarrow>
    lock_step (a, H) (a', H(e := remove1 OCF_WRITE (H e) @ granted a a' e))"
| unlock_rd: "OCF_READ \<in> set (H e) \<Longrightarrow> ocf_alock_unlock_one_rd a e = Some a' \<Longrightarrow>
    lock_step (a, H) (a', H(e := remove1 OCF_READ (H e) @ granted a a' e))"
| give_up: "\<not> ocf_alock_is_index_locked a req i \<Longrightarrow> ocf_alock_waitlist_remove_entry a req e i rw = Some a' \<Longrightarrow>
    lock_step (a, H) (a', H)"

inductive_cases lock_stepE: "lock_step s s'"

text \<open>The lock word counts the holders, who are one writer or only readers; an entry with a waiter is held.\<close>

definition entry_ok :: "int \<Rightarrow> rw list \<Rightarrow> bool" where
  "entry_ok v held \<longleftrightarrow> (v = OCF_CACHE_LINE_ACCESS_WR \<and> held = [OCF_WRITE]) \<or>
     (set held \<subseteq> {OCF_READ} \<and> v = int (length held))"

definition waiters_ok :: "ocf_alock \<Rightarrow> bool" where
  "waiters_ok a \<longleftrightarrow> (\<forall>i. \<forall>w \<in> set (waiters_lsts a i). waiters_list_item a (w_entry w) = i \<and> w_entry w < num_entries a)"

definition locks_ok :: "lock_state \<Rightarrow> bool" where
  "locks_ok s \<longleftrightarrow> waiters_ok (fst s) \<and>
     (\<forall>e. entry_ok (acc (fst s) e) (snd s e) \<and>
          (waiters_of (fst s) e \<noteq> [] \<longrightarrow> snd s e \<noteq> []) \<and> (snd s e \<noteq> [] \<longrightarrow> e < num_entries (fst s)) \<and>
          int (length (snd s e)) + int (length (waiters_of (fst s) e)) < OCF_CACHE_LINE_ACCESS_WR)"

lemma got_simps [simp]:
  "acc (ocf_alock_entry_locked (ocf_alock_mark_index_locked a req i b) r) = acc a"
  "waiters_lsts (ocf_alock_entry_locked (ocf_alock_mark_index_locked a req i b) r) = waiters_lsts a"
  "num_entries (ocf_alock_entry_locked (ocf_alock_mark_index_locked a req i b) r) = num_entries a"
  "lists_no (ocf_alock_entry_locked (ocf_alock_mark_index_locked a req i b) r) = lists_no a"
  by (simp_all add: ocf_alock_entry_locked_def ocf_alock_mark_index_locked_def Let_def)

definition same_waiters :: "ocf_alock \<Rightarrow> ocf_alock \<Rightarrow> bool" where
  "same_waiters a a' \<longleftrightarrow> waiters_lsts a' = waiters_lsts a \<and> num_entries a' = num_entries a \<and> lists_no a' = lists_no a"

lemma same_waiters_of: "same_waiters a a' \<Longrightarrow> waiters_of a' e = waiters_of a e"
  by (simp add: same_waiters_def waiters_of_def waiters_list_item_def)

lemma same_waiters_ok: "same_waiters a a' \<Longrightarrow> waiters_ok a' = waiters_ok a"
  by (simp add: same_waiters_def waiters_ok_def waiters_list_item_def)

lemma same_waiters_entries: "same_waiters a a' \<Longrightarrow> num_entries a' = num_entries a"
  by (simp add: same_waiters_def)

lemma locks_ok_update:
  assumes "locks_ok (a, H)" "waiters_ok a'" "num_entries a' = num_entries a" "e < num_entries a"
    and "\<And>e'. e' \<noteq> e \<Longrightarrow> acc a' e' = acc a e' \<and> waiters_of a' e' = waiters_of a e'"
    and "entry_ok (acc a' e) h" "waiters_of a' e \<noteq> [] \<Longrightarrow> h \<noteq> []"
    and "int (length h) + int (length (waiters_of a' e)) < OCF_CACHE_LINE_ACCESS_WR"
  shows "locks_ok (a', H(e := h))"
  using assms unfolding locks_ok_def by (simp add: fun_upd_apply)

lemma entry_okD:
  assumes "locks_ok (a, H)"
  shows "entry_ok (acc a e) (H e)" "waiters_of a e \<noteq> [] \<Longrightarrow> H e \<noteq> []"
    "int (length (H e)) + int (length (waiters_of a e)) < OCF_CACHE_LINE_ACCESS_WR"
    "H e \<noteq> [] \<Longrightarrow> e < num_entries a"
  using assms by (simp_all add: locks_ok_def)

lemma locks_ok_waiters: "locks_ok (a, H) \<Longrightarrow> waiters_ok a"
  by (simp add: locks_ok_def)

lemma entry_ok_idle: "entry_ok v h \<Longrightarrow> v = OCF_CACHE_LINE_ACCESS_IDLE \<longleftrightarrow> h = []"
  by (auto simp: entry_ok_def access_defs)

lemma entry_ok_writer: "entry_ok v h \<Longrightarrow> OCF_WRITE \<in> set h \<Longrightarrow> v = OCF_CACHE_LINE_ACCESS_WR \<and> h = [OCF_WRITE]"
  by (auto simp: entry_ok_def)

lemma entry_ok_reader:
  "entry_ok v h \<Longrightarrow> OCF_READ \<in> set h \<Longrightarrow> set h \<subseteq> {OCF_READ} \<and> v = int (length h) \<and> 0 < v"
  by (cases h) (auto simp: entry_ok_def)

text \<open>An attempt: it succeeds on an idle entry and changes nothing otherwise.\<close>

lemma try_wr_cases:
  assumes "lock_one_wr_try a e req i = Some (a', ok)"
  shows "same_waiters a a' \<and> e < num_entries a \<and>
    (if ok then acc a e = OCF_CACHE_LINE_ACCESS_IDLE \<and> acc a' = (acc a)(e := OCF_CACHE_LINE_ACCESS_WR) else acc a' = acc a)"
  using assms
  by (auto simp: lock_one_wr_try_def ocf_alock_trylock_entry_wr_def access_word_def env_atomic_cmpxchg_def same_waiters_def
      split: if_splits)

lemma try_rd_cases:
  assumes "lock_one_rd_try a e req i = Some (a', ok)"
  shows "same_waiters a a' \<and> e < num_entries a \<and>
    (if ok then acc a e = OCF_CACHE_LINE_ACCESS_IDLE \<and> acc a' = (acc a)(e := OCF_CACHE_LINE_ACCESS_ONE_RD) else acc a' = acc a)"
  using assms
  by (auto simp: lock_one_rd_try_def ocf_alock_trylock_entry_rd_idle_def access_word_def env_atomic_cmpxchg_def
      same_waiters_def split: if_splits)

text \<open>A registration: the lock, or a place at the end of the queue.\<close>

definition queued :: "ocf_alock \<Rightarrow> ocf_alock \<Rightarrow> u32 \<Rightarrow> bool" where
  "queued a a' e \<longleftrightarrow> (\<exists>w. w_entry w = e \<and> e < num_entries a \<and> a' = ocf_alock_waitlist_add a e w)"

lemma queuedI:
  "e < num_entries a \<Longrightarrow> queued a (ocf_alock_waitlist_add a e \<lparr>w_entry = e, w_idx = i, w_req = r, w_rw = k\<rparr>) e"
  unfolding queued_def by (rule exI [of _ "\<lparr>w_entry = e, w_idx = i, w_req = r, w_rw = k\<rparr>"]) simp

lemma set_access_same: "acc a e = v \<Longrightarrow> set_access a e v = a"
  by auto

lemma queued_waiters:
  assumes "queued a a' e"
  shows "acc a' = acc a" "waiters_ok a \<Longrightarrow> waiters_ok a'" "num_entries a' = num_entries a" "e < num_entries a"
    "length (waiters_of a' e) = Suc (length (waiters_of a e))" "e' \<noteq> e \<Longrightarrow> waiters_of a' e' = waiters_of a e'"
proof -
  obtain w where w: "w_entry w = e" "e < num_entries a" "a' = ocf_alock_waitlist_add a e w"
    using assms by (auto simp: queued_def)
  then show "acc a' = acc a" "num_entries a' = num_entries a" "e < num_entries a"
    by (simp_all add: ocf_alock_waitlist_add_def Let_def)
  show "length (waiters_of a' e) = Suc (length (waiters_of a e))" "e' \<noteq> e \<Longrightarrow> waiters_of a' e' = waiters_of a e'"
    using w by (auto simp: ocf_alock_waitlist_add_def waiters_of_def waiters_list_item_def Let_def)
  show "waiters_ok a \<Longrightarrow> waiters_ok a'"
    using w by (auto simp: ocf_alock_waitlist_add_def waiters_ok_def waiters_list_item_def Let_def)
qed

lemma wait_wr_cases:
  assumes "lock_one_wr_wait a e req i = Some a'"
  shows "(same_waiters a a' \<and> e < num_entries a \<and> acc a e = OCF_CACHE_LINE_ACCESS_IDLE \<and> acc a' = (acc a)(e := OCF_CACHE_LINE_ACCESS_WR)) \<or>
    (acc a e \<noteq> OCF_CACHE_LINE_ACCESS_IDLE \<and> queued a a' e)"
  using assms
  by (auto simp: lock_one_wr_wait_def ocf_alock_trylock_entry_wr_def access_word_def env_atomic_cmpxchg_def
      same_waiters_def set_access_same intro: queuedI split: if_splits)

lemma waitlist_is_empty_waiters: "ocf_alock_waitlist_is_empty_locked a e \<longleftrightarrow> waiters_of a e = []"
  by (auto simp: ocf_alock_waitlist_is_empty_locked_def waiters_of_def list_ex_iff filter_empty_conv)

lemma waiters_ok_entry: "waiters_ok a \<Longrightarrow> waiters_of a e \<noteq> [] \<Longrightarrow> e < num_entries a"
  by (auto simp: waiters_ok_def waiters_of_def filter_empty_conv)

lemma wait_rd_cases:
  assumes "lock_one_rd_wait a e req i = Some a'" "waiters_ok a"
  shows "(same_waiters a a' \<and> e < num_entries a \<and> waiters_of a e = [] \<and> acc a e \<noteq> OCF_CACHE_LINE_ACCESS_WR \<and> acc a' = (acc a)(e := acc a e + 1)) \<or>
    ((waiters_of a e \<noteq> [] \<or> acc a e = OCF_CACHE_LINE_ACCESS_WR) \<and> queued a a' e)"
  using assms
  by (auto simp: lock_one_rd_wait_def ocf_alock_trylock_entry_rd_def access_word_def env_atomic_add_unless_def
      same_waiters_def waitlist_is_empty_waiters set_access_same intro: queuedI waiters_ok_entry split: if_splits)

text \<open>Giving up: the queues only lose waiters.\<close>

lemma remove_req_waiter_subset: "set (remove_req_waiter req ws) \<subseteq> set ws"
  by (induction ws) auto

lemma remove_req_waiter_queue: "length (queue e (remove_req_waiter req ws)) \<le> length (queue e ws)"
  by (induction ws) auto

lemma give_up_ok:
  assumes "\<not> ocf_alock_is_index_locked a req i" "ocf_alock_waitlist_remove_entry a req e i rw = Some a'" "locks_ok (a, H)"
  shows "locks_ok (a', H)"
proof -
  let ?i = "waiters_list_item a e"
  have a': "a' = a\<lparr>waiters_lsts := (waiters_lsts a)(?i := remove_req_waiter req (waiters_lsts a ?i))\<rparr>"
    using assms(1,2) by (simp add: ocf_alock_waitlist_remove_entry_def Let_def)
  have len: "length (waiters_of a' d) \<le> length (waiters_of a d)" for d
    by (simp add: a' waiters_of_def waiters_list_item_def remove_req_waiter_queue)
  moreover have "waiters_ok a'"
    using locks_ok_waiters [OF assms(3)] remove_req_waiter_subset
    by (fastforce simp: a' waiters_ok_def waiters_list_item_def)
  moreover have "acc a' = acc a" "num_entries a' = num_entries a" by (simp_all add: a')
  moreover have "waiters_of a' d \<noteq> [] \<Longrightarrow> waiters_of a d \<noteq> []" for d using len [of d] by auto
  ultimately show ?thesis
    using assms(3) unfolding locks_ok_def fst_conv snd_conv
    by (metis add_left_mono le_less_trans of_nat_mono)
qed

text \<open>A hand-over at \<open>e\<close>.\<close>

lemma handed_other:
  assumes "waiters_ok a"
  shows "waiters_ok (handed a e h)" "e' \<noteq> e \<Longrightarrow> acc (handed a e h) e' = acc a e'"
    "e' \<noteq> e \<Longrightarrow> waiters_of (handed a e h) e' = waiters_of a e'"
    "acc (handed a e h) e = snd h" "waiters_of (handed a e h) e = drop (fst h) (waiters_of a e)"
    "num_entries (handed a e h) = num_entries a"
proof -
  have sub: "set (drop_queue e k ws) \<subseteq> set ws" for k ws by (induction e k ws rule: drop_queue.induct) auto
  show "waiters_ok (handed a e h)"
    using assms sub [of "fst h"] by (fastforce simp: handed_def Let_def waiters_ok_def waiters_list_item_def)
qed (simp_all add: handed_def Let_def waiters_of_def waiters_list_item_def queue_drop_queue)

lemma granted_handed:
  assumes "waiters_ok a" "fst h \<le> length (waiters_of a e)"
  shows "granted a (handed a e h) e = map w_rw (take (fst h) (waiters_of a e))"
  using assms by (simp add: granted_def handed_other)

lemma readers_READ: "map w_rw (readers q) = replicate (length (readers q)) OCF_READ"
  by (induction q) auto

lemma handed_ok:
  assumes "locks_ok (a, H)" "fst h \<le> length (waiters_of a e)"
    and "entry_ok (snd h) (g @ map w_rw (take (fst h) (waiters_of a e)))" "length g < length (H e)" "H e \<noteq> []"
    and "fst h = 0 \<Longrightarrow> waiters_of a e \<noteq> [] \<Longrightarrow> g \<noteq> []"
  shows "locks_ok (handed a e h, H(e := g @ granted a (handed a e h) e))"
proof -
  note ok = entry_okD [OF assms(1), of e] locks_ok_waiters [OF assms(1)]
  show ?thesis
  proof (rule locks_ok_update [OF assms(1)])
    show "g @ granted a (handed a e h) e \<noteq> []" if "waiters_of (handed a e h) e \<noteq> []"
      using that assms(2,6) ok(5) by (cases "fst h = 0") (auto simp: granted_handed handed_other)
  qed (use assms(2,3,4,5) ok in \<open>auto simp: granted_handed handed_other\<close>)
qed

lemma hand_wr_bounds: "fst (hand_wr q) \<le> length q" "fst (hand_wr q) = 0 \<Longrightarrow> q = []"
  "entry_ok (snd (hand_wr q)) (map w_rw (take (fst (hand_wr q)) q))"
proof -
  show "fst (hand_wr q) \<le> length q" by (cases q) (simp_all add: length_takeWhile_le)
  show "fst (hand_wr q) = 0 \<Longrightarrow> q = []" by (cases q; cases "w_rw (hd q)") auto
  show "entry_ok (snd (hand_wr q)) (map w_rw (take (fst (hand_wr q)) q))"
    using readers_READ [of q] take_readers [of q]
    by (cases q; cases "w_rw (hd q)") (auto simp: entry_ok_def OCF_CACHE_LINE_ACCESS_IDLE_def)
qed

lemma hand_rd_bounds:
  assumes "0 < n"
  shows "fst (hand_rd n q) \<le> length q" "fst (hand_rd n q) = 0 \<Longrightarrow> q \<noteq> [] \<Longrightarrow> 1 < n"
    "set g \<subseteq> {OCF_READ} \<Longrightarrow> int (length g) = n - 1 \<Longrightarrow>
       entry_ok (snd (hand_rd n q)) (g @ map w_rw (take (fst (hand_rd n q)) q))"
proof -
  show "fst (hand_rd n q) \<le> length q" by (cases q) (simp_all add: length_takeWhile_le)
  show "fst (hand_rd n q) = 0 \<Longrightarrow> q \<noteq> [] \<Longrightarrow> 1 < n" using assms by (cases q; cases "w_rw (hd q)") (auto split: if_splits)
  show "entry_ok (snd (hand_rd n q)) (g @ map w_rw (take (fst (hand_rd n q)) q))"
    if "set g \<subseteq> {OCF_READ}" "int (length g) = n - 1"
    using that readers_READ [of q] take_readers [of q]
    by (cases q; cases "w_rw (hd q)") (auto simp: entry_ok_def)
qed

lemma unlock_wr_returns:
  assumes "locks_ok (a, H)" "OCF_WRITE \<in> set (H e)"
  shows "ocf_alock_unlock_one_wr a e = Some (handed a e (hand_wr (waiters_of a e)))"
proof (rule unlock_wr_ok)
  show "e < num_entries a" using assms(2) entry_okD(4) [OF assms(1), of e] by fastforce
qed (use entry_okD(1,3) [OF assms(1), of e] entry_ok_writer assms(2) in auto)

lemma unlock_rd_returns:
  assumes "locks_ok (a, H)" "OCF_READ \<in> set (H e)"
  shows "ocf_alock_unlock_one_rd a e = Some (handed a e (hand_rd (acc a e) (waiters_of a e)))"
proof (rule unlock_rd_ok)
  show "e < num_entries a" using assms(2) entry_okD(4) [OF assms(1), of e] by fastforce
qed (use entry_okD(1,3) [OF assms(1), of e] entry_ok_reader assms(2) in auto)

lemma try_ok:
  assumes "locks_ok (a, H)" "same_waiters a a'" "e < num_entries a" "acc a e = OCF_CACHE_LINE_ACCESS_IDLE"
    and "acc a' = (acc a)(e := v)" "entry_ok v [k]"
  shows "locks_ok (a', H(e := k # H e))"
proof -
  note ok = entry_okD [OF assms(1), of e] locks_ok_waiters [OF assms(1)]
  have "H e = []" using assms(4) entry_ok_idle [OF ok(1)] by simp
  then have "waiters_of a e = []" using ok(2) by blast
  then show ?thesis
    using \<open>H e = []\<close> assms(3,5,6) ok(5) same_waiters_of [OF assms(2)] same_waiters_ok [OF assms(2)]
      same_waiters_entries [OF assms(2)]
    by (intro locks_ok_update [OF assms(1)]) (auto simp: access_defs)
qed

lemma queue_ok:
  assumes "locks_ok (a, H)" "queued a a' e" "room (a, H) e" "H e \<noteq> []"
  shows "locks_ok (a', H)"
proof -
  note ok = entry_okD [OF assms(1), of e] locks_ok_waiters [OF assms(1)]
  have "locks_ok (a', H(e := H e))"
    using assms(3,4) ok queued_waiters [OF assms(2)]
    by (intro locks_ok_update [OF assms(1)]) (auto simp: room_def)
  then show ?thesis by simp
qed

lemma same_locks_ok: "locks_ok (a, H) \<Longrightarrow> same_waiters a a' \<Longrightarrow> acc a' = acc a \<Longrightarrow> locks_ok (a', H)"
  by (simp add: locks_ok_def same_waiters_of same_waiters_ok) (simp add: same_waiters_def)

lemma entry_ok_one [simp]: "entry_ok OCF_CACHE_LINE_ACCESS_WR [OCF_WRITE]" "entry_ok OCF_CACHE_LINE_ACCESS_ONE_RD [OCF_READ]"
  by (auto simp: entry_ok_def OCF_CACHE_LINE_ACCESS_ONE_RD_def)

lemma wait_wr_ok:
  assumes "locks_ok (a, H)" "room (a, H) e" "lock_one_wr_wait a e req i = Some a'"
  shows "locks_ok (a', if waiters_of a' e = waiters_of a e then H(e := OCF_WRITE # H e) else H)"
  using wait_wr_cases [OF assms(3)]
proof
  assume q: "acc a e \<noteq> OCF_CACHE_LINE_ACCESS_IDLE \<and> queued a a' e"
  then have "waiters_of a' e \<noteq> waiters_of a e" using queued_waiters(5) by fastforce
  moreover have "locks_ok (a', H)"
    using q assms(2) entry_ok_idle [OF entry_okD(1) [OF assms(1), of e]] by (intro queue_ok [OF assms(1)]) auto
  ultimately show ?thesis by simp
qed (use assms(1) try_ok same_waiters_of in auto)

lemma wait_rd_ok:
  assumes "locks_ok (a, H)" "room (a, H) e" "lock_one_rd_wait a e req i = Some a'"
  shows "locks_ok (a', if waiters_of a' e = waiters_of a e then H(e := OCF_READ # H e) else H)"
  using wait_rd_cases [OF assms(3) locks_ok_waiters [OF assms(1)]]
proof
  note ok = entry_okD [OF assms(1), of e] locks_ok_waiters [OF assms(1)]
  assume w: "(waiters_of a e \<noteq> [] \<or> acc a e = OCF_CACHE_LINE_ACCESS_WR) \<and> queued a a' e"
  then have q: "queued a a' e" "H e \<noteq> []" using ok(2) entry_ok_idle [OF ok(1)] by (auto simp: access_defs)
  have "waiters_of a' e \<noteq> waiters_of a e" using queued_waiters(5) [OF q(1)] by auto
  moreover have "locks_ok (a', H)" using queue_ok [OF assms(1) q(1) assms(2) q(2)] .
  ultimately show ?thesis by simp
next
  note ok = entry_okD [OF assms(1), of e] locks_ok_waiters [OF assms(1)]
  assume g: "same_waiters a a' \<and> e < num_entries a \<and> waiters_of a e = [] \<and> acc a e \<noteq> OCF_CACHE_LINE_ACCESS_WR \<and>
    acc a' = (acc a)(e := acc a e + 1)"
  then have same: "same_waiters a a'" by blast
  have "entry_ok (acc a e + 1) (OCF_READ # H e)" using g ok(1) by (auto simp: entry_ok_def)
  then have "locks_ok (a', H(e := OCF_READ # H e))"
    using g ok(5) assms(2) same same_waiters_of [OF same] same_waiters_ok [OF same] same_waiters_entries [OF same]
    by (intro locks_ok_update [OF assms(1)]) (auto simp: room_def)
  then show ?thesis using same_waiters_of [OF same] by simp
qed

lemma unlock_wr_step_ok:
  assumes "locks_ok (a, H)" "OCF_WRITE \<in> set (H e)"
  shows "locks_ok (handed a e (hand_wr (waiters_of a e)),
    H(e := remove1 OCF_WRITE (H e) @ granted a (handed a e (hand_wr (waiters_of a e))) e))"
  using assms entry_ok_writer [OF entry_okD(1) [OF assms(1)] assms(2)] hand_wr_bounds
  by (intro handed_ok [OF assms(1)]) auto

lemma unlock_rd_step_ok:
  assumes "locks_ok (a, H)" "OCF_READ \<in> set (H e)"
  shows "locks_ok (handed a e (hand_rd (acc a e) (waiters_of a e)),
    H(e := remove1 OCF_READ (H e) @ granted a (handed a e (hand_rd (acc a e) (waiters_of a e))) e))"
proof -
  have r: "set (H e) \<subseteq> {OCF_READ}" "acc a e = int (length (H e))" "0 < acc a e"
    using entry_ok_reader [OF entry_okD(1) [OF assms(1)] assms(2)] by auto
  let ?g = "remove1 OCF_READ (H e)"
  have g: "length ?g = length (H e) - 1" using assms(2) by (simp add: length_remove1)
  have len: "set ?g \<subseteq> {OCF_READ}" "int (length ?g) = acc a e - 1"
    using r g set_remove1_subset [of OCF_READ "H e"] by (auto simp: of_nat_diff Suc_le_eq)
  show ?thesis
  proof (rule handed_ok [OF assms(1)])
    show "length ?g < length (H e)" using r g by simp
    show "?g \<noteq> []" if "fst (hand_rd (acc a e) (waiters_of a e)) = 0" "waiters_of a e \<noteq> []"
      using that len(2) hand_rd_bounds(2) [OF r(3)] by fastforce
  qed (use r len hand_rd_bounds [OF r(3)] in auto)
qed

lemma lock_step_ok:
  assumes "lock_step s s'" "locks_ok s"
  shows "locks_ok s'"
  using assms
proof (induction rule: lock_step.induct)
  case (try_wr a e req i a' ok H)
  then show ?case using try_wr_cases [OF try_wr(1)] same_locks_ok try_ok by (cases ok) auto
next
  case (try_rd a e req i a' ok H)
  then show ?case using try_rd_cases [OF try_rd(1)] same_locks_ok try_ok by (cases ok) auto
next
  case (wait_wr a H e req i a')
  then show ?case using wait_wr_ok by blast
next
  case (wait_rd a H e req i a')
  then show ?case using wait_rd_ok by blast
next
  case (unlock_wr H e a a')
  then show ?case using unlock_wr_returns unlock_wr_step_ok by (metis option.inject)
next
  case (unlock_rd H e a a')
  then show ?case using unlock_rd_returns unlock_rd_step_ok by (metis option.inject)
next
  case (give_up a req i e rw a' H)
  then show ?case using give_up_ok by blast
qed

lemma locks_reachable_ok: "lock_step\<^sup>*\<^sup>* s s' \<Longrightarrow> locks_ok s \<Longrightarrow> locks_ok s'"
  by (induction rule: rtranclp_induct) (auto intro: lock_step_ok)

lemma locks_ok_init: "ocf_alock_init_inplace m w al sp n lsts = Some a \<Longrightarrow> locks_ok (a, \<lambda>_. [])"
  by (auto simp: ocf_alock_init_inplace_def locks_ok_def waiters_ok_def waiters_of_def entry_ok_def access_defs
      split: if_splits)

text \<open>An example: request 1 writes entry 3, and requests 2 and 3 wait to read it.\<close>

definition lock_ex :: "nat list \<Rightarrow> ocf_alock" where
  "lock_ex rs = \<lparr>num_entries = 8, lists_no = 4, acc = (\<lambda>_. 0)(3 := OCF_CACHE_LINE_ACCESS_WR),
     waiters_lsts = (\<lambda>_. [])(3 := map (\<lambda>r. \<lparr>w_entry = 3, w_idx = 0, w_req = r, w_rw = OCF_READ\<rparr>) rs), waiting = 0,
     alock_status = (\<lambda>_ _. False)(1 := (\<lambda>_. False)(0 := True)), lock_remaining = (\<lambda>_. 0)(1 := - 1), resumed = []\<rparr>"

definition lock_ex0 :: ocf_alock where
  "lock_ex0 = \<lparr>num_entries = 8, lists_no = 4, acc = (\<lambda>_. 0), waiters_lsts = (\<lambda>_. []), waiting = 0,
     alock_status = (\<lambda>_ _. False), lock_remaining = (\<lambda>_. 0), resumed = []\<rparr>"

lemma lock_ex_init: "ocf_alock_init_inplace True True True True 8 4 = Some lock_ex0"
  by (simp add: ocf_alock_init_inplace_def lock_ex0_def)

lemma lock_ex_waiters: "length (waiters_of (lock_ex rs) 3) = length rs"
  by (simp add: waiters_of_def lock_ex_def waiters_list_item_def)

lemma lock_ex_first: "lock_step (lock_ex0, \<lambda>_. []) (lock_ex [], (\<lambda>_. [])(3 := [OCF_WRITE]))"
proof -
  have "lock_one_wr_try lock_ex0 3 1 0 = Some (lock_ex [], True)"
    by (simp add: lock_one_wr_try_def ocf_alock_trylock_entry_wr_def lock_ex0_def lock_ex_def access_word_def
        env_atomic_cmpxchg_def set_access_def ocf_alock_mark_index_locked_def ocf_alock_entry_locked_def Let_def
        OCF_CACHE_LINE_ACCESS_IDLE_def fun_upd_def)
  from lock_step.try_wr [OF this, of "\<lambda>_. []"] show ?thesis by simp
qed

lemma lock_ex_reach:
  defines "H \<equiv> (\<lambda>_. [])(3 := [OCF_WRITE])"
  shows "lock_step\<^sup>*\<^sup>* (lock_ex0, \<lambda>_. []) (lock_ex [2, 3], H)"
proof -
  have wait: "lock_step (lock_ex rs, H) (lock_ex (rs @ [r]), H)" if "length rs < 2" for rs r
  proof -
    have "lock_one_rd_wait (lock_ex rs) 3 r 0 = Some (lock_ex (rs @ [r]))"
      by (cases rs) (auto simp: lock_one_rd_wait_def ocf_alock_waitlist_is_empty_locked_def ocf_alock_trylock_entry_rd_def
          lock_ex_def waiters_list_item_def access_word_def env_atomic_add_unless_def set_access_def
          ocf_alock_waitlist_add_def Let_def)
    moreover have "room (lock_ex rs, H) 3"
      using that lock_ex_waiters [of rs] by (simp add: room_def H_def access_defs)
    ultimately have "lock_step (lock_ex rs, H)
        (lock_ex (rs @ [r]), if waiters_of (lock_ex (rs @ [r])) 3 = waiters_of (lock_ex rs) 3 then H(3 := OCF_READ # H 3) else H)"
      by (intro lock_step.wait_rd)
    moreover have "waiters_of (lock_ex (rs @ [r])) 3 \<noteq> waiters_of (lock_ex rs) 3"
      using lock_ex_waiters [of rs] lock_ex_waiters [of "rs @ [r]"] by fastforce
    ultimately show ?thesis by simp
  qed
  have "lock_step (lock_ex0, \<lambda>_. []) (lock_ex [], H)" unfolding H_def by (rule lock_ex_first)
  with wait [of "[]" 2] wait [of "[2]" 3] show ?thesis by (simp add: rtranclp.intros)
qed

subsection \<open>Properties\<close>

text \<open>C8. In every state that the lock functions can reach from the initial one, whatever the order in which requests
  run: an entry is held by one writer or by readers only, its lock word says which and how many; an entry that nobody
  holds has no waiters, so no waiter is stranded.\<close>

theorem lock_states_safe:
  assumes "ocf_alock_init_inplace m w al sp n lsts = Some a0" "lock_step\<^sup>*\<^sup>* (a0, \<lambda>_. []) (a, H)"
  shows "(H e = [OCF_WRITE] \<and> acc a e = OCF_CACHE_LINE_ACCESS_WR \<or>
          set (H e) \<subseteq> {OCF_READ} \<and> acc a e = int (length (H e)) \<and> acc a e < OCF_CACHE_LINE_ACCESS_WR) \<and>
         (waiters_of a e \<noteq> [] \<longrightarrow> H e \<noteq> [])"
proof -
  have ok: "locks_ok (a, H)" using locks_reachable_ok [OF assms(2)] locks_ok_init [OF assms(1)] by blast
  show ?thesis using entry_okD [OF ok, of e] by (auto simp: entry_ok_def)
qed

lemma lock_states_safe_witness:
  "ocf_alock_init_inplace True True True True 8 4 = Some lock_ex0 \<and>
   lock_step\<^sup>*\<^sup>* (lock_ex0, \<lambda>_. []) (lock_ex [2, 3], (\<lambda>_. [])(3 := [OCF_WRITE])) \<and>
   acc (lock_ex [2, 3]) 3 = OCF_CACHE_LINE_ACCESS_WR \<and> length (waiters_of (lock_ex [2, 3]) 3) = 2"
  using lock_states_safe [OF lock_ex_init lock_ex_reach, of 3] lock_ex_init lock_ex_reach lock_ex_waiters [of "[2, 3]"]
  by simp



end
