(* ===== verification/Request.thy ===== *)
theory Request
  imports Metadata_Collision Metadata_Status Alock
begin

text \<open>
  Requests (\<open>ocf_request.h\<close>, \<open>ocf_request.c\<close>) and the ranges of sectors that a request
  covers in the lines of its map (\<open>utils/utils_cache_line.h\<close>).

  A request keeps the core lines it covers and, for each of them, a map entry: the result of the
  lookup and what has to be done with the line.  Its lock word and lock bits are in the state of
  \<open>Alock\<close>, under the number of the request.
\<close>

subsection \<open>State\<close>

definition LOOKUP_HIT :: u8 where "LOOKUP_HIT = 5"
definition LOOKUP_MISS :: u8 where "LOOKUP_MISS = 6"
definition LOOKUP_REMAPPED :: u8 where "LOOKUP_REMAPPED = 8"

lemmas lookup_defs = LOOKUP_HIT_def LOOKUP_MISS_def LOOKUP_REMAPPED_def

record ocf_req_info =
  hit_no :: u32
  invalid_no :: u32
  re_part_no :: u32
  seq_no :: u32
  insert_no :: u32
  dirty_all :: u32
  dirty_any :: u32
  flush_metadata :: bool
  mapping_error :: bool
  cleaning_required :: bool
  core_error :: bool
  internal :: bool

record ocf_map_info =
  m_hash :: u32
  coll_idx :: u32
  m_core_line :: u64
  m_core_id :: u16
  status :: u8
  invalid :: bool
  re_part :: bool
  m_flush :: bool
  start_flush :: u8
  stop_flush :: u8

text \<open>\<open>req_core\<close> is the identifier of the core object of the request, \<open>req_no\<close> its number.\<close>

record ocf_request =
  req_no :: nat
  req_core :: u16
  byte_position :: u64
  byte_length :: u32
  core_line_first :: u64
  core_line_last :: u64
  core_line_count :: u32
  req_rw :: rw
  req_part_id :: u16
  part_evict :: bool
  alock_rw :: rw
  req_info :: ocf_req_info
  req_map :: "ocf_map_info list"

definition zero_info :: ocf_req_info where
  "zero_info = \<lparr>hit_no = 0, invalid_no = 0, re_part_no = 0, seq_no = 0, insert_no = 0, dirty_all = 0, dirty_any = 0,
     flush_metadata = False, mapping_error = False, cleaning_required = False, core_error = False, internal = False\<rparr>"

definition zero_map :: ocf_map_info where
  "zero_map = \<lparr>m_hash = 0, coll_idx = 0, m_core_line = 0, m_core_id = 0, status = 0, invalid = False, re_part = False,
     m_flush = False, start_flush = 0, stop_flush = 0\<rparr>"

subsection \<open>Geometry\<close>

definition BYTES_TO_SECTORS :: "u64 \<Rightarrow> u64" where "BYTES_TO_SECTORS x = drop_bit 9 x"

definition ocf_line_sectors :: "('s :: len) ocf_cache \<Rightarrow> u64" where "ocf_line_sectors cache = sector_count cache"
definition ocf_line_end_sector :: "('s :: len) ocf_cache \<Rightarrow> u64" where "ocf_line_end_sector cache = sector_end cache"
definition ocf_line_start_sector :: "('s :: len) ocf_cache \<Rightarrow> u64" where "ocf_line_start_sector cache = sector_start cache"

text \<open>A new request; both ways of allocating the map leave it zeroed, with one entry for each core line.\<close>

definition ocf_req_new :: "('s :: len) ocf_cache \<Rightarrow> nat \<Rightarrow> u16 \<Rightarrow> u64 \<Rightarrow> u32 \<Rightarrow> rw \<Rightarrow> ocf_request" where
  "ocf_req_new cache no core addr bytes rw = (
     let (first, last, count) =
           (if bytes \<noteq> 0 then
              let first = ocf_bytes_2_lines cache addr;
                  last = ocf_bytes_2_lines cache (addr + ucast bytes - 1)
              in (first, last, last - first + 1)
            else
              let first = ocf_bytes_2_lines cache addr in (first, first, 1))
     in \<lparr>req_no = no, req_core = core, byte_position = addr, byte_length = bytes, core_line_first = first,
         core_line_last = last, core_line_count = ucast count, req_rw = rw, req_part_id = PARTITION_DEFAULT,
         part_evict = False, alock_rw = OCF_READ, req_info = zero_info, req_map = replicate (unat count) zero_map\<rparr>)"

definition ocf_map_line_start_sector :: "('s :: len) ocf_cache \<Rightarrow> ocf_request \<Rightarrow> u32 \<Rightarrow> u8" where
  "ocf_map_line_start_sector cache req line =
     (if line = 0 then ucast (BYTES_TO_SECTORS (byte_position req) mod ocf_line_sectors cache) else 0)"

definition ocf_map_line_end_sector :: "('s :: len) ocf_cache \<Rightarrow> ocf_request \<Rightarrow> u32 \<Rightarrow> u8" where
  "ocf_map_line_end_sector cache req line =
     (if line = core_line_count req - 1
      then ucast (BYTES_TO_SECTORS (byte_position req + ucast (byte_length req) - 1) mod ocf_line_sectors cache)
      else ucast (ocf_line_end_sector cache))"

subsection \<open>Fields\<close>

definition ocf_req_clear_info :: "ocf_request \<Rightarrow> ocf_request" where
  "ocf_req_clear_info req = req\<lparr>req_info := zero_info\<rparr>"

definition ocf_req_clear_map :: "ocf_request \<Rightarrow> ocf_request" where
  "ocf_req_clear_map req = req\<lparr>req_map :=
     map (\<lambda>(i, e). if i < unat (core_line_count req) then zero_map else e) (enumerate 0 (req_map req))\<rparr>"

definition ocf_req_hash :: "('s :: len) ocf_cache \<Rightarrow> ocf_request \<Rightarrow> ocf_request" where
  "ocf_req_hash cache req = req\<lparr>req_map :=
     map (\<lambda>(i, e). if i < unat (core_line_count req)
            then e\<lparr>m_hash := ocf_metadata_hash_func cache (core_line_first req + of_nat i) (req_core req)\<rparr> else e)
         (enumerate 0 (req_map req))\<rparr>"

definition ocf_req_set_part_evict :: "ocf_request \<Rightarrow> ocf_request" where
  "ocf_req_set_part_evict req = req\<lparr>part_evict := True\<rparr>"

definition ocf_req_clear_part_evict :: "ocf_request \<Rightarrow> ocf_request" where
  "ocf_req_clear_part_evict req = req\<lparr>part_evict := False\<rparr>"

definition ocf_req_set_mapping_error :: "ocf_request \<Rightarrow> ocf_request" where
  "ocf_req_set_mapping_error req = req\<lparr>req_info := (req_info req)\<lparr>mapping_error := True\<rparr>\<rparr>"

definition ocf_req_test_mapping_error :: "ocf_request \<Rightarrow> bool" where
  "ocf_req_test_mapping_error req = mapping_error (req_info req)"

definition ocf_req_set_cleaning_required :: "ocf_request \<Rightarrow> ocf_request" where
  "ocf_req_set_cleaning_required req = req\<lparr>req_info := (req_info req)\<lparr>cleaning_required := True\<rparr>\<rparr>"

definition ocf_req_is_cleaning_required :: "ocf_request \<Rightarrow> bool" where
  "ocf_req_is_cleaning_required req = cleaning_required (req_info req)"

text \<open>\<open>req->map[i]\<close>.\<close>

definition map_entry :: "ocf_request \<Rightarrow> u32 \<Rightarrow> ocf_map_info option" where
  "map_entry req i = (if unat i < length (req_map req) then Some (req_map req ! unat i) else None)"

definition set_map_entry :: "ocf_request \<Rightarrow> u32 \<Rightarrow> ocf_map_info \<Rightarrow> ocf_request" where
  "set_map_entry req i e = req\<lparr>req_map := (req_map req)[unat i := e]\<rparr>"

subsection \<open>The sectors of a request\<close>

text \<open>Cutting the range from \<open>A\<close> to \<open>B\<close> at the multiples of \<open>S\<close>.\<close>

lemma cut_low:
  fixes A L S :: nat
  assumes "A div S \<le> L" "0 < S"
  shows "L * S + (if L = A div S then A mod S else 0) = max A (L * S)"
proof (cases "L = A div S")
  case False
  then have "(A div S + 1) * S \<le> L * S" using assms(1) by (intro mult_right_mono) auto
  moreover have "A < (A div S + 1) * S" using dividend_less_div_times [OF assms(2), of A] by simp
  ultimately show ?thesis using False by simp
qed simp

lemma cut_high:
  fixes B L S :: nat
  assumes "L \<le> B div S" "0 < S"
  shows "L * S + (if L = B div S then B mod S else S - 1) = min B (L * S + (S - 1))"
proof (cases "L = B div S")
  case True
  have "B mod S \<le> S - 1" using mod_less_divisor [OF assms(2), of B] by linarith
  then have "B \<le> B div S * S + (S - 1)" using div_mult_mod_eq [of B S] by linarith
  then show ?thesis using True by (simp add: min_def)
next
  case False
  then have "(L + 1) * S \<le> B div S * S" using assms(1) by (intro mult_right_mono) auto
  then have "L * S + S \<le> B div S * S" by (simp add: add.commute)
  then have "L * S + S \<le> B" by (rule order_trans) simp
  then show ?thesis using False by simp
qed

lemma cut_nonempty:
  fixes A B L S :: nat
  assumes "A \<le> B" "A div S \<le> L" "L \<le> B div S" "0 < S"
  shows "max A (L * S) \<le> min B (L * S + (S - 1))"
proof -
  have "A < (A div S + 1) * S" using dividend_less_div_times [OF assms(4), of A] by simp
  also have "\<dots> \<le> (L + 1) * S" using assms(2) by (intro mult_right_mono) auto
  finally have "A \<le> L * S + (S - 1)" using assms(4) by simp
  moreover have "L * S \<le> B" using mult_right_mono [OF assms(3), of S] by (rule order_trans) simp_all
  ultimately show ?thesis using assms(1) by simp
qed

lemma cut_lines:
  fixes A B S :: nat
  assumes "A \<le> B" "0 < S"
  shows "(\<Union>L\<in>{A div S..B div S}. {L * S + (if L = A div S then A mod S else 0) ..
           L * S + (if L = B div S then B mod S else S - 1)}) = {A..B}"
proof -
  have "{L * S + (if L = A div S then A mod S else 0) .. L * S + (if L = B div S then B mod S else S - 1)} =
      {x \<in> {A..B}. x div S = L}" if "L \<in> {A div S..B div S}" for L
  proof -
    have "x div S = L \<longleftrightarrow> L * S \<le> x \<and> x \<le> L * S + (S - 1)" for x
    proof
      assume "x div S = L"
      then show "L * S \<le> x \<and> x \<le> L * S + (S - 1)"
        using dividend_less_div_times [OF assms(2), of x] div_times_less_eq_dividend [of x S] assms(2) by auto
    next
      assume "L * S \<le> x \<and> x \<le> L * S + (S - 1)"
      then show "x div S = L" using assms(2) by (intro div_nat_eqI) (auto simp: mult.commute)
    qed
    then have "{x \<in> {A..B}. x div S = L} = {max A (L * S) .. min B (L * S + (S - 1))}" by (intro set_eqI) (simp, blast)
    moreover have "A div S \<le> L" "L \<le> B div S" using that by simp_all
    ultimately show ?thesis using cut_low [OF _ assms(2), of A L] cut_high [OF _ assms(2), of L B] by metis
  qed
  then have "(\<Union>L\<in>{A div S..B div S}. {L * S + (if L = A div S then A mod S else 0) ..
      L * S + (if L = B div S then B mod S else S - 1)}) = (\<Union>L\<in>{A div S..B div S}. {x \<in> {A..B}. x div S = L})"
    by (intro SUP_cong) auto
  also have "\<dots> = {A..B}" by (auto simp: div_le_mono)
  finally show ?thesis .
qed

lemma settings_sectors:
  assumes "settings_ok cache"
  shows "unat (ocf_line_sectors cache) = Suc (unat (ocf_line_end_sector cache))" "unat (ocf_line_sectors cache) \<le> 128"
    "0 < unat (ocf_line_sectors cache)" "unat (line_size_bytes (size cache)) = 512 * unat (ocf_line_sectors cache)"
  using assms by (cases "size cache"; simp add: settings_ok_def ocf_line_sectors_def ocf_line_end_sector_def)+

lemma unat_BYTES_TO_SECTORS: "unat (BYTES_TO_SECTORS x) = unat x div 512"
  by (simp add: BYTES_TO_SECTORS_def drop_bit_eq_div unat_div_distrib)

lemma unat_ucast_u8: "unat w < 256 \<Longrightarrow> unat (ucast (w :: u64) :: u8) = unat w"
  by (simp add: unsigned_ucast_eq take_bit_nat_eq_self)

text \<open>A request that does not reach over the end of the address space, in numbers: its first and last sector.\<close>

definition first_sector :: "ocf_request \<Rightarrow> nat" where
  "first_sector req = unat (byte_position req) div 512"

definition last_sector :: "ocf_request \<Rightarrow> nat" where
  "last_sector req = (unat (byte_position req) + unat (byte_length req) - 1) div 512"

lemma div_diff_le: "a div S - b div S \<le> a - b" if "0 < (S :: nat)"
proof -
  have "(b + k) div S \<le> b div S + k" for k by (induction k) (auto simp: div_Suc)
  from this [of "a - b"] show ?thesis using div_le_mono [of a b S] by (cases "b \<le> a") auto
qed

lemma unat_end_addr:
  assumes "bytes \<noteq> 0" "unat addr + unat bytes \<le> 2 ^ 64"
  shows "unat ((addr :: u64) + ucast (bytes :: u32) - 1) = unat addr + unat bytes - 1"
proof -
  have b: "0 < unat bytes" using assms(1) by (simp add: unat_gt_0)
  have l: "unat (ucast bytes - 1 :: u64) = unat bytes - 1" using b by (simp add: unat_sub_nowrap unat_ucast_u64)
  have "unat (addr + (ucast bytes - 1)) = unat addr + unat (ucast bytes - 1 :: u64)"
    using assms(2) b l by (intro unat_add_nowrap) simp
  then show ?thesis using l b by (simp add: add_diff_eq)
qed

lemma req_new_lines:
  fixes cache :: "('s :: len) ocf_cache"
  assumes "settings_ok cache" "bytes \<noteq> 0" "unat addr + unat bytes \<le> 2 ^ 64"
    and req_def: "req = ocf_req_new cache no core addr bytes rw"
  defines "S \<equiv> unat (ocf_line_sectors cache)"
  shows "unat (core_line_first req) = first_sector req div S" "unat (core_line_last req) = last_sector req div S"
    "unat (core_line_count req) = last_sector req div S - first_sector req div S + 1"
    "length (req_map req) = unat (core_line_count req)" "first_sector req \<le> last_sector req"
proof -
  let ?stop = "addr + ucast bytes - 1"
  have b: "0 < unat bytes" using assms(2) by (simp add: unat_gt_0)
  note e = unat_end_addr [OF assms(2,3)]
  note sz = settings_sectors [OF assms(1)]
  have f: "unat (ocf_bytes_2_lines cache x) = unat x div 512 div S" for x
    by (simp add: ocf_bytes_2_lines_def unat_div_distrib sz(4) S_def div_mult2_eq)
  show 1: "unat (core_line_first req) = first_sector req div S" "unat (core_line_last req) = last_sector req div S"
    using assms(2) e by (simp_all add: req_def ocf_req_new_def Let_def f first_sector_def last_sector_def)
  show le: "first_sector req \<le> last_sector req"
    using assms(2) b by (simp add: req_def ocf_req_new_def Let_def first_sector_def last_sector_def div_le_mono)
  let ?n = "last_sector req div S - first_sector req div S + 1"
  let ?c = "core_line_last req - core_line_first req + 1"
  have lines: "first_sector req div S \<le> last_sector req div S" using le by (rule div_le_mono)
  have "last_sector req - first_sector req \<le> unat bytes - 1"
    using div_diff_le [of 512 "unat addr + unat bytes - 1" "unat addr"] assms(2) b
    by (simp add: req_def ocf_req_new_def Let_def first_sector_def last_sector_def)
  then have "?n \<le> unat bytes"
    using div_diff_le [of S "last_sector req" "first_sector req"] sz(3) b by (simp add: S_def)
  then have n: "?n < 2 ^ 32" using unsigned_less [of bytes, where ?'a = nat] by simp
  have c: "unat ?c = ?n" using 1 lines n by (simp add: unat_add_nowrap unat_sub_nowrap)
  have "core_line_count req = ucast ?c" "length (req_map req) = unat ?c"
    using assms(2) by (simp_all add: req_def ocf_req_new_def Let_def)
  moreover have "unat (ucast ?c :: u32) = unat ?c" using c n by (simp add: unsigned_ucast_eq take_bit_nat_eq_self)
  ultimately show "unat (core_line_count req) = ?n" "length (req_map req) = unat (core_line_count req)"
    using c by simp_all
qed

lemma req_new_sectors:
  fixes cache :: "('s :: len) ocf_cache"
  assumes "settings_ok cache" "bytes \<noteq> 0" "unat addr + unat bytes \<le> 2 ^ 64"
    and req_def: "req = ocf_req_new cache no core addr bytes rw" and S: "S = unat (ocf_line_sectors cache)"
    and i: "i < core_line_count req"
  defines "L \<equiv> first_sector req div S + unat i"
  shows "L \<le> last_sector req div S"
    "unat (ocf_map_line_start_sector cache req i) = (if L = first_sector req div S then first_sector req mod S else 0)"
    "unat (ocf_map_line_end_sector cache req i) = (if L = last_sector req div S then last_sector req mod S else S - 1)"
proof -
  note sz = settings_sectors [OF assms(1)]
  note lines = req_new_lines [OF assms(1-4), folded S]
  have le: "first_sector req div S \<le> last_sector req div S" using lines(5) by (rule div_le_mono)
  have pos: "byte_position req = addr" "byte_length req = bytes"
    by (simp_all add: req_def ocf_req_new_def Let_def split: prod.split)
  show "L \<le> last_sector req div S" using i lines(3) le by (simp add: L_def word_less_nat_alt)
  have "core_line_count req \<noteq> 0" using i by auto
  then have "unat (core_line_count req - 1) = unat (core_line_count req) - 1" by (simp add: unat_sub_nowrap unat_gt_0 Suc_leI)
  then have last: "i = core_line_count req - 1 \<longleftrightarrow> L = last_sector req div S"
    using lines(3) le by (auto simp: L_def word_unat_eq_iff)
  have small: "x mod S < 256" for x using sz(2,3) S mod_less_divisor [of S x] by linarith
  have u8: "unat (ucast (BYTES_TO_SECTORS x mod ocf_line_sectors cache) :: u8) = unat x div 512 mod S" for x
    using small S by (simp add: unat_ucast_u8 unat_mod_distrib unat_BYTES_TO_SECTORS)
  have e: "unat (addr + ucast bytes - 1) = unat addr + unat bytes - 1" by (rule unat_end_addr [OF assms(2,3)])
  show "unat (ocf_map_line_start_sector cache req i) = (if L = first_sector req div S then first_sector req mod S else 0)"
    by (simp add: ocf_map_line_start_sector_def u8 L_def pos first_sector_def unat_eq_0)
  show "unat (ocf_map_line_end_sector cache req i) = (if L = last_sector req div S then last_sector req mod S else S - 1)"
    using sz S by (simp add: ocf_map_line_end_sector_def last u8 pos last_sector_def e unat_ucast_u8)
qed

lemma req_new_ranges:
  fixes cache :: "('s :: len) ocf_cache"
  assumes "settings_ok cache" "bytes \<noteq> 0" "unat addr + unat bytes \<le> 2 ^ 64"
    and "req = ocf_req_new cache no core addr bytes rw" "S = unat (ocf_line_sectors cache)" and i: "i < core_line_count req"
  shows "ocf_map_line_start_sector cache req i \<le> ocf_map_line_end_sector cache req i \<and>
    unat (ocf_map_line_end_sector cache req i) < S"
proof -
  let ?A = "first_sector req" and ?B = "last_sector req"
  let ?lo = "\<lambda>L. L * S + (if L = ?A div S then ?A mod S else 0)" and ?hi = "\<lambda>L. L * S + (if L = ?B div S then ?B mod S else S - 1)"
  let ?L = "?A div S + unat i"
  have S: "0 < S" using settings_sectors [OF assms(1)] assms(5) by simp
  note lines = req_new_lines [OF assms(1-4), folded assms(5)]
  note sec = req_new_sectors [OF assms]
  have "?lo ?L \<le> ?hi ?L" unfolding cut_low [OF le_add1 S] cut_high [OF sec(1) S]
    using lines(5) sec(1) S by (intro cut_nonempty) auto
  moreover have "?B mod S < S" using S by simp
  ultimately show ?thesis using sec S by (auto simp: word_le_nat_alt)
qed

lemma req_new_union:
  fixes cache :: "('s :: len) ocf_cache"
  assumes "settings_ok cache" "bytes \<noteq> 0" "unat addr + unat bytes \<le> 2 ^ 64"
    and "req = ocf_req_new cache no core addr bytes rw" "S = unat (ocf_line_sectors cache)"
  shows "(\<Union>i\<in>{i. i < core_line_count req}.
       {(unat (core_line_first req) + unat i) * S + unat (ocf_map_line_start_sector cache req i) ..
        (unat (core_line_first req) + unat i) * S + unat (ocf_map_line_end_sector cache req i)})
      = {unat addr div 512 .. (unat addr + unat bytes - 1) div 512}"
proof -
  let ?A = "first_sector req" and ?B = "last_sector req"
  let ?lo = "\<lambda>L. L * S + (if L = ?A div S then ?A mod S else 0)" and ?hi = "\<lambda>L. L * S + (if L = ?B div S then ?B mod S else S - 1)"
  have S: "0 < S" using settings_sectors [OF assms(1)] assms(5) by simp
  note lines = req_new_lines [OF assms(1-4), folded assms(5)]
  note sec = req_new_sectors [OF assms]
  have AB: "unat addr div 512 = ?A" "(unat addr + unat bytes - 1) div 512 = ?B"
    by (simp_all add: first_sector_def last_sector_def assms(4) ocf_req_new_def Let_def split: prod.split)
  have le: "?A div S \<le> ?B div S" using lines(5) by (rule div_le_mono)
  have "{?A div S..?B div S} = (\<lambda>i. ?A div S + unat i) ` {i. i < core_line_count req}"
  proof (intro equalityI subsetI)
    fix L assume L: "L \<in> {?A div S..?B div S}"
    then have "L - ?A div S < unat (core_line_count req)" using lines(3) le by auto
    then have "of_nat (L - ?A div S) < core_line_count req" "unat (of_nat (L - ?A div S) :: u32) = L - ?A div S"
      using unsigned_less [of "core_line_count req", where ?'a = nat] by (auto simp: word_less_nat_alt unat_of_nat_u32)
    then show "L \<in> (\<lambda>i. ?A div S + unat i) ` {i. i < core_line_count req}"
      using L by (intro image_eqI [of _ _ "of_nat (L - ?A div S)"]) auto
  qed (use sec(1) in auto)
  then have "(\<Union>i\<in>{i. i < core_line_count req}.
       {(unat (core_line_first req) + unat i) * S + unat (ocf_map_line_start_sector cache req i) ..
        (unat (core_line_first req) + unat i) * S + unat (ocf_map_line_end_sector cache req i)}) =
      (\<Union>L\<in>{?A div S..?B div S}. {?lo L..?hi L})"
    using sec lines(1) by simp
  then show ?thesis unfolding AB using cut_lines [OF lines(5) S] by simp
qed

text \<open>C33. The map of a new request covers its sectors: the ranges from the start sector to the end sector of its
  lines, as the engines compute them, lie within the lines and together are exactly the sectors of the request.\<close>

theorem request_covers_sectors:
  fixes cache :: "('s :: len) ocf_cache"
  assumes "settings_ok cache" "bytes \<noteq> 0" "unat addr + unat bytes \<le> 2 ^ 64"
    and "req = ocf_req_new cache no core addr bytes rw" "S = unat (ocf_line_sectors cache)"
  shows "length (req_map req) = unat (core_line_count req) \<and>
    (\<forall>i < core_line_count req. ocf_map_line_start_sector cache req i \<le> ocf_map_line_end_sector cache req i \<and>
        unat (ocf_map_line_end_sector cache req i) < S) \<and>
    (\<Union>i\<in>{i. i < core_line_count req}.
       {(unat (core_line_first req) + unat i) * S + unat (ocf_map_line_start_sector cache req i) ..
        (unat (core_line_first req) + unat i) * S + unat (ocf_map_line_end_sector cache req i)})
      = {unat addr div 512 .. (unat addr + unat bytes - 1) div 512}"
  using req_new_lines(4) [OF assms(1-4)] req_new_ranges [OF assms] req_new_union [OF assms] by blast

lemma request_covers_sectors_witness:
  defines "req \<equiv> ocf_req_new status_cache 1 0 6144 8192 OCF_READ"
  shows "unat (core_line_count req) = 3 \<and>
    (\<Union>i\<in>{i. i < core_line_count req}.
       {(unat (core_line_first req) + unat i) * 8 + unat (ocf_map_line_start_sector status_cache req i) ..
        (unat (core_line_first req) + unat i) * 8 + unat (ocf_map_line_end_sector status_cache req i)}) = {12..27}"
proof -
  have ok: "settings_ok status_cache" by (simp add: status_cache_def settings_ok_def)
  have S: "8 = unat (ocf_line_sectors status_cache)" by (simp add: ocf_line_sectors_def status_cache_def)
  have "unat (core_line_count req) = 3"
    by (simp add: req_def ocf_req_new_def ocf_bytes_2_lines_def status_cache_def)
  then show ?thesis
    using request_covers_sectors [OF ok, of 8192 6144 req 1 0 OCF_READ 8] S by (simp add: req_def)
qed

end
