(* ===== verification/Metadata_Locks.thy ===== *)
theory Metadata_Locks
  imports Request
begin

text \<open>
  The locks of the metadata (\<open>concurrency/ocf_metadata_concurrency.c\<close>): the global locks, the locks of hash buckets and of collision
  pages, and the way in which a request locks the buckets of its core lines.

  The macros that iterate over the buckets of a request are functions here.  The functions that lock and unlock are lists of
  instructions on semaphores; threads that run such lists form a state machine, in which a semaphore is granted to one writer or to any
  number of readers.
\<close>

subsection \<open>The buckets of a request\<close>

text \<open>The macros, as functions of the number of buckets \<open>N\<close>, the first and the last hash value of the map and the number of core lines.\<close>

definition IS_MONOTONIC :: "u32 \<Rightarrow> u32 \<Rightarrow> u32 \<Rightarrow> bool" where
  "IS_MONOTONIC N first n \<longleftrightarrow> first + n \<le> N"

definition MIN_HASH :: "u32 \<Rightarrow> u32 \<Rightarrow> u32 \<Rightarrow> u32" where
  "MIN_HASH N first n = (if IS_MONOTONIC N first n then first else 0)"

definition MAX_HASH :: "u32 \<Rightarrow> u32 \<Rightarrow> u32 \<Rightarrow> u32 \<Rightarrow> u32" where
  "MAX_HASH N first lst n = (if IS_MONOTONIC N first n then lst else N - 1)"

definition HASH_COUNT :: "u32 \<Rightarrow> u32 \<Rightarrow> u32" where
  "HASH_COUNT N n = (if n < N then n else N)"

definition HAS_GAP :: "u32 \<Rightarrow> u32 \<Rightarrow> u32 \<Rightarrow> u32 \<Rightarrow> bool" where
  "HAS_GAP N first lst n \<longleftrightarrow> MAX_HASH N first lst n - MIN_HASH N first n + 1 > HASH_COUNT N n"

definition GAP_VAL :: "u32 \<Rightarrow> u32 \<Rightarrow> u32 \<Rightarrow> u32 \<Rightarrow> u32" where
  "GAP_VAL N first lst n = (MAX_HASH N first lst n - MIN_HASH N first n + 1) - HASH_COUNT N n"

definition HASH_NEXT :: "u32 \<Rightarrow> u32 \<Rightarrow> u32 \<Rightarrow> u32 \<Rightarrow> u32 \<Rightarrow> u32" where
  "HASH_NEXT N first lst n h = h + 1 + (if HAS_GAP N first lst n \<and> h = lst then GAP_VAL N first lst n else 0)"

text \<open>The values of \<open>hash\<close> in the loop \<open>for_each_req_hash_asc\<close>, from \<open>h\<close> on.\<close>

partial_function (option) hashes_from :: "u32 \<Rightarrow> u32 \<Rightarrow> u32 \<Rightarrow> u32 \<Rightarrow> u32 \<Rightarrow> u32 list option" where
  "hashes_from N first lst n h =
     (if h \<le> MAX_HASH N first lst n
      then hashes_from N first lst n (HASH_NEXT N first lst n h) \<bind> (\<lambda>hs. Some (h # hs)) else Some [])"

definition for_each_req_hash_asc :: "('s :: len) ocf_cache \<Rightarrow> ocf_request \<Rightarrow> u32 list option" where
  "for_each_req_hash_asc cache req = do {
     e0 \<leftarrow> map_entry req 0;
     e1 \<leftarrow> map_entry req (core_line_count req - 1);
     let N = hash_table_entries cache;
     hashes_from N (m_hash e0) (m_hash e1) (core_line_count req) (MIN_HASH N (m_hash e0) (core_line_count req))
   }"

definition ocf_req_hash_in_range :: "('s :: len) ocf_cache \<Rightarrow> ocf_request \<Rightarrow> u16 \<Rightarrow> u64 \<Rightarrow> bool option" where
  "ocf_req_hash_in_range cache req cid cl = do {
     e0 \<leftarrow> map_entry req 0;
     e1 \<leftarrow> map_entry req (core_line_count req - 1);
     let N = hash_table_entries cache;
     let n = core_line_count req;
     let first = m_hash e0;
     let lst = m_hash e1;
     let h = ocf_metadata_hash_func cache cl cid;
     Some (if \<not> HAS_GAP N first lst n then h \<ge> MIN_HASH N first n \<and> h \<le> MAX_HASH N first lst n
           else (h \<ge> MIN_HASH N first n \<and> h \<le> lst) \<or> (h > lst + GAP_VAL N first lst n \<and> h \<le> MAX_HASH N first lst n))
   }"

subsection \<open>Locks\<close>

datatype lock_id = Global nat | Hash u32 | Page u32

fun lock_rank :: "lock_id \<Rightarrow> nat \<times> nat" where
  "lock_rank (Global i) = (0, i)"
| "lock_rank (Hash h) = (1, unat h)"
| "lock_rank (Page p) = (2, unat p)"

instantiation lock_id :: linorder
begin

definition less_eq_lock_id :: "lock_id \<Rightarrow> lock_id \<Rightarrow> bool" where
  "a \<le> b \<longleftrightarrow> fst (lock_rank a) < fst (lock_rank b) \<or> fst (lock_rank a) = fst (lock_rank b) \<and> snd (lock_rank a) \<le> snd (lock_rank b)"

definition less_lock_id :: "lock_id \<Rightarrow> lock_id \<Rightarrow> bool" where
  "a < b \<longleftrightarrow> fst (lock_rank a) < fst (lock_rank b) \<or> fst (lock_rank a) = fst (lock_rank b) \<and> snd (lock_rank a) < snd (lock_rank b)"

instance
proof
  fix a b :: lock_id
  assume "a \<le> b" "b \<le> a"
  then have "lock_rank a = lock_rank b" by (auto simp: less_eq_lock_id_def prod_eq_iff)
  then show "a = b" by (cases a; cases b) (auto simp: word_unat_eq_iff)
qed (auto simp: less_eq_lock_id_def less_lock_id_def)

end

datatype lock_instr = Lock rw lock_id | Unlock rw lock_id

definition OCF_NUM_GLOBAL_META_LOCKS :: nat where "OCF_NUM_GLOBAL_META_LOCKS = 4"

definition ocf_metadata_start_exclusive_access :: "lock_instr list" where
  "ocf_metadata_start_exclusive_access = map (\<lambda>i. Lock OCF_WRITE (Global i)) [0..<OCF_NUM_GLOBAL_META_LOCKS]"

definition ocf_metadata_end_exclusive_access :: "lock_instr list" where
  "ocf_metadata_end_exclusive_access = map (\<lambda>i. Unlock OCF_WRITE (Global (i - 1))) (rev [1..<OCF_NUM_GLOBAL_META_LOCKS + 1])"

definition ocf_metadata_start_shared_access :: "nat \<Rightarrow> lock_instr list" where
  "ocf_metadata_start_shared_access lock_idx = [Lock OCF_READ (Global lock_idx)]"

definition ocf_metadata_end_shared_access :: "nat \<Rightarrow> lock_instr list" where
  "ocf_metadata_end_shared_access lock_idx = [Unlock OCF_READ (Global lock_idx)]"

definition ocf_hb_id_naked_lock :: "('s :: len) ocf_cache \<Rightarrow> rw \<Rightarrow> u32 \<Rightarrow> lock_instr list option" where
  "ocf_hb_id_naked_lock cache rw h = do { ENV_BUG_ON (h \<ge> hash_table_entries cache); Some [Lock rw (Hash h)] }"

definition ocf_hb_id_naked_unlock :: "('s :: len) ocf_cache \<Rightarrow> rw \<Rightarrow> u32 \<Rightarrow> lock_instr list option" where
  "ocf_hb_id_naked_unlock cache rw h = do { ENV_BUG_ON (h \<ge> hash_table_entries cache); Some [Unlock rw (Hash h)] }"

definition ocf_hb_id_prot_lock :: "('s :: len) ocf_cache \<Rightarrow> nat \<Rightarrow> rw \<Rightarrow> u32 \<Rightarrow> lock_instr list option" where
  "ocf_hb_id_prot_lock cache lock_idx rw h = map_option ((@) (ocf_metadata_start_shared_access lock_idx)) (ocf_hb_id_naked_lock cache rw h)"

definition ocf_hb_id_prot_unlock :: "('s :: len) ocf_cache \<Rightarrow> nat \<Rightarrow> rw \<Rightarrow> u32 \<Rightarrow> lock_instr list option" where
  "ocf_hb_id_prot_unlock cache lock_idx rw h =
     map_option (\<lambda>p. p @ ocf_metadata_end_shared_access lock_idx) (ocf_hb_id_naked_unlock cache rw h)"

definition ocf_hb_cline_prot_lock :: "('s :: len) ocf_cache \<Rightarrow> nat \<Rightarrow> rw \<Rightarrow> u16 \<Rightarrow> u64 \<Rightarrow> lock_instr list option" where
  "ocf_hb_cline_prot_lock cache lock_idx rw cid cl = ocf_hb_id_prot_lock cache lock_idx rw (ocf_metadata_hash_func cache cl cid)"

definition ocf_hb_cline_prot_unlock :: "('s :: len) ocf_cache \<Rightarrow> nat \<Rightarrow> rw \<Rightarrow> u16 \<Rightarrow> u64 \<Rightarrow> lock_instr list option" where
  "ocf_hb_cline_prot_unlock cache lock_idx rw cid cl = ocf_hb_id_prot_unlock cache lock_idx rw (ocf_metadata_hash_func cache cl cid)"

text \<open>The loops over the buckets of a request.\<close>

fun all_buckets :: "(u32 \<Rightarrow> lock_instr list option) \<Rightarrow> u32 list \<Rightarrow> lock_instr list option" where
  "all_buckets f [] = Some []"
| "all_buckets f (h # hs) = do { p \<leftarrow> f h; q \<leftarrow> all_buckets f hs; Some (p @ q) }"

definition ocf_hb_req_prot_lock :: "('s :: len) ocf_cache \<Rightarrow> nat \<Rightarrow> rw \<Rightarrow> ocf_request \<Rightarrow> lock_instr list option" where
  "ocf_hb_req_prot_lock cache lock_idx rw req = do {
     hs \<leftarrow> for_each_req_hash_asc cache req;
     p \<leftarrow> all_buckets (ocf_hb_id_naked_lock cache rw) hs;
     Some (ocf_metadata_start_shared_access lock_idx @ p)
   }"

definition ocf_hb_req_prot_unlock :: "('s :: len) ocf_cache \<Rightarrow> nat \<Rightarrow> rw \<Rightarrow> ocf_request \<Rightarrow> lock_instr list option" where
  "ocf_hb_req_prot_unlock cache lock_idx rw req = do {
     hs \<leftarrow> for_each_req_hash_asc cache req;
     p \<leftarrow> all_buckets (ocf_hb_id_naked_unlock cache rw) hs;
     Some (p @ ocf_metadata_end_shared_access lock_idx)
   }"

definition ocf_hb_req_prot_lock_upgrade :: "('s :: len) ocf_cache \<Rightarrow> ocf_request \<Rightarrow> lock_instr list option" where
  "ocf_hb_req_prot_lock_upgrade cache req = do {
     hs \<leftarrow> for_each_req_hash_asc cache req;
     p \<leftarrow> all_buckets (ocf_hb_id_naked_unlock cache OCF_READ) hs;
     q \<leftarrow> all_buckets (ocf_hb_id_naked_lock cache OCF_WRITE) hs;
     Some (p @ q)
   }"

definition ocf_collision_start_access :: "rw \<Rightarrow> u32 \<Rightarrow> lock_instr list" where
  "ocf_collision_start_access rw page = [Lock rw (Page page)]"

definition ocf_collision_end_access :: "rw \<Rightarrow> u32 \<Rightarrow> lock_instr list" where
  "ocf_collision_end_access rw page = [Unlock rw (Page page)]"

subsection \<open>Threads\<close>

record lock_thread =
  prog :: "lock_instr list"
  held_locks :: "(lock_id \<times> rw) set"

type_synonym lock_threads = "nat \<Rightarrow> lock_thread"

text \<open>A semaphore is granted to a reader when no thread holds it for writing, to a writer when no thread holds it.\<close>

definition grantable :: "lock_threads \<Rightarrow> rw \<Rightarrow> lock_id \<Rightarrow> bool" where
  "grantable s m l \<longleftrightarrow> (\<forall>j m'. (l, m') \<in> held_locks (s j) \<longrightarrow> m = OCF_READ \<and> m' = OCF_READ)"

inductive sem_step :: "lock_threads \<Rightarrow> lock_threads \<Rightarrow> bool" where
  down: "prog (s i) = Lock m l # p \<Longrightarrow> grantable s m l \<Longrightarrow>
    sem_step s (s(i := \<lparr>prog = p, held_locks = insert (l, m) (held_locks (s i))\<rparr>))"
| up: "prog (s i) = Unlock m l # p \<Longrightarrow> (l, m) \<in> held_locks (s i) \<Longrightarrow>
    sem_step s (s(i := \<lparr>prog = p, held_locks = held_locks (s i) - {(l, m)}\<rparr>))"

text \<open>The functions that try to take a lock; a result other than 0 is an error of the semaphore, which is not granted then.\<close>

definition down_trylock :: "lock_threads \<Rightarrow> nat \<Rightarrow> rw \<Rightarrow> lock_id \<Rightarrow> lock_threads \<times> bool" where
  "down_trylock s i m l = (if grantable s m l then (s(i := (s i)\<lparr>held_locks := insert (l, m) (held_locks (s i))\<rparr>), True) else (s, False))"

definition up_lock :: "lock_threads \<Rightarrow> nat \<Rightarrow> rw \<Rightarrow> lock_id \<Rightarrow> lock_threads" where
  "up_lock s i m l = s(i := (s i)\<lparr>held_locks := held_locks (s i) - {(l, m)}\<rparr>)"

fun try_globals :: "lock_threads \<Rightarrow> nat \<Rightarrow> nat list \<Rightarrow> nat list \<Rightarrow> lock_threads \<times> bool" where
  "try_globals s i taken [] = (s, True)"
| "try_globals s i taken (k # ks) = (
     let (s', ok) = down_trylock s i OCF_WRITE (Global k)
     in if ok then try_globals s' i (k # taken) ks else (fold (\<lambda>j s. up_lock s i OCF_WRITE (Global j)) taken s', False))"

definition ocf_metadata_try_start_exclusive_access :: "lock_threads \<Rightarrow> nat \<Rightarrow> lock_threads \<times> bool" where
  "ocf_metadata_try_start_exclusive_access s i = try_globals s i [] [0..<OCF_NUM_GLOBAL_META_LOCKS]"

definition ocf_metadata_try_start_shared_access :: "lock_threads \<Rightarrow> nat \<Rightarrow> nat \<Rightarrow> lock_threads \<times> bool" where
  "ocf_metadata_try_start_shared_access s i lock_idx = down_trylock s i OCF_READ (Global lock_idx)"

definition ocf_hb_id_naked_trylock :: "('s :: len) ocf_cache \<Rightarrow> lock_threads \<Rightarrow> nat \<Rightarrow> u32 \<Rightarrow> rw \<Rightarrow> (lock_threads \<times> bool) option" where
  "ocf_hb_id_naked_trylock cache s i h rw = do {
     ENV_BUG_ON (h \<ge> hash_table_entries cache);
     Some (down_trylock s i rw (Hash h))
   }"

definition ocf_hb_cline_naked_trylock ::
    "('s :: len) ocf_cache \<Rightarrow> lock_threads \<Rightarrow> nat \<Rightarrow> rw \<Rightarrow> u16 \<Rightarrow> u64 \<Rightarrow> (lock_threads \<times> bool) option" where
  "ocf_hb_cline_naked_trylock cache s i rw cid cl = ocf_hb_id_naked_trylock cache s i (ocf_metadata_hash_func cache cl cid) rw"

definition ocf_hb_cline_naked_unlock :: "('s :: len) ocf_cache \<Rightarrow> rw \<Rightarrow> u16 \<Rightarrow> u64 \<Rightarrow> lock_instr list option" where
  "ocf_hb_cline_naked_unlock cache rw cid cl = ocf_hb_id_naked_unlock cache rw (ocf_metadata_hash_func cache cl cid)"

text \<open>
  The locks that a program holds at its end when it takes a lock only above all the locks that it holds and gives back only locks that
  it holds; no result when it does something else.
\<close>

fun ordered_run :: "(lock_id \<times> rw) set \<Rightarrow> lock_instr list \<Rightarrow> (lock_id \<times> rw) set option" where
  "ordered_run H [] = Some H"
| "ordered_run H (Lock m l # p) = (if \<forall>x\<in>H. fst x < l then ordered_run (insert (l, m) H) p else None)"
| "ordered_run H (Unlock m l # p) = (if (l, m) \<in> H then ordered_run (H - {(l, m)}) p else None)"

text \<open>The uses of the locks in the engines and in management: a program of each starts and ends without a lock.\<close>

datatype lock_section =
  Exclusive
| Bucket rw nat u16 u64 "(rw \<times> u32) list"
| Req rw nat ocf_request "(rw \<times> u32) list"
| Upgraded nat ocf_request "(rw \<times> u32) list"

definition page_accesses :: "(rw \<times> u32) list \<Rightarrow> lock_instr list" where
  "page_accesses ps = concat (map (\<lambda>(rw, page). ocf_collision_start_access rw page @ ocf_collision_end_access rw page) ps)"

fun section_prog :: "('s :: len) ocf_cache \<Rightarrow> lock_section \<Rightarrow> lock_instr list option" where
  "section_prog cache Exclusive = Some (ocf_metadata_start_exclusive_access @ ocf_metadata_end_exclusive_access)"
| "section_prog cache (Bucket rw i cid cl ps) = do {
     p \<leftarrow> ocf_hb_cline_prot_lock cache i rw cid cl;
     q \<leftarrow> ocf_hb_cline_prot_unlock cache i rw cid cl;
     Some (p @ page_accesses ps @ q)
   }"
| "section_prog cache (Req rw i req ps) = do {
     p \<leftarrow> ocf_hb_req_prot_lock cache i rw req;
     q \<leftarrow> ocf_hb_req_prot_unlock cache i rw req;
     Some (p @ page_accesses ps @ q)
   }"
| "section_prog cache (Upgraded i req ps) = do {
     p \<leftarrow> ocf_hb_req_prot_lock cache i OCF_READ req;
     u \<leftarrow> ocf_hb_req_prot_lock_upgrade cache req;
     q \<leftarrow> ocf_hb_req_prot_unlock cache i OCF_WRITE req;
     Some (p @ u @ page_accesses ps @ q)
   }"

fun sections_prog :: "('s :: len) ocf_cache \<Rightarrow> lock_section list \<Rightarrow> lock_instr list option" where
  "sections_prog cache [] = Some []"
| "sections_prog cache (x # xs) = do { p \<leftarrow> section_prog cache x; q \<leftarrow> sections_prog cache xs; Some (p @ q) }"

subsection \<open>The buckets of a request are visited once each, in ascending order\<close>

lemma hashes_from_end: "\<not> h \<le> MAX_HASH N first lst n \<Longrightarrow> hashes_from N first lst n h = Some []"
  by (subst hashes_from.simps) simp

lemma hashes_from_step:
  "h \<le> MAX_HASH N first lst n \<Longrightarrow> hashes_from N first lst n (HASH_NEXT N first lst n h) = Some hs \<Longrightarrow>
     hashes_from N first lst n h = Some (h # hs)"
  by (subst hashes_from.simps) simp

lemma unat_Suc: "unat (h + 1) = unat h + 1" if "h < (m :: u32)"
proof -
  have "unat h + 1 < 2 ^ 32" using that unsigned_less [of m, where ?'a = nat] by (simp add: word_less_nat_alt)
  then show ?thesis by (simp add: unat_word_ariths)
qed

lemma hashes_from_up:
  assumes m: "MAX_HASH N first lst n < N" and g: "HAS_GAP N first lst n \<Longrightarrow> lst < h"
    and k: "unat (MAX_HASH N first lst n) + 1 - unat h = k"
  shows "hashes_from N first lst n h = Some (map of_nat [unat h..<unat (MAX_HASH N first lst n) + 1])"
  using g k
proof (induction k arbitrary: h)
  case 0
  then show ?case by (auto simp: word_le_nat_alt intro!: hashes_from_end)
next
  case (Suc k)
  have le: "h \<le> MAX_HASH N first lst n" using Suc.prems(2) by (simp add: word_le_nat_alt)
  then have s: "unat (h + 1) = unat h + 1" using m unat_Suc [of h N] by simp
  have nx: "HASH_NEXT N first lst n h = h + 1" using Suc.prems(1) by (auto simp: HASH_NEXT_def)
  have "hashes_from N first lst n (h + 1) = Some (map of_nat [unat (h + 1)..<unat (MAX_HASH N first lst n) + 1])"
    by (rule Suc.IH) (use Suc.prems s in \<open>auto simp: word_less_nat_alt\<close>)
  then have "hashes_from N first lst n h = Some (h # map of_nat [unat h + 1..<unat (MAX_HASH N first lst n) + 1])"
    using hashes_from_step [OF le] nx s by simp
  then show ?case using le by (auto simp: word_le_nat_alt upt_conv_Cons [of "unat h"] simp del: upt_Suc)
qed

lemma hashes_from_gap:
  assumes m: "MAX_HASH N first lst n < N" and g: "HAS_GAP N first lst n" and l: "lst \<le> MAX_HASH N first lst n"
    and nx: "unat (lst + 1 + GAP_VAL N first lst n) = unat lst + 1 + unat (GAP_VAL N first lst n)"
    and k: "unat lst - unat h = k" and h: "h \<le> lst"
  shows "hashes_from N first lst n h = Some (map of_nat ([unat h..<unat lst + 1] @
      [unat lst + 1 + unat (GAP_VAL N first lst n)..<unat (MAX_HASH N first lst n) + 1]))"
  using k h
proof (induction k arbitrary: h)
  case 0
  then have h: "h = lst" by (simp add: word_le_nat_alt word_unat_eq_iff)
  have "hashes_from N first lst n (lst + 1 + GAP_VAL N first lst n) =
      Some (map of_nat [unat (lst + 1 + GAP_VAL N first lst n)..<unat (MAX_HASH N first lst n) + 1])"
    by (rule hashes_from_up [OF m _ refl]) (simp add: word_less_nat_alt nx)
  then have "hashes_from N first lst n lst =
      Some (lst # map of_nat [unat lst + 1 + unat (GAP_VAL N first lst n)..<unat (MAX_HASH N first lst n) + 1])"
    by (intro hashes_from_step [OF l]) (use g nx in \<open>simp add: HASH_NEXT_def\<close>)
  then show ?case by (simp add: h)
next
  case (Suc k)
  have lt: "h < lst" using Suc.prems by (simp add: word_less_nat_alt)
  then have s: "unat (h + 1) = unat h + 1" by (rule unat_Suc)
  have "hashes_from N first lst n (h + 1) = Some (map of_nat ([unat (h + 1)..<unat lst + 1] @
      [unat lst + 1 + unat (GAP_VAL N first lst n)..<unat (MAX_HASH N first lst n) + 1]))"
    by (rule Suc.IH) (use Suc.prems s lt in \<open>auto simp: word_le_nat_alt word_less_nat_alt\<close>)
  then have "hashes_from N first lst n h = Some (h # map of_nat ([unat h + 1..<unat lst + 1] @
      [unat lst + 1 + unat (GAP_VAL N first lst n)..<unat (MAX_HASH N first lst n) + 1]))"
    by (intro hashes_from_step) (use lt l s in \<open>auto simp: HASH_NEXT_def\<close>)
  then show ?case using lt by (auto simp: word_less_nat_alt upt_conv_Cons [of "unat h"] simp del: upt_Suc)
qed

text \<open>The hash values of consecutive core lines are consecutive modulo the number of buckets.\<close>

lemma residues_ascending:
  fixes f n N :: nat
  assumes "0 < N" "f < N" "0 < n"
  shows "f + n \<le> N \<Longrightarrow> {h. \<exists>i<n. h = (f + i) mod N} = {f..<f + n}"
    and "N \<le> n \<Longrightarrow> {h. \<exists>i<n. h = (f + i) mod N} = {0..<N}"
    and "N < f + n \<Longrightarrow> n < N \<Longrightarrow> {h. \<exists>i<n. h = (f + i) mod N} = {0..<f + n - N} \<union> {f..<N}"
proof -
  show "{h. \<exists>i<n. h = (f + i) mod N} = {f..<f + n}" if a: "f + n \<le> N"
  proof (intro set_eqI iffI)
    fix h assume "h \<in> {f..<f + n}"
    then have "h - f < n" "h = (f + (h - f)) mod N" using a by auto
    then show "h \<in> {h. \<exists>i<n. h = (f + i) mod N}" by blast
  qed (use a in auto)
  show "{h. \<exists>i<n. h = (f + i) mod N} = {0..<N}" if a: "N \<le> n"
  proof (intro set_eqI iffI)
    fix h assume h: "h \<in> {0..<N}"
    define i where "i = (if f \<le> h then h - f else h + N - f)"
    have "i < n" "h = (f + i) mod N" using h a assms by (auto simp: i_def)
    then show "h \<in> {h. \<exists>i<n. h = (f + i) mod N}" by blast
  qed (use assms in auto)
  show "{h. \<exists>i<n. h = (f + i) mod N} = {0..<f + n - N} \<union> {f..<N}" if a: "N < f + n" "n < N"
  proof (intro set_eqI iffI)
    fix h assume h: "h \<in> {0..<f + n - N} \<union> {f..<N}"
    define i where "i = (if f \<le> h then h - f else h + N - f)"
    have "i < n" "h = (f + i) mod N" using h a assms by (auto simp: i_def)
    then show "h \<in> {h. \<exists>i<n. h = (f + i) mod N}" by blast
  next
    fix h assume "h \<in> {h. \<exists>i<n. h = (f + i) mod N}"
    then obtain i where i: "i < n" "h = (f + i) mod N" by blast
    have "h = (if f + i < N then f + i else f + i - N)"
      using i a assms(2) by (auto simp: mod_if [of "f + i"])
    then show "h \<in> {0..<f + n - N} \<union> {f..<N}" using i a assms(2) by (auto split: if_splits)
  qed
qed

text \<open>The values of the macros for the hash values of consecutive core lines.\<close>

lemma hash_macros:
  fixes N first lst n :: u32
  assumes N: "first < N" "0 < n" and o: "unat first + unat n < 2 ^ 32" and l: "unat lst = (unat first + unat n - 1) mod unat N"
  shows "IS_MONOTONIC N first n \<longleftrightarrow> unat first + unat n \<le> unat N"
    and "unat first + unat n \<le> unat N \<Longrightarrow> \<not> HAS_GAP N first lst n \<and> unat lst = unat first + unat n - 1"
    and "unat N < unat first + unat n \<Longrightarrow> HAS_GAP N first lst n \<longleftrightarrow> n < N"
    and "unat N < unat first + unat n \<Longrightarrow> n < N \<Longrightarrow>
      unat lst = unat first + unat n - 1 - unat N \<and> unat (GAP_VAL N first lst n) = unat N - unat n"
proof -
  have s: "unat (first + n) = unat first + unat n" by (rule unat_add_nowrap) (use o in simp)
  show m: "IS_MONOTONIC N first n \<longleftrightarrow> unat first + unat n \<le> unat N" by (simp add: IS_MONOTONIC_def word_le_nat_alt s)
  have n0: "0 < unat n" "unat first < unat N" using N by (simp_all add: word_less_nat_alt)
  {
    assume a: "unat first + unat n \<le> unat N"
    have u: "unat lst = unat first + unat n - 1" using l a n0 by simp
    have "first + n \<noteq> 0" using s n0 by (auto simp: word_unat_eq_iff)
    then have "lst = first + n - 1" by (intro word_unat_eq_iff [THEN iffD2]) (simp add: unat_minus_one u s)
    then have "lst - first + 1 = n" by simp
    moreover have "HASH_COUNT N n = n" using a n0 by (auto simp: HASH_COUNT_def word_less_nat_alt word_unat_eq_iff)
    ultimately have "\<not> HAS_GAP N first lst n" using m a by (simp add: HAS_GAP_def MAX_HASH_def MIN_HASH_def)
    then show "\<not> HAS_GAP N first lst n \<and> unat lst = unat first + unat n - 1" using u by simp
  next
    assume a: "unat N < unat first + unat n"
    then have nm: "\<not> IS_MONOTONIC N first n" using m by simp
    show "HAS_GAP N first lst n \<longleftrightarrow> n < N" using nm by (auto simp: HAS_GAP_def MAX_HASH_def MIN_HASH_def HASH_COUNT_def)
    assume b: "n < N"
    then have "unat (GAP_VAL N first lst n) = unat N - unat n"
      using nm by (simp add: GAP_VAL_def MAX_HASH_def MIN_HASH_def HASH_COUNT_def unat_sub order_less_imp_le)
    moreover have "unat lst = unat first + unat n - 1 - unat N"
    proof -
      have "(unat first + unat n - 1) mod unat N = (unat first + unat n - 1 - unat N) mod unat N"
        using a by (simp add: le_mod_geq)
      also have "\<dots> = unat first + unat n - 1 - unat N" using b n0 by (intro mod_less) (simp add: word_less_nat_alt)
      finally show ?thesis using l by simp
    qed
    ultimately show "unat lst = unat first + unat n - 1 - unat N \<and> unat (GAP_VAL N first lst n) = unat N - unat n" by simp
  }
qed

lemma MAX_HASH_lt: "MAX_HASH N first lst n < N" if "lst < N"
proof (cases "IS_MONOTONIC N first n")
  case False
  have "N \<noteq> 0" using that by auto
  then have "N - 1 < N" by (simp add: word_less_nat_alt unat_minus_one unat_gt_0)
  then show ?thesis using False by (simp add: MAX_HASH_def)
qed (simp add: MAX_HASH_def that)

lemma sorted_of_nat: "sorted_wrt (<) (map of_nat ns :: u32 list)" if "sorted_wrt (<) ns" "\<And>x. x \<in> set ns \<Longrightarrow> x < 2 ^ 32"
  using that by (induction ns) (auto simp: word_less_nat_alt unat_of_nat take_bit_nat_eq_self_iff)

lemma set_of_nat: "set (map of_nat ns :: u32 list) = {h. unat h \<in> set ns}" if "\<And>x. x \<in> set ns \<Longrightarrow> x < 2 ^ 32"
proof (intro set_eqI iffI)
  fix h :: u32 assume "h \<in> {h. unat h \<in> set ns}"
  then show "h \<in> set (map of_nat ns)" by (auto simp: image_iff intro!: bexI [of _ "unat h"])
qed (use that in \<open>auto simp: unat_of_nat take_bit_nat_eq_self_iff\<close>)

lemma hashes_ascending:
  fixes N first lst n :: u32
  assumes N: "first < N" "0 < n" and o: "unat first + unat n < 2 ^ 32" and l: "unat lst = (unat first + unat n - 1) mod unat N"
  shows "\<exists>hs. hashes_from N first lst n (MIN_HASH N first n) = Some hs \<and> sorted_wrt (<) hs \<and>
    set hs = {h. \<exists>i<unat n. unat h = (unat first + i) mod unat N}"
proof -
  note mac = hash_macros [OF assms]
  have n0: "0 < unat n" "unat first < unat N" using N by (simp_all add: word_less_nat_alt)
  have lt: "MAX_HASH N first lst n < N" by (rule MAX_HASH_lt) (use l n0 in \<open>simp add: word_less_nat_alt\<close>)
  have N1: "unat (N - 1) + 1 = unat N" using n0 by (subst unat_minus_one) auto
  have N32: "unat N < 2 ^ 32" using unsigned_less [of N, where ?'a = nat] by simp
  have fin: ?thesis
    if "hashes_from N first lst n (MIN_HASH N first n) = Some (map of_nat ns)" "sorted_wrt (<) ns"
      "set ns = {h. \<exists>i<unat n. h = (unat first + i) mod unat N}" for ns
  proof -
    have b: "x < 2 ^ 32" if "x \<in> set ns" for x
    proof -
      have "x < unat N" using that n0 \<open>set ns = _\<close> by auto
      then show ?thesis using N32 by simp
    qed
    show ?thesis unfolding that(1) using sorted_of_nat [OF that(2) b] set_of_nat [of ns, OF b] that(3) by simp
  qed
  consider "unat first + unat n \<le> unat N" | "unat N < unat first + unat n" "\<not> n < N" | "unat N < unat first + unat n" "n < N"
    by linarith
  then show ?thesis
  proof cases
    case 1
    then have m: "MIN_HASH N first n = first" "MAX_HASH N first lst n = lst" using mac(1) by (simp_all add: MIN_HASH_def MAX_HASH_def)
    show ?thesis
      by (rule fin [OF hashes_from_up [OF lt _ refl]])
        (use mac(2) [OF 1] m n0 residues_ascending(1) [OF _ n0(2,1) 1] in auto)
  next
    case 2
    then have m: "MIN_HASH N first n = 0" "MAX_HASH N first lst n = N - 1" using mac(1) by (simp_all add: MIN_HASH_def MAX_HASH_def)
    have "unat N \<le> unat n" using 2 by (simp add: word_less_nat_alt)
    from residues_ascending(2) [OF _ n0(2,1) this] show ?thesis
      by (intro fin [OF hashes_from_up [OF lt _ refl]]) (use mac(3) [OF 2(1)] 2 m n0 N1 in auto)
  next
    case 3
    then have m: "MIN_HASH N first n = 0" "MAX_HASH N first lst n = N - 1" using mac(1) by (simp_all add: MIN_HASH_def MAX_HASH_def)
    have nN: "unat n < unat N" using 3 by (simp add: word_less_nat_alt)
    note g = mac(4) [OF 3]
    have nx: "unat (lst + 1 + GAP_VAL N first lst n) = unat lst + 1 + unat (GAP_VAL N first lst n)"
    proof -
      have b: "unat lst + 1 + unat (GAP_VAL N first lst n) < 2 ^ 32" using g nN N32 3 n0 by auto
      then have "unat (lst + 1) = unat lst + 1" using unat_add_nowrap [of lst 1] by simp
      then show ?thesis using b unat_add_nowrap [of "lst + 1" "GAP_VAL N first lst n"] by simp
    qed
    have le: "lst \<le> MAX_HASH N first lst n" using g m N1 nN n0 by (simp add: word_le_nat_alt)
    have e: "unat lst + 1 + unat (GAP_VAL N first lst n) = unat first" "unat lst + 1 = unat first + unat n - unat N"
      using g nN 3 by auto
    have "hashes_from N first lst n (MIN_HASH N first n) = Some (map of_nat ([0..<unat first + unat n - unat N] @ [unat first..<unat N]))"
      using hashes_from_gap [OF lt _ le nx refl, of "MIN_HASH N first n", unfolded m N1 e(1), unfolded e(2)] mac(3) [OF 3(1)] 3 m
      by simp
    moreover have "sorted_wrt (<) ([0..<unat first + unat n - unat N] @ [unat first..<unat N])"
      using nN by (auto simp: sorted_wrt_append)
    ultimately show ?thesis using residues_ascending(3) [OF _ n0(2,1) 3(1) nN] n0 by (intro fin) auto
  qed
qed

subsection \<open>Threads that take locks in order do not block each other\<close>

lemma ordered_run_append: "ordered_run H (p @ q) = ordered_run H p \<bind> (\<lambda>H'. ordered_run H' q)"
  by (induction H p rule: ordered_run.induct) auto

definition ordered_threads :: "lock_threads \<Rightarrow> bool" where
  "ordered_threads s \<longleftrightarrow> (\<forall>i. ordered_run (held_locks (s i)) (prog (s i)) = Some {})"

definition active :: "lock_threads \<Rightarrow> nat set" where
  "active s = {i. prog (s i) \<noteq> []}"

lemma step_ordered: "sem_step s s' \<Longrightarrow> ordered_threads s \<Longrightarrow> ordered_threads s'"
proof (induction rule: sem_step.induct)
  case (down s i m l p)
  then show ?case unfolding ordered_threads_def
    by (metis (no_types, lifting) fun_upd_other fun_upd_same lock_thread.select_convs ordered_run.simps(2) option.discI)
next
  case (up s i m l p)
  then show ?case unfolding ordered_threads_def
    by (metis (no_types, lifting) fun_upd_other fun_upd_same lock_thread.select_convs ordered_run.simps(3) option.discI)
qed

lemma step_active: "sem_step s s' \<Longrightarrow> active s' \<subseteq> active s"
  by (induction rule: sem_step.induct) (auto simp: active_def split: if_splits)

text \<open>Some thread can take its next step: one that gives back a lock, or the one that waits for the greatest lock.\<close>

lemma ordered_progress:
  assumes o: "ordered_threads s" and f: "finite (active s)" and a: "active s \<noteq> {}"
  shows "\<exists>s'. sem_step s s'"
proof (rule ccontr)
  assume no: "\<not> (\<exists>s'. sem_step s s')"
  have o': "ordered_run (held_locks (s i)) (prog (s i)) = Some {}" for i using o by (simp add: ordered_threads_def)
  have ex: "\<exists>m l p. prog (s i) = Lock m l # p" if ia: "i \<in> active s" for i
  proof -
    obtain x p where x: "prog (s i) = x # p" using ia by (cases "prog (s i)") (auto simp: active_def)
    show ?thesis
    proof (cases x)
      case (Unlock m l)
      then have "(l, m) \<in> held_locks (s i)" using o' [of i] x by (auto split: if_splits)
      then show ?thesis using no sem_step.up [of s i m l p] x Unlock by auto
    qed (use x in auto)
  qed
  then obtain M L P where w: "\<And>i. i \<in> active s \<Longrightarrow> prog (s i) = Lock (M i) (L i) # P i" by metis
  have "Max (L ` active s) \<in> L ` active s" by (rule Max_in) (use f a in auto)
  then obtain i where i: "i \<in> active s" "L i = Max (L ` active s)" by auto
  have top: "L j \<le> L i" if "j \<in> active s" for j unfolding i(2) by (rule Max_ge) (use f that in auto)
  have "\<not> grantable s (M i) (L i)" using no sem_step.down [of s i "M i" "L i" "P i"] w [OF i(1)] by auto
  then obtain j m' where j: "(L i, m') \<in> held_locks (s j)" by (auto simp: grantable_def)
  have "j \<in> active s" using o' [of j] j by (auto simp: active_def)
  then have "L i < L j" using w [of j] o' [of j] j by (force split: if_splits)
  then show False using top [OF \<open>j \<in> active s\<close>] by simp
qed

text \<open>A lock that is held for writing is held once.\<close>

definition exclusive_writers :: "lock_threads \<Rightarrow> bool" where
  "exclusive_writers s \<longleftrightarrow> (\<forall>i j l m. (l, OCF_WRITE) \<in> held_locks (s i) \<longrightarrow> (l, m) \<in> held_locks (s j) \<longrightarrow> i = j \<and> m = OCF_WRITE)"

lemma step_exclusive: "sem_step s s' \<Longrightarrow> exclusive_writers s \<Longrightarrow> exclusive_writers s'"
proof (induction rule: sem_step.induct)
  case (down s i m l p)
  then show ?case unfolding exclusive_writers_def grantable_def by (auto split: if_splits; blast)
next
  case (up s i m l p)
  then show ?case unfolding exclusive_writers_def by (auto split: if_splits)
qed

text \<open>An attempt to lock everything either succeeds or leaves all locks as they were.\<close>

lemma try_globals_fails:
  assumes "try_globals s i taken ks = (s', False)" "(\<lambda>k. (Global k, OCF_WRITE)) ` set taken \<inter> H = {}"
    "held_locks (s i) = H \<union> (\<lambda>k. (Global k, OCF_WRITE)) ` set taken"
  shows "s' = s(i := (s i)\<lparr>held_locks := H\<rparr>)"
  using assms
proof (induction ks arbitrary: s taken)
  case (Cons k ks)
  show ?case
  proof (cases "grantable s OCF_WRITE (Global k)")
    case True
    let ?s = "s(i := (s i)\<lparr>held_locks := insert (Global k, OCF_WRITE) (held_locks (s i))\<rparr>)"
    have "(Global k, m) \<notin> held_locks (s i)" for m using True by (auto simp: grantable_def)
    then have "s' = ?s(i := (?s i)\<lparr>held_locks := H\<rparr>)"
      using Cons.prems True by (intro Cons.IH [of _ "k # taken"]) (auto simp: down_trylock_def fun_upd_same simp del: fun_upd_apply)
    then show ?thesis by simp
  next
    case False
    have "fold (\<lambda>j s. up_lock s i OCF_WRITE (Global j)) ks t =
        t(i := (t i)\<lparr>held_locks := held_locks (t i) - (\<lambda>k. (Global k, OCF_WRITE)) ` set ks\<rparr>)" for ks t
      by (induction ks arbitrary: t) (auto simp: up_lock_def set_diff_eq fun_eq_iff)
    moreover have "H \<union> (\<lambda>k. (Global k, OCF_WRITE)) ` set taken - (\<lambda>k. (Global k, OCF_WRITE)) ` set taken = H"
      using Cons.prems(2) by blast
    ultimately show ?thesis using Cons.prems False by (simp add: down_trylock_def)
  qed
qed simp

lemma try_exclusive_fails: "ocf_metadata_try_start_exclusive_access s i = (s', False) \<Longrightarrow> s' = s"
  using try_globals_fails [of s i "[]" "[0..<OCF_NUM_GLOBAL_META_LOCKS]" s' "held_locks (s i)"]
  by (simp add: ocf_metadata_try_start_exclusive_access_def)

subsection \<open>The programs of the code\<close>

definition req_hashed :: "('s :: len) ocf_cache \<Rightarrow> ocf_request \<Rightarrow> bool" where
  "req_hashed cache req \<longleftrightarrow> 0 < core_line_count req \<and> length (req_map req) = unat (core_line_count req) \<and>
     unat (core_line_first req) + unat (core_line_count req) \<le> 2 ^ 64 - 2 ^ 32 \<and>
     unat (hash_table_entries cache) + unat (core_line_count req) \<le> 2 ^ 32 \<and>
     (\<forall>i<unat (core_line_count req).
        m_hash (req_map req ! i) = ocf_metadata_hash_func cache (core_line_first req + of_nat i) (req_core req))"

lemma req_hash_hashed:
  assumes "0 < core_line_count req" "length (req_map req) = unat (core_line_count req)"
    "unat (core_line_first req) + unat (core_line_count req) \<le> 2 ^ 64 - 2 ^ 32"
    "unat (hash_table_entries cache) + unat (core_line_count req) \<le> 2 ^ 32"
  shows "req_hashed cache (ocf_req_hash cache req)"
  using assms by (simp add: req_hashed_def ocf_req_hash_def nth_enumerate_eq)

definition req_buckets :: "('s :: len) ocf_cache \<Rightarrow> ocf_request \<Rightarrow> u32 set" where
  "req_buckets cache req =
     {ocf_metadata_hash_func cache (core_line_first req + of_nat i) (req_core req) | i. i < unat (core_line_count req)}"

lemma req_hashes:
  fixes cache :: "('s :: len) ocf_cache"
  assumes N: "0 < hash_table_entries cache" and r: "req_hashed cache req"
  defines "f \<equiv> ocf_metadata_hash_func cache (core_line_first req) (req_core req)"
  obtains e0 e1 where "map_entry req 0 = Some e0" "map_entry req (core_line_count req - 1) = Some e1" "m_hash e0 = f"
    "unat (m_hash e1) = (unat f + unat (core_line_count req) - 1) mod unat (hash_table_entries cache)"
    "f < hash_table_entries cache" "0 < core_line_count req" "unat f + unat (core_line_count req) < 2 ^ 32"
    "req_buckets cache req = {h. \<exists>i<unat (core_line_count req). unat h = (unat f + i) mod unat (hash_table_entries cache)}"
proof -
  let ?n = "core_line_count req" and ?N = "hash_table_entries cache"
  have n0: "0 < unat ?n" using r by (simp add: req_hashed_def word_less_nat_alt)
  have n1: "unat (?n - 1) = unat ?n - 1" using n0 by (intro unat_minus_one) auto
  have f: "f < ?N" unfolding f_def by (rule hash_func_lt [OF N])
  have h: "unat (ocf_metadata_hash_func cache (core_line_first req + of_nat i) (req_core req)) = (unat f + i) mod unat ?N"
    if "i < unat ?n" for i
    unfolding f_def by (rule unat_hash_consecutive [OF N]) (use that r in \<open>auto simp: req_hashed_def\<close>)
  have m: "m_hash (req_map req ! i) = ocf_metadata_hash_func cache (core_line_first req + of_nat i) (req_core req)"
    if "i < unat ?n" for i using r that by (simp add: req_hashed_def)
  have l: "length (req_map req) = unat ?n" using r by (simp add: req_hashed_def)
  show thesis
  proof (rule that)
    show "map_entry req 0 = Some (req_map req ! 0)" "map_entry req (?n - 1) = Some (req_map req ! (unat ?n - 1))"
      using n0 n1 l by (simp_all add: map_entry_def)
    show "m_hash (req_map req ! 0) = f" using m [OF n0] by (simp add: f_def)
    show "unat (m_hash (req_map req ! (unat ?n - 1))) = (unat f + unat ?n - 1) mod unat ?N"
      using m [of "unat ?n - 1"] h [of "unat ?n - 1"] n0 by simp
    show "unat f + unat ?n < 2 ^ 32" using f r by (simp add: req_hashed_def word_less_nat_alt)
    show "req_buckets cache req = {h. \<exists>i<unat ?n. unat h = (unat f + i) mod unat ?N}"
      unfolding req_buckets_def by (auto simp: word_unat_eq_iff h) (metis h)
  qed (use f r in \<open>auto simp: req_hashed_def\<close>)
qed

lemma req_hashes_ascending:
  assumes N: "0 < hash_table_entries cache" and r: "req_hashed cache req"
  shows "\<exists>hs. for_each_req_hash_asc cache req = Some hs \<and> sorted_wrt (<) hs \<and> set hs = req_buckets cache req"
proof (rule req_hashes [OF assms])
  fix e0 e1
  let ?f = "ocf_metadata_hash_func cache (core_line_first req) (req_core req)"
  assume e: "map_entry req 0 = Some e0" "map_entry req (core_line_count req - 1) = Some e1" "m_hash e0 = ?f"
    and b: "unat (m_hash e1) = (unat ?f + unat (core_line_count req) - 1) mod unat (hash_table_entries cache)"
      "?f < hash_table_entries cache" "0 < core_line_count req" "unat ?f + unat (core_line_count req) < 2 ^ 32"
    and s: "req_buckets cache req = {h. \<exists>i<unat (core_line_count req). unat h = (unat ?f + i) mod unat (hash_table_entries cache)}"
  show ?thesis unfolding s using hashes_ascending [OF b(2,3,4,1)] e by (simp add: for_each_req_hash_asc_def Let_def)
qed

lemma range_of_residues:
  fixes N first lst n h :: u32
  assumes N: "first < N" "0 < n" and o: "unat first + unat n < 2 ^ 32" and l: "unat lst = (unat first + unat n - 1) mod unat N"
    and h: "h < N"
  shows "(if \<not> HAS_GAP N first lst n then h \<ge> MIN_HASH N first n \<and> h \<le> MAX_HASH N first lst n
      else (h \<ge> MIN_HASH N first n \<and> h \<le> lst) \<or> (h > lst + GAP_VAL N first lst n \<and> h \<le> MAX_HASH N first lst n)) \<longleftrightarrow>
    (\<exists>i<unat n. unat h = (unat first + i) mod unat N)"
proof -
  note mac = hash_macros [OF assms(1-4)]
  have n0: "0 < unat n" "unat first < unat N" "unat h < unat N" using N h by (simp_all add: word_less_nat_alt)
  have N1: "unat (N - 1) + 1 = unat N" using n0 by (subst unat_minus_one) auto
  have N32: "unat N < 2 ^ 32" using unsigned_less [of N, where ?'a = nat] by simp
  have set: "(\<exists>i<unat n. unat h = (unat first + i) mod unat N) \<longleftrightarrow> unat h \<in> A"
    if "{h. \<exists>i<unat n. h = (unat first + i) mod unat N} = A" for A using that by auto
  consider "unat first + unat n \<le> unat N" | "unat N < unat first + unat n" "\<not> n < N" | "unat N < unat first + unat n" "n < N"
    by linarith
  then show ?thesis
  proof cases
    case 1
    then show ?thesis using mac(1) mac(2) [OF 1] n0 set [OF residues_ascending(1) [OF _ n0(2,1) 1]]
      by (auto simp: MIN_HASH_def MAX_HASH_def word_le_nat_alt)
  next
    case 2
    then have "unat N \<le> unat n" by (simp add: word_less_nat_alt)
    then show ?thesis using mac(1) mac(3) [OF 2(1)] 2 n0 N1 set [OF residues_ascending(2) [OF _ n0(2,1)]]
      by (auto simp: MIN_HASH_def MAX_HASH_def word_le_nat_alt)
  next
    case 3
    then have nN: "unat n < unat N" by (simp add: word_less_nat_alt)
    note g = mac(4) [OF 3]
    have "unat (lst + GAP_VAL N first lst n) = unat lst + unat (GAP_VAL N first lst n)"
      by (rule unat_add_nowrap) (use g nN N32 3 n0 in simp)
    then show ?thesis using mac(1) mac(3) [OF 3(1)] 3 n0 N1 nN g set [OF residues_ascending(3) [OF _ n0(2,1) 3(1) nN]]
      by (auto simp: MIN_HASH_def MAX_HASH_def word_le_nat_alt word_less_nat_alt)
  qed
qed

lemma req_in_range:
  assumes N: "0 < hash_table_entries cache" and r: "req_hashed cache req"
  shows "ocf_req_hash_in_range cache req cid cl = Some (ocf_metadata_hash_func cache cl cid \<in> req_buckets cache req)"
proof (rule req_hashes [OF assms])
  fix e0 e1
  let ?f = "ocf_metadata_hash_func cache (core_line_first req) (req_core req)" and ?h = "ocf_metadata_hash_func cache cl cid"
  assume e: "map_entry req 0 = Some e0" "map_entry req (core_line_count req - 1) = Some e1" "m_hash e0 = ?f"
    and b: "unat (m_hash e1) = (unat ?f + unat (core_line_count req) - 1) mod unat (hash_table_entries cache)"
      "?f < hash_table_entries cache" "0 < core_line_count req" "unat ?f + unat (core_line_count req) < 2 ^ 32"
    and s: "req_buckets cache req = {h. \<exists>i<unat (core_line_count req). unat h = (unat ?f + i) mod unat (hash_table_entries cache)}"
  have "?h \<in> req_buckets cache req \<longleftrightarrow> (\<exists>i<unat (core_line_count req). unat ?h = (unat ?f + i) mod unat (hash_table_entries cache))"
    unfolding s by blast
  then show ?thesis using range_of_residues [OF b(2,3,4,1) hash_func_lt [OF N, of cl cid]]
    by (simp only: ocf_req_hash_in_range_def e Let_def bind.bind_lunit option.inject)
qed

lemma req_bucket_lt: "0 < hash_table_entries cache \<Longrightarrow> h \<in> req_buckets cache req \<Longrightarrow> h < hash_table_entries cache"
  by (auto simp: req_buckets_def hash_func_lt)

lemma all_buckets_naked:
  assumes "\<And>h. h \<in> set hs \<Longrightarrow> h < hash_table_entries cache"
  shows "all_buckets (ocf_hb_id_naked_lock cache rw) hs = Some (map (\<lambda>h. Lock rw (Hash h)) hs)"
    and "all_buckets (ocf_hb_id_naked_unlock cache rw) hs = Some (map (\<lambda>h. Unlock rw (Hash h)) hs)"
  using assms by (induction hs) (auto simp: ocf_hb_id_naked_lock_def ocf_hb_id_naked_unlock_def not_le [symmetric])

lemma lock_id_less [simp]:
  "Global i < Hash h" "Global i < Page p" "Hash h < Page p" "Hash h < Hash h' \<longleftrightarrow> h < h'" "Global i < Global j \<longleftrightarrow> i < j"
  by (simp_all add: less_lock_id_def word_less_nat_alt)

lemma run_lock_buckets:
  assumes "sorted_wrt (<) hs" "\<And>x h. x \<in> H \<Longrightarrow> h \<in> set hs \<Longrightarrow> fst x < Hash h"
  shows "ordered_run H (map (\<lambda>h. Lock rw (Hash h)) hs) = Some (H \<union> (\<lambda>h. (Hash h, rw)) ` set hs)"
  using assms
proof (induction hs arbitrary: H)
  case (Cons h hs)
  have "ordered_run (insert (Hash h, rw) H) (map (\<lambda>h. Lock rw (Hash h)) hs) =
      Some (insert (Hash h, rw) H \<union> (\<lambda>h. (Hash h, rw)) ` set hs)"
    by (rule Cons.IH) (use Cons.prems in auto)
  then show ?case using Cons.prems(2) by auto
qed simp

lemma run_unlock_buckets:
  assumes "sorted_wrt (<) hs" "\<And>x h. x \<in> H \<Longrightarrow> h \<in> set hs \<Longrightarrow> fst x < Hash h"
  shows "ordered_run (H \<union> (\<lambda>h. (Hash h, rw)) ` set hs) (map (\<lambda>h. Unlock rw (Hash h)) hs) = Some H"
  using assms
proof (induction hs)
  case (Cons h hs)
  have "H \<union> (\<lambda>h. (Hash h, rw)) ` set (h # hs) - {(Hash h, rw)} = H \<union> (\<lambda>h. (Hash h, rw)) ` set hs"
    using Cons.prems by fastforce
  then show ?case using Cons by simp
qed simp

lemma run_pages:
  assumes "\<And>x. x \<in> H \<Longrightarrow> fst x < Page 0"
  shows "ordered_run H (page_accesses ps) = Some H"
proof (induction ps)
  case (Cons a ps)
  obtain rw p where [simp]: "a = (rw, p)" by force
  have lt: "fst x < Page p" if "x \<in> H" for x using assms [OF that] by (cases "fst x") (auto simp: less_lock_id_def)
  have ni: "(Page p, rw) \<notin> H" using lt by fastforce
  then have "insert (Page p, rw) H - {(Page p, rw)} = H" by auto
  then show ?case using Cons lt
    by (simp add: page_accesses_def ocf_collision_start_access_def ocf_collision_end_access_def)
qed (simp add: page_accesses_def)

fun section_ok :: "('s :: len) ocf_cache \<Rightarrow> lock_section \<Rightarrow> bool" where
  "section_ok cache Exclusive \<longleftrightarrow> True"
| "section_ok cache (Bucket rw i cid cl ps) \<longleftrightarrow> True"
| "section_ok cache (Req rw i req ps) \<longleftrightarrow> req_hashed cache req"
| "section_ok cache (Upgraded i req ps) \<longleftrightarrow> req_hashed cache req"

lemma run_exclusive: "ordered_run {} (ocf_metadata_start_exclusive_access @ ocf_metadata_end_exclusive_access) = Some {}"
  by (simp add: ocf_metadata_start_exclusive_access_def ocf_metadata_end_exclusive_access_def OCF_NUM_GLOBAL_META_LOCKS_def
      upt_rec insert_Diff_if)

lemma req_progs:
  assumes N: "0 < hash_table_entries cache" and r: "req_hashed cache req"
  obtains hs where "sorted_wrt (<) hs" "set hs = req_buckets cache req"
    "\<And>i rw. ocf_hb_req_prot_lock cache i rw req = Some (Lock OCF_READ (Global i) # map (\<lambda>h. Lock rw (Hash h)) hs)"
    "\<And>i rw. ocf_hb_req_prot_unlock cache i rw req = Some (map (\<lambda>h. Unlock rw (Hash h)) hs @ [Unlock OCF_READ (Global i)])"
    "ocf_hb_req_prot_lock_upgrade cache req =
      Some (map (\<lambda>h. Unlock OCF_READ (Hash h)) hs @ map (\<lambda>h. Lock OCF_WRITE (Hash h)) hs)"
proof -
  obtain hs where h: "for_each_req_hash_asc cache req = Some hs" "sorted_wrt (<) hs" "set hs = req_buckets cache req"
    using req_hashes_ascending [OF assms] by auto
  have "h < hash_table_entries cache" if "h \<in> set hs" for h using that req_bucket_lt [OF N] unfolding h(3) by blast
  note a = all_buckets_naked [of hs, OF this]
  show thesis
    by (rule that [OF h(2,3)]) (simp_all add: ocf_hb_req_prot_lock_def ocf_hb_req_prot_unlock_def ocf_hb_req_prot_lock_upgrade_def
        h(1) a ocf_metadata_start_shared_access_def ocf_metadata_end_shared_access_def)
qed

text \<open>The common shape: a global lock, then the buckets, then pages.\<close>

lemma run_section:
  assumes s: "sorted_wrt (<) hs" and g: "g = {(Global i, OCF_READ)}"
  shows "ordered_run g (map (\<lambda>h. Lock rw (Hash h)) hs) = Some (g \<union> (\<lambda>h. (Hash h, rw)) ` set hs)"
    and "ordered_run (g \<union> (\<lambda>h. (Hash h, rw)) ` set hs) (page_accesses ps) = Some (g \<union> (\<lambda>h. (Hash h, rw)) ` set hs)"
    and "ordered_run (g \<union> (\<lambda>h. (Hash h, rw)) ` set hs) (map (\<lambda>h. Unlock rw (Hash h)) hs) = Some g"
proof -
  show "ordered_run g (map (\<lambda>h. Lock rw (Hash h)) hs) = Some (g \<union> (\<lambda>h. (Hash h, rw)) ` set hs)"
    by (rule run_lock_buckets [OF s]) (simp add: g)
  show "ordered_run (g \<union> (\<lambda>h. (Hash h, rw)) ` set hs) (page_accesses ps) = Some (g \<union> (\<lambda>h. (Hash h, rw)) ` set hs)"
    by (rule run_pages) (auto simp: g)
  show "ordered_run (g \<union> (\<lambda>h. (Hash h, rw)) ` set hs) (map (\<lambda>h. Unlock rw (Hash h)) hs) = Some g"
    by (rule run_unlock_buckets [OF s]) (simp add: g)
qed

lemma run_request:
  assumes s: "sorted_wrt (<) hs"
  shows "ordered_run {} (Lock OCF_READ (Global i) # map (\<lambda>h. Lock rw (Hash h)) hs @ page_accesses ps @
      map (\<lambda>h. Unlock rw (Hash h)) hs @ [Unlock OCF_READ (Global i)]) = Some {}"
    and "ordered_run {} (Lock OCF_READ (Global i) # map (\<lambda>h. Lock OCF_READ (Hash h)) hs @
      map (\<lambda>h. Unlock OCF_READ (Hash h)) hs @ map (\<lambda>h. Lock OCF_WRITE (Hash h)) hs @ page_accesses ps @
      map (\<lambda>h. Unlock OCF_WRITE (Hash h)) hs @ [Unlock OCF_READ (Global i)]) = Some {}"
proof -
  define g where "g = {(Global i, OCF_READ)}"
  have b: "ordered_run {} (Lock OCF_READ (Global i) # p) = ordered_run g p" for p by (simp add: g_def)
  have e: "ordered_run g [Unlock OCF_READ (Global i)] = Some {}" by (simp add: g_def)
  note r = b e run_section [OF s g_def] ordered_run_append bind.bind_lunit
  show "ordered_run {} (Lock OCF_READ (Global i) # map (\<lambda>h. Lock rw (Hash h)) hs @ page_accesses ps @
      map (\<lambda>h. Unlock rw (Hash h)) hs @ [Unlock OCF_READ (Global i)]) = Some {}"
    by (simp only: r)
  show "ordered_run {} (Lock OCF_READ (Global i) # map (\<lambda>h. Lock OCF_READ (Hash h)) hs @
      map (\<lambda>h. Unlock OCF_READ (Hash h)) hs @ map (\<lambda>h. Lock OCF_WRITE (Hash h)) hs @ page_accesses ps @
      map (\<lambda>h. Unlock OCF_WRITE (Hash h)) hs @ [Unlock OCF_READ (Global i)]) = Some {}"
    by (simp only: r)
qed

lemma section_ordered:
  fixes cache :: "('s :: len) ocf_cache"
  assumes N: "0 < hash_table_entries cache" and "section_ok cache sec"
  shows "\<exists>p. section_prog cache sec = Some p \<and> ordered_run {} p = Some {}"
  using assms(2)
proof (cases sec)
  case (Bucket rw i cid cl ps)
  let ?h = "ocf_metadata_hash_func cache cl cid"
  have h: "\<not> ?h \<ge> hash_table_entries cache" using hash_func_lt [OF N, of cl cid] by simp
  have "section_prog cache sec = Some ([Lock OCF_READ (Global i), Lock rw (Hash ?h)] @ page_accesses ps @
      [Unlock rw (Hash ?h), Unlock OCF_READ (Global i)])"
    using h by (simp add: Bucket ocf_hb_cline_prot_lock_def ocf_hb_cline_prot_unlock_def ocf_hb_id_prot_lock_def
        ocf_hb_id_prot_unlock_def ocf_hb_id_naked_lock_def ocf_hb_id_naked_unlock_def ocf_metadata_start_shared_access_def
        ocf_metadata_end_shared_access_def)
  then show ?thesis using run_request(1) [of "[?h]" i rw ps] by simp
next
  case (Req rw i req ps)
  then have "req_hashed cache req" using assms(2) by simp
  then show ?thesis
  proof (rule req_progs [OF N])
    fix hs
    assume "sorted_wrt (<) hs"
      and "\<And>i rw. ocf_hb_req_prot_lock cache i rw req = Some (Lock OCF_READ (Global i) # map (\<lambda>h. Lock rw (Hash h)) hs)"
      and "\<And>i rw. ocf_hb_req_prot_unlock cache i rw req = Some (map (\<lambda>h. Unlock rw (Hash h)) hs @ [Unlock OCF_READ (Global i)])"
    then show ?thesis using run_request(1) [of hs i rw ps] by (simp add: Req)
  qed
next
  case (Upgraded i req ps)
  then have "req_hashed cache req" using assms(2) by simp
  then show ?thesis
  proof (rule req_progs [OF N])
    fix hs
    assume "sorted_wrt (<) hs"
      and "\<And>i rw. ocf_hb_req_prot_lock cache i rw req = Some (Lock OCF_READ (Global i) # map (\<lambda>h. Lock rw (Hash h)) hs)"
      and "\<And>i rw. ocf_hb_req_prot_unlock cache i rw req = Some (map (\<lambda>h. Unlock rw (Hash h)) hs @ [Unlock OCF_READ (Global i)])"
      and "ocf_hb_req_prot_lock_upgrade cache req =
        Some (map (\<lambda>h. Unlock OCF_READ (Hash h)) hs @ map (\<lambda>h. Lock OCF_WRITE (Hash h)) hs)"
    then show ?thesis using run_request(2) [of hs i ps] by (simp add: Upgraded)
  qed
qed (use run_exclusive in simp)

lemma sections_ordered:
  assumes "0 < hash_table_entries cache" "\<forall>x\<in>set xs. section_ok cache x"
  shows "\<exists>p. sections_prog cache xs = Some p \<and> ordered_run {} p = Some {}"
  using assms(2)
proof (induction xs)
  case (Cons x xs)
  then obtain p q where "section_prog cache x = Some p" "ordered_run {} p = Some {}" "sections_prog cache xs = Some q" "ordered_run {} q = Some {}"
    using section_ordered [OF assms(1), of x] by auto
  then show ?case by (simp add: ordered_run_append)
qed simp

text \<open>Threads that have just started.\<close>

definition start_threads :: "lock_instr list list \<Rightarrow> lock_threads" where
  "start_threads ps i = \<lparr>prog = if i < length ps then ps ! i else [], held_locks = {}\<rparr>"

lemma start_ordered: "\<forall>p\<in>set ps. ordered_run {} p = Some {} \<Longrightarrow> ordered_threads (start_threads ps)"
  by (simp add: ordered_threads_def start_threads_def)

lemma steps_inv:
  assumes "sem_step\<^sup>*\<^sup>* s s'" "ordered_threads s" "exclusive_writers s"
  shows "ordered_threads s' \<and> exclusive_writers s' \<and> active s' \<subseteq> active s"
  using assms(1)
proof induction
  case (step y z)
  then show ?case using step_ordered step_exclusive step_active by blast
qed (use assms in simp)

text \<open>Every step shortens a program, so a run ends.\<close>

definition work :: "nat \<Rightarrow> lock_threads \<Rightarrow> nat" where
  "work K s = (\<Sum>i<K. length (prog (s i)))"

lemma step_work: "sem_step s s' \<Longrightarrow> active s \<subseteq> {..<K} \<Longrightarrow> work K s = Suc (work K s')"
proof (induction rule: sem_step.induct)
  case (down s i m l p)
  then have "i \<in> active s" by (simp add: active_def)
  then have "i \<in> {..<K}" using down(3) by blast
  then show ?case using down(1) by (simp add: work_def sum.remove)
next
  case (up s i m l p)
  then have "i \<in> active s" by (simp add: active_def)
  then have "i \<in> {..<K}" using up(3) by blast
  then show ?case using up(1) by (simp add: work_def sum.remove)
qed

lemma steps_work: "(sem_step ^^ n) s s' \<Longrightarrow> active s \<subseteq> {..<K} \<Longrightarrow> work K s = n + work K s' \<and> active s' \<subseteq> {..<K}"
proof (induction n arbitrary: s')
  case (Suc n)
  then obtain y where "(sem_step ^^ n) s y" "sem_step y s'" by auto
  then show ?case using Suc.IH [of y] Suc.prems(2) step_work [of y s' K] step_active [of y s'] by auto
qed simp

lemma ordered_finish:
  assumes "ordered_threads s" "active s \<subseteq> {..<K}"
  shows "\<exists>s'. sem_step\<^sup>*\<^sup>* s s' \<and> (\<forall>i. s' i = \<lparr>prog = [], held_locks = {}\<rparr>)"
  using assms
proof (induction "work K s" arbitrary: s rule: less_induct)
  case less
  show ?case
  proof (cases "active s = {}")
    case True
    then have "s i = \<lparr>prog = [], held_locks = {}\<rparr>" for i
      using less.prems(1) by (cases "s i") (auto simp: active_def ordered_threads_def dest: spec [of _ i])
    then show ?thesis by blast
  next
    case False
    have "finite (active s)" using less.prems(2) by (rule finite_subset) simp
    then obtain t where t: "sem_step s t" using ordered_progress [OF less.prems(1) _ False] by blast
    have "work K t < work K s" using step_work [OF t less.prems(2)] by simp
    moreover have "active t \<subseteq> {..<K}" using step_active [OF t] less.prems(2) by blast
    ultimately obtain s' where "sem_step\<^sup>*\<^sup>* t s'" "\<forall>i. s' i = \<lparr>prog = [], held_locks = {}\<rparr>"
      using less.hyps step_ordered [OF t less.prems(1)] by blast
    then show ?thesis using t by (meson converse_rtranclp_into_rtranclp)
  qed
qed

subsection \<open>Properties\<close>

text \<open>
  The loop over the hash buckets of a request ends and visits the buckets of all its core lines, each once and in ascending
  order, whether or not the hash values wrap around the end of the table; \<open>ocf_req_hash_in_range\<close> holds of a core line exactly when its
  bucket is one of them.
\<close>
lemma request_buckets:
  assumes N: "0 < hash_table_entries cache" and r: "req_hashed cache req"
  shows "\<exists>hs. for_each_req_hash_asc cache req = Some hs \<and> sorted_wrt (<) hs \<and> set hs = req_buckets cache req \<and>
    ocf_req_hash_in_range cache req cid cl = Some (ocf_metadata_hash_func cache cl cid \<in> set hs)"
  using req_hashes_ascending [OF assms] req_in_range [OF assms] by auto

definition wrap_req :: ocf_request where
  "wrap_req = ocf_req_hash striped_cache (ocf_req_new striped_cache 0 1 12288 12288 OCF_READ)"

lemma wrap_req_hashed: "req_hashed striped_cache wrap_req"
  unfolding wrap_req_def by (rule req_hash_hashed) (simp_all add: ocf_req_new_def striped_cache_def ocf_bytes_2_lines_def Let_def)

text \<open>
  C21. Threads that use the metadata locks through these functions, with page accesses inside a bucket section, never block each other
  for good: whatever has been run so far, no lock is held by a writer and another thread, all the threads can still run to their end,
  where every lock has been given back, and a run has no more steps than the programs have instructions.
\<close>
theorem metadata_locks_deadlock_free:
  assumes N: "0 < hash_table_entries cache" and ok: "\<forall>xs\<in>set xss. \<forall>x\<in>set xs. section_ok cache x"
  shows "\<exists>ps. map (sections_prog cache) xss = map Some ps \<and>
    (\<forall>n s. (sem_step ^^ n) (start_threads ps) s \<longrightarrow> n \<le> sum_list (map length ps) \<and> exclusive_writers s \<and>
      (\<exists>s'. sem_step\<^sup>*\<^sup>* s s' \<and> (\<forall>i. s' i = \<lparr>prog = [], held_locks = {}\<rparr>)))"
proof -
  obtain f where f: "sections_prog cache xs = Some (f xs)" "ordered_run {} (f xs) = Some {}" if "xs \<in> set xss" for xs
    using sections_ordered [OF N] ok by metis
  define ps where "ps = map f xss"
  have o: "ordered_threads (start_threads ps)" by (rule start_ordered) (auto simp: ps_def f(2))
  have x: "exclusive_writers (start_threads ps)" by (simp add: exclusive_writers_def start_threads_def)
  have a: "active (start_threads ps) \<subseteq> {..<length ps}" by (auto simp: active_def start_threads_def split: if_splits)
  have w: "work (length ps) (start_threads ps) = sum_list (map length ps)"
    by (simp add: work_def start_threads_def sum_list_sum_nth atLeast0LessThan)
  have "n \<le> sum_list (map length ps) \<and> exclusive_writers s \<and> (\<exists>s'. sem_step\<^sup>*\<^sup>* s s' \<and> (\<forall>i. s' i = \<lparr>prog = [], held_locks = {}\<rparr>))"
    if n: "(sem_step ^^ n) (start_threads ps) s" for n s
  proof -
    note i = steps_inv [OF relpowp_imp_rtranclp [OF n] o x]
    have "active s \<subseteq> {..<length ps}" using i a by blast
    then show ?thesis using i steps_work [OF n a] w ordered_finish [of s "length ps"] by auto
  qed
  moreover have "map (sections_prog cache) xss = map Some ps" by (simp add: ps_def f(1))
  ultimately show ?thesis by blast
qed

theorem metadata_locks_deadlock_free_witness:
  "\<exists>ps s'. map (sections_prog striped_cache) [[Upgraded 0 wrap_req [(OCF_WRITE, 1)]], [Exclusive, Bucket OCF_WRITE 1 2 5 []]] = map Some ps \<and>
    sem_step\<^sup>*\<^sup>* (start_threads ps) s' \<and> (\<forall>i. s' i = \<lparr>prog = [], held_locks = {}\<rparr>)"
proof -
  let ?xss = "[[Upgraded 0 wrap_req [(OCF_WRITE, 1)]], [Exclusive, Bucket OCF_WRITE 1 2 5 []]]"
  have "0 < hash_table_entries striped_cache" by (simp add: striped_cache_def)
  moreover have "\<forall>xs\<in>set ?xss. \<forall>x\<in>set xs. section_ok striped_cache x" using wrap_req_hashed by simp
  ultimately obtain ps where "map (sections_prog striped_cache) ?xss = map Some ps"
    "\<And>n s. (sem_step ^^ n) (start_threads ps) s \<Longrightarrow> \<exists>s'. sem_step\<^sup>*\<^sup>* s s' \<and> (\<forall>i. s' i = \<lparr>prog = [], held_locks = {}\<rparr>)"
    using metadata_locks_deadlock_free [of striped_cache ?xss] by blast
  from this(1) this(2) [of 0 "start_threads ps"] show ?thesis by auto
qed

end
