(* ===== verification/Engine_Lookup.thy ===== *)
theory Engine_Lookup
  imports Metadata_Locks Lru
begin

text \<open>
  The lookup of a request in the cache (\<open>engine/engine_common.c\<close>, \<open>engine/engine_common.h\<close>): every core line of the request is
  looked up in the hash table, and the counters of the request say how many lines are cached, valid and dirty.

  The caller holds the hash buckets of the request (\<open>Metadata_Locks\<close>), so the table does not change during a lookup.
\<close>

subsection \<open>Operations\<close>

definition ocf_engine_lookup_map_entry :: "('s :: len) ocf_cache \<Rightarrow> ocf_map_info \<Rightarrow> u16 \<Rightarrow> u64 \<Rightarrow> ocf_map_info option" where
  "ocf_engine_lookup_map_entry cache entry cid cl = do {
     let hash = ocf_metadata_hash_func cache cl cid;
     let entry = entry\<lparr>m_hash := hash, status := LOOKUP_MISS, coll_idx := collision_table_entries cache, m_core_line := cl, m_core_id := cid\<rparr>;
     line \<leftarrow> ocf_metadata_get_hash cache hash;
     r \<leftarrow> collision_walk cache cid cl line;
     Some (case r of None \<Rightarrow> entry | Some line \<Rightarrow> entry\<lparr>coll_idx := line, status := LOOKUP_HIT\<rparr>)
   }"

text \<open>The result \<open>True\<close> is the value 0 of the function: the entry is not mapped or still maps its core line.\<close>

definition ocf_engine_check_map_entry :: "('s :: len) ocf_cache \<Rightarrow> ocf_map_info \<Rightarrow> u16 \<Rightarrow> bool option" where
  "ocf_engine_check_map_entry cache entry cid =
     (if status entry = LOOKUP_MISS then Some True
      else do {
        ENV_BUG_ON (coll_idx entry \<ge> collision_table_entries cache);
        (cid', cl') \<leftarrow> ocf_metadata_get_core_info cache (coll_idx entry);
        Some (cid = cid' \<and> cl' = m_core_line entry)
      })"

definition ocf_engine_clines_phys_cont :: "('s :: len) ocf_cache \<Rightarrow> ocf_request \<Rightarrow> u32 \<Rightarrow> bool option" where
  "ocf_engine_clines_phys_cont cache req entry = do {
     entry1 \<leftarrow> map_entry req entry;
     entry2 \<leftarrow> map_entry req (entry + 1);
     if status entry1 = LOOKUP_MISS \<or> status entry2 = LOOKUP_MISS then Some False
     else do {
       let phys1 = ocf_metadata_map_lg2phy cache (coll_idx entry1);
       let phys2 = ocf_metadata_map_lg2phy cache (coll_idx entry2);
       Some (phys1 < phys2 \<and> phys1 + 1 = phys2)
     }
   }"

text \<open>Incrementing a counter of the request.\<close>

definition info_if :: "bool \<Rightarrow> (ocf_req_info \<Rightarrow> ocf_req_info) \<Rightarrow> ocf_request \<Rightarrow> ocf_request" where
  "info_if b f req = (if b then req\<lparr>req_info := f (req_info req)\<rparr> else req)"

definition ocf_engine_patch_req_info :: "('s :: len) ocf_cache \<Rightarrow> ocf_request \<Rightarrow> u32 \<Rightarrow> ocf_request option" where
  "ocf_engine_patch_req_info cache req idx = do {
     entry \<leftarrow> map_entry req idx;
     ENV_BUG_ON (status entry \<noteq> LOOKUP_REMAPPED);
     let req = info_if True (\<lambda>i. i\<lparr>insert_no := insert_no i + 1\<rparr>) req;
     before \<leftarrow> (if idx > 0 then ocf_engine_clines_phys_cont cache req (idx - 1) else Some False);
     let req = info_if before (\<lambda>i. i\<lparr>seq_no := seq_no i + 1\<rparr>) req;
     after \<leftarrow> (if idx + 1 < core_line_count req then ocf_engine_clines_phys_cont cache req idx else Some False);
     Some (info_if after (\<lambda>i. i\<lparr>seq_no := seq_no i + 1\<rparr>) req)
   }"

definition ocf_engine_update_req_info :: "('s :: len) ocf_cache \<Rightarrow> ocf_request \<Rightarrow> u32 \<Rightarrow> ocf_request option" where
  "ocf_engine_update_req_info cache req idx = do {
     entry \<leftarrow> map_entry req idx;
     let start_sector = ocf_map_line_start_sector cache req idx;
     let end_sector = ocf_map_line_end_sector cache req idx;
     ENV_BUG_ON (status entry \<noteq> LOOKUP_HIT \<and> status entry \<noteq> LOOKUP_MISS \<and> status entry \<noteq> LOOKUP_REMAPPED);
     req \<leftarrow> (if status entry = LOOKUP_HIT then do {
         v \<leftarrow> metadata_test_valid_sec cache (coll_idx entry) start_sector end_sector;
         let req = info_if v (\<lambda>i. i\<lparr>hit_no := hit_no i + 1\<rparr>) (info_if (\<not> v) (\<lambda>i. i\<lparr>invalid_no := invalid_no i + 1\<rparr>) req);
         d \<leftarrow> metadata_test_dirty cache (coll_idx entry);
         if d then do {
           da \<leftarrow> metadata_test_dirty_all_sec cache (coll_idx entry) start_sector end_sector;
           Some (info_if da (\<lambda>i. i\<lparr>dirty_all := dirty_all i + 1\<rparr>) (info_if True (\<lambda>i. i\<lparr>dirty_any := dirty_any i + 1\<rparr>) req))
         } else Some req
       } else Some req);
     req \<leftarrow> (if status entry = LOOKUP_HIT \<or> status entry = LOOKUP_REMAPPED then do {
         p \<leftarrow> ocf_metadata_get_partition_id cache (coll_idx entry);
         Some (if req_part_id req \<noteq> p
               then info_if True (\<lambda>i. i\<lparr>re_part_no := re_part_no i + 1\<rparr>) (set_map_entry req idx (entry\<lparr>re_part := True\<rparr>))
               else req)
       } else Some req);
     let req = info_if (status entry = LOOKUP_REMAPPED) (\<lambda>i. i\<lparr>insert_no := insert_no i + 1\<rparr>) req;
     s \<leftarrow> (if idx > 0 then ocf_engine_clines_phys_cont cache req (idx - 1) else Some False);
     Some (info_if s (\<lambda>i. i\<lparr>seq_no := seq_no i + 1\<rparr>) req)
   }"

fun set_hot_loop :: "('s :: len) ocf_cache \<Rightarrow> ocf_request \<Rightarrow> nat list \<Rightarrow> 's ocf_cache option" where
  "set_hot_loop cache req [] = Some cache"
| "set_hot_loop cache req (i # is) = do {
     entry \<leftarrow> map_entry req (of_nat i);
     cache \<leftarrow> (if status entry = LOOKUP_HIT then ocf_lru_hot_cline cache (coll_idx entry) else Some cache);
     set_hot_loop cache req is
   }"

definition ocf_engine_set_hot :: "('s :: len) ocf_cache \<Rightarrow> ocf_request \<Rightarrow> 's ocf_cache option" where
  "ocf_engine_set_hot cache req =
     (if hit_no (req_info req) = 0 \<and> invalid_no (req_info req) = 0 then Some cache
      else set_hot_loop cache req [0..<unat (core_line_count req)])"

definition lookup_step :: "('s :: len) ocf_cache \<Rightarrow> u32 \<Rightarrow> u64 \<Rightarrow> ocf_request \<Rightarrow> ocf_request option" where
  "lookup_step cache i cl req = do {
     entry \<leftarrow> map_entry req i;
     entry \<leftarrow> ocf_engine_lookup_map_entry cache entry (req_core req) cl;
     let req = set_map_entry req i entry;
     if status entry \<noteq> LOOKUP_HIT then Some req else ocf_engine_update_req_info cache req i
   }"

partial_function (option) lookup_loop :: "('s :: len) ocf_cache \<Rightarrow> u32 \<Rightarrow> u64 \<Rightarrow> ocf_request \<Rightarrow> ocf_request option" where
  "lookup_loop cache i cl req =
     (if cl \<le> core_line_last req then lookup_step cache i cl req \<bind> lookup_loop cache (i + 1) (cl + 1) else Some req)"

definition ocf_engine_lookup :: "('s :: len) ocf_cache \<Rightarrow> ocf_request \<Rightarrow> ocf_request option" where
  "ocf_engine_lookup cache req = lookup_loop cache 0 (core_line_first req) (ocf_req_clear_info req)"

definition ocf_engine_traverse :: "('s :: len) ocf_cache \<Rightarrow> ocf_request \<Rightarrow> ('s ocf_cache \<times> ocf_request) option" where
  "ocf_engine_traverse cache req = do {
     req \<leftarrow> ocf_engine_lookup cache req;
     cache \<leftarrow> ocf_engine_set_hot cache req;
     Some (cache, req)
   }"

text \<open>The second component of the result of a check is \<open>True\<close> for the value 0.\<close>

definition check_step :: "('s :: len) ocf_cache \<Rightarrow> u32 \<Rightarrow> ocf_request \<times> bool \<Rightarrow> (ocf_request \<times> bool) option" where
  "check_step cache i = (\<lambda>(req, result). do {
     entry \<leftarrow> map_entry req i;
     if status entry = LOOKUP_MISS then Some (req, result)
     else do {
       ok \<leftarrow> ocf_engine_check_map_entry cache entry (req_core req);
       if \<not> ok then Some (set_map_entry req i (entry\<lparr>invalid := True\<rparr>), False)
       else do {
         req \<leftarrow> ocf_engine_update_req_info cache (set_map_entry req i (entry\<lparr>invalid := False\<rparr>)) i;
         Some (req, result)
       }
     }
   })"

partial_function (option) echeck_loop ::
    "('s :: len) ocf_cache \<Rightarrow> u32 \<Rightarrow> u64 \<Rightarrow> ocf_request \<times> bool \<Rightarrow> (ocf_request \<times> bool) option" where
  "echeck_loop cache i cl st =
     (if cl \<le> core_line_last (fst st) then check_step cache i st \<bind> echeck_loop cache (i + 1) (cl + 1) else Some st)"

definition ocf_engine_check :: "('s :: len) ocf_cache \<Rightarrow> ocf_request \<Rightarrow> (ocf_request \<times> bool) option" where
  "ocf_engine_check cache req = echeck_loop cache 0 (core_line_first req) (ocf_req_clear_info req, True)"

text \<open>The policy of the cleaner keeps its own data about a new line (\<open>ocf_cleaning_init_cache_block\<close>), which is not part of the state.\<close>

definition ocf_map_cache_line :: "('s :: len) ocf_cache \<Rightarrow> ocf_request \<Rightarrow> u32 \<Rightarrow> u32 \<Rightarrow> ('s ocf_cache \<times> ocf_request) option" where
  "ocf_map_cache_line cache req idx line = do {
     entry \<leftarrow> map_entry req idx;
     let cl = core_line_first req + ucast idx;
     cache \<leftarrow> ocf_metadata_add_to_collision cache (req_core req) cl (m_hash entry) line;
     Some (cache, set_map_entry req idx (entry\<lparr>coll_idx := line\<rparr>))
   }"

subsection \<open>Tests of a request\<close>

definition ocf_engine_is_hit :: "ocf_request \<Rightarrow> bool" where
  "ocf_engine_is_hit req \<longleftrightarrow> hit_no (req_info req) = core_line_count req"

definition ocf_engine_needs_repart :: "ocf_request \<Rightarrow> bool" where
  "ocf_engine_needs_repart req \<longleftrightarrow> re_part_no (req_info req) > 0"

definition ocf_engine_is_mapped :: "ocf_request \<Rightarrow> bool" where
  "ocf_engine_is_mapped req \<longleftrightarrow> hit_no (req_info req) + invalid_no (req_info req) = core_line_count req"

definition ocf_engine_is_dirty_all :: "ocf_request \<Rightarrow> bool" where
  "ocf_engine_is_dirty_all req \<longleftrightarrow> dirty_all (req_info req) = core_line_count req"

definition ocf_engine_mapped_count :: "ocf_request \<Rightarrow> u32" where
  "ocf_engine_mapped_count req = hit_no (req_info req) + invalid_no (req_info req)"

definition ocf_engine_unmapped_count :: "ocf_request \<Rightarrow> u32" where
  "ocf_engine_unmapped_count req =
     core_line_count req - (hit_no (req_info req) + invalid_no (req_info req) + insert_no (req_info req))"

definition ocf_engine_repart_count :: "ocf_request \<Rightarrow> u32" where
  "ocf_engine_repart_count req = re_part_no (req_info req)"

definition ocf_engine_is_sequential :: "ocf_request \<Rightarrow> bool" where
  "ocf_engine_is_sequential req \<longleftrightarrow> hit_no (req_info req) + insert_no (req_info req) = core_line_count req \<and>
     seq_no (req_info req) = core_line_count req - 1"

definition ocf_engine_io_count :: "ocf_request \<Rightarrow> u32" where
  "ocf_engine_io_count req = (if ocf_engine_is_sequential req then 1 else core_line_count req)"

definition ocf_engine_map_all_sec_dirty :: "('s :: len) ocf_cache \<Rightarrow> ocf_request \<Rightarrow> u32 \<Rightarrow> bool option" where
  "ocf_engine_map_all_sec_dirty cache req line = do {
     let start = ocf_map_line_start_sector cache req line;
     let stop = ocf_map_line_end_sector cache req line;
     entry \<leftarrow> map_entry req line;
     if status entry \<noteq> LOOKUP_HIT then Some False else metadata_test_dirty_all_sec cache (coll_idx entry) start stop
   }"

definition ocf_engine_map_all_sec_clean :: "('s :: len) ocf_cache \<Rightarrow> ocf_request \<Rightarrow> u32 \<Rightarrow> bool option" where
  "ocf_engine_map_all_sec_clean cache req line = do {
     let start = ocf_map_line_start_sector cache req line;
     let stop = ocf_map_line_end_sector cache req line;
     entry \<leftarrow> map_entry req line;
     if status entry \<noteq> LOOKUP_HIT then Some False
     else do {
       v \<leftarrow> metadata_test_valid_sec cache (coll_idx entry) start stop;
       if \<not> v then Some False
       else do {
         d \<leftarrow> metadata_test_dirty_sec cache (coll_idx entry) start stop;
         Some (\<not> d)
       }
     }
   }"

definition ocf_engine_map_all_sec_valid :: "('s :: len) ocf_cache \<Rightarrow> ocf_request \<Rightarrow> u32 \<Rightarrow> bool option" where
  "ocf_engine_map_all_sec_valid cache req line = do {
     let start = ocf_map_line_start_sector cache req line;
     let stop = ocf_map_line_end_sector cache req line;
     entry \<leftarrow> map_entry req line;
     if status entry \<noteq> LOOKUP_HIT then Some False else metadata_test_valid_sec cache (coll_idx entry) start stop
   }"

subsection \<open>One line\<close>

definition looked_up :: "('s :: len) ocf_cache \<Rightarrow> u16 \<Rightarrow> u64 \<Rightarrow> ocf_map_info \<Rightarrow> bool" where
  "looked_up cache cid cl e \<longleftrightarrow> m_core_line e = cl \<and> m_core_id e = cid \<and> m_hash e = ocf_metadata_hash_func cache cl cid \<and>
     (case index cache (cid, cl) of None \<Rightarrow> status e = LOOKUP_MISS \<and> coll_idx e = collision_table_entries cache
      | Some x \<Rightarrow> status e = LOOKUP_HIT \<and> coll_idx e = x)"

lemma lookup_map_entry_ok:
  assumes "index_ok cache"
  shows "\<exists>e'. ocf_engine_lookup_map_entry cache e cid cl = Some e' \<and> looked_up cache cid cl e' \<and> re_part e' = re_part e"
proof -
  have n: "0 < hash_table_entries cache" using assms by (simp add: index_ok_def)
  have h: "ocf_metadata_get_hash cache (ocf_metadata_hash_func cache cl cid) = Some (seg_hash cache (ocf_metadata_hash_func cache cl cid))"
    using hash_func_lt [OF n] by (simp add: ocf_metadata_get_hash_def)
  have "collision_walk cache cid cl (seg_hash cache (ocf_metadata_hash_func cache cl cid)) = Some (index cache (cid, cl))"
    using collision_lookup_index [OF assms, of cid cl] by (simp add: collision_lookup_def h)
  then show ?thesis
    by (cases "index cache (cid, cl)") (simp_all add: ocf_engine_lookup_map_entry_def h looked_up_def lookup_defs)
qed

text \<open>The sectors of line \<open>i\<close> of the request.\<close>

definition req_secs :: "('s :: len) ocf_cache \<Rightarrow> ocf_request \<Rightarrow> nat \<Rightarrow> nat set" where
  "req_secs cache req i = sec_range (ocf_map_line_start_sector cache req (of_nat i)) (ocf_map_line_end_sector cache req (of_nat i))"

lemma req_secs_frame [simp]:
  "req_secs cache (req\<lparr>req_map := m\<rparr>) = req_secs cache req"
  "req_secs cache (req\<lparr>req_info := f\<rparr>) = req_secs cache req"
  by (simp_all add: req_secs_def fun_eq_iff ocf_map_line_start_sector_def ocf_map_line_end_sector_def)

definition req_shape :: "('s :: len) ocf_cache \<Rightarrow> ocf_request \<Rightarrow> bool" where
  "req_shape (cache :: 's ocf_cache) req \<longleftrightarrow> length (req_map req) = unat (core_line_count req) \<and>
     unat (core_line_last req) + 1 = unat (core_line_first req) + unat (core_line_count req) \<and>
     unat (core_line_last req) + 1 < 2 ^ 64 \<and> 0 < core_line_count req \<and>
     (\<forall>i<unat (core_line_count req). ocf_map_line_start_sector cache req (of_nat i) \<le> ocf_map_line_end_sector cache req (of_nat i) \<and>
        unat (ocf_map_line_end_sector cache req (of_nat i)) < LENGTH('s))"

lemma sector_frame [simp]:
  "ocf_map_line_start_sector cache (req\<lparr>req_map := m\<rparr>) i = ocf_map_line_start_sector cache req i"
  "ocf_map_line_start_sector cache (req\<lparr>req_info := f\<rparr>) i = ocf_map_line_start_sector cache req i"
  "ocf_map_line_end_sector cache (req\<lparr>req_map := m\<rparr>) i = ocf_map_line_end_sector cache req i"
  "ocf_map_line_end_sector cache (req\<lparr>req_info := f\<rparr>) i = ocf_map_line_end_sector cache req i"
  by (simp_all add: ocf_map_line_start_sector_def ocf_map_line_end_sector_def)

lemma req_shape_frame [simp]:
  "req_shape cache (req\<lparr>req_info := f\<rparr>) = req_shape cache req"
  "length m = length (req_map req) \<Longrightarrow> req_shape cache (req\<lparr>req_map := m\<rparr>) = req_shape cache req"
  by (simp_all add: req_shape_def)

definition plus_if :: "bool \<Rightarrow> u32 \<Rightarrow> u32" where
  "plus_if b c = (if b then c + 1 else c)"

lemma phys_cont_total:
  assumes "i < length (req_map req)" "length (req_map req) < 2 ^ 32" "0 < i"
  shows "\<exists>b. ocf_engine_clines_phys_cont cache req (of_nat i - 1) = Some b"
proof -
  have "unat (of_nat i :: u32) = i" using assms by (simp add: unat_of_nat take_bit_nat_eq_self)
  then have "unat (of_nat i - 1 :: u32) = i - 1" using assms(3) by (subst unat_minus_one) auto
  then show ?thesis using assms \<open>unat (of_nat i :: u32) = i\<close> by (auto simp: ocf_engine_clines_phys_cont_def map_entry_def Let_def)
qed

lemma update_req_info_hit:
  fixes cache :: "('s :: len) ocf_cache"
  assumes e: "map_entry req (of_nat i) = Some e" "status e = LOOKUP_HIT" "coll_idx e = x"
    and i: "i < unat (core_line_count req)" and sh: "req_shape cache req" and s: "settings_ok cache" and x: "x < collision_table_entries cache"
  shows "\<exists>r q. ocf_engine_update_req_info cache req (of_nat i) = Some (req\<lparr>
    req_map := (req_map req)[i := e\<lparr>re_part := r\<rparr>],
    req_info := (req_info req)\<lparr>
      hit_no := plus_if (req_secs cache req i \<subseteq> secs Valid cache x) (hit_no (req_info req)),
      invalid_no := plus_if (\<not> req_secs cache req i \<subseteq> secs Valid cache x) (invalid_no (req_info req)),
      dirty_any := plus_if (secs Dirty cache x \<noteq> {}) (dirty_any (req_info req)),
      dirty_all := plus_if (req_secs cache req i \<subseteq> secs Dirty cache x) (dirty_all (req_info req)),
      re_part_no := plus_if (req_part_id req \<noteq> part_of cache x) (re_part_no (req_info req)),
      seq_no := q\<rparr>\<rparr>)"
proof -
  let ?s = "ocf_map_line_start_sector cache req (of_nat i)" and ?t = "ocf_map_line_end_sector cache req (of_nat i)"
  have a: "status_args cache x ?s ?t" using sh s x i by (simp add: status_args_def req_shape_def)
  have ne: "req_secs cache req i \<noteq> {}" using sh i by (auto simp: req_secs_def sec_range_def req_shape_def word_le_nat_alt)
  have v: "metadata_test_valid_sec cache x ?s ?t = Some (req_secs cache req i \<subseteq> secs Valid cache x)"
    using ocf_metadata_test_secs [OF a] by (simp add: metadata_test_valid_sec_def req_secs_def)
  have da: "metadata_test_dirty_all_sec cache x ?s ?t = Some (req_secs cache req i \<subseteq> secs Dirty cache x)"
    using ocf_metadata_test_secs [OF a] by (simp add: metadata_test_dirty_all_sec_def req_secs_def)
  have p: "ocf_metadata_get_partition_id cache x = Some (part_of cache x)" by (rule get_partition_id_part_of [OF x])
  have n32: "unat (core_line_count req) < 2 ^ 32" using unsigned_less [of "core_line_count req", where ?'a = nat] by simp
  have ui: "unat (of_nat i :: u32) = i" using i n32 by (simp add: unat_of_nat take_bit_nat_eq_self)
  have len: "length (req_map req) = unat (core_line_count req)" using sh by (simp add: req_shape_def)
  define R where "R = req\<lparr>
    req_map := (req_map req)[i := e\<lparr>re_part := re_part e \<or> req_part_id req \<noteq> part_of cache x\<rparr>],
    req_info := (req_info req)\<lparr>
      hit_no := plus_if (req_secs cache req i \<subseteq> secs Valid cache x) (hit_no (req_info req)),
      invalid_no := plus_if (\<not> req_secs cache req i \<subseteq> secs Valid cache x) (invalid_no (req_info req)),
      dirty_any := plus_if (secs Dirty cache x \<noteq> {}) (dirty_any (req_info req)),
      dirty_all := plus_if (req_secs cache req i \<subseteq> secs Dirty cache x) (dirty_all (req_info req)),
      re_part_no := plus_if (req_part_id req \<noteq> part_of cache x) (re_part_no (req_info req))\<rparr>\<rparr>"
  have me: "req_map req ! i = e" using e(1) ui by (auto simp: map_entry_def split: if_splits)
  then have same: "(req_map req)[i := e\<lparr>re_part := re_part e\<rparr>] = req_map req" using list_update_id [of "req_map req" i] by simp
  have u: "ocf_engine_update_req_info cache req (of_nat i) =
      (if (of_nat i :: u32) > 0 then ocf_engine_clines_phys_cont cache R (of_nat i - 1) else Some False) \<bind>
      (\<lambda>s. Some (info_if s (\<lambda>i. i\<lparr>seq_no := seq_no i + 1\<rparr>) R))"
    using e s x v da p ne same unfolding R_def
    by (cases "req_secs cache req i \<subseteq> secs Valid cache x"; cases "secs Dirty cache x = {}"; cases "req_secs cache req i \<subseteq> secs Dirty cache x";
        cases "req_part_id req = part_of cache x")
      (simp_all add: ocf_engine_update_req_info_def whole_line_tests lookup_defs Let_def info_if_def plus_if_def set_map_entry_def ui cong: if_cong)
  have "\<exists>b. (if (of_nat i :: u32) > 0 then ocf_engine_clines_phys_cont cache R (of_nat i - 1) else Some False) = Some b"
    using phys_cont_total [of i R cache] i n32 len ui by (auto simp: R_def word_less_nat_alt)
  then obtain b where b: "ocf_engine_update_req_info cache req (of_nat i) = Some (info_if b (\<lambda>i. i\<lparr>seq_no := seq_no i + 1\<rparr>) R)"
    using u by auto
  then show ?thesis
    by (intro exI [of _ "re_part e \<or> req_part_id req \<noteq> part_of cache x"] exI [of _ "plus_if b (seq_no (req_info req))"])
      (simp add: R_def info_if_def plus_if_def)
qed

subsection \<open>The whole request\<close>

text \<open>The number of lines among the first \<open>k\<close> of the request that are cached, in a line that satisfies \<open>Q\<close>.\<close>

definition cached_at :: "('s :: len) ocf_cache \<Rightarrow> ocf_request \<Rightarrow> (nat \<Rightarrow> u32 \<Rightarrow> bool) \<Rightarrow> nat \<Rightarrow> bool" where
  "cached_at cache req Q i \<longleftrightarrow> (case index cache (req_core req, core_line_first req + of_nat i) of None \<Rightarrow> False | Some x \<Rightarrow> Q i x)"

definition count_lines :: "('s :: len) ocf_cache \<Rightarrow> ocf_request \<Rightarrow> (nat \<Rightarrow> u32 \<Rightarrow> bool) \<Rightarrow> nat \<Rightarrow> nat" where
  "count_lines cache req Q k = card {i. i < k \<and> cached_at cache req Q i}"

definition counters_ok :: "('s :: len) ocf_cache \<Rightarrow> ocf_request \<Rightarrow> nat \<Rightarrow> ocf_req_info \<Rightarrow> bool" where
  "counters_ok cache req k f \<longleftrightarrow>
     unat (hit_no f) = count_lines cache req (\<lambda>i x. req_secs cache req i \<subseteq> secs Valid cache x) k \<and>
     unat (invalid_no f) = count_lines cache req (\<lambda>i x. \<not> req_secs cache req i \<subseteq> secs Valid cache x) k \<and>
     unat (dirty_any f) = count_lines cache req (\<lambda>i x. secs Dirty cache x \<noteq> {}) k \<and>
     unat (dirty_all f) = count_lines cache req (\<lambda>i x. req_secs cache req i \<subseteq> secs Dirty cache x) k \<and>
     unat (re_part_no f) = count_lines cache req (\<lambda>i x. req_part_id req \<noteq> part_of cache x) k \<and>
     insert_no f = 0 \<and> \<not> mapping_error f"

definition lookup_state :: "('s :: len) ocf_cache \<Rightarrow> ocf_request \<Rightarrow> nat \<Rightarrow> ocf_request \<Rightarrow> bool" where
  "lookup_state cache req0 k req \<longleftrightarrow> (\<exists>m f. req = req0\<lparr>req_map := m, req_info := f\<rparr> \<and> length m = length (req_map req0) \<and>
     (\<forall>i<k. looked_up cache (req_core req0) (core_line_first req0 + of_nat i) (m ! i)) \<and> counters_ok cache req0 k f)"

lemma count_lines_Suc:
  "count_lines cache req Q (Suc k) = count_lines cache req Q k + (if cached_at cache req Q k then 1 else 0)"
proof -
  have "{i. i < Suc k \<and> cached_at cache req Q i} =
      (if cached_at cache req Q k then insert k {i. i < k \<and> cached_at cache req Q i} else {i. i < k \<and> cached_at cache req Q i})"
    by (auto simp: less_Suc_eq)
  then show ?thesis by (simp add: count_lines_def)
qed

lemma count_lines_le: "count_lines cache req Q k \<le> k"
  using card_mono [of "{..<k}" "{i. i < k \<and> cached_at cache req Q i}"] by (auto simp: count_lines_def)

lemma plus_if_count:
  assumes "unat c = count_lines cache req Q k" "k < unat (core_line_count req)"
  shows "unat (plus_if (cached_at cache req Q k) c) = count_lines cache req Q (Suc k)"
proof -
  have "unat c + unat (1 :: u32) < 2 ^ LENGTH(32)"
    using assms count_lines_le [of cache req Q k] unsigned_less [of "core_line_count req", where ?'a = nat] by simp
  then show ?thesis using assms(1) unat_add_nowrap [of c 1] by (simp add: plus_if_def count_lines_Suc)
qed

lemma looked_up_re_part [simp]: "looked_up cache cid cl (e\<lparr>re_part := r\<rparr>) = looked_up cache cid cl e"
  by (simp add: looked_up_def split: option.split)

lemma req_shape_line:
  assumes "req_shape cache req" "k \<le> unat (core_line_count req)"
  shows "unat (core_line_first req + of_nat k) = unat (core_line_first req) + k"
proof -
  have b: "unat (core_line_first req) + k < 2 ^ 64" using assms by (simp add: req_shape_def)
  then have "unat (of_nat k :: u64) = k" by (simp add: unat_of_nat take_bit_nat_eq_self)
  then show ?thesis using b unat_add_nowrap [of "core_line_first req" "of_nat k"] by simp
qed

lemma lookup_step_ok:
  assumes st: "lookup_state cache req0 k req" and k: "k < unat (core_line_count req0)" and sh: "req_shape cache req0"
    and ok: "index_ok cache" "settings_ok cache"
  shows "\<exists>req'. lookup_step cache (of_nat k) (core_line_first req0 + of_nat k) req = Some req' \<and> lookup_state cache req0 (Suc k) req'"
proof -
  let ?cl = "core_line_first req0 + of_nat k"
  obtain m f where r: "req = req0\<lparr>req_map := m, req_info := f\<rparr>" and m: "length m = length (req_map req0)"
    "\<And>i. i < k \<Longrightarrow> looked_up cache (req_core req0) (core_line_first req0 + of_nat i) (m ! i)" and f: "counters_ok cache req0 k f"
    using st by (auto simp: lookup_state_def)
  have uk: "unat (of_nat k :: u32) = k"
    using k unsigned_less [of "core_line_count req0", where ?'a = nat] by (simp add: unat_of_nat take_bit_nat_eq_self)
  have len: "k < length m" using k m(1) sh by (simp add: req_shape_def)
  obtain e where e: "ocf_engine_lookup_map_entry cache (m ! k) (req_core req0) ?cl = Some e" "looked_up cache (req_core req0) ?cl e"
    using lookup_map_entry_ok [OF ok(1)] by blast
  let ?r = "req0\<lparr>req_map := m[k := e], req_info := f\<rparr>"
  have rr: "req\<lparr>req_map := m[k := e]\<rparr> = ?r" by (simp add: r)
  have step: "lookup_step cache (of_nat k) ?cl req =
      (if status e \<noteq> LOOKUP_HIT then Some ?r else ocf_engine_update_req_info cache ?r (of_nat k))"
    using len uk e(1) unfolding rr [symmetric] by (simp add: lookup_step_def r map_entry_def set_map_entry_def)
  have m': "\<And>i. i < Suc k \<Longrightarrow> looked_up cache (req_core req0) (core_line_first req0 + of_nat i) (m[k := e\<lparr>re_part := p\<rparr>] ! i)" for p
    using m(2) e(2) len by (auto simp: nth_list_update less_Suc_eq)
  show ?thesis
  proof (cases "index cache (req_core req0, ?cl)")
    case None
    then have "status e \<noteq> LOOKUP_HIT" using e(2) by (simp add: looked_up_def lookup_defs)
    moreover have "counters_ok cache req0 (Suc k) f"
      using f None by (simp add: counters_ok_def count_lines_Suc cached_at_def)
    moreover have "\<forall>i<Suc k. looked_up cache (req_core req0) (core_line_first req0 + of_nat i) (m[k := e] ! i)"
      using m' [of _ "re_part e"] by auto
    ultimately show ?thesis unfolding step lookup_state_def using m(1) by (auto intro!: exI [of _ "m[k := e]"] exI [of _ f])
  next
    case (Some x)
    then have hit: "status e = LOOKUP_HIT" "coll_idx e = x" using e(2) by (simp_all add: looked_up_def)
    have x: "x < collision_table_entries cache" by (rule index_inj(3) [OF ok(1) Some Some])
    have me: "map_entry ?r (of_nat k) = Some e" using len uk by (simp add: map_entry_def)
    have sh': "req_shape cache ?r" using sh m(1) by simp
    have c: "unat c = count_lines cache req0 Q k \<Longrightarrow> unat (plus_if (Q k x) c) = count_lines cache req0 Q (Suc k)" for c Q
      using plus_if_count [OF _ k, of c cache Q] Some by (simp add: cached_at_def)
    from update_req_info_hit [OF me hit _ sh' ok(2) x] k obtain p sq where
      u: "ocf_engine_update_req_info cache ?r (of_nat k) = Some (req0\<lparr>req_map := m[k := e\<lparr>re_part := p\<rparr>], req_info := f\<lparr>
        hit_no := plus_if (req_secs cache req0 k \<subseteq> secs Valid cache x) (hit_no f),
        invalid_no := plus_if (\<not> req_secs cache req0 k \<subseteq> secs Valid cache x) (invalid_no f),
        dirty_any := plus_if (secs Dirty cache x \<noteq> {}) (dirty_any f),
        dirty_all := plus_if (req_secs cache req0 k \<subseteq> secs Dirty cache x) (dirty_all f),
        re_part_no := plus_if (req_part_id req0 \<noteq> part_of cache x) (re_part_no f), seq_no := sq\<rparr>\<rparr>)" (is "_ = Some (req0\<lparr>req_map := _, req_info := ?f\<rparr>)")
      by auto
    have "counters_ok cache req0 (Suc k) ?f"
      using f c [of "hit_no f" "\<lambda>i x. req_secs cache req0 i \<subseteq> secs Valid cache x"]
        c [of "invalid_no f" "\<lambda>i x. \<not> req_secs cache req0 i \<subseteq> secs Valid cache x"]
        c [of "dirty_any f" "\<lambda>i x. secs Dirty cache x \<noteq> {}"]
        c [of "dirty_all f" "\<lambda>i x. req_secs cache req0 i \<subseteq> secs Dirty cache x"]
        c [of "re_part_no f" "\<lambda>i x. req_part_id req0 \<noteq> part_of cache x"]
      unfolding counters_ok_def by simp
    then show ?thesis unfolding step lookup_state_def using m(1) m' [of _ p] u hit
      by (auto intro!: exI [of _ "m[k := e\<lparr>re_part := p\<rparr>]"] exI [of _ ?f])
  qed
qed

lemma lookup_loop_ok:
  assumes sh: "req_shape cache req0" and ok: "index_ok cache" "settings_ok cache"
  shows "lookup_state cache req0 k req \<Longrightarrow> k \<le> unat (core_line_count req0) \<Longrightarrow>
    \<exists>req'. lookup_loop cache (of_nat k) (core_line_first req0 + of_nat k) req = Some req' \<and> lookup_state cache req0 (unat (core_line_count req0)) req'"
proof (induction "unat (core_line_count req0) - k" arbitrary: k req)
  case 0
  then have k: "k = unat (core_line_count req0)" by simp
  have last: "core_line_last req = core_line_last req0" using 0(2) by (auto simp: lookup_state_def)
  have "unat (core_line_first req0 + of_nat k) = unat (core_line_last req0) + 1"
    using req_shape_line [OF sh, of k] sh k by (simp add: req_shape_def)
  then have "\<not> core_line_first req0 + of_nat k \<le> core_line_last req" by (simp add: last word_le_nat_alt)
  then show ?case using 0(2) k by (subst lookup_loop.simps) auto
next
  case (Suc d)
  then have k: "k < unat (core_line_count req0)" by simp
  have last: "core_line_last req = core_line_last req0" using Suc(3) by (auto simp: lookup_state_def)
  have "unat (core_line_first req0 + of_nat k) = unat (core_line_first req0) + k"
    using req_shape_line [OF sh, of k] k by simp
  then have le: "core_line_first req0 + of_nat k \<le> core_line_last req" using k sh by (simp add: last word_le_nat_alt req_shape_def)
  obtain req1 where r1: "lookup_step cache (of_nat k) (core_line_first req0 + of_nat k) req = Some req1" "lookup_state cache req0 (Suc k) req1"
    using lookup_step_ok [OF Suc(3) k sh ok] by blast
  have d: "d = unat (core_line_count req0) - Suc k" using Suc(2) by simp
  obtain req' where "lookup_loop cache (of_nat (Suc k)) (core_line_first req0 + of_nat (Suc k)) req1 = Some req'"
    "lookup_state cache req0 (unat (core_line_count req0)) req'"
    using Suc(1) [of "Suc k" req1] d k r1(2) by auto
  then show ?case using le r1 by (subst lookup_loop.simps) (simp add: add.commute add.left_commute)
qed

lemma engine_lookup_ok:
  assumes sh: "req_shape cache req" and ok: "index_ok cache" "settings_ok cache"
  shows "\<exists>req'. ocf_engine_lookup cache req = Some req' \<and> lookup_state cache req (unat (core_line_count req)) req'"
proof -
  have "lookup_state cache req 0 (ocf_req_clear_info req)"
    unfolding lookup_state_def ocf_req_clear_info_def
    by (intro exI [of _ "req_map req"] exI [of _ zero_info]) (simp add: counters_ok_def count_lines_def zero_info_def)
  from lookup_loop_ok [OF assms this] show ?thesis by (simp add: ocf_engine_lookup_def)
qed

lemma count_lines_all: "count_lines cache req Q n = n \<longleftrightarrow> (\<forall>i<n. cached_at cache req Q i)"
proof
  assume "count_lines cache req Q n = n"
  then have "{i. i < n \<and> cached_at cache req Q i} = {..<n}" by (intro card_subset_eq) (auto simp: count_lines_def)
  then show "\<forall>i<n. cached_at cache req Q i" by blast
next
  assume "\<forall>i<n. cached_at cache req Q i"
  then have "{i. i < n \<and> cached_at cache req Q i} = {..<n}" by auto
  then show "count_lines cache req Q n = n" by (simp add: count_lines_def)
qed

lemma count_lines_split:
  "count_lines cache req Q n + count_lines cache req (\<lambda>i x. \<not> Q i x) n = count_lines cache req (\<lambda>i x. True) n"
proof (induction n)
  case (Suc n)
  have "(if cached_at cache req Q n then 1 else 0) + (if cached_at cache req (\<lambda>i x. \<not> Q i x) n then 1 else 0) =
      (if cached_at cache req (\<lambda>i x. True) n then 1 else 0 :: nat)"
    by (auto simp: cached_at_def split: option.split)
  then show ?case using Suc unfolding count_lines_Suc by linarith
qed (simp add: count_lines_def)

text \<open>What the counters of a request that was looked up say.\<close>

lemma lookup_state_tests:
  assumes "lookup_state cache req (unat (core_line_count req)) req'"
  shows "ocf_engine_is_hit req' \<longleftrightarrow> (\<forall>i<unat (core_line_count req). cached_at cache req (\<lambda>i x. req_secs cache req i \<subseteq> secs Valid cache x) i)"
    and "ocf_engine_is_dirty_all req' \<longleftrightarrow> (\<forall>i<unat (core_line_count req). cached_at cache req (\<lambda>i x. req_secs cache req i \<subseteq> secs Dirty cache x) i)"
    and "unat (ocf_engine_mapped_count req') = count_lines cache req (\<lambda>i x. True) (unat (core_line_count req))"
    and "ocf_engine_is_mapped req' \<longleftrightarrow> (\<forall>i<unat (core_line_count req). cached_at cache req (\<lambda>i x. True) i)"
    and "unat (ocf_engine_unmapped_count req') = unat (core_line_count req) - count_lines cache req (\<lambda>i x. True) (unat (core_line_count req))"
proof -
  let ?n = "unat (core_line_count req)"
  obtain m f where r: "req' = req\<lparr>req_map := m, req_info := f\<rparr>" and f: "counters_ok cache req ?n f"
    using assms by (auto simp: lookup_state_def)
  show "ocf_engine_is_hit req' \<longleftrightarrow> (\<forall>i<?n. cached_at cache req (\<lambda>i x. req_secs cache req i \<subseteq> secs Valid cache x) i)"
    using f count_lines_all [of cache req _ ?n] by (simp add: ocf_engine_is_hit_def r counters_ok_def word_unat_eq_iff)
  show "ocf_engine_is_dirty_all req' \<longleftrightarrow> (\<forall>i<?n. cached_at cache req (\<lambda>i x. req_secs cache req i \<subseteq> secs Dirty cache x) i)"
    using f count_lines_all [of cache req _ ?n] by (simp add: ocf_engine_is_dirty_all_def r counters_ok_def word_unat_eq_iff)
  have sum: "unat (hit_no f) + unat (invalid_no f) = count_lines cache req (\<lambda>i x. True) ?n"
    using f count_lines_split [of cache req "\<lambda>i x. req_secs cache req i \<subseteq> secs Valid cache x" ?n] by (simp add: counters_ok_def)
  then have u: "unat (hit_no f + invalid_no f) = count_lines cache req (\<lambda>i x. True) ?n"
    using count_lines_le [of cache req _ ?n] unsigned_less [of "core_line_count req", where ?'a = nat]
    by (subst unat_add_nowrap) (auto intro: order.strict_trans1)
  then show "unat (ocf_engine_mapped_count req') = count_lines cache req (\<lambda>i x. True) ?n" by (simp add: ocf_engine_mapped_count_def r)
  show "ocf_engine_is_mapped req' \<longleftrightarrow> (\<forall>i<?n. cached_at cache req (\<lambda>i x. True) i)"
    using u count_lines_all [of cache req _ ?n] by (simp add: ocf_engine_is_mapped_def r word_unat_eq_iff)
  have "hit_no f + invalid_no f + insert_no f = hit_no f + invalid_no f" using f by (simp add: counters_ok_def)
  moreover have "unat (core_line_count req - (hit_no f + invalid_no f)) = ?n - unat (hit_no f + invalid_no f)"
    by (rule unat_sub_nowrap) (use u count_lines_le [of cache req _ ?n] in simp)
  ultimately show "unat (ocf_engine_unmapped_count req') = ?n - count_lines cache req (\<lambda>i x. True) ?n"
    using u by (simp add: ocf_engine_unmapped_count_def r)
qed

subsection \<open>Sectors\<close>

text \<open>A sector of a core is valid (dirty) in the cache.\<close>

definition cached_sector :: "what \<Rightarrow> ('s :: len) ocf_cache \<Rightarrow> u16 \<Rightarrow> nat \<Rightarrow> bool" where
  "cached_sector w cache cid s = (case index cache (cid, of_nat (s div unat (ocf_line_sectors cache))) of
     None \<Rightarrow> False | Some x \<Rightarrow> s mod unat (ocf_line_sectors cache) \<in> secs w cache x)"

lemma req_new_shape:
  fixes cache :: "('s :: len) ocf_cache"
  assumes "settings_ok cache" "bytes \<noteq> 0" "unat addr + unat bytes \<le> 2 ^ 64"
    and "req = ocf_req_new cache no core addr bytes rw"
  shows "req_shape cache req"
proof -
  note lines = req_new_lines [OF assms]
  note sz = settings_sectors [OF assms(1)]
  have lt: "last_sector req div unat (ocf_line_sectors cache) + 1 < 2 ^ 64"
  proof -
    have "last_sector req < 2 ^ 64 div 512"
      using assms(2,3) by (auto simp: last_sector_def assms(4) ocf_req_new_def Let_def split: prod.split)
    then have "last_sector req div unat (ocf_line_sectors cache) < 2 ^ 64 div 512"
      using div_le_dividend [of "last_sector req" "unat (ocf_line_sectors cache)"] by linarith
    then show ?thesis by simp
  qed
  have le: "first_sector req div unat (ocf_line_sectors cache) \<le> last_sector req div unat (ocf_line_sectors cache)"
    using lines(5) by (rule div_le_mono)
  have L: "LENGTH('s) = unat (ocf_line_sectors cache)"
    using assms(1) by (simp add: settings_ok_def ocf_line_sectors_def unat_div)
  have ranges: "ocf_map_line_start_sector cache req (of_nat i) \<le> ocf_map_line_end_sector cache req (of_nat i) \<and>
      unat (ocf_map_line_end_sector cache req (of_nat i)) < LENGTH('s)" if "i < unat (core_line_count req)" for i
  proof -
    have "(of_nat i :: u32) < core_line_count req"
      using that unsigned_less [of "core_line_count req", where ?'a = nat] by (simp add: word_less_nat_alt unat_of_nat_u32)
    then show ?thesis unfolding L by (rule req_new_ranges [OF assms refl])
  qed
  show ?thesis unfolding req_shape_def using lines lt le ranges by (simp add: word_less_nat_alt)
qed

text \<open>The sectors of the lines of a request are those of its bytes.\<close>

lemma req_sectors:
  fixes cache :: "('s :: len) ocf_cache"
  assumes "settings_ok cache" "bytes \<noteq> 0" "unat addr + unat bytes \<le> 2 ^ 64"
    and req: "req = ocf_req_new cache no core addr bytes rw" and S_def: "S = unat (ocf_line_sectors cache)"
  shows "(\<Union>i<unat (core_line_count req). (\<lambda>t. (unat (core_line_first req) + i) * S + t) ` req_secs cache req i) =
    {unat addr div 512 .. (unat addr + unat bytes - 1) div 512}"
proof -
  let ?n = "unat (core_line_count req)" and ?f = "unat (core_line_first req)"
  let ?R = "\<lambda>i. (\<lambda>t. (?f + i) * S + t) ` req_secs cache req i"
  have n32: "?n < 2 ^ 32" using unsigned_less [of "core_line_count req", where ?'a = nat] by simp
  have "{i. i < core_line_count req} = of_nat ` {..<?n}"
  proof (intro equalityI subsetI)
    fix i :: u32 assume "i \<in> {i. i < core_line_count req}"
    then show "i \<in> of_nat ` {..<?n}" by (intro image_eqI [of _ _ "unat i"]) (auto simp: word_less_nat_alt)
  qed (use n32 in \<open>auto simp: word_less_nat_alt unat_of_nat_u32\<close>)
  moreover have "?R i = {(?f + unat (of_nat i :: u32)) * S + unat (ocf_map_line_start_sector cache req (of_nat i)) ..
      (?f + unat (of_nat i :: u32)) * S + unat (ocf_map_line_end_sector cache req (of_nat i))}" if "i < ?n" for i
    using that n32 by (simp add: req_secs_def sec_range_def unat_of_nat_u32 image_add_atLeastAtMost)
  ultimately show ?thesis using req_new_union [OF assms] by simp
qed

lemma all_sectors:
  fixes cache :: "('s :: len) ocf_cache"
  assumes "settings_ok cache" "bytes \<noteq> 0" "unat addr + unat bytes \<le> 2 ^ 64"
    and req: "req = ocf_req_new cache no core addr bytes rw"
  shows "(\<forall>i<unat (core_line_count req). cached_at cache req (\<lambda>i x. req_secs cache req i \<subseteq> secs w cache x) i) \<longleftrightarrow>
    (\<forall>s\<in>{unat addr div 512 .. (unat addr + unat bytes - 1) div 512}. cached_sector w cache core s)"
proof -
  define S where "S = unat (ocf_line_sectors cache)"
  have S: "0 < S" using settings_sectors [OF assms(1)] by (simp add: S_def)
  have sh: "req_shape cache req" by (rule req_new_shape [OF assms])
  have core: "req_core req = core" by (simp add: req ocf_req_new_def Let_def split: prod.split)
  let ?n = "unat (core_line_count req)" and ?f = "unat (core_line_first req)"
  have n32: "?n < 2 ^ 32" using unsigned_less [of "core_line_count req", where ?'a = nat] by simp
  let ?R = "\<lambda>i. (\<lambda>t. (?f + i) * S + t) ` req_secs cache req i"
  have un: "(\<Union>i<?n. ?R i) = {unat addr div 512 .. (unat addr + unat bytes - 1) div 512}" by (rule req_sectors [OF assms S_def])
  have at: "cached_at cache req (\<lambda>i x. req_secs cache req i \<subseteq> secs w cache x) i \<longleftrightarrow> (\<forall>s\<in>?R i. cached_sector w cache core s)"
    if i: "i < ?n" for i
  proof -
    have r: "t < S" if "t \<in> req_secs cache req i" for t
    proof -
      have "unat (ocf_map_line_end_sector cache req (of_nat i)) < S"
        using req_new_ranges [OF assms S_def, of "of_nat i"] i n32 by (simp add: word_less_nat_alt unat_of_nat_u32)
      then show ?thesis using that by (simp add: req_secs_def sec_range_def)
    qed
    have ne: "req_secs cache req i \<noteq> {}" using sh i by (auto simp: req_shape_def req_secs_def sec_range_def word_le_nat_alt)
    have "cached_sector w cache core ((?f + i) * S + t) \<longleftrightarrow>
        (case index cache (core, core_line_first req + of_nat i) of None \<Rightarrow> False | Some x \<Rightarrow> t \<in> secs w cache x)"
      if "t \<in> req_secs cache req i" for t
    proof -
      have d: "((?f + i) * S + t) div S = ?f + i" using r [OF that] by simp
      have m: "((?f + i) * S + t) mod S = t" using r [OF that] by simp
      show ?thesis unfolding cached_sector_def S_def [symmetric] d m by simp
    qed
    then have conv: "(\<forall>s\<in>?R i. cached_sector w cache core s) \<longleftrightarrow>
        (\<forall>t\<in>req_secs cache req i. case index cache (core, core_line_first req + of_nat i) of None \<Rightarrow> False | Some x \<Rightarrow> t \<in> secs w cache x)"
      by simp
    show ?thesis unfolding conv cached_at_def core using ne
      by (cases "index cache (core, core_line_first req + of_nat i)") (simp_all add: subset_iff Ball_def)
  qed
  have "(\<forall>s\<in>(\<Union>i<n. R i). P s) \<longleftrightarrow> (\<forall>i<n. \<forall>s\<in>R i. P s)" for n :: nat and R :: "nat \<Rightarrow> nat set" and P by auto
  then show ?thesis unfolding un [symmetric] by (simp only:) (intro all_cong at)
qed

subsection \<open>Checking a request again\<close>

definition entry_fine :: "('s :: len) ocf_cache \<Rightarrow> ocf_map_info \<Rightarrow> bool" where
  "entry_fine cache e \<longleftrightarrow> status e = LOOKUP_MISS \<or>
     (status e = LOOKUP_HIT \<or> status e = LOOKUP_REMAPPED) \<and> coll_idx e < collision_table_entries cache"

definition still_mapped :: "('s :: len) ocf_cache \<Rightarrow> u16 \<Rightarrow> ocf_map_info \<Rightarrow> bool" where
  "still_mapped cache cid e \<longleftrightarrow> status e = LOOKUP_MISS \<or> holds cache cid (m_core_line e) (coll_idx e)"

text \<open>What a check leaves of an entry.\<close>

definition same_mapping :: "ocf_map_info \<Rightarrow> ocf_map_info \<Rightarrow> bool" where
  "same_mapping e e' \<longleftrightarrow> (\<exists>r b. e' = e\<lparr>re_part := r, invalid := b\<rparr>)"

lemma same_mappingD:
  assumes "same_mapping e e'"
  shows "status e' = status e" "coll_idx e' = coll_idx e" "m_core_line e' = m_core_line e" "m_core_id e' = m_core_id e"
    "m_hash e' = m_hash e"
  using assms by (auto simp: same_mapping_def)

lemma same_mapping_refl [simp]: "same_mapping e e"
  unfolding same_mapping_def by (intro exI [of _ "re_part e"] exI [of _ "invalid e"]) simp

lemma same_mapping_trans:
  assumes "same_mapping e e'" "same_mapping e' e''"
  shows "same_mapping e e''"
proof -
  obtain r b where "e'' = e'\<lparr>re_part := r, invalid := b\<rparr>" using assms(2) by (auto simp: same_mapping_def)
  then have "e'' = e\<lparr>re_part := r, invalid := b\<rparr>" using assms(1) by (auto simp: same_mapping_def)
  then show ?thesis unfolding same_mapping_def by blast
qed

lemma entry_status_args:
  assumes "req_shape cache req" "settings_ok cache" "i < unat (core_line_count req)" "x < collision_table_entries cache"
  shows "status_args cache x (ocf_map_line_start_sector cache req (of_nat i)) (ocf_map_line_end_sector cache req (of_nat i))"
  using assms by (simp add: status_args_def req_shape_def)

lemma update_req_info_total:
  assumes e: "map_entry req (of_nat i) = Some e" "status e = LOOKUP_HIT \<or> status e = LOOKUP_REMAPPED" "coll_idx e < collision_table_entries cache"
    and i: "i < unat (core_line_count req)" and sh: "req_shape cache req" and s: "settings_ok cache"
  shows "\<exists>r f. ocf_engine_update_req_info cache req (of_nat i) = Some (req\<lparr>req_map := (req_map req)[i := e\<lparr>re_part := r\<rparr>], req_info := f\<rparr>)"
  using e(2)
proof
  assume "status e = LOOKUP_HIT"
  from update_req_info_hit [OF e(1) this refl i sh s e(3)] show ?thesis by blast
next
  assume rm: "status e = LOOKUP_REMAPPED"
  have n32: "unat (core_line_count req) < 2 ^ 32" using unsigned_less [of "core_line_count req", where ?'a = nat] by simp
  have ui: "unat (of_nat i :: u32) = i" using i n32 by (simp add: unat_of_nat take_bit_nat_eq_self)
  have len: "length (req_map req) = unat (core_line_count req)" using sh by (simp add: req_shape_def)
  have me: "req_map req ! i = e" using e(1) ui by (auto simp: map_entry_def split: if_splits)
  then have same: "(req_map req)[i := e\<lparr>re_part := re_part e\<rparr>] = req_map req" using list_update_id [of "req_map req" i] by simp
  define R where "R = req\<lparr>req_map := (req_map req)[i := e\<lparr>re_part := re_part e \<or> req_part_id req \<noteq> part_of cache (coll_idx e)\<rparr>],
    req_info := (req_info req)\<lparr>re_part_no := plus_if (req_part_id req \<noteq> part_of cache (coll_idx e)) (re_part_no (req_info req)),
      insert_no := insert_no (req_info req) + 1\<rparr>\<rparr>"
  have "ocf_engine_update_req_info cache req (of_nat i) =
      (if (of_nat i :: u32) > 0 then ocf_engine_clines_phys_cont cache R (of_nat i - 1) else Some False) \<bind>
      (\<lambda>s. Some (info_if s (\<lambda>i. i\<lparr>seq_no := seq_no i + 1\<rparr>) R))"
    using e(1) rm same get_partition_id_part_of [OF e(3)] unfolding R_def
    by (cases "req_part_id req = part_of cache (coll_idx e)")
      (simp_all add: ocf_engine_update_req_info_def lookup_defs Let_def info_if_def plus_if_def set_map_entry_def ui cong: if_cong)
  moreover have "\<exists>b. (if (of_nat i :: u32) > 0 then ocf_engine_clines_phys_cont cache R (of_nat i - 1) else Some False) = Some b"
    using phys_cont_total [of i R cache] i n32 len ui by (auto simp: R_def word_less_nat_alt)
  ultimately obtain b where b: "ocf_engine_update_req_info cache req (of_nat i) = Some (info_if b (\<lambda>i. i\<lparr>seq_no := seq_no i + 1\<rparr>) R)"
    by auto
  define f where "f = req_info (info_if b (\<lambda>i. i\<lparr>seq_no := seq_no i + 1\<rparr>) R)"
  have X: "info_if b (\<lambda>i. i\<lparr>seq_no := seq_no i + 1\<rparr>) R =
      req\<lparr>req_map := (req_map req)[i := e\<lparr>re_part := re_part e \<or> req_part_id req \<noteq> part_of cache (coll_idx e)\<rparr>],
        req_info := f\<rparr>"
    by (simp add: f_def R_def info_if_def)
  show ?thesis unfolding b X by blast
qed

definition check_state :: "('s :: len) ocf_cache \<Rightarrow> ocf_request \<Rightarrow> nat \<Rightarrow> ocf_request \<times> bool \<Rightarrow> bool" where
  "check_state cache req0 k st \<longleftrightarrow> (\<exists>m f. fst st = req0\<lparr>req_map := m, req_info := f\<rparr> \<and> length m = length (req_map req0) \<and>
     (\<forall>i<length m. same_mapping (req_map req0 ! i) (m ! i)) \<and>
     (snd st \<longleftrightarrow> (\<forall>i<k. still_mapped cache (req_core req0) (req_map req0 ! i))))"

lemma check_step_ok:
  assumes st: "check_state cache req0 k st" and k: "k < unat (core_line_count req0)" and sh: "req_shape cache req0"
    and s: "settings_ok cache" and fine: "\<forall>e\<in>set (req_map req0). entry_fine cache e"
  shows "\<exists>st'. check_step cache (of_nat k) st = Some st' \<and> check_state cache req0 (Suc k) st'"
proof -
  obtain req ok where st_eq: "st = (req, ok)" by (cases st)
  obtain m f where r: "req = req0\<lparr>req_map := m, req_info := f\<rparr>" and m: "length m = length (req_map req0)"
    "\<And>i. i < length m \<Longrightarrow> same_mapping (req_map req0 ! i) (m ! i)" and o: "ok \<longleftrightarrow> (\<forall>i<k. still_mapped cache (req_core req0) (req_map req0 ! i))"
    using st unfolding check_state_def st_eq fst_conv snd_conv by blast
  have uk: "unat (of_nat k :: u32) = k"
    using k unsigned_less [of "core_line_count req0", where ?'a = nat] by (simp add: unat_of_nat take_bit_nat_eq_self)
  have len: "k < length m" using k m(1) sh by (simp add: req_shape_def)
  let ?e = "m ! k" and ?d = "req_map req0 ! k"
  note same = same_mappingD [OF m(2) [OF len]]
  have e: "entry_fine cache ?d" using fine len m(1) by simp
  have upd: "same_mapping (req_map req0 ! i) (m[k := e'] ! i)" if "i < length m" "same_mapping ?e e'" for i e'
    using that m(2) [OF that(1)] same_mapping_trans [of ?d ?e e'] by (cases "i = k") auto
  have step0: "still_mapped cache (req_core req0) ?d \<and> ok \<longleftrightarrow> (\<forall>i<Suc k. still_mapped cache (req_core req0) (req_map req0 ! i))"
    using o by (auto simp: less_Suc_eq)
  have en: "map_entry req (of_nat k) = Some ?e" using len uk by (simp add: map_entry_def r)
  show ?thesis
  proof (cases "status ?d = LOOKUP_MISS")
    case True
    then have "check_step cache (of_nat k) st = Some st" using en same by (simp add: check_step_def st_eq)
    moreover have "check_state cache req0 (Suc k) st"
      using st step0 True unfolding check_state_def st_eq o [symmetric] by (auto simp: still_mapped_def)
    ultimately show ?thesis by blast
  next
    case False
    then have x: "coll_idx ?d < collision_table_entries cache" "status ?d = LOOKUP_HIT \<or> status ?d = LOOKUP_REMAPPED"
      using e by (auto simp: entry_fine_def)
    have ck: "ocf_engine_check_map_entry cache ?e (req_core req0) = Some (still_mapped cache (req_core req0) ?d)"
      using x same False by (auto simp: ocf_engine_check_map_entry_def still_mapped_def holds_def ocf_metadata_get_core_info_def)
    show ?thesis
    proof (cases "still_mapped cache (req_core req0) ?d")
      case nm: False
      let ?st = "(req0\<lparr>req_map := m[k := ?e\<lparr>invalid := True\<rparr>], req_info := f\<rparr>, False)"
      have "check_step cache (of_nat k) st = Some ?st"
        using en ck nm False same len uk by (simp add: check_step_def st_eq r set_map_entry_def)
      moreover have "same_mapping ?e (?e\<lparr>invalid := True\<rparr>)"
        unfolding same_mapping_def by (intro exI [of _ "re_part ?e"] exI [of _ True]) simp
      then have "check_state cache req0 (Suc k) ?st"
        unfolding check_state_def using m(1) upd [of _ "?e\<lparr>invalid := True\<rparr>"] step0 nm
        by (intro exI [of _ "m[k := ?e\<lparr>invalid := True\<rparr>]"] exI [of _ f]) auto
      ultimately show ?thesis by blast
    next
      case sm: True
      let ?e' = "?e\<lparr>invalid := False\<rparr>"
      let ?r = "req0\<lparr>req_map := m[k := ?e'], req_info := f\<rparr>"
      have "map_entry ?r (of_nat k) = Some ?e'" using len uk by (simp add: map_entry_def)
      from update_req_info_total [OF this _ _ _ _ s] x same k sh m(1) obtain p f' where
        u: "ocf_engine_update_req_info cache ?r (of_nat k) = Some (req0\<lparr>req_map := m[k := ?e'\<lparr>re_part := p\<rparr>], req_info := f'\<rparr>)"
        by auto
      have rr: "req\<lparr>req_map := m[k := ?e']\<rparr> = ?r" by (simp add: r)
      have "check_step cache (of_nat k) st = Some (req0\<lparr>req_map := m[k := ?e'\<lparr>re_part := p\<rparr>], req_info := f'\<rparr>, ok)"
        using en ck sm False same len uk u unfolding rr [symmetric] by (simp add: check_step_def st_eq r set_map_entry_def)
      moreover have "same_mapping ?e (?e'\<lparr>re_part := p\<rparr>)" unfolding same_mapping_def by (intro exI [of _ p] exI [of _ False]) simp
      then have "check_state cache req0 (Suc k) (req0\<lparr>req_map := m[k := ?e'\<lparr>re_part := p\<rparr>], req_info := f'\<rparr>, ok)"
        unfolding check_state_def using m(1) upd [of _ "?e'\<lparr>re_part := p\<rparr>"] step0 sm
        by (intro exI [of _ "m[k := ?e'\<lparr>re_part := p\<rparr>]"] exI [of _ f']) auto
      ultimately show ?thesis by blast
    qed
  qed
qed

lemma echeck_loop_ok:
  assumes sh: "req_shape cache req0" and s: "settings_ok cache" and fine: "\<forall>e\<in>set (req_map req0). entry_fine cache e"
  shows "check_state cache req0 k st \<Longrightarrow> k \<le> unat (core_line_count req0) \<Longrightarrow>
    \<exists>st'. echeck_loop cache (of_nat k) (core_line_first req0 + of_nat k) st = Some st' \<and> check_state cache req0 (unat (core_line_count req0)) st'"
proof (induction "unat (core_line_count req0) - k" arbitrary: k st)
  case 0
  then have k: "k = unat (core_line_count req0)" by simp
  have last: "core_line_last (fst st) = core_line_last req0" using 0(2) by (auto simp: check_state_def)
  have "unat (core_line_first req0 + of_nat k) = unat (core_line_last req0) + 1"
    using req_shape_line [OF sh, of k] sh k by (simp add: req_shape_def)
  then have "\<not> core_line_first req0 + of_nat k \<le> core_line_last (fst st)" by (simp add: last word_le_nat_alt)
  then show ?case using 0(2) k by (subst echeck_loop.simps) auto
next
  case (Suc d)
  then have k: "k < unat (core_line_count req0)" by simp
  have last: "core_line_last (fst st) = core_line_last req0" using Suc(3) by (auto simp: check_state_def)
  have "unat (core_line_first req0 + of_nat k) = unat (core_line_first req0) + k"
    using req_shape_line [OF sh, of k] k by simp
  then have le: "core_line_first req0 + of_nat k \<le> core_line_last (fst st)" using k sh by (simp add: last word_le_nat_alt req_shape_def)
  obtain st1 where r1: "check_step cache (of_nat k) st = Some st1" "check_state cache req0 (Suc k) st1"
    using check_step_ok [OF Suc(3) k sh s fine] by blast
  have d: "d = unat (core_line_count req0) - Suc k" using Suc(2) by simp
  obtain st' where "echeck_loop cache (of_nat (Suc k)) (core_line_first req0 + of_nat (Suc k)) st1 = Some st'"
    "check_state cache req0 (unat (core_line_count req0)) st'"
    using Suc(1) [of "Suc k" st1] d k r1(2) by auto
  then show ?case using le r1 by (subst echeck_loop.simps) (simp add: add.commute add.left_commute)
qed

text \<open>A check ends and tells whether every mapped entry of the request still maps its core line.\<close>

lemma engine_check_ok:
  assumes sh: "req_shape cache req" and s: "settings_ok cache" and fine: "\<forall>e\<in>set (req_map req). entry_fine cache e"
  shows "\<exists>req' r. ocf_engine_check cache req = Some (req', r) \<and> (r \<longleftrightarrow> (\<forall>e\<in>set (req_map req). still_mapped cache (req_core req) e)) \<and>
    length (req_map req') = length (req_map req) \<and> (\<forall>i<length (req_map req). same_mapping (req_map req ! i) (req_map req' ! i))"
proof -
  have "check_state cache req 0 (ocf_req_clear_info req, True)"
    unfolding check_state_def ocf_req_clear_info_def by (intro exI [of _ "req_map req"] exI [of _ zero_info]) simp
  from echeck_loop_ok [OF assms this] obtain st where st: "ocf_engine_check cache req = Some st" "check_state cache req (unat (core_line_count req)) st"
    by (auto simp: ocf_engine_check_def)
  have len: "length (req_map req) = unat (core_line_count req)" using sh by (simp add: req_shape_def)
  have "(\<forall>e\<in>set (req_map req). still_mapped cache (req_core req) e) \<longleftrightarrow> (\<forall>i<unat (core_line_count req). still_mapped cache (req_core req) (req_map req ! i))"
    unfolding all_set_conv_all_nth len ..
  then show ?thesis using st by (cases st) (auto simp: check_state_def)
qed

subsection \<open>Traversing\<close>

text \<open>The lookup depends on the hash table only, which the LRU lists do not change.\<close>

lemma index_cong:
  assumes "collision_table_entries c' = collision_table_entries c" "hash_table_entries c' = hash_table_entries c" "seg_hash c' = seg_hash c"
    "\<And>y. core_id (seg_collision c' y) = core_id (seg_collision c y)" "\<And>y. core_line (seg_collision c' y) = core_line (seg_collision c y)" "\<And>y. next_col (seg_list_info c' y) = next_col (seg_list_info c y)"
    "\<And>y. prev_col (seg_list_info c' y) = prev_col (seg_list_info c y)"
  shows "index_ok c' = index_ok c" "index_ok c \<Longrightarrow> index c' = index c"
proof -
  have h: "ocf_metadata_hash_func c' = ocf_metadata_hash_func c" by (rule hash_func_frame [OF assms(2)])
  have ok: "coll_ok c' H = coll_ok c H" "coll_unique c' H = coll_unique c H" for H
    using assms by (simp_all add: coll_ok_def bucket_def line_hash_def coll_unique_def h)
  then show "index_ok c' = index_ok c" by (simp add: index_ok_def assms)
  assume "index_ok c"
  then obtain H where H: "coll_ok c H" "coll_unique c H" "0 < hash_table_entries c" by (auto simp: index_ok_def)
  have "index c' (a, b) = Some x \<longleftrightarrow> index c (a, b) = Some x" for a b x
    using index_iff [of c H] index_iff [of c' H] H ok assms by (simp add: holds_def)
  then show "index c' = index c" by (intro ext) (metis option.exhaust surj_pair)
qed

lemma part_frame_index:
  assumes "part_frame c c'" "index_ok c"
  shows "index_ok c'" "index c' = index c"
  using index_cong [of c' c] part_frame_fields [OF assms(1)] assms(2) by auto

lemma set_hot_loop_ok:
  assumes "lru_inv c L" "\<forall>i\<in>set is. \<exists>e. map_entry req (of_nat i) = Some e \<and>
    (status e = LOOKUP_HIT \<longrightarrow> coll_idx e < collision_table_entries c \<and> part_of c (coll_idx e) \<le> OCF_USER_IO_CLASS_MAX)"
  shows "\<exists>c' L'. set_hot_loop c req is = Some c' \<and> lru_inv c' L' \<and> lru_only c c'"
  using assms
proof (induction "is" arbitrary: c L)
  case (Cons i is')
  then obtain e where e: "map_entry req (of_nat i) = Some e"
    "status e = LOOKUP_HIT \<Longrightarrow> coll_idx e < collision_table_entries c \<and> part_of c (coll_idx e) \<le> OCF_USER_IO_CLASS_MAX" by auto
  obtain c1 L1 where c1: "(if status e = LOOKUP_HIT then ocf_lru_hot_cline c (coll_idx e) else Some c) = Some c1" "lru_inv c1 L1" "lru_only c c1"
    using ocf_lru_hot_cline_ok [OF Cons.prems(1)] e(2) Cons.prems(1) by (cases "status e = LOOKUP_HIT") force+
  obtain c' L' where "set_hot_loop c1 req is' = Some c'" "lru_inv c' L'" "lru_only c1 c'"
    using Cons.IH [OF c1(2)] Cons.prems(2) lru_only_fields(1) [OF c1(3)] lru_only_derived(2) [OF c1(3)] by fastforce
  then show ?case using e(1) c1 lru_only_trans by (auto split: if_splits)
qed auto

text \<open>The lines that are in use are those of the user partitions.\<close>

definition used_ok :: "('s :: len) ocf_cache \<Rightarrow> bool" where
  "used_ok c \<longleftrightarrow> (\<forall>x<collision_table_entries c. x \<in> ran (index c) \<longleftrightarrow> part_of c x \<le> OCF_USER_IO_CLASS_MAX)"

definition cache_inv :: "('s :: len) ocf_cache \<Rightarrow> (lru_ref \<Rightarrow> u32 list) \<Rightarrow> bool" where
  "cache_inv c L \<longleftrightarrow> lru_inv c L \<and> index_ok c \<and> used_ok c"

lemma engine_traverse_ok:
  assumes inv: "cache_inv c L" and sh: "req_shape c req"
  shows "\<exists>c' req' L'. ocf_engine_traverse c req = Some (c', req') \<and> cache_inv c' L' \<and> index c' = index c \<and> lru_only c c' \<and>
    lookup_state c req (unat (core_line_count req)) req'"
proof -
  have i: "lru_inv c L" "index_ok c" "used_ok c" "settings_ok c" using inv by (auto simp: cache_inv_def lru_inv_def)
  obtain req' where l: "ocf_engine_lookup c req = Some req'" "lookup_state c req (unat (core_line_count req)) req'"
    using engine_lookup_ok [OF sh i(2,4)] by blast
  obtain m f where r: "req' = req\<lparr>req_map := m, req_info := f\<rparr>" "length m = length (req_map req)"
    "\<And>i. i < unat (core_line_count req) \<Longrightarrow> looked_up c (req_core req) (core_line_first req + of_nat i) (m ! i)"
    using l(2) unfolding lookup_state_def by blast
  have "\<exists>e. map_entry req' (of_nat i) = Some e \<and>
      (status e = LOOKUP_HIT \<longrightarrow> coll_idx e < collision_table_entries c \<and> part_of c (coll_idx e) \<le> OCF_USER_IO_CLASS_MAX)"
    if "i < unat (core_line_count req)" for i
  proof (intro exI conjI impI)
    have "unat (of_nat i :: u32) = i"
      using that unsigned_less [of "core_line_count req", where ?'a = nat] by (simp add: unat_of_nat take_bit_nat_eq_self)
    then show "map_entry req' (of_nat i) = Some (m ! i)" using that r(2) sh by (simp add: map_entry_def r(1) req_shape_def)
    assume "status (m ! i) = LOOKUP_HIT"
    then have x: "index c (req_core req, core_line_first req + of_nat i) = Some (coll_idx (m ! i))"
      using r(3) [OF that] by (auto simp: looked_up_def lookup_defs split: option.splits)
    then show lt: "coll_idx (m ! i) < collision_table_entries c" using index_inj(3) [OF i(2)] by blast
    show "part_of c (coll_idx (m ! i)) \<le> OCF_USER_IO_CLASS_MAX" using i(3) lt x by (auto simp: used_ok_def ran_def)
  qed
  then obtain c' L' where c': "set_hot_loop c req' [0..<unat (core_line_count req)] = Some c'" "lru_inv c' L'" "lru_only c c'"
    using set_hot_loop_ok [OF i(1), of "[0..<unat (core_line_count req)]" req'] by auto
  have "\<exists>c' L'. ocf_engine_set_hot c req' = Some c' \<and> lru_inv c' L' \<and> lru_only c c'"
    using c' i(1) r(1) by (cases "hit_no f = 0 \<and> invalid_no f = 0") (auto simp: ocf_engine_set_hot_def)
  then obtain c2 L2 where c2: "ocf_engine_set_hot c req' = Some c2" "lru_inv c2 L2" "lru_only c c2" by blast
  have fr: "part_frame c c2" by (rule lru_only_part_frame [OF c2(3)])
  have "used_ok c2" using i(3) part_frame_index [OF fr i(2)] lru_only_fields(1) [OF c2(3)] lru_only_derived(2) [OF c2(3)] by (simp add: used_ok_def)
  then show ?thesis using l c2 part_frame_index [OF fr i(2)] by (auto simp: ocf_engine_traverse_def cache_inv_def)
qed

subsection \<open>Properties\<close>

text \<open>
  C24. The lookup of a request ends, and its result tells exactly what the cache has of the request: every map entry holds the cache
  line of its core line or is a miss; the request is a hit just when every sector that it covers is valid in the cache, dirty just when
  every one is dirty, mapped just when every core line is cached, and the number of unmapped lines is that of the core lines
  that are not cached.
\<close>
theorem lookup_tells_cached_sectors:
  fixes cache :: "('s :: len) ocf_cache"
  assumes ok: "index_ok cache" "settings_ok cache" and b: "bytes \<noteq> 0" "unat addr + unat bytes \<le> 2 ^ 64"
    and req: "req = ocf_req_new cache no core addr bytes rw"
  shows "\<exists>req'. ocf_engine_lookup cache req = Some req' \<and>
    (\<forall>i<unat (core_line_count req). looked_up cache core (core_line_first req + of_nat i) (req_map req' ! i)) \<and>
    (ocf_engine_is_hit req' \<longleftrightarrow> (\<forall>s\<in>{unat addr div 512 .. (unat addr + unat bytes - 1) div 512}. cached_sector Valid cache core s)) \<and>
    (ocf_engine_is_dirty_all req' \<longleftrightarrow> (\<forall>s\<in>{unat addr div 512 .. (unat addr + unat bytes - 1) div 512}. cached_sector Dirty cache core s)) \<and>
    (ocf_engine_is_mapped req' \<longleftrightarrow> (\<forall>i<unat (core_line_count req). index cache (core, core_line_first req + of_nat i) \<noteq> None)) \<and>
    unat (ocf_engine_unmapped_count req') =
      card {i. i < unat (core_line_count req) \<and> index cache (core, core_line_first req + of_nat i) = None}"
proof -
  let ?n = "unat (core_line_count req)"
  have core: "req_core req = core" by (simp add: req ocf_req_new_def Let_def split: prod.split)
  obtain req' where l: "ocf_engine_lookup cache req = Some req'" "lookup_state cache req ?n req'"
    using engine_lookup_ok [OF req_new_shape [OF ok(2) b req] ok] by blast
  note t = lookup_state_tests [OF l(2)]
  have at: "cached_at cache req (\<lambda>i x. True) i \<longleftrightarrow> index cache (core, core_line_first req + of_nat i) \<noteq> None" for i
    by (simp add: cached_at_def core split: option.split)
  have "{i. i < ?n \<and> index cache (core, core_line_first req + of_nat i) = None} = {..<?n} - {i. i < ?n \<and> cached_at cache req (\<lambda>i x. True) i}"
    using at by auto
  then have "card {i. i < ?n \<and> index cache (core, core_line_first req + of_nat i) = None} = ?n - count_lines cache req (\<lambda>i x. True) ?n"
    by (simp only: count_lines_def) (subst card_Diff_subset, auto)
  moreover have "\<forall>i<?n. looked_up cache core (core_line_first req + of_nat i) (req_map req' ! i)"
    using l(2) core by (auto simp: lookup_state_def)
  ultimately show ?thesis using l(1) t all_sectors [OF ok(2) b req] at by (intro exI [of _ req']) simp
qed

theorem lookup_tells_cached_sectors_witness:
  "\<exists>(c :: 8 ocf_cache) req'. index c (1, 7) = Some 3 \<and> ocf_engine_lookup c (ocf_req_new c 0 1 28672 8192 OCF_READ) = Some req' \<and>
    status (req_map req' ! 0) = LOOKUP_HIT \<and> coll_idx (req_map req' ! 0) = 3 \<and> status (req_map req' ! 1) = LOOKUP_MISS \<and>
    \<not> ocf_engine_is_mapped req' \<and> unat (ocf_engine_unmapped_count req') = 1"
proof -
  have e: "index_ok striped_cache" "index striped_cache = Map.empty" using index_ok_empty [of striped_cache] by (simp_all add: striped_cache_def)
  then obtain c where c: "index_ok c" "index c = [(1, 7) \<mapsto> 3]" "coll_frame striped_cache c"
    using index_add_ok [OF e(1), of 3 "(1, 7)"] by (auto simp: striped_cache_def)
  note f = coll_frame_fields [OF c(3)]
  have s: "settings_ok c" "size c = ocf_cache_line_size_4" by (simp_all add: settings_ok_def f striped_cache_def)
  let ?req = "ocf_req_new c 0 1 28672 8192 OCF_READ"
  have r: "core_line_count ?req = 2" "core_line_first ?req = 7" by (simp_all add: ocf_req_new_def ocf_bytes_2_lines_def s(2) Let_def)
  have "{i. i < 2 \<and> index c (1, 7 + of_nat i) = None} = {1}" by (auto simp: less_2_cases_iff c(2))
  then have k: "card {i. i < 2 \<and> index c (1, 7 + of_nat i) = None} = 1" by simp
  obtain req' where l: "ocf_engine_lookup c ?req = Some req'" "\<forall>i<2. looked_up c 1 (7 + of_nat i) (req_map req' ! i)"
    "ocf_engine_is_mapped req' \<longleftrightarrow> (\<forall>i<2. index c (1, 7 + of_nat i) \<noteq> None)"
    "unat (ocf_engine_unmapped_count req') = card {i. i < 2 \<and> index c (1, 7 + of_nat i) = None}"
    using lookup_tells_cached_sectors [OF c(1) s(1), of 8192 28672 ?req 0 1 OCF_READ] r by auto
  have "looked_up c 1 7 (req_map req' ! 0)" "looked_up c 1 8 (req_map req' ! 1)"
    using l(2) [rule_format, of 0] l(2) [rule_format, of 1] by simp_all
  moreover have "index c (1, 7) = Some 3" "index c (1, 8) = None" by (simp_all add: c(2))
  moreover have "\<not> ocf_engine_is_mapped req'" unfolding l(3) using \<open>index c (1, 8) = None\<close> by (auto intro!: exI [of _ 1])
  moreover have "unat (ocf_engine_unmapped_count req') = 1" unfolding l(4) by (rule k)
  ultimately show ?thesis using l(1) by (intro exI [of _ c] exI [of _ req']) (simp add: looked_up_def)
qed

end
