(* ===== verification/Req_Lock.thy ===== *)
theory Req_Lock
  imports Request
begin

text \<open>
  Locking all lines of a request (\<open>ocf_cache_line_concurrency.c\<close>, \<open>ocf_mio_concurrency.c\<close> and the two
  functions at the end of \<open>utils_alock.c\<close> that call them).

  The fast way takes the locks one by one and gives back what it got when one of them is busy;
  the slow way leaves waiters for the busy ones.  The loops over the map of the request run over the list
  of the indices that are left.
\<close>

subsection \<open>Entries of a request\<close>

definition OCF_LOCK_ACQUIRED :: int where "OCF_LOCK_ACQUIRED = 0"
definition OCF_LOCK_NOT_ACQUIRED :: int where "OCF_LOCK_NOT_ACQUIRED = 1"
definition OCF_ERR_NO_MEM :: int where "OCF_ERR_NO_MEM = 1000004"

lemmas lock_result_defs = OCF_LOCK_ACQUIRED_def OCF_LOCK_NOT_ACQUIRED_def OCF_ERR_NO_MEM_def

definition ocf_cl_lock_line_needs_lock :: "ocf_request \<Rightarrow> u32 \<Rightarrow> bool option" where
  "ocf_cl_lock_line_needs_lock req idx = do {
     e \<leftarrow> map_entry req idx;
     Some (status e \<noteq> LOOKUP_MISS \<and> status e \<noteq> LOOKUP_REMAPPED)
   }"

definition ocf_cl_lock_line_is_acting :: "ocf_request \<Rightarrow> u32 \<Rightarrow> bool option" where
  "ocf_cl_lock_line_is_acting req idx = map_option (\<lambda>e. status e \<noteq> LOOKUP_MISS) (map_entry req idx)"

definition ocf_cl_lock_line_get_entry :: "ocf_request \<Rightarrow> u32 \<Rightarrow> u32 option" where
  "ocf_cl_lock_line_get_entry req idx = map_option coll_idx (map_entry req idx)"

text \<open>The extent of the locks of metadata pages, and the first page of a metadata request.\<close>

record ocf_mio_alock =
  first_page :: u32
  num_pages :: u32

definition ocf_mio_lock_get_entry :: "ocf_mio_alock \<Rightarrow> u32 \<Rightarrow> u32 \<Rightarrow> u32 option" where
  "ocf_mio_lock_get_entry mio m_page idx = do {
     let page = m_page + idx;
     ENV_BUG_ON (page < first_page mio);
     ENV_BUG_ON (page \<ge> first_page mio + num_pages mio);
     Some (page - first_page mio)
   }"

subsection \<open>The fast way\<close>

definition try_entry :: "ocf_alock \<Rightarrow> rw \<Rightarrow> u32 \<Rightarrow> (ocf_alock \<times> bool) option" where
  "try_entry a rw entry =
     (case rw of OCF_WRITE \<Rightarrow> ocf_alock_trylock_entry_wr a entry | OCF_READ \<Rightarrow> ocf_alock_trylock_entry_rd_idle a entry)"

definition unlock_entry :: "ocf_alock \<Rightarrow> rw \<Rightarrow> u32 \<Rightarrow> ocf_alock option" where
  "unlock_entry a rw entry =
     (case rw of OCF_WRITE \<Rightarrow> ocf_alock_unlock_one_wr a entry | OCF_READ \<Rightarrow> ocf_alock_unlock_one_rd a entry)"

text \<open>The loop that takes the locks; it also gives the index at which it breaks.  \<open>needs\<close> and \<open>get\<close> are the
  functions of the kind of request, \<open>r\<close> is its number.\<close>

fun fast_loop :: "(u32 \<Rightarrow> bool option) \<Rightarrow> (u32 \<Rightarrow> u32 option) \<Rightarrow> nat \<Rightarrow> rw \<Rightarrow> nat list \<Rightarrow> ocf_alock \<Rightarrow>
    (ocf_alock \<times> nat option) option" where
  "fast_loop needs get r rw [] a = Some (a, None)"
| "fast_loop needs get r rw (i # is) a = do {
     n \<leftarrow> needs (of_nat i);
     if \<not> n then fast_loop needs get r rw is a
     else do {
       entry \<leftarrow> get (of_nat i);
       ENV_BUG_ON (ocf_alock_is_index_locked a r (of_nat i));
       (a, ok) \<leftarrow> try_entry a rw entry;
       if ok then fast_loop needs get r rw is (ocf_alock_mark_index_locked a r (of_nat i) True)
       else Some (a, Some i)
     }
   }"

fun discard_loop :: "(u32 \<Rightarrow> bool option) \<Rightarrow> (u32 \<Rightarrow> u32 option) \<Rightarrow> nat \<Rightarrow> rw \<Rightarrow> nat list \<Rightarrow> ocf_alock \<Rightarrow>
    ocf_alock option" where
  "discard_loop needs get r rw [] a = Some a"
| "discard_loop needs get r rw (i # is) a = do {
     n \<leftarrow> needs (of_nat i);
     if \<not> n then discard_loop needs get r rw is a
     else do {
       entry \<leftarrow> get (of_nat i);
       a \<leftarrow> (if ocf_alock_is_index_locked a r (of_nat i) then do {
               a \<leftarrow> unlock_entry a rw entry;
               Some (ocf_alock_mark_index_locked a r (of_nat i) False)
             } else Some a);
       discard_loop needs get r rw is a
     }
   }"

definition lock_fast :: "(u32 \<Rightarrow> bool option) \<Rightarrow> (u32 \<Rightarrow> u32 option) \<Rightarrow> nat \<Rightarrow> nat \<Rightarrow> rw \<Rightarrow> ocf_alock \<Rightarrow>
    (ocf_alock \<times> int) option" where
  "lock_fast needs get r count rw a = do {
     (a, brk) \<leftarrow> fast_loop needs get r rw [0..<count] a;
     (case brk of
        None \<Rightarrow> Some (a, OCF_LOCK_ACQUIRED)
      | Some i \<Rightarrow> do {
          a \<leftarrow> discard_loop needs get r rw (rev [0..<Suc i]) a;
          Some (a, OCF_LOCK_NOT_ACQUIRED)
        })
   }"

definition ocf_cl_lock_line_fast :: "ocf_alock \<Rightarrow> ocf_request \<Rightarrow> rw \<Rightarrow> (ocf_alock \<times> int) option" where
  "ocf_cl_lock_line_fast a req rw =
     lock_fast (ocf_cl_lock_line_needs_lock req) (ocf_cl_lock_line_get_entry req) (req_no req)
       (unat (core_line_count req)) rw a"

definition ocf_mio_lock_fast :: "ocf_mio_alock \<Rightarrow> u32 \<Rightarrow> ocf_alock \<Rightarrow> ocf_request \<Rightarrow> rw \<Rightarrow> (ocf_alock \<times> int) option" where
  "ocf_mio_lock_fast mio m_page a req rw = do {
     ENV_BUG_ON (rw \<noteq> OCF_WRITE);
     lock_fast (\<lambda>_. Some True) (ocf_mio_lock_get_entry mio m_page) (req_no req) (unat (core_line_count req)) rw a
   }"

subsection \<open>The slow way\<close>

text \<open>\<open>alloc i\<close> says whether a waiter can be allocated for the entry of index \<open>i\<close>.\<close>

fun slow_loop :: "(nat \<Rightarrow> bool) \<Rightarrow> (u32 \<Rightarrow> bool option) \<Rightarrow> (u32 \<Rightarrow> u32 option) \<Rightarrow> nat \<Rightarrow> rw \<Rightarrow> nat list \<Rightarrow> ocf_alock \<Rightarrow>
    (ocf_alock \<times> nat option) option" where
  "slow_loop alloc needs get r rw [] a = Some (a, None)"
| "slow_loop alloc needs get r rw (i # is) a = do {
     n \<leftarrow> needs (of_nat i);
     if \<not> n then
       slow_loop alloc needs get r rw is (a\<lparr>lock_remaining := (lock_remaining a)(r := lock_remaining a r - 1)\<rparr>)
     else do {
       entry \<leftarrow> get (of_nat i);
       ENV_BUG_ON (ocf_alock_is_index_locked a r (of_nat i));
       (a, ok) \<leftarrow> (case rw of OCF_WRITE \<Rightarrow> ocf_alock_lock_one_wr (alloc i) a entry r (of_nat i)
                             | OCF_READ \<Rightarrow> ocf_alock_lock_one_rd (alloc i) a entry r (of_nat i));
       if ok then slow_loop alloc needs get r rw is a else Some (a, Some i)
     }
   }"

text \<open>The error path.  The prototype of \<open>ocf_alock_waitlist_remove_entry\<close> has the entry before the index; both callers
  pass the index before the entry.\<close>

fun cancel_loop :: "(u32 \<Rightarrow> bool option) \<Rightarrow> (u32 \<Rightarrow> u32 option) \<Rightarrow> nat \<Rightarrow> rw \<Rightarrow> nat list \<Rightarrow> ocf_alock \<Rightarrow>
    ocf_alock option" where
  "cancel_loop needs get r rw [] a = Some a"
| "cancel_loop needs get r rw (i # is) a = do {
     n \<leftarrow> needs (of_nat i);
     if \<not> n then cancel_loop needs get r rw is a
     else do {
       entry \<leftarrow> get (of_nat i);
       a \<leftarrow> ocf_alock_waitlist_remove_entry a r (of_nat i) entry rw;
       cancel_loop needs get r rw is a
     }
   }"

definition lock_slow :: "(nat \<Rightarrow> bool) \<Rightarrow> (u32 \<Rightarrow> bool option) \<Rightarrow> (u32 \<Rightarrow> u32 option) \<Rightarrow> nat \<Rightarrow> nat \<Rightarrow> rw \<Rightarrow> ocf_alock \<Rightarrow>
    (ocf_alock \<times> int) option" where
  "lock_slow alloc needs get r count rw a = do {
     (a, brk) \<leftarrow> slow_loop alloc needs get r rw [0..<count] a;
     (case brk of
        None \<Rightarrow> Some (a, 0)
      | Some i \<Rightarrow> do {
          a \<leftarrow> cancel_loop needs get r rw (rev [0..<Suc i]) a;
          Some (a, - OCF_ERR_NO_MEM)
        })
   }"

definition ocf_cl_lock_line_slow :: "(nat \<Rightarrow> bool) \<Rightarrow> ocf_alock \<Rightarrow> ocf_request \<Rightarrow> rw \<Rightarrow> (ocf_alock \<times> int) option" where
  "ocf_cl_lock_line_slow alloc a req rw =
     lock_slow alloc (ocf_cl_lock_line_needs_lock req) (ocf_cl_lock_line_get_entry req) (req_no req)
       (unat (core_line_count req)) rw a"

definition ocf_mio_lock_slow ::
    "ocf_mio_alock \<Rightarrow> u32 \<Rightarrow> (nat \<Rightarrow> bool) \<Rightarrow> ocf_alock \<Rightarrow> ocf_request \<Rightarrow> rw \<Rightarrow> (ocf_alock \<times> int) option" where
  "ocf_mio_lock_slow mio m_page alloc a req rw = do {
     ENV_BUG_ON (rw \<noteq> OCF_WRITE);
     lock_slow alloc (\<lambda>_. Some True) (ocf_mio_lock_get_entry mio m_page) (req_no req) (unat (core_line_count req)) rw a
   }"

subsection \<open>Locking and unlocking a request\<close>

text \<open>\<open>ocf_alock_lock_rd\<close> and \<open>ocf_alock_lock_wr\<close> differ only in the kind of lock; the first two arguments are the
  callbacks of the lock object.\<close>

definition alock_lock ::
    "(ocf_alock \<Rightarrow> ocf_request \<Rightarrow> rw \<Rightarrow> (ocf_alock \<times> int) option) \<Rightarrow> (ocf_alock \<Rightarrow> ocf_request \<Rightarrow> rw \<Rightarrow> (ocf_alock \<times> int) option) \<Rightarrow>
     rw \<Rightarrow> ocf_alock \<Rightarrow> ocf_request \<Rightarrow> (ocf_alock \<times> ocf_request \<times> int) option" where
  "alock_lock fast slow rw a req = do {
     let r = req_no req;
     ENV_BUG_ON (lock_remaining a r \<noteq> 0);
     let req = req\<lparr>alock_rw := rw\<rparr>;
     (a, lock) \<leftarrow> fast a req rw;
     if lock = OCF_LOCK_ACQUIRED then Some (a, req, lock)
     else do {
       ENV_BUG_ON (lock_remaining a r \<noteq> 0);
       let a = a\<lparr>waiting := waiting a + 1,
                 lock_remaining := (lock_remaining a)(r := int (unat (core_line_count req)) + 1)\<rparr>;
       (a, st) \<leftarrow> slow a req rw;
       if st = 0 then
         let a = a\<lparr>lock_remaining := (lock_remaining a)(r := lock_remaining a r - 1)\<rparr>
         in if lock_remaining a r = 0 then Some (a\<lparr>waiting := waiting a - 1\<rparr>, req, OCF_LOCK_ACQUIRED)
            else Some (a, req, lock)
       else Some (a\<lparr>lock_remaining := (lock_remaining a)(r := 0), waiting := waiting a - 1\<rparr>, req, st)
     }
   }"

definition ocf_alock_lock_rd where
  "ocf_alock_lock_rd fast slow a req = alock_lock fast slow OCF_READ a req"

definition ocf_alock_lock_wr where
  "ocf_alock_lock_wr fast slow a req = alock_lock fast slow OCF_WRITE a req"

definition ocf_req_async_lock_rd :: "(nat \<Rightarrow> bool) \<Rightarrow> ocf_alock \<Rightarrow> ocf_request \<Rightarrow> (ocf_alock \<times> ocf_request \<times> int) option" where
  "ocf_req_async_lock_rd alloc a req = ocf_alock_lock_rd ocf_cl_lock_line_fast (ocf_cl_lock_line_slow alloc) a req"

definition ocf_req_async_lock_wr :: "(nat \<Rightarrow> bool) \<Rightarrow> ocf_alock \<Rightarrow> ocf_request \<Rightarrow> (ocf_alock \<times> ocf_request \<times> int) option" where
  "ocf_req_async_lock_wr alloc a req = ocf_alock_lock_wr ocf_cl_lock_line_fast (ocf_cl_lock_line_slow alloc) a req"

definition ocf_mio_async_lock ::
    "ocf_mio_alock \<Rightarrow> u32 \<Rightarrow> (nat \<Rightarrow> bool) \<Rightarrow> ocf_alock \<Rightarrow> ocf_request \<Rightarrow> (ocf_alock \<times> ocf_request \<times> int) option" where
  "ocf_mio_async_lock mio m_page alloc a req =
     ocf_alock_lock_wr (ocf_mio_lock_fast mio m_page) (ocf_mio_lock_slow mio m_page alloc) a req"

text \<open>The loop of the unlock functions; the entries that are not acting or not locked are skipped.\<close>

fun unlock_loop :: "(u32 \<Rightarrow> bool option) \<Rightarrow> (u32 \<Rightarrow> u32 option) \<Rightarrow> nat \<Rightarrow> rw \<Rightarrow> nat list \<Rightarrow> ocf_alock \<Rightarrow>
    ocf_alock option" where
  "unlock_loop acting get r rw [] a = Some a"
| "unlock_loop acting get r rw (i # is) a = do {
     n \<leftarrow> acting (of_nat i);
     if \<not> n \<or> \<not> ocf_alock_is_index_locked a r (of_nat i) then unlock_loop acting get r rw is a
     else do {
       entry \<leftarrow> get (of_nat i);
       a \<leftarrow> unlock_entry a rw entry;
       unlock_loop acting get r rw is (ocf_alock_mark_index_locked a r (of_nat i) False)
     }
   }"

definition ocf_req_unlock_rd :: "ocf_alock \<Rightarrow> ocf_request \<Rightarrow> ocf_alock option" where
  "ocf_req_unlock_rd a req =
     unlock_loop (ocf_cl_lock_line_is_acting req) (ocf_cl_lock_line_get_entry req) (req_no req) OCF_READ
       [0..<unat (core_line_count req)] a"

definition ocf_req_unlock_wr :: "ocf_alock \<Rightarrow> ocf_request \<Rightarrow> ocf_alock option" where
  "ocf_req_unlock_wr a req =
     unlock_loop (ocf_cl_lock_line_is_acting req) (ocf_cl_lock_line_get_entry req) (req_no req) OCF_WRITE
       [0..<unat (core_line_count req)] a"

definition ocf_req_unlock :: "ocf_alock \<Rightarrow> ocf_request \<Rightarrow> ocf_alock option" where
  "ocf_req_unlock a req =
     (case alock_rw req of OCF_WRITE \<Rightarrow> ocf_req_unlock_wr a req | OCF_READ \<Rightarrow> ocf_req_unlock_rd a req)"

definition ocf_mio_async_unlock :: "ocf_mio_alock \<Rightarrow> u32 \<Rightarrow> ocf_alock \<Rightarrow> ocf_request \<Rightarrow> ocf_alock option" where
  "ocf_mio_async_unlock mio m_page a req = do {
     a \<leftarrow> unlock_loop (\<lambda>_. Some True) (ocf_mio_lock_get_entry mio m_page) (req_no req) OCF_WRITE
            [0..<unat (core_line_count req)] a;
     Some (a\<lparr>alock_status := (alock_status a)(req_no req := \<lambda>_. False)\<rparr>)
   }"

definition ocf_cache_line_concurrency_suspended_no :: "ocf_alock \<Rightarrow> int" where
  "ocf_cache_line_concurrency_suspended_no a = ocf_alock_waitlist_count a"

subsection \<open>What the fast way does\<close>

text \<open>The entries that a request needs, with their indices, and the state in which it has them.\<close>

definition ents :: "(u32 \<Rightarrow> bool option) \<Rightarrow> (u32 \<Rightarrow> u32 option) \<Rightarrow> nat set \<Rightarrow> (u32 \<times> u32) set" where
  "ents needs get I = {(of_nat i, e) |i e. i \<in> I \<and> needs (of_nat i) = Some True \<and> get (of_nat i) = Some e}"

definition held_word :: "rw \<Rightarrow> int" where
  "held_word rw = (case rw of OCF_WRITE \<Rightarrow> OCF_CACHE_LINE_ACCESS_WR | OCF_READ \<Rightarrow> OCF_CACHE_LINE_ACCESS_ONE_RD)"

definition took :: "rw \<Rightarrow> nat \<Rightarrow> (u32 \<times> u32) set \<Rightarrow> ocf_alock \<Rightarrow> ocf_alock" where
  "took rw r P a = a\<lparr>acc := (\<lambda>x. if x \<in> snd ` P then held_word rw else acc a x),
     alock_status := (alock_status a)(r := \<lambda>i. i \<in> fst ` P \<or> alock_status a r i)\<rparr>"

text \<open>The request \<open>r\<close> has \<open>n\<close> entries, which are different and exist, and none of their bits is set.\<close>

definition entries_ok :: "(u32 \<Rightarrow> bool option) \<Rightarrow> (u32 \<Rightarrow> u32 option) \<Rightarrow> nat \<Rightarrow> nat \<Rightarrow> ocf_alock \<Rightarrow> bool" where
  "entries_ok needs get r n a \<longleftrightarrow> n < 2 ^ 32 \<and>
     (\<forall>i<n. \<exists>b e. needs (of_nat i) = Some b \<and> get (of_nat i) = Some e \<and> (b \<longrightarrow> e < num_entries a)) \<and>
     (\<forall>i<n. \<forall>j<n. needs (of_nat i) = Some True \<longrightarrow> needs (of_nat j) = Some True \<longrightarrow> get (of_nat i) = get (of_nat j) \<longrightarrow> i = j) \<and>
     (\<forall>i<n. \<not> alock_status a r (of_nat i))"

lemma ents_mono: "I \<subseteq> J \<Longrightarrow> ents needs get I \<subseteq> ents needs get J"
  by (auto simp: ents_def)

definition idle :: "ocf_alock \<Rightarrow> (u32 \<times> u32) set \<Rightarrow> bool" where
  "idle a P \<longleftrightarrow> (\<forall>p\<in>P. acc a (snd p) = OCF_CACHE_LINE_ACCESS_IDLE \<and> waiters_of a (snd p) = [])"

lemma took_simps [simp]:
  "num_entries (took rw r P a) = num_entries a" "waiters_lsts (took rw r P a) = waiters_lsts a"
  "lists_no (took rw r P a) = lists_no a" "waiters_of (took rw r P a) e = waiters_of a e" "took rw r {} a = a"
  "acc (took rw r P a) x = (if x \<in> snd ` P then held_word rw else acc a x)"
  "alock_status (took rw r P a) r i = (i \<in> fst ` P \<or> alock_status a r i)"
  by (simp_all add: took_def waiters_of_def waiters_list_item_def)

lemma took_one:
  "ocf_alock_mark_index_locked (set_access (took rw r P a) e (held_word rw)) r i True = took rw r (insert (i, e) P) a"
  by (auto simp: took_def ocf_alock_mark_index_locked_def set_access_def fun_eq_iff)

lemma untook_one:
  assumes "i \<notin> fst ` P" "e \<notin> snd ` P" "acc a e = OCF_CACHE_LINE_ACCESS_IDLE" "\<not> alock_status a r i"
  shows "ocf_alock_mark_index_locked (set_access (took rw r (insert (i, e) P) a) e OCF_CACHE_LINE_ACCESS_IDLE) r i False =
    took rw r P a"
proof -
  have "(\<lambda>x. if x = e then OCF_CACHE_LINE_ACCESS_IDLE else if x \<in> snd ` insert (i, e) P then held_word rw else acc a x) =
      (\<lambda>x. if x \<in> snd ` P then held_word rw else acc a x)"
    using assms(2,3) by auto
  moreover have "(\<lambda>j. if j = i then False else j \<in> fst ` insert (i, e) P \<or> alock_status a r j) = (\<lambda>j. j \<in> fst ` P \<or> alock_status a r j)"
    using assms(1,4) by auto
  ultimately show ?thesis
    by (simp add: took_def ocf_alock_mark_index_locked_def set_access_def fun_upd_def cong: if_cong)
qed

lemma try_entry_idle:
  assumes "e < num_entries a" "acc a e = OCF_CACHE_LINE_ACCESS_IDLE"
  shows "try_entry a rw e = Some (set_access a e (held_word rw), True)"
  using assms by (cases rw) (simp_all add: try_entry_def ocf_alock_trylock_entry_wr_def ocf_alock_trylock_entry_rd_idle_def
      access_word_def env_atomic_cmpxchg_def held_word_def)

lemma try_entry_busy:
  assumes "e < num_entries a" "acc a e \<noteq> OCF_CACHE_LINE_ACCESS_IDLE"
  shows "try_entry a rw e = Some (a, False)"
  using assms by (cases rw) (simp_all add: try_entry_def ocf_alock_trylock_entry_wr_def ocf_alock_trylock_entry_rd_idle_def
      access_word_def env_atomic_cmpxchg_def held_word_def)

lemma unlock_entry_held:
  assumes "e < num_entries a" "acc a e = held_word rw" "waiters_of a e = []"
  shows "unlock_entry a rw e = Some (set_access a e OCF_CACHE_LINE_ACCESS_IDLE)"
  using assms unlock_wr_ok [of e a] unlock_rd_ok [of e a]
  by (cases rw) (simp_all add: unlock_entry_def held_word_def handed_none access_defs)

lemma of_nat_u32_eq: "i < 2 ^ 32 \<Longrightarrow> j < 2 ^ 32 \<Longrightarrow> (of_nat i :: u32) = of_nat j \<longleftrightarrow> i = j"
  by (metis unat_of_nat_u32)

text \<open>The entry of one index.\<close>

lemma entry_cases:
  assumes "entries_ok needs get r n a" "i < n"
  obtains (skip) e where "needs (of_nat i) = Some False" "get (of_nat i) = Some e"
      "\<And>I. ents needs get (insert i I) = ents needs get I"
  | (take) e where "needs (of_nat i) = Some True" "get (of_nat i) = Some e" "e < num_entries a"
      "\<And>I. ents needs get (insert i I) = insert (of_nat i, e) (ents needs get I)"
      "\<And>I. I \<subseteq> {..<n} \<Longrightarrow> i \<notin> I \<Longrightarrow> e \<notin> snd ` ents needs get I"
proof -
  obtain b e where b: "needs (of_nat i) = Some b" "get (of_nat i) = Some e" "b \<longrightarrow> e < num_entries a"
    using assms unfolding entries_ok_def by blast
  show ?thesis
  proof (cases b)
    case True
    have "ents needs get (insert i I) = insert (of_nat i, e) (ents needs get I)" for I
      using b True by (auto simp: ents_def)
    moreover have "e \<notin> snd ` ents needs get I" if I: "I \<subseteq> {..<n}" "i \<notin> I" for I
    proof
      assume "e \<in> snd ` ents needs get I"
      then obtain j where j: "j \<in> I" "needs (of_nat j) = Some True" "get (of_nat j) = Some e" by (auto simp: ents_def)
      have "j < n" using j(1) I(1) by auto
      then have "j = i" using assms b True j unfolding entries_ok_def by auto
      then show False using j(1) I(2) by simp
    qed
    ultimately show ?thesis using take [of e] b True by simp
  next
    case False
    then have "ents needs get (insert i I) = ents needs get I" for I using b(1) by (auto simp: ents_def)
    then show ?thesis using skip [of e] b False by simp
  qed
qed

lemma ents_index:
  assumes "entries_ok needs get r n a" "i < n" "I \<subseteq> {..<n}" "i \<notin> I"
  shows "of_nat i \<notin> fst ` ents needs get I"
proof
  assume "of_nat i \<in> fst ` ents needs get I"
  then obtain j where "j \<in> I" "(of_nat j :: u32) = of_nat i" by (auto simp: ents_def)
  moreover have "n < 2 ^ 32" using assms(1) by (simp add: entries_ok_def)
  moreover have "j < n" using \<open>j \<in> I\<close> assms(3) by auto
  ultimately show False using assms(2,4) of_nat_u32_eq [of j i] by auto
qed

lemma entries_bit: "entries_ok needs get r n a \<Longrightarrow> i < n \<Longrightarrow> \<not> alock_status a r (of_nat i)"
  by (simp add: entries_ok_def)

definition busy :: "(u32 \<Rightarrow> bool option) \<Rightarrow> (u32 \<Rightarrow> u32 option) \<Rightarrow> ocf_alock \<Rightarrow> nat \<Rightarrow> bool" where
  "busy needs get a i \<longleftrightarrow> needs (of_nat i) = Some True \<and> (\<exists>e. get (of_nat i) = Some e \<and> acc a e \<noteq> OCF_CACHE_LINE_ACCESS_IDLE)"

lemma fast_loop_step:
  assumes ok: "entries_ok needs get r n a" and i: "i < n"
  shows "fast_loop needs get r rw (i # is) (took rw r (ents needs get {..<i}) a) =
    (if busy needs get a i then Some (took rw r (ents needs get {..<i}) a, Some i)
     else fast_loop needs get r rw is (took rw r (ents needs get {..<Suc i}) a))"
  using ok i
proof (cases rule: entry_cases)
  case (skip e)
  then show ?thesis by (simp add: busy_def lessThan_Suc)
next
  case (take e)
  have e: "e \<notin> snd ` ents needs get {..<i}" using take(5) [of "{..<i}"] i by auto
  have b: "\<not> ocf_alock_is_index_locked (took rw r (ents needs get {..<i}) a) r (of_nat i)"
    using ents_index [OF ok i, of "{..<i}"] entries_bit [OF ok i] i by (auto simp: ocf_alock_is_index_locked_def)
  show ?thesis
  proof (cases "acc a e = OCF_CACHE_LINE_ACCESS_IDLE")
    case True
    then show ?thesis using take e b by (simp add: busy_def try_entry_idle took_one lessThan_Suc)
  next
    case False
    then show ?thesis using take e b by (simp add: busy_def try_entry_busy)
  qed
qed

lemma fast_loop_upto:
  assumes "entries_ok needs get r n a" "\<And>i. i < m \<Longrightarrow> \<not> busy needs get a i" "m \<le> n"
  shows "fast_loop needs get r rw [0..<n] a = fast_loop needs get r rw [m..<n] (took rw r (ents needs get {..<m}) a)"
  using assms(2,3)
proof (induction m)
  case 0
  then show ?case by (simp add: ents_def)
next
  case (Suc m)
  then have "[m..<n] = m # [Suc m..<n]" by (simp add: upt_conv_Cons)
  then show ?case using Suc fast_loop_step [OF assms(1), of m rw "[Suc m..<n]"] by simp
qed

lemma discard_loop_step:
  assumes ok: "entries_ok needs get r n a" and i: "i < n" and idle: "idle a (ents needs get {..<Suc i})"
  shows "discard_loop needs get r rw (i # is) (took rw r (ents needs get {..<Suc i}) a) =
    discard_loop needs get r rw is (took rw r (ents needs get {..<i}) a)"
  using ok i
proof (cases rule: entry_cases)
  case (skip e)
  then show ?thesis by (simp add: lessThan_Suc)
next
  case (take e)
  let ?P = "ents needs get {..<i}"
  have e: "e \<notin> snd ` ?P" using take(5) [of "{..<i}"] i by auto
  have fi: "of_nat i \<notin> fst ` ?P" using ents_index [OF ok i, of "{..<i}"] i by auto
  have P: "ents needs get {..<Suc i} = insert (of_nat i, e) ?P" using take(4) by (simp add: lessThan_Suc)
  have a: "acc a e = OCF_CACHE_LINE_ACCESS_IDLE" "waiters_of a e = []" using idle by (auto simp: idle_def P)
  have "unlock_entry (took rw r (insert (of_nat i, e) ?P) a) rw e =
      Some (set_access (took rw r (insert (of_nat i, e) ?P) a) e OCF_CACHE_LINE_ACCESS_IDLE)"
    using take(3) a(2) by (intro unlock_entry_held) simp_all
  moreover have "ocf_alock_is_index_locked (took rw r (insert (of_nat i, e) ?P) a) r (of_nat i)"
    by (simp add: ocf_alock_is_index_locked_def)
  ultimately show ?thesis
    using take(1,2) untook_one [OF fi e a(1) entries_bit [OF ok i]] by (simp add: P)
qed

lemma discard_loop_all:
  assumes "entries_ok needs get r n a" "m \<le> n" "idle a (ents needs get {..<m})"
  shows "discard_loop needs get r rw (rev [0..<m]) (took rw r (ents needs get {..<m}) a) = Some a"
  using assms(2,3)
proof (induction m)
  case 0
  then show ?case by (simp add: ents_def)
next
  case (Suc m)
  have "idle a (ents needs get {..<m})" using Suc.prems(2) ents_mono [of "{..<m}" "{..<Suc m}"] by (auto simp: idle_def)
  then show ?case using Suc discard_loop_step [OF assms(1), of m rw "rev [0..<m]"] by simp
qed

lemma unlock_loop_step:
  assumes ok: "entries_ok needs get r n a" and i: "i < n" and idle: "idle a (ents needs get {i..<n})"
    and acting: "acting (of_nat i) = Some b" "needs (of_nat i) = Some True \<Longrightarrow> b"
  shows "unlock_loop acting get r rw (i # is) (took rw r (ents needs get {i..<n}) a) =
    unlock_loop acting get r rw is (took rw r (ents needs get {Suc i..<n}) a)"
proof -
  have split: "{i..<n} = insert i {Suc i..<n}" and sub: "{Suc i..<n} \<subseteq> {..<n}" using i by auto
  show ?thesis
    using ok i
  proof (cases rule: entry_cases)
    case (skip e)
    then have "ents needs get {i..<n} = ents needs get {Suc i..<n}" using split by metis
    then show ?thesis
      using acting(1) ents_index [OF ok i sub] entries_bit [OF ok i] by (simp add: ocf_alock_is_index_locked_def)
  next
    case (take e)
    let ?P = "ents needs get {Suc i..<n}"
    have e: "e \<notin> snd ` ?P" using take(5) [OF sub] by simp
    have fi: "of_nat i \<notin> fst ` ?P" using ents_index [OF ok i sub] by simp
    have P: "ents needs get {i..<n} = insert (of_nat i, e) ?P" using take(4) split by metis
    have a: "acc a e = OCF_CACHE_LINE_ACCESS_IDLE" "waiters_of a e = []" using idle by (auto simp: idle_def P)
    have "unlock_entry (took rw r (insert (of_nat i, e) ?P) a) rw e =
        Some (set_access (took rw r (insert (of_nat i, e) ?P) a) e OCF_CACHE_LINE_ACCESS_IDLE)"
      using take(3) a(2) by (intro unlock_entry_held) simp_all
    moreover have "ocf_alock_is_index_locked (took rw r (insert (of_nat i, e) ?P) a) r (of_nat i)"
      by (simp add: ocf_alock_is_index_locked_def)
    ultimately show ?thesis
      using take(1,2) acting untook_one [OF fi e a(1) entries_bit [OF ok i]] by (simp add: P)
  qed
qed

lemma unlock_loop_all:
  assumes "entries_ok needs get r n a" "m \<le> n" "idle a (ents needs get {m..<n})"
    and acting: "\<And>i. i < n \<Longrightarrow> \<exists>b. acting (of_nat i) = Some b \<and> (needs (of_nat i) = Some True \<longrightarrow> b)"
  shows "unlock_loop acting get r rw [m..<n] (took rw r (ents needs get {m..<n}) a) = Some a"
  using assms(2,3)
proof (induction m rule: inc_induct)
  case base
  then show ?case by (simp add: ents_def)
next
  case (step m)
  obtain b where b: "acting (of_nat m) = Some b" "needs (of_nat m) = Some True \<Longrightarrow> b" using acting [OF step(2)] by blast
  have "idle a (ents needs get {Suc m..<n})" using step(4) ents_mono [of "{Suc m..<n}" "{m..<n}"] by (auto simp: idle_def)
  moreover have "[m..<n] = m # [Suc m..<n]" using step(2) by (simp add: upt_conv_Cons)
  ultimately show ?case using step unlock_loop_step [OF assms(1) step(2) step(4), of acting b rw "[Suc m..<n]"] b by simp
qed

lemma lock_fast_ok:
  assumes ok: "entries_ok needs get r n a" and held: "locks_ok (a, H)"
  shows "lock_fast needs get r n rw a =
    (if \<exists>i<n. busy needs get a i then Some (a, OCF_LOCK_NOT_ACQUIRED)
     else Some (took rw r (ents needs get {..<n}) a, OCF_LOCK_ACQUIRED))"
proof (cases "\<exists>i<n. busy needs get a i")
  case False
  then have "fast_loop needs get r rw [0..<n] a = Some (took rw r (ents needs get {..<n}) a, None)"
    using fast_loop_upto [OF ok, of n rw] by simp
  then show ?thesis by (subst if_not_P [OF False]) (simp add: lock_fast_def)
next
  case True
  define m where "m = (LEAST i. busy needs get a i)"
  have m: "busy needs get a m" "m < n" "\<And>i. i < m \<Longrightarrow> \<not> busy needs get a i"
    using True LeastI [of "busy needs get a"] not_less_Least [of _ "busy needs get a"] Least_le [of "busy needs get a"]
    unfolding m_def by (blast, meson le_less_trans, blast)
  have "fast_loop needs get r rw [0..<n] a = Some (took rw r (ents needs get {..<m}) a, Some m)"
    using fast_loop_upto [OF ok m(3), of m rw] fast_loop_step [OF ok m(2), of rw "[Suc m..<n]"] m(1,2)
    by (simp add: upt_conv_Cons)
  moreover have "idle a (ents needs get {..<m})"
    using m(3) entry_ok_idle [OF entry_okD(1) [OF held]] entry_okD(2) [OF held]
    by (fastforce simp: idle_def ents_def busy_def)
  then have "discard_loop needs get r rw (rev [0..<m]) (took rw r (ents needs get {..<m}) a) = Some a"
    using m(2) by (intro discard_loop_all [OF ok]) auto
  moreover have "\<not> ocf_alock_is_index_locked (took rw r (ents needs get {..<m}) a) r (of_nat m)"
    using ents_index [OF ok m(2), of "{..<m}"] entries_bit [OF ok m(2)] m(2) by (auto simp: ocf_alock_is_index_locked_def)
  then have "discard_loop needs get r rw (rev [0..<Suc m]) (took rw r (ents needs get {..<m}) a) =
      discard_loop needs get r rw (rev [0..<m]) (took rw r (ents needs get {..<m}) a)"
    using m(1) by (auto simp: busy_def)
  ultimately show ?thesis using True by (simp add: lock_fast_def del: upt_Suc)
qed

subsection \<open>Properties\<close>

text \<open>The lines of a request: mapped lines exist and are different, and none of the request's lock bits is set.\<close>

definition req_lines_ok :: "ocf_alock \<Rightarrow> ocf_request \<Rightarrow> bool" where
  "req_lines_ok a req \<longleftrightarrow> length (req_map req) = unat (core_line_count req) \<and>
     distinct (map coll_idx (filter (\<lambda>e. status e \<noteq> LOOKUP_MISS \<and> status e \<noteq> LOOKUP_REMAPPED) (req_map req))) \<and>
     (\<forall>e\<in>set (req_map req). status e \<noteq> LOOKUP_MISS \<and> status e \<noteq> LOOKUP_REMAPPED \<longrightarrow> coll_idx e < num_entries a) \<and>
     (\<forall>i. \<not> alock_status a (req_no req) i)"

definition needed_lines :: "ocf_request \<Rightarrow> u32 set" where
  "needed_lines req = set (map coll_idx (filter (\<lambda>e. status e \<noteq> LOOKUP_MISS \<and> status e \<noteq> LOOKUP_REMAPPED) (req_map req)))"

lemma distinct_map_filter_nth:
  "distinct (map f (filter P xs)) \<Longrightarrow> i < length xs \<Longrightarrow> j < length xs \<Longrightarrow> P (xs ! i) \<Longrightarrow> P (xs ! j) \<Longrightarrow>
   f (xs ! i) = f (xs ! j) \<Longrightarrow> i = j"
proof (induction xs arbitrary: i j)
  case (Cons x xs)
  show ?case
  proof (cases i)
    case 0
    show ?thesis
    proof (cases j)
      case (Suc k)
      then have "f x \<in> f ` {y \<in> set xs. P y}" using 0 Cons.prems by (auto intro: image_eqI [of _ _ "xs ! k"])
      then show ?thesis using Cons.prems(1,4) 0 by simp
    qed (use 0 in simp)
  next
    case (Suc k)
    show ?thesis
    proof (cases j)
      case 0
      then have "f x \<in> f ` {y \<in> set xs. P y}" using Suc Cons.prems by (auto intro: image_eqI [of _ _ "xs ! k"])
      then show ?thesis using Cons.prems(1,5) 0 by simp
    next
      case (Suc l)
      then show ?thesis using \<open>i = Suc k\<close> Cons by (auto split: if_splits)
    qed
  qed
qed simp

lemma req_entries_ok:
  assumes "req_lines_ok a req"
  shows "entries_ok (ocf_cl_lock_line_needs_lock req) (ocf_cl_lock_line_get_entry req) (req_no req)
    (unat (core_line_count req)) a"
proof -
  let ?P = "\<lambda>e. status e \<noteq> LOOKUP_MISS \<and> status e \<noteq> LOOKUP_REMAPPED"
  have n: "unat (core_line_count req) < 2 ^ 32" using unsigned_less [of "core_line_count req", where ?'a = nat] by simp
  have me: "map_entry req (of_nat i) = Some (req_map req ! i)" if "i < unat (core_line_count req)" for i
    using that assms n by (simp add: map_entry_def req_lines_ok_def unat_of_nat_u32)
  have "i = j" if "i < unat (core_line_count req)" "j < unat (core_line_count req)"
      "?P (req_map req ! i)" "?P (req_map req ! j)" "coll_idx (req_map req ! i) = coll_idx (req_map req ! j)" for i j
    using that assms distinct_map_filter_nth [of coll_idx ?P "req_map req" i j] by (simp add: req_lines_ok_def)
  then show ?thesis
    using assms n me
    by (auto simp: entries_ok_def ocf_cl_lock_line_needs_lock_def ocf_cl_lock_line_get_entry_def req_lines_ok_def)
qed

lemma req_map_entry:
  assumes "req_lines_ok a req" "i < unat (core_line_count req)"
  shows "map_entry req (of_nat i) = Some (req_map req ! i)"
  using assms unsigned_less [of "core_line_count req", where ?'a = nat]
  by (simp add: map_entry_def req_lines_ok_def unat_of_nat_u32)

lemma bex_set_nth: "(\<exists>e\<in>set xs. Q e) \<longleftrightarrow> (\<exists>i<length xs. Q (xs ! i))"
  by (auto simp: set_conv_nth)

lemma req_ents_lines:
  assumes "req_lines_ok a req"
  shows "snd ` ents (ocf_cl_lock_line_needs_lock req) (ocf_cl_lock_line_get_entry req) {..<unat (core_line_count req)} =
    needed_lines req" (is "?L = _")
proof -
  let ?P = "\<lambda>e. status e \<noteq> LOOKUP_MISS \<and> status e \<noteq> LOOKUP_REMAPPED"
  have n: "length (req_map req) = unat (core_line_count req)" using assms by (simp add: req_lines_ok_def)
  note me = req_map_entry [OF assms]
  have "l \<in> ?L \<longleftrightarrow> (\<exists>i<length (req_map req). ?P (req_map req ! i) \<and> coll_idx (req_map req ! i) = l)" for l
  proof -
    have "l \<in> ?L \<longleftrightarrow> (\<exists>i<length (req_map req). ocf_cl_lock_line_needs_lock req (of_nat i) = Some True \<and>
        ocf_cl_lock_line_get_entry req (of_nat i) = Some l)"
      unfolding ents_def n by force
    then show ?thesis
      using me n by (auto simp: ocf_cl_lock_line_needs_lock_def ocf_cl_lock_line_get_entry_def)
  qed
  moreover have "l \<in> needed_lines req \<longleftrightarrow> (\<exists>i<length (req_map req). ?P (req_map req ! i) \<and> coll_idx (req_map req ! i) = l)" for l
  proof -
    have "l \<in> needed_lines req \<longleftrightarrow> (\<exists>e\<in>set (req_map req). ?P e \<and> coll_idx e = l)" unfolding needed_lines_def by auto
    then show ?thesis using bex_set_nth [of "req_map req" "\<lambda>e. ?P e \<and> coll_idx e = l"] by (rule trans)
  qed
  ultimately show ?thesis by (intro set_eqI) simp
qed

lemma alock_rw_entries [simp]:
  "ocf_cl_lock_line_is_acting (req\<lparr>alock_rw := k\<rparr>) = ocf_cl_lock_line_is_acting req"
  "ocf_cl_lock_line_get_entry (req\<lparr>alock_rw := k\<rparr>) = ocf_cl_lock_line_get_entry req"
  by (simp_all add: fun_eq_iff ocf_cl_lock_line_is_acting_def ocf_cl_lock_line_get_entry_def map_entry_def)

lemma busy_lines:
  assumes "req_lines_ok a req"
  shows "(\<exists>i<unat (core_line_count req). busy (ocf_cl_lock_line_needs_lock req) (ocf_cl_lock_line_get_entry req) a i) \<longleftrightarrow>
    (\<exists>l\<in>needed_lines req. acc a l \<noteq> OCF_CACHE_LINE_ACCESS_IDLE)"
  unfolding req_ents_lines [OF assms, symmetric] by (auto simp: busy_def ents_def)

text \<open>C34. The fast way of locking a request is all or nothing: when all its lines are free it gets all of them, and
  unlocking the request then restores the state; when one of them is not free the state is unchanged.\<close>

theorem lock_fast_all_or_nothing:
  assumes "locks_ok (a, H)" "req_lines_ok a req"
  shows "\<exists>a' res. ocf_cl_lock_line_fast a req rw = Some (a', res) \<and>
    (if \<forall>l\<in>needed_lines req. acc a l = OCF_CACHE_LINE_ACCESS_IDLE
     then res = OCF_LOCK_ACQUIRED \<and> (\<forall>l. acc a' l = (if l \<in> needed_lines req then held_word rw else acc a l)) \<and>
          ocf_req_unlock a' (req\<lparr>alock_rw := rw\<rparr>) = Some a
     else res = OCF_LOCK_NOT_ACQUIRED \<and> a' = a)"
proof -
  let ?needs = "ocf_cl_lock_line_needs_lock req" and ?get = "ocf_cl_lock_line_get_entry req"
  let ?n = "unat (core_line_count req)"
  let ?P = "ents ?needs ?get {..<?n}"
  note ok = req_entries_ok [OF assms(2)]
  note fast = lock_fast_ok [OF ok assms(1), of rw, folded ocf_cl_lock_line_fast_def, unfolded busy_lines [OF assms(2)]]
  show ?thesis
  proof (cases "\<forall>l\<in>needed_lines req. acc a l = OCF_CACHE_LINE_ACCESS_IDLE")
    case True
    have "idle a ?P"
      using True entry_okD(2) [OF assms(1)] entry_ok_idle [OF entry_okD(1) [OF assms(1)]]
      unfolding idle_def req_ents_lines [OF assms(2), symmetric] by blast
    moreover have "\<exists>b. ocf_cl_lock_line_is_acting req (of_nat i) = Some b \<and> (?needs (of_nat i) = Some True \<longrightarrow> b)" if "i < ?n" for i
      using req_map_entry [OF assms(2) that] by (simp add: ocf_cl_lock_line_is_acting_def ocf_cl_lock_line_needs_lock_def)
    ultimately have un: "unlock_loop (ocf_cl_lock_line_is_acting req) ?get (req_no req) rw [0..<?n] (took rw (req_no req) ?P a) = Some a"
      using unlock_loop_all [OF ok, of 0 "ocf_cl_lock_line_is_acting req" rw] by (simp add: lessThan_atLeast0)
    have "ocf_req_unlock (took rw (req_no req) ?P a) (req\<lparr>alock_rw := rw\<rparr>) = Some a"
      using un by (cases rw) (simp_all add: ocf_req_unlock_def ocf_req_unlock_wr_def ocf_req_unlock_rd_def)
    then show ?thesis using True fast req_ents_lines [OF assms(2)] by simp
  qed (use fast in auto)
qed

text \<open>An example: request 2 hits lines 5 and 3 while request 1 holds line 3.\<close>

definition ex_req :: ocf_request where
  "ex_req = \<lparr>req_no = 2, req_core = 0, byte_position = 0, byte_length = 8192, core_line_first = 0, core_line_last = 1,
     core_line_count = 2, req_rw = OCF_WRITE, req_part_id = 0, part_evict = False, alock_rw = OCF_WRITE,
     req_info = zero_info, req_map = [zero_map\<lparr>coll_idx := 5, status := LOOKUP_HIT\<rparr>, zero_map\<lparr>coll_idx := 3, status := LOOKUP_HIT\<rparr>]\<rparr>"

lemma ex_req_lines: "req_lines_ok (lock_ex rs) ex_req" "req_lines_ok lock_ex0 ex_req" "needed_lines ex_req = {3, 5}"
  by (auto simp: req_lines_ok_def needed_lines_def ex_req_def lock_ex_def lock_ex0_def lookup_defs)

lemma lock_fast_all_or_nothing_witness:
  "ocf_cl_lock_line_fast (lock_ex []) ex_req OCF_WRITE = Some (lock_ex [], OCF_LOCK_NOT_ACQUIRED)"
proof -
  have "lock_step (lock_ex0, \<lambda>_. []) (lock_ex [], (\<lambda>_. [])(3 := [OCF_WRITE]))" by (rule lock_ex_first)
  then have ok: "locks_ok (lock_ex [], (\<lambda>_. [])(3 := [OCF_WRITE]))"
    using lock_step_ok locks_ok_init [OF lock_ex_init] by blast
  have "acc (lock_ex []) 3 \<noteq> OCF_CACHE_LINE_ACCESS_IDLE" by (simp add: lock_ex_def access_defs)
  then show ?thesis using lock_fast_all_or_nothing [OF ok ex_req_lines(1), of OCF_WRITE] ex_req_lines(3) by auto
qed

subsection \<open>What the slow way does\<close>

text \<open>A line that a request gets at once: it is free, or it has readers only and nobody waits for it.\<close>

definition grants :: "rw \<Rightarrow> ocf_alock \<Rightarrow> u32 \<Rightarrow> bool" where
  "grants rw a e \<longleftrightarrow> (case rw of OCF_WRITE \<Rightarrow> acc a e = OCF_CACHE_LINE_ACCESS_IDLE
     | OCF_READ \<Rightarrow> acc a e \<noteq> OCF_CACHE_LINE_ACCESS_WR \<and> waiters_of a e = [])"

definition locked_word :: "rw \<Rightarrow> int \<Rightarrow> int" where
  "locked_word rw v = (case rw of OCF_WRITE \<Rightarrow> OCF_CACHE_LINE_ACCESS_WR | OCF_READ \<Rightarrow> v + 1)"

definition got :: "rw \<Rightarrow> ocf_alock \<Rightarrow> (u32 \<times> u32) set \<Rightarrow> (u32 \<times> u32) set" where
  "got rw a P = {p \<in> P. grants rw a (snd p)}"

definition refused :: "rw \<Rightarrow> ocf_alock \<Rightarrow> (u32 \<times> u32) set \<Rightarrow> (u32 \<times> u32) set" where
  "refused rw a P = {p \<in> P. \<not> grants rw a (snd p)}"

text \<open>Request \<open>r\<close> has asked for the entries \<open>P\<close>, pairs of an index and a line: it holds and has marked those that it could get, and is the last waiter
  for each of the others; all else is as it was.\<close>

definition asked :: "rw \<Rightarrow> nat \<Rightarrow> (u32 \<times> u32) set \<Rightarrow> ocf_alock \<Rightarrow> ocf_alock \<Rightarrow> bool" where
  "asked rw r P a a' \<longleftrightarrow> num_entries a' = num_entries a \<and> lists_no a' = lists_no a \<and> resumed a' = resumed a \<and>
     (\<forall>q. q \<noteq> r \<longrightarrow> lock_remaining a' q = lock_remaining a q) \<and>
     (\<forall>l. acc a' l = (if l \<in> snd ` got rw a P then locked_word rw (acc a l) else acc a l)) \<and>
     alock_status a' = (alock_status a)(r := \<lambda>i. i \<in> fst ` got rw a P \<or> alock_status a r i) \<and>
     (\<forall>l. l \<notin> snd ` refused rw a P \<longrightarrow> waiters_of a' l = waiters_of a l) \<and>
     (\<forall>p\<in>refused rw a P. waiters_of a' (snd p) = waiters_of a (snd p) @ [\<lparr>w_entry = snd p, w_idx = fst p, w_req = r, w_rw = rw\<rparr>])"

lemma asked_none: "asked rw r {} a a"
  by (simp add: asked_def got_def refused_def)

lemma got_insert: "got rw a (insert p P) = (if grants rw a (snd p) then insert p (got rw a P) else got rw a P)"
  "refused rw a (insert p P) = (if grants rw a (snd p) then refused rw a P else insert p (refused rw a P))"
  by (auto simp: got_def refused_def)

lemma got_subset: "p \<notin> P \<Longrightarrow> p \<notin> refused rw a P" "l \<notin> snd ` P \<Longrightarrow> l \<notin> snd ` got rw a P" "l \<notin> snd ` P \<Longrightarrow> l \<notin> snd ` refused rw a P"
  by (auto simp: got_def refused_def)

definition lock_one :: "rw \<Rightarrow> ocf_alock \<Rightarrow> u32 \<Rightarrow> nat \<Rightarrow> u32 \<Rightarrow> (ocf_alock \<times> bool) option" where
  "lock_one rw a e r i = (case rw of OCF_WRITE \<Rightarrow> ocf_alock_lock_one_wr True a e r i | OCF_READ \<Rightarrow> ocf_alock_lock_one_rd True a e r i)"

text \<open>One line, with \<open>lock_remaining\<close> so large that the request does not resume.\<close>

lemma lock_one_granted:
  assumes e: "e < num_entries a" and idle: "acc a e = OCF_CACHE_LINE_ACCESS_IDLE \<longrightarrow> waiters_of a e = []" and g: "grants rw a e"
  shows "lock_one rw a e r i = Some (ocf_alock_entry_locked (ocf_alock_mark_index_locked (set_access a e (locked_word rw (acc a e))) r i True) r, True)"
  using assms
  by (cases rw) (auto simp: lock_one_def ocf_alock_lock_one_wr_def ocf_alock_lock_one_rd_def lock_one_wr_try_def lock_one_rd_try_def lock_one_rd_wait_def
      ocf_alock_trylock_entry_wr_def ocf_alock_trylock_entry_rd_idle_def ocf_alock_trylock_entry_rd_def access_word_def env_atomic_cmpxchg_def
      env_atomic_add_unless_def grants_def locked_word_def waitlist_is_empty_waiters set_access_same access_defs)

lemma lock_one_refused:
  assumes e: "e < num_entries a" and idle: "acc a e = OCF_CACHE_LINE_ACCESS_IDLE \<longrightarrow> waiters_of a e = []" and g: "\<not> grants rw a e"
  shows "lock_one rw a e r i = Some (ocf_alock_waitlist_add a e \<lparr>w_entry = e, w_idx = i, w_req = r, w_rw = rw\<rparr>, True)"
  using assms
  by (cases rw) (auto simp: lock_one_def ocf_alock_lock_one_wr_def ocf_alock_lock_one_rd_def lock_one_wr_try_def lock_one_rd_try_def lock_one_wr_wait_def lock_one_rd_wait_def
      ocf_alock_trylock_entry_wr_def ocf_alock_trylock_entry_rd_idle_def ocf_alock_trylock_entry_rd_def access_word_def env_atomic_cmpxchg_def
      env_atomic_add_unless_def grants_def waitlist_is_empty_waiters set_access_same access_defs)

lemma waiters_of_add:
  "w_entry w = e \<Longrightarrow> waiters_of (ocf_alock_waitlist_add a e w) l = (if l = e then waiters_of a e @ [w] else waiters_of a l)"
  by (auto simp: ocf_alock_waitlist_add_def waiters_of_def waiters_list_item_def Let_def)

lemma waitlist_add_fields [simp]:
  "acc (ocf_alock_waitlist_add a e w) = acc a" "num_entries (ocf_alock_waitlist_add a e w) = num_entries a" "lists_no (ocf_alock_waitlist_add a e w) = lists_no a"
  "alock_status (ocf_alock_waitlist_add a e w) = alock_status a" "lock_remaining (ocf_alock_waitlist_add a e w) = lock_remaining a"
  "resumed (ocf_alock_waitlist_add a e w) = resumed a" "waiting (ocf_alock_waitlist_add a e w) = waiting a"
  by (simp_all add: ocf_alock_waitlist_add_def Let_def)

lemma entry_locked_fields:
  assumes "lock_remaining a r \<noteq> 1"
  shows "ocf_alock_entry_locked a r = a\<lparr>lock_remaining := (lock_remaining a)(r := lock_remaining a r - 1)\<rparr>"
  using assms by (simp add: ocf_alock_entry_locked_def Let_def)

lemma lock_one_asked:
  assumes A: "asked rw r P a a1" and e: "e < num_entries a" "e \<notin> snd ` P" and idle: "acc a e = OCF_CACHE_LINE_ACCESS_IDLE \<longrightarrow> waiters_of a e = []"
    and k: "1 < lock_remaining a1 r"
  shows "\<exists>a2. lock_one rw a1 e r i = Some (a2, True) \<and> asked rw r (insert (i, e) P) a a2 \<and> waiting a2 = waiting a1 \<and>
    lock_remaining a2 r = lock_remaining a1 r - (if grants rw a e then 1 else 0)"
proof -
  note D = A [unfolded asked_def] and n = got_subset(2,3) [OF e(2), of rw a]
  have same: "acc a1 e = acc a e" "waiters_of a1 e = waiters_of a e" "num_entries a1 = num_entries a" using D n by auto
  then have gr: "grants rw a1 e \<longleftrightarrow> grants rw a e" by (simp add: grants_def split: rw.split)
  show ?thesis
  proof (cases "grants rw a e")
    case True
    let ?a2 = "ocf_alock_entry_locked (ocf_alock_mark_index_locked (set_access a1 e (locked_word rw (acc a1 e))) r i True) r"
    have run: "lock_one rw a1 e r i = Some (?a2, True)" using lock_one_granted [of e a1 rw r i] e(1) idle same gr True by simp
    have k1: "lock_remaining (ocf_alock_mark_index_locked (set_access a1 e (locked_word rw (acc a1 e))) r i True) r \<noteq> 1"
      using k by (simp add: ocf_alock_mark_index_locked_def set_access_def)
    have w: "waiters_of ?a2 l = waiters_of a1 l" for l
      unfolding entry_locked_fields [OF k1] by (simp add: waiters_of_def waiters_list_item_def ocf_alock_mark_index_locked_def set_access_def)
    have "asked rw r (insert (i, e) P) a ?a2"
      unfolding asked_def got_insert using D True same(1) w
      unfolding entry_locked_fields [OF k1]
      by (auto simp: ocf_alock_mark_index_locked_def set_access_def fun_eq_iff)
    moreover have "waiting ?a2 = waiting a1" "lock_remaining ?a2 r = lock_remaining a1 r - 1"
      unfolding entry_locked_fields [OF k1] by (simp_all add: ocf_alock_mark_index_locked_def set_access_def)
    ultimately show ?thesis using run True by auto
  next
    case False
    let ?a2 = "ocf_alock_waitlist_add a1 e \<lparr>w_entry = e, w_idx = i, w_req = r, w_rw = rw\<rparr>"
    have run: "lock_one rw a1 e r i = Some (?a2, True)" using lock_one_refused [of e a1 rw r i] e(1) idle same gr False by simp
    have w: "waiters_of ?a2 l = (if l = e then waiters_of a e @ [\<lparr>w_entry = e, w_idx = i, w_req = r, w_rw = rw\<rparr>] else waiters_of a1 l)" for l
      using waiters_of_add [of "\<lparr>w_entry = e, w_idx = i, w_req = r, w_rw = rw\<rparr>" e a1 l] same(2) by simp
    have ne: "snd p \<noteq> e" if "p \<in> refused rw a P" for p using that n(2) by (auto simp: image_iff)
    have "asked rw r (insert (i, e) P) a ?a2" unfolding asked_def got_insert using D False w ne by auto
    then show ?thesis using run False by auto
  qed
qed

text \<open>The count of what is left and the number of waiting requests do not matter for what a request is asked and given.\<close>

lemma asked_frame:
  "locks_ok (a\<lparr>waiting := w, lock_remaining := (lock_remaining a)(r := k)\<rparr>, H) = locks_ok (a, H)"
  "entries_ok needs get r n (a\<lparr>waiting := w, lock_remaining := (lock_remaining a)(r := k)\<rparr>) = entries_ok needs get r n a"
  "asked rw r P (a\<lparr>waiting := w, lock_remaining := (lock_remaining a)(r := k)\<rparr>) a' = asked rw r P a a'"
  "refused rw (a\<lparr>waiting := w, lock_remaining := (lock_remaining a)(r := k)\<rparr>) P = refused rw a P"
  "asked rw r P a (a'\<lparr>waiting := w\<rparr>) = asked rw r P a a'" "asked rw r P a (a'\<lparr>lock_remaining := (lock_remaining a')(r := k)\<rparr>) = asked rw r P a a'"
proof -
  have w: "waiters_of (a\<lparr>waiting := w, lock_remaining := (lock_remaining a)(r := k)\<rparr>) = waiters_of a" "waiters_of (a'\<lparr>waiting := w\<rparr>) = waiters_of a'"
    "waiters_of (a'\<lparr>lock_remaining := (lock_remaining a')(r := k)\<rparr>) = waiters_of a'"
    by (simp_all add: waiters_of_def waiters_list_item_def fun_eq_iff)
  have g: "grants rw (a\<lparr>waiting := w, lock_remaining := (lock_remaining a)(r := k)\<rparr>) = grants rw a"
    by (cases rw) (simp_all add: fun_eq_iff grants_def w)
  show "locks_ok (a\<lparr>waiting := w, lock_remaining := (lock_remaining a)(r := k)\<rparr>, H) = locks_ok (a, H)"
    by (simp add: locks_ok_def w waiters_ok_def waiters_list_item_def)
  show "refused rw (a\<lparr>waiting := w, lock_remaining := (lock_remaining a)(r := k)\<rparr>) P = refused rw a P" by (simp add: refused_def g)
  show "asked rw r P (a\<lparr>waiting := w, lock_remaining := (lock_remaining a)(r := k)\<rparr>) a' = asked rw r P a a'"
    by (simp add: asked_def got_def refused_def g w)
  show "asked rw r P a (a'\<lparr>waiting := w\<rparr>) = asked rw r P a a'" "asked rw r P a (a'\<lparr>lock_remaining := (lock_remaining a')(r := k)\<rparr>) = asked rw r P a a'"
    by (simp_all add: asked_def w)
qed (simp add: entries_ok_def)

lemma slow_loop_upto:
  assumes ok: "entries_ok needs get r n a" and held: "locks_ok (a, H)"
  shows "i \<le> n \<Longrightarrow> asked rw r (ents needs get {..<i}) a a1 \<Longrightarrow> lock_remaining a1 r = int (n - i) + 1 + int (card (refused rw a (ents needs get {..<i}))) \<Longrightarrow>
    \<exists>a2. slow_loop (\<lambda>_. True) needs get r rw [i..<n] a1 = Some (a2, None) \<and> asked rw r (ents needs get {..<n}) a a2 \<and> waiting a2 = waiting a1 \<and>
      lock_remaining a2 r = 1 + int (card (refused rw a (ents needs get {..<n})))"
proof (induction i arbitrary: a1 rule: inc_induct)
  case base
  then show ?case by simp
next
  case (step i)
  let ?P = "ents needs get {..<i}"
  have i: "i < n" and up: "[i..<n] = i # [Suc i..<n]" and d: "n - i = Suc (n - Suc i)" using step(2) by (auto simp: upt_conv_Cons)
  show ?case
    using ok i
  proof (cases rule: entry_cases)
    case (skip e)
    let ?a = "a1\<lparr>lock_remaining := (lock_remaining a1)(r := lock_remaining a1 r - 1)\<rparr>"
    have P: "ents needs get {..<Suc i} = ?P" using skip(3) by (simp add: lessThan_Suc)
    have "asked rw r (ents needs get {..<Suc i}) a ?a" using step(4) unfolding P asked_frame .
    from step.IH [OF this] show ?thesis using skip(1) step(5) by (simp add: up P d)
  next
    case (take e)
    have P: "ents needs get {..<Suc i} = insert (of_nat i, e) ?P" using take(4) by (simp add: lessThan_Suc)
    have ne: "e \<notin> snd ` ?P" "of_nat i \<notin> fst ` ?P" using take(5) [of "{..<i}"] ents_index [OF ok i, of "{..<i}"] i by auto
    have idle: "acc a e = OCF_CACHE_LINE_ACCESS_IDLE \<longrightarrow> waiters_of a e = []"
      using entry_ok_idle [OF entry_okD(1) [OF held]] entry_okD(2) [OF held] by blast
    have k: "1 < lock_remaining a1 r" using step(5) d by simp
    obtain a2 where a2: "lock_one rw a1 e r (of_nat i) = Some (a2, True)" "asked rw r (insert (of_nat i, e) ?P) a a2" "waiting a2 = waiting a1"
      "lock_remaining a2 r = lock_remaining a1 r - (if grants rw a e then 1 else 0)"
      using lock_one_asked [OF step(4) take(3) ne(1) idle k] by blast
    have b: "\<not> ocf_alock_is_index_locked a1 r (of_nat i)"
      using step(4) ne(2) entries_bit [OF ok i] by (auto simp: asked_def ocf_alock_is_index_locked_def got_def)
    have "(of_nat i, e) \<notin> refused rw a ?P" using ne(1) by (force simp: refused_def)
    then have "card (refused rw a (insert (of_nat i, e) ?P)) = card (refused rw a ?P) + (if grants rw a e then 0 else 1)"
      by (simp add: got_insert)
    then have "lock_remaining a2 r = int (n - Suc i) + 1 + int (card (refused rw a (ents needs get {..<Suc i})))"
      using a2(4) step(5) d by (simp add: P)
    from step.IH [OF a2(2) [folded P] this] obtain a3 where a3: "slow_loop (\<lambda>_. True) needs get r rw [Suc i..<n] a2 = Some (a3, None)"
      "asked rw r (ents needs get {..<n}) a a3" "waiting a3 = waiting a2" "lock_remaining a3 r = 1 + int (card (refused rw a (ents needs get {..<n})))"
      by blast
    have "slow_loop (\<lambda>_. True) needs get r rw [i..<n] a1 = Some (a3, None)"
      using take(1,2) b a2(1) a3(1) by (cases rw) (simp_all add: up lock_one_def)
    then show ?thesis using a3 a2(3) by auto
  qed
qed

lemma lock_slow_ok:
  assumes "entries_ok needs get r n a" "locks_ok (a, H)" "lock_remaining a r = int n + 1"
  shows "\<exists>a2. lock_slow (\<lambda>_. True) needs get r n rw a = Some (a2, 0) \<and> asked rw r (ents needs get {..<n}) a a2 \<and> waiting a2 = waiting a \<and>
      lock_remaining a2 r = 1 + int (card (refused rw a (ents needs get {..<n})))"
proof -
  have e: "ents needs get {..<0} = {}" by (simp add: ents_def)
  have "asked rw r (ents needs get {..<0}) a a" "lock_remaining a r = int (n - 0) + 1 + int (card (refused rw a (ents needs get {..<0})))"
    using assms(3) by (simp_all only: e asked_none) (simp add: refused_def)
  from slow_loop_upto [OF assms(1,2) _ this] show ?thesis by (auto simp: lock_slow_def)
qed

lemma took_asked:
  assumes "locks_ok (a, H)" "\<And>p. p \<in> P \<Longrightarrow> acc a (snd p) = OCF_CACHE_LINE_ACCESS_IDLE"
  shows "asked rw r P a (took rw r P a)" "refused rw a P = {}"
proof -
  have w: "waiters_of a (snd p) = []" if "p \<in> P" for p
    using assms(2) [OF that] entry_ok_idle [OF entry_okD(1) [OF assms(1)]] entry_okD(2) [OF assms(1)] by blast
  then have g: "grants rw a (snd p)" if "p \<in> P" for p using that assms(2) by (auto simp: grants_def access_defs split: rw.split)
  then have G: "got rw a P = P" and R: "refused rw a P = {}" by (auto simp: got_def refused_def)
  show "refused rw a P = {}" by (rule R)
  have "locked_word rw (acc a l) = held_word rw" if "l \<in> snd ` P" for l
    using assms(2) that by (auto simp: locked_word_def held_word_def access_defs split: rw.split)
  then show "asked rw r P a (took rw r P a)" unfolding asked_def G R by (auto simp: took_def fun_eq_iff waiters_of_def waiters_list_item_def)
qed

lemma needs_lock_rw [simp]: "ocf_cl_lock_line_needs_lock (req\<lparr>alock_rw := k\<rparr>) = ocf_cl_lock_line_needs_lock req"
  by (simp add: fun_eq_iff ocf_cl_lock_line_needs_lock_def map_entry_def)

text \<open>The entries that a request has to lock.\<close>

definition req_entries :: "ocf_request \<Rightarrow> (u32 \<times> u32) set" where
  "req_entries req = ents (ocf_cl_lock_line_needs_lock req) (ocf_cl_lock_line_get_entry req) {..<unat (core_line_count req)}"

text \<open>C35. Locking the lines of a request, for reading or writing, when the waiters can be allocated.  The request gets every line that is free, and a reader also the
  lines that have only readers and no waiter; these, and no other lines, are marked as locked, and their lock words count the request.
  For every other line it becomes the last waiter, with the index of the line, and \<open>lock_remaining\<close> is the number of these lines.
  The request is told that it has all locks exactly when there are none; otherwise it is counted as waiting.  It is not
  resumed during the call, and no other request changes.\<close>

theorem async_lock_grants_or_waits:
  assumes held: "locks_ok (a, H)" and lines: "req_lines_ok a req" and rem: "lock_remaining a (req_no req) = 0"
  shows "\<exists>a' res. (case rw of OCF_READ \<Rightarrow> ocf_req_async_lock_rd | OCF_WRITE \<Rightarrow> ocf_req_async_lock_wr) (\<lambda>_. True) a req = Some (a', req\<lparr>alock_rw := rw\<rparr>, res) \<and>
    asked rw (req_no req) (req_entries req) a a' \<and>
    lock_remaining a' (req_no req) = int (card (refused rw a (req_entries req))) \<and>
    (if refused rw a (req_entries req) = {} then res = OCF_LOCK_ACQUIRED \<and> waiting a' = waiting a
     else res = OCF_LOCK_NOT_ACQUIRED \<and> waiting a' = waiting a + 1)"
proof -
  let ?needs = "ocf_cl_lock_line_needs_lock req" and ?get = "ocf_cl_lock_line_get_entry req" and ?r = "req_no req"
  let ?n = "unat (core_line_count req)"
  let ?P = "ents ?needs ?get {..<?n}" and ?req = "req\<lparr>alock_rw := rw\<rparr>"
  note ok = req_entries_ok [OF lines]
  have run: "(case rw of OCF_READ \<Rightarrow> ocf_req_async_lock_rd | OCF_WRITE \<Rightarrow> ocf_req_async_lock_wr) (\<lambda>_. True) a req =
      alock_lock ocf_cl_lock_line_fast (ocf_cl_lock_line_slow (\<lambda>_. True)) rw a req"
    by (cases rw) (simp_all add: ocf_req_async_lock_rd_def ocf_req_async_lock_wr_def ocf_alock_lock_rd_def ocf_alock_lock_wr_def)
  note fast = lock_fast_ok [OF ok held, of rw]
  have fl: "ocf_cl_lock_line_fast a ?req rw = lock_fast ?needs ?get ?r ?n rw a" by (simp add: ocf_cl_lock_line_fast_def)
  show ?thesis
  proof (cases "\<exists>i<?n. busy ?needs ?get a i")
    case False
    then have "acc a (snd p) = OCF_CACHE_LINE_ACCESS_IDLE" if "p \<in> ?P" for p using that by (auto simp: busy_def ents_def)
    note t = took_asked(1) [OF held this, where rw = rw and r = ?r] took_asked(2) [OF held this, where rw = rw]
    have "alock_lock ocf_cl_lock_line_fast (ocf_cl_lock_line_slow (\<lambda>_. True)) rw a req = Some (took rw ?r ?P a, ?req, OCF_LOCK_ACQUIRED)"
      using fast False rem by (simp add: alock_lock_def fl)
    moreover have "lock_remaining (took rw ?r ?P a) ?r = 0" "waiting (took rw ?r ?P a) = waiting a" using rem by (simp_all add: took_def)
    ultimately show ?thesis using t unfolding run req_entries_def by auto
  next
    case True
    let ?a = "a\<lparr>waiting := waiting a + 1, lock_remaining := (lock_remaining a)(?r := int ?n + 1)\<rparr>"
    obtain a2 where a2: "lock_slow (\<lambda>_. True) ?needs ?get ?r ?n rw ?a = Some (a2, 0)" "asked rw ?r ?P a a2" "waiting a2 = waiting a + 1"
      "lock_remaining a2 ?r = 1 + int (card (refused rw a ?P))"
      using lock_slow_ok [of ?needs ?get ?r ?n ?a H rw] ok held unfolding asked_frame by auto
    let ?b = "a2\<lparr>lock_remaining := (lock_remaining a2)(?r := int (card (refused rw a ?P)))\<rparr>"
    have sl: "ocf_cl_lock_line_slow (\<lambda>_. True) ?a ?req rw = Some (a2, 0)" using a2(1) by (simp add: ocf_cl_lock_line_slow_def)
    have "alock_lock ocf_cl_lock_line_fast (ocf_cl_lock_line_slow (\<lambda>_. True)) rw a req =
        (if card (refused rw a ?P) = 0 then Some (?b\<lparr>waiting := waiting a2 - 1\<rparr>, ?req, OCF_LOCK_ACQUIRED) else Some (?b, ?req, OCF_LOCK_NOT_ACQUIRED))"
      using fast True rem sl a2(4) by (simp add: alock_lock_def fl lock_result_defs)
    moreover have "asked rw ?r ?P a ?b" "asked rw ?r ?P a (?b\<lparr>waiting := waiting a2 - 1\<rparr>)" unfolding asked_frame by (rule a2(2))+
    ultimately show ?thesis using a2(3) unfolding run req_entries_def by (cases "refused rw a ?P = {}") simp_all
  qed
qed

lemma async_lock_grants_or_waits_witness:
  "\<exists>a'. ocf_req_async_lock_wr (\<lambda>_. True) (lock_ex []) ex_req = Some (a', ex_req, OCF_LOCK_NOT_ACQUIRED) \<and>
    acc a' 5 = OCF_CACHE_LINE_ACCESS_WR \<and> alock_status a' 2 0 \<and> waiters_of a' 3 = [\<lparr>w_entry = 3, w_idx = 1, w_req = 2, w_rw = OCF_WRITE\<rparr>] \<and> lock_remaining a' 2 = 1"
proof -
  have "lock_step (lock_ex0, \<lambda>_. []) (lock_ex [], (\<lambda>_. [])(3 := [OCF_WRITE]))" by (rule lock_ex_first)
  then have ok: "locks_ok (lock_ex [], (\<lambda>_. [])(3 := [OCF_WRITE]))"
    using lock_step_ok locks_ok_init [OF lock_ex_init] by blast
  have n: "{..<2::nat} = {0, 1}" by auto
  have P: "req_entries ex_req = {(0, 5), (1, 3)}"
  proof -
    have "core_line_count ex_req = 2" "ocf_cl_lock_line_needs_lock ex_req 0 = Some True" "ocf_cl_lock_line_needs_lock ex_req 1 = Some True"
      "ocf_cl_lock_line_get_entry ex_req 0 = Some 5" "ocf_cl_lock_line_get_entry ex_req 1 = Some 3"
      by (simp_all add: ex_req_def ocf_cl_lock_line_needs_lock_def ocf_cl_lock_line_get_entry_def map_entry_def lookup_defs)
    then show ?thesis by (auto simp: req_entries_def ents_def n intro: exI [of _ "0 :: nat"] exI [of _ "1 :: nat"])
  qed
  have g: "grants OCF_WRITE (lock_ex []) 5" "\<not> grants OCF_WRITE (lock_ex []) 3" by (simp_all add: grants_def lock_ex_def access_defs)
  have G: "got OCF_WRITE (lock_ex []) {(0, 5), (1, 3)} = {(0, 5)}" "refused OCF_WRITE (lock_ex []) {(0, 5), (1, 3)} = {(1, 3)}"
    using g by (auto simp: got_def refused_def)
  have r: "req_no ex_req = 2" "ex_req\<lparr>alock_rw := OCF_WRITE\<rparr> = ex_req" "lock_remaining (lock_ex []) 2 = 0" "waiters_of (lock_ex []) 3 = []"
    by (simp_all add: ex_req_def lock_ex_def waiters_of_def)
  obtain a' where a': "ocf_req_async_lock_wr (\<lambda>_. True) (lock_ex []) ex_req = Some (a', ex_req, OCF_LOCK_NOT_ACQUIRED)"
    "asked OCF_WRITE 2 {(0, 5), (1, 3)} (lock_ex []) a'" "lock_remaining a' 2 = 1"
    using async_lock_grants_or_waits [OF ok ex_req_lines(1), of OCF_WRITE] r G(2) by (auto simp: P)
  then show ?thesis using G r(4) by (auto simp: asked_def locked_word_def)
qed

text \<open>The error path of the slow way does not undo what it did.  When no waiter can be allocated for line 3, the
  request fails with \<open>-OCF_ERR_NO_MEM\<close>, and line 5, which was free before, stays write locked: the calls of
  \<open>ocf_alock_waitlist_remove_entry\<close> have the index and the entry in the wrong order.\<close>

lemma lock_slow_error_leaks:
  "acc (lock_ex []) 5 = OCF_CACHE_LINE_ACCESS_IDLE \<and>
   (case ocf_req_async_lock_wr (\<lambda>_. False) (lock_ex []) ex_req of
      Some (a', req', res) \<Rightarrow> res = - OCF_ERR_NO_MEM \<and> acc a' 5 = OCF_CACHE_LINE_ACCESS_WR
    | None \<Rightarrow> False)"
  by code_simp

end
