(* ===== verification/Lru_Iter.thy ===== *)
theory Lru_Iter
  imports Engine_Lookup Req_Lock
begin

text \<open>
  The iterator over the LRU lists of a partition (\<open>ocf_lru.c\<close>, \<open>metadata/metadata_partition_structs.h\<close>): it visits the lists of a
  partition round robin and takes from each the least recently used line that it can lock.

  The state is the metadata of the cache, the locks of the cache lines and the locks of the hash buckets, in which the request runs as
  thread \<open>t\<close>.  A call is one atomic step: what the other threads hold is in the state and does not change during the call.
\<close>

subsection \<open>State\<close>

text \<open>\<open>hash_locked\<close>: whether the callback is set (to \<open>ocf_req_hash_in_range\<close>).\<close>

record ocf_lru_iter =
  curr_cline :: "u32 \<Rightarrow> u32"
  it_part :: u16
  next_avail_lru :: u64
  num_avail_lrus :: u32
  lru_idx :: u32
  hash_locked :: bool
  it_clean :: bool

definition lru_iter_init :: "('s :: len) ocf_cache \<Rightarrow> u16 \<Rightarrow> u32 \<Rightarrow> bool \<Rightarrow> bool \<Rightarrow> ocf_lru_iter" where
  "lru_iter_init cache part start_lru clean hl =
     \<lparr>curr_cline = (\<lambda>i. tail (lru cache (ocf_lru_get_list part i clean))), it_part = part,
      next_avail_lru = push_bit (unat OCF_NUM_LRU_LISTS) 1 - 1, num_avail_lrus = OCF_NUM_LRU_LISTS,
      lru_idx = (start_lru + OCF_NUM_LRU_LISTS - 1) mod OCF_NUM_LRU_LISTS, hash_locked = hl, it_clean = clean\<rparr>"

definition lru_iter_cleaning_init :: "('s :: len) ocf_cache \<Rightarrow> u16 \<Rightarrow> u32 \<Rightarrow> ocf_lru_iter" where
  "lru_iter_cleaning_init cache part start_lru = lru_iter_init cache part start_lru False False"

definition lru_iter_eviction_init :: "('s :: len) ocf_cache \<Rightarrow> u16 \<Rightarrow> u32 \<Rightarrow> ocf_lru_iter" where
  "lru_iter_eviction_init cache part start_lru = lru_iter_init cache part start_lru True True"

subsection \<open>Choosing the next list\<close>

text \<open>One plus the position of the least significant bit, or 0.\<close>

definition ffsll :: "u64 \<Rightarrow> u32" where
  "ffsll x = (case find (bit x) [0..<64] of None \<Rightarrow> 0 | Some i \<Rightarrow> of_nat i + 1)"

definition ocf_rotate_right :: "u64 \<Rightarrow> u32 \<Rightarrow> u32 \<Rightarrow> u64" where
  "ocf_rotate_right bits shift width =
     (drop_bit (unat shift) bits OR push_bit (unat (width - shift)) bits) AND (push_bit (unat width) 1 - 1)"

definition lru_next_lru :: "ocf_lru_iter \<Rightarrow> ocf_lru_iter" where
  "lru_next_lru iter = (
     let increment = ffsll (next_avail_lru iter)
     in iter\<lparr>next_avail_lru := ocf_rotate_right (next_avail_lru iter) increment OCF_NUM_LRU_LISTS,
             lru_idx := (lru_idx iter + increment) mod OCF_NUM_LRU_LISTS\<rparr>)"

definition lru_lru_is_empty :: "ocf_lru_iter \<Rightarrow> bool" where
  "lru_lru_is_empty iter \<longleftrightarrow> next_avail_lru iter AND push_bit (unat (OCF_NUM_LRU_LISTS - 1)) 1 = 0"

definition lru_lru_set_empty :: "ocf_lru_iter \<Rightarrow> ocf_lru_iter" where
  "lru_lru_set_empty iter = iter\<lparr>next_avail_lru := next_avail_lru iter AND NOT (push_bit (unat (OCF_NUM_LRU_LISTS - 1)) 1),
     num_avail_lrus := num_avail_lrus iter - 1\<rparr>"

definition lru_lru_all_empty :: "ocf_lru_iter \<Rightarrow> bool" where
  "lru_lru_all_empty iter \<longleftrightarrow> num_avail_lrus iter = 0"

subsection \<open>Locking a line\<close>

type_synonym line_locks = "ocf_alock \<times> lock_threads"

definition lru_trylock_hash ::
    "('s :: len) ocf_cache \<Rightarrow> ocf_request \<Rightarrow> nat \<Rightarrow> ocf_lru_iter \<Rightarrow> lock_threads \<Rightarrow> u16 \<Rightarrow> u64 \<Rightarrow> (lock_threads \<times> bool) option" where
  "lru_trylock_hash cache req t iter s cid cl = do {
     own \<leftarrow> (if hash_locked iter then ocf_req_hash_in_range cache req cid cl else Some False);
     if own then Some (s, True) else ocf_hb_cline_naked_trylock cache s t OCF_WRITE cid cl
   }"

definition lru_unlock_hash ::
    "('s :: len) ocf_cache \<Rightarrow> ocf_request \<Rightarrow> nat \<Rightarrow> ocf_lru_iter \<Rightarrow> lock_threads \<Rightarrow> u16 \<Rightarrow> u64 \<Rightarrow> lock_threads option" where
  "lru_unlock_hash cache req t iter s cid cl = do {
     own \<leftarrow> (if hash_locked iter then ocf_req_hash_in_range cache req cid cl else Some False);
     if own then Some s
     else do {
       ENV_BUG_ON (ocf_metadata_hash_func cache cl cid \<ge> hash_table_entries cache);
       Some (up_lock s t OCF_WRITE (Hash (ocf_metadata_hash_func cache cl cid)))
     }
   }"

definition lru_iter_evition_lock ::
    "('s :: len) ocf_cache \<Rightarrow> ocf_request \<Rightarrow> nat \<Rightarrow> ocf_lru_iter \<Rightarrow> line_locks \<Rightarrow> u32 \<Rightarrow> (line_locks \<times> bool) option" where
  "lru_iter_evition_lock cache req t iter = (\<lambda>(a, s) cline. do {
     (a, ok) \<leftarrow> ocf_cache_line_try_lock_wr a cline;
     if \<not> ok then Some ((a, s), False)
     else do {
       (cid, cl) \<leftarrow> ocf_metadata_get_core_info cache cline;
       if cid = req_core req \<and> cl \<ge> core_line_first req \<and> cl \<le> core_line_last req then do {
         a \<leftarrow> ocf_cache_line_unlock_wr a cline;
         Some ((a, s), False)
       } else do {
         (s, ok) \<leftarrow> lru_trylock_hash cache req t iter s cid cl;
         if \<not> ok then do {
           a \<leftarrow> ocf_cache_line_unlock_wr a cline;
           Some ((a, s), False)
         } else do {
           w \<leftarrow> ocf_cache_line_are_waiters a cline;
           if w then do {
             s \<leftarrow> lru_unlock_hash cache req t iter s cid cl;
             a \<leftarrow> ocf_cache_line_unlock_wr a cline;
             Some ((a, s), False)
           } else Some ((a, s), True)
         }
       }
     }
   })"

text \<open>The inner loops: from a line towards the head of its list, until one is locked.\<close>

partial_function (option) lru_walk ::
    "('st \<Rightarrow> u32 \<Rightarrow> ('st \<times> bool) option) \<Rightarrow> ('s :: len) ocf_cache \<Rightarrow> 'st \<Rightarrow> u32 \<Rightarrow> ('st \<times> u32) option" where
  "lru_walk lock cache st cline =
     (if cline = end_marker then Some (st, end_marker)
      else lock st cline \<bind> (\<lambda>(st, ok). if ok then Some (st, cline)
        else ocf_metadata_get_lru cache cline \<bind> (\<lambda>node. lru_walk lock cache st (lru_prev node))))"

text \<open>The outer loops: the next list, until a line is found or no list is left.\<close>

partial_function (option) lru_rounds ::
    "(ocf_lru_iter \<Rightarrow> 'st \<Rightarrow> (ocf_lru_iter \<times> 'st \<times> u32) option) \<Rightarrow> ocf_lru_iter \<Rightarrow> 'st \<Rightarrow> (ocf_lru_iter \<times> 'st \<times> u32) option" where
  "lru_rounds visit iter st = visit (lru_next_lru iter) st \<bind> (\<lambda>(iter, st, cline).
     let iter = (if cline = end_marker \<and> \<not> lru_lru_is_empty iter then lru_lru_set_empty iter else iter)
     in if cline = end_marker \<and> \<not> lru_lru_all_empty iter then lru_rounds visit iter st else Some (iter, st, cline))"

subsection \<open>The three iterations\<close>

definition eviction_visit ::
    "ocf_request \<Rightarrow> nat \<Rightarrow> u16 \<Rightarrow> ocf_lru_iter \<Rightarrow> ('s :: len) ocf_cache \<times> line_locks \<Rightarrow> (ocf_lru_iter \<times> ('s ocf_cache \<times> line_locks) \<times> u32) option" where
  "eviction_visit req t dst_part iter = (\<lambda>(cache, st). do {
     let part = it_part iter;
     let r = ocf_lru_get_list part (lru_idx iter) (it_clean iter);
     (st, cline) \<leftarrow> lru_walk (lru_iter_evition_lock cache req t iter) cache st (tail (lru cache r));
     cache \<leftarrow> (if cline \<noteq> end_marker then
                 (if dst_part \<noteq> part then ocf_lru_repart_locked cache cline part dst_part
                  else on_list ocf_lru_set_hot cache r cline)
               else Some cache);
     Some (iter, (cache, st), cline)
   })"

text \<open>The identity of the core line is read from the metadata when the line has been locked.\<close>

definition lru_iter_eviction_next ::
    "ocf_request \<Rightarrow> nat \<Rightarrow> u16 \<Rightarrow> ocf_lru_iter \<Rightarrow> ('s :: len) ocf_cache \<times> line_locks \<Rightarrow> (ocf_lru_iter \<times> ('s ocf_cache \<times> line_locks) \<times> u32) option" where
  "lru_iter_eviction_next req t dst_part iter st = lru_rounds (eviction_visit req t dst_part) iter st"

definition free_visit ::
    "u16 \<Rightarrow> ocf_lru_iter \<Rightarrow> ('s :: len) ocf_cache \<times> line_locks \<Rightarrow> (ocf_lru_iter \<times> ('s ocf_cache \<times> line_locks) \<times> u32) option" where
  "free_visit dst_part iter = (\<lambda>(cache, a, s). do {
     let free = it_part iter;
     let r = ocf_lru_get_list free (lru_idx iter) True;
     (a, cline) \<leftarrow> lru_walk ocf_cache_line_try_lock_wr cache a (tail (lru cache r));
     cache \<leftarrow> (if cline \<noteq> end_marker then ocf_lru_repart_locked cache cline free dst_part else Some cache);
     Some (iter, (cache, a, s), cline)
   })"

definition lru_iter_free_next ::
    "u16 \<Rightarrow> ocf_lru_iter \<Rightarrow> ('s :: len) ocf_cache \<times> line_locks \<Rightarrow> (ocf_lru_iter \<times> ('s ocf_cache \<times> line_locks) \<times> u32) option" where
  "lru_iter_free_next dst_part iter st = do {
     ENV_BUG_ON (dst_part = it_part iter);
     lru_rounds (free_visit dst_part) iter st
   }"

definition cleaning_visit :: "('s :: len) ocf_cache \<Rightarrow> ocf_lru_iter \<Rightarrow> ocf_alock \<Rightarrow> (ocf_lru_iter \<times> ocf_alock \<times> u32) option" where
  "cleaning_visit cache iter a = do {
     (a, cline) \<leftarrow> lru_walk ocf_cache_line_try_lock_rd cache a (curr_cline iter (lru_idx iter));
     iter \<leftarrow> (if cline \<noteq> end_marker then do {
                node \<leftarrow> ocf_metadata_get_lru cache cline;
                Some (iter\<lparr>curr_cline := (curr_cline iter)(lru_idx iter := lru_prev node)\<rparr>)
              } else Some iter);
     Some (iter, a, cline)
   }"

definition lru_iter_cleaning_next :: "('s :: len) ocf_cache \<Rightarrow> ocf_lru_iter \<Rightarrow> ocf_alock \<Rightarrow> (ocf_lru_iter \<times> ocf_alock \<times> u32) option" where
  "lru_iter_cleaning_next cache iter a = lru_rounds (cleaning_visit cache) iter a"

definition OCF_EVICTION_CLEAN_SIZE :: nat where "OCF_EVICTION_CLEAN_SIZE = 32"

text \<open>The lines that \<open>ocf_lru_clean\<close> chooses; the rest of its array is filled with the end marker.\<close>

fun clean_loop :: "('s :: len) ocf_cache \<Rightarrow> nat \<Rightarrow> ocf_lru_iter \<Rightarrow> ocf_alock \<Rightarrow> (ocf_alock \<times> u32 list) option" where
  "clean_loop cache 0 iter a = Some (a, [])"
| "clean_loop cache (Suc n) iter a = do {
     (iter, a, cline) \<leftarrow> lru_iter_cleaning_next cache iter a;
     if cline = end_marker then Some (a, replicate (Suc n) end_marker)
     else do {
       (a, clines) \<leftarrow> clean_loop cache n iter a;
       Some (a, cline # clines)
     }
   }"

definition ocf_lru_clean_lines :: "('s :: len) ocf_cache \<Rightarrow> u16 \<Rightarrow> u32 \<Rightarrow> ocf_alock \<Rightarrow> (ocf_alock \<times> u32 list) option" where
  "ocf_lru_clean_lines cache part queue_idx a =
     clean_loop cache OCF_EVICTION_CLEAN_SIZE (lru_iter_cleaning_init cache part (queue_idx mod OCF_NUM_LRU_LISTS)) a"

definition ocf_lru_clean_get :: "u32 list \<Rightarrow> nat \<Rightarrow> u32 option" where
  "ocf_lru_clean_get cline idx = (if cline ! idx = end_marker then None else Some (cline ! idx))"

fun ocf_lru_clean_end :: "ocf_alock \<Rightarrow> u32 list \<Rightarrow> ocf_alock option" where
  "ocf_lru_clean_end a [] = Some a"
| "ocf_lru_clean_end a (c # cs) = do {
     a \<leftarrow> (if c \<noteq> end_marker then ocf_cache_line_unlock_rd a c else Some a);
     ocf_lru_clean_end a cs
   }"

subsection \<open>Every list is visited\<close>

text \<open>The lists that are still to be visited: bit \<open>j\<close> stands for the list \<open>j + 1\<close> places behind the current one.\<close>

definition avail :: "ocf_lru_iter \<Rightarrow> nat set" where
  "avail iter = {l. l < 32 \<and> bit (next_avail_lru iter) ((l + 31 - unat (lru_idx iter)) mod 32)}"

definition iter_ok :: "ocf_lru_iter \<Rightarrow> bool" where
  "iter_ok iter \<longleftrightarrow> lru_idx iter < 32 \<and> (\<forall>j\<ge>32. \<not> bit (next_avail_lru iter) j) \<and> unat (num_avail_lrus iter) = card (avail iter)"

lemma avail_finite [simp]: "finite (avail iter)"
  by (simp add: avail_def)

lemma bit_lists_mask: "bit (2 ^ unat OCF_NUM_LRU_LISTS - 1 :: u64) j \<longleftrightarrow> j < 32"
proof -
  have "(2 ^ unat OCF_NUM_LRU_LISTS - 1 :: u64) = mask 32" by (simp add: OCF_NUM_LRU_LISTS_def mask_eq_exp_minus_1)
  then show ?thesis by (simp only: bit_mask_iff) auto
qed

lemma bit_last_list: "bit (2 ^ unat (OCF_NUM_LRU_LISTS - 1) :: u64) j \<longleftrightarrow> j = 31"
proof -
  have "unat (OCF_NUM_LRU_LISTS - 1) = 31" by (simp add: OCF_NUM_LRU_LISTS_def)
  then show ?thesis by (simp only: bit_exp_iff) auto
qed

lemma is_empty_bit: "lru_lru_is_empty iter \<longleftrightarrow> \<not> bit (next_avail_lru iter) 31"
proof -
  have "lru_lru_is_empty iter \<longleftrightarrow> (\<forall>n<64. bit (next_avail_lru iter) n \<longrightarrow> n \<noteq> 31)"
    unfolding lru_lru_is_empty_def bit_eq_iff [of "next_avail_lru iter AND m" 0 for m] by (auto simp: bit_and_iff bit_last_list)
  then show ?thesis by (metis numeral_less_iff semiring_norm(76,78,79,80,81))
qed

lemma iter_init_ok:
  "iter_ok (lru_iter_init cache part start clean hl)" "avail (lru_iter_init cache part start clean hl) = {..<32}"
proof -
  show a: "avail (lru_iter_init cache part start clean hl) = {..<32}"
    by (auto simp: avail_def lru_iter_init_def bit_lists_mask)
  have "lru_idx (lru_iter_init cache part start clean hl) < 32"
    by (simp add: lru_iter_init_def OCF_NUM_LRU_LISTS_def word_less_nat_alt unat_mod)
  moreover have "unat (num_avail_lrus (lru_iter_init cache part start clean hl)) = 32"
    by (simp add: lru_iter_init_def OCF_NUM_LRU_LISTS_def)
  moreover have "\<forall>j\<ge>32. \<not> bit (next_avail_lru (lru_iter_init cache part start clean hl)) j"
    by (simp add: lru_iter_init_def bit_lists_mask)
  ultimately show "iter_ok (lru_iter_init cache part start clean hl)" unfolding iter_ok_def a by simp
qed

lemma ffsll_Some:
  assumes "bit x j" "j < 64"
  shows "\<exists>i<64. ffsll x = of_nat (Suc i) \<and> bit x i \<and> (\<forall>k<i. \<not> bit x k)"
proof -
  obtain i where f: "find (bit x) [0..<64] = Some i" using assms by (cases "find (bit x) [0..<64]") (auto simp: find_None_iff)
  then obtain k where "k < 64" "bit x k" "i = k" "\<forall>j<k. \<not> bit x j" by (auto simp: find_Some_iff)
  then show ?thesis using f by (intro exI [of _ i]) (simp add: ffsll_def add.commute)
qed

lemma bit_rotate:
  assumes "unat s \<le> 32" "\<forall>j\<ge>32. \<not> bit x j"
  shows "bit (ocf_rotate_right x s OCF_NUM_LRU_LISTS) j \<longleftrightarrow> j < 32 \<and> bit x ((j + unat s) mod 32)"
proof -
  have "unat (OCF_NUM_LRU_LISTS - s) = 32 - unat s" using assms(1) by (simp add: unat_sub_nowrap OCF_NUM_LRU_LISTS_def)
  then have r: "bit (ocf_rotate_right x s OCF_NUM_LRU_LISTS) j \<longleftrightarrow>
      j < 32 \<and> (bit x (unat s + j) \<or> 32 - unat s \<le> j \<and> bit x (j - (32 - unat s)))"
    unfolding ocf_rotate_right_def by (simp add: bit_and_iff bit_or_iff bit_drop_bit_eq bit_push_bit_iff bit_lists_mask) linarith
  show ?thesis
  proof (cases "j + unat s < 32")
    case True
    then show ?thesis using r by (auto simp: add.commute)
  next
    case False
    then have "(j + unat s) mod 32 = j - (32 - unat s)" if "j < 32" using that assms(1) by (auto simp: mod_if)
    moreover have "\<not> bit x (unat s + j)" using assms(2) False by (simp add: add.commute)
    ultimately show ?thesis using r False by auto
  qed
qed

lemma rotate_position:
  fixes l i s :: nat
  assumes "l < 32" "i < 32" "s \<le> 32"
  shows "((l + 31 - (i + s) mod 32) mod 32 + s) mod 32 = (l + 31 - i) mod 32"
proof (cases "i + s < 32")
  case True
  then have "(i + s) mod 32 = i + s" "l + 31 - (i + s) + s = l + 31 - i" using assms by auto
  then show ?thesis by (simp only: mod_add_left_eq)
next
  case False
  then have "(i + s) mod 32 = i + s - 32" using assms by (simp add: mod_if)
  moreover have "l + 31 - (i + s - 32) + s = (l + 31 - i) + 32" using assms False by auto
  ultimately show ?thesis by (simp only: mod_add_left_eq mod_add_self2)
qed

lemma back_position:
  fixes i k :: nat
  assumes "i < 32" "k < 32"
  shows "((i + Suc k) mod 32 + 31 - i) mod 32 = k"
proof (cases "i + Suc k < 32")
  case True
  then have "(i + Suc k) mod 32 + 31 - i = k + 32" by simp
  then show ?thesis using assms(2) by simp
next
  case False
  then have "(i + Suc k) mod 32 = i + Suc k - 32" using assms by (simp add: mod_if)
  then have "(i + Suc k) mod 32 + 31 - i = k" using False by simp
  then show ?thesis using assms(2) by simp
qed

lemma next_lru_ok:
  assumes ok: "iter_ok iter" and ne: "avail iter \<noteq> {}"
  shows "iter_ok (lru_next_lru iter) \<and> avail (lru_next_lru iter) = avail iter \<and>
    unat (lru_idx (lru_next_lru iter)) \<in> avail iter \<and> \<not> lru_lru_is_empty (lru_next_lru iter)"
proof -
  let ?x = "next_avail_lru iter" and ?i = "unat (lru_idx iter)"
  have i: "?i < 32" and hi: "\<forall>j\<ge>32. \<not> bit ?x j" using ok by (auto simp: iter_ok_def word_less_nat_alt)
  obtain l where l: "l < 32" "bit ?x ((l + 31 - ?i) mod 32)" using ne by (auto simp: avail_def)
  have "(l + 31 - ?i) mod 32 < 64" by (rule order.strict_trans [of _ 32]) simp_all
  from ffsll_Some [OF l(2) this] obtain k where k: "ffsll ?x = of_nat (Suc k)" "bit ?x k" by blast
  have k32: "k < 32" using k(2) hi by (meson not_le)
  have s: "unat (ffsll ?x) = Suc k" using k32 unfolding k(1) by (simp add: unat_of_nat take_bit_nat_eq_self del: of_nat_Suc)
  define it where "it = lru_next_lru iter"
  have idx: "unat (lru_idx it) = (?i + Suc k) mod 32"
  proof -
    have "unat (lru_idx iter + ffsll ?x) = ?i + Suc k" using i k32 s by (subst unat_add_nowrap) auto
    then show ?thesis by (simp add: it_def lru_next_lru_def Let_def OCF_NUM_LRU_LISTS_def unat_mod)
  qed
  have b: "bit (next_avail_lru it) j \<longleftrightarrow> j < 32 \<and> bit ?x ((j + Suc k) mod 32)" for j
    using bit_rotate [of "ffsll ?x" ?x j] s k32 hi by (simp add: it_def lru_next_lru_def Let_def)
  have av: "avail it = avail iter"
    using rotate_position [OF _ i, of _ "Suc k"] k32 by (auto simp: avail_def idx b)
  have "(((?i + Suc k) mod 32 + 31 - ?i) mod 32) = k" by (rule back_position [OF i k32])
  then have cur: "unat (lru_idx it) \<in> avail iter" using k(2) by (simp add: avail_def idx)
  have "(31 + Suc k) mod 32 = k" using k32 by simp
  then have "bit (next_avail_lru it) 31" using b [of 31] k(2) by simp
  then have "\<not> lru_lru_is_empty it" by (simp add: is_empty_bit)
  moreover have "iter_ok it"
    using ok av idx b by (auto simp: iter_ok_def word_less_nat_alt it_def lru_next_lru_def Let_def)
  ultimately show ?thesis using av cur unfolding it_def by blast
qed

lemma set_empty_ok:
  assumes ok: "iter_ok iter" and ne: "\<not> lru_lru_is_empty iter"
  shows "iter_ok (lru_lru_set_empty iter)" "avail (lru_lru_set_empty iter) = avail iter - {unat (lru_idx iter)}"
    "unat (lru_idx iter) \<in> avail iter" "lru_idx (lru_lru_set_empty iter) = lru_idx iter"
proof -
  let ?x = "next_avail_lru iter" and ?i = "unat (lru_idx iter)"
  have i: "?i < 32" using ok by (auto simp: iter_ok_def word_less_nat_alt)
  have b31: "bit ?x 31" using ne by (simp add: is_empty_bit)
  have b: "bit (next_avail_lru (lru_lru_set_empty iter)) j \<longleftrightarrow> bit ?x j \<and> j \<noteq> 31" for j
    using bit_imp_le_length [of ?x j] unfolding lru_lru_set_empty_def by (auto simp: bit_and_iff bit_not_iff bit_last_list)
  have p: "(l + 31 - ?i) mod 32 = 31 \<longleftrightarrow> l = ?i" if "l < 32" for l
    using i that by (cases "?i \<le> l") (auto simp: mod_if)
  show av: "avail (lru_lru_set_empty iter) = avail iter - {?i}"
    using p by (auto simp: avail_def b) (simp_all add: lru_lru_set_empty_def)
  show cur: "?i \<in> avail iter" using b31 i p [of ?i] by (simp add: avail_def)
  have "0 < unat (num_avail_lrus iter)" using ok cur by (auto simp: iter_ok_def card_gt_0_iff)
  then have "unat (num_avail_lrus iter - 1) = unat (num_avail_lrus iter) - 1" by (intro unat_minus_one) auto
  then have "unat (num_avail_lrus (lru_lru_set_empty iter)) = card (avail iter) - 1"
    using ok by (simp add: lru_lru_set_empty_def iter_ok_def)
  then show "iter_ok (lru_lru_set_empty iter)"
    using ok cur b unfolding iter_ok_def av by (auto simp: lru_lru_set_empty_def)
qed (simp add: lru_lru_set_empty_def)

lemma all_empty_avail: "iter_ok iter \<Longrightarrow> lru_lru_all_empty iter \<longleftrightarrow> avail iter = {}"
  by (auto simp: iter_ok_def lru_lru_all_empty_def unat_eq_0 [symmetric])

subsection \<open>The loops end\<close>

text \<open>The walk finds the last line of the list, or of the part before the starting point, that can be locked.\<close>

definition walked :: "(u32 \<Rightarrow> bool) \<Rightarrow> (u32 \<Rightarrow> 'st) \<Rightarrow> 'st \<Rightarrow> u32 list \<Rightarrow> 'st \<times> u32" where
  "walked E T st ys = (case find E (rev ys) of None \<Rightarrow> (st, end_marker) | Some x \<Rightarrow> (T x, x))"

lemma lru_walk_find:
  assumes rep: "lru_rep c l xs k"
    and lock: "\<And>x. x \<in> set xs \<Longrightarrow> lock st x = Some (if E x then (T x, True) else (st, False))"
  shows "xs = ys @ zs \<Longrightarrow> lru_walk lock c st (dl_last ys end_marker) = Some (walked E T st ys)"
proof (induction ys arbitrary: zs rule: rev_induct)
  case Nil
  then show ?case by (simp add: lru_walk.simps walked_def)
next
  case (snoc y ys)
  have ys: "y \<in> set xs" using snoc.prems by simp
  then have "y < collision_table_entries c" using rep by (simp add: lru_rep_def)
  note y = ys this less_neq_end_marker [OF this]
  have "dll (\<lambda>i. lru_next (seg_lru c i)) (\<lambda>i. lru_prev (seg_lru c i)) end_marker (ys @ y # zs) end_marker"
    using rep snoc.prems by (simp add: lru_rep_def)
  then have prev: "lru_prev (seg_lru c y) = dl_last ys end_marker" by (rule dll_middle(2))
  have "lru_walk lock c st y = (if E y then Some (T y, y) else lru_walk lock c st (dl_last ys end_marker))"
    using lock [OF y(1)] y(2,3) prev by (subst lru_walk.simps) simp
  then show ?case using snoc.IH [of "y # zs"] snoc.prems by (simp add: walked_def)
qed

definition same_place :: "ocf_lru_iter \<Rightarrow> ocf_lru_iter \<Rightarrow> bool" where
  "same_place iter iter' \<longleftrightarrow> lru_idx iter' = lru_idx iter \<and> next_avail_lru iter' = next_avail_lru iter \<and>
     num_avail_lrus iter' = num_avail_lrus iter"

lemma same_place_ok: "same_place iter iter' \<Longrightarrow> iter_ok iter' = iter_ok iter \<and> avail iter' = avail iter \<and>
    lru_lru_is_empty iter' = lru_lru_is_empty iter"
  by (simp add: same_place_def iter_ok_def avail_def lru_lru_is_empty_def)

lemma same_place_refl [simp]: "same_place iter iter"
  by (simp add: same_place_def)

text \<open>\<open>P A\<close> holds while the lists \<open>A\<close> are left.\<close>

lemma lru_rounds_ok:
  assumes visit: "\<And>A iter st. iter_ok iter \<Longrightarrow> unat (lru_idx iter) \<in> A \<Longrightarrow> P A iter st \<Longrightarrow>
      \<exists>iter' st' x. visit iter st = Some (iter', st', x) \<and> same_place iter iter' \<and>
        (if x = end_marker then P (A - {unat (lru_idx iter)}) iter' st' else Q A iter' st' x)"
    and pos: "\<And>A iter st n m i. P A (iter\<lparr>next_avail_lru := n, num_avail_lrus := m, lru_idx := i\<rparr>) st = P A iter st"
  shows "iter_ok iter \<Longrightarrow> avail iter \<noteq> {} \<Longrightarrow> P (avail iter) iter st \<Longrightarrow>
    \<exists>iter' st' x. lru_rounds visit iter st = Some (iter', st', x) \<and> iter_ok iter' \<and> avail iter' \<subseteq> avail iter \<and>
      (if x = end_marker then P {} iter' st' else avail iter' \<noteq> {} \<and> Q (avail iter') iter' st' x)"
proof (induction "card (avail iter)" arbitrary: iter st rule: less_induct)
  case less
  define it where "it = lru_next_lru iter"
  have n: "iter_ok it" "avail it = avail iter" "unat (lru_idx it) \<in> avail iter" "\<not> lru_lru_is_empty it"
    using next_lru_ok [OF less.prems(1,2)] by (auto simp: it_def)
  have "it = iter\<lparr>next_avail_lru := next_avail_lru it, num_avail_lrus := num_avail_lrus iter, lru_idx := lru_idx it\<rparr>"
    by (simp add: it_def lru_next_lru_def Let_def)
  then have "P (avail iter) it st" using pos less.prems(3) by metis
  then obtain it1 st1 x where v: "visit it st = Some (it1, st1, x)" "same_place it it1"
    "if x = end_marker then P (avail iter - {unat (lru_idx it)}) it1 st1 else Q (avail iter) it1 st1 x"
    using visit [OF n(1), of "avail iter"] n(2,3) by blast
  have i1: "iter_ok it1" "avail it1 = avail iter" "\<not> lru_lru_is_empty it1" "lru_idx it1 = lru_idx it"
    using same_place_ok [OF v(2)] n v(2) by (auto simp: same_place_def)
  show ?case
  proof (cases "x = end_marker")
    case False
    then have "lru_rounds visit iter st = Some (it1, st1, x)"
      using v(1) unfolding it_def by (subst lru_rounds.simps) simp
    then show ?thesis using i1 v(3) False less.prems(2) by auto
  next
    case True
    define it2 where "it2 = lru_lru_set_empty it1"
    note e = set_empty_ok [OF i1(1,3), folded it2_def]
    have "it2 = it1\<lparr>next_avail_lru := next_avail_lru it2, num_avail_lrus := num_avail_lrus it2, lru_idx := lru_idx it1\<rparr>"
      by (simp add: it2_def lru_lru_set_empty_def)
    moreover have "P (avail it2) it1 st1" using v(3) True e(2) i1 by simp
    ultimately have p2: "P (avail it2) it2 st1" using pos by metis
    have r: "lru_rounds visit iter st = (if avail it2 = {} then Some (it2, st1, end_marker) else lru_rounds visit it2 st1)"
      using v(1) True i1(3) all_empty_avail [OF e(1)] unfolding it_def it2_def by (subst lru_rounds.simps) simp
    have sub: "avail it2 \<subset> avail iter" using e(2,3) i1(2) by blast
    show ?thesis
    proof (cases "avail it2 = {}")
      case True
      then show ?thesis using r p2 e(1) sub by auto
    next
      case False
      have "card (avail it2) < card (avail iter)" using sub by (intro psubset_card_mono) auto
      from less.hyps [OF this e(1) False p2] obtain iter' st' x where
        "lru_rounds visit it2 st1 = Some (iter', st', x)" "iter_ok iter'" "avail iter' \<subseteq> avail it2"
        "if x = end_marker then P {} iter' st' else avail iter' \<noteq> {} \<and> Q (avail iter') iter' st' x" by blast
      then show ?thesis using r False sub by (intro exI [of _ iter'] exI [of _ st'] exI [of _ x]) auto
    qed
  qed
qed

text \<open>When a visit changes nothing unless it finds a line: \<open>R l\<close> if list \<open>l\<close> has no line to take, \<open>D l\<close> if one was taken from it.\<close>

lemma lru_rounds_first:
  assumes visit: "\<And>i. iter_ok i \<Longrightarrow> F i \<Longrightarrow> \<exists>st' x. visit i st = Some (i, st', x) \<and>
      (if x = end_marker then st' = st \<and> R (unat (lru_idx i)) else D (unat (lru_idx i)) st' x)"
    and F: "\<And>i n m j. F (i\<lparr>next_avail_lru := n, num_avail_lrus := m, lru_idx := j\<rparr>) = F i"
    and it: "iter_ok iter" "avail iter \<noteq> {}" "F iter"
  shows "\<exists>iter' st' x. lru_rounds visit iter st = Some (iter', st', x) \<and> iter_ok iter' \<and> F iter' \<and> avail iter' \<subseteq> avail iter \<and>
    (if x = end_marker then st' = st \<and> (\<forall>l\<in>avail iter. R l)
     else avail iter' \<noteq> {} \<and> (\<forall>l\<in>avail iter - avail iter'. R l) \<and> (\<exists>l\<in>avail iter. D l st' x))"
proof -
  define P where "P A i st' \<longleftrightarrow> st' = st \<and> F i \<and> A \<subseteq> avail iter \<and> (\<forall>l\<in>avail iter - A. R l)" for A and i :: ocf_lru_iter and st'
  define Q where "Q A i st' x \<longleftrightarrow> F i \<and> (\<forall>l\<in>avail iter - A. R l) \<and> (\<exists>l\<in>avail iter. D l st' x)" for A and i :: ocf_lru_iter and st' x
  have v: "\<exists>i' st'' x. visit i st' = Some (i', st'', x) \<and> same_place i i' \<and> (if x = end_marker then P (A - {unat (lru_idx i)}) i' st'' else Q A i' st'' x)"
    if i: "iter_ok i" and m: "unat (lru_idx i) \<in> A" and P: "P A i st'" for A i st'
  proof -
    have q: "st' = st" "F i" "unat (lru_idx i) \<in> avail iter" using P m by (auto simp: P_def)
    obtain st'' x where v: "visit i st' = Some (i, st'', x)" "if x = end_marker then st'' = st \<and> R (unat (lru_idx i)) else D (unat (lru_idx i)) st'' x"
      using visit [OF i q(2)] unfolding q(1) by blast
    have "if x = end_marker then P (A - {unat (lru_idx i)}) i st'' else Q A i st'' x"
      using v(2) P q by (cases "x = end_marker") (auto simp: P_def Q_def)
    then show ?thesis using v(1) same_place_refl by blast
  qed
  have "\<exists>iter' st' x. lru_rounds visit iter st = Some (iter', st', x) \<and> iter_ok iter' \<and> avail iter' \<subseteq> avail iter \<and>
      (if x = end_marker then P {} iter' st' else avail iter' \<noteq> {} \<and> Q (avail iter') iter' st' x)"
    by (rule lru_rounds_ok [where P = P and Q = Q, OF v]) (use it in \<open>auto simp: P_def F\<close>)
  then obtain iter' st' x where v: "lru_rounds visit iter st = Some (iter', st', x)" "iter_ok iter'"
    "avail iter' \<subseteq> avail iter" "if x = end_marker then P {} iter' st' else avail iter' \<noteq> {} \<and> Q (avail iter') iter' st' x" by blast
  show ?thesis using v by (intro exI [of _ iter'] exI [of _ st'] exI [of _ x]) (cases "x = end_marker"; simp add: P_def Q_def)
qed

subsection \<open>Locking a line\<close>

lemma try_lock_wr_eq:
  assumes "x < num_entries a"
  shows "ocf_cache_line_try_lock_wr a x =
    Some (if acc a x = OCF_CACHE_LINE_ACCESS_IDLE then (set_access a x OCF_CACHE_LINE_ACCESS_WR, True) else (a, False))"
  using assms
  by (simp add: ocf_cache_line_try_lock_wr_def ocf_alock_trylock_entry_wr_def access_word_def env_atomic_cmpxchg_def set_access_same)

lemma locked_wr_ok:
  assumes "locks_ok (a, H)" "x < num_entries a" "acc a x = OCF_CACHE_LINE_ACCESS_IDLE"
  shows "locks_ok (set_access a x OCF_CACHE_LINE_ACCESS_WR, H(x := [OCF_WRITE]))" "H x = []" "waiters_of a x = []"
proof -
  note ok = entry_okD [OF assms(1), of x]
  show h: "H x = []" using entry_ok_idle [OF ok(1)] assms(3) by simp
  then show "waiters_of a x = []" using ok(2) by blast
  have "locks_ok (set_access a x OCF_CACHE_LINE_ACCESS_WR, H(x := OCF_WRITE # H x))"
    by (rule try_ok [OF assms(1) _ assms(2,3)]) (simp_all add: same_waiters_def set_access_def Alock.entry_ok_def)
  then show "locks_ok (set_access a x OCF_CACHE_LINE_ACCESS_WR, H(x := [OCF_WRITE]))" using h by simp
qed

text \<open>A lock that was just taken is given back without a trace.\<close>

lemma untake_line:
  assumes "locks_ok (a, H)" "x < num_entries a" "acc a x = OCF_CACHE_LINE_ACCESS_IDLE"
  shows "ocf_cache_line_unlock_wr (set_access a x OCF_CACHE_LINE_ACCESS_WR) x = Some a"
    "ocf_cache_line_are_waiters (set_access a x OCF_CACHE_LINE_ACCESS_WR) x = Some False"
proof -
  let ?a = "set_access a x OCF_CACHE_LINE_ACCESS_WR"
  note l = locked_wr_ok [OF assms]
  have w: "waiters_of ?a x = []" using l(3) by (simp add: waiters_of_def waiters_list_item_def set_access_def)
  have "ocf_alock_unlock_one_wr ?a x = Some (handed ?a x (hand_wr (waiters_of ?a x)))"
    by (rule unlock_wr_returns [OF l(1)]) simp
  also have "\<dots> = Some (set_access ?a x OCF_CACHE_LINE_ACCESS_IDLE)" by (simp add: w handed_none)
  also have "set_access ?a x OCF_CACHE_LINE_ACCESS_IDLE = a" using assms(3) by (simp add: set_access_def fun_upd_idem)
  finally show "ocf_cache_line_unlock_wr ?a x = Some a" by (simp add: ocf_cache_line_unlock_wr_def)
  show "ocf_cache_line_are_waiters ?a x = Some False"
    using w assms(2) by (simp add: ocf_cache_line_are_waiters_def ocf_alock_waitlist_is_empty_def waitlist_is_empty_waiters set_access_def)
qed

text \<open>What the thread of the request holds after it has locked the bucket of an evicted line, and when it can do so.\<close>

definition bucket_locked :: "('s :: len) ocf_cache \<Rightarrow> ocf_request \<Rightarrow> nat \<Rightarrow> lock_threads \<Rightarrow> u32 \<Rightarrow> lock_threads" where
  "bucket_locked c req t s h =
     (if h \<in> req_buckets c req then s else s(t := (s t)\<lparr>held_locks := insert (Hash h, OCF_WRITE) (held_locks (s t))\<rparr>))"

definition bucket_free :: "('s :: len) ocf_cache \<Rightarrow> ocf_request \<Rightarrow> lock_threads \<Rightarrow> u32 \<Rightarrow> bool" where
  "bucket_free c req s h \<longleftrightarrow> h \<in> req_buckets c req \<or> grantable s OCF_WRITE (Hash h)"

lemma trylock_hash_eq:
  assumes N: "0 < hash_table_entries c" and r: "req_hashed c req" and hl: "hash_locked iter"
  shows "lru_trylock_hash c req t iter s cid cl = Some (let h = ocf_metadata_hash_func c cl cid in
    if bucket_free c req s h then (bucket_locked c req t s h, True) else (s, False))"
proof -
  have h: "\<not> ocf_metadata_hash_func c cl cid \<ge> hash_table_entries c" using hash_func_lt [OF N, of cl cid] by simp
  show ?thesis
    using req_in_range [OF N r, of cid cl] hl h
    by (auto simp: lru_trylock_hash_def bucket_locked_def bucket_free_def Let_def ocf_hb_cline_naked_trylock_def
        ocf_hb_id_naked_trylock_def down_trylock_def)
qed

definition in_request :: "ocf_request \<Rightarrow> u16 \<Rightarrow> u64 \<Rightarrow> bool" where
  "in_request req cid cl \<longleftrightarrow> cid = req_core req \<and> cl \<ge> core_line_first req \<and> cl \<le> core_line_last req"

text \<open>The bucket that a cache line is in.\<close>

definition line_bucket :: "('s :: len) ocf_cache \<Rightarrow> u32 \<Rightarrow> u32" where
  "line_bucket c x = ocf_metadata_hash_func c (core_line (seg_collision c x)) (core_id (seg_collision c x))"

definition evictable :: "('s :: len) ocf_cache \<Rightarrow> ocf_request \<Rightarrow> line_locks \<Rightarrow> u32 \<Rightarrow> bool" where
  "evictable c req st x \<longleftrightarrow> acc (fst st) x = OCF_CACHE_LINE_ACCESS_IDLE \<and>
     \<not> in_request req (core_id (seg_collision c x)) (core_line (seg_collision c x)) \<and> bucket_free c req (snd st) (line_bucket c x)"

definition line_taken :: "('s :: len) ocf_cache \<Rightarrow> ocf_request \<Rightarrow> nat \<Rightarrow> line_locks \<Rightarrow> u32 \<Rightarrow> line_locks" where
  "line_taken c req t st x = (set_access (fst st) x OCF_CACHE_LINE_ACCESS_WR, bucket_locked c req t (snd st) (line_bucket c x))"

lemma evict_lock_eq:
  assumes N: "0 < hash_table_entries c" and r: "req_hashed c req" and hl: "hash_locked iter" and l: "locks_ok (a, H)"
    and x: "x < num_entries a" "x < collision_table_entries c"
  shows "lru_iter_evition_lock c req t iter (a, s) x =
    Some (if evictable c req (a, s) x then (line_taken c req t (a, s) x, True) else ((a, s), False))"
proof (cases "acc a x = OCF_CACHE_LINE_ACCESS_IDLE")
  case False
  then show ?thesis using try_lock_wr_eq [OF x(1)] by (simp add: lru_iter_evition_lock_def evictable_def)
next
  case True
  let ?a = "set_access a x OCF_CACHE_LINE_ACCESS_WR"
  note u = untake_line [OF l x(1) True]
  have t: "ocf_cache_line_try_lock_wr a x = Some (?a, True)" using try_lock_wr_eq [OF x(1)] True by simp
  have g: "ocf_metadata_get_core_info c x = Some (core_id (seg_collision c x), core_line (seg_collision c x))"
    using x(2) by (simp add: ocf_metadata_get_core_info_def)
  show ?thesis
    using t g u trylock_hash_eq [OF N r hl] True
    by (simp add: lru_iter_evition_lock_def evictable_def line_taken_def line_bucket_def in_request_def Let_def)
qed

subsection \<open>Taking a line from a list\<close>

lemma walk_list:
  assumes ok: "lists_ok c L" "r \<in> lru_refs"
    and lock: "\<And>x. x \<in> set (L r) \<Longrightarrow> lock st x = Some (if E x then (T x, True) else (st, False))"
  shows "lru_walk lock c st (tail (lru c r)) = Some (walked E T st (L r))"
proof -
  obtain k where rep: "lru_rep c (lru c r) (L r) k" using lists_ok_elem(1) [OF ok] by (auto simp: lru_list_ok_def)
  have "lru_walk lock c st (dl_last (L r) end_marker) = Some (walked E T st (L r))"
    by (rule lru_walk_find [where lock = lock and E = E and T = T and zs = "[]", OF rep]) (auto simp: lock)
  then show ?thesis using rep by (simp add: lru_rep_def)
qed

definition line_moved :: "('s :: len) ocf_cache \<Rightarrow> u32 \<Rightarrow> u16 \<Rightarrow> 's ocf_cache \<Rightarrow> bool" where
  "line_moved c x dst c' \<longleftrightarrow> (\<exists>L. lru_inv c' L) \<and> part_frame c c' \<and> (\<forall>y. part_of c' y = (if y = x then dst else part_of c y))"

lemma list_line:
  assumes inv: "lru_inv c L" and r: "ocf_lru_get_list p l True \<in> lru_refs" and x: "x \<in> set (L (ocf_lru_get_list p l True))"
  shows "home c x = ocf_lru_get_list p l True" "part_of c x = p" "x < collision_table_entries c"
    "p \<noteq> PARTITION_FREELIST \<Longrightarrow> secs Dirty c x = {}"
proof -
  have i: "lists_ok c L" "home_ok c L" using inv by (auto simp: lru_inv_def)
  show h: "home c x = ocf_lru_get_list p l True" using i(2) r x by (auto simp: home_ok_def)
  show "part_of c x = p" using h by (simp add: home_def ocf_lru_get_list_def)
  show "x < collision_table_entries c" by (rule lists_ok_elem(3) [OF i(1) r x])
  show "secs Dirty c x = {}" if "p \<noteq> PARTITION_FREELIST" using h that by (simp add: home_def ocf_lru_get_list_def split: if_splits)
qed

lemma repart_moved:
  assumes "lru_inv c L" "x < collision_table_entries c" "part_of c x = p" "dst \<le> PARTITION_FREELIST"
  shows "\<exists>c'. ocf_lru_repart_locked c x p dst = Some c' \<and> line_moved c x dst c'"
  using ocf_lru_repart_ok [OF assms] unfolding ocf_lru_repart_def line_moved_def by blast

lemma set_hot_moved:
  assumes inv: "lru_inv c L" and x: "x \<in> set (L (home c x))" "x < collision_table_entries c"
  shows "\<exists>c'. on_list ocf_lru_set_hot c (home c x) x = Some c' \<and> line_moved c x (part_of c x) c'"
proof -
  have i: "lists_ok c L" "home_ok c L" using inv by (auto simp: lru_inv_def)
  have r: "home c x \<in> lru_refs" using i(2) x(2) by (auto simp: home_ok_def home_in_refs)
  obtain c' where c': "on_list ocf_lru_set_hot c (home c x) x = Some c'" "lists_ok c' (L(home c x := x # remove1 x (L (home c x))))" "lru_only c c'"
    using on_list_set_hot [OF i(1) r x(1)] by blast
  have "lru_inv c' (L(home c x := x # remove1 x (L (home c x))))"
    using x(1) lists_ok_elem(2) [OF i(1) r] by (intro lru_inv_reorder [OF inv c'(3,2)]) auto
  then show ?thesis using c'(1) lru_only_part_frame [OF c'(3)] lru_only_derived(2) [OF c'(3)] unfolding line_moved_def by auto
qed

text \<open>The facts that an iteration for a request relies on.\<close>

definition evict_ctx :: "('s :: len) ocf_cache \<Rightarrow> (lru_ref \<Rightarrow> u32 list) \<Rightarrow> ocf_request \<Rightarrow> ocf_alock \<Rightarrow> (u32 \<Rightarrow> rw list) \<Rightarrow> bool" where
  "evict_ctx c L req a H \<longleftrightarrow> lru_inv c L \<and> index_ok c \<and> req_hashed c req \<and> locks_ok (a, H) \<and> num_entries a = collision_table_entries c"

definition list_at :: "(lru_ref \<Rightarrow> u32 list) \<Rightarrow> u16 \<Rightarrow> nat \<Rightarrow> u32 list" where
  "list_at L p l = L (ocf_lru_get_list p (of_nat l) True)"

lemma list_at_refs: "p \<le> PARTITION_FREELIST \<Longrightarrow> i < 32 \<Longrightarrow> ocf_lru_get_list p i b \<in> lru_refs"
  by (auto simp: ocf_lru_get_list_def lru_refs_def OCF_NUM_LRU_LISTS_def)

text \<open>A line found in a list of a partition is moved to the destination partition.\<close>

lemma visited_moved:
  assumes inv: "lru_inv c L" and p: "p \<le> PARTITION_FREELIST" "dst \<le> PARTITION_FREELIST" and i: "i < 32"
    and x: "x \<in> set (list_at L p (unat i))"
  shows "\<exists>c'. (if dst \<noteq> p then ocf_lru_repart_locked c x p dst else on_list ocf_lru_set_hot c (ocf_lru_get_list p i True) x) = Some c' \<and>
    line_moved c x dst c'"
proof -
  have r: "ocf_lru_get_list p i True \<in> lru_refs" by (rule list_at_refs [OF p(1) i])
  have xr: "x \<in> set (L (ocf_lru_get_list p i True))" using x by (simp add: list_at_def)
  note ll = list_line [OF inv r xr]
  show ?thesis using repart_moved [OF inv ll(3,2) p(2)] set_hot_moved [OF inv, of x] xr ll by auto
qed

definition eviction_done ::
    "('s :: len) ocf_cache \<Rightarrow> (lru_ref \<Rightarrow> u32 list) \<Rightarrow> ocf_request \<Rightarrow> nat \<Rightarrow> u16 \<Rightarrow> u16 \<Rightarrow> line_locks \<Rightarrow> nat \<Rightarrow> 's ocf_cache \<times> line_locks \<Rightarrow> u32 \<Rightarrow> bool" where
  "eviction_done c L req t p dst st l st' x \<longleftrightarrow> find (evictable c req st) (rev (list_at L p l)) = Some x \<and>
     snd st' = line_taken c req t st x \<and> line_moved c x dst (fst st')"

lemma eviction_visit_ok:
  assumes ctx: "evict_ctx c L req a H" and p: "p \<le> OCF_USER_IO_CLASS_MAX" "dst \<le> OCF_USER_IO_CLASS_MAX"
    and it: "iter_ok iter" "it_part iter = p" "it_clean iter" "hash_locked iter"
  shows "\<exists>st' x. eviction_visit req t dst iter (c, (a, s)) = Some (iter, st', x) \<and>
    (if x = end_marker then st' = (c, (a, s)) \<and> (\<forall>y\<in>set (list_at L p (unat (lru_idx iter))). \<not> evictable c req (a, s) y)
     else eviction_done c L req t p dst (a, s) (unat (lru_idx iter)) st' x)"
proof -
  let ?r = "ocf_lru_get_list p (lru_idx iter) True" and ?E = "evictable c req (a, s)"
  have c: "lru_inv c L" "0 < hash_table_entries c" "req_hashed c req" "locks_ok (a, H)" "num_entries a = collision_table_entries c"
    using ctx by (auto simp: evict_ctx_def index_ok_def)
  have pf: "p \<le> PARTITION_FREELIST" "dst \<le> PARTITION_FREELIST" using user_le_freelist p by blast+
  have i: "lru_idx iter < 32" using it(1) by (simp add: iter_ok_def)
  have r: "?r \<in> lru_refs" by (rule list_at_refs [OF pf(1) i])
  have L: "lists_ok c L" using c(1) by (simp add: lru_inv_def)
  have at: "list_at L p (unat (lru_idx iter)) = L ?r" by (simp add: list_at_def)
  have w: "lru_walk (lru_iter_evition_lock c req t iter) c (a, s) (tail (lru c ?r)) = Some (walked ?E (line_taken c req t (a, s)) (a, s) (L ?r))"
    using lists_ok_elem(3) [OF L r] c(5) by (intro walk_list [OF L r] evict_lock_eq [OF c(2,3) it(4) c(4)]) auto
  show ?thesis
  proof (cases "find ?E (rev (L ?r))")
    case None
    then have "eviction_visit req t dst iter (c, (a, s)) = Some (iter, (c, (a, s)), end_marker)"
      using w it(2,3) by (simp add: eviction_visit_def Let_def walked_def)
    then show ?thesis using None at by (simp add: find_None_iff)
  next
    case (Some x)
    then have x: "x \<in> set (L ?r)" by (auto simp: find_Some_iff rev_nth)
    have xe: "x \<noteq> end_marker" by (rule less_neq_end_marker [OF lists_ok_elem(3) [OF L r x]])
    obtain c' where c': "(if dst \<noteq> p then ocf_lru_repart_locked c x p dst else on_list ocf_lru_set_hot c ?r x) = Some c'" "line_moved c x dst c'"
      using visited_moved [OF c(1) pf i, of x] x at by auto
    then have "eviction_visit req t dst iter (c, (a, s)) = Some (iter, (c', line_taken c req t (a, s) x), x)"
      using w Some xe it(2,3) by (simp add: eviction_visit_def Let_def walked_def)
    then show ?thesis using c'(2) Some xe at by (simp add: eviction_done_def)
  qed
qed

text \<open>Which lists an iteration for a request visits.\<close>

definition evicting :: "u16 \<Rightarrow> ocf_lru_iter \<Rightarrow> bool" where
  "evicting p iter \<longleftrightarrow> it_part iter = p \<and> it_clean iter \<and> hash_locked iter"

lemma eviction_next_ok:
  assumes ctx: "evict_ctx c L req a H" and p: "p \<le> OCF_USER_IO_CLASS_MAX" "dst \<le> OCF_USER_IO_CLASS_MAX"
    and it: "iter_ok iter" "avail iter \<noteq> {}" "evicting p iter"
  shows "\<exists>iter' st' x. lru_iter_eviction_next req t dst iter (c, (a, s)) = Some (iter', st', x) \<and> iter_ok iter' \<and> evicting p iter' \<and>
    avail iter' \<subseteq> avail iter \<and>
    (if x = end_marker then st' = (c, (a, s)) \<and> (\<forall>l\<in>avail iter. \<forall>y\<in>set (list_at L p l). \<not> evictable c req (a, s) y)
     else avail iter' \<noteq> {} \<and> (\<forall>l\<in>avail iter - avail iter'. \<forall>y\<in>set (list_at L p l). \<not> evictable c req (a, s) y) \<and>
       (\<exists>l\<in>avail iter. eviction_done c L req t p dst (a, s) l st' x))"
  unfolding lru_iter_eviction_next_def
  by (rule lru_rounds_first [where R = "\<lambda>l. \<forall>y\<in>set (list_at L p l). \<not> evictable c req (a, s) y"])
    (use eviction_visit_ok [OF ctx p] it in \<open>auto simp: evicting_def\<close>)

definition free_done :: "('s :: len) ocf_cache \<Rightarrow> (lru_ref \<Rightarrow> u32 list) \<Rightarrow> u16 \<Rightarrow> line_locks \<Rightarrow> nat \<Rightarrow> 's ocf_cache \<times> line_locks \<Rightarrow> u32 \<Rightarrow> bool" where
  "free_done c L dst st l st' x \<longleftrightarrow> find (\<lambda>y. acc (fst st) y = OCF_CACHE_LINE_ACCESS_IDLE) (rev (list_at L PARTITION_FREELIST l)) = Some x \<and>
     snd st' = (set_access (fst st) x OCF_CACHE_LINE_ACCESS_WR, snd st) \<and> line_moved c x dst (fst st')"

lemma free_visit_ok:
  assumes c: "lru_inv c L" "num_entries a = collision_table_entries c" and dst: "dst \<le> OCF_USER_IO_CLASS_MAX"
    and it: "iter_ok iter" "it_part iter = PARTITION_FREELIST"
  shows "\<exists>st' x. free_visit dst iter (c, (a, s)) = Some (iter, st', x) \<and>
    (if x = end_marker then st' = (c, (a, s)) \<and> (\<forall>y\<in>set (list_at L PARTITION_FREELIST (unat (lru_idx iter))). acc a y \<noteq> OCF_CACHE_LINE_ACCESS_IDLE)
     else free_done c L dst (a, s) (unat (lru_idx iter)) st' x)"
proof -
  let ?f = PARTITION_FREELIST
  let ?r = "ocf_lru_get_list ?f (lru_idx iter) True" and ?E = "\<lambda>y. acc a y = OCF_CACHE_LINE_ACCESS_IDLE"
  have d: "dst \<le> ?f" "dst \<noteq> ?f" using user_le_freelist dst by blast+
  have i: "lru_idx iter < 32" using it(1) by (simp add: iter_ok_def)
  have r: "?r \<in> lru_refs" by (rule list_at_refs [OF order_refl i])
  have L: "lists_ok c L" using c(1) by (simp add: lru_inv_def)
  have at: "list_at L ?f (unat (lru_idx iter)) = L ?r" by (simp add: list_at_def)
  have w: "lru_walk ocf_cache_line_try_lock_wr c a (tail (lru c ?r)) = Some (walked ?E (\<lambda>x. set_access a x OCF_CACHE_LINE_ACCESS_WR) a (L ?r))"
    using lists_ok_elem(3) [OF L r] c(2) by (intro walk_list [OF L r] try_lock_wr_eq) auto
  show ?thesis
  proof (cases "find ?E (rev (L ?r))")
    case None
    then have "free_visit dst iter (c, (a, s)) = Some (iter, (c, (a, s)), end_marker)"
      using w it(2) by (simp add: free_visit_def Let_def walked_def)
    then show ?thesis using None at by (simp add: find_None_iff)
  next
    case (Some x)
    then have x: "x \<in> set (L ?r)" by (auto simp: find_Some_iff rev_nth)
    have xe: "x \<noteq> end_marker" by (rule less_neq_end_marker [OF lists_ok_elem(3) [OF L r x]])
    obtain c' where c': "ocf_lru_repart_locked c x ?f dst = Some c'" "line_moved c x dst c'"
      using visited_moved [OF c(1) order_refl d(1) i, of x] x at d(2) by auto
    then have "free_visit dst iter (c, (a, s)) = Some (iter, (c', set_access a x OCF_CACHE_LINE_ACCESS_WR, s), x)"
      using w Some xe it(2) by (simp add: free_visit_def Let_def walked_def)
    then show ?thesis using c'(2) Some xe at by (simp add: free_done_def)
  qed
qed

lemma free_next_ok:
  assumes c: "lru_inv c L" "num_entries a = collision_table_entries c" and dst: "dst \<le> OCF_USER_IO_CLASS_MAX"
    and it: "iter_ok iter" "avail iter \<noteq> {}" "it_part iter = PARTITION_FREELIST"
  shows "\<exists>iter' st' x. lru_iter_free_next dst iter (c, (a, s)) = Some (iter', st', x) \<and> iter_ok iter' \<and> it_part iter' = PARTITION_FREELIST \<and>
    avail iter' \<subseteq> avail iter \<and>
    (if x = end_marker then st' = (c, (a, s)) \<and> (\<forall>l\<in>avail iter. \<forall>y\<in>set (list_at L PARTITION_FREELIST l). acc a y \<noteq> OCF_CACHE_LINE_ACCESS_IDLE)
     else avail iter' \<noteq> {} \<and> (\<forall>l\<in>avail iter - avail iter'. \<forall>y\<in>set (list_at L PARTITION_FREELIST l). acc a y \<noteq> OCF_CACHE_LINE_ACCESS_IDLE) \<and>
       (\<exists>l\<in>avail iter. free_done c L dst (a, s) l st' x))"
proof -
  have "lru_iter_free_next dst iter (c, (a, s)) = lru_rounds (free_visit dst) iter (c, (a, s))"
    using user_le_freelist dst it(3) by (auto simp: lru_iter_free_next_def)
  then show ?thesis
    by (simp only:) (rule lru_rounds_first [where F = "\<lambda>i. it_part i = PARTITION_FREELIST" and
      R = "\<lambda>l. \<forall>y\<in>set (list_at L PARTITION_FREELIST l). acc a y \<noteq> OCF_CACHE_LINE_ACCESS_IDLE"], use free_visit_ok [OF c dst] it in auto)
qed

lemma coll_frame_derived:
  assumes "coll_frame c c'"
  shows "settings_ok c' = settings_ok c" "part_of c' x = part_of c x" "secs w c' x = secs w c x"
    "home c' x = home c x" "part_lines c' p = part_lines c p" "lru_inv c' L = lru_inv c L"
proof -
  note f = coll_frame_fields [OF assms]
  show s: "settings_ok c' = settings_ok c" by (simp add: settings_ok_def f)
  show p: "part_of c' x = part_of c x" for x by (simp add: part_of_def f)
  show d: "secs w c' x = secs w c x" for w x by (cases w) (simp_all add: secs_def f)
  show h: "home c' x = home c x" for x by (simp add: home_def p d)
  show l: "part_lines c' p = part_lines c p" for p by (simp add: part_lines_def f p)
  show "lru_inv c' L = lru_inv c L"
    using lists_ok_cong [of c' c] by (simp add: lru_inv_def s home_ok_def sizes_ok_def f h p l)
qed

subsection \<open>Properties\<close>

text \<open>
  C25. Looking for a line to evict ends.  Either the iterator returns a clean line of the partition whose lock was free, which is not
  part of the request and whose bucket could be locked: the least recently used such line of one of the lists; it is then write
  locked, its bucket is locked, and it is on a list of the destination partition, with all lists well-formed.  Or it returns the
  end marker, nothing has changed, and the partition has no such line at all.
\<close>
theorem eviction_takes_oldest_line:
  assumes ctx: "evict_ctx c L req a H" and p: "p \<le> OCF_USER_IO_CLASS_MAX" "dst \<le> OCF_USER_IO_CLASS_MAX"
  shows "\<exists>iter st x. lru_iter_eviction_next req t dst (lru_iter_eviction_init c p start) (c, (a, s)) = Some (iter, st, x) \<and>
    (if x = end_marker
     then st = (c, (a, s)) \<and> (\<forall>y<collision_table_entries c. part_of c y = p \<and> secs Dirty c y = {} \<longrightarrow> \<not> evictable c req (a, s) y)
     else x < collision_table_entries c \<and> part_of c x = p \<and> secs Dirty c x = {} \<and> (\<exists>l. find (evictable c req (a, s)) (rev (list_at L p l)) = Some x) \<and>
       snd st = line_taken c req t (a, s) x \<and> line_moved c x dst (fst st))"
proof -
  let ?iter = "lru_iter_eviction_init c p start"
  have i: "iter_ok ?iter" "avail ?iter = {..<32}" "evicting p ?iter"
    using iter_init_ok [of c p start True True] by (simp_all add: lru_iter_eviction_init_def evicting_def lru_iter_init_def)
  have ne: "avail ?iter \<noteq> {}" using i(2) by (auto simp: lessThan_empty_iff)
  obtain iter st x where r: "lru_iter_eviction_next req t dst ?iter (c, (a, s)) = Some (iter, st, x)"
    "if x = end_marker then st = (c, (a, s)) \<and> (\<forall>l\<in>{..<32}. \<forall>y\<in>set (list_at L p l). \<not> evictable c req (a, s) y)
     else \<exists>l\<in>{..<32}. eviction_done c L req t p dst (a, s) l st x"
    using eviction_next_ok [OF ctx p i(1) ne i(3), of t s] unfolding i(2) by (force split: if_splits)
  have inv: "lru_inv c L" using ctx by (simp add: evict_ctx_def)
  have pf: "p \<le> PARTITION_FREELIST" "p \<noteq> PARTITION_FREELIST" using user_le_freelist p by blast+
  show ?thesis
  proof (cases "x = end_marker")
    case True
    have "\<exists>l<32. y \<in> set (list_at L p l)" if "y < collision_table_entries c" "part_of c y = p" "secs Dirty c y = {}" for y
    proof (intro exI conjI)
      show "unat (y mod 32) < 32" by (simp add: unat_mod)
      show "y \<in> set (list_at L p (unat (y mod 32)))"
        using inv that by (auto simp: lru_inv_def home_ok_def home_def list_at_def OCF_NUM_LRU_LISTS_def)
    qed
    then have "\<forall>y<collision_table_entries c. part_of c y = p \<and> secs Dirty c y = {} \<longrightarrow> \<not> evictable c req (a, s) y"
      using r(2) True by fastforce
    then show ?thesis using r True by (intro exI [of _ iter] exI [of _ st] exI [of _ x]) simp
  next
    case False
    then obtain l where l: "l < 32" "eviction_done c L req t p dst (a, s) l st x" using r(2) by auto
    then have "x \<in> set (list_at L p l)" by (auto simp: eviction_done_def find_Some_iff rev_nth)
    moreover have "(of_nat l :: u32) < 32" using l(1) by (simp add: word_less_nat_alt unat_of_nat take_bit_nat_eq_self)
    ultimately have "x < collision_table_entries c" "part_of c x = p" "secs Dirty c x = {}"
      using list_line [OF inv list_at_refs [OF pf(1)], of "of_nat l" x] pf(2) by (auto simp: list_at_def)
    then show ?thesis using r(1) l(2) False unfolding eviction_done_def by (intro exI [of _ iter] exI [of _ st] exI [of _ x]) auto
  qed
qed

lemma started_used:
  "\<exists>(c :: 8 ocf_cache) L. cache_inv c L \<and> collision_table_entries c = 10 \<and> hash_table_entries c = 4 \<and> size c = ocf_cache_line_size_4 \<and> index c = [(1, 7) \<mapsto> 3] \<and>
     (\<forall>y<10. part_of c y = (if y = 3 then 5 else PARTITION_FREELIST)) \<and> core_id (seg_collision c 3) = 1 \<and> core_line (seg_collision c 3) = 7 \<and> (\<forall>w x. secs w c x = {}) \<and>
     cached_clines c = (\<lambda>_. 0) \<and> part_cached_clines c = (\<lambda>_ _. 0) \<and> dirty_clines c = (\<lambda>_. 0) \<and> part_dirty_clines c = (\<lambda>_ _. 0)"
proof -
  obtain c :: "8 ocf_cache" and L where a: "lru_inv c L" "\<forall>x<10. part_of c x = PARTITION_FREELIST" "collision_table_entries c = 10"
    "part_frame (foldl ocf_lru_init lru_cache0 all_parts) c"
    using start_ok [OF lru_cache0_start all_parts_set] by (auto simp: lru_cache0_def)
  note f = part_frame_fields [OF a(4)]
  have x: "3 < collision_table_entries c" "5 \<le> PARTITION_FREELIST"
    using a(3) by (simp_all add: PARTITION_FREELIST_def OCF_USER_IO_CLASS_MAX_def)
  obtain d M where d: "lru_inv d M" "part_frame c d" "\<forall>y. part_of d y = (if y = 3 then 5 else part_of c y)"
    using ocf_lru_repart_ok [OF a(1) x(1) refl x(2)] by blast
  note g = part_frame_fields [OF d(2)]
  have e: "size d = ocf_cache_line_size_4" "collision_table_entries d = 10" "hash_table_entries d = 4" "seg_hash d = (\<lambda>_. 10)" "seg_collision d = seg_collision lru_cache0"
    using a(3) by (simp_all add: f g init_all_frame lru_cache0_def)
  then have i: "index_ok d" "index d = Map.empty" using index_ok_empty [of d] by simp_all
  obtain k where k: "index_ok k" "index k = [(1, 7) \<mapsto> 3]" "coll_frame d k" "core_id (seg_collision k 3) = 1" "core_line (seg_collision k 3) = 7"
    using index_add_ok [OF i(1), of 3 "(1, 7)"] i(2) e(2) by auto
  note h = coll_frame_fields [OF k(3)] coll_frame_derived [OF k(3)]
  have "used_ok k" using a(2) d(3) user_le_freelist
    by (auto simp: used_ok_def k(2) h e(2) OCF_USER_IO_CLASS_MAX_def)
  moreover have "\<forall>w x. secs w k x = {}"
  proof (intro allI)
    fix w x show "secs w k x = {}" by (cases w) (simp_all add: h secs_def e(5) lru_cache0_def)
  qed
  moreover have "cached_clines k = (\<lambda>_. 0) \<and> part_cached_clines k = (\<lambda>_ _. 0) \<and> dirty_clines k = (\<lambda>_. 0) \<and> part_dirty_clines k = (\<lambda>_ _. 0)"
    by (simp add: h g f init_all_frame lru_cache0_def)
  ultimately show ?thesis using a(2) d(1,3) k e by (intro exI [of _ k] exI [of _ M]) (simp add: cache_inv_def h)
qed


definition no_locks :: lock_threads where
  "no_locks = (\<lambda>_. \<lparr>prog = [], held_locks = {}\<rparr>)"

theorem eviction_takes_oldest_line_witness:
  "\<exists>(c :: 8 ocf_cache) req a iter st. part_of c 3 = 5 \<and> acc a 3 = OCF_CACHE_LINE_ACCESS_IDLE \<and>
    lru_iter_eviction_next req 0 6 (lru_iter_eviction_init c 5 1) (c, (a, no_locks)) = Some (iter, st, 3) \<and>
    part_of (fst st) 3 = 6 \<and> acc (fst (snd st)) 3 = OCF_CACHE_LINE_ACCESS_WR"
proof -
  obtain c :: "8 ocf_cache" and L where c: "cache_inv c L" "collision_table_entries c = 10" "hash_table_entries c = 4"
    "\<forall>y<10. part_of c y = (if y = 3 then 5 else PARTITION_FREELIST)" "core_id (seg_collision c 3) = 1" "secs Dirty c 3 = {}"
    "size c = ocf_cache_line_size_4"
    using started_used by auto
  define a where "a = lock_ex0\<lparr>num_entries := 10\<rparr>"
  define req where "req = ocf_req_hash c (ocf_req_new c 0 2 0 4096 OCF_READ)"
  have r: "req_hashed c req" unfolding req_def
    by (rule req_hash_hashed) (simp_all add: ocf_req_new_def ocf_bytes_2_lines_def c(3,7) Let_def)
  have "ocf_alock_init_inplace True True True True 10 4 = Some a" by (simp add: ocf_alock_init_inplace_def a_def lock_ex0_def)
  note l = locks_ok_init [OF this]
  have ctx: "evict_ctx c L req a (\<lambda>_. [])" using c(1,2) r l by (simp add: evict_ctx_def cache_inv_def a_def)
  have "req_core req = 2" by (simp add: req_def ocf_req_hash_def ocf_req_new_def Let_def split: prod.split)
  then have e: "evictable c req (a, no_locks) 3"
    using c(5) by (simp add: evictable_def in_request_def bucket_free_def grantable_def no_locks_def a_def lock_ex0_def access_defs)
  have p: "5 \<le> OCF_USER_IO_CLASS_MAX" "6 \<le> OCF_USER_IO_CLASS_MAX" by (simp_all add: OCF_USER_IO_CLASS_MAX_def)
  obtain iter st x where v: "lru_iter_eviction_next req 0 6 (lru_iter_eviction_init c 5 1) (c, (a, no_locks)) = Some (iter, st, x)"
    "if x = end_marker
     then st = (c, (a, no_locks)) \<and> (\<forall>y<collision_table_entries c. part_of c y = 5 \<and> secs Dirty c y = {} \<longrightarrow> \<not> evictable c req (a, no_locks) y)
     else x < collision_table_entries c \<and> part_of c x = 5 \<and> secs Dirty c x = {} \<and>
       (\<exists>l. find (evictable c req (a, no_locks)) (rev (list_at L 5 l)) = Some x) \<and>
       snd st = line_taken c req 0 (a, no_locks) x \<and> line_moved c x 6 (fst st)"
    using eviction_takes_oldest_line [OF ctx p, of 0 1 no_locks] by blast
  have "x \<noteq> end_marker" using v(2) e c(2,4,6) by (auto split: if_splits)
  then have w: "x < 10" "part_of c x = 5" "snd st = line_taken c req 0 (a, no_locks) x" "line_moved c x 6 (fst st)" using v(2) c(2) by auto
  have "x = 3" using w(1,2) c(4) by (auto simp: PARTITION_FREELIST_def OCF_USER_IO_CLASS_MAX_def split: if_splits)
  then show ?thesis using v(1) w c(4)
    by (intro exI [of _ c] exI [of _ req] exI [of _ a] exI [of _ iter] exI [of _ st])
      (auto simp: line_moved_def line_taken_def a_def lock_ex0_def access_defs set_access_def)
qed

end
