(* ===== verification/Cache_Line.thy ===== *)
theory Cache_Line
  imports Lru_Iter
begin

text \<open>
  Changing the status of the cache lines of a request (\<open>utils/utils_cache_line.c\<close>, \<open>utils/utils_cache_line.h\<close>): the valid and
  dirty bits, the LRU list of the line, the mapping of a line that loses its last valid sector, and the counters of the core.

  The callers hold the hash buckets of the request and the pages of the collision table.  The policy of the cleaner keeps its own
  data (\<open>ocf_cleaning_set_hot_cache_line\<close>, \<open>ocf_purge_cleaning_policy\<close>), which is not part of the state.
\<close>

subsection \<open>Operations\<close>

datatype flush_state = INVALID | VALID | CLEAN | DIRTY

text \<open>The collision table is kept in RAM (\<open>_raw_ram_flush_mark\<close>).\<close>

definition ocf_metadata_flush_mark :: "ocf_request \<Rightarrow> u32 \<Rightarrow> flush_state \<Rightarrow> ocf_request option" where
  "ocf_metadata_flush_mark req map_idx to_state =
     (if to_state = DIRTY \<or> to_state = CLEAN then do {
        entry \<leftarrow> map_entry req map_idx;
        Some (info_if True (\<lambda>i. i\<lparr>flush_metadata := True\<rparr>) (set_map_entry req map_idx (entry\<lparr>m_flush := True\<rparr>)))
      } else Some req)"

text \<open>Adding to the counters of a core, modulo the size of an atomic counter.\<close>

definition count_cached :: "u16 \<Rightarrow> u16 \<Rightarrow> u32 \<Rightarrow> ('s :: len) ocf_cache \<Rightarrow> 's ocf_cache" where
  "count_cached core part d cache = cache\<lparr>
     cached_clines := (cached_clines cache)(core := cached_clines cache core + d),
     part_cached_clines := (part_cached_clines cache)(core := (part_cached_clines cache core)(part := part_cached_clines cache core part + d))\<rparr>"

definition count_dirty :: "u16 \<Rightarrow> u16 \<Rightarrow> u32 \<Rightarrow> ('s :: len) ocf_cache \<Rightarrow> 's ocf_cache" where
  "count_dirty core part d cache = cache\<lparr>
     dirty_clines := (dirty_clines cache)(core := dirty_clines cache core + d),
     part_dirty_clines := (part_dirty_clines cache)(core := (part_dirty_clines cache core)(part := part_dirty_clines cache core part + d))\<rparr>"

definition set_cache_line_invalid_core ::
    "('s :: len) ocf_cache \<Rightarrow> ocf_alock \<Rightarrow> u8 \<Rightarrow> u8 \<Rightarrow> u32 \<Rightarrow> u16 \<Rightarrow> u16 \<Rightarrow> 's ocf_cache option" where
  "set_cache_line_invalid_core cache a start_bit end_bit line core part = do {
     ENV_BUG_ON (core \<ge> OCF_CORE_MAX);
     (cache, changed, is_valid) \<leftarrow> metadata_clear_valid_sec_changed cache line start_bit end_bit;
     let cache = (if changed then count_cached core part (- 1) cache else cache);
     waiters \<leftarrow> (if is_valid then Some True else ocf_cache_line_are_waiters a line);
     if \<not> is_valid \<and> \<not> waiters then do {
       cache \<leftarrow> ocf_lru_rm_cline cache line;
       ocf_metadata_remove_cache_line cache line
     } else Some cache
   }"

definition set_cache_line_invalid ::
    "('s :: len) ocf_cache \<Rightarrow> ocf_alock \<Rightarrow> u8 \<Rightarrow> u8 \<Rightarrow> ocf_request \<Rightarrow> u32 \<Rightarrow> ('s ocf_cache \<times> ocf_request) option" where
  "set_cache_line_invalid cache a start_bit end_bit req map_idx = do {
     entry \<leftarrow> map_entry req map_idx;
     part \<leftarrow> ocf_metadata_get_partition_id cache (coll_idx entry);
     cache \<leftarrow> set_cache_line_invalid_core cache a start_bit end_bit (coll_idx entry) (req_core req) part;
     req \<leftarrow> ocf_metadata_flush_mark req map_idx INVALID;
     Some (cache, req)
   }"

definition set_cache_line_invalid_no_flush :: "('s :: len) ocf_cache \<Rightarrow> ocf_alock \<Rightarrow> u8 \<Rightarrow> u8 \<Rightarrow> u32 \<Rightarrow> 's ocf_cache option" where
  "set_cache_line_invalid_no_flush cache a start_bit end_bit line = do {
     core \<leftarrow> ocf_metadata_get_core_id cache line;
     part \<leftarrow> ocf_metadata_get_partition_id cache line;
     set_cache_line_invalid_core cache a start_bit end_bit line core part
   }"

definition set_cache_line_valid :: "('s :: len) ocf_cache \<Rightarrow> u8 \<Rightarrow> u8 \<Rightarrow> ocf_request \<Rightarrow> u32 \<Rightarrow> 's ocf_cache option" where
  "set_cache_line_valid cache start_bit end_bit req map_idx = do {
     entry \<leftarrow> map_entry req map_idx;
     part \<leftarrow> ocf_metadata_get_partition_id cache (coll_idx entry);
     (cache, changed) \<leftarrow> metadata_set_valid_sec_changed cache (coll_idx entry) start_bit end_bit;
     Some (if changed then count_cached (req_core req) part 1 cache else cache)
   }"

definition set_cache_line_clean ::
    "('s :: len) ocf_cache \<Rightarrow> u8 \<Rightarrow> u8 \<Rightarrow> ocf_request \<Rightarrow> u32 \<Rightarrow> ('s ocf_cache \<times> ocf_request) option" where
  "set_cache_line_clean cache start_bit end_bit req map_idx = do {
     entry \<leftarrow> map_entry req map_idx;
     part \<leftarrow> ocf_metadata_get_partition_id cache (coll_idx entry);
     ENV_BUG_ON (part > OCF_USER_IO_CLASS_MAX);
     (cache, changed, line_is_clean) \<leftarrow> metadata_clear_dirty_sec_changed cache (coll_idx entry) start_bit end_bit;
     if changed then do {
       req \<leftarrow> ocf_metadata_flush_mark req map_idx CLEAN;
       if line_is_clean then do {
         let cache = count_dirty (req_core req) part (- 1) cache;
         let cache = (if dirty_clines cache (req_core req) = 0
                      then cache\<lparr>dirty_since := (dirty_since cache)(req_core req := 0)\<rparr> else cache);
         cache \<leftarrow> ocf_lru_clean_cline cache part (coll_idx entry);
         Some (cache, req)
       } else Some (cache, req)
     } else Some (cache, req)
   }"

text \<open>\<open>now\<close>: the current time in seconds.\<close>

definition set_cache_line_dirty ::
    "u64 \<Rightarrow> ('s :: len) ocf_cache \<Rightarrow> u8 \<Rightarrow> u8 \<Rightarrow> ocf_request \<Rightarrow> u32 \<Rightarrow> ('s ocf_cache \<times> ocf_request) option" where
  "set_cache_line_dirty now cache start_bit end_bit req map_idx = do {
     entry \<leftarrow> map_entry req map_idx;
     part \<leftarrow> ocf_metadata_get_partition_id cache (coll_idx entry);
     ENV_BUG_ON (part > OCF_USER_IO_CLASS_MAX);
     (cache, changed, line_was_dirty) \<leftarrow> metadata_set_dirty_sec_changed cache (coll_idx entry) start_bit end_bit;
     if changed then do {
       req \<leftarrow> ocf_metadata_flush_mark req map_idx DIRTY;
       if \<not> line_was_dirty then do {
         let cache = (if dirty_since cache (req_core req) = 0
                      then cache\<lparr>dirty_since := (dirty_since cache)(req_core req := now)\<rparr> else cache);
         let cache = count_dirty (req_core req) part 1 cache;
         cache \<leftarrow> ocf_lru_dirty_cline cache part (coll_idx entry);
         Some (cache, req)
       } else Some (cache, req)
     } else Some (cache, req)
   }"

subsection \<open>The lines of a request\<close>

definition ocf_purge_cache_line_sec ::
    "('s :: len) ocf_cache \<Rightarrow> ocf_alock \<Rightarrow> u8 \<Rightarrow> u8 \<Rightarrow> ocf_request \<Rightarrow> u32 \<Rightarrow> ('s ocf_cache \<times> ocf_request) option" where
  "ocf_purge_cache_line_sec cache a start stop req map_idx = do {
     (cache, req) \<leftarrow> set_cache_line_clean cache start stop req map_idx;
     set_cache_line_invalid cache a start stop req map_idx
   }"

fun purge_loop :: "ocf_alock \<Rightarrow> nat list \<Rightarrow> ('s :: len) ocf_cache \<times> ocf_request \<Rightarrow> ('s ocf_cache \<times> ocf_request) option" where
  "purge_loop a [] st = Some st"
| "purge_loop a (i # is) (cache, req) = do {
     entry \<leftarrow> map_entry req (of_nat i);
     st \<leftarrow> (if status entry = LOOKUP_MISS then Some (cache, req)
            else ocf_purge_cache_line_sec cache a (ocf_map_line_start_sector cache req (of_nat i)) (ocf_map_line_end_sector cache req (of_nat i))
              req (of_nat i));
     purge_loop a is st
   }"

definition ocf_purge_map_info :: "('s :: len) ocf_cache \<Rightarrow> ocf_alock \<Rightarrow> ocf_request \<Rightarrow> ('s ocf_cache \<times> ocf_request) option" where
  "ocf_purge_map_info cache a req = purge_loop a [0..<unat (core_line_count req)] (cache, req)"

fun set_valid_loop :: "nat list \<Rightarrow> ocf_request \<Rightarrow> ('s :: len) ocf_cache \<Rightarrow> 's ocf_cache option" where
  "set_valid_loop [] req cache = Some cache"
| "set_valid_loop (i # is) req cache = do {
     entry \<leftarrow> map_entry req (of_nat i);
     ENV_BUG_ON (status entry = LOOKUP_MISS);
     cache \<leftarrow> set_cache_line_valid cache (ocf_map_line_start_sector cache req (of_nat i)) (ocf_map_line_end_sector cache req (of_nat i))
       req (of_nat i);
     set_valid_loop is req cache
   }"

definition ocf_set_valid_map_info :: "('s :: len) ocf_cache \<Rightarrow> ocf_request \<Rightarrow> 's ocf_cache option" where
  "ocf_set_valid_map_info cache req = set_valid_loop [0..<unat (core_line_count req)] req cache"

fun set_dirty_loop :: "u64 \<Rightarrow> nat list \<Rightarrow> ('s :: len) ocf_cache \<times> ocf_request \<Rightarrow> ('s ocf_cache \<times> ocf_request) option" where
  "set_dirty_loop now [] st = Some st"
| "set_dirty_loop now (i # is) (cache, req) = do {
     st \<leftarrow> set_cache_line_dirty now cache (ocf_map_line_start_sector cache req (of_nat i)) (ocf_map_line_end_sector cache req (of_nat i))
       req (of_nat i);
     set_dirty_loop now is st
   }"

definition ocf_set_dirty_map_info :: "u64 \<Rightarrow> ('s :: len) ocf_cache \<Rightarrow> ocf_request \<Rightarrow> ('s ocf_cache \<times> ocf_request) option" where
  "ocf_set_dirty_map_info now cache req = set_dirty_loop now [0..<unat (core_line_count req)] (cache, req)"

fun set_clean_loop :: "nat list \<Rightarrow> ('s :: len) ocf_cache \<times> ocf_request \<Rightarrow> ('s ocf_cache \<times> ocf_request) option" where
  "set_clean_loop [] st = Some st"
| "set_clean_loop (i # is) (cache, req) = do {
     st \<leftarrow> set_cache_line_clean cache (ocf_map_line_start_sector cache req (of_nat i)) (ocf_map_line_end_sector cache req (of_nat i))
       req (of_nat i);
     set_clean_loop is st
   }"

definition ocf_set_clean_map_info :: "('s :: len) ocf_cache \<Rightarrow> ocf_request \<Rightarrow> ('s ocf_cache \<times> ocf_request) option" where
  "ocf_set_clean_map_info cache req = set_clean_loop [0..<unat (core_line_count req)] (cache, req)"

subsection \<open>Frames\<close>

text \<open>The settings of the cache, which no operation on lines changes.\<close>

definition same_geometry :: "('s :: len) ocf_cache \<Rightarrow> 's ocf_cache \<Rightarrow> bool" where
  "same_geometry c c' \<longleftrightarrow> size c' = size c \<and> sector_count c' = sector_count c \<and> sector_start c' = sector_start c \<and> sector_end c' = sector_end c \<and>
     collision_table_entries c' = collision_table_entries c \<and> hash_table_entries c' = hash_table_entries c"

lemma same_geometry_refl [simp]: "same_geometry c c"
  by (simp add: same_geometry_def)

lemma same_geometry_trans: "same_geometry c d \<Longrightarrow> same_geometry d e \<Longrightarrow> same_geometry c e"
  by (simp add: same_geometry_def)

lemma same_geometry_derived:
  assumes "same_geometry c c'"
  shows "settings_ok c' = settings_ok c" "collision_table_entries c' = collision_table_entries c" "hash_table_entries c' = hash_table_entries c"
    "ocf_map_line_start_sector c' = ocf_map_line_start_sector c" "ocf_map_line_end_sector c' = ocf_map_line_end_sector c"
    "ocf_line_end_sector c' = ocf_line_end_sector c" "req_secs c' = req_secs c" "req_shape c' = req_shape c"
    "ocf_metadata_hash_func c' = ocf_metadata_hash_func c" "req_hashed c' = req_hashed c" "req_buckets c' = req_buckets c"
proof -
  note g = assms [unfolded same_geometry_def]
  show s: "ocf_map_line_start_sector c' = ocf_map_line_start_sector c" "ocf_map_line_end_sector c' = ocf_map_line_end_sector c"
    using g by (simp_all add: fun_eq_iff ocf_map_line_start_sector_def ocf_map_line_end_sector_def ocf_line_sectors_def ocf_line_end_sector_def)
  show h: "ocf_metadata_hash_func c' = ocf_metadata_hash_func c" by (rule hash_func_frame) (use g in simp)
  show "settings_ok c' = settings_ok c" "collision_table_entries c' = collision_table_entries c" "hash_table_entries c' = hash_table_entries c"
    "ocf_line_end_sector c' = ocf_line_end_sector c" "req_secs c' = req_secs c" "req_shape c' = req_shape c"
    "req_hashed c' = req_hashed c" "req_buckets c' = req_buckets c"
    using g by (simp_all add: fun_eq_iff settings_ok_def ocf_line_end_sector_def req_secs_def req_shape_def req_hashed_def req_buckets_def s h)
qed

lemma status_change_geometry: "status_change w x S c c' \<Longrightarrow> same_geometry c c'"
  by (cases w) (auto simp: status_change_def same_geometry_def)

lemma lru_only_geometry: "lru_only c c' \<Longrightarrow> same_geometry c c'"
  by (auto simp: lru_only_def same_geometry_def)

lemma part_frame_geometry: "part_frame c c' \<Longrightarrow> same_geometry c c'"
  by (simp add: same_geometry_def part_frame_fields)

lemma coll_frame_geometry: "coll_frame c c' \<Longrightarrow> same_geometry c c'"
  by (simp add: same_geometry_def coll_frame_fields)

text \<open>The lists and the mapping do not depend on the valid bits and the counters.\<close>

definition same_lines :: "('s :: len) ocf_cache \<Rightarrow> 's ocf_cache \<Rightarrow> bool" where
  "same_lines c c' \<longleftrightarrow> same_geometry c c' \<and> seg_lru c' = seg_lru c \<and> lru c' = lru c \<and> curr_size c' = curr_size c \<and>
     seg_list_info c' = seg_list_info c \<and> seg_hash c' = seg_hash c \<and>
     (\<forall>y. core_id (seg_collision c' y) = core_id (seg_collision c y) \<and> core_line (seg_collision c' y) = core_line (seg_collision c y))"

lemma same_lines_refl [simp]: "same_lines c c"
  by (simp add: same_lines_def)

lemma same_lines_trans: "same_lines c d \<Longrightarrow> same_lines d e \<Longrightarrow> same_lines c e"
  by (auto simp: same_lines_def intro: same_geometry_trans)

lemma same_lines_part: "same_lines c c' \<Longrightarrow> part_of c' x = part_of c x"
  by (simp add: same_lines_def part_of_def)

lemma same_lines_index:
  assumes "same_lines c c'"
  shows "index_ok c' = index_ok c" "index_ok c \<Longrightarrow> index c' = index c" "index_ok c \<Longrightarrow> used_ok c' = used_ok c"
proof -
  show i: "index_ok c' = index_ok c" "index_ok c \<Longrightarrow> index c' = index c"
    using index_cong [of c' c] assms by (auto simp: same_lines_def same_geometry_def)
  show "index_ok c \<Longrightarrow> used_ok c' = used_ok c"
    using assms i(2) same_lines_part [OF assms] by (simp add: used_ok_def same_lines_def same_geometry_def)
qed

lemma same_lines_lru:
  assumes "same_lines c c'" "\<And>x. (secs Dirty c' x = {}) = (secs Dirty c x = {})"
  shows "lru_inv c' L = lru_inv c L"
proof -
  note g = assms(1) [unfolded same_lines_def] and p = same_lines_part [OF assms(1)]
  have h: "home c' x = home c x" for x by (simp add: home_def p assms(2))
  have "lists_ok c' L = lists_ok c L" by (rule lists_ok_cong) (use g in \<open>auto simp: same_geometry_def\<close>)
  then show ?thesis using g same_geometry_derived(1) [of c c'] by (simp add: lru_inv_def home_ok_def sizes_ok_def part_lines_def h p same_geometry_def)
qed

lemma status_change_lines: "status_change w x S c c' \<Longrightarrow> same_lines c c'"
  using status_change_geometry [of w x S c c'] by (auto simp: same_lines_def status_change_frame)

lemma count_frame [simp]:
  "same_lines c (count_cached core part d c)" "same_lines c (count_dirty core part d c)" "same_lines c (c\<lparr>dirty_since := f\<rparr>)"
  "secs w (count_cached core part d c) x = secs w c x" "secs w (count_dirty core part d c) x = secs w c x"
  "secs w (c\<lparr>dirty_since := f\<rparr>) x = secs w c x"
  by (simp_all add: same_lines_def same_geometry_def count_cached_def count_dirty_def secs_def) (cases w; simp)+

subsection \<open>Counters\<close>

text \<open>\<open>T\<close> is the counter of a core, \<open>P\<close> that of a core and a partition, \<open>S\<close> the lines that they count.\<close>

definition counters_match :: "(u16 \<Rightarrow> u32) \<Rightarrow> (u16 \<Rightarrow> u16 \<Rightarrow> u32) \<Rightarrow> (u16 \<Rightarrow> u16 \<Rightarrow> u32 set) \<Rightarrow> bool" where
  "counters_match T P S \<longleftrightarrow> (\<forall>core. unat (T core) = card (\<Union>p\<in>{..OCF_USER_IO_CLASS_MAX}. S core p) \<and>
     (\<forall>p\<le>OCF_USER_IO_CLASS_MAX. unat (P core p) = card (S core p)))"

lemma unat_inc: "unat (n :: u32) = card A \<Longrightarrow> finite A \<Longrightarrow> x \<notin> A \<Longrightarrow> card (insert x A) < 2 ^ 32 \<Longrightarrow> unat (n + 1) = card (insert x A)"
  by (simp add: unat_add_nowrap)

lemma unat_dec: "unat (n :: u32) = card A \<Longrightarrow> finite A \<Longrightarrow> x \<in> A \<Longrightarrow> unat (n - 1) = card (A - {x})"
  by (subst unat_minus_one) (auto simp: card_gt_0_iff)

lemma lines_card: "A \<subseteq> {x. x < (E :: u32)} \<Longrightarrow> finite A \<and> card A < 2 ^ 32"
proof -
  assume a: "A \<subseteq> {x. x < E}"
  have "card A \<le> card {x. x < E}" using a by (intro card_mono) auto
  also have "\<dots> = unat E" by (rule card_below)
  also have "\<dots> < 2 ^ 32" using unsigned_less [of E, where ?'a = nat] by simp
  finally show ?thesis by simp
qed

lemma counters_add:
  assumes m: "counters_match T P S" and S: "\<And>core p. S core p \<subseteq> {y. y < E}" and x: "x < E" "\<And>p. x \<notin> S c0 p" and p0: "p0 \<le> OCF_USER_IO_CLASS_MAX"
  shows "counters_match (T(c0 := T c0 + 1)) (P(c0 := (P c0)(p0 := P c0 p0 + 1))) (S(c0 := (S c0)(p0 := insert x (S c0 p0))))"
proof -
  let ?U = "\<Union>p\<in>{..OCF_USER_IO_CLASS_MAX}. S c0 p"
  have U: "(\<Union>p\<in>{..OCF_USER_IO_CLASS_MAX}. ((S c0)(p0 := insert x (S c0 p0))) p) = insert x ?U" using p0 by (auto split: if_splits)
  have "insert x ?U \<subseteq> {y. y < E}" "insert x (S c0 p0) \<subseteq> {y. y < E}" using S x(1) by blast+
  then have f: "finite ?U" "card (insert x ?U) < 2 ^ 32" "finite (S c0 p0)" "card (insert x (S c0 p0)) < 2 ^ 32"
    using lines_card finite_insert by metis+
  have "unat (T c0 + 1) = card (insert x ?U)" by (rule unat_inc) (use m f x(2) in \<open>auto simp: counters_match_def\<close>)
  moreover have "unat (P c0 p0 + 1) = card (insert x (S c0 p0))" by (rule unat_inc) (use m f x(2) p0 in \<open>auto simp: counters_match_def\<close>)
  ultimately show ?thesis using m U by (auto simp: counters_match_def)
qed

lemma counters_sub:
  assumes m: "counters_match T P S" and S: "\<And>core p. S core p \<subseteq> {y. y < E}" and x: "x \<in> S c0 p0" "\<And>p. p \<noteq> p0 \<Longrightarrow> x \<notin> S c0 p"
    and p0: "p0 \<le> OCF_USER_IO_CLASS_MAX"
  shows "counters_match (T(c0 := T c0 - 1)) (P(c0 := (P c0)(p0 := P c0 p0 - 1))) (S(c0 := (S c0)(p0 := S c0 p0 - {x})))"
proof -
  let ?U = "\<Union>p\<in>{..OCF_USER_IO_CLASS_MAX}. S c0 p"
  have U: "(\<Union>p\<in>{..OCF_USER_IO_CLASS_MAX}. ((S c0)(p0 := S c0 p0 - {x})) p) = ?U - {x}" using x(2) by (auto split: if_splits)
  have "?U \<subseteq> {y. y < E}" "S c0 p0 \<subseteq> {y. y < E}" using S by blast+
  then have f: "finite ?U" "finite (S c0 p0)" using lines_card by metis+
  have "unat (T c0 - 1) = card (?U - {x})" by (rule unat_dec) (use m f x(1) p0 in \<open>auto simp: counters_match_def\<close>)
  moreover have "unat (P c0 p0 - 1) = card (S c0 p0 - {x})" by (rule unat_dec) (use m f x(1) p0 in \<open>auto simp: counters_match_def\<close>)
  ultimately show ?thesis using m U by (auto simp: counters_match_def)
qed

definition counted :: "what \<Rightarrow> ('s :: len) ocf_cache \<Rightarrow> u16 \<Rightarrow> u16 \<Rightarrow> u32 set" where
  "counted w c core p = {x. x < collision_table_entries c \<and> core_id (seg_collision c x) = core \<and> part_of c x = p \<and> secs w c x \<noteq> {}}"

definition counts_ok :: "('s :: len) ocf_cache \<Rightarrow> bool" where
  "counts_ok c \<longleftrightarrow> counters_match (cached_clines c) (part_cached_clines c) (counted Valid c) \<and>
     counters_match (dirty_clines c) (part_dirty_clines c) (counted Dirty c)"

text \<open>A dirty sector is valid, and the lines of the free list hold nothing.\<close>

definition status_ok :: "('s :: len) ocf_cache \<Rightarrow> bool" where
  "status_ok c \<longleftrightarrow> (\<forall>x<collision_table_entries c. secs Dirty c x \<subseteq> secs Valid c x \<and> (part_of c x = PARTITION_FREELIST \<longrightarrow> secs Valid c x = {}))"

definition meta_inv :: "('s :: len) ocf_cache \<Rightarrow> (lru_ref \<Rightarrow> u32 list) \<Rightarrow> bool" where
  "meta_inv c L \<longleftrightarrow> cache_inv c L \<and> counts_ok c \<and> status_ok c"

text \<open>
  The counters of a core count the lines with a valid sector, but \<open>ocf_lru_invalidate\<close> counts a line down whether it has one or not.  So there are two
  invariants: with \<open>exact\<close> the counters are right, and every mapped line that nobody holds has a valid sector; without, nothing is said about the counters and
  such lines may be empty, as \<open>__set_cache_line_invalid\<close> leaves them when requests wait for the line.
\<close>

definition metadata_ok :: "bool \<Rightarrow> ('s :: len) ocf_cache \<Rightarrow> (lru_ref \<Rightarrow> u32 list) \<Rightarrow> bool" where
  "metadata_ok exact c L \<longleftrightarrow> cache_inv c L \<and> status_ok c \<and> (exact \<longrightarrow> counts_ok c)"

lemma metadata_ok_exact [simp]: "metadata_ok True c L = meta_inv c L"
  by (auto simp: metadata_ok_def meta_inv_def)

text \<open>The effect of a change of the bits of line \<open>x\<close>; the mapping stays.\<close>

definition bits_changed :: "what \<Rightarrow> u32 \<Rightarrow> nat set \<Rightarrow> ('s :: len) ocf_cache \<Rightarrow> 's ocf_cache \<Rightarrow> bool" where
  "bits_changed w x B c c' \<longleftrightarrow> (\<forall>v y. secs v c' y = (if v = w \<and> y = x then B else secs v c y)) \<and> index c' = index c \<and> same_geometry c c' \<and>
     (\<forall>y. part_of c' y = part_of c y) \<and> (\<forall>y. core_id (seg_collision c' y) = core_id (seg_collision c y))"

lemma mapped_line:
  assumes "cache_inv c L" "index c (core, cl) = Some x"
  shows "x < collision_table_entries c" "core_id (seg_collision c x) = core" "core_line (seg_collision c x) = cl" "part_of c x \<le> OCF_USER_IO_CLASS_MAX"
proof -
  have i: "index_ok c" "used_ok c" using assms(1) by (auto simp: cache_inv_def)
  note j = index_inj(2,3) [OF i(1) assms(2) assms(2)]
  show x: "x < collision_table_entries c" by (rule j(2))
  show "part_of c x \<le> OCF_USER_IO_CLASS_MAX" using i(2) x assms(2) by (auto simp: used_ok_def ran_def)
  show "core_id (seg_collision c x) = core" "core_line (seg_collision c x) = cl" using j(1) by (auto simp: holds_def)
qed

lemma counted_lines: "counted w c core p \<subseteq> {y. y < collision_table_entries c}"
  by (auto simp: counted_def)

text \<open>The lines that count when the bits of \<open>x\<close> change.\<close>

lemma counted_changed:
  assumes b: "bits_changed w x B c c'" and x: "x < collision_table_entries c" "core_id (seg_collision c x) = core" "part_of c x = p"
  shows "v \<noteq> w \<Longrightarrow> counted v c' = counted v c"
    "B = {} \<Longrightarrow> counted w c' = (counted w c)(core := (counted w c core)(p := counted w c core p - {x}))"
    "B \<noteq> {} \<Longrightarrow> counted w c' = (counted w c)(core := (counted w c core)(p := insert x (counted w c core p)))"
    "(B = {}) = (secs w c x = {}) \<Longrightarrow> counted w c' = counted w c"
  using assms by (auto simp: counted_def bits_changed_def same_geometry_def fun_eq_iff)

lemma counts_changed:
  assumes ok: "counts_ok c" and b: "bits_changed w x B c c'"
    and x: "x < collision_table_entries c" "core_id (seg_collision c x) = core" "part_of c x = p" "p \<le> OCF_USER_IO_CLASS_MAX"
    and d: "d = (if secs w c x = {} \<and> B \<noteq> {} then 1 else if secs w c x \<noteq> {} \<and> B = {} then - 1 else 0)"
    and cnt: "w = Valid \<Longrightarrow> cached_clines c' = (cached_clines c)(core := cached_clines c core + d) \<and>
        part_cached_clines c' = (part_cached_clines c)(core := (part_cached_clines c core)(p := part_cached_clines c core p + d)) \<and>
        dirty_clines c' = dirty_clines c \<and> part_dirty_clines c' = part_dirty_clines c"
      "w = Dirty \<Longrightarrow> dirty_clines c' = (dirty_clines c)(core := dirty_clines c core + d) \<and>
        part_dirty_clines c' = (part_dirty_clines c)(core := (part_dirty_clines c core)(p := part_dirty_clines c core p + d)) \<and>
        cached_clines c' = cached_clines c \<and> part_cached_clines c' = part_cached_clines c"
  shows "counts_ok c'"
proof -
  note ch = counted_changed [OF b x(1-3)]
  have step: "counters_match (T(core := T core + d)) (P(core := (P core)(p := P core p + d))) (counted w c')" if m: "counters_match T P (counted w c)" for T P
  proof -
    consider "secs w c x = {}" "B \<noteq> {}" | "secs w c x \<noteq> {}" "B = {}" | "(B = {}) = (secs w c x = {})" by blast
    then show ?thesis
    proof cases
      case 1
      have "counters_match (T(core := T core + 1)) (P(core := (P core)(p := P core p + 1)))
          ((counted w c)(core := (counted w c core)(p := insert x (counted w c core p))))"
        by (rule counters_add [OF m counted_lines x(1) _ x(4)]) (use 1 in \<open>simp add: counted_def\<close>)
      then show ?thesis using 1 ch(3) d by simp
    next
      case 2
      have "counters_match (T(core := T core - 1)) (P(core := (P core)(p := P core p - 1)))
          ((counted w c)(core := (counted w c core)(p := counted w c core p - {x})))"
        by (rule counters_sub [OF m counted_lines _ _ x(4)]) (use 2 x in \<open>auto simp: counted_def\<close>)
      then show ?thesis using 2 ch(2) d by simp
    next
      case 3
      then show ?thesis using m ch(4) d by auto
    qed
  qed
  show ?thesis
  proof (cases w)
    case Valid
    then show ?thesis using step ok cnt(1) ch(1) [of Dirty] by (simp add: counts_ok_def)
  next
    case Dirty
    then show ?thesis using step ok cnt(2) ch(1) [of Valid] by (simp add: counts_ok_def)
  qed
qed


lemma status_ok_changed:
  assumes "status_ok c" "bits_changed w x B c c'" "x < collision_table_entries c" "part_of c x \<le> OCF_USER_IO_CLASS_MAX"
    "w = Valid \<Longrightarrow> secs Dirty c x \<subseteq> B" "w = Dirty \<Longrightarrow> B \<subseteq> secs Valid c x"
  shows "status_ok c'"
  using assms user_le_freelist [OF assms(4)] by (cases w) (auto simp: status_ok_def bits_changed_def same_geometry_def)

subsection \<open>One line\<close>

lemma same_lines_bits:
  assumes s: "same_lines c c'" and i: "index_ok c" and b: "\<And>v y. secs v c' y = (if v = w \<and> y = x then B else secs v c y)"
  shows "bits_changed w x B c c'"
  unfolding bits_changed_def using s b same_lines_index(2) [OF s i] same_lines_part [OF s] by (simp add: same_lines_def)

text \<open>When a line becomes clean or dirty, it moves to the other list of its partition.\<close>

lemma bits_moved:
  assumes inv: "cache_inv c L" and s: "same_lines c d" and b: "\<And>v y. secs v d y = (if v = Dirty \<and> y = x then B else secs v c y)"
    and x: "x < collision_table_entries c"
  shows "\<exists>c'. ocf_lru_move d x (home c x) (home d x) = Some c' \<and> cache_inv c' (moved L x (home c x) (home d x)) \<and> bits_changed Dirty x B c c' \<and> lru_only d c'"
proof -
  have i: "lists_ok c L" "home_ok c L" "settings_ok c" "sizes_ok c" "index_ok c" "used_ok c" using inv by (auto simp: cache_inv_def lru_inv_def)
  note g = s [unfolded same_lines_def] and p = same_lines_part [OF s]
  have ld: "lists_ok d L" using lists_ok_cong [of d c] g i(1) by (simp add: same_geometry_def)
  have hx: "home c x \<in> lru_refs" "x \<in> set (L (home c x))" using i(2) x by (auto simp: home_ok_def home_in_refs)
  have pd: "part_of d x \<le> PARTITION_FREELIST" using i(2) x p by (auto simp: home_ok_def)
  obtain c' where m: "ocf_lru_move d x (home c x) (home d x) = Some c'" "lists_ok c' (moved L x (home c x) (home d x))" "lru_only d c'"
    using ocf_lru_move_ok [OF ld hx(1) home_in_refs [OF pd] hx(2)] by blast
  note o = lru_only_derived [OF m(3)] and f = lru_only_fields [OF m(3)]
  have gd: "same_geometry c c'" by (rule same_geometry_trans [OF _ lru_only_geometry [OF m(3)]]) (use g in simp)
  have hy: "home c' y = home c y" if "y \<noteq> x" for y using that b by (simp add: o(4)) (simp add: home_def p)
  have "home_ok c' (moved L x (home c x) (home c' x))"
    by (rule home_ok_moved [OF i(1,2) x same_geometry_derived(2) [OF gd] hy]) (use pd p in \<open>auto simp: o\<close>)
  moreover have "sizes_ok c'" using i(4) g f by (simp add: sizes_ok_def o(5)) (simp add: part_lines_def p same_geometry_def)
  moreover have ci: "index_ok c'" "index c' = index c"
    using part_frame_index [OF lru_only_part_frame [OF m(3)]] same_lines_index(1,2) [OF s] i(5) by auto
  moreover have "used_ok c'" using i(6) ci(2) same_geometry_derived(2) [OF gd] by (simp add: used_ok_def o p)
  moreover have "settings_ok c'" using i(3) same_geometry_derived(1) [OF gd] by simp
  ultimately have "cache_inv c' (moved L x (home c x) (home d x))" using m(2) by (simp add: cache_inv_def lru_inv_def o(4))
  moreover have "core_id (seg_collision c' y) = core_id (seg_collision c y)" for y
    using g part_frame_fields(2) [OF lru_only_part_frame [OF m(3)]] by simp
  then have "bits_changed Dirty x B c c'" using gd b ci(2) p by (simp add: bits_changed_def o)
  ultimately show ?thesis using m(1,3) by blast
qed

text \<open>The line of map entry \<open>i\<close> and the sectors \<open>start..stop\<close> of it.\<close>

definition at_line :: "('s :: len) ocf_cache \<Rightarrow> ocf_request \<Rightarrow> u32 \<Rightarrow> ocf_map_info \<Rightarrow> u8 \<Rightarrow> u8 \<Rightarrow> bool" where
  "at_line (c :: 's ocf_cache) req i e start stop \<longleftrightarrow> map_entry req i = Some e \<and> (\<exists>cl. index c (req_core req, cl) = Some (coll_idx e)) \<and>
     start \<le> stop \<and> unat stop < LENGTH('s)"

lemma at_line_args:
  assumes "meta_inv c L" "at_line c req i e start stop"
  shows "status_args c (coll_idx e) start stop" "coll_idx e < collision_table_entries c" "core_id (seg_collision c (coll_idx e)) = req_core req"
    "part_of c (coll_idx e) \<le> OCF_USER_IO_CLASS_MAX" "ocf_metadata_get_partition_id c (coll_idx e) = Some (part_of c (coll_idx e))"
    "map_entry req i = Some e" "index_ok c" "cache_inv c L" "status_ok c" "counts_ok c"
proof -
  show m: "cache_inv c L" "status_ok c" "counts_ok c" using assms(1) by (auto simp: meta_inv_def)
  obtain cl where cl: "index c (req_core req, cl) = Some (coll_idx e)" using assms(2) by (auto simp: at_line_def)
  note l = mapped_line [OF m(1) cl]
  show "coll_idx e < collision_table_entries c" "core_id (seg_collision c (coll_idx e)) = req_core req"
    "part_of c (coll_idx e) \<le> OCF_USER_IO_CLASS_MAX" by (rule l)+
  show "ocf_metadata_get_partition_id c (coll_idx e) = Some (part_of c (coll_idx e))" by (rule get_partition_id_part_of [OF l(1)])
  show "status_args c (coll_idx e) start stop" "map_entry req i = Some e" "index_ok c"
    using assms l(1) by (auto simp: status_args_def at_line_def meta_inv_def cache_inv_def lru_inv_def)
qed

lemma set_valid_ok:
  assumes inv: "meta_inv c L" and at: "at_line c req i e start stop"
  shows "\<exists>c'. set_cache_line_valid c start stop req i = Some c' \<and> meta_inv c' L \<and>
    bits_changed Valid (coll_idx e) (secs Valid c (coll_idx e) \<union> sec_range start stop) c c'"
proof -
  let ?x = "coll_idx e"
  let ?B = "secs Valid c ?x \<union> sec_range start stop"
  note a = at_line_args [OF inv at]
  have ne: "?B \<noteq> {}" using at by (auto simp: at_line_def sec_range_def word_le_nat_alt)
  obtain d where d: "metadata_set_valid_sec_changed c ?x start stop = Some (d, secs Valid c ?x = {})" "status_change Valid ?x ?B c d"
    using metadata_set_valid_sec_changed_secs [OF a(1)] by blast
  define c' where "c' = (if secs Valid c ?x = {} then count_cached (req_core req) (part_of c ?x) 1 d else d)"
  have sl: "same_lines c c'" using same_lines_trans [OF status_change_lines [OF d(2)]] status_change_lines [OF d(2)] by (simp add: c'_def)
  have sec: "secs v c' y = (if v = Valid \<and> y = ?x then ?B else secs v c y)" for v y
    using status_change_secs [OF d(2)] by (simp add: c'_def)
  have b: "bits_changed Valid ?x ?B c c'" by (rule same_lines_bits [OF sl a(7) sec])
  have "set_cache_line_valid c start stop req i = Some c'" using a(5,6) d(1) by (simp add: set_cache_line_valid_def c'_def)
  moreover have "cache_inv c' L"
    using a(8) same_lines_index [OF sl] same_lines_lru [OF sl] sec by (simp add: cache_inv_def)
  moreover have "counts_ok c'"
    by (rule counts_changed [OF a(10) b a(2,3) refl a(4) refl])
      (use ne status_change_frame(10) [OF d(2)] d(2) in \<open>auto simp: c'_def count_cached_def status_change_def\<close>)
  moreover have "status_ok c'" using a(2,9) by (intro status_ok_changed [OF a(9) b a(2,4)]) (auto simp: status_ok_def)
  ultimately show ?thesis using b by (simp add: meta_inv_def)
qed


lemma user_home: "part_of c x \<le> OCF_USER_IO_CLASS_MAX \<Longrightarrow>
    home c x = ocf_lru_get_list (part_of c x) (x mod OCF_NUM_LRU_LISTS) (secs Dirty c x = {})"
  by (simp add: home_def)

lemma status_change_counters:
  assumes "status_change w x S c c'"
  shows "cached_clines c' = cached_clines c" "part_cached_clines c' = part_cached_clines c" "dirty_clines c' = dirty_clines c"
    "part_dirty_clines c' = part_dirty_clines c" "dirty_since c' = dirty_since c"
  using assms by (cases w; auto simp: status_change_def)+

lemma lru_only_counters:
  assumes "lru_only c c'"
  shows "cached_clines c' = cached_clines c" "part_cached_clines c' = part_cached_clines c" "dirty_clines c' = dirty_clines c"
    "part_dirty_clines c' = part_dirty_clines c"
  using part_frame_fields [OF lru_only_part_frame [OF assms]] by simp_all

lemma flush_mark_ok:
  assumes "map_entry req i = Some e"
  shows "ocf_metadata_flush_mark req i INVALID = Some req"
    "s = CLEAN \<or> s = DIRTY \<Longrightarrow> ocf_metadata_flush_mark req i s =
      Some (req\<lparr>req_map := (req_map req)[unat i := e\<lparr>m_flush := True\<rparr>], req_info := (req_info req)\<lparr>flush_metadata := True\<rparr>\<rparr>)"
  using assms by (auto simp: ocf_metadata_flush_mark_def info_if_def set_map_entry_def)

text \<open>The entry is marked when its dirty bits change.\<close>

definition flush_marked :: "ocf_request \<Rightarrow> u32 \<Rightarrow> ocf_map_info \<Rightarrow> bool \<Rightarrow> ocf_request" where
  "flush_marked req i e b = (if b then req\<lparr>req_map := (req_map req)[unat i := e\<lparr>m_flush := True\<rparr>],
     req_info := (req_info req)\<lparr>flush_metadata := True\<rparr>\<rparr> else req)"

lemma set_dirty_ok:
  assumes inv: "meta_inv c L" and at: "at_line c req i e start stop" and v: "sec_range start stop \<subseteq> secs Valid c (coll_idx e)"
  shows "\<exists>c' L'. set_cache_line_dirty now c start stop req i =
      Some (c', flush_marked req i e (\<not> sec_range start stop \<subseteq> secs Dirty c (coll_idx e))) \<and> meta_inv c' L' \<and>
    bits_changed Dirty (coll_idx e) (secs Dirty c (coll_idx e) \<union> sec_range start stop) c c'"
proof -
  let ?x = "coll_idx e" and ?R = "sec_range start stop"
  let ?B = "secs Dirty c ?x \<union> ?R" and ?p = "part_of c ?x" and ?q = "req_core req"
  note a = at_line_args [OF inv at]
  have ne: "?R \<noteq> {}" "?B \<noteq> {}" using at by (auto simp: at_line_def sec_range_def word_le_nat_alt)
  obtain d where d: "metadata_set_dirty_sec_changed c ?x start stop = Some (d, \<not> ?R \<subseteq> secs Dirty c ?x, secs Dirty c ?x \<noteq> {})" "status_change Dirty ?x ?B c d"
    using metadata_set_dirty_sec_changed_secs [OF a(1)] by blast
  note dl = status_change_lines [OF d(2)] and ds = status_change_secs [OF d(2)] and dc = status_change_counters [OF d(2)]
  have st: "status_ok c'" if "bits_changed Dirty ?x ?B c c'" for c'
    using a(2,9) v by (intro status_ok_changed [OF a(9) that a(2,4)]) (auto simp: status_ok_def)
  show ?thesis
  proof (cases "secs Dirty c ?x = {}")
    case False
    have b: "bits_changed Dirty ?x ?B c d" by (rule same_lines_bits [OF dl a(7) ds])
    have "set_cache_line_dirty now c start stop req i = Some (d, flush_marked req i e (\<not> ?R \<subseteq> secs Dirty c ?x))"
      using a(4-6) d(1) False flush_mark_ok(2) [OF a(6), of DIRTY] by (auto simp: set_cache_line_dirty_def flush_marked_def)
    moreover have "cache_inv d L" using a(8) same_lines_index [OF dl] same_lines_lru [OF dl] ds False by (simp add: cache_inv_def)
    moreover have "counts_ok d" by (rule counts_changed [OF a(10) b a(2,3) refl a(4) refl]) (use False dc in auto)
    ultimately show ?thesis using b st [OF b] by (auto simp: meta_inv_def)
  next
    case True
    have nr: "\<not> ?R \<subseteq> secs Dirty c ?x" using True ne by simp
    define k where "k = count_dirty ?q ?p 1 (if dirty_since d ?q = 0 then d\<lparr>dirty_since := (dirty_since d)(?q := now)\<rparr> else d)"
    have kl: "same_lines c k" unfolding k_def by (rule same_lines_trans [OF same_lines_trans [OF dl] count_frame(2)]) simp
    have ks: "secs v k y = (if v = Dirty \<and> y = ?x then ?B else secs v c y)" for v y using ds by (simp add: k_def)
    have hk: "home k ?x = ocf_lru_get_list ?p (?x mod OCF_NUM_LRU_LISTS) False" "home c ?x = ocf_lru_get_list ?p (?x mod OCF_NUM_LRU_LISTS) True"
      using True ne ks same_lines_part [OF kl] by (simp_all add: home_def)
    obtain c' where m: "ocf_lru_move k ?x (home c ?x) (home k ?x) = Some c'" "cache_inv c' (moved L ?x (home c ?x) (home k ?x))"
      "bits_changed Dirty ?x ?B c c'" "lru_only k c'"
      using bits_moved [OF a(8) kl ks a(2)] by blast
    have "set_cache_line_dirty now c start stop req i = Some (c', flush_marked req i e (\<not> ?R \<subseteq> secs Dirty c ?x))"
      using a(4-6) d(1) True nr flush_mark_ok(2) [OF a(6), of DIRTY] m(1) [unfolded hk, unfolded k_def]
      by (simp add: set_cache_line_dirty_def flush_marked_def ocf_lru_clean_dirty_move Let_def split: if_splits)
    moreover have "counts_ok c'"
      by (rule counts_changed [OF a(10) m(3) a(2,3) refl a(4) refl])
        (use True ne dc lru_only_counters [OF m(4)] in \<open>auto simp: k_def count_dirty_def\<close>)
    ultimately show ?thesis using m(2,3) st [OF m(3)] by (auto simp: meta_inv_def)
  qed
qed

lemma set_clean_ok:
  assumes inv: "meta_inv c L" and at: "at_line c req i e start stop"
  shows "\<exists>c' L'. set_cache_line_clean c start stop req i =
      Some (c', flush_marked req i e (secs Dirty c (coll_idx e) \<inter> sec_range start stop \<noteq> {})) \<and> meta_inv c' L' \<and>
    bits_changed Dirty (coll_idx e) (secs Dirty c (coll_idx e) - sec_range start stop) c c'"
proof -
  let ?x = "coll_idx e" and ?R = "sec_range start stop"
  let ?B = "secs Dirty c ?x - ?R" and ?p = "part_of c ?x" and ?q = "req_core req"
  note a = at_line_args [OF inv at]
  obtain d where d: "metadata_clear_dirty_sec_changed c ?x start stop = Some (d, secs Dirty c ?x \<inter> ?R \<noteq> {}, secs Dirty d ?x = {})" "status_change Dirty ?x ?B c d"
    using metadata_clear_dirty_sec_changed_secs [OF a(1)] by blast
  note dl = status_change_lines [OF d(2)] and ds = status_change_secs [OF d(2)] and dc = status_change_counters [OF d(2)]
  have st: "status_ok c'" if "bits_changed Dirty ?x ?B c c'" for c'
    using a(2,9) by (intro status_ok_changed [OF a(9) that a(2,4)]) (auto simp: status_ok_def)
  show ?thesis
  proof (cases "secs Dirty c ?x \<noteq> {} \<and> ?B = {}")
    case False
    then have same: "(?B = {}) = (secs Dirty c ?x = {})" by auto
    have b: "bits_changed Dirty ?x ?B c d" by (rule same_lines_bits [OF dl a(7) ds])
    have "set_cache_line_clean c start stop req i = Some (d, flush_marked req i e (secs Dirty c ?x \<inter> ?R \<noteq> {}))"
      using a(4-6) d(1) False ds flush_mark_ok(2) [OF a(6), of CLEAN] by (auto simp: set_cache_line_clean_def flush_marked_def)
    moreover have "cache_inv d L" using a(8) same_lines_index [OF dl] same_lines_lru [OF dl] ds same by (simp add: cache_inv_def)
    moreover have "counts_ok d" by (rule counts_changed [OF a(10) b a(2,3) refl a(4) refl]) (use same dc in auto)
    ultimately show ?thesis using b st [OF b] by (auto simp: meta_inv_def)
  next
    case True
    then have nr: "secs Dirty c ?x \<inter> ?R \<noteq> {}" by auto
    define j where "j = count_dirty ?q ?p (- 1) d"
    define k where "k = (if dirty_clines j ?q = 0 then j\<lparr>dirty_since := (dirty_since j)(?q := 0)\<rparr> else j)"
    have jl: "same_lines c j" unfolding j_def by (rule same_lines_trans [OF dl]) simp
    have kl: "same_lines c k" unfolding k_def using same_lines_trans [OF jl] jl by simp
    have ks: "secs v k y = (if v = Dirty \<and> y = ?x then ?B else secs v c y)" for v y using ds by (simp add: k_def j_def)
    have hk: "home k ?x = ocf_lru_get_list ?p (?x mod OCF_NUM_LRU_LISTS) True" "home c ?x = ocf_lru_get_list ?p (?x mod OCF_NUM_LRU_LISTS) False"
      using True ks same_lines_part [OF kl] by (simp_all add: home_def)
    obtain c' where m: "ocf_lru_move k ?x (home c ?x) (home k ?x) = Some c'" "cache_inv c' (moved L ?x (home c ?x) (home k ?x))"
      "bits_changed Dirty ?x ?B c c'" "lru_only k c'"
      using bits_moved [OF a(8) kl ks a(2)] by blast
    have "set_cache_line_clean c start stop req i = Some (c', flush_marked req i e (secs Dirty c ?x \<inter> ?R \<noteq> {}))"
      using a(4-6) d(1) True nr ds flush_mark_ok(2) [OF a(6), of CLEAN] m(1) [unfolded hk, unfolded k_def]
      by (simp add: set_cache_line_clean_def flush_marked_def ocf_lru_clean_dirty_move j_def [symmetric] Let_def split: if_splits)
    moreover have "counts_ok c'"
      by (rule counts_changed [OF a(10) m(3) a(2,3) refl a(4) refl])
        (use True dc lru_only_counters [OF m(4)] in \<open>auto simp: k_def j_def count_dirty_def\<close>)
    ultimately show ?thesis using m(2,3) st [OF m(3)] by (auto simp: meta_inv_def)
  qed
qed


text \<open>Removing a line that holds nothing: it goes to the free list and is not mapped any more.\<close>

definition unmapped_line :: "u16 \<times> u64 \<Rightarrow> u32 \<Rightarrow> ('s :: len) ocf_cache \<Rightarrow> 's ocf_cache \<Rightarrow> bool" where
  "unmapped_line k x c c' \<longleftrightarrow> index c' = (index c)(k := None) \<and> (\<forall>v y. secs v c' y = secs v c y) \<and> same_geometry c c' \<and>
     (\<forall>y. part_of c' y = (if y = x then PARTITION_FREELIST else part_of c y)) \<and> (\<forall>y. y \<noteq> x \<longrightarrow> seg_collision c' y = seg_collision c y)"

lemma remove_line_ok:
  assumes inv: "metadata_ok exact c L" and k: "index c k = Some x" and e: "secs Valid c x = {}"
  shows "\<exists>c' L'. (ocf_lru_rm_cline c x \<bind> (\<lambda>cache. ocf_metadata_remove_cache_line cache x)) = Some c' \<and> metadata_ok exact c' L' \<and> unmapped_line k x c c'"
proof -
  have i: "cache_inv c L" "lru_inv c L" "index_ok c" "used_ok c" "status_ok c" "exact \<longrightarrow> counts_ok c" using inv by (auto simp: metadata_ok_def cache_inv_def)
  obtain core cl where kk: "k = (core, cl)" by (cases k)
  note l = mapped_line [OF i(1) k [unfolded kk]]
  obtain d M where d: "ocf_lru_rm_cline c x = Some d" "lru_inv d M" "part_frame c d" "\<forall>y. part_of d y = (if y = x then PARTITION_FREELIST else part_of c y)"
    using ocf_lru_rm_cline_ok [OF i(2) l(1,4)] by blast
  note di = part_frame_index [OF d(3) i(3)] and df = part_frame_fields [OF d(3)]
  obtain c' where r: "ocf_metadata_remove_cache_line d x = Some c'" "index_ok c'" "index c' = (index c)(k := None)" "coll_frame d c'"
    "core_id (seg_collision c' x) = OCF_CORE_MAX" "\<forall>y. y \<noteq> x \<longrightarrow> seg_collision c' y = seg_collision d y"
    using remove_cache_line_ok [OF di(1), of k x] k di(2) by auto
  note f = coll_frame_fields [OF r(4)] and fd = coll_frame_derived [OF r(4)]
  have po: "part_of c' y = (if y = x then PARTITION_FREELIST else part_of c y)" for y using d(4) fd(2) by simp
  have sec: "secs v c' y = secs v c y" for v y by (simp add: fd(3) part_frame_secs [OF d(3)])
  have g: "same_geometry c c'" by (rule same_geometry_trans [OF part_frame_geometry [OF d(3)] coll_frame_geometry [OF r(4)]])
  have xs: "secs v c x = {}" for v using e i(5) l(1) by (cases v) (auto simp: status_ok_def)
  have nf: "\<not> PARTITION_FREELIST \<le> OCF_USER_IO_CLASS_MAX" using user_le_freelist by blast
  have "x \<notin> ran ((index c)(k := None))" using index_inj(1) [OF i(3) k] by (auto simp: ran_def split: if_splits)
  moreover have "y \<in> ran ((index c)(k := None)) \<longleftrightarrow> y \<in> ran (index c)" if "y \<noteq> x" for y
    using that k unfolding ran_def by auto (metis option.inject)
  ultimately have "used_ok c'" using i(4) nf same_geometry_derived(2) [OF g] by (auto simp: used_ok_def r(3) po)
  moreover have "counted v c' = counted v c" for v
    using xs r(6) df(2) same_geometry_derived(2) [OF g] by (force simp: counted_def sec po fun_eq_iff)
  then have "exact \<longrightarrow> counts_ok c'" using i(6) f df by (simp add: counts_ok_def)
  moreover have "status_ok c'" using i(5) e same_geometry_derived(2) [OF g] by (simp add: status_ok_def sec po)
  moreover have "lru_inv c' M" using d(2) fd(6) by simp
  ultimately have "metadata_ok exact c' M" using r(2) by (simp add: metadata_ok_def cache_inv_def)
  moreover have "unmapped_line k x c c'" using r(3,6) df(2) g po sec by (simp add: unmapped_line_def)
  ultimately show ?thesis using d(1) r(1) by auto
qed

lemma set_invalid_core_any:
  assumes inv: "metadata_ok exact c L" and k: "index c (core, cl) = Some x" and cm: "core < OCF_CORE_MAX" and a: "status_args c x start stop"
    and D: "secs Dirty c x \<inter> sec_range start stop = {}" and w: "ocf_cache_line_are_waiters al x = Some waiters"
  shows "\<exists>c1 c' L'. set_cache_line_invalid_core c al start stop x core (part_of c x) = Some c' \<and> metadata_ok exact c' L' \<and>
    bits_changed Valid x (secs Valid c x - sec_range start stop) c c1 \<and>
    (if secs Valid c x \<subseteq> sec_range start stop \<and> \<not> waiters then unmapped_line (core, cl) x c1 c' else c' = c1)"
proof -
  let ?B = "secs Valid c x - sec_range start stop" and ?p = "part_of c x"
  have i: "cache_inv c L" "index_ok c" "status_ok c" "exact \<longrightarrow> counts_ok c" using inv by (auto simp: metadata_ok_def cache_inv_def)
  note l = mapped_line [OF i(1) k]
  obtain d where d: "metadata_clear_valid_sec_changed c x start stop = Some (d, secs Valid c x \<noteq> {} \<and> secs Valid d x = {}, secs Valid d x \<noteq> {})"
    "status_change Valid x ?B c d"
    using metadata_clear_valid_sec_changed_secs [OF a] by blast
  note dl = status_change_lines [OF d(2)] and ds = status_change_secs [OF d(2)] and dc = status_change_counters [OF d(2)]
  define c1 where "c1 = (if secs Valid c x \<noteq> {} \<and> secs Valid d x = {} then count_cached core ?p (- 1) d else d)"
  have sl: "same_lines c c1" using same_lines_trans [OF dl] dl by (simp add: c1_def)
  have sec: "secs v c1 y = (if v = Valid \<and> y = x then ?B else secs v c y)" for v y using ds by (simp add: c1_def)
  have b: "bits_changed Valid x ?B c c1" by (rule same_lines_bits [OF sl i(2) sec])
  have "cache_inv c1 L" using i(1) same_lines_index [OF sl] same_lines_lru [OF sl] sec by (simp add: cache_inv_def)
  moreover have "counts_ok c1" if exact
    by (rule counts_changed [OF _ b l(1,2) refl l(4) refl]) (use that i(4) dc ds in \<open>auto simp: c1_def count_cached_def\<close>)
  moreover have "status_ok c1" using i(3) l(1) D by (intro status_ok_changed [OF i(3) b l(1,4)]) (auto simp: status_ok_def)
  ultimately have m1: "metadata_ok exact c1 L" by (simp add: metadata_ok_def)
  have k1: "index c1 (core, cl) = Some x" using b k by (simp add: bits_changed_def)
  have step: "set_cache_line_invalid_core c al start stop x core ?p =
      (if secs Valid c1 x = {} \<and> \<not> waiters then ocf_lru_rm_cline c1 x \<bind> (\<lambda>cache. ocf_metadata_remove_cache_line cache x) else Some c1)"
    using cm d(1) w sec [of Valid x] ds [of Valid x] by (simp add: set_cache_line_invalid_core_def c1_def Let_def)
  have em: "secs Valid c1 x = {} \<longleftrightarrow> secs Valid c x \<subseteq> sec_range start stop" using sec [of Valid x] by auto
  show ?thesis
  proof (cases "secs Valid c1 x = {} \<and> \<not> waiters")
    case True
    obtain c' L' where "(ocf_lru_rm_cline c1 x \<bind> (\<lambda>cache. ocf_metadata_remove_cache_line cache x)) = Some c'" "metadata_ok exact c' L'" "unmapped_line (core, cl) x c1 c'"
      using remove_line_ok [OF m1 k1] True by blast
    then show ?thesis using step em True b by (intro exI [of _ c1] exI [of _ c'] exI [of _ L']) simp
  next
    case False
    then show ?thesis using step em b m1 by (intro exI [of _ c1] exI [of _ c1] exI [of _ L]) auto
  qed
qed

lemmas set_invalid_core_ok = set_invalid_core_any [of True, unfolded metadata_ok_exact]


subsection \<open>All lines of a request\<close>

definition mapped_req :: "('s :: len) ocf_cache \<Rightarrow> ocf_request \<Rightarrow> bool" where
  "mapped_req c req \<longleftrightarrow> req_shape c req \<and> (\<forall>i<unat (core_line_count req). status (req_map req ! i) \<noteq> LOOKUP_MISS \<and>
     index c (req_core req, core_line_first req + of_nat i) = Some (coll_idx (req_map req ! i)))"

lemma mapped_req_at:
  assumes m: "mapped_req c req" and i: "i < unat (core_line_count req)"
  shows "at_line c req (of_nat i) (req_map req ! i) (ocf_map_line_start_sector c req (of_nat i)) (ocf_map_line_end_sector c req (of_nat i))"
    "unat (of_nat i :: u32) = i"
proof -
  show u: "unat (of_nat i :: u32) = i"
    using i unsigned_less [of "core_line_count req", where ?'a = nat] by (simp add: unat_of_nat take_bit_nat_eq_self)
  show "at_line c req (of_nat i) (req_map req ! i) (ocf_map_line_start_sector c req (of_nat i)) (ocf_map_line_end_sector c req (of_nat i))"
    using m i u by (auto simp: at_line_def mapped_req_def req_shape_def map_entry_def)
qed

text \<open>The bits \<open>w\<close> of every line \<open>y\<close> become \<open>f y\<close>.\<close>

definition lines_changed :: "what \<Rightarrow> (u32 \<Rightarrow> nat set) \<Rightarrow> ('s :: len) ocf_cache \<Rightarrow> 's ocf_cache \<Rightarrow> bool" where
  "lines_changed w f c c' \<longleftrightarrow> (\<forall>v y. secs v c' y = (if v = w then f y else secs v c y)) \<and> index c' = index c \<and> same_geometry c c' \<and>
     (\<forall>y. part_of c' y = part_of c y)"

lemma bits_then_lines:
  assumes "bits_changed w x B c d" "lines_changed w f d e"
  shows "lines_changed w f c e"
  using assms by (auto simp: bits_changed_def lines_changed_def intro: same_geometry_trans)

lemma bits_mapped: "bits_changed w x B c d \<Longrightarrow> mapped_req d req = mapped_req c req"
  by (auto simp: mapped_req_def bits_changed_def same_geometry_derived)

text \<open>The sectors that the map entries \<open>is\<close> cover of a line.\<close>

definition cover :: "('s :: len) ocf_cache \<Rightarrow> ocf_request \<Rightarrow> nat list \<Rightarrow> u32 \<Rightarrow> nat set" where
  "cover c req is y = (\<Union>i\<in>{i \<in> set is. coll_idx (req_map req ! i) = y}. req_secs c req i)"

lemma cover_simps [simp]:
  "cover c req [] y = {}"
  "cover c req (i # is) y = (if coll_idx (req_map req ! i) = y then req_secs c req i else {}) \<union> cover c req is y"
  by (auto simp: cover_def)

lemma cover_geometry: "same_geometry c d \<Longrightarrow> cover d req = cover c req"
  by (simp add: cover_def same_geometry_derived fun_eq_iff)

lemma set_valid_loop_ok:
  assumes "meta_inv c L" "mapped_req c req" "\<forall>i\<in>set is. i < unat (core_line_count req)"
  shows "\<exists>c'. set_valid_loop is req c = Some c' \<and> meta_inv c' L \<and> lines_changed Valid (\<lambda>y. secs Valid c y \<union> cover c req is y) c c'"
  using assms
proof (induction "is" arbitrary: c)
  case Nil
  then show ?case by (auto simp: lines_changed_def)
next
  case (Cons i is')
  have i: "i < unat (core_line_count req)" using Cons.prems(3) by simp
  note at = mapped_req_at [OF Cons.prems(2) i]
  have me: "map_entry req (of_nat i) = Some (req_map req ! i)" "status (req_map req ! i) \<noteq> LOOKUP_MISS"
    using at(1) Cons.prems(2) i by (auto simp: at_line_def mapped_req_def)
  obtain d where d: "set_cache_line_valid c (ocf_map_line_start_sector c req (of_nat i)) (ocf_map_line_end_sector c req (of_nat i)) req (of_nat i) = Some d"
    "meta_inv d L" "bits_changed Valid (coll_idx (req_map req ! i)) (secs Valid c (coll_idx (req_map req ! i)) \<union> req_secs c req i) c d"
    using set_valid_ok [OF Cons.prems(1) at(1)] unfolding req_secs_def by blast
  have g: "same_geometry c d" using d(3) by (simp add: bits_changed_def)
  obtain c' where c': "set_valid_loop is' req d = Some c'" "meta_inv c' L" "lines_changed Valid (\<lambda>y. secs Valid d y \<union> cover d req is' y) d c'"
    using Cons.IH [OF d(2)] Cons.prems(2,3) bits_mapped [OF d(3)] by auto
  have "lines_changed Valid (\<lambda>y. secs Valid d y \<union> cover d req is' y) c c'" by (rule bits_then_lines [OF d(3) c'(3)])
  moreover have "(\<lambda>y. secs Valid d y \<union> cover d req is' y) = (\<lambda>y. secs Valid c y \<union> cover c req (i # is') y)"
    using d(3) cover_geometry [OF g] by (auto simp: bits_changed_def fun_eq_iff)
  ultimately show ?case using d(1) c'(1,2) me by auto
qed

text \<open>Marking entries does not change what they map.\<close>

definition same_map :: "ocf_request \<Rightarrow> ocf_request \<Rightarrow> bool" where
  "same_map req req' \<longleftrightarrow> (\<exists>m f. req' = req\<lparr>req_map := m, req_info := f\<rparr> \<and> length m = length (req_map req) \<and>
     (\<forall>i<length m. status (m ! i) = status (req_map req ! i) \<and> coll_idx (m ! i) = coll_idx (req_map req ! i)))"

lemma same_map_refl [simp]: "same_map req req"
  unfolding same_map_def by (intro exI [of _ "req_map req"] exI [of _ "req_info req"]) simp

lemma same_map_trans:
  assumes "same_map r1 r2" "same_map r2 r3"
  shows "same_map r1 r3"
proof -
  obtain m f where r2: "r2 = r1\<lparr>req_map := m, req_info := f\<rparr>" "length m = length (req_map r1)"
    "\<forall>i<length m. status (m ! i) = status (req_map r1 ! i) \<and> coll_idx (m ! i) = coll_idx (req_map r1 ! i)"
    using assms(1) unfolding same_map_def by blast
  obtain m' f' where r3: "r3 = r2\<lparr>req_map := m', req_info := f'\<rparr>" "length m' = length (req_map r2)"
    "\<forall>i<length m'. status (m' ! i) = status (req_map r2 ! i) \<and> coll_idx (m' ! i) = coll_idx (req_map r2 ! i)"
    using assms(2) unfolding same_map_def by blast
  show ?thesis unfolding same_map_def using r2 r3 by (intro exI [of _ m'] exI [of _ f']) simp
qed

lemma flush_marked_same:
  assumes "map_entry req i = Some e"
  shows "same_map req (flush_marked req i e b)"
proof (cases b)
  case True
  have "unat i < length (req_map req)" "e = req_map req ! unat i" using assms by (auto simp: map_entry_def split: if_splits)
  then show ?thesis unfolding same_map_def flush_marked_def using True
    by (intro exI [of _ "(req_map req)[unat i := e\<lparr>m_flush := True\<rparr>]"] exI [of _ "(req_info req)\<lparr>flush_metadata := True\<rparr>"])
      (auto simp: nth_list_update)
qed (simp add: flush_marked_def)

lemma same_map_fields:
  assumes "same_map req req'"
  shows "core_line_count req' = core_line_count req" "core_line_first req' = core_line_first req" "req_core req' = req_core req"
    "req_shape c req' = req_shape c req" "req_secs c req' = req_secs c req" "mapped_req c req' = mapped_req c req"
    "mapped_req c req \<Longrightarrow> \<forall>i\<in>set is. i < unat (core_line_count req) \<Longrightarrow> cover c req' is = cover c req is"
    "ocf_map_line_start_sector c req' = ocf_map_line_start_sector c req" "ocf_map_line_end_sector c req' = ocf_map_line_end_sector c req"
proof -
  obtain m f where r: "req' = req\<lparr>req_map := m, req_info := f\<rparr>" "length m = length (req_map req)"
    "\<And>i. i < length m \<Longrightarrow> status (m ! i) = status (req_map req ! i) \<and> coll_idx (m ! i) = coll_idx (req_map req ! i)"
    using assms unfolding same_map_def by blast
  show "core_line_count req' = core_line_count req" "core_line_first req' = core_line_first req" "req_core req' = req_core req" by (simp_all add: r(1))
  show sh: "req_shape c req' = req_shape c req" using r(2) by (simp add: r(1))
  show rs: "req_secs c req' = req_secs c req" by (simp add: r(1))
  show "mapped_req c req' = mapped_req c req" unfolding mapped_req_def sh using r(2,3) by (auto simp: r(1) req_shape_def)
  show "cover c req' is = cover c req is" if "mapped_req c req" "\<forall>i\<in>set is. i < unat (core_line_count req)"
  proof -
    have "coll_idx (req_map req' ! i) = coll_idx (req_map req ! i)" if "i \<in> set is" for i
      using that r \<open>mapped_req c req\<close> \<open>\<forall>i\<in>set is. _\<close> by (auto simp: mapped_req_def req_shape_def)
    then show ?thesis by (auto simp: cover_def fun_eq_iff rs)
  qed
  show "ocf_map_line_start_sector c req' = ocf_map_line_start_sector c req" "ocf_map_line_end_sector c req' = ocf_map_line_end_sector c req"
    by (simp_all add: r(1) fun_eq_iff)
qed


lemma set_dirty_loop_ok:
  assumes "meta_inv c L" "mapped_req c req" "\<forall>i\<in>set is. i < unat (core_line_count req)"
    "\<forall>i\<in>set is. req_secs c req i \<subseteq> secs Valid c (coll_idx (req_map req ! i))"
  shows "\<exists>c' req' L'. set_dirty_loop now is (c, req) = Some (c', req') \<and> meta_inv c' L' \<and> same_map req req' \<and>
    lines_changed Dirty (\<lambda>y. secs Dirty c y \<union> cover c req is y) c c'"
  using assms
proof (induction "is" arbitrary: c req L)
  case Nil
  then show ?case by (auto simp: lines_changed_def)
next
  case (Cons i is')
  let ?e = "req_map req ! i"
  have i: "i < unat (core_line_count req)" using Cons.prems(3) by simp
  note at = mapped_req_at [OF Cons.prems(2) i]
  obtain d M b where d: "set_cache_line_dirty now c (ocf_map_line_start_sector c req (of_nat i)) (ocf_map_line_end_sector c req (of_nat i)) req (of_nat i) =
      Some (d, flush_marked req (of_nat i) ?e b)" "meta_inv d M"
    "bits_changed Dirty (coll_idx ?e) (secs Dirty c (coll_idx ?e) \<union> req_secs c req i) c d"
    using set_dirty_ok [OF Cons.prems(1) at(1), of now] Cons.prems(4) unfolding req_secs_def by auto
  define r where "r = flush_marked req (of_nat i) ?e b"
  have r: "same_map req r" unfolding r_def by (rule flush_marked_same) (use at(1) in \<open>simp add: at_line_def\<close>)
  note rf = same_map_fields [OF r]
  have g: "same_geometry c d" using d(3) by (simp add: bits_changed_def)
  have is': "\<forall>j\<in>set is'. j < unat (core_line_count req)" using Cons.prems(3) by simp
  have md: "mapped_req d r" using Cons.prems(2) by (simp add: bits_mapped [OF d(3)] rf(6))
  have v: "req_secs d r j \<subseteq> secs Valid d (coll_idx (req_map r ! j))" if "j \<in> set is'" for j
  proof -
    have "coll_idx (req_map r ! j) = coll_idx (req_map req ! j)"
      using r is' that Cons.prems(2) by (auto simp: same_map_def mapped_req_def req_shape_def)
    then show ?thesis using Cons.prems(4) that d(3) by (simp add: bits_changed_def rf(5) same_geometry_derived(7) [OF g])
  qed
  obtain c' req' L' where c': "set_dirty_loop now is' (d, r) = Some (c', req')" "meta_inv c' L'" "same_map r req'"
    "lines_changed Dirty (\<lambda>y. secs Dirty d y \<union> cover d r is' y) d c'"
    using Cons.IH [OF d(2) md] is' v rf(1) by auto
  have "lines_changed Dirty (\<lambda>y. secs Dirty d y \<union> cover d r is' y) c c'" by (rule bits_then_lines [OF d(3) c'(4)])
  moreover have "(\<lambda>y. secs Dirty d y \<union> cover d r is' y) = (\<lambda>y. secs Dirty c y \<union> cover c req (i # is') y)"
    using d(3) cover_geometry [OF g] rf(7) [OF Cons.prems(2) is'] by (auto simp: bits_changed_def fun_eq_iff)
  ultimately have "lines_changed Dirty (\<lambda>y. secs Dirty c y \<union> cover c req (i # is') y) c c'" by simp
  moreover have "set_dirty_loop now (i # is') (c, req) = Some (c', req')" using d(1) c'(1) by (simp add: r_def)
  ultimately show ?case using c'(2) same_map_trans [OF r c'(3)] by blast
qed

lemma set_clean_loop_ok:
  assumes "meta_inv c L" "mapped_req c req" "\<forall>i\<in>set is. i < unat (core_line_count req)"
  shows "\<exists>c' req' L'. set_clean_loop is (c, req) = Some (c', req') \<and> meta_inv c' L' \<and> same_map req req' \<and>
    lines_changed Dirty (\<lambda>y. secs Dirty c y - cover c req is y) c c'"
  using assms
proof (induction "is" arbitrary: c req L)
  case Nil
  then show ?case by (auto simp: lines_changed_def)
next
  case (Cons i is')
  let ?e = "req_map req ! i"
  have i: "i < unat (core_line_count req)" using Cons.prems(3) by simp
  note at = mapped_req_at [OF Cons.prems(2) i]
  obtain d M b where d: "set_cache_line_clean c (ocf_map_line_start_sector c req (of_nat i)) (ocf_map_line_end_sector c req (of_nat i)) req (of_nat i) =
      Some (d, flush_marked req (of_nat i) ?e b)" "meta_inv d M"
    "bits_changed Dirty (coll_idx ?e) (secs Dirty c (coll_idx ?e) - req_secs c req i) c d"
    using set_clean_ok [OF Cons.prems(1) at(1)] unfolding req_secs_def by auto
  define r where "r = flush_marked req (of_nat i) ?e b"
  have r: "same_map req r" unfolding r_def by (rule flush_marked_same) (use at(1) in \<open>simp add: at_line_def\<close>)
  note rf = same_map_fields [OF r]
  have g: "same_geometry c d" using d(3) by (simp add: bits_changed_def)
  have is': "\<forall>j\<in>set is'. j < unat (core_line_count req)" using Cons.prems(3) by simp
  have md: "mapped_req d r" using Cons.prems(2) by (simp add: bits_mapped [OF d(3)] rf(6))
  obtain c' req' L' where c': "set_clean_loop is' (d, r) = Some (c', req')" "meta_inv c' L'" "same_map r req'"
    "lines_changed Dirty (\<lambda>y. secs Dirty d y - cover d r is' y) d c'"
    using Cons.IH [OF d(2) md] is' rf(1) by auto
  have "lines_changed Dirty (\<lambda>y. secs Dirty d y - cover d r is' y) c c'" by (rule bits_then_lines [OF d(3) c'(4)])
  moreover have "(\<lambda>y. secs Dirty d y - cover d r is' y) = (\<lambda>y. secs Dirty c y - cover c req (i # is') y)"
    using d(3) cover_geometry [OF g] rf(7) [OF Cons.prems(2) is'] by (auto simp: bits_changed_def fun_eq_iff)
  ultimately have "lines_changed Dirty (\<lambda>y. secs Dirty c y - cover c req (i # is') y) c c'" by simp
  moreover have "set_clean_loop (i # is') (c, req) = Some (c', req')" using d(1) c'(1) by (simp add: r_def)
  ultimately show ?case using c'(2) same_map_trans [OF r c'(3)] by blast
qed


text \<open>What the cache holds of a mapped request after its bits have changed.\<close>

lemma cover_key:
  assumes m: "mapped_req c req" and i: "index_ok c" "index c (k, cl) = Some x"
  shows "t \<in> cover c req [0..<unat (core_line_count req)] x \<longleftrightarrow>
    k = req_core req \<and> (\<exists>i<unat (core_line_count req). cl = core_line_first req + of_nat i \<and> t \<in> req_secs c req i)"
proof -
  have "coll_idx (req_map req ! j) = x \<longleftrightarrow> k = req_core req \<and> cl = core_line_first req + of_nat j" if j: "j < unat (core_line_count req)" for j
  proof
    assume "coll_idx (req_map req ! j) = x"
    then have "index c (req_core req, core_line_first req + of_nat j) = Some x" using m j by (auto simp: mapped_req_def)
    then have "(k, cl) = (req_core req, core_line_first req + of_nat j)" using index_inj(1) [OF i] by blast
    then show "k = req_core req \<and> cl = core_line_first req + of_nat j" by simp
  next
    assume "k = req_core req \<and> cl = core_line_first req + of_nat j"
    then show "coll_idx (req_map req ! j) = x" using m j i(2) by (auto simp: mapped_req_def)
  qed
  then show ?thesis by (auto simp: cover_def)
qed

text \<open>Which sectors a request covers.\<close>

lemma sector_of_req:
  fixes cache :: "('s :: len) ocf_cache"
  assumes "settings_ok cache" "bytes \<noteq> 0" "unat addr + unat bytes \<le> 2 ^ 64" and req: "req = ocf_req_new cache no core addr bytes rw"
    and S: "S = unat (ocf_line_sectors cache)" and s: "s < 2 ^ 64"
  shows "s \<in> {unat addr div 512 .. (unat addr + unat bytes - 1) div 512} \<longleftrightarrow>
    (\<exists>i<unat (core_line_count req). (of_nat (s div S) :: u64) = core_line_first req + of_nat i \<and> s mod S \<in> req_secs cache req i)"
proof -
  have S0: "0 < S" using settings_sectors [OF assms(1)] by (simp add: S)
  have sh: "req_shape cache req" by (rule req_new_shape [OF assms(1-4)])
  have "s div S < 2 ^ 64" by (rule le_less_trans [OF div_le_dividend s])
  then have sd: "unat (of_nat (s div S) :: u64) = s div S" by (simp add: unat_of_nat take_bit_nat_eq_self)
  have n32: "unat (core_line_count req) < 2 ^ 32" using unsigned_less [of "core_line_count req", where ?'a = nat] by simp
  have key: "(of_nat (s div S) :: u64) = core_line_first req + of_nat i \<longleftrightarrow> s div S = unat (core_line_first req) + i"
    if i: "i < unat (core_line_count req)" for i
  proof -
    have "unat (core_line_first req + of_nat i) = unat (core_line_first req) + i"
      using sh i n32 by (subst unat_add_nowrap) (auto simp: req_shape_def unat_of_nat take_bit_nat_eq_self)
    then show ?thesis using sd by (metis word_unat_eq_iff)
  qed
  have lt: "t < S" if "i < unat (core_line_count req)" "t \<in> req_secs cache req i" for i t
    using req_new_ranges [OF assms(1-4) S, of "of_nat i"] that n32 by (auto simp: word_less_nat_alt unat_of_nat_u32 req_secs_def sec_range_def)
  have "s \<in> {unat addr div 512 .. (unat addr + unat bytes - 1) div 512} \<longleftrightarrow>
      (\<exists>i<unat (core_line_count req). \<exists>t\<in>req_secs cache req i. s = (unat (core_line_first req) + i) * S + t)"
    unfolding req_sectors [OF assms(1-4) S, symmetric] by auto
  also have "\<dots> \<longleftrightarrow> (\<exists>i<unat (core_line_count req). s div S = unat (core_line_first req) + i \<and> s mod S \<in> req_secs cache req i)"
  proof (intro ex_cong1 conj_cong refl)
    fix i assume i: "i < unat (core_line_count req)"
    show "(\<exists>t\<in>req_secs cache req i. s = (unat (core_line_first req) + i) * S + t) \<longleftrightarrow> s div S = unat (core_line_first req) + i \<and> s mod S \<in> req_secs cache req i"
    proof
      assume "\<exists>t\<in>req_secs cache req i. s = (unat (core_line_first req) + i) * S + t"
      then obtain t where t: "t \<in> req_secs cache req i" "s = (unat (core_line_first req) + i) * S + t" by blast
      have "((unat (core_line_first req) + i) * S + t) div S = unat (core_line_first req) + i" "((unat (core_line_first req) + i) * S + t) mod S = t"
        using lt [OF i t(1)] by simp_all
      then show "s div S = unat (core_line_first req) + i \<and> s mod S \<in> req_secs cache req i" using t by simp
    next
      assume a: "s div S = unat (core_line_first req) + i \<and> s mod S \<in> req_secs cache req i"
      then have "s = (unat (core_line_first req) + i) * S + s mod S" using div_mult_mod_eq [of s S] by simp
      then show "\<exists>t\<in>req_secs cache req i. s = (unat (core_line_first req) + i) * S + t" using a by blast
    qed
  qed
  finally show ?thesis using key by auto
qed

lemma sectors_added:
  fixes c :: "('s :: len) ocf_cache"
  assumes inv: "index_ok c" "settings_ok c" "bytes \<noteq> 0" "unat addr + unat bytes \<le> 2 ^ 64" and req: "req = ocf_req_new c no core addr bytes rw"
    and m: "mapped_req c r" "r = req\<lparr>req_map := es, req_info := f\<rparr>"
    and ch: "lines_changed w (\<lambda>y. secs w c y \<union> cover c r [0..<unat (core_line_count r)] y) c c'" and s: "s < 2 ^ 64"
  shows "cached_sector w c' k s \<longleftrightarrow> cached_sector w c k s \<or> k = core \<and> s \<in> {unat addr div 512 .. (unat addr + unat bytes - 1) div 512}"
proof -
  define S where "S = unat (ocf_line_sectors c)"
  have g: "ocf_line_sectors c' = ocf_line_sectors c" using ch by (simp add: lines_changed_def same_geometry_def ocf_line_sectors_def)
  have core: "req_core r = core" "req_core req = core" by (simp_all add: m(2) req ocf_req_new_def Let_def split: prod.split)
  have idx: "index c' = index c" and sec: "secs w c' y = secs w c y \<union> cover c r [0..<unat (core_line_count r)] y" for y
    using ch by (simp_all add: lines_changed_def)
  have rr: "core_line_count r = core_line_count req" "core_line_first r = core_line_first req" "req_secs c r = req_secs c req" by (simp_all add: m(2))
  note sr = sector_of_req [OF inv(2-4) req S_def s]
  show ?thesis
  proof (cases "index c (k, of_nat (s div S))")
    case None
    have "\<not> (k = core \<and> s \<in> {unat addr div 512 .. (unat addr + unat bytes - 1) div 512})"
    proof
      assume a: "k = core \<and> s \<in> {unat addr div 512 .. (unat addr + unat bytes - 1) div 512}"
      then obtain i where i: "i < unat (core_line_count req)" "(of_nat (s div S) :: u64) = core_line_first req + of_nat i" using sr by blast
      then have "index c (k, of_nat (s div S)) \<noteq> None" using m(1) a core rr by (auto simp: mapped_req_def)
      then show False using None by simp
    qed
    then show ?thesis using None by (simp add: cached_sector_def g S_def idx)
  next
    case (Some x)
    then show ?thesis using cover_key [OF m(1) inv(1) Some, of "s mod S"] sr core rr
      by (simp add: cached_sector_def g S_def [symmetric] idx sec)
  qed
qed


subsection \<open>Purging\<close>

text \<open>Sector \<open>t\<close> of the core line of key \<open>k\<close> is valid (dirty) in the cache.\<close>

definition cached :: "what \<Rightarrow> ('s :: len) ocf_cache \<Rightarrow> u16 \<times> u64 \<Rightarrow> nat \<Rightarrow> bool" where
  "cached w c k t \<longleftrightarrow> (case index c k of None \<Rightarrow> False | Some x \<Rightarrow> t \<in> secs w c x)"

lemma are_waiters_eq: "x < num_entries a \<Longrightarrow> ocf_cache_line_are_waiters a x = Some (waiters_of a x \<noteq> [])"
  by (simp add: ocf_cache_line_are_waiters_def ocf_alock_waitlist_is_empty_def waitlist_is_empty_waiters)

lemma bits_cached:
  assumes b: "bits_changed w x B c d" and ok: "index_ok c" and k: "index c k = Some x"
  shows "cached v d k' t \<longleftrightarrow> (if v = w \<and> k' = k then t \<in> B else cached v c k' t)"
proof -
  have j: "index c k' = Some x \<Longrightarrow> k' = k" using index_inj(1) [OF ok k] by blast
  have d: "index d = index c" "secs v d y = (if v = w \<and> y = x then B else secs v c y)" for y using b by (simp_all add: bits_changed_def)
  show ?thesis
  proof (cases "k' = k")
    case True
    then show ?thesis using k by (simp add: cached_def d)
  next
    case False
    then have "index c k' \<noteq> Some x" using j by blast
    then show ?thesis using False by (cases "index c k'") (simp_all add: cached_def d)
  qed
qed

lemma unmapped_cached:
  assumes u: "unmapped_line k x c d" and k: "index c k = Some x" and e: "\<And>v. secs v c x = {}"
  shows "cached v d k' t = cached v c k' t"
  using u k e by (auto simp: cached_def unmapped_line_def split: option.split)

lemma purge_line_ok:
  assumes inv: "meta_inv c L" and at: "at_line c req i e start stop" and k: "index c (req_core req, cl) = Some (coll_idx e)"
    and cm: "req_core req < OCF_CORE_MAX" and al: "num_entries a = collision_table_entries c"
  shows "\<exists>c' b L'. ocf_purge_cache_line_sec c a start stop req i = Some (c', flush_marked req i e b) \<and> meta_inv c' L' \<and> same_geometry c c' \<and>
    (\<forall>k'. k' \<noteq> (req_core req, cl) \<longrightarrow> index c' k' = index c k') \<and>
    (\<forall>v k' t. cached v c' k' t \<longleftrightarrow> cached v c k' t \<and> \<not> (k' = (req_core req, cl) \<and> t \<in> sec_range start stop))"
proof -
  let ?x = "coll_idx e" and ?R = "sec_range start stop" and ?k = "(req_core req, cl)"
  note A = at_line_args [OF inv at]
  obtain d M where d: "set_cache_line_clean c start stop req i = Some (d, flush_marked req i e (secs Dirty c ?x \<inter> ?R \<noteq> {}))" "meta_inv d M"
    "bits_changed Dirty ?x (secs Dirty c ?x - ?R) c d"
    using set_clean_ok [OF inv at] by blast
  define r where "r = flush_marked req i e (secs Dirty c ?x \<inter> ?R \<noteq> {})"
  have r: "same_map req r" unfolding r_def by (rule flush_marked_same [OF A(6)])
  have ui: "unat i < length (req_map req)" "req_map req ! unat i = e" using A(6) by (auto simp: map_entry_def split: if_splits)
  have re: "\<exists>e'. map_entry r i = Some e' \<and> coll_idx e' = ?x"
    using r ui by (auto simp: same_map_def map_entry_def)
  then obtain e' where e': "map_entry r i = Some e'" "coll_idx e' = ?x" by blast
  note b = d(3) [unfolded bits_changed_def]
  have dk: "index d ?k = Some ?x" "index_ok d" and g: "same_geometry c d" using b k d(2) by (auto simp: meta_inv_def cache_inv_def)
  have sa: "status_args d ?x start stop"
    using A(1) same_geometry_derived [OF g] by (simp add: status_args_def)
  have xa: "?x < num_entries a" using A(2) al by simp
  have D: "secs Dirty d ?x \<inter> ?R = {}" using b by auto
  obtain c1 c' L' where c': "set_cache_line_invalid_core d a start stop ?x (req_core req) (part_of d ?x) = Some c'" "meta_inv c' L'"
    "bits_changed Valid ?x (secs Valid d ?x - ?R) d c1"
    "if secs Valid d ?x \<subseteq> ?R \<and> \<not> waiters_of a ?x \<noteq> [] then unmapped_line ?k ?x c1 c' else c' = c1"
    using set_invalid_core_ok [OF d(2) dk(1) cm sa D are_waiters_eq [OF xa]] by blast
  note b1 = c'(3) [unfolded bits_changed_def]
  have "set_cache_line_invalid d a start stop r i = Some (c', r)"
    using e' c'(1) get_partition_id_part_of [of ?x d] A(2) same_geometry_derived(2) [OF g] same_map_fields(3) [OF r] flush_mark_ok(1) [OF e'(1)]
    by (simp add: set_cache_line_invalid_def)
  then have run: "ocf_purge_cache_line_sec c a start stop req i = Some (c', r)" using d(1) by (simp add: ocf_purge_cache_line_sec_def r_def)
  have k1: "index c1 ?k = Some ?x" "index_ok c" using b1 dk(1) A(7) by auto
  have view1: "cached v c1 k' t \<longleftrightarrow> cached v c k' t \<and> \<not> (k' = ?k \<and> t \<in> ?R)" for v k' t
    using bits_cached [OF c'(3) dk(2,1), of v k' t] bits_cached [OF d(3) k1(2) k, of v k' t] b D k dk(1)
    by (cases v) (auto simp: cached_def)
  have dv: "secs Dirty d ?x \<subseteq> secs Valid d ?x" using d(2) A(2) same_geometry_derived(2) [OF g] by (auto simp: meta_inv_def status_ok_def)
  have fin: "same_geometry c c' \<and> (\<forall>k'. k' \<noteq> ?k \<longrightarrow> index c' k' = index c k') \<and> (\<forall>v k' t. cached v c' k' t = cached v c1 k' t)"
  proof (cases "secs Valid d ?x \<subseteq> ?R \<and> \<not> waiters_of a ?x \<noteq> []")
    case True
    then have u: "unmapped_line ?k ?x c1 c'" using c'(4) by simp
    have "secs v c1 ?x = {}" for v using b1 True D dv by (cases v) auto
    then show ?thesis using unmapped_cached [OF u k1(1)] u b1 b g by (auto simp: unmapped_line_def intro: same_geometry_trans)
  next
    case False
    then show ?thesis using c'(4) b1 b g by (auto intro: same_geometry_trans)
  qed
  then show ?thesis using run c'(2) view1 unfolding r_def by blast
qed


definition req_key :: "ocf_request \<Rightarrow> nat \<Rightarrow> u16 \<times> u64" where
  "req_key req i = (req_core req, core_line_first req + of_nat i)"

lemma req_key_inj:
  assumes "i < unat (core_line_count req)" "j < unat (core_line_count req)" "req_key req i = req_key req j"
  shows "i = j"
proof -
  have n: "unat (core_line_count req) < 2 ^ 64"
    using unsigned_less [of "core_line_count req", where ?'a = nat] by (simp add: less_trans)
  have "unat (of_nat i :: u64) = unat (of_nat j :: u64)" using assms(3) by (simp add: req_key_def)
  then show ?thesis using assms(1,2) n by (simp add: unat_of_nat take_bit_nat_eq_self)
qed

lemma purge_loop_ok:
  assumes "meta_inv c L" "req_shape c req" "req_core req < OCF_CORE_MAX" "num_entries a = collision_table_entries c"
    "distinct is" "\<forall>i\<in>set is. i < unat (core_line_count req)"
    "\<forall>i\<in>set is. status (req_map req ! i) = LOOKUP_MISS \<or> index c (req_key req i) = Some (coll_idx (req_map req ! i))"
  shows "\<exists>c' req' L'. purge_loop a is (c, req) = Some (c', req') \<and> meta_inv c' L' \<and> same_geometry c c' \<and> same_map req req' \<and>
    (\<forall>v k t. cached v c' k t \<longleftrightarrow> cached v c k t \<and>
      \<not> (\<exists>i\<in>set is. status (req_map req ! i) \<noteq> LOOKUP_MISS \<and> k = req_key req i \<and> t \<in> req_secs c req i))"
  using assms
proof (induction "is" arbitrary: c req L)
  case Nil
  then show ?case by auto
next
  case (Cons i is')
  let ?e = "req_map req ! i" and ?s = "ocf_map_line_start_sector c req (of_nat i)" and ?t = "ocf_map_line_end_sector c req (of_nat i)"
  have i: "i < unat (core_line_count req)" and is': "\<forall>j\<in>set is'. j < unat (core_line_count req)" using Cons.prems(6) by simp_all
  have ui: "unat (of_nat i :: u32) = i"
    using i unsigned_less [of "core_line_count req", where ?'a = nat] by (simp add: unat_of_nat take_bit_nat_eq_self)
  have me: "map_entry req (of_nat i) = Some ?e" using i ui Cons.prems(2) by (simp add: map_entry_def req_shape_def)
  show ?case
  proof (cases "status ?e = LOOKUP_MISS")
    case True
    then have "purge_loop a (i # is') (c, req) = purge_loop a is' (c, req)" using me by simp
    then show ?thesis using Cons.IH [OF Cons.prems(1-4) _ is'] Cons.prems(5,7) True by auto
  next
    case False
    then have k: "index c (req_key req i) = Some (coll_idx ?e)" using Cons.prems(7) by simp
    have at: "at_line c req (of_nat i) ?e ?s ?t" using me k Cons.prems(2) i by (auto simp: at_line_def req_key_def req_shape_def)
    obtain d b M where d: "ocf_purge_cache_line_sec c a ?s ?t req (of_nat i) = Some (d, flush_marked req (of_nat i) ?e b)" "meta_inv d M" "same_geometry c d"
      "\<forall>k'. k' \<noteq> req_key req i \<longrightarrow> index d k' = index c k'"
      "\<forall>v k' t. cached v d k' t \<longleftrightarrow> cached v c k' t \<and> \<not> (k' = req_key req i \<and> t \<in> req_secs c req i)"
      using purge_line_ok [OF Cons.prems(1) at k [unfolded req_key_def] Cons.prems(3,4)] unfolding req_key_def req_secs_def by blast
    define r where "r = flush_marked req (of_nat i) ?e b"
    have r: "same_map req r" unfolding r_def by (rule flush_marked_same [OF me])
    note rf = same_map_fields [OF r]
    note gd = same_geometry_derived [OF d(3)]
    have rk: "req_key r = req_key req" by (simp add: req_key_def fun_eq_iff rf)
    have rs: "status (req_map r ! j) = status (req_map req ! j) \<and> coll_idx (req_map r ! j) = coll_idx (req_map req ! j)" if "j \<in> set is'" for j
      using r is' that Cons.prems(2) by (auto simp: same_map_def req_shape_def)
    have mj: "status (req_map r ! j) = LOOKUP_MISS \<or> index d (req_key r j) = Some (coll_idx (req_map r ! j))" if j: "j \<in> set is'" for j
    proof -
      have "req_key req j \<noteq> req_key req i" using req_key_inj [of j req i] j is' i Cons.prems(5) by auto
      then have "index d (req_key req j) = index c (req_key req j)" using d(4) by blast
      then show ?thesis using rs [OF j] Cons.prems(7) j rk by simp
    qed
    have sh: "req_shape d r" using Cons.prems(2) by (simp add: gd(8) rf(4))
    obtain c' req' L' where c': "purge_loop a is' (d, r) = Some (c', req')" "meta_inv c' L'" "same_geometry d c'" "same_map r req'"
      "\<forall>v k t. cached v c' k t \<longleftrightarrow> cached v d k t \<and>
        \<not> (\<exists>i\<in>set is'. status (req_map r ! i) \<noteq> LOOKUP_MISS \<and> k = req_key r i \<and> t \<in> req_secs d r i)"
      using Cons.IH [OF d(2) sh _ _ _ _ ballI [OF mj]] Cons.prems(3-5) is' rf(1,3) gd(2) by auto
    have "req_secs d r = req_secs c req" by (simp add: gd(7) rf(5))
    then have "cached v c' k t \<longleftrightarrow> cached v c k t \<and>
        \<not> (\<exists>i\<in>set (i # is'). status (req_map req ! i) \<noteq> LOOKUP_MISS \<and> k = req_key req i \<and> t \<in> req_secs c req i)" for v k t
      using c'(5) [rule_format, of v k t] d(5) [rule_format, of v k t] rs rk False by auto
    moreover have "purge_loop a (i # is') (c, req) = Some (c', req')" using d(1) c'(1) me False by (simp add: r_def)
    ultimately show ?thesis using c'(2) same_geometry_trans [OF d(3) c'(3)] same_map_trans [OF r c'(4)] by blast
  qed
qed

subsection \<open>Properties\<close>

lemma lookup_mapped:
  assumes l: "lookup_state c req (unat (core_line_count req)) r" and sh: "req_shape c req" and m: "ocf_engine_is_mapped r"
  shows "mapped_req c r" "\<exists>es f. r = req\<lparr>req_map := es, req_info := f\<rparr>"
proof -
  obtain es f where r: "r = req\<lparr>req_map := es, req_info := f\<rparr>" "length es = length (req_map req)"
    "\<And>i. i < unat (core_line_count req) \<Longrightarrow> looked_up c (req_core req) (core_line_first req + of_nat i) (es ! i)"
    using l unfolding lookup_state_def by blast
  show "\<exists>es f. r = req\<lparr>req_map := es, req_info := f\<rparr>" using r(1) by blast
  have "status (es ! i) \<noteq> LOOKUP_MISS \<and> index c (req_core req, core_line_first req + of_nat i) = Some (coll_idx (es ! i))"
    if i: "i < unat (core_line_count req)" for i
  proof -
    have "cached_at c req (\<lambda>i x. True) i" using lookup_state_tests(4) [OF l] m i by blast
    then obtain x where "index c (req_core req, core_line_first req + of_nat i) = Some x" by (auto simp: cached_at_def split: option.splits)
    then show ?thesis using r(3) [OF i] by (simp add: looked_up_def lookup_defs)
  qed
  then show "mapped_req c r" using sh r(2) by (simp add: mapped_req_def r(1))
qed

text \<open>
  C31. A write to the cache: when a request is mapped, its lines are made valid and dirty.  No bug check fails, the invariants of the cache
  hold afterwards, with the counters of the cores right, and the cache then holds exactly the sectors that it held before and
  those of the request as valid, and the same for the dirty sectors.
\<close>
theorem write_fills_sectors:
  fixes c :: "('s :: len) ocf_cache"
  assumes inv: "meta_inv c L" and b: "bytes \<noteq> 0" "unat addr + unat bytes \<le> 2 ^ 64" and req: "req = ocf_req_new c no core addr bytes rw"
    and l: "ocf_engine_lookup c req = Some r" "ocf_engine_is_mapped r"
  shows "\<exists>c1 c2 r2 L2. ocf_set_valid_map_info c r = Some c1 \<and> ocf_set_dirty_map_info now c1 r = Some (c2, r2) \<and> meta_inv c2 L2 \<and>
    (\<forall>w k s. s < 2 ^ 64 \<longrightarrow> (cached_sector w c2 k s \<longleftrightarrow>
      cached_sector w c k s \<or> k = core \<and> s \<in> {unat addr div 512 .. (unat addr + unat bytes - 1) div 512}))"
proof -
  have i: "index_ok c" "settings_ok c" using inv by (auto simp: meta_inv_def cache_inv_def lru_inv_def)
  have sh: "req_shape c req" by (rule req_new_shape [OF i(2) b req])
  have ls: "lookup_state c req (unat (core_line_count req)) r" using engine_lookup_ok [OF sh i] l(1) by auto
  note m = lookup_mapped [OF ls sh l(2)]
  obtain es f where r: "r = req\<lparr>req_map := es, req_info := f\<rparr>" using m(2) by blast
  let ?is = "[0..<unat (core_line_count r)]"
  obtain c1 where c1: "set_valid_loop ?is r c = Some c1" "meta_inv c1 L" "lines_changed Valid (\<lambda>y. secs Valid c y \<union> cover c r ?is y) c c1"
    using set_valid_loop_ok [OF inv m(1), of ?is] by auto
  note ch1 = c1(3) [unfolded lines_changed_def]
  have g: "same_geometry c c1" and x1: "index c1 = index c" using ch1 by auto
  note gd = same_geometry_derived [OF g]
  have m1: "mapped_req c1 r" using m(1) x1 by (simp add: mapped_req_def gd)
  have v: "\<forall>i\<in>set ?is. req_secs c1 r i \<subseteq> secs Valid c1 (coll_idx (req_map r ! i))" using ch1 by (auto simp: cover_def gd)
  obtain c2 r2 L2 where c2: "set_dirty_loop now ?is (c1, r) = Some (c2, r2)" "meta_inv c2 L2"
    "lines_changed Dirty (\<lambda>y. secs Dirty c1 y \<union> cover c1 r ?is y) c1 c2"
    using set_dirty_loop_ok [OF c1(2) m1 _ v, of now] by auto
  note ch2 = c2(3) [unfolded lines_changed_def]
  have g2: "ocf_line_sectors c2 = ocf_line_sectors c1" using ch2 by (simp add: same_geometry_def ocf_line_sectors_def)
  have g1: "ocf_line_sectors c1 = ocf_line_sectors c" using g by (simp add: same_geometry_def ocf_line_sectors_def)
  have "cached_sector w c2 k s \<longleftrightarrow> cached_sector w c k s \<or> k = core \<and> s \<in> {unat addr div 512 .. (unat addr + unat bytes - 1) div 512}"
    if s: "s < 2 ^ 64" for w k s
  proof (cases w)
    case Valid
    have "cached_sector Valid c2 k s = cached_sector Valid c1 k s" using ch2 by (simp add: cached_sector_def g2 cong: option.case_cong)
    then show ?thesis using sectors_added [OF i b req m(1) r c1(3) s] Valid by simp
  next
    case Dirty
    have "cached_sector Dirty c2 k s \<longleftrightarrow> cached_sector Dirty c1 k s \<or> k = core \<and> s \<in> {unat addr div 512 .. (unat addr + unat bytes - 1) div 512}"
    proof (rule sectors_added [OF _ _ b _ m1 r c2(3) s])
      show "index_ok c1" "settings_ok c1" using c1(2) by (auto simp: meta_inv_def cache_inv_def lru_inv_def)
      show "req = ocf_req_new c1 no core addr bytes rw" unfolding req using g
        by (simp add: ocf_req_new_def ocf_bytes_2_lines_def same_geometry_def)
    qed
    moreover have "cached_sector Dirty c1 k s = cached_sector Dirty c k s" using ch1 by (simp add: cached_sector_def g1 cong: option.case_cong)
    ultimately show ?thesis using Dirty by simp
  qed
  then show ?thesis using c1(1) c2(1,2) by (auto simp: ocf_set_valid_map_info_def ocf_set_dirty_map_info_def)
qed


text \<open>
  C32. Purging a request from the cache, whatever part of it is cached: no bug check fails, the invariants hold afterwards, with the
  counters of the cores right, and the cache holds exactly the sectors that it held before without those of the request.
\<close>
theorem purge_drops_sectors:
  fixes c :: "('s :: len) ocf_cache"
  assumes inv: "meta_inv c L" and b: "bytes \<noteq> 0" "unat addr + unat bytes \<le> 2 ^ 64" and req: "req = ocf_req_new c no core addr bytes rw"
    and l: "ocf_engine_lookup c req = Some r" and core: "core < OCF_CORE_MAX" and a: "num_entries a = collision_table_entries c"
  shows "\<exists>c' r' L'. ocf_purge_map_info c a r = Some (c', r') \<and> meta_inv c' L' \<and>
    (\<forall>w k s. s < 2 ^ 64 \<longrightarrow> (cached_sector w c' k s \<longleftrightarrow>
      cached_sector w c k s \<and> \<not> (k = core \<and> s \<in> {unat addr div 512 .. (unat addr + unat bytes - 1) div 512})))"
proof -
  have i: "index_ok c" "settings_ok c" using inv by (auto simp: meta_inv_def cache_inv_def lru_inv_def)
  have sh: "req_shape c req" by (rule req_new_shape [OF i(2) b req])
  have ls: "lookup_state c req (unat (core_line_count req)) r" using engine_lookup_ok [OF sh i] l(1) by auto
  obtain es f where r: "r = req\<lparr>req_map := es, req_info := f\<rparr>" "length es = length (req_map req)"
    "\<And>i. i < unat (core_line_count req) \<Longrightarrow> looked_up c (req_core req) (core_line_first req + of_nat i) (es ! i)"
    using ls unfolding lookup_state_def by blast
  have rc: "req_core req = core" by (simp add: req ocf_req_new_def Let_def split: prod.split)
  have rr: "core_line_count r = core_line_count req" "req_core r = core" "req_key r = req_key req" "req_secs c r = req_secs c req" "req_shape c r"
    using rc sh r(2) by (simp_all add: r(1) req_key_def fun_eq_iff)
  let ?n = "unat (core_line_count req)"
  have lk: "if index c (req_key req i) = None then status (req_map r ! i) = LOOKUP_MISS
      else status (req_map r ! i) \<noteq> LOOKUP_MISS \<and> index c (req_key req i) = Some (coll_idx (req_map r ! i))" if "i < ?n" for i
    using r(3) [OF that] by (cases "index c (req_key req i)") (simp_all add: looked_up_def lookup_defs r(1) req_key_def)
  have m: "\<forall>i\<in>set [0..<?n]. status (req_map r ! i) = LOOKUP_MISS \<or> index c (req_key r i) = Some (coll_idx (req_map r ! i))"
  proof
    fix i assume "i \<in> set [0..<?n]"
    then show "status (req_map r ! i) = LOOKUP_MISS \<or> index c (req_key r i) = Some (coll_idx (req_map r ! i))"
      using lk [of i] rr(3) by (simp split: if_splits)
  qed
  obtain c' r' L' where c': "purge_loop a [0..<?n] (c, r) = Some (c', r')" "meta_inv c' L'" "same_geometry c c'"
    "\<forall>v k t. cached v c' k t \<longleftrightarrow> cached v c k t \<and>
      \<not> (\<exists>i\<in>set [0..<?n]. status (req_map r ! i) \<noteq> LOOKUP_MISS \<and> k = req_key r i \<and> t \<in> req_secs c r i)"
    using purge_loop_ok [OF inv rr(5) core [folded rr(2)] a _ _ m] rr(1) by auto
  define S where "S = unat (ocf_line_sectors c)"
  have g: "ocf_line_sectors c' = ocf_line_sectors c" using c'(3) by (simp add: same_geometry_def ocf_line_sectors_def)
  have cs: "cached_sector w d k s = cached w d (k, of_nat (s div S)) (s mod S)" if "ocf_line_sectors d = ocf_line_sectors c" for w d k s
    using that by (simp add: cached_sector_def cached_def S_def cong: option.case_cong)
  have "cached_sector w c' k s \<longleftrightarrow> cached_sector w c k s \<and> \<not> (k = core \<and> s \<in> {unat addr div 512 .. (unat addr + unat bytes - 1) div 512})"
    if s: "s < 2 ^ 64" for w k s
  proof -
    let ?k = "(k, of_nat (s div S)) :: u16 \<times> u64"
    have "(\<exists>i\<in>set [0..<?n]. status (req_map r ! i) \<noteq> LOOKUP_MISS \<and> ?k = req_key r i \<and> s mod S \<in> req_secs c r i) \<longleftrightarrow>
        k = core \<and> s \<in> {unat addr div 512 .. (unat addr + unat bytes - 1) div 512}" if "cached w c ?k (s mod S)"
    proof -
      have "index c ?k \<noteq> None" using that by (auto simp: cached_def split: option.splits)
      then have st: "status (req_map r ! i) \<noteq> LOOKUP_MISS" if "i < ?n" "?k = req_key req i" for i using lk [OF that(1)] that(2) by auto
      have "(\<exists>i\<in>set [0..<?n]. status (req_map r ! i) \<noteq> LOOKUP_MISS \<and> ?k = req_key r i \<and> s mod S \<in> req_secs c r i) \<longleftrightarrow>
          (\<exists>i<?n. ?k = req_key req i \<and> s mod S \<in> req_secs c req i)"
        unfolding rr(3,4) using st atLeastLessThan_iff le0 set_upt by metis
      also have "\<dots> \<longleftrightarrow> k = core \<and> s \<in> {unat addr div 512 .. (unat addr + unat bytes - 1) div 512}"
        unfolding sector_of_req [OF i(2) b req S_def s] by (auto simp: req_key_def rc)
      finally show ?thesis .
    qed
    then show ?thesis unfolding cs [OF g] cs [OF refl] c'(4) [rule_format, of w ?k "s mod S"] by blast
  qed
  then show ?thesis using c'(1,2) rr(1) by (auto simp: ocf_purge_map_info_def)
qed

lemma started_meta:
  "\<exists>(c :: 8 ocf_cache) L. meta_inv c L \<and> collision_table_entries c = 10 \<and> hash_table_entries c = 4 \<and> size c = ocf_cache_line_size_4 \<and>
     index c = [(1, 7) \<mapsto> 3] \<and> (\<forall>y<10. part_of c y = (if y = 3 then 5 else PARTITION_FREELIST)) \<and> (\<forall>w x. secs w c x = {})"
proof -
  obtain c :: "8 ocf_cache" and L where c: "cache_inv c L" "collision_table_entries c = 10" "hash_table_entries c = 4" "size c = ocf_cache_line_size_4"
    "index c = [(1, 7) \<mapsto> 3]" "\<forall>y<10. part_of c y = (if y = 3 then 5 else PARTITION_FREELIST)" "\<forall>w x. secs w c x = {}"
    "cached_clines c = (\<lambda>_. 0)" "part_cached_clines c = (\<lambda>_ _. 0)" "dirty_clines c = (\<lambda>_. 0)" "part_dirty_clines c = (\<lambda>_ _. 0)"
    using started_used by auto
  have "counted w c = (\<lambda>_ _. {})" for w using c(7) by (simp add: counted_def fun_eq_iff)
  then have "meta_inv c L" using c by (simp add: meta_inv_def counts_ok_def counters_match_def status_ok_def)
  then show ?thesis using c by blast
qed

lemma started_write:
  "\<exists>(c :: 8 ocf_cache) L r. meta_inv c L \<and> collision_table_entries c = 10 \<and> size c = ocf_cache_line_size_4 \<and>
     ocf_engine_lookup c (ocf_req_new c 0 1 28672 1024 OCF_WRITE) = Some r \<and> ocf_engine_is_mapped r"
proof -
  obtain c :: "8 ocf_cache" and L where c: "meta_inv c L" "collision_table_entries c = 10" "size c = ocf_cache_line_size_4" "index c = [(1, 7) \<mapsto> 3]"
    using started_meta by blast
  let ?req = "ocf_req_new c 0 1 28672 1024 OCF_WRITE"
  have i: "index_ok c" "settings_ok c" using c(1) by (auto simp: meta_inv_def cache_inv_def lru_inv_def)
  have r: "core_line_count ?req = 1" "core_line_first ?req = 7" "req_core ?req = 1" by (simp_all add: ocf_req_new_def ocf_bytes_2_lines_def c(3) Let_def)
  have sh: "req_shape c ?req" by (rule req_new_shape [OF i(2) _ _ refl]) simp_all
  obtain req' where l: "ocf_engine_lookup c ?req = Some req'" "lookup_state c ?req (unat (core_line_count ?req)) req'"
    using engine_lookup_ok [OF sh i] by blast
  have "ocf_engine_is_mapped req'" unfolding lookup_state_tests(4) [OF l(2)] by (simp add: r cached_at_def c(4))
  then show ?thesis using c l(1) by blast
qed

theorem write_fills_sectors_witness:
  "\<exists>(c :: 8 ocf_cache) r c1 c2 r2 L2. ocf_engine_lookup c (ocf_req_new c 0 1 28672 1024 OCF_WRITE) = Some r \<and>
    ocf_set_valid_map_info c r = Some c1 \<and> ocf_set_dirty_map_info 9 c1 r = Some (c2, r2) \<and> meta_inv c2 L2 \<and>
    cached_sector Dirty c2 1 56 \<and> cached_sector Valid c2 1 57"
proof -
  obtain c :: "8 ocf_cache" and L r where c: "meta_inv c L" "ocf_engine_lookup c (ocf_req_new c 0 1 28672 1024 OCF_WRITE) = Some r" "ocf_engine_is_mapped r"
    using started_write by blast
  obtain c1 c2 r2 L2 where w: "ocf_set_valid_map_info c r = Some c1" "ocf_set_dirty_map_info 9 c1 r = Some (c2, r2)" "meta_inv c2 L2"
    "\<And>w k s. s < 2 ^ 64 \<Longrightarrow> cached_sector w c2 k s \<longleftrightarrow> cached_sector w c k s \<or> k = 1 \<and> s \<in> {56..57}"
    using write_fills_sectors [OF c(1) _ _ refl c(2,3), of 9] by auto
  have "cached_sector Dirty c2 1 56" "cached_sector Valid c2 1 57" by (subst w(4); simp)+
  then show ?thesis using c(2) w(1-3) by blast
qed

theorem purge_drops_sectors_witness:
  "\<exists>(c :: 8 ocf_cache) r a c' r' L'. ocf_engine_lookup c (ocf_req_new c 0 1 28672 1024 OCF_WRITE) = Some r \<and> ocf_engine_is_mapped r \<and>
    ocf_purge_map_info c a r = Some (c', r') \<and> meta_inv c' L' \<and> \<not> cached_sector Valid c' 1 57"
proof -
  obtain c :: "8 ocf_cache" and L r where c: "meta_inv c L" "collision_table_entries c = 10"
    "ocf_engine_lookup c (ocf_req_new c 0 1 28672 1024 OCF_WRITE) = Some r" "ocf_engine_is_mapped r"
    using started_write by blast
  have a: "num_entries (lock_ex0\<lparr>num_entries := 10\<rparr>) = collision_table_entries c" using c(2) by simp
  obtain c' r' L' where w: "ocf_purge_map_info c (lock_ex0\<lparr>num_entries := 10\<rparr>) r = Some (c', r')" "meta_inv c' L'"
    "\<And>w k s. s < 2 ^ 64 \<Longrightarrow> cached_sector w c' k s \<longleftrightarrow> cached_sector w c k s \<and> \<not> (k = 1 \<and> s \<in> {56..57})"
    using purge_drops_sectors [OF c(1) _ _ refl c(3) _ a] by (auto simp: OCF_CORE_MAX_def)
  have "\<not> cached_sector Valid c' 1 57" by (subst w(3); simp)
  then show ?thesis using c(3,4) w(1,2) by blast
qed

end
