(* ===== verification/Space.thy ===== *)
theory Space
  imports Cache_Line
begin

text \<open>
  Finding cache lines for a request that is not mapped (\<open>ocf_lru_req_clines\<close> of \<open>ocf_lru.c\<close>): lines are taken from the free list
  or evicted from a partition, and mapped to the core lines of the request.  The property is that exactly the lines that are returned are taken, that
  nothing dirty is lost on the way, and that fewer lines than asked for are found only when none is left.

  The caller holds the hash buckets of the request for writing; the thread of the request is \<open>t\<close>.
\<close>

subsection \<open>Lines for a request\<close>

text \<open>\<open>sp_lru_idx\<close>: the counter of the I/O queue that chooses the list to start with.\<close>

record (overloaded) ('s :: len) space_state =
  sp_cache :: "'s ocf_cache"
  sp_locks :: line_locks
  sp_req :: ocf_request
  sp_lru_idx :: u32

definition ocf_lru_invalidate :: "('s :: len) ocf_cache \<Rightarrow> u32 \<Rightarrow> u16 \<Rightarrow> u16 \<Rightarrow> 's ocf_cache option" where
  "ocf_lru_invalidate cache cline core part = do {
     cache \<leftarrow> metadata_clear_valid_sec cache cline 0 (ucast (ocf_line_end_sector cache));
     cache \<leftarrow> ocf_metadata_remove_from_collision cache cline part;
     Some (count_cached core part (- 1) cache)
   }"

text \<open>The next unmapped entry of the request, from \<open>req_idx\<close> on.\<close>

partial_function (option) next_unmapped :: "ocf_request \<Rightarrow> u32 \<Rightarrow> u32 option" where
  "next_unmapped req req_idx =
     (if req_idx + 1 < core_line_count req
      then map_entry req req_idx \<bind> (\<lambda>e. if status e \<noteq> LOOKUP_MISS then next_unmapped req (req_idx + 1) else Some req_idx)
      else Some req_idx)"

text \<open>What is done with a line \<open>cline\<close> that was found; it comes from partition \<open>src\<close>.\<close>

definition place_line ::
    "nat \<Rightarrow> u16 \<Rightarrow> ocf_lru_iter \<Rightarrow> ('s :: len) space_state \<Rightarrow> u32 \<Rightarrow> u32 \<Rightarrow> ('s space_state \<times> u32) option" where
  "place_line t src iter st cline req_idx = do {
     let cache = sp_cache st;
     let req = sp_req st;
     d \<leftarrow> metadata_test_dirty cache cline;
     ENV_BUG_ON d;
     req_idx \<leftarrow> next_unmapped req req_idx;
     e \<leftarrow> map_entry req req_idx;
     ENV_BUG_ON (status e \<noteq> LOOKUP_MISS);
     (cache, s) \<leftarrow> (if src \<noteq> PARTITION_FREELIST then do {
         (core, core_line) \<leftarrow> ocf_metadata_get_core_info cache cline;
         cache \<leftarrow> ocf_lru_invalidate cache cline core src;
         s \<leftarrow> lru_unlock_hash cache req t iter (snd (sp_locks st)) core core_line;
         Some (cache, s)
       } else Some (cache, snd (sp_locks st)));
     (cache, req) \<leftarrow> ocf_map_cache_line cache req req_idx cline;
     e \<leftarrow> map_entry req req_idx;
     req \<leftarrow> ocf_engine_patch_req_info cache (set_map_entry req req_idx (e\<lparr>status := LOOKUP_REMAPPED\<rparr>)) req_idx;
     let a = ocf_alock_mark_index_locked (fst (sp_locks st)) (req_no req) req_idx True;
     Some (st\<lparr>sp_cache := cache, sp_locks := (a, s), sp_req := req\<lparr>alock_rw := OCF_WRITE\<rparr>\<rparr>, req_idx + 1)
   }"

definition next_line ::
    "nat \<Rightarrow> u16 \<Rightarrow> ocf_lru_iter \<Rightarrow> ('s :: len) space_state \<Rightarrow> (ocf_lru_iter \<times> 's space_state \<times> u32) option" where
  "next_line t src iter st = do {
     let dst = req_part_id (sp_req st);
     (iter, (cache, locks), cline) \<leftarrow>
       (if src \<noteq> PARTITION_FREELIST then lru_iter_eviction_next (sp_req st) t dst iter (sp_cache st, sp_locks st)
        else lru_iter_free_next dst iter (sp_cache st, sp_locks st));
     Some (iter, st\<lparr>sp_cache := cache, sp_locks := locks\<rparr>, cline)
   }"

partial_function (option) req_clines_loop ::
    "nat \<Rightarrow> u16 \<Rightarrow> u32 \<Rightarrow> ocf_lru_iter \<Rightarrow> ('s :: len) space_state \<Rightarrow> u32 \<Rightarrow> u32 \<Rightarrow> ('s space_state \<times> u32) option" where
  "req_clines_loop t src cline_no iter st req_idx i =
     (if i < cline_no
      then next_line t src iter st \<bind> (\<lambda>(iter, st, cline).
        if cline = end_marker then Some (st, i)
        else place_line t src iter st cline req_idx \<bind> (\<lambda>(st, req_idx).
          ENV_BUG_ON (req_idx = core_line_count (sp_req st) \<and> i + 1 \<noteq> cline_no) \<bind> (\<lambda>_.
          req_clines_loop t src cline_no iter st req_idx (i + 1))))
      else Some (st, i))"

definition ocf_lru_req_clines :: "nat \<Rightarrow> ('s :: len) space_state \<Rightarrow> u16 \<Rightarrow> u32 \<Rightarrow> ('s space_state \<times> u32) option" where
  "ocf_lru_req_clines t st src cline_no =
     (if cline_no = 0 then Some (st, 0)
      else do {
        ENV_BUG_ON (ocf_engine_unmapped_count (sp_req st) < cline_no);
        ENV_BUG_ON (req_part_id (sp_req st) = PARTITION_FREELIST);
        let iter = lru_iter_eviction_init (sp_cache st) src (sp_lru_idx st mod OCF_NUM_LRU_LISTS);
        req_clines_loop t src cline_no iter (st\<lparr>sp_lru_idx := sp_lru_idx st + 1\<rparr>) 0 0
      })"

subsection \<open>A line on its way to the request\<close>

text \<open>Line \<open>x\<close> is on a list of partition \<open>dst\<close>, holds nothing and is not mapped.\<close>

definition floating :: "bool \<Rightarrow> ('s :: len) ocf_cache \<Rightarrow> (lru_ref \<Rightarrow> u32 list) \<Rightarrow> u32 \<Rightarrow> u16 \<Rightarrow> bool" where
  "floating exact c L x dst \<longleftrightarrow> lru_inv c L \<and> index_ok c \<and> status_ok c \<and> (exact \<longrightarrow> counts_ok c) \<and> x < collision_table_entries c \<and> part_of c x = dst \<and>
     x \<notin> ran (index c) \<and> (\<forall>y<collision_table_entries c. y \<noteq> x \<longrightarrow> (y \<in> ran (index c) \<longleftrightarrow> part_of c y \<le> OCF_USER_IO_CLASS_MAX)) \<and> (\<forall>v. secs v c x = {})"

lemma line_moved_facts:
  assumes "line_moved c x dst c'" "index_ok c"
  shows "\<exists>L. lru_inv c' L" "part_frame c c'" "part_of c' y = (if y = x then dst else part_of c y)" "index_ok c'" "index c' = index c"
    "secs v c' y = secs v c y" "same_geometry c c'"
proof -
  show f: "\<exists>L. lru_inv c' L" "part_frame c c'" "part_of c' y = (if y = x then dst else part_of c y)" for y using assms(1) by (auto simp: line_moved_def)
  show "index_ok c'" "index c' = index c" by (rule part_frame_index [OF f(2) assms(2)])+
  show "secs v c' y = secs v c y" by (rule part_frame_secs [OF f(2)])
  show "same_geometry c c'" by (rule part_frame_geometry [OF f(2)])
qed

lemma free_line_floats:
  assumes inv: "metadata_ok exact c L" and x: "x < collision_table_entries c" "part_of c x = PARTITION_FREELIST" and m: "line_moved c x dst c'"
    and d: "dst \<le> OCF_USER_IO_CLASS_MAX"
  shows "\<exists>L'. floating exact c' L' x dst"
proof -
  have i: "index_ok c" "used_ok c" "status_ok c" "exact \<longrightarrow> counts_ok c" using inv by (auto simp: metadata_ok_def cache_inv_def)
  note f = line_moved_facts [OF m i(1)] and pf = part_frame_fields [OF line_moved_facts(2) [OF m i(1)]]
  have nf: "\<not> PARTITION_FREELIST \<le> OCF_USER_IO_CLASS_MAX" using user_le_freelist by blast
  have e: "secs v c x = {}" for v using i(3) x by (cases v) (auto simp: status_ok_def)
  have "counted v c' = counted v c" for v using e by (force simp: counted_def pf(1,2) f(3,6) fun_eq_iff)
  then have "exact \<longrightarrow> counts_ok c'" using i(4) by (simp add: counts_ok_def pf)
  moreover have "status_ok c'" using i(3) e user_le_freelist [OF d] by (auto simp: status_ok_def pf(1) f(3,6))
  moreover have "x \<notin> ran (index c)" using i(2) x nf by (simp add: used_ok_def)
  ultimately show ?thesis using f(1,4) i(2) x e by (auto simp: floating_def used_ok_def f(3,5,6) pf(1))
qed

lemma whole_line:
  assumes "settings_ok c" "x < collision_table_entries c"
  shows "status_args c x 0 (ucast (ocf_line_end_sector c))" "secs v c x \<subseteq> sec_range 0 (ucast (ocf_line_end_sector c))"
proof -
  have s: "sstart c = 0" using settings_ok_length(2) [OF assms(1)] by (simp add: unat_eq_0)
  have e: "ucast (ocf_line_end_sector c) = send c" by (simp add: ocf_line_end_sector_def)
  show "status_args c x 0 (ucast (ocf_line_end_sector c))" using status_args_full [OF assms] by (simp only: s e)
  show "secs v c x \<subseteq> sec_range 0 (ucast (ocf_line_end_sector c))"
    using secs_below [of v c x] full_range [OF assms(1)] by (simp only: s e)
qed

lemma evicted_line_floats:
  assumes inv: "metadata_ok exact c L" and k: "index c (core, cl) = Some x" and D: "secs Dirty c x = {}" and V: "exact \<longrightarrow> secs Valid c x \<noteq> {}"
    and m: "line_moved c x dst c1" and d: "dst \<le> OCF_USER_IO_CLASS_MAX"
  shows "\<exists>c2 L2. ocf_lru_invalidate c1 x core (part_of c x) = Some c2 \<and> floating exact c2 L2 x dst \<and> index c2 = (index c)((core, cl) := None) \<and>
    same_geometry c c2 \<and> (\<forall>v y. y \<noteq> x \<longrightarrow> secs v c2 y = secs v c y) \<and> (\<forall>y. y \<noteq> x \<longrightarrow> part_of c2 y = part_of c y)"
proof -
  have i: "cache_inv c L" "index_ok c" "used_ok c" "status_ok c" "exact \<longrightarrow> counts_ok c" "settings_ok c" using inv by (auto simp: metadata_ok_def cache_inv_def lru_inv_def)
  note l = mapped_line [OF i(1) k]
  note f = line_moved_facts [OF m i(2)] and pf = part_frame_fields [OF line_moved_facts(2) [OF m i(2)]]
  let ?e = "ucast (ocf_line_end_sector c1) :: u8"
  have x1: "x < collision_table_entries c1" "settings_ok c1" using l(1) i(6) same_geometry_derived(1) [OF f(7)] pf(1) by auto
  obtain c2 where c2: "ocf_metadata_clear Valid c1 x 0 ?e = Some (c2, secs Valid c1 x - sec_range 0 ?e \<noteq> {})"
    "status_change Valid x (secs Valid c1 x - sec_range 0 ?e) c1 c2"
    using ocf_metadata_clear_change [OF whole_line(1) [OF x1(2,1)]] by blast
  note s2 = status_change_secs [OF c2(2)] and l2 = status_change_lines [OF c2(2)] and n2 = status_change_counters [OF c2(2)]
  have k2: "index_ok c2" "index c2 (core, cl) = Some x" using same_lines_index(1,2) [OF l2] f(4,5) k by auto
  obtain c3 where c3: "ocf_metadata_remove_from_collision c2 x (part_of c x) = Some c3" "index_ok c3" "index c3 = (index c2)((core, cl) := None)"
    "coll_frame c2 c3" "\<forall>y. y \<noteq> x \<longrightarrow> seg_collision c3 y = seg_collision c2 y"
    using index_remove_ok [OF k2] by blast
  note f3 = coll_frame_fields [OF c3(4)] and d3 = coll_frame_derived [OF c3(4)]
  define c4 where "c4 = count_cached core (part_of c x) (- 1) c3"
  have run: "ocf_lru_invalidate c1 x core (part_of c x) = Some c4"
    using c2(1) c3(1) by (simp add: ocf_lru_invalidate_def metadata_clear_valid_sec_def c4_def)
  have g: "same_geometry c c4"
    using same_geometry_trans [OF f(7) same_geometry_trans [OF status_change_geometry [OF c2(2)] coll_frame_geometry [OF c3(4)]]]
    by (rule same_geometry_trans) (use count_frame(1) [of c3 core "part_of c x" "- 1"] in \<open>simp add: c4_def same_lines_def\<close>)
  have l4: "same_lines c3 c4" by (simp add: c4_def)
  have po: "part_of c4 y = (if y = x then dst else part_of c y)" for y
    by (simp add: same_lines_part [OF l4] d3(2) same_lines_part [OF l2] f(3))
  have sec: "secs v c4 y = (if y = x then {} else secs v c y)" for v y
    using s2 [of v y] f(6) D whole_line(2) [OF x1(2,1), of Valid] by (cases v) (auto simp: c4_def d3(3))
  have idx: "index_ok c4" "index c4 = (index c)((core, cl) := None)"
    using same_lines_index(1,2) [OF l4] c3(2,3) same_lines_index(2) [OF l2 f(4)] f(5) by auto
  have col: "core_id (seg_collision c4 y) = core_id (seg_collision c y)" if "y \<noteq> x" for y
    using that c3(5) l2 l4 pf(2) by (simp add: same_lines_def)
  obtain L1 where L1: "lru_inv c1 L1" using f(1) by blast
  have "lru_inv c2 L1" using same_lines_lru [OF l2] s2 L1 by simp
  then have li: "lru_inv c4 L1" using d3(6) same_lines_lru [OF l4, of L1] by (simp add: c4_def)
  have xr: "x \<notin> ran (index c4)" using index_inj(1) [OF i(2) k] by (auto simp: idx(2) ran_def split: if_splits)
  have yr: "y \<in> ran (index c4) \<longleftrightarrow> y \<in> ran (index c)" if "y \<noteq> x" for y
    using that k unfolding idx(2) ran_def by auto (metis option.inject)
  have cd: "counted Dirty c4 = counted Dirty c"
    using D col same_geometry_derived(2) [OF g] by (force simp: counted_def sec po fun_eq_iff)
  have "counted Valid c4 = (counted Valid c)(core := (counted Valid c core)(part_of c x := counted Valid c core (part_of c x) - {x}))"
    using l(1,2) col same_geometry_derived(2) [OF g] by (auto simp: counted_def sec po fun_eq_iff)
  moreover have "counters_match ((cached_clines c)(core := cached_clines c core - 1))
      ((part_cached_clines c)(core := (part_cached_clines c core)(part_of c x := part_cached_clines c core (part_of c x) - 1)))
      ((counted Valid c)(core := (counted Valid c core)(part_of c x := counted Valid c core (part_of c x) - {x})))" if exact
    by (rule counters_sub [OF _ counted_lines _ _ l(4)]) (use that i(5) l(1,2) V in \<open>simp_all add: counts_ok_def, simp_all add: counted_def\<close>)
  ultimately have "exact \<longrightarrow> counts_ok c4" using i(5) cd by (simp add: counts_ok_def c4_def count_cached_def f3 n2 pf)
  moreover have "status_ok c4" using i(4) user_le_freelist [OF d] same_geometry_derived(2) [OF g] by (auto simp: status_ok_def sec po)
  ultimately have "floating exact c4 L1 x dst"
    using li idx(1) xr yr i(3) l(1) same_geometry_derived(2) [OF g] by (auto simp: floating_def used_ok_def po sec)
  then show ?thesis using run idx(2) g sec po by auto
qed

text \<open>The counters count the lines with a valid sector, and a line that loses its last one is counted down at once.  When the line stays mapped, because
  requests wait for it, \<open>ocf_lru_invalidate\<close> counts it down again.\<close>

lemma invalidate_counts_again:
  assumes inv: "meta_inv c L" and k: "index c (core, cl) = Some x" and e: "secs Valid c x = {}"
  shows "\<exists>c'. ocf_lru_invalidate c x core (part_of c x) = Some c' \<and> cached_clines c' core = cached_clines c core - 1 \<and>
    counted Valid c' = counted Valid c \<and> \<not> counts_ok c'"
proof -
  have i: "cache_inv c L" "index_ok c" "settings_ok c" "counts_ok c" using inv by (auto simp: meta_inv_def cache_inv_def lru_inv_def)
  note l = mapped_line [OF i(1) k]
  let ?e = "ucast (ocf_line_end_sector c) :: u8"
  obtain c2 where c2: "ocf_metadata_clear Valid c x 0 ?e = Some (c2, False)" "status_change Valid x {} c c2"
    using ocf_metadata_clear_change [OF whole_line(1) [OF i(3) l(1)], of Valid] e by auto
  note s2 = status_change_secs [OF c2(2)] and l2 = status_change_lines [OF c2(2)] and n2 = status_change_counters [OF c2(2)]
  have k2: "index_ok c2" "index c2 (core, cl) = Some x" using same_lines_index(1,2) [OF l2] i(2) k by auto
  obtain c3 where c3: "ocf_metadata_remove_from_collision c2 x (part_of c x) = Some c3" "coll_frame c2 c3" "\<forall>y. y \<noteq> x \<longrightarrow> seg_collision c3 y = seg_collision c2 y"
    using index_remove_ok [OF k2] by blast
  note f3 = coll_frame_fields [OF c3(2)] and d3 = coll_frame_derived [OF c3(2)]
  define c4 where "c4 = count_cached core (part_of c x) (- 1) c3"
  have run: "ocf_lru_invalidate c x core (part_of c x) = Some c4"
    using c2(1) c3(1) by (simp add: ocf_lru_invalidate_def metadata_clear_valid_sec_def c4_def)
  have l4: "same_lines c3 c4" by (simp add: c4_def)
  have "secs Valid c4 y = secs Valid c y" for y using s2 [of Valid y] e by (auto simp: c4_def d3(3))
  moreover have "part_of c4 y = part_of c y" for y by (simp add: same_lines_part [OF l4] d3(2) same_lines_part [OF l2])
  moreover have "core_id (seg_collision c4 y) = core_id (seg_collision c y)" if "y \<noteq> x" for y
    using that c3(3) l2 l4 by (simp add: same_lines_def)
  moreover have "collision_table_entries c4 = collision_table_entries c"
    using same_geometry_derived(2) [of c c2] f3(1) l2 by (simp add: c4_def count_cached_def same_lines_def)
  ultimately have cnt: "counted Valid c4 = counted Valid c" using e by (force simp: counted_def fun_eq_iff)
  have dec: "cached_clines c4 core = cached_clines c core - 1" by (simp add: c4_def count_cached_def f3 n2)
  have "\<not> counts_ok c4"
  proof
    assume "counts_ok c4"
    then have "unat (cached_clines c4 core) = unat (cached_clines c core)" using i(4) by (simp add: counts_ok_def counters_match_def cnt)
    then show False unfolding dec word_unat_eq_iff [symmetric] by simp
  qed
  then show ?thesis using run dec cnt by blast
qed

lemma floating_mapped:
  assumes fl: "floating exact c L x dst" and d: "dst \<le> OCF_USER_IO_CLASS_MAX" and k: "index c (core, cl) = None"
  shows "\<exists>c'. ocf_metadata_add_to_collision c core cl (ocf_metadata_hash_func c cl core) x = Some c' \<and> metadata_ok exact c' L \<and>
    index c' = (index c)((core, cl) \<mapsto> x) \<and> same_geometry c c' \<and> (\<forall>v y. secs v c' y = secs v c y) \<and> (\<forall>y. part_of c' y = part_of c y)"
proof -
  note F = fl [unfolded floating_def]
  obtain c' where c': "index_add c (core, cl) x = Some c'" "index_ok c'" "index c' = (index c)((core, cl) \<mapsto> x)" "coll_frame c c'"
    "\<forall>y. y \<noteq> x \<longrightarrow> seg_collision c' y = seg_collision c y"
    using index_add_ok [of c x "(core, cl)"] F k by blast
  note f = coll_frame_fields [OF c'(4)] and fd = coll_frame_derived [OF c'(4)]
  have r: "y \<in> ran (index c') \<longleftrightarrow> y = x \<or> y \<in> ran (index c)" for y
    using k unfolding c'(3) ran_def by (auto split: if_splits) (metis option.distinct(1))
  have "used_ok c'" using F d by (auto simp: used_ok_def r f(1) fd(2))
  moreover have "counted v c' = counted v c" for v using F c'(5) by (force simp: counted_def f(1) fd(2,3) fun_eq_iff)
  then have "exact \<longrightarrow> counts_ok c'" using F by (simp add: counts_ok_def f)
  moreover have "status_ok c'" using F by (simp add: status_ok_def f(1) fd(2,3))
  moreover have "lru_inv c' L" using F fd(6) by simp
  ultimately have "metadata_ok exact c' L" using c'(2) by (simp add: metadata_ok_def cache_inv_def)
  then show ?thesis using c'(1,3) coll_frame_geometry [OF c'(4)] fd(2,3) by (simp add: index_add_def)
qed


subsection \<open>The request\<close>

definition misses :: "ocf_request \<Rightarrow> nat set" where
  "misses req = {i. i < unat (core_line_count req) \<and> status (req_map req ! i) = LOOKUP_MISS}"

lemma finite_misses [simp]: "finite (misses req)"
  by (simp add: misses_def)

text \<open>The map of the request agrees with the hash table, and its counters with its map.\<close>

definition req_fine :: "('s :: len) ocf_cache \<Rightarrow> ocf_request \<Rightarrow> bool" where
  "req_fine c req \<longleftrightarrow> req_shape c req \<and> req_hashed c req \<and> unat (ocf_engine_unmapped_count req) = card (misses req) \<and>
     (\<forall>i<unat (core_line_count req). let e = req_map req ! i in
        if status e = LOOKUP_MISS then index c (req_key req i) = None
        else (status e = LOOKUP_HIT \<or> status e = LOOKUP_REMAPPED) \<and> index c (req_key req i) = Some (coll_idx e))"

lemma req_entry:
  assumes "req_fine c req" "i < unat (core_line_count req)"
  shows "status (req_map req ! i) = LOOKUP_MISS \<longleftrightarrow> index c (req_key req i) = None"
    "status (req_map req ! i) \<noteq> LOOKUP_MISS \<Longrightarrow> index c (req_key req i) = Some (coll_idx (req_map req ! i))"
    "status (req_map req ! i) \<noteq> LOOKUP_MISS \<Longrightarrow> status (req_map req ! i) = LOOKUP_HIT \<or> status (req_map req ! i) = LOOKUP_REMAPPED"
proof -
  have "if status (req_map req ! i) = LOOKUP_MISS then index c (req_key req i) = None
      else (status (req_map req ! i) = LOOKUP_HIT \<or> status (req_map req ! i) = LOOKUP_REMAPPED) \<and> index c (req_key req i) = Some (coll_idx (req_map req ! i))"
    using assms by (simp add: req_fine_def Let_def)
  then show "status (req_map req ! i) = LOOKUP_MISS \<longleftrightarrow> index c (req_key req i) = None"
    "status (req_map req ! i) \<noteq> LOOKUP_MISS \<Longrightarrow> index c (req_key req i) = Some (coll_idx (req_map req ! i))"
    "status (req_map req ! i) \<noteq> LOOKUP_MISS \<Longrightarrow> status (req_map req ! i) = LOOKUP_HIT \<or> status (req_map req ! i) = LOOKUP_REMAPPED"
    by (simp_all split: if_splits)
qed

text \<open>The request after entry \<open>j\<close> has got line \<open>x\<close>.\<close>

definition placed :: "ocf_request \<Rightarrow> nat \<Rightarrow> u32 \<Rightarrow> u32 \<Rightarrow> ocf_request" where
  "placed req j x q = req\<lparr>req_map := (req_map req)[j := (req_map req ! j)\<lparr>coll_idx := x, status := LOOKUP_REMAPPED\<rparr>],
     req_info := (req_info req)\<lparr>insert_no := insert_no (req_info req) + 1, seq_no := q\<rparr>, alock_rw := OCF_WRITE\<rparr>"

lemma placed_fields [simp]:
  "core_line_count (placed req j x q) = core_line_count req" "core_line_first (placed req j x q) = core_line_first req"
  "core_line_last (placed req j x q) = core_line_last req" "req_core (placed req j x q) = req_core req" "req_no (placed req j x q) = req_no req"
  "req_part_id (placed req j x q) = req_part_id req" "req_key (placed req j x q) = req_key req" "length (req_map (placed req j x q)) = length (req_map req)"
  "part_evict (placed req j x q) = part_evict req" "req_buckets c (placed req j x q) = req_buckets c req"
  by (simp_all add: placed_def req_key_def fun_eq_iff req_buckets_def)

lemma sector_alock_rw [simp]:
  "ocf_map_line_start_sector cache (req\<lparr>alock_rw := r\<rparr>) i = ocf_map_line_start_sector cache req i"
  "ocf_map_line_end_sector cache (req\<lparr>alock_rw := r\<rparr>) i = ocf_map_line_end_sector cache req i"
  by (simp_all add: ocf_map_line_start_sector_def ocf_map_line_end_sector_def)

lemma index_u32:
  assumes "i < unat (core_line_count req)"
  shows "unat (of_nat i :: u32) = i" "i < 2 ^ 32"
  using assms unsigned_less [of "core_line_count req", where ?'a = nat] by (simp_all add: unat_of_nat take_bit_nat_eq_self)

lemma misses_count:
  assumes "unat (ocf_engine_unmapped_count req) = card (misses req)" "j \<in> misses req" "length (req_map req) = unat (core_line_count req)"
  shows "misses (placed req j x q) = misses req - {j}" "unat (ocf_engine_unmapped_count (placed req j x q)) = card (misses (placed req j x q))"
proof -
  have j: "j < length (req_map req)" using assms(2,3) by (simp add: misses_def)
  show m: "misses (placed req j x q) = misses req - {j}"
    using j assms(3) by (auto simp: misses_def placed_def nth_list_update lookup_defs split: if_splits)
  have "0 < card (misses req)" using assms(2) by (auto simp: card_gt_0_iff)
  then have "0 < unat (ocf_engine_unmapped_count req)" using assms(1) by simp
  then have "unat (ocf_engine_unmapped_count req - 1) = unat (ocf_engine_unmapped_count req) - 1" by (intro unat_minus_one) auto
  moreover have "ocf_engine_unmapped_count (placed req j x q) = ocf_engine_unmapped_count req - 1"
    by (simp add: ocf_engine_unmapped_count_def placed_def)
  ultimately show "unat (ocf_engine_unmapped_count (placed req j x q)) = card (misses (placed req j x q))"
    using assms(1,2) by (simp add: m)
qed

lemma placed_fine:
  assumes f: "req_fine c req" and j: "j \<in> misses req" and g: "same_geometry c c'" and k: "index c' (req_key req j) = Some x"
    and o: "\<And>i. i < unat (core_line_count req) \<Longrightarrow> i \<noteq> j \<Longrightarrow> index c' (req_key req i) = index c (req_key req i)"
  shows "req_fine c' (placed req j x q)"
proof -
  note F = f [unfolded req_fine_def]
  have len: "length (req_map req) = unat (core_line_count req)" using F by (simp add: req_shape_def)
  have jl: "j < unat (core_line_count req)" using j by (simp add: misses_def)
  note gd = same_geometry_derived [OF g]
  have "req_shape c' (placed req j x q)" using F len unfolding gd by (simp add: req_shape_def placed_def)
  moreover have "req_hashed c' (placed req j x q)"
    using F len jl unfolding gd by (auto simp: req_hashed_def placed_def nth_list_update)
  moreover have "let e = req_map (placed req j x q) ! i in
      if status e = LOOKUP_MISS then index c' (req_key (placed req j x q) i) = None
      else (status e = LOOKUP_HIT \<or> status e = LOOKUP_REMAPPED) \<and> index c' (req_key (placed req j x q) i) = Some (coll_idx e)"
    if i: "i < unat (core_line_count req)" for i
  proof (cases "i = j")
    case True
    then show ?thesis using k len jl by (simp add: placed_def lookup_defs Let_def) (simp add: req_key_def)
  next
    case False
    have "req_map (placed req j x q) ! i = req_map req ! i" using False by (simp add: placed_def)
    then show ?thesis using F i o [OF i False] by (simp add: Let_def)
  qed
  ultimately show ?thesis using misses_count(2) [OF _ j len] F by (simp add: req_fine_def)
qed

lemma next_unmapped_ok:
  assumes len: "length (req_map req) = unat (core_line_count req)" and j: "j \<in> misses req" "\<And>i. i \<in> misses req \<Longrightarrow> j \<le> i"
  shows "k \<le> j \<Longrightarrow> next_unmapped req (of_nat k) = Some (of_nat j)"
proof (induction "j - k" arbitrary: k)
  case 0
  then have kj: "k = j" by simp
  have jl: "j < unat (core_line_count req)" "status (req_map req ! j) = LOOKUP_MISS" using j(1) by (auto simp: misses_def)
  have "map_entry req (of_nat j) = Some (req_map req ! j)" using len jl index_u32 [OF jl(1)] by (simp add: map_entry_def)
  then show ?case using jl(2) by (subst next_unmapped.simps) (simp add: kj)
next
  case (Suc n)
  have jl: "j < unat (core_line_count req)" using j(1) by (simp add: misses_def)
  have k: "k < j" "k < unat (core_line_count req)" using Suc jl by auto
  have nm: "status (req_map req ! k) \<noteq> LOOKUP_MISS" using j(2) [of k] k by (auto simp: misses_def)
  have me: "map_entry req (of_nat k) = Some (req_map req ! k)" using len k(2) index_u32 [OF k(2)] by (simp add: map_entry_def)
  have s: "Suc k < unat (core_line_count req)" using k(1) jl by simp
  have lt: "(of_nat k :: u32) + 1 < core_line_count req"
    using index_u32 [OF s] s by (simp add: word_less_nat_alt add.commute)
  have "next_unmapped req (of_nat (Suc k)) = Some (of_nat j)" by (rule Suc.hyps(1)) (use Suc.hyps(2) k in auto)
  then show ?case using me nm lt by (subst next_unmapped.simps) (simp add: add.commute)
qed

lemma phys_cont_some:
  assumes "Suc i < length (req_map req)" "length (req_map req) < 2 ^ 32"
  shows "\<exists>b. ocf_engine_clines_phys_cont cache req (of_nat i) = Some b"
  using phys_cont_total [of "Suc i" req cache] assms by simp

lemma patch_req_info_ok:
  assumes len: "length (req_map req) = unat (core_line_count req)" and j: "j < unat (core_line_count req)" and st: "status (req_map req ! j) = LOOKUP_REMAPPED"
  shows "\<exists>q. ocf_engine_patch_req_info c req (of_nat j) =
    Some (req\<lparr>req_info := (req_info req)\<lparr>insert_no := insert_no (req_info req) + 1, seq_no := q\<rparr>\<rparr>)"
proof -
  have n32: "unat (core_line_count req) < 2 ^ 32" using unsigned_less [of "core_line_count req", where ?'a = nat] by simp
  have u: "unat (of_nat j :: u32) = j" by (rule index_u32 [OF j])
  have me: "map_entry req (of_nat j) = Some (req_map req ! j)" using len j u by (simp add: map_entry_def)
  define r1 where "r1 = info_if True (\<lambda>i. i\<lparr>insert_no := insert_no i + 1\<rparr>) req"
  have r1: "req_map r1 = req_map req" "core_line_count r1 = core_line_count req" by (simp_all add: r1_def info_if_def)
  have "\<exists>b. (if (of_nat j :: u32) > 0 then ocf_engine_clines_phys_cont c r1 (of_nat j - 1) else Some False) = Some b"
    using phys_cont_total [of j r1 c] j n32 len u by (auto simp: r1 word_less_nat_alt)
  then obtain b where b: "(if (of_nat j :: u32) > 0 then ocf_engine_clines_phys_cont c r1 (of_nat j - 1) else Some False) = Some b" by blast
  define r2 where "r2 = info_if b (\<lambda>i. i\<lparr>seq_no := seq_no i + 1\<rparr>) r1"
  have r2: "req_map r2 = req_map req" "core_line_count r2 = core_line_count req" by (simp_all add: r2_def info_if_def r1)
  have "\<exists>b'. (if (of_nat j :: u32) + 1 < core_line_count r2 then ocf_engine_clines_phys_cont c r2 (of_nat j) else Some False) = Some b'"
  proof (cases "(of_nat j :: u32) + 1 < core_line_count r2")
    case True
    have "unat ((of_nat j :: u32) + 1) = Suc j" using j n32 u by (subst unat_add_nowrap) auto
    then have "Suc j < length (req_map r2)" using True len by (simp add: r2 word_less_nat_alt)
    then show ?thesis using phys_cont_some [of j r2 c] True n32 len by (simp add: r2)
  qed auto
  then obtain b' where b': "(if (of_nat j :: u32) + 1 < core_line_count r2 then ocf_engine_clines_phys_cont c r2 (of_nat j) else Some False) = Some b'" by blast
  have "ocf_engine_patch_req_info c req (of_nat j) = Some (info_if b' (\<lambda>i. i\<lparr>seq_no := seq_no i + 1\<rparr>) r2)"
    using me st unfolding ocf_engine_patch_req_info_def Let_def r1_def [symmetric]
    by (simp only: bind.bind_lunit ENV_BUG_ON_simps b r2_def [symmetric] b') simp
  then show ?thesis
    by (intro exI [of _ "plus_if b' (plus_if b (seq_no (req_info req)))"]) (simp add: r2_def r1_def info_if_def plus_if_def)
qed


subsection \<open>One line for the request\<close>

text \<open>The lines that the request has got are locked for it and empty.  With \<open>exact\<close>, the counters are right and every line that is mapped and that nobody holds has
  a valid sector; without, such lines may be empty.\<close>

definition space_ok :: "bool \<Rightarrow> ('s :: len) space_state \<Rightarrow> (lru_ref \<Rightarrow> u32 list) \<Rightarrow> (u32 \<Rightarrow> rw list) \<Rightarrow> bool" where
  "space_ok exact st L H \<longleftrightarrow> metadata_ok exact (sp_cache st) L \<and> locks_ok (fst (sp_locks st), H) \<and> num_entries (fst (sp_locks st)) = collision_table_entries (sp_cache st) \<and>
     req_fine (sp_cache st) (sp_req st) \<and> req_part_id (sp_req st) \<le> OCF_USER_IO_CLASS_MAX \<and>
     (exact \<longrightarrow> (\<forall>x\<in>ran (index (sp_cache st)). H x = [] \<longrightarrow> secs Valid (sp_cache st) x \<noteq> {})) \<and>
     (\<forall>i<unat (core_line_count (sp_req st)). status (req_map (sp_req st) ! i) = LOOKUP_REMAPPED \<longrightarrow>
        H (coll_idx (req_map (sp_req st) ! i)) = [OCF_WRITE] \<and> waiters_of (fst (sp_locks st)) (coll_idx (req_map (sp_req st) ! i)) = [] \<and>
        secs Valid (sp_cache st) (coll_idx (req_map (sp_req st) ! i)) = {}) \<and>
     (\<forall>i<unat (core_line_count (sp_req st)). alock_status (fst (sp_locks st)) (req_no (sp_req st)) (of_nat i) \<longleftrightarrow>
        status (req_map (sp_req st) ! i) = LOOKUP_REMAPPED)"

text \<open>The lines that the request can get from partition \<open>src\<close>.\<close>

definition takeable :: "('s :: len) space_state \<Rightarrow> u16 \<Rightarrow> u32 \<Rightarrow> bool" where
  "takeable st src y \<longleftrightarrow> y < collision_table_entries (sp_cache st) \<and> part_of (sp_cache st) y = src \<and>
     (if src = PARTITION_FREELIST then acc (fst (sp_locks st)) y = OCF_CACHE_LINE_ACCESS_IDLE
      else src \<le> OCF_USER_IO_CLASS_MAX \<and> secs Dirty (sp_cache st) y = {} \<and> evictable (sp_cache st) (sp_req st) (sp_locks st) y)"

definition seg_same :: "('s :: len) ocf_cache \<Rightarrow> 's ocf_cache \<Rightarrow> u32 \<Rightarrow> bool" where
  "seg_same c c' y \<longleftrightarrow> core_id (seg_collision c y) = core_id (seg_collision c' y) \<and> core_line (seg_collision c y) = core_line (seg_collision c' y)"

text \<open>An entry of the request that is mapped stays; one that is not gets nothing, or a line that nobody held.\<close>

definition entry_kept :: "(u32 \<Rightarrow> rw list) \<Rightarrow> ocf_map_info \<Rightarrow> ocf_map_info \<Rightarrow> bool" where
  "entry_kept H e e' \<longleftrightarrow> (if status e = LOOKUP_MISS then status e' = LOOKUP_MISS \<or> status e' = LOOKUP_REMAPPED \<and> H (coll_idx e') = [] else e' = e)"

text \<open>What changes while lines are found: \<open>n\<close> misses of the request are filled; no dirty sector is lost, and no sector of the request.\<close>

definition progress :: "('s :: len) space_state \<Rightarrow> (u32 \<Rightarrow> rw list) \<Rightarrow> 's space_state \<Rightarrow> (u32 \<Rightarrow> rw list) \<Rightarrow> nat \<Rightarrow> bool" where
  "progress st H st' H' n \<longleftrightarrow> (let c = sp_cache st; c' = sp_cache st'; r = sp_req st; r' = sp_req st' in
     same_geometry c c' \<and> (\<forall>v k t. cached v c' k t \<longrightarrow> cached v c k t) \<and> (\<forall>k t. cached Dirty c k t \<longrightarrow> cached Dirty c' k t) \<and>
     (\<forall>v i t. i < unat (core_line_count r) \<longrightarrow> cached v c (req_key r i) t \<longrightarrow> cached v c' (req_key r i) t) \<and>
     (\<exists>m f w. r' = r\<lparr>req_map := m, req_info := f, alock_rw := w\<rparr>) \<and>
     mapping_error (req_info r') = mapping_error (req_info r) \<and> (\<forall>i<unat (core_line_count r). entry_kept H (req_map r ! i) (req_map r' ! i)) \<and>
     snd (sp_locks st') = snd (sp_locks st) \<and> 
     (\<forall>y. H' y \<noteq> H y \<longrightarrow> H y = [] \<and> (\<exists>i<unat (core_line_count r). status (req_map r' ! i) = LOOKUP_REMAPPED \<and> coll_idx (req_map r' ! i) = y)) \<and>
     card (misses r') + n = card (misses r) \<and>
     (\<forall>src y. takeable st' src y \<longrightarrow> takeable st src y))"

lemma progress_refl: "progress st H st H 0"
  unfolding progress_def Let_def by (auto simp: entry_kept_def intro!: exI [of _ "req_map (sp_req st)"] exI [of _ "req_info (sp_req st)"] exI [of _ "alock_rw (sp_req st)"])

lemma progressD:
  assumes "progress st H st' H' n"
  shows "same_geometry (sp_cache st) (sp_cache st')" "cached v (sp_cache st') k t \<Longrightarrow> cached v (sp_cache st) k t"
    "cached Dirty (sp_cache st) k t \<Longrightarrow> cached Dirty (sp_cache st') k t"
    "i < unat (core_line_count (sp_req st)) \<Longrightarrow> cached v (sp_cache st) (req_key (sp_req st) i) t \<Longrightarrow> cached v (sp_cache st') (req_key (sp_req st) i) t"
    "\<exists>m f w. sp_req st' = (sp_req st)\<lparr>req_map := m, req_info := f, alock_rw := w\<rparr>"
    "i < unat (core_line_count (sp_req st)) \<Longrightarrow> entry_kept H (req_map (sp_req st) ! i) (req_map (sp_req st') ! i)"
    "snd (sp_locks st') = snd (sp_locks st)" "H' y \<noteq> H y \<Longrightarrow> H y = [] \<and> (\<exists>i<unat (core_line_count (sp_req st)). status (req_map (sp_req st') ! i) = LOOKUP_REMAPPED \<and> coll_idx (req_map (sp_req st') ! i) = y)"
    "card (misses (sp_req st')) + n = card (misses (sp_req st))"
    "core_line_count (sp_req st') = core_line_count (sp_req st)" "req_key (sp_req st') = req_key (sp_req st)"
    "req_part_id (sp_req st') = req_part_id (sp_req st)" "part_evict (sp_req st') = part_evict (sp_req st)"
    "req_no (sp_req st') = req_no (sp_req st)" "req_core (sp_req st') = req_core (sp_req st)" "takeable st' src z \<Longrightarrow> takeable st src z"
    "mapping_error (req_info (sp_req st')) = mapping_error (req_info (sp_req st))"
proof -
  note P = assms [unfolded progress_def Let_def]
  show r: "\<exists>m f w. sp_req st' = (sp_req st)\<lparr>req_map := m, req_info := f, alock_rw := w\<rparr>" using P by (elim conjE)
  then show "core_line_count (sp_req st') = core_line_count (sp_req st)" "req_key (sp_req st') = req_key (sp_req st)"
    "req_part_id (sp_req st') = req_part_id (sp_req st)" "part_evict (sp_req st') = part_evict (sp_req st)"
    "req_no (sp_req st') = req_no (sp_req st)" "req_core (sp_req st') = req_core (sp_req st)"
    by (auto simp: req_key_def fun_eq_iff)
qed (use assms in \<open>simp_all add: progress_def Let_def del: split_paired_All\<close>)

lemma progress_trans:
  assumes a: "progress s1 H1 s2 H2 m" and b: "progress s2 H2 s3 H3 n"
  shows "progress s1 H1 s3 H3 (m + n)"
proof -
  note A = progressD [OF a] and B = progressD [OF b]
  obtain m1 f1 w1 where r2: "sp_req s2 = (sp_req s1)\<lparr>req_map := m1, req_info := f1, alock_rw := w1\<rparr>" using A(5) by blast
  obtain m2 f2 w2 where r3: "sp_req s3 = (sp_req s2)\<lparr>req_map := m2, req_info := f2, alock_rw := w2\<rparr>" using B(5) by blast
  show ?thesis unfolding progress_def Let_def
  proof (intro conjI allI impI)
    show "same_geometry (sp_cache s1) (sp_cache s3)" by (rule same_geometry_trans [OF A(1) B(1)])
    show "cached v (sp_cache s3) k t \<Longrightarrow> cached v (sp_cache s1) k t" for v k t by (rule A(2) [OF B(2)])
    show "cached Dirty (sp_cache s1) k t \<Longrightarrow> cached Dirty (sp_cache s3) k t" for k t by (rule B(3) [OF A(3)])
    show "cached v (sp_cache s3) (req_key (sp_req s1) i) t" if "i < unat (core_line_count (sp_req s1))" "cached v (sp_cache s1) (req_key (sp_req s1) i) t" for v i t
      using A(4) [OF that] B(4) [of i v t] that(1) by (simp only: A(10,11))
    show "\<exists>m f w. sp_req s3 = (sp_req s1)\<lparr>req_map := m, req_info := f, alock_rw := w\<rparr>"
      by (intro exI [of _ m2] exI [of _ f2] exI [of _ w2]) (simp add: r2 r3)
    show "entry_kept H1 (req_map (sp_req s1) ! i) (req_map (sp_req s3) ! i)" if "i < unat (core_line_count (sp_req s1))" for i
    proof -
      have "H1 y = []" if "H2 y = []" for y using A(8) [of y] that by (cases "H2 y = H1 y") auto
      then show ?thesis using A(6) [OF that] B(6) [of i] that A(10) by (auto simp: entry_kept_def lookup_defs split: if_splits)
    qed
    show "mapping_error (req_info (sp_req s3)) = mapping_error (req_info (sp_req s1))" using A(17) B(17) by simp
    show "snd (sp_locks s3) = snd (sp_locks s1)" using A(7) B(7) by simp
    show "H1 y = []" if "H3 y \<noteq> H1 y" for y using A(8) [of y] B(8) [of y] that by metis
    show "\<exists>i<unat (core_line_count (sp_req s1)). status (req_map (sp_req s3) ! i) = LOOKUP_REMAPPED \<and> coll_idx (req_map (sp_req s3) ! i) = y"
      if h: "H3 y \<noteq> H1 y" for y
    proof (cases "H3 y = H2 y")
      case True
      then obtain i where i: "i < unat (core_line_count (sp_req s1))" "status (req_map (sp_req s2) ! i) = LOOKUP_REMAPPED" "coll_idx (req_map (sp_req s2) ! i) = y"
        using A(8) [of y] h by auto
      then show ?thesis using B(6) [of i] A(10) by (intro exI [of _ i]) (simp add: entry_kept_def lookup_defs)
    qed (use B(8) [of y] A(10) in auto)
    show "card (misses (sp_req s3)) + (m + n) = card (misses (sp_req s1))" using A(9) B(9) by simp
    show "takeable s3 src y \<Longrightarrow> takeable s1 src y" for src y by (rule A(16) [OF B(16)])
  qed
qed

lemma unlock_hash_eq:
  assumes N: "0 < hash_table_entries c" and r: "req_hashed c req" and hl: "hash_locked iter" and b: "bucket_free c req s (ocf_metadata_hash_func c cl cid)"
  shows "lru_unlock_hash c req t iter (bucket_locked c req t s (ocf_metadata_hash_func c cl cid)) cid cl = Some s"
proof -
  let ?h = "ocf_metadata_hash_func c cl cid"
  have h: "\<not> ?h \<ge> hash_table_entries c" using hash_func_lt [OF N, of cl cid] by simp
  have own: "ocf_req_hash_in_range c req cid cl = Some (?h \<in> req_buckets c req)" using req_in_range [OF N r, of cid cl] by simp
  show ?thesis
  proof (cases "?h \<in> req_buckets c req")
    case True
    then show ?thesis using own hl by (simp add: lru_unlock_hash_def bucket_locked_def)
  next
    case False
    then have "held_locks (s t) - {(Hash ?h, OCF_WRITE)} = held_locks (s t)" using b by (auto simp: bucket_free_def grantable_def)
    then show ?thesis using own hl h False by (simp add: lru_unlock_hash_def bucket_locked_def up_lock_def)
  qed
qed

lemma req_key_in_request:
  assumes "req_shape c req" "i < unat (core_line_count req)"
  shows "in_request req (fst (req_key req i)) (snd (req_key req i))"
proof -
  have "unat (of_nat i :: u64) = i" using index_u32(2) [OF assms(2)] by (simp add: unat_of_nat take_bit_nat_eq_self)
  then have "unat (core_line_first req + of_nat i) = unat (core_line_first req) + i"
    using assms by (subst unat_add_nowrap) (auto simp: req_shape_def)
  then show ?thesis using assms by (simp add: in_request_def req_key_def req_shape_def word_le_nat_alt)
qed

text \<open>The end of \<open>place_line\<close>: line \<open>x\<close> floats, and entry \<open>j\<close> is the first miss.\<close>

definition finish_line :: "ocf_request \<Rightarrow> ('s :: len) ocf_cache \<Rightarrow> u32 \<Rightarrow> u32 \<Rightarrow> ('s ocf_cache \<times> ocf_request) option" where
  "finish_line req c2 req_idx x = do {
     (cache, req) \<leftarrow> ocf_map_cache_line c2 req req_idx x;
     e \<leftarrow> map_entry req req_idx;
     req \<leftarrow> ocf_engine_patch_req_info cache (set_map_entry req req_idx (e\<lparr>status := LOOKUP_REMAPPED\<rparr>)) req_idx;
     Some (cache, req\<lparr>alock_rw := OCF_WRITE\<rparr>)
   }"

lemma finish_line_ok:
  assumes fl: "floating exact c2 L x dst" and d: "dst \<le> OCF_USER_IO_CLASS_MAX" and g: "same_geometry c c2" and f: "req_fine c req" and j: "j \<in> misses req"
    and k: "index c2 (req_key req j) = None"
  shows "\<exists>c3 q. finish_line req c2 (of_nat j) x = Some (c3, placed req j x q) \<and> metadata_ok exact c3 L \<and> index c3 = (index c2)(req_key req j \<mapsto> x) \<and>
    same_geometry c c3 \<and> (\<forall>v y. secs v c3 y = secs v c2 y) \<and> (\<forall>y. part_of c3 y = part_of c2 y)"
proof -
  note F = f [unfolded req_fine_def]
  have jl: "j < unat (core_line_count req)" using j by (simp add: misses_def)
  have len: "length (req_map req) = unat (core_line_count req)" using F by (simp add: req_shape_def)
  have u: "unat (of_nat j :: u32) = j" by (rule index_u32 [OF jl])
  have me: "map_entry req (of_nat j) = Some (req_map req ! j)" using len jl u by (simp add: map_entry_def)
  have cl: "core_line_first req + ucast (of_nat j :: u32) = core_line_first req + (of_nat j :: u64)"
    using u by (simp add: unsigned_of_nat take_bit_nat_eq_self index_u32(2) [OF jl])
  have h: "m_hash (req_map req ! j) = ocf_metadata_hash_func c2 (core_line_first req + of_nat j) (req_core req)"
    using F jl same_geometry_derived(9) [OF g] by (simp add: req_hashed_def)
  obtain c3 where c3: "ocf_metadata_add_to_collision c2 (req_core req) (core_line_first req + of_nat j) (m_hash (req_map req ! j)) x = Some c3" "metadata_ok exact c3 L"
    "index c3 = (index c2)(req_key req j \<mapsto> x)" "same_geometry c2 c3" "\<forall>v y. secs v c3 y = secs v c2 y" "\<forall>y. part_of c3 y = part_of c2 y"
    using floating_mapped [OF fl d, of "req_core req" "core_line_first req + of_nat j"] k unfolding h req_key_def by blast
  let ?r1 = "req\<lparr>req_map := (req_map req)[j := (req_map req ! j)\<lparr>coll_idx := x\<rparr>]\<rparr>"
  let ?r2 = "req\<lparr>req_map := (req_map req)[j := (req_map req ! j)\<lparr>coll_idx := x, status := LOOKUP_REMAPPED\<rparr>]\<rparr>"
  have m1: "ocf_map_cache_line c2 req (of_nat j) x = Some (c3, ?r1)" using me c3(1) u cl by (simp add: ocf_map_cache_line_def set_map_entry_def)
  have me1: "map_entry ?r1 (of_nat j) = Some ((req_map req ! j)\<lparr>coll_idx := x\<rparr>)" using len jl u by (simp add: map_entry_def)
  have s1: "set_map_entry ?r1 (of_nat j) ((req_map req ! j)\<lparr>coll_idx := x, status := LOOKUP_REMAPPED\<rparr>) = ?r2" by (simp add: set_map_entry_def u)
  obtain q where q: "ocf_engine_patch_req_info c3 ?r2 (of_nat j) =
      Some (?r2\<lparr>req_info := (req_info ?r2)\<lparr>insert_no := insert_no (req_info ?r2) + 1, seq_no := q\<rparr>\<rparr>)"
    using patch_req_info_ok [of ?r2 j c3] len jl by auto
  have "finish_line req c2 (of_nat j) x = Some (c3, placed req j x q)"
    using m1 me1 s1 q by (simp add: finish_line_def placed_def)
  then show ?thesis using c3(2,3,5,6) same_geometry_trans [OF g c3(4)] by blast
qed


lemma mark_locked [simp]:
  "num_entries (ocf_alock_mark_index_locked a r i b) = num_entries a" "acc (ocf_alock_mark_index_locked a r i b) = acc a"
  "alock_status (ocf_alock_mark_index_locked a r i b) = (alock_status a)(r := (alock_status a r)(i := b))"
  by (simp_all add: ocf_alock_mark_index_locked_def)

lemma mark_locks_ok: "locks_ok (a, H) \<Longrightarrow> locks_ok (ocf_alock_mark_index_locked a r i b, H)"
  by (rule same_locks_ok) (simp_all add: same_waiters_def ocf_alock_mark_index_locked_def)

text \<open>The state when line \<open>x\<close> has become the line of entry \<open>j\<close>.\<close>

definition with_line :: "('s :: len) space_state \<Rightarrow> 's ocf_cache \<Rightarrow> nat \<Rightarrow> u32 \<Rightarrow> u32 \<Rightarrow> 's space_state" where
  "with_line st c3 j x q = st\<lparr>sp_cache := c3, sp_req := placed (sp_req st) j x q,
     sp_locks := (ocf_alock_mark_index_locked (set_access (fst (sp_locks st)) x OCF_CACHE_LINE_ACCESS_WR) (req_no (sp_req st)) (of_nat j) True, snd (sp_locks st))\<rparr>"

lemma with_line_ok:
  assumes ok: "space_ok exact st L H" and x: "x < collision_table_entries (sp_cache st)" "acc (fst (sp_locks st)) x = OCF_CACHE_LINE_ACCESS_IDLE"
    and fl: "floating exact c2 L2 x (req_part_id (sp_req st))" and g: "same_geometry (sp_cache st) c2"
    and idx: "\<And>k. index c2 k = (if index (sp_cache st) k = Some x then None else index (sp_cache st) k)"
    and sec: "\<And>v y. y \<noteq> x \<Longrightarrow> secs v c2 y = secs v (sp_cache st) y" and pa: "\<And>y. y \<noteq> x \<Longrightarrow> part_of c2 y = part_of (sp_cache st) y" and D: "secs Dirty (sp_cache st) x = {}"
    and nr: "\<And>i. i < unat (core_line_count (sp_req st)) \<Longrightarrow> index (sp_cache st) (req_key (sp_req st) i) \<noteq> Some x" and j: "j \<in> misses (sp_req st)"
  shows "\<exists>c3 q. finish_line (sp_req st) c2 (of_nat j) x = Some (c3, placed (sp_req st) j x q) \<and>
    space_ok exact (with_line st c3 j x q) L2 (H(x := [OCF_WRITE])) \<and> progress st H (with_line st c3 j x q) (H(x := [OCF_WRITE])) 1"
proof -
  let ?c = "sp_cache st" and ?r = "sp_req st" and ?a = "fst (sp_locks st)"
  note O = ok [unfolded space_ok_def]
  have f: "req_fine ?c ?r" and pd: "req_part_id ?r \<le> OCF_USER_IO_CLASS_MAX" and lo: "locks_ok (?a, H)" and nm: "num_entries ?a = collision_table_entries ?c"
    using O by auto
  note F = f [unfolded req_fine_def]
  have sh: "req_shape ?c ?r" and len: "length (req_map ?r) = unat (core_line_count ?r)" using F by (auto simp: req_shape_def)
  have jl: "j < unat (core_line_count ?r)" "index ?c (req_key ?r j) = None" using j F by (auto simp: misses_def Let_def)
  have k2: "index c2 (req_key ?r j) = None" using idx jl(2) by simp
  obtain c3 q where c3: "finish_line ?r c2 (of_nat j) x = Some (c3, placed ?r j x q)" "metadata_ok exact c3 L2" "index c3 = (index c2)(req_key ?r j \<mapsto> x)"
    "same_geometry ?c c3" "\<forall>v y. secs v c3 y = secs v c2 y" "\<forall>y. part_of c3 y = part_of c2 y"
    using finish_line_ok [OF fl pd g f j k2] by blast
  have xe: "secs v c3 x = {}" for v using fl c3(5) by (simp add: floating_def)
  have ys: "secs v c3 y = secs v ?c y" if "y \<noteq> x" for v y using sec [OF that] c3(5) by simp
  have i3: "index c3 k = (if k = req_key ?r j then Some x else if index ?c k = Some x then None else index ?c k)" for k
    by (simp add: c3(3) idx)
  note l = locked_wr_ok [OF lo _ x(2)]
  have Hx: "H x = []" and lk: "locks_ok (fst (sp_locks (with_line st c3 j x q)), H(x := [OCF_WRITE]))"
    using l(1,2) x(1) nm mark_locks_ok by (auto simp: with_line_def)
  have keys: "index c3 (req_key ?r i) = index ?c (req_key ?r i)" if "i < unat (core_line_count ?r)" "i \<noteq> j" for i
    using that nr [OF that(1)] req_key_inj [of i ?r j] jl(1) by (auto simp: i3)
  have fine: "req_fine c3 (placed ?r j x q)" by (rule placed_fine [OF f j c3(4) _ keys]) (simp_all add: i3)
  have xr: "\<And>i. i < unat (core_line_count ?r) \<Longrightarrow> status (req_map ?r ! i) = LOOKUP_REMAPPED \<Longrightarrow> coll_idx (req_map ?r ! i) \<noteq> x"
    using O Hx by auto
  have "space_ok exact (with_line st c3 j x q) L2 (H(x := [OCF_WRITE]))"
    unfolding space_ok_def
  proof (intro conjI allI impI ballI)
    show "locks_ok (fst (sp_locks (with_line st c3 j x q)), H(x := [OCF_WRITE]))" by (rule lk)
    show "num_entries (fst (sp_locks (with_line st c3 j x q))) = collision_table_entries (sp_cache (with_line st c3 j x q))"
      using nm same_geometry_derived(2) [OF c3(4)] by (simp add: with_line_def set_access_def)
    show "secs Valid (sp_cache (with_line st c3 j x q)) y \<noteq> {}" if exact "y \<in> ran (index (sp_cache (with_line st c3 j x q)))" "(H(x := [OCF_WRITE])) y = []" for y
    proof -
      have y: "y \<noteq> x" "H y = []" using that(3) by (auto split: if_splits)
      have "y \<in> ran (index ?c)" using that(2) y(1) unfolding with_line_def ran_def by (auto simp: i3 split: if_splits)
      then show ?thesis using O that(1) y ys [OF y(1)] by (simp add: with_line_def)
    qed
    show "alock_status (fst (sp_locks (with_line st c3 j x q))) (req_no (sp_req (with_line st c3 j x q))) (of_nat i) \<longleftrightarrow>
        status (req_map (sp_req (with_line st c3 j x q)) ! i) = LOOKUP_REMAPPED" if "i < unat (core_line_count (sp_req (with_line st c3 j x q)))" for i
    proof -
      have il: "i < unat (core_line_count ?r)" using that by (simp add: with_line_def)
      have "(of_nat i :: u32) = of_nat j \<longleftrightarrow> i = j" by (rule of_nat_u32_eq [OF index_u32(2) [OF il] index_u32(2) [OF jl(1)]])
      then show ?thesis using il O jl(1) len by (cases "i = j") (simp_all add: with_line_def placed_def set_access_def)
    qed
    fix i assume i: "i < unat (core_line_count (sp_req (with_line st c3 j x q)))" "status (req_map (sp_req (with_line st c3 j x q)) ! i) = LOOKUP_REMAPPED"
    have il: "i < unat (core_line_count ?r)" using i(1) by (simp add: with_line_def)
    have wt: "waiters_of (fst (sp_locks (with_line st c3 j x q))) y = waiters_of ?a y" for y
      by (simp add: with_line_def waiters_of_def waiters_list_item_def set_access_def ocf_alock_mark_index_locked_def)
    show "(H(x := [OCF_WRITE])) (coll_idx (req_map (sp_req (with_line st c3 j x q)) ! i)) = [OCF_WRITE]"
      "waiters_of (fst (sp_locks (with_line st c3 j x q))) (coll_idx (req_map (sp_req (with_line st c3 j x q)) ! i)) = []"
      "secs Valid (sp_cache (with_line st c3 j x q)) (coll_idx (req_map (sp_req (with_line st c3 j x q)) ! i)) = {}"
      using i(2) il O xr [OF il] xe ys jl(1) len l(3) x(1) nm unfolding wt
      by (cases "i = j"; simp add: with_line_def placed_def)+
  qed (use c3(2) fine pd in \<open>simp_all add: with_line_def\<close>)
  moreover have "progress st H (with_line st c3 j x q) (H(x := [OCF_WRITE])) 1"
    unfolding progress_def Let_def
  proof (intro conjI allI impI)
    show "cached v ?c k t" if h: "cached v (sp_cache (with_line st c3 j x q)) k t" for v k t
    proof -
      obtain y where y: "index c3 k = Some y" "t \<in> secs v c3 y" using h by (cases "index c3 k") (auto simp: cached_def with_line_def)
      then have "y \<noteq> x" using xe by auto
      then show ?thesis using y ys by (auto simp: i3 cached_def split: if_splits)
    qed
    show "cached Dirty (sp_cache (with_line st c3 j x q)) k t" if h: "cached Dirty ?c k t" for k t
    proof -
      obtain y where y: "index ?c k = Some y" "t \<in> secs Dirty ?c y" using h by (cases "index ?c k") (auto simp: cached_def)
      then have "y \<noteq> x" "k \<noteq> req_key ?r j" using D jl(2) by auto
      then show ?thesis using y ys by (simp add: cached_def with_line_def i3)
    qed
    show "cached v (sp_cache (with_line st c3 j x q)) (req_key ?r i) t" if h: "i < unat (core_line_count ?r)" "cached v ?c (req_key ?r i) t" for v i t
    proof -
      obtain y where y: "index ?c (req_key ?r i) = Some y" "t \<in> secs v ?c y" using h(2) by (cases "index ?c (req_key ?r i)") (auto simp: cached_def)
      then have "y \<noteq> x" "i \<noteq> j" using nr [OF h(1)] jl(2) by auto
      then show ?thesis using y ys keys [OF h(1)] by (simp add: cached_def with_line_def)
    qed
    show "\<exists>m f w. sp_req (with_line st c3 j x q) = ?r\<lparr>req_map := m, req_info := f, alock_rw := w\<rparr>" unfolding with_line_def placed_def by auto
    show "entry_kept H (req_map ?r ! i) (req_map (sp_req (with_line st c3 j x q)) ! i)" if "i < unat (core_line_count ?r)" for i
      using that j len Hx by (cases "i = j") (auto simp: with_line_def placed_def misses_def entry_kept_def)
    show "H y = []" if "(H(x := [OCF_WRITE])) y \<noteq> H y" for y using Hx that by (auto split: if_splits)
    show "\<exists>i<unat (core_line_count ?r). status (req_map (sp_req (with_line st c3 j x q)) ! i) = LOOKUP_REMAPPED \<and> coll_idx (req_map (sp_req (with_line st c3 j x q)) ! i) = y"
      if "(H(x := [OCF_WRITE])) y \<noteq> H y" for y
      using that jl(1) len by (intro exI [of _ j]) (auto simp: with_line_def placed_def split: if_splits)
    have "misses (placed ?r j x q) = misses ?r - {j}" by (rule misses_count(1) [OF _ j len]) (use F in simp)
    moreover have "card (misses ?r - {j}) + 1 = card (misses ?r)" using j card_gt_0_iff [of "misses ?r"] by fastforce
    ultimately show "card (misses (sp_req (with_line st c3 j x q))) + 1 = card (misses ?r)" by (simp add: with_line_def)
    show "takeable st src y" if h: "takeable (with_line st c3 j x q) src y" for src y
    proof -
      have y: "y < collision_table_entries c3" "part_of c3 y = src" "acc (fst (sp_locks (with_line st c3 j x q))) y = OCF_CACHE_LINE_ACCESS_IDLE"
        using h by (auto simp: takeable_def with_line_def evictable_def split: if_splits)
      have yx: "y \<noteq> x" using y(3) by (auto simp: with_line_def set_access_def access_defs)
      have ay: "acc ?a y = OCF_CACHE_LINE_ACCESS_IDLE" using y(3) yx by (simp add: with_line_def set_access_def)
      have py: "part_of ?c y = src" "y < collision_table_entries ?c" using y pa [OF yx] c3(6) same_geometry_derived(2) [OF c3(4)] by auto
      have "seg_same c3 ?c y" if "src \<le> OCF_USER_IO_CLASS_MAX"
      proof -
        have "y \<in> ran (index c3)" using c3(2) y that by (simp add: metadata_ok_def cache_inv_def used_ok_def)
        then obtain core cl where k: "index c3 (core, cl) = Some y" by (auto simp: ran_def)
        then have "index ?c (core, cl) = Some y" using yx by (simp add: i3 split: if_splits)
        then show ?thesis using mapped_line(2,3) [of c3 L2, OF _ k] mapped_line(2,3) [of ?c L core cl y] O c3(2) by (auto simp: metadata_ok_def seg_same_def)
      qed
      then show ?thesis using h ay py ys [OF yx] unfolding takeable_def
        by (cases "src = PARTITION_FREELIST") (auto simp: with_line_def evictable_def seg_same_def line_bucket_def bucket_free_def same_geometry_derived [OF c3(4)] in_request_def)
    qed
  qed (use c3(4) in \<open>simp_all add: with_line_def placed_def\<close>)
  ultimately show ?thesis using c3(1) by blast
qed


lemma place_line_finish:
  assumes d: "metadata_test_dirty (sp_cache st) x = Some False" and n: "next_unmapped (sp_req st) req_idx = Some ri"
    and m: "map_entry (sp_req st) ri = Some e" "status e = LOOKUP_MISS"
    and v: "(if src \<noteq> PARTITION_FREELIST then do {
         (core, core_line) \<leftarrow> ocf_metadata_get_core_info (sp_cache st) x;
         cache \<leftarrow> ocf_lru_invalidate (sp_cache st) x core src;
         s \<leftarrow> lru_unlock_hash cache (sp_req st) t iter (snd (sp_locks st)) core core_line;
         Some (cache, s)
       } else Some (sp_cache st, snd (sp_locks st))) = Some (c2, s)"
    and f: "finish_line (sp_req st) c2 ri x = Some (c3, r3)"
  shows "place_line t src iter st x req_idx =
    Some (st\<lparr>sp_cache := c3, sp_locks := (ocf_alock_mark_index_locked (fst (sp_locks st)) (req_no r3) ri True, s), sp_req := r3\<rparr>, ri + 1)"
proof -
  obtain r1 e1 r2 where f1: "ocf_map_cache_line c2 (sp_req st) ri x = Some (c3, r1)" "map_entry r1 ri = Some e1"
    "ocf_engine_patch_req_info c3 (set_map_entry r1 ri (e1\<lparr>status := LOOKUP_REMAPPED\<rparr>)) ri = Some r2" "r3 = r2\<lparr>alock_rw := OCF_WRITE\<rparr>"
    using f by (auto simp: finish_line_def split: bind_splits)
  show ?thesis using d m unfolding place_line_def Let_def by (simp only: n v bind.bind_lunit f1 ENV_BUG_ON_simps split_conv) simp
qed

text \<open>The iterator walks over the lists of partition \<open>src\<close>.\<close>

definition walking :: "u16 \<Rightarrow> ocf_lru_iter \<Rightarrow> bool" where
  "walking src iter \<longleftrightarrow> iter_ok iter \<and> avail iter \<noteq> {} \<and> it_part iter = src \<and>
     (src \<noteq> PARTITION_FREELIST \<longrightarrow> it_clean iter \<and> hash_locked iter)"

lemma first_miss:
  assumes "req_fine c req" "j \<in> misses req" "\<And>i. i \<in> misses req \<Longrightarrow> j \<le> i" "k \<le> j"
  shows "next_unmapped req (of_nat k) = Some (of_nat j)" "map_entry req (of_nat j) = Some (req_map req ! j)" "status (req_map req ! j) = LOOKUP_MISS"
proof -
  have len: "length (req_map req) = unat (core_line_count req)" using assms(1) by (simp add: req_fine_def req_shape_def)
  show "next_unmapped req (of_nat k) = Some (of_nat j)" by (rule next_unmapped_ok [OF len assms(2-4)])
  have jl: "j < unat (core_line_count req)" using assms(2) by (simp add: misses_def)
  then show "map_entry req (of_nat j) = Some (req_map req ! j)" using len index_u32(1) [OF jl] by (simp add: map_entry_def)
  show "status (req_map req ! j) = LOOKUP_MISS" using assms(2) by (simp add: misses_def)
qed

lemma evicted_placed:
  assumes ok: "space_ok exact st L H" and p: "src \<le> OCF_USER_IO_CLASS_MAX" and hl: "hash_locked iter"
    and x: "x < collision_table_entries (sp_cache st)" "part_of (sp_cache st) x = src" "secs Dirty (sp_cache st) x = {}"
    and ev: "evictable (sp_cache st) (sp_req st) (sp_locks st) x" and m: "line_moved (sp_cache st) x (req_part_id (sp_req st)) c1"
    and j: "j \<in> misses (sp_req st)" "\<And>i. i \<in> misses (sp_req st) \<Longrightarrow> j \<le> i" "k \<le> j"
  shows "\<exists>c3 q L2. place_line t src iter (st\<lparr>sp_cache := c1, sp_locks := line_taken (sp_cache st) (sp_req st) t (sp_locks st) x\<rparr>) x (of_nat k) =
      Some (with_line st c3 j x q, of_nat j + 1) \<and>
    space_ok exact (with_line st c3 j x q) L2 (H(x := [OCF_WRITE])) \<and> progress st H (with_line st c3 j x q) (H(x := [OCF_WRITE])) 1"
proof -
  let ?c = "sp_cache st" and ?r = "sp_req st" and ?a = "fst (sp_locks st)" and ?s = "snd (sp_locks st)"
  note O = ok [unfolded space_ok_def]
  have inv: "metadata_ok exact ?c L" and f: "req_fine ?c ?r" and pd: "req_part_id ?r \<le> OCF_USER_IO_CLASS_MAX" using O by auto
  have ci: "cache_inv ?c L" and i: "index_ok ?c" "used_ok ?c" and so: "settings_ok ?c" using inv by (auto simp: metadata_ok_def cache_inv_def lru_inv_def)
  have N: "0 < hash_table_entries ?c" using i(1) by (auto simp: index_ok_def)
  have rh: "req_hashed ?c ?r" "req_shape ?c ?r" using f by (auto simp: req_fine_def)
  have ac: "acc ?a x = OCF_CACHE_LINE_ACCESS_IDLE" using ev by (simp add: evictable_def)
  have Hx: "H x = []" using locked_wr_ok(2) [OF _ _ ac, of H] O x(1) by auto
  have "x \<in> ran (index ?c)" using i(2) x p by (simp add: used_ok_def)
  then obtain core cl where kx: "index ?c (core, cl) = Some x" and V: "exact \<longrightarrow> secs Valid ?c x \<noteq> {}" using O Hx by (auto simp: ran_def)
  note ml = mapped_line [OF ci kx]
  have nf: "src \<noteq> PARTITION_FREELIST" using user_le_freelist p by blast
  note mf = line_moved_facts [OF m i(1)] and pf = part_frame_fields [OF line_moved_facts(2) [OF m i(1)]]
  obtain c2 L2 where c2: "ocf_lru_invalidate c1 x core src = Some c2" "floating exact c2 L2 x (req_part_id ?r)" "index c2 = (index ?c)((core, cl) := None)"
    "same_geometry ?c c2" "\<forall>v y. y \<noteq> x \<longrightarrow> secs v c2 y = secs v ?c y" "\<forall>y. y \<noteq> x \<longrightarrow> part_of c2 y = part_of ?c y"
    using evicted_line_floats [OF inv kx x(3) V m pd] x(2) by auto
  have lb: "line_bucket ?c x = ocf_metadata_hash_func c2 cl core" using ml same_geometry_derived(9) [OF c2(4)] by (simp add: line_bucket_def)
  have bf: "bucket_free c2 ?r ?s (ocf_metadata_hash_func c2 cl core)"
    using ev same_geometry_derived(11) [OF c2(4)] by (simp add: evictable_def lb bucket_free_def)
  have un: "lru_unlock_hash c2 ?r t iter (bucket_locked ?c ?r t ?s (line_bucket ?c x)) core cl = Some ?s"
    using unlock_hash_eq [OF _ _ hl bf, of t] N rh(1) same_geometry_derived [OF c2(4)] by (simp add: lb bucket_locked_def)
  have idx: "index c2 k = (if index ?c k = Some x then None else index ?c k)" for k
  proof (cases "k = (core, cl)")
    case True
    then show ?thesis using kx by (simp add: c2(3))
  next
    case False
    then have "index ?c k \<noteq> Some x" using index_inj(1) [OF i(1) kx, of k] by blast
    then show ?thesis using False by (simp add: c2(3))
  qed
  have nr: "index ?c (req_key ?r i) \<noteq> Some x" if il: "i < unat (core_line_count ?r)" for i
  proof
    assume "index ?c (req_key ?r i) = Some x"
    then have "req_key ?r i = (core, cl)" using index_inj(1) [OF i(1) kx] by auto
    then show False using req_key_in_request [OF rh(2) il] ev ml(2,3) by (simp add: evictable_def)
  qed
  obtain c3 q where c3: "finish_line ?r c2 (of_nat j) x = Some (c3, placed ?r j x q)"
    "space_ok exact (with_line st c3 j x q) L2 (H(x := [OCF_WRITE]))" "progress st H (with_line st c3 j x q) (H(x := [OCF_WRITE])) 1"
    using with_line_ok [OF ok x(1) ac c2(2,4) idx _ _ x(3) nr j(1)] c2(5,6) by blast
  let ?st = "st\<lparr>sp_cache := c1, sp_locks := line_taken ?c ?r t (sp_locks st) x\<rparr>"
  have td: "metadata_test_dirty (sp_cache ?st) x = Some False"
    using whole_line_tests(1) [of c1 x] so x mf(6) [of Dirty] pf(1) same_geometry_derived(1) [OF mf(7)] by simp
  have gi: "ocf_metadata_get_core_info c1 x = Some (core, cl)" using ml pf(1,2) by (simp add: ocf_metadata_get_core_info_def)
  have "place_line t src iter ?st x (of_nat k) =
    Some (?st\<lparr>sp_cache := c3, sp_locks := (ocf_alock_mark_index_locked (fst (sp_locks ?st)) (req_no (placed ?r j x q)) (of_nat j) True, ?s), sp_req := placed ?r j x q\<rparr>, of_nat j + 1)"
    using first_miss [OF f j] c3(1) nf gi c2(1) un
    by (intro place_line_finish [OF td, where e = "req_map ?r ! j" and ?c2.0 = c2]) (simp_all add: line_taken_def)
  then have "place_line t src iter ?st x (of_nat k) = Some (with_line st c3 j x q, of_nat j + 1)" by (simp add: with_line_def line_taken_def)
  then show ?thesis using c3(2,3) by blast
qed

lemma free_placed:
  assumes ok: "space_ok exact st L H" 
    and x: "x < collision_table_entries (sp_cache st)" "part_of (sp_cache st) x = PARTITION_FREELIST" "acc (fst (sp_locks st)) x = OCF_CACHE_LINE_ACCESS_IDLE"
    and m: "line_moved (sp_cache st) x (req_part_id (sp_req st)) c1"
    and j: "j \<in> misses (sp_req st)" "\<And>i. i \<in> misses (sp_req st) \<Longrightarrow> j \<le> i" "k \<le> j"
  shows "\<exists>c3 q L2. place_line t PARTITION_FREELIST iter
      (st\<lparr>sp_cache := c1, sp_locks := (set_access (fst (sp_locks st)) x OCF_CACHE_LINE_ACCESS_WR, snd (sp_locks st))\<rparr>) x (of_nat k) =
      Some (with_line st c3 j x q, of_nat j + 1) \<and>
    space_ok exact (with_line st c3 j x q) L2 (H(x := [OCF_WRITE])) \<and> progress st H (with_line st c3 j x q) (H(x := [OCF_WRITE])) 1"
proof -
  let ?c = "sp_cache st" and ?r = "sp_req st" and ?a = "fst (sp_locks st)" and ?s = "snd (sp_locks st)"
  note O = ok [unfolded space_ok_def]
  have inv: "metadata_ok exact ?c L" and f: "req_fine ?c ?r" and pd: "req_part_id ?r \<le> OCF_USER_IO_CLASS_MAX" using O by auto
  have i: "index_ok ?c" "used_ok ?c" "status_ok ?c" and so: "settings_ok ?c" using inv by (auto simp: metadata_ok_def cache_inv_def lru_inv_def)
  have nf: "\<not> PARTITION_FREELIST \<le> OCF_USER_IO_CLASS_MAX" using user_le_freelist by blast
  note mf = line_moved_facts [OF m i(1)] and pf = part_frame_fields [OF line_moved_facts(2) [OF m i(1)]]
  obtain L2 where fl: "floating exact c1 L2 x (req_part_id ?r)" using free_line_floats [OF inv x(1,2) m pd] by blast
  have xr: "x \<notin> ran (index ?c)" using i(2) x nf by (simp add: used_ok_def)
  then have nx: "index ?c k \<noteq> Some x" for k using ranI by metis
  have D: "secs Dirty ?c x = {}" using i(3) x by (auto simp: status_ok_def)
  obtain c3 q where c3: "finish_line ?r c1 (of_nat j) x = Some (c3, placed ?r j x q)"
    "space_ok exact (with_line st c3 j x q) L2 (H(x := [OCF_WRITE]))" "progress st H (with_line st c3 j x q) (H(x := [OCF_WRITE])) 1"
    using with_line_ok [OF ok x(1,3) fl mf(7) _ _ _ D nx j(1)] mf(3,5,6) nx by auto
  let ?st = "st\<lparr>sp_cache := c1, sp_locks := (set_access ?a x OCF_CACHE_LINE_ACCESS_WR, ?s)\<rparr>"
  have td: "metadata_test_dirty (sp_cache ?st) x = Some False"
    using whole_line_tests(1) [of c1 x] so x D mf(6) [of Dirty] pf(1) same_geometry_derived(1) [OF mf(7)] by simp
  have "place_line t PARTITION_FREELIST iter ?st x (of_nat k) =
    Some (?st\<lparr>sp_cache := c3, sp_locks := (ocf_alock_mark_index_locked (fst (sp_locks ?st)) (req_no (placed ?r j x q)) (of_nat j) True, ?s), sp_req := placed ?r j x q\<rparr>, of_nat j + 1)"
    using first_miss [OF f j] c3(1)
    by (intro place_line_finish [OF td, where e = "req_map ?r ! j" and ?c2.0 = c1]) simp_all
  then have "place_line t PARTITION_FREELIST iter ?st x (of_nat k) = Some (with_line st c3 j x q, of_nat j + 1)" by (simp add: with_line_def)
  then show ?thesis using c3(2,3) by blast
qed


lemma list_at_line:
  assumes "lru_inv c L" "src \<le> PARTITION_FREELIST" "l < 32" "x \<in> set (list_at L src l)"
  shows "x < collision_table_entries c" "part_of c x = src" "src \<noteq> PARTITION_FREELIST \<Longrightarrow> secs Dirty c x = {}"
proof -
  have "(of_nat l :: u32) < 32" using assms(3) by (simp add: word_less_nat_alt unat_of_nat take_bit_nat_eq_self)
  note r = list_at_refs [OF assms(2) this, of True]
  show "x < collision_table_entries c" "part_of c x = src" "src \<noteq> PARTITION_FREELIST \<Longrightarrow> secs Dirty c x = {}"
    using list_line [OF assms(1) r] assms(4) by (auto simp: list_at_def)
qed

lemma line_on_list:
  assumes "lru_inv c L" "y < collision_table_entries c" "secs Dirty c y = {}"
  shows "y \<in> set (list_at L (part_of c y) (unat (y mod 32)))"
  using assms by (auto simp: lru_inv_def home_ok_def home_def list_at_def OCF_NUM_LRU_LISTS_def)

text \<open>The lines that can still be taken are on the lists that the iterator has left.\<close>

definition all_left :: "('s :: len) space_state \<Rightarrow> u16 \<Rightarrow> ocf_lru_iter \<Rightarrow> bool" where
  "all_left st src iter \<longleftrightarrow> (\<forall>y. takeable st src y \<longrightarrow> unat (y mod 32) \<in> avail iter)"

lemma takeable_on_list:
  assumes "metadata_ok exact (sp_cache st) L" "takeable st src y"
  shows "y \<in> set (list_at L src (unat (y mod 32)))"
proof -
  have y: "y < collision_table_entries (sp_cache st)" "part_of (sp_cache st) y = src" using assms(2) by (auto simp: takeable_def)
  have "secs Dirty (sp_cache st) y = {}"
  proof (cases "src = PARTITION_FREELIST")
    case True
    then show ?thesis using assms(1) y by (auto simp: metadata_ok_def status_ok_def)
  next
    case False
    then show ?thesis using assms(2) by (simp add: takeable_def)
  qed
  then show ?thesis using line_on_list [of "sp_cache st" L y] y assms(1) by (simp add: metadata_ok_def cache_inv_def)
qed

definition taken_locks :: "nat \<Rightarrow> u16 \<Rightarrow> ('s :: len) space_state \<Rightarrow> u32 \<Rightarrow> line_locks" where
  "taken_locks t src st x = (if src = PARTITION_FREELIST then (set_access (fst (sp_locks st)) x OCF_CACHE_LINE_ACCESS_WR, snd (sp_locks st))
     else line_taken (sp_cache st) (sp_req st) t (sp_locks st) x)"

text \<open>The next line: none is left, or one that can be taken is moved and locked.\<close>

definition line_next :: "nat \<Rightarrow> u16 \<Rightarrow> ocf_lru_iter \<Rightarrow> ('s :: len) space_state \<Rightarrow> ocf_lru_iter \<Rightarrow> 's space_state \<Rightarrow> u32 \<Rightarrow> bool" where
  "line_next t src iter st iter' st1 x \<longleftrightarrow>
     (if x = end_marker then st1 = st \<and> (\<forall>y. \<not> takeable st src y)
      else walking src iter' \<and> (\<forall>y. takeable st src y \<longrightarrow> unat (y mod 32) \<in> avail iter') \<and> takeable st src x \<and>
        (\<exists>c1. line_moved (sp_cache st) x (req_part_id (sp_req st)) c1 \<and> st1 = st\<lparr>sp_cache := c1, sp_locks := taken_locks t src st x\<rparr>))"

lemma avail_lt: "l \<in> avail iter \<Longrightarrow> l < 32"
  by (simp add: avail_def)

lemma next_line_ok:
  assumes ok: "space_ok exact st L H" and w: "walking src iter" and src: "src \<le> OCF_USER_IO_CLASS_MAX" and al: "all_left st src iter"
  shows "\<exists>iter' st1 x. next_line t src iter st = Some (iter', st1, x) \<and> line_next t src iter st iter' st1 x"
proof -
  let ?c = "sp_cache st" and ?r = "sp_req st" and ?a = "fst (sp_locks st)" and ?s = "snd (sp_locks st)"
  note O = ok [unfolded space_ok_def]
  have inv: "metadata_ok exact ?c L" and li: "lru_inv ?c L" and pd: "req_part_id ?r \<le> OCF_USER_IO_CLASS_MAX" using O by (auto simp: metadata_ok_def cache_inv_def)
  have pf: "src \<le> PARTITION_FREELIST" "src \<noteq> PARTITION_FREELIST" using user_le_freelist src by blast+
  have ctx: "evict_ctx ?c L ?r ?a H" using O by (auto simp: evict_ctx_def metadata_ok_def cache_inv_def req_fine_def)
  have it: "iter_ok iter" "avail iter \<noteq> {}" "evicting src iter" using w pf by (auto simp: walking_def evicting_def)
  obtain iter' st' x where r: "lru_iter_eviction_next ?r t (req_part_id ?r) iter (?c, ?a, ?s) = Some (iter', st', x)" "iter_ok iter'" "evicting src iter'"
    "if x = end_marker then st' = (?c, ?a, ?s) \<and> (\<forall>l\<in>avail iter. \<forall>y\<in>set (list_at L src l). \<not> evictable ?c ?r (?a, ?s) y)
     else avail iter' \<noteq> {} \<and> (\<forall>l\<in>avail iter - avail iter'. \<forall>y\<in>set (list_at L src l). \<not> evictable ?c ?r (?a, ?s) y) \<and>
       (\<exists>l\<in>avail iter. eviction_done ?c L ?r t src (req_part_id ?r) (?a, ?s) l st' x)"
    using eviction_next_ok [OF ctx src pd it, of t ?s] by blast
  have run: "next_line t src iter st = Some (iter', st\<lparr>sp_cache := fst st', sp_locks := snd st'\<rparr>, x)"
    using r(1) pf(2) by (cases st') (auto simp: next_line_def Let_def)
  have tk: "evictable ?c ?r (?a, ?s) y" "y \<in> set (list_at L src (unat (y mod 32)))" "unat (y mod 32) \<in> avail iter" if "takeable st src y" for y
    using that takeable_on_list [OF inv that] al pf(2) by (auto simp: takeable_def all_left_def)
  show ?thesis
  proof (cases "x = end_marker")
    case True
    then have "\<not> takeable st src y" for y using r(4) tk [of y] by auto
    then have "line_next t src iter st iter' (st\<lparr>sp_cache := fst st', sp_locks := snd st'\<rparr>) x" using True r(4) by (simp add: line_next_def)
    then show ?thesis using run by blast
  next
    case False
    then obtain l where l: "l \<in> avail iter" "eviction_done ?c L ?r t src (req_part_id ?r) (?a, ?s) l st' x" using r(4) by auto
    then have "x \<in> set (list_at L src l)" "evictable ?c ?r (sp_locks st) x" by (auto simp: eviction_done_def find_Some_iff rev_nth)
    then have tx: "takeable st src x" using list_at_line [OF li pf(1) avail_lt [OF l(1)]] pf(2) src by (simp add: takeable_def)
    have wk: "walking src iter'" using r False by (simp add: walking_def evicting_def)
    have lf: "unat (y mod 32) \<in> avail iter'" if "takeable st src y" for y using tk [OF that] r(4) False by auto
    have "line_moved ?c x (req_part_id ?r) (fst st')" "snd st' = taken_locks t src st x" using l(2) pf(2) by (auto simp: eviction_done_def taken_locks_def)
    then have "line_next t src iter st iter' (st\<lparr>sp_cache := fst st', sp_locks := snd st'\<rparr>) x"
      using False tx wk lf by (auto simp: line_next_def)
    then show ?thesis using run by blast
  qed
qed

lemma next_free_ok:
  assumes ok: "space_ok exact st L H" and w: "walking PARTITION_FREELIST iter" and al: "all_left st PARTITION_FREELIST iter"
  shows "\<exists>iter' st1 x. next_line t PARTITION_FREELIST iter st = Some (iter', st1, x) \<and> line_next t PARTITION_FREELIST iter st iter' st1 x"
proof -
  let ?f = PARTITION_FREELIST
  let ?c = "sp_cache st" and ?r = "sp_req st" and ?a = "fst (sp_locks st)" and ?s = "snd (sp_locks st)"
  note O = ok [unfolded space_ok_def]
  have inv: "metadata_ok exact ?c L" and li: "lru_inv ?c L" and pd: "req_part_id ?r \<le> OCF_USER_IO_CLASS_MAX" and nm: "num_entries ?a = collision_table_entries ?c"
    using O by (auto simp: metadata_ok_def cache_inv_def)
  have it: "iter_ok iter" "avail iter \<noteq> {}" "it_part iter = ?f" using w by (auto simp: walking_def)
  obtain iter' st' x where r: "lru_iter_free_next (req_part_id ?r) iter (?c, ?a, ?s) = Some (iter', st', x)" "iter_ok iter'" "it_part iter' = ?f"
    "if x = end_marker then st' = (?c, ?a, ?s) \<and> (\<forall>l\<in>avail iter. \<forall>y\<in>set (list_at L ?f l). acc ?a y \<noteq> OCF_CACHE_LINE_ACCESS_IDLE)
     else avail iter' \<noteq> {} \<and> (\<forall>l\<in>avail iter - avail iter'. \<forall>y\<in>set (list_at L ?f l). acc ?a y \<noteq> OCF_CACHE_LINE_ACCESS_IDLE) \<and>
       (\<exists>l\<in>avail iter. free_done ?c L (req_part_id ?r) (?a, ?s) l st' x)"
    using free_next_ok [OF li nm pd it, of ?s] by blast
  have run: "next_line t ?f iter st = Some (iter', st\<lparr>sp_cache := fst st', sp_locks := snd st'\<rparr>, x)"
    using r(1) by (cases st') (auto simp: next_line_def Let_def)
  have tk: "acc ?a y = OCF_CACHE_LINE_ACCESS_IDLE" "y \<in> set (list_at L ?f (unat (y mod 32)))" "unat (y mod 32) \<in> avail iter" if "takeable st ?f y" for y
    using that takeable_on_list [OF inv that] al by (auto simp: takeable_def all_left_def)
  show ?thesis
  proof (cases "x = end_marker")
    case True
    then have "\<not> takeable st ?f y" for y using r(4) tk [of y] by auto
    then have "line_next t ?f iter st iter' (st\<lparr>sp_cache := fst st', sp_locks := snd st'\<rparr>) x" using True r(4) by (simp add: line_next_def)
    then show ?thesis using run by blast
  next
    case False
    then obtain l where l: "l \<in> avail iter" "free_done ?c L (req_part_id ?r) (?a, ?s) l st' x" using r(4) by auto
    then have "x \<in> set (list_at L ?f l)" "acc ?a x = OCF_CACHE_LINE_ACCESS_IDLE" by (auto simp: free_done_def find_Some_iff rev_nth)
    then have tx: "takeable st ?f x" using list_at_line [OF li order_refl avail_lt [OF l(1)]] by (simp add: takeable_def)
    have wk: "walking ?f iter'" using r False by (simp add: walking_def)
    have lf: "unat (y mod 32) \<in> avail iter'" if "takeable st ?f y" for y using tk [OF that] r(4) False by auto
    have "line_moved ?c x (req_part_id ?r) (fst st')" "snd st' = taken_locks t ?f st x" using l(2) by (auto simp: free_done_def taken_locks_def)
    then have "line_next t ?f iter st iter' (st\<lparr>sp_cache := fst st', sp_locks := snd st'\<rparr>) x"
      using False tx wk lf by (auto simp: line_next_def)
    then show ?thesis using run by blast
  qed
qed


definition source :: "u16 \<Rightarrow> bool" where
  "source src \<longleftrightarrow> src = PARTITION_FREELIST \<or> src \<le> OCF_USER_IO_CLASS_MAX"

lemma line_step:
  assumes ok: "space_ok exact st L H" and w: "walking src iter" and src: "source src" and al: "all_left st src iter"
    and j: "j \<in> misses (sp_req st)" "\<And>i. i \<in> misses (sp_req st) \<Longrightarrow> j \<le> i" "k \<le> j"
  shows "\<exists>iter' st1 x. next_line t src iter st = Some (iter', st1, x) \<and>
    (if x = end_marker then st1 = st \<and> (\<forall>y. \<not> takeable st src y)
     else \<exists>st2 L2 H2. place_line t src iter' st1 x (of_nat k) = Some (st2, of_nat j + 1) \<and> walking src iter' \<and> all_left st2 src iter' \<and>
       space_ok exact st2 L2 H2 \<and> progress st H st2 H2 1 \<and> misses (sp_req st2) = misses (sp_req st) - {j})"
proof -
  obtain iter' st1 x where n: "next_line t src iter st = Some (iter', st1, x)" "line_next t src iter st iter' st1 x"
    using next_line_ok [OF ok w _ al, of t] next_free_ok [OF ok, of iter t] w al src by (auto simp: source_def)
  show ?thesis
  proof (cases "x = end_marker")
    case True
    then show ?thesis using n by (intro exI [of _ iter'] exI [of _ st1] exI [of _ x]) (simp add: line_next_def)
  next
    case False
    obtain c1 where l: "walking src iter'" "\<And>y. takeable st src y \<Longrightarrow> unat (y mod 32) \<in> avail iter'" "takeable st src x"
      "line_moved (sp_cache st) x (req_part_id (sp_req st)) c1" "st1 = st\<lparr>sp_cache := c1, sp_locks := taken_locks t src st x\<rparr>"
      using n(2) False by (auto simp: line_next_def)
    obtain c3 q L2 where p: "place_line t src iter' st1 x (of_nat k) = Some (with_line st c3 j x q, of_nat j + 1)"
      "space_ok exact (with_line st c3 j x q) L2 (H(x := [OCF_WRITE]))" "progress st H (with_line st c3 j x q) (H(x := [OCF_WRITE])) 1"
    proof (cases "src = PARTITION_FREELIST")
      case True
      have x: "x < collision_table_entries (sp_cache st)" "part_of (sp_cache st) x = PARTITION_FREELIST" "acc (fst (sp_locks st)) x = OCF_CACHE_LINE_ACCESS_IDLE"
        using l(3) True by (simp_all add: takeable_def)
      show ?thesis using free_placed [OF ok x l(4) j, of t iter'] that True l(5) by (auto simp: taken_locks_def)
    next
      case False
      have x: "x < collision_table_entries (sp_cache st)" "part_of (sp_cache st) x = src" "secs Dirty (sp_cache st) x = {}"
          "evictable (sp_cache st) (sp_req st) (sp_locks st) x" and src: "src \<le> OCF_USER_IO_CLASS_MAX" and hl: "hash_locked iter'"
        using l(1,3) False by (simp_all add: takeable_def walking_def)
      show ?thesis using evicted_placed [OF ok src hl x l(4) j, of t] that False l(5) by (auto simp: taken_locks_def)
    qed
    have "all_left (with_line st c3 j x q) src iter'" using l(2) progressD(16) [OF p(3)] unfolding all_left_def by blast
    moreover have "misses (sp_req (with_line st c3 j x q)) = misses (sp_req st) - {j}"
      using misses_count(1) [OF _ j(1), of x q] ok by (simp add: with_line_def space_ok_def req_fine_def req_shape_def)
    ultimately show ?thesis using n(1) False p l(1) by (intro exI [of _ iter'] exI [of _ st1] exI [of _ x]) auto
  qed
qed

lemma req_clines_loop_ok:
  assumes src: "source src"
  shows "space_ok exact st L H \<Longrightarrow> walking src iter \<Longrightarrow> all_left st src iter \<Longrightarrow> i \<le> unat N \<Longrightarrow> unat N - i \<le> card (misses (sp_req st)) \<Longrightarrow>
    (\<And>m. m \<in> misses (sp_req st) \<Longrightarrow> k \<le> m) \<Longrightarrow>
    \<exists>st' n L' H'. req_clines_loop t src N iter st (of_nat k) (of_nat i) = Some (st', of_nat n) \<and> i \<le> n \<and> n \<le> unat N \<and>
      space_ok exact st' L' H' \<and> progress st H st' H' (n - i) \<and> (n < unat N \<longrightarrow> (\<forall>y. \<not> takeable st' src y)) \<and>
      (n = i \<longrightarrow> i < unat N \<longrightarrow> (\<forall>y. \<not> takeable st src y))"
proof (induction "unat N - i" arbitrary: st L H iter i k)
  case 0
  then have "i = unat N" by simp
  then have "\<not> (of_nat i :: u32) < N" by simp
  then have "req_clines_loop t src N iter st (of_nat k) (of_nat i) = Some (st, of_nat i)" by (subst req_clines_loop.simps) simp
  then show ?case using 0 progress_refl [of st H] by (intro exI [of _ st] exI [of _ i] exI [of _ L] exI [of _ H]) auto
next
  case (Suc d)
  let ?M = "misses (sp_req st)"
  have N32: "unat N < 2 ^ 32" using unsigned_less [of N, where ?'a = nat] by simp
  have iN: "i < unat N" using Suc.hyps(2) by simp
  have lt: "(of_nat i :: u32) < N" using iN N32 by (simp add: word_less_nat_alt unat_of_nat take_bit_nat_eq_self)
  have ne: "?M \<noteq> {}" using Suc.prems(5) iN by auto
  define j where "j = Min ?M"
  have j: "j \<in> ?M" "\<And>m. m \<in> ?M \<Longrightarrow> j \<le> m" "k \<le> j" using Min_in [OF finite_misses ne] Suc.prems(6) by (auto simp: j_def)
  obtain iter' st1 x where s: "next_line t src iter st = Some (iter', st1, x)"
    "if x = end_marker then st1 = st \<and> (\<forall>y. \<not> takeable st src y)
     else \<exists>st2 L2 H2. place_line t src iter' st1 x (of_nat k) = Some (st2, of_nat j + 1) \<and> walking src iter' \<and> all_left st2 src iter' \<and>
       space_ok exact st2 L2 H2 \<and> progress st H st2 H2 1 \<and> misses (sp_req st2) = misses (sp_req st) - {j}"
    using line_step [OF Suc.prems(1,2) src Suc.prems(3) j, of t] by blast
  show ?case
  proof (cases "x = end_marker")
    case True
    then have "req_clines_loop t src N iter st (of_nat k) (of_nat i) = Some (st, of_nat i)"
      using s lt by (subst req_clines_loop.simps) simp
    then show ?thesis using Suc.prems(1,4) True s(2) progress_refl [of st H] by (intro exI [of _ st] exI [of _ i] exI [of _ L] exI [of _ H]) auto
  next
    case False
    then obtain st2 L2 H2 where p: "place_line t src iter' st1 x (of_nat k) = Some (st2, of_nat (Suc j))" "walking src iter'" "all_left st2 src iter'"
      "space_ok exact st2 L2 H2" "progress st H st2 H2 1" "misses (sp_req st2) = ?M - {j}"
      using s(2) by (auto simp: add.commute)
    have jl: "j < unat (core_line_count (sp_req st))" using j(1) by (simp add: misses_def)
    have cnt: "core_line_count (sp_req st2) = core_line_count (sp_req st)" by (rule progressD(10) [OF p(5)])
    have cm: "card (misses (sp_req st2)) + 1 = card ?M" by (rule progressD(9) [OF p(5)])
    have bug: "\<not> ((of_nat (Suc j) :: u32) = core_line_count (sp_req st2) \<and> (of_nat i :: u32) + 1 \<noteq> N)"
    proof
      assume a: "(of_nat (Suc j) :: u32) = core_line_count (sp_req st2) \<and> (of_nat i :: u32) + 1 \<noteq> N"
      have "Suc j < 2 ^ 32" using jl unsigned_less [of "core_line_count (sp_req st)", where ?'a = nat] by simp
      then have "unat (of_nat (Suc j) :: u32) = Suc j" by (simp add: unat_of_nat take_bit_nat_eq_self del: of_nat_Suc)
      then have "Suc j = unat (core_line_count (sp_req st))" using a cnt by simp
      then have "?M - {j} = {}" using j(2) by (force simp: misses_def)
      then have "misses (sp_req st2) = {}" using p(6) by simp
      then have "card ?M = 1" using cm by simp
      then have "unat N = Suc i" using Suc.prems(5) iN by simp
      moreover have "(of_nat (unat N) :: u32) = N" by simp
      ultimately show False using a by (simp add: add.commute)
    qed
    have ih: "\<exists>st' n L' H'. req_clines_loop t src N iter' st2 (of_nat (Suc j)) (of_nat (Suc i)) = Some (st', of_nat n) \<and> Suc i \<le> n \<and> n \<le> unat N \<and>
      space_ok exact st' L' H' \<and> progress st2 H2 st' H' (n - Suc i) \<and> (n < unat N \<longrightarrow> (\<forall>y. \<not> takeable st' src y)) \<and>
      (n = Suc i \<longrightarrow> Suc i < unat N \<longrightarrow> (\<forall>y. \<not> takeable st2 src y))"
    proof (rule Suc.hyps(1) [OF _ p(4,2,3)])
      show "d = unat N - Suc i" "Suc i \<le> unat N" using Suc.hyps(2) iN by auto
      show "unat N - Suc i \<le> card (misses (sp_req st2))" using Suc.prems(5) cm by simp
      show "Suc j \<le> m" if "m \<in> misses (sp_req st2)" for m using that j(2) [of m] by (auto simp: p(6))
    qed
    then obtain st' n L' H' where r: "req_clines_loop t src N iter' st2 (of_nat (Suc j)) (of_nat (Suc i)) = Some (st', of_nat n)" "Suc i \<le> n" "n \<le> unat N"
      "space_ok exact st' L' H'" "progress st2 H2 st' H' (n - Suc i)" "n < unat N \<longrightarrow> (\<forall>y. \<not> takeable st' src y)" by blast
    have "req_clines_loop t src N iter st (of_nat k) (of_nat i) = Some (st', of_nat n)"
      using s(1) lt False p(1) bug r(1) by (subst req_clines_loop.simps) (simp add: add.commute)
    moreover have "progress st H st' H' (n - i)" using progress_trans [OF p(5) r(5)] r(2) by (simp add: Suc_diff_Suc less_eq_Suc_le)
    ultimately show ?thesis using r by (intro exI [of _ st'] exI [of _ n] exI [of _ L'] exI [of _ H']) auto
  qed
qed

subsection \<open>All lines for the request\<close>

lemma lru_counter_frame [simp]:
  "takeable (st\<lparr>sp_lru_idx := n\<rparr>) = takeable st" "space_ok exact (st\<lparr>sp_lru_idx := n\<rparr>) = space_ok exact st"
  "progress (st\<lparr>sp_lru_idx := n\<rparr>) H st' H' m = progress st H st' H' m"
  by (simp_all add: fun_eq_iff takeable_def space_ok_def progress_def)

text \<open>A result of the functions that look for lines: at most \<open>N\<close> lines were found.\<close>

definition found :: "bool \<Rightarrow> ('s :: len) space_state \<Rightarrow> (u32 \<Rightarrow> rw list) \<Rightarrow> u32 \<Rightarrow> 's space_state \<Rightarrow> u32 \<Rightarrow> bool" where
  "found exact st H N st' n \<longleftrightarrow> n \<le> N \<and> (\<exists>L' H'. space_ok exact st' L' H' \<and> progress st H st' H' (unat n))"

lemma req_clines_found:
  assumes ok: "space_ok exact st L H" and src: "source src" and N: "unat N \<le> card (misses (sp_req st))"
  shows "\<exists>st' n. ocf_lru_req_clines t st src N = Some (st', n) \<and> found exact st H N st' n \<and> (n < N \<longrightarrow> (\<forall>y. \<not> takeable st' src y)) \<and>
    (n = 0 \<and> N \<noteq> 0 \<longrightarrow> (\<forall>y. \<not> takeable st src y))"
proof (cases "N = 0")
  case True
  then show ?thesis using ok progress_refl [of st H] by (auto simp: ocf_lru_req_clines_def found_def)
next
  case False
  let ?iter = "lru_iter_eviction_init (sp_cache st) src (sp_lru_idx st mod OCF_NUM_LRU_LISTS)" and ?st = "st\<lparr>sp_lru_idx := sp_lru_idx st + 1\<rparr>"
  have f: "req_fine (sp_cache st) (sp_req st)" and pd: "req_part_id (sp_req st) \<le> OCF_USER_IO_CLASS_MAX" using ok by (auto simp: space_ok_def)
  have b: "\<not> ocf_engine_unmapped_count (sp_req st) < N" using f N by (simp add: req_fine_def word_less_nat_alt)
  have p: "req_part_id (sp_req st) \<noteq> PARTITION_FREELIST" using user_le_freelist pd by blast
  have a: "iter_ok ?iter" "avail ?iter = {..<32}"
    using iter_init_ok [of "sp_cache st" src _ True True] by (simp_all add: lru_iter_eviction_init_def)
  then have w: "walking src ?iter" by (simp add: walking_def lessThan_empty_iff) (simp add: lru_iter_eviction_init_def lru_iter_init_def)
  have al: "all_left ?st src ?iter" unfolding all_left_def a(2) by (simp add: unat_mod)
  obtain st' n L' H' where r: "req_clines_loop t src N ?iter ?st 0 0 = Some (st', of_nat n)" "n \<le> unat N" "space_ok exact st' L' H'"
    "progress st H st' H' n" "n < unat N \<longrightarrow> (\<forall>y. \<not> takeable st' src y)" "n = 0 \<longrightarrow> 0 < unat N \<longrightarrow> (\<forall>y. \<not> takeable st src y)"
    using req_clines_loop_ok [OF src _ w al, of exact L H 0 N 0 t] ok N by auto
  have u: "unat (of_nat n :: u32) = n" using r(2) unsigned_less [of N, where ?'a = nat] by (simp add: unat_of_nat take_bit_nat_eq_self)
  have "ocf_lru_req_clines t st src N = Some (st', of_nat n)" using False b p r(1) by (simp add: ocf_lru_req_clines_def Let_def)
  moreover have "(of_nat n :: u32) = 0 \<longleftrightarrow> n = 0" using u by (cases "n = 0") auto
  moreover have "found exact st H N st' (of_nat n)" using r(2,3,4) u by (auto simp: found_def word_le_nat_alt)
  moreover have "0 < unat N" using False by (simp add: unat_gt_0)
  ultimately show ?thesis using r(5,6) u by (intro exI [of _ st'] exI [of _ "of_nat n"]) (simp add: word_less_nat_alt)
qed

lemma req_clines_ok:
  assumes "space_ok exact st L H" "source src" "unat N \<le> card (misses (sp_req st))"
  shows "\<exists>st' n. ocf_lru_req_clines t st src N = Some (st', n) \<and> found exact st H N st' n \<and> (n < N \<longrightarrow> (\<forall>y. \<not> takeable st' src y))"
  using req_clines_found [OF assms] by blast

subsection \<open>A request that was looked up\<close>

lemma lookup_fine:
  assumes i: "index_ok c" "settings_ok c" and sh: "req_shape c req" and fit: "unat (core_line_first req) + unat (core_line_count req) \<le> 2 ^ 64 - 2 ^ 32"
    "unat (hash_table_entries c) + unat (core_line_count req) \<le> 2 ^ 32"
  shows "\<exists>m f. ocf_engine_lookup c req = Some (req\<lparr>req_map := m, req_info := f\<rparr>) \<and> req_fine c (req\<lparr>req_map := m, req_info := f\<rparr>) \<and> \<not> mapping_error f \<and>
    (\<forall>i<unat (core_line_count req). status (m ! i) \<noteq> LOOKUP_REMAPPED)"
proof -
  let ?n = "unat (core_line_count req)"
  obtain req' where l: "ocf_engine_lookup c req = Some req'" "lookup_state c req ?n req'" using engine_lookup_ok [OF sh i] by blast
  obtain m f where r: "req' = req\<lparr>req_map := m, req_info := f\<rparr>" "length m = length (req_map req)"
    "\<forall>i<?n. looked_up c (req_core req) (core_line_first req + of_nat i) (m ! i)" "counters_ok c req ?n f"
    using l(2) by (auto simp: lookup_state_def)
  have len: "length m = ?n" using r(2) sh by (simp add: req_shape_def)
  have e: "if status (m ! i) = LOOKUP_MISS then index c (req_key req i) = None
      else status (m ! i) = LOOKUP_HIT \<and> index c (req_key req i) = Some (coll_idx (m ! i))" if "i < ?n" for i
    using r(3) that by (cases "index c (req_key req i)") (auto simp: looked_up_def req_key_def lookup_defs)
  have ca: "cached_at c req (\<lambda>i x. True) i \<longleftrightarrow> status (m ! i) \<noteq> LOOKUP_MISS" if "i < ?n" for i
    using e [OF that] by (cases "index c (req_key req i)") (auto simp: cached_at_def req_key_def split: if_splits)
  have "misses req' = {..<?n} - {i. i < ?n \<and> cached_at c req (\<lambda>i x. True) i}"
    using ca by (auto simp: misses_def r(1))
  then have "card (misses req') = ?n - count_lines c req (\<lambda>i x. True) ?n"
    by (simp add: count_lines_def card_Diff_subset subset_eq)
  then have "unat (ocf_engine_unmapped_count req') = card (misses req')" using lookup_state_tests(5) [OF l(2)] by simp
  moreover have "req_shape c req'" "req_hashed c req'"
    using sh fit len r(3) by (simp_all add: r(1) req_shape_def req_hashed_def looked_up_def)
  moreover have "req_key req' = req_key req" by (simp add: r(1) req_key_def fun_eq_iff)
  ultimately have "req_fine c req'" using e by (auto simp: req_fine_def r(1) Let_def)
  moreover have "status (m ! i) \<noteq> LOOKUP_REMAPPED" if "i < ?n" for i using e [OF that] by (auto simp: lookup_defs split: if_splits)
  ultimately show ?thesis using l(1) r(1,4) by (intro exI [of _ m] exI [of _ f]) (simp add: counters_ok_def)
qed

text \<open>The state in which space is looked for: the request has been looked up, and holds no cache line.\<close>

definition remap_start :: "bool \<Rightarrow> ('s :: len) ocf_cache \<Rightarrow> (lru_ref \<Rightarrow> u32 list) \<Rightarrow> ocf_request \<Rightarrow> ocf_alock \<Rightarrow> (u32 \<Rightarrow> rw list) \<Rightarrow> bool" where
  "remap_start exact c L req a H \<longleftrightarrow> metadata_ok exact c L \<and> req_shape c req \<and> unat (core_line_first req) + unat (core_line_count req) \<le> 2 ^ 64 - 2 ^ 32 \<and>
     unat (hash_table_entries c) + unat (core_line_count req) \<le> 2 ^ 32 \<and> req_core req < OCF_CORE_MAX \<and> req_part_id req \<le> OCF_USER_IO_CLASS_MAX \<and>
     locks_ok (a, H) \<and> num_entries a = collision_table_entries c \<and> (\<forall>i. \<not> alock_status a (req_no req) i) \<and>
     (exact \<longrightarrow> (\<forall>x\<in>ran (index c). H x = [] \<longrightarrow> secs Valid c x \<noteq> {}))"

lemma start_space_ok:
  assumes st: "remap_start exact c L req0 a H"
  shows "\<exists>m f. ocf_engine_lookup c req0 = Some (req0\<lparr>req_map := m, req_info := f\<rparr>) \<and> \<not> mapping_error f \<and>
    (\<forall>i<unat (core_line_count req0). status (m ! i) \<noteq> LOOKUP_REMAPPED) \<and>
    space_ok exact \<lparr>sp_cache = c, sp_locks = (a, s), sp_req = req0\<lparr>req_map := m, req_info := f\<rparr>, sp_lru_idx = n\<rparr> L H"
proof -
  note S = st [unfolded remap_start_def]
  have i: "index_ok c" "settings_ok c" using S by (auto simp: metadata_ok_def cache_inv_def lru_inv_def)
  obtain m f where l: "ocf_engine_lookup c req0 = Some (req0\<lparr>req_map := m, req_info := f\<rparr>)" "req_fine c (req0\<lparr>req_map := m, req_info := f\<rparr>)" "\<not> mapping_error f"
    "\<forall>i<unat (core_line_count req0). status (m ! i) \<noteq> LOOKUP_REMAPPED"
    using lookup_fine [OF i, of req0] S by blast
  then have "space_ok exact \<lparr>sp_cache = c, sp_locks = (a, s), sp_req = req0\<lparr>req_map := m, req_info := f\<rparr>, sp_lru_idx = n\<rparr> L H"
    using S by (simp add: space_ok_def)
  then show ?thesis using l by blast
qed

subsection \<open>Properties\<close>

text \<open>
  C30. Taking cache lines for a request ends, with a number \<open>n\<close> of lines that is at most what was asked for: exactly \<open>n\<close> of the core lines
  that were not mapped are now mapped, to lines that nobody held, that are empty and locked for the request; no dirty sector and no sector
  of the request is dropped, no sector appears, all other locks stay.  Fewer lines than asked for are taken only when the source partition has no line left
  that could be taken, and none only when it had no such line at the start.  The hash table, the lists and their sizes, the status bits and the line
  locks keep their invariants in all states.  The counters of cached lines stay exact (\<open>exact = True\<close>) when they were so and every mapped line that nobody holds has
  a valid sector; from other states (\<open>exact = False\<close>) nothing is said about them, as \<open>invalidate_counts_again\<close> shows that they become wrong.
\<close>
theorem req_clines_takes_lines:
  assumes ok: "space_ok exact st L H" and src: "source src" and N: "N \<le> ocf_engine_unmapped_count (sp_req st)"
  shows "\<exists>st' n L' H'. ocf_lru_req_clines t st src N = Some (st', n) \<and> n \<le> N \<and> space_ok exact st' L' H' \<and> progress st H st' H' (unat n) \<and>
    (n < N \<longrightarrow> (\<forall>y. \<not> takeable st' src y)) \<and> (n = 0 \<and> N \<noteq> 0 \<longrightarrow> (\<forall>y. \<not> takeable st src y))"
proof -
  have "unat N \<le> card (misses (sp_req st))" using N ok by (simp add: space_ok_def req_fine_def word_le_nat_alt)
  from req_clines_found [OF ok src this, of t] show ?thesis unfolding found_def by blast
qed

text \<open>A cache in which line 3 is mapped and empty, and a request that is not mapped: the line is held, or nobody holds it.\<close>

lemma started_remaps:
  "\<exists>(c :: 8 ocf_cache) L a H. remap_start True c L (ocf_req_new c 0 2 0 4096 OCF_READ) a H \<and> index c (2, 0) = None \<and> size c = ocf_cache_line_size_4 \<and>
     (\<exists>a. remap_start False c L (ocf_req_new c 0 2 0 4096 OCF_READ) a (\<lambda>_. []) \<and> part_of c 3 = 5 \<and> (\<forall>v. secs v c 3 = {}) \<and> acc a 3 = OCF_CACHE_LINE_ACCESS_IDLE \<and>
        core_id (seg_collision c 3) = 1 \<and> 3 < collision_table_entries c)"
proof -
  obtain c :: "8 ocf_cache" and L where c: "meta_inv c L" "collision_table_entries c = 10" "hash_table_entries c = 4" "size c = ocf_cache_line_size_4" "index c = [(1, 7) \<mapsto> 3]"
    "\<forall>y<10. part_of c y = (if y = 3 then 5 else PARTITION_FREELIST)" "\<forall>v x. secs v c x = {}"
    using started_meta by blast
  let ?req = "ocf_req_new c 0 2 0 4096 OCF_READ" and ?a = "lock_ex0\<lparr>num_entries := 10\<rparr>"
  have ci: "cache_inv c L" and so: "settings_ok c" using c(1) by (auto simp: meta_inv_def cache_inv_def lru_inv_def)
  have r: "core_line_count ?req = 1" "core_line_first ?req = 0" "req_core ?req = 2" "req_part_id ?req \<le> OCF_USER_IO_CLASS_MAX"
    by (simp_all add: ocf_req_new_def ocf_bytes_2_lines_def c(4) Let_def OCF_USER_IO_CLASS_MAX_def PARTITION_DEFAULT_def)
  have sh: "req_shape c ?req" by (rule req_new_shape [OF so _ _ refl]) simp_all
  have "ocf_alock_init_inplace True True True True 10 4 = Some ?a" by (simp add: ocf_alock_init_inplace_def lock_ex0_def)
  note l = locks_ok_init [OF this]
  have l3: "locks_ok (set_access ?a 3 OCF_CACHE_LINE_ACCESS_WR, (\<lambda>_. [])(3 := [OCF_WRITE]))"
    by (rule locked_wr_ok(1) [OF l]) (simp_all add: lock_ex0_def access_defs)
  have "remap_start True c L ?req (set_access ?a 3 OCF_CACHE_LINE_ACCESS_WR) ((\<lambda>_. [])(3 := [OCF_WRITE]))"
    unfolding remap_start_def r using c sh l3 by (simp add: OCF_CORE_MAX_def set_access_def lock_ex0_def r(4))
  moreover have "remap_start False c L ?req ?a (\<lambda>_. [])"
    unfolding remap_start_def r using c sh l by (simp add: OCF_CORE_MAX_def lock_ex0_def r(4) metadata_ok_def meta_inv_def)
  moreover have "core_id (seg_collision c 3) = 1" using mapped_line(2) [OF ci, of 1 7 3] c(5) by simp
  moreover have "part_of c 3 = 5" using c(6) by simp
  ultimately show ?thesis using c(2,4,5,7)
    by (intro exI [of _ c] exI [of _ L] exI [of _ "set_access ?a 3 OCF_CACHE_LINE_ACCESS_WR"] exI [of _ "(\<lambda>_. [])(3 := [OCF_WRITE])"] conjI exI [of _ ?a])
      (simp_all add: lock_ex0_def access_defs)
qed

theorem req_clines_takes_lines_witness:
  "\<exists>(st :: 8 space_state) st' L' H'. ocf_engine_unmapped_count (sp_req st) = 1 \<and> part_of (sp_cache st) 3 = 5 \<and> secs Valid (sp_cache st) 3 = {} \<and>
    ocf_lru_req_clines 0 st 5 1 = Some (st', 1) \<and> space_ok False st' L' H' \<and> misses (sp_req st') = {}"
proof -
  obtain c :: "8 ocf_cache" and L a where c: "remap_start False c L (ocf_req_new c 0 2 0 4096 OCF_READ) a (\<lambda>_. [])" "index c (2, 0) = None" "size c = ocf_cache_line_size_4"
    "part_of c 3 = 5" "\<forall>v. secs v c 3 = {}" "acc a 3 = OCF_CACHE_LINE_ACCESS_IDLE" "core_id (seg_collision c 3) = 1" "3 < collision_table_entries c"
    using started_remaps by blast
  let ?r0 = "ocf_req_new c 0 2 0 4096 OCF_READ"
  obtain m f where s: "space_ok False \<lparr>sp_cache = c, sp_locks = (a, no_locks), sp_req = ?r0\<lparr>req_map := m, req_info := f\<rparr>, sp_lru_idx = 0\<rparr> L (\<lambda>_. [])"
    using start_space_ok [OF c(1)] by blast
  let ?r = "?r0\<lparr>req_map := m, req_info := f\<rparr>"
  have rf: "req_fine c ?r" using s by (simp add: space_ok_def)
  have one: "core_line_count ?r0 = 1" "core_line_first ?r0 = 0" "req_core ?r0 = 2"
    by (simp_all add: ocf_req_new_def ocf_bytes_2_lines_def c(3) Let_def)
  have ms: "misses ?r = {0}" using req_entry(1) [OF rf, of 0] c(2) one by (auto simp: misses_def req_key_def)
  then have u: "ocf_engine_unmapped_count ?r = 1" using rf by (simp add: req_fine_def word_unat_eq_iff)
  let ?st = "\<lparr>sp_cache = c, sp_locks = (a, no_locks), sp_req = ?r, sp_lru_idx = 0\<rparr>"
  have p: "(5 :: u16) \<le> OCF_USER_IO_CLASS_MAX" "(5 :: u16) \<noteq> PARTITION_FREELIST" by (simp_all add: OCF_USER_IO_CLASS_MAX_def PARTITION_FREELIST_def)
  have "evictable c ?r (a, no_locks) 3"
    using c(6,7) one(3) by (simp add: evictable_def in_request_def bucket_free_def grantable_def no_locks_def)
  then have tk: "takeable ?st 5 3" using c(4,5,8) p by (simp add: takeable_def)
  obtain st' n L' H' where w: "ocf_lru_req_clines 0 ?st 5 1 = Some (st', n)" "n \<le> 1" "space_ok False st' L' H'" "progress ?st (\<lambda>_. []) st' H' (unat n)" "n \<noteq> 0"
    using req_clines_takes_lines [OF s, of 5 1 0] u tk p(1) by (auto simp: source_def)
  have n: "n = 1" using w(2,5) by (simp add: word_le_nat_alt word_unat_eq_iff)
  have "misses (sp_req st') = {}" using progressD(9) [OF w(4)] ms n by simp
  then show ?thesis using u w(1,3) c(4,5) n by (intro exI [of _ ?st] exI [of _ st'] exI [of _ L'] exI [of _ H']) simp
qed

end
