(* ===== verification/Part_List.thy ===== *)
theory Part_List
  imports OCF_Prelude "HOL-Library.Multiset"
begin

text \<open>
  Lists of entries that are embedded in an array (\<open>utils/utils_list.h\<close>, \<open>utils/utils_list.c\<close>): a ring of indices through a head entry, and its
  sorting in place.  The locale \<open>lst_comparator\<close> says what sorting relies on; the comparator of partitions interprets it.
\<close>

subsection \<open>The list\<close>

text \<open>The entries are reached through the getter of the list, which takes indices up to \<open>getter_max\<close>; the head is the entry at index \<open>invalid\<close>.\<close>

record ocf_lst_entry =
  lst_next :: u32
  lst_prev :: u32

record ocf_lst =
  lst_entries :: "u32 \<Rightarrow> ocf_lst_entry"
  invalid :: u32
  getter_max :: u32

definition getter :: "ocf_lst \<Rightarrow> u32 \<Rightarrow> ocf_lst_entry option" where
  "getter lst idx = do { ENV_BUG_ON (idx > getter_max lst); Some (lst_entries lst idx) }"

abbreviation head_entry :: "ocf_lst \<Rightarrow> ocf_lst_entry" where
  "head_entry lst \<equiv> lst_entries lst (invalid lst)"

definition set_next :: "u32 \<Rightarrow> u32 \<Rightarrow> ocf_lst \<Rightarrow> ocf_lst" where
  "set_next idx n lst = lst\<lparr>lst_entries := (lst_entries lst)(idx := (lst_entries lst idx)\<lparr>lst_next := n\<rparr>)\<rparr>"

definition set_prev :: "u32 \<Rightarrow> u32 \<Rightarrow> ocf_lst \<Rightarrow> ocf_lst" where
  "set_prev idx p lst = lst\<lparr>lst_entries := (lst_entries lst)(idx := (lst_entries lst idx)\<lparr>lst_prev := p\<rparr>)\<rparr>"

definition OCF_LST_ENTRY_OUT :: "ocf_lst \<Rightarrow> u32" where
  "OCF_LST_ENTRY_OUT lst = invalid lst + 1"

definition ocf_lst_init_entry :: "ocf_lst \<Rightarrow> u32 \<Rightarrow> ocf_lst" where
  "ocf_lst_init_entry lst idx = set_next idx (OCF_LST_ENTRY_OUT lst) (set_prev idx (OCF_LST_ENTRY_OUT lst) lst)"

definition ocf_lst_is_entry :: "ocf_lst \<Rightarrow> ocf_lst_entry \<Rightarrow> bool option" where
  "ocf_lst_is_entry lst e =
     (if lst_next e = OCF_LST_ENTRY_OUT lst \<and> lst_prev e = OCF_LST_ENTRY_OUT lst then Some False
      else if lst_next e < OCF_LST_ENTRY_OUT lst \<and> lst_prev e < OCF_LST_ENTRY_OUT lst then Some True
      else None)"

definition ocf_lst_init :: "(u32 \<Rightarrow> ocf_lst_entry) \<Rightarrow> u32 \<Rightarrow> u32 \<Rightarrow> ocf_lst option" where
  "ocf_lst_init entries none m = do {
     let lst = \<lparr>lst_entries = entries, invalid = none, getter_max = m\<rparr>;
     ENV_BUG_ON (none > m);
     let lst = set_prev none none (set_next none none lst);
     Some (foldl (\<lambda>l i. ocf_lst_init_entry l (of_nat i)) lst [0..<unat none])
   }"

text \<open>\<open>OCF_LST_DBG_ON\<close> only logs, but the test that it logs stops on an entry that is half in the list.\<close>

definition ocf_lst_add_after :: "ocf_lst \<Rightarrow> u32 \<Rightarrow> u32 \<Rightarrow> ocf_lst option" where
  "ocf_lst_add_after lst at idx = do {
     after \<leftarrow> getter lst at;
     let n = lst_next after;
     nxt \<leftarrow> getter lst n;
     this \<leftarrow> getter lst idx;
     _ \<leftarrow> ocf_lst_is_entry lst this;
     _ \<leftarrow> ocf_lst_is_entry lst after;
     _ \<leftarrow> ocf_lst_is_entry lst nxt;
     Some (set_prev n idx (set_next at idx (set_prev idx at (set_next idx n lst))))
   }"

definition ocf_lst_add_before :: "ocf_lst \<Rightarrow> u32 \<Rightarrow> u32 \<Rightarrow> ocf_lst option" where
  "ocf_lst_add_before lst at idx = do {
     before \<leftarrow> getter lst at;
     let p = lst_prev before;
     prev \<leftarrow> getter lst p;
     this \<leftarrow> getter lst idx;
     _ \<leftarrow> ocf_lst_is_entry lst this;
     _ \<leftarrow> ocf_lst_is_entry lst before;
     _ \<leftarrow> ocf_lst_is_entry lst prev;
     Some (set_next p idx (set_prev at idx (set_prev idx p (set_next idx at lst))))
   }"

definition ocf_lst_add :: "ocf_lst \<Rightarrow> u32 \<Rightarrow> ocf_lst option" where
  "ocf_lst_add lst idx = do {
     this \<leftarrow> getter lst idx;
     let n = lst_next (head_entry lst);
     nxt \<leftarrow> getter lst n;
     _ \<leftarrow> ocf_lst_is_entry lst this;
     _ \<leftarrow> ocf_lst_is_entry lst nxt;
     Some (set_prev idx (invalid lst) (set_next (invalid lst) idx (set_prev n idx (set_next idx n lst))))
   }"

definition ocf_lst_add_tail :: "ocf_lst \<Rightarrow> u32 \<Rightarrow> ocf_lst option" where
  "ocf_lst_add_tail lst idx = do {
     this \<leftarrow> getter lst idx;
     let p = lst_prev (head_entry lst);
     prev \<leftarrow> getter lst p;
     _ \<leftarrow> ocf_lst_is_entry lst this;
     _ \<leftarrow> ocf_lst_is_entry lst prev;
     Some (set_prev (invalid lst) idx (set_next p idx (set_prev idx p (set_next idx (invalid lst) lst))))
   }"

definition ocf_lst_del :: "ocf_lst \<Rightarrow> u32 \<Rightarrow> ocf_lst option" where
  "ocf_lst_del lst idx = do {
     this \<leftarrow> getter lst idx;
     let n = lst_next this;
     let p = lst_prev this;
     nxt \<leftarrow> getter lst n;
     prev \<leftarrow> getter lst p;
     _ \<leftarrow> ocf_lst_is_entry lst this;
     _ \<leftarrow> ocf_lst_is_entry lst nxt;
     _ \<leftarrow> ocf_lst_is_entry lst prev;
     Some (ocf_lst_init_entry (set_prev n p (set_next p n lst)) idx)
   }"

definition ocf_lst_head :: "ocf_lst \<Rightarrow> u32" where
  "ocf_lst_head lst = lst_next (head_entry lst)"

definition ocf_lst_tail :: "ocf_lst \<Rightarrow> u32" where
  "ocf_lst_tail lst = lst_prev (head_entry lst)"

definition ocf_lst_empty :: "ocf_lst \<Rightarrow> bool" where
  "ocf_lst_empty lst \<longleftrightarrow> lst_next (head_entry lst) = invalid lst"

text \<open>The indices that \<open>for_each_lst\<close> visits when its body does not change the list.\<close>

partial_function (option) each_from :: "ocf_lst \<Rightarrow> u32 \<Rightarrow> u32 list option" where
  "each_from lst idx = getter lst idx \<bind> (\<lambda>e. if idx = invalid lst then Some [] else each_from lst (lst_next e) \<bind> (\<lambda>is. Some (idx # is)))"

definition for_each_lst :: "ocf_lst \<Rightarrow> u32 list option" where
  "for_each_lst lst = each_from lst (lst_next (head_entry lst))"

subsection \<open>Sorting\<close>

text \<open>The comparator may change the entries that it compares, except for their links: \<open>cs\<close> is the state of these.\<close>

type_synonym 'c comparator = "'c \<Rightarrow> u32 \<Rightarrow> u32 \<Rightarrow> 'c \<times> int"

partial_function (option) sort_pos :: "'c comparator \<Rightarrow> ocf_lst \<Rightarrow> u32 \<Rightarrow> 'c \<Rightarrow> u32 \<Rightarrow> ('c \<times> u32) option" where
  "sort_pos cmp lst iter cs pos = getter lst pos \<bind> (\<lambda>e.
     if pos = invalid lst then Some (cs, pos)
     else if snd (cmp cs pos iter) > 0 then Some (fst (cmp cs pos iter), pos)
     else sort_pos cmp lst iter (fst (cmp cs pos iter)) (lst_next e))"

definition sort_insert :: "'c comparator \<Rightarrow> 'c \<Rightarrow> ocf_lst \<Rightarrow> u32 \<Rightarrow> ('c \<times> ocf_lst) option" where
  "sort_insert cmp cs lst iter =
     (if ocf_lst_empty lst then do { lst \<leftarrow> ocf_lst_add lst iter; Some (cs, lst) }
      else do {
        (cs, pos) \<leftarrow> sort_pos cmp lst iter cs (lst_next (head_entry lst));
        lst \<leftarrow> (if pos = invalid lst then ocf_lst_add_tail lst iter else ocf_lst_add_before lst pos iter);
        Some (cs, lst)
      })"

partial_function (option) sort_loop :: "'c comparator \<Rightarrow> 'c \<Rightarrow> ocf_lst \<Rightarrow> u32 \<Rightarrow> u32 \<Rightarrow> ('c \<times> ocf_lst) option" where
  "sort_loop cmp cs lst iter nxt =
     (if iter \<noteq> invalid lst
      then sort_insert cmp cs (ocf_lst_init_entry lst iter) iter \<bind> (\<lambda>(cs, lst).
        getter lst nxt \<bind> (\<lambda>e. sort_loop cmp cs lst nxt (lst_next e)))
      else Some (cs, lst))"

definition ocf_lst_sort :: "'c comparator option \<Rightarrow> 'c \<Rightarrow> ocf_lst \<Rightarrow> ('c \<times> ocf_lst) option" where
  "ocf_lst_sort cmp cs lst = (case cmp of None \<Rightarrow> Some (cs, lst) | Some cmp \<Rightarrow>
     if ocf_lst_empty lst then Some (cs, lst)
     else do {
       let iter = lst_next (head_entry lst);
       e \<leftarrow> getter lst iter;
       _ \<leftarrow> getter lst (lst_next e);
       let nxt = lst_next e;
       let lst = set_prev (invalid lst) (invalid lst) (set_next (invalid lst) (invalid lst) lst);
       sort_loop cmp cs lst iter nxt
     })"


subsection \<open>The ring\<close>

text \<open>The entries in the order of their links.\<close>

fun links :: "(u32 \<Rightarrow> ocf_lst_entry) \<Rightarrow> u32 \<Rightarrow> u32 list \<Rightarrow> bool" where
  "links e a [] = True"
| "links e a (b # bs) \<longleftrightarrow> lst_next (e a) = b \<and> lst_prev (e b) = a \<and> links e b bs"

definition ring :: "ocf_lst \<Rightarrow> u32 list \<Rightarrow> bool" where
  "ring lst xs \<longleftrightarrow> links (lst_entries lst) (invalid lst) (xs @ [invalid lst]) \<and> distinct xs \<and> (\<forall>x\<in>set xs. x < invalid lst) \<and>
     invalid lst \<le> getter_max lst \<and> invalid lst < - 1"

text \<open>An entry that is in no list.\<close>

definition entry_out :: "ocf_lst \<Rightarrow> u32 \<Rightarrow> bool" where
  "entry_out lst x \<longleftrightarrow> x < invalid lst \<and> lst_entries lst x = \<lparr>lst_next = OCF_LST_ENTRY_OUT lst, lst_prev = OCF_LST_ENTRY_OUT lst\<rparr>"

lemma links_append: "links e a (us @ vs) \<longleftrightarrow> links e a us \<and> links e (last (a # us)) vs"
  by (induction us arbitrary: a) auto

lemma links_cong:
  "(\<And>x. x \<in> set (butlast (a # bs)) \<Longrightarrow> lst_next (e' x) = lst_next (e x)) \<Longrightarrow> (\<And>x. x \<in> set bs \<Longrightarrow> lst_prev (e' x) = lst_prev (e x)) \<Longrightarrow>
   links e' a bs = links e a bs"
  by (induction bs arbitrary: a) auto

lemma links_members:
  assumes "links e a (bs @ [z])" "x \<in> set (a # bs)"
  shows "lst_next (e x) \<in> set (bs @ [z])"
  using assms by (induction bs arbitrary: a) auto

lemma links_prev: "links e a bs \<Longrightarrow> x \<in> set bs \<Longrightarrow> lst_prev (e x) \<in> set (a # butlast bs)"
  by (induction bs arbitrary: a) (auto split: if_splits)

text \<open>Entry \<open>x\<close> between \<open>a\<close> and \<open>b\<close>.\<close>

definition spliced :: "u32 \<Rightarrow> u32 \<Rightarrow> u32 \<Rightarrow> (u32 \<Rightarrow> ocf_lst_entry) \<Rightarrow> u32 \<Rightarrow> ocf_lst_entry" where
  "spliced a x b e y = \<lparr>lst_next = (if y = x then b else if y = a then x else lst_next (e y)),
     lst_prev = (if y = x then a else if y = b then x else lst_prev (e y))\<rparr>"

lemma links_spliced:
  assumes l: "links e z (us @ vs @ [z])" and d: "distinct (z # us @ vs)" and x: "x \<notin> set (z # us @ vs)"
  shows "links (spliced (last (z # us)) x (hd (vs @ [z])) e) z (us @ x # vs @ [z])"
proof -
  let ?a = "last (z # us)" and ?b = "hd (vs @ [z])"
  let ?e = "spliced ?a x ?b e"
  have l1: "links e z us" "links e ?a (vs @ [z])" using l by (auto simp: links_append)
  have "links ?e z us"
  proof (subst links_cong [of z us _ e])
    fix y assume y: "y \<in> set (butlast (z # us))"
    have "distinct (butlast (z # us) @ [?a])" using d by (subst append_butlast_last_id) auto
    then have "y \<noteq> ?a" using y by auto
    moreover have "y \<noteq> x" using y x in_set_butlastD [of y "z # us"] by auto
    ultimately show "lst_next (?e y) = lst_next (e y)" by (simp add: spliced_def)
  next
    fix y assume y: "y \<in> set us"
    then have "y \<noteq> x" "y \<noteq> ?b" using x d by (cases vs; auto)+
    then show "lst_prev (?e y) = lst_prev (e y)" by (simp add: spliced_def)
  qed (rule l1(1))
  moreover have "links ?e x (vs @ [z])"
  proof (cases vs)
    case Nil
    then show ?thesis using x by (auto simp: spliced_def)
  next
    case (Cons v ws)
    have "links e v (ws @ [z])" using l1(2) Cons by simp
    moreover have "links ?e v (ws @ [z]) = links e v (ws @ [z])"
    proof (rule links_cong)
      fix y assume "y \<in> set (butlast (v # ws @ [z]))"
      then have "y \<in> set (v # ws)" by (auto simp: butlast_append split: if_splits)
      then have "y \<noteq> ?a" "y \<noteq> x" using d x Cons by (cases us; auto dest: last_in_set)+
      then show "lst_next (?e y) = lst_next (e y)" by (simp add: spliced_def)
    next
      fix y assume "y \<in> set (ws @ [z])"
      then have "y \<noteq> ?b" "y \<noteq> x" using d x Cons by auto
      then show "lst_prev (?e y) = lst_prev (e y)" by (simp add: spliced_def)
    qed
    ultimately show ?thesis using Cons x by (auto simp: spliced_def)
  qed
  moreover have "lst_next (?e ?a) = x" using x by (auto simp: spliced_def dest: last_in_set)
  ultimately show ?thesis by (auto simp: links_append spliced_def)
qed


subsection \<open>Operations on the ring\<close>

lemma getter_Some: "x \<le> getter_max lst \<Longrightarrow> getter lst x = Some (lst_entries lst x)"
  by (simp add: getter_def)

lemma ring_members:
  assumes "ring lst xs" "x \<in> set (invalid lst # xs)"
  shows "getter lst x = Some (lst_entries lst x)" "lst_next (lst_entries lst x) \<in> set (invalid lst # xs)" "lst_prev (lst_entries lst x) \<in> set (invalid lst # xs)"
    "ocf_lst_is_entry lst (lst_entries lst x) = Some True"
proof -
  have r: "links (lst_entries lst) (invalid lst) (xs @ [invalid lst])" "\<forall>x\<in>set xs. x < invalid lst" "invalid lst \<le> getter_max lst" "invalid lst < - 1"
    using assms(1) by (auto simp: ring_def)
  have le: "y \<le> invalid lst" if "y \<in> set (invalid lst # xs)" for y using that r(2) by auto
  show "getter lst x = Some (lst_entries lst x)" using le [OF assms(2)] r(3) by (intro getter_Some) simp
  show n: "lst_next (lst_entries lst x) \<in> set (invalid lst # xs)" using links_members [OF r(1) assms(2)] by auto
  have "x \<in> set (xs @ [invalid lst])" using assms(2) by auto
  from links_prev [OF r(1) this] show p: "lst_prev (lst_entries lst x) \<in> set (invalid lst # xs)" by (auto simp: butlast_append split: if_splits)
  have "y < invalid lst + 1" if "y \<in> set (invalid lst # xs)" for y
    using le [OF that] r(4) by (simp add: word_le_nat_alt word_less_nat_alt unat_add_nowrap) unat_arith
  from this [OF n] this [OF p] show "ocf_lst_is_entry lst (lst_entries lst x) = Some True" by (auto simp: ocf_lst_is_entry_def OCF_LST_ENTRY_OUT_def)
qed

lemma entry_out_facts:
  assumes "ring lst xs" "entry_out lst x"
  shows "getter lst x = Some (lst_entries lst x)" "ocf_lst_is_entry lst (lst_entries lst x) = Some False" "x \<noteq> invalid lst" "x \<notin> set xs"
proof -
  have "x < invalid lst" "invalid lst \<le> getter_max lst" using assms by (auto simp: ring_def entry_out_def)
  then show "getter lst x = Some (lst_entries lst x)" "x \<noteq> invalid lst" by (auto intro: getter_Some)
  show e: "ocf_lst_is_entry lst (lst_entries lst x) = Some False" using assms(2) by (simp add: ocf_lst_is_entry_def entry_out_def)
  show "x \<notin> set xs" using ring_members(4) [OF assms(1), of x] e by auto
qed

lemma ring_ends:
  assumes "ring lst (us @ vs)"
  shows "lst_next (lst_entries lst (last (invalid lst # us))) = hd (vs @ [invalid lst])" "lst_prev (lst_entries lst (hd (vs @ [invalid lst]))) = last (invalid lst # us)"
  using assms by (cases vs; auto simp: ring_def links_append)+

definition put_between :: "u32 \<Rightarrow> u32 \<Rightarrow> u32 \<Rightarrow> ocf_lst \<Rightarrow> ocf_lst" where
  "put_between a x b lst = lst\<lparr>lst_entries := spliced a x b (lst_entries lst)\<rparr>"

lemma put_between_fields [simp]: "invalid (put_between a x b lst) = invalid lst" "getter_max (put_between a x b lst) = getter_max lst"
  by (simp_all add: put_between_def)

lemma put_between_ring:
  assumes "ring lst (us @ vs)" "entry_out lst x"
  shows "ring (put_between (last (invalid lst # us)) x (hd (vs @ [invalid lst])) lst) (us @ x # vs)"
proof -
  note o = entry_out_facts [OF assms]
  have d: "distinct (invalid lst # us @ vs)" using assms(1) by (auto simp: ring_def)
  have "links (spliced (last (invalid lst # us)) x (hd (vs @ [invalid lst])) (lst_entries lst)) (invalid lst) (us @ x # vs @ [invalid lst])"
    by (rule links_spliced) (use assms(1) d o in \<open>auto simp: ring_def\<close>)
  then show ?thesis using assms o(4) by (auto simp: ring_def put_between_def entry_out_def)
qed

lemma set_links:
  assumes "x \<noteq> a" "x \<noteq> b"
  shows "set_next a x (set_prev b x (set_prev x a (set_next x b lst))) = put_between a x b lst"
    "set_prev b x (set_next a x (set_prev x a (set_next x b lst))) = put_between a x b lst"
    "set_prev x a (set_next a x (set_prev b x (set_next x b lst))) = put_between a x b lst"
  using assms by (auto simp: set_next_def set_prev_def put_between_def spliced_def fun_eq_iff)

lemma lst_add_between:
  assumes r: "ring lst (us @ vs)" and o: "entry_out lst x" and a: "a = last (invalid lst # us)" and b: "b = hd (vs @ [invalid lst])"
  shows "ocf_lst_add_before lst b x = Some (put_between a x b lst)" "ocf_lst_add_after lst a x = Some (put_between a x b lst)"
    "us = [] \<Longrightarrow> ocf_lst_add lst x = Some (put_between a x b lst)" "vs = [] \<Longrightarrow> ocf_lst_add_tail lst x = Some (put_between a x b lst)"
proof -
  note oo = entry_out_facts [OF r o] and e = ring_ends [OF r, folded a b]
  have m: "a \<in> set (invalid lst # us @ vs)" "b \<in> set (invalid lst # us @ vs)" by (auto simp: a b) (cases vs; simp)+
  have n: "x \<noteq> a" "x \<noteq> b" using m oo(3,4) by auto
  note ra = ring_members [OF r m(1)] and rb = ring_members [OF r m(2)]
  note sl = set_links [OF n, of lst]
  show "ocf_lst_add_before lst b x = Some (put_between a x b lst)" using ra rb oo e sl by (simp add: ocf_lst_add_before_def Let_def)
  show "ocf_lst_add_after lst a x = Some (put_between a x b lst)" using ra rb oo e sl by (simp add: ocf_lst_add_after_def Let_def)
  show "ocf_lst_add lst x = Some (put_between a x b lst)" if "us = []"
    using that ra rb oo e sl a by (simp add: ocf_lst_add_def Let_def)
  show "ocf_lst_add_tail lst x = Some (put_between a x b lst)" if "vs = []"
    using that ra rb oo e sl b by (simp add: ocf_lst_add_tail_def Let_def)
qed

lemma each_from_ring:
  assumes "ring lst xs"
  shows "xs = us @ vs \<Longrightarrow> each_from lst (hd (vs @ [invalid lst])) = Some vs"
proof (induction vs arbitrary: us)
  case Nil
  have "getter lst (invalid lst) = Some (lst_entries lst (invalid lst))" by (rule ring_members(1) [OF assms]) simp
  then show ?case by (subst each_from.simps) simp
next
  case (Cons v vs)
  have g: "getter lst v = Some (lst_entries lst v)" by (rule ring_members(1) [OF assms]) (simp add: Cons.prems)
  have "ring lst ((us @ [v]) @ vs)" using assms Cons.prems by simp
  from ring_ends(1) [OF this] have n: "lst_next (lst_entries lst v) = hd (vs @ [invalid lst])" by simp
  have "v \<noteq> invalid lst" using assms Cons.prems by (auto simp: ring_def)
  then show ?case using g n Cons.IH [of "us @ [v]"] Cons.prems by (subst each_from.simps) simp
qed

lemma for_each_ring: "ring lst xs \<Longrightarrow> for_each_lst lst = Some xs"
  using each_from_ring [of lst xs "[]" xs] ring_ends(1) [of lst "[]" xs] by (simp add: for_each_lst_def)

lemma empty_ring: "ring lst xs \<Longrightarrow> ocf_lst_empty lst \<longleftrightarrow> xs = []"
  using ring_ends(1) [of lst "[]" xs] by (cases xs) (auto simp: ocf_lst_empty_def ring_def)


lemma lst_del_ring:
  assumes r: "ring lst (us @ x # vs)"
  shows "\<exists>lst'. ocf_lst_del lst x = Some lst' \<and> ring lst' (us @ vs) \<and> entry_out lst' x"
proof -
  let ?z = "invalid lst" and ?e = "lst_entries lst"
  define a where "a = last (?z # us)"
  define b where "b = hd (vs @ [?z])"
  have R: "links ?e ?z (us @ x # vs @ [?z])" "distinct (?z # us @ x # vs)" using r by (auto simp: ring_def)
  have e: "lst_prev (?e x) = a" "lst_next (?e x) = b"
    using ring_ends(2) [of lst us "x # vs"] ring_ends(1) [of lst "us @ [x]" vs] r by (simp_all add: a_def b_def)
  have am: "a \<in> set (?z # us)" by (auto simp: a_def)
  have bm: "b \<in> set (?z # vs)" by (cases vs) (auto simp: b_def)
  have m: "x \<in> set (?z # us @ x # vs)" "a \<in> set (?z # us @ x # vs)" "b \<in> set (?z # us @ x # vs)" using am bm by auto
  have xn: "x \<noteq> a" "x \<noteq> b" "x \<noteq> ?z" using am bm R(2) by auto
  note rx = ring_members [OF r m(1)] and ra = ring_members [OF r m(2)] and rb = ring_members [OF r m(3)]
  define l where "l = ocf_lst_init_entry (set_prev b a (set_next a b lst)) x"
  have run: "ocf_lst_del lst x = Some l" using rx ra rb e by (simp add: ocf_lst_del_def Let_def l_def)
  have nx: "lst_next (lst_entries l y) = (if y = a then b else lst_next (?e y))" if "y \<noteq> x" for y
    using that by (auto simp: l_def ocf_lst_init_entry_def set_next_def set_prev_def)
  have pv: "lst_prev (lst_entries l y) = (if y = b then a else lst_prev (?e y))" if "y \<noteq> x" for y
    using that by (auto simp: l_def ocf_lst_init_entry_def set_next_def set_prev_def)
  have "links (lst_entries l) ?z us = links ?e ?z us"
  proof (rule links_cong)
    fix y assume y: "y \<in> set (butlast (?z # us))"
    have "distinct (butlast (?z # us) @ [a])" using R(2) unfolding a_def by (subst append_butlast_last_id) auto
    then have "y \<noteq> a" using y by auto
    moreover have "y \<noteq> x" using y R(2) in_set_butlastD [of y "?z # us"] by auto
    ultimately show "lst_next (lst_entries l y) = lst_next (?e y)" by (simp add: nx)
  next
    fix y assume y: "y \<in> set us"
    then have "y \<noteq> x" "y \<noteq> b" using R(2) bm by auto
    then show "lst_prev (lst_entries l y) = lst_prev (?e y)" by (simp add: pv)
  qed
  then have l1: "links (lst_entries l) ?z us" using R(1) by (simp add: links_append)
  have l2: "links (lst_entries l) a (vs @ [?z])"
  proof (cases vs)
    case Nil
    then show ?thesis using xn nx [of a] pv [of b] by (auto simp: b_def)
  next
    case (Cons v ws)
    have "links ?e v (ws @ [?z])" using R(1) Cons by (simp add: links_append)
    moreover have "links (lst_entries l) v (ws @ [?z]) = links ?e v (ws @ [?z])"
    proof (rule links_cong)
      fix y assume "y \<in> set (butlast (v # ws @ [?z]))"
      then have "y \<in> set (v # ws)" by (auto simp: butlast_append split: if_splits)
      then have "y \<noteq> a" "y \<noteq> x" using R(2) am Cons by auto
      then show "lst_next (lst_entries l y) = lst_next (?e y)" by (simp add: nx)
    next
      fix y assume "y \<in> set (ws @ [?z])"
      then have "y \<noteq> b" "y \<noteq> x" using R(2) Cons by (auto simp: b_def)
      then show "lst_prev (lst_entries l y) = lst_prev (?e y)" by (simp add: pv)
    qed
    moreover have "v = b" using Cons by (simp add: b_def)
    ultimately show ?thesis using Cons xn nx [of a] pv [of b] by auto
  qed
  have f: "invalid l = ?z" "getter_max l = getter_max lst" by (simp_all add: l_def ocf_lst_init_entry_def set_prev_def set_next_def)
  have "ring l (us @ vs)" using r l1 l2 unfolding ring_def f by (auto simp: links_append a_def)
  moreover have "entry_out l x" using r by (simp add: l_def entry_out_def ocf_lst_init_entry_def set_next_def set_prev_def OCF_LST_ENTRY_OUT_def ring_def)
  ultimately show ?thesis using run by blast
qed

subsection \<open>Insertion\<close>

text \<open>The list after \<open>x\<close> was put before the first element of a lower rank.\<close>

definition place :: "(u32 \<Rightarrow> int) \<Rightarrow> u32 \<Rightarrow> u32 list \<Rightarrow> u32 list" where
  "place r x ys = takeWhile (\<lambda>y. r x \<le> r y) ys @ x # dropWhile (\<lambda>y. r x \<le> r y) ys"

lemma set_place [simp]: "set (place r x ys) = insert x (set ys)"
proof -
  have "set (takeWhile P ys) \<union> set (dropWhile P ys) = set ys" for P
    by (metis set_append takeWhile_dropWhile_id)
  then show ?thesis by (simp add: place_def)
qed

lemma mset_place [simp]: "mset (place r x ys) = add_mset x (mset ys)"
proof -
  have "mset (takeWhile P ys) + mset (dropWhile P ys) = mset ys" for P
    by (metis mset_append takeWhile_dropWhile_id)
  then show ?thesis by (simp add: place_def)
qed

lemma sorted_place:
  assumes "sorted_wrt (\<lambda>a b. r b \<le> r a) ys"
  shows "sorted_wrt (\<lambda>a b. r b \<le> r a) (place r x ys)"
proof -
  let ?P = "\<lambda>y. r x \<le> r y"
  have s: "sorted_wrt (\<lambda>a b. r b \<le> r a) (takeWhile ?P ys @ dropWhile ?P ys)" using assms by simp
  have "\<forall>y\<in>set (dropWhile ?P ys). r y \<le> r x"
  proof (cases "dropWhile ?P ys")
    case (Cons d ds)
    then have "\<not> ?P d" by (metis dropWhile_eq_Cons_conv)
    moreover have "\<forall>y\<in>set ds. r y \<le> r d" using s Cons by (simp add: sorted_wrt_append)
    ultimately show ?thesis using Cons by auto
  next
    case Nil
    show ?thesis unfolding Nil by simp
  qed
  then show ?thesis using s unfolding place_def sorted_wrt_append by (auto dest: set_takeWhileD)
qed

lemma place_split:
  "\<exists>us vs. ys = us @ vs \<and> place r x ys = us @ x # vs \<and> dropWhile (\<lambda>y. r x \<le> r y) ys = vs"
  by (metis place_def takeWhile_dropWhile_id)

text \<open>The entries that are still to be sorted are linked forward only.\<close>

fun forward :: "(u32 \<Rightarrow> ocf_lst_entry) \<Rightarrow> u32 list \<Rightarrow> u32 \<Rightarrow> bool" where
  "forward e [] z = True"
| "forward e (x # xs) z \<longleftrightarrow> lst_next (e x) = hd (xs @ [z]) \<and> forward e xs z"

lemma forward_cong: "(\<And>x. x \<in> set xs \<Longrightarrow> lst_next (e' x) = lst_next (e x)) \<Longrightarrow> forward e' xs z = forward e xs z"
  by (induction xs) auto

lemma links_forward: "links e a (xs @ [z]) \<Longrightarrow> forward e xs z"
proof (induction xs arbitrary: a)
  case (Cons x xs)
  then show ?case by (cases xs) auto
qed simp

lemma init_entry_entries: "lst_entries (ocf_lst_init_entry lst x) =
  (lst_entries lst)(x := \<lparr>lst_next = OCF_LST_ENTRY_OUT lst, lst_prev = OCF_LST_ENTRY_OUT lst\<rparr>)"
  by (auto simp: ocf_lst_init_entry_def set_next_def set_prev_def fun_eq_iff)

lemma init_entry_fields [simp]: "invalid (ocf_lst_init_entry lst x) = invalid lst" "getter_max (ocf_lst_init_entry lst x) = getter_max lst"
  by (simp_all add: ocf_lst_init_entry_def set_next_def set_prev_def)

lemma init_entry_ring:
  assumes "ring lst ys" "x < invalid lst" "x \<notin> set ys"
  shows "ring (ocf_lst_init_entry lst x) ys" "entry_out (ocf_lst_init_entry lst x) x"
proof -
  have "links (lst_entries (ocf_lst_init_entry lst x)) (invalid lst) (ys @ [invalid lst]) = links (lst_entries lst) (invalid lst) (ys @ [invalid lst])"
    by (rule links_cong) (use assms(2,3) in \<open>auto simp: init_entry_entries butlast_append\<close>)
  then show "ring (ocf_lst_init_entry lst x) ys" using assms(1) by (simp add: ring_def)
  show "entry_out (ocf_lst_init_entry lst x) x" using assms(2) by (simp add: entry_out_def init_entry_entries OCF_LST_ENTRY_OUT_def)
qed

lemma lst_init_ring:
  assumes "z \<le> m" "z < - 1"
  shows "\<exists>lst. ocf_lst_init e z m = Some lst \<and> ring lst [] \<and> invalid lst = z \<and> getter_max lst = m \<and> (\<forall>x<z. entry_out lst x)"
proof -
  let ?l = "set_prev z z (set_next z z \<lparr>lst_entries = e, invalid = z, getter_max = m\<rparr>)"
  let ?f = "foldl (\<lambda>l i. ocf_lst_init_entry l (of_nat i))"
  have "n \<le> unat z \<Longrightarrow> ring (?f ?l [0..<n]) [] \<and> invalid (?f ?l [0..<n]) = z \<and> getter_max (?f ?l [0..<n]) = m \<and>
      (\<forall>i<n. entry_out (?f ?l [0..<n]) (of_nat i))" for n
  proof (induction n)
    case 0
    show ?case using assms by (simp add: ring_def set_prev_def set_next_def)
  next
    case (Suc n)
    let ?k = "?f ?l [0..<n]"
    have k: "ring ?k []" "invalid ?k = z" "getter_max ?k = m" "\<forall>i<n. entry_out ?k (of_nat i)" using Suc by auto
    have nz: "(of_nat n :: u32) < z" using Suc.prems unsigned_less [of z, where ?'a = nat] by (simp add: word_less_nat_alt unat_of_nat take_bit_nat_eq_self)
    note i = init_entry_ring [OF k(1), of "of_nat n"]
    have "entry_out (ocf_lst_init_entry ?k (of_nat n)) (of_nat i)" if "i < Suc n" for i
    proof (cases "i = n")
      case False
      then show ?thesis using k(4) that by (auto simp: entry_out_def init_entry_entries OCF_LST_ENTRY_OUT_def)
    qed (use i(2) k(2) nz in simp)
    then show ?case using i k nz by simp
  qed
  from this [of "unat z"] have "ring (?f ?l [0..<unat z]) []" "invalid (?f ?l [0..<unat z]) = z" "getter_max (?f ?l [0..<unat z]) = m"
    "\<forall>i<unat z. entry_out (?f ?l [0..<unat z]) (of_nat i)" by auto
  moreover have "x < z \<Longrightarrow> \<exists>i<unat z. x = of_nat i" for x by (intro exI [of _ "unat x"]) (simp add: word_less_nat_alt)
  ultimately show ?thesis using assms(1) unfolding ocf_lst_init_def by (simp add: Let_def) blast
qed

subsection \<open>What sorting relies on\<close>

text \<open>The sign of the comparator is that of a rank, which comparing does not change; comparing does something to both elements, once.\<close>

locale lst_comparator =
  fixes cmp :: "'c comparator" and rank :: "'c \<Rightarrow> u32 \<Rightarrow> int" and touch :: "'c \<Rightarrow> u32 \<Rightarrow> 'c"
  assumes cmp_sign: "snd (cmp cs p i) > 0 \<longleftrightarrow> rank cs p < rank cs i"
    and cmp_state: "fst (cmp cs p i) = touch (touch cs p) i"
    and rank_touch: "rank (touch cs p) = rank cs"
    and touch_commute: "touch (touch cs p) q = touch (touch cs q) p"
    and touch_twice: "touch (touch cs p) p = touch cs p"
begin

lemma rank_touched: "rank (foldl touch cs qs) = rank cs"
  by (induction qs arbitrary: cs) (simp_all add: rank_touch)

lemma touched_commute: "touch (foldl touch cs qs) p = foldl touch (touch cs p) qs"
  by (induction qs arbitrary: cs) (simp_all add: touch_commute)

lemma touched_member: "p \<in> set qs \<Longrightarrow> touch (foldl touch cs qs) p = foldl touch cs qs"
  by (induction qs arbitrary: cs) (auto simp: touched_commute touch_twice)

lemma touched_subset: "set ps \<subseteq> set qs \<Longrightarrow> foldl touch (foldl touch cs qs) ps = foldl touch cs qs"
  by (induction ps) (auto simp: touched_member)

lemma touched_swap: "foldl touch (foldl touch cs ps) qs = foldl touch (foldl touch cs qs) ps"
  by (induction ps arbitrary: cs) (simp_all add: touched_commute)

lemma touched_set: "set ps = set qs \<Longrightarrow> foldl touch cs ps = foldl touch cs qs"
  using touched_subset [of ps qs cs] touched_subset [of qs ps cs] touched_swap [of cs ps qs] by simp

lemma sort_pos_ok:
  assumes "ring lst ys"
  shows "ys = us @ vs \<Longrightarrow> \<exists>qs. sort_pos cmp lst x cs (hd (vs @ [invalid lst])) =
      Some (foldl touch cs qs, hd (dropWhile (\<lambda>y. rank cs x \<le> rank cs y) vs @ [invalid lst])) \<and>
    set qs \<subseteq> insert x (set vs) \<and> (vs \<noteq> [] \<longrightarrow> x \<in> set qs \<and> hd vs \<in> set qs)"
proof (induction vs arbitrary: us cs)
  case Nil
  have "getter lst (invalid lst) = Some (lst_entries lst (invalid lst))" by (rule ring_members(1) [OF assms]) simp
  then show ?case by (subst sort_pos.simps) (auto intro!: exI [of _ "[]"])
next
  case (Cons v vs)
  have g: "getter lst v = Some (lst_entries lst v)" by (rule ring_members(1) [OF assms]) (simp add: Cons.prems)
  have "ring lst ((us @ [v]) @ vs)" using assms Cons.prems by simp
  from ring_ends(1) [OF this] have n: "lst_next (lst_entries lst v) = hd (vs @ [invalid lst])" by simp
  have ne: "v \<noteq> invalid lst" using assms Cons.prems by (auto simp: ring_def)
  show ?case
  proof (cases "rank cs v < rank cs x")
    case True
    then have "sort_pos cmp lst x cs v = Some (foldl touch cs [v, x], v)" using g ne by (subst sort_pos.simps) (simp add: cmp_sign cmp_state)
    then show ?thesis using True by (intro exI [of _ "[v, x]"]) simp
  next
    case False
    have rk: "rank (touch (touch cs v) x) = rank cs" by (simp add: rank_touch)
    obtain qs where q: "sort_pos cmp lst x (touch (touch cs v) x) (hd (vs @ [invalid lst])) =
        Some (foldl touch (touch (touch cs v) x) qs, hd (dropWhile (\<lambda>y. rank cs x \<le> rank cs y) vs @ [invalid lst]))" "set qs \<subseteq> insert x (set vs)"
      using Cons.IH [of "us @ [v]" "touch (touch cs v) x"] Cons.prems unfolding rk by auto
    have "sort_pos cmp lst x cs v = Some (foldl touch cs (v # x # qs), hd (dropWhile (\<lambda>y. rank cs x \<le> rank cs y) (v # vs) @ [invalid lst]))"
      using g ne n False q(1) by (subst sort_pos.simps) (simp add: cmp_sign cmp_state)
    then show ?thesis using q(2) by (intro exI [of _ "v # x # qs"]) auto
  qed
qed

lemma sort_insert_ok:
  assumes r: "ring lst ys" and o: "entry_out lst x"
  shows "\<exists>a b qs. sort_insert cmp cs lst x = Some (foldl touch cs qs, put_between a x b lst) \<and> ring (put_between a x b lst) (place (rank cs) x ys) \<and>
    a \<in> set (invalid lst # ys) \<and> b \<in> set (invalid lst # ys) \<and> set qs \<subseteq> insert x (set ys) \<and> (if ys = [] then qs = [] else x \<in> set qs \<and> hd ys \<in> set qs)"
proof -
  obtain us vs where p: "ys = us @ vs" "place (rank cs) x ys = us @ x # vs" "dropWhile (\<lambda>y. rank cs x \<le> rank cs y) ys = vs" using place_split by blast
  let ?a = "last (invalid lst # us)" and ?b = "hd (vs @ [invalid lst])"
  have rs: "ring lst (us @ vs)" using r p(1) by simp
  have rp: "ring (put_between ?a x ?b lst) (place (rank cs) x ys)" using put_between_ring [OF rs o] p(2) by simp
  have am: "?a \<in> set (invalid lst # ys)" by (auto simp: p(1))
  have bm: "?b \<in> set (invalid lst # ys)" by (cases vs) (auto simp: p(1))
  show ?thesis
  proof (cases "ys = []")
    case True
    then have "us = []" "vs = []" using p(1) by auto
    then have "sort_insert cmp cs lst x = Some (cs, put_between ?a x ?b lst)"
      using lst_add_between(3) [OF rs o refl refl] empty_ring [OF r] True by (simp add: sort_insert_def)
    then show ?thesis using rp am bm True by (intro exI [of _ ?a] exI [of _ ?b] exI [of _ "[]"]) simp
  next
    case False
    have h: "lst_next (head_entry lst) = hd (ys @ [invalid lst])" using ring_ends(1) [of lst "[]" ys] r by simp
    obtain qs where q: "sort_pos cmp lst x cs (hd (ys @ [invalid lst])) = Some (foldl touch cs qs, ?b)"
      "set qs \<subseteq> insert x (set ys)" "x \<in> set qs \<and> hd ys \<in> set qs"
      using sort_pos_ok [OF r, of "[]" ys x cs] False p(3) by auto
    have "(if ?b = invalid lst then ocf_lst_add_tail lst x else ocf_lst_add_before lst ?b x) = Some (put_between ?a x ?b lst)"
    proof (cases vs)
      case Nil
      then show ?thesis using lst_add_between(4) [OF rs o refl refl] by simp
    next
      case (Cons v ws)
      then have "?b \<noteq> invalid lst" using r p(1) by (auto simp: ring_def)
      then show ?thesis using lst_add_between(1) [OF rs o refl refl] by simp
    qed
    then have "sort_insert cmp cs lst x = Some (foldl touch cs qs, put_between ?a x ?b lst)"
      using q(1) h empty_ring [OF r] False by (simp add: sort_insert_def)
    then show ?thesis using rp am bm q(2,3) False by (intro exI [of _ ?a] exI [of _ ?b] exI [of _ qs]) simp
  qed
qed

lemma sort_loop_ok:
  "ring lst ys \<Longrightarrow> forward (lst_entries lst) rest (invalid lst) \<Longrightarrow> distinct (ys @ rest) \<Longrightarrow> \<forall>x\<in>set rest. x < invalid lst \<Longrightarrow>
   (rest \<noteq> [] \<longrightarrow> nxt = hd (tl rest @ [invalid lst])) \<Longrightarrow>
   \<exists>lst' qs. sort_loop cmp cs lst (hd (rest @ [invalid lst])) nxt = Some (foldl touch cs qs, lst') \<and>
     ring lst' (foldl (\<lambda>ys x. place (rank cs) x ys) ys rest) \<and> invalid lst' = invalid lst \<and> getter_max lst' = getter_max lst \<and>
     set qs \<subseteq> set ys \<union> set rest \<and> (ys \<noteq> [] \<or> 1 < length rest \<longrightarrow> set rest \<subseteq> set qs) \<and> (ys \<noteq> [] \<and> rest \<noteq> [] \<longrightarrow> hd ys \<in> set qs) \<and>
     (ys = [] \<and> length rest \<le> 1 \<longrightarrow> qs = []) \<and> (rest = [] \<longrightarrow> qs = []) \<and>
     (\<forall>y. y \<notin> set (invalid lst # ys @ rest) \<longrightarrow> lst_entries lst' y = lst_entries lst y)"
proof (induction rest arbitrary: cs lst ys nxt)
  case Nil
  then show ?case by (subst sort_loop.simps) (auto intro!: exI [of _ "[]"])
next
  case (Cons x xs)
  let ?i = "ocf_lst_init_entry lst x"
  have x: "x < invalid lst" "x \<notin> set ys" "x \<noteq> invalid lst" using Cons.prems(3,4) by auto
  note ie = init_entry_ring [OF Cons.prems(1) x(1,2)]
  obtain a b qs where s: "sort_insert cmp cs ?i x = Some (foldl touch cs qs, put_between a x b ?i)" "ring (put_between a x b ?i) (place (rank cs) x ys)"
    "a \<in> set (invalid lst # ys)" "set qs \<subseteq> insert x (set ys)" "if ys = [] then qs = [] else x \<in> set qs \<and> hd ys \<in> set qs"
    "b \<in> set (invalid lst # ys)"
    using sort_insert_ok [OF ie, of cs] by auto
  let ?l = "put_between a x b ?i" and ?c = "foldl touch cs qs"
  have f: "lst_next (lst_entries ?l y) = lst_next (lst_entries lst y)" if "y \<in> set xs" for y
    using that s(3) Cons.prems(3,4) by (auto simp: put_between_def spliced_def init_entry_entries)
  have fw: "forward (lst_entries ?l) xs (invalid ?l)" using forward_cong [of xs "lst_entries ?l" "lst_entries lst"] f Cons.prems(2) by simp
  have nx: "nxt = hd (xs @ [invalid lst])" using Cons.prems(5) by simp
  have "nxt \<in> set (xs @ [invalid lst])" using hd_in_set [of "xs @ [invalid lst]"] unfolding nx by blast
  then have "nxt \<le> invalid lst" using Cons.prems(4) by auto
  then have "nxt \<le> getter_max ?l" using Cons.prems(1) by (auto simp: ring_def)
  then have g: "getter ?l nxt = Some (lst_entries ?l nxt)" by (rule getter_Some)
  have n2: "xs \<noteq> [] \<longrightarrow> lst_next (lst_entries ?l nxt) = hd (tl xs @ [invalid ?l])" using fw nx by (cases xs) auto
  have rk: "rank ?c = rank cs" by (rule rank_touched)
  have d2: "distinct (place (rank cs) x ys @ xs)"
  proof -
    have "distinct (place (rank cs) x ys)" using s(2) by (simp add: ring_def)
    then show ?thesis using Cons.prems(3) by auto
  qed
  have pn: "place (rank cs) x ys \<noteq> []" by (simp add: place_def)
  have lt: "\<forall>x\<in>set xs. x < invalid ?l" using Cons.prems(4) by simp
  obtain lst' ps where ih: "sort_loop cmp ?c ?l (hd (xs @ [invalid ?l])) (lst_next (lst_entries ?l nxt)) = Some (foldl touch ?c ps, lst')"
    "ring lst' (foldl (\<lambda>ys x. place (rank cs) x ys) (place (rank cs) x ys) xs)" "invalid lst' = invalid ?l" "getter_max lst' = getter_max ?l"
    "set ps \<subseteq> insert x (set ys) \<union> set xs" "set xs \<subseteq> set ps" "xs \<noteq> [] \<longrightarrow> hd (place (rank cs) x ys) \<in> set ps"
    "xs = [] \<longrightarrow> ps = []" "\<And>y. y \<notin> set (invalid ?l # place (rank cs) x ys @ xs) \<Longrightarrow> lst_entries lst' y = lst_entries ?l y"
    using Cons.IH [OF s(2) fw d2 lt n2, of ?c] pn unfolding rk set_place by (elim exE conjE) (rule that, assumption+, blast+)
  have "sort_loop cmp cs lst x nxt = Some (foldl touch cs (qs @ ps), lst')"
    using x(3) s(1) g ih(1) nx by (subst sort_loop.simps) simp
  moreover have "ys = [] \<longrightarrow> hd (place (rank cs) x ys) = x" by (simp add: place_def)
  moreover have "lst_entries lst' y = lst_entries lst y" if "y \<notin> set (invalid lst # ys @ x # xs)" for y
    using ih(9) [of y] that s(3,6) by (auto simp: put_between_def spliced_def init_entry_entries)
  ultimately show ?case using ih(2-8) s(4,5) by (intro exI [of _ lst'] exI [of _ "qs @ ps"]) (auto split: if_splits)
qed

lemma lst_sort_ok:
  assumes r: "ring lst xs"
  shows "\<exists>lst'. ocf_lst_sort (Some cmp) cs lst = Some (if length xs \<le> 1 then cs else foldl touch cs xs, lst') \<and>
    ring lst' (foldl (\<lambda>ys x. place (rank cs) x ys) [] xs) \<and> invalid lst' = invalid lst \<and> getter_max lst' = getter_max lst \<and>
    (\<forall>y. y \<notin> set (invalid lst # xs) \<longrightarrow> lst_entries lst' y = lst_entries lst y)"
proof (cases "xs = []")
  case True
  then show ?thesis using r empty_ring [OF r] by (simp add: ocf_lst_sort_def)
next
  case False
  let ?l = "set_prev (invalid lst) (invalid lst) (set_next (invalid lst) (invalid lst) lst)"
  have R: "links (lst_entries lst) (invalid lst) (xs @ [invalid lst])" "distinct xs" "\<forall>x\<in>set xs. x < invalid lst" "invalid lst \<le> getter_max lst" "invalid lst < - 1"
    using r by (auto simp: ring_def)
  have l: "invalid ?l = invalid lst" "getter_max ?l = getter_max lst" by (simp_all add: set_prev_def set_next_def)
  have r0: "ring ?l []" using R by (simp add: ring_def set_prev_def set_next_def)
  have "forward (lst_entries ?l) xs (invalid lst) = forward (lst_entries lst) xs (invalid lst)"
    using R(3) by (intro forward_cong) (auto simp: set_prev_def set_next_def)
  then have fw: "forward (lst_entries ?l) xs (invalid ?l)" using links_forward [OF R(1)] l by simp
  obtain x zs where x: "xs = x # zs" using False by (cases xs) auto
  let ?n = "hd (zs @ [invalid lst])"
  have h: "lst_next (head_entry lst) = x" "lst_next (lst_entries lst x) = ?n" using ring_ends(1) [of lst "[]" xs] ring_ends(1) [of lst "[x]" zs] r x by auto
  have g: "getter lst x = Some (lst_entries lst x)" by (rule ring_members(1) [OF r]) (simp add: x)
  have "?n \<in> set (invalid lst # xs)" using x by (cases zs) auto
  note g2 = ring_members(1) [OF r this]
  obtain lst' qs where s: "sort_loop cmp cs ?l x ?n = Some (foldl touch cs qs, lst')" "ring lst' (foldl (\<lambda>ys x. place (rank cs) x ys) [] xs)"
    "invalid lst' = invalid ?l" "getter_max lst' = getter_max ?l" "set qs \<subseteq> set xs" "1 < length xs \<longrightarrow> set xs \<subseteq> set qs" "length xs \<le> 1 \<longrightarrow> qs = []"
    "\<forall>y. y \<notin> set (invalid lst # xs) \<longrightarrow> lst_entries lst' y = lst_entries ?l y"
    using sort_loop_ok [OF r0 fw, of ?n cs] R(2,3) l x by auto
  have run: "ocf_lst_sort (Some cmp) cs lst = Some (foldl touch cs qs, lst')"
    using empty_ring [OF r] False g g2 h s(1) by (simp add: ocf_lst_sort_def Let_def)
  have "foldl touch cs qs = (if length xs \<le> 1 then cs else foldl touch cs xs)" using s(5-7) touched_set [of qs xs] by auto
  moreover have "lst_entries lst' y = lst_entries lst y" if "y \<notin> set (invalid lst # xs)" for y
    using s(8) that by (simp add: set_prev_def set_next_def)
  ultimately show ?thesis using run s(2-4) l by auto
qed

lemma sorted_result:
  assumes "inj_on (rank cs) (set xs)"
  shows "foldl (\<lambda>ys x. place (rank cs) x ys) [] xs = sort_key (\<lambda>x. - rank cs x) xs"
proof -
  let ?ys = "foldl (\<lambda>ys x. place (rank cs) x ys) [] xs"
  have m: "mset (foldl (\<lambda>ys x. place (rank cs) x ys) ys xs) = mset ys + mset xs" for ys xs by (induction xs arbitrary: ys) simp_all
  have "sorted_wrt (\<lambda>a b. rank cs b \<le> rank cs a) ys \<Longrightarrow> sorted_wrt (\<lambda>a b. rank cs b \<le> rank cs a) (foldl (\<lambda>ys x. place (rank cs) x ys) ys xs)" for ys xs
    by (induction xs arbitrary: ys) (simp_all add: sorted_place)
  then have so: "sorted_wrt (\<lambda>a b. rank cs b \<le> rank cs a) ?ys" by simp
  have ms: "mset ?ys = mset xs" using m [of "[]" xs] by simp
  then have st: "set ?ys = set xs" by (metis set_mset_mset)
  have "filter (\<lambda>x. - rank cs k = - rank cs x) ?ys = filter (\<lambda>x. - rank cs k = - rank cs x) xs" if k: "k \<in> set ?ys" for k
  proof -
    have eq: "filter (\<lambda>x. - rank cs k = - rank cs x) l = filter (\<lambda>x. x = k) l" if "set l = set xs" for l
      using that k st assms by (intro filter_cong) (auto dest: inj_onD)
    have c: "filter (\<lambda>x. x = k) l = replicate (count (mset l) k) k" for l by (induction l) auto
    show ?thesis unfolding eq [OF st] eq [OF refl] c ms ..
  qed
  then show ?thesis using properties_for_sort_key [of ?ys xs "\<lambda>x. - rank cs x"] ms so by (simp add: sorted_wrt_map)
qed

end

end
