(* ===== verification/User_Part.thy ===== *)
theory User_Part
  imports Cache_Line Part_List
begin

text \<open>
  Partitions of I/O classes (\<open>utils/utils_user_part.h\<close>, \<open>utils/utils_user_part.c\<close>), their configuration (\<open>mngt/ocf_mngt_io_class.c\<close>, \<open>__init_partitions\<close> of
  \<open>mngt/ocf_mngt_cache.c\<close>) and queries (\<open>ocf_io_class.c\<close>).  The list of partitions is kept in the order in which lines are evicted from them.
\<close>

subsection \<open>Partitions and their sizes\<close>

record ocf_user_part_config =
  part_name :: string
  min_size :: u32
  max_size :: u32
  pt_valid :: bool
  pt_added :: bool
  pt_eviction :: bool
  priority :: int
  pt_cache_mode :: int

text \<open>\<open>user_parts\<close>: what the pointers \<open>config\<close> of the partitions point at; \<open>part_lst\<close>: the list of partitions, whose entries are in the structures of the
  partitions; \<open>device\<close>: the cache has a device, \<open>attached\<close>: its metadata can be used; \<open>cachelines\<close>: the number of lines in the configuration of the cache.\<close>

record part_conf =
  user_parts :: "u16 \<Rightarrow> ocf_user_part_config"
  part_lst :: ocf_lst
  valid_parts_no :: u32
  cachelines :: u32
  device :: bool
  attached :: bool

definition OCF_IO_CLASS_PRIO_PINNED :: int where "OCF_IO_CLASS_PRIO_PINNED = - 1"
definition OCF_IO_CLASS_PRIO_HIGHEST :: int where "OCF_IO_CLASS_PRIO_HIGHEST = 0"
definition OCF_IO_CLASS_PRIO_LOWEST :: int where "OCF_IO_CLASS_PRIO_LOWEST = 255"

definition ocf_part_get_occupancy :: "('s :: len) ocf_cache \<Rightarrow> u16 \<Rightarrow> u32" where
  "ocf_part_get_occupancy cache part = curr_size cache part"

definition ocf_user_part_get_min_size :: "part_conf \<Rightarrow> u16 \<Rightarrow> u32" where
  "ocf_user_part_get_min_size conf part = ucast (((ucast (min_size (user_parts conf part)) :: u64) * ucast (cachelines conf)) div 100)"

definition ocf_user_part_get_max_size :: "part_conf \<Rightarrow> u16 \<Rightarrow> u32" where
  "ocf_user_part_get_max_size conf part = ucast (((ucast (max_size (user_parts conf part)) :: u64) * ucast (cachelines conf) + 100 - 1) div 100)"

definition ocf_user_part_overflow_size :: "part_conf \<Rightarrow> ('s :: len) ocf_cache \<Rightarrow> u16 \<Rightarrow> u32" where
  "ocf_user_part_overflow_size conf cache part =
     (let occupancy = ocf_part_get_occupancy cache part; limit = ocf_user_part_get_max_size conf part
      in if occupancy > limit then occupancy - limit else 0)"

definition ocf_user_part_has_space :: "part_conf \<Rightarrow> ('s :: len) ocf_cache \<Rightarrow> ocf_request \<Rightarrow> bool" where
  "ocf_user_part_has_space conf cache req =
     (let limit = ucast (ocf_user_part_get_max_size conf (req_part_id req)) :: u64;
          needed = ucast (ocf_engine_repart_count req + ocf_engine_unmapped_count req) :: u64;
          occupancy = ucast (ocf_part_get_occupancy cache (req_part_id req)) :: u64
      in occupancy + needed \<le> limit)"

definition ocf_user_part_is_enabled :: "part_conf \<Rightarrow> u16 \<Rightarrow> bool" where
  "ocf_user_part_is_enabled conf part \<longleftrightarrow> max_size (user_parts conf part) \<noteq> 0"

definition ocf_user_part_is_valid :: "part_conf \<Rightarrow> u16 \<Rightarrow> bool" where
  "ocf_user_part_is_valid conf part = pt_valid (user_parts conf part)"

definition ocf_user_part_is_added :: "part_conf \<Rightarrow> u16 \<Rightarrow> bool" where
  "ocf_user_part_is_added conf part = pt_added (user_parts conf part)"

definition ocf_user_part_get_prio :: "part_conf \<Rightarrow> u16 \<Rightarrow> int" where
  "ocf_user_part_get_prio conf part =
     (if part < OCF_USER_IO_CLASS_MAX then priority (user_parts conf part) else OCF_IO_CLASS_PRIO_LOWEST)"

definition ocf_user_part_set_prio :: "part_conf \<Rightarrow> u16 \<Rightarrow> int \<Rightarrow> part_conf" where
  "ocf_user_part_set_prio conf part prio =
     (if priority (user_parts conf part) \<noteq> prio
      then conf\<lparr>user_parts := (user_parts conf)(part := (user_parts conf part)\<lparr>priority := prio\<rparr>)\<rparr> else conf)"

definition ocf_user_part_class2id :: "part_conf \<Rightarrow> u64 \<Rightarrow> u16" where
  "ocf_user_part_class2id conf cls =
     (if cls < ucast OCF_USER_IO_CLASS_MAX \<and> pt_valid (user_parts conf (ucast cls)) then ucast cls else PARTITION_DEFAULT)"

definition ocf_user_part_is_prio_valid :: "int \<Rightarrow> bool" where
  "ocf_user_part_is_prio_valid prio \<longleftrightarrow> OCF_IO_CLASS_PRIO_HIGHEST \<le> prio \<and> prio \<le> OCF_IO_CLASS_PRIO_LOWEST \<or> prio = OCF_IO_CLASS_PRIO_PINNED"

definition PARTITION_SIZE_MIN :: u32 where "PARTITION_SIZE_MIN = 0"
definition PARTITION_SIZE_MAX :: u32 where "PARTITION_SIZE_MAX = 100"
definition OCF_IO_CLASS_NAME_MAX :: u32 where "OCF_IO_CLASS_NAME_MAX = 1024"
definition ocf_cache_mode_none :: int where "ocf_cache_mode_none = - 1"
definition ocf_cache_mode_max :: int where "ocf_cache_mode_max = 6"
definition OCF_ERR_INVAL :: int where "OCF_ERR_INVAL = 1000000"
definition OCF_ERR_IO_CLASS_NOT_EXIST :: int where "OCF_ERR_IO_CLASS_NOT_EXIST = 1000022"

definition ocf_user_part_get_cache_mode :: "part_conf \<Rightarrow> u16 \<Rightarrow> int" where
  "ocf_user_part_get_cache_mode conf part =
     (if part < OCF_USER_IO_CLASS_MAX then pt_cache_mode (user_parts conf part) else ocf_cache_mode_none)"

text \<open>A name is the list of its characters before the terminating zero.\<close>

fun name_valid_loop :: "string \<Rightarrow> u32 \<Rightarrow> bool" where
  "name_valid_loop [] len = True"
| "name_valid_loop (c # cs) len =
     (if of_char c < (32 :: nat) \<or> of_char c > (126 :: nat) then False
      else if c = CHR 0x2C \<or> c = CHR 0x22 then False
      else if len + 1 \<ge> OCF_IO_CLASS_NAME_MAX then False
      else name_valid_loop cs (len + 1))"

definition ocf_user_part_is_name_valid :: "string \<Rightarrow> bool" where
  "ocf_user_part_is_name_valid name = name_valid_loop name 0"

subsection \<open>The order of partitions\<close>

definition SHRT_MAX :: int where "SHRT_MAX = 32767"
definition SHRT_MIN :: int where "SHRT_MIN = - 32768"

text \<open>\<open>sizes\<close>: the current sizes of the partitions.\<close>

definition set_eviction :: "u16 \<Rightarrow> bool \<Rightarrow> (u16 \<Rightarrow> ocf_user_part_config) \<Rightarrow> u16 \<Rightarrow> ocf_user_part_config" where
  "set_eviction p b cfg = cfg(p := (cfg p)\<lparr>pt_eviction := b\<rparr>)"

definition ocf_user_part_lst_cmp_valid :: "bool \<Rightarrow> (u16 \<Rightarrow> u32) \<Rightarrow> (u16 \<Rightarrow> ocf_user_part_config) comparator" where
  "ocf_user_part_lst_cmp_valid att sizes cfg e1 e2 =
     (let p1 = ucast e1; p2 = ucast e2;
          p1_size = (if att then sizes p1 else 0);
          p2_size = (if att then sizes p2 else 0);
          v1 = priority (cfg p1);
          v2 = priority (cfg p2);
          cfg = set_eviction p1 (priority (cfg p1) \<noteq> OCF_IO_CLASS_PRIO_PINNED) cfg;
          cfg = set_eviction p2 (priority (cfg p2) \<noteq> OCF_IO_CLASS_PRIO_PINNED) cfg;
          (cfg, v1) = (if \<not> pt_valid (cfg p1)
            then (if p1_size \<noteq> 0 then (set_eviction p1 True cfg, SHRT_MAX) else (set_eviction p1 False cfg, SHRT_MIN)) else (cfg, v1));
          (cfg, v2) = (if \<not> pt_valid (cfg p2)
            then (if p2_size \<noteq> 0 then (set_eviction p2 True cfg, SHRT_MAX) else (set_eviction p2 False cfg, SHRT_MIN)) else (cfg, v2));
          (v1, v2) = (if v1 = v2 then (uint e1, uint e2) else (v1, v2))
      in (cfg, v2 - v1))"

text \<open>A partition is named by its index in the array, which is what \<open>part.id\<close> is set to.\<close>

definition ocf_user_part_init :: "part_conf \<Rightarrow> part_conf option" where
  "ocf_user_part_init conf = do {
     lst \<leftarrow> ocf_lst_init (lst_entries (part_lst conf)) (ucast OCF_USER_IO_CLASS_MAX) (ucast OCF_USER_IO_CLASS_MAX);
     Some (conf\<lparr>part_lst := lst\<rparr>)
   }"

definition ocf_user_part_sort :: "(u16 \<Rightarrow> u32) \<Rightarrow> part_conf \<Rightarrow> part_conf option" where
  "ocf_user_part_sort sizes conf = do {
     (cfg, lst) \<leftarrow> ocf_lst_sort (Some (ocf_user_part_lst_cmp_valid (attached conf) sizes)) (user_parts conf) (part_lst conf);
     Some (conf\<lparr>user_parts := cfg, part_lst := lst\<rparr>)
   }"

definition ocf_user_part_set_valid :: "part_conf \<Rightarrow> u16 \<Rightarrow> bool \<Rightarrow> part_conf" where
  "ocf_user_part_set_valid conf part flag =
     (if flag \<noteq> pt_valid (user_parts conf part)
      then if flag
        then conf\<lparr>user_parts := (user_parts conf)(part := (user_parts conf part)\<lparr>pt_valid := True\<rparr>), valid_parts_no := valid_parts_no conf + 1\<rparr>
        else conf\<lparr>user_parts := (user_parts conf)(part := (user_parts conf part)\<lparr>pt_valid := False, priority := OCF_IO_CLASS_PRIO_LOWEST,
               min_size := 0, max_size := PARTITION_SIZE_MAX, part_name := ''Inactive''\<rparr>), valid_parts_no := valid_parts_no conf - 1\<rparr>
      else conf)"

subsection \<open>Moving lines to the partition of a request\<close>

text \<open>The hooks of the cleaning policy (\<open>ocf_cleaning_purge_cache_block\<close>, \<open>ocf_cleaning_set_hot_cache_line\<close>) work on data that is not part of the state.\<close>

definition move_counters :: "u16 \<Rightarrow> u16 \<Rightarrow> u16 \<Rightarrow> (u16 \<Rightarrow> u16 \<Rightarrow> u32) \<Rightarrow> u16 \<Rightarrow> u16 \<Rightarrow> u32" where
  "move_counters core id_new id_old P =
     (let P = P(core := (P core)(id_new := P core id_new + 1)) in P(core := (P core)(id_old := P core id_old - 1)))"

definition part_move_entry :: "('s :: len) ocf_cache \<Rightarrow> ocf_request \<Rightarrow> ocf_map_info \<Rightarrow> 's ocf_cache option" where
  "part_move_entry cache req entry =
     (if \<not> re_part entry \<or> status entry \<noteq> LOOKUP_HIT then Some cache
      else do {
        let line = coll_idx entry;
        id_old \<leftarrow> ocf_metadata_get_partition_id cache line;
        let id_new = req_part_id req;
        ENV_BUG_ON (id_old \<ge> OCF_USER_IO_CLASS_MAX \<or> id_new \<ge> OCF_USER_IO_CLASS_MAX);
        if id_old = id_new then Some cache
        else do {
          _ \<leftarrow> metadata_test_dirty cache line;
          cache \<leftarrow> ocf_lru_repart cache line id_old id_new;
          d \<leftarrow> metadata_test_dirty cache line;
          let cache = (if d then cache\<lparr>part_dirty_clines := move_counters (req_core req) id_new id_old (part_dirty_clines cache)\<rparr> else cache);
          Some (cache\<lparr>part_cached_clines := move_counters (req_core req) id_new id_old (part_cached_clines cache)\<rparr>)
        }
      })"

fun part_move_loop :: "ocf_request \<Rightarrow> nat list \<Rightarrow> ('s :: len) ocf_cache \<Rightarrow> 's ocf_cache option" where
  "part_move_loop req [] cache = Some cache"
| "part_move_loop req (i # is) cache = do {
     entry \<leftarrow> map_entry req (of_nat i);
     cache \<leftarrow> part_move_entry cache req entry;
     part_move_loop req is cache
   }"

definition ocf_user_part_move :: "('s :: len) ocf_cache \<Rightarrow> ocf_request \<Rightarrow> 's ocf_cache option" where
  "ocf_user_part_move cache req = part_move_loop req [0..<unat (core_line_count req)] cache"


subsection \<open>Configuration of I/O classes\<close>

text \<open>\<open>cfg_name\<close> is \<open>None\<close> for a null pointer.\<close>

record ocf_mngt_io_class_config =
  cfg_class_id :: u32
  cfg_max_size :: u32
  cfg_name :: "string option"
  cfg_cache_mode :: int
  cfg_prio :: int

definition copy_name :: "string \<Rightarrow> string" where
  "copy_name name = take (unat OCF_IO_CLASS_NAME_MAX - 1) name"

abbreviation update_part :: "u16 \<Rightarrow> (ocf_user_part_config \<Rightarrow> ocf_user_part_config) \<Rightarrow> part_conf \<Rightarrow> part_conf" where
  "update_part part f conf \<equiv> conf\<lparr>user_parts := (user_parts conf)(part := f (user_parts conf part))\<rparr>"

definition ocf_mngt_count_user_parts_min_size :: "part_conf \<Rightarrow> u64 option" where
  "ocf_mngt_count_user_parts_min_size conf = do {
     parts \<leftarrow> for_each_lst (part_lst conf);
     Some (foldl (\<lambda>count p. if ocf_user_part_is_valid conf (ucast p) then count + ucast (min_size (user_parts conf (ucast p))) else count) 0 parts)
   }"

text \<open>The priority of a new partition is passed as an unsigned byte.\<close>

definition ocf_mngt_add_partition_to_cache ::
    "(u16 \<Rightarrow> u32) \<Rightarrow> part_conf \<Rightarrow> u16 \<Rightarrow> string option \<Rightarrow> u32 \<Rightarrow> u32 \<Rightarrow> u8 \<Rightarrow> bool \<Rightarrow> (part_conf \<times> int) option" where
  "ocf_mngt_add_partition_to_cache sizes conf part name mini maxi prio flag =
     (case name of None \<Rightarrow> Some (conf, - OCF_ERR_INVAL)
      | Some name \<Rightarrow>
        if part \<ge> OCF_USER_IO_CLASS_MAX then Some (conf, - OCF_ERR_INVAL)
        else if pt_valid (user_parts conf part) then Some (conf, - OCF_ERR_INVAL)
        else if mini > maxi then Some (conf, - OCF_ERR_INVAL)
        else if maxi > PARTITION_SIZE_MAX then Some (conf, - OCF_ERR_INVAL)
        else if length name \<ge> unat OCF_IO_CLASS_NAME_MAX then Some (conf, - OCF_ERR_INVAL)
        else do {
          parts \<leftarrow> for_each_lst (part_lst conf);
          if ucast part \<in> set parts then Some (conf, - OCF_ERR_INVAL)
          else do {
            let conf = update_part part (\<lambda>c. c\<lparr>part_name := copy_name name, min_size := mini, max_size := maxi, priority := uint prio,
              pt_cache_mode := ocf_cache_mode_max\<rparr>) conf;
            let conf = ocf_user_part_set_valid conf part flag;
            lst \<leftarrow> ocf_lst_add (part_lst conf) (ucast part);
            conf \<leftarrow> ocf_user_part_sort sizes (conf\<lparr>part_lst := lst\<rparr>);
            Some (update_part part (\<lambda>c. c\<lparr>pt_added := True\<rparr>) conf, 0)
          }
        })"

definition ocf_mngt_set_partition_size :: "part_conf \<Rightarrow> u16 \<Rightarrow> u32 \<Rightarrow> u32 \<Rightarrow> (part_conf \<times> int) option" where
  "ocf_mngt_set_partition_size conf part mini maxi =
     (if mini > maxi then Some (conf, - OCF_ERR_INVAL)
      else do {
        count \<leftarrow> ocf_mngt_count_user_parts_min_size conf;
        if count + ucast mini > ucast PARTITION_SIZE_MAX then Some (conf, - OCF_ERR_INVAL)
        else
          let maxi = (if maxi > PARTITION_SIZE_MAX then PARTITION_SIZE_MAX else maxi)
          in Some (update_part part (\<lambda>c. c\<lparr>min_size := mini, max_size := maxi\<rparr>) conf, 0)
      })"

definition ocf_mngt_io_class_configure :: "part_conf \<Rightarrow> ocf_mngt_io_class_config \<Rightarrow> string \<Rightarrow> (part_conf \<times> int) option" where
  "ocf_mngt_io_class_configure conf cfg name = do {
     let part = ucast (cfg_class_id cfg);
     ENV_BUG_ON (\<not> device conf);
     if \<not> ocf_user_part_is_added conf part then Some (conf, - OCF_ERR_INVAL)
     else if name = [] then Some (conf, - OCF_ERR_INVAL)
     else if part = PARTITION_DEFAULT then
       if name \<noteq> part_name (user_parts conf part) then Some (conf, - OCF_ERR_INVAL)
       else do {
         (conf, result) \<leftarrow> ocf_mngt_set_partition_size conf part 0 (cfg_max_size cfg);
         if result \<noteq> 0 then Some (conf, - OCF_ERR_INVAL)
         else Some (update_part part (\<lambda>c. c\<lparr>pt_cache_mode := cfg_cache_mode cfg\<rparr>) (ocf_user_part_set_prio conf part (cfg_prio cfg)), 0)
       }
     else do {
       let conf = update_part part (\<lambda>c. c\<lparr>part_name := copy_name name\<rparr>) conf;
       (conf, result) \<leftarrow> ocf_mngt_set_partition_size conf part 0 (cfg_max_size cfg);
       if result \<noteq> 0 then Some (conf, - OCF_ERR_INVAL)
       else
         let conf = (if ocf_user_part_is_valid conf part then conf else ocf_user_part_set_valid conf part True)
         in Some (update_part part (\<lambda>c. c\<lparr>pt_cache_mode := cfg_cache_mode cfg\<rparr>) (ocf_user_part_set_prio conf part (cfg_prio cfg)), 0)
     }
   }"

definition ocf_mngt_io_class_remove :: "part_conf \<Rightarrow> ocf_mngt_io_class_config \<Rightarrow> part_conf option" where
  "ocf_mngt_io_class_remove conf cfg = do {
     let part = ucast (cfg_class_id cfg);
     ENV_BUG_ON (\<not> device conf);
     Some (if part = PARTITION_DEFAULT then conf
           else if \<not> ocf_user_part_is_valid conf part then conf
           else ocf_user_part_set_valid conf part False)
   }"

definition ocf_mngt_io_class_edit :: "part_conf \<Rightarrow> ocf_mngt_io_class_config \<Rightarrow> (part_conf \<times> int) option" where
  "ocf_mngt_io_class_edit conf cfg =
     (case cfg_name cfg of Some name \<Rightarrow> ocf_mngt_io_class_configure conf cfg name
      | None \<Rightarrow> do { conf \<leftarrow> ocf_mngt_io_class_remove conf cfg; Some (conf, 0) })"

definition ocf_mngt_io_class_validate_cfg :: "ocf_mngt_io_class_config \<Rightarrow> int" where
  "ocf_mngt_io_class_validate_cfg cfg =
     (if cfg_class_id cfg \<ge> ucast OCF_USER_IO_CLASS_MAX then - OCF_ERR_INVAL
      else case cfg_name cfg of None \<Rightarrow> 0
      | Some name \<Rightarrow>
        if cfg_cache_mode cfg < ocf_cache_mode_none \<or> cfg_cache_mode cfg > ocf_cache_mode_max then - OCF_ERR_INVAL
        else if \<not> ocf_user_part_is_name_valid name then - OCF_ERR_INVAL
        else if \<not> ocf_user_part_is_prio_valid (cfg_prio cfg) then - OCF_ERR_INVAL
        else if cfg_max_size cfg < PARTITION_SIZE_MIN \<or> cfg_max_size cfg > PARTITION_SIZE_MAX then - OCF_ERR_INVAL
        else 0)"

fun validate_loop :: "ocf_mngt_io_class_config list \<Rightarrow> int" where
  "validate_loop [] = 0"
| "validate_loop (c # cs) = (let result = ocf_mngt_io_class_validate_cfg c in if result \<noteq> 0 then result else validate_loop cs)"

fun edit_loop :: "ocf_mngt_io_class_config list \<Rightarrow> part_conf \<Rightarrow> (part_conf \<times> int) option" where
  "edit_loop [] conf = Some (conf, 0)"
| "edit_loop (c # cs) conf = do {
     (conf, result) \<leftarrow> ocf_mngt_io_class_edit conf c;
     if result \<noteq> 0 then Some (conf, result) else edit_loop cs conf
   }"

text \<open>\<open>mem\<close>: the allocation of the copy succeeds.  The copy of the array of partitions holds the links of the list and pointers to the configurations.\<close>

definition ocf_mngt_cache_io_classes_configure ::
    "bool \<Rightarrow> (u16 \<Rightarrow> u32) \<Rightarrow> part_conf \<Rightarrow> ocf_mngt_io_class_config list \<Rightarrow> (part_conf \<times> int) option" where
  "ocf_mngt_cache_io_classes_configure mem sizes conf cfg =
     (let result = validate_loop cfg
      in if result \<noteq> 0 then Some (conf, result)
         else if \<not> mem then Some (conf, - OCF_ERR_NO_MEM)
         else do {
           let old = lst_entries (part_lst conf);
           (conf, result) \<leftarrow> edit_loop cfg conf;
           if result \<noteq> 0 then Some (conf\<lparr>part_lst := (part_lst conf)\<lparr>lst_entries := old\<rparr>\<rparr>, result)
           else do { conf \<leftarrow> ocf_user_part_sort sizes conf; Some (conf, 0) }
         })"

text \<open>\<open>__init_partitions\<close>; the cleaning of the partitions is frozen by it too.\<close>

fun init_parts_loop :: "(u16 \<Rightarrow> u32) \<Rightarrow> nat list \<Rightarrow> part_conf \<Rightarrow> part_conf option" where
  "init_parts_loop sizes [] conf = Some conf"
| "init_parts_loop sizes (i # is) conf =
     (if of_nat i = PARTITION_DEFAULT then init_parts_loop sizes is conf
      else do {
        (conf, result) \<leftarrow> ocf_mngt_add_partition_to_cache sizes conf (of_nat i) (Some ''Inactive'') 0 PARTITION_SIZE_MAX 255 False;
        ENV_BUG_ON (result \<noteq> 0);
        init_parts_loop sizes is conf
      })"

definition init_partitions :: "(u16 \<Rightarrow> u32) \<Rightarrow> part_conf \<Rightarrow> part_conf option" where
  "init_partitions sizes conf = do {
     (conf, result) \<leftarrow> ocf_mngt_add_partition_to_cache sizes conf PARTITION_DEFAULT (Some ''unclassified'') 0 PARTITION_SIZE_MAX 255 True;
     ENV_BUG_ON (result \<noteq> 0);
     init_parts_loop sizes [0..<unat OCF_USER_IO_CLASS_MAX] conf
   }"

subsection \<open>Queries\<close>

record ocf_io_class_info =
  info_name :: string
  info_cache_mode :: int
  info_priority :: int
  info_curr_size :: u32
  info_min_size :: u32
  info_max_size :: u32
  info_cleaning_policy_type :: int

text \<open>\<open>policy\<close>: the cleaning policy in the configuration of the cache.\<close>

definition ocf_cache_io_class_get_info :: "int \<Rightarrow> (u16 \<Rightarrow> u32) \<Rightarrow> part_conf \<Rightarrow> u32 \<Rightarrow> int + ocf_io_class_info" where
  "ocf_cache_io_class_get_info policy sizes conf io_class =
     (let part = ucast io_class; c = user_parts conf part
      in if io_class \<ge> ucast OCF_USER_IO_CLASS_MAX then Inl (- OCF_ERR_INVAL)
         else if \<not> ocf_user_part_is_valid conf part then Inl (- OCF_ERR_IO_CLASS_NOT_EXIST)
         else Inr \<lparr>info_name = take (unat OCF_IO_CLASS_NAME_MAX - 2) (part_name c), info_cache_mode = pt_cache_mode c, info_priority = priority c,
           info_curr_size = (if attached conf then sizes part else 0), info_min_size = min_size c, info_max_size = max_size c, info_cleaning_policy_type = policy\<rparr>)"

fun visit_loop :: "('v \<Rightarrow> u16 \<Rightarrow> 'v \<times> int) \<Rightarrow> part_conf \<Rightarrow> u32 list \<Rightarrow> 'v \<Rightarrow> 'v \<times> int" where
  "visit_loop visitor conf [] v = (v, 0)"
| "visit_loop visitor conf (p # ps) v =
     (if \<not> ocf_user_part_is_valid conf (ucast p) then visit_loop visitor conf ps v
      else let (v, result) = visitor v (ucast p) in if result \<noteq> 0 then (v, result) else visit_loop visitor conf ps v)"

definition ocf_io_class_visit :: "('v \<Rightarrow> u16 \<Rightarrow> 'v \<times> int) option \<Rightarrow> part_conf \<Rightarrow> 'v \<Rightarrow> ('v \<times> int) option" where
  "ocf_io_class_visit visitor conf v = (case visitor of None \<Rightarrow> Some (v, - OCF_ERR_INVAL)
     | Some visitor \<Rightarrow> do { parts \<leftarrow> for_each_lst (part_lst conf); Some (visit_loop visitor conf parts v) })"

subsection \<open>The comparator of partitions\<close>

definition part_value :: "bool \<Rightarrow> (u16 \<Rightarrow> u32) \<Rightarrow> (u16 \<Rightarrow> ocf_user_part_config) \<Rightarrow> u16 \<Rightarrow> int" where
  "part_value att sizes cfg p =
     (if pt_valid (cfg p) then priority (cfg p) else if att \<and> sizes p \<noteq> 0 then SHRT_MAX else SHRT_MIN)"

text \<open>Partitions that are not valid come first while they hold lines and last when they are empty; the others follow their priority, from the lowest on.\<close>

definition part_rank :: "bool \<Rightarrow> (u16 \<Rightarrow> u32) \<Rightarrow> (u16 \<Rightarrow> ocf_user_part_config) \<Rightarrow> u32 \<Rightarrow> int" where
  "part_rank att sizes cfg e = part_value att sizes cfg (ucast e) * 2 ^ 32 + uint e"

definition may_evict :: "bool \<Rightarrow> (u16 \<Rightarrow> u32) \<Rightarrow> ocf_user_part_config \<Rightarrow> u16 \<Rightarrow> bool" where
  "may_evict att sizes c p = (if pt_valid c then priority c \<noteq> OCF_IO_CLASS_PRIO_PINNED else att \<and> sizes p \<noteq> 0)"

definition part_touch :: "bool \<Rightarrow> (u16 \<Rightarrow> u32) \<Rightarrow> (u16 \<Rightarrow> ocf_user_part_config) \<Rightarrow> u32 \<Rightarrow> u16 \<Rightarrow> ocf_user_part_config" where
  "part_touch att sizes cfg e = set_eviction (ucast e) (may_evict att sizes (cfg (ucast e)) (ucast e)) cfg"

lemma lex_less: "0 \<le> a \<Longrightarrow> a < 2 ^ 32 \<Longrightarrow> 0 \<le> b \<Longrightarrow> b < 2 ^ 32 \<Longrightarrow> (v :: int) * 2 ^ 32 + a < w * 2 ^ 32 + b \<longleftrightarrow> v < w \<or> v = w \<and> a < b"
  by (cases "v < w"; cases "v = w") auto

lemma cmp_valid_result:
  "snd (ocf_user_part_lst_cmp_valid att sizes cfg e1 e2) =
     (if part_value att sizes cfg (ucast e1) = part_value att sizes cfg (ucast e2) then uint e2 - uint e1
      else part_value att sizes cfg (ucast e2) - part_value att sizes cfg (ucast e1))"
  by (auto simp: ocf_user_part_lst_cmp_valid_def Let_def set_eviction_def part_value_def split: prod.split if_splits)

lemma cmp_valid_state:
  "fst (ocf_user_part_lst_cmp_valid att sizes cfg e1 e2) = part_touch att sizes (part_touch att sizes cfg e1) e2"
proof -
  define p1 p2 :: u16 where p: "p1 = ucast e1" "p2 = ucast e2"
  show ?thesis
    unfolding ocf_user_part_lst_cmp_valid_def part_touch_def may_evict_def set_eviction_def p [symmetric]
    by (cases "p1 = p2"; cases "pt_valid (cfg p1)"; cases "pt_valid (cfg p2)") (simp_all add: Let_def fun_upd_twist split: prod.split)
qed

lemma part_value_eviction: "part_value att sizes (set_eviction p b cfg) = part_value att sizes cfg"
  by (simp add: part_value_def set_eviction_def fun_eq_iff)

interpretation part_order: lst_comparator "ocf_user_part_lst_cmp_valid att sizes" "part_rank att sizes" "part_touch att sizes" for att sizes
proof
  fix cs :: "u16 \<Rightarrow> ocf_user_part_config" and p q i :: u32
  have b: "0 \<le> uint x" "uint x < 2 ^ 32" for x :: u32 using unsigned_less [of x, where ?'a = int] by simp_all
  show "0 < snd (ocf_user_part_lst_cmp_valid att sizes cs p i) \<longleftrightarrow> part_rank att sizes cs p < part_rank att sizes cs i"
    unfolding cmp_valid_result part_rank_def lex_less [OF b b] by auto
  show "fst (ocf_user_part_lst_cmp_valid att sizes cs p i) = part_touch att sizes (part_touch att sizes cs p) i" by (rule cmp_valid_state)
  show "part_rank att sizes (part_touch att sizes cs p) = part_rank att sizes cs" by (simp add: part_rank_def part_touch_def part_value_eviction fun_eq_iff)
  show "part_touch att sizes (part_touch att sizes cs p) q = part_touch att sizes (part_touch att sizes cs q) p"
    by (cases "(ucast p :: u16) = ucast q") (simp_all add: part_touch_def set_eviction_def may_evict_def fun_upd_twist)
  show "part_touch att sizes (part_touch att sizes cs p) p = part_touch att sizes cs p"
    by (simp add: part_touch_def set_eviction_def may_evict_def)
qed


lemma part_rank_inj: "inj (part_rank att sizes cfg)"
proof (rule injI)
  fix x y :: u32
  assume e: "part_rank att sizes cfg x = part_rank att sizes cfg y"
  have b: "0 \<le> uint x" "uint x < 2 ^ 32" for x :: u32 using unsigned_less [of x, where ?'a = int] by simp_all
  have "\<not> part_rank att sizes cfg x < part_rank att sizes cfg y" "\<not> part_rank att sizes cfg y < part_rank att sizes cfg x" using e by simp_all
  then have "uint x = uint y" unfolding part_rank_def lex_less [OF b b] by auto
  then show "x = y" by (simp add: word_uint_eq_iff)
qed

text \<open>The partitions \<open>xs\<close> are in the list, the others are not.\<close>

definition parts_ring :: "part_conf \<Rightarrow> u32 list \<Rightarrow> bool" where
  "parts_ring conf xs \<longleftrightarrow> ring (part_lst conf) xs \<and> invalid (part_lst conf) = ucast OCF_USER_IO_CLASS_MAX \<and>
     getter_max (part_lst conf) = ucast OCF_USER_IO_CLASS_MAX \<and> (\<forall>x<ucast OCF_USER_IO_CLASS_MAX. x \<notin> set xs \<longrightarrow> entry_out (part_lst conf) x)"

lemma touched_parts:
  "foldl (part_touch att sizes) cfg xs = (\<lambda>p. if p \<in> ucast ` set xs then (cfg p)\<lparr>pt_eviction := may_evict att sizes (cfg p) p\<rparr> else cfg p)"
proof (induction xs arbitrary: cfg)
  case (Cons x xs)
  show ?case unfolding foldl_Cons Cons.IH by (auto simp: part_touch_def set_eviction_def may_evict_def fun_eq_iff)
qed simp

lemma user_part_sort_ok:
  assumes "parts_ring conf xs"
  shows "\<exists>conf'. ocf_user_part_sort sizes conf = Some conf' \<and> parts_ring conf' (sort_key (\<lambda>p. - part_rank (attached conf) sizes (user_parts conf) p) xs) \<and>
    (\<exists>l. conf' = conf\<lparr>user_parts := (\<lambda>p. if 1 < length xs \<and> p \<in> ucast ` set xs
        then (user_parts conf p)\<lparr>pt_eviction := may_evict (attached conf) sizes (user_parts conf p) p\<rparr> else user_parts conf p), part_lst := l\<rparr>)"
proof -
  have r: "ring (part_lst conf) xs" using assms by (simp add: parts_ring_def)
  have i: "inj_on (part_rank (attached conf) sizes (user_parts conf)) (set xs)" using part_rank_inj by (blast intro: inj_on_subset)
  obtain l where l: "ocf_lst_sort (Some (ocf_user_part_lst_cmp_valid (attached conf) sizes)) (user_parts conf) (part_lst conf) =
      Some (if length xs \<le> 1 then user_parts conf else foldl (part_touch (attached conf) sizes) (user_parts conf) xs, l)"
    "ring l (sort_key (\<lambda>p. - part_rank (attached conf) sizes (user_parts conf) p) xs)" "invalid l = invalid (part_lst conf)" "getter_max l = getter_max (part_lst conf)"
    "\<forall>y. y \<notin> set (invalid (part_lst conf) # xs) \<longrightarrow> lst_entries l y = lst_entries (part_lst conf) y"
    using part_order.lst_sort_ok [OF r, of "attached conf" sizes "user_parts conf"] part_order.sorted_result [OF i] by auto
  let ?c = "if length xs \<le> 1 then user_parts conf else foldl (part_touch (attached conf) sizes) (user_parts conf) xs"
  have c: "?c = (\<lambda>p. if 1 < length xs \<and> p \<in> ucast ` set xs
        then (user_parts conf p)\<lparr>pt_eviction := may_evict (attached conf) sizes (user_parts conf p) p\<rparr> else user_parts conf p)"
    by (auto simp: touched_parts fun_eq_iff)
  have "ocf_user_part_sort sizes conf = Some (conf\<lparr>user_parts := ?c, part_lst := l\<rparr>)" using l(1) by (simp add: ocf_user_part_sort_def)
  moreover have "entry_out l x" if "x < ucast OCF_USER_IO_CLASS_MAX" "x \<notin> set xs" for x
    using assms that l(3,5) by (auto simp: parts_ring_def entry_out_def OCF_LST_ENTRY_OUT_def)
  ultimately show ?thesis unfolding c using l(2-4) assms by (auto simp: parts_ring_def)
qed


subsection \<open>Configuration\<close>

lemma name_valid_iff:
  "unat len < 1024 \<Longrightarrow> name_valid_loop name len \<longleftrightarrow>
     (\<forall>c\<in>set name. 32 \<le> (of_char c :: nat) \<and> (of_char c :: nat) \<le> 126 \<and> c \<noteq> CHR 0x2C \<and> c \<noteq> CHR 0x22) \<and> unat len + length name < 1024"
proof (induction name arbitrary: len)
  case (Cons c cs)
  have u: "unat (len + 1) = unat len + 1" using Cons.prems by (subst unat_add_nowrap) auto
  have l: "len + 1 \<ge> OCF_IO_CLASS_NAME_MAX \<longleftrightarrow> unat len + 1 \<ge> 1024" using u by (simp add: word_le_nat_alt OCF_IO_CLASS_NAME_MAX_def)
  show ?case
  proof (cases "unat len + 1 \<ge> 1024")
    case True
    then show ?thesis using l by auto
  next
    case False
    then show ?thesis using l u Cons.IH [of "len + 1"] by auto
  qed
qed simp

text \<open>All partitions are in the list; the number of valid ones is right, and no partition has a minimum size.\<close>

definition valid_parts :: "(u16 \<Rightarrow> ocf_user_part_config) \<Rightarrow> u16 set" where
  "valid_parts cfg = {p. p < OCF_USER_IO_CLASS_MAX \<and> pt_valid (cfg p)}"

definition classes_ok :: "part_conf \<Rightarrow> u32 list \<Rightarrow> bool" where
  "classes_ok conf xs \<longleftrightarrow> parts_ring conf xs \<and> unat (valid_parts_no conf) = card (valid_parts (user_parts conf)) \<and>
     (\<forall>p. min_size (user_parts conf p) = 0) \<and> (\<forall>p<OCF_USER_IO_CLASS_MAX. pt_added (user_parts conf p) \<longleftrightarrow> ucast p \<in> set xs)"

lemma finite_parts [simp]: "finite (A :: u16 set)"
  by simp

lemma valid_parts_card: "card (valid_parts cfg) \<le> 33"
proof -
  have "card (valid_parts cfg) \<le> card (unat ` valid_parts cfg)" by (simp add: card_image inj_on_def word_unat_eq_iff)
  also have "\<dots> \<le> card {..<33 :: nat}" by (intro card_mono) (auto simp: valid_parts_def word_less_nat_alt OCF_USER_IO_CLASS_MAX_def)
  finally show ?thesis by simp
qed

lemma set_valid_counts:
  assumes n: "unat (valid_parts_no conf) = card (valid_parts (user_parts conf))" and p: "p < OCF_USER_IO_CLASS_MAX"
  shows "unat (valid_parts_no (ocf_user_part_set_valid conf p b)) = card (valid_parts (user_parts (ocf_user_part_set_valid conf p b)))"
proof (cases "b = pt_valid (user_parts conf p)")
  case True
  then show ?thesis using n by (simp add: ocf_user_part_set_valid_def)
next
  case False
  let ?V = "valid_parts (user_parts conf)"
  show ?thesis
  proof (cases b)
    case True
    then have nv: "p \<notin> ?V" using False by (simp add: valid_parts_def)
    have "valid_parts (user_parts (ocf_user_part_set_valid conf p b)) = insert p ?V"
      using False True p by (auto simp: ocf_user_part_set_valid_def valid_parts_def)
    moreover have "unat (valid_parts_no conf + 1) = unat (valid_parts_no conf) + 1" using n valid_parts_card [of "user_parts conf"] by (subst unat_add_nowrap) auto
    ultimately show ?thesis using False True n nv by (simp add: ocf_user_part_set_valid_def)
  next
    case b: False
    then have nv: "p \<in> ?V" using False p by (simp add: valid_parts_def)
    have "valid_parts (user_parts (ocf_user_part_set_valid conf p b)) = ?V - {p}"
      using False b p by (auto simp: ocf_user_part_set_valid_def valid_parts_def)
    moreover have "0 < card ?V" using nv by (auto simp: card_gt_0_iff)
    then have "valid_parts_no conf \<noteq> 0" using n by auto
    then have "unat (valid_parts_no conf - 1) = unat (valid_parts_no conf) - 1" by (rule unat_minus_one)
    ultimately show ?thesis using False b n nv by (simp add: ocf_user_part_set_valid_def)
  qed
qed

text \<open>What an element of a configuration does to the configuration of its partition.\<close>

definition class_edit :: "ocf_mngt_io_class_config \<Rightarrow> ocf_user_part_config \<Rightarrow> ocf_user_part_config" where
  "class_edit cfg c = (case cfg_name cfg of
     None \<Rightarrow> if cfg_class_id cfg = 0 \<or> \<not> pt_valid c then c
       else c\<lparr>pt_valid := False, priority := 255, min_size := 0, max_size := 100, part_name := ''Inactive''\<rparr>
   | Some name \<Rightarrow> c\<lparr>part_name := (if cfg_class_id cfg = 0 then part_name c else name), pt_valid := pt_valid c \<or> cfg_class_id cfg \<noteq> 0,
       min_size := 0, max_size := cfg_max_size cfg, priority := cfg_prio cfg, pt_cache_mode := cfg_cache_mode cfg\<rparr>)"

definition class_bad :: "part_conf \<Rightarrow> ocf_mngt_io_class_config \<Rightarrow> bool" where
  "class_bad conf cfg \<longleftrightarrow> (\<exists>name. cfg_name cfg = Some name \<and> (name = [] \<or> cfg_class_id cfg = 0 \<and> name \<noteq> part_name (user_parts conf 0)))"


lemma min_sizes_zero:
  assumes "ring (part_lst conf) xs" "\<And>p. min_size (user_parts conf p) = 0"
  shows "ocf_mngt_count_user_parts_min_size conf = Some 0"
proof -
  have "foldl (\<lambda>count p. if ocf_user_part_is_valid conf (ucast p) then count + ucast (min_size (user_parts conf (ucast p))) else count) (0 :: u64) ps = 0" for ps :: "u32 list"
    using assms(2) by (induction ps) simp_all
  then show ?thesis using for_each_ring [OF assms(1)] by (simp add: ocf_mngt_count_user_parts_min_size_def)
qed

lemma set_partition_size_ok:
  assumes "ring (part_lst conf) xs" "\<And>p. min_size (user_parts conf p) = 0" "maxi \<le> PARTITION_SIZE_MAX"
  shows "ocf_mngt_set_partition_size conf p 0 maxi = Some (update_part p (\<lambda>c. c\<lparr>min_size := 0, max_size := maxi\<rparr>) conf, 0)"
  using min_sizes_zero [OF assms(1,2)] assms(3) by (simp add: ocf_mngt_set_partition_size_def PARTITION_SIZE_MAX_def Let_def not_less)

lemma set_valid_frame:
  "part_lst (ocf_user_part_set_valid conf p b) = part_lst conf" "device (ocf_user_part_set_valid conf p b) = device conf"
  "attached (ocf_user_part_set_valid conf p b) = attached conf" "cachelines (ocf_user_part_set_valid conf p b) = cachelines conf"
  by (simp_all add: ocf_user_part_set_valid_def)

lemma unat_ucast_u16: "unat w < 65536 \<Longrightarrow> unat (ucast (w :: u32) :: u16) = unat w"
  by (simp add: unsigned_ucast_eq take_bit_nat_eq_self)

lemma unat_ucast_up16: "unat (ucast (w :: u16) :: u32) = unat w"
  using unsigned_less [of w, where ?'a = nat] by (simp add: unsigned_ucast_eq take_bit_nat_eq_self)

lemma ucast_up_down16 [simp]: "(ucast (ucast (w :: u16) :: u32) :: u16) = w"
  using unsigned_less [of w, where ?'a = nat] by (simp only: word_unat_eq_iff) (simp add: unat_ucast_u16 unat_ucast_up16)

lemma set_prio_eq: "ocf_user_part_set_prio conf p x = update_part p (\<lambda>c. c\<lparr>priority := x\<rparr>) conf"
proof (cases "priority (user_parts conf p) = x")
  case True
  have "c\<lparr>priority := priority c\<rparr> = c" for c :: ocf_user_part_config by (cases c) simp
  then show ?thesis by (simp add: ocf_user_part_set_prio_def True [symmetric])
qed (simp add: ocf_user_part_set_prio_def)

lemma set_valid_eq:
  "(if b \<or> pt_valid (user_parts conf p) then conf else ocf_user_part_set_valid conf p True) = conf\<lparr>
     user_parts := (user_parts conf)(p := (user_parts conf p)\<lparr>pt_valid := pt_valid (user_parts conf p) \<or> \<not> b\<rparr>),
     valid_parts_no := valid_parts_no (if b \<or> pt_valid (user_parts conf p) then conf else ocf_user_part_set_valid conf p True)\<rparr>"
proof (cases "b \<or> pt_valid (user_parts conf p)")
  case True
  then have "(user_parts conf p)\<lparr>pt_valid := pt_valid (user_parts conf p) \<or> \<not> b\<rparr> = user_parts conf p" by (cases "user_parts conf p") auto
  then show ?thesis using True by simp
qed (simp add: ocf_user_part_set_valid_def)

lemma validate_ok:
  assumes "ocf_mngt_io_class_validate_cfg cfg = 0"
  shows "ucast (cfg_class_id cfg) < OCF_USER_IO_CLASS_MAX" "ucast (ucast (cfg_class_id cfg) :: u16) = cfg_class_id cfg"
    "cfg_name cfg = Some name \<Longrightarrow> cfg_max_size cfg \<le> PARTITION_SIZE_MAX \<and> length name < 1024"
proof -
  have c: "\<not> cfg_class_id cfg \<ge> 33" using assms by (auto simp: ocf_mngt_io_class_validate_cfg_def OCF_ERR_INVAL_def OCF_USER_IO_CLASS_MAX_def split: if_splits)
  then have u: "unat (cfg_class_id cfg) < 33" by (simp add: word_less_nat_alt not_le)
  then have v: "unat (ucast (cfg_class_id cfg) :: u16) = unat (cfg_class_id cfg)"
    by (intro unat_ucast_u16) simp
  then show "ucast (cfg_class_id cfg) < OCF_USER_IO_CLASS_MAX" using u by (simp add: word_less_nat_alt OCF_USER_IO_CLASS_MAX_def)
  show "ucast (ucast (cfg_class_id cfg) :: u16) = cfg_class_id cfg" using v by (simp only: word_unat_eq_iff unat_ucast_up16)
  show "cfg_max_size cfg \<le> PARTITION_SIZE_MAX \<and> length name < 1024" if "cfg_name cfg = Some name"
  proof -
    have "cfg_max_size cfg \<le> PARTITION_SIZE_MAX" "ocf_user_part_is_name_valid name"
      using assms that by (auto simp: ocf_mngt_io_class_validate_cfg_def OCF_ERR_INVAL_def not_less split: if_splits)
    then show ?thesis using name_valid_iff [of 0 name] by (simp add: ocf_user_part_is_name_valid_def)
  qed
qed


lemma classes_ok_update:
  assumes ok: "classes_ok conf xs" and c: "min_size c = 0" "pt_added c = pt_added (user_parts conf p)"
    and e: "conf' = conf\<lparr>user_parts := (user_parts conf)(p := c), valid_parts_no := n\<rparr>" and n: "unat (valid_parts_no conf') = card (valid_parts (user_parts conf'))"
  shows "classes_ok conf' xs"
  using ok c n unfolding e by (auto simp: classes_ok_def parts_ring_def)

lemma class_edit_keeps: "min_size c = 0 \<Longrightarrow> min_size (class_edit cfg c) = 0" "pt_added (class_edit cfg c) = pt_added c"
  by (auto simp: class_edit_def split: option.splits)

lemma edit_ok:
  assumes ok: "classes_ok conf xs" and all: "\<And>p :: u16. p < OCF_USER_IO_CLASS_MAX \<Longrightarrow> ucast p \<in> set xs" and dev: "device conf"
    and v: "ocf_mngt_io_class_validate_cfg cfg = 0"
  shows "if class_bad conf cfg then ocf_mngt_io_class_edit conf cfg = Some (conf, - OCF_ERR_INVAL)
    else \<exists>n. let conf' = conf\<lparr>user_parts := (user_parts conf)(ucast (cfg_class_id cfg) := class_edit cfg (user_parts conf (ucast (cfg_class_id cfg)))), valid_parts_no := n\<rparr>
      in ocf_mngt_io_class_edit conf cfg = Some (conf', 0) \<and> classes_ok conf' xs"
proof -
  let ?p = "ucast (cfg_class_id cfg) :: u16"
  let ?r = "\<lambda>n. conf\<lparr>user_parts := (user_parts conf)(?p := class_edit cfg (user_parts conf ?p)), valid_parts_no := n\<rparr>"
  note O = ok [unfolded classes_ok_def parts_ring_def] and V = validate_ok [OF v]
  have ad: "ocf_user_part_is_added conf ?p" using O all V(1) by (simp add: ocf_user_part_is_added_def)
  have p0: "?p = PARTITION_DEFAULT \<longleftrightarrow> cfg_class_id cfg = 0" using V(2) by (auto simp: PARTITION_DEFAULT_def)
  have mz: "\<And>p. min_size (user_parts conf p) = 0" and r: "ring (part_lst conf) xs" using O by auto
  show ?thesis
  proof (cases "cfg_name cfg")
    case None
    let ?c = "if ?p = PARTITION_DEFAULT then conf else if \<not> ocf_user_part_is_valid conf ?p then conf else ocf_user_part_set_valid conf ?p False"
    have run: "ocf_mngt_io_class_edit conf cfg = Some (?c, 0)" using None dev by (simp add: ocf_mngt_io_class_edit_def ocf_mngt_io_class_remove_def Let_def)
    have eq: "?c = conf\<lparr>user_parts := (user_parts conf)(?p := class_edit cfg (user_parts conf ?p)), valid_parts_no := valid_parts_no ?c\<rparr>"
      using None by (auto simp: class_edit_def p0 ocf_user_part_is_valid_def ocf_user_part_set_valid_def OCF_IO_CLASS_PRIO_LOWEST_def PARTITION_SIZE_MAX_def)
    have "unat (valid_parts_no ?c) = card (valid_parts (user_parts ?c))" using O set_valid_counts [OF _ V(1), of conf False] by (simp only: split: if_split) blast
    then have k: "classes_ok ?c xs" by (rule classes_ok_update [OF ok class_edit_keeps(1) [OF mz] class_edit_keeps(2) eq])
    have "\<exists>n. ocf_mngt_io_class_edit conf cfg = Some (?r n, 0) \<and> classes_ok (?r n) xs"
      by (rule exI [of _ "valid_parts_no ?c"]) (simp only: eq [symmetric] run k simp_thms)
    then show ?thesis using None by (simp add: class_bad_def Let_def)
  next
    case (Some name)
    note N = V(3) [OF Some]
    have cn: "copy_name name = name" using N by (simp add: copy_name_def OCF_IO_CLASS_NAME_MAX_def)
    let ?f = "\<lambda>c. c\<lparr>min_size := 0, max_size := cfg_max_size cfg\<rparr>"
    show ?thesis
    proof (cases "class_bad conf cfg")
      case True
      then show ?thesis using Some dev ad p0
        by (auto simp: class_bad_def ocf_mngt_io_class_edit_def ocf_mngt_io_class_configure_def Let_def PARTITION_DEFAULT_def)
    next
      case False
      then have ne: "name \<noteq> []" "cfg_class_id cfg = 0 \<longrightarrow> name = part_name (user_parts conf 0)" using Some by (auto simp: class_bad_def)
      let ?z = "cfg_class_id cfg = 0"
      define c1 where "c1 = (if ?z then conf else update_part ?p (\<lambda>c. c\<lparr>part_name := name\<rparr>) conf)"
      define c2 where "c2 = update_part ?p ?f c1"
      define c3 where "c3 = (if ?z \<or> pt_valid (user_parts c2 ?p) then c2 else ocf_user_part_set_valid c2 ?p True)"
      define c4 where "c4 = update_part ?p (\<lambda>c. c\<lparr>pt_cache_mode := cfg_cache_mode cfg\<rparr>) (ocf_user_part_set_prio c3 ?p (cfg_prio cfg))"
      have c1: "ring (part_lst c1) xs" "\<And>p. min_size (user_parts c1 p) = 0" using r mz by (auto simp: c1_def)
      have s: "ocf_mngt_set_partition_size c1 ?p 0 (cfg_max_size cfg) = Some (c2, 0)"
        unfolding c2_def by (rule set_partition_size_ok [OF c1]) (use N in simp)
      have run: "ocf_mngt_io_class_edit conf cfg = Some (c4, 0)"
      proof (cases ?z)
        case True
        then have "c1 = conf" "c3 = c2" by (simp_all add: c1_def c3_def)
        then show ?thesis using Some dev ad ne p0 s True
          by (simp add: ocf_mngt_io_class_edit_def ocf_mngt_io_class_configure_def Let_def c4_def PARTITION_DEFAULT_def)
      next
        case False
        have e3: "c3 = (if pt_valid (user_parts c2 ?p) then c2 else ocf_user_part_set_valid c2 ?p True)" using False by (simp add: c3_def)
        have e1: "update_part ?p (\<lambda>c. c\<lparr>part_name := copy_name name\<rparr>) conf = c1" using False cn by (simp add: c1_def)
        show ?thesis using Some dev ad ne p0 s False
          by (simp add: ocf_mngt_io_class_edit_def ocf_mngt_io_class_configure_def Let_def c4_def e1 e3 ocf_user_part_is_valid_def)
      qed
      have "c\<lparr>part_name := part_name c\<rparr> = c" for c :: ocf_user_part_config by (cases c) simp
      then have e1: "c1 = update_part ?p (\<lambda>c. c\<lparr>part_name := (if ?z then part_name c else name)\<rparr>) conf" by (simp add: c1_def)
      define n where "n = valid_parts_no c3"
      have e3: "c3 = c2\<lparr>user_parts := (user_parts c2)(?p := (user_parts c2 ?p)\<lparr>pt_valid := pt_valid (user_parts c2 ?p) \<or> \<not> ?z\<rparr>), valid_parts_no := n\<rparr>"
        using set_valid_eq [of ?z c2 ?p, folded c3_def] by (simp add: n_def)
      have eq: "c4 = ?r n" unfolding c4_def set_prio_eq e3 c2_def e1
        using Some by (intro part_conf.equality) (auto simp: class_edit_def fun_eq_iff intro!: ocf_user_part_config.equality)
      have c2: "unat (valid_parts_no c2) = card (valid_parts (user_parts c2))"
      proof -
        have "valid_parts (user_parts c2) = valid_parts (user_parts conf)" by (auto simp: c2_def e1 valid_parts_def)
        moreover have "valid_parts_no c2 = valid_parts_no conf" by (simp add: c2_def e1)
        ultimately show ?thesis using O by simp
      qed
      have "unat (valid_parts_no c3) = card (valid_parts (user_parts c3))" using c2 set_valid_counts [OF c2 V(1), of True] by (simp add: c3_def)
      moreover have "valid_parts_no c4 = valid_parts_no c3" "valid_parts (user_parts c4) = valid_parts (user_parts c3)"
        by (auto simp: c4_def set_prio_eq valid_parts_def)
      ultimately have "unat (valid_parts_no c4) = card (valid_parts (user_parts c4))" by simp
      then have k: "classes_ok c4 xs" by (rule classes_ok_update [OF ok class_edit_keeps(1) [OF mz] class_edit_keeps(2) eq])
      then have "\<exists>n. ocf_mngt_io_class_edit conf cfg = Some (?r n, 0) \<and> classes_ok (?r n) xs" using run unfolding eq by blast
      then show ?thesis using False by (simp add: Let_def)
    qed
  qed
qed


text \<open>The configuration after the elements up to the first one that is refused.\<close>

fun classes_edited :: "ocf_mngt_io_class_config list \<Rightarrow> (u16 \<Rightarrow> ocf_user_part_config) \<Rightarrow> (u16 \<Rightarrow> ocf_user_part_config)" where
  "classes_edited [] cfgs = cfgs"
| "classes_edited (c # cs) cfgs =
     (if \<exists>name. cfg_name c = Some name \<and> (name = [] \<or> cfg_class_id c = 0 \<and> name \<noteq> part_name (cfgs 0)) then cfgs
      else classes_edited cs (cfgs(ucast (cfg_class_id c) := class_edit c (cfgs (ucast (cfg_class_id c))))))"

text \<open>The name of the default class never changes, so whether an element is refused does not depend on the elements before it.\<close>

lemma class_bad_cong: "part_name (user_parts conf 0) = part_name (user_parts conf' 0) \<Longrightarrow> class_bad conf = class_bad conf'"
  by (simp add: class_bad_def fun_eq_iff)

lemma default_name_kept:
  assumes "ocf_mngt_io_class_validate_cfg c = 0"
  shows "part_name (((cfgs :: u16 \<Rightarrow> _)(ucast (cfg_class_id c) := class_edit c (cfgs (ucast (cfg_class_id c))))) 0) = part_name (cfgs 0)"
proof -
  have "(ucast (cfg_class_id c) :: u16) = 0 \<longleftrightarrow> cfg_class_id c = 0" using validate_ok(2) [OF assms] by auto
  then show ?thesis by (auto simp: class_edit_def split: option.splits)
qed

lemma edit_loop_ok:
  assumes all: "\<And>p :: u16. p < OCF_USER_IO_CLASS_MAX \<Longrightarrow> ucast p \<in> set xs"
  shows "classes_ok conf xs \<Longrightarrow> device conf \<Longrightarrow> validate_loop cs = 0 \<Longrightarrow>
    \<exists>n. let conf' = conf\<lparr>user_parts := classes_edited cs (user_parts conf), valid_parts_no := n\<rparr> in
      edit_loop cs conf = Some (conf', if \<exists>c\<in>set cs. class_bad conf c then - OCF_ERR_INVAL else 0) \<and> classes_ok conf' xs"
proof (induction cs arbitrary: conf)
  case Nil
  then show ?case by (intro exI [of _ "valid_parts_no conf"]) simp
next
  case (Cons c cs)
  have v: "ocf_mngt_io_class_validate_cfg c = 0" "validate_loop cs = 0" using Cons.prems(3) by (auto simp: Let_def split: if_splits)
  note e = edit_ok [OF Cons.prems(1) all Cons.prems(2) v(1)]
  show ?case
  proof (cases "class_bad conf c")
    case True
    then have "edit_loop (c # cs) conf = Some (conf, - OCF_ERR_INVAL)" using e by (simp add: OCF_ERR_INVAL_def)
    then show ?thesis using True Cons.prems(1) by (intro exI [of _ "valid_parts_no conf"]) (auto simp: class_bad_def)
  next
    case False
    let ?r = "\<lambda>n. conf\<lparr>user_parts := (user_parts conf)(ucast (cfg_class_id c) := class_edit c (user_parts conf (ucast (cfg_class_id c)))), valid_parts_no := n\<rparr>"
    obtain n where n: "ocf_mngt_io_class_edit conf c = Some (?r n, 0)" "classes_ok (?r n) xs" using e False by (auto simp: Let_def)
    have b: "class_bad (?r n) = class_bad conf" by (rule class_bad_cong) (use default_name_kept [OF v(1), of "user_parts conf"] in simp)
    have d: "device (?r n)" using Cons.prems(2) by simp
    obtain m where m: "edit_loop cs (?r n) = Some ((?r n)\<lparr>user_parts := classes_edited cs (user_parts (?r n)), valid_parts_no := m\<rparr>,
        if \<exists>c\<in>set cs. class_bad conf c then - OCF_ERR_INVAL else 0)"
      "classes_ok ((?r n)\<lparr>user_parts := classes_edited cs (user_parts (?r n)), valid_parts_no := m\<rparr>) xs"
      using Cons.IH [OF n(2) d v(2)] unfolding b Let_def by blast
    have ce: "classes_edited (c # cs) (user_parts conf) = classes_edited cs (user_parts (?r n))" using False by (auto simp: class_bad_def)
    show ?thesis unfolding ce using n(1) m False by (intro exI [of _ m]) (simp add: Let_def)
  qed
qed

lemma part_sort_frame:
  assumes pr: "parts_ring conf xs"
  shows "\<exists>conf'. ocf_user_part_sort sizes conf = Some conf' \<and> parts_ring conf' (sort_key (\<lambda>p. - part_rank (attached conf) sizes (user_parts conf) p) xs) \<and>
    valid_parts_no conf' = valid_parts_no conf \<and> device conf' = device conf \<and> attached conf' = attached conf \<and> cachelines conf' = cachelines conf \<and>
    (\<forall>p. \<exists>b. user_parts conf' p = (user_parts conf p)\<lparr>pt_eviction := b\<rparr>) \<and>
    (1 < length xs \<longrightarrow> (\<forall>p. ucast p \<in> set xs \<longrightarrow> pt_eviction (user_parts conf' p) = may_evict (attached conf) sizes (user_parts conf p) p))"
proof -
  let ?u = "\<lambda>p. if 1 < length xs \<and> p \<in> ucast ` set xs then (user_parts conf p)\<lparr>pt_eviction := may_evict (attached conf) sizes (user_parts conf p) p\<rparr> else user_parts conf p"
  let ?ys = "sort_key (\<lambda>p. - part_rank (attached conf) sizes (user_parts conf) p) xs"
  obtain l where l: "ocf_user_part_sort sizes conf = Some (conf\<lparr>user_parts := ?u, part_lst := l\<rparr>)" "parts_ring (conf\<lparr>user_parts := ?u, part_lst := l\<rparr>) ?ys"
    using user_part_sort_ok [OF pr, of sizes] by auto
  have s: "c = c\<lparr>pt_eviction := pt_eviction c\<rparr>" for c :: ocf_user_part_config by (cases c) simp
  have u: "\<exists>b. ?u p = (user_parts conf p)\<lparr>pt_eviction := b\<rparr>" for p
  proof (cases "1 < length xs \<and> p \<in> ucast ` set xs")
    case True
    show ?thesis unfolding if_P [OF True] by (rule exI, rule refl)
  next
    case False
    show ?thesis unfolding if_not_P [OF False] by (rule exI, rule s)
  qed
  have "(ucast p :: u32) \<in> set xs \<Longrightarrow> p \<in> ucast ` set xs" for p :: u16 by (rule image_eqI [of _ _ "ucast p"]) simp_all
  then show ?thesis using l u by (intro exI [of _ "conf\<lparr>user_parts := ?u, part_lst := l\<rparr>"]) auto
qed

lemma eviction_only:
  assumes "\<And>p. \<exists>b. cfg' p = (cfg p)\<lparr>pt_eviction := b\<rparr>"
  shows "valid_parts cfg' = valid_parts cfg" "min_size (cfg' p) = min_size (cfg p)" "pt_added (cfg' p) = pt_added (cfg p)" "pt_valid (cfg' p) = pt_valid (cfg p)"
    "part_name (cfg' p) = part_name (cfg p)" "max_size (cfg' p) = max_size (cfg p)" "priority (cfg' p) = priority (cfg p)" "pt_cache_mode (cfg' p) = pt_cache_mode (cfg p)"
proof -
  have e: "pt_valid (cfg' p) = pt_valid (cfg p)" for p using assms [of p] by auto
  then show "valid_parts cfg' = valid_parts cfg" by (simp add: valid_parts_def)
  show "min_size (cfg' p) = min_size (cfg p)" "pt_added (cfg' p) = pt_added (cfg p)" "pt_valid (cfg' p) = pt_valid (cfg p)"
    "part_name (cfg' p) = part_name (cfg p)" "max_size (cfg' p) = max_size (cfg p)" "priority (cfg' p) = priority (cfg p)" "pt_cache_mode (cfg' p) = pt_cache_mode (cfg p)"
    using assms [of p] by auto
qed

lemma sort_keeps_classes:
  assumes ok: "classes_ok conf xs" and s: "ocf_user_part_sort sizes conf = Some conf'" "parts_ring conf' ys" "set ys = set xs" "valid_parts_no conf' = valid_parts_no conf"
    "\<And>p. \<exists>b. user_parts conf' p = (user_parts conf p)\<lparr>pt_eviction := b\<rparr>"
  shows "classes_ok conf' ys"
  using ok s(2-4) eviction_only [of "user_parts conf'" "user_parts conf", OF s(5)] by (simp add: classes_ok_def)

subsection \<open>All partitions\<close>

text \<open>Adding a partition to the list.\<close>

lemma add_partition_ok:
  assumes ok: "classes_ok conf xs" and p: "p < OCF_USER_IO_CLASS_MAX" "ucast p \<notin> set xs" "\<not> pt_valid (user_parts conf p)" and n: "length name < 1024"
  shows "\<exists>conf' ys. ocf_mngt_add_partition_to_cache sizes conf p (Some name) 0 PARTITION_SIZE_MAX prio flag = Some (conf', 0) \<and> classes_ok conf' ys \<and>
    set ys = insert (ucast p) (set xs) \<and> (\<forall>q. q \<noteq> p \<longrightarrow> (\<exists>b. user_parts conf' q = (user_parts conf q)\<lparr>pt_eviction := b\<rparr>)) \<and>
    (let c = user_parts conf' p in pt_valid c = flag \<and> part_name c = name \<and> max_size c = PARTITION_SIZE_MAX \<and> priority c = uint prio \<and> pt_cache_mode c = ocf_cache_mode_max) \<and>
    device conf' = device conf \<and> attached conf' = attached conf"
proof -
  note O = ok [unfolded classes_ok_def parts_ring_def]
  have r: "ring (part_lst conf) xs" and i: "invalid (part_lst conf) = ucast OCF_USER_IO_CLASS_MAX" and g: "getter_max (part_lst conf) = ucast OCF_USER_IO_CLASS_MAX" using O by auto
  have up: "(ucast p :: u32) < ucast OCF_USER_IO_CLASS_MAX" using p(1) by (simp add: word_less_nat_alt unat_ucast_up16)
  have out: "entry_out (part_lst conf) (ucast p)" using O up p(2) by auto
  have cn: "copy_name name = name" using n by (simp add: copy_name_def OCF_IO_CLASS_NAME_MAX_def)
  define c1 where "c1 = update_part p (\<lambda>c. c\<lparr>part_name := name, min_size := 0, max_size := PARTITION_SIZE_MAX, priority := uint prio, pt_cache_mode := ocf_cache_mode_max\<rparr>) conf"
  define c2 where "c2 = ocf_user_part_set_valid c1 p flag"
  define l where "l = put_between (invalid (part_lst conf)) (ucast p) (hd (xs @ [invalid (part_lst conf)])) (part_lst conf)"
  have v1: "valid_parts (user_parts c1) = valid_parts (user_parts conf)" "valid_parts_no c1 = valid_parts_no conf" using p(3) by (auto simp: c1_def valid_parts_def)
  have c2: "user_parts c2 = (user_parts c1)(p := (user_parts c1 p)\<lparr>pt_valid := flag\<rparr>)" "part_lst c2 = part_lst conf" "device c2 = device conf" "attached c2 = attached conf"
  proof -
    have nv: "\<not> pt_valid (user_parts c1 p)" and f1: "part_lst c1 = part_lst conf" "device c1 = device conf" "attached c1 = attached conf" using p(3) by (simp_all add: c1_def)
    have "c\<lparr>pt_valid := False\<rparr> = c" if "\<not> pt_valid c" for c :: ocf_user_part_config using that by (cases c) simp
    note nf = this [OF nv]
    show "user_parts c2 = (user_parts c1)(p := (user_parts c1 p)\<lparr>pt_valid := flag\<rparr>)"
    proof (cases flag)
      case False
      then have "c2 = c1" using nv by (simp add: c2_def ocf_user_part_set_valid_def)
      then show ?thesis using False by (simp only: nf fun_upd_triv)
    qed (use nv in \<open>simp add: c2_def ocf_user_part_set_valid_def\<close>)
    show "part_lst c2 = part_lst conf" "device c2 = device conf" "attached c2 = attached conf" unfolding c2_def set_valid_frame by (rule f1)+
  qed
  have v2: "unat (valid_parts_no c2) = card (valid_parts (user_parts c2))" unfolding c2_def by (rule set_valid_counts [OF _ p(1)]) (use O v1 in simp)
  have add: "ocf_lst_add (part_lst c2) (ucast p) = Some l" unfolding c2 l_def by (rule lst_add_between(3) [of _ "[]", OF _ out]) (use r in simp_all)
  have lr: "ring l (ucast p # xs)" "invalid l = ucast OCF_USER_IO_CLASS_MAX" "getter_max l = ucast OCF_USER_IO_CLASS_MAX"
    using put_between_ring [of "part_lst conf" "[]" xs, OF _ out] r i g by (simp_all add: l_def)
  have outs: "entry_out l x" if "x < ucast OCF_USER_IO_CLASS_MAX" "x \<notin> set (ucast p # xs)" for x
  proof -
    have "x \<noteq> ucast p" "x \<noteq> invalid (part_lst conf)" "x \<noteq> hd (xs @ [invalid (part_lst conf)])" using that i by (auto simp: hd_append split: if_splits)
    then have "lst_entries l x = lst_entries (part_lst conf) x" by (simp add: l_def put_between_def spliced_def)
    then show ?thesis using O that by (simp add: l_def entry_out_def OCF_LST_ENTRY_OUT_def)
  qed
  define c3 where "c3 = c2\<lparr>part_lst := l\<rparr>"
  have pr: "parts_ring c3 (ucast p # xs)" using lr outs by (auto simp: parts_ring_def c3_def)
  define ys where "ys = sort_key (\<lambda>p. - part_rank (attached c3) sizes (user_parts c3) p) (ucast p # xs)"
  obtain c4 where s: "ocf_user_part_sort sizes c3 = Some c4" "parts_ring c4 ys" "valid_parts_no c4 = valid_parts_no c3" "device c4 = device c3" "attached c4 = attached c3"
    "\<And>q. \<exists>b. user_parts c4 q = (user_parts c3 q)\<lparr>pt_eviction := b\<rparr>"
    using part_sort_frame [OF pr, of sizes] unfolding ys_def by blast
  define c5 where "c5 = update_part p (\<lambda>c. c\<lparr>pt_added := True\<rparr>) c4"
  note ev = eviction_only [of "user_parts c4" "user_parts c3", OF s(6)]
  have run: "ocf_mngt_add_partition_to_cache sizes conf p (Some name) 0 PARTITION_SIZE_MAX prio flag = Some (c5, 0)"
  proof -
    have "update_part p (\<lambda>c. c\<lparr>part_name := copy_name name, min_size := 0, max_size := PARTITION_SIZE_MAX, priority := uint prio, pt_cache_mode := ocf_cache_mode_max\<rparr>) conf = c1"
      by (simp add: c1_def cn)
    then show ?thesis using p n for_each_ring [OF r] add s(1)
      by (simp add: ocf_mngt_add_partition_to_cache_def Let_def not_le [symmetric] OCF_IO_CLASS_NAME_MAX_def c2_def [symmetric] c3_def [symmetric] c5_def)
  qed
  have others: "\<exists>b. user_parts c5 q = (user_parts conf q)\<lparr>pt_eviction := b\<rparr>" if "q \<noteq> p" for q
    using s(6) [of q] that by (simp add: c5_def c3_def c2 c1_def)
  have up3: "user_parts c3 p = (user_parts c1 p)\<lparr>pt_valid := flag\<rparr>" by (simp add: c3_def c2)
  have mine: "let c = user_parts c5 p in pt_valid c = flag \<and> part_name c = name \<and> max_size c = PARTITION_SIZE_MAX \<and> priority c = uint prio \<and> pt_cache_mode c = ocf_cache_mode_max"
    using ev(4-8) [of p] by (simp add: c5_def up3 c1_def Let_def)
  have ys: "set ys = insert (ucast p) (set xs)" unfolding ys_def set_sort by simp
  have "min_size (user_parts c5 q) = 0" for q using ev(2) [of q] O by (cases "q = p") (simp_all add: c5_def c3_def c2 c1_def)
  moreover have "pt_added (user_parts c5 q) \<longleftrightarrow> ucast q \<in> set ys" if "q < OCF_USER_IO_CLASS_MAX" for q
  proof -
    have "(ucast q :: u32) = ucast p \<longleftrightarrow> q = p" by (metis ucast_up_down16)
    then show ?thesis using ev(3) [of q] O that by (auto simp: c5_def c3_def c2 c1_def ys)
  qed
  moreover have "valid_parts (user_parts c5) = valid_parts (user_parts c2)" using ev(1) by (auto simp: c5_def c3_def valid_parts_def)
  moreover have "valid_parts_no c5 = valid_parts_no c2" using s(3) by (simp add: c5_def c3_def)
  moreover have "parts_ring c5 ys" using s(2) by (simp add: parts_ring_def c5_def)
  ultimately have "classes_ok c5 ys" using v2 by (simp add: classes_ok_def)
  moreover have "device c5 = device conf" "attached c5 = attached conf" using s(4,5) by (simp_all add: c5_def c3_def c2)
  ultimately show ?thesis using run others mine ys by blast
qed

text \<open>The partitions \<open>A\<close> have been added; of all partitions the default one is valid.\<close>

definition parts_added :: "part_conf \<Rightarrow> part_conf \<Rightarrow> u16 set \<Rightarrow> bool" where
  "parts_added conf conf' A \<longleftrightarrow> (\<exists>xs. classes_ok conf' xs \<and> set xs = ucast ` A) \<and> device conf' = device conf \<and> attached conf' = attached conf \<and>
     (\<forall>p<OCF_USER_IO_CLASS_MAX. pt_valid (user_parts conf' p) \<longleftrightarrow> p = PARTITION_DEFAULT \<and> p \<in> A) \<and>
     (\<forall>p\<in>A. let c = user_parts conf' p in part_name c = (if p = PARTITION_DEFAULT then ''unclassified'' else ''Inactive'') \<and>
        max_size c = PARTITION_SIZE_MAX \<and> priority c = OCF_IO_CLASS_PRIO_LOWEST \<and> pt_cache_mode c = ocf_cache_mode_max)"

lemma add_partition_added:
  assumes a: "parts_added conf0 conf A" and p: "p < OCF_USER_IO_CLASS_MAX" "p \<notin> A"
    and n: "name = (if p = PARTITION_DEFAULT then ''unclassified'' else ''Inactive'')" "flag \<longleftrightarrow> p = PARTITION_DEFAULT"
  shows "\<exists>conf'. ocf_mngt_add_partition_to_cache sizes conf p (Some name) 0 PARTITION_SIZE_MAX 255 flag = Some (conf', 0) \<and> parts_added conf0 conf' (insert p A)"
proof -
  obtain xs where x: "classes_ok conf xs" "set xs = ucast ` A" using a by (auto simp: parts_added_def)
  have nx: "ucast p \<notin> set xs" using p(2) unfolding x(2) by (metis imageE ucast_up_down16)
  have nv: "\<not> pt_valid (user_parts conf p)" using a p by (auto simp: parts_added_def)
  have ln: "length name < 1024" by (simp add: n)
  obtain conf' ys where r: "ocf_mngt_add_partition_to_cache sizes conf p (Some name) 0 PARTITION_SIZE_MAX 255 flag = Some (conf', 0)" "classes_ok conf' ys"
    "set ys = insert (ucast p) (set xs)" "\<And>q. q \<noteq> p \<Longrightarrow> \<exists>b. user_parts conf' q = (user_parts conf q)\<lparr>pt_eviction := b\<rparr>"
    "pt_valid (user_parts conf' p) = flag" "part_name (user_parts conf' p) = name" "max_size (user_parts conf' p) = PARTITION_SIZE_MAX"
    "priority (user_parts conf' p) = 255" "pt_cache_mode (user_parts conf' p) = ocf_cache_mode_max" "device conf' = device conf" "attached conf' = attached conf"
    using add_partition_ok [OF x(1) p(1) nx nv ln, of sizes 255 flag] by (auto simp: Let_def)
  have q: "pt_valid (user_parts conf' q) = pt_valid (user_parts conf q)" "part_name (user_parts conf' q) = part_name (user_parts conf q)"
    "max_size (user_parts conf' q) = max_size (user_parts conf q)" "priority (user_parts conf' q) = priority (user_parts conf q)"
    "pt_cache_mode (user_parts conf' q) = pt_cache_mode (user_parts conf q)" if "q \<noteq> p" for q using r(4) [OF that] by auto
  have "set ys = ucast ` insert p A" using r(3) x(2) by simp
  then have "\<exists>xs. classes_ok conf' xs \<and> set xs = ucast ` insert p A" using r(2) by blast
  moreover have "pt_valid (user_parts conf' k) \<longleftrightarrow> k = PARTITION_DEFAULT \<and> k \<in> insert p A" if "k < OCF_USER_IO_CLASS_MAX" for k
    using a that r(5) q(1) [of k] n(2) by (cases "k = p") (auto simp: parts_added_def)
  moreover have "let c = user_parts conf' k in part_name c = (if k = PARTITION_DEFAULT then ''unclassified'' else ''Inactive'') \<and>
        max_size c = PARTITION_SIZE_MAX \<and> priority c = OCF_IO_CLASS_PRIO_LOWEST \<and> pt_cache_mode c = ocf_cache_mode_max" if "k \<in> insert p A" for k
  proof (cases "k = p")
    case True
    then show ?thesis using r(6-9) n(1) by (simp add: OCF_IO_CLASS_PRIO_LOWEST_def)
  next
    case False
    then have "k \<in> A" using that by simp
    then show ?thesis using a q [OF False] by (simp add: parts_added_def Let_def)
  qed
  moreover have "device conf' = device conf0" "attached conf' = attached conf0" using a r(10,11) by (simp_all add: parts_added_def)
  ultimately show ?thesis using r(1) unfolding parts_added_def by blast
qed

lemma init_parts_loop_ok:
  assumes "parts_added conf0 conf A" "PARTITION_DEFAULT \<in> A" "distinct is" "\<And>i. i \<in> set is \<Longrightarrow> i < unat OCF_USER_IO_CLASS_MAX \<and> (of_nat i \<in> A \<longrightarrow> i = 0)"
  shows "\<exists>conf'. init_parts_loop sizes is conf = Some conf' \<and> parts_added conf0 conf' (A \<union> of_nat ` set is)"
  using assms
proof (induction "is" arbitrary: conf A)
  case (Cons i "is")
  have i: "i < unat OCF_USER_IO_CLASS_MAX" "of_nat i \<in> A \<longrightarrow> i = 0" using Cons.prems(4) [of i] by auto
  have inj: "(of_nat j :: u16) = of_nat i \<longleftrightarrow> j = i" if "j < unat OCF_USER_IO_CLASS_MAX" for j
    using that i(1) by (simp add: OCF_USER_IO_CLASS_MAX_def of_nat_inverse word_unat_eq_iff unat_of_nat)
  show ?case
  proof (cases "(of_nat i :: u16) = PARTITION_DEFAULT")
    case True
    then have "A \<union> of_nat ` set (i # is) = A \<union> of_nat ` set is" using Cons.prems(2) by auto
    moreover have "\<exists>conf'. init_parts_loop sizes is conf = Some conf' \<and> parts_added conf0 conf' (A \<union> of_nat ` set is)"
      using Cons.prems by (intro Cons.IH) auto
    ultimately show ?thesis using True by simp
  next
    case False
    then have "i \<noteq> 0" by (cases i) (simp_all add: PARTITION_DEFAULT_def)
    then have nA: "(of_nat i :: u16) \<notin> A" using i(2) by blast
    have lt: "(of_nat i :: u16) < OCF_USER_IO_CLASS_MAX" using i(1) by (simp add: OCF_USER_IO_CLASS_MAX_def word_less_nat_alt unat_of_nat)
    obtain c where c: "ocf_mngt_add_partition_to_cache sizes conf (of_nat i) (Some ''Inactive'') 0 PARTITION_SIZE_MAX 255 False = Some (c, 0)"
      "parts_added conf0 c (insert (of_nat i) A)"
      using add_partition_added [OF Cons.prems(1) lt nA, of "''Inactive''" False sizes] False by auto
    have "\<exists>conf'. init_parts_loop sizes is c = Some conf' \<and> parts_added conf0 conf' (insert (of_nat i) A \<union> of_nat ` set is)"
      using Cons.prems inj by (intro Cons.IH [OF c(2)]) auto
    then show ?thesis using c(1) False by simp
  qed
qed simp

lemma init_partitions_ok:
  assumes r: "parts_ring conf []" and z: "valid_parts_no conf = 0" "\<And>p. min_size (user_parts conf p) = 0 \<and> \<not> pt_valid (user_parts conf p) \<and> \<not> pt_added (user_parts conf p)"
  shows "\<exists>conf'. init_partitions sizes conf = Some conf' \<and> parts_added conf conf' {..<OCF_USER_IO_CLASS_MAX}"
proof -
  have "parts_added conf conf {}" using r z by (auto simp: parts_added_def classes_ok_def valid_parts_def)
  then obtain c where c: "ocf_mngt_add_partition_to_cache sizes conf PARTITION_DEFAULT (Some ''unclassified'') 0 PARTITION_SIZE_MAX 255 True = Some (c, 0)"
      "parts_added conf c {PARTITION_DEFAULT}"
    using add_partition_added [of conf conf "{}" PARTITION_DEFAULT "''unclassified''" True sizes] by (auto simp: PARTITION_DEFAULT_def OCF_USER_IO_CLASS_MAX_def)
  have u: "i < unat OCF_USER_IO_CLASS_MAX \<Longrightarrow> (of_nat i :: u16) = 0 \<Longrightarrow> i = 0" for i
    by (simp add: OCF_USER_IO_CLASS_MAX_def word_unat_eq_iff unat_of_nat)
  obtain c' where c': "init_parts_loop sizes [0..<unat OCF_USER_IO_CLASS_MAX] c = Some c'"
      "parts_added conf c' ({PARTITION_DEFAULT} \<union> of_nat ` set [0..<unat OCF_USER_IO_CLASS_MAX])"
  proof -
    have "\<exists>c'. init_parts_loop sizes [0..<unat OCF_USER_IO_CLASS_MAX] c = Some c' \<and>
        parts_added conf c' ({PARTITION_DEFAULT} \<union> of_nat ` set [0..<unat OCF_USER_IO_CLASS_MAX])"
      by (rule init_parts_loop_ok [OF c(2)]) (use u in \<open>simp_all add: PARTITION_DEFAULT_def\<close>)
    then show ?thesis using that by blast
  qed
  have all: "{PARTITION_DEFAULT} \<union> of_nat ` set [0..<unat OCF_USER_IO_CLASS_MAX] = {..<OCF_USER_IO_CLASS_MAX}" (is "?A = _")
  proof (intro equalityI subsetI)
    fix x assume "x \<in> ?A"
    then show "x \<in> {..<OCF_USER_IO_CLASS_MAX}" by (auto simp: PARTITION_DEFAULT_def OCF_USER_IO_CLASS_MAX_def word_less_nat_alt unat_of_nat)
  next
    fix x :: u16 assume "x \<in> {..<OCF_USER_IO_CLASS_MAX}"
    then have "unat x \<in> set [0..<unat OCF_USER_IO_CLASS_MAX]" "x = of_nat (unat x)" by (simp_all add: word_less_nat_alt)
    then show "x \<in> ?A" by blast
  qed
  show ?thesis using c(1) c' unfolding all by (simp add: init_partitions_def)
qed

lemma user_part_init_ring:
  "\<exists>l. ocf_user_part_init conf = Some (conf\<lparr>part_lst := l\<rparr>) \<and> parts_ring (conf\<lparr>part_lst := l\<rparr>) []"
  using lst_init_ring [of "ucast OCF_USER_IO_CLASS_MAX" "ucast OCF_USER_IO_CLASS_MAX" "lst_entries (part_lst conf)"]
  by (auto simp: ocf_user_part_init_def parts_ring_def OCF_USER_IO_CLASS_MAX_def)


lemma validate_loop_result:
  "validate_loop cs = (if \<exists>c\<in>set cs. ocf_mngt_io_class_validate_cfg c \<noteq> 0 then - OCF_ERR_INVAL else 0)"
proof (induction cs)
  case (Cons c cs)
  have "ocf_mngt_io_class_validate_cfg c = 0 \<or> ocf_mngt_io_class_validate_cfg c = - OCF_ERR_INVAL"
    by (auto simp: ocf_mngt_io_class_validate_cfg_def split: option.splits)
  then show ?case using Cons.IH by (auto simp: Let_def OCF_ERR_INVAL_def)
qed simp

lemma all_parts_facts:
  assumes "set (xs :: u32 list) = ucast ` {..<OCF_USER_IO_CLASS_MAX}"
  shows "p < OCF_USER_IO_CLASS_MAX \<Longrightarrow> ucast p \<in> set xs" "(p :: u16) \<in> ucast ` set xs \<longleftrightarrow> p < OCF_USER_IO_CLASS_MAX" "1 < length xs"
proof -
  show "p < OCF_USER_IO_CLASS_MAX \<Longrightarrow> ucast p \<in> set xs" using assms by auto
  show "(p :: u16) \<in> ucast ` set xs \<longleftrightarrow> p < OCF_USER_IO_CLASS_MAX" unfolding assms image_image ucast_up_down16 by simp
  have "(0 :: u32) \<in> set xs" "(1 :: u32) \<in> set xs" using assms by (auto simp: OCF_USER_IO_CLASS_MAX_def intro: image_eqI [of _ _ "0 :: u16"] image_eqI [of _ _ "1 :: u16"])
  then have "card {0, 1 :: u32} \<le> card (set xs)" by (intro card_mono) auto
  then show "1 < length xs" using card_length [of xs] by simp
qed


subsection \<open>Properties\<close>

text \<open>C28. Sorting the list of partitions returns and puts it in the order of eviction: partitions that are not valid but hold lines, then valid partitions from
  the lowest priority on, then empty ones, the larger identifier first among equals.  The eviction flags of the partitions are set on the way, when the list has
  more than one; nothing else of the configurations changes.\<close>

theorem partitions_in_eviction_order:
  assumes "parts_ring conf xs"
  shows "\<exists>conf'. ocf_user_part_sort sizes conf = Some conf' \<and>
    for_each_lst (part_lst conf') = Some (sort_key (\<lambda>p. - part_rank (attached conf) sizes (user_parts conf) p) xs) \<and>
    parts_ring conf' (sort_key (\<lambda>p. - part_rank (attached conf) sizes (user_parts conf) p) xs) \<and>
    user_parts conf' = (\<lambda>p. if 1 < length xs \<and> p \<in> ucast ` set xs
      then (user_parts conf p)\<lparr>pt_eviction := may_evict (attached conf) sizes (user_parts conf p) p\<rparr> else user_parts conf p) \<and>
    valid_parts_no conf' = valid_parts_no conf"
proof -
  obtain conf' l where s: "ocf_user_part_sort sizes conf = Some conf'" "parts_ring conf' (sort_key (\<lambda>p. - part_rank (attached conf) sizes (user_parts conf) p) xs)"
    "conf' = conf\<lparr>user_parts := (\<lambda>p. if 1 < length xs \<and> p \<in> ucast ` set xs
        then (user_parts conf p)\<lparr>pt_eviction := may_evict (attached conf) sizes (user_parts conf p) p\<rparr> else user_parts conf p), part_lst := l\<rparr>"
    using user_part_sort_ok [OF assms] by blast
  then show ?thesis using for_each_ring by (intro exI [of _ conf']) (simp add: parts_ring_def)
qed

definition ex_entries :: "u32 \<Rightarrow> ocf_lst_entry" where
  "ex_entries = (\<lambda>_. \<lparr>lst_next = 34, lst_prev = 34\<rparr>)(33 := \<lparr>lst_next = 1, lst_prev = 2\<rparr>, 1 := \<lparr>lst_next = 2, lst_prev = 33\<rparr>, 2 := \<lparr>lst_next = 33, lst_prev = 1\<rparr>)"

definition ex_part :: "int \<Rightarrow> ocf_user_part_config" where
  "ex_part prio = \<lparr>part_name = ''a'', min_size = 0, max_size = 100, pt_valid = True, pt_added = True, pt_eviction = False, priority = prio, pt_cache_mode = 0\<rparr>"

definition ex_parts :: part_conf where
  "ex_parts = \<lparr>user_parts = (\<lambda>p. if p = 1 then ex_part 3 else ex_part 7), part_lst = \<lparr>lst_entries = ex_entries, invalid = 33, getter_max = 33\<rparr>,
     valid_parts_no = 2, cachelines = 1000, device = True, attached = True\<rparr>"

lemma ex_parts_ring: "parts_ring ex_parts [1, 2]"
proof -
  have n: "(33 :: u32) < - 1" by simp
  then show ?thesis by (simp add: parts_ring_def ring_def ex_parts_def ex_entries_def entry_out_def OCF_USER_IO_CLASS_MAX_def OCF_LST_ENTRY_OUT_def)
qed

theorem partitions_in_eviction_order_witness:
  "\<exists>conf'. ocf_user_part_sort (\<lambda>_. 5) ex_parts = Some conf' \<and> for_each_lst (part_lst conf') = Some [2, 1] \<and>
     pt_eviction (user_parts conf' 1) \<and> \<not> pt_eviction (user_parts conf' 7)"
proof -
  have v: "part_value a s (user_parts ex_parts) p = (if p = 1 then 3 else 7)" for a s p by (simp add: part_value_def ex_parts_def ex_part_def)
  have k: "sort_key (\<lambda>p. - part_rank (attached ex_parts) (\<lambda>_. 5) (user_parts ex_parts) p) [1, 2] = [2, 1 :: u32]" by (simp add: part_rank_def v)
  show ?thesis using partitions_in_eviction_order [OF ex_parts_ring, of "\<lambda>_. 5"] unfolding k
    by (auto simp: may_evict_def ex_parts_def ex_part_def OCF_IO_CLASS_PRIO_PINNED_def)
qed

text \<open>C29. Setting up the partitions of a new cache does not fail: whatever the entries of the list hold, all partitions are in it, the default partition alone
  is valid and is counted, and every partition has its name, the largest size and the lowest priority.\<close>

theorem partitions_initialised:
  assumes "valid_parts_no conf = 0" "\<And>p. min_size (user_parts conf p) = 0 \<and> \<not> pt_valid (user_parts conf p) \<and> \<not> pt_added (user_parts conf p)"
  shows "\<exists>conf1 conf' xs. ocf_user_part_init conf = Some conf1 \<and> init_partitions sizes conf1 = Some conf' \<and>
    classes_ok conf' xs \<and> set xs = ucast ` {..<OCF_USER_IO_CLASS_MAX} \<and> distinct xs \<and> for_each_lst (part_lst conf') = Some xs \<and> valid_parts_no conf' = 1 \<and>
    (\<forall>p<OCF_USER_IO_CLASS_MAX. let c = user_parts conf' p in pt_valid c = (p = PARTITION_DEFAULT) \<and>
       part_name c = (if p = PARTITION_DEFAULT then ''unclassified'' else ''Inactive'') \<and>
       max_size c = PARTITION_SIZE_MAX \<and> priority c = OCF_IO_CLASS_PRIO_LOWEST \<and> pt_cache_mode c = ocf_cache_mode_max)"
proof -
  obtain l where l: "ocf_user_part_init conf = Some (conf\<lparr>part_lst := l\<rparr>)" "parts_ring (conf\<lparr>part_lst := l\<rparr>) []" using user_part_init_ring [of conf] by blast
  obtain conf' where i: "init_partitions sizes (conf\<lparr>part_lst := l\<rparr>) = Some conf'" "parts_added (conf\<lparr>part_lst := l\<rparr>) conf' {..<OCF_USER_IO_CLASS_MAX}"
    using init_partitions_ok [OF l(2), of sizes] assms by auto
  obtain xs where xs: "classes_ok conf' xs" "set xs = ucast ` {..<OCF_USER_IO_CLASS_MAX}" using i(2) by (auto simp: parts_added_def)
  then have r: "ring (part_lst conf') xs" and n: "unat (valid_parts_no conf') = card (valid_parts (user_parts conf'))" by (simp_all add: classes_ok_def parts_ring_def)
  have pv: "pt_valid (user_parts conf' p) \<longleftrightarrow> p = PARTITION_DEFAULT" if "p < OCF_USER_IO_CLASS_MAX" for p using i(2) that by (auto simp: parts_added_def)
  have "valid_parts (user_parts conf') = {PARTITION_DEFAULT}" using pv by (auto simp: valid_parts_def PARTITION_DEFAULT_def OCF_USER_IO_CLASS_MAX_def)
  then have v: "valid_parts_no conf' = 1" using n by (simp add: word_unat_eq_iff)
  have "let c = user_parts conf' p in pt_valid c = (p = PARTITION_DEFAULT) \<and> part_name c = (if p = PARTITION_DEFAULT then ''unclassified'' else ''Inactive'') \<and>
       max_size c = PARTITION_SIZE_MAX \<and> priority c = OCF_IO_CLASS_PRIO_LOWEST \<and> pt_cache_mode c = ocf_cache_mode_max" if "p < OCF_USER_IO_CLASS_MAX" for p
    using i(2) pv that by (simp add: parts_added_def Let_def)
  moreover have "distinct xs" using r by (simp add: ring_def)
  ultimately show ?thesis using l(1) i(1) xs v for_each_ring [OF r] by blast
qed

definition ex_zero :: part_conf where
  "ex_zero = \<lparr>user_parts = (\<lambda>_. \<lparr>part_name = [], min_size = 0, max_size = 0, pt_valid = False, pt_added = False, pt_eviction = False, priority = 0, pt_cache_mode = 0\<rparr>),
     part_lst = \<lparr>lst_entries = (\<lambda>_. \<lparr>lst_next = 0, lst_prev = 0\<rparr>), invalid = 0, getter_max = 0\<rparr>, valid_parts_no = 0, cachelines = 1000, device = True, attached = True\<rparr>"

theorem partitions_initialised_witness:
  "\<exists>conf1 conf' xs. ocf_user_part_init ex_zero = Some conf1 \<and> init_partitions (\<lambda>_. 0) conf1 = Some conf' \<and> for_each_lst (part_lst conf') = Some xs \<and>
     set xs = ucast ` {..<OCF_USER_IO_CLASS_MAX} \<and> valid_parts_no conf' = 1 \<and> part_name (user_parts conf' 5) = ''Inactive''"
proof -
  have "(5 :: u16) < OCF_USER_IO_CLASS_MAX" "(5 :: u16) \<noteq> PARTITION_DEFAULT" by (simp_all add: OCF_USER_IO_CLASS_MAX_def PARTITION_DEFAULT_def)
  moreover have "valid_parts_no ex_zero = 0" "\<And>p. min_size (user_parts ex_zero p) = 0 \<and> \<not> pt_valid (user_parts ex_zero p) \<and> \<not> pt_added (user_parts ex_zero p)"
    by (simp_all add: ex_zero_def)
  note partitions_initialised [OF this, of "\<lambda>_. 0"]
  ultimately show ?thesis by (auto simp: Let_def)
qed

text \<open>C27. The configuration of I/O classes: nothing changes when an element does not pass the validation or the copy cannot be allocated.  Otherwise the elements
  are applied in their order; without an element that is refused (an empty name, or another name for the default class) the list of partitions is put in the
  order of eviction for the new configurations.  With one the call fails and the list is as it was, but the classes of the elements before the refused one keep
  their new configurations.\<close>

theorem io_classes_configured:
  assumes ok: "classes_ok conf xs" and all: "set xs = ucast ` {..<OCF_USER_IO_CLASS_MAX}" and dev: "device conf"
  shows "\<exists>conf' r. ocf_mngt_cache_io_classes_configure mem sizes conf cfg = Some (conf', r) \<and>
    (if \<exists>c\<in>set cfg. ocf_mngt_io_class_validate_cfg c \<noteq> 0 then conf' = conf \<and> r = - OCF_ERR_INVAL
     else if \<not> mem then conf' = conf \<and> r = - OCF_ERR_NO_MEM
     else if \<exists>c\<in>set cfg. class_bad conf c
     then r = - OCF_ERR_INVAL \<and> user_parts conf' = classes_edited cfg (user_parts conf) \<and> part_lst conf' = part_lst conf \<and> classes_ok conf' xs
     else let u = classes_edited cfg (user_parts conf); ys = sort_key (\<lambda>p. - part_rank (attached conf) sizes u p) xs
       in r = 0 \<and> for_each_lst (part_lst conf') = Some ys \<and> classes_ok conf' ys \<and>
         user_parts conf' = (\<lambda>p. if p < OCF_USER_IO_CLASS_MAX then (u p)\<lparr>pt_eviction := may_evict (attached conf) sizes (u p) p\<rparr> else u p))"
proof -
  let ?u = "classes_edited cfg (user_parts conf)"
  note A = all_parts_facts [OF all]
  consider (invalid) "\<exists>c\<in>set cfg. ocf_mngt_io_class_validate_cfg c \<noteq> 0" | (mem) "\<not> (\<exists>c\<in>set cfg. ocf_mngt_io_class_validate_cfg c \<noteq> 0)" "\<not> mem"
    | (run) "\<not> (\<exists>c\<in>set cfg. ocf_mngt_io_class_validate_cfg c \<noteq> 0)" mem by blast
  then show ?thesis
  proof cases
    case run
    then have v: "validate_loop cfg = 0" by (simp only: validate_loop_result if_False)
    let ?bad = "\<exists>c\<in>set cfg. class_bad conf c"
    obtain n where e: "edit_loop cfg conf = Some (conf\<lparr>user_parts := ?u, valid_parts_no := n\<rparr>, if ?bad then - OCF_ERR_INVAL else 0)"
      "classes_ok (conf\<lparr>user_parts := ?u, valid_parts_no := n\<rparr>) xs"
      using edit_loop_ok [OF A(1) ok dev v] unfolding Let_def by blast
    define c1 where "c1 = conf\<lparr>user_parts := ?u, valid_parts_no := n\<rparr>"
    have c1: "user_parts c1 = ?u" "part_lst c1 = part_lst conf" "attached c1 = attached conf" by (simp_all add: c1_def)
    show ?thesis
    proof (cases ?bad)
      case True
      have "c1\<lparr>part_lst := (part_lst c1)\<lparr>lst_entries := lst_entries (part_lst conf)\<rparr>\<rparr> = c1" by (simp add: c1_def)
      then have "ocf_mngt_cache_io_classes_configure mem sizes conf cfg = Some (c1, - OCF_ERR_INVAL)"
        using v run(2) e(1) True by (simp add: ocf_mngt_cache_io_classes_configure_def c1_def OCF_ERR_INVAL_def)
      then show ?thesis using run True e(2) c1 unfolding c1_def [symmetric] by auto
    next
      case False
      define ys where "ys = sort_key (\<lambda>p. - part_rank (attached conf) sizes ?u p) xs"
      have pr: "parts_ring c1 xs" using e(2) by (simp add: classes_ok_def c1_def)
      obtain c2 l where s: "ocf_user_part_sort sizes c1 = Some c2" "parts_ring c2 ys"
        "c2 = c1\<lparr>user_parts := (\<lambda>p. if p < OCF_USER_IO_CLASS_MAX then (?u p)\<lparr>pt_eviction := may_evict (attached conf) sizes (?u p) p\<rparr> else ?u p), part_lst := l\<rparr>"
        using user_part_sort_ok [OF pr, of sizes] A(2,3) unfolding ys_def c1 by auto
      have o: "\<exists>b. user_parts c2 p = (user_parts c1 p)\<lparr>pt_eviction := b\<rparr>" for p using part_sort_frame [OF pr, of sizes] s(1) by auto
      have k: "classes_ok c2 ys" by (rule sort_keeps_classes [OF e(2) [folded c1_def] s(1,2) _ _ o]) (simp_all add: ys_def s(3))
      have "ocf_mngt_cache_io_classes_configure mem sizes conf cfg = Some (c2, 0)"
        using v run(2) e(1) False s(1) by (simp add: ocf_mngt_cache_io_classes_configure_def c1_def)
      moreover have "for_each_lst (part_lst c2) = Some ys" using s(2) for_each_ring by (simp add: parts_ring_def)
      moreover have "user_parts c2 = (\<lambda>p. if p < OCF_USER_IO_CLASS_MAX then (?u p)\<lparr>pt_eviction := may_evict (attached conf) sizes (?u p) p\<rparr> else ?u p)" by (simp add: s(3))
      ultimately show ?thesis using run False k unfolding ys_def Let_def by auto
    qed
  qed (auto simp: ocf_mngt_cache_io_classes_configure_def validate_loop_result OCF_ERR_INVAL_def)
qed

definition ex_class :: "u32 \<Rightarrow> string \<Rightarrow> ocf_mngt_io_class_config" where
  "ex_class i name = \<lparr>cfg_class_id = i, cfg_max_size = 50, cfg_name = Some name, cfg_cache_mode = 0, cfg_prio = 4\<rparr>"

theorem io_classes_configured_witness:
  "\<exists>conf1 conf conf'. ocf_user_part_init ex_zero = Some conf1 \<and> init_partitions (\<lambda>_. 0) conf1 = Some conf \<and>
     ocf_mngt_cache_io_classes_configure True (\<lambda>_. 0) conf [ex_class 1 ''a'', ex_class 2 []] = Some (conf', - OCF_ERR_INVAL) \<and>
     max_size (user_parts conf 1) = 100 \<and> max_size (user_parts conf' 1) = 50 \<and> part_lst conf' = part_lst conf"
proof -
  obtain l where l: "ocf_user_part_init ex_zero = Some (ex_zero\<lparr>part_lst := l\<rparr>)" "parts_ring (ex_zero\<lparr>part_lst := l\<rparr>) []" using user_part_init_ring [of ex_zero] by blast
  obtain conf where i: "init_partitions (\<lambda>_. 0) (ex_zero\<lparr>part_lst := l\<rparr>) = Some conf" "parts_added (ex_zero\<lparr>part_lst := l\<rparr>) conf {..<OCF_USER_IO_CLASS_MAX}"
    using init_partitions_ok [OF l(2), of "\<lambda>_. 0"] by (auto simp: ex_zero_def)
  obtain xs where xs: "classes_ok conf xs" "set xs = ucast ` {..<OCF_USER_IO_CLASS_MAX}" using i(2) by (auto simp: parts_added_def)
  have dev: "device conf" using i(2) by (simp add: parts_added_def ex_zero_def)
  have one: "(1 :: u16) < OCF_USER_IO_CLASS_MAX" by (simp add: OCF_USER_IO_CLASS_MAX_def)
  have "max_size (user_parts conf 1) = 100" using i(2) one by (auto simp: parts_added_def Let_def PARTITION_SIZE_MAX_def)
  moreover have "ocf_mngt_io_class_validate_cfg c = 0" if "c = ex_class 1 ''a'' \<or> c = ex_class 2 []" for c
    using that by (auto simp: ocf_mngt_io_class_validate_cfg_def ex_class_def ocf_cache_mode_none_def ocf_cache_mode_max_def ocf_user_part_is_name_valid_def
      OCF_USER_IO_CLASS_MAX_def OCF_IO_CLASS_NAME_MAX_def ocf_user_part_is_prio_valid_def OCF_IO_CLASS_PRIO_HIGHEST_def OCF_IO_CLASS_PRIO_LOWEST_def
      PARTITION_SIZE_MIN_def PARTITION_SIZE_MAX_def word_le_nat_alt)
  then have "\<not> (\<exists>c\<in>set [ex_class 1 ''a'', ex_class 2 []]. ocf_mngt_io_class_validate_cfg c \<noteq> 0)" by auto
  moreover have "\<exists>c\<in>set [ex_class 1 ''a'', ex_class 2 []]. class_bad conf c" by (simp add: class_bad_def ex_class_def)
  moreover have "max_size (classes_edited [ex_class 1 ''a'', ex_class 2 []] (user_parts conf) 1) = 50" by (simp add: ex_class_def class_edit_def)
  ultimately show ?thesis using io_classes_configured [OF xs dev, of True "\<lambda>_. 0" "[ex_class 1 ''a'', ex_class 2 []]"] l(1) i(1) by auto
qed

end
