(* ===== verification/Remap.thy ===== *)
theory Remap
  imports Space User_Part
begin

text \<open>
  Space management (\<open>ocf_space.c\<close>) and the remapping of a request with its error path
  (\<open>ocf_engine_remap\<close> of \<open>engine/engine_common.c\<close>): lines come from the free list, then from partitions that are too large, then from partitions in the order
  of their priority.  The property is that a request gets all of its lines or is left as it was.
\<close>

subsection \<open>Space management\<close>

definition ocf_evict_calculate :: "part_conf \<Rightarrow> ('s :: len) ocf_cache \<Rightarrow> u16 \<Rightarrow> u32 \<Rightarrow> u32" where
  "ocf_evict_calculate conf cache part to_evict =
     (let curr = ocf_part_get_occupancy cache part; min = ocf_user_part_get_min_size conf part
      in if curr \<le> min then 0 else if to_evict > curr - min then curr - min else to_evict)"

definition ocf_evict_part_do :: "part_conf \<Rightarrow> nat \<Rightarrow> ('s :: len) space_state \<Rightarrow> u16 \<Rightarrow> ('s space_state \<times> u32) option" where
  "ocf_evict_part_do conf t st part =
     (let unmapped = ocf_engine_unmapped_count (sp_req st); to_evict = ocf_evict_calculate conf (sp_cache st) part unmapped
      in if to_evict < unmapped then Some (st, 0) else ocf_lru_req_clines t st part to_evict)"

fun evict_parts_loop ::
    "part_conf \<Rightarrow> nat \<Rightarrow> bool \<Rightarrow> int \<Rightarrow> u32 \<Rightarrow> u16 list \<Rightarrow> ('s :: len) space_state \<Rightarrow> u32 \<Rightarrow> ('s space_state \<times> u32) option" where
  "evict_parts_loop conf t overflown_only max_priority evict_cline_no [] st evicted = Some (st, evicted)"
| "evict_parts_loop conf t overflown_only max_priority evict_cline_no (part # parts) st evicted =
     (if max_priority > priority (user_parts conf part) then Some (st, evicted)
      else if \<not> overflown_only \<and> \<not> pt_eviction (user_parts conf part) then Some (st, evicted)
      else
        let overflow = ocf_user_part_overflow_size conf (sp_cache st) part;
            to_evict = ocf_evict_calculate conf (sp_cache st) part (evict_cline_no - evicted)
        in if overflown_only \<and> overflow = 0 \<or> to_evict = 0
           then evict_parts_loop conf t overflown_only max_priority evict_cline_no parts st evicted
           else do {
             (st, n) \<leftarrow> ocf_lru_req_clines t st part (if overflown_only \<and> overflow \<le> to_evict then overflow else to_evict);
             if evicted + n \<ge> evict_cline_no then Some (st, evicted + n)
             else evict_parts_loop conf t overflown_only max_priority evict_cline_no parts st (evicted + n)
           })"

definition ocf_evict_user_partitions ::
    "part_conf \<Rightarrow> nat \<Rightarrow> ('s :: len) space_state \<Rightarrow> u32 \<Rightarrow> bool \<Rightarrow> int \<Rightarrow> ('s space_state \<times> u32) option" where
  "ocf_evict_user_partitions conf t st evict_cline_no overflown_only max_priority =
     do {
       parts \<leftarrow> for_each_lst (part_lst conf);
       evict_parts_loop conf t overflown_only max_priority evict_cline_no (map ucast parts) st 0
     }"

definition ocf_remap_do :: "part_conf \<Rightarrow> nat \<Rightarrow> ('s :: len) space_state \<Rightarrow> ('s space_state \<times> u32) option" where
  "ocf_remap_do conf t st = do {
     let remap_cline_no = ocf_engine_unmapped_count (sp_req st);
     (st, remapped) \<leftarrow> (if ocf_lru_num_free (sp_cache st) > 0 then ocf_lru_req_clines t st PARTITION_FREELIST remap_cline_no else Some (st, 0));
     if remapped \<ge> remap_cline_no then Some (st, remapped)
     else do {
       (st, n) \<leftarrow> ocf_evict_user_partitions conf t st (remap_cline_no - remapped) True OCF_IO_CLASS_PRIO_PINNED;
       let remapped = remapped + n;
       if remapped \<ge> remap_cline_no then Some (st, remapped)
       else do {
         (st, n) \<leftarrow> ocf_evict_user_partitions conf t st (remap_cline_no - remapped) False
           (priority (user_parts conf (req_part_id (sp_req st))));
         Some (st, remapped + n)
       }
     }
   }"

definition ocf_space_managment_remap_do :: "part_conf \<Rightarrow> nat \<Rightarrow> ('s :: len) space_state \<Rightarrow> ('s space_state \<times> u8) option" where
  "ocf_space_managment_remap_do conf t st = do {
     let needed = ocf_engine_unmapped_count (sp_req st);
     (st, remapped) \<leftarrow> (if part_evict (sp_req st) then ocf_evict_part_do conf t st (req_part_id (sp_req st)) else ocf_remap_do conf t st);
     Some (st, if needed \<le> remapped then LOOKUP_REMAPPED else LOOKUP_MISS)
   }"

subsection \<open>Remapping a request\<close>

fun hndl_error_loop :: "nat list \<Rightarrow> ('s :: len) ocf_cache \<times> ocf_alock \<times> ocf_request \<Rightarrow> ('s ocf_cache \<times> ocf_alock \<times> ocf_request) option" where
  "hndl_error_loop [] st = Some st"
| "hndl_error_loop (i # is) (cache, a, req) = do {
     e \<leftarrow> map_entry req (of_nat i);
     ENV_BUG_ON (status e \<noteq> LOOKUP_HIT \<and> status e \<noteq> LOOKUP_MISS \<and> status e \<noteq> LOOKUP_REMAPPED);
     if status e = LOOKUP_REMAPPED then do {
       let req = set_map_entry req (of_nat i) (e\<lparr>status := LOOKUP_MISS\<rparr>);
       cache \<leftarrow> set_cache_line_invalid_no_flush cache a 0 (ucast (ocf_line_end_sector cache)) (coll_idx e);
       a \<leftarrow> ocf_cache_line_unlock_wr (ocf_alock_mark_index_locked a (req_no req) (of_nat i) False) (coll_idx e);
       hndl_error_loop is (cache, a, req)
     } else hndl_error_loop is (cache, a, req)
   }"

definition ocf_engine_map_hndl_error ::
    "('s :: len) ocf_cache \<Rightarrow> ocf_alock \<Rightarrow> ocf_request \<Rightarrow> ('s ocf_cache \<times> ocf_alock \<times> ocf_request) option" where
  "ocf_engine_map_hndl_error cache a req = hndl_error_loop [0..<unat (core_line_count req)] (cache, a, req)"

definition ocf_engine_remap :: "part_conf \<Rightarrow> nat \<Rightarrow> ('s :: len) space_state \<Rightarrow> 's space_state option" where
  "ocf_engine_remap conf t st = do {
     (st, result) \<leftarrow> ocf_space_managment_remap_do conf t st;
     if result = LOOKUP_MISS then do {
       let req = ocf_req_set_cleaning_required (ocf_req_set_mapping_error (sp_req st));
       (cache, a, req) \<leftarrow> ocf_engine_map_hndl_error (sp_cache st) (fst (sp_locks st)) req;
       a \<leftarrow> ocf_req_unlock a req;
       Some (st\<lparr>sp_cache := cache, sp_locks := (a, snd (sp_locks st)), sp_req := req\<rparr>)
     } else Some st
   }"

subsection \<open>Lines from several partitions\<close>

lemma found_trans:
  assumes a: "found exact st H N st1 n" and e: "unat N \<le> card (misses (sp_req st))"
    and b: "\<And>L1 H1. space_ok exact st1 L1 H1 \<Longrightarrow> unat (N - n) \<le> card (misses (sp_req st1)) \<Longrightarrow> \<exists>st2 m. P st2 m \<and> found exact st1 H1 (N - n) st2 m"
  shows "\<exists>st2 m. P st2 m \<and> found exact st H N st2 (n + m) \<and> (\<forall>src y. takeable st2 src y \<longrightarrow> takeable st1 src y)"
proof -
  obtain L1 H1 where i: "space_ok exact st1 L1 H1" "progress st H st1 H1 (unat n)" "n \<le> N" using a by (auto simp: found_def)
  have u: "unat (N - n) = unat N - unat n" using i(3) by (rule unat_sub)
  have "unat (N - n) \<le> card (misses (sp_req st1))" using progressD(9) [OF i(2)] e u by simp
  then obtain st2 m where m: "P st2 m" "found exact st1 H1 (N - n) st2 m" using b i(1) by blast
  then obtain L2 H2 where j: "space_ok exact st2 L2 H2" "progress st1 H1 st2 H2 (unat m)" "m \<le> N - n" by (auto simp: found_def)
  have "unat n \<le> unat N" using i(3) by (simp add: word_le_nat_alt)
  then have le: "unat n + unat m \<le> unat N" using j(3) u by (simp add: word_le_nat_alt)
  then have s: "unat (n + m) = unat n + unat m" using unsigned_less [of N, where ?'a = nat] by (intro unat_add_nowrap) auto
  then have "found exact st H N st2 (n + m)" using j(1) progress_trans [OF i(2) j(2)] le by (auto simp: found_def word_le_nat_alt)
  then show ?thesis using m progressD(16) [OF j(2)] by blast
qed

lemma evict_calculate_le: "ocf_evict_calculate conf c p n \<le> n"
  by (auto simp: ocf_evict_calculate_def Let_def)

lemma found_less: "found exact st H N st' n \<Longrightarrow> N \<le> M \<Longrightarrow> found exact st H M st' n"
  by (auto simp: found_def)


definition parts_ok :: "part_conf \<Rightarrow> bool" where
  "parts_ok conf \<longleftrightarrow> (\<exists>xs. parts_ring conf xs)"

lemma evict_parts_ok:
  assumes e: "E \<le> E0" "unat E \<le> card (misses (sp_req st))" and p: "\<And>p. p \<in> set parts \<Longrightarrow> p \<le> OCF_USER_IO_CLASS_MAX" and ok: "space_ok exact st L H"
  shows "\<exists>st' m. evict_parts_loop conf t ovf prio E0 parts st (E0 - E) = Some (st', E0 - E + m) \<and> found exact st H E st' m"
  using e p ok
proof (induction parts arbitrary: st E L H)
  case Nil
  then show ?case using progress_refl [of st H] by (intro exI [of _ st] exI [of _ 0]) (auto simp: found_def)
next
  case (Cons part parts)
  have p: "part \<le> OCF_USER_IO_CLASS_MAX" "\<And>p. p \<in> set parts \<Longrightarrow> p \<le> OCF_USER_IO_CLASS_MAX" using Cons.prems(3) by auto
  let ?ov = "ocf_user_part_overflow_size conf (sp_cache st) part" and ?te = "ocf_evict_calculate conf (sp_cache st) part E"
  let ?N = "if ovf \<and> ?ov \<le> ?te then ?ov else ?te"
  have EE: "E0 - (E0 - E) = E" by simp
  have none: ?case if "evict_parts_loop conf t ovf prio E0 (part # parts) st (E0 - E) = Some (st, E0 - E)"
    using that Cons.prems(4) progress_refl [of st H] by (intro exI [of _ st] exI [of _ 0]) (auto simp: found_def)
  consider (stop) "prio > priority (user_parts conf part) \<or> \<not> ovf \<and> \<not> pt_eviction (user_parts conf part)"
    | (skip) "\<not> prio > priority (user_parts conf part)" "\<not> (\<not> ovf \<and> \<not> pt_eviction (user_parts conf part))" "ovf \<and> ?ov = 0 \<or> ?te = 0"
    | (take) "\<not> prio > priority (user_parts conf part)" "\<not> (\<not> ovf \<and> \<not> pt_eviction (user_parts conf part))" "\<not> (ovf \<and> ?ov = 0 \<or> ?te = 0)"
    by blast
  then show ?case
  proof cases
    case stop
    then show ?thesis by (intro none) auto
  next
    case skip
    then have "evict_parts_loop conf t ovf prio E0 (part # parts) st (E0 - E) = evict_parts_loop conf t ovf prio E0 parts st (E0 - E)"
      by (simp only: evict_parts_loop.simps EE Let_def if_False if_True)
    then show ?thesis using Cons.IH [OF Cons.prems(1,2) p(2) Cons.prems(4)] by (simp only:)
  next
    case take
    have NE: "?N \<le> E" using evict_calculate_le [of conf "sp_cache st" part E] by auto
    then have "unat ?N \<le> card (misses (sp_req st))" using Cons.prems(2) by (simp add: word_le_nat_alt)
    then obtain st1 n where r: "ocf_lru_req_clines t st part ?N = Some (st1, n)" "found exact st H ?N st1 n"
      using req_clines_ok [OF Cons.prems(4), of part ?N t] p(1) by (auto simp: source_def simp del: not_less)
    have f: "found exact st H E st1 n" by (rule found_less [OF r(2) NE])
    have nE: "n \<le> E" using f by (simp add: found_def)
    have step: "evict_parts_loop conf t ovf prio E0 (part # parts) st (E0 - E) =
        (if E0 - E + n \<ge> E0 then Some (st1, E0 - E + n) else evict_parts_loop conf t ovf prio E0 parts st1 (E0 - E + n))"
      using take r(1) by (simp only: evict_parts_loop.simps EE Let_def if_False) simp
    show ?thesis
    proof (cases "E0 - E + n \<ge> E0")
      case True
      then show ?thesis using step f by auto
    next
      case False
      have shift: "E0 - (E - n) = E0 - E + n" by simp
      have "E - n \<le> E0" using nE Cons.prems(1) by (meson order_trans word_sub_le)
      note ih = Cons.IH [OF this _ p(2)]
      have "\<exists>st2 m. evict_parts_loop conf t ovf prio E0 parts st1 (E0 - E + n) = Some (st2, E0 - E + n + m) \<and> found exact st1 H1 (E - n) st2 m"
        if "space_ok exact st1 L1 H1" "unat (E - n) \<le> card (misses (sp_req st1))" for L1 H1
        using ih [OF that(2) _ that(1)] unfolding shift by blast
      note more = this
      have "\<exists>st2 m. evict_parts_loop conf t ovf prio E0 parts st1 (E0 - E + n) = Some (st2, E0 - E + n + m) \<and> found exact st H E st2 (n + m) \<and>
          (\<forall>src y. takeable st2 src y \<longrightarrow> takeable st1 src y)"
        by (rule found_trans [OF f Cons.prems(2)]) (rule more)
      then obtain st2 m where "evict_parts_loop conf t ovf prio E0 parts st1 (E0 - E + n) = Some (st2, E0 - E + n + m)" "found exact st H E st2 (n + m)" by blast
      then show ?thesis using step False by (intro exI [of _ st2] exI [of _ "n + m"]) (simp add: add.assoc)
    qed
  qed
qed


lemma evict_user_partitions_ok:
  assumes "parts_ok conf" "space_ok exact st L H" "unat E \<le> card (misses (sp_req st))"
  shows "\<exists>st' m. ocf_evict_user_partitions conf t st E ovf prio = Some (st', m) \<and> found exact st H E st' m"
proof -
  obtain xs where xs: "ring (part_lst conf) xs" "invalid (part_lst conf) = ucast OCF_USER_IO_CLASS_MAX" using assms(1) by (auto simp: parts_ok_def parts_ring_def)
  have "p \<le> OCF_USER_IO_CLASS_MAX" if m: "p \<in> set (map ucast xs)" for p
  proof -
    obtain x where x: "x \<in> set xs" "p = ucast x" using m by auto
    have "x < invalid (part_lst conf)" using xs(1) x(1) by (simp add: ring_def)
    then have "unat x < 33" unfolding xs(2) by (simp add: OCF_USER_IO_CLASS_MAX_def word_less_nat_alt)
    then show ?thesis unfolding x(2) by (simp add: OCF_USER_IO_CLASS_MAX_def word_le_nat_alt unat_ucast_u16)
  qed
  then show ?thesis using evict_parts_ok [OF order_refl assms(3), of "map ucast xs" exact L H conf t ovf prio] assms(2) for_each_ring [OF xs(1)]
    by (simp add: ocf_evict_user_partitions_def)
qed

lemma no_free_line:
  assumes "metadata_ok exact (sp_cache st) L" "\<not> ocf_lru_num_free (sp_cache st) > 0"
  shows "\<not> takeable st PARTITION_FREELIST y"
proof -
  have "unat (curr_size (sp_cache st) PARTITION_FREELIST) = card (part_lines (sp_cache st) PARTITION_FREELIST)"
    using assms(1) by (simp add: metadata_ok_def cache_inv_def lru_inv_def sizes_ok_def)
  moreover have "curr_size (sp_cache st) PARTITION_FREELIST = 0" using assms(2) by (simp add: ocf_lru_num_free_def word_neq_0_conv [symmetric])
  ultimately have "part_lines (sp_cache st) PARTITION_FREELIST = {}" by simp
  then show ?thesis by (auto simp: part_lines_def takeable_def)
qed

lemma remap_do_ok:
  assumes conf: "parts_ok conf" and ok: "space_ok exact st L H"
  shows "\<exists>st' n. ocf_remap_do conf t st = Some (st', n) \<and> found exact st H (ocf_engine_unmapped_count (sp_req st)) st' n \<and>
    (n < ocf_engine_unmapped_count (sp_req st) \<longrightarrow> (\<forall>y. \<not> takeable st' PARTITION_FREELIST y))"
proof -
  let ?R = "ocf_engine_unmapped_count (sp_req st)"
  have R: "unat ?R = card (misses (sp_req st))" and inv: "metadata_ok exact (sp_cache st) L" using ok by (auto simp: space_ok_def req_fine_def)
  have "\<exists>st1 n. (if ocf_lru_num_free (sp_cache st) > 0 then ocf_lru_req_clines t st PARTITION_FREELIST ?R else Some (st, 0)) = Some (st1, n) \<and>
      found exact st H ?R st1 n \<and> (n < ?R \<longrightarrow> (\<forall>y. \<not> takeable st1 PARTITION_FREELIST y))"
    using req_clines_ok [OF ok, of PARTITION_FREELIST ?R t] no_free_line [OF inv] R ok progress_refl [of st H] by (auto simp: source_def found_def)
  then obtain st1 n where a: "(if ocf_lru_num_free (sp_cache st) > 0 then ocf_lru_req_clines t st PARTITION_FREELIST ?R else Some (st, 0)) = Some (st1, n)"
    "found exact st H ?R st1 n" "n < ?R \<longrightarrow> (\<forall>y. \<not> takeable st1 PARTITION_FREELIST y)" by blast
  have "\<exists>st2 m. ocf_evict_user_partitions conf t st1 (?R - n) True OCF_IO_CLASS_PRIO_PINNED = Some (st2, m) \<and>
      found exact st H ?R st2 (n + m) \<and> (\<forall>src y. takeable st2 src y \<longrightarrow> takeable st1 src y)"
    by (rule found_trans [OF a(2) R [THEN eq_refl]]) (rule evict_user_partitions_ok [OF conf])
  then obtain st2 m where b: "ocf_evict_user_partitions conf t st1 (?R - n) True OCF_IO_CLASS_PRIO_PINNED = Some (st2, m)"
    "found exact st H ?R st2 (n + m)" "\<And>src y. takeable st2 src y \<Longrightarrow> takeable st1 src y" by blast
  have "\<exists>st3 l. ocf_evict_user_partitions conf t st2 (?R - (n + m)) False (priority (user_parts conf (req_part_id (sp_req st2)))) = Some (st3, l) \<and>
      found exact st H ?R st3 (n + m + l) \<and> (\<forall>src y. takeable st3 src y \<longrightarrow> takeable st2 src y)"
    by (rule found_trans [OF b(2) R [THEN eq_refl]]) (rule evict_user_partitions_ok [OF conf])
  then obtain st3 l where c: "ocf_evict_user_partitions conf t st2 (?R - (n + m)) False (priority (user_parts conf (req_part_id (sp_req st2)))) = Some (st3, l)"
    "found exact st H ?R st3 (n + m + l)" "\<And>src y. takeable st3 src y \<Longrightarrow> takeable st2 src y" by blast
  have run: "ocf_remap_do conf t st = (if n \<ge> ?R then Some (st1, n) else if n + m \<ge> ?R then Some (st2, n + m) else Some (st3, n + m + l))"
    unfolding ocf_remap_do_def Let_def by (simp only: a(1) b(1) c(1) bind.bind_lunit split_conv)
  consider "n \<ge> ?R" | "\<not> n \<ge> ?R" "n + m \<ge> ?R" | "\<not> n \<ge> ?R" "\<not> n + m \<ge> ?R" by blast
  then show ?thesis
  proof cases
    case 1
    then show ?thesis using run a(2,3) by auto
  next
    case 2
    then show ?thesis using run b(2) by auto
  next
    case 3
    then have "\<forall>y. \<not> takeable st3 PARTITION_FREELIST y" using a(3) b(3) c(3) by (meson not_le)
    then show ?thesis using run 3 c(2) by auto
  qed
qed

lemma evict_part_do_ok:
  assumes ok: "space_ok exact st L H"
  shows "\<exists>st' n. ocf_evict_part_do conf t st (req_part_id (sp_req st)) = Some (st', n) \<and> found exact st H (ocf_engine_unmapped_count (sp_req st)) st' n"
proof -
  let ?R = "ocf_engine_unmapped_count (sp_req st)" and ?p = "req_part_id (sp_req st)"
  let ?N = "ocf_evict_calculate conf (sp_cache st) ?p ?R"
  have R: "unat ?R = card (misses (sp_req st))" and src: "source ?p" using ok by (auto simp: space_ok_def req_fine_def source_def)
  have le: "?N \<le> ?R" by (rule evict_calculate_le)
  show ?thesis
  proof (cases "?N < ?R")
    case True
    then show ?thesis using ok progress_refl [of st H] by (auto simp: ocf_evict_part_do_def Let_def found_def)
  next
    case False
    have "unat ?N \<le> card (misses (sp_req st))" using le R by (simp add: word_le_nat_alt)
    then show ?thesis using False le req_clines_ok [OF ok src, of ?N t] found_less [of exact st H ?N _ _ ?R] by (auto simp: ocf_evict_part_do_def Let_def)
  qed
qed

lemma remap_places_lines:
  assumes conf: "parts_ok conf" and ok: "space_ok exact st L H"
  shows "\<exists>st' r L' H' n. ocf_space_managment_remap_do conf t st = Some (st', r) \<and> space_ok exact st' L' H' \<and> progress st H st' H' n \<and>
    r = (if misses (sp_req st') = {} then LOOKUP_REMAPPED else LOOKUP_MISS) \<and>
    (r = LOOKUP_MISS \<and> \<not> part_evict (sp_req st) \<longrightarrow> (\<forall>y. \<not> takeable st' PARTITION_FREELIST y))"
proof -
  let ?R = "ocf_engine_unmapped_count (sp_req st)"
  have R: "unat ?R = card (misses (sp_req st))" using ok by (simp add: space_ok_def req_fine_def)
  obtain st' n where r: "(if part_evict (sp_req st) then ocf_evict_part_do conf t st (req_part_id (sp_req st)) else ocf_remap_do conf t st) = Some (st', n)"
    "found exact st H ?R st' n" "n < ?R \<longrightarrow> \<not> part_evict (sp_req st) \<longrightarrow> (\<forall>y. \<not> takeable st' PARTITION_FREELIST y)"
    using evict_part_do_ok [OF ok, of conf t] remap_do_ok [OF conf ok, of t] by (cases "part_evict (sp_req st)") auto
  obtain L' H' where f: "space_ok exact st' L' H'" "progress st H st' H' (unat n)" "n \<le> ?R" using r(2) by (auto simp: found_def)
  have z: "misses (sp_req st') = {} \<longleftrightarrow> card (misses (sp_req st')) = 0" by simp
  have e: "misses (sp_req st') = {} \<longleftrightarrow> ?R \<le> n" using progressD(9) [OF f(2)] R f(3) unfolding z word_le_nat_alt by arith
  have run: "ocf_space_managment_remap_do conf t st = Some (st', if ?R \<le> n then LOOKUP_REMAPPED else LOOKUP_MISS)"
    unfolding ocf_space_managment_remap_do_def Let_def by (simp only: r(1) bind.bind_lunit split_conv)
  show ?thesis
    by (intro exI [of _ st'] exI [of _ "if ?R \<le> n then LOOKUP_REMAPPED else LOOKUP_MISS"] exI [of _ L'] exI [of _ H'] exI [of _ "unat n"])
      (use run f e r(3) in \<open>auto simp: lookup_defs\<close>)
qed

subsection \<open>The error path\<close>

definition canceled_map :: "ocf_map_info list \<Rightarrow> nat \<Rightarrow> ocf_map_info list" where
  "canceled_map m k = map (\<lambda>i. if i < k \<and> status (m ! i) = LOOKUP_REMAPPED then (m ! i)\<lparr>status := LOOKUP_MISS\<rparr> else m ! i) [0..<length m]"

lemma canceled_map_simps:
  "length (canceled_map m k) = length m" "canceled_map m 0 = m"
  "i < length m \<Longrightarrow> canceled_map m k ! i = (if i < k \<and> status (m ! i) = LOOKUP_REMAPPED then (m ! i)\<lparr>status := LOOKUP_MISS\<rparr> else m ! i)"
  "k < length m \<Longrightarrow> canceled_map m (Suc k) = (canceled_map m k)[k := canceled_map m (Suc k) ! k]"
proof -
  show l: "length (canceled_map m k) = length m" for k by (simp add: canceled_map_def)
  show n: "i < length m \<Longrightarrow> canceled_map m k ! i = (if i < k \<and> status (m ! i) = LOOKUP_REMAPPED then (m ! i)\<lparr>status := LOOKUP_MISS\<rparr> else m ! i)" for i k
    by (simp add: canceled_map_def)
  show "canceled_map m 0 = m" by (rule nth_equalityI) (simp_all add: l n)
  show "k < length m \<Longrightarrow> canceled_map m (Suc k) = (canceled_map m k)[k := canceled_map m (Suc k) ! k]"
    by (rule nth_equalityI) (auto simp: l n nth_list_update less_Suc_eq)
qed

text \<open>The entries below \<open>k\<close> have been given back.\<close>

definition remapped :: "ocf_request \<Rightarrow> nat \<Rightarrow> nat set" where
  "remapped req k = {i. i < k \<and> i < unat (core_line_count req) \<and> status (req_map req ! i) = LOOKUP_REMAPPED}"

definition req_line :: "ocf_request \<Rightarrow> nat \<Rightarrow> u32" where
  "req_line req i = coll_idx (req_map req ! i)"

definition canceled ::
    "bool \<Rightarrow> ('s :: len) space_state \<Rightarrow> ocf_request \<Rightarrow> (u32 \<Rightarrow> rw list) \<Rightarrow> nat \<Rightarrow> 's ocf_cache \<times> ocf_alock \<times> ocf_request \<Rightarrow> (lru_ref \<Rightarrow> u32 list) \<Rightarrow> (u32 \<Rightarrow> rw list) \<Rightarrow> bool" where
  "canceled exact st r H k s L' H' \<longleftrightarrow> (case s of (c, a, req) \<Rightarrow>
     metadata_ok exact c L' \<and> locks_ok (a, H') \<and> num_entries a = num_entries (fst (sp_locks st)) \<and> same_geometry (sp_cache st) c \<and>
     req = r\<lparr>req_map := canceled_map (req_map r) k\<rparr> \<and>
     index c = (\<lambda>key. if key \<in> req_key r ` remapped r k then None else index (sp_cache st) key) \<and> (\<forall>v y. secs v c y = secs v (sp_cache st) y) \<and>
     H' = (\<lambda>y. if y \<in> req_line r ` remapped r k then [] else H y) \<and> (\<forall>y. waiters_of a y = waiters_of (fst (sp_locks st)) y) \<and>
     (\<forall>i<unat (core_line_count r). alock_status a (req_no r) (of_nat i) \<longleftrightarrow> k \<le> i \<and> status (req_map r ! i) = LOOKUP_REMAPPED))"

text \<open>The request after a failure, before its lines are given back.\<close>

definition failed :: "ocf_request \<Rightarrow> ocf_request" where
  "failed req = ocf_req_set_cleaning_required (ocf_req_set_mapping_error req)"

lemma failed_fields [simp]:
  "core_line_count (failed req) = core_line_count req" "req_map (failed req) = req_map req" "req_key (failed req) = req_key req"
  "req_no (failed req) = req_no req" "remapped (failed req) = remapped req" "req_line (failed req) = req_line req" "mapping_error (req_info (failed req))"
  "alock_rw (failed req) = alock_rw req"
  by (simp_all add: failed_def ocf_req_set_cleaning_required_def ocf_req_set_mapping_error_def req_key_def fun_eq_iff remapped_def req_line_def)

lemma remapped_Suc:
  "k < unat (core_line_count r) \<Longrightarrow> remapped r (Suc k) = (if status (req_map r ! k) = LOOKUP_REMAPPED then insert k (remapped r k) else remapped r k)"
  by (auto simp: remapped_def less_Suc_eq)

lemma unlock_wr_alone:
  assumes "locks_ok (a, H)" "H x = [OCF_WRITE]" "waiters_of a x = []"
  shows "ocf_cache_line_unlock_wr a x = Some (set_access a x OCF_CACHE_LINE_ACCESS_IDLE)" "locks_ok (set_access a x OCF_CACHE_LINE_ACCESS_IDLE, H(x := []))"
proof -
  have h: "OCF_WRITE \<in> set (H x)" using assms(2) by simp
  have e: "handed a x (hand_wr (waiters_of a x)) = set_access a x OCF_CACHE_LINE_ACCESS_IDLE" using assms(3) by (simp add: handed_none)
  show "ocf_cache_line_unlock_wr a x = Some (set_access a x OCF_CACHE_LINE_ACCESS_IDLE)"
    using unlock_wr_returns [OF assms(1) h] by (simp only: ocf_cache_line_unlock_wr_def e)
  have "granted a (set_access a x OCF_CACHE_LINE_ACCESS_IDLE) x = []" using assms(3) by (simp add: granted_def)
  then show "locks_ok (set_access a x OCF_CACHE_LINE_ACCESS_IDLE, H(x := []))"
    using unlock_wr_step_ok [OF assms(1) h] assms(2) by (simp only: e) simp
qed

lemma cancel_line:
  assumes inv: "metadata_ok exact c L" and k: "index c (core, cl) = Some x" and cm: "core < OCF_CORE_MAX" and V: "secs Valid c x = {}"
    and a: "x < num_entries a" "waiters_of a x = []"
  shows "\<exists>c' L'. set_cache_line_invalid_no_flush c a 0 (ucast (ocf_line_end_sector c)) x = Some c' \<and> metadata_ok exact c' L' \<and>
    index c' = (index c)((core, cl) := None) \<and> same_geometry c c' \<and> (\<forall>v y. secs v c' y = secs v c y)"
proof -
  have i: "cache_inv c L" "settings_ok c" "status_ok c" using inv by (auto simp: metadata_ok_def cache_inv_def lru_inv_def)
  note l = mapped_line [OF i(1) k]
  have D: "secs Dirty c x = {}" using i(3) l(1) V by (auto simp: status_ok_def)
  obtain c1 c' L' where s: "set_cache_line_invalid_core c a 0 (ucast (ocf_line_end_sector c)) x core (part_of c x) = Some c'" "metadata_ok exact c' L'"
    "bits_changed Valid x {} c c1" "unmapped_line (core, cl) x c1 c'"
    using set_invalid_core_any [OF inv k cm whole_line(1) [OF i(2) l(1)] _ are_waiters_eq [OF a(1)]] a(2) D V by auto
  have "set_cache_line_invalid_no_flush c a 0 (ucast (ocf_line_end_sector c)) x = Some c'"
    using s(1) l by (simp add: set_cache_line_invalid_no_flush_def ocf_metadata_get_core_id_def get_partition_id_part_of)
  moreover have "secs v c' y = secs v c y" for v y using s(3,4) V by (simp add: bits_changed_def unmapped_line_def)
  moreover have "same_geometry c c'" using s(3,4) same_geometry_trans by (auto simp: bits_changed_def unmapped_line_def)
  ultimately show ?thesis using s by (auto simp: bits_changed_def unmapped_line_def)
qed


lemma cancel_step:
  assumes ok: "space_ok exact st L H" and cm: "req_core (sp_req st) < OCF_CORE_MAX" and k: "k < unat (core_line_count (sp_req st))"
    and s: "canceled exact st (failed (sp_req st)) H k (c, a, req) L1 H1" and cont: "hndl_error_loop (k # ks) (c, a, req) = R"
  shows "\<exists>s' L2 H2. R = hndl_error_loop ks s' \<and> canceled exact st (failed (sp_req st)) H (Suc k) s' L2 H2"
proof -
  let ?r = "failed (sp_req st)" and ?c = "sp_cache st" and ?a = "fst (sp_locks st)"
  note O = ok [unfolded space_ok_def]
  have f: "req_fine ?c (sp_req st)" and inv: "metadata_ok exact ?c L" using O by auto
  then have len: "length (req_map (sp_req st)) = unat (core_line_count (sp_req st))" and io: "index_ok ?c" by (auto simp: req_fine_def req_shape_def metadata_ok_def cache_inv_def)
  note S = s [unfolded canceled_def prod.case]
  have req: "req = ?r\<lparr>req_map := canceled_map (req_map ?r) k\<rparr>" using S by blast
  let ?e = "req_map (sp_req st) ! k"
  have u: "unat (of_nat k :: u32) = k" by (rule index_u32 [OF k])
  have me: "map_entry req (of_nat k) = Some ?e" using len k u by (simp add: req map_entry_def canceled_map_simps(1-3))
  have fk: "if status ?e = LOOKUP_MISS then index ?c (req_key (sp_req st) k) = None
      else (status ?e = LOOKUP_HIT \<or> status ?e = LOOKUP_REMAPPED) \<and> index ?c (req_key (sp_req st) k) = Some (coll_idx ?e)"
    using f k by (simp add: req_fine_def Let_def)
  have st3: "\<not> (status ?e \<noteq> LOOKUP_HIT \<and> status ?e \<noteq> LOOKUP_MISS \<and> status ?e \<noteq> LOOKUP_REMAPPED)" using fk by (auto split: if_splits)
  show ?thesis
  proof (cases "status ?e = LOOKUP_REMAPPED")
    case False
    have "R = hndl_error_loop ks (c, a, req)" using cont me st3 False by simp
    moreover have "canceled_map (req_map ?r) (Suc k) = canceled_map (req_map ?r) k"
      using False by (intro nth_equalityI) (auto simp: canceled_map_simps(1,3) less_Suc_eq)
    then have "canceled exact st ?r H (Suc k) (c, a, req) L1 H1"
      using s False k remapped_Suc [of k ?r] by (auto simp: canceled_def Suc_le_eq order.strict_iff_order)
    ultimately show ?thesis by blast
  next
    case True
    let ?x = "coll_idx ?e"
    have kx: "index ?c (req_key (sp_req st) k) = Some ?x" and Hx: "H ?x = [OCF_WRITE]" and wx: "waiters_of ?a ?x = []" and Vx: "secs Valid ?c ?x = {}"
      using fk True O k by (auto simp: lookup_defs)
    have key: "req_key (sp_req st) k \<notin> req_key ?r ` remapped ?r k"
      using req_key_inj k by (auto simp: remapped_def)
    have line: "?x \<notin> req_line ?r ` remapped ?r k"
    proof
      assume "?x \<in> req_line ?r ` remapped ?r k"
      then obtain i where i: "i < k" "i < unat (core_line_count (sp_req st))" "status (req_map (sp_req st) ! i) = LOOKUP_REMAPPED" "coll_idx (req_map (sp_req st) ! i) = ?x"
        by (auto simp: remapped_def req_line_def)
      then have "index ?c (req_key (sp_req st) i) = Some ?x" using f by (auto simp: req_fine_def Let_def lookup_defs)
      then have "req_key (sp_req st) i = req_key (sp_req st) k" using index_inj(1) [OF io kx] by auto
      then show False using req_key_inj [of i "sp_req st" k] i k by auto
    qed
    have c: "metadata_ok exact c L1" "index c (req_key (sp_req st) k) = Some ?x" "secs Valid c ?x = {}" using S kx key Vx by auto
    have nx: "?x < num_entries a" using S O index_inj(3) [OF io kx kx] by auto
    have wa: "waiters_of a ?x = []" using S wx by simp
    have loc: "locks_ok (a, H1)" "H1 ?x = [OCF_WRITE]" using S line Hx by auto
    obtain c' L2 where c': "set_cache_line_invalid_no_flush c a 0 (ucast (ocf_line_end_sector c)) ?x = Some c'" "metadata_ok exact c' L2"
      "index c' = (index c)(req_key (sp_req st) k := None)" "same_geometry c c'" "\<forall>v y. secs v c' y = secs v c y"
      using cancel_line [OF c(1) _ cm c(3) nx wa] c(2) unfolding req_key_def by blast
    let ?a1 = "ocf_alock_mark_index_locked a (req_no req) (of_nat k) False"
    have wm: "waiters_of ?a1 y = waiters_of a y" for y by (simp add: waiters_of_def waiters_list_item_def ocf_alock_mark_index_locked_def)
    note un = unlock_wr_alone [OF mark_locks_ok [OF loc(1), of "req_no req" "of_nat k" False], of ?x, OF loc(2)]
    let ?a2 = "set_access ?a1 ?x OCF_CACHE_LINE_ACCESS_IDLE"
    have un: "ocf_cache_line_unlock_wr ?a1 ?x = Some ?a2" "locks_ok (?a2, H1(?x := []))" using un wm wa by simp_all
    let ?req = "?r\<lparr>req_map := canceled_map (req_map ?r) (Suc k)\<rparr>"
    have sm: "set_map_entry req (of_nat k) (?e\<lparr>status := LOOKUP_MISS\<rparr>) = ?req"
      using True k len canceled_map_simps(4) [of k "req_map ?r"] by (simp add: req set_map_entry_def u canceled_map_simps(3))
    have "req_no ?req = req_no req" by (simp add: req)
    then have "R = hndl_error_loop ks (c', ?a2, ?req)"
      using cont me st3 True c'(1) un(1) by (simp add: sm Let_def)
    moreover have "canceled exact st ?r H (Suc k) (c', ?a2, ?req) L2 (H1(?x := []))"
      unfolding canceled_def prod.case
    proof (intro conjI allI impI)
      show "same_geometry ?c c'" using S c'(4) same_geometry_trans by blast
      have "index c = (\<lambda>key. if key \<in> req_key ?r ` remapped ?r k then None else index ?c key)" using S by blast
      then show "index c' = (\<lambda>key. if key \<in> req_key ?r ` remapped ?r (Suc k) then None else index ?c key)"
        using k True by (simp add: c'(3) remapped_Suc fun_eq_iff)
      have H1: "H1 = (\<lambda>y. if y \<in> req_line ?r ` remapped ?r k then [] else H y)" using S by blast
      show "H1(?x := []) = (\<lambda>y. if y \<in> req_line ?r ` remapped ?r (Suc k) then [] else H y)"
        unfolding H1 using k True by (auto simp: remapped_Suc fun_eq_iff req_line_def)
      show "waiters_of ?a2 y = waiters_of ?a y" for y
        using S by (simp add: waiters_of_def waiters_list_item_def set_access_def ocf_alock_mark_index_locked_def)
      show "alock_status ?a2 (req_no ?r) (of_nat i) \<longleftrightarrow> Suc k \<le> i \<and> status (req_map ?r ! i) = LOOKUP_REMAPPED" if "i < unat (core_line_count ?r)" for i
      proof -
        have "(of_nat i :: u32) = of_nat k \<longleftrightarrow> i = k" using that k by (intro of_nat_u32_eq index_u32(2)) auto
        then show ?thesis using S that by (auto simp: req set_access_def Suc_le_eq order.strict_iff_order)
      qed
    qed (use S un(2) c'(2,5) in \<open>simp_all add: set_access_def\<close>)
    ultimately show ?thesis by blast
  qed
qed

lemma hndl_error_ok:
  assumes ok: "space_ok exact st L H" and cm: "req_core (sp_req st) < OCF_CORE_MAX"
  shows "k \<le> unat (core_line_count (sp_req st)) \<Longrightarrow> canceled exact st (failed (sp_req st)) H k s L1 H1 \<Longrightarrow>
    \<exists>s' L2 H2. hndl_error_loop [k..<unat (core_line_count (sp_req st))] s = Some s' \<and> canceled exact st (failed (sp_req st)) H (unat (core_line_count (sp_req st))) s' L2 H2"
proof (induction "unat (core_line_count (sp_req st)) - k" arbitrary: k s L1 H1)
  case 0
  then show ?case by (cases s) auto
next
  case (Suc d)
  then have k: "k < unat (core_line_count (sp_req st))" by simp
  obtain c a req where s: "s = (c, a, req)" by (cases s)
  let ?n = "unat (core_line_count (sp_req st))"
  obtain s' L2 H2 where st: "hndl_error_loop (k # [Suc k..<?n]) (c, a, req) = hndl_error_loop [Suc k..<?n] s'" "canceled exact st (failed (sp_req st)) H (Suc k) s' L2 H2"
    using cancel_step [OF ok cm k Suc.prems(2) [unfolded s] refl] by blast
  have "hndl_error_loop [k..<?n] s = hndl_error_loop [Suc k..<?n] s'" using st(1) k by (simp add: s upt_rec [of k])
  then show ?case using Suc.hyps(1) [OF _ _ st(2)] Suc.hyps(2) k by simp
qed

lemma unlock_loop_idle:
  "(\<And>i. i \<in> set is \<Longrightarrow> \<exists>b. acting (of_nat i) = Some b) \<Longrightarrow> (\<And>i. i \<in> set is \<Longrightarrow> \<not> alock_status a r (of_nat i)) \<Longrightarrow> unlock_loop acting get r rw is a = Some a"
proof (induction "is")
  case (Cons i "is")
  obtain b where "acting (of_nat i) = Some b" using Cons.prems(1) [of i] by auto
  then show ?case using Cons by (simp add: ocf_alock_is_index_locked_def)
qed simp

text \<open>What a request ends with: all of its core lines mapped, or the error flag and its core lines and the locks as they were.\<close>

definition remap_result ::
    "('s :: len) ocf_cache \<Rightarrow> ocf_request \<Rightarrow> (u32 \<Rightarrow> rw list) \<Rightarrow> 's ocf_cache \<Rightarrow> ocf_alock \<Rightarrow> ocf_request \<Rightarrow> (u32 \<Rightarrow> rw list) \<Rightarrow> bool" where
  "remap_result c req H c' a' req' H' \<longleftrightarrow>
     (if ocf_req_test_mapping_error req'
      then H' = H \<and> (\<forall>i<unat (core_line_count req). index c' (req_key req i) = index c (req_key req i) \<and> \<not> alock_status a' (req_no req) (of_nat i))
      else \<forall>i<unat (core_line_count req). index c' (req_key req i) = Some (req_line req' i) \<and>
        (index c (req_key req i) = None \<longrightarrow> H (req_line req' i) = [] \<and> H' (req_line req' i) = [OCF_WRITE] \<and>
           alock_status a' (req_no req) (of_nat i) \<and> secs Valid c' (req_line req' i) = {}))"


lemma remap_fails:
  assumes ok: "space_ok exact st L H" and cm: "req_core (sp_req st) < OCF_CORE_MAX"
  shows "\<exists>c a L' H'. ocf_engine_map_hndl_error (sp_cache st) (fst (sp_locks st)) (failed (sp_req st)) =
      Some (c, a, (failed (sp_req st))\<lparr>req_map := canceled_map (req_map (sp_req st)) (unat (core_line_count (sp_req st)))\<rparr>) \<and>
    ocf_req_unlock a ((failed (sp_req st))\<lparr>req_map := canceled_map (req_map (sp_req st)) (unat (core_line_count (sp_req st)))\<rparr>) = Some a \<and>
    canceled exact st (failed (sp_req st)) H (unat (core_line_count (sp_req st)))
      (c, a, (failed (sp_req st))\<lparr>req_map := canceled_map (req_map (sp_req st)) (unat (core_line_count (sp_req st)))\<rparr>) L' H'"
proof -
  let ?r = "failed (sp_req st)" and ?n = "unat (core_line_count (sp_req st))"
  let ?r' = "?r\<lparr>req_map := canceled_map (req_map (sp_req st)) ?n\<rparr>"
  note O = ok [unfolded space_ok_def]
  have len: "length (req_map (sp_req st)) = ?n" using O by (simp add: req_fine_def req_shape_def)
  have "canceled exact st ?r H 0 (sp_cache st, fst (sp_locks st), ?r) L H"
    using O by (simp add: canceled_def remapped_def canceled_map_simps(2) failed_def ocf_req_set_cleaning_required_def ocf_req_set_mapping_error_def)
  from hndl_error_ok [OF ok cm _ this] obtain s L' H' where s: "hndl_error_loop [0..<?n] (sp_cache st, fst (sp_locks st), ?r) = Some s" "canceled exact st ?r H ?n s L' H'"
    by auto
  obtain c a where sc: "s = (c, a, ?r')" using s(2) by (cases s) (auto simp: canceled_def)
  have na: "\<not> alock_status a (req_no ?r') (of_nat i)" if "i < ?n" for i using s(2) that by (auto simp: canceled_def sc)
  have act: "\<exists>b. ocf_cl_lock_line_is_acting ?r' (of_nat i) = Some b" if "i < ?n" for i
    using that len index_u32(1) [OF that] by (simp add: ocf_cl_lock_line_is_acting_def map_entry_def canceled_map_simps(1))
  have "ocf_req_unlock a ?r' = Some a"
    using unlock_loop_idle [of "[0..<?n]" "ocf_cl_lock_line_is_acting ?r'" a "req_no ?r'"] na act
    by (cases "alock_rw ?r'") (simp_all add: ocf_req_unlock_def ocf_req_unlock_wr_def ocf_req_unlock_rd_def)
  then show ?thesis using s by (intro exI [of _ c] exI [of _ a] exI [of _ L'] exI [of _ H']) (simp add: ocf_engine_map_hndl_error_def sc)
qed

lemma remap_result_ok:
  assumes P: "progress st H st1 H1 n" and ok: "space_ok exact st L H" "space_ok exact st1 L1 H1" and e: "misses (sp_req st1) = {}" and ne: "\<not> mapping_error (req_info (sp_req st))"
  shows "remap_result (sp_cache st) (sp_req st) H (sp_cache st1) (fst (sp_locks st1)) (sp_req st1) H1"
proof -
  note D = progressD [OF P]
  have f: "req_fine (sp_cache st) (sp_req st)" "req_fine (sp_cache st1) (sp_req st1)" using ok by (simp_all add: space_ok_def)
  have "index (sp_cache st1) (req_key (sp_req st) i) = Some (req_line (sp_req st1) i) \<and>
      (index (sp_cache st) (req_key (sp_req st) i) = None \<longrightarrow> H (req_line (sp_req st1) i) = [] \<and> H1 (req_line (sp_req st1) i) = [OCF_WRITE] \<and>
         alock_status (fst (sp_locks st1)) (req_no (sp_req st)) (of_nat i) \<and> secs Valid (sp_cache st1) (req_line (sp_req st1) i) = {})"
    if i: "i < unat (core_line_count (sp_req st))" for i
  proof -
    have i1: "i < unat (core_line_count (sp_req st1))" using i D(10) by simp
    have m1: "status (req_map (sp_req st1) ! i) \<noteq> LOOKUP_MISS" using e i1 by (auto simp: misses_def)
    have x: "index (sp_cache st1) (req_key (sp_req st) i) = Some (req_line (sp_req st1) i)"
      using req_entry(2) [OF f(2) i1 m1] by (simp only: req_line_def D(11))
    have "status (req_map (sp_req st) ! i) = LOOKUP_MISS" if "index (sp_cache st) (req_key (sp_req st) i) = None"
      using req_entry(1) [OF f(1) i] that by simp
    then have "status (req_map (sp_req st1) ! i) = LOOKUP_REMAPPED \<and> H (req_line (sp_req st1) i) = []" if "index (sp_cache st) (req_key (sp_req st) i) = None"
      using D(6) [OF i] m1 that by (simp add: entry_kept_def req_line_def)
    then show ?thesis using ok(2) i1 x by (simp add: space_ok_def req_line_def D(14))
  qed
  then show ?thesis using ne D(17) by (simp add: remap_result_def ocf_req_test_mapping_error_def)
qed

lemma remap_undone:
  assumes P: "progress st H st1 H1 n" and ok: "space_ok exact st L H" "space_ok exact st1 L1 H1"
    and nr: "\<And>i. i < unat (core_line_count (sp_req st)) \<Longrightarrow> status (req_map (sp_req st) ! i) \<noteq> LOOKUP_REMAPPED"
    and C: "canceled exact st1 (failed (sp_req st1)) H1 (unat (core_line_count (sp_req st1))) (c, a, req) L' H'"
  shows "H' = H" "remap_result (sp_cache st) (sp_req st) H c a req H'"
    "cached v c k u \<longleftrightarrow> cached v (sp_cache st1) k u"
proof -
  let ?r = "sp_req st" and ?r1 = "sp_req st1"
  let ?n = "unat (core_line_count ?r)"
  note D = progressD [OF P]
  note K = C [unfolded canceled_def prod.case]
  let ?R = "remapped ?r1 ?n"
  have fi: "req_fine (sp_cache st) (sp_req st)" "req_fine (sp_cache st1) (sp_req st1)" using ok by (simp_all add: space_ok_def)
  have Hc: "H' = (\<lambda>y. if y \<in> req_line ?r1 ` ?R then [] else H1 y)" and ix: "index c = (\<lambda>key. if key \<in> req_key ?r1 ` ?R then None else index (sp_cache st1) key)"
    and sc: "\<And>v y. secs v c y = secs v (sp_cache st1) y"
    using K D(10) by auto
  have R: "i \<in> ?R \<longleftrightarrow> i < ?n \<and> status (req_map ?r1 ! i) = LOOKUP_REMAPPED" for i using D(10) by (auto simp: remapped_def)
  have miss: "status (req_map ?r ! i) = LOOKUP_MISS" "H (req_line ?r1 i) = []" if "i \<in> ?R" for i
  proof -
    have i: "i < ?n" "status (req_map ?r1 ! i) = LOOKUP_REMAPPED" using that R by auto
    show "status (req_map ?r ! i) = LOOKUP_MISS" "H (req_line ?r1 i) = []"
      using D(6) [OF i(1)] i(2) nr [OF i(1)] by (auto simp: entry_kept_def req_line_def lookup_defs split: if_splits)
  qed
  show HH: "H' = H"
  proof
    fix y
    show "H' y = H y"
    proof (cases "y \<in> req_line ?r1 ` ?R")
      case False
      then have "H1 y = H y" using D(8) [of y] R by (auto simp: req_line_def)
      then show ?thesis using False by (simp add: Hc)
    qed (use miss(2) Hc in auto)
  qed
  have keys: "index c (req_key ?r i) = index (sp_cache st) (req_key ?r i)" if i: "i < ?n" for i
  proof -
    have i1: "i < unat (core_line_count ?r1)" using i D(10) by simp
    have mem: "req_key ?r i \<in> req_key ?r1 ` ?R \<longleftrightarrow> i \<in> ?R" using req_key_inj [of i ?r] i R unfolding D(11) by (auto simp: image_iff)
    note f0 = req_entry [OF fi(1) i] and f1 = req_entry [OF fi(2) i1, unfolded D(11)]
    show ?thesis
    proof (cases "i \<in> ?R")
      case True
      then show ?thesis using mem f0(1) miss(1) by (simp add: ix)
    next
      case False
      then have "index c (req_key ?r i) = index (sp_cache st1) (req_key ?r i)" using mem by (simp add: ix)
      moreover have "index (sp_cache st1) (req_key ?r i) = index (sp_cache st) (req_key ?r i)"
      proof (cases "status (req_map ?r ! i) = LOOKUP_MISS")
        case True
        then have "status (req_map ?r1 ! i) = LOOKUP_MISS" using D(6) [OF i] False i R by (auto simp: entry_kept_def)
        then show ?thesis using f0(1) f1(1) True by simp
      next
        case miss: False
        then have "req_map ?r1 ! i = req_map ?r ! i" using D(6) [OF i] by (simp add: entry_kept_def)
        then show ?thesis using f0(2) f1(2) miss by simp
      qed
      ultimately show ?thesis by simp
    qed
  qed
  have "mapping_error (req_info req)" using K by simp
  then show "remap_result (sp_cache st) ?r H c a req H'"
    using keys K D(10,14) by (simp add: remap_result_def HH ocf_req_test_mapping_error_def)
  show "cached v c k u \<longleftrightarrow> cached v (sp_cache st1) k u"
  proof (cases "k \<in> req_key ?r1 ` ?R")
    case False
    then have "index c k = index (sp_cache st1) k" by (simp add: ix)
    then show ?thesis by (cases "index (sp_cache st1) k") (simp_all add: cached_def sc)
  next
    case True
    then obtain i where i: "i \<in> ?R" "k = req_key ?r1 i" by blast
    then have "i < unat (core_line_count ?r1)" "status (req_map ?r1 ! i) = LOOKUP_REMAPPED" using R D(10) by auto
    then have "index (sp_cache st1) k = Some (coll_idx (req_map ?r1 ! i))" "secs Valid (sp_cache st1) (coll_idx (req_map ?r1 ! i)) = {}"
      using ok(2) req_entry(2) [OF fi(2), of i] i(2) by (simp_all add: space_ok_def lookup_defs)
    moreover have "secs Dirty (sp_cache st1) x = {}" if "secs Valid (sp_cache st1) x = {}" "index (sp_cache st1) k = Some x" for x
      using ok(2) that index_inj(3) [of "sp_cache st1" k x k] by (auto simp: space_ok_def metadata_ok_def cache_inv_def status_ok_def)
    ultimately show ?thesis using True by (cases v) (auto simp: cached_def ix)
  qed
qed


lemma engine_remap_ok:
  assumes conf: "parts_ok conf" and ok: "space_ok exact st L H" and cm: "req_core (sp_req st) < OCF_CORE_MAX" and ne: "\<not> mapping_error (req_info (sp_req st))"
    and nr: "\<And>i. i < unat (core_line_count (sp_req st)) \<Longrightarrow> status (req_map (sp_req st) ! i) \<noteq> LOOKUP_REMAPPED"
  shows "\<exists>st' L' H'. ocf_engine_remap conf t st = Some st' \<and> metadata_ok exact (sp_cache st') L' \<and> locks_ok (fst (sp_locks st'), H') \<and>
    snd (sp_locks st') = snd (sp_locks st) \<and> remap_result (sp_cache st) (sp_req st) H (sp_cache st') (fst (sp_locks st')) (sp_req st') H' \<and>
    (\<forall>v k u. cached v (sp_cache st') k u \<longrightarrow> cached v (sp_cache st) k u) \<and> (\<forall>k u. cached Dirty (sp_cache st) k u \<longrightarrow> cached Dirty (sp_cache st') k u) \<and>
    (\<forall>v i u. i < unat (core_line_count (sp_req st)) \<longrightarrow> cached v (sp_cache st) (req_key (sp_req st) i) u \<longrightarrow> cached v (sp_cache st') (req_key (sp_req st) i) u)"
proof -
  obtain st1 r L1 H1 n where m: "ocf_space_managment_remap_do conf t st = Some (st1, r)" "space_ok exact st1 L1 H1" "progress st H st1 H1 n"
    "r = (if misses (sp_req st1) = {} then LOOKUP_REMAPPED else LOOKUP_MISS)"
    using remap_places_lines [OF conf ok, of t] by blast
  note D = progressD [OF m(3)]
  have cm1: "req_core (sp_req st1) < OCF_CORE_MAX" using cm D(15) by simp
  show ?thesis
  proof (cases "misses (sp_req st1) = {}")
    case True
    have "ocf_engine_remap conf t st = Some st1" using m(1,4) True by (simp add: ocf_engine_remap_def lookup_defs)
    moreover have "metadata_ok exact (sp_cache st1) L1 \<and> locks_ok (fst (sp_locks st1), H1)" using m(2) by (simp add: space_ok_def)
    ultimately show ?thesis using remap_result_ok [OF m(3) ok m(2) True ne] D(2,3,4,7)
      by (intro exI [of _ st1] exI [of _ L1] exI [of _ H1]) (simp del: split_paired_All)
  next
    case False
    let ?r = "(failed (sp_req st1))\<lparr>req_map := canceled_map (req_map (sp_req st1)) (unat (core_line_count (sp_req st1)))\<rparr>"
    obtain c a L2 H2 where e: "ocf_engine_map_hndl_error (sp_cache st1) (fst (sp_locks st1)) (failed (sp_req st1)) = Some (c, a, ?r)"
      "ocf_req_unlock a ?r = Some a" "canceled exact st1 (failed (sp_req st1)) H1 (unat (core_line_count (sp_req st1))) (c, a, ?r) L2 H2"
      using remap_fails [OF m(2) cm1] by blast
    let ?st = "st1\<lparr>sp_cache := c, sp_locks := (a, snd (sp_locks st1)), sp_req := ?r\<rparr>"
    have run: "ocf_engine_remap conf t st = Some ?st" using m(1,4) False e(1,2) by (simp add: ocf_engine_remap_def failed_def Let_def)
    note u = remap_undone [OF m(3) ok m(2) nr e(3)]
    have "metadata_ok exact c L2" "locks_ok (a, H2)" using e(3) by (auto simp: canceled_def)
    then show ?thesis using run u(2,3) D(2,3,4,7)
      by (intro exI [of _ ?st] exI [of _ L2] exI [of _ H2]) (simp del: split_paired_All)
  qed
qed

subsection \<open>Properties\<close>

text \<open>
  C26. Remapping a request that was looked up is all or nothing.  Either all core lines of the request are mapped, those that were not
  mapped before to empty lines that nobody held and that are now write locked for the request; or the request is marked with a
  mapping error, its core lines are mapped as before, it holds no line and all line locks are as before.  In both cases the invariants of
  the metadata hold (with \<open>exact\<close>, that is when every mapped line that nobody holds has a valid sector at the start, also those of the counters), no dirty sector is dropped, no sector of the request is dropped, no sector appears, and the hash bucket locks are given back.
\<close>
theorem remap_all_or_nothing:
  assumes conf: "parts_ok conf" and st: "remap_start exact c L req0 a H" and lk: "ocf_engine_lookup c req0 = Some req"
  shows "\<exists>st' L' H'. ocf_engine_remap conf t \<lparr>sp_cache = c, sp_locks = (a, s), sp_req = req, sp_lru_idx = n\<rparr> = Some st' \<and>
    metadata_ok exact (sp_cache st') L' \<and> locks_ok (fst (sp_locks st'), H') \<and> snd (sp_locks st') = s \<and>
    remap_result c req H (sp_cache st') (fst (sp_locks st')) (sp_req st') H' \<and>
    (\<forall>v k u. cached v (sp_cache st') k u \<longrightarrow> cached v c k u) \<and> (\<forall>k u. cached Dirty c k u \<longrightarrow> cached Dirty (sp_cache st') k u) \<and>
    (\<forall>v i u. i < unat (core_line_count req) \<longrightarrow> cached v c (req_key req i) u \<longrightarrow> cached v (sp_cache st') (req_key req i) u)"
proof -
  obtain m f where l: "req = req0\<lparr>req_map := m, req_info := f\<rparr>" "\<not> mapping_error f" "\<forall>i<unat (core_line_count req0). status (m ! i) \<noteq> LOOKUP_REMAPPED"
    "space_ok exact \<lparr>sp_cache = c, sp_locks = (a, s), sp_req = req, sp_lru_idx = n\<rparr> L H"
    using start_space_ok [OF st, of s n] lk by auto
  have "req_core req < OCF_CORE_MAX" using st by (simp add: l(1) remap_start_def)
  then show ?thesis using engine_remap_ok [OF conf l(4), of t] l(1-3) by (simp del: split_paired_All)
qed

theorem remap_all_or_nothing_witness:
  "\<exists>(c :: 8 ocf_cache) req a st' L'. ocf_engine_lookup c (ocf_req_new c 0 2 0 4096 OCF_READ) = Some req \<and>
    ocf_engine_remap ex_parts 0 \<lparr>sp_cache = c, sp_locks = (a, no_locks), sp_req = req, sp_lru_idx = 0\<rparr> = Some st' \<and>
    meta_inv (sp_cache st') L' \<and> snd (sp_locks st') = no_locks"
proof -
  obtain c :: "8 ocf_cache" and L a H where c: "remap_start True c L (ocf_req_new c 0 2 0 4096 OCF_READ) a H" using started_remaps by blast
  obtain req where l: "ocf_engine_lookup c (ocf_req_new c 0 2 0 4096 OCF_READ) = Some req" using start_space_ok [OF c] by blast
  have "parts_ok ex_parts" using ex_parts_ring by (auto simp: parts_ok_def)
  from remap_all_or_nothing [OF this c l, of 0 no_locks 0] obtain st' L' where
    "ocf_engine_remap ex_parts 0 \<lparr>sp_cache = c, sp_locks = (a, no_locks), sp_req = req, sp_lru_idx = 0\<rparr> = Some st'"
    "meta_inv (sp_cache st') L'" "snd (sp_locks st') = no_locks" unfolding metadata_ok_exact by blast
  then show ?thesis using l by blast
qed

end
