(* ===== verification/Byte_File.thy ===== *)
theory Byte_File
  imports OCF_Prelude
begin

text \<open>
  Files and bytes, as the layered and the compressed files use them: the interface of a file, its documented behaviour, and the
  numbers and fields of packed structures in little endian order.
\<close>

subsection \<open>Files\<close>

type_synonym byte = "8 word"

text \<open>\<open>fpread f count offset\<close>: the result and the bytes that were stored; \<open>fseek_end f\<close>: the end of the file, and the file with the
  position there; \<open>fwrite\<close> writes at the position; \<open>ftell\<close> is the position (\<open>lseek\<close> by 0); \<open>fsize\<close> is the size that \<open>fstat\<close> gives.\<close>

record 'f ifile =
  fpread :: "'f \<Rightarrow> nat \<Rightarrow> nat \<Rightarrow> int \<times> byte list"
  fseek_end :: "'f \<Rightarrow> nat \<times> 'f"
  fwrite :: "'f \<Rightarrow> byte list \<Rightarrow> int \<times> 'f"
  ftell :: "'f \<Rightarrow> nat"
  fsize :: "'f \<Rightarrow> nat"

text \<open>The documented behaviour: a read returns the bytes of the content that are there; a write at the end appends a prefix of the
  buffer, whose length it returns, or fails and appends nothing, and leaves the position behind what it wrote.\<close>

definition reads_content :: "('f, 'z) ifile_scheme \<Rightarrow> ('f \<Rightarrow> byte list) \<Rightarrow> bool" where
  "reads_content ops content \<longleftrightarrow> (\<forall>f. fsize ops f = length (content f)) \<and>
     (\<forall>f n off. fpread ops f n off = (int (length (take n (drop off (content f)))), take n (drop off (content f))))"

definition appends_content :: "('f, 'z) ifile_scheme \<Rightarrow> ('f \<Rightarrow> byte list) \<Rightarrow> bool" where
  "appends_content ops content \<longleftrightarrow>
     (\<forall>f. case fseek_end ops f of (e, f') \<Rightarrow> e = length (content f) \<and> content f' = content f \<and> ftell ops f' = length (content f)) \<and>
     (\<forall>f bs. ftell ops f = length (content f) \<longrightarrow> (case fwrite ops f bs of (ret, f') \<Rightarrow>
        ret \<le> int (length bs) \<and> content f' = content f @ take (nat ret) bs \<and> ftell ops f' = length (content f')))"

text \<open>Files on which every write is complete.\<close>

definition complete_files :: "('f, 'z) ifile_scheme \<Rightarrow> ('f \<Rightarrow> byte list) \<Rightarrow> bool" where
  "complete_files ops content \<longleftrightarrow> reads_content ops content \<and> appends_content ops content \<and>
     (\<forall>f bs. ftell ops f = length (content f) \<longrightarrow> int (length bs) \<le> fst (fwrite ops f bs))"

lemma seek_end_ok:
  assumes "appends_content ops content"
  shows "\<exists>f'. fseek_end ops f = (length (content f), f') \<and> content f' = content f \<and> ftell ops f' = length (content f')"
  using assms [unfolded appends_content_def, THEN conjunct1, rule_format, of f] by (auto split: prod.splits)

lemma seek_complete:
  "complete_files ops content \<Longrightarrow> \<exists>f'. fseek_end ops f = (length (content f), f') \<and> content f' = content f \<and> ftell ops f' = length (content f')"
  by (rule seek_end_ok) (simp add: complete_files_def)

lemma write_at_end:
  assumes "appends_content ops content" "ftell ops f = length (content f)"
  shows "\<exists>ret f'. fwrite ops f bs = (ret, f') \<and> ret \<le> int (length bs) \<and> content f' = content f @ take (nat ret) bs \<and> ftell ops f' = length (content f')"
  using assms(1) [unfolded appends_content_def, THEN conjunct2, rule_format, OF assms(2), of bs] by (auto split: prod.splits)

lemma write_complete:
  assumes "complete_files ops content" "ftell ops f = length (content f)"
  shows "\<exists>f'. fwrite ops f bs = (int (length bs), f') \<and> content f' = content f @ bs \<and> ftell ops f' = length (content f')"
proof -
  have "int (length bs) \<le> fst (fwrite ops f bs)" "appends_content ops content" using assms by (simp_all add: complete_files_def)
  then show ?thesis using write_at_end [of ops content f bs] assms(2) by auto
qed

text \<open>A file that is its content, with the position at its end.\<close>

definition mem_ops :: "byte list ifile" where
  "mem_ops = \<lparr>fpread = (\<lambda>f n off. (int (length (take n (drop off f))), take n (drop off f))), fseek_end = (\<lambda>f. (length f, f)),
     fwrite = (\<lambda>f bs. (int (length bs), f @ bs)), ftell = length, fsize = length\<rparr>"

lemma mem_ops_complete: "complete_files mem_ops id" "reads_content mem_ops id"
  by (simp_all add: complete_files_def reads_content_def appends_content_def mem_ops_def)

subsection \<open>Buffers\<close>

definition put_bytes :: "nat \<Rightarrow> byte list \<Rightarrow> byte list \<Rightarrow> byte list" where
  "put_bytes pos bs buf = take pos buf @ bs @ drop (pos + length bs) buf"

lemma put_bytes_append:
  assumes "pos + length bs + length bs' \<le> length buf"
  shows "put_bytes (pos + length bs) bs' (put_bytes pos bs buf) = put_bytes pos (bs @ bs') buf"
  using assms by (cases "bs = []") (auto simp: put_bytes_def drop_drop add.commute add.left_commute)

lemma length_put_bytes [simp]: "pos + length bs \<le> length buf \<Longrightarrow> length (put_bytes pos bs buf) = length buf"
  by (simp add: put_bytes_def)

lemma put_bytes_nil [simp]: "put_bytes pos [] buf = buf"
  by (simp add: put_bytes_def)

subsection \<open>Numbers\<close>

fun le_bytes :: "nat \<Rightarrow> nat \<Rightarrow> byte list" where
  "le_bytes 0 v = []"
| "le_bytes (Suc n) v = of_nat v # le_bytes n (v div 256)"

fun le_value :: "byte list \<Rightarrow> nat" where
  "le_value [] = 0"
| "le_value (b # bs) = unat b + 256 * le_value bs"

lemma length_le_bytes [simp]: "length (le_bytes n v) = n"
  by (induction n arbitrary: v) auto

lemma le_value_bytes: "le_value (le_bytes n v) = v mod 256 ^ n"
proof (induction n arbitrary: v)
  case (Suc n)
  have "v mod (256 * 256 ^ n) = 256 * (v div 256 mod 256 ^ n) + v mod 256" by (rule mod_mult2_eq)
  then show ?case using Suc by (simp add: unsigned_of_nat take_bit_eq_mod)
qed simp

lemma le_value_bytes_small: "v < 256 ^ n \<Longrightarrow> le_value (le_bytes n v) = v"
  by (simp add: le_value_bytes)

subsection \<open>Fields\<close>

text \<open>The structure at the start of a buffer.\<close>

definition field :: "nat \<Rightarrow> nat \<Rightarrow> 'a list \<Rightarrow> 'a list" where
  "field off n bs = take n (drop off bs)"

lemma field_skip [simp]: "length xs \<le> off \<Longrightarrow> field off n (xs @ ys) = field (off - length xs) n ys"
  by (simp add: field_def)

lemma field_here: "length xs = n \<Longrightarrow> field 0 n (xs @ ys) = xs" "length xs = n \<Longrightarrow> field 0 n xs = xs"
  by (simp_all add: field_def)

lemma field_Cons [simp]: "0 < off \<Longrightarrow> field off n (x # xs) = field (off - 1) n xs" "hd (field 0 (Suc n) (x # xs)) = x"
  by (cases off; simp add: field_def)+

end
