(* ===== verification/LSMT_Segment.thy ===== *)
theory LSMT_Segment
  imports OCF_Prelude
begin

text \<open>
  Segments of the layered block device (\<open>lsmt/index.h\<close> and the first functions of \<open>lsmt/index.cpp\<close>).

  A segment is a range of sectors of the virtual device; a segment mapping says where the data of
  the range is: from sector \<open>moffset\<close> on in the layer \<open>tag\<close>, or nowhere when it is zeroed.
  The fields are bit fields of 50, 14, 55, 1 and 8 bits; the fields are natural numbers here and every
  assignment to one of them is reduced to its width.  An \<open>assert\<close> that fails is \<open>None\<close>.

  The second half gives the meaning of a list of mappings, the function from sectors to places, and
  the interface of an index, with the walk over the mappings of a segment that the layers above use.
\<close>

subsection \<open>Segments\<close>

record segment =
  s_offset :: nat
  s_length :: nat

record segment_mapping = segment +
  moffset :: nat
  zeroed :: bool
  tag :: nat

definition MAX_OFFSET :: nat where "MAX_OFFSET = 2 ^ 50 - 1"
definition MAX_LENGTH :: nat where "MAX_LENGTH = 2 ^ 14 - 1"
definition INVALID_OFFSET :: nat where "INVALID_OFFSET = MAX_OFFSET"

definition seg_end :: "'a segment_scheme \<Rightarrow> nat" where
  "seg_end s = s_offset s + s_length s"

definition seg_forward_offset_to :: "'a segment_scheme \<Rightarrow> nat \<Rightarrow> ('a segment_scheme \<times> nat) option" where
  "seg_forward_offset_to s x = do {
     ENV_BUG_ON (\<not> x \<ge> s_offset s);
     let delta = x - s_offset s;
     Some (s\<lparr>s_length := (s_length s + (2 ^ 14 - delta mod 2 ^ 14)) mod 2 ^ 14, s_offset := x mod 2 ^ 50\<rparr>, delta)
   }"

definition backward_end_to :: "'a segment_scheme \<Rightarrow> nat \<Rightarrow> 'a segment_scheme option" where
  "backward_end_to s x = do {
     ENV_BUG_ON (\<not> x > s_offset s);
     Some (s\<lparr>s_length := (x - s_offset s) mod 2 ^ 14\<rparr>)
   }"

definition mend :: "segment_mapping \<Rightarrow> nat" where
  "mend m = (if zeroed m then moffset m else moffset m + s_length m)"

definition forward_offset_to :: "segment_mapping \<Rightarrow> nat \<Rightarrow> segment_mapping option" where
  "forward_offset_to m x = do {
     (m, delta) \<leftarrow> seg_forward_offset_to m x;
     Some (m\<lparr>moffset := (moffset m + (if \<not> zeroed m then delta else 0)) mod 2 ^ 55\<rparr>)
   }"

definition discard :: "segment_mapping \<Rightarrow> segment_mapping" where
  "discard m = m\<lparr>zeroed := True\<rparr>"

definition invalid_mapping :: segment_mapping where
  "invalid_mapping = \<lparr>s_offset = INVALID_OFFSET, s_length = 0, moffset = 0, zeroed = False, tag = 0\<rparr>"

definition seg_less :: "'a segment_scheme \<Rightarrow> 'b segment_scheme \<Rightarrow> bool" where
  "seg_less a b \<longleftrightarrow> seg_end a \<le> s_offset b"

text \<open>The array \<open>pm\<close> of \<open>m\<close> mappings is the list.\<close>

definition trim_edge_mappings :: "segment_mapping list \<Rightarrow> segment \<Rightarrow> segment_mapping list option" where
  "trim_edge_mappings pm s =
     (if pm = [] then Some pm
      else do {
        f \<leftarrow> (if s_offset (hd pm) < s_offset s then forward_offset_to (hd pm) (s_offset s) else Some (hd pm));
        let pm = f # tl pm;
        b \<leftarrow> (if seg_end (last pm) > seg_end s then backward_end_to (last pm) (seg_end s) else Some (last pm));
        Some (butlast pm @ [b])
      })"

text \<open>\<open>begin\<close> and \<open>end\<close> delimit the list; at most \<open>n\<close> mappings are copied.  As in the code, \<open>n = 0\<close> is no bound.\<close>

fun copy_n :: "segment_mapping list \<Rightarrow> nat \<Rightarrow> nat \<Rightarrow> segment_mapping list" where
  "copy_n [] end_offset n = []"
| "copy_n (m # ms) end_offset n =
     (if s_offset m \<ge> end_offset then []
      else m # (if n = 1 then [] else copy_n ms end_offset (n - 1)))"

subsection \<open>The meaning of mappings\<close>

text \<open>What a mapping says of a sector: the layer, and the place in it unless the sector is zero.\<close>

type_synonym place = "nat \<times> nat option"

definition seg_at :: "segment_mapping \<Rightarrow> nat \<Rightarrow> place option" where
  "seg_at m x = (if s_offset m \<le> x \<and> x < seg_end m
     then Some (tag m, if zeroed m then None else Some (moffset m + (x - s_offset m))) else None)"

fun img :: "segment_mapping list \<Rightarrow> nat \<Rightarrow> place option" where
  "img [] x = None"
| "img (m # ms) x = (case seg_at m x of None \<Rightarrow> img ms x | Some p \<Rightarrow> Some p)"

text \<open>A mapping that covers at least one sector and whose fields fit.\<close>

definition map_ok :: "segment_mapping \<Rightarrow> bool" where
  "map_ok m \<longleftrightarrow> 0 < s_length m \<and> s_length m < 2 ^ 14 \<and> seg_end m \<le> 2 ^ 50 \<and> mend m < 2 ^ 55 \<and> tag m < 2 ^ 8"

text \<open>Mappings in order, which do not overlap.\<close>

definition segs_ok :: "segment_mapping list \<Rightarrow> bool" where
  "segs_ok ms \<longleftrightarrow> sorted_wrt seg_less ms \<and> (\<forall>m\<in>set ms. map_ok m)"

lemma segs_ok_simps [simp]:
  "segs_ok []"
  "segs_ok (m # ms) \<longleftrightarrow> map_ok m \<and> segs_ok ms \<and> (\<forall>m'\<in>set ms. seg_less m m')"
  "segs_ok (ms @ ms') \<longleftrightarrow> segs_ok ms \<and> segs_ok ms' \<and> (\<forall>m\<in>set ms. \<forall>m'\<in>set ms'. seg_less m m')"
  by (auto simp: segs_ok_def sorted_wrt_append)

lemma img_append: "img (ms @ ms') x = (case img ms x of None \<Rightarrow> img ms' x | Some p \<Rightarrow> Some p)"
  by (induction ms) (auto split: option.splits)

lemma img_None_iff: "img ms x = None \<longleftrightarrow> (\<forall>m\<in>set ms. seg_at m x = None)"
  by (induction ms) (auto split: option.splits)

lemma seg_at_None_iff: "seg_at m x = None \<longleftrightarrow> \<not> (s_offset m \<le> x \<and> x < seg_end m)"
  by (simp add: seg_at_def)

lemma img_before: "(\<forall>m\<in>set ms. x < s_offset m) \<Longrightarrow> img ms x = None"
  by (fastforce simp: img_None_iff seg_at_None_iff)

lemma img_after: "(\<forall>m\<in>set ms. seg_end m \<le> x) \<Longrightarrow> img ms x = None"
  by (fastforce simp: img_None_iff seg_at_None_iff)

lemma map_ok_less: "map_ok m \<Longrightarrow> s_offset m < seg_end m"
  by (simp add: map_ok_def seg_end_def)

text \<open>Cutting a mapping.\<close>

lemma mod_wrap_sub: "d \<le> l \<Longrightarrow> l < n \<Longrightarrow> (l + (n - d mod n)) mod n = l - d" for d l n :: nat
proof -
  assume "d \<le> l" "l < n"
  then have "l + (n - d mod n) = n + (l - d)" by simp
  then show ?thesis using \<open>l < n\<close> by simp
qed

lemma forward_ok:
  assumes "map_ok m" "s_offset m \<le> x" "x < seg_end m"
  shows "\<exists>m'. forward_offset_to m x = Some m' \<and> map_ok m' \<and> s_offset m' = x \<and> seg_end m' = seg_end m \<and> tag m' = tag m \<and>
    zeroed m' = zeroed m \<and> (\<forall>y. seg_at m' y = (if x \<le> y then seg_at m y else None))"
proof -
  obtain d where x: "x = s_offset m + d" using assms(2) by (auto simp: le_iff_add)
  let ?m = "m\<lparr>s_length := s_length m - d, s_offset := x, moffset := moffset m + (if zeroed m then 0 else d)\<rparr>"
  have d: "d < s_length m" "s_length m < 2 ^ 14" "x < 2 ^ 50" "moffset m + (if zeroed m then 0 else d) < 2 ^ 55"
    using assms x by (auto simp: map_ok_def seg_end_def mend_def split: if_splits)
  have "forward_offset_to m x = Some ?m"
    using d x mod_wrap_sub [of d "s_length m" "2 ^ 14"]
    by (cases "zeroed m") (simp_all add: forward_offset_to_def seg_forward_offset_to_def)
  moreover have "map_ok ?m" "seg_end ?m = seg_end m"
    using assms(1) d x by (auto simp: map_ok_def seg_end_def mend_def split: if_splits)
  moreover have "seg_at ?m y = (if x \<le> y then seg_at m y else None)" for y
    using d x by (auto simp: seg_at_def seg_end_def)
  ultimately show ?thesis by (intro exI [of _ ?m]) simp
qed

lemma backward_ok:
  assumes "map_ok m" "s_offset m < x" "x \<le> seg_end m"
  shows "\<exists>m'. backward_end_to m x = Some m' \<and> map_ok m' \<and> s_offset m' = s_offset m \<and> seg_end m' = x \<and> tag m' = tag m \<and>
    zeroed m' = zeroed m \<and> (\<forall>y. seg_at m' y = (if y < x then seg_at m y else None))"
proof -
  let ?m = "m\<lparr>s_length := x - s_offset m\<rparr>"
  have "x - s_offset m < 2 ^ 14" using assms by (auto simp: map_ok_def seg_end_def)
  then have "backward_end_to m x = Some ?m" using assms(2) by (simp add: backward_end_to_def)
  moreover have "map_ok ?m" "seg_end ?m = x" using assms by (auto simp: map_ok_def seg_end_def mend_def)
  moreover have "seg_at ?m y = (if y < x then seg_at m y else None)" for y
    using assms(2,3) by (auto simp: seg_at_def seg_end_def)
  ultimately show ?thesis by (intro exI [of _ ?m]) simp
qed

lemma trim_front:
  assumes "segs_ok (m # ms)" "a < seg_end m"
  shows "\<exists>f. (if s_offset m < a then forward_offset_to m a else Some m) = Some f \<and> segs_ok (f # ms) \<and>
    s_offset f = max (s_offset m) a \<and> seg_end f = seg_end m \<and> (\<forall>x\<ge>a. img (f # ms) x = img (m # ms) x)"
proof (cases "s_offset m < a")
  case True
  have "map_ok m" using assms(1) by simp
  then obtain f where "forward_offset_to m a = Some f" "map_ok f" "s_offset f = a" "seg_end f = seg_end m"
      "\<forall>y. seg_at f y = (if a \<le> y then seg_at m y else None)"
    using forward_ok [of m a] True assms(2) by fastforce
  then show ?thesis using True assms(1) by (auto simp: seg_less_def)
qed (use assms in auto)

lemma trim_back:
  assumes "segs_ok (ms @ [l])" "s_offset l < e"
  shows "\<exists>b. (if seg_end l > e then backward_end_to l e else Some l) = Some b \<and> segs_ok (ms @ [b]) \<and>
    s_offset b = s_offset l \<and> seg_end b = min (seg_end l) e \<and> (\<forall>x. x < e \<longrightarrow> img (ms @ [b]) x = img (ms @ [l]) x)"
proof (cases "seg_end l > e")
  case True
  have "map_ok l" using assms(1) by simp
  then obtain b where "backward_end_to l e = Some b" "map_ok b" "s_offset b = s_offset l" "seg_end b = e"
      "\<forall>y. seg_at b y = (if y < e then seg_at l y else None)"
    using backward_ok [of l e] True assms(2) by fastforce
  then show ?thesis using True assms(1) by (auto simp: seg_less_def img_append split: option.splits)
qed (use assms in auto)

text \<open>Mappings that lie in the range from \<open>a\<close> to \<open>e\<close>, and mappings that meet it.\<close>

definition inside :: "nat \<Rightarrow> nat \<Rightarrow> segment_mapping list \<Rightarrow> bool" where
  "inside a e ms \<longleftrightarrow> (\<forall>m\<in>set ms. a \<le> s_offset m \<and> seg_end m \<le> e)"

definition meets :: "nat \<Rightarrow> nat \<Rightarrow> segment_mapping list \<Rightarrow> bool" where
  "meets a e ms \<longleftrightarrow> (\<forall>m\<in>set ms. s_offset m < e \<and> a < seg_end m)"

lemma inside_simps [simp]:
  "inside a e []" "inside a e (m # ms) \<longleftrightarrow> a \<le> s_offset m \<and> seg_end m \<le> e \<and> inside a e ms"
  "inside a e (ms @ ms') \<longleftrightarrow> inside a e ms \<and> inside a e ms'"
  by (auto simp: inside_def)

lemma inside_image: "inside a e ms \<Longrightarrow> \<not> (a \<le> x \<and> x < e) \<Longrightarrow> img ms x = None"
  unfolding inside_def img_None_iff seg_at_None_iff by (meson le_less_trans le_trans not_less)

lemma sorted_inside:
  assumes "segs_ok ms" "ms \<noteq> []" "a \<le> s_offset (hd ms)" "seg_end (last ms) \<le> e"
  shows "inside a e ms"
proof -
  have "a \<le> s_offset m \<and> seg_end m \<le> e" if m: "m \<in> set ms" for m
  proof -
    obtain us vs where ms: "ms = us @ m # vs" using split_list [OF m] by blast
    have "a \<le> s_offset m"
      using assms(1,3) map_ok_less by (cases us) (fastforce simp: ms seg_less_def)+
    moreover have "seg_end m \<le> e"
    proof (cases vs rule: rev_cases)
      case (snoc ws l)
      then show ?thesis using assms(1,4) map_ok_less [of l] by (auto simp: ms seg_less_def)
    qed (use assms(4) ms in simp)
    ultimately show ?thesis ..
  qed
  then show ?thesis by (simp add: inside_def)
qed

lemma trim_ok:
  assumes "segs_ok pm" "meets (s_offset s) (seg_end s) pm" "0 < s_length s"
  shows "\<exists>r. trim_edge_mappings pm s = Some r \<and> length r = length pm \<and> segs_ok r \<and> inside (s_offset s) (seg_end s) r \<and>
    (pm \<noteq> [] \<longrightarrow> seg_end (last r) = min (seg_end (last pm)) (seg_end s)) \<and>
    (\<forall>x. s_offset s \<le> x \<and> x < seg_end s \<longrightarrow> img r x = img pm x)"
proof (cases pm)
  case (Cons m ms)
  have "s_offset s < seg_end m" using assms(2) Cons by (simp add: meets_def)
  then obtain f where f: "(if s_offset m < s_offset s then forward_offset_to m (s_offset s) else Some m) = Some f"
      "segs_ok (f # ms)" "s_offset f = max (s_offset m) (s_offset s)" "seg_end f = seg_end m"
      "\<forall>x\<ge>s_offset s. img (f # ms) x = img pm x"
    using trim_front assms(1) unfolding Cons by blast
  obtain us l where l: "f # ms = us @ [l]" by (metis list.distinct(1) rev_exhaust)
  have less: "s_offset s < seg_end s" using assms(3) by (simp add: seg_end_def)
  have last: "seg_end l = seg_end (last pm)" using l f(4) Cons by (metis last_ConsL last_ConsR last_snoc)
  have "s_offset l < seg_end s"
  proof (cases ms rule: rev_cases)
    case (snoc vs v)
    then show ?thesis using l assms(2) Cons by (simp add: meets_def)
  qed (use l f(3) assms(2) Cons less in \<open>simp add: meets_def\<close>)
  then obtain b where b: "(if seg_end l > seg_end s then backward_end_to l (seg_end s) else Some l) = Some b"
      "segs_ok (us @ [b])" "s_offset b = s_offset l" "seg_end b = min (seg_end l) (seg_end s)"
      "\<forall>x. x < seg_end s \<longrightarrow> img (us @ [b]) x = img (us @ [l]) x"
    using trim_back f(2) unfolding l by blast
  have r: "trim_edge_mappings pm s = Some (us @ [b])"
    by (simp only: trim_edge_mappings_def Cons list.sel list.distinct if_False f(1) Option.bind.simps Let_def l
        last_snoc butlast_snoc b(1))
  moreover have "inside (s_offset s) (seg_end s) (us @ [b])"
    using b f(3) l by (intro sorted_inside) (cases us; auto)+
  moreover have "length (us @ [b]) = length pm" using arg_cong [OF l, of length] Cons by simp
  ultimately show ?thesis using b f(5) l last by (intro exI [of _ "us @ [b]"]) simp
qed (simp add: trim_edge_mappings_def)

subsection \<open>The walk over the mappings of a segment\<close>

text \<open>A call of one of the two callbacks, with the range or the mapping that it gets.\<close>

datatype visit = Zero nat nat | Data segment_mapping

fun v_start :: "visit \<Rightarrow> nat" where
  "v_start (Zero a l) = a"
| "v_start (Data m) = s_offset m"

fun v_end :: "visit \<Rightarrow> nat" where
  "v_end (Zero a l) = a + l"
| "v_end (Data m) = seg_end m"

definition NMAPPING :: nat where "NMAPPING = 16"

text \<open>The loop over one batch of mappings.  \<open>ret\<close> gives the results of the callbacks, \<open>vs\<close> is the log of the calls; a negative
  result ends the walk.\<close>

fun visit_batch :: "(visit \<Rightarrow> int) \<Rightarrow> segment_mapping list \<Rightarrow> segment \<Rightarrow> visit list \<Rightarrow>
    (int \<times> visit list + segment \<times> visit list) option" where
  "visit_batch ret [] s vs = Some (Inr (s, vs))"
| "visit_batch ret (m # ms) s vs = (
     let hole = Zero (s_offset s) ((s_offset m - s_offset s) mod 2 ^ 14);
         vs1 = (if s_offset s < s_offset m then vs @ [hole] else vs);
         v = (if zeroed m then Zero (s_offset m) (s_length m) else Data m) in
     if s_offset s < s_offset m \<and> ret hole < 0 then Some (Inl (ret hole, vs1))
     else if ret v < 0 then Some (Inl (ret v, vs1 @ [v]))
     else do {
       (s, delta) \<leftarrow> seg_forward_offset_to s (seg_end m);
       visit_batch ret ms s (vs1 @ [v])
     })"

partial_function (option) foreach_loop ::
    "(segment \<Rightarrow> nat \<Rightarrow> segment_mapping list option) \<Rightarrow> (visit \<Rightarrow> int) \<Rightarrow> segment \<Rightarrow> visit list \<Rightarrow> (int \<times> visit list) option" where
  "foreach_loop lookup ret s vs = do {
     pm \<leftarrow> lookup s NMAPPING;
     b \<leftarrow> visit_batch ret pm s vs;
     (case b of
        Inl res \<Rightarrow> Some res
      | Inr (s, vs) \<Rightarrow>
          if length pm < NMAPPING
          then Some (0, if s_length s > 0 then vs @ [Zero (s_offset s) (s_length s)] else vs)
          else foreach_loop lookup ret s vs)
   }"

definition foreach_segments ::
    "(segment \<Rightarrow> nat \<Rightarrow> segment_mapping list option) \<Rightarrow> (visit \<Rightarrow> int) \<Rightarrow> segment \<Rightarrow> (int \<times> visit list) option" where
  "foreach_segments lookup ret s = foreach_loop lookup ret s []"

subsection \<open>The interface of an index\<close>

text \<open>What a lookup of the segment \<open>s\<close> for at most \<open>n\<close> mappings may return.\<close>

definition lookup_ok :: "(nat \<Rightarrow> place option) \<Rightarrow> segment \<Rightarrow> nat \<Rightarrow> segment_mapping list \<Rightarrow> bool" where
  "lookup_ok f s n r \<longleftrightarrow> length r \<le> n \<and> segs_ok r \<and> inside (s_offset s) (seg_end s) r \<and>
     (\<forall>x. s_offset s \<le> x \<and> x < (if length r < n then seg_end s else seg_end (last r)) \<longrightarrow> img r x = f x)"

definition seg_ok :: "segment \<Rightarrow> bool" where
  "seg_ok s \<longleftrightarrow> s_length s < 2 ^ 14 \<and> seg_end s < 2 ^ 50"

text \<open>Visits that follow each other from \<open>a\<close> to \<open>e\<close> and report what \<open>f\<close> says.\<close>

fun covers :: "nat \<Rightarrow> nat \<Rightarrow> visit list \<Rightarrow> bool" where
  "covers a e [] \<longleftrightarrow> a = e"
| "covers a e (v # vs) \<longleftrightarrow> v_start v = a \<and> a < v_end v \<and> covers (v_end v) e vs"

fun reports :: "(nat \<Rightarrow> place option) \<Rightarrow> visit \<Rightarrow> bool" where
  "reports f (Zero a l) \<longleftrightarrow> (\<forall>x. a \<le> x \<and> x < a + l \<longrightarrow> f x = None \<or> (\<exists>t. f x = Some (t, None)))"
| "reports f (Data m) \<longleftrightarrow> (\<forall>x. s_offset m \<le> x \<and> x < seg_end m \<longrightarrow> f x = Some (tag m, Some (moffset m + (x - s_offset m))))"

lemma covers_append: "covers a e (us @ vs) \<longleftrightarrow> (\<exists>b. covers a b us \<and> covers b e vs)"
  by (induction us arbitrary: a) auto

lemma seg_forward_ok:
  assumes "seg_ok s" "s_offset s \<le> x" "x \<le> seg_end s"
  shows "\<exists>s'. seg_forward_offset_to s x = Some (s', x - s_offset s) \<and> seg_ok s' \<and> s_offset s' = x \<and> seg_end s' = seg_end s"
proof -
  obtain d where x: "x = s_offset s + d" using assms(2) by (auto simp: le_iff_add)
  let ?s = "s\<lparr>s_length := s_length s - d, s_offset := x\<rparr>"
  have d: "d \<le> s_length s" "s_length s < 2 ^ 14" "x < 2 ^ 50" using assms x by (auto simp: seg_ok_def seg_end_def)
  then have "seg_forward_offset_to s x = Some (?s, x - s_offset s)"
    using x mod_wrap_sub [of d "s_length s" "2 ^ 14"] by (simp add: seg_forward_offset_to_def)
  moreover have "seg_ok ?s" "seg_end ?s = seg_end s" using assms(1) d x by (auto simp: seg_ok_def seg_end_def)
  ultimately show ?thesis by (intro exI [of _ ?s]) simp
qed

text \<open>The outcome of a walk from \<open>a\<close> that has to reach \<open>e\<close>.  No callback before the last one failed.  If the walk fails, the last callback did, with the
  result of the walk; otherwise all of the range was visited.  The result of a call for a hole at the end of the segment is not looked at.\<close>

fun unmapped :: "(nat \<Rightarrow> place option) \<Rightarrow> visit \<Rightarrow> bool" where
  "unmapped f (Zero a l) \<longleftrightarrow> (\<forall>x. a \<le> x \<and> x < a + l \<longrightarrow> f x = None)"
| "unmapped f (Data m) \<longleftrightarrow> False"

definition walked :: "(nat \<Rightarrow> place option) \<Rightarrow> (visit \<Rightarrow> int) \<Rightarrow> nat \<Rightarrow> nat \<Rightarrow> int \<Rightarrow> visit list \<Rightarrow> bool" where
  "walked f ret a e r us \<longleftrightarrow> (\<forall>v\<in>set us. reports f v) \<and> (\<forall>v\<in>set (butlast us). 0 \<le> ret v) \<and>
     (if r < 0 then us \<noteq> [] \<and> ret (last us) = r \<and> covers a (v_end (last us)) us
      else r = 0 \<and> covers a e us \<and> (us \<noteq> [] \<and> ret (last us) < 0 \<longrightarrow> unmapped f (last us)))"

text \<open>A part of a walk without a failure.\<close>

definition passed :: "(nat \<Rightarrow> place option) \<Rightarrow> (visit \<Rightarrow> int) \<Rightarrow> nat \<Rightarrow> nat \<Rightarrow> visit list \<Rightarrow> bool" where
  "passed f ret a e us \<longleftrightarrow> (\<forall>v\<in>set us. reports f v \<and> 0 \<le> ret v) \<and> covers a e us"

definition batch_ok :: "(nat \<Rightarrow> place option) \<Rightarrow> (visit \<Rightarrow> int) \<Rightarrow> segment \<Rightarrow> nat \<Rightarrow> visit list \<Rightarrow>
    (int \<times> visit list + segment \<times> visit list) \<Rightarrow> bool" where
  "batch_ok f ret s e vs b \<longleftrightarrow> (case b of
       Inl (r, ws) \<Rightarrow> r < 0 \<and> (\<exists>us. ws = vs @ us \<and> walked f ret (s_offset s) e r us)
     | Inr (s', ws) \<Rightarrow> seg_ok s' \<and> seg_end s' = seg_end s \<and> s_offset s' = e \<and>
         (\<exists>us. ws = vs @ us \<and> passed f ret (s_offset s) e us))"

lemma passed_walked: "passed f ret a e us \<Longrightarrow> walked f ret a e 0 us"
  using last_in_set [of us] by (fastforce simp: passed_def walked_def dest: in_set_butlastD)

lemma walked_prepend:
  assumes "passed f ret a b us" "walked f ret b e r ws"
  shows "walked f ret a e r (us @ ws)"
proof (cases "ws = []")
  case True
  then show ?thesis using assms passed_walked [of f ret a b us] by (auto simp: walked_def split: if_splits)
next
  case False
  then show ?thesis using assms by (auto simp: walked_def passed_def covers_append butlast_append)
qed

lemma passed_append: "passed f ret a b us \<Longrightarrow> passed f ret b e ws \<Longrightarrow> passed f ret a e (us @ ws)"
  by (auto simp: passed_def covers_append)

lemma walked_one:
  assumes "reports f v" "v_start v = a" "v_end v = b" "a < b"
  shows "0 \<le> ret v \<Longrightarrow> passed f ret a b [v]" "ret v < 0 \<Longrightarrow> walked f ret a e (ret v) [v]" "unmapped f v \<Longrightarrow> walked f ret a b 0 [v]"
  using assms by (auto simp: walked_def passed_def)

lemma passed_nil: "passed f ret a a []"
  by (simp add: passed_def)

lemma batch_ok_prepend:
  assumes "passed f ret (s_offset s) (s_offset s') us" "batch_ok f ret s' e (vs @ us) b" "seg_end s' = seg_end s"
  shows "batch_ok f ret s e vs b"
  using assms walked_prepend [OF assms(1)] passed_append [OF assms(1)] by (fastforce simp: batch_ok_def split: sum.splits prod.splits)

lemma visit_batch_ok:
  assumes "segs_ok pm" "inside (s_offset s) (seg_end s) pm" "seg_ok s"
    and "\<And>x. s_offset s \<le> x \<Longrightarrow> pm \<noteq> [] \<Longrightarrow> x < seg_end (last pm) \<Longrightarrow> img pm x = f x"
  shows "\<exists>b. visit_batch ret pm s vs = Some b \<and>
    batch_ok f ret s (if pm = [] then s_offset s else seg_end (last pm)) vs b"
  using assms
proof (induction pm arbitrary: s vs)
  case Nil
  then show ?case by (auto simp: batch_ok_def passed_nil)
next
  case (Cons m ms)
  let ?e = "seg_end (last (m # ms))"
  let ?hole = "Zero (s_offset s) (s_offset m - s_offset s)" and ?v = "if zeroed m then Zero (s_offset m) (s_length m) else Data m"
  have m: "map_ok m" "s_offset s \<le> s_offset m" "seg_end m \<le> seg_end s" "s_offset m < seg_end m"
    using Cons.prems(1,2) map_ok_less by auto
  have later: "seg_end m \<le> s_offset m'" if "m' \<in> set ms" for m' using that Cons.prems(1) by (simp add: seg_less_def)
  have e: "seg_end m \<le> ?e" using later [of "last ms"] by (cases "ms = []") (auto simp: seg_end_def)
  have hole_len: "(s_offset m - s_offset s) mod 2 ^ 14 = s_offset m - s_offset s"
    using m Cons.prems(3) by (auto simp: seg_ok_def seg_end_def)
  have "img (m # ms) x = None" if "x < s_offset m" for x
    using that later m(4) by (intro img_before) fastforce
  then have hole: "reports f ?hole" using Cons.prems(4) m(2,4) e by fastforce
  have "f x = seg_at m x" if "s_offset m \<le> x" "x < seg_end m" for x
    using that m(2) e Cons.prems(4) [of x] by (auto simp: seg_at_def)
  then have v: "reports f ?v" by (auto simp: seg_at_def seg_end_def)
  have v_ends: "v_start ?v = s_offset m" "v_end ?v = seg_end m" by (simp_all add: seg_end_def)
  define us where "us = (if s_offset s < s_offset m then [?hole] else [])"
  have us: "passed f ret (s_offset s) (s_offset m) us" if "\<not> (s_offset s < s_offset m \<and> ret ?hole < 0)"
    using that hole m(2) walked_one(1) [of f ?hole] passed_nil by (auto simp: us_def)
  obtain s' where s': "seg_forward_offset_to s (seg_end m) = Some (s', seg_end m - s_offset s)" "seg_ok s'"
      "s_offset s' = seg_end m" "seg_end s' = seg_end s"
    using seg_forward_ok [OF Cons.prems(3), of "seg_end m"] m by auto
  have step: "visit_batch ret (m # ms) s vs =
      (if s_offset s < s_offset m \<and> ret ?hole < 0 then Some (Inl (ret ?hole, vs @ us))
       else if ret ?v < 0 then Some (Inl (ret ?v, vs @ us @ [?v])) else visit_batch ret ms s' (vs @ us @ [?v]))"
    by (simp only: visit_batch.simps Let_def hole_len s'(1) us_def) (simp split: prod.split)
  consider "s_offset s < s_offset m \<and> ret ?hole < 0" | "\<not> (s_offset s < s_offset m \<and> ret ?hole < 0)" "ret ?v < 0"
    | "\<not> (s_offset s < s_offset m \<and> ret ?hole < 0)" "\<not> ret ?v < 0" by blast
  then show ?case
  proof cases
    case 1
    then have "walked f ret (s_offset s) ?e (ret ?hole) us" using walked_one(2) [OF hole] by (simp add: us_def)
    then show ?thesis using 1 step by (auto simp: batch_ok_def)
  next
    case 2
    then have "walked f ret (s_offset s) ?e (ret ?v) (us @ [?v])"
      using walked_prepend [OF us walked_one(2) [OF v v_ends m(4)]] by blast
    then show ?thesis using 2 step by (auto simp: batch_ok_def)
  next
    case 3
    have "0 \<le> ret ?v" using 3(2) by simp
    then have w: "passed f ret (s_offset s) (s_offset s') (us @ [?v])"
      unfolding s'(3) by (rule passed_append [OF us [OF 3(1)] walked_one(1) [OF v v_ends m(4)]])
    have "img ms x = f x" if "s_offset s' \<le> x" "ms \<noteq> []" "x < seg_end (last ms)" for x
      using that Cons.prems(4) [of x] s'(3) m(2,4) by (simp add: seg_at_def)
    moreover have "inside (s_offset s') (seg_end s') ms"
      using Cons.prems(2) later s'(3,4) by (simp add: inside_def)
    ultimately obtain b where b: "visit_batch ret ms s' (vs @ us @ [?v]) = Some b"
        "batch_ok f ret s' (if ms = [] then s_offset s' else seg_end (last ms)) (vs @ us @ [?v]) b"
      using Cons.IH [of s' "vs @ us @ [?v]"] Cons.prems(1) s'(2) by auto
    have "batch_ok f ret s ?e vs b" using batch_ok_prepend [OF w b(2) s'(4)] s'(3) by (simp split: if_splits)
    then show ?thesis using step 3 b(1) by simp
  qed
qed

locale memory_index =
  fixes lookup :: "'i \<Rightarrow> segment \<Rightarrow> nat \<Rightarrow> segment_mapping list option"
    and inv :: "'i \<Rightarrow> bool"
    and content :: "'i \<Rightarrow> nat \<Rightarrow> place option"
  assumes lookup_spec: "inv i \<Longrightarrow> seg_ok s \<Longrightarrow> 0 < n \<Longrightarrow> \<exists>r. lookup i s n = Some r \<and> lookup_ok (content i) s n r"
begin

text \<open>The walk over a segment returns, visits every sector of the segment once and in order, and tells each callback the truth.\<close>

lemma foreach_loop_ok:
  assumes "inv i" "seg_ok s"
  shows "\<exists>r us. foreach_loop (lookup i) ret s vs = Some (r, vs @ us) \<and> walked (content i) ret (s_offset s) (seg_end s) r us"
  using assms
proof (induction "s_length s" arbitrary: s vs rule: less_induct)
  case less
  obtain pm where pm: "lookup i s NMAPPING = Some pm" "lookup_ok (content i) s NMAPPING pm"
    using lookup_spec [OF less.prems, of NMAPPING] by (auto simp: NMAPPING_def)
  have inside: "segs_ok pm" "inside (s_offset s) (seg_end s) pm" "length pm \<le> NMAPPING" using pm(2) by (simp_all add: lookup_ok_def)
  let ?e = "if pm = [] then s_offset s else seg_end (last pm)"
  have last: "seg_end (last pm) \<le> seg_end s \<and> s_offset s < seg_end (last pm)" if "pm \<noteq> []"
  proof -
    have "map_ok (last pm)" "s_offset s \<le> s_offset (last pm)" "seg_end (last pm) \<le> seg_end s"
      using inside last_in_set [OF that] by (auto simp: inside_def segs_ok_def)
    then show ?thesis using map_ok_less [of "last pm"] by linarith
  qed
  have agree: "img pm x = content i x" if "s_offset s \<le> x" "x < (if length pm < NMAPPING then seg_end s else seg_end (last pm))" for x
    using that pm(2) unfolding lookup_ok_def by blast
  have agree': "img pm x = content i x" if "s_offset s \<le> x" "pm \<noteq> []" "x < seg_end (last pm)" for x
    using that last agree [of x] by (auto split: if_splits)
  obtain b where b: "visit_batch ret pm s vs = Some b" "batch_ok (content i) ret s ?e vs b"
    using visit_batch_ok [OF inside(1,2) less.prems(2) agree'] by blast
  show ?case
  proof (cases b)
    case (Inl res)
    then show ?thesis using b pm(1) by (auto simp: batch_ok_def walked_def foreach_loop.simps [of _ _ s])
  next
    case (Inr sv)
    then obtain s' us where s': "b = Inr (s', vs @ us)" "seg_ok s'" "seg_end s' = seg_end s" "s_offset s' = ?e"
        "passed (content i) ret (s_offset s) ?e us"
      using b(2) by (auto simp: batch_ok_def split: prod.splits)
    show ?thesis
    proof (cases "length pm < NMAPPING")
      case True
      let ?v = "Zero (s_offset s') (s_length s')"
      have "content i x = None" if "s_offset s' \<le> x" "x < seg_end s" for x
      proof -
        have "s_offset s \<le> x" using that(1) s'(4) last by (auto split: if_splits)
        moreover have "img pm x = None"
          using that(1) s'(4) sorted_inside [OF inside(1), of _ "seg_end (last pm)"]
          by (intro img_after) (fastforce simp: inside_def split: if_splits)
        ultimately show ?thesis using agree [of x] True that(2) by simp
      qed
      then have "reports (content i) ?v" "unmapped (content i) ?v" using s'(3) by (auto simp: seg_end_def)
      then have "walked (content i) ret (s_offset s) (seg_end s) 0 (if s_length s' > 0 then us @ [?v] else us)"
        using walked_prepend [OF s'(5), of "seg_end s" 0 "[?v]"] walked_one(3) [of "content i" ?v] passed_walked [OF s'(5)] s'(3,4)
        by (auto simp: seg_end_def)
      then show ?thesis using True pm(1) b(1) s'(1) by (auto simp: foreach_loop.simps [of _ _ s])
    next
      case False
      then have "pm \<noteq> []" by (auto simp: NMAPPING_def)
      then have "s_length s' < s_length s" using last s'(3,4) by (auto simp: seg_end_def)
      then obtain r ws where "foreach_loop (lookup i) ret s' (vs @ us) = Some (r, (vs @ us) @ ws)"
          "walked (content i) ret (s_offset s') (seg_end s') r ws"
        using less.hyps [of s' "vs @ us"] less.prems(1) s'(2) by blast
      then show ?thesis
        using False pm(1) b(1) s' walked_prepend [OF s'(5)] by (auto simp: foreach_loop.simps [of _ _ s])
    qed
  qed
qed

end

end
