(* ===== verification/LSMT_Index.thy ===== *)
theory LSMT_Index
  imports LSMT_Segment
begin

text \<open>
  The read-only index and the writable index of a layer (\<open>lsmt/index.cpp\<close>, classes \<open>Index\<close> and \<open>Index0\<close>).

  The array of an \<open>Index\<close> and the ordered set of an \<open>Index0\<close> are lists.  \<open>std::lower_bound\<close>, and the member
  function of the set, give the first element that is not below their argument in a sequence that is
  partitioned by the comparison.  An iterator is a splitting of the list: the elements before it and
  the elements from it on.
\<close>

subsection \<open>Index\<close>

record lsmt_index =
  ix_mapping :: "segment_mapping list"
  ix_alloc_blk :: nat
  virtual_size :: nat

definition seg_lower_bound :: "segment_mapping list \<Rightarrow> 'a segment_scheme \<Rightarrow> segment_mapping list" where
  "seg_lower_bound ms s = dropWhile (\<lambda>m. seg_less m s) ms"

definition Index_get_alloc_blks :: "segment_mapping list \<Rightarrow> nat" where
  "Index_get_alloc_blks ms = sum_list (map (\<lambda>m. s_length m * (if zeroed m then 0 else 1)) ms)"

text \<open>The index over an array, and the index that owns a vector; only the latter counts its blocks.\<close>

definition Index_of_array :: "segment_mapping list \<Rightarrow> nat \<Rightarrow> lsmt_index" where
  "Index_of_array ms vsz = \<lparr>ix_mapping = ms, ix_alloc_blk = 0, virtual_size = vsz\<rparr>"

definition Index_of_vector :: "segment_mapping list \<Rightarrow> nat \<Rightarrow> lsmt_index" where
  "Index_of_vector ms vsz = \<lparr>ix_mapping = ms, ix_alloc_blk = Index_get_alloc_blks ms, virtual_size = vsz\<rparr>"

definition Index_lookup :: "lsmt_index \<Rightarrow> segment \<Rightarrow> nat \<Rightarrow> segment_mapping list option" where
  "Index_lookup ix s n =
     (if s_length s = 0 then Some []
      else trim_edge_mappings (copy_n (seg_lower_bound (ix_mapping ix) s) (seg_end s) n) s)"

definition Index_front :: "lsmt_index \<Rightarrow> segment_mapping" where
  "Index_front ix = (if ix_mapping ix \<noteq> [] then hd (ix_mapping ix) else invalid_mapping)"

definition Index_back :: "lsmt_index \<Rightarrow> segment_mapping" where
  "Index_back ix = (if ix_mapping ix \<noteq> [] then last (ix_mapping ix) else invalid_mapping)"

definition Index_lower_bound :: "lsmt_index \<Rightarrow> nat \<Rightarrow> segment_mapping list" where
  "Index_lower_bound ix off = seg_lower_bound (ix_mapping ix) \<lparr>s_offset = off mod 2 ^ 50, s_length = 1\<rparr>"

definition Index_increase_tag :: "lsmt_index \<Rightarrow> int \<Rightarrow> lsmt_index" where
  "Index_increase_tag ix delta = ix\<lparr>ix_mapping := map (\<lambda>m. m\<lparr>tag := nat ((int (tag m) + delta) mod 2 ^ 8)\<rparr>) (ix_mapping ix)\<rparr>"

fun verify_mapping_order :: "segment_mapping list \<Rightarrow> bool" where
  "verify_mapping_order [] = True"
| "verify_mapping_order [m] = True"
| "verify_mapping_order (m # m' # ms) = (if \<not> seg_less m m' then False else verify_mapping_order (m' # ms))"

definition within :: "nat \<Rightarrow> nat \<Rightarrow> nat \<Rightarrow> nat \<Rightarrow> bool \<Rightarrow> bool" where
  "within x y b e z = (if z then b \<le> x \<and> x \<le> e else b \<le> x \<and> x < e \<and> b < y \<and> y \<le> e)"

definition verify_mapping_moffset :: "segment_mapping list \<Rightarrow> nat \<Rightarrow> nat \<Rightarrow> bool" where
  "verify_mapping_moffset ms b e = list_all (\<lambda>m. within (moffset m) (mend m) b e (zeroed m)) ms"

definition create_memory_index :: "segment_mapping list \<Rightarrow> nat \<Rightarrow> nat \<Rightarrow> nat \<Rightarrow> lsmt_index option" where
  "create_memory_index ms mb me vsz =
     (if verify_mapping_order ms \<and> verify_mapping_moffset ms mb me then Some (Index_of_array ms vsz) else None)"

subsection \<open>Index0\<close>

record index0 =
  mapping0 :: "segment_mapping list"
  m_alloc :: nat

definition alloc_sub :: "nat \<Rightarrow> segment_mapping \<Rightarrow> nat" where
  "alloc_sub a m = (if zeroed m then a else (a + (2 ^ 64 - s_length m)) mod 2 ^ 64)"

definition alloc_add :: "nat \<Rightarrow> segment_mapping \<Rightarrow> nat" where
  "alloc_add a m = (if zeroed m then a else (a + s_length m) mod 2 ^ 64)"

text \<open>\<open>std::set::insert\<close>: nothing happens when the set has an element that is neither below nor above the new one.\<close>

definition set_insert :: "segment_mapping \<Rightarrow> segment_mapping list \<Rightarrow> segment_mapping list" where
  "set_insert m ms = (
     let below = takeWhile (\<lambda>x. seg_less x m) ms; rest = dropWhile (\<lambda>x. seg_less x m) ms
     in if rest \<noteq> [] \<and> \<not> seg_less m (hd rest) then ms else below @ m # rest)"

text \<open>The iterator points to \<open>p\<close>, between \<open>bef\<close> and \<open>aft\<close>; the result is the splitting at the iterator \<open>nx\<close>.  The part of
  \<open>p\<close> that lies behind the segment is inserted before \<open>nx\<close>.\<close>

definition remove_partial_overlap ::
    "segment_mapping list \<Rightarrow> segment_mapping \<Rightarrow> segment_mapping list \<Rightarrow> nat \<Rightarrow> nat \<Rightarrow> nat \<Rightarrow>
     (segment_mapping list \<times> segment_mapping list \<times> nat) option" where
  "remove_partial_overlap bef p aft alloc off len = (
     let e = off + len in
     if s_offset p < off then do {
       ENV_BUG_ON (\<not> seg_end p > off);
       let alloc = alloc_sub alloc p;
       if seg_end p \<le> e then do {
         p \<leftarrow> backward_end_to p off;
         Some (bef @ [p], aft, alloc_add alloc p)
       } else do {
         nm \<leftarrow> forward_offset_to p e;
         p \<leftarrow> backward_end_to p off;
         Some (bef @ [p, nm], aft, alloc_add (alloc_add alloc p) nm)
       }
     } else if s_offset p < e then do {
       let alloc = alloc_sub alloc p;
       if seg_end p \<le> e then Some (bef, aft, alloc)
       else do {
         p \<leftarrow> forward_offset_to p e;
         Some (bef @ [p], aft, alloc_add alloc p)
       }
     } else Some (bef @ [p], aft, alloc))"

fun insert_loop :: "segment_mapping \<Rightarrow> segment_mapping list \<Rightarrow> segment_mapping list \<Rightarrow> nat \<Rightarrow>
    (segment_mapping list \<times> segment_mapping list \<times> nat) option" where
  "insert_loop m bef [] alloc = Some (bef, [], alloc)"
| "insert_loop m bef (p # aft) alloc =
     (if s_offset p < seg_end m then
        if seg_end p \<le> seg_end m then insert_loop m bef aft (alloc_sub alloc p)
        else remove_partial_overlap bef p aft alloc (s_offset m) (s_length m)
      else Some (bef, p # aft, alloc))"

definition Index0_insert :: "index0 \<Rightarrow> segment_mapping \<Rightarrow> index0 option" where
  "Index0_insert ix m =
     (if s_length m = 0 then Some ix
      else
        let alloc = alloc_add (m_alloc ix) m;
            bef = takeWhile (\<lambda>x. seg_less x m) (mapping0 ix); rest = dropWhile (\<lambda>x. seg_less x m) (mapping0 ix) in
        (case rest of
           [] \<Rightarrow> Some (ix\<lparr>mapping0 := set_insert m (mapping0 ix), m_alloc := alloc\<rparr>)
         | p # aft \<Rightarrow> do {
             (bef, aft, alloc) \<leftarrow> remove_partial_overlap bef p aft alloc (s_offset m) (s_length m);
             ENV_BUG_ON (\<not> (aft = [] \<or> s_offset (hd aft) > s_offset m));
             (bef, aft, alloc) \<leftarrow> insert_loop m bef aft alloc;
             Some (ix\<lparr>mapping0 := set_insert m (bef @ aft), m_alloc := alloc\<rparr>)
           }))"

fun insert_all :: "index0 \<Rightarrow> segment_mapping list \<Rightarrow> index0 option" where
  "insert_all ix [] = Some ix"
| "insert_all ix (m # ms) = do { ix \<leftarrow> Index0_insert ix m; insert_all ix ms }"

definition Index0_empty :: index0 where
  "Index0_empty = \<lparr>mapping0 = [], m_alloc = 0\<rparr>"

definition Index0_new :: "segment_mapping list \<Rightarrow> index0 option" where
  "Index0_new ms = insert_all Index0_empty ms"

definition create_memory_index0 :: "segment_mapping list \<Rightarrow> nat \<Rightarrow> nat \<Rightarrow> index0 option" where
  "create_memory_index0 ms mb me = (if verify_mapping_moffset ms mb me then Index0_new ms else None)"

definition Index0_lookup :: "index0 \<Rightarrow> segment \<Rightarrow> nat \<Rightarrow> segment_mapping list option" where
  "Index0_lookup ix s n =
     (if s_length s = 0 then Some []
      else trim_edge_mappings (copy_n (seg_lower_bound (mapping0 ix) s) (seg_end s) n) s)"

definition Index0_front :: "index0 \<Rightarrow> segment_mapping" where
  "Index0_front ix = (if mapping0 ix \<noteq> [] then hd (mapping0 ix) else invalid_mapping)"

definition Index0_back :: "index0 \<Rightarrow> segment_mapping" where
  "Index0_back ix = (if mapping0 ix \<noteq> [] then last (mapping0 ix) else invalid_mapping)"

text \<open>\<open>dump\<close>: the array has room for the mappings and is rounded up to the alignment (in bytes, a mapping has 16); the result is the
  size of the array and its initialised prefix.  An alignment below 16 divides by zero.\<close>

definition Index0_dump :: "index0 \<Rightarrow> nat \<Rightarrow> (nat \<times> segment_mapping list) option" where
  "Index0_dump ix align = (
     let size = length (mapping0 ix) in
     if align > 0 then do {
       let align = align div 16;
       ENV_BUG_ON (align = 0);
       Some ((size + align - 1) div align * align, mapping0 ix)
     } else Some (size, mapping0 ix))"

definition Index0_make_read_only_index :: "index0 \<Rightarrow> lsmt_index" where
  "Index0_make_read_only_index ix = Index_of_vector (mapping0 ix) 0"

subsection \<open>Lookup\<close>

lemma copy_n_take: "0 < n \<Longrightarrow> copy_n ms e n = take n (takeWhile (\<lambda>m. s_offset m < e) ms)"
proof (induction ms arbitrary: n)
  case (Cons m ms)
  then show ?case by (cases n; cases "n = 1") (auto simp: not_le)
qed simp

lemma lower_bound_split:
  assumes "segs_ok ms"
  obtains bef rest where "ms = bef @ rest" "seg_lower_bound ms s = rest" "takeWhile (\<lambda>m. seg_less m s) ms = bef"
    "\<And>m. m \<in> set bef \<Longrightarrow> seg_end m \<le> s_offset s" "\<And>m. m \<in> set rest \<Longrightarrow> s_offset s < seg_end m"
proof -
  define bef rest where "bef = takeWhile (\<lambda>m. seg_less m s) ms" and "rest = seg_lower_bound ms s"
  have ms: "ms = bef @ rest" by (simp add: bef_def rest_def seg_lower_bound_def)
  have "seg_end m \<le> s_offset s" if "m \<in> set bef" for m
    using that set_takeWhileD unfolding bef_def by (fastforce simp: seg_less_def)
  moreover have "s_offset s < seg_end m" if m: "m \<in> set rest" for m
  proof -
    obtain h t where rest: "rest = h # t" using m by (cases rest) auto
    have "s_offset s < seg_end h"
      using rest by (simp add: rest_def seg_lower_bound_def dropWhile_eq_Cons_conv seg_less_def)
    moreover have "seg_end h \<le> seg_end m" if "m \<in> set t"
      using that assms ms rest map_ok_less [of m] by (auto simp: seg_less_def segs_ok_def sorted_wrt_append) 
    ultimately show ?thesis using m rest by fastforce
  qed
  ultimately show ?thesis using that [OF ms] by (simp add: bef_def rest_def)
qed

lemma takeWhile_offset_split:
  assumes "segs_ok rest"
  obtains mid aft where "rest = mid @ aft" "takeWhile (\<lambda>m. s_offset m < e) rest = mid"
    "\<And>m. m \<in> set mid \<Longrightarrow> s_offset m < e" "\<And>m. m \<in> set aft \<Longrightarrow> e \<le> s_offset m"
proof -
  define mid aft where "mid = takeWhile (\<lambda>m. s_offset m < e) rest" and "aft = dropWhile (\<lambda>m. s_offset m < e) rest"
  have rest: "rest = mid @ aft" by (simp add: mid_def aft_def)
  have "e \<le> s_offset m" if m: "m \<in> set aft" for m
  proof -
    obtain h t where aft: "aft = h # t" using m by (cases aft) auto
    have "e \<le> s_offset h" using aft by (simp add: aft_def dropWhile_eq_Cons_conv)
    moreover have "s_offset h \<le> s_offset m" if "m \<in> set t"
      using that assms rest aft by (auto simp: seg_less_def seg_end_def)
    ultimately show ?thesis using m aft by fastforce
  qed
  then show ?thesis using that [OF rest] set_takeWhileD unfolding mid_def by fastforce
qed

lemma list_lookup_ok:
  assumes "segs_ok ms" "0 < n" "0 < s_length s"
  shows "\<exists>r. trim_edge_mappings (copy_n (seg_lower_bound ms s) (seg_end s) n) s = Some r \<and> lookup_ok (img ms) s n r"
proof -
  obtain bef rest where b: "ms = bef @ rest" "seg_lower_bound ms s = rest"
      "\<And>m. m \<in> set bef \<Longrightarrow> seg_end m \<le> s_offset s" "\<And>m. m \<in> set rest \<Longrightarrow> s_offset s < seg_end m"
    using lower_bound_split [OF assms(1)] by metis
  have "segs_ok rest" using assms(1) b(1) by simp
  then obtain mid aft where c: "rest = mid @ aft" "takeWhile (\<lambda>m. s_offset m < seg_end s) rest = mid"
      "\<And>m. m \<in> set mid \<Longrightarrow> s_offset m < seg_end s" "\<And>m. m \<in> set aft \<Longrightarrow> seg_end s \<le> s_offset m"
    using takeWhile_offset_split [of rest "seg_end s"] by metis
  let ?pm = "take n mid"
  have mid: "segs_ok mid" using \<open>segs_ok rest\<close> c(1) by simp
  then have pm: "segs_ok ?pm" using append_take_drop_id [of n mid] by (metis segs_ok_simps(3))
  moreover have "meets (s_offset s) (seg_end s) ?pm"
    using b(4) c(1,3) by (auto simp: meets_def dest!: in_set_takeD)
  ultimately obtain r where r: "trim_edge_mappings ?pm s = Some r" "length r = length ?pm" "segs_ok r"
      "inside (s_offset s) (seg_end s) r" "?pm \<noteq> [] \<longrightarrow> seg_end (last r) = min (seg_end (last ?pm)) (seg_end s)"
      "\<forall>x. s_offset s \<le> x \<and> x < seg_end s \<longrightarrow> img r x = img ?pm x"
    using trim_ok assms(3) by blast
  have img: "img ms x = img mid x" if "s_offset s \<le> x" "x < seg_end s" for x
  proof -
    have "img bef x = None" using b(3) that by (intro img_after) fastforce
    moreover have "img aft x = None" using c(4) that by (intro img_before) fastforce
    ultimately show ?thesis by (simp add: b(1) c(1) img_append split: option.splits)
  qed
  have cut: "img mid x = img ?pm x" if "?pm \<noteq> []" "x < seg_end (last ?pm)" for x
  proof -
    have "segs_ok (?pm @ drop n mid)" using mid by simp
    then have "\<forall>m\<in>set (drop n mid). seg_end (last ?pm) \<le> s_offset m"
      using last_in_set [OF that(1)] unfolding segs_ok_simps(3) by (auto simp: seg_less_def)
    then have "img (drop n mid) x = None" using that(2) by (intro img_before) fastforce
    then show ?thesis using img_append [of ?pm "drop n mid" x] by (simp split: option.splits)
  qed
  have "img r x = img ms x" if "s_offset s \<le> x" "x < (if length r < n then seg_end s else seg_end (last r))" for x
  proof (cases "length r < n")
    case True
    then have "?pm = mid" using r(2) by simp
    then show ?thesis using True that r(6) img by simp
  next
    case False
    then have ne: "?pm \<noteq> []" using r(2) assms(2) by auto
    then have "x < seg_end (last ?pm)" "x < seg_end s" using that False r(5) by auto
    then show ?thesis using that r(6) img cut ne by simp
  qed
  then have "lookup_ok (img ms) s n r" using r by (simp add: lookup_ok_def)
  then show ?thesis using r(1) b(2) c(2) copy_n_take [OF assms(2)] by simp
qed

lemma lookup_ok_empty: "s_length s = 0 \<Longrightarrow> 0 < n \<Longrightarrow> lookup_ok f s n []"
  by (auto simp: lookup_ok_def seg_end_def)

lemma Index_lookup_spec:
  assumes "segs_ok (ix_mapping ix)" "0 < n"
  shows "\<exists>r. Index_lookup ix s n = Some r \<and> lookup_ok (img (ix_mapping ix)) s n r"
  using list_lookup_ok [OF assms] lookup_ok_empty [OF _ assms(2)] by (simp add: Index_lookup_def)

lemma Index0_lookup_spec:
  assumes "segs_ok (mapping0 ix)" "0 < n"
  shows "\<exists>r. Index0_lookup ix s n = Some r \<and> lookup_ok (img (mapping0 ix)) s n r"
  using list_lookup_ok [OF assms] lookup_ok_empty [OF _ assms(2)] by (simp add: Index0_lookup_def)

interpretation ix: memory_index Index_lookup "\<lambda>ix. segs_ok (ix_mapping ix)" "\<lambda>ix. img (ix_mapping ix)"
  by unfold_locales (rule Index_lookup_spec)

interpretation ix0: memory_index Index0_lookup "\<lambda>ix. segs_ok (mapping0 ix)" "\<lambda>ix. img (mapping0 ix)"
  by unfold_locales (rule Index0_lookup_spec)

subsection \<open>Insertion\<close>

definition blk :: "segment_mapping \<Rightarrow> nat" where
  "blk m = (if zeroed m then 0 else s_length m)"

definition blocks :: "segment_mapping list \<Rightarrow> nat" where
  "blocks ms = sum_list (map blk ms)"

lemma blocks_simps [simp]:
  "blocks [] = 0" "blocks (m # ms) = blk m + blocks ms" "blocks (ms @ ms') = blocks ms + blocks ms'"
  by (simp_all add: blocks_def)

lemma Index_get_alloc_blks_blocks: "Index_get_alloc_blks ms = blocks ms"
  by (induction ms) (simp_all add: Index_get_alloc_blks_def blk_def)

text \<open>Mappings that do not overlap have fewer blocks than the device has sectors.\<close>

lemma blocks_below: "segs_ok ms \<Longrightarrow> \<forall>m\<in>set ms. b \<le> s_offset m \<Longrightarrow> b \<le> 2 ^ 50 \<Longrightarrow> b + blocks ms \<le> 2 ^ 50"
proof (induction ms arbitrary: b)
  case (Cons m ms)
  have "seg_end m + blocks ms \<le> 2 ^ 50"
    using Cons by (intro Cons.IH) (auto simp: seg_less_def map_ok_def)
  then show ?case using Cons.prems by (auto simp: seg_end_def blk_def)
qed simp

lemma blocks_le: "segs_ok ms \<Longrightarrow> blocks ms \<le> 2 ^ 50"
  using blocks_below [of ms 0] by simp

lemma alloc_add_blk: "a + blk m < 2 ^ 64 \<Longrightarrow> alloc_add a m = a + blk m"
  by (cases "zeroed m") (simp_all add: alloc_add_def blk_def)

lemma alloc_sub_blk: "map_ok m \<Longrightarrow> a < 2 ^ 64 \<Longrightarrow> blk m \<le> a \<Longrightarrow> alloc_sub a m = a - blk m"
proof -
  assume "map_ok m" "a < 2 ^ 64" "blk m \<le> a"
  then show ?thesis
    using mod_wrap_sub [of "s_length m" a "2 ^ 64"] by (auto simp: alloc_sub_def blk_def map_ok_def)
qed

text \<open>No mapping has a sector between \<open>a\<close> and \<open>e\<close>.\<close>

definition avoids :: "nat \<Rightarrow> nat \<Rightarrow> segment_mapping list \<Rightarrow> bool" where
  "avoids a e ms \<longleftrightarrow> (\<forall>m\<in>set ms. seg_end m \<le> a \<or> e \<le> s_offset m)"

lemma avoids_simps [simp]:
  "avoids a e []" "avoids a e (m # ms) \<longleftrightarrow> (seg_end m \<le> a \<or> e \<le> s_offset m) \<and> avoids a e ms"
  "avoids a e (ms @ ms') \<longleftrightarrow> avoids a e ms \<and> avoids a e ms'"
  by (auto simp: avoids_def)

text \<open>The state of an insertion at the range from \<open>a\<close> to \<open>e\<close>: \<open>ms\<close> became \<open>bef @ aft\<close>, and \<open>c\<close> blocks are counted for the new mapping.\<close>

definition clearing :: "segment_mapping list \<Rightarrow> nat \<Rightarrow> nat \<Rightarrow> nat \<Rightarrow> segment_mapping list \<Rightarrow> segment_mapping list \<Rightarrow> nat \<Rightarrow> bool" where
  "clearing ms a e c bef aft alloc \<longleftrightarrow> segs_ok (bef @ aft) \<and> avoids a e bef \<and> (\<forall>m\<in>set aft. a < seg_end m) \<and>
     (\<forall>x. x < a \<or> e \<le> x \<longrightarrow> img (bef @ aft) x = img ms x) \<and> alloc = blocks (bef @ aft) + c"

lemma img_replace:
  assumes "\<And>x. x < a \<or> e \<le> x \<Longrightarrow> img qs x = seg_at p x"
  shows "x < a \<or> e \<le> x \<Longrightarrow> img (bef @ qs @ aft) x = img (bef @ p # aft) x"
  using assms by (simp add: img_append split: option.splits)

lemma segs_ok_replace:
  assumes "segs_ok (bef @ p # aft)" "segs_ok qs" "inside (s_offset p) (seg_end p) qs"
  shows "segs_ok (bef @ qs @ aft)"
proof -
  have "seg_less b q" if "b \<in> set bef" "q \<in> set qs" for b q
    using that assms(1,3) by (fastforce simp: seg_less_def inside_def)
  moreover have "seg_less q x" if "q \<in> set qs" "x \<in> set aft" for q x
    using that assms(1,3) by (fastforce simp: seg_less_def inside_def)
  ultimately show ?thesis using assms(1,2) by auto
qed

lemma clearing_step:
  assumes "clearing ms a e c bef (p # aft) alloc" "segs_ok qs" "inside (s_offset p) (seg_end p) qs" "avoids a e qs"
    and "\<And>x. x < a \<or> e \<le> x \<Longrightarrow> img qs x = seg_at p x" "alloc' + blk p = alloc + blocks qs"
  shows "clearing ms a e c (bef @ qs) aft alloc'"
  using assms(1,4,6) img_replace [OF assms(5), where bef = bef and aft = aft] segs_ok_replace [of bef p aft qs] assms(2,3)
  unfolding clearing_def by auto

lemma remove_partial_overlap_ok:
  assumes cl: "clearing ms a (a + l) c bef (p # aft) alloc" and "0 < l" "c < 2 ^ 14"
  shows "\<exists>bef' alloc'. remove_partial_overlap bef p aft alloc a l = Some (bef', aft, alloc') \<and>
    clearing ms a (a + l) c bef' aft alloc'"
proof -
  let ?e = "a + l"
  have ok: "segs_ok (bef @ p # aft)" "a < seg_end p" "map_ok p" "alloc = blocks (bef @ p # aft) + c"
    using cl by (auto simp: clearing_def)
  have alloc: "alloc < 2 ^ 63" "blk p \<le> alloc" using ok(4) blocks_le [OF ok(1)] assms(3) by auto
  have sub: "alloc_sub alloc p = alloc - blk p" using alloc ok(3) by (intro alloc_sub_blk) auto
  have add: "alloc_add (alloc - blk p) q = alloc - blk p + blk q" if "blk q \<le> blk p" for q
    using that alloc by (intro alloc_add_blk) auto
  note step = clearing_step [OF cl]
  consider (shrink) "s_offset p < a" "seg_end p \<le> ?e" | (split) "s_offset p < a" "?e < seg_end p"
    | (gone) "a \<le> s_offset p" "s_offset p < ?e" "seg_end p \<le> ?e"
    | (front) "a \<le> s_offset p" "s_offset p < ?e" "?e < seg_end p" | (none) "?e \<le> s_offset p" by linarith
  then show ?thesis
  proof cases
    case shrink
    then obtain q where q: "backward_end_to p a = Some q" "map_ok q" "s_offset q = s_offset p" "seg_end q = a"
        "zeroed q = zeroed p" "\<forall>y. seg_at q y = (if y < a then seg_at p y else None)"
      using backward_ok [OF ok(3)] ok(2) by (metis less_imp_le)
    have "blk q \<le> blk p" using q(3-5) shrink ok(2) by (auto simp: blk_def seg_end_def)
    moreover have "img [q] x = seg_at p x" if "x < a \<or> ?e \<le> x" for x
      using that q(6) shrink by (auto simp: seg_at_def [of p] split: option.splits)
    then have "clearing ms a ?e c (bef @ [q]) aft (alloc - blk p + blk q)"
      using q(2-4) ok(2) alloc(2) by (intro step) auto
    ultimately show ?thesis using shrink ok(2) q(1) sub add by (simp add: remove_partial_overlap_def Let_def)
  next
    case split
    obtain q where q: "backward_end_to p a = Some q" "map_ok q" "s_offset q = s_offset p" "seg_end q = a"
        "zeroed q = zeroed p" "\<forall>y. seg_at q y = (if y < a then seg_at p y else None)"
      using backward_ok [OF ok(3) split(1)] ok(2) by (metis less_imp_le)
    obtain f where f: "forward_offset_to p ?e = Some f" "map_ok f" "s_offset f = ?e" "seg_end f = seg_end p"
        "zeroed f = zeroed p" "\<forall>y. seg_at f y = (if ?e \<le> y then seg_at p y else None)"
      using forward_ok [OF ok(3), of ?e] split by fastforce
    have b: "blk q + blk f \<le> blk p" using q(3-5) f(3-5) split by (auto simp: blk_def seg_end_def)
    have "img [q, f] x = seg_at p x" if "x < a \<or> ?e \<le> x" for x
      using that q(6) f(6) by (auto split: option.splits)
    then have "clearing ms a ?e c (bef @ [q, f]) aft (alloc - blk p + blk q + blk f)"
      using q(2-4) f(2-4) split alloc(2) by (intro step) (auto simp: seg_less_def)
    moreover have "alloc_add (alloc - blk p + blk q) f = alloc - blk p + blk q + blk f"
      using b alloc by (intro alloc_add_blk) auto
    ultimately show ?thesis
      using split ok(2) q(1) f(1) sub add b by (simp add: remove_partial_overlap_def Let_def)
  next
    case gone
    then have "seg_at p x = None" if "x < a \<or> ?e \<le> x" for x using that by (auto simp: seg_at_def)
    then have "clearing ms a ?e c (bef @ []) aft (alloc - blk p)" using alloc(2) by (intro step) auto
    then show ?thesis using gone sub by (simp add: remove_partial_overlap_def Let_def)
  next
    case front
    then obtain f where f: "forward_offset_to p ?e = Some f" "map_ok f" "s_offset f = ?e" "seg_end f = seg_end p"
        "zeroed f = zeroed p" "\<forall>y. seg_at f y = (if ?e \<le> y then seg_at p y else None)"
      using forward_ok [OF ok(3), of ?e] by fastforce
    have "blk f \<le> blk p" using f(3-5) front by (auto simp: blk_def seg_end_def)
    moreover have "img [f] x = seg_at p x" if "x < a \<or> ?e \<le> x" for x
      using that f(6) front by (auto simp: seg_at_def [of p] split: option.splits)
    then have "clearing ms a ?e c (bef @ [f]) aft (alloc - blk p + blk f)"
      using f(2-4) front alloc(2) by (intro step) auto
    ultimately show ?thesis using front f(1) sub add by (simp add: remove_partial_overlap_def Let_def)
  next
    case none
    then have "clearing ms a ?e c (bef @ [p]) aft alloc" using ok(3) by (intro step) (auto split: option.splits)
    then show ?thesis using none \<open>0 < l\<close> by (simp add: remove_partial_overlap_def Let_def)
  qed
qed

lemma insert_loop_ok:
  assumes "clearing ms (s_offset m) (seg_end m) c bef aft alloc" "\<forall>p\<in>set aft. s_offset m \<le> s_offset p"
    and "0 < s_length m" "c < 2 ^ 14"
  shows "\<exists>bef' aft' alloc'. insert_loop m bef aft alloc = Some (bef', aft', alloc') \<and>
    clearing ms (s_offset m) (seg_end m) c bef' aft' alloc' \<and> avoids (s_offset m) (seg_end m) aft'"
  using assms(1,2)
proof (induction aft arbitrary: bef alloc)
  case (Cons p aft)
  have ok: "segs_ok (bef @ p # aft)" "map_ok p" "s_offset m < seg_end p" "alloc = blocks (bef @ p # aft) + c"
    using Cons.prems(1) by (auto simp: clearing_def)
  have later: "avoids (s_offset m) (seg_end m) aft" if "seg_end m \<le> seg_end p"
    using that ok(1) by (auto simp: avoids_def seg_less_def)
  consider (stop) "seg_end m \<le> s_offset p" | (erase) "s_offset p < seg_end m" "seg_end p \<le> seg_end m"
    | (cut) "s_offset p < seg_end m" "seg_end m < seg_end p" by linarith
  then show ?case
  proof cases
    case stop
    then show ?thesis using Cons.prems(1) later map_ok_less [OF ok(2)] by auto
  next
    case erase
    have a: "alloc < 2 ^ 64" using ok(4) blocks_le [OF ok(1)] assms(4) by auto
    then have sub: "alloc_sub alloc p = alloc - blk p" using ok(2,4) by (intro alloc_sub_blk) auto
    have "seg_at p x = None" if "x < s_offset m \<or> seg_end m \<le> x" for x
      using that erase Cons.prems(2) by (auto simp: seg_at_def)
    then have "clearing ms (s_offset m) (seg_end m) c (bef @ []) aft (alloc - blk p)"
      using ok(4) by (intro clearing_step [OF Cons.prems(1)]) auto
    then show ?thesis using erase sub Cons.IH [of bef "alloc - blk p"] Cons.prems(2) by simp
  next
    case cut
    then show ?thesis
      using remove_partial_overlap_ok [of ms "s_offset m" "s_length m" c bef p aft alloc] Cons.prems(1) assms(3,4) later
      by (fastforce simp: seg_end_def)
  qed
qed auto

lemma set_insert_ok:
  assumes "segs_ok ms" "map_ok m" "avoids (s_offset m) (seg_end m) ms"
  shows "segs_ok (set_insert m ms) \<and> blocks (set_insert m ms) = blocks ms + blk m \<and>
    (\<forall>x. img (set_insert m ms) x = (case seg_at m x of None \<Rightarrow> img ms x | Some p \<Rightarrow> Some p))"
proof -
  obtain bef rest where b: "ms = bef @ rest" "seg_lower_bound ms m = rest" "takeWhile (\<lambda>x. seg_less x m) ms = bef"
      "\<And>q. q \<in> set bef \<Longrightarrow> seg_end q \<le> s_offset m" "\<And>q. q \<in> set rest \<Longrightarrow> s_offset m < seg_end q"
    using lower_bound_split [OF assms(1)] by metis
  have rest: "seg_end m \<le> s_offset q" if "q \<in> set rest" for q
    using b(5) [OF that] bspec [OF assms(3) [unfolded avoids_def], of q] that b(1) by auto
  have "set_insert m ms = bef @ m # rest"
    using b(2,3) rest by (cases rest) (auto simp: set_insert_def seg_lower_bound_def seg_less_def)
  moreover have "segs_ok (bef @ m # rest)" using assms(1,2) b(1,4) rest by (auto simp: seg_less_def)
  moreover have "img (bef @ m # rest) x = (case seg_at m x of None \<Rightarrow> img ms x | Some p \<Rightarrow> Some p)" for x
  proof (cases "seg_at m x")
    case None
    then show ?thesis by (simp add: b(1) img_append split: option.split)
  next
    case (Some p)
    then have "img bef x = None" using b(4) by (intro img_after) (fastforce simp: seg_at_def split: if_splits)
    then show ?thesis using Some by (simp add: img_append)
  qed
  ultimately show ?thesis by (simp add: b(1))
qed

text \<open>The writable index and its count of blocks.\<close>

definition index0_ok :: "index0 \<Rightarrow> bool" where
  "index0_ok ix \<longleftrightarrow> segs_ok (mapping0 ix) \<and> m_alloc ix = blocks (mapping0 ix)"

lemma Index0_insert_ok:
  assumes "index0_ok ix" "map_ok m"
  shows "\<exists>ix'. Index0_insert ix m = Some ix' \<and> index0_ok ix' \<and>
    (\<forall>x. img (mapping0 ix') x = (case seg_at m x of None \<Rightarrow> img (mapping0 ix) x | Some p \<Rightarrow> Some p))"
proof -
  let ?ms = "mapping0 ix" and ?a = "s_offset m" and ?e = "seg_end m"
  have ms: "segs_ok ?ms" "m_alloc ix = blocks ?ms" using assms(1) by (simp_all add: index0_ok_def)
  have len: "0 < s_length m" "blk m < 2 ^ 14" using assms(2) by (auto simp: map_ok_def blk_def)
  have add: "alloc_add (m_alloc ix) m = blocks ?ms + blk m" using ms len blocks_le [OF ms(1)] by (auto intro: alloc_add_blk)
  obtain bef rest where b: "?ms = bef @ rest" "seg_lower_bound ?ms m = rest" "takeWhile (\<lambda>x. seg_less x m) ?ms = bef"
      "\<And>q. q \<in> set bef \<Longrightarrow> seg_end q \<le> ?a" "\<And>q. q \<in> set rest \<Longrightarrow> ?a < seg_end q"
    using lower_bound_split [OF ms(1)] by metis
  have finish: "\<exists>ix'. Some (ix\<lparr>mapping0 := set_insert m ns, m_alloc := blocks ns + blk m\<rparr>) = Some ix' \<and> index0_ok ix' \<and>
      (\<forall>x. img (mapping0 ix') x = (case seg_at m x of None \<Rightarrow> img ?ms x | Some p \<Rightarrow> Some p))"
    if "segs_ok ns" "avoids ?a ?e ns" "\<forall>x. x < ?a \<or> ?e \<le> x \<longrightarrow> img ns x = img ?ms x" for ns
  proof -
    note ins = set_insert_ok [OF that(1) assms(2) that(2)]
    have "img (set_insert m ns) x = (case seg_at m x of None \<Rightarrow> img ?ms x | Some p \<Rightarrow> Some p)" for x
    proof (cases "seg_at m x")
      case None
      then have "img ns x = img ?ms x" using that(3) by (metis not_le seg_at_None_iff)
      then show ?thesis using ins None by simp
    qed (use ins in simp)
    then show ?thesis using ins by (simp add: index0_ok_def)
  qed
  show ?thesis
  proof (cases rest)
    case Nil
    then have "avoids ?a ?e ?ms" using b(1,4) by (auto simp: avoids_def)
    moreover have "Index0_insert ix m = Some (ix\<lparr>mapping0 := set_insert m ?ms, m_alloc := blocks ?ms + blk m\<rparr>)"
      using len(1) by (simp add: Index0_insert_def Let_def b(2) [unfolded seg_lower_bound_def] Nil add)
    ultimately show ?thesis using finish [OF ms(1)] by simp
  next
    case (Cons p aft)
    have "clearing ?ms ?a ?e (blk m) bef (p # aft) (alloc_add (m_alloc ix) m)"
      using ms(1) add b(1,4,5) Cons by (auto simp: clearing_def avoids_def)
    then obtain bef1 al1 where 1: "remove_partial_overlap bef p aft (alloc_add (m_alloc ix) m) ?a (s_length m) = Some (bef1, aft, al1)"
        "clearing ?ms ?a ?e (blk m) bef1 aft al1"
      using remove_partial_overlap_ok [of ?ms ?a "s_length m" "blk m" bef p aft] len unfolding seg_end_def by blast
    have aft: "?a < s_offset q" if "q \<in> set aft" for q
      using that ms(1) b(1,5) Cons by (fastforce simp: seg_less_def)
    obtain bef2 aft2 al2 where 2: "insert_loop m bef1 aft al1 = Some (bef2, aft2, al2)"
        "clearing ?ms ?a ?e (blk m) bef2 aft2 al2" "avoids ?a ?e aft2"
      using insert_loop_ok [OF 1(2) _ len] aft by (meson less_imp_le)
    have assert: "aft = [] \<or> ?a < s_offset (hd aft)" using aft by (cases aft) auto
    have "al2 = blocks (bef2 @ aft2) + blk m" using 2(2) by (simp add: clearing_def)
    then have "Index0_insert ix m = Some (ix\<lparr>mapping0 := set_insert m (bef2 @ aft2), m_alloc := blocks (bef2 @ aft2) + blk m\<rparr>)"
      using len(1) 1(1) 2(1) assert
      by (simp add: Index0_insert_def Let_def b(2) [unfolded seg_lower_bound_def] b(3) Cons)
    then show ?thesis using finish [of "bef2 @ aft2"] 2(2,3) by (auto simp: clearing_def)
  qed
qed

lemma insert_all_ok:
  assumes "index0_ok ix" "\<forall>m\<in>set ms. map_ok m"
  shows "\<exists>ix'. insert_all ix ms = Some ix' \<and> index0_ok ix' \<and>
    (\<forall>x. img (mapping0 ix') x = (case img (rev ms) x of None \<Rightarrow> img (mapping0 ix) x | Some p \<Rightarrow> Some p))"
  using assms
proof (induction ms arbitrary: ix)
  case (Cons m ms)
  have "map_ok m" using Cons.prems(2) by simp
  then obtain ix1 where 1: "Index0_insert ix m = Some ix1" "index0_ok ix1"
      "\<forall>x. img (mapping0 ix1) x = (case seg_at m x of None \<Rightarrow> img (mapping0 ix) x | Some p \<Rightarrow> Some p)"
    using Index0_insert_ok [OF Cons.prems(1)] by blast
  then obtain ix2 where "insert_all ix1 ms = Some ix2" "index0_ok ix2"
      "\<forall>x. img (mapping0 ix2) x = (case img (rev ms) x of None \<Rightarrow> img (mapping0 ix1) x | Some p \<Rightarrow> Some p)"
    using Cons.IH [OF 1(2)] Cons.prems(2) by auto
  then show ?case using 1 by (auto simp: img_append split: option.splits)
qed auto

lemma index0_ok_empty: "index0_ok Index0_empty"
  by (simp add: index0_ok_def Index0_empty_def)

lemma verify_mapping_order_sorted:
  "\<forall>m\<in>set ms. map_ok m \<Longrightarrow> verify_mapping_order ms \<longleftrightarrow> segs_ok ms"
proof (induction ms rule: verify_mapping_order.induct)
  case (3 m m' ms)
  have "seg_less m q" if "seg_less m m'" "q \<in> set ms" "segs_ok (m' # ms)" for q
    using that map_ok_less [of m'] by (fastforce simp: seg_less_def)
  then show ?case using 3 by auto
qed auto

subsection \<open>Properties\<close>

text \<open>C5. Inserting a mapping into a writable index hits no assertion and overrides what the index said of the sectors of the mapping: every
  other sector keeps its place.  The mappings stay in order without overlap, and the count of blocks stays the number of sectors with
  data.  Hence an index built from a sequence of mappings says of every sector what the last mapping that covers it says.\<close>

theorem Index0_insert_overrides:
  assumes "index0_ok ix" "map_ok m" "\<forall>m\<in>set ms. map_ok m"
  shows "(\<exists>ix'. Index0_insert ix m = Some ix' \<and> index0_ok ix' \<and>
            (\<forall>x. img (mapping0 ix') x = (case seg_at m x of None \<Rightarrow> img (mapping0 ix) x | Some p \<Rightarrow> Some p))) \<and>
         (\<exists>ix'. Index0_new ms = Some ix' \<and> index0_ok ix' \<and> img (mapping0 ix') = img (rev ms))"
proof -
  obtain ix' where "Index0_new ms = Some ix'" "index0_ok ix'"
      "\<forall>x. img (mapping0 ix') x = (case img (rev ms) x of None \<Rightarrow> img (mapping0 Index0_empty) x | Some p \<Rightarrow> Some p)"
    using insert_all_ok [OF index0_ok_empty assms(3)] unfolding Index0_new_def by blast
  moreover from this have "img (mapping0 ix') = img (rev ms)"
    by (auto simp: fun_eq_iff Index0_empty_def split: option.splits)
  ultimately show ?thesis using Index0_insert_ok [OF assms(1,2)] by auto
qed

text \<open>An index with one mapping of 100 sectors, and a new mapping in its middle.\<close>

abbreviation ex_old :: segment_mapping where
  "ex_old \<equiv> \<lparr>s_offset = 0, s_length = 100, moffset = 7, zeroed = False, tag = 0\<rparr>"

abbreviation ex_new :: segment_mapping where
  "ex_new \<equiv> \<lparr>s_offset = 40, s_length = 10, moffset = 500, zeroed = False, tag = 0\<rparr>"

abbreviation ex_ix :: index0 where
  "ex_ix \<equiv> \<lparr>mapping0 = [ex_old], m_alloc = 100\<rparr>"

lemma ex_ix_ok: "index0_ok ex_ix" "map_ok ex_old" "map_ok ex_new"
  by (simp_all add: index0_ok_def map_ok_def seg_end_def mend_def blk_def)

lemma Index0_insert_overrides_witness:
  "\<exists>ix'. Index0_insert ex_ix ex_new = Some ix' \<and> img (mapping0 ix') 39 = Some (0, Some 46) \<and>
     img (mapping0 ix') 45 = Some (0, Some 505) \<and> img (mapping0 ix') 50 = Some (0, Some 57)"
proof -
  obtain ix' where ix': "Index0_insert ex_ix ex_new = Some ix'"
      "\<forall>x. img (mapping0 ix') x = (case seg_at ex_new x of None \<Rightarrow> img (mapping0 ex_ix) x | Some p \<Rightarrow> Some p)"
    using Index0_insert_overrides [OF ex_ix_ok(1,3), of "[]"] by auto
  then show ?thesis by (intro exI [of _ ix']) (simp add: seg_at_def seg_end_def)
qed

text \<open>C36. A lookup in a read-only or a writable index returns at most \<open>n\<close> mappings, in order, trimmed to the segment; they say of
  every sector what the index says, up to the end of the segment, or up to the end of the last mapping when there are \<open>n\<close>.\<close>

theorem index_lookup_correct:
  assumes "segs_ok ms" "0 < n"
  shows "(\<exists>r. Index_lookup (Index_of_array ms vsz) s n = Some r \<and> lookup_ok (img ms) s n r) \<and>
         (\<exists>r. Index0_lookup \<lparr>mapping0 = ms, m_alloc = blocks ms\<rparr> s n = Some r \<and> lookup_ok (img ms) s n r)"
  using Index_lookup_spec [of "Index_of_array ms vsz" n s] Index0_lookup_spec [of "\<lparr>mapping0 = ms, m_alloc = blocks ms\<rparr>" n s] assms
  by (simp add: Index_of_array_def)

lemma index_lookup_correct_witness:
  "\<exists>r. Index_lookup (Index_of_array [ex_old] 0) \<lparr>s_offset = 20, s_length = 30\<rparr> 4 = Some r \<and> img r 25 = Some (0, Some 32)"
proof -
  have ok: "segs_ok [ex_old]" using ex_ix_ok(2) by simp
  obtain r where "Index_lookup (Index_of_array [ex_old] 0) \<lparr>s_offset = 20, s_length = 30\<rparr> 4 = Some r"
      "lookup_ok (img [ex_old]) \<lparr>s_offset = 20, s_length = 30\<rparr> 4 r" "length r \<le> 4"
    using index_lookup_correct [OF ok, of 4 0 "\<lparr>s_offset = 20, s_length = 30\<rparr>"] by (auto simp: lookup_ok_def)
  moreover have "r = [ex_old\<lparr>s_offset := 20, s_length := 30, moffset := 27\<rparr>]"
    using calculation(1)
    by (simp add: Index_lookup_def Index_of_array_def seg_lower_bound_def seg_less_def seg_end_def trim_edge_mappings_def
        forward_offset_to_def seg_forward_offset_to_def backward_end_to_def)
  ultimately show ?thesis by (intro exI [of _ r]) (simp add: seg_at_def seg_end_def)
qed

text \<open>C37. A walk over a segment of a read-only index returns.  When it returns 0, the calls cover the segment sector by
  sector in order: data with the place of the first sector, and zeroes where the index says zero or nothing, and no callback failed, except
  perhaps the call for a hole at the end of the segment, whose result is not looked at.  Otherwise the walk has ended with the first
  callback that failed, and returns its result; the calls cover the segment up to there.\<close>

theorem foreach_segments_covers:
  assumes "segs_ok (ix_mapping ix)" "seg_ok s"
  shows "\<exists>r us. foreach_segments (Index_lookup ix) ret s = Some (r, us) \<and> (\<forall>v\<in>set us. reports (img (ix_mapping ix)) v) \<and>
    (\<forall>v\<in>set (butlast us). 0 \<le> ret v) \<and>
    (if r < 0 then us \<noteq> [] \<and> ret (last us) = r \<and> covers (s_offset s) (v_end (last us)) us
     else r = 0 \<and> covers (s_offset s) (seg_end s) us \<and> (us \<noteq> [] \<and> ret (last us) < 0 \<longrightarrow> unmapped (img (ix_mapping ix)) (last us)))"
  using ix.foreach_loop_ok [OF assms, of ret "[]"] by (simp add: foreach_segments_def walked_def)

definition fail_data :: "visit \<Rightarrow> int" where
  "fail_data v = (case v of Zero a l \<Rightarrow> 0 | Data m \<Rightarrow> - 5)"

lemma foreach_segments_covers_witness:
  "\<exists>us. foreach_segments (Index_lookup (Index_of_array [ex_old] 0)) fail_data \<lparr>s_offset = 50, s_length = 100\<rparr> = Some (- 5, us) \<and> us \<noteq> [] \<and>
     covers 50 (v_end (last us)) us"
proof -
  have ok: "segs_ok (ix_mapping (Index_of_array [ex_old] 0))" "seg_ok \<lparr>s_offset = 50, s_length = 100\<rparr>"
    using ex_ix_ok(2) by (simp_all add: Index_of_array_def seg_ok_def seg_end_def)
  let ?f = "img (ix_mapping (Index_of_array [ex_old] 0))"
  obtain r us where w: "foreach_segments (Index_lookup (Index_of_array [ex_old] 0)) fail_data \<lparr>s_offset = 50, s_length = 100\<rparr> = Some (r, us)"
    "\<forall>v\<in>set us. reports ?f v" "\<forall>v\<in>set (butlast us). 0 \<le> fail_data v"
    "if r < 0 then us \<noteq> [] \<and> fail_data (last us) = r \<and> covers 50 (v_end (last us)) us
     else covers 50 150 us \<and> (us \<noteq> [] \<and> fail_data (last us) < 0 \<longrightarrow> unmapped ?f (last us))"
    using foreach_segments_covers [OF ok, of fail_data] by (force simp: seg_end_def split: if_splits)
  have "r < 0"
  proof (rule ccontr)
    assume n: "\<not> r < 0"
    then obtain v vs where us: "us = v # vs" "v_start v = 50" "50 < v_end v" using w(4) by (cases us) auto
    have "?f 50 = Some (tag ex_old, Some (moffset ex_old + (50 - s_offset ex_old)))" by (simp add: Index_of_array_def seg_at_def seg_end_def)
    then obtain m where v: "v = Data m" using w(2) us by (cases v) auto
    then have "vs = []" using w(3) us by (cases vs) (auto simp: fail_data_def)
    then show False using w(4) us v n by (simp add: fail_data_def)
  qed
  moreover have "fail_data v < 0 \<Longrightarrow> fail_data v = - 5" for v by (cases v) (simp_all add: fail_data_def)
  ultimately show ?thesis using w(1,4) by auto
qed

end
