(* ===== verification/LSMT_Combo.thy ===== *)
theory LSMT_Combo
  imports LSMT_Index
begin

text \<open>
  A writable index on top of a read-only one (\<open>lsmt/index.cpp\<close>, class \<open>ComboIndex\<close>).  A lookup in it shows the
  writable index and, where that has nothing, the read-only one.
\<close>

subsection \<open>ComboIndex\<close>

record combo_index =
  combo_mapping :: index0
  m_backing_index :: "lsmt_index option"

text \<open>The mappings of \<open>index0\<close> are copied and their tags shifted; the count of blocks is not copied.\<close>

definition ComboIndex_new :: "index0 \<Rightarrow> lsmt_index option \<Rightarrow> nat \<Rightarrow> combo_index" where
  "ComboIndex_new i0 bk ro_layers_count =
     \<lparr>combo_mapping = \<lparr>mapping0 = map (\<lambda>m. m\<lparr>tag := (tag m + ro_layers_count) mod 2 ^ 8\<rparr>) (mapping0 i0), m_alloc = 0\<rparr>,
      m_backing_index = bk\<rparr>"

definition create_combo_index :: "index0 option \<Rightarrow> lsmt_index option \<Rightarrow> nat \<Rightarrow> combo_index option" where
  "create_combo_index i0 i1 ro_index_count =
     (case (i0, i1) of (Some i0, Some i1) \<Rightarrow> Some (ComboIndex_new i0 (Some i1) ro_index_count) | _ \<Rightarrow> None)"

text \<open>What follows the loop of \<open>lookup\<close>: the backing index from \<open>soffset\<close> to the end.\<close>

definition combo_tail :: "(segment \<Rightarrow> nat \<Rightarrow> segment_mapping list option) \<Rightarrow> nat \<Rightarrow> nat \<Rightarrow> nat \<Rightarrow> segment_mapping list option" where
  "combo_tail look soffset send n =
     (if n \<noteq> 0 \<and> soffset < send then look \<lparr>s_offset = soffset mod 2 ^ 50, s_length = (send - soffset) mod 2 ^ 14\<rparr> n else Some [])"

text \<open>The loop, with the mappings that are left of the own index; \<open>n\<close> is the room that is left in the array.\<close>

fun combo_loop :: "(segment \<Rightarrow> nat \<Rightarrow> segment_mapping list option) \<Rightarrow> segment_mapping list \<Rightarrow> nat \<Rightarrow> nat \<Rightarrow> nat \<Rightarrow>
    segment_mapping list option" where
  "combo_loop look [] soffset send n = combo_tail look soffset send n"
| "combo_loop look (it # its) soffset send n =
     (if s_offset it < send \<and> n \<noteq> 0 then do {
        m1 \<leftarrow> (if s_offset it > soffset
              then look \<lparr>s_offset = soffset mod 2 ^ 50, s_length = (s_offset it - soffset) mod 2 ^ 14\<rparr> n
              else Some []);
        let n = n - length m1;
        if n = 0 then Some m1
        else do {
          rest \<leftarrow> combo_loop look its (seg_end it) send (n - 1);
          Some (m1 @ it # rest)
        }
      } else combo_tail look soffset send n)"

definition ComboIndex_lookup :: "combo_index \<Rightarrow> segment \<Rightarrow> nat \<Rightarrow> segment_mapping list option" where
  "ComboIndex_lookup ci s n =
     (if s_length s = 0 then Some []
      else (case m_backing_index ci of
        None \<Rightarrow> Index0_lookup (combo_mapping ci) s n
      | Some bk \<Rightarrow> do {
          pm \<leftarrow> combo_loop (Index_lookup bk) (seg_lower_bound (mapping0 (combo_mapping ci)) s) (s_offset s) (seg_end s) n;
          trim_edge_mappings pm s
        }))"

text \<open>Setting the backing index fails for an index without an array; \<open>insert\<close> is inherited.\<close>

definition ComboIndex_set_backing :: "combo_index \<Rightarrow> lsmt_index option \<Rightarrow> combo_index option" where
  "ComboIndex_set_backing ci bi = (case bi of None \<Rightarrow> None
     | Some b \<Rightarrow> if ix_mapping b = [] then None else Some (ci\<lparr>m_backing_index := Some b\<rparr>))"

definition ComboIndex_insert :: "combo_index \<Rightarrow> segment_mapping \<Rightarrow> combo_index option" where
  "ComboIndex_insert ci m = do { i0 \<leftarrow> Index0_insert (combo_mapping ci) m; Some (ci\<lparr>combo_mapping := i0\<rparr>) }"

definition ComboIndex_load_range_index :: "lsmt_index \<Rightarrow> int \<Rightarrow> int \<Rightarrow> lsmt_index option" where
  "ComboIndex_load_range_index bk min_level max_level =
     (if min_level \<ge> max_level then None
      else
        let range_index = filter (\<lambda>m. int (tag m) \<ge> min_level \<and> int (tag m) < max_level) (ix_mapping bk)
        in if range_index = [] then None else Some (Index_of_vector range_index 0))"

subsection \<open>A lookup in two layers\<close>

definition overlay :: "(nat \<Rightarrow> place option) \<Rightarrow> (nat \<Rightarrow> place option) \<Rightarrow> nat \<Rightarrow> place option" where
  "overlay f g x = (case f x of None \<Rightarrow> g x | Some p \<Rightarrow> Some p)"

text \<open>Mappings that say what \<open>f\<close> says from \<open>a\<close> to \<open>e\<close>, or to the end of the last one when the room \<open>n\<close> is used up.\<close>

definition shows_upto :: "(nat \<Rightarrow> place option) \<Rightarrow> nat \<Rightarrow> nat \<Rightarrow> nat \<Rightarrow> segment_mapping list \<Rightarrow> bool" where
  "shows_upto f a e n r \<longleftrightarrow> length r \<le> n \<and> segs_ok r \<and> meets a e r \<and>
     (\<forall>x. a \<le> x \<and> x < e \<and> (length r < n \<or> r \<noteq> [] \<and> x < seg_end (last r)) \<longrightarrow> img r x = f x)"

lemma lookup_shows:
  assumes "lookup_ok g s n r" "\<And>x. s_offset s \<le> x \<Longrightarrow> x < seg_end s \<Longrightarrow> f x = g x"
  shows "shows_upto f (s_offset s) (seg_end s) n r"
proof -
  have r: "length r \<le> n" "segs_ok r" "inside (s_offset s) (seg_end s) r" using assms(1) by (simp_all add: lookup_ok_def)
  then have "meets (s_offset s) (seg_end s) r"
    using map_ok_less by (fastforce simp: meets_def inside_def segs_ok_def)
  moreover have "img r x = f x" if "s_offset s \<le> x" "x < seg_end s" "length r < n \<or> r \<noteq> [] \<and> x < seg_end (last r)" for x
    using that assms r(1) unfolding lookup_ok_def by (cases "length r < n") auto
  ultimately show ?thesis using r by (simp add: shows_upto_def)
qed

lemma shows_append:
  assumes "segs_ok r" "\<forall>m\<in>set r. a < seg_end m \<and> seg_end m \<le> b" "\<And>x. a \<le> x \<Longrightarrow> x < b \<Longrightarrow> x < e \<Longrightarrow> img r x = f x"
    and "shows_upto f b e (n - length r) r'" "length r \<le> n" "\<forall>m\<in>set r. s_offset m < e" "\<forall>m\<in>set r'. b \<le> s_offset m" "a \<le> b"
  shows "shows_upto f a e n (r @ r')"
proof -
  have r': "length r' \<le> n - length r" "segs_ok r'" "meets b e r'" using assms(4) by (simp_all add: shows_upto_def)
  have "segs_ok (r @ r')" using assms(1,2,7) r'(2) by (fastforce simp: seg_less_def)
  moreover have "meets a e (r @ r')" using assms(2,6,8) r'(3) by (fastforce simp: meets_def)
  moreover have "img (r @ r') x = f x"
    if x: "a \<le> x" "x < e" "length (r @ r') < n \<or> r @ r' \<noteq> [] \<and> x < seg_end (last (r @ r'))" for x
  proof (cases "x < b")
    case True
    then have "img r' x = None" using assms(7) by (intro img_before) fastforce
    then show ?thesis using assms(3) [OF x(1) True x(2)] by (simp add: img_append split: option.splits)
  next
    case False
    then have "img r x = None" using assms(2) by (intro img_after) fastforce
    moreover have "length r' < n - length r \<or> r' \<noteq> [] \<and> x < seg_end (last r')"
    proof (cases "length (r @ r') < n")
      case False
      then show ?thesis
        using x(3) assms(2) \<open>\<not> x < b\<close> last_in_set [of r] by (cases "r' = []") fastforce+
    qed auto
    ultimately show ?thesis using assms(4) False x(2) by (simp add: img_append shows_upto_def)
  qed
  ultimately show ?thesis using r'(1) assms(5) by (simp add: shows_upto_def)
qed


lemma shows_widen: "shows_upto f a b n r \<Longrightarrow> length r = n \<Longrightarrow> \<forall>m\<in>set r. seg_end m \<le> b \<Longrightarrow> b \<le> e \<Longrightarrow> shows_upto f a e n r"
  by (cases "r = []") (fastforce simp: shows_upto_def meets_def dest: last_in_set)+

lemma Index_lookup_shows:
  assumes "segs_ok (ix_mapping bk)" "a < b" "b < 2 ^ 50" "b - a < 2 ^ 14" "0 < n"
    and "\<And>x. a \<le> x \<Longrightarrow> x < b \<Longrightarrow> f x = img (ix_mapping bk) x"
  shows "\<exists>r. Index_lookup bk \<lparr>s_offset = a mod 2 ^ 50, s_length = (b - a) mod 2 ^ 14\<rparr> n = Some r \<and> shows_upto f a b n r \<and> inside a b r"
proof -
  let ?s = "\<lparr>s_offset = a, s_length = b - a\<rparr>"
  have s: "\<lparr>s_offset = a mod 2 ^ 50, s_length = (b - a) mod 2 ^ 14\<rparr> = ?s" "seg_end ?s = b"
    using assms(2-4) by (simp_all add: seg_end_def)
  obtain r where r: "Index_lookup bk ?s n = Some r" "lookup_ok (img (ix_mapping bk)) ?s n r"
    using Index_lookup_spec [OF assms(1,5)] by blast
  have "shows_upto f a b n r" using lookup_shows [OF r(2), of f] assms(6) s(2) by simp
  then show ?thesis unfolding s(1) using r s(2) by (auto simp: lookup_ok_def)
qed

lemma combo_tail_ok:
  assumes "segs_ok (ix_mapping bk)" "e < 2 ^ 50" "e - a < 2 ^ 14" "n \<noteq> 0 \<Longrightarrow> (\<And>x. a \<le> x \<Longrightarrow> x < e \<Longrightarrow> f x = img (ix_mapping bk) x)"
  shows "\<exists>r. combo_tail (Index_lookup bk) a e n = Some r \<and> shows_upto f a e n r \<and> (\<forall>m\<in>set r. a \<le> s_offset m)"
proof (cases "n \<noteq> 0 \<and> a < e")
  case True
  then show ?thesis
    using Index_lookup_shows [OF assms(1) _ assms(2,3), of n f] assms(4) by (auto simp: combo_tail_def inside_def)
next
  case False
  then show ?thesis unfolding combo_tail_def if_not_P [OF False] by (auto simp: shows_upto_def meets_def)
qed

lemma combo_loop_ok:
  assumes "segs_ok (ix_mapping bk)" "e < 2 ^ 50"
  shows "segs_ok its \<Longrightarrow> \<forall>m\<in>set its. a < seg_end m \<Longrightarrow> e - a < 2 ^ 14 \<Longrightarrow>
    \<forall>x. a \<le> x \<and> x < e \<longrightarrow> f x = overlay (img its) (img (ix_mapping bk)) x \<Longrightarrow>
    \<exists>r. combo_loop (Index_lookup bk) its a e n = Some r \<and> shows_upto f a e n r \<and>
      ((\<forall>m\<in>set its. a \<le> s_offset m) \<longrightarrow> (\<forall>m\<in>set r. a \<le> s_offset m))"
proof (induction its arbitrary: a n)
  case Nil
  then show ?case using combo_tail_ok [OF assms, of a n f] by (auto simp: overlay_def)
next
  case (Cons it its)
  have it: "map_ok it" "a < seg_end it" "s_offset it < seg_end it" and later: "\<And>m. m \<in> set its \<Longrightarrow> seg_end it \<le> s_offset m"
    using Cons.prems(1,2) map_ok_less by (auto simp: seg_less_def)
  have its: "segs_ok its" "\<forall>m\<in>set its. seg_end it < seg_end m" "\<forall>m\<in>set its. seg_end it \<le> s_offset m"
    using Cons.prems(1) later map_ok_less by (auto simp: segs_ok_def) (meson le_less_trans)
  have before: "f x = img (ix_mapping bk) x" if "a \<le> x" "x < e" "x < s_offset it" for x
  proof -
    have "img (it # its) x = None" using that(3) later it(3) by (intro img_before) fastforce
    then show ?thesis using Cons.prems(4) that by (simp add: overlay_def)
  qed
  show ?case
  proof (cases "s_offset it < e \<and> n \<noteq> 0")
    case False
    then have "\<exists>r. combo_tail (Index_lookup bk) a e n = Some r \<and> shows_upto f a e n r \<and> (\<forall>m\<in>set r. a \<le> s_offset m)"
      by (intro combo_tail_ok [OF assms Cons.prems(3)] before) auto
    then show ?thesis unfolding combo_loop.simps if_not_P [OF False] by blast
  next
    case True
    have "\<exists>m1. (if s_offset it > a then Index_lookup bk \<lparr>s_offset = a mod 2 ^ 50, s_length = (s_offset it - a) mod 2 ^ 14\<rparr> n else Some [])
        = Some m1 \<and> shows_upto f a (s_offset it) n m1 \<and> inside a (s_offset it) m1"
      using Index_lookup_shows [OF assms(1), of a "s_offset it" n f] True assms(2) Cons.prems(3) before
      by (cases "a < s_offset it") (auto simp: shows_upto_def meets_def)
    then obtain m1 where m1: "(if s_offset it > a
        then Index_lookup bk \<lparr>s_offset = a mod 2 ^ 50, s_length = (s_offset it - a) mod 2 ^ 14\<rparr> n else Some []) = Some m1"
        "shows_upto f a (s_offset it) n m1" "inside a (s_offset it) m1" by blast
    have step: "combo_loop (Index_lookup bk) (it # its) a e n = (if n - length m1 = 0 then Some m1
        else do { rest \<leftarrow> combo_loop (Index_lookup bk) its (seg_end it) e (n - length m1 - 1); Some (m1 @ it # rest) })"
      unfolding combo_loop.simps if_P [OF True] m1(1) Option.bind.simps Let_def ..
    have first: "\<forall>m\<in>set m1. a \<le> s_offset m \<and> seg_end m \<le> s_offset it" "length m1 \<le> n" "segs_ok m1"
      using m1(2,3) by (simp_all add: shows_upto_def inside_def)
    show ?thesis
    proof (cases "length m1 = n")
      case full: True
      then have "shows_upto f a e n m1" using shows_widen [OF m1(2), of e] True first(1) by simp
      then show ?thesis using step full first(1) by simp
    next
      case room: False
      have "\<forall>x. seg_end it \<le> x \<and> x < e \<longrightarrow> f x = overlay (img its) (img (ix_mapping bk)) x"
        using Cons.prems(4) it(2) by (auto simp: overlay_def seg_at_def)
      moreover have "e - seg_end it < 2 ^ 14" using Cons.prems(3) it(2) by linarith
      ultimately obtain rest where rest: "combo_loop (Index_lookup bk) its (seg_end it) e (n - length m1 - 1) = Some rest"
          "shows_upto f (seg_end it) e (n - length m1 - 1) rest" "\<forall>m\<in>set rest. seg_end it \<le> s_offset m"
        using Cons.IH [OF its(1,2), of "n - length m1 - 1"] its(3) by blast
      have "img (m1 @ [it]) x = f x" if "a \<le> x" "x < seg_end it" "x < e" for x
      proof (cases "x < s_offset it")
        case True
        then show ?thesis using that m1(2) room first(2) by (auto simp: img_append shows_upto_def seg_at_def split: option.splits)
      next
        case False
        then have "img m1 x = None" using first(1) by (intro img_after) fastforce
        then show ?thesis using that False Cons.prems(4) by (auto simp: img_append overlay_def seg_at_def)
      qed
      moreover have m1': "a < seg_end m \<and> seg_end m \<le> seg_end it" "s_offset m < e" if "m \<in> set m1" for m
        using bspec [OF first(1) that] map_ok_less [of m] that first(3) it(3) True by (auto simp: segs_ok_def)
      moreover have "segs_ok (m1 @ [it])" using first it(1) by (simp add: seg_less_def)
      ultimately have "shows_upto f a e n ((m1 @ [it]) @ rest)"
        using it(2) True rest(2,3) room first(2) by (intro shows_append [where b = "seg_end it"]) auto
      then show ?thesis using step rest(1,3) room first(1,2) it(2) by fastforce
    qed
  qed
qed

text \<open>What a combined index says of a sector, and its invariant.\<close>

definition combo_img :: "combo_index \<Rightarrow> nat \<Rightarrow> place option" where
  "combo_img ci = (case m_backing_index ci of None \<Rightarrow> img (mapping0 (combo_mapping ci))
     | Some bk \<Rightarrow> overlay (img (mapping0 (combo_mapping ci))) (img (ix_mapping bk)))"

definition combo_ok :: "combo_index \<Rightarrow> bool" where
  "combo_ok ci \<longleftrightarrow> segs_ok (mapping0 (combo_mapping ci)) \<and> (\<forall>bk. m_backing_index ci = Some bk \<longrightarrow> segs_ok (ix_mapping bk))"

lemma shows_lookup:
  assumes "shows_upto f (s_offset s) (seg_end s) n pm" "0 < s_length s" "0 < n"
  shows "\<exists>r. trim_edge_mappings pm s = Some r \<and> lookup_ok f s n r"
proof -
  have pm: "segs_ok pm" "meets (s_offset s) (seg_end s) pm" "length pm \<le> n" using assms(1) by (simp_all add: shows_upto_def)
  obtain r where r: "trim_edge_mappings pm s = Some r" "length r = length pm" "segs_ok r" "inside (s_offset s) (seg_end s) r"
      "pm \<noteq> [] \<longrightarrow> seg_end (last r) = min (seg_end (last pm)) (seg_end s)"
      "\<forall>x. s_offset s \<le> x \<and> x < seg_end s \<longrightarrow> img r x = img pm x"
    using trim_ok [OF pm(1,2) assms(2)] by blast
  have "img r x = f x" if x: "s_offset s \<le> x" "x < (if length r < n then seg_end s else seg_end (last r))" for x
  proof -
    have "x < seg_end s \<and> (length pm < n \<or> pm \<noteq> [] \<and> x < seg_end (last pm))"
      using x(2) r(2,5) assms(3) by (cases "length pm < n"; cases "pm = []") auto
    then show ?thesis using x(1) assms(1) r(6) by (simp add: shows_upto_def)
  qed
  then show ?thesis using r pm(3) by (simp add: lookup_ok_def)
qed

lemma ComboIndex_lookup_spec:
  assumes "combo_ok ci" "seg_ok s" "0 < n"
  shows "\<exists>r. ComboIndex_lookup ci s n = Some r \<and> lookup_ok (combo_img ci) s n r"
proof (cases "s_length s = 0")
  case True
  then show ?thesis using lookup_ok_empty [OF True assms(3)] by (simp add: ComboIndex_lookup_def)
next
  case len: False
  let ?ms = "mapping0 (combo_mapping ci)"
  have ms: "segs_ok ?ms" using assms(1) by (simp add: combo_ok_def)
  show ?thesis
  proof (cases "m_backing_index ci")
    case None
    then show ?thesis
      using Index0_lookup_spec [OF ms assms(3), of s] len by (simp add: ComboIndex_lookup_def combo_img_def)
  next
    case (Some bk)
    have bk: "segs_ok (ix_mapping bk)" "seg_end s < 2 ^ 50" "seg_end s - s_offset s < 2 ^ 14"
      using assms(1,2) Some by (auto simp: combo_ok_def seg_ok_def seg_end_def)
    obtain bef rest where b: "?ms = bef @ rest" "seg_lower_bound ?ms s = rest"
        "\<And>m. m \<in> set bef \<Longrightarrow> seg_end m \<le> s_offset s" "\<And>m. m \<in> set rest \<Longrightarrow> s_offset s < seg_end m"
      using lower_bound_split [OF ms] by metis
    have "img bef x = None" if "s_offset s \<le> x" for x using b(3) that by (intro img_after) fastforce
    then have "\<forall>x. s_offset s \<le> x \<and> x < seg_end s \<longrightarrow> combo_img ci x = overlay (img rest) (img (ix_mapping bk)) x"
      by (simp add: combo_img_def Some b(1) overlay_def img_append)
    then obtain pm where "combo_loop (Index_lookup bk) rest (s_offset s) (seg_end s) n = Some pm"
        "shows_upto (combo_img ci) (s_offset s) (seg_end s) n pm"
      using combo_loop_ok [OF bk(1,2) _ _ bk(3), of rest "combo_img ci" n] b(4) ms by (auto simp: b(1))
    then show ?thesis
      using shows_lookup [of "combo_img ci" s n pm] len assms(3) by (simp add: ComboIndex_lookup_def Some b(2))
  qed
qed

interpretation combo: memory_index ComboIndex_lookup combo_ok combo_img
  by unfold_locales (rule ComboIndex_lookup_spec)

text \<open>The constructor keeps the order and the data, with the tags shifted.\<close>

lemma segs_ok_retag:
  assumes "segs_ok ms" "\<forall>m\<in>set ms. g m < 2 ^ 8"
  shows "segs_ok (map (\<lambda>m. m\<lparr>tag := g m\<rparr>) ms)"
  using assms by (induction ms) (auto simp: map_ok_def seg_less_def seg_end_def mend_def)

subsection \<open>Insertion\<close>

text \<open>What an insertion does to the mappings does not depend on the count of blocks.\<close>

lemma remove_partial_overlap_count:
  "remove_partial_overlap bef p aft al off len = Some (b, a, c) \<Longrightarrow> \<exists>c'. remove_partial_overlap bef p aft al' off len = Some (b, a, c')"
  by (auto simp: remove_partial_overlap_def Let_def ENV_BUG_ON_def split: if_splits bind_splits)

lemma insert_loop_count:
  "insert_loop m bef aft al = Some (b, a, c) \<Longrightarrow> \<exists>c'. insert_loop m bef aft al' = Some (b, a, c')"
proof (induction aft arbitrary: bef al al')
  case (Cons p aft)
  then show ?case using remove_partial_overlap_count by (auto split: if_splits)
qed simp

lemma Index0_insert_count:
  assumes "Index0_insert ix m = Some ix'"
  shows "\<exists>c. Index0_insert (ix\<lparr>m_alloc := a\<rparr>) m = Some (ix'\<lparr>m_alloc := c\<rparr>)"
proof (cases "s_length m = 0 \<or> dropWhile (\<lambda>x. seg_less x m) (mapping0 ix) = []")
  case True
  then show ?thesis using assms by (cases "s_length m = 0") (auto simp: Index0_insert_def Let_def dropWhile_eq_Nil_conv [symmetric]
      simp del: dropWhile_eq_Nil_conv)
next
  case False
  then obtain p aft where rest: "dropWhile (\<lambda>x. seg_less x m) (mapping0 ix) = p # aft" by (meson neq_Nil_conv)
  let ?bef = "takeWhile (\<lambda>x. seg_less x m) (mapping0 ix)"
  obtain b1 a1 c1 b2 a2 c2 where
    1: "remove_partial_overlap ?bef p aft (alloc_add (m_alloc ix) m) (s_offset m) (s_length m) = Some (b1, a1, c1)"
      "a1 = [] \<or> s_offset (hd a1) > s_offset m" and
    2: "insert_loop m b1 a1 c1 = Some (b2, a2, c2)" "ix' = ix\<lparr>mapping0 := set_insert m (b2 @ a2), m_alloc := c2\<rparr>"
    using assms False by (auto simp: Index0_insert_def Let_def rest ENV_BUG_ON_def split: bind_splits if_splits)
  obtain c1' where 3: "remove_partial_overlap ?bef p aft (alloc_add a m) (s_offset m) (s_length m) = Some (b1, a1, c1')"
    using remove_partial_overlap_count [OF 1(1)] by blast
  obtain c2' where 4: "insert_loop m b1 a1 c1' = Some (b2, a2, c2')" using insert_loop_count [OF 2(1)] by blast
  have "Index0_insert (ix\<lparr>m_alloc := a\<rparr>) m = Some (ix'\<lparr>m_alloc := c2'\<rparr>)"
    using False 1(2) 2(2) 3 4 by (simp add: Index0_insert_def rest)
  then show ?thesis by blast
qed

lemma ComboIndex_insert_ok:
  assumes "combo_ok ci" "map_ok m"
  shows "\<exists>ci'. ComboIndex_insert ci m = Some ci' \<and> combo_ok ci' \<and>
    combo_img ci' = (\<lambda>x. case seg_at m x of None \<Rightarrow> combo_img ci x | Some p \<Rightarrow> Some p) \<and>
    img (mapping0 (combo_mapping ci')) = (\<lambda>x. case seg_at m x of None \<Rightarrow> img (mapping0 (combo_mapping ci)) x | Some p \<Rightarrow> Some p)"
proof -
  let ?i0 = "combo_mapping ci"
  have "index0_ok (?i0\<lparr>m_alloc := blocks (mapping0 ?i0)\<rparr>)" using assms(1) by (simp add: index0_ok_def combo_ok_def)
  then obtain ix' where ix': "Index0_insert (?i0\<lparr>m_alloc := blocks (mapping0 ?i0)\<rparr>) m = Some ix'" "segs_ok (mapping0 ix')"
      "\<forall>x. img (mapping0 ix') x = (case seg_at m x of None \<Rightarrow> img (mapping0 ?i0) x | Some p \<Rightarrow> Some p)"
    using Index0_insert_ok [OF _ assms(2)] unfolding index0_ok_def by (metis index0.select_convs(1) index0.surjective index0.update_convs(2))
  then obtain c where "Index0_insert ?i0 m = Some (ix'\<lparr>m_alloc := c\<rparr>)"
    using Index0_insert_count [OF ix'(1), of "m_alloc ?i0"] by auto
  then have "ComboIndex_insert ci m = Some (ci\<lparr>combo_mapping := ix'\<lparr>m_alloc := c\<rparr>\<rparr>)" by (simp add: ComboIndex_insert_def)
  moreover have "combo_ok (ci\<lparr>combo_mapping := ix'\<lparr>m_alloc := c\<rparr>\<rparr>)" using assms(1) ix'(2) by (simp add: combo_ok_def)
  moreover have "combo_img (ci\<lparr>combo_mapping := ix'\<lparr>m_alloc := c\<rparr>\<rparr>) = (\<lambda>x. case seg_at m x of None \<Rightarrow> combo_img ci x | Some p \<Rightarrow> Some p)"
    using ix'(3) by (auto simp: fun_eq_iff combo_img_def overlay_def split: option.split)
  moreover have "img (mapping0 ix') = (\<lambda>x. case seg_at m x of None \<Rightarrow> img (mapping0 ?i0) x | Some p \<Rightarrow> Some p)"
    using ix'(3) by (simp add: fun_eq_iff)
  ultimately show ?thesis by (intro exI [of _ "ci\<lparr>combo_mapping := ix'\<lparr>m_alloc := c\<rparr>\<rparr>"]) simp
qed

subsection \<open>Properties\<close>

text \<open>C11. A combined index behaves as one index: a lookup shows the writable index, and the backing index where that says
  nothing; an insertion hits no assertion and overrides the sectors of the new mapping for every later lookup.  A combined index
  that is made of a writable index with fewer than 256 layers below it says what the two indexes say, with the tags of the writable
  one shifted by the number of read-only layers.\<close>

theorem combo_lookup_overlays:
  assumes "combo_ok ci" "seg_ok s" "0 < n" "map_ok m" "segs_ok (mapping0 i0)" "segs_ok (ix_mapping bk)"
  shows "(\<exists>r. ComboIndex_lookup ci s n = Some r \<and> lookup_ok (combo_img ci) s n r) \<and>
         (\<exists>ci' r. ComboIndex_insert ci m = Some ci' \<and> ComboIndex_lookup ci' s n = Some r \<and>
            lookup_ok (\<lambda>x. case seg_at m x of None \<Rightarrow> combo_img ci x | Some p \<Rightarrow> Some p) s n r) \<and>
         (\<exists>ci'. create_combo_index (Some i0) (Some bk) k = Some ci' \<and> combo_ok ci' \<and>
            combo_img ci' = overlay (\<lambda>x. map_option (map_prod (\<lambda>t. (t + k) mod 2 ^ 8) id) (img (mapping0 i0) x)) (img (ix_mapping bk)))"
proof (intro conjI)
  show "\<exists>r. ComboIndex_lookup ci s n = Some r \<and> lookup_ok (combo_img ci) s n r"
    by (rule ComboIndex_lookup_spec [OF assms(1-3)])
  show "\<exists>ci' r. ComboIndex_insert ci m = Some ci' \<and> ComboIndex_lookup ci' s n = Some r \<and>
      lookup_ok (\<lambda>x. case seg_at m x of None \<Rightarrow> combo_img ci x | Some p \<Rightarrow> Some p) s n r"
    using ComboIndex_insert_ok [OF assms(1,4)] ComboIndex_lookup_spec [OF _ assms(2,3)] by metis
  have "img (map (\<lambda>m. m\<lparr>tag := (tag m + k) mod 2 ^ 8\<rparr>) ms) x = map_option (map_prod (\<lambda>t. (t + k) mod 2 ^ 8) id) (img ms x)" for ms x
    by (induction ms) (auto simp: seg_at_def seg_end_def)
  then show "\<exists>ci'. create_combo_index (Some i0) (Some bk) k = Some ci' \<and> combo_ok ci' \<and>
      combo_img ci' = overlay (\<lambda>x. map_option (map_prod (\<lambda>t. (t + k) mod 2 ^ 8) id) (img (mapping0 i0) x)) (img (ix_mapping bk))"
    using assms(5,6) segs_ok_retag [of "mapping0 i0" "\<lambda>m. (tag m + k) mod 2 ^ 8"]
    by (simp add: create_combo_index_def ComboIndex_new_def combo_ok_def combo_img_def overlay_def fun_eq_iff)
qed

abbreviation ex_combo :: combo_index where
  "ex_combo \<equiv> \<lparr>combo_mapping = ex_ix, m_backing_index = Some (Index_of_array [ex_old\<lparr>s_offset := 90, moffset := 300, tag := 1\<rparr>] 0)\<rparr>"

lemma combo_lookup_overlays_witness:
  "\<exists>ci' r. ComboIndex_insert ex_combo ex_new = Some ci' \<and> ComboIndex_lookup ci' \<lparr>s_offset = 0, s_length = 200\<rparr> 9 = Some r \<and>
     img r 45 = Some (0, Some 505) \<and> img r 95 = Some (0, Some 102) \<and> img r 110 = Some (1, Some 320)"
proof -
  let ?s = "\<lparr>s_offset = 0, s_length = 200\<rparr>"
  have ok: "combo_ok ex_combo" "seg_ok ?s" "0 < (9::nat)" "segs_ok (mapping0 ex_ix)" "segs_ok (ix_mapping (Index_of_array [ex_old] 0))"
    using ex_ix_ok by (simp_all add: combo_ok_def Index_of_array_def map_ok_def seg_ok_def seg_end_def mend_def)
  obtain ci' r where r: "ComboIndex_insert ex_combo ex_new = Some ci'" "ComboIndex_lookup ci' ?s 9 = Some r"
      "lookup_ok (\<lambda>x. case seg_at ex_new x of None \<Rightarrow> combo_img ex_combo x | Some p \<Rightarrow> Some p) ?s 9 r"
    using combo_lookup_overlays [OF ok(1-3) ex_ix_ok(3) ok(4,5), of 0] by blast
  have "ci' = ex_combo\<lparr>combo_mapping := \<lparr>mapping0 = [ex_old\<lparr>s_length := 40\<rparr>, ex_new, ex_old\<lparr>s_offset := 50, s_length := 50, moffset := 57\<rparr>],
      m_alloc = 100\<rparr>\<rparr>"
    using r(1) by (simp add: ComboIndex_insert_def Index0_insert_def seg_less_def seg_end_def remove_partial_overlap_def forward_offset_to_def
      seg_forward_offset_to_def backward_end_to_def set_insert_def ENV_BUG_ON_def alloc_sub_def alloc_add_def)
  then have "length r = 4"
    using r(2) by (auto simp: ComboIndex_lookup_def seg_lower_bound_def combo_tail_def Index_lookup_def Index_of_array_def seg_less_def
      seg_end_def trim_edge_mappings_def forward_offset_to_def seg_forward_offset_to_def backward_end_to_def ENV_BUG_ON_def)
  then have "img r x = (case seg_at ex_new x of None \<Rightarrow> combo_img ex_combo x | Some p \<Rightarrow> Some p)" if "x < 200" for x
    using r(3) that by (simp add: lookup_ok_def seg_end_def)
  then show ?thesis using r(1,2) by (intro exI [of _ ci'] exI [of _ r]) (simp add: seg_at_def seg_end_def combo_img_def overlay_def Index_of_array_def)
qed

text \<open>The constructor of a combined index does not copy the count of blocks of the writable index.  A combined index over an index of 100
  blocks starts with the count 0, and discarding its first ten sectors leaves the count \<open>2\<^sup>6\<^sup>4 - 10\<close>.\<close>

lemma combo_block_count_wraps:
  "map_option (m_alloc \<circ> combo_mapping) (create_combo_index (Some ex_ix) (Some (Index_of_array [] 0)) 1) = Some 0 \<and>
   map_option (m_alloc \<circ> combo_mapping) (do {
     ci \<leftarrow> create_combo_index (Some ex_ix) (Some (Index_of_array [] 0)) 1;
     ComboIndex_insert ci \<lparr>s_offset = 0, s_length = 10, moffset = 0, zeroed = True, tag = 0\<rparr> }) = Some (2 ^ 64 - 10)"
  by (simp add: create_combo_index_def ComboIndex_new_def ComboIndex_insert_def Index0_insert_def seg_less_def seg_end_def
      remove_partial_overlap_def forward_offset_to_def seg_forward_offset_to_def ENV_BUG_ON_def alloc_sub_def alloc_add_def)

end
