(* ===== verification/LSMT_Merge.thy ===== *)
theory LSMT_Merge
  imports LSMT_Combo
begin

text \<open>
  The merging of the indexes of several layers into one, and the compression of an array of mappings
  (\<open>lsmt/index.cpp\<close>, \<open>merge_indexes\<close>, \<open>merge_memory_indexes\<close>, \<open>compress_raw_index\<close> and the members of
  \<open>ComboIndex\<close> that merge).  Merged indexes say of a sector what the first index says that knows it.
\<close>

subsection \<open>Merging\<close>

text \<open>\<open>merge_indexes\<close> appends the merged mappings to the vector.  \<open>pindexes + k\<close> is a suffix of the list of indexes; an access
  behind its end is \<open>None\<close>.  The two functions are the function and its loop; the loop also gives the place it reached.\<close>

function (sequential) merge_indexes ::
    "nat \<Rightarrow> segment_mapping list \<Rightarrow> lsmt_index list \<Rightarrow> nat \<Rightarrow> nat \<Rightarrow> nat \<Rightarrow> bool \<Rightarrow> nat \<Rightarrow> segment_mapping list option"
  and merge_loop ::
    "nat \<Rightarrow> segment_mapping list \<Rightarrow> lsmt_index list \<Rightarrow> nat \<Rightarrow> nat \<Rightarrow> nat \<Rightarrow> bool \<Rightarrow> nat \<Rightarrow> segment_mapping list \<Rightarrow>
     segment_mapping list option"
where
  "merge_indexes level mapping pindexes n b e change_tag max_level =
     (if (if change_tag then n = 0 else max_level = 0) then Some mapping
      else if b \<ge> e then Some mapping
      else case pindexes of
        [] \<Rightarrow> None
      | pi0 # _ \<Rightarrow> do {
          r \<leftarrow> merge_loop level mapping pindexes n b e change_tag max_level (Index_lower_bound pi0 b);
          let size0 = length mapping;
          if length r > size0 then do {
            f \<leftarrow> (if s_offset (r ! size0) < b then forward_offset_to (r ! size0) b else Some (r ! size0));
            let r = r[size0 := f];
            l \<leftarrow> (if seg_end (last r) > e then backward_end_to (last r) e else Some (last r));
            Some (butlast r @ [l])
          } else Some r
        })"
| "merge_loop level mapping pindexes n b e change_tag max_level its =
     (if (if change_tag then n = 0 else max_level = 0) then None
      else
        let below = (\<lambda>mapping b e.
              if change_tag then merge_indexes ((level + 1) mod 2 ^ 8) mapping (drop 1 pindexes) (n - 1) b e True 0
              else let k = (if n \<le> 1 then 0 else 1)
                   in merge_indexes ((level + 1) mod 2 ^ 8) mapping (drop k pindexes) 0 b e False (max_level - 1)) in
        case its of
          it # its' \<Rightarrow>
            if s_offset it < e then do {
              mapping \<leftarrow> (if s_offset it > b then below mapping b (s_offset it) else Some mapping);
              let m = (if change_tag then it\<lparr>tag := level\<rparr> else it);
              merge_loop level (mapping @ [m]) pindexes n (seg_end it) e change_tag max_level its'
            } else if b < e then below mapping b e else Some mapping
        | [] \<Rightarrow> if b < e then below mapping b e else Some mapping)"
  by pat_completeness auto

termination
  by (relation "measures [\<lambda>x. case x of Inl (_, _, _, n, _, _, ct, ml) \<Rightarrow> (if ct then n else ml)
        | Inr (_, _, _, n, _, _, ct, ml, _) \<Rightarrow> (if ct then n else ml),
      \<lambda>x. case x of Inl _ \<Rightarrow> 1 | Inr _ \<Rightarrow> 0,
      \<lambda>x. case x of Inl _ \<Rightarrow> 0 | Inr (_, _, _, _, _, _, _, _, its) \<Rightarrow> length its]") auto

declare merge_indexes.simps [simp del] merge_loop.simps [simp del]

text \<open>\<open>UINT64_MAX\<close> is the end of the range for a whole index.  The result of \<open>rebuild_backing_index\<close> and \<open>make_read_only_index\<close>
  is the index over the merged vector; an access to a missing backing index is \<open>None\<close>.\<close>

definition UINT64_MAX :: nat where "UINT64_MAX = 2 ^ 64 - 1"

definition merge_memory_indexes :: "lsmt_index list \<Rightarrow> lsmt_index option" where
  "merge_memory_indexes pindexes = (
     let n = length pindexes in
     if n > 255 then None
     else if n = 0 then None
     else do {
       mapping \<leftarrow> merge_indexes 0 [] pindexes n 0 UINT64_MAX True 0;
       Some (Index_of_vector mapping (virtual_size (hd pindexes)))
     })"

definition ComboIndex_rebuild_backing_index :: "combo_index \<Rightarrow> lsmt_index \<Rightarrow> nat \<Rightarrow> lsmt_index option" where
  "ComboIndex_rebuild_backing_index ci highlevel_idx max_level = do {
     bk \<leftarrow> m_backing_index ci;
     mappings \<leftarrow> merge_indexes 0 [] [highlevel_idx, bk] 2 0 UINT64_MAX False max_level;
     Some (Index_of_vector mappings 0)
   }"

definition ComboIndex_make_read_only_index :: "combo_index \<Rightarrow> lsmt_index option" where
  "ComboIndex_make_read_only_index ci = (
     let ro_idx0 = Index_of_vector (mapping0 (combo_mapping ci)) 0 in
     case m_backing_index ci of
       None \<Rightarrow> Some ro_idx0
     | Some bk \<Rightarrow> do {
         mappings \<leftarrow> merge_indexes 0 [] [ro_idx0, bk] 2 0 UINT64_MAX False 2;
         Some (Index_of_vector mappings 0)
       })"

subsection \<open>Compression\<close>

text \<open>The loop with the current mapping \<open>mapping[i]\<close> and the mappings from \<open>j\<close> on; the result is what the array holds up to the new size.\<close>

fun compress_loop :: "segment_mapping \<Rightarrow> segment_mapping list \<Rightarrow> segment_mapping list" where
  "compress_loop m [] = [m]"
| "compress_loop m (q # ms) =
     (if seg_end m = s_offset q \<and> mend m = moffset q \<and> zeroed m = zeroed q \<and> tag m = tag q \<and> s_length m + s_length q < MAX_LENGTH
      then compress_loop (m\<lparr>s_length := (s_length m + s_length q) mod 2 ^ 14\<rparr>) ms
      else m # compress_loop q ms)"

definition compress_raw_index :: "segment_mapping list \<Rightarrow> segment_mapping list" where
  "compress_raw_index ms = (case ms of m # q # qs \<Rightarrow> compress_loop m (q # qs) | _ \<Rightarrow> ms)"

fun predict_loop :: "segment_mapping \<Rightarrow> segment_mapping list \<Rightarrow> nat" where
  "predict_loop m [] = 1"
| "predict_loop m (q # ms) =
     (if seg_end m = s_offset q \<and> tag m = tag q \<and> zeroed m = zeroed q \<and> s_length m + s_length q < MAX_LENGTH
      then predict_loop (m\<lparr>s_length := (s_length m + s_length q) mod 2 ^ 14\<rparr>) ms
      else predict_loop q ms + 1)"

definition compress_raw_index_predict :: "segment_mapping list \<Rightarrow> nat" where
  "compress_raw_index_predict ms = (case ms of m # q # qs \<Rightarrow> predict_loop m (q # qs) | _ \<Rightarrow> length ms)"

subsection \<open>One level of a merge\<close>

text \<open>The result appends mappings that lie in the range and say what \<open>g\<close> says.\<close>

definition merges :: "(nat \<Rightarrow> place option) \<Rightarrow> nat \<Rightarrow> nat \<Rightarrow> segment_mapping list \<Rightarrow> segment_mapping list option \<Rightarrow> bool" where
  "merges g b e mapping res \<longleftrightarrow> (\<exists>r. res = Some (mapping @ r) \<and> segs_ok r \<and> inside b e r \<and> (\<forall>x. b \<le> x \<and> x < e \<longrightarrow> img r x = g x))"

text \<open>An index that fits strictly into the address space.\<close>

definition short_index :: "segment_mapping list \<Rightarrow> bool" where
  "short_index ms \<longleftrightarrow> segs_ok ms \<and> (\<forall>m\<in>set ms. seg_end m < 2 ^ 50)"

lemma merges_none: "merges g b e mapping (Some mapping)" if "\<And>x. b \<le> x \<Longrightarrow> x < e \<Longrightarrow> g x = None"
  using that by (auto simp: merges_def)

definition below_of :: "nat \<Rightarrow> lsmt_index list \<Rightarrow> nat \<Rightarrow> bool \<Rightarrow> nat \<Rightarrow> segment_mapping list \<Rightarrow> nat \<Rightarrow> nat \<Rightarrow> segment_mapping list option" where
  "below_of level pindexes n change_tag max_level mapping b e = (
     if change_tag then merge_indexes ((level + 1) mod 2 ^ 8) mapping (drop 1 pindexes) (n - 1) b e True 0
     else let k = (if n \<le> 1 then 0 else 1)
          in merge_indexes ((level + 1) mod 2 ^ 8) mapping (drop k pindexes) 0 b e False (max_level - 1))"

definition mark :: "bool \<Rightarrow> nat \<Rightarrow> segment_mapping \<Rightarrow> segment_mapping" where
  "mark change_tag level m = (if change_tag then m\<lparr>tag := level\<rparr> else m)"

lemma mark_simps [simp]:
  "s_offset (mark c l m) = s_offset m" "seg_end (mark c l m) = seg_end m" "seg_less (mark c l m) m' = seg_less m m'"
  "l < 2 ^ 8 \<Longrightarrow> map_ok m \<Longrightarrow> map_ok (mark c l m)"
  by (auto simp: mark_def seg_end_def seg_less_def map_ok_def mend_def)

lemma map_mark_False [simp]: "map (mark False l) ms = ms"
  by (simp add: map_idI mark_def)

lemma merge_loop_unfold:
  assumes "if change_tag then n \<noteq> 0 else max_level \<noteq> 0"
  shows "merge_loop level mapping pindexes n b e change_tag max_level (it # its) =
     (if s_offset it < e then do {
        mapping \<leftarrow> (if s_offset it > b then below_of level pindexes n change_tag max_level mapping b (s_offset it) else Some mapping);
        merge_loop level (mapping @ [mark change_tag level it]) pindexes n (seg_end it) e change_tag max_level its
      } else if b < e then below_of level pindexes n change_tag max_level mapping b e else Some mapping)"
    "merge_loop level mapping pindexes n b e change_tag max_level [] =
      (if b < e then below_of level pindexes n change_tag max_level mapping b e else Some mapping)"
  using assms by (subst merge_loop.simps; simp add: mark_def below_of_def Let_def)+

text \<open>Mappings that say what \<open>f\<close> says in the whole range, and how two of them are joined around the mapping \<open>it\<close>.\<close>

lemma shows_all: "shows_upto f a e (Suc (length r)) r \<longleftrightarrow> segs_ok r \<and> meets a e r \<and> (\<forall>x. a \<le> x \<and> x < e \<longrightarrow> img r x = f x)"
  by (auto simp: shows_upto_def)

lemma overlay_nil [simp]: "overlay (img []) g = g" "overlay f (\<lambda>x. None) = f" "overlay (\<lambda>x. None) g = g"
  by (auto simp: fun_eq_iff overlay_def split: option.split)

lemma shows_join:
  assumes "segs_ok m1" "inside a (s_offset it) m1" "map_ok it" "a < seg_end it" "s_offset it < e"
    and "shows_upto f (seg_end it) e (Suc (length rest)) rest" "\<forall>m\<in>set rest. seg_end it \<le> s_offset m"
    and "\<And>x. a \<le> x \<Longrightarrow> x < s_offset it \<Longrightarrow> img m1 x = f x" "\<And>x. a \<le> x \<Longrightarrow> s_offset it \<le> x \<Longrightarrow> x < seg_end it \<Longrightarrow> x < e \<Longrightarrow> f x = seg_at it x"
  shows "shows_upto f a e (Suc (length (m1 @ it # rest))) (m1 @ it # rest)"
proof -
  have m1: "a < seg_end m \<and> seg_end m \<le> seg_end it" "s_offset m < e" if "m \<in> set m1" for m
    using that assms(1,2,5) map_ok_less [of m] map_ok_less [OF assms(3)] by (auto simp: segs_ok_def inside_def)
  have "img (m1 @ [it]) x = f x" if "a \<le> x" "x < seg_end it" "x < e" for x
  proof (cases "x < s_offset it")
    case True
    then show ?thesis using that assms(8) by (auto simp: img_append seg_at_def split: option.splits)
  next
    case False
    then have "img m1 x = None" using assms(2) by (intro img_after) (fastforce simp: inside_def)
    then show ?thesis using that False assms(9) by (auto simp: img_append seg_at_def)
  qed
  moreover have "segs_ok (m1 @ [it])" using assms(1-3) by (simp add: seg_less_def inside_def)
  ultimately have "shows_upto f a e (Suc (length (m1 @ it # rest))) ((m1 @ [it]) @ rest)"
    using m1 assms(4-7) by (intro shows_append [where b = "seg_end it"]) auto
  then show ?thesis by simp
qed

lemma inside_meets: "segs_ok r \<Longrightarrow> inside b e r \<Longrightarrow> meets b e r"
  using map_ok_less by (fastforce simp: meets_def inside_def segs_ok_def)

lemma seg_at_mark: "seg_at (mark c l m) x = None \<longleftrightarrow> seg_at m x = None"
  by (simp add: seg_at_None_iff)

lemma short_index_Cons: "short_index (m # ms) \<Longrightarrow> map_ok m \<and> seg_end m < 2 ^ 50 \<and> short_index ms \<and> (\<forall>m'\<in>set ms. seg_end m \<le> s_offset m' \<and> seg_end m < seg_end m')"
  using map_ok_less by (fastforce simp: short_index_def seg_less_def segs_ok_def)

lemma merge_tail:
  assumes below: "\<And>mapping b e. b < e \<Longrightarrow> b < 2 ^ 50 \<Longrightarrow> merges g b e mapping (below mapping b e)"
    and b: "b < 2 ^ 50" and f: "\<And>x. b \<le> x \<Longrightarrow> x < e \<Longrightarrow> f x = g x"
  shows "\<exists>r. (if b < e then below mapping b e else Some mapping) = Some (mapping @ r) \<and>
      shows_upto f b e (Suc (length r)) r \<and> (\<forall>m\<in>set r. b \<le> s_offset m)"
proof (cases "b < e")
  case True
  then obtain r where r: "below mapping b e = Some (mapping @ r)" "segs_ok r" "inside b e r"
      "\<forall>x. b \<le> x \<and> x < e \<longrightarrow> img r x = g x"
    using below [of b e mapping] b unfolding merges_def by blast
  then show ?thesis
    unfolding if_P [OF True] r(1) using r f inside_meets [OF r(2,3)] by (auto simp: shows_all inside_def)
next
  case False
  then show ?thesis unfolding if_not_P [OF False] by (auto simp: shows_all meets_def)
qed

lemma merge_loop_ok:
  assumes active: "if change_tag then n \<noteq> 0 else max_level \<noteq> 0" and level: "level < 2 ^ 8"
    and below: "\<And>mapping b e. b < e \<Longrightarrow> b < 2 ^ 50 \<Longrightarrow> merges g b e mapping (below_of level pindexes n change_tag max_level mapping b e)"
  shows "short_index its \<Longrightarrow> \<forall>m\<in>set its. b < seg_end m \<Longrightarrow> b < 2 ^ 50 \<Longrightarrow>
    \<exists>r. merge_loop level mapping pindexes n b e change_tag max_level its = Some (mapping @ r) \<and>
      shows_upto (overlay (img (map (mark change_tag level) its)) g) b e (Suc (length r)) r \<and>
      ((\<forall>m\<in>set its. b \<le> s_offset m) \<longrightarrow> (\<forall>m\<in>set r. b \<le> s_offset m))"
proof (induction its arbitrary: b mapping)
  case Nil
  show ?case unfolding merge_loop_unfold(2) [OF active]
    using merge_tail [OF below Nil.prems(3), of e "overlay (img (map (mark change_tag level) [])) g" mapping] by auto
next
  case (Cons it its)
  let ?f = "overlay (img (map (mark change_tag level) (it # its))) g"
  have it: "map_ok it" "seg_end it < 2 ^ 50" "b < seg_end it" "s_offset it < seg_end it"
    and its: "short_index its" "\<forall>m\<in>set its. seg_end it < seg_end m" "\<forall>m\<in>set its. seg_end it \<le> s_offset m"
    using short_index_Cons [OF Cons.prems(1)] Cons.prems(2) map_ok_less by auto
  have before: "?f x = g x" if "x < s_offset it" for x
  proof -
    have "img (map (mark change_tag level) (it # its)) x = None" using that it(4) its(3) by (intro img_before) fastforce
    then show ?thesis by (simp add: overlay_def)
  qed
  show ?case
  proof (cases "s_offset it < e")
    case False
    then have "?f x = g x" if "b \<le> x" "x < e" for x using before that by (meson less_le_trans not_less)
    then show ?thesis unfolding merge_loop_unfold(1) [OF active] if_not_P [OF False]
      using merge_tail [OF below Cons.prems(3), of e ?f mapping] by blast
  next
    case True
    have "merges g b (s_offset it) mapping
        (if s_offset it > b then below_of level pindexes n change_tag max_level mapping b (s_offset it) else Some mapping)"
      using below [OF _ Cons.prems(3)] merges_none [of b "s_offset it"] by (cases "b < s_offset it") simp_all
    then obtain m1 where m1: "(if s_offset it > b then below_of level pindexes n change_tag max_level mapping b (s_offset it) else Some mapping) = Some (mapping @ m1)"
        "segs_ok m1" "inside b (s_offset it) m1" "\<forall>x. b \<le> x \<and> x < s_offset it \<longrightarrow> img m1 x = g x"
      unfolding merges_def by blast
    obtain rest where rest: "merge_loop level ((mapping @ m1) @ [mark change_tag level it]) pindexes n (seg_end it) e change_tag max_level its
          = Some (((mapping @ m1) @ [mark change_tag level it]) @ rest)"
        "shows_upto (overlay (img (map (mark change_tag level) its)) g) (seg_end it) e (Suc (length rest)) rest" "\<forall>m\<in>set rest. seg_end it \<le> s_offset m"
      using Cons.IH [OF its(1,2) it(2)] its(3) by blast
    have "merge_loop level mapping pindexes n b e change_tag max_level (it # its) = Some (mapping @ m1 @ mark change_tag level it # rest)"
      unfolding merge_loop_unfold(1) [OF active] if_P [OF True] m1(1) Option.bind.simps rest(1) by simp
    moreover have "shows_upto ?f (seg_end it) e (Suc (length rest)) rest"
      using rest(2) by (simp add: shows_all overlay_def seg_at_def)
    then have "shows_upto ?f b e (Suc (length (m1 @ mark change_tag level it # rest))) (m1 @ mark change_tag level it # rest)"
      using m1 it level True rest(3) before by (intro shows_join) (auto simp: overlay_def seg_at_def)
    moreover have "\<forall>m\<in>set (m1 @ mark change_tag level it # rest). b \<le> s_offset m" if "b \<le> s_offset it"
      using that m1(3) it(3) rest(3) by (fastforce simp: inside_def)
    ultimately show ?thesis by (intro exI [of _ "m1 @ mark change_tag level it # rest"]) (simp del: img.simps)
  qed
qed

text \<open>The trimming at the end of a level is the trimming of a lookup, of the mappings that the level added.\<close>

lemma merge_trim:
  assumes "segs_ok r" "meets b e r" "b < e"
  shows "\<exists>r'. (if length (mapping @ r) > length mapping then do {
        f \<leftarrow> (if s_offset ((mapping @ r) ! length mapping) < b then forward_offset_to ((mapping @ r) ! length mapping) b
            else Some ((mapping @ r) ! length mapping));
        let r = (mapping @ r)[length mapping := f];
        l \<leftarrow> (if seg_end (last r) > e then backward_end_to (last r) e else Some (last r));
        Some (butlast r @ [l])
      } else Some (mapping @ r)) = Some (mapping @ r') \<and> segs_ok r' \<and> inside b e r' \<and> (\<forall>x. b \<le> x \<and> x < e \<longrightarrow> img r' x = img r x)"
proof (cases r)
  case (Cons m ms)
  let ?s = "\<lparr>s_offset = b, s_length = e - b\<rparr>"
  have s: "seg_end ?s = e" "0 < s_length ?s" using assms(3) by (simp_all add: seg_end_def)
  obtain r' where r': "trim_edge_mappings r ?s = Some r'" "segs_ok r'" "inside b e r'" "\<forall>x. b \<le> x \<and> x < e \<longrightarrow> img r' x = img r x"
    using trim_ok [of r ?s] assms(1,2) s by auto
  have "\<exists>f l. (if s_offset m < b then forward_offset_to m b else Some m) = Some f \<and>
      (if seg_end (last (f # ms)) > e then backward_end_to (last (f # ms)) e else Some (last (f # ms))) = Some l \<and> r' = butlast (f # ms) @ [l]"
    using r'(1) by (simp only: Cons trim_edge_mappings_def list.sel list.distinct if_False Let_def s(1) segment.select_convs bind_eq_Some_conv
      option.inject) blast
  then obtain f l where fl: "(if s_offset m < b then forward_offset_to m b else Some m) = Some f"
      "(if seg_end (last (f # ms)) > e then backward_end_to (last (f # ms)) e else Some (last (f # ms))) = Some l" "r' = butlast (f # ms) @ [l]"
    by blast
  have nth: "(mapping @ m # ms) ! length mapping = m" "(mapping @ m # ms)[length mapping := f] = mapping @ f # ms"
    "last (mapping @ f # ms) = last (f # ms)" "butlast (mapping @ f # ms) = mapping @ butlast (f # ms)"
    by (simp_all add: butlast_append)
  have long: "length (mapping @ m # ms) > length mapping" by simp
  show ?thesis
    unfolding Cons if_P [OF long] nth(1) fl(1) Option.bind.simps Let_def nth(2-4) fl(2)
    using r'(2-4) Cons fl(3) by auto
qed (simp add: Let_def)

lemma merge_level:
  assumes active: "if change_tag then n \<noteq> 0 else max_level \<noteq> 0" and level: "level < 2 ^ 8"
    and below: "\<And>mapping b e. b < e \<Longrightarrow> b < 2 ^ 50 \<Longrightarrow> merges g b e mapping (below_of level (I # Is) n change_tag max_level mapping b e)"
    and I: "short_index (ix_mapping I)" and b: "b < 2 ^ 50"
  shows "merges (overlay (img (map (mark change_tag level) (ix_mapping I))) g) b e mapping
    (merge_indexes level mapping (I # Is) n b e change_tag max_level)"
proof (cases "b < e")
  case False
  then show ?thesis by (subst merge_indexes.simps) (simp add: merges_none)
next
  case True
  let ?f = "overlay (img (map (mark change_tag level) (ix_mapping I))) g" and ?ms = "ix_mapping I"
  have ms: "segs_ok ?ms" using I by (simp add: short_index_def)
  obtain bef rest where sp: "?ms = bef @ rest" "seg_lower_bound ?ms \<lparr>s_offset = b, s_length = 1\<rparr> = rest"
      "\<And>m. m \<in> set bef \<Longrightarrow> seg_end m \<le> b" "\<And>m. m \<in> set rest \<Longrightarrow> b < seg_end m"
    using lower_bound_split [OF ms, of "\<lparr>s_offset = b, s_length = 1\<rparr>"] by (metis segment.select_convs(1))
  have lb: "Index_lower_bound I b = rest" using sp(2) b by (simp add: Index_lower_bound_def)
  have "short_index rest" using I sp(1) by (simp add: short_index_def)
  then obtain r where r: "merge_loop level mapping (I # Is) n b e change_tag max_level rest = Some (mapping @ r)"
      "shows_upto (overlay (img (map (mark change_tag level) rest)) g) b e (Suc (length r)) r"
    using merge_loop_ok [OF active level below _ _ b, of rest mapping e] sp(4) by blast
  have "img (map (mark change_tag level) bef) x = None" if "b \<le> x" for x using sp(3) that by (intro img_after) fastforce
  then have f: "img r x = ?f x" if "b \<le> x" "x < e" for x
    using that r(2) by (simp add: shows_all overlay_def sp(1) img_append)
  have "segs_ok r" "meets b e r" using r(2) by (simp_all add: shows_all)
  note trim = merge_trim [OF this True, of mapping]
  have step: "merge_indexes level mapping (I # Is) n b e change_tag max_level = (if length (mapping @ r) > length mapping then do {
        f \<leftarrow> (if s_offset ((mapping @ r) ! length mapping) < b then forward_offset_to ((mapping @ r) ! length mapping) b
            else Some ((mapping @ r) ! length mapping));
        let r = (mapping @ r)[length mapping := f];
        l \<leftarrow> (if seg_end (last r) > e then backward_end_to (last r) e else Some (last r));
        Some (butlast r @ [l])
      } else Some (mapping @ r))"
    using active True by (subst merge_indexes.simps) (simp add: lb r(1) Let_def)
  show ?thesis unfolding merges_def step using trim f by auto
qed

subsection \<open>Merged indexes\<close>

text \<open>What a stack of layers says of a sector: the first layer that knows it, with its number as the tag.\<close>

fun layers :: "nat \<Rightarrow> lsmt_index list \<Rightarrow> nat \<Rightarrow> place option" where
  "layers level [] x = None"
| "layers level (I # Is) x = (case img (ix_mapping I) x of None \<Rightarrow> layers (level + 1) Is x | Some (t, p) \<Rightarrow> Some (level, p))"

lemma img_mark: "img (map (mark change_tag level) ms) x =
    (case img ms x of None \<Rightarrow> None | Some (t, p) \<Rightarrow> Some (if change_tag then level else t, p))"
  by (induction ms) (auto simp: seg_at_def mark_def seg_end_def split: option.splits)

lemma layers_overlay: "layers level (I # Is) = overlay (img (map (mark True level) (ix_mapping I))) (layers (level + 1) Is)"
  by (auto simp: fun_eq_iff img_mark overlay_def split: option.split)

lemma merges_layers:
  "level + n \<le> 256 \<Longrightarrow> n = length Is \<Longrightarrow> \<forall>I\<in>set Is. short_index (ix_mapping I) \<Longrightarrow> b < 2 ^ 50 \<Longrightarrow>
    merges (layers level Is) b e mapping (merge_indexes (level mod 2 ^ 8) mapping Is n b e True 0)"
proof (induction n arbitrary: level Is b e mapping)
  case 0
  then show ?case by (subst merge_indexes.simps) (simp add: merges_none)
next
  case (Suc n)
  then obtain I Js where Is: "Is = I # Js" by (cases Is) auto
  have level: "level < 2 ^ 8" using Suc.prems(1) by simp
  have "merges (layers (level + 1) Js) b e mapping (below_of level (I # Js) (Suc n) True 0 mapping b e)" if "b < 2 ^ 50" for b e mapping
    using Suc.IH [of "level + 1" Js b e mapping] Suc.prems that by (simp add: below_of_def Is)
  then show ?case
    unfolding Is layers_overlay using merge_level [of True "Suc n" 0 level "layers (level + 1) Js" I Js b e mapping] level Suc.prems
    by (simp add: Is)
qed

text \<open>Without renumbering, the second index is merged again and again below itself, which adds nothing.\<close>

lemma merges_same:
  assumes "short_index (ix_mapping I)"
  shows "b < 2 ^ 50 \<Longrightarrow> level < 2 ^ 8 \<Longrightarrow>
    merges (if max_level = 0 then (\<lambda>x. None) else img (ix_mapping I)) b e mapping (merge_indexes level mapping (I # Is) 0 b e False max_level)"
proof (induction max_level arbitrary: level b e mapping)
  case 0
  then show ?case by (subst merge_indexes.simps) (simp add: merges_none)
next
  case (Suc k)
  let ?g = "if k = 0 then (\<lambda>x. None) else img (ix_mapping I)"
  have "merges ?g b e mapping (below_of level (I # Is) 0 False (Suc k) mapping b e)" if "b < 2 ^ 50" for b e mapping
    using Suc.IH [of b "(level + 1) mod 2 ^ 8" e mapping] that by (simp add: below_of_def)
  then have "merges (overlay (img (map (mark False level) (ix_mapping I))) ?g) b e mapping (merge_indexes level mapping (I # Is) 0 b e False (Suc k))"
    using merge_level [of False 0 "Suc k" level ?g I Is b e mapping] Suc.prems assms by simp
  moreover have "overlay (img (map (mark False level) (ix_mapping I))) ?g = img (ix_mapping I)"
    by (auto simp: fun_eq_iff overlay_def split: option.split)
  ultimately show ?case by simp
qed

lemma merges_two:
  assumes "short_index (ix_mapping I)" "short_index (ix_mapping J)" "2 \<le> max_level"
  shows "merges (overlay (img (ix_mapping I)) (img (ix_mapping J))) 0 e [] (merge_indexes 0 [] [I, J] 2 0 e False max_level)"
proof -
  have "merges (img (ix_mapping J)) b e mapping (below_of 0 [I, J] 2 False max_level mapping b e)" if "b < 2 ^ 50" for b e mapping
    using merges_same [OF assms(2) that, of 1 "max_level - 1" e mapping "[]"] assms(3) by (simp add: below_of_def)
  then show ?thesis
    using merge_level [of False 2 max_level 0 "img (ix_mapping J)" I "[J]" 0 e "[]"] assms by simp
qed

subsection \<open>Compression\<close>

lemma compress_join:
  assumes "segs_ok (m # q # ms)" "seg_end m = s_offset q" "mend m = moffset q" "zeroed m = zeroed q" "tag m = tag q"
    and "s_length m + s_length q < MAX_LENGTH"
  shows "\<exists>j. m\<lparr>s_length := (s_length m + s_length q) mod 2 ^ 14\<rparr> = j \<and> segs_ok (j # ms) \<and> img (j # ms) = img (m # q # ms) \<and>
    blk j = blk m + blk q \<and> s_offset j = s_offset m"
proof -
  let ?j = "m\<lparr>s_length := s_length m + s_length q\<rparr>"
  have len: "(s_length m + s_length q) mod 2 ^ 14 = s_length m + s_length q" using assms(6) by (simp add: MAX_LENGTH_def)
  have "seg_end ?j = seg_end q" using assms(2) by (simp add: seg_end_def)
  moreover have "map_ok ?j"
    using assms calculation by (auto simp: map_ok_def MAX_LENGTH_def mend_def split: if_splits)
  moreover have "seg_at ?j x = (case seg_at m x of None \<Rightarrow> seg_at q x | Some p \<Rightarrow> Some p)" for x
    using assms(2-5) by (auto simp: seg_at_def seg_end_def mend_def split: if_splits)
  then have "img (?j # ms) = img (m # q # ms)" by (auto simp: fun_eq_iff split: option.split)
  ultimately show ?thesis
    unfolding len using assms(1,4) by (intro exI [of _ ?j]) (auto simp: seg_less_def blk_def)
qed

lemma compress_loop_ok:
  "segs_ok (m # ms) \<Longrightarrow> segs_ok (compress_loop m ms) \<and> img (compress_loop m ms) = img (m # ms) \<and>
    blocks (compress_loop m ms) = blocks (m # ms) \<and> length (compress_loop m ms) \<le> length (m # ms) \<and>
    (\<forall>m'\<in>set (compress_loop m ms). s_offset m \<le> s_offset m')"
proof (induction m ms rule: compress_loop.induct)
  case (2 m q ms)
  let ?c = "seg_end m = s_offset q \<and> mend m = moffset q \<and> zeroed m = zeroed q \<and> tag m = tag q \<and> s_length m + s_length q < MAX_LENGTH"
  show ?case
  proof (cases ?c)
    case True
    then obtain j where j: "m\<lparr>s_length := (s_length m + s_length q) mod 2 ^ 14\<rparr> = j" "segs_ok (j # ms)" "img (j # ms) = img (m # q # ms)"
        "blk j = blk m + blk q" "s_offset j = s_offset m"
      using compress_join [OF 2(3)] by blast
    have "compress_loop m (q # ms) = compress_loop j ms" by (simp only: compress_loop.simps if_P [OF True] j(1))
    moreover have "segs_ok (compress_loop j ms) \<and> img (compress_loop j ms) = img (j # ms) \<and> blocks (compress_loop j ms) = blocks (j # ms) \<and>
        length (compress_loop j ms) \<le> length (j # ms) \<and> (\<forall>m'\<in>set (compress_loop j ms). s_offset j \<le> s_offset m')"
      using 2(1) [OF True] j(1,2) by blast
    ultimately show ?thesis using j(3-5) by (simp del: img.simps)
  next
    case False
    have q: "segs_ok (q # ms)" "seg_end m \<le> s_offset q" "map_ok m" using 2(3) by (simp_all add: seg_less_def)
    have "compress_loop m (q # ms) = m # compress_loop q ms" by (simp only: compress_loop.simps if_not_P [OF False])
    moreover note 2(2) [OF False q(1)]
    moreover have "s_offset m \<le> s_offset q" using q(2) by (simp add: seg_end_def)
    ultimately show ?thesis using q(2,3) by (auto simp: seg_less_def fun_eq_iff intro: le_trans split: option.split)
  qed
qed simp

lemma compress_raw_ok:
  assumes "segs_ok ms"
  shows "segs_ok (compress_raw_index ms) \<and> img (compress_raw_index ms) = img ms \<and> blocks (compress_raw_index ms) = blocks ms \<and>
    length (compress_raw_index ms) \<le> length ms"
proof (cases ms)
  case (Cons m qs)
  then show ?thesis
    using compress_loop_ok [of m qs] assms by (cases qs) (simp_all add: compress_raw_index_def del: compress_loop.simps)
qed (simp add: compress_raw_index_def)

text \<open>A joined mapping ends where its second part ended, so the data stay in their range.\<close>

lemma compress_loop_range:
  "\<forall>j\<in>set (m # ms). a \<le> moffset j \<and> mend j \<le> b \<Longrightarrow> \<forall>j\<in>set (compress_loop m ms). a \<le> moffset j \<and> mend j \<le> b"
proof (induction m ms rule: compress_loop.induct)
  case (2 m q ms)
  show ?case
  proof (cases "seg_end m = s_offset q \<and> mend m = moffset q \<and> zeroed m = zeroed q \<and> tag m = tag q \<and> s_length m + s_length q < MAX_LENGTH")
    case True
    then have "mend (m\<lparr>s_length := (s_length m + s_length q) mod 2 ^ 14\<rparr>) = mend q" by (auto simp: mend_def MAX_LENGTH_def)
    then show ?thesis using 2(1) [OF True] 2(3) True by simp
  next
    case False
    have "\<forall>j\<in>set (compress_loop q ms). a \<le> moffset j \<and> mend j \<le> b" using 2(2) [OF False] 2(3) by simp
    then show ?thesis using 2(3) unfolding compress_loop.simps if_not_P [OF False] by simp
  qed
qed simp

lemma compress_raw_range:
  assumes "\<forall>j\<in>set ms. a \<le> moffset j \<and> mend j \<le> b"
  shows "\<forall>j\<in>set (compress_raw_index ms). a \<le> moffset j \<and> mend j \<le> b"
proof (cases ms)
  case (Cons m qs)
  then show ?thesis
    using compress_loop_range [of m qs a b] assms by (cases qs) (simp_all add: compress_raw_index_def del: compress_loop.simps)
qed (simp add: compress_raw_index_def)

subsection \<open>Properties\<close>

lemma vector_of_merge:
  assumes "merges g 0 UINT64_MAX [] res" "\<And>x. UINT64_MAX \<le> x \<Longrightarrow> g x = None"
  shows "\<exists>r. res = Some r \<and> segs_ok r \<and> img r = g"
proof -
  obtain r where r: "res = Some r" "segs_ok r" "inside 0 UINT64_MAX r" "\<forall>x. x < UINT64_MAX \<longrightarrow> img r x = g x"
    using assms(1) by (auto simp: merges_def)
  have "img r x = g x" for x
    using r(3,4) assms(2) inside_image [of 0 UINT64_MAX r x] by (cases "x < UINT64_MAX") auto
  then show ?thesis using r by (auto simp: fun_eq_iff)
qed

lemma short_index_far: "short_index ms \<Longrightarrow> UINT64_MAX \<le> x \<Longrightarrow> img ms x = None"
  by (intro img_after) (fastforce simp: short_index_def UINT64_MAX_def)

lemma layers_far: "\<forall>I\<in>set Is. short_index (ix_mapping I) \<Longrightarrow> UINT64_MAX \<le> x \<Longrightarrow> layers level Is x = None"
  by (induction Is arbitrary: level) (auto simp: short_index_far)

text \<open>C12. Merging up to 255 indexes hits no assertion and gives an index in order without overlap, which says of every sector what the
  first index says that knows the sector, with the number of that index as the tag, and whose count of blocks is the number of sectors with
  data; no index, or more than 255, is refused.\<close>

theorem merge_memory_indexes_correct:
  assumes "\<forall>I\<in>set Is. short_index (ix_mapping I)"
  shows "if Is = [] \<or> 255 < length Is then merge_memory_indexes Is = None
    else \<exists>J. merge_memory_indexes Is = Some J \<and> segs_ok (ix_mapping J) \<and> img (ix_mapping J) = layers 0 Is \<and>
      ix_alloc_blk J = blocks (ix_mapping J) \<and> virtual_size J = virtual_size (hd Is)"
proof (cases "Is = [] \<or> 255 < length Is")
  case False
  then have "merges (layers 0 Is) 0 UINT64_MAX [] (merge_indexes 0 [] Is (length Is) 0 UINT64_MAX True 0)"
    using merges_layers [of 0 "length Is" Is 0 UINT64_MAX "[]"] assms by simp
  then obtain r where "merge_indexes 0 [] Is (length Is) 0 UINT64_MAX True 0 = Some r" "segs_ok r" "img r = layers 0 Is"
    using vector_of_merge layers_far [OF assms] by blast
  then show ?thesis
    using False by (simp add: merge_memory_indexes_def Let_def Index_of_vector_def Index_get_alloc_blks_blocks)
qed (auto simp: merge_memory_indexes_def)

lemma merge_memory_indexes_correct_witness:
  "\<exists>J. merge_memory_indexes [Index_of_array [ex_new] 9, Index_of_array [ex_old] 0] = Some J \<and>
     img (ix_mapping J) 45 = Some (0, Some 505) \<and> img (ix_mapping J) 50 = Some (1, Some 57) \<and> img (ix_mapping J) 100 = None"
proof -
  have ok: "\<forall>I\<in>set [Index_of_array [ex_new] 9, Index_of_array [ex_old] 0]. short_index (ix_mapping I)"
    using ex_ix_ok by (simp add: short_index_def Index_of_array_def seg_end_def)
  obtain J where J: "merge_memory_indexes [Index_of_array [ex_new] 9, Index_of_array [ex_old] 0] = Some J"
      "img (ix_mapping J) = layers 0 [Index_of_array [ex_new] 9, Index_of_array [ex_old] 0]"
    using merge_memory_indexes_correct [OF ok] by auto
  have "img (ix_mapping J) 45 = Some (0, Some 505) \<and> img (ix_mapping J) 50 = Some (1, Some 57) \<and> img (ix_mapping J) 100 = None"
    unfolding J(2) by (simp add: Index_of_array_def seg_at_def seg_end_def)
  then show ?thesis using J(1) by blast
qed

text \<open>Turning a combined index into a read-only one keeps what it says of every sector, and so does rebuilding its backing index with
  a second read-only index on top, for every bound on the levels that is at least 2.\<close>

lemma combo_read_only_same:
  assumes "short_index (mapping0 (combo_mapping ci))" "m_backing_index ci = Some bk" "short_index (ix_mapping bk)"
    and "short_index (ix_mapping hi)" "2 \<le> max_level"
  shows "(\<exists>J. ComboIndex_make_read_only_index ci = Some J \<and> segs_ok (ix_mapping J) \<and> img (ix_mapping J) = combo_img ci) \<and>
         (\<exists>J. ComboIndex_rebuild_backing_index ci hi max_level = Some J \<and> segs_ok (ix_mapping J) \<and>
            img (ix_mapping J) = overlay (img (ix_mapping hi)) (img (ix_mapping bk)))"
proof -
  have two: "\<exists>r. merge_indexes 0 [] [I, bk] 2 0 UINT64_MAX False k = Some r \<and> segs_ok r \<and> img r = overlay (img (ix_mapping I)) (img (ix_mapping bk))"
    if "short_index (ix_mapping I)" "2 \<le> k" for I k
    using vector_of_merge [OF merges_two [OF that(1) assms(3) that(2)]] short_index_far [OF that(1)] short_index_far [OF assms(3)]
    by (simp add: overlay_def)
  then show ?thesis
    using two [of "Index_of_vector (mapping0 (combo_mapping ci)) 0" 2] two [OF assms(4,5)] assms(1,2)
    by (auto simp: ComboIndex_make_read_only_index_def ComboIndex_rebuild_backing_index_def combo_img_def Let_def Index_of_vector_def)
qed

text \<open>C38. Compressing an array of mappings keeps what it says of every sector, its order, and its number of blocks, and never makes it
  longer.\<close>

theorem compress_raw_index_same:
  assumes "segs_ok ms"
  shows "segs_ok (compress_raw_index ms) \<and> img (compress_raw_index ms) = img ms \<and> blocks (compress_raw_index ms) = blocks ms \<and>
    length (compress_raw_index ms) \<le> length ms"
  using assms by (rule compress_raw_ok)

lemma compress_raw_index_same_witness:
  "segs_ok [ex_old\<lparr>s_length := 40\<rparr>, ex_new] \<and> img (compress_raw_index [ex_old\<lparr>s_length := 40\<rparr>, ex_new]) 45 = Some (0, Some 505)"
proof -
  have ok: "segs_ok [ex_old\<lparr>s_length := 40\<rparr>, ex_new]" by (simp add: map_ok_def seg_end_def mend_def seg_less_def)
  then show ?thesis using compress_raw_index_same [OF ok] by (simp add: seg_at_def seg_end_def)
qed

text \<open>The prediction of the compressed size does not compare mapped offsets: for two neighbours whose data are not
  neighbours it predicts one mapping where the compression leaves two.\<close>

lemma compress_predict_differs:
  "compress_raw_index_predict [ex_old\<lparr>s_length := 40\<rparr>, ex_new] = 1 \<and> length (compress_raw_index [ex_old\<lparr>s_length := 40\<rparr>, ex_new]) = 2"
  by (simp add: compress_raw_index_predict_def compress_raw_index_def seg_end_def mend_def MAX_LENGTH_def)

end
