(* ===== verification/LSMT_Level.thy ===== *)
theory LSMT_Level
  imports LSMT_Index
begin

text \<open>
  The paged index (\<open>lsmt/index.cpp\<close>, class \<open>LevelIndex\<close>).  Above the array of mappings lie levels of offsets: the lowest has the offset of
  the first mapping of every page of 256 mappings, and each further one the first offset of every page of 512 offsets of the level below.
  A lookup searches one page of each level from the top, and then one page of the array; it is proved equal to the binary
  search over the whole array.  The positions in the levels are 32-bit integers with their shifts, so the number of mappings is bounded by \<open>level_max\<close>.
\<close>

subsection \<open>Levels\<close>

definition LEVEL_LSHIFT :: nat where "LEVEL_LSHIFT = 9"
definition PAGE_SIZE :: nat where "PAGE_SIZE = 2 ^ LEVEL_LSHIFT * 8"

text \<open>The loop that copies the first object of every page.\<close>

function page_heads :: "nat \<Rightarrow> 'a list \<Rightarrow> 'a list" where
  "page_heads page_size xs = (if xs = [] \<or> page_size = 0 then [] else hd xs # page_heads page_size (drop page_size xs))"
  by auto
termination by (relation "measure (\<lambda>(p, xs). length xs)") auto

declare page_heads.simps [simp del]

text \<open>A mapping has 16 bytes, an offset 8.  The levels are pushed from the top down, since each level is pushed when the call for the
  level above has returned.\<close>

definition level_page :: "nat \<Rightarrow> nat" where
  "level_page depth = PAGE_SIZE div (if depth = 0 then 16 else 8)"

lemma level_page_simps [simp]: "level_page 0 = 256" "0 < depth \<Longrightarrow> level_page depth = 512"
  by (simp_all add: level_page_def PAGE_SIZE_def LEVEL_LSHIFT_def)

lemma level_page_pos: "0 < level_page depth" "1 < level_page depth"
  by (cases "depth = 0"; simp)+

function build_level_index :: "nat list \<Rightarrow> nat \<Rightarrow> nat list list" where
  "build_level_index xs depth =
     (if xs = [] then []
      else
        let extent_size = (length xs - 1) div level_page depth + 1;
            extent = page_heads (level_page depth) xs
        in (if extent_size > PAGE_SIZE div 8 then build_level_index extent (depth + 1) else []) @ [extent])"
  by auto

lemma page_heads_length: "0 < p \<Longrightarrow> xs \<noteq> [] \<Longrightarrow> length (page_heads p xs) = (length xs - 1) div p + 1"
proof (induction p xs rule: page_heads.induct)
  case (1 p xs)
  show ?case
  proof (cases "length xs \<le> p")
    case True
    then show ?thesis using 1 by (simp add: page_heads.simps [of p xs] page_heads.simps [of p "[]"])
  next
    case False
    then have "length (page_heads p xs) = 1 + ((length xs - p - 1) div p + 1)"
      using 1 by (subst page_heads.simps) simp
    moreover have "(length xs - 1) div p = (length xs - p - 1) div p + 1"
      using False 1(2) le_div_geq [of p "length xs - 1"] by simp
    ultimately show ?thesis by simp
  qed
qed

lemma page_heads_shorter: "1 < p \<Longrightarrow> 1 < (length xs - 1) div p + 1 \<Longrightarrow> (length xs - 1) div p + 1 < length xs"
proof -
  assume p: "1 < p" and big: "1 < (length xs - 1) div p + 1"
  then have "0 < length xs - 1" by (cases "length xs - 1 = 0") auto
  then have "(length xs - 1) div p < length xs - 1" using p by (intro div_less_dividend) auto
  then show ?thesis by simp
qed

termination build_level_index
proof (relation "measure (\<lambda>(xs, d). length xs)", goal_cases)
  case (2 xs depth n e)
  then show ?case
    using page_heads_shorter [OF level_page_pos(2) [of depth], of xs] page_heads_length [OF level_page_pos(1) [of depth], of xs]
    by (simp add: PAGE_SIZE_def LEVEL_LSHIFT_def)
qed simp

declare build_level_index.simps [simp del]

record level_index =
  li_index :: lsmt_index
  level_mapping :: "nat list list"

definition LevelIndex_new :: "segment_mapping list \<Rightarrow> level_index" where
  "LevelIndex_new ms = \<lparr>li_index = Index_of_array ms 0, level_mapping = build_level_index (map s_offset ms) 0\<rparr>"

definition create_level_index :: "segment_mapping list \<Rightarrow> nat \<Rightarrow> nat \<Rightarrow> level_index option" where
  "create_level_index ms mb me =
     (if verify_mapping_order ms \<and> verify_mapping_moffset ms mb me then Some (LevelIndex_new ms) else None)"

text \<open>The positions of the search are values of type \<open>int\<close> of 32 bits: sizes and shifted positions are reduced to it.\<close>

definition c_int :: "int \<Rightarrow> int" where
  "c_int x = signed_take_bit 31 x"

lemma c_int_id: "- (2 ^ 31) \<le> x \<Longrightarrow> x < 2 ^ 31 \<Longrightarrow> c_int x = x"
  unfolding c_int_def by (rule signed_take_bit_int_eq_self) simp_all

text \<open>The search of the first element that is not below the bound, in the part of an array from \<open>lower\<close> to \<open>upper\<close>; \<open>upper\<close> when there is none.  It
  is undefined when this is not a part of the array.\<close>

definition lower_bound_in :: "('a \<Rightarrow> bool) \<Rightarrow> 'a list \<Rightarrow> int \<Rightarrow> int \<Rightarrow> int option" where
  "lower_bound_in P xs lower upper =
     (if 0 \<le> lower \<and> lower \<le> upper \<and> upper \<le> int (length xs)
      then Some (lower + int (length (takeWhile P (take (nat (upper - lower)) (drop (nat lower) xs))))) else None)"

fun level_loop :: "nat \<Rightarrow> nat \<Rightarrow> nat list list \<Rightarrow> int \<Rightarrow> int \<Rightarrow> (int \<times> int \<times> int) option" where
  "level_loop sz off [] lower upper = Some (0, lower, upper)"
| "level_loop sz off (extent # levels) lower upper = do {
     page_lb \<leftarrow> lower_bound_in (\<lambda>x. x < off) extent lower upper;
     let page_offset = (if page_lb \<noteq> upper then c_int page_lb else upper);
     if page_offset = 0 then Some (page_offset, lower, upper)
     else
       let lshift = LEVEL_LSHIFT - (if levels = [] then 1 else 0);
           underlay_size = c_int (int (if levels = [] then sz else length (hd levels)));
           lower = c_int ((page_offset - 1) * 2 ^ lshift);
           upper = min (c_int (page_offset * 2 ^ lshift)) underlay_size
       in if levels = [] then Some (page_offset, lower, upper) else level_loop sz off levels lower upper
   }"

definition LevelIndex_lookup :: "level_index \<Rightarrow> segment \<Rightarrow> nat \<Rightarrow> segment_mapping list option" where
  "LevelIndex_lookup li s n =
     (if s_length s = 0 \<or> level_mapping li = [] then Some []
      else do {
        let ms = ix_mapping (li_index li);
        (page_offset, lower, upper) \<leftarrow> level_loop (length ms) (s_offset s) (level_mapping li) 0 (c_int (int (length (hd (level_mapping li)))));
        lb \<leftarrow> (if page_offset \<noteq> 0 then lower_bound_in (\<lambda>m. seg_less m s) ms lower upper else Some 0);
        trim_edge_mappings (copy_n (drop (nat lb) ms) (seg_end s) n) s
      })"

subsection \<open>The search in a sorted array\<close>

text \<open>The number of elements below the bound in a sorted array.\<close>

definition count_less :: "nat \<Rightarrow> nat list \<Rightarrow> nat" where
  "count_less off xs = length (takeWhile (\<lambda>x. x < off) xs)"

lemma lower_bound_in_eq:
  assumes "lower \<le> length (takeWhile P xs)" "length (takeWhile P xs) \<le> upper" "upper \<le> length xs"
  shows "lower_bound_in P xs (int lower) (int upper) = Some (int (length (takeWhile P xs)))"
proof -
  let ?c = "length (takeWhile P xs)"
  have "drop lower xs = drop lower (takeWhile P xs @ dropWhile P xs)" by (simp only: takeWhile_dropWhile_id)
  also have "\<dots> = drop lower (takeWhile P xs) @ dropWhile P xs"
    using assms(1) by (simp only: drop_append diff_is_0_eq [THEN iffD2] drop_0)
  finally have "drop lower xs = drop lower (takeWhile P xs) @ dropWhile P xs" .
  then have "take (upper - lower) (drop lower xs) =
      drop lower (takeWhile P xs) @ take (upper - lower - (?c - lower)) (dropWhile P xs)"
    using assms(1,2) by (simp add: take_all_iff)
  moreover have "\<forall>x\<in>set (drop lower (takeWhile P xs)). P x" by (auto dest!: in_set_dropD set_takeWhileD)
  moreover have "takeWhile P (take k (dropWhile P xs)) = []" for k
    using hd_dropWhile [of P xs] by (cases k; cases "dropWhile P xs") (simp_all del: dropWhile_eq_Nil_conv)
  ultimately have "length (takeWhile P (take (upper - lower) (drop lower xs))) = ?c - lower"
    by (simp add: takeWhile_append2)
  then show ?thesis using assms by (simp add: lower_bound_in_def nat_diff_distrib [of "int lower"])
qed

lemma count_less_iff: "sorted xs \<Longrightarrow> j < length xs \<Longrightarrow> j < count_less off xs \<longleftrightarrow> xs ! j < off"
proof (induction xs arbitrary: j)
  case (Cons x xs)
  show ?case
  proof (cases j)
    case (Suc k)
    then have "x \<le> xs ! k" using Cons.prems by simp
    then show ?thesis using Cons Suc by (cases "x < off") (auto simp: count_less_def not_less intro: order_trans)
  qed (auto simp: count_less_def)
qed simp

lemma count_less_le: "count_less off xs \<le> length xs"
  by (simp add: count_less_def length_takeWhile_le)

lemma page_heads_nth: "0 < p \<Longrightarrow> j * p < length xs \<Longrightarrow> j < length (page_heads p xs) \<and> page_heads p xs ! j = xs ! (j * p)"
proof (induction p xs arbitrary: j rule: page_heads.induct)
  case (1 p xs)
  then have ne: "\<not> (xs = [] \<or> p = 0)" by auto
  show ?case
  proof (cases j)
    case 0
    then show ?thesis using ne by (simp add: page_heads.simps [of p xs] hd_conv_nth)
  next
    case (Suc k)
    have "k < length (page_heads p (drop p xs)) \<and> page_heads p (drop p xs) ! k = drop p xs ! (k * p)"
      using 1 ne Suc by (intro "1.IH") auto
    then show ?thesis using ne Suc 1(3) by (simp add: page_heads.simps [of p xs])
  qed
qed

lemma page_heads_cover: "0 < p \<Longrightarrow> xs \<noteq> [] \<Longrightarrow> length xs \<le> length (page_heads p xs) * p \<and> (j < length (page_heads p xs) \<longrightarrow> j * p < length xs)"
proof -
  assume p: "0 < p" and ne: "xs \<noteq> []"
  let ?d = "(length xs - 1) div p"
  have "length xs - 1 < (?d + 1) * p" using p dividend_less_div_times [of p "length xs - 1"] by simp
  moreover have "?d * p \<le> length xs - 1" by (rule div_times_less_eq_dividend)
  moreover have "j * p \<le> ?d * p" if "j \<le> ?d" using that by (rule mult_le_mono1)
  moreover have "0 < length xs" using ne by simp
  ultimately have "length xs \<le> (?d + 1) * p" "j < ?d + 1 \<longrightarrow> j * p < length xs" by linarith+
  then show ?thesis unfolding page_heads_length [OF p ne] by blast
qed

lemma sorted_page_heads: "0 < p \<Longrightarrow> sorted xs \<Longrightarrow> sorted (page_heads p xs)"
proof (cases "xs = []")
  case False
  assume p: "0 < p" and sorted: "sorted xs"
  show ?thesis unfolding sorted_iff_nth_mono
  proof (intro allI impI)
    fix i j assume ij: "i \<le> j" "j < length (page_heads p xs)"
    have "j * p < length xs" "i * p < length xs" using page_heads_cover [OF p False] ij by auto
    then show "page_heads p xs ! i \<le> page_heads p xs ! j"
      using page_heads_nth [OF p, of i xs] page_heads_nth [OF p, of j xs] ij sorted by (simp add: sorted_nth_mono)
  qed
qed (simp add: page_heads.simps)

text \<open>The page that a level points to has the position in the level below.\<close>

lemma count_page:
  assumes "sorted xs" "xs \<noteq> []" "0 < p" "0 < count_less off (page_heads p xs)"
  shows "(count_less off (page_heads p xs) - 1) * p < count_less off xs"
    "count_less off xs \<le> min (count_less off (page_heads p xs) * p) (length xs)"
proof -
  let ?e = "page_heads p xs" and ?c = "count_less off (page_heads p xs)"
  have e: "sorted ?e" using assms by (simp add: sorted_page_heads)
  have c: "?c - 1 < length ?e" "?c - 1 < ?c" using assms(4) count_less_le [of off ?e] by auto
  have low: "(?c - 1) * p < length xs" using page_heads_cover [OF assms(3,2)] c(1) by blast
  then have "xs ! ((?c - 1) * p) < off"
    using page_heads_nth [OF assms(3) low] count_less_iff [OF e c(1)] c(2) by simp
  then show "(?c - 1) * p < count_less off xs" using count_less_iff [OF assms(1) low] by simp
  have "count_less off xs \<le> ?c * p"
  proof (cases "?c * p < length xs")
    case True
    then have "?c < length ?e" "?e ! ?c = xs ! (?c * p)" using page_heads_nth [OF assms(3) True] by auto
    then show ?thesis using count_less_iff [OF e, of ?c off] count_less_iff [OF assms(1) True, of off] by auto
  qed (use count_less_le [of off xs] in auto)
  then show "count_less off xs \<le> min (?c * p) (length xs)" using count_less_le by simp
qed

subsection \<open>The search through the levels\<close>

text \<open>Each level has the page heads of the level below it.\<close>

fun level_chain :: "nat \<Rightarrow> nat list \<Rightarrow> nat list list \<Rightarrow> bool" where
  "level_chain p offs [] \<longleftrightarrow> False"
| "level_chain p offs [e] \<longleftrightarrow> e = page_heads p offs"
| "level_chain p offs (e # e' # es) \<longleftrightarrow> e = page_heads 512 e' \<and> level_chain p offs (e' # es)"

lemma page_heads_nonempty: "0 < p \<Longrightarrow> xs \<noteq> [] \<Longrightarrow> page_heads p xs \<noteq> []"
  by (subst page_heads.simps) simp

lemma level_chain_snoc: "level_chain 512 (page_heads p xs) us \<Longrightarrow> level_chain p xs (us @ [page_heads p xs])"
proof (induction us)
  case (Cons u us)
  then show ?case by (cases us) auto
qed simp

lemma level_chain_build: "xs \<noteq> [] \<Longrightarrow> level_chain (level_page depth) xs (build_level_index xs depth)"
proof (induction xs depth rule: build_level_index.induct)
  case (1 xs depth)
  let ?e = "page_heads (level_page depth) xs"
  have "?e \<noteq> []" using 1(2) level_page_pos(1) by (simp add: page_heads_nonempty)
  show ?case
  proof (cases "(length xs - 1) div level_page depth + 1 > PAGE_SIZE div 8")
    case True
    then have "level_chain 512 ?e (build_level_index ?e (depth + 1))" using 1 \<open>?e \<noteq> []\<close> by simp
    then show ?thesis using 1(2) True level_chain_snoc by (subst build_level_index.simps) (simp add: Let_def)
  next
    case False
    then show ?thesis using 1(2) by (subst build_level_index.simps) (simp add: Let_def)
  qed
qed

lemma level_chain_hd:
  "level_chain p offs es \<Longrightarrow> 0 < p \<Longrightarrow> sorted offs \<Longrightarrow> offs \<noteq> [] \<Longrightarrow> sorted (hd es) \<and> hd es \<noteq> [] \<and> (count_less off (hd es) = 0 \<longrightarrow> count_less off offs = 0)"
proof (induction p offs es rule: level_chain.induct)
  case (2 p offs e)
  then show ?case
    using page_heads_nth [of p 0 offs] count_less_iff [of "page_heads p offs" 0 off] count_less_iff [of offs 0 off]
    by (auto simp: sorted_page_heads page_heads_nonempty)
next
  case (3 p offs e e' es)
  then have e': "sorted e'" "e' \<noteq> []" "count_less off e' = 0 \<longrightarrow> count_less off offs = 0" by auto
  have "count_less off e' = 0" if "count_less off (page_heads 512 e') = 0"
    using that e'(1,2) page_heads_nth [of 512 0 e'] count_less_iff [of "page_heads 512 e'" 0 off] count_less_iff [of e' 0 off]
    by (auto simp: sorted_page_heads)
  then show ?case using 3(2) e' by (auto simp: sorted_page_heads page_heads_nonempty)
qed simp

text \<open>The levels of an array of at most \<open>level_max\<close> mappings can be searched with positions of type \<open>int\<close>.\<close>

definition level_max :: nat where
  "level_max = 2 ^ 31 - 256"

lemma page_heads_last: "0 < p \<Longrightarrow> xs \<noteq> [] \<Longrightarrow> length (page_heads p xs) * p < length xs + p"
  using page_heads_cover [of p xs "length (page_heads p xs) - 1"] page_heads_nonempty [of p xs]
  by (cases "length (page_heads p xs)") auto

lemma level_chain_length: "level_chain p offs es \<Longrightarrow> 0 < p \<Longrightarrow> sorted offs \<Longrightarrow> offs \<noteq> [] \<Longrightarrow> length (hd es) * p < length offs + p"
proof (induction p offs es rule: level_chain.induct)
  case (2 p offs e)
  then show ?case using page_heads_last by simp
next
  case (3 p offs e e' es)
  then have e': "e' \<noteq> []" "length e' * p < length offs + p" using level_chain_hd [of p offs "e' # es" 0] by auto
  have "length e * 512 < length e' + 512" using page_heads_last [of 512 e'] e'(1) 3(2) by simp
  then have "length e \<le> length e'" using e'(1) by (cases "length e'") auto
  then have "length e * p \<le> length e' * p" by (rule mult_le_mono1)
  then have "length e * p < length offs + p" using e'(2) by linarith
  then show ?case by simp
qed simp

lemma level_loop_ok:
  assumes "level_chain 256 offs es" "sorted offs" "offs \<noteq> []" and len: "length offs \<le> level_max"
    and "lower \<le> count_less off (hd es)" "count_less off (hd es) \<le> upper" "upper \<le> length (hd es)"
  shows "\<exists>po l u. level_loop (length offs) off es (int lower) (int upper) = Some (int po, int l, int u) \<and>
    (po = 0 \<longrightarrow> count_less off offs = 0) \<and> (po \<noteq> 0 \<longrightarrow> l < count_less off offs \<and> count_less off offs \<le> u \<and> u \<le> length offs)"
  using assms
proof (induction es arbitrary: lower upper)
  case (Cons e es)
  let ?c = "count_less off e"
  have hd: "count_less off e = 0 \<longrightarrow> count_less off offs = 0" using level_chain_hd [OF Cons.prems(1) _ Cons.prems(2,3), of off] by simp
  have le: "length e * 256 < length offs + 256" using level_chain_length [OF Cons.prems(1) _ Cons.prems(2,3)] by simp
  have cle: "?c \<le> length e" by (rule count_less_le)
  have lb: "lower_bound_in (\<lambda>x. x < off) e (int lower) (int upper) = Some (int ?c)"
    using Cons.prems(5-7) unfolding count_less_def by (intro lower_bound_in_eq) auto
  have po: "(if int ?c \<noteq> int upper then c_int (int ?c) else int upper) = int ?c" using cle le len by (auto simp: level_max_def intro!: c_int_id)
  show ?case
  proof (cases "?c = 0")
    case True
    then have "level_loop (length offs) off (e # es) (int lower) (int upper) = Some (0, int lower, int upper)" using lb by (simp add: Let_def c_int_def)
    then show ?thesis using True hd by (intro exI [of _ 0] exI [of _ lower] exI [of _ upper]) simp
  next
    case c: False
    show ?thesis
    proof (cases "es = []")
      case True
      have e: "e = page_heads 256 offs" using Cons.prems(1) True by simp
      have page: "(?c - 1) * 256 < count_less off offs" "count_less off offs \<le> min (?c * 256) (length offs)"
        using count_page [OF Cons.prems(2,3), of 256 off] c by (simp_all add: e)
      have "?c * 256 \<le> length e * 256" using cle by (rule mult_le_mono1)
      then have b: "?c * 256 < 2 ^ 31" "length offs < 2 ^ 31" using le len by (simp_all add: level_max_def)
      have "c_int ((int ?c - 1) * 256) = int ((?c - 1) * 256)" "c_int (int ?c * 256) = int (?c * 256)" "c_int (int (length offs)) = int (length offs)"
        using b c by (simp_all add: c_int_id of_nat_diff)
      then have "level_loop (length offs) off (e # es) (int lower) (int upper) = Some (int ?c, int ((?c - 1) * 256), int (min (?c * 256) (length offs)))"
        using lb po c True by (simp add: Let_def LEVEL_LSHIFT_def of_nat_min)
      then show ?thesis using page c by (intro exI [of _ ?c] exI [of _ "(?c - 1) * 256"] exI [of _ "min (?c * 256) (length offs)"]) simp
    next
      case False
      then obtain e' es' where es: "es = e' # es'" by (cases es) auto
      have e': "e = page_heads 512 e'" "level_chain 256 offs (e' # es')" "sorted e'" "e' \<noteq> []"
        using Cons.prems(1) level_chain_hd [of 256 offs "e' # es'" off] Cons.prems(2,3) by (auto simp: es)
      have page: "(?c - 1) * 512 < count_less off e'" "count_less off e' \<le> min (?c * 512) (length e')"
        using count_page [OF e'(3,4), of 512 off] c by (simp_all add: e'(1))
      have "length e * 512 < length e' + 512" using page_heads_last [of 512 e'] e'(1,4) by simp
      moreover have "length e' * 256 < length offs + 256" using level_chain_length [OF e'(2) _ Cons.prems(2,3)] by simp
      moreover have "?c * 512 \<le> length e * 512" using cle by (rule mult_le_mono1)
      ultimately have b: "?c * 512 < 2 ^ 31" "length e' < 2 ^ 31" using len by (simp_all add: level_max_def)
      have "c_int ((int ?c - 1) * 512) = int ((?c - 1) * 512)" "c_int (int ?c * 512) = int (?c * 512)" "c_int (int (length e')) = int (length e')"
        using b c by (simp_all add: c_int_id of_nat_diff)
      then have step: "level_loop (length offs) off (e # es) (int lower) (int upper) =
          level_loop (length offs) off es (int ((?c - 1) * 512)) (int (min (?c * 512) (length e')))"
        using lb po c by (subst level_loop.simps) (simp add: Let_def LEVEL_LSHIFT_def es of_nat_min del: level_loop.simps)
      show ?thesis
        using Cons.IH [OF _ Cons.prems(2-4), of "(?c - 1) * 512" "min (?c * 512) (length e')"] page e'(2)
        unfolding step by (simp add: es del: level_loop.simps)
    qed
  qed
qed simp

lemma length_takeWhile_imp: "\<forall>x\<in>set xs. Q x \<longrightarrow> P x \<Longrightarrow> length (takeWhile Q xs) \<le> length (takeWhile P xs)"
  by (induction xs) auto

text \<open>A lookup through the levels gives what the search over the whole array gives, for an array in order.\<close>

lemma level_lookup_eq:
  assumes "segs_ok ms" and len: "length ms \<le> level_max"
  shows "LevelIndex_lookup (LevelIndex_new ms) s n = Index_lookup (Index_of_array ms 0) s n"
proof (cases "s_length s = 0 \<or> ms = []")
  case True
  then show ?thesis
    by (auto simp: LevelIndex_lookup_def LevelIndex_new_def Index_lookup_def Index_of_array_def build_level_index.simps [of "[]"]
        seg_lower_bound_def trim_edge_mappings_def)
next
  case False
  let ?offs = "map s_offset ms" and ?es = "build_level_index (map s_offset ms) 0" and ?off = "s_offset s"
  let ?c = "length (takeWhile (\<lambda>m. seg_less m s) ms)"
  have sorted: "sorted ?offs"
    using assms by (auto simp: segs_ok_def sorted_wrt_map seg_less_def seg_end_def elim!: sorted_wrt_mono_rel [rotated])
  have ne: "?offs \<noteq> []" using False by simp
  have chain: "level_chain 256 ?offs ?es" using level_chain_build [of ?offs 0] False by simp
  then have es: "?es \<noteq> []" by (cases ?es) auto
  have "length (hd ?es) * 256 < length ?offs + 256" using level_chain_length [OF chain _ sorted ne] by simp
  then have ci: "c_int (int (length (hd ?es))) = int (length (hd ?es))" using len by (intro c_int_id) (simp_all add: level_max_def)
  have "\<exists>po l u. level_loop (length ?offs) ?off ?es (int 0) (int (length (hd ?es))) = Some (int po, int l, int u) \<and>
      (po = 0 \<longrightarrow> count_less ?off ?offs = 0) \<and> (po \<noteq> 0 \<longrightarrow> l < count_less ?off ?offs \<and> count_less ?off ?offs \<le> u \<and> u \<le> length ?offs)"
    by (rule level_loop_ok [OF chain sorted ne]) (use len count_less_le in simp_all)
  then obtain po l u where loop: "level_loop (length ms) ?off ?es 0 (int (length (hd ?es))) = Some (int po, int l, int u)"
    and pos: "(po = 0 \<longrightarrow> count_less ?off ?offs = 0) \<and> (po \<noteq> 0 \<longrightarrow> l < count_less ?off ?offs \<and> count_less ?off ?offs \<le> u \<and> u \<le> length ?offs)" by auto
  have "seg_less m s \<longrightarrow> s_offset m < ?off" if "m \<in> set ms" for m
    using that assms map_ok_less [of m] by (auto simp: seg_less_def segs_ok_def)
  then have c_le: "?c \<le> count_less ?off ?offs" by (simp add: count_less_def takeWhile_map comp_def length_takeWhile_imp)
  have "l \<le> ?c" if "po \<noteq> 0"
  proof (rule length_takeWhile_less_P_nth)
    have l: "l < length ms" "s_offset (ms ! l) < ?off"
      using that pos count_less_le [of ?off ?offs] count_less_iff [OF sorted, of l ?off] by auto
    then show "l \<le> length ms" by simp
    show "seg_less (ms ! i) s" if "i < l" for i
      using that l assms by (auto simp: segs_ok_def seg_less_def sorted_wrt_iff_nth_less dest: order.strict_implies_order intro: order_trans)
  qed
  then have "(if int po \<noteq> 0 then lower_bound_in (\<lambda>m. seg_less m s) ms (int l) (int u) else Some 0) = Some (int ?c)"
    using pos c_le lower_bound_in_eq [of l "\<lambda>m. seg_less m s" ms u] by auto
  moreover have "drop ?c ms = seg_lower_bound ms s" by (simp add: seg_lower_bound_def dropWhile_eq_drop)
  ultimately show ?thesis
    using False es loop ci by (simp add: LevelIndex_lookup_def LevelIndex_new_def Index_lookup_def Index_of_array_def)
qed

interpretation level: memory_index LevelIndex_lookup "\<lambda>li. \<exists>ms. li = LevelIndex_new ms \<and> segs_ok ms \<and> length ms \<le> level_max" "\<lambda>li. img (ix_mapping (li_index li))"
proof (unfold_locales, elim exE conjE)
  fix li ms s and n :: nat
  assume li: "0 < n" "li = LevelIndex_new ms" "segs_ok ms" "length ms \<le> level_max"
  have "ix_mapping (li_index li) = ms" "ix_mapping (Index_of_array ms 0) = ms" by (simp_all add: li(2) LevelIndex_new_def Index_of_array_def)
  then show "\<exists>r. LevelIndex_lookup li s n = Some r \<and> lookup_ok (img (ix_mapping (li_index li))) s n r"
    using Index_lookup_spec [of "Index_of_array ms 0" n s] li level_lookup_eq [OF li(3,4)] by simp
qed

subsection \<open>Properties\<close>

text \<open>C39. The paged index that is created over an array of at most \<open>2 ^ 31 - 256\<close> mappings (the positions in its search are of type \<open>int\<close>) answers every lookup as the plain index over the same array does, and
  is created exactly when the plain one is; a walk over one of its segments returns and covers the segment.\<close>

theorem level_index_equivalent:
  assumes "\<forall>m\<in>set ms. map_ok m" "seg_ok s" "length ms \<le> 2 ^ 31 - 256"
  shows "(case create_level_index ms mb me of
       None \<Rightarrow> create_memory_index ms mb me vsz = None
     | Some li \<Rightarrow> (\<exists>ix. create_memory_index ms mb me vsz = Some ix \<and> (\<forall>s n. LevelIndex_lookup li s n = Index_lookup ix s n)) \<and>
         (\<exists>r us. foreach_segments (LevelIndex_lookup li) ret s = Some (r, us) \<and> walked (img ms) ret (s_offset s) (seg_end s) r us))"
proof (cases "verify_mapping_order ms \<and> verify_mapping_moffset ms mb me")
  case True
  then have ok: "segs_ok ms" using verify_mapping_order_sorted [OF assms(1)] by simp
  have len: "length ms \<le> level_max" using assms(3) by (simp add: level_max_def)
  have "Index_lookup (Index_of_array ms vsz) s n = LevelIndex_lookup (LevelIndex_new ms) s n" for s n
    by (simp add: level_lookup_eq [OF ok len] Index_lookup_def Index_of_array_def)
  moreover have "img (ix_mapping (li_index (LevelIndex_new ms))) = img ms" by (simp add: LevelIndex_new_def Index_of_array_def)
  then have "\<exists>r us. foreach_segments (LevelIndex_lookup (LevelIndex_new ms)) ret s = Some (r, us) \<and> walked (img ms) ret (s_offset s) (seg_end s) r us"
    using level.foreach_loop_ok [OF _ assms(2), of "LevelIndex_new ms" ret "[]"] ok len by (auto simp: foreach_segments_def)
  ultimately show ?thesis using True by (simp add: create_level_index_def create_memory_index_def)
qed (auto simp: create_level_index_def create_memory_index_def)

lemma level_index_equivalent_witness:
  "map_ok ex_old \<and> create_level_index [ex_old] 0 500 = Some (LevelIndex_new [ex_old]) \<and>
   LevelIndex_lookup (LevelIndex_new [ex_old]) \<lparr>s_offset = 20, s_length = 30\<rparr> 4 = Index_lookup (Index_of_array [ex_old] 0) \<lparr>s_offset = 20, s_length = 30\<rparr> 4"
proof -
  have ok: "\<forall>m\<in>set [ex_old]. map_ok m" "seg_ok \<lparr>s_offset = 20, s_length = 30\<rparr>" "length [ex_old] \<le> 2 ^ 31 - 256" using ex_ix_ok(2) by (simp_all add: seg_ok_def seg_end_def)
  have "create_level_index [ex_old] 0 500 = Some (LevelIndex_new [ex_old])" "create_memory_index [ex_old] 0 500 0 = Some (Index_of_array [ex_old] 0)"
    by (simp_all add: create_level_index_def create_memory_index_def verify_mapping_moffset_def within_def mend_def)
  then show ?thesis using level_index_equivalent [OF ok, of 0 500 0 "\<lambda>_. 0"] ok(1) by simp
qed

end
