(* ===== verification/LSMT_File.thy ===== *)
theory LSMT_File
  imports Byte_File LSMT_Merge LSMT_Level
begin

text \<open>
  The layered block device (\<open>lsmt/file.cpp\<close>, classes \<open>LSMTReadOnlyFile\<close> and \<open>LSMTFile\<close>).

  A read walks over the mappings of the index and fetches the data from the files of the layers; a write
  appends the data to the file of the top layer and inserts a mapping into the index.  The index
  file gets a record for every insertion, at once or in groups.

  The files of the layers are objects of the interface \<open>photon::fs::IFile\<close>, which is not part of the sources: their
  operations are the fields of the record \<open>ifile\<close>, a parameter of the definitions, and what the code relies on is
  \<open>reads_content\<close> and \<open>appends_content\<close>.  Sizes and offsets in bytes are natural numbers below \<open>2\<^sup>6\<^sup>4\<close>.  A buffer is a list of
  bytes, a pointer into it a position.  The counters of the I/O statistics and the log messages are left out.
  A failing assertion and an access behind the end of a vector are \<open>None\<close>.
\<close>

definition ALIGNMENT :: nat where "ALIGNMENT = 512"
definition ALIGNMENT4K :: nat where "ALIGNMENT4K = 4096"

definition is_aligned :: "nat \<Rightarrow> bool" where
  "is_aligned x \<longleftrightarrow> x mod ALIGNMENT = 0"

text \<open>\<open>CHECK_ALIGNMENT\<close>: the bits of the size and of the offset together.\<close>

definition CHECK_ALIGNMENT :: "nat \<Rightarrow> nat \<Rightarrow> bool" where
  "CHECK_ALIGNMENT sz offset \<longleftrightarrow> is_aligned sz \<and> is_aligned offset"

subsection \<open>The index of a device\<close>

text \<open>The classes of the object that \<open>m_index\<close> points to; the functions are the dispatch of the virtual members.\<close>

datatype memory_idx = MI_Index lsmt_index | MI_Level level_index | MI_Index0 index0 | MI_Combo combo_index

fun mi_lookup :: "memory_idx \<Rightarrow> segment \<Rightarrow> nat \<Rightarrow> segment_mapping list option" where
  "mi_lookup (MI_Index ix) = Index_lookup ix"
| "mi_lookup (MI_Level li) = LevelIndex_lookup li"
| "mi_lookup (MI_Index0 i0) = Index0_lookup i0"
| "mi_lookup (MI_Combo ci) = ComboIndex_lookup ci"

text \<open>Only the writable indexes have \<open>insert\<close>.\<close>

fun mi_insert :: "memory_idx \<Rightarrow> segment_mapping \<Rightarrow> memory_idx option" where
  "mi_insert (MI_Index0 i0) m = map_option MI_Index0 (Index0_insert i0 m)"
| "mi_insert (MI_Combo ci) m = map_option MI_Combo (ComboIndex_insert ci m)"
| "mi_insert _ m = None"

fun mi_ok :: "memory_idx \<Rightarrow> bool" where
  "mi_ok (MI_Index ix) \<longleftrightarrow> segs_ok (ix_mapping ix)"
| "mi_ok (MI_Level li) \<longleftrightarrow> (\<exists>ms. li = LevelIndex_new ms \<and> segs_ok ms \<and> length ms \<le> level_max)"
| "mi_ok (MI_Index0 i0) \<longleftrightarrow> segs_ok (mapping0 i0)"
| "mi_ok (MI_Combo ci) \<longleftrightarrow> combo_ok ci"

fun mi_img :: "memory_idx \<Rightarrow> nat \<Rightarrow> place option" where
  "mi_img (MI_Index ix) = img (ix_mapping ix)"
| "mi_img (MI_Level li) = img (ix_mapping (li_index li))"
| "mi_img (MI_Index0 i0) = img (mapping0 i0)"
| "mi_img (MI_Combo ci) = combo_img ci"

lemma mi_lookup_spec:
  assumes "mi_ok i" "seg_ok s" "0 < n"
  shows "\<exists>r. mi_lookup i s n = Some r \<and> lookup_ok (mi_img i) s n r"
  using assms ix.lookup_spec ix0.lookup_spec combo.lookup_spec level.lookup_spec by (cases i) auto

interpretation mi: memory_index mi_lookup mi_ok mi_img
  by unfold_locales (rule mi_lookup_spec)

definition writable :: "memory_idx \<Rightarrow> bool" where
  "writable i \<longleftrightarrow> (case i of MI_Index0 _ \<Rightarrow> True | MI_Combo _ \<Rightarrow> True | _ \<Rightarrow> False)"

text \<open>The mappings of the writable layer.\<close>

fun front_map :: "memory_idx \<Rightarrow> segment_mapping list" where
  "front_map (MI_Index0 i0) = mapping0 i0"
| "front_map (MI_Combo ci) = mapping0 (combo_mapping ci)"
| "front_map _ = []"

lemma mi_insert_ok:
  assumes "mi_ok i" "writable i" "map_ok m"
  shows "\<exists>i'. mi_insert i m = Some i' \<and> mi_ok i' \<and> writable i' \<and>
    mi_img i' = (\<lambda>x. case seg_at m x of None \<Rightarrow> mi_img i x | Some p \<Rightarrow> Some p) \<and>
    img (front_map i') = (\<lambda>x. case seg_at m x of None \<Rightarrow> img (front_map i) x | Some p \<Rightarrow> Some p)"
proof (cases i)
  case (MI_Index0 i0)
  let ?c = "\<lparr>combo_mapping = i0, m_backing_index = None\<rparr>"
  have "combo_ok ?c" using assms(1) MI_Index0 by (simp add: combo_ok_def)
  moreover have img: "combo_img ?c = img (mapping0 i0)" by (simp add: combo_img_def)
  ultimately obtain ci' where "ComboIndex_insert ?c m = Some ci'" "combo_ok ci'"
      "combo_img ci' = (\<lambda>x. case seg_at m x of None \<Rightarrow> img (mapping0 i0) x | Some p \<Rightarrow> Some p)"
    using ComboIndex_insert_ok [OF _ assms(3), of ?c] unfolding img by blast
  then obtain i0' where "Index0_insert i0 m = Some i0'" "segs_ok (mapping0 i0')"
      "img (mapping0 i0') = (\<lambda>x. case seg_at m x of None \<Rightarrow> img (mapping0 i0) x | Some p \<Rightarrow> Some p)"
    by (auto simp: ComboIndex_insert_def combo_ok_def combo_img_def split: bind_splits)
  then show ?thesis unfolding MI_Index0 mi_img.simps front_map.simps by (simp add: writable_def)
next
  case (MI_Combo ci)
  then obtain ci' where "ComboIndex_insert ci m = Some ci'" "combo_ok ci'"
      "combo_img ci' = (\<lambda>x. case seg_at m x of None \<Rightarrow> combo_img ci x | Some p \<Rightarrow> Some p)"
      "img (mapping0 (combo_mapping ci')) = (\<lambda>x. case seg_at m x of None \<Rightarrow> img (mapping0 (combo_mapping ci)) x | Some p \<Rightarrow> Some p)"
    using ComboIndex_insert_ok [of ci m] assms by auto
  then show ?thesis unfolding MI_Combo mi_img.simps front_map.simps by (simp add: writable_def)
qed (use assms in \<open>auto simp: writable_def\<close>)

subsection \<open>Reading\<close>

record 'f lsmt_file =
  m_files :: "'f list"
  m_index :: memory_idx
  m_vsize :: nat
  MAX_IO_SIZE :: nat
  m_rw_tag :: nat
  m_data_offset :: nat
  m_findex :: "'f option"
  m_stacked_mappings :: "segment_mapping list"
  nmapping :: nat

text \<open>A callback: its result, the bytes that it stores at the position of the buffer, and how far it moves the position.  When the file
  ends early the data callback asks once more; it fills with zeroes only if nothing more comes.\<close>

fun pread_cb :: "'f ifile \<Rightarrow> 'f list \<Rightarrow> visit \<Rightarrow> int \<times> byte list \<times> nat" where
  "pread_cb ops files (Zero a l) = (0, replicate (l * ALIGNMENT) 0, l * ALIGNMENT)"
| "pread_cb ops files (Data m) = (
     let size = s_length m * ALIGNMENT;
         (ret, bs) = fpread ops (files ! tag m) size (moffset m * ALIGNMENT) in
     if ret < int size then
       if ret < 0 then (-1, bs, 0)
       else
         let (ret2, bs2) = fpread ops (files ! tag m) (size - nat ret) (moffset m * ALIGNMENT + nat ret) in
         if ret2 \<noteq> 0 then (ret, bs @ bs2, 0)
         else (0, bs @ replicate (size - nat ret) 0, size)
     else (0, bs, size))"

fun run_cbs :: "'f ifile \<Rightarrow> 'f list \<Rightarrow> visit list \<Rightarrow> byte list \<Rightarrow> nat \<Rightarrow> byte list \<times> nat" where
  "run_cbs ops files [] buf pos = (buf, pos)"
| "run_cbs ops files (v # vs) buf pos = (case pread_cb ops files v of (ret, bs, step) \<Rightarrow>
     run_cbs ops files vs (put_bytes pos bs buf) (pos + step))"

text \<open>The part of \<open>pread\<close> behind its loop: the result and the buffer.  The assertion on the tag is in the data callback.\<close>

definition tag_assert :: "'f list \<Rightarrow> visit \<Rightarrow> bool" where
  "tag_assert files v = (case v of Zero a l \<Rightarrow> True | Data m \<Rightarrow> tag m < length files)"

definition pread_segment :: "'f ifile \<Rightarrow> 'f lsmt_file \<Rightarrow> nat \<Rightarrow> nat \<Rightarrow> byte list \<Rightarrow> nat \<Rightarrow> (int \<times> byte list) option" where
  "pread_segment ops f count offset buf pos = do {
     let s = \<lparr>s_offset = offset div ALIGNMENT mod 2 ^ 50, s_length = count div ALIGNMENT mod 2 ^ 14\<rparr>;
     (ret, vs) \<leftarrow> foreach_segments (mi_lookup (m_index f)) (\<lambda>v. fst (pread_cb ops (m_files f) v)) s;
     ENV_BUG_ON (\<not> list_all (tag_assert (m_files f)) vs);
     Some (ret, fst (run_cbs ops (m_files f) vs buf pos))
   }"

text \<open>The loop: the recursive call has at most \<open>MAX_IO_SIZE\<close> bytes, so it does not loop itself.  With a \<open>MAX_IO_SIZE\<close> of 0 the call would not
  return.\<close>

function pread_loop :: "'f ifile \<Rightarrow> 'f lsmt_file \<Rightarrow> nat \<Rightarrow> nat \<Rightarrow> nat \<Rightarrow> byte list \<Rightarrow> nat \<Rightarrow> (int \<times> byte list) option" where
  "pread_loop ops f nbytes count offset buf pos =
     (if count > MAX_IO_SIZE f then
        if MAX_IO_SIZE f = 0 then None
        else if \<not> CHECK_ALIGNMENT (MAX_IO_SIZE f) offset then Some (-1, buf)
        else do {
          (r, buf) \<leftarrow> pread_segment ops f (MAX_IO_SIZE f) offset buf pos;
          let ret = (if r \<ge> 0 then int (MAX_IO_SIZE f) else r);
          if ret < int (MAX_IO_SIZE f) then Some (-1, buf)
          else pread_loop ops f nbytes (count - MAX_IO_SIZE f) (offset + MAX_IO_SIZE f) buf (pos + MAX_IO_SIZE f)
        }
      else do {
        (ret, buf) \<leftarrow> pread_segment ops f count offset buf pos;
        Some (if ret \<ge> 0 then int nbytes else ret, buf)
      })"
  by auto
termination by (relation "measure (\<lambda>(ops, f, nb, c, off, buf, pos). c)") auto

declare pread_loop.simps [simp del]

definition pread :: "'f ifile \<Rightarrow> 'f lsmt_file \<Rightarrow> byte list \<Rightarrow> nat \<Rightarrow> nat \<Rightarrow> (int \<times> byte list) option" where
  "pread ops f buf count offset =
     (if \<not> CHECK_ALIGNMENT count offset then Some (-1, buf) else pread_loop ops f count count offset buf 0)"

definition set_max_io_size :: "'f lsmt_file \<Rightarrow> nat \<Rightarrow> int \<times> 'f lsmt_file" where
  "set_max_io_size f sz = (if sz = 0 \<or> sz mod ALIGNMENT4K \<noteq> 0 then (-1, f) else (0, f\<lparr>MAX_IO_SIZE := sz\<rparr>))"

subsection \<open>What a device holds\<close>

text \<open>A byte of a file, zero behind its end; the bytes of a sector at a place; the sectors of a device.\<close>

definition byte_at :: "byte list \<Rightarrow> nat \<Rightarrow> byte" where
  "byte_at d i = (if i < length d then d ! i else 0)"

definition sector :: "('f \<Rightarrow> byte list) \<Rightarrow> 'f list \<Rightarrow> place option \<Rightarrow> byte list" where
  "sector content files p = (case p of
       Some (t, Some mo) \<Rightarrow> map (byte_at (content (files ! t))) [mo * ALIGNMENT..<(mo + 1) * ALIGNMENT]
     | _ \<Rightarrow> replicate ALIGNMENT 0)"

definition disk :: "('f \<Rightarrow> byte list) \<Rightarrow> 'f lsmt_file \<Rightarrow> nat \<Rightarrow> byte list" where
  "disk content f x = sector content (m_files f) (mi_img (m_index f) x)"

definition extent :: "(nat \<Rightarrow> byte list) \<Rightarrow> nat \<Rightarrow> nat \<Rightarrow> byte list" where
  "extent d a e = concat (map d [a..<e])"

lemma extent_simps [simp]: "extent d a a = []"
  by (simp add: extent_def)

lemma extent_split: "a \<le> b \<Longrightarrow> b \<le> e \<Longrightarrow> extent d a e = extent d a b @ extent d b e"
  using upt_add_eq_append [of a b "e - b"] by (simp add: extent_def)

lemma extent_cong: "(\<And>x. a \<le> x \<Longrightarrow> x < e \<Longrightarrow> d x = d' x) \<Longrightarrow> extent d a e = extent d' a e"
  by (auto simp: extent_def intro!: arg_cong [of _ _ concat])

lemma length_sector [simp]: "length (sector content files p) = ALIGNMENT"
  by (auto simp: sector_def split: option.split)

lemma extent_Suc: "a \<le> e \<Longrightarrow> extent d a (Suc e) = extent d a e @ d e"
  by (simp add: extent_def)

lemma length_extent: "(\<And>x. length (d x) = ALIGNMENT) \<Longrightarrow> length (extent d a e) = (e - a) * ALIGNMENT"
proof (induction e)
  case (Suc e)
  then show ?case by (cases "a \<le> e") (auto simp: extent_Suc Suc_diff_le extent_def)
qed (simp add: extent_def)

lemma length_disk [simp]: "length (disk content f x) = ALIGNMENT"
  by (simp add: disk_def)

text \<open>Reading a range of a file, with zeroes behind the end.\<close>

lemma read_padded:
  "take n (drop off d) @ replicate (n - length (take n (drop off d))) 0 = map (byte_at d) [off..<off + n]"
  by (rule nth_equalityI) (auto simp: nth_append byte_at_def)

lemma extent_zero: "(\<And>x. a \<le> x \<Longrightarrow> x < a + l \<Longrightarrow> d x = replicate ALIGNMENT 0) \<Longrightarrow> extent d a (a + l) = replicate (l * ALIGNMENT) 0"
  by (induction l) (simp_all add: extent_Suc replicate_add [symmetric] add.commute)

lemma extent_data:
  "(\<And>i. i < l \<Longrightarrow> d (a + i) = map (byte_at c) [(mo + i) * ALIGNMENT..<(mo + i + 1) * ALIGNMENT]) \<Longrightarrow>
   extent d a (a + l) = map (byte_at c) [mo * ALIGNMENT..<(mo + l) * ALIGNMENT]"
proof (induction l)
  case (Suc l)
  have "[mo * ALIGNMENT..<(mo + Suc l) * ALIGNMENT] = [mo * ALIGNMENT..<(mo + l) * ALIGNMENT] @ [(mo + l) * ALIGNMENT..<(mo + l + 1) * ALIGNMENT]"
    using upt_add_eq_append [of "mo * ALIGNMENT" "(mo + l) * ALIGNMENT" ALIGNMENT] by (simp add: algebra_simps)
  then show ?case using Suc by (simp add: extent_Suc)
qed simp

lemma sector_zero: "p = None \<or> (\<exists>t. p = Some (t, None)) \<Longrightarrow> sector content files p = replicate ALIGNMENT 0"
  by (auto simp: sector_def)

lemma pread_cb_data:
  assumes "reads_content ops content"
  shows "pread_cb ops files (Data m) =
    (0, map (byte_at (content (files ! tag m))) [moffset m * ALIGNMENT..<(moffset m + s_length m) * ALIGNMENT], s_length m * ALIGNMENT)"
proof -
  let ?d = "content (files ! tag m)" and ?size = "s_length m * ALIGNMENT" and ?off = "moffset m * ALIGNMENT"
  let ?bs = "take ?size (drop ?off ?d)"
  have read: "fpread ops (files ! tag m) n off = (int (length (take n (drop off ?d))), take n (drop off ?d))" for n off
    using assms by (simp add: reads_content_def)
  have pad: "?bs @ replicate (?size - length ?bs) 0 = map (byte_at ?d) [?off..<(moffset m + s_length m) * ALIGNMENT]"
    using read_padded [of ?size ?off ?d] by (simp add: algebra_simps)
  show ?thesis
  proof (cases "length ?bs < ?size")
    case True
    then have "drop (?off + length ?bs) ?d = []" by auto
    then show ?thesis using True pad by (simp add: read Let_def)
  next
    case False
    then have "length ?bs = ?size" by simp
    then show ?thesis using pad by (simp add: read Let_def)
  qed
qed

lemma pread_cb_ok:
  assumes "reads_content ops content" "reports g v"
  shows "pread_cb ops files v = (0, extent (\<lambda>x. sector content files (g x)) (v_start v) (v_end v), (v_end v - v_start v) * ALIGNMENT)"
proof (cases v)
  case (Zero a l)
  then show ?thesis using assms(2) extent_zero [of a l] by (simp add: sector_zero)
next
  case (Data m)
  have "extent (\<lambda>x. sector content files (g x)) (s_offset m) (s_offset m + s_length m) =
      map (byte_at (content (files ! tag m))) [moffset m * ALIGNMENT..<(moffset m + s_length m) * ALIGNMENT]"
    using assms(2) by (intro extent_data) (simp add: Data sector_def seg_end_def)
  then show ?thesis unfolding Data pread_cb_data [OF assms(1)] by (simp add: seg_end_def)
qed

lemma covers_long: "covers a e vs \<Longrightarrow> v \<in> set vs \<Longrightarrow> v_start v < v_end v"
  by (induction vs arbitrary: a) auto

lemma run_cbs_ok:
  assumes "reads_content ops content" "covers a e vs" "\<forall>v\<in>set vs. reports g v" "pos + (e - a) * ALIGNMENT \<le> length buf"
  shows "run_cbs ops files vs buf pos = (put_bytes pos (extent (\<lambda>x. sector content files (g x)) a e) buf, pos + (e - a) * ALIGNMENT)"
  using assms(2-4)
proof (induction vs arbitrary: a buf pos)
  case (Cons v vs)
  let ?d = "\<lambda>x. sector content files (g x)" and ?b = "v_end v"
  have v: "v_start v = a" "a < ?b" "covers ?b e vs" using Cons.prems(1) by auto
  have e: "?b \<le> e" using v(3) by (induction vs arbitrary: v) (auto, fastforce)
  have len: "length (extent ?d a ?b) = (?b - a) * ALIGNMENT" "length (extent ?d ?b e) = (e - ?b) * ALIGNMENT" by (simp_all add: length_extent)
  have fit: "pos + (?b - a) * ALIGNMENT + (e - ?b) * ALIGNMENT = pos + (e - a) * ALIGNMENT"
    using v(2) e by (simp add: add.assoc distrib_right [symmetric])
  have "run_cbs ops files vs (put_bytes pos (extent ?d a ?b) buf) (pos + (?b - a) * ALIGNMENT) =
      (put_bytes (pos + (?b - a) * ALIGNMENT) (extent ?d ?b e) (put_bytes pos (extent ?d a ?b) buf), pos + (e - a) * ALIGNMENT)"
    using Cons.IH [OF v(3), of "pos + (?b - a) * ALIGNMENT" "put_bytes pos (extent ?d a ?b) buf"] Cons.prems(2,3) fit len by simp
  also have "put_bytes (pos + (?b - a) * ALIGNMENT) (extent ?d ?b e) (put_bytes pos (extent ?d a ?b) buf) = put_bytes pos (extent ?d a e) buf"
    using put_bytes_append [of pos "extent ?d a ?b" "extent ?d ?b e" buf] Cons.prems(3) fit len extent_split [of a ?b e ?d] v(2) e by simp
  finally show ?case using pread_cb_ok [OF assms(1), of g v files] Cons.prems(2) v(1) by simp
qed simp

text \<open>A device whose index is in order and points only to files that are there.\<close>

definition device_ok :: "'f lsmt_file \<Rightarrow> bool" where
  "device_ok f \<longleftrightarrow> mi_ok (m_index f) \<and> (\<forall>x t mo. mi_img (m_index f) x = Some (t, Some mo) \<longrightarrow> t < length (m_files f)) \<and>
     0 < MAX_IO_SIZE f \<and> is_aligned (MAX_IO_SIZE f) \<and> MAX_IO_SIZE f div ALIGNMENT < 2 ^ 14"

lemma ALIGNMENT_pos [simp]: "0 < ALIGNMENT" "ALIGNMENT \<noteq> 0"
  by (simp_all add: ALIGNMENT_def)

lemma pread_segment_ok:
  assumes "reads_content ops content" "device_ok f" "n < 2 ^ 14" "a + n < 2 ^ 50" "pos + n * ALIGNMENT \<le> length buf"
  shows "pread_segment ops f (n * ALIGNMENT) (a * ALIGNMENT) buf pos = Some (0, put_bytes pos (extent (disk content f) a (a + n)) buf)"
proof -
  let ?s = "\<lparr>s_offset = a, s_length = n\<rparr>" and ?ret = "\<lambda>v. fst (pread_cb ops (m_files f) v)" and ?g = "mi_img (m_index f)"
  have s: "\<lparr>s_offset = a * ALIGNMENT div ALIGNMENT mod 2 ^ 50, s_length = n * ALIGNMENT div ALIGNMENT mod 2 ^ 14\<rparr> = ?s" "seg_ok ?s" "seg_end ?s = a + n"
    using assms(3,4) by (simp_all add: seg_ok_def seg_end_def)
  have "mi_ok (m_index f)" using assms(2) by (simp add: device_ok_def)
  then obtain r vs where walk: "foreach_segments (mi_lookup (m_index f)) ?ret ?s = Some (r, vs)" "walked ?g ?ret a (a + n) r vs"
    using mi.foreach_loop_ok [OF _ s(2), of "m_index f" ?ret "[]"] s(3) by (auto simp: foreach_segments_def)
  have rep: "\<forall>v\<in>set vs. reports ?g v" using walk(2) by (simp add: walked_def)
  then have "?ret v = 0" if "v \<in> set vs" for v using pread_cb_ok [OF assms(1)] that by fastforce
  then have r: "r = 0" "covers a (a + n) vs" using walk(2) last_in_set [of vs] by (auto simp: walked_def split: if_splits)
  have long: "v_start v < v_end v" if "v \<in> set vs" for v using covers_long [OF r(2) that] .
  have "tag_assert (m_files f) v" if v: "v \<in> set vs" for v
  proof (cases v)
    case (Data m)
    then have "?g (s_offset m) = Some (tag m, Some (moffset m))" using bspec [OF rep v] long [OF v] by simp
    then show ?thesis using assms(2) by (auto simp: device_ok_def tag_assert_def Data)
  qed (simp add: tag_assert_def)
  then have tags: "list_all (tag_assert (m_files f)) vs" by (simp add: list_all_iff)
  have "disk content f = (\<lambda>x. sector content (m_files f) (?g x))" by (simp add: fun_eq_iff disk_def)
  then have "run_cbs ops (m_files f) vs buf pos = (put_bytes pos (extent (disk content f) a (a + n)) buf, pos + n * ALIGNMENT)"
    using run_cbs_ok [OF assms(1) r(2) rep, of pos buf] assms(5) by simp
  then show ?thesis unfolding pread_segment_def Let_def s(1) walk(1) using r(1) tags by simp
qed

lemma pread_loop_ok:
  assumes "reads_content ops content" "device_ok f"
  shows "a + n < 2 ^ 50 \<Longrightarrow> pos + n * ALIGNMENT \<le> length buf \<Longrightarrow>
    pread_loop ops f nbytes (n * ALIGNMENT) (a * ALIGNMENT) buf pos = Some (int nbytes, put_bytes pos (extent (disk content f) a (a + n)) buf)"
proof (induction n arbitrary: a pos buf rule: less_induct)
  case (less n)
  obtain k where k: "MAX_IO_SIZE f = k * ALIGNMENT" "0 < k" "k < 2 ^ 14"
    using assms(2) by (auto simp: device_ok_def is_aligned_def elim!: dvdE [OF mod_0_imp_dvd])
  show ?case
  proof (cases "n > k")
    case False
    then show ?thesis
      using pread_segment_ok [OF assms, of n a pos buf] less.prems k by (subst pread_loop.simps) simp
  next
    case True
    let ?b = "put_bytes pos (extent (disk content f) a (a + k)) buf"
    have len: "length (extent (disk content f) u v) = (v - u) * ALIGNMENT" for u v by (simp add: length_extent)
    have n: "n * ALIGNMENT = k * ALIGNMENT + (n - k) * ALIGNMENT" using True by (simp add: distrib_right [symmetric])
    have seg: "pread_segment ops f (k * ALIGNMENT) (a * ALIGNMENT) buf pos = Some (0, ?b)"
      using pread_segment_ok [OF assms, of k a pos buf] less.prems k True n by simp
    have sub: "n * ALIGNMENT - k * ALIGNMENT = (n - k) * ALIGNMENT" "a * ALIGNMENT + k * ALIGNMENT = (a + k) * ALIGNMENT"
      by (simp_all add: diff_mult_distrib distrib_right)
    have "pread_loop ops f nbytes ((n - k) * ALIGNMENT) ((a + k) * ALIGNMENT) ?b (pos + k * ALIGNMENT) =
        Some (int nbytes, put_bytes (pos + k * ALIGNMENT) (extent (disk content f) (a + k) (a + n)) ?b)"
      using less.IH [of "n - k" "a + k" "pos + k * ALIGNMENT" ?b] less.prems True k(2) n by (simp add: len)
    also have "put_bytes (pos + k * ALIGNMENT) (extent (disk content f) (a + k) (a + n)) ?b = put_bytes pos (extent (disk content f) a (a + n)) buf"
      using put_bytes_append [of pos "extent (disk content f) a (a + k)" "extent (disk content f) (a + k) (a + n)" buf] less.prems(2) n True
        extent_split [of a "a + k" "a + n" "disk content f"] by (simp add: len)
    finally show ?thesis
      using True k seg sub by (subst pread_loop.simps) (simp add: CHECK_ALIGNMENT_def is_aligned_def)
  qed
qed

lemma pread_ok:
  assumes "reads_content ops content" "device_ok f" "a + n < 2 ^ 50" "n * ALIGNMENT \<le> length buf"
  shows "pread ops f buf (n * ALIGNMENT) (a * ALIGNMENT) =
    Some (int (n * ALIGNMENT), extent (disk content f) a (a + n) @ drop (n * ALIGNMENT) buf)"
  using pread_loop_ok [OF assms(1-3), of 0 buf "n * ALIGNMENT"] assms(4)
  by (simp add: pread_def CHECK_ALIGNMENT_def is_aligned_def put_bytes_def length_extent)

end
