(* ===== verification/LSMT_Format.thy ===== *)
theory LSMT_Format
  imports LSMT_File
begin

text \<open>
  The format of the files of a layer (\<open>lsmt/file.cpp\<close>: \<open>HeaderTrailer\<close>, \<open>write_header_trailer\<close>, \<open>verify_ht\<close>,
  \<open>do_load_index\<close>, and the layout of \<open>SegmentMapping\<close>).

  A file starts with a block of 4096 bytes whose first 390 bytes are a packed structure; a sealed data file ends with another one.  All
  numbers are stored in little endian order, and bit fields from the lowest bit on, as the compilers for the supported machines do.
\<close>

subsection \<open>Mappings\<close>

definition mapping_bits :: "segment_mapping \<Rightarrow> nat" where
  "mapping_bits m = s_offset m + 2 ^ 50 * (s_length m + 2 ^ 14 * (moffset m + 2 ^ 55 * (of_bool (zeroed m) + 2 * tag m)))"

definition mapping_bytes :: "segment_mapping \<Rightarrow> byte list" where
  "mapping_bytes m = le_bytes 16 (mapping_bits m)"

definition parse_mapping :: "byte list \<Rightarrow> segment_mapping" where
  "parse_mapping bs = (let v = le_value bs in
     \<lparr>s_offset = v mod 2 ^ 50, s_length = v div 2 ^ 50 mod 2 ^ 14, moffset = v div 2 ^ 64 mod 2 ^ 55, zeroed = odd (v div 2 ^ 119),
      tag = v div 2 ^ 120 mod 2 ^ 8\<rparr>)"

text \<open>The values that the fields can have.\<close>

definition fields_fit :: "segment_mapping \<Rightarrow> bool" where
  "fields_fit m \<longleftrightarrow> s_offset m < 2 ^ 50 \<and> s_length m < 2 ^ 14 \<and> moffset m < 2 ^ 55 \<and> tag m < 2 ^ 8"

lemma digit_mod_div: "a < n \<Longrightarrow> (a + n * b) mod n = a \<and> (a + n * b) div n = b" for a b n :: nat
  by auto

lemma parse_mapping_bytes:
  assumes "fields_fit m"
  shows "parse_mapping (mapping_bytes m) = m"
proof -
  define z where "z = of_bool (zeroed m) + 2 * tag m"
  define y where "y = moffset m + 2 ^ 55 * z"
  define w where "w = s_length m + 2 ^ 14 * y"
  define v where "v = s_offset m + 2 ^ 50 * w"
  have fit: "s_offset m < 2 ^ 50" "s_length m < 2 ^ 14" "moffset m < 2 ^ 55" "tag m < 2 ^ 8" using assms by (simp_all add: fields_fit_def)
  have z: "z < 2 ^ 9" using fit(4) by (cases "zeroed m") (simp_all add: z_def)
  have y: "y < 2 ^ 64" using fit(3) z by (simp add: y_def)
  have w: "w < 2 ^ 78" using fit(2) y by (simp add: w_def)
  have v: "v < 256 ^ 16" using fit(1) w by (simp add: v_def)
  have v1: "v mod 2 ^ 50 = s_offset m" "v div 2 ^ 50 = w" using digit_mod_div [OF fit(1), of w] by (simp_all add: v_def)
  have w1: "w mod 2 ^ 14 = s_length m" "w div 2 ^ 14 = y" using digit_mod_div [OF fit(2), of y] by (simp_all add: w_def)
  have y1: "y mod 2 ^ 55 = moffset m" "y div 2 ^ 55 = z" using digit_mod_div [OF fit(3), of z] by (simp_all add: y_def)
  have z1: "odd z = zeroed m" "z div 2 = tag m" by (simp_all add: z_def)
  have d: "v div 2 ^ 64 = y" "v div 2 ^ 119 = z" "v div 2 ^ 120 = tag m"
  proof -
    show 64: "v div 2 ^ 64 = y" using div_mult2_eq [of v "2 ^ 50" "2 ^ 14"] v1(2) w1(2) by (simp flip: power_add)
    show 119: "v div 2 ^ 119 = z" using div_mult2_eq [of v "2 ^ 64" "2 ^ 55"] 64 y1(2) by (simp flip: power_add)
    show "v div 2 ^ 120 = tag m" using div_mult2_eq [of v "2 ^ 119" 2] 119 z1(2) by (simp flip: power_Suc2)
  qed
  have "le_value (mapping_bytes m) = v"
    using v by (simp add: mapping_bytes_def mapping_bits_def v_def w_def y_def z_def le_value_bytes_small)
  then show ?thesis using v1(1) v1(2) w1(1) d y1(1) z1(1) fit(4) by (simp add: parse_mapping_def Let_def)
qed

subsection \<open>Header and trailer\<close>

definition SPACE :: nat where "SPACE = 4096"
definition TAG_SIZE :: nat where "TAG_SIZE = 256"

text \<open>The magic numbers: the string \<open>LSMT\<close> with the bytes 0, 1, 2 and the terminating 0, and a UUID, field by field.\<close>

definition MAGIC0 :: nat where
  "MAGIC0 = le_value [76, 83, 77, 84, 0, 1, 2, 0]"

definition MAGIC1 :: "byte list" where
  "MAGIC1 = le_bytes 4 0xd2637e65 @ le_bytes 2 0x4494 @ le_bytes 2 0x4c08 @ le_bytes 2 0xd2a2 @ [0xc8, 0xec, 0x4f, 0xcf, 0xae, 0x8a]"

record HeaderTrailer =
  ht_magic0 :: nat
  ht_magic1 :: "byte list"
  ht_size :: nat
  ht_flags :: u32
  ht_index_offset :: nat
  ht_index_size :: nat
  ht_virtual_size :: nat
  ht_uuid :: "byte list"
  ht_parent_uuid :: "byte list"
  ht_reserved :: nat
  ht_version :: byte
  ht_sub_version :: byte
  ht_user_tag :: "byte list"

definition verify_magic :: "HeaderTrailer \<Rightarrow> bool" where
  "verify_magic ht \<longleftrightarrow> ht_magic0 ht = MAGIC0 \<and> ht_magic1 ht = MAGIC1"

definition FLAG_SHIFT_HEADER :: nat where "FLAG_SHIFT_HEADER = 0"
definition FLAG_SHIFT_TYPE :: nat where "FLAG_SHIFT_TYPE = 1"
definition FLAG_SHIFT_SEALED :: nat where "FLAG_SHIFT_SEALED = 2"
definition FLAG_SPARSE_RW :: nat where "FLAG_SPARSE_RW = 4"

lemmas flag_shifts = FLAG_SHIFT_HEADER_def FLAG_SHIFT_TYPE_def FLAG_SHIFT_SEALED_def FLAG_SPARSE_RW_def

definition get_flag_bit :: "HeaderTrailer \<Rightarrow> nat \<Rightarrow> u32" where
  "get_flag_bit ht shift = ht_flags ht AND push_bit shift 1"

definition set_flag_bit :: "nat \<Rightarrow> HeaderTrailer \<Rightarrow> HeaderTrailer" where
  "set_flag_bit shift ht = ht\<lparr>ht_flags := ht_flags ht OR push_bit shift 1\<rparr>"

definition clr_flag_bit :: "nat \<Rightarrow> HeaderTrailer \<Rightarrow> HeaderTrailer" where
  "clr_flag_bit shift ht = ht\<lparr>ht_flags := ht_flags ht AND NOT (push_bit shift 1)\<rparr>"

definition is_header :: "HeaderTrailer \<Rightarrow> bool" where "is_header ht \<longleftrightarrow> get_flag_bit ht FLAG_SHIFT_HEADER \<noteq> 0"
definition is_trailer :: "HeaderTrailer \<Rightarrow> bool" where "is_trailer ht \<longleftrightarrow> \<not> is_header ht"
definition is_data_file :: "HeaderTrailer \<Rightarrow> bool" where "is_data_file ht \<longleftrightarrow> get_flag_bit ht FLAG_SHIFT_TYPE \<noteq> 0"
definition is_index_file :: "HeaderTrailer \<Rightarrow> bool" where "is_index_file ht \<longleftrightarrow> \<not> is_data_file ht"
definition is_sealed :: "HeaderTrailer \<Rightarrow> bool" where "is_sealed ht \<longleftrightarrow> get_flag_bit ht FLAG_SHIFT_SEALED \<noteq> 0"
definition is_sparse_rw :: "HeaderTrailer \<Rightarrow> bool" where "is_sparse_rw ht \<longleftrightarrow> get_flag_bit ht FLAG_SPARSE_RW \<noteq> 0"

text \<open>The tag: \<open>n\<close> bytes of \<open>buf\<close>.\<close>

definition set_tag :: "HeaderTrailer \<Rightarrow> byte list \<Rightarrow> nat \<Rightarrow> int \<times> HeaderTrailer" where
  "set_tag ht buf n =
     (if n > TAG_SIZE then (-1, ht)
      else if n = 0 then (0, ht\<lparr>ht_user_tag := replicate TAG_SIZE 0\<rparr>)
      else (0, ht\<lparr>ht_user_tag := take n buf @ drop n (ht_user_tag ht)\<rparr>))"

text \<open>A new object, in memory that was cleared.\<close>

definition HeaderTrailer_new :: HeaderTrailer where
  "HeaderTrailer_new = \<lparr>ht_magic0 = MAGIC0, ht_magic1 = MAGIC1, ht_size = 390, ht_flags = 0, ht_index_offset = 0, ht_index_size = 0, ht_virtual_size = 0,
     ht_uuid = replicate 37 0, ht_parent_uuid = replicate 37 0, ht_reserved = 0, ht_version = 1, ht_sub_version = 1,
     ht_user_tag = replicate TAG_SIZE 0\<rparr>"

definition ht_bytes :: "HeaderTrailer \<Rightarrow> byte list" where
  "ht_bytes ht = le_bytes 8 (ht_magic0 ht) @ ht_magic1 ht @ le_bytes 4 (ht_size ht) @ le_bytes 4 (unat (ht_flags ht)) @
     le_bytes 8 (ht_index_offset ht) @ le_bytes 8 (ht_index_size ht) @ le_bytes 8 (ht_virtual_size ht) @ ht_uuid ht @ ht_parent_uuid ht @
     le_bytes 2 (ht_reserved ht) @ [ht_version ht] @ [ht_sub_version ht] @ ht_user_tag ht"

definition parse_ht :: "byte list \<Rightarrow> HeaderTrailer" where
  "parse_ht buf = \<lparr>ht_magic0 = le_value (field 0 8 buf), ht_magic1 = field 8 16 buf, ht_size = le_value (field 24 4 buf),
     ht_flags = of_nat (le_value (field 28 4 buf)), ht_index_offset = le_value (field 32 8 buf), ht_index_size = le_value (field 40 8 buf),
     ht_virtual_size = le_value (field 48 8 buf), ht_uuid = field 56 37 buf, ht_parent_uuid = field 93 37 buf,
     ht_reserved = le_value (field 130 2 buf), ht_version = hd (field 132 1 buf), ht_sub_version = hd (field 133 1 buf),
     ht_user_tag = field 134 256 buf\<rparr>"

definition ht_fits :: "HeaderTrailer \<Rightarrow> bool" where
  "ht_fits ht \<longleftrightarrow> ht_magic0 ht < 2 ^ 64 \<and> length (ht_magic1 ht) = 16 \<and> ht_size ht < 2 ^ 32 \<and> ht_index_offset ht < 2 ^ 64 \<and>
     ht_index_size ht < 2 ^ 64 \<and> ht_virtual_size ht < 2 ^ 64 \<and> length (ht_uuid ht) = 37 \<and> length (ht_parent_uuid ht) = 37 \<and>
     ht_reserved ht < 2 ^ 16 \<and> length (ht_user_tag ht) = 256"

lemma length_ht_bytes: "ht_fits ht \<Longrightarrow> length (ht_bytes ht) = 390"
  by (simp add: ht_bytes_def ht_fits_def)

lemma parse_ht_bytes:
  assumes "ht_fits ht"
  shows "parse_ht (ht_bytes ht @ rest) = ht"
proof -
  have fit: "ht_magic0 ht < 256 ^ 8" "ht_size ht < 256 ^ 4" "ht_index_offset ht < 256 ^ 8" "ht_index_size ht < 256 ^ 8" "ht_virtual_size ht < 256 ^ 8"
      "ht_reserved ht < 256 ^ 2" "unat (ht_flags ht) < 256 ^ 4"
    and len: "length (ht_magic1 ht) = 16" "length (ht_uuid ht) = 37" "length (ht_parent_uuid ht) = 37" "length (ht_user_tag ht) = 256"
    using assms unsigned_less [of "ht_flags ht", where ?'a = nat] by (simp_all add: ht_fits_def)
  note le = fit [THEN le_value_bytes_small]
  show ?thesis
    by (rule HeaderTrailer.equality)
      (simp_all add: parse_ht_def ht_bytes_def len field_here le)
qed

subsection \<open>Writing and verifying a header\<close>

record LayerInfo =
  li_virtual_size :: nat
  li_uuid :: "byte list"
  li_parent_uuid :: "byte list"
  li_user_tag :: "byte list"
  li_sparse_rw :: bool
  li_len :: nat

text \<open>The block that is written; the identifiers are given as their strings of 37 bytes.\<close>

definition make_ht :: "bool \<Rightarrow> bool \<Rightarrow> bool \<Rightarrow> nat \<Rightarrow> nat \<Rightarrow> LayerInfo \<Rightarrow> HeaderTrailer" where
  "make_ht is_hdr sealed data index_offset index_size args = (
     let ht = HeaderTrailer_new;
         ht = (if is_hdr then set_flag_bit FLAG_SHIFT_HEADER ht else clr_flag_bit FLAG_SHIFT_HEADER ht);
         ht = (if sealed then set_flag_bit FLAG_SHIFT_SEALED ht else clr_flag_bit FLAG_SHIFT_SEALED ht);
         ht = (if data then set_flag_bit FLAG_SHIFT_TYPE ht else clr_flag_bit FLAG_SHIFT_TYPE ht);
         ht = (if li_sparse_rw args then set_flag_bit FLAG_SPARSE_RW ht else clr_flag_bit FLAG_SPARSE_RW ht)
     in ht\<lparr>ht_index_offset := index_offset, ht_index_size := index_size, ht_virtual_size := li_virtual_size args,
           ht_uuid := li_uuid args, ht_parent_uuid := li_parent_uuid args\<rparr>)"

definition ht_block :: "HeaderTrailer \<Rightarrow> byte list" where
  "ht_block ht = ht_bytes ht @ replicate (SPACE - length (ht_bytes ht)) 0"

definition write_header_trailer :: "'f ifile \<Rightarrow> 'f \<Rightarrow> bool \<Rightarrow> bool \<Rightarrow> bool \<Rightarrow> nat \<Rightarrow> nat \<Rightarrow> LayerInfo \<Rightarrow> int \<times> 'f" where
  "write_header_trailer ops fl is_hdr sealed data index_offset index_size args = (
     case set_tag (make_ht is_hdr sealed data index_offset index_size args) (li_user_tag args) (li_len args) of (ret, ht) \<Rightarrow>
       if ret \<noteq> 0 then (-1, fl) else fwrite ops fl (ht_block ht))"

text \<open>\<open>verify_ht\<close>: \<open>None\<close> is the null pointer.  A trailer in a file that is shorter than a block would be read from a negative offset, which fails.\<close>

definition verify_ht :: "'f ifile \<Rightarrow> 'f \<Rightarrow> bool \<Rightarrow> HeaderTrailer option" where
  "verify_ht ops fl trailer =
     (if \<not> trailer then
        (case fpread ops fl SPACE 0 of (ret, buf) \<Rightarrow>
           if ret < int SPACE then None
           else let pht = parse_ht buf in if \<not> verify_magic pht \<or> \<not> is_header pht then None else Some pht)
      else
        if fsize ops fl < SPACE then None
        else (case fpread ops fl SPACE (fsize ops fl - SPACE) of (ret, buf) \<Rightarrow>
           if ret < int SPACE then None
           else let pht = parse_ht buf in
             if \<not> verify_magic pht \<or> \<not> is_trailer pht \<or> \<not> is_data_file pht \<or> \<not> is_sealed pht then None else Some pht))"

text \<open>What the flags of a new block say.\<close>

lemma make_ht_flags:
  "is_header (make_ht h s d io isz args) = h" "is_sealed (make_ht h s d io isz args) = s" "is_data_file (make_ht h s d io isz args) = d"
  "is_sparse_rw (make_ht h s d io isz args) = li_sparse_rw args"
  by (cases h; cases s; cases d; cases "li_sparse_rw args";
      simp add: make_ht_def Let_def set_flag_bit_def clr_flag_bit_def get_flag_bit_def is_header_def is_sealed_def is_data_file_def
        is_sparse_rw_def flag_shifts HeaderTrailer_new_def)+

lemma make_ht_fields:
  "ht_index_offset (make_ht h s d io isz args) = io" "ht_index_size (make_ht h s d io isz args) = isz"
  "ht_virtual_size (make_ht h s d io isz args) = li_virtual_size args"
  "verify_magic (make_ht h s d io isz args)"
  by (auto simp: make_ht_def Let_def verify_magic_def set_flag_bit_def clr_flag_bit_def HeaderTrailer_new_def)

definition info_ok :: "LayerInfo \<Rightarrow> bool" where
  "info_ok args \<longleftrightarrow> li_virtual_size args < 2 ^ 64 \<and> length (li_uuid args) = 37 \<and> length (li_parent_uuid args) = 37 \<and> li_len args \<le> TAG_SIZE \<and>
     li_len args \<le> length (li_user_tag args)"

definition ht_says :: "bool \<Rightarrow> bool \<Rightarrow> bool \<Rightarrow> nat \<Rightarrow> nat \<Rightarrow> LayerInfo \<Rightarrow> HeaderTrailer \<Rightarrow> bool" where
  "ht_says h s d io isz args ht \<longleftrightarrow> ht_fits ht \<and> verify_magic ht \<and> is_header ht = h \<and> is_sealed ht = s \<and> is_data_file ht = d \<and>
     is_sparse_rw ht = li_sparse_rw args \<and> ht_index_offset ht = io \<and> ht_index_size ht = isz \<and> ht_virtual_size ht = li_virtual_size args"

lemma MAGIC_fits: "MAGIC0 < 2 ^ 64" "length MAGIC1 = 16"
  by (simp_all add: MAGIC0_def MAGIC1_def)

lemma set_tag_ok:
  assumes "info_ok args" "io < 2 ^ 64" "isz < 2 ^ 64"
  shows "\<exists>ht. set_tag (make_ht h s d io isz args) (li_user_tag args) (li_len args) = (0, ht) \<and> ht_says h s d io isz args ht"
proof -
  let ?h = "make_ht h s d io isz args"
  have fit: "ht_fits ?h"
    using assms MAGIC_fits
    by (auto simp: ht_fits_def info_ok_def make_ht_def Let_def set_flag_bit_def clr_flag_bit_def HeaderTrailer_new_def TAG_SIZE_def)
  have upd: "ht_says h s d io isz args (?h\<lparr>ht_user_tag := t\<rparr>)" if "length t = 256" for t
    using fit make_ht_flags [of h s d io isz args] make_ht_fields [of h s d io isz args] that
    by (simp add: ht_says_def ht_fits_def verify_magic_def is_header_def is_sealed_def is_data_file_def is_sparse_rw_def get_flag_bit_def)
  show ?thesis
  proof (cases "li_len args = 0")
    case True
    then show ?thesis using upd [of "replicate TAG_SIZE 0"] by (simp add: set_tag_def TAG_SIZE_def)
  next
    case False
    let ?t = "take (li_len args) (li_user_tag args) @ drop (li_len args) (ht_user_tag ?h)"
    have "length ?t = 256" using assms(1) fit by (simp add: info_ok_def ht_fits_def TAG_SIZE_def)
    then show ?thesis using upd [of ?t] False assms(1) by (simp add: set_tag_def info_ok_def)
  qed
qed

lemma length_ht_block: "ht_fits ht \<Longrightarrow> length (ht_block ht) = SPACE"
  by (simp add: ht_block_def length_ht_bytes SPACE_def)

lemma parse_ht_block: "ht_fits ht \<Longrightarrow> parse_ht (ht_block ht) = ht"
  by (simp add: ht_block_def parse_ht_bytes)

lemma verify_header:
  assumes "reads_content ops content" "content fl = ht_block ht @ rest" "ht_says True s d io isz args ht"
  shows "verify_ht ops fl False = Some ht"
proof -
  have ht: "ht_fits ht" "verify_magic ht" "is_header ht" using assms(3) by (simp_all add: ht_says_def)
  have "fpread ops fl SPACE 0 = (int SPACE, ht_block ht)"
    using assms(1,2) length_ht_block [OF ht(1)] by (simp add: reads_content_def)
  then show ?thesis using parse_ht_block [OF ht(1)] ht(2,3) by (simp add: verify_ht_def)
qed

lemma verify_trailer:
  assumes "reads_content ops content" "content fl = rest @ ht_block ht" "ht_says False True True io isz args ht"
  shows "verify_ht ops fl True = Some ht"
proof -
  have ht: "ht_fits ht" "verify_magic ht" "is_trailer ht" "is_data_file ht" "is_sealed ht"
    using assms(3) by (simp_all add: ht_says_def is_trailer_def)
  have "fsize ops fl = length rest + SPACE" "fpread ops fl SPACE (length rest) = (int SPACE, ht_block ht)"
    using assms(1,2) length_ht_block [OF ht(1)] by (simp_all add: reads_content_def)
  then show ?thesis using parse_ht_block [OF ht(1)] ht(2-5) by (simp add: verify_ht_def)
qed

subsection \<open>Loading an index\<close>

definition parse_mappings :: "nat \<Rightarrow> byte list \<Rightarrow> segment_mapping list" where
  "parse_mappings n bs = map (\<lambda>i. parse_mapping (field (16 * i) 16 bs)) [0..<n]"

text \<open>The first loop drops the invalid mappings and sets the tags, the second one numbers the tags of a warp file.\<close>

definition filter_mappings :: "nat \<Rightarrow> segment_mapping list \<Rightarrow> segment_mapping list" where
  "filter_mappings warp_file_tag ms =
     map (\<lambda>m. if warp_file_tag \<noteq> 0 then m else m\<lparr>tag := 0\<rparr>) (filter (\<lambda>m. s_offset m \<noteq> INVALID_OFFSET) ms)"

definition rebuild_tags :: "nat \<Rightarrow> segment_mapping list \<Rightarrow> segment_mapping list" where
  "rebuild_tags warp_file_tag ms = (
     let min_tag = foldl (\<lambda>a m. if a > tag m then tag m else a) 255 ms in
     if warp_file_tag = 0 then ms
     else map (\<lambda>m.
       let m = (if warp_file_tag = 1 then m\<lparr>tag := 0\<rparr> else m);
           m = (if warp_file_tag = 2 then m\<lparr>tag := 1\<rparr> else m)
       in if warp_file_tag = 3 then m\<lparr>tag := (tag m + (2 ^ 8 - min_tag)) mod 2 ^ 8\<rparr> else m) ms)"

text \<open>The place of the index: its size in bytes, the number of mappings, and its offset; the arithmetic is of 64 bits.  \<open>None\<close> is the null pointer
  or the failing assertion.\<close>

definition index_place :: "'f ifile \<Rightarrow> 'f \<Rightarrow> bool \<Rightarrow> (nat \<times> HeaderTrailer) option" where
  "index_place ops fl trailer = do {
     pht \<leftarrow> verify_ht ops fl False;
     ENV_BUG_ON (is_sparse_rw pht);
     if trailer then do {
       ENV_BUG_ON (\<not> is_data_file pht);
       pht \<leftarrow> verify_ht ops fl True;
       let trailer_offset = fsize ops fl - SPACE;
       let index_bytes = ht_index_size pht * 16 mod 2 ^ 64;
       ENV_BUG_ON (index_bytes > (trailer_offset + (2 ^ 64 - ht_index_offset pht)) mod 2 ^ 64);
       Some (index_bytes, pht)
     } else do {
       ENV_BUG_ON (\<not> is_index_file pht \<or> is_sealed pht);
       ENV_BUG_ON (ht_index_offset pht \<noteq> SPACE);
       let index_bytes = fsize ops fl - SPACE;
       Some (index_bytes, pht\<lparr>ht_index_size := index_bytes div 16\<rparr>)
     }
   }"

definition do_load_index :: "'f ifile \<Rightarrow> 'f \<Rightarrow> bool \<Rightarrow> nat \<Rightarrow> (HeaderTrailer \<times> segment_mapping list) option" where
  "do_load_index ops fl trailer warp_file_tag = do {
     (index_bytes, pht) \<leftarrow> index_place ops fl trailer;
     case fpread ops fl index_bytes (ht_index_offset pht) of (ret, ibuf) \<Rightarrow>
       if ret < int index_bytes then None
       else
         let ms = rebuild_tags warp_file_tag (filter_mappings warp_file_tag (parse_mappings (ht_index_size pht) ibuf))
         in Some (pht\<lparr>ht_index_size := length ms\<rparr>, ms)
   }"

lemma length_mapping_bytes [simp]: "length (mapping_bytes m) = 16"
  by (simp add: mapping_bytes_def)

lemma length_concat_mappings [simp]: "length (concat (map mapping_bytes ms)) = 16 * length ms"
  by (induction ms) simp_all

lemma parse_mappings_bytes:
  "\<forall>m\<in>set ms. fields_fit m \<Longrightarrow> parse_mappings (length ms) (concat (map mapping_bytes ms) @ rest) = ms"
proof (induction ms)
  case (Cons m ms)
  let ?bs = "concat (map mapping_bytes ms) @ rest"
  have "parse_mappings (length (m # ms)) (mapping_bytes m @ ?bs) =
      parse_mapping (field 0 16 (mapping_bytes m @ ?bs)) # map (\<lambda>i. parse_mapping (field (16 * Suc i) 16 (mapping_bytes m @ ?bs))) [0..<length ms]"
    by (simp add: parse_mappings_def upt_conv_Cons map_Suc_upt [symmetric] del: upt_Suc field_skip)
  also have "\<dots> = m # parse_mappings (length ms) ?bs"
    using Cons.prems by (simp add: field_here parse_mapping_bytes parse_mappings_def)
  finally show ?case using Cons by simp
qed (simp add: parse_mappings_def)

text \<open>Loading the index of an unsealed layer gives the mappings of its log, with the invalid ones removed and all tags 0.\<close>

lemma load_log:
  assumes "reads_content ops content" "content fl = ht_block ht @ concat (map mapping_bytes L)" "ht_says True False False SPACE 0 args ht"
    and "\<not> li_sparse_rw args" "\<forall>m\<in>set L. fields_fit m"
  shows "\<exists>ht'. do_load_index ops fl False 0 = Some (ht', map (\<lambda>m. m\<lparr>tag := 0\<rparr>) (filter (\<lambda>m. s_offset m \<noteq> INVALID_OFFSET) L)) \<and>
    ht_virtual_size ht' = li_virtual_size args"
proof -
  have ht: "ht_fits ht" "\<not> is_sparse_rw ht" "is_index_file ht" "\<not> is_sealed ht" "ht_index_offset ht = SPACE" "ht_virtual_size ht = li_virtual_size args"
    using assms(3,4) by (auto simp: ht_says_def is_index_file_def)
  have size: "fsize ops fl = SPACE + 16 * length L" using assms(1,2) length_ht_block [OF ht(1)] by (simp add: reads_content_def)
  have "index_place ops fl False = Some (16 * length L, ht\<lparr>ht_index_size := length L\<rparr>)"
    using verify_header [OF assms(1,2,3)] ht size by (simp add: index_place_def Let_def)
  moreover have "fpread ops fl (16 * length L) SPACE = (int (16 * length L), concat (map mapping_bytes L))"
    using assms(1,2) length_ht_block [OF ht(1)] by (simp add: reads_content_def)
  moreover have "parse_mappings (length L) (concat (map mapping_bytes L)) = L" using parse_mappings_bytes [OF assms(5), of "[]"] by simp
  ultimately show ?thesis
    using ht(5,6) by (simp add: do_load_index_def filter_mappings_def rebuild_tags_def Let_def)
qed

text \<open>Loading the index of a sealed layer gives the mappings that the trailer points to.\<close>

lemma load_sealed:
  assumes "reads_content ops content" "content fl = ht_block h @ body @ concat (map mapping_bytes L) @ pad @ ht_block t"
    and "ht_says True s True io isz args h" "ht_says False True True (SPACE + length body) (length L) args' t"
    and "\<not> li_sparse_rw args" "\<forall>m\<in>set L. fields_fit m" "length (content fl) < 2 ^ 64"
  shows "\<exists>ht'. do_load_index ops fl True 0 = Some (ht', map (\<lambda>m. m\<lparr>tag := 0\<rparr>) (filter (\<lambda>m. s_offset m \<noteq> INVALID_OFFSET) L)) \<and>
    ht_virtual_size ht' = li_virtual_size args' \<and> ht_index_offset ht' = SPACE + length body"
proof -
  have h: "ht_fits h" "\<not> is_sparse_rw h" "is_data_file h" using assms(3,5) by (auto simp: ht_says_def)
  have t: "ht_fits t" "ht_index_offset t = SPACE + length body" "ht_index_size t = length L" "ht_virtual_size t = li_virtual_size args'"
    using assms(4) by (auto simp: ht_says_def)
  have size: "fsize ops fl = SPACE + length body + 16 * length L + length pad + SPACE"
    using assms(1,2) length_ht_block [OF h(1)] length_ht_block [OF t(1)] by (simp add: reads_content_def)
  then have small: "SPACE + length body + 16 * length L + length pad + SPACE < 2 ^ 64" using assms(1,7) by (simp add: reads_content_def)
  have "verify_ht ops fl True = Some t"
    using verify_trailer [OF assms(1) _ assms(4), of fl "ht_block h @ body @ concat (map mapping_bytes L) @ pad"] assms(2) by simp
  moreover have sum: "SPACE + length body + 16 * length L + length pad + (2 ^ 64 - (SPACE + length body)) = 16 * length L + length pad + 2 ^ 64"
    using small by linarith
  have "(SPACE + length body + 16 * length L + length pad + (2 ^ 64 - (SPACE + length body))) mod 2 ^ 64 = 16 * length L + length pad"
    unfolding sum mod_add_self2 using small by (intro mod_less) linarith
  ultimately have "index_place ops fl True = Some (16 * length L, t)"
    using verify_header [OF assms(1,2,3)] h t size small by (simp add: index_place_def Let_def)
  moreover have "fpread ops fl (16 * length L) (SPACE + length body) = (int (16 * length L), concat (map mapping_bytes L))"
    using assms(1,2) length_ht_block [OF h(1)] by (simp add: reads_content_def)
  moreover have "parse_mappings (length L) (concat (map mapping_bytes L)) = L" using parse_mappings_bytes [OF assms(6), of "[]"] by simp
  ultimately show ?thesis
    using t by (simp add: do_load_index_def filter_mappings_def rebuild_tags_def Let_def)
qed

end
