(* ===== verification/LSMT_Write.thy ===== *)
theory LSMT_Write
  imports LSMT_Format
begin

text \<open>
  Writing to the layered block device (\<open>lsmt/file.cpp\<close>, class \<open>LSMTFile\<close>): appending data, the log of the index, discarding ranges,
  and the refinement of an array of sectors by the device.
\<close>

subsection \<open>The index file\<close>

text \<open>\<open>append\<close> returns the offset of the data, or 0 when the write was not complete.\<close>

definition append :: "'f ifile \<Rightarrow> 'f \<Rightarrow> byte list \<Rightarrow> nat \<times> 'f" where
  "append ops file bs = (
     let (pos, file) = fseek_end ops file; (ret, file) = fwrite ops file bs
     in if ret < int (length bs) then (0, file) else (pos, file))"

text \<open>The buffer is padded with invalid mappings and written; it is kept when the write fails.\<close>

definition do_group_commit_mappings :: "'f ifile \<Rightarrow> 'f lsmt_file \<Rightarrow> (int \<times> 'f lsmt_file) option" where
  "do_group_commit_mappings ops f =
     (if nmapping f > 0 then do {
        ENV_BUG_ON (nmapping f > length (m_stacked_mappings f));
        let stacked = take (nmapping f) (m_stacked_mappings f) @
              replicate (length (m_stacked_mappings f) - nmapping f) invalid_mapping;
        let f = f\<lparr>m_stacked_mappings := stacked, nmapping := length stacked\<rparr>;
        findex \<leftarrow> m_findex f;
        let (ret, findex) = append ops findex (concat (map mapping_bytes stacked));
        let f = f\<lparr>m_findex := Some findex\<rparr>;
        if ret = 0 then Some (-1, f) else Some (0, f\<lparr>nmapping := 0\<rparr>)
      } else Some (0, f))"

definition append_index :: "'f ifile \<Rightarrow> 'f lsmt_file \<Rightarrow> segment_mapping \<Rightarrow> 'f lsmt_file option" where
  "append_index ops f m = (case m_findex f of
       None \<Rightarrow> Some f
     | Some findex \<Rightarrow>
         if m_stacked_mappings f = [] then Some (f\<lparr>m_findex := Some (snd (append ops findex (mapping_bytes m)))\<rparr>)
         else do {
           ENV_BUG_ON (nmapping f \<ge> length (m_stacked_mappings f));
           let f = f\<lparr>m_stacked_mappings := (m_stacked_mappings f)[nmapping f := m], nmapping := nmapping f + 1\<rparr>;
           if nmapping f = length (m_stacked_mappings f)
           then do { (ret, f) \<leftarrow> do_group_commit_mappings ops f; Some f }
           else Some f
         })"

text \<open>The request \<open>Index_Group_Commit\<close> sets the size of the buffer, in bytes; the new elements are not read before they are written.\<close>

definition vioctl_group_commit :: "'f ifile \<Rightarrow> 'f lsmt_file \<Rightarrow> nat \<Rightarrow> (int \<times> 'f lsmt_file) option" where
  "vioctl_group_commit ops f buffer_size = do {
     let buffer_size = buffer_size div 16;
     f \<leftarrow> (if buffer_size < nmapping f then do { (ret, f) \<leftarrow> do_group_commit_mappings ops f; Some f } else Some f);
     let stacked = m_stacked_mappings f;
     Some (0, f\<lparr>m_stacked_mappings := take buffer_size stacked @ replicate (buffer_size - length stacked) invalid_mapping\<rparr>)
   }"

definition fsync :: "'f ifile \<Rightarrow> 'f lsmt_file \<Rightarrow> (int \<times> 'f lsmt_file) option" where
  "fsync ops f = do_group_commit_mappings ops f"

subsection \<open>Writing\<close>

text \<open>The part of \<open>pwrite\<close> behind its loop, for the bytes that are left.\<close>

definition pwrite_segment :: "'f ifile \<Rightarrow> 'f lsmt_file \<Rightarrow> byte list \<Rightarrow> nat \<Rightarrow> (int \<times> 'f lsmt_file) option" where
  "pwrite_segment ops f bs offset = do {
     let count = length bs;
     ENV_BUG_ON (m_rw_tag f \<ge> length (m_files f));
     let (moff, file) = append ops (m_files f ! m_rw_tag f) bs;
     let f = f\<lparr>m_files := (m_files f)[m_rw_tag f := file]\<rparr>;
     if moff = 0 then Some (-1, f)
     else do {
       let f = f\<lparr>m_vsize := max (m_vsize f) (count + offset)\<rparr>;
       let len = count mod 2 ^ 32 div ALIGNMENT;
       ENV_BUG_ON (\<not> len \<le> MAX_LENGTH);
       let m = \<lparr>s_offset = offset div ALIGNMENT mod 2 ^ 50, s_length = len mod 2 ^ 14, moffset = moff div ALIGNMENT mod 2 ^ 55,
                zeroed = False, tag = m_rw_tag f\<rparr>;
       ENV_BUG_ON (\<not> s_length m > 0);
       ix \<leftarrow> mi_insert (m_index f) m;
       f \<leftarrow> append_index ops (f\<lparr>m_data_offset := mend m, m_index := ix\<rparr>) m;
       Some (int count, f)
     }
   }"

function pwrite_loop :: "'f ifile \<Rightarrow> 'f lsmt_file \<Rightarrow> nat \<Rightarrow> byte list \<Rightarrow> nat \<Rightarrow> (int \<times> 'f lsmt_file) option" where
  "pwrite_loop ops f bytes buf offset =
     (if length buf > MAX_IO_SIZE f then
        if MAX_IO_SIZE f = 0 then None
        else if \<not> CHECK_ALIGNMENT (MAX_IO_SIZE f) offset then Some (-1, f)
        else (case pwrite_segment ops f (take (MAX_IO_SIZE f) buf) offset of
            None \<Rightarrow> None
          | Some (ret, f') \<Rightarrow>
              if ret < int (MAX_IO_SIZE f) then Some (-1, f')
              else pwrite_loop ops f' bytes (drop (MAX_IO_SIZE f) buf) (offset + MAX_IO_SIZE f))
      else do {
        (ret, f) \<leftarrow> pwrite_segment ops f buf offset;
        Some (if ret < 0 then ret else int bytes, f)
      })"
  by auto
termination by (relation "measure (\<lambda>(ops, f, nb, buf, off). length buf)") auto

declare pwrite_loop.simps [simp del]

definition pwrite :: "'f ifile \<Rightarrow> 'f lsmt_file \<Rightarrow> byte list \<Rightarrow> nat \<Rightarrow> (int \<times> 'f lsmt_file) option" where
  "pwrite ops f buf offset =
     (if \<not> CHECK_ALIGNMENT (length buf) offset then Some (-1, f) else pwrite_loop ops f (length buf) buf offset)"

subsection \<open>Discarding\<close>

definition FALLOC_FL_KEEP_SIZE :: nat where "FALLOC_FL_KEEP_SIZE = 1"
definition FALLOC_FL_PUNCH_HOLE :: nat where "FALLOC_FL_PUNCH_HOLE = 2"

definition file_discard :: "'f ifile \<Rightarrow> 'f lsmt_file \<Rightarrow> segment_mapping \<Rightarrow> (int \<times> 'f lsmt_file) option" where
  "file_discard ops f m = do {
     ENV_BUG_ON (m_rw_tag f \<ge> length (m_files f));
     let (pos, file) = fseek_end ops (m_files f ! m_rw_tag f);
     let f = f\<lparr>m_files := (m_files f)[m_rw_tag f := file]\<rparr>;
     let m = m\<lparr>moffset := pos div ALIGNMENT mod 2 ^ 55, tag := m_rw_tag f\<rparr>;
     ix \<leftarrow> mi_insert (m_index f) m;
     f \<leftarrow> append_index ops (f\<lparr>m_index := ix\<rparr>) m;
     Some (0, f)
   }"

definition fallocate_segment :: "'f ifile \<Rightarrow> 'f lsmt_file \<Rightarrow> nat \<Rightarrow> nat \<Rightarrow> nat \<Rightarrow> (int \<times> 'f lsmt_file) option" where
  "fallocate_segment ops f mode offset len =
     (if mode AND FALLOC_FL_PUNCH_HOLE = 0 \<or> mode AND FALLOC_FL_KEEP_SIZE = 0 then Some (-1, f)
      else if \<not> CHECK_ALIGNMENT len offset then Some (-1, f)
      else file_discard ops f (discard \<lparr>s_offset = offset div ALIGNMENT mod 2 ^ 50, s_length = len mod 2 ^ 32 div ALIGNMENT mod 2 ^ 14,
             moffset = 0, zeroed = False, tag = 0\<rparr>))"

function fallocate :: "'f ifile \<Rightarrow> 'f lsmt_file \<Rightarrow> nat \<Rightarrow> nat \<Rightarrow> nat \<Rightarrow> (int \<times> 'f lsmt_file) option" where
  "fallocate ops f mode offset len = (
     let max_length_bytes = MAX_LENGTH * ALIGNMENT in
     if len > max_length_bytes then
       (case fallocate_segment ops f mode offset max_length_bytes of
          None \<Rightarrow> None
        | Some (ret, f') \<Rightarrow>
            if ret \<noteq> 0 then Some (-1, f')
            else fallocate ops f' mode (offset + max_length_bytes) (len - max_length_bytes))
     else fallocate_segment ops f mode offset len)"
  by auto
termination by (relation "measure (\<lambda>(ops, f, mode, off, len). len)") (auto simp: MAX_LENGTH_def ALIGNMENT_def)

declare fallocate.simps [simp del]

subsection \<open>The device as an array of sectors\<close>

lemma append_complete:
  assumes "complete_files ops content"
  shows "\<exists>f'. append ops f bs = (length (content f), f') \<and> content f' = content f @ bs"
proof -
  obtain f1 where f1: "fseek_end ops f = (length (content f), f1)" "content f1 = content f" "ftell ops f1 = length (content f1)"
    using seek_complete [OF assms] by blast
  then obtain f2 where "fwrite ops f1 bs = (int (length bs), f2)" "content f2 = content f1 @ bs" using write_complete [OF assms] by blast
  then show ?thesis using f1 by (simp add: append_def)
qed

text \<open>The buffer of the index log has room for the next mapping, and the index file is not empty.\<close>

definition stack_ok :: "('f \<Rightarrow> byte list) \<Rightarrow> 'f lsmt_file \<Rightarrow> bool" where
  "stack_ok content f \<longleftrightarrow> (nmapping f = 0 \<or> nmapping f < length (m_stacked_mappings f) \<and> m_findex f \<noteq> None) \<and>
     (\<forall>fi. m_findex f = Some fi \<longrightarrow> 0 < length (content fi))"

definition same_device :: "'f lsmt_file \<Rightarrow> 'f lsmt_file \<Rightarrow> bool" where
  "same_device f f' \<longleftrightarrow> m_files f' = m_files f \<and> m_index f' = m_index f \<and> m_rw_tag f' = m_rw_tag f \<and> MAX_IO_SIZE f' = MAX_IO_SIZE f"

text \<open>The records of the log: what the index file holds behind its header, and what waits in the buffer; padding is left out.\<close>

definition valid :: "segment_mapping \<Rightarrow> bool" where
  "valid m \<longleftrightarrow> s_offset m \<noteq> INVALID_OFFSET"

definition logged :: "('f \<Rightarrow> byte list) \<Rightarrow> byte list \<Rightarrow> 'f lsmt_file \<Rightarrow> segment_mapping list \<Rightarrow> bool" where
  "logged content hdr f R \<longleftrightarrow> (\<exists>fi L. m_findex f = Some fi \<and> content fi = hdr @ concat (map mapping_bytes L) \<and>
     (\<forall>m\<in>set L. valid m \<or> m = invalid_mapping) \<and> (\<forall>m\<in>set (take (nmapping f) (m_stacked_mappings f)). valid m) \<and>
     R = filter valid L @ take (nmapping f) (m_stacked_mappings f))"

lemma valid_invalid [simp]: "\<not> valid invalid_mapping"
  by (simp add: valid_def invalid_mapping_def)

lemma logged_appended:
  assumes "content fi = hdr @ concat (map mapping_bytes L)" "\<forall>m\<in>set L. valid m \<or> m = invalid_mapping" "\<forall>m\<in>set ms. valid m"
    and "m_findex f' = Some fi'" "content fi' = content fi @ concat (map mapping_bytes (ms @ replicate k invalid_mapping))" "nmapping f' = 0"
  shows "logged content hdr f' (filter valid L @ ms)"
  unfolding logged_def
proof (intro exI conjI)
  let ?L = "L @ ms @ replicate k invalid_mapping"
  show "m_findex f' = Some fi'" by (rule assms(4))
  show "content fi' = hdr @ concat (map mapping_bytes ?L)" using assms(1,5) by simp
  show "\<forall>m\<in>set ?L. valid m \<or> m = invalid_mapping" using assms(2,3) by auto
  have "filter valid ms = ms" using assms(3) by (simp add: filter_id_conv)
  then show "filter valid L @ ms = filter valid ?L @ take (nmapping f') (m_stacked_mappings f')" using assms(6) by (simp add: filter_replicate)
qed (use assms(6) in simp)

lemma group_commit_ok:
  assumes "complete_files ops content" "nmapping f \<le> length (m_stacked_mappings f)" "nmapping f = 0 \<or> m_findex f \<noteq> None"
    and "\<forall>fi. m_findex f = Some fi \<longrightarrow> 0 < length (content fi)"
  shows "\<exists>f'. do_group_commit_mappings ops f = Some (0, f') \<and> nmapping f' = 0 \<and> stack_ok content f' \<and> same_device f f' \<and>
    (\<forall>hdr R. logged content hdr f R \<longrightarrow> logged content hdr f' R)"
proof (cases "nmapping f > 0")
  case True
  then obtain fi where fi: "m_findex f = Some fi" using assms(3) by auto
  let ?p = "take (nmapping f) (m_stacked_mappings f)" and ?k = "length (m_stacked_mappings f) - nmapping f"
  let ?st = "?p @ replicate ?k invalid_mapping"
  obtain fi' where fi': "append ops fi (concat (map mapping_bytes ?st)) = (length (content fi), fi')" "content fi' = content fi @ concat (map mapping_bytes ?st)"
    using append_complete [OF assms(1)] by metis
  let ?f = "f\<lparr>m_stacked_mappings := ?st, nmapping := 0, m_findex := Some fi'\<rparr>"
  have pos: "0 < length (content fi)" using assms(4) fi by simp
  have "do_group_commit_mappings ops f = Some (0, ?f)"
    using True assms(2) fi fi'(1) pos by (simp add: do_group_commit_mappings_def Let_def)
  moreover have "stack_ok content ?f" using fi'(2) pos by (simp add: stack_ok_def)
  moreover have "logged content hdr ?f R" if "logged content hdr f R" for hdr R
    using that fi fi'(2) logged_appended [of content fi hdr _ ?p ?f fi' ?k] by (auto simp: logged_def [of _ _ f])
  ultimately show ?thesis by (intro exI [of _ ?f]) (simp add: same_device_def)
next
  case False
  then show ?thesis using assms(4) by (simp add: do_group_commit_mappings_def stack_ok_def same_device_def)
qed

lemma append_index_ok:
  assumes "complete_files ops content" "stack_ok content f"
  shows "\<exists>f'. append_index ops f m = Some f' \<and> stack_ok content f' \<and> same_device f f' \<and>
    (\<forall>hdr R. logged content hdr f R \<and> valid m \<longrightarrow> logged content hdr f' (R @ [m]))"
proof (cases "m_findex f")
  case None
  then show ?thesis using assms(2) by (simp add: append_index_def same_device_def logged_def)
next
  case (Some fi)
  then have ne: "0 < length (content fi)" using assms(2) by (simp add: stack_ok_def)
  show ?thesis
  proof (cases "m_stacked_mappings f = []")
    case True
    obtain fi' where fi': "append ops fi (mapping_bytes m) = (length (content fi), fi')" "content fi' = content fi @ mapping_bytes m"
      using append_complete [OF assms(1)] by metis
    have n: "nmapping f = 0" using True assms(2) by (simp add: stack_ok_def)
    let ?f = "f\<lparr>m_findex := Some fi'\<rparr>"
    have "logged content hdr ?f (R @ [m])" if "logged content hdr f R" "valid m" for hdr R
      using that Some fi'(2) n logged_appended [of content fi hdr _ "[m]" ?f fi' 0] by (auto simp: logged_def [of _ _ f])
    then show ?thesis using Some True ne fi' assms(2) by (simp add: append_index_def stack_ok_def same_device_def)
  next
    case False
    let ?f = "f\<lparr>m_stacked_mappings := (m_stacked_mappings f)[nmapping f := m], nmapping := nmapping f + 1\<rparr>"
    have room: "nmapping f < length (m_stacked_mappings f)" using assms(2) False by (auto simp: stack_ok_def)
    have step: "append_index ops f m = (if nmapping ?f = length (m_stacked_mappings ?f)
        then do { (ret, f) \<leftarrow> do_group_commit_mappings ops ?f; Some f } else Some ?f)"
      using Some False room by (simp add: append_index_def Let_def)
    have same: "same_device f ?f" by (simp add: same_device_def)
    have "logged content hdr ?f (R @ [m])" if "logged content hdr f R" "valid m" for hdr R
      using that room Some by (auto simp: logged_def take_Suc_conv_app_nth)
    note log = this
    show ?thesis
    proof (cases "nmapping ?f = length (m_stacked_mappings ?f)")
      case True
      obtain f' where "do_group_commit_mappings ops ?f = Some (0, f')" "stack_ok content f'" "same_device ?f f'"
          "\<forall>hdr R. logged content hdr ?f R \<longrightarrow> logged content hdr f' R"
        using group_commit_ok [OF assms(1), of ?f] True Some ne by auto
      then show ?thesis unfolding step using True same log by (simp add: same_device_def)
    next
      case False
      then show ?thesis unfolding step using room Some ne log by (simp add: stack_ok_def same_device_def)
    qed
  qed
qed

text \<open>The invariant of a writable device: the data file ends at a sector, and every mapping into it lies in the file.\<close>

definition rw_content :: "('f \<Rightarrow> byte list) \<Rightarrow> 'f lsmt_file \<Rightarrow> byte list" where
  "rw_content content f = content (m_files f ! m_rw_tag f)"

definition dev_inv :: "('f \<Rightarrow> byte list) \<Rightarrow> 'f lsmt_file \<Rightarrow> bool" where
  "dev_inv content f \<longleftrightarrow> device_ok f \<and> writable (m_index f) \<and> m_rw_tag f < length (m_files f) \<and> m_rw_tag f < 2 ^ 8 \<and>
     stack_ok content f \<and> is_aligned (length (rw_content content f)) \<and> 0 < length (rw_content content f) \<and>
     (\<forall>x mo. mi_img (m_index f) x = Some (m_rw_tag f, Some mo) \<longrightarrow> (mo + 1) * ALIGNMENT \<le> length (rw_content content f))"

text \<open>The index log describes the writable layer: the last record for a sector says where its data is, up to the tag.  Every record points
  into the data file behind its header.\<close>

definition rec_ok :: "nat \<Rightarrow> segment_mapping \<Rightarrow> bool" where
  "rec_ok len m \<longleftrightarrow> map_ok m \<and> seg_end m < 2 ^ 50 \<and> valid m \<and> SPACE div ALIGNMENT \<le> moffset m \<and> mend m * ALIGNMENT \<le> len"

definition log_inv :: "('f \<Rightarrow> byte list) \<Rightarrow> byte list \<Rightarrow> 'f lsmt_file \<Rightarrow> bool" where
  "log_inv content hdr f \<longleftrightarrow> SPACE \<le> length (rw_content content f) \<and> (\<exists>R. logged content hdr f R \<and>
     (\<forall>m\<in>set R. rec_ok (length (rw_content content f)) m) \<and>
     (\<forall>x. map_option snd (img (front_map (m_index f)) x) = map_option snd (img (rev R) x)))"

text \<open>Storing bytes into an array of sectors.\<close>

definition overwrite :: "(nat \<Rightarrow> byte list) \<Rightarrow> nat \<Rightarrow> byte list \<Rightarrow> nat \<Rightarrow> byte list" where
  "overwrite d a bs x = (if a \<le> x \<and> x < a + length bs div ALIGNMENT then take ALIGNMENT (drop ((x - a) * ALIGNMENT) bs) else d x)"

lemma byte_at_append: "byte_at (d @ bs) i = (if i < length d then byte_at d i else byte_at bs (i - length d))"
  by (auto simp: byte_at_def nth_append)

lemma sector_append_old:
  "(mo + 1) * ALIGNMENT \<le> length d \<Longrightarrow> map (byte_at (d @ bs)) [mo * ALIGNMENT..<(mo + 1) * ALIGNMENT] = map (byte_at d) [mo * ALIGNMENT..<(mo + 1) * ALIGNMENT]"
  by (auto simp: byte_at_append)

lemma sector_append_new:
  assumes "length d = k * ALIGNMENT" "length bs = n * ALIGNMENT" "i < n"
  shows "map (byte_at (d @ bs)) [(k + i) * ALIGNMENT..<(k + i + 1) * ALIGNMENT] = take ALIGNMENT (drop (i * ALIGNMENT) bs)"
proof (rule nth_equalityI)
  have "(i + 1) * ALIGNMENT \<le> n * ALIGNMENT" using assms(3) by (intro mult_le_mono1) simp
  then have len: "i * ALIGNMENT + ALIGNMENT \<le> length bs" using assms(2) by simp
  then show "length (map (byte_at (d @ bs)) [(k + i) * ALIGNMENT..<(k + i + 1) * ALIGNMENT]) = length (take ALIGNMENT (drop (i * ALIGNMENT) bs))"
    by (simp add: distrib_right)
  fix j assume "j < length (map (byte_at (d @ bs)) [(k + i) * ALIGNMENT..<(k + i + 1) * ALIGNMENT])"
  then have j: "j < ALIGNMENT" by (simp add: distrib_right)
  have "i * ALIGNMENT + j < length bs" using j len by linarith
  then show "map (byte_at (d @ bs)) [(k + i) * ALIGNMENT..<(k + i + 1) * ALIGNMENT] ! j = take ALIGNMENT (drop (i * ALIGNMENT) bs) ! j"
    using j assms(1) by (simp add: distrib_right byte_at_def nth_append)
qed

text \<open>Inserting a mapping at the end of the data file changes the sectors of the mapping only.\<close>

lemma insert_disk:
  assumes inv: "dev_inv content f" and m: "map_ok m" "tag m = m_rw_tag f"
    and fl: "content file = rw_content content f @ bs" "is_aligned (length bs)"
    and place: "\<And>x. s_offset m \<le> x \<Longrightarrow> x < seg_end m \<Longrightarrow> \<not> zeroed m \<Longrightarrow> (moffset m + (x - s_offset m) + 1) * ALIGNMENT \<le> length (rw_content content f @ bs)"
  shows "\<exists>i'. mi_insert (m_index f) m = Some i' \<and>
    img (front_map i') = (\<lambda>x. case seg_at m x of None \<Rightarrow> img (front_map (m_index f)) x | Some p \<Rightarrow> Some p) \<and>
    (\<forall>f'. m_files f' = (m_files f)[m_rw_tag f := file] \<and> m_index f' = i' \<and> m_rw_tag f' = m_rw_tag f \<and> MAX_IO_SIZE f' = MAX_IO_SIZE f \<and>
       stack_ok content f' \<longrightarrow> dev_inv content f' \<and> rw_content content f' = rw_content content f @ bs \<and>
       disk content f' = (\<lambda>x. case seg_at m x of None \<Rightarrow> disk content f x | Some p \<Rightarrow> sector content (m_files f') (Some p)))"
proof -
  have f: "device_ok f" "mi_ok (m_index f)" "writable (m_index f)" "m_rw_tag f < length (m_files f)"
    using inv by (simp_all add: dev_inv_def device_ok_def)
  obtain i' where i': "mi_insert (m_index f) m = Some i'" "mi_ok i'" "writable i'"
      "mi_img i' = (\<lambda>x. case seg_at m x of None \<Rightarrow> mi_img (m_index f) x | Some p \<Rightarrow> Some p)"
      "img (front_map i') = (\<lambda>x. case seg_at m x of None \<Rightarrow> img (front_map (m_index f)) x | Some p \<Rightarrow> Some p)"
    using mi_insert_ok [OF f(2,3) m(1)] by blast
  have "dev_inv content f' \<and> rw_content content f' = rw_content content f @ bs \<and>
       disk content f' = (\<lambda>x. case seg_at m x of None \<Rightarrow> disk content f x | Some p \<Rightarrow> sector content (m_files f') (Some p))"
    if f': "m_files f' = (m_files f)[m_rw_tag f := file]" "m_index f' = i'" "m_rw_tag f' = m_rw_tag f" "MAX_IO_SIZE f' = MAX_IO_SIZE f"
      "stack_ok content f'" for f' :: "'a lsmt_file"
  proof (intro conjI ext)
    show rw: "rw_content content f' = rw_content content f @ bs"
      using f' f(4) fl(1) by (simp add: rw_content_def)
    have tags: "t < length (m_files f')" if "mi_img i' x = Some (t, Some mo)" for x t mo
      using that f(1,4) f'(1) m(2) by (auto simp: i'(4) device_ok_def seg_at_def split: option.splits if_splits)
    have inside: "(mo + 1) * ALIGNMENT \<le> length (rw_content content f')" if "mi_img i' x = Some (m_rw_tag f, Some mo)" for x mo
    proof (cases "seg_at m x")
      case None
      then have "(mo + 1) * ALIGNMENT \<le> length (rw_content content f)" using that inv by (auto simp: i'(4) dev_inv_def)
      then show ?thesis by (simp add: rw)
    next
      case (Some p)
      then show ?thesis using that place by (auto simp: i'(4) rw seg_at_def split: if_splits)
    qed
    show "dev_inv content f'"
      using inv f' i'(2,3) tags inside fl(2) rw by (auto simp: dev_inv_def device_ok_def is_aligned_def)
    show "disk content f' x = (case seg_at m x of None \<Rightarrow> disk content f x | Some p \<Rightarrow> sector content (m_files f') (Some p))" for x
    proof (cases "seg_at m x")
      case None
      have "sector content (m_files f') p = sector content (m_files f) p" if p: "mi_img (m_index f) x = p" for p
      proof (cases "\<exists>mo. p = Some (m_rw_tag f, Some mo)")
        case True
        then obtain mo where mo: "p = Some (m_rw_tag f, Some mo)" by blast
        have "(mo + 1) * ALIGNMENT \<le> length (rw_content content f)" using inv mo p by (auto simp: dev_inv_def)
        then show ?thesis
          using sector_append_old f' f(4) fl(1) by (simp add: mo sector_def rw_content_def)
      next
        case False
        then show ?thesis using f'(1) by (auto simp: sector_def nth_list_update split: option.split)
      qed
      then show ?thesis using None by (simp add: disk_def f'(2) i'(4))
    qed (simp add: disk_def f'(2) i'(4))
  qed
  then show ?thesis using i'(1,5) by blast
qed

lemma rec_ok_mono: "rec_ok len m \<Longrightarrow> len \<le> len' \<Longrightarrow> rec_ok len' m"
  by (simp add: rec_ok_def)

lemma log_inv_insert:
  assumes "log_inv content hdr f" "rec_ok (length (rw_content content f @ bs)) m" "rw_content content f' = rw_content content f @ bs"
    and "img (front_map (m_index f')) = (\<lambda>x. case seg_at m x of None \<Rightarrow> img (front_map (m_index f)) x | Some p \<Rightarrow> Some p)"
    and "\<And>R. logged content hdr f R \<Longrightarrow> valid m \<Longrightarrow> logged content hdr f' (R @ [m])"
  shows "log_inv content hdr f'"
proof -
  obtain R where R: "logged content hdr f R" "\<forall>m\<in>set R. rec_ok (length (rw_content content f)) m"
      "\<forall>x. map_option snd (img (front_map (m_index f)) x) = map_option snd (img (rev R) x)"
    using assms(1) unfolding log_inv_def by blast
  have "valid m" using assms(2) by (simp add: rec_ok_def)
  then have "logged content hdr f' (R @ [m])" by (rule assms(5) [OF R(1)])
  moreover have "\<forall>m'\<in>set (R @ [m]). rec_ok (length (rw_content content f')) m'"
    using R(2) assms(2,3) rec_ok_mono by auto
  moreover have "map_option snd (img (front_map (m_index f')) x) = map_option snd (img (rev (R @ [m])) x)" for x
    using R(3) by (simp add: assms(4) split: option.split)
  moreover have "SPACE \<le> length (rw_content content f')" using assms(1,3) by (simp add: log_inv_def)
  ultimately show ?thesis unfolding log_inv_def by blast
qed

lemma rw_sectors:
  assumes "dev_inv content f"
  obtains k where "length (rw_content content f) = k * ALIGNMENT" "0 < k"
proof
  have len: "length (rw_content content f) mod ALIGNMENT = 0" "0 < length (rw_content content f)"
    using assms by (simp_all add: dev_inv_def is_aligned_def)
  then show "length (rw_content content f) = length (rw_content content f) div ALIGNMENT * ALIGNMENT"
    by (metis add.right_neutral div_mult_mod_eq)
  then show "0 < length (rw_content content f) div ALIGNMENT" using len(2) by (metis mult_is_0 neq0_conv)
qed

lemma insert_and_log:
  assumes ops: "complete_files ops content" and inv: "dev_inv content f" and m: "map_ok m" "tag m = m_rw_tag f"
    and fl: "content nfile = rw_content content f @ bs" "is_aligned (length bs)"
    and place: "\<And>x. s_offset m \<le> x \<Longrightarrow> x < seg_end m \<Longrightarrow> \<not> zeroed m \<Longrightarrow> (moffset m + (x - s_offset m) + 1) * ALIGNMENT \<le> length (rw_content content f @ bs)"
  shows "\<exists>i'. mi_insert (m_index f) m = Some i' \<and>
    (\<forall>g. m_files g = (m_files f)[m_rw_tag f := nfile] \<and> m_index g = i' \<and> m_rw_tag g = m_rw_tag f \<and> MAX_IO_SIZE g = MAX_IO_SIZE f \<and>
       m_findex g = m_findex f \<and> m_stacked_mappings g = m_stacked_mappings f \<and> nmapping g = nmapping f \<longrightarrow>
       (\<exists>f'. append_index ops g m = Some f' \<and> dev_inv content f' \<and> rw_content content f' = rw_content content f @ bs \<and>
          m_files f' = (m_files f)[m_rw_tag f := nfile] \<and> MAX_IO_SIZE f' = MAX_IO_SIZE f \<and>
          (rec_ok (length (rw_content content f @ bs)) m \<longrightarrow> (\<forall>hdr. log_inv content hdr f \<longrightarrow> log_inv content hdr f')) \<and>
          disk content f' = (\<lambda>x. case seg_at m x of None \<Rightarrow> disk content f x | Some p \<Rightarrow> sector content (m_files f') (Some p))))"
proof -
  obtain i' where i': "mi_insert (m_index f) m = Some i'"
    "img (front_map i') = (\<lambda>x. case seg_at m x of None \<Rightarrow> img (front_map (m_index f)) x | Some p \<Rightarrow> Some p)"
    "\<And>f'. m_files f' = (m_files f)[m_rw_tag f := nfile] \<Longrightarrow> m_index f' = i' \<Longrightarrow> m_rw_tag f' = m_rw_tag f \<Longrightarrow> MAX_IO_SIZE f' = MAX_IO_SIZE f \<Longrightarrow>
       stack_ok content f' \<Longrightarrow> dev_inv content f' \<and> rw_content content f' = rw_content content f @ bs \<and>
       disk content f' = (\<lambda>x. case seg_at m x of None \<Rightarrow> disk content f x | Some p \<Rightarrow> sector content (m_files f') (Some p))"
    using insert_disk [OF inv m fl place] by blast
  have "\<exists>f'. append_index ops g m = Some f' \<and> dev_inv content f' \<and> rw_content content f' = rw_content content f @ bs \<and>
          m_files f' = (m_files f)[m_rw_tag f := nfile] \<and> MAX_IO_SIZE f' = MAX_IO_SIZE f \<and>
          (rec_ok (length (rw_content content f @ bs)) m \<longrightarrow> (\<forall>hdr. log_inv content hdr f \<longrightarrow> log_inv content hdr f')) \<and>
          disk content f' = (\<lambda>x. case seg_at m x of None \<Rightarrow> disk content f x | Some p \<Rightarrow> sector content (m_files f') (Some p))"
    if g: "m_files g = (m_files f)[m_rw_tag f := nfile]" "m_index g = i'" "m_rw_tag g = m_rw_tag f" "MAX_IO_SIZE g = MAX_IO_SIZE f"
       "m_findex g = m_findex f" "m_stacked_mappings g = m_stacked_mappings f" "nmapping g = nmapping f" for g :: "'a lsmt_file"
  proof -
    have "stack_ok content g" using inv g by (simp add: dev_inv_def stack_ok_def)
    then obtain f' where f': "append_index ops g m = Some f'" "stack_ok content f'" "same_device g f'"
        "\<forall>hdr R. logged content hdr g R \<and> valid m \<longrightarrow> logged content hdr f' (R @ [m])"
      using append_index_ok [OF ops] by blast
    have "logged content hdr f R \<longleftrightarrow> logged content hdr g R" for hdr R using g by (simp add: logged_def)
    then have "log_inv content hdr f'" if "log_inv content hdr f" "rec_ok (length (rw_content content f @ bs)) m" for hdr
      using f'(3,4) i'(2) i'(3) [of f'] f'(2) g log_inv_insert [OF that, of f'] by (simp add: same_device_def)
    then show ?thesis using i'(3) [of f'] f' g by (simp add: same_device_def)
  qed
  then show ?thesis using i'(1) by blast
qed

lemma pwrite_segment_ok:
  assumes ops: "complete_files ops content" and inv: "dev_inv content f"
    and bs: "length bs = n * ALIGNMENT" "0 < n" "n < 2 ^ 14" and a: "a + n < 2 ^ 50"
    and len: "length (rw_content content f) + length bs < 2 ^ 63"
  shows "\<exists>f'. pwrite_segment ops f bs (a * ALIGNMENT) = Some (int (length bs), f') \<and> dev_inv content f' \<and>
    disk content f' = overwrite (disk content f) a bs \<and> rw_content content f' = rw_content content f @ bs \<and> MAX_IO_SIZE f' = MAX_IO_SIZE f \<and>
    (\<forall>hdr. log_inv content hdr f \<longrightarrow> log_inv content hdr f')"
proof -
  obtain k where k: "length (rw_content content f) = k * ALIGNMENT" "0 < k" using rw_sectors [OF inv] .
  define m where "m = \<lparr>s_offset = a, s_length = n, moffset = k, zeroed = False, tag = m_rw_tag f\<rparr>"
  have rw: "m_rw_tag f < length (m_files f)" "m_rw_tag f < 2 ^ 8" using inv by (simp_all add: dev_inv_def)
  have "(k + n) * ALIGNMENT < 2 ^ 63" using len bs(1) k(1) by (simp only: distrib_right)
  then have kn: "k + n < 2 ^ 55" by (simp add: ALIGNMENT_def)
  have m: "map_ok m" "tag m = m_rw_tag f" "seg_end m = a + n" using bs(2,3) a kn rw(2) by (simp_all add: m_def map_ok_def seg_end_def mend_def)
  obtain nfile where fl: "append ops (m_files f ! m_rw_tag f) bs = (k * ALIGNMENT, nfile)" "content nfile = rw_content content f @ bs"
    using append_complete [OF ops, of "m_files f ! m_rw_tag f" bs] k(1) by (auto simp: rw_content_def)
  have "(k + (x - a) + 1) * ALIGNMENT \<le> (k + n) * ALIGNMENT" if "a \<le> x" "x < a + n" for x
    using that by (intro mult_le_mono1) linarith
  then have "(moffset m + (x - s_offset m) + 1) * ALIGNMENT \<le> length (rw_content content f @ bs)" if "s_offset m \<le> x" "x < seg_end m" for x
    using that m(3) k(1) bs(1) by (simp add: m_def distrib_right)
  moreover have "is_aligned (length bs)" using bs(1) by (simp add: is_aligned_def)
  ultimately obtain i' where i': "mi_insert (m_index f) m = Some i'"
    "\<And>g. m_files g = (m_files f)[m_rw_tag f := nfile] \<and> m_index g = i' \<and> m_rw_tag g = m_rw_tag f \<and> MAX_IO_SIZE g = MAX_IO_SIZE f \<and>
       m_findex g = m_findex f \<and> m_stacked_mappings g = m_stacked_mappings f \<and> nmapping g = nmapping f \<Longrightarrow>
       (\<exists>f'. append_index ops g m = Some f' \<and> dev_inv content f' \<and> rw_content content f' = rw_content content f @ bs \<and>
          m_files f' = (m_files f)[m_rw_tag f := nfile] \<and> MAX_IO_SIZE f' = MAX_IO_SIZE f \<and>
          (rec_ok (length (rw_content content f @ bs)) m \<longrightarrow> (\<forall>hdr. log_inv content hdr f \<longrightarrow> log_inv content hdr f')) \<and>
          disk content f' = (\<lambda>x. case seg_at m x of None \<Rightarrow> disk content f x | Some p \<Rightarrow> sector content (m_files f') (Some p)))"
    using insert_and_log [OF ops inv m(1,2) fl(2)] by blast
  let ?f = "f\<lparr>m_files := (m_files f)[m_rw_tag f := nfile], m_vsize := max (m_vsize f) (length bs + a * ALIGNMENT), m_data_offset := mend m, m_index := i'\<rparr>"
  obtain f' where f': "append_index ops ?f m = Some f'" "dev_inv content f'" "rw_content content f' = rw_content content f @ bs"
      "m_files f' = (m_files f)[m_rw_tag f := nfile]" "MAX_IO_SIZE f' = MAX_IO_SIZE f"
      "disk content f' = (\<lambda>x. case seg_at m x of None \<Rightarrow> disk content f x | Some p \<Rightarrow> sector content (m_files f') (Some p))"
      "rec_ok (length (rw_content content f @ bs)) m \<longrightarrow> (\<forall>hdr. log_inv content hdr f \<longrightarrow> log_inv content hdr f')"
    using i'(2) [of ?f] by auto
  have "rec_ok (length (rw_content content f @ bs)) m" if "log_inv content hdr f" for hdr
    using that m(1) k(1) bs(1,2) a by (simp add: rec_ok_def log_inv_def valid_def m_def mend_def seg_end_def INVALID_OFFSET_def MAX_OFFSET_def distrib_right
        SPACE_def ALIGNMENT_def)
  then have log: "\<forall>hdr. log_inv content hdr f \<longrightarrow> log_inv content hdr f'" using f'(7) by blast
  have new: "sector content (m_files f') (Some (m_rw_tag f, Some (k + i))) = take ALIGNMENT (drop (i * ALIGNMENT) bs)" if "i < n" for i
    using sector_append_new [OF k(1) bs(1) that] f'(4) rw(1) fl(2) by (simp add: sector_def)
  have "disk content f' x = overwrite (disk content f) a bs x" for x
    using new [of "x - a"] bs(1) by (auto simp: f'(6) overwrite_def seg_at_def m(3)) (auto simp: m_def)
  moreover have "length bs mod 2 ^ 32 div ALIGNMENT = n" using bs(1,3) by (simp add: ALIGNMENT_def)
  then have "pwrite_segment ops f bs (a * ALIGNMENT) = Some (int (length bs), f')"
    using rw(1) fl(1) k(2) bs(2,3) a kn i'(1) f'(1) by (simp add: pwrite_segment_def Let_def MAX_LENGTH_def m_def)
  ultimately show ?thesis using f'(2-5) log by (auto simp: fun_eq_iff)
qed

lemma overwrite_append:
  assumes "length bs = n * ALIGNMENT"
  shows "overwrite (overwrite d a bs) (a + n) bs' = overwrite d a (bs @ bs')"
proof
  fix x
  have "take ALIGNMENT (drop ((x - a) * ALIGNMENT) bs) = take ALIGNMENT (drop ((x - a) * ALIGNMENT) (bs @ bs'))" if "a \<le> x" "x < a + n"
  proof -
    have "(x - a + 1) * ALIGNMENT \<le> n * ALIGNMENT" using that by (intro mult_le_mono1) linarith
    then show ?thesis using assms by simp
  qed
  moreover have "drop ((x - (a + n)) * ALIGNMENT) bs' = drop ((x - a) * ALIGNMENT) (bs @ bs')" if "a + n \<le> x"
  proof -
    have "(x - a) * ALIGNMENT = length bs + (x - (a + n)) * ALIGNMENT" using that assms by (simp add: distrib_right [symmetric])
    then show ?thesis by simp
  qed
  ultimately show "overwrite (overwrite d a bs) (a + n) bs' x = overwrite d a (bs @ bs') x"
    using assms by (auto simp: overwrite_def)
qed

lemma device_max_io:
  assumes "device_ok f"
  obtains k where "MAX_IO_SIZE f = k * ALIGNMENT" "0 < k" "k < 2 ^ 14"
proof
  have d: "MAX_IO_SIZE f mod ALIGNMENT = 0" "0 < MAX_IO_SIZE f" "MAX_IO_SIZE f div ALIGNMENT < 2 ^ 14"
    using assms by (simp_all add: device_ok_def is_aligned_def)
  then show "MAX_IO_SIZE f = MAX_IO_SIZE f div ALIGNMENT * ALIGNMENT" by (metis add.right_neutral div_mult_mod_eq)
  then show "0 < MAX_IO_SIZE f div ALIGNMENT" using d(2) by (metis mult_is_0 neq0_conv)
  show "MAX_IO_SIZE f div ALIGNMENT < 2 ^ 14" by (rule d(3))
qed

lemma pwrite_loop_ok:
  assumes "complete_files ops content"
  shows "dev_inv content f \<Longrightarrow> length bs = n * ALIGNMENT \<Longrightarrow> 0 < n \<Longrightarrow> a + n < 2 ^ 50 \<Longrightarrow> length (rw_content content f) + length bs < 2 ^ 63 \<Longrightarrow>
    \<exists>f'. pwrite_loop ops f bytes bs (a * ALIGNMENT) = Some (int bytes, f') \<and> dev_inv content f' \<and>
    disk content f' = overwrite (disk content f) a bs \<and> rw_content content f' = rw_content content f @ bs \<and> (\<forall>hdr. log_inv content hdr f \<longrightarrow> log_inv content hdr f')"
proof (induction n arbitrary: f bs a rule: less_induct)
  case (less n)
  have "device_ok f" using less.prems(1) by (simp add: dev_inv_def)
  then obtain k where k: "MAX_IO_SIZE f = k * ALIGNMENT" "0 < k" "k < 2 ^ 14" by (rule device_max_io)
  show ?case
  proof (cases "n > k")
    case False
    obtain f' where f': "pwrite_segment ops f bs (a * ALIGNMENT) = Some (int (length bs), f')" "dev_inv content f'"
        "disk content f' = overwrite (disk content f) a bs" "rw_content content f' = rw_content content f @ bs"
        "\<forall>hdr. log_inv content hdr f \<longrightarrow> log_inv content hdr f'"
      using pwrite_segment_ok [OF assms less.prems(1,2,3) _ less.prems(4,5)] False k(3) by auto
    have "\<not> length bs > MAX_IO_SIZE f" using False k(1) less.prems(2) by simp
    then have "pwrite_loop ops f bytes bs (a * ALIGNMENT) = Some (int bytes, f')"
      by (subst pwrite_loop.simps) (simp add: f'(1))
    then show ?thesis using f'(2-5) by blast
  next
    case True
    define b1 b2 where "b1 = take (k * ALIGNMENT) bs" and "b2 = drop (k * ALIGNMENT) bs"
    have kn: "k * ALIGNMENT < n * ALIGNMENT" using True by (intro mult_strict_right_mono) simp_all
    have b: "bs = b1 @ b2" "length b1 = k * ALIGNMENT" "length b2 = (n - k) * ALIGNMENT"
      using less.prems(2) kn by (simp_all add: b1_def b2_def diff_mult_distrib)
    have "length (rw_content content f) + length b1 < 2 ^ 63" "a + k < 2 ^ 50" using less.prems(4,5) True b(1) by simp_all
    then obtain f1 where f1: "pwrite_segment ops f b1 (a * ALIGNMENT) = Some (int (length b1), f1)" "dev_inv content f1"
        "disk content f1 = overwrite (disk content f) a b1" "rw_content content f1 = rw_content content f @ b1"
        "\<forall>hdr. log_inv content hdr f \<longrightarrow> log_inv content hdr f1"
      using pwrite_segment_ok [OF assms less.prems(1) b(2) k(2,3)] by blast
    have small: "n - k < n" "0 < n - k" "a + k + (n - k) < 2 ^ 50" "length (rw_content content f1) + length b2 < 2 ^ 63"
      using True k(2) less.prems(4,5) b(1) f1(4) by auto
    obtain f2 where f2: "pwrite_loop ops f1 bytes b2 ((a + k) * ALIGNMENT) = Some (int bytes, f2)" "dev_inv content f2"
        "disk content f2 = overwrite (disk content f1) (a + k) b2" "rw_content content f2 = rw_content content f1 @ b2"
        "\<forall>hdr. log_inv content hdr f1 \<longrightarrow> log_inv content hdr f2"
      using less.IH [OF small(1) f1(2) b(3) small(2-4)] by blast
    have "pwrite_loop ops f bytes bs (a * ALIGNMENT) = pwrite_loop ops f1 bytes b2 ((a + k) * ALIGNMENT)"
      using kn less.prems(2) k f1(1) b(2) b1_def b2_def
      by (subst pwrite_loop.simps) (simp add: CHECK_ALIGNMENT_def is_aligned_def distrib_right)
    then show ?thesis
      using f2 f1(3-5) overwrite_append [OF b(2), of "disk content f" a b2] b(1) by auto
  qed
qed

lemma pwrite_ok:
  assumes "complete_files ops content" "dev_inv content f" "length bs = n * ALIGNMENT" "0 < n" "a + n < 2 ^ 50"
    and "length (rw_content content f) + length bs < 2 ^ 63"
  shows "\<exists>f'. pwrite ops f bs (a * ALIGNMENT) = Some (int (length bs), f') \<and> dev_inv content f' \<and>
    disk content f' = overwrite (disk content f) a bs \<and> rw_content content f' = rw_content content f @ bs \<and> (\<forall>hdr. log_inv content hdr f \<longrightarrow> log_inv content hdr f')"
  using pwrite_loop_ok [OF assms, of "length bs"] assms(3) by (simp add: pwrite_def CHECK_ALIGNMENT_def is_aligned_def)

text \<open>Discarding a range stores zeroes.\<close>

lemma overwrite_zero: "overwrite d a (replicate (n * ALIGNMENT) 0) x = (if a \<le> x \<and> x < a + n then replicate ALIGNMENT 0 else d x)"
proof -
  have "ALIGNMENT \<le> n * ALIGNMENT - (x - a) * ALIGNMENT" if "a \<le> x" "x < a + n"
  proof -
    have "(x - a + 1) * ALIGNMENT \<le> n * ALIGNMENT" using that by (intro mult_le_mono1) linarith
    then show ?thesis by simp
  qed
  then show ?thesis by (auto simp: overwrite_def min_absorb1)
qed

lemma discard_segment_ok:
  assumes ops: "complete_files ops content" and inv: "dev_inv content f" and n: "0 < n" "n < 2 ^ 14" and a: "a + n < 2 ^ 50"
    and len: "length (rw_content content f) < 2 ^ 63" and mode: "mode AND FALLOC_FL_PUNCH_HOLE \<noteq> 0" "mode AND FALLOC_FL_KEEP_SIZE \<noteq> 0"
  shows "\<exists>f'. fallocate_segment ops f mode (a * ALIGNMENT) (n * ALIGNMENT) = Some (0, f') \<and> dev_inv content f' \<and>
    disk content f' = overwrite (disk content f) a (replicate (n * ALIGNMENT) 0) \<and> rw_content content f' = rw_content content f \<and> (\<forall>hdr. log_inv content hdr f \<longrightarrow> log_inv content hdr f')"
proof -
  obtain k where k: "length (rw_content content f) = k * ALIGNMENT" "0 < k" using rw_sectors [OF inv] .
  define m where "m = \<lparr>s_offset = a, s_length = n, moffset = k, zeroed = True, tag = m_rw_tag f\<rparr>"
  have rw: "m_rw_tag f < length (m_files f)" "m_rw_tag f < 2 ^ 8" using inv by (simp_all add: dev_inv_def)
  have k55: "k < 2 ^ 55" using len k(1) by (simp add: ALIGNMENT_def)
  have m: "map_ok m" "tag m = m_rw_tag f" "seg_end m = a + n" using n a k55 rw(2) by (simp_all add: m_def map_ok_def seg_end_def mend_def)
  obtain nfile where fl: "fseek_end ops (m_files f ! m_rw_tag f) = (k * ALIGNMENT, nfile)" "content nfile = rw_content content f @ []"
    using seek_complete [OF ops, of "m_files f ! m_rw_tag f"] k(1) by (auto simp: rw_content_def)
  have "zeroed m" by (simp add: m_def)
  then obtain i' where i': "mi_insert (m_index f) m = Some i'"
    "\<And>g. m_files g = (m_files f)[m_rw_tag f := nfile] \<and> m_index g = i' \<and> m_rw_tag g = m_rw_tag f \<and> MAX_IO_SIZE g = MAX_IO_SIZE f \<and>
       m_findex g = m_findex f \<and> m_stacked_mappings g = m_stacked_mappings f \<and> nmapping g = nmapping f \<Longrightarrow>
       (\<exists>f'. append_index ops g m = Some f' \<and> dev_inv content f' \<and> rw_content content f' = rw_content content f @ [] \<and>
          m_files f' = (m_files f)[m_rw_tag f := nfile] \<and> MAX_IO_SIZE f' = MAX_IO_SIZE f \<and>
          (rec_ok (length (rw_content content f @ [])) m \<longrightarrow> (\<forall>hdr. log_inv content hdr f \<longrightarrow> log_inv content hdr f')) \<and>
          disk content f' = (\<lambda>x. case seg_at m x of None \<Rightarrow> disk content f x | Some p \<Rightarrow> sector content (m_files f') (Some p)))"
    using insert_and_log [OF ops inv m(1,2) fl(2)] by (simp add: is_aligned_def) blast
  let ?f = "f\<lparr>m_files := (m_files f)[m_rw_tag f := nfile], m_index := i'\<rparr>"
  obtain f' where f': "append_index ops ?f m = Some f'" "dev_inv content f'" "rw_content content f' = rw_content content f"
      "disk content f' = (\<lambda>x. case seg_at m x of None \<Rightarrow> disk content f x | Some p \<Rightarrow> sector content (m_files f') (Some p))"
      "rec_ok (length (rw_content content f)) m \<longrightarrow> (\<forall>hdr. log_inv content hdr f \<longrightarrow> log_inv content hdr f')"
    using i'(2) [of ?f] by auto
  have "rec_ok (length (rw_content content f)) m" if "log_inv content hdr f" for hdr
    using that m(1) k(1) n(1) a by (simp add: rec_ok_def log_inv_def valid_def m_def mend_def seg_end_def INVALID_OFFSET_def MAX_OFFSET_def SPACE_def ALIGNMENT_def)
  then have log: "\<forall>hdr. log_inv content hdr f \<longrightarrow> log_inv content hdr f'" using f'(5) by blast
  have "disk content f' x = overwrite (disk content f) a (replicate (n * ALIGNMENT) 0) x" for x
    by (auto simp: f'(4) overwrite_zero seg_at_def m(3) m_def sector_def seg_end_def)
  moreover have "n * ALIGNMENT mod 2 ^ 32 div ALIGNMENT = n" using n(2) by (simp add: ALIGNMENT_def)
  then have "fallocate_segment ops f mode (a * ALIGNMENT) (n * ALIGNMENT) = Some (0, f')"
    using rw(1) fl(1) n a k55 i'(1) f'(1) mode
    by (simp add: fallocate_segment_def file_discard_def Let_def m_def discard_def CHECK_ALIGNMENT_def is_aligned_def)
  ultimately show ?thesis using f'(2,3) log by (auto simp: fun_eq_iff)
qed

lemma fallocate_ok:
  assumes "complete_files ops content" "mode AND FALLOC_FL_PUNCH_HOLE \<noteq> 0" "mode AND FALLOC_FL_KEEP_SIZE \<noteq> 0"
  shows "dev_inv content f \<Longrightarrow> 0 < n \<Longrightarrow> a + n < 2 ^ 50 \<Longrightarrow> length (rw_content content f) < 2 ^ 63 \<Longrightarrow>
    \<exists>f'. fallocate ops f mode (a * ALIGNMENT) (n * ALIGNMENT) = Some (0, f') \<and> dev_inv content f' \<and>
    disk content f' = overwrite (disk content f) a (replicate (n * ALIGNMENT) 0) \<and> rw_content content f' = rw_content content f \<and> (\<forall>hdr. log_inv content hdr f \<longrightarrow> log_inv content hdr f')"
proof (induction n arbitrary: f a rule: less_induct)
  case (less n)
  show ?case
  proof (cases "n > MAX_LENGTH")
    case False
    then have "fallocate ops f mode (a * ALIGNMENT) (n * ALIGNMENT) = fallocate_segment ops f mode (a * ALIGNMENT) (n * ALIGNMENT)"
      by (subst fallocate.simps) (simp add: Let_def)
    then show ?thesis
      using discard_segment_ok [OF assms(1) less.prems(1,2) _ less.prems(3,4) assms(2,3)] False by (simp add: MAX_LENGTH_def)
  next
    case True
    have kn: "MAX_LENGTH * ALIGNMENT < n * ALIGNMENT" using True by (intro mult_strict_right_mono) simp_all
    have M: "0 < MAX_LENGTH" "MAX_LENGTH < 2 ^ 14" by (simp_all add: MAX_LENGTH_def)
    have "a + MAX_LENGTH < 2 ^ 50" using less.prems(3) True by simp
    then obtain f1 where f1: "fallocate_segment ops f mode (a * ALIGNMENT) (MAX_LENGTH * ALIGNMENT) = Some (0, f1)" "dev_inv content f1"
        "disk content f1 = overwrite (disk content f) a (replicate (MAX_LENGTH * ALIGNMENT) 0)" "rw_content content f1 = rw_content content f"
        "\<forall>hdr. log_inv content hdr f \<longrightarrow> log_inv content hdr f1"
      using discard_segment_ok [OF assms(1) less.prems(1) M _ less.prems(4) assms(2,3)] by blast
    have small: "n - MAX_LENGTH < n" "0 < n - MAX_LENGTH" "a + MAX_LENGTH + (n - MAX_LENGTH) < 2 ^ 50" "length (rw_content content f1) < 2 ^ 63"
      using True M(1) less.prems(3,4) f1(4) by auto
    obtain f2 where f2: "fallocate ops f1 mode ((a + MAX_LENGTH) * ALIGNMENT) ((n - MAX_LENGTH) * ALIGNMENT) = Some (0, f2)" "dev_inv content f2"
        "disk content f2 = overwrite (disk content f1) (a + MAX_LENGTH) (replicate ((n - MAX_LENGTH) * ALIGNMENT) 0)"
        "rw_content content f2 = rw_content content f1" "\<forall>hdr. log_inv content hdr f1 \<longrightarrow> log_inv content hdr f2"
      using less.IH [OF small(1) f1(2) small(2-4)] by blast
    have "fallocate ops f mode (a * ALIGNMENT) (n * ALIGNMENT) =
        fallocate ops f1 mode ((a + MAX_LENGTH) * ALIGNMENT) ((n - MAX_LENGTH) * ALIGNMENT)"
      using kn f1(1) by (subst fallocate.simps) (simp add: Let_def distrib_right diff_mult_distrib)
    moreover have "replicate (MAX_LENGTH * ALIGNMENT) 0 @ replicate ((n - MAX_LENGTH) * ALIGNMENT) 0 = replicate (n * ALIGNMENT) (0 :: byte)"
      using True by (simp add: replicate_add [symmetric] distrib_right [symmetric])
    ultimately show ?thesis
      using f2 f1(3-5) overwrite_append [of "replicate (MAX_LENGTH * ALIGNMENT) 0" MAX_LENGTH "disk content f" a] by auto
  qed
qed

subsection \<open>Sequences of operations\<close>

datatype dev_op = Write nat "byte list" | Discard nat nat | Sync

text \<open>The calls of the block layer, in bytes; a negative result ends the sequence.\<close>

fun dev_exec :: "'f ifile \<Rightarrow> 'f lsmt_file \<Rightarrow> dev_op \<Rightarrow> (int \<times> 'f lsmt_file) option" where
  "dev_exec ops f (Write a bs) = pwrite ops f bs (a * ALIGNMENT)"
| "dev_exec ops f (Discard a n) = fallocate ops f (FALLOC_FL_PUNCH_HOLE OR FALLOC_FL_KEEP_SIZE) (a * ALIGNMENT) (n * ALIGNMENT)"
| "dev_exec ops f Sync = fsync ops f"

fun dev_run :: "'f ifile \<Rightarrow> 'f lsmt_file \<Rightarrow> dev_op list \<Rightarrow> 'f lsmt_file option" where
  "dev_run ops f [] = Some f"
| "dev_run ops f (p # ps) = do { (ret, f) \<leftarrow> dev_exec ops f p; if ret < 0 then None else dev_run ops f ps }"

text \<open>The same operations on an array of sectors.\<close>

fun array_exec :: "(nat \<Rightarrow> byte list) \<Rightarrow> dev_op \<Rightarrow> nat \<Rightarrow> byte list" where
  "array_exec d (Write a bs) = overwrite d a bs"
| "array_exec d (Discard a n) = overwrite d a (replicate (n * ALIGNMENT) 0)"
| "array_exec d Sync = d"

fun op_ok :: "dev_op \<Rightarrow> bool" where
  "op_ok (Write a bs) \<longleftrightarrow> is_aligned (length bs) \<and> bs \<noteq> [] \<and> a + length bs div ALIGNMENT < 2 ^ 50"
| "op_ok (Discard a n) \<longleftrightarrow> 0 < n \<and> a + n < 2 ^ 50"
| "op_ok Sync \<longleftrightarrow> True"

fun op_bytes :: "dev_op \<Rightarrow> nat" where
  "op_bytes (Write a bs) = length bs"
| "op_bytes (Discard a n) = 0"
| "op_bytes Sync = 0"

lemma fsync_ok:
  assumes "complete_files ops content" "dev_inv content f"
  shows "\<exists>f'. fsync ops f = Some (0, f') \<and> dev_inv content f' \<and> disk content f' = disk content f \<and> rw_content content f' = rw_content content f \<and>
    nmapping f' = 0 \<and> (\<forall>hdr. log_inv content hdr f \<longrightarrow> log_inv content hdr f')"
proof -
  have st: "stack_ok content f" using assms(2) by (simp add: dev_inv_def)
  then obtain f' where f': "do_group_commit_mappings ops f = Some (0, f')" "stack_ok content f'" "same_device f f'" "nmapping f' = 0"
      "\<forall>hdr R. logged content hdr f R \<longrightarrow> logged content hdr f' R"
    using group_commit_ok [OF assms(1), of f] by (auto simp: stack_ok_def)
  have same: "m_files f' = m_files f" "m_index f' = m_index f" "m_rw_tag f' = m_rw_tag f" "MAX_IO_SIZE f' = MAX_IO_SIZE f"
    using f'(3) by (simp_all add: same_device_def)
  have "dev_inv content f'" using assms(2) f'(2) same by (simp add: dev_inv_def device_ok_def rw_content_def)
  moreover have "log_inv content hdr f'" if "log_inv content hdr f" for hdr
    using that f'(5) same by (auto simp: log_inv_def rw_content_def)
  ultimately show ?thesis using f'(1,4) same by (simp add: fsync_def disk_def fun_eq_iff rw_content_def)
qed

lemma dev_exec_ok:
  assumes "complete_files ops content" "dev_inv content f" "op_ok p" "length (rw_content content f) + op_bytes p < 2 ^ 63"
  shows "\<exists>ret f'. dev_exec ops f p = Some (ret, f') \<and> 0 \<le> ret \<and> dev_inv content f' \<and> disk content f' = array_exec (disk content f) p \<and>
    (\<exists>xs. rw_content content f' = rw_content content f @ xs \<and> length xs = op_bytes p) \<and> (\<forall>hdr. log_inv content hdr f \<longrightarrow> log_inv content hdr f')"
proof (cases p)
  case (Write a bs)
  have bs: "length bs = length bs div ALIGNMENT * ALIGNMENT" "0 < length bs div ALIGNMENT"
    using assms(3) Write mult_is_0 [of "length bs div ALIGNMENT" ALIGNMENT]
    by (auto simp: is_aligned_def mod_eq_0_iff_dvd intro!: Nat.gr0I)
  then show ?thesis using pwrite_ok [OF assms(1,2) bs, of a] assms(3,4) Write by auto
next
  case (Discard a n)
  have mode: "(FALLOC_FL_PUNCH_HOLE OR FALLOC_FL_KEEP_SIZE) AND FALLOC_FL_PUNCH_HOLE \<noteq> 0"
      "(FALLOC_FL_PUNCH_HOLE OR FALLOC_FL_KEEP_SIZE) AND FALLOC_FL_KEEP_SIZE \<noteq> 0"
    by (simp_all add: FALLOC_FL_PUNCH_HOLE_def FALLOC_FL_KEEP_SIZE_def)
  have "length (rw_content content f) < 2 ^ 63" "0 < n" "a + n < 2 ^ 50" using assms(3,4) Discard by simp_all
  then show ?thesis using fallocate_ok [OF assms(1) mode assms(2), of n a] Discard by auto
next
  case Sync
  then show ?thesis using fsync_ok [OF assms(1,2)] by auto
qed

lemma dev_run_ok:
  assumes "complete_files ops content"
  shows "dev_inv content f \<Longrightarrow> list_all op_ok ps \<Longrightarrow> length (rw_content content f) + sum_list (map op_bytes ps) < 2 ^ 63 \<Longrightarrow>
    \<exists>f'. dev_run ops f ps = Some f' \<and> dev_inv content f' \<and> disk content f' = foldl array_exec (disk content f) ps \<and>
      (\<exists>xs. rw_content content f' = rw_content content f @ xs \<and> length xs = sum_list (map op_bytes ps)) \<and> (\<forall>hdr. log_inv content hdr f \<longrightarrow> log_inv content hdr f')"
proof (induction ps arbitrary: f)
  case (Cons p ps)
  have "op_ok p" "length (rw_content content f) + op_bytes p < 2 ^ 63" using Cons.prems(2,3) by simp_all
  then obtain ret f1 xs where f1: "dev_exec ops f p = Some (ret, f1)" "0 \<le> ret" "dev_inv content f1" "disk content f1 = array_exec (disk content f) p"
      "rw_content content f1 = rw_content content f @ xs" "length xs = op_bytes p" "\<forall>hdr. log_inv content hdr f \<longrightarrow> log_inv content hdr f1"
    using dev_exec_ok [OF assms Cons.prems(1)] by blast
  then show ?case using Cons.IH [OF f1(3)] Cons.prems(2,3) by auto
qed auto

subsection \<open>Properties\<close>

text \<open>C1. The layered device is an array of sectors.  From a state that satisfies the invariant, every sequence of writes, discards and syncs
  succeeds, and a read of any range afterwards returns the bytes that the same writes and discards leave in an array that held the
  content of the layers; the rest of the buffer is not touched.\<close>

theorem device_refines_array:
  assumes "complete_files ops content" "dev_inv content f" "list_all op_ok ps"
    and "length (rw_content content f) + sum_list (map op_bytes ps) < 2 ^ 63" "b + n < 2 ^ 50" "n * ALIGNMENT \<le> length buf"
  shows "\<exists>f'. dev_run ops f ps = Some f' \<and> dev_inv content f' \<and>
    pread ops f' buf (n * ALIGNMENT) (b * ALIGNMENT) =
      Some (int (n * ALIGNMENT), extent (foldl array_exec (disk content f) ps) b (b + n) @ drop (n * ALIGNMENT) buf)"
proof -
  obtain f' where f': "dev_run ops f ps = Some f'" "dev_inv content f'" "disk content f' = foldl array_exec (disk content f) ps"
    using dev_run_ok [OF assms(1-4)] by blast
  have "reads_content ops content" "device_ok f'" using assms(1) f'(2) by (simp_all add: complete_files_def dev_inv_def)
  then show ?thesis using pread_ok [OF _ _ assms(5,6), of ops content f'] f' by auto
qed

text \<open>A device over two files in memory: a data file with a header, and an index file.\<close>

definition mem_device :: "byte list lsmt_file" where
  "mem_device = \<lparr>m_files = [replicate 4096 0], m_index = MI_Index0 Index0_empty, m_vsize = 0, MAX_IO_SIZE = 4 * 1024 * 1024, m_rw_tag = 0,
     m_data_offset = 8, m_findex = Some (replicate 4096 0), m_stacked_mappings = [], nmapping = 0\<rparr>"

lemma mem_device_ok: "complete_files mem_ops id" "dev_inv id mem_device"
  by (simp_all add: mem_ops_complete dev_inv_def device_ok_def mem_device_def Index0_empty_def
      writable_def stack_ok_def is_aligned_def ALIGNMENT_def rw_content_def)

lemma device_refines_array_witness:
  "\<exists>f'. dev_run mem_ops mem_device [Write 10 (replicate 1024 7), Discard 11 1, Sync] = Some f' \<and>
     pread mem_ops f' (replicate 512 9) 512 (10 * 512) = Some (512, replicate 512 7)"
proof -
  let ?ps = "[Write 10 (replicate 1024 7), Discard 11 1, Sync]"
  have hyps: "list_all op_ok ?ps" "length (rw_content id mem_device) + sum_list (map op_bytes ?ps) < 2 ^ 63" "10 + 1 < (2::nat) ^ 50"
      "1 * ALIGNMENT \<le> length (replicate 512 (9 :: byte))"
    by (simp_all add: is_aligned_def ALIGNMENT_def rw_content_def mem_device_def)
  obtain f' where f': "dev_run mem_ops mem_device ?ps = Some f'"
      "pread mem_ops f' (replicate 512 9) (1 * ALIGNMENT) (10 * ALIGNMENT) =
        Some (int (1 * ALIGNMENT), extent (foldl array_exec (disk id mem_device) ?ps) 10 (10 + 1) @ drop (1 * ALIGNMENT) (replicate 512 9))"
    using device_refines_array [OF mem_device_ok hyps] by blast
  have "extent (foldl array_exec (disk id mem_device) ?ps) 10 (10 + 1) = replicate 512 7"
    by (simp add: extent_def overwrite_def ALIGNMENT_def)
  then show ?thesis using f' by (auto simp: ALIGNMENT_def)
qed

subsection \<open>Writes that fail\<close>

text \<open>A write of one piece on files that may take only a part of the data; without a group commit the result of the write to the index file is not
  looked at.\<close>

lemma append_cases:
  assumes "appends_content ops content"
  shows "\<exists>ret nfile. content nfile = content file @ take (nat ret) bs \<and> ret \<le> int (length bs) \<and>
    append ops file bs = (if ret < int (length bs) then 0 else length (content file), nfile)"
proof -
  obtain file1 where f1: "fseek_end ops file = (length (content file), file1)" "content file1 = content file" "ftell ops file1 = length (content file1)"
    using seek_end_ok [OF assms] by blast
  obtain ret nfile where "fwrite ops file1 bs = (ret, nfile)" "ret \<le> int (length bs)" "content nfile = content file1 @ take (nat ret) bs"
    using write_at_end [OF assms f1(3)] by blast
  then show ?thesis using f1 by (intro exI [of _ ret] exI [of _ nfile]) (simp add: append_def)
qed

lemma append_index_any:
  assumes "appends_content ops content" "stack_ok content f" "m_stacked_mappings f = []"
  shows "\<exists>f'. append_index ops f m = Some f' \<and> same_device f f' \<and> stack_ok content f' \<and> m_stacked_mappings f' = []"
proof (cases "m_findex f")
  case (Some fi)
  obtain ret nfile where n: "content nfile = content fi @ take (nat ret) (mapping_bytes m)"
    "append ops fi (mapping_bytes m) = (if ret < int (length (mapping_bytes m)) then 0 else length (content fi), nfile)"
    using append_cases [OF assms(1)] by blast
  then show ?thesis using assms(2,3) Some by (simp add: append_index_def same_device_def stack_ok_def)
qed (use assms in \<open>simp add: append_index_def same_device_def\<close>)

lemma short_append_disk:
  assumes inv: "dev_inv content f" and fl: "content nfile = rw_content content f @ cs"
  shows "disk content (f\<lparr>m_files := (m_files f)[m_rw_tag f := nfile]\<rparr>) = disk content f"
    "rw_content content (f\<lparr>m_files := (m_files f)[m_rw_tag f := nfile]\<rparr>) = rw_content content f @ cs"
proof -
  let ?f = "f\<lparr>m_files := (m_files f)[m_rw_tag f := nfile]\<rparr>"
  have rw: "m_rw_tag f < length (m_files f)" using inv by (simp add: dev_inv_def)
  show "rw_content content ?f = rw_content content f @ cs" using rw fl by (simp add: rw_content_def)
  have "disk content ?f x = disk content f x" for x
  proof (cases "\<exists>mo. mi_img (m_index f) x = Some (m_rw_tag f, Some mo)")
    case True
    then obtain mo where mo: "mi_img (m_index f) x = Some (m_rw_tag f, Some mo)" by blast
    then have "(mo + 1) * ALIGNMENT \<le> length (rw_content content f)" using inv by (auto simp: dev_inv_def)
    then show ?thesis using sector_append_old fl rw by (simp add: disk_def mo sector_def rw_content_def)
  next
    case False
    then show ?thesis by (auto simp: disk_def sector_def nth_list_update split: option.split)
  qed
  then show "disk content ?f = disk content f" by (simp add: fun_eq_iff)
qed

lemma pwrite_segment_any:
  assumes ops: "appends_content ops content" and inv: "dev_inv content f" and st: "m_stacked_mappings f = []"
    and bs: "length bs = n * ALIGNMENT" "0 < n" "n < 2 ^ 14" and a: "a + n < 2 ^ 50"
    and len: "length (rw_content content f) + length bs < 2 ^ 63"
  shows "\<exists>r f'. pwrite_segment ops f bs (a * ALIGNMENT) = Some (r, f') \<and>
    (r = int (length bs) \<and> dev_inv content f' \<and> m_stacked_mappings f' = [] \<and> MAX_IO_SIZE f' = MAX_IO_SIZE f \<and>
       disk content f' = overwrite (disk content f) a bs \<and> rw_content content f' = rw_content content f @ bs \<or>
     r = - 1 \<and> disk content f' = disk content f \<and> (\<exists>j<length bs. rw_content content f' = rw_content content f @ take j bs))"
proof -
  obtain k where k: "length (rw_content content f) = k * ALIGNMENT" "0 < k" using rw_sectors [OF inv] .
  have rw: "m_rw_tag f < length (m_files f)" "m_rw_tag f < 2 ^ 8" using inv by (simp_all add: dev_inv_def)
  obtain ret nfile where ap: "content nfile = rw_content content f @ take (nat ret) bs" "ret \<le> int (length bs)"
    "append ops (m_files f ! m_rw_tag f) bs = (if ret < int (length bs) then 0 else k * ALIGNMENT, nfile)"
    using append_cases [OF ops, of "m_files f ! m_rw_tag f" bs] k(1) by (auto simp: rw_content_def)
  show ?thesis
  proof (cases "ret < int (length bs)")
    case True
    let ?f = "f\<lparr>m_files := (m_files f)[m_rw_tag f := nfile]\<rparr>"
    have "pwrite_segment ops f bs (a * ALIGNMENT) = Some (- 1, ?f)" using rw ap(3) True by (simp add: pwrite_segment_def Let_def)
    moreover have "nat ret < length bs" using True bs(1,2) by (cases "0 \<le> ret") (auto simp: ALIGNMENT_def)
    ultimately show ?thesis using short_append_disk [OF inv ap(1)] by (intro exI [of _ "- 1"] exI [of _ ?f]) auto
  next
    case False
    then have fl: "content nfile = rw_content content f @ bs" "append ops (m_files f ! m_rw_tag f) bs = (k * ALIGNMENT, nfile)" using ap by simp_all
    define m where "m = \<lparr>s_offset = a, s_length = n, moffset = k, zeroed = False, tag = m_rw_tag f\<rparr>"
    have "(k + n) * ALIGNMENT < 2 ^ 63" using len bs(1) k(1) by (simp only: distrib_right)
    then have kn: "k + n < 2 ^ 55" by (simp add: ALIGNMENT_def)
    have m: "map_ok m" "tag m = m_rw_tag f" "seg_end m = a + n" using bs(2,3) a kn rw(2) by (simp_all add: m_def map_ok_def seg_end_def mend_def)
    have "(k + (x - a) + 1) * ALIGNMENT \<le> (k + n) * ALIGNMENT" if "a \<le> x" "x < a + n" for x
      using that by (intro mult_le_mono1) linarith
    then have "(moffset m + (x - s_offset m) + 1) * ALIGNMENT \<le> length (rw_content content f @ bs)" if "s_offset m \<le> x" "x < seg_end m" for x
      using that m(3) k(1) bs(1) by (simp add: m_def distrib_right)
    moreover have "is_aligned (length bs)" using bs(1) by (simp add: is_aligned_def)
    ultimately obtain i' where i': "mi_insert (m_index f) m = Some i'"
      "\<And>f'. m_files f' = (m_files f)[m_rw_tag f := nfile] \<Longrightarrow> m_index f' = i' \<Longrightarrow> m_rw_tag f' = m_rw_tag f \<Longrightarrow> MAX_IO_SIZE f' = MAX_IO_SIZE f \<Longrightarrow>
         stack_ok content f' \<Longrightarrow> dev_inv content f' \<and> rw_content content f' = rw_content content f @ bs \<and>
         disk content f' = (\<lambda>x. case seg_at m x of None \<Rightarrow> disk content f x | Some p \<Rightarrow> sector content (m_files f') (Some p))"
      using insert_disk [OF inv m(1,2) fl(1)] by blast
    let ?f = "f\<lparr>m_files := (m_files f)[m_rw_tag f := nfile], m_vsize := max (m_vsize f) (length bs + a * ALIGNMENT), m_data_offset := mend m, m_index := i'\<rparr>"
    have "stack_ok content ?f" "m_stacked_mappings ?f = []" using inv st by (simp_all add: dev_inv_def stack_ok_def)
    then obtain f' where f': "append_index ops ?f m = Some f'" "same_device ?f f'" "stack_ok content f'" "m_stacked_mappings f' = []"
      using append_index_any [OF ops] by blast
    have d: "dev_inv content f'" "rw_content content f' = rw_content content f @ bs" "m_files f' = (m_files f)[m_rw_tag f := nfile]" "MAX_IO_SIZE f' = MAX_IO_SIZE f"
      "disk content f' = (\<lambda>x. case seg_at m x of None \<Rightarrow> disk content f x | Some p \<Rightarrow> sector content (m_files f') (Some p))"
      using i'(2) [of f'] f'(2,3) by (auto simp: same_device_def)
    have new: "sector content (m_files f') (Some (m_rw_tag f, Some (k + i))) = take ALIGNMENT (drop (i * ALIGNMENT) bs)" if "i < n" for i
      using sector_append_new [OF k(1) bs(1) that] d(3) rw(1) fl(1) by (simp add: sector_def)
    have "disk content f' x = overwrite (disk content f) a bs x" for x
      using new [of "x - a"] bs(1) by (auto simp: d(5) overwrite_def seg_at_def m(3)) (auto simp: m_def)
    moreover have "length bs mod 2 ^ 32 div ALIGNMENT = n" using bs(1,3) by (simp add: ALIGNMENT_def)
    then have "pwrite_segment ops f bs (a * ALIGNMENT) = Some (int (length bs), f')"
      using rw(1) fl(2) k(2) bs(2,3) a kn i'(1) f'(1) by (simp add: pwrite_segment_def Let_def MAX_LENGTH_def m_def)
    ultimately show ?thesis using d f'(4) by (intro exI [of _ "int (length bs)"] exI [of _ f']) (simp add: fun_eq_iff)
  qed
qed

lemma overwrite_nil [simp]: "overwrite d a [] = d"
  by (auto simp: overwrite_def fun_eq_iff)

text \<open>What a write of \<open>n\<close> sectors leaves behind: all of it, or the first \<open>k\<close> sectors, which are the pieces before the one that failed.\<close>

definition wrote :: "('f \<Rightarrow> byte list) \<Rightarrow> 'f lsmt_file \<Rightarrow> 'f lsmt_file \<Rightarrow> nat \<Rightarrow> byte list \<Rightarrow> bool \<Rightarrow> nat \<Rightarrow> bool" where
  "wrote content f f' a bs success k \<longleftrightarrow> k * ALIGNMENT \<le> length bs \<and> disk content f' = overwrite (disk content f) a (take (k * ALIGNMENT) bs) \<and>
     (if success then k * ALIGNMENT = length bs \<and> dev_inv content f' \<and> rw_content content f' = rw_content content f @ bs
      else k * ALIGNMENT < length bs \<and> k * ALIGNMENT mod MAX_IO_SIZE f = 0 \<and>
        (\<exists>j<length bs. k * ALIGNMENT \<le> j \<and> rw_content content f' = rw_content content f @ take j bs))"

lemma pwrite_loop_any:
  assumes "appends_content ops content"
  shows "dev_inv content f \<Longrightarrow> m_stacked_mappings f = [] \<Longrightarrow> length bs = n * ALIGNMENT \<Longrightarrow> 0 < n \<Longrightarrow> a + n < 2 ^ 50 \<Longrightarrow>
    length (rw_content content f) + length bs < 2 ^ 63 \<Longrightarrow>
    \<exists>r f' k. pwrite_loop ops f bytes bs (a * ALIGNMENT) = Some (r, f') \<and> (r = int bytes \<and> wrote content f f' a bs True k \<or> r = - 1 \<and> wrote content f f' a bs False k)"
proof (induction n arbitrary: f bs a rule: less_induct)
  case (less n)
  have "device_ok f" using less.prems(1) by (simp add: dev_inv_def)
  then obtain k where k: "MAX_IO_SIZE f = k * ALIGNMENT" "0 < k" "k < 2 ^ 14" by (rule device_max_io)
  show ?case
  proof (cases "n > k")
    case False
    then have "n < 2 ^ 14" using k(3) by simp
    then obtain r f' where f': "pwrite_segment ops f bs (a * ALIGNMENT) = Some (r, f')"
      "r = int (length bs) \<and> dev_inv content f' \<and> disk content f' = overwrite (disk content f) a bs \<and> rw_content content f' = rw_content content f @ bs \<or>
       r = - 1 \<and> disk content f' = disk content f \<and> (\<exists>j<length bs. rw_content content f' = rw_content content f @ take j bs)"
      using pwrite_segment_any [OF assms less.prems(1,2,3,4) _ less.prems(5,6)] by blast
    have "\<not> length bs > MAX_IO_SIZE f" using False k(1) less.prems(3) by simp
    then have run: "pwrite_loop ops f bytes bs (a * ALIGNMENT) = Some (if r < 0 then r else int bytes, f')"
      by (subst pwrite_loop.simps) (simp add: f'(1))
    from f'(2) show ?thesis
    proof
      assume "r = int (length bs) \<and> dev_inv content f' \<and> disk content f' = overwrite (disk content f) a bs \<and> rw_content content f' = rw_content content f @ bs"
      moreover from this have "\<not> r < 0" using of_nat_0_le_iff [of "length bs", where ?'a = int] by linarith
      ultimately have "wrote content f f' a bs True n" "\<not> r < 0" using less.prems(3) by (simp_all add: wrote_def)
      then show ?thesis using run by auto
    next
      assume s: "r = - 1 \<and> disk content f' = disk content f \<and> (\<exists>j<length bs. rw_content content f' = rw_content content f @ take j bs)"
      then have "wrote content f f' a bs False 0" using less.prems(3,4) by (auto simp: wrote_def ALIGNMENT_def)
      then show ?thesis using run s by auto
    qed
  next
    case True
    define b1 b2 where "b1 = take (k * ALIGNMENT) bs" and "b2 = drop (k * ALIGNMENT) bs"
    have kn: "k * ALIGNMENT < n * ALIGNMENT" using True by (intro mult_strict_right_mono) simp_all
    have b: "bs = b1 @ b2" "length b1 = k * ALIGNMENT" "length b2 = (n - k) * ALIGNMENT"
      using less.prems(3) kn by (simp_all add: b1_def b2_def diff_mult_distrib)
    have "length (rw_content content f) + length b1 < 2 ^ 63" "a + k < 2 ^ 50" using less.prems(5,6) True b(1) by simp_all
    then obtain r f1 where f1: "pwrite_segment ops f b1 (a * ALIGNMENT) = Some (r, f1)"
      "r = int (length b1) \<and> dev_inv content f1 \<and> m_stacked_mappings f1 = [] \<and> MAX_IO_SIZE f1 = MAX_IO_SIZE f \<and>
         disk content f1 = overwrite (disk content f) a b1 \<and> rw_content content f1 = rw_content content f @ b1 \<or>
       r = - 1 \<and> disk content f1 = disk content f \<and> (\<exists>j<length b1. rw_content content f1 = rw_content content f @ take j b1)"
      using pwrite_segment_any [OF assms less.prems(1,2) b(2) k(2,3)] by blast
    have run: "pwrite_loop ops f bytes bs (a * ALIGNMENT) =
        (if r < int (k * ALIGNMENT) then Some (- 1, f1) else pwrite_loop ops f1 bytes b2 ((a + k) * ALIGNMENT))"
      using kn less.prems(3) k f1(1) b1_def b2_def
      by (subst pwrite_loop.simps) (simp add: CHECK_ALIGNMENT_def is_aligned_def distrib_right)
    from f1(2) show ?thesis
    proof
      assume s: "r = - 1 \<and> disk content f1 = disk content f \<and> (\<exists>j<length b1. rw_content content f1 = rw_content content f @ take j b1)"
      then obtain j where j: "j < length b1" "rw_content content f1 = rw_content content f @ take j b1" by blast
      then have "rw_content content f1 = rw_content content f @ take j bs" "j < length bs" using b(1) by simp_all
      then have "wrote content f f1 a bs False 0" using s less.prems(3,4) by (auto simp: wrote_def ALIGNMENT_def)
      moreover have "r < int (k * ALIGNMENT)" using s of_nat_0_le_iff [of "k * ALIGNMENT", where ?'a = int] by linarith
      ultimately show ?thesis using run by auto
    next
      assume s: "r = int (length b1) \<and> dev_inv content f1 \<and> m_stacked_mappings f1 = [] \<and> MAX_IO_SIZE f1 = MAX_IO_SIZE f \<and>
         disk content f1 = overwrite (disk content f) a b1 \<and> rw_content content f1 = rw_content content f @ b1"
      have small: "n - k < n" "0 < n - k" "a + k + (n - k) < 2 ^ 50" "length (rw_content content f1) + length b2 < 2 ^ 63"
        using True k(2) less.prems(5,6) b(1) s by auto
      obtain r2 f2 i where f2: "pwrite_loop ops f1 bytes b2 ((a + k) * ALIGNMENT) = Some (r2, f2)"
        "r2 = int bytes \<and> wrote content f1 f2 (a + k) b2 True i \<or> r2 = - 1 \<and> wrote content f1 f2 (a + k) b2 False i"
        using less.IH [OF small(1) _ _ b(3) small(2-4)] s by blast
      have t: "take ((k + i) * ALIGNMENT) bs = b1 @ take (i * ALIGNMENT) b2" unfolding b(1) using b(2) by (simp add: distrib_right)
      have "wrote content f f2 a bs c (k + i)" if "wrote content f1 f2 (a + k) b2 c i" for c
      proof -
        note w = that [unfolded wrote_def]
        have "disk content f2 = overwrite (disk content f) a (take ((k + i) * ALIGNMENT) bs)"
          using w s overwrite_append [OF b(2), of "disk content f" a "take (i * ALIGNMENT) b2"] unfolding t by simp
        moreover have "(k + i) * ALIGNMENT mod MAX_IO_SIZE f = i * ALIGNMENT mod MAX_IO_SIZE f1" using s k(1) by (simp add: distrib_right)
        moreover have "\<exists>j<length bs. (k + i) * ALIGNMENT \<le> j \<and> rw_content content f2 = rw_content content f @ take j bs"
          if "\<exists>j<length b2. i * ALIGNMENT \<le> j \<and> rw_content content f2 = rw_content content f1 @ take j b2"
        proof -
          from that obtain j where "j < length b2" "i * ALIGNMENT \<le> j" "rw_content content f2 = rw_content content f1 @ take j b2" by blast
          then show ?thesis using s b(1,2) by (intro exI [of _ "length b1 + j"]) (simp add: distrib_right)
        qed
        ultimately show ?thesis using w s b(1,2) by (auto simp: wrote_def distrib_right)
      qed
      moreover have "\<not> r < int (k * ALIGNMENT)" using s b(2) by simp
      ultimately show ?thesis using run f2 by auto
    qed
  qed
qed

subsection \<open>Properties of writes that fail\<close>

text \<open>C40. The error paths of a write of any length, when the files may take only a part of what is written and there is no group commit.  A write that is
  not aligned is refused and changes nothing.  Otherwise the write returns the number of bytes and all of its sectors are written, or it
  returns -1: then the sectors of the pieces of \<open>MAX_IO_SIZE\<close> bytes before the one that failed are written and all other sectors keep their bytes, although the
  data file may have grown by a part of the piece that failed.  So a write of one piece that fails changes no sector.\<close>

theorem failed_write_keeps_disk:
  assumes "appends_content ops content" "dev_inv content f" "m_stacked_mappings f = []" "bs \<noteq> []"
    and "offset + length bs < 2 ^ 50 * ALIGNMENT" "length (rw_content content f) + length bs < 2 ^ 63"
  shows "if CHECK_ALIGNMENT (length bs) offset
    then \<exists>r f' k. pwrite ops f bs offset = Some (r, f') \<and>
      disk content f' = overwrite (disk content f) (offset div ALIGNMENT) (take (k * ALIGNMENT) bs) \<and>
      (r = int (length bs) \<and> k * ALIGNMENT = length bs \<and> rw_content content f' = rw_content content f @ bs \<or>
       r = - 1 \<and> k * ALIGNMENT < length bs \<and> k * ALIGNMENT mod MAX_IO_SIZE f = 0 \<and>
         (\<exists>j<length bs. k * ALIGNMENT \<le> j \<and> rw_content content f' = rw_content content f @ take j bs))
    else pwrite ops f bs offset = Some (- 1, f)"
proof (cases "CHECK_ALIGNMENT (length bs) offset")
  case True
  define a n where "a = offset div ALIGNMENT" and "n = length bs div ALIGNMENT"
  have an: "offset = a * ALIGNMENT" "length bs = n * ALIGNMENT" using True by (auto simp: CHECK_ALIGNMENT_def is_aligned_def a_def n_def)
  have "a + n < 2 ^ 50" using assms(5) by (simp add: an flip: distrib_right)
  moreover have "0 < n" using assms(4) an(2) by (cases n) simp_all
  ultimately obtain r f' k where "pwrite_loop ops f (length bs) bs (a * ALIGNMENT) = Some (r, f')"
    "r = int (length bs) \<and> wrote content f f' a bs True k \<or> r = - 1 \<and> wrote content f f' a bs False k"
    using pwrite_loop_any [OF assms(1-3) an(2) _ _ assms(6)] by blast
  then show ?thesis using True unfolding a_def [symmetric] by (simp add: pwrite_def an(1)) (auto simp: wrote_def)
qed (simp add: pwrite_def)

text \<open>Files that take only the first 100 bytes of a write.\<close>

definition full_ops :: "byte list ifile" where
  "full_ops = mem_ops\<lparr>fwrite := (\<lambda>f bs. (int (min 100 (length bs)), f @ take 100 bs))\<rparr>"

lemma failed_write_keeps_disk_witness:
  "\<exists>f'. pwrite full_ops mem_device (replicate 512 7) 0 = Some (-1, f') \<and> disk id f' = disk id mem_device"
proof -
  have ok: "appends_content full_ops id" "m_stacked_mappings mem_device = []" "replicate 512 (7 :: byte) \<noteq> []"
    by (auto simp: appends_content_def full_ops_def mem_ops_def min_def mem_device_def)
  let ?b = "replicate 512 7 :: byte list"
  have b: "0 + length ?b < 2 ^ 50 * ALIGNMENT" "length (rw_content id mem_device) + length ?b < 2 ^ 63" "CHECK_ALIGNMENT (length ?b) 0"
    by (simp_all add: ALIGNMENT_def rw_content_def mem_device_def CHECK_ALIGNMENT_def is_aligned_def)
  obtain r f' k where w: "pwrite full_ops mem_device ?b 0 = Some (r, f')" "disk id f' = overwrite (disk id mem_device) (0 div ALIGNMENT) (take (k * ALIGNMENT) ?b)"
    "r = int (length ?b) \<and> rw_content id f' = rw_content id mem_device @ ?b \<or> r = - 1 \<and> k * ALIGNMENT < length ?b"
    using failed_write_keeps_disk [OF ok(1) mem_device_ok(2) ok(2,3) b(1,2)] b(3) by auto
  have "\<exists>f'. pwrite_segment full_ops mem_device ?b 0 = Some (- 1, f')"
    by (simp add: pwrite_segment_def append_def full_ops_def mem_ops_def mem_device_def Let_def)
  moreover have "\<not> length ?b > MAX_IO_SIZE mem_device" by (simp add: mem_device_def)
  ultimately have "fst (the (pwrite full_ops mem_device ?b 0)) = - 1"
    using b(3) by (auto simp: pwrite_def pwrite_loop.simps [of full_ops mem_device])
  then have "r = - 1" using w(1) by simp
  moreover have "k = 0" using w(3) calculation by (auto simp: ALIGNMENT_def)
  ultimately show ?thesis using w(1,2) by auto
qed

text \<open>After such a failure the data file does not end at a sector, and \<open>append\<close> does not align it: the next write, although it is
  complete, makes its sectors start with the bytes that the failed write left.\<close>

lemma write_after_failure_misplaced:
  assumes ops: "complete_files ops content" and dev: "device_ok f" "writable (m_index f)" "m_rw_tag f < length (m_files f)" "m_rw_tag f < 2 ^ 8" "stack_ok content f"
    and len: "length (rw_content content f) = k * ALIGNMENT + r" "0 < k" "r < ALIGNMENT" "k < 2 ^ 54" and bs: "length bs = ALIGNMENT" and a: "a + 1 < 2 ^ 50"
  shows "\<exists>f'. pwrite_segment ops f bs (a * ALIGNMENT) = Some (int ALIGNMENT, f') \<and>
    disk content f' a = drop (k * ALIGNMENT) (rw_content content f) @ take (ALIGNMENT - r) bs"
proof -
  define m where "m = \<lparr>s_offset = a, s_length = 1, moffset = k, zeroed = False, tag = m_rw_tag f\<rparr>"
  have m: "map_ok m" using a len(4) dev(4) by (simp add: m_def map_ok_def seg_end_def mend_def)
  obtain nfile where fl: "append ops (m_files f ! m_rw_tag f) bs = (k * ALIGNMENT + r, nfile)" "content nfile = rw_content content f @ bs"
    using append_complete [OF ops, of "m_files f ! m_rw_tag f" bs] len(1) by (auto simp: rw_content_def)
  have "mi_ok (m_index f)" using dev(1) by (simp add: device_ok_def)
  then obtain i' where i': "mi_insert (m_index f) m = Some i'" "mi_img i' = (\<lambda>x. case seg_at m x of None \<Rightarrow> mi_img (m_index f) x | Some p \<Rightarrow> Some p)"
    using mi_insert_ok [OF _ dev(2) m] by blast
  let ?f = "f\<lparr>m_files := (m_files f)[m_rw_tag f := nfile], m_vsize := max (m_vsize f) (length bs + a * ALIGNMENT), m_data_offset := mend m, m_index := i'\<rparr>"
  have "stack_ok content ?f" using dev(5) by (simp add: stack_ok_def)
  then obtain f' where f': "append_index ops ?f m = Some f'" "same_device ?f f'" using append_index_ok [OF ops] by blast
  have "ALIGNMENT mod 2 ^ 32 div ALIGNMENT = 1" by (simp add: ALIGNMENT_def)
  then have run: "pwrite_segment ops f bs (a * ALIGNMENT) = Some (int ALIGNMENT, f')"
    using dev(3) fl(1) len bs a i'(1) f'(1) by (simp add: pwrite_segment_def Let_def MAX_LENGTH_def m_def)
  have "disk content f' a = map (byte_at (rw_content content f @ bs)) [k * ALIGNMENT..<(k + 1) * ALIGNMENT]"
    using f'(2) dev(3) fl(2) by (simp add: disk_def same_device_def i'(2) m_def seg_at_def seg_end_def sector_def)
  also have "\<dots> = drop (k * ALIGNMENT) (rw_content content f) @ take (ALIGNMENT - r) bs"
    using len bs by (intro nth_equalityI) (auto simp: byte_at_def nth_append)
  finally show ?thesis using run by blast
qed

text \<open>A group of index records that could not be written stays in the full buffer, and the record of the next insertion is stored behind its end.\<close>

lemma failed_group_commit_overflows:
  assumes "m_findex f = Some fi" "nmapping f + 1 = length (m_stacked_mappings f)" "\<And>fi bs. fst (append ops fi bs) = 0"
  shows "\<exists>f'. append_index ops f m = Some f' \<and> append_index ops f' m' = None"
proof -
  let ?st = "(m_stacked_mappings f)[nmapping f := m]"
  obtain fi' where fi': "append ops fi (concat (map mapping_bytes ?st)) = (0, fi')" using assms(3) by (metis prod.collapse)
  let ?f = "f\<lparr>m_stacked_mappings := ?st, nmapping := length ?st, m_findex := Some fi'\<rparr>"
  have n: "nmapping f < length (m_stacked_mappings f)" "m_stacked_mappings f \<noteq> []" "nmapping f + 1 = length ?st" using assms(2) by auto
  have "do_group_commit_mappings ops (f\<lparr>m_stacked_mappings := ?st, nmapping := nmapping f + 1\<rparr>) = Some (-1, ?f)"
    using n fi' assms(1) by (simp add: do_group_commit_mappings_def Let_def)
  then have "append_index ops f m = Some ?f" using assms(1) n by (simp add: append_index_def Let_def)
  moreover have "append_index ops ?f m' = None" using n by (simp add: append_index_def)
  ultimately show ?thesis by blast
qed

end
