(* ===== verification/LSMT_Store.thy ===== *)
theory LSMT_Store
  imports LSMT_Write
begin

text \<open>
  Creating, opening and stacking layers (\<open>lsmt/file.cpp\<close>: \<open>create_file_rw\<close>, \<open>open_file_rw\<close>, \<open>stack_files\<close> for append-only layers).

  The data and the index file of a writable layer are enough to rebuild it: opening them again gives a device with the same
  sectors.  A stacked device shows the writable layer over the read-only ones.
\<close>

subsection \<open>Creating and opening\<close>

text \<open>The members that every new object has.\<close>

definition LSMTFile_new :: "'f list \<Rightarrow> memory_idx \<Rightarrow> nat \<Rightarrow> 'f option \<Rightarrow> 'f lsmt_file" where
  "LSMTFile_new files ix vsz findex = \<lparr>m_files = files, m_index = ix, m_vsize = vsz, MAX_IO_SIZE = 4 * 1024 * 1024, m_rw_tag = 0,
     m_data_offset = SPACE div ALIGNMENT, m_findex = findex, m_stacked_mappings = [], nmapping = 0\<rparr>"

text \<open>The branch for append-only layers (\<open>sparse_rw\<close> is false); the results of the two writes are not checked.\<close>

definition create_file_rw :: "'f ifile \<Rightarrow> LayerInfo \<Rightarrow> 'f \<Rightarrow> 'f \<Rightarrow> 'f lsmt_file option" where
  "create_file_rw ops args fdata findex = do {
     ENV_BUG_ON (li_sparse_rw args);
     pi \<leftarrow> create_memory_index0 [] 0 0;
     let fdata = snd (write_header_trailer ops fdata True False True 0 0 args);
     let findex = snd (write_header_trailer ops findex True False False SPACE 0 args);
     Some (LSMTFile_new [fdata] (MI_Index0 pi) (li_virtual_size args) (Some findex))
   }"

definition open_file_rw :: "'f ifile \<Rightarrow> 'f \<Rightarrow> 'f \<Rightarrow> 'f lsmt_file option" where
  "open_file_rw ops fdata findex = do {
     pht \<leftarrow> verify_ht ops fdata False;
     ENV_BUG_ON (is_sparse_rw pht);
     (ht, p) \<leftarrow> do_load_index ops findex False 0;
     pi \<leftarrow> create_memory_index0 p (SPACE div ALIGNMENT) (fsize ops fdata div ALIGNMENT);
     Some (LSMTFile_new [fdata] (MI_Index0 pi) (ht_virtual_size ht) (Some findex))
   }"

subsection \<open>What an operation does not change\<close>

text \<open>The files below the writable one and the backing index.\<close>

definition kind :: "memory_idx \<Rightarrow> lsmt_index option option" where
  "kind i = (case i of MI_Combo ci \<Rightarrow> Some (m_backing_index ci) | _ \<Rightarrow> None)"

definition shape :: "'f lsmt_file \<Rightarrow> nat \<times> nat \<times> 'f list \<times> nat \<times> lsmt_index option option" where
  "shape f = (length (m_files f), m_rw_tag f, take (m_rw_tag f) (m_files f), MAX_IO_SIZE f, kind (m_index f))"

lemma mi_insert_kind: "mi_insert i m = Some i' \<Longrightarrow> kind i' = kind i"
  by (cases i) (auto simp: kind_def ComboIndex_insert_def split: bind_splits)

lemma group_commit_shape: "do_group_commit_mappings ops f = Some (r, f') \<Longrightarrow> shape f' = shape f"
  by (auto simp: do_group_commit_mappings_def Let_def shape_def split: if_splits bind_splits prod.splits)

lemma append_index_shape: "append_index ops f m = Some f' \<Longrightarrow> shape f' = shape f"
  by (auto simp: append_index_def Let_def split: option.splits if_splits bind_splits prod.splits dest: group_commit_shape)
    (auto simp: shape_def dest!: group_commit_shape)

lemma pwrite_segment_shape: "pwrite_segment ops f bs off = Some (r, f') \<Longrightarrow> shape f' = shape f"
  by (auto simp: pwrite_segment_def Let_def shape_def split: if_splits bind_splits prod.splits dest!: append_index_shape mi_insert_kind)

lemma pwrite_loop_shape: "pwrite_loop ops f n bs off = Some (r, f') \<Longrightarrow> shape f' = shape f"
proof (induction ops f n bs off rule: pwrite_loop.induct)
  case (1 ops f n bs off)
  show ?case
  proof (cases "length bs > MAX_IO_SIZE f \<and> MAX_IO_SIZE f \<noteq> 0 \<and> CHECK_ALIGNMENT (MAX_IO_SIZE f) off")
    case True
    then obtain r1 f1 where f1: "pwrite_segment ops f (take (MAX_IO_SIZE f) bs) off = Some (r1, f1)"
      using "1.prems" by (cases "pwrite_segment ops f (take (MAX_IO_SIZE f) bs) off") (auto simp: pwrite_loop.simps [of ops f])
    show ?thesis
      using "1.prems" "1.IH" [of "(r1, f1)" r1 f1] True f1 pwrite_segment_shape [OF f1] by (auto simp: pwrite_loop.simps [of ops f] split: if_splits)
  next
    case False
    then show ?thesis
      using "1.prems" by (auto simp: pwrite_loop.simps [of ops f] split: if_splits bind_splits dest: pwrite_segment_shape)
  qed
qed

lemma fallocate_segment_shape: "fallocate_segment ops f mode off len = Some (r, f') \<Longrightarrow> shape f' = shape f"
  by (auto simp: fallocate_segment_def file_discard_def Let_def shape_def split: if_splits bind_splits prod.splits
      dest!: append_index_shape mi_insert_kind)

lemma fallocate_shape: "fallocate ops f mode off len = Some (r, f') \<Longrightarrow> shape f' = shape f"
proof (induction ops f mode off len rule: fallocate.induct)
  case (1 ops f mode off len)
  let ?max = "MAX_LENGTH * ALIGNMENT"
  show ?case
  proof (cases "len > ?max")
    case True
    then obtain r1 f1 where f1: "fallocate_segment ops f mode off ?max = Some (r1, f1)"
      using "1.prems" by (cases "fallocate_segment ops f mode off ?max") (auto simp: fallocate.simps [of ops f] Let_def)
    show ?thesis
      using "1.prems" "1.IH" [of ?max "(r1, f1)" r1 f1] True f1 fallocate_segment_shape [OF f1]
      by (auto simp: fallocate.simps [of ops f] Let_def split: if_splits)
  next
    case False
    then show ?thesis using "1.prems" by (auto simp: fallocate.simps [of ops f] Let_def dest: fallocate_segment_shape)
  qed
qed

lemma dev_run_shape: "dev_run ops f ps = Some f' \<Longrightarrow> shape f' = shape f"
proof (induction ps arbitrary: f)
  case (Cons p ps)
  obtain r f1 where f1: "dev_exec ops f p = Some (r, f1)" "dev_run ops f1 ps = Some f'"
    using Cons.prems by (auto split: bind_splits if_splits)
  have "shape f1 = shape f"
    using f1(1) by (cases p) (auto simp: pwrite_def fsync_def split: if_splits dest: pwrite_loop_shape fallocate_shape group_commit_shape)
  then show ?case using Cons.IH [OF f1(2)] by simp
qed simp

subsection \<open>Opening a layer again\<close>

text \<open>A writable layer with its two headers.\<close>

definition layer_inv :: "('f \<Rightarrow> byte list) \<Rightarrow> LayerInfo \<Rightarrow> 'f lsmt_file \<Rightarrow> bool" where
  "layer_inv content args f \<longleftrightarrow> dev_inv content f \<and> \<not> li_sparse_rw args \<and>
     (\<exists>dh rest. rw_content content f = ht_block dh @ rest \<and> ht_says True False True 0 0 args dh) \<and>
     (\<exists>ih. ht_says True False False SPACE 0 args ih \<and> log_inv content (ht_block ih) f)"

lemma fields_fit_simps: "map_ok m \<Longrightarrow> fields_fit m" "fields_fit invalid_mapping"
  by (auto simp: fields_fit_def map_ok_def mend_def seg_end_def invalid_mapping_def INVALID_OFFSET_def MAX_OFFSET_def split: if_splits)

lemma img_mem: "img ms x = Some p \<Longrightarrow> \<exists>m\<in>set ms. seg_at m x = Some p"
  by (induction ms) (auto split: option.splits)

lemma img_untag: "map_option snd (img (map (\<lambda>m. m\<lparr>tag := 0\<rparr>) ms) x) = map_option snd (img ms x)"
  by (induction ms) (auto simp: seg_at_def seg_end_def split: option.splits)

lemma untag_simps: "map_ok m \<Longrightarrow> map_ok (m\<lparr>tag := 0\<rparr>)" "mend (m\<lparr>tag := 0\<rparr>) = mend m" "seg_end (m\<lparr>tag := 0\<rparr>) = seg_end m"
  by (auto simp: map_ok_def mend_def seg_end_def split: if_splits)

lemma create_index0_ok:
  assumes "\<forall>m\<in>set R. rec_ok len m" "is_aligned len" "SPACE \<le> len"
  shows "\<exists>ix. create_memory_index0 (map (\<lambda>m. m\<lparr>tag := 0\<rparr>) R) (SPACE div ALIGNMENT) (len div ALIGNMENT) = Some ix \<and> index0_ok ix \<and>
    img (mapping0 ix) = img (rev (map (\<lambda>m. m\<lparr>tag := 0\<rparr>) R))"
proof -
  let ?P = "map (\<lambda>m. m\<lparr>tag := 0\<rparr>) R"
  have "within (moffset m) (mend m) (SPACE div ALIGNMENT) (len div ALIGNMENT) (zeroed m)" if m: "rec_ok len m" for m
  proof -
    have "mend m \<le> len div ALIGNMENT" using m by (simp add: rec_ok_def less_eq_div_iff_mult_less_eq)
    moreover have "SPACE div ALIGNMENT \<le> moffset m" "0 < s_length m" using m by (auto simp: rec_ok_def map_ok_def)
    ultimately show ?thesis by (auto simp: within_def mend_def)
  qed
  then have "verify_mapping_moffset ?P (SPACE div ALIGNMENT) (len div ALIGNMENT)"
    using assms(1) by (auto simp: verify_mapping_moffset_def list_all_iff untag_simps)
  moreover have "\<forall>m\<in>set ?P. map_ok m" using assms(1) untag_simps(1) by (auto simp: rec_ok_def)
  then obtain ix where ix: "Index0_new ?P = Some ix" "index0_ok ix"
      "\<forall>x. img (mapping0 ix) x = (case img (rev ?P) x of None \<Rightarrow> img (mapping0 Index0_empty) x | Some p \<Rightarrow> Some p)"
    using insert_all_ok [OF index0_ok_empty] unfolding Index0_new_def by blast
  have "img (mapping0 ix) x = img (rev ?P) x" for x
    using ix(3) by (simp add: Index0_empty_def split: option.split)
  ultimately show ?thesis using ix(1,2) by (auto simp: create_memory_index0_def)
qed

lemma reopened_ok:
  assumes ops: "complete_files ops content" and inv: "layer_inv content args f" and n: "nmapping f = 0"
  shows "\<exists>fi f2. m_findex f = Some fi \<and> open_file_rw ops (m_files f ! m_rw_tag f) fi = Some f2 \<and> layer_inv content args f2 \<and>
    m_files f2 = [m_files f ! m_rw_tag f] \<and> kind (m_index f2) = None \<and>
    (\<forall>x. map_option snd (mi_img (m_index f2) x) = map_option snd (img (front_map (m_index f)) x))"
proof -
  let ?rw = "rw_content content f" and ?t = "\<lambda>m. m\<lparr>tag := 0\<rparr>" and ?fd = "m_files f ! m_rw_tag f"
  have rd: "reads_content ops content" using ops by (simp add: complete_files_def)
  have dev: "dev_inv content f" "is_aligned (length ?rw)" "0 < length ?rw" "\<not> li_sparse_rw args" using inv by (simp_all add: layer_inv_def dev_inv_def)
  obtain dh rest where dh: "content ?fd = ht_block dh @ rest" "ht_says True False True 0 0 args dh"
    using inv by (auto simp: layer_inv_def rw_content_def)
  obtain ih where ih: "ht_says True False False SPACE 0 args ih" "log_inv content (ht_block ih) f" using inv by (auto simp: layer_inv_def)
  obtain R where R: "logged content (ht_block ih) f R" "\<forall>m\<in>set R. rec_ok (length ?rw) m" "SPACE \<le> length ?rw"
      "\<forall>x. map_option snd (img (front_map (m_index f)) x) = map_option snd (img (rev R) x)"
    using ih(2) unfolding log_inv_def by blast
  obtain fi L where L: "m_findex f = Some fi" "content fi = ht_block ih @ concat (map mapping_bytes L)" "\<forall>m\<in>set L. valid m \<or> m = invalid_mapping"
      "R = filter valid L"
    using R(1) n by (auto simp: logged_def)
  have "\<forall>m\<in>set L. fields_fit m" using L(3,4) R(2) fields_fit_simps by (auto simp: rec_ok_def)
  moreover have "filter (\<lambda>m. s_offset m \<noteq> INVALID_OFFSET) L = R" using L(4) by (simp add: valid_def [abs_def])
  ultimately obtain ht' where load: "do_load_index ops fi False 0 = Some (ht', map ?t R)" "ht_virtual_size ht' = li_virtual_size args"
    using load_log [OF rd L(2) ih(1) dev(4)] by auto
  obtain ix where ix: "create_memory_index0 (map ?t R) (SPACE div ALIGNMENT) (length ?rw div ALIGNMENT) = Some ix" "index0_ok ix"
      "img (mapping0 ix) = img (rev (map ?t R))"
    using create_index0_ok [OF R(2) dev(2) R(3)] by blast
  let ?f2 = "LSMTFile_new [?fd] (MI_Index0 ix) (li_virtual_size args) (Some fi)"
  have op: "open_file_rw ops ?fd fi = Some ?f2"
    using verify_header [OF rd dh] dh(2) dev(4) load ix(1) rd by (simp add: open_file_rw_def ht_says_def reads_content_def rw_content_def)
  have rw2: "rw_content content ?f2 = ?rw" by (simp add: rw_content_def LSMTFile_new_def)
  have snd: "map_option snd (img (mapping0 ix) x) = map_option snd (img (rev R) x)" for x
    using img_untag [of "rev R" x] by (simp add: ix(3) rev_map)
  have place: "t = 0 \<and> (mo + 1) * ALIGNMENT \<le> length ?rw" if hit: "img (mapping0 ix) x = Some (t, Some mo)" for x t mo
  proof -
    obtain m where m: "m \<in> set R" "seg_at (?t m) x = Some (t, Some mo)" using img_mem [OF hit [unfolded ix(3)]] by auto
    then have "mend m * ALIGNMENT \<le> length ?rw" "t = 0" "mo + 1 \<le> mend m"
      using R(2) by (auto simp: rec_ok_def seg_at_def seg_end_def mend_def split: if_splits)
    then show ?thesis using mult_le_mono1 [of "mo + 1" "mend m" ALIGNMENT] by linarith
  qed
  have "0 < length (content fi)" using L(2) length_ht_block [of ih] ih(1) by (simp add: ht_says_def SPACE_def)
  then have inv2: "dev_inv content ?f2"
    using place ix(2) dev(2,3) rw2
    by (auto simp: dev_inv_def device_ok_def writable_def LSMTFile_new_def index0_ok_def stack_ok_def is_aligned_def ALIGNMENT_def rw_content_def)
  have "logged content (ht_block ih) ?f2 R" using L by (auto simp: logged_def LSMTFile_new_def)
  then have "log_inv content (ht_block ih) ?f2" unfolding log_inv_def rw2 using R(2,3) snd by (auto simp: LSMTFile_new_def)
  then have "layer_inv content args ?f2" using inv2 inv ih(1) rw2 by (auto simp: layer_inv_def)
  moreover have "m_files ?f2 = [?fd]" "m_index ?f2 = MI_Index0 ix" by (simp_all add: LSMTFile_new_def)
  ultimately show ?thesis using L(1) op snd R(4) by (auto simp: kind_def)
qed

subsection \<open>A new layer\<close>

definition fresh :: "'f ifile \<Rightarrow> ('f \<Rightarrow> byte list) \<Rightarrow> 'f \<Rightarrow> bool" where
  "fresh ops content fl \<longleftrightarrow> content fl = [] \<and> ftell ops fl = 0"

lemma write_header_ok:
  assumes "complete_files ops content" "ftell ops fl = length (content fl)" "info_ok args" "io < 2 ^ 64" "isz < 2 ^ 64"
  shows "\<exists>fl' ht. write_header_trailer ops fl h s d io isz args = (int SPACE, fl') \<and> ht_says h s d io isz args ht \<and>
    content fl' = content fl @ ht_block ht \<and> ftell ops fl' = length (content fl')"
proof -
  obtain ht where ht: "set_tag (make_ht h s d io isz args) (li_user_tag args) (li_len args) = (0, ht)" "ht_says h s d io isz args ht"
    using set_tag_ok [OF assms(3-5)] by blast
  obtain fl' where fl': "fwrite ops fl (ht_block ht) = (int (length (ht_block ht)), fl')" "content fl' = content fl @ ht_block ht"
      "ftell ops fl' = length (content fl')"
    using write_complete [OF assms(1,2)] by blast
  have "length (ht_block ht) = SPACE" using ht(2) length_ht_block by (simp add: ht_says_def)
  then show ?thesis using ht fl' by (auto simp: write_header_trailer_def)
qed

lemma create_file_rw_ok:
  assumes ops: "complete_files ops content" and args: "info_ok args" "\<not> li_sparse_rw args" and "fresh ops content fd" "fresh ops content fi"
  shows "\<exists>f. create_file_rw ops args fd fi = Some f \<and> layer_inv content args f \<and> kind (m_index f) = None \<and> length (m_files f) = 1 \<and> m_rw_tag f = 0 \<and>
    disk content f = (\<lambda>x. replicate ALIGNMENT 0) \<and> length (rw_content content f) = SPACE"
proof -
  have end0: "ftell ops fd = length (content fd)" "ftell ops fi = length (content fi)" "content fd = []" "content fi = []"
    using assms(4,5) by (simp_all add: fresh_def)
  have lt: "SPACE < 2 ^ 64" "(0::nat) < 2 ^ 64" by (simp_all add: SPACE_def)
  obtain fd' dh where fd: "write_header_trailer ops fd True False True 0 0 args = (int SPACE, fd')" "ht_says True False True 0 0 args dh" "content fd' = ht_block dh"
    using write_header_ok [OF ops end0(1) args(1) lt(2) lt(2)] end0(3) by (metis append_Nil)
  obtain fi' ih where fi: "write_header_trailer ops fi True False False SPACE 0 args = (int SPACE, fi')" "ht_says True False False SPACE 0 args ih"
      "content fi' = ht_block ih"
    using write_header_ok [OF ops end0(2) args(1) lt(1) lt(2)] end0(4) by (metis append_Nil)
  let ?f = "LSMTFile_new [fd'] (MI_Index0 Index0_empty) (li_virtual_size args) (Some fi')"
  have len: "length (ht_block dh) = SPACE" "length (ht_block ih) = SPACE" using fd(2) fi(2) length_ht_block by (simp_all add: ht_says_def)
  have rw: "rw_content content ?f = ht_block dh" using fd(3) by (simp add: rw_content_def LSMTFile_new_def)
  have "ht_block ih \<noteq> []" "ht_block dh \<noteq> []" using len by (auto simp: SPACE_def)
  then have "dev_inv content ?f"
    using len rw fi(3) by (simp add: dev_inv_def device_ok_def writable_def LSMTFile_new_def Index0_empty_def stack_ok_def is_aligned_def
        ALIGNMENT_def SPACE_def)
  moreover have "logged content (ht_block ih) ?f []" unfolding logged_def using fi(3) by (auto simp: LSMTFile_new_def intro!: exI [of _ "[]"])
  then have "log_inv content (ht_block ih) ?f" unfolding log_inv_def rw using len(1) by (auto simp: LSMTFile_new_def Index0_empty_def intro!: exI [of _ "[]"])
  ultimately have "layer_inv content args ?f" using args(2) rw fd(2) fi(2) by (auto simp: layer_inv_def)
  moreover have "disk content ?f x = replicate ALIGNMENT 0" for x by (simp add: disk_def sector_def LSMTFile_new_def Index0_empty_def)
  moreover have "create_file_rw ops args fd fi = Some ?f"
    using args(2) fd(1) fi(1) by (simp add: create_file_rw_def create_memory_index0_def verify_mapping_moffset_def Index0_new_def)
  ultimately show ?thesis using rw len(1) by (auto simp: fun_eq_iff kind_def LSMTFile_new_def)
qed

lemma layer_dev_run:
  assumes "complete_files ops content" "layer_inv content args f" "list_all op_ok ps"
    and "length (rw_content content f) + sum_list (map op_bytes ps) < 2 ^ 63"
  shows "\<exists>f1. dev_run ops f ps = Some f1 \<and> layer_inv content args f1 \<and> disk content f1 = foldl array_exec (disk content f) ps \<and> shape f1 = shape f"
proof -
  have "dev_inv content f" using assms(2) by (simp add: layer_inv_def)
  then obtain f1 xs where f1: "dev_run ops f ps = Some f1" "dev_inv content f1" "disk content f1 = foldl array_exec (disk content f) ps"
      "rw_content content f1 = rw_content content f @ xs" "\<forall>hdr. log_inv content hdr f \<longrightarrow> log_inv content hdr f1"
    using dev_run_ok [OF assms(1) _ assms(3,4)] by blast
  have "layer_inv content args f1" using assms(2) f1(2,4,5) unfolding layer_inv_def by (metis append.assoc)
  then show ?thesis using f1(1,3) dev_run_shape [OF f1(1)] by blast
qed

lemma layer_run_ok:
  assumes "complete_files ops content" "layer_inv content args f" "list_all op_ok ps"
    and "length (rw_content content f) + sum_list (map op_bytes ps) < 2 ^ 63"
  shows "\<exists>f1 f'. dev_run ops f ps = Some f1 \<and> fsync ops f1 = Some (0, f') \<and> layer_inv content args f' \<and> nmapping f' = 0 \<and>
    disk content f' = foldl array_exec (disk content f) ps \<and> shape f' = shape f"
proof -
  obtain f1 where f1: "dev_run ops f ps = Some f1" "layer_inv content args f1" "disk content f1 = foldl array_exec (disk content f) ps" "shape f1 = shape f"
    using layer_dev_run [OF assms] by blast
  have "dev_inv content f1" using f1(2) by (simp add: layer_inv_def)
  then obtain f' where f': "fsync ops f1 = Some (0, f')" "dev_inv content f'" "disk content f' = disk content f1" "rw_content content f' = rw_content content f1"
      "nmapping f' = 0" "\<forall>hdr. log_inv content hdr f1 \<longrightarrow> log_inv content hdr f'"
    using fsync_ok [OF assms(1)] by blast
  have "layer_inv content args f'" using f1(2) f'(2,4,6) unfolding layer_inv_def by metis
  moreover have "shape f' = shape f" using f1(4) group_commit_shape f'(1) by (metis fsync_def)
  ultimately show ?thesis using f1(1,3) f'(1,3,5) by auto
qed

subsection \<open>Properties\<close>

text \<open>C4. Data survives a restart.  From two empty files a layer is created whose sectors are all zero; after any sequence of writes, discards
  and syncs and a final sync, the data file and the index file alone are enough: opening them gives a device whose sectors are those that the
  sequence leaves in an array.  The device that was opened satisfies the invariants again.\<close>

theorem reopened_layer_same_sectors:
  assumes "complete_files ops content" "info_ok args" "\<not> li_sparse_rw args" "fresh ops content fd" "fresh ops content fi"
    and "list_all op_ok ps" "SPACE + sum_list (map op_bytes ps) < 2 ^ 63"
  shows "\<exists>f f1 f' fx f2. create_file_rw ops args fd fi = Some f \<and> dev_run ops f ps = Some f1 \<and> fsync ops f1 = Some (0, f') \<and>
    m_findex f' = Some fx \<and> open_file_rw ops (hd (m_files f')) fx = Some f2 \<and> layer_inv content args f2 \<and>
    disk content f2 = foldl array_exec (\<lambda>x. replicate ALIGNMENT 0) ps"
proof -
  obtain f where f: "create_file_rw ops args fd fi = Some f" "layer_inv content args f" "kind (m_index f) = None" "length (m_files f) = 1"
      "m_rw_tag f = 0" "disk content f = (\<lambda>x. replicate ALIGNMENT 0)" "length (rw_content content f) = SPACE"
    using create_file_rw_ok [OF assms(1-5)] by blast
  obtain f1 f' where run: "dev_run ops f ps = Some f1" "fsync ops f1 = Some (0, f')" "layer_inv content args f'" "nmapping f' = 0"
      "disk content f' = foldl array_exec (disk content f) ps" "shape f' = shape f"
    using layer_run_ok [OF assms(1) f(2) assms(6)] assms(7) f(7) by auto
  obtain fx f2 where f2: "m_findex f' = Some fx" "open_file_rw ops (m_files f' ! m_rw_tag f') fx = Some f2" "layer_inv content args f2"
      "m_files f2 = [m_files f' ! m_rw_tag f']" "kind (m_index f2) = None"
      "\<forall>x. map_option snd (mi_img (m_index f2) x) = map_option snd (img (front_map (m_index f')) x)"
    using reopened_ok [OF assms(1) run(3,4)] by blast
  have shape: "length (m_files f') = 1" "m_rw_tag f' = 0" "kind (m_index f') = None" using run(6) f(3-5) by (simp_all add: shape_def)
  then have files: "m_files f' ! m_rw_tag f' = hd (m_files f')" "m_files f2 = m_files f'" using f2(4) by (auto simp: length_Suc_conv)
  have writable: "writable (m_index f')" "device_ok f'" "device_ok f2" using run(3) f2(3) by (simp_all add: layer_inv_def dev_inv_def)
  then have front: "front_map (m_index f') = (case m_index f' of MI_Index0 i0 \<Rightarrow> mapping0 i0)" "img (front_map (m_index f')) = mi_img (m_index f')"
    using shape(3) by (auto simp: kind_def writable_def split: memory_idx.splits)
  have "disk content f2 x = disk content f' x" for x
  proof -
    have eq: "map_option snd (mi_img (m_index f2) x) = map_option snd (mi_img (m_index f') x)" using f2(6) front(2) by simp
    have "t = 0" if "mi_img (m_index f2) x = Some (t, Some mo)" for t mo
      using that writable(3) shape(1) files(2) by (auto simp: device_ok_def)
    moreover have "t = 0" if "mi_img (m_index f') x = Some (t, Some mo)" for t mo
      using that writable(2) shape(1) by (auto simp: device_ok_def)
    ultimately show ?thesis
      using eq files(2) by (cases "mi_img (m_index f2) x"; cases "mi_img (m_index f') x")
        (auto simp: disk_def sector_def split: option.splits)
  qed
  then have "disk content f2 = foldl array_exec (\<lambda>x. replicate ALIGNMENT 0) ps" using run(5) f(6) by (simp add: fun_eq_iff)
  then show ?thesis using f(1) run(1,2) f2(1-3) files(1) by auto
qed

lemma reopened_layer_same_sectors_witness:
  "\<exists>f f1 f' fx f2. create_file_rw mem_ops \<lparr>li_virtual_size = 10 ^ 9, li_uuid = replicate 37 1, li_parent_uuid = replicate 37 0, li_user_tag = [],
       li_sparse_rw = False, li_len = 0\<rparr> [] [] = Some f \<and> dev_run mem_ops f [Write 10 (replicate 1024 7)] = Some f1 \<and>
     fsync mem_ops f1 = Some (0, f') \<and> m_findex f' = Some fx \<and> open_file_rw mem_ops (hd (m_files f')) fx = Some f2 \<and> disk id f2 11 = replicate 512 7"
proof -
  let ?a = "\<lparr>li_virtual_size = 10 ^ 9, li_uuid = replicate 37 1, li_parent_uuid = replicate 37 0, li_user_tag = [], li_sparse_rw = False, li_len = 0\<rparr>"
  let ?ps = "[Write 10 (replicate 1024 7)]"
  have hyps: "info_ok ?a" "\<not> li_sparse_rw ?a" "fresh mem_ops id []" "list_all op_ok ?ps" "SPACE + sum_list (map op_bytes ?ps) < 2 ^ 63"
    by (simp_all add: info_ok_def fresh_def mem_ops_def is_aligned_def ALIGNMENT_def SPACE_def)
  have "foldl array_exec (\<lambda>x. replicate ALIGNMENT 0) ?ps 11 = replicate 512 7" by (simp add: overwrite_def ALIGNMENT_def)
  then show ?thesis using reopened_layer_same_sectors [OF mem_device_ok(1) hyps(1-3,3-5)] by fastforce
qed

end
