(* ===== verification/LSMT_Commit.thy ===== *)
theory LSMT_Commit
  imports LSMT_Store
begin

text \<open>
  Writing the content of a device as a sealed layer (\<open>lsmt/file.cpp\<close>: \<open>pcopy\<close>, \<open>compact\<close>, \<open>LSMTFile::commit\<close>, \<open>open_file_ro\<close>).

  The data of every mapping is copied in pieces of at most 32 KiB behind the header of the new file; the new mappings are compressed, padded to
  a block, written behind the data, and followed by a trailer.  The layer that is opened from the new file has the sectors of the
  device that was committed.

  The conversion of identifiers is part of the library: \<open>uuid_norm\<close> stands for parsing a string and printing the result (the null identifier when
  it does not parse), \<open>uuid_valid\<close> for the test.
\<close>

subsection \<open>Copying a mapping\<close>

text \<open>The state of the loop over the blocks of a buffer: the mapping that grows, what the last block was (-1, 0 or 1), the data to write, the end of
  the last mapping in the buffer, and the new mappings.\<close>

record scan =
  sc_s :: segment_mapping
  sc_zero :: int
  sc_data :: "byte list"
  sc_prev_end :: nat
  sc_index :: "segment_mapping list"

definition push_segment :: "byte list \<Rightarrow> scan \<Rightarrow> scan" where
  "push_segment buf st = (
     let s = (if sc_zero st = 1 then discard (sc_s st) else sc_s st);
         data = (if sc_zero st = 1 then sc_data st
                 else sc_data st @ take (s_length s * ALIGNMENT) (drop (sc_prev_end st * ALIGNMENT) buf));
         start_moffset = mend s
     in st\<lparr>sc_data := data, sc_prev_end := sc_prev_end st + s_length s, sc_index := sc_index st @ [s],
           sc_s := s\<lparr>zeroed := False, s_offset := seg_end s mod 2 ^ 50, s_length := 0, moffset := start_moffset mod 2 ^ 55\<rparr>\<rparr>)"

text \<open>The function returns 1 before its test.\<close>

definition is_zero_block :: "byte list \<Rightarrow> int" where
  "is_zero_block bs = 1"

definition grow :: "segment_mapping \<Rightarrow> segment_mapping" where
  "grow s = s\<lparr>s_length := (s_length s + 1) mod 2 ^ 14\<rparr>"

definition scan_block :: "byte list \<Rightarrow> nat \<Rightarrow> scan \<Rightarrow> scan" where
  "scan_block buf i st =
     (if is_zero_block (take ALIGNMENT (drop (i * ALIGNMENT) buf)) = 0 then
        let st = (if sc_zero st = 0 \<and> s_length (sc_s st) \<noteq> 0 then push_segment buf st else st)
        in st\<lparr>sc_s := grow (sc_s st), sc_zero := 1\<rparr>
      else
        let st = (if sc_zero st = 1 then push_segment buf st else st)
        in st\<lparr>sc_zero := 0, sc_s := grow (sc_s st)\<rparr>)"

definition BUFFER_SIZE :: nat where "BUFFER_SIZE = 32 * 1024"

text \<open>The loop over the buffers: the source offset and the count in bytes, the mapping, the index, the bytes so far, and the destination.\<close>

function pcopy_loop :: "'f ifile \<Rightarrow> 'f \<Rightarrow> nat \<Rightarrow> nat \<Rightarrow> segment_mapping \<Rightarrow> segment_mapping list \<Rightarrow> nat \<Rightarrow> 'f \<Rightarrow>
    (int \<times> segment_mapping list \<times> 'f)" where
  "pcopy_loop ops src offset count s index bytes dest =
     (if count > 0 then
        let step = min count BUFFER_SIZE in
        (case fpread ops src step offset of (ret, buf) \<Rightarrow>
           if ret < int step then (-1, index, dest)
           else
             let st = foldl (\<lambda>st i. scan_block buf i st) \<lparr>sc_s = s, sc_zero = -1, sc_data = [], sc_prev_end = 0, sc_index = index\<rparr>
                   [0..<(step + ALIGNMENT - 1) div ALIGNMENT];
                 st = (if s_length (sc_s st) \<noteq> 0 then push_segment buf st else st);
                 data = sc_data st;
                 (ret, dest) = (if data = [] then (0, dest) else fwrite ops dest data)
             in if data \<noteq> [] \<and> ret < int (length data) then (-1, sc_index st, dest)
                else pcopy_loop ops src (offset + step) (count - step) (sc_s st) (sc_index st) (bytes + length data) dest)
      else (int (bytes div ALIGNMENT), index, dest))"
  by auto
termination by (relation "measure (\<lambda>(ops, src, off, count, s, ix, bytes, dest). count)") (auto simp: BUFFER_SIZE_def)

declare pcopy_loop.simps [simp del]

definition pcopy :: "'f ifile \<Rightarrow> 'f list \<Rightarrow> segment_mapping \<Rightarrow> nat \<Rightarrow> segment_mapping list \<Rightarrow> 'f \<Rightarrow> (int \<times> segment_mapping list \<times> 'f) option" where
  "pcopy ops src_files m moff index dest = do {
     ENV_BUG_ON (tag m \<ge> length src_files);
     Some (pcopy_loop ops (src_files ! tag m) (moffset m * ALIGNMENT) (s_length m * ALIGNMENT)
       \<lparr>s_offset = s_offset m, s_length = 0, moffset = moff, zeroed = False, tag = tag m\<rparr> index 0 dest)
   }"

subsection \<open>Writing a layer\<close>

record CommitArgs =
  ca_user_tag :: "byte list option"
  ca_tag_len :: nat
  ca_uuid :: "byte list"
  ca_parent_uuid :: "byte list"

definition strlen :: "byte list \<Rightarrow> nat" where
  "strlen bs = length (takeWhile (\<lambda>b. b \<noteq> 0) bs)"

definition get_tag_len :: "CommitArgs \<Rightarrow> nat" where
  "get_tag_len ca = (case ca_user_tag ca of Some t \<Rightarrow> if ca_tag_len ca = 0 then strlen t else ca_tag_len ca | None \<Rightarrow> ca_tag_len ca)"

text \<open>The size comes from the header of the first file, the parent from the last one; \<open>None\<close> is a failed read.\<close>

definition load_layer_info :: "'f ifile \<Rightarrow> (byte list \<Rightarrow> byte list) \<Rightarrow> 'f list \<Rightarrow> (nat \<times> byte list) option" where
  "load_layer_info ops uuid_norm src_files = (
     case fpread ops (hd src_files) SPACE 0 of (ret, buf_top) \<Rightarrow>
       if ret \<noteq> int SPACE then None
       else if length src_files \<noteq> 1 then
         (case fpread ops (last src_files) SPACE 0 of (ret, buf_bottom) \<Rightarrow>
            if ret \<noteq> int SPACE then None
            else Some (ht_virtual_size (parse_ht buf_top), uuid_norm (ht_parent_uuid (parse_ht buf_bottom))))
       else Some (ht_virtual_size (parse_ht buf_top), uuid_norm (ht_parent_uuid (parse_ht buf_top))))"

definition commit_layer :: "(byte list \<Rightarrow> byte list) \<Rightarrow> (byte list \<Rightarrow> bool) \<Rightarrow> CommitArgs \<Rightarrow> nat \<times> byte list \<Rightarrow> LayerInfo" where
  "commit_layer uuid_norm uuid_valid ca info = \<lparr>li_virtual_size = fst info,
     li_uuid = (if uuid_valid (ca_uuid ca) then uuid_norm (ca_uuid ca) else uuid_norm []),
     li_parent_uuid = (if uuid_valid (ca_parent_uuid ca) then uuid_norm (ca_parent_uuid ca) else snd info),
     li_user_tag = (case ca_user_tag ca of None \<Rightarrow> [] | Some t \<Rightarrow> t), li_sparse_rw = False, li_len = get_tag_len ca\<rparr>"

fun compact_loop :: "'f ifile \<Rightarrow> 'f list \<Rightarrow> segment_mapping list \<Rightarrow> nat \<Rightarrow> segment_mapping list \<Rightarrow> 'f \<Rightarrow>
    (int \<times> nat \<times> segment_mapping list \<times> 'f) option" where
  "compact_loop ops src_files [] moff index dest = Some (0, moff, index, dest)"
| "compact_loop ops src_files (m # ms) moff index dest =
     (if zeroed m then compact_loop ops src_files ms moff (index @ [m\<lparr>moffset := moff mod 2 ^ 55\<rparr>]) dest
      else do {
        (ret, index, dest) \<leftarrow> pcopy ops src_files m moff index dest;
        if ret < 0 then Some (ret, moff, index, dest) else compact_loop ops src_files ms (moff + nat ret) index dest
      })"

text \<open>The loop that writes the index, in blocks of 4096 bytes (256 mappings).\<close>

fun write_index :: "'f ifile \<Rightarrow> nat \<Rightarrow> segment_mapping list \<Rightarrow> 'f \<Rightarrow> 'f option" where
  "write_index ops 0 index dest = Some dest"
| "write_index ops (Suc k) index dest = (
     case fwrite ops dest (concat (map mapping_bytes (take 256 index))) of (ret, dest) \<Rightarrow> do {
       ENV_BUG_ON (ret \<noteq> int ALIGNMENT4K);
       write_index ops k (drop 256 index) dest
     })"

definition pad_index :: "segment_mapping list \<Rightarrow> segment_mapping list" where
  "pad_index index = (
     let padding = 256 - length index mod 256
     in if padding < 256 then index @ replicate padding invalid_mapping else index)"

definition compact :: "'f ifile \<Rightarrow> (byte list \<Rightarrow> byte list) \<Rightarrow> (byte list \<Rightarrow> bool) \<Rightarrow> 'f list \<Rightarrow> segment_mapping list \<Rightarrow> CommitArgs \<Rightarrow> 'f \<Rightarrow> (int \<times> 'f) option" where
  "compact ops uuid_norm uuid_valid src_files raw_index ca dest =
     (case load_layer_info ops uuid_norm src_files of
        None \<Rightarrow> Some (-1, dest)
      | Some info \<Rightarrow>
          let layer = commit_layer uuid_norm uuid_valid ca info;
              (ret, dest) = write_header_trailer ops dest True True True 0 0 layer in
          if ret < 0 then Some (-1, dest)
          else do {
            (ret, moff, index, dest) \<leftarrow> compact_loop ops src_files raw_index (SPACE div ALIGNMENT) [] dest;
            if ret < 0 then Some (ret, dest)
            else do {
              let index_offset = moff * ALIGNMENT;
              let index = pad_index (compress_raw_index index);
              dest \<leftarrow> write_index ops (length index div 256) index dest;
              let dest = snd (fseek_end ops dest);
              let (ret, dest) = write_header_trailer ops dest False True True index_offset (length index) layer;
              if ret < 0 then Some (-1, dest) else Some (0, dest)
            }
          })"

definition LSMTFile_commit :: "'f ifile \<Rightarrow> (byte list \<Rightarrow> byte list) \<Rightarrow> (byte list \<Rightarrow> bool) \<Rightarrow> 'f lsmt_file \<Rightarrow> CommitArgs \<Rightarrow> 'f \<Rightarrow> (int \<times> 'f) option" where
  "LSMTFile_commit ops uuid_norm uuid_valid f ca dest =
     (if length (m_files f) > 1 then Some (-1, dest)
      else compact ops uuid_norm uuid_valid (m_files f) (front_map (m_index f)) ca dest)"

definition open_file_ro :: "'f ifile \<Rightarrow> 'f \<Rightarrow> 'f lsmt_file option" where
  "open_file_ro ops fl = do {
     (ht, p) \<leftarrow> do_load_index ops fl True 0;
     pi \<leftarrow> create_memory_index p (SPACE div ALIGNMENT) (ht_index_offset ht div ALIGNMENT) 0;
     Some (LSMTFile_new [fl] (MI_Index pi) (ht_virtual_size ht) None)
   }"

subsection \<open>What a copy yields\<close>

text \<open>The pieces of at most 64 sectors that replace a mapping of \<open>c\<close> sectors.\<close>

function pieces :: "nat \<Rightarrow> nat \<Rightarrow> nat \<Rightarrow> nat \<Rightarrow> segment_mapping list" where
  "pieces a k t c = (if c = 0 then [] else
     \<lparr>s_offset = a, s_length = min c 64, moffset = k, zeroed = False, tag = t\<rparr> # pieces (a + min c 64) (k + min c 64) t (c - min c 64))"
  by auto
termination by (relation "measure (\<lambda>(a, k, t, c). c)") auto

declare pieces.simps [simp del]

lemma pieces_ok:
  "a + c \<le> 2 ^ 50 \<Longrightarrow> k + c < 2 ^ 55 \<Longrightarrow> t < 2 ^ 8 \<Longrightarrow> segs_ok (pieces a k t c) \<and> inside a (a + c) (pieces a k t c) \<and>
    (\<forall>m\<in>set (pieces a k t c). k \<le> moffset m \<and> mend m \<le> k + c \<and> tag m = t) \<and>
    (\<forall>x. img (pieces a k t c) x = (if a \<le> x \<and> x < a + c then Some (t, Some (k + (x - a))) else None))"
proof (induction a k t c rule: pieces.induct)
  case (1 a k t c)
  show ?case
  proof (cases "c = 0")
    case False
    let ?n = "min c 64" and ?p = "\<lparr>s_offset = a, s_length = min c 64, moffset = k, zeroed = False, tag = t\<rparr>"
    let ?ps = "pieces (a + min c 64) (k + min c 64) t (c - min c 64)"
    have ih: "segs_ok ?ps" "inside (a + ?n) (a + c) ?ps" "\<forall>m\<in>set ?ps. k + ?n \<le> moffset m \<and> mend m \<le> k + c \<and> tag m = t"
        "\<forall>x. img ?ps x = (if a + ?n \<le> x \<and> x < a + c then Some (t, Some (k + ?n + (x - (a + ?n)))) else None)"
      using "1.IH" [OF False] "1.prems" by simp_all
    have p: "map_ok ?p" "seg_end ?p = a + ?n" "mend ?p = k + ?n" using "1.prems" False by (auto simp: map_ok_def seg_end_def mend_def)
    have eq: "pieces a k t c = ?p # ?ps" using False by (simp add: pieces.simps [of a k t c])
    have "segs_ok (?p # ?ps)" using ih(1,2) p by (auto simp: seg_less_def inside_def)
    moreover have "inside a (a + c) (?p # ?ps)" using ih(2) p(2) by (auto simp: inside_def)
    moreover have "img (?p # ?ps) x = (if a \<le> x \<and> x < a + c then Some (t, Some (k + (x - a))) else None)" for x
      using ih(4) by (auto simp: seg_at_def p(2))
    moreover have "\<forall>m\<in>set (?p # ?ps). k \<le> moffset m \<and> mend m \<le> k + c \<and> tag m = t" using ih(3) p(3) by fastforce
    ultimately show ?thesis unfolding eq by blast
  qed (simp add: pieces.simps [of a k t 0])
qed

lemma scan_blocks:
  assumes "s_length (sc_s st) + n < 2 ^ 14" "sc_zero st \<noteq> 1"
  shows "foldl (\<lambda>st i. scan_block buf i st) st [0..<n] =
    st\<lparr>sc_s := (sc_s st)\<lparr>s_length := s_length (sc_s st) + n\<rparr>, sc_zero := (if n = 0 then sc_zero st else 0)\<rparr>"
  using assms(1)
proof (induction n)
  case (Suc n)
  then show ?case using assms(2) by (auto simp: scan_block_def is_zero_block_def grow_def Let_def)
qed (simp add: assms(2))

lemma pcopy_loop_ok:
  assumes ops: "complete_files ops content"
  shows "off + c * ALIGNMENT \<le> length (content src) \<Longrightarrow> ftell ops dest = length (content dest) \<Longrightarrow> a + c < 2 ^ 50 \<Longrightarrow> k + c < 2 ^ 55 \<Longrightarrow>
    s = \<lparr>s_offset = a, s_length = 0, moffset = k, zeroed = False, tag = t\<rparr> \<Longrightarrow>
    \<exists>dest'. pcopy_loop ops src off (c * ALIGNMENT) s index (b * ALIGNMENT) dest = (int (b + c), index @ pieces a k t c, dest') \<and>
      content dest' = content dest @ take (c * ALIGNMENT) (drop off (content src)) \<and> ftell ops dest' = length (content dest')"
proof (induction c arbitrary: off a k s index b dest rule: less_induct)
  case (less c)
  show ?case
  proof (cases "c = 0")
    case True
    then show ?thesis using less.prems(2) by (auto simp: pcopy_loop.simps [of ops src] pieces.simps)
  next
    case False
    let ?n = "min c 64" and ?d = "content src"
    have step: "min (c * ALIGNMENT) BUFFER_SIZE = ?n * ALIGNMENT" "(?n * ALIGNMENT + ALIGNMENT - Suc 0) div ALIGNMENT = ?n"
      by (auto simp: BUFFER_SIZE_def ALIGNMENT_def min_def)
    have n: "0 < ?n" "?n \<le> c" "?n < 2 ^ 14" using False by auto
    have nc: "c * ALIGNMENT = ?n * ALIGNMENT + (c - ?n) * ALIGNMENT" using n(2) by (simp add: distrib_right [symmetric])
    define buf where "buf = take (?n * ALIGNMENT) (drop off ?d)"
    have buf: "length buf = ?n * ALIGNMENT" "fpread ops src (?n * ALIGNMENT) off = (int (?n * ALIGNMENT), buf)"
      using less.prems(1) nc ops by (simp_all add: buf_def complete_files_def reads_content_def)
    define st where "st = \<lparr>sc_s = s, sc_zero = -1, sc_data = [], sc_prev_end = 0, sc_index = index\<rparr>"
    let ?p = "\<lparr>s_offset = a, s_length = ?n, moffset = k, zeroed = False, tag = t\<rparr>"
    let ?s2 = "\<lparr>s_offset = a + ?n, s_length = 0, moffset = k + ?n, zeroed = False, tag = t\<rparr>"
    have scan: "foldl (\<lambda>st i. scan_block buf i st) st [0..<?n] = st\<lparr>sc_s := ?p, sc_zero := 0\<rparr>"
      using scan_blocks [of st ?n buf] n less.prems(5) by (simp add: st_def)
    have push: "push_segment buf (st\<lparr>sc_s := ?p, sc_zero := 0\<rparr>) = \<lparr>sc_s = ?s2, sc_zero = 0, sc_data = buf, sc_prev_end = ?n, sc_index = index @ [?p]\<rparr>"
      using less.prems(3,4) n(2) buf(1) by (simp add: push_segment_def st_def Let_def seg_end_def mend_def)
    obtain dest1 where d1: "fwrite ops dest buf = (int (length buf), dest1)" "content dest1 = content dest @ buf" "ftell ops dest1 = length (content dest1)"
      using write_complete [OF ops less.prems(2)] by blast
    have ne: "buf \<noteq> []" "0 < c * ALIGNMENT" using buf(1) n False by (auto simp: ALIGNMENT_def)
    have sums: "b * ALIGNMENT + length buf = (b + ?n) * ALIGNMENT" "c * ALIGNMENT - ?n * ALIGNMENT = (c - ?n) * ALIGNMENT"
      using buf(1) by (simp_all add: distrib_right diff_mult_distrib)
    have loop: "pcopy_loop ops src off (c * ALIGNMENT) s index (b * ALIGNMENT) dest =
        pcopy_loop ops src (off + ?n * ALIGNMENT) ((c - ?n) * ALIGNMENT) ?s2 (index @ [?p]) ((b + ?n) * ALIGNMENT) dest1"
      using ne n(1) by (subst pcopy_loop.simps) (simp add: Let_def step buf(2) st_def [symmetric] scan push d1(1) sums del: min_less_iff_conj)
    have small: "c - ?n < c" "off + ?n * ALIGNMENT + (c - ?n) * ALIGNMENT \<le> length ?d" "a + ?n + (c - ?n) < 2 ^ 50" "k + ?n + (c - ?n) < 2 ^ 55"
      using n less.prems(1,3,4) nc by auto
    obtain dest2 where d2: "pcopy_loop ops src (off + ?n * ALIGNMENT) ((c - ?n) * ALIGNMENT) ?s2 (index @ [?p]) ((b + ?n) * ALIGNMENT) dest1 =
          (int (b + ?n + (c - ?n)), (index @ [?p]) @ pieces (a + ?n) (k + ?n) t (c - ?n), dest2)"
        "content dest2 = content dest1 @ take ((c - ?n) * ALIGNMENT) (drop (off + ?n * ALIGNMENT) ?d)" "ftell ops dest2 = length (content dest2)"
      using less.IH [OF small(1,2) d1(3) small(3,4) refl] by blast
    have "content dest2 = content dest @ take (c * ALIGNMENT) (drop off ?d)"
      unfolding d2(2) d1(2) buf_def nc take_add by (simp add: drop_drop add.commute)
    then show ?thesis
      using loop d2(1,3) n(2) False by (simp add: pieces.simps [of a k t c])
  qed
qed

subsection \<open>What the new index says\<close>

text \<open>The bytes of a sector at a place in the new file, whatever the tag.\<close>

definition dest_sector :: "byte list \<Rightarrow> place option \<Rightarrow> byte list" where
  "dest_sector d p = (case p of Some (t, Some mo) \<Rightarrow> map (byte_at d) [mo * ALIGNMENT..<(mo + 1) * ALIGNMENT] | _ \<Rightarrow> replicate ALIGNMENT 0)"

text \<open>The mapping has its data in its file.\<close>

definition data_there :: "('f \<Rightarrow> byte list) \<Rightarrow> 'f list \<Rightarrow> segment_mapping \<Rightarrow> bool" where
  "data_there content files m \<longleftrightarrow> zeroed m \<or> tag m < length files \<and> mend m * ALIGNMENT \<le> length (content (files ! tag m))"

text \<open>The mappings \<open>J\<close> of the file content \<open>d\<close>, with data from sector \<open>k\<close> to sector \<open>k'\<close>, stand for the mappings \<open>ms\<close>.\<close>

definition stands_for :: "('f \<Rightarrow> byte list) \<Rightarrow> 'f list \<Rightarrow> segment_mapping list \<Rightarrow> byte list \<Rightarrow> nat \<Rightarrow> nat \<Rightarrow> segment_mapping list \<Rightarrow> bool" where
  "stands_for content files ms d k k' J \<longleftrightarrow> segs_ok J \<and> (\<forall>j\<in>set J. k \<le> moffset j \<and> mend j \<le> k') \<and>
     (\<forall>x. (img J x = None \<longleftrightarrow> img ms x = None) \<and> dest_sector d (img J x) = sector content files (img ms x))"

lemma dest_sector_None: "dest_sector d None = sector content files None"
  by (simp add: dest_sector_def sector_def)

lemma byte_at_copy:
  assumes "length d0 = k * ALIGNMENT" "(mo + n) * ALIGNMENT \<le> length d" "i < n"
  shows "map (byte_at (d0 @ take (n * ALIGNMENT) (drop (mo * ALIGNMENT) d) @ rest)) [(k + i) * ALIGNMENT..<(k + i + 1) * ALIGNMENT] =
    map (byte_at d) [(mo + i) * ALIGNMENT..<(mo + i + 1) * ALIGNMENT]"
proof (rule nth_equalityI)
  fix j assume "j < length (map (byte_at (d0 @ take (n * ALIGNMENT) (drop (mo * ALIGNMENT) d) @ rest)) [(k + i) * ALIGNMENT..<(k + i + 1) * ALIGNMENT])"
  then have j: "j < ALIGNMENT" by (simp add: distrib_right)
  have "(i + 1) * ALIGNMENT \<le> n * ALIGNMENT" using assms(3) by (intro mult_le_mono1) simp
  then have "i * ALIGNMENT + j < n * ALIGNMENT" "mo * ALIGNMENT + n * ALIGNMENT \<le> length d"
    using j assms(2) by (simp_all add: distrib_right)
  then show "map (byte_at (d0 @ take (n * ALIGNMENT) (drop (mo * ALIGNMENT) d) @ rest)) [(k + i) * ALIGNMENT..<(k + i + 1) * ALIGNMENT] ! j =
      map (byte_at d) [(mo + i) * ALIGNMENT..<(mo + i + 1) * ALIGNMENT] ! j"
    using j assms(1) by (simp add: distrib_right byte_at_def nth_append algebra_simps)
qed (simp add: distrib_right)

text \<open>One mapping: a zeroed one, and the pieces of a copied one.\<close>

lemma stands_for_zero:
  assumes "map_ok m" "zeroed m" "k < 2 ^ 55"
  shows "stands_for content files [m] d k k [m\<lparr>moffset := k mod 2 ^ 55\<rparr>]"
  using assms by (auto simp: stands_for_def map_ok_def mend_def seg_end_def seg_at_def dest_sector_def sector_def split: option.splits)

lemma stands_for_copy:
  assumes "map_ok m" "\<not> zeroed m" "data_there content files m" "seg_end m < 2 ^ 50" "length d0 = k * ALIGNMENT" "k + s_length m < 2 ^ 55"
    and "d = d0 @ take (s_length m * ALIGNMENT) (drop (moffset m * ALIGNMENT) (content (files ! tag m))) @ rest"
  shows "stands_for content files [m] d k (k + s_length m) (pieces (s_offset m) k (tag m) (s_length m))"
proof -
  let ?c = "s_length m" and ?a = "s_offset m"
  have p: "segs_ok (pieces ?a k (tag m) ?c)" "\<forall>j\<in>set (pieces ?a k (tag m) ?c). k \<le> moffset j \<and> mend j \<le> k + ?c \<and> tag j = tag m"
      "\<forall>x. img (pieces ?a k (tag m) ?c) x = (if ?a \<le> x \<and> x < ?a + ?c then Some (tag m, Some (k + (x - ?a))) else None)"
    using pieces_ok [of ?a ?c k "tag m"] assms(1,4,6) by (auto simp: map_ok_def seg_end_def)
  have there: "(moffset m + ?c) * ALIGNMENT \<le> length (content (files ! tag m))" using assms(2,3) by (simp add: data_there_def mend_def)
  have "dest_sector d (Some (tag m, Some (k + (x - ?a)))) = sector content files (Some (tag m, Some (moffset m + (x - ?a))))"
    if "?a \<le> x" "x < ?a + ?c" for x
    using byte_at_copy [OF assms(5) there, of "x - ?a" rest] that by (simp add: dest_sector_def sector_def assms(7))
  then show ?thesis
    using p assms(2) by (auto simp: stands_for_def seg_at_def seg_end_def dest_sector_None)
qed

lemma dest_sector_more:
  assumes "(\<forall>t mo. p = Some (t, Some mo) \<longrightarrow> (mo + 1) * ALIGNMENT \<le> length d)"
  shows "dest_sector (d @ rest) p = dest_sector d p"
  using assms sector_append_old by (auto simp: dest_sector_def split: option.split)

lemma stands_for_more:
  assumes "stands_for content files ms d k k' J" "k' * ALIGNMENT \<le> length d"
  shows "stands_for content files ms (d @ rest) k k' J"
proof -
  have "(mo + 1) * ALIGNMENT \<le> length d" if hit: "img J x = Some (t, Some mo)" for x t mo
  proof -
    obtain j where "j \<in> set J" "seg_at j x = Some (t, Some mo)" using img_mem [OF hit] by blast
    then have "mo + 1 \<le> k'" using assms(1) by (fastforce simp: stands_for_def seg_at_def seg_end_def mend_def split: if_splits)
    then show ?thesis using assms(2) mult_le_mono1 [of "mo + 1" k' ALIGNMENT] by linarith
  qed
  then show ?thesis using assms(1) dest_sector_more by (simp add: stands_for_def)
qed

lemma stands_for_None: "stands_for content files ms d k k' J \<Longrightarrow> (img J x = None) = (img ms x = None)"
  unfolding stands_for_def by blast

lemma stands_for_range: "stands_for content files ms d k k' J \<Longrightarrow> j \<in> set J \<Longrightarrow> img ms (s_offset j) \<noteq> None \<and> img ms (seg_end j - 1) \<noteq> None"
proof -
  assume st: "stands_for content files ms d k k' J" and j: "j \<in> set J"
  then have "s_offset j < seg_end j" using map_ok_less by (auto simp: stands_for_def segs_ok_def)
  then have "seg_at j (s_offset j) \<noteq> None" "seg_at j (seg_end j - 1) \<noteq> None" by (auto simp: seg_at_def)
  then have "img J (s_offset j) \<noteq> None" "img J (seg_end j - 1) \<noteq> None" using j by (auto simp: img_None_iff)
  then show ?thesis using stands_for_None [OF st] by simp
qed

lemma stands_for_append:
  assumes "stands_for content files [m] d k k1 J1" "stands_for content files ms d k1 k' J2" "k \<le> k1" "k1 \<le> k'" "segs_ok (m # ms)"
  shows "stands_for content files (m # ms) d k k' (J1 @ J2)"
proof -
  have before: "seg_less j1 j2" if "j1 \<in> set J1" "j2 \<in> set J2" for j1 j2
  proof -
    have "seg_end j1 - 1 < seg_end m" using stands_for_range [OF assms(1) that(1)] by (auto simp: seg_at_def split: if_splits)
    moreover have "\<exists>m'\<in>set ms. seg_at m' (s_offset j2) \<noteq> None"
      using stands_for_range [OF assms(2) that(2)] unfolding img_None_iff by blast
    then obtain m' where "m' \<in> set ms" "s_offset m' \<le> s_offset j2" by (auto simp: seg_at_None_iff)
    moreover from this have "seg_end m \<le> s_offset m'" using assms(5) by (simp add: seg_less_def)
    ultimately show ?thesis by (simp add: seg_less_def)
  qed
  have images: "(img J1 x = None \<longleftrightarrow> img [m] x = None) \<and> dest_sector d (img J1 x) = sector content files (img [m] x)"
      "(img J2 x = None \<longleftrightarrow> img ms x = None) \<and> dest_sector d (img J2 x) = sector content files (img ms x)" for x
    using assms(1,2) unfolding stands_for_def by blast+
  have "img (J1 @ J2) x = (case img J1 x of None \<Rightarrow> img J2 x | Some p \<Rightarrow> Some p)" for x by (rule img_append)
  moreover have "img (m # ms) x = (case img [m] x of None \<Rightarrow> img ms x | Some p \<Rightarrow> Some p)" for x using img_append [of "[m]" ms x] by simp
  ultimately have "(img (J1 @ J2) x = None \<longleftrightarrow> img (m # ms) x = None) \<and> dest_sector d (img (J1 @ J2) x) = sector content files (img (m # ms) x)" for x
    using images [of x] by (auto split: option.split)
  moreover have "\<forall>j\<in>set (J1 @ J2). k \<le> moffset j \<and> mend j \<le> k'" using assms(1-4) by (fastforce simp: stands_for_def)
  ultimately show ?thesis using assms(1,2) before by (simp add: stands_for_def)
qed

lemma compact_loop_ok:
  assumes ops: "complete_files ops content"
  shows "short_index ms \<Longrightarrow> \<forall>m\<in>set ms. data_there content files m \<Longrightarrow> ftell ops dest = length (content dest) \<Longrightarrow>
    length (content dest) = k * ALIGNMENT \<Longrightarrow> k + blocks ms < 2 ^ 55 \<Longrightarrow>
    \<exists>J dest' body. compact_loop ops files ms k index dest = Some (0, k + blocks ms, index @ J, dest') \<and>
      content dest' = content dest @ body \<and> length body = blocks ms * ALIGNMENT \<and> ftell ops dest' = length (content dest') \<and>
      stands_for content files ms (content dest') k (k + blocks ms) J"
proof (induction ms arbitrary: k index dest)
  case Nil
  then show ?case by (auto simp: stands_for_def dest_sector_def sector_def intro!: exI [of _ dest])
next
  case (Cons m ms)
  have m: "map_ok m" "seg_end m < 2 ^ 50" "short_index ms" "segs_ok (m # ms)" "data_there content files m" "\<forall>m\<in>set ms. data_there content files m"
    using short_index_Cons [OF Cons.prems(1)] Cons.prems(1,2) by (auto simp: short_index_def)
  show ?case
  proof (cases "zeroed m")
    case True
    then have b: "blocks (m # ms) = blocks ms" by (simp add: blk_def)
    obtain J dest' body where ih: "compact_loop ops files ms k (index @ [m\<lparr>moffset := k mod 2 ^ 55\<rparr>]) dest =
          Some (0, k + blocks ms, (index @ [m\<lparr>moffset := k mod 2 ^ 55\<rparr>]) @ J, dest')"
        "content dest' = content dest @ body" "length body = blocks ms * ALIGNMENT" "ftell ops dest' = length (content dest')"
        "stands_for content files ms (content dest') k (k + blocks ms) J"
      using Cons.IH [OF m(3,6) Cons.prems(3,4) Cons.prems(5) [unfolded b], of "index @ [m\<lparr>moffset := k mod 2 ^ 55\<rparr>]"] by blast
    have "stands_for content files (m # ms) (content dest') k (k + blocks ms) ([m\<lparr>moffset := k mod 2 ^ 55\<rparr>] @ J)"
      using stands_for_append [OF stands_for_zero [OF m(1) True] ih(5) _ _ m(4)] Cons.prems(5) by simp
    then show ?thesis using ih True b by auto
  next
    case False
    let ?c = "s_length m" and ?src = "files ! tag m" and ?P = "pieces (s_offset m) k (tag m) (s_length m)"
    have b: "blocks (m # ms) = ?c + blocks ms" using False by (simp add: blk_def)
    have there: "tag m < length files" "(moffset m + ?c) * ALIGNMENT \<le> length (content ?src)"
      using m(5) False by (simp_all add: data_there_def mend_def)
    have pre: "moffset m * ALIGNMENT + ?c * ALIGNMENT \<le> length (content ?src)" "s_offset m + ?c < 2 ^ 50" "k + ?c < 2 ^ 55"
      using there(2) m(2) Cons.prems(5) b by (simp_all add: distrib_right seg_end_def)
    obtain d1 where d1: "pcopy_loop ops ?src (moffset m * ALIGNMENT) (?c * ALIGNMENT)
          \<lparr>s_offset = s_offset m, s_length = 0, moffset = k, zeroed = False, tag = tag m\<rparr> index 0 dest = (int ?c, index @ ?P, d1)"
        "content d1 = content dest @ take (?c * ALIGNMENT) (drop (moffset m * ALIGNMENT) (content ?src))" "ftell ops d1 = length (content d1)"
      using pcopy_loop_ok [OF ops pre(1) Cons.prems(3) pre(2,3) refl, of "tag m" index 0] by auto
    have len1: "length (content d1) = (k + ?c) * ALIGNMENT" using d1(2) Cons.prems(4) pre(1) by (simp add: distrib_right)
    obtain J dest' body where ih: "compact_loop ops files ms (k + ?c) (index @ ?P) d1 = Some (0, k + ?c + blocks ms, (index @ ?P) @ J, dest')"
        "content dest' = content d1 @ body" "length body = blocks ms * ALIGNMENT" "ftell ops dest' = length (content dest')"
        "stands_for content files ms (content dest') (k + ?c) (k + ?c + blocks ms) J"
      using Cons.IH [OF m(3,6) d1(3) len1 Cons.prems(5) [unfolded b add.assoc [symmetric]], of "index @ ?P"] by blast
    have "stands_for content files [m] (content dest') k (k + ?c) ?P"
      using stands_for_copy [OF m(1) False m(5,2) Cons.prems(4) pre(3), of "content dest'" body] ih(2) d1(2) by simp
    then have "stands_for content files (m # ms) (content dest') k (k + ?c + blocks ms) (?P @ J)"
      using stands_for_append [OF _ ih(5) _ _ m(4)] by simp
    moreover have "compact_loop ops files (m # ms) k index dest = Some (0, k + blocks (m # ms), index @ ?P @ J, dest')"
      using False there(1) d1(1) ih(1) b by (simp add: pcopy_def add.assoc)
    moreover have "content dest' = content dest @ (take (?c * ALIGNMENT) (drop (moffset m * ALIGNMENT) (content ?src)) @ body)"
      using ih(2) d1(2) by simp
    moreover have "length (take (?c * ALIGNMENT) (drop (moffset m * ALIGNMENT) (content ?src)) @ body) = blocks (m # ms) * ALIGNMENT"
      using ih(3) pre(1) b by (simp add: distrib_right)
    ultimately show ?thesis using ih(4) unfolding b add.assoc by blast
  qed
qed

subsection \<open>The index on disk\<close>

lemma pad_index_ok: "\<exists>k p. pad_index ms = ms @ replicate p invalid_mapping \<and> length (pad_index ms) = 256 * k \<and> length (pad_index ms) < length ms + 256"
proof (cases "length ms mod 256 = 0")
  case True
  then obtain k where "length ms = 256 * k" by (auto elim!: dvdE [OF mod_0_imp_dvd])
  then show ?thesis by (auto simp: pad_index_def intro!: exI [of _ 0] exI [of _ k])
next
  case False
  let ?p = "256 - length ms mod 256"
  have "n + (256 - r) = 256 * (q + 1)" if "256 * q + r = n" "r < 256" for q r n :: nat using that by simp
  from this [OF mult_div_mod_eq] have "length ms + ?p = 256 * (length ms div 256 + 1)" by simp
  then show ?thesis using False by (auto simp: pad_index_def Let_def intro!: exI [of _ ?p] exI [of _ "length ms div 256 + 1"])
qed

lemma write_index_ok:
  assumes ops: "complete_files ops content"
  shows "length ms = 256 * k \<Longrightarrow> ftell ops dest = length (content dest) \<Longrightarrow>
    \<exists>dest'. write_index ops k ms dest = Some dest' \<and> content dest' = content dest @ concat (map mapping_bytes ms) \<and> ftell ops dest' = length (content dest')"
proof (induction k arbitrary: ms dest)
  case (Suc k)
  let ?b = "concat (map mapping_bytes (take 256 ms))"
  have len: "length ?b = ALIGNMENT4K" "length (drop 256 ms) = 256 * k" using Suc.prems(1) by (simp_all add: ALIGNMENT4K_def)
  obtain d1 where d1: "fwrite ops dest ?b = (int (length ?b), d1)" "content d1 = content dest @ ?b" "ftell ops d1 = length (content d1)"
    using write_complete [OF ops Suc.prems(2)] by blast
  obtain d2 where d2: "write_index ops k (drop 256 ms) d1 = Some d2" "content d2 = content d1 @ concat (map mapping_bytes (drop 256 ms))"
      "ftell ops d2 = length (content d2)"
    using Suc.IH [OF len(2) d1(3)] by blast
  have "?b @ concat (map mapping_bytes (drop 256 ms)) = concat (map mapping_bytes ms)"
    by (simp add: concat_append [symmetric] map_append [symmetric] del: concat_append map_append)
  then show ?case using d1 d2 len(1) by simp
qed simp

text \<open>Mappings that do not overlap are fewer than the sectors below the last one.\<close>

lemma length_segs_le: "segs_ok ms \<Longrightarrow> \<forall>m\<in>set ms. b \<le> s_offset m \<Longrightarrow> b \<le> 2 ^ 50 \<Longrightarrow> b + length ms \<le> 2 ^ 50"
proof (induction ms arbitrary: b)
  case (Cons m ms)
  have m: "map_ok m" "\<forall>m'\<in>set ms. seg_end m \<le> s_offset m'" "segs_ok ms" using Cons.prems(1) by (auto simp: seg_less_def)
  have "seg_end m + length ms \<le> 2 ^ 50" using Cons.IH [OF m(3,2)] m(1) by (simp add: map_ok_def)
  then show ?case using m(1) Cons.prems(2) by (auto simp: map_ok_def seg_end_def)
qed simp

lemma short_by_image:
  assumes "segs_ok ms" "\<And>x. img ms x \<noteq> None \<Longrightarrow> x < 2 ^ 50 - 1"
  shows "short_index ms"
proof -
  have "seg_end m < 2 ^ 50" if "m \<in> set ms" for m
  proof -
    have "s_offset m < seg_end m" using assms(1) that map_ok_less by (auto simp: segs_ok_def)
    then have "seg_at m (seg_end m - 1) \<noteq> None" by (auto simp: seg_at_def)
    then have "img ms (seg_end m - 1) \<noteq> None" using that by (auto simp: img_None_iff)
    then show ?thesis using assms(2) by fastforce
  qed
  then show ?thesis using assms(1) by (simp add: short_index_def)
qed

lemma short_image: "short_index ms \<Longrightarrow> img ms x \<noteq> None \<Longrightarrow> x < 2 ^ 50 - 1"
proof -
  assume "short_index ms" "img ms x \<noteq> None"
  then obtain m where "seg_at m x \<noteq> None" "seg_end m < 2 ^ 50" by (auto simp: short_index_def img_None_iff)
  then show ?thesis by (auto simp: seg_at_def split: if_splits)
qed

subsection \<open>A committed layer\<close>

text \<open>A file that holds a sealed layer with the sectors \<open>d\<close>: its header, its data, its index, and its trailer.\<close>

definition sealed_file :: "('f \<Rightarrow> byte list) \<Rightarrow> nat \<Rightarrow> (nat \<Rightarrow> byte list) \<Rightarrow> 'f \<Rightarrow> bool" where
  "sealed_file content vsz d fl \<longleftrightarrow> (\<exists>h body C pad t args. content fl = ht_block h @ body @ concat (map mapping_bytes (C @ replicate pad invalid_mapping)) @ ht_block t \<and>
     ht_says True True True 0 0 args h \<and> ht_says False True True (SPACE + length body) (length C + pad) args t \<and> \<not> li_sparse_rw args \<and>
     li_virtual_size args = vsz \<and> is_aligned (length body) \<and> length (content fl) < 2 ^ 64 \<and> short_index C \<and>
     (\<forall>j\<in>set C. SPACE div ALIGNMENT \<le> moffset j \<and> mend j * ALIGNMENT \<le> SPACE + length body) \<and>
     (\<forall>x. dest_sector (content fl) (img C x) = d x))"

lemma index_within:
  assumes "\<forall>j\<in>set C. map_ok j \<and> b \<le> moffset j \<and> mend j \<le> e"
  shows "verify_mapping_moffset (map (\<lambda>m. m\<lparr>tag := 0\<rparr>) C) b e"
proof -
  have "within (moffset j) (mend j) b e (zeroed j)" if "j \<in> set C" for j
    using assms that by (auto simp: within_def mend_def map_ok_def)
  then show ?thesis by (auto simp: verify_mapping_moffset_def list_all_iff untag_simps)
qed

lemma untag_segs_ok: "segs_ok ms \<Longrightarrow> segs_ok (map (\<lambda>m. m\<lparr>tag := 0\<rparr>) ms)"
  by (induction ms) (auto simp: seg_less_def untag_simps)

lemma dest_sector_untag: "dest_sector d (img (map (\<lambda>m. m\<lparr>tag := 0\<rparr>) ms) x) = sector content [fl] (img (map (\<lambda>m. m\<lparr>tag := 0\<rparr>) ms) x)" if "d = content fl"
proof -
  have "t = 0" if "img (map (\<lambda>m. m\<lparr>tag := 0\<rparr>) ms) x = Some (t, q)" for t q
    using img_mem [OF that] by (auto simp: seg_at_def split: if_splits)
  then show ?thesis using that by (cases "img (map (\<lambda>m. m\<lparr>tag := 0\<rparr>) ms) x") (auto simp: dest_sector_def sector_def split: option.split)
qed

lemma dest_sector_snd: "map_option snd p = map_option snd q \<Longrightarrow> dest_sector d p = dest_sector d q"
  by (cases p; cases q) (auto simp: dest_sector_def split: option.split)

lemma open_sealed:
  assumes rd: "reads_content ops content" and fl: "sealed_file content vsz d fl"
  shows "\<exists>f. open_file_ro ops fl = Some f \<and> device_ok f \<and> m_vsize f = vsz \<and> disk content f = d"
proof -
  obtain h body C pad t args where c: "content fl = ht_block h @ body @ concat (map mapping_bytes (C @ replicate pad invalid_mapping)) @ ht_block t"
      "ht_says True True True 0 0 args h" "ht_says False True True (SPACE + length body) (length C + pad) args t" "\<not> li_sparse_rw args"
      "li_virtual_size args = vsz" "is_aligned (length body)" "length (content fl) < 2 ^ 64" "short_index C"
      "\<forall>j\<in>set C. SPACE div ALIGNMENT \<le> moffset j \<and> mend j * ALIGNMENT \<le> SPACE + length body" "\<forall>x. dest_sector (content fl) (img C x) = d x"
    using fl unfolding sealed_file_def by blast
  let ?L = "C @ replicate pad invalid_mapping" and ?C = "map (\<lambda>m. m\<lparr>tag := 0\<rparr>) C"
  have ok: "segs_ok C" "\<forall>j\<in>set C. map_ok j \<and> seg_end j < 2 ^ 50" using c(8) by (simp_all add: short_index_def segs_ok_def)
  have "s_offset j \<noteq> INVALID_OFFSET" if "j \<in> set C" for j
    using bspec [OF ok(2) that] by (auto simp: INVALID_OFFSET_def MAX_OFFSET_def map_ok_def seg_end_def)
  then have filt: "filter (\<lambda>m. s_offset m \<noteq> INVALID_OFFSET) ?L = C" by (auto simp: invalid_mapping_def)
  have fit: "\<forall>m\<in>set ?L. fields_fit m" using ok(2) fields_fit_simps by auto
  have parts: "content fl = ht_block h @ body @ concat (map mapping_bytes ?L) @ [] @ ht_block t" "ht_says False True True (SPACE + length body) (length ?L) args t"
    using c(1,3) by simp_all
  obtain ht' where load: "do_load_index ops fl True 0 = Some (ht', ?C)" "ht_virtual_size ht' = vsz" "ht_index_offset ht' = SPACE + length body"
    using load_sealed [OF rd parts(1) c(2) parts(2) c(4) fit c(7)] unfolding filt c(5) by blast
  have "mend j \<le> (SPACE + length body) div ALIGNMENT" if "j \<in> set C" for j using c(9) that by (simp add: less_eq_div_iff_mult_less_eq)
  then have "verify_mapping_moffset ?C (SPACE div ALIGNMENT) ((SPACE + length body) div ALIGNMENT)" using ok(2) c(9) by (intro index_within) blast
  moreover have seg: "segs_ok ?C" "\<forall>m\<in>set ?C. map_ok m" using untag_segs_ok [OF ok(1)] by (simp_all add: segs_ok_def)
  ultimately have ix: "create_memory_index ?C (SPACE div ALIGNMENT) ((SPACE + length body) div ALIGNMENT) 0 = Some (Index_of_array ?C 0)"
    using verify_mapping_order_sorted [OF seg(2)] by (simp add: create_memory_index_def)
  let ?f = "LSMTFile_new [fl] (MI_Index (Index_of_array ?C 0)) vsz None"
  have "open_file_ro ops fl = Some ?f" using load ix by (simp add: open_file_ro_def)
  moreover have "t = 0" if "img ?C x = Some (t, q)" for x t q using img_mem [OF that] by (auto simp: seg_at_def split: if_splits)
  then have "device_ok ?f" using seg(1) by (auto simp: device_ok_def LSMTFile_new_def Index_of_array_def is_aligned_def ALIGNMENT_def)
  moreover have "disk content ?f x = d x" for x
    using dest_sector_untag [of "content fl" content fl C x] dest_sector_snd [OF img_untag [of C x], of "content fl"] c(10)
    by (simp add: disk_def LSMTFile_new_def Index_of_array_def)
  ultimately show ?thesis by (auto simp: fun_eq_iff LSMTFile_new_def)
qed

text \<open>The layer information of the new file.\<close>

definition tag_ok :: "CommitArgs \<Rightarrow> bool" where
  "tag_ok ca \<longleftrightarrow> get_tag_len ca \<le> TAG_SIZE \<and> (case ca_user_tag ca of None \<Rightarrow> get_tag_len ca = 0 | Some t \<Rightarrow> get_tag_len ca \<le> length t)"

lemma commit_layer_ok:
  assumes "\<forall>u. length (uuid_norm u) = 37" "tag_ok ca" "vsz < 2 ^ 64"
  shows "info_ok (commit_layer uuid_norm uuid_valid ca (vsz, uuid_norm u))" "\<not> li_sparse_rw (commit_layer uuid_norm uuid_valid ca (vsz, uuid_norm u))"
    "li_virtual_size (commit_layer uuid_norm uuid_valid ca (vsz, uuid_norm u)) = vsz"
  using assms by (auto simp: info_ok_def commit_layer_def tag_ok_def split: option.splits)

lemma load_layer_info_ok:
  assumes "reads_content ops content" "content fl = ht_block dh @ rest" "ht_says True False True 0 0 args dh"
  shows "\<exists>u. load_layer_info ops uuid_norm [fl] = Some (li_virtual_size args, uuid_norm u)"
proof -
  have dh: "ht_fits dh" "ht_virtual_size dh = li_virtual_size args" using assms(3) by (simp_all add: ht_says_def)
  have "fpread ops fl SPACE 0 = (int SPACE, ht_block dh)" using assms(1,2) length_ht_block [OF dh(1)] by (simp add: reads_content_def)
  then show ?thesis using parse_ht_block [OF dh(1)] dh(2) by (auto simp: load_layer_info_def)
qed

lemma compact_ok:
  assumes ops: "complete_files ops content" and uu: "\<forall>u. length (uuid_norm u) = 37" and ca: "tag_ok ca" and "vsz < 2 ^ 64"
    and info: "load_layer_info ops uuid_norm files = Some (vsz, uuid_norm u)" and ms: "short_index ms" "\<forall>m\<in>set ms. data_there content files m"
    and dest: "fresh ops content dest"
  shows "\<exists>dest'. compact ops uuid_norm uuid_valid files ms ca dest = Some (0, dest') \<and>
    sealed_file content vsz (\<lambda>x. sector content files (img ms x)) dest'"
proof -
  let ?k = "SPACE div ALIGNMENT" and ?layer = "commit_layer uuid_norm uuid_valid ca (vsz, uuid_norm u)"
  note layer = commit_layer_ok [OF uu ca assms(4), of uuid_valid u]
  have d: "content dest = []" "ftell ops dest = length (content dest)" using dest by (simp_all add: fresh_def)
  obtain d1 h where d1: "write_header_trailer ops dest True True True 0 0 ?layer = (int SPACE, d1)" "ht_says True True True 0 0 ?layer h"
      "content d1 = ht_block h" "ftell ops d1 = length (content d1)"
    using write_header_ok [OF ops d(2) layer(1), of 0 0 True True True] d(1) by auto
  have h: "length (ht_block h) = SPACE" "SPACE = ?k * ALIGNMENT" using d1(2) length_ht_block by (auto simp: ht_says_def SPACE_def ALIGNMENT_def)
  have segs: "segs_ok ms" using ms(1) by (simp add: short_index_def)
  have small: "?k + blocks ms < 2 ^ 55" using blocks_le [OF segs] by (simp add: SPACE_def ALIGNMENT_def)
  obtain J d2 body where d2: "compact_loop ops files ms ?k [] d1 = Some (0, ?k + blocks ms, [] @ J, d2)" "content d2 = content d1 @ body"
      "length body = blocks ms * ALIGNMENT" "ftell ops d2 = length (content d2)" "stands_for content files ms (content d2) ?k (?k + blocks ms) J"
    using compact_loop_ok [OF ops ms d1(4) _ small, of "[]"] d1(3) h by auto
  define C where "C = compress_raw_index J"
  have J: "segs_ok J" "\<forall>j\<in>set J. ?k \<le> moffset j \<and> mend j \<le> ?k + blocks ms" using d2(5) by (simp_all add: stands_for_def)
  have C: "segs_ok C" "img C = img J" "\<forall>j\<in>set C. ?k \<le> moffset j \<and> mend j \<le> ?k + blocks ms"
    using compress_raw_ok [OF J(1)] compress_raw_range [OF J(2)] by (simp_all add: C_def)
  have "short_index C" using C(1,2) stands_for_None [OF d2(5)] short_image [OF ms(1)] by (intro short_by_image) auto
  obtain n pad where pad: "pad_index C = C @ replicate pad invalid_mapping" "length (pad_index C) = 256 * n" "length (pad_index C) < length C + 256"
    using pad_index_ok by blast
  have len: "length C \<le> 2 ^ 50" "blocks ms \<le> 2 ^ 50" using length_segs_le [OF C(1), of 0] blocks_le [OF segs] by simp_all
  obtain d3 where d3: "write_index ops n (pad_index C) d2 = Some d3" "content d3 = content d2 @ concat (map mapping_bytes (pad_index C))"
      "ftell ops d3 = length (content d3)"
    using write_index_ok [OF ops pad(2) d2(4)] by blast
  obtain d4 where d4: "fseek_end ops d3 = (length (content d3), d4)" "content d4 = content d3" "ftell ops d4 = length (content d4)"
    using seek_complete [OF ops, of d3] by blast
  let ?io = "SPACE + length body"
  have io: "(?k + blocks ms) * ALIGNMENT = ?io" "?io < 2 ^ 64" "length (pad_index C) < 2 ^ 64"
    using d2(3) h(2) len pad(3) by (auto simp: distrib_right SPACE_def ALIGNMENT_def)
  obtain d5 t where d5: "write_header_trailer ops d4 False True True ?io (length (pad_index C)) ?layer = (int SPACE, d5)"
      "ht_says False True True ?io (length (pad_index C)) ?layer t" "content d5 = content d4 @ ht_block t"
    using write_header_ok [OF ops d4(3) layer(1) io(2,3)] by blast
  have run: "compact ops uuid_norm uuid_valid files ms ca dest = Some (0, d5)"
    using info d1(1) d2(1) io(1) pad(2) d3(1) d4(1) d5(1) by (simp add: compact_def Let_def C_def [symmetric])
  have body: "content d5 = ht_block h @ body @ concat (map mapping_bytes (C @ replicate pad invalid_mapping)) @ ht_block t"
    unfolding d5(3) d4(2) d3(2) d2(2) d1(3) pad(1) by simp
  have "length (content d5) = SPACE + length body + 16 * length (pad_index C) + SPACE"
    unfolding d5(3) d4(2) d3(2) d2(2) d1(3) using h(1) d5(2) length_ht_block by (simp add: ht_says_def)
  then have total: "length (content d5) < 2 ^ 64" using d2(3) len pad(3) by (simp add: SPACE_def ALIGNMENT_def)
  have "stands_for content files ms (content d2 @ (concat (map mapping_bytes (pad_index C)) @ ht_block t)) ?k (?k + blocks ms) J"
    using stands_for_more [OF d2(5)] d2(2,3) d1(3) h by (simp add: distrib_right)
  then have "dest_sector (content d5) (img C x) = sector content files (img ms x)" for x
    unfolding d5(3) d4(2) d3(2) append_assoc C(2) stands_for_def by blast
  moreover have "mend j * ALIGNMENT \<le> ?io" if "j \<in> set C" for j using C(3) that mult_le_mono1 [of "mend j" "?k + blocks ms" ALIGNMENT] io(1) by simp
  moreover have "is_aligned (length body)" using d2(3) by (simp add: is_aligned_def)
  ultimately have "sealed_file content vsz (\<lambda>x. sector content files (img ms x)) d5"
    unfolding sealed_file_def using body d1(2) d5(2) pad(1) layer(2,3) total \<open>short_index C\<close> C(3)
    by (intro exI [of _ h] exI [of _ body] exI [of _ C] exI [of _ pad] exI [of _ t] exI [of _ ?layer]) auto
  then show ?thesis using run by blast
qed

lemma img_member: "segs_ok ms \<Longrightarrow> m \<in> set ms \<Longrightarrow> seg_at m x = Some p \<Longrightarrow> img ms x = Some p"
proof (induction ms)
  case (Cons q ms)
  then show ?case by (auto simp: seg_less_def seg_at_def split: if_splits option.splits)
qed simp

lemma layer_index_ok:
  assumes inv: "layer_inv content args f" and files: "m_files f = [fd]" "m_rw_tag f = 0" "kind (m_index f) = None"
  shows "short_index (front_map (m_index f)) \<and> (\<forall>m\<in>set (front_map (m_index f)). data_there content (m_files f) m) \<and>
    img (front_map (m_index f)) = mi_img (m_index f)"
proof -
  let ?ms = "front_map (m_index f)"
  have dev: "device_ok f" "writable (m_index f)" "rw_content content f = content fd"
      "\<forall>x mo. mi_img (m_index f) x = Some (0, Some mo) \<longrightarrow> (mo + 1) * ALIGNMENT \<le> length (content fd)"
    using inv files by (auto simp: layer_inv_def dev_inv_def rw_content_def)
  have front: "segs_ok ?ms" "img ?ms = mi_img (m_index f)"
    using dev(1,2) files(3) by (auto simp: device_ok_def kind_def writable_def split: memory_idx.splits)
  obtain hdr R where R: "logged content hdr f R" "\<forall>m\<in>set R. rec_ok (length (content fd)) m" "\<forall>x. map_option snd (img ?ms x) = map_option snd (img (rev R) x)"
    using inv dev(3) unfolding layer_inv_def log_inv_def by fastforce
  have "x < 2 ^ 50 - 1" if "img ?ms x \<noteq> None" for x
  proof -
    have "img (rev R) x \<noteq> None" using R(3) [rule_format, of x] that by (cases "img (rev R) x") auto
    then obtain m where "m \<in> set R" "seg_at m x \<noteq> None" unfolding img_None_iff by auto
    then show ?thesis using R(2) by (fastforce simp: rec_ok_def seg_at_def split: if_splits)
  qed
  then have "short_index ?ms" by (intro short_by_image [OF front(1)])
  moreover have "data_there content (m_files f) m" if m: "m \<in> set ?ms" for m
  proof (cases "zeroed m")
    case False
    have "map_ok m" using front(1) m by (simp add: segs_ok_def)
    then have "seg_at m (seg_end m - 1) = Some (tag m, Some (mend m - 1))" using False by (auto simp: seg_at_def map_ok_def seg_end_def mend_def)
    then have hit: "mi_img (m_index f) (seg_end m - 1) = Some (tag m, Some (mend m - 1))" using img_member [OF front(1) m] front(2) by auto
    then have "tag m = 0" using dev(1) files(1) by (auto simp: device_ok_def)
    moreover from this hit have "(mend m - 1 + 1) * ALIGNMENT \<le> length (content fd)" using dev(4) by simp
    moreover have "0 < mend m" using \<open>map_ok m\<close> False by (simp add: map_ok_def mend_def)
    ultimately show ?thesis using files(1) by (simp add: data_there_def)
  qed (simp add: data_there_def)
  ultimately show ?thesis using front(2) by blast
qed

subsection \<open>Properties\<close>

text \<open>C3. Committing keeps the image.  A new layer takes any sequence of writes, discards and syncs; committing it into an empty file succeeds, the
  file opens as a read-only layer of the same size, and the sectors of that layer are those that the sequence leaves in an array: the copy in
  pieces, the compression of the index, its padding, and the reload with the invalid mappings dropped lose and move nothing.\<close>

theorem committed_layer_same_sectors:
  assumes "complete_files ops content" "info_ok args" "\<not> li_sparse_rw args" "fresh ops content fd" "fresh ops content fi" "fresh ops content dest"
    and "list_all op_ok ps" "SPACE + sum_list (map op_bytes ps) < 2 ^ 63" "\<forall>u. length (uuid_norm u) = 37" "tag_ok ca"
  shows "\<exists>f f1 dest' f2. create_file_rw ops args fd fi = Some f \<and> dev_run ops f ps = Some f1 \<and>
    LSMTFile_commit ops uuid_norm uuid_valid f1 ca dest = Some (0, dest') \<and> open_file_ro ops dest' = Some f2 \<and> device_ok f2 \<and>
    m_vsize f2 = li_virtual_size args \<and> disk content f2 = foldl array_exec (\<lambda>x. replicate ALIGNMENT 0) ps"
proof -
  have rd: "reads_content ops content" using assms(1) by (simp add: complete_files_def)
  obtain f where f: "create_file_rw ops args fd fi = Some f" "layer_inv content args f" "kind (m_index f) = None" "length (m_files f) = 1"
      "m_rw_tag f = 0" "disk content f = (\<lambda>x. replicate ALIGNMENT 0)" "length (rw_content content f) = SPACE"
    using create_file_rw_ok [OF assms(1-5)] by blast
  obtain f1 where f1: "dev_run ops f ps = Some f1" "layer_inv content args f1" "disk content f1 = foldl array_exec (disk content f) ps" "shape f1 = shape f"
    using layer_dev_run [OF assms(1) f(2) assms(7)] assms(8) f(7) by auto
  have "length (m_files f1) = 1" "m_rw_tag f1 = 0" "kind (m_index f1) = None" using f1(4) f(3-5) by (simp_all add: shape_def)
  then obtain fl where fl: "m_files f1 = [fl]" "m_rw_tag f1 = 0" "kind (m_index f1) = None" by (auto simp: length_Suc_conv)
  have ms: "short_index (front_map (m_index f1))" "\<forall>m\<in>set (front_map (m_index f1)). data_there content [fl] m"
      "img (front_map (m_index f1)) = mi_img (m_index f1)"
    using layer_index_ok [OF f1(2) fl] fl(1) by simp_all
  obtain dh rest where dh: "content fl = ht_block dh @ rest" "ht_says True False True 0 0 args dh"
    using f1(2) fl(1,2) by (auto simp: layer_inv_def rw_content_def)
  obtain u where u: "load_layer_info ops uuid_norm [fl] = Some (li_virtual_size args, uuid_norm u)"
    using load_layer_info_ok [OF rd dh] by blast
  have "li_virtual_size args < 2 ^ 64" using assms(2) by (simp add: info_ok_def)
  then obtain dest' where d: "compact ops uuid_norm uuid_valid [fl] (front_map (m_index f1)) ca dest = Some (0, dest')"
      "sealed_file content (li_virtual_size args) (\<lambda>x. sector content [fl] (img (front_map (m_index f1)) x)) dest'"
    using compact_ok [OF assms(1,9,10) _ u ms(1,2) assms(6)] by blast
  have "(\<lambda>x. sector content [fl] (img (front_map (m_index f1)) x)) = disk content f1" using ms(3) fl(1) by (simp add: fun_eq_iff disk_def)
  then obtain f2 where "open_file_ro ops dest' = Some f2" "device_ok f2" "m_vsize f2 = li_virtual_size args" "disk content f2 = disk content f1"
    using open_sealed [OF rd d(2)] by metis
  then show ?thesis using f(1,6) f1(1,3) d(1) fl(1) by (auto simp: LSMTFile_commit_def)
qed

lemma committed_layer_same_sectors_witness:
  "\<exists>f f1 dest' f2. create_file_rw mem_ops \<lparr>li_virtual_size = 10 ^ 9, li_uuid = replicate 37 1, li_parent_uuid = replicate 37 0, li_user_tag = [],
       li_sparse_rw = False, li_len = 0\<rparr> [] [] = Some f \<and> dev_run mem_ops f [Write 10 (replicate 1024 7), Discard 10 1] = Some f1 \<and>
     LSMTFile_commit mem_ops (\<lambda>u. take 37 (u @ replicate 37 0)) (\<lambda>u. False) f1 \<lparr>ca_user_tag = Some [65, 66, 0], ca_tag_len = 0, ca_uuid = [], ca_parent_uuid = []\<rparr> [] =
       Some (0, dest') \<and> open_file_ro mem_ops dest' = Some f2 \<and> disk id f2 11 = replicate 512 7 \<and> disk id f2 10 = replicate 512 0"
proof -
  let ?a = "\<lparr>li_virtual_size = 10 ^ 9, li_uuid = replicate 37 1, li_parent_uuid = replicate 37 0, li_user_tag = [], li_sparse_rw = False, li_len = 0\<rparr>"
  let ?ps = "[Write 10 (replicate 1024 7), Discard 10 1]" and ?u = "\<lambda>u. take 37 (u @ replicate 37 0)"
  let ?ca = "\<lparr>ca_user_tag = Some [65, 66, 0], ca_tag_len = 0, ca_uuid = [], ca_parent_uuid = []\<rparr>"
  have hyps: "info_ok ?a" "\<not> li_sparse_rw ?a" "fresh mem_ops id []" "list_all op_ok ?ps" "SPACE + sum_list (map op_bytes ?ps) < 2 ^ 63"
      "\<forall>u. length (?u u) = 37" "tag_ok ?ca"
    by (simp_all add: info_ok_def fresh_def mem_ops_def is_aligned_def ALIGNMENT_def SPACE_def tag_ok_def get_tag_len_def strlen_def TAG_SIZE_def
        min_def)
  have "foldl array_exec (\<lambda>x. replicate ALIGNMENT 0) ?ps 11 = replicate 512 7" "foldl array_exec (\<lambda>x. replicate ALIGNMENT 0) ?ps 10 = replicate 512 0"
    by (simp_all add: overwrite_def ALIGNMENT_def)
  then show ?thesis using committed_layer_same_sectors [OF mem_device_ok(1) hyps(1-3,3,3-7), of "\<lambda>u. False"] by fastforce
qed

end
