(* ===== verification/ZFile_Format.thy ===== *)
theory ZFile_Format
  imports Byte_File
begin

text \<open>
  The format of compressed files (\<open>zfile/zfile.cpp\<close>: \<open>CompressionFile::HeaderTrailer\<close>, \<open>CompressionFile::JumpTable\<close>;
  \<open>zfile/compressor.h\<close>: \<open>CompressOptions\<close>).

  A compressed file is a header of 512 bytes, the compressed blocks, each followed by its checksum when checksums are on, the
  table of the lengths of the blocks, the table of their uncompressed lengths when the blocks were cut by content, and a
  trailer of 512 bytes.  The jump table gives the place of a block from the lengths: a base for every group of blocks and a sum
  of 16 bits inside the group.

  The checksum functions are code of the environment with instructions of the processor: they are parameters.
\<close>

subsection \<open>Options\<close>

record CompressOptions =
  block_size :: nat
  algo :: byte
  level :: byte
  use_dict :: byte
  dict_size :: nat
  verify :: byte

definition opt_bytes :: "CompressOptions \<Rightarrow> byte list" where
  "opt_bytes op = le_bytes 4 (block_size op) @ [algo op] @ [level op] @ [use_dict op] @ [0] @ le_bytes 4 0 @ le_bytes 4 (dict_size op) @ [verify op] @
     replicate 7 0"

definition parse_opt :: "byte list \<Rightarrow> CompressOptions" where
  "parse_opt bs = \<lparr>block_size = le_value (field 0 4 bs), algo = hd (field 4 1 bs), level = hd (field 5 1 bs), use_dict = hd (field 6 1 bs),
     dict_size = le_value (field 12 4 bs), verify = hd (field 16 1 bs)\<rparr>"

definition opt_fits :: "CompressOptions \<Rightarrow> bool" where
  "opt_fits op \<longleftrightarrow> block_size op < 2 ^ 32 \<and> dict_size op < 2 ^ 32"

lemma length_opt_bytes [simp]: "length (opt_bytes op) = 24"
  by (simp add: opt_bytes_def)

lemma parse_opt_bytes: "opt_fits op \<Longrightarrow> parse_opt (opt_bytes op) = op"
  by (rule CompressOptions.equality) (simp_all add: parse_opt_def opt_bytes_def opt_fits_def field_here le_value_bytes_small)

subsection \<open>Header and trailer\<close>

definition Z_SPACE :: nat where "Z_SPACE = 512"

text \<open>The magic numbers: the string \<open>ZFile\<close> with the bytes 0, 1 and the terminating 0, and a UUID, field by field.\<close>

definition Z_MAGIC0 :: nat where
  "Z_MAGIC0 = le_value [90, 70, 105, 108, 101, 0, 1, 0]"

definition Z_MAGIC1 :: "byte list" where
  "Z_MAGIC1 = le_bytes 4 0x696a7574 @ le_bytes 2 0x792e @ le_bytes 2 0x6679 @ le_bytes 2 0x4140 @ [0x6c, 0x69, 0x62, 0x61, 0x62, 0x61]"

record zht =
  z_magic0 :: nat
  z_magic1 :: "byte list"
  z_size :: nat
  z_digest :: u32
  z_flags :: u64
  z_index_offset :: nat
  z_index_size :: nat
  z_original_file_size :: nat
  z_index_crc :: u32
  z_reserved :: nat
  z_opt :: CompressOptions

definition z_verify_magic :: "zht \<Rightarrow> bool" where
  "z_verify_magic ht \<longleftrightarrow> z_magic0 ht = Z_MAGIC0 \<and> z_magic1 ht = Z_MAGIC1"

definition Z_FLAG_SHIFT_HEADER :: nat where "Z_FLAG_SHIFT_HEADER = 0"
definition Z_FLAG_SHIFT_TYPE :: nat where "Z_FLAG_SHIFT_TYPE = 1"
definition Z_FLAG_SHIFT_SEALED :: nat where "Z_FLAG_SHIFT_SEALED = 2"
definition Z_FLAG_SHIFT_HEADER_OVERWRITE :: nat where "Z_FLAG_SHIFT_HEADER_OVERWRITE = 3"
definition Z_FLAG_SHIFT_CALC_DIGEST :: nat where "Z_FLAG_SHIFT_CALC_DIGEST = 4"
definition Z_FLAG_SHIFT_FASTCDC :: nat where "Z_FLAG_SHIFT_FASTCDC = 6"

lemmas z_shifts = Z_FLAG_SHIFT_HEADER_def Z_FLAG_SHIFT_TYPE_def Z_FLAG_SHIFT_SEALED_def Z_FLAG_SHIFT_HEADER_OVERWRITE_def
  Z_FLAG_SHIFT_CALC_DIGEST_def Z_FLAG_SHIFT_FASTCDC_def

text \<open>The result has 32 bits.\<close>

definition z_get_flag_bit :: "zht \<Rightarrow> nat \<Rightarrow> u32" where
  "z_get_flag_bit ht shift = ucast (z_flags ht AND push_bit shift 1)"

definition z_set_flag_bit :: "nat \<Rightarrow> zht \<Rightarrow> zht" where
  "z_set_flag_bit shift ht = ht\<lparr>z_flags := z_flags ht OR push_bit shift 1\<rparr>"

definition z_clr_flag_bit :: "nat \<Rightarrow> zht \<Rightarrow> zht" where
  "z_clr_flag_bit shift ht = ht\<lparr>z_flags := z_flags ht AND NOT (push_bit shift 1)\<rparr>"

definition z_is_header :: "zht \<Rightarrow> bool" where "z_is_header ht \<longleftrightarrow> z_get_flag_bit ht Z_FLAG_SHIFT_HEADER \<noteq> 0"
definition z_is_header_overwrite :: "zht \<Rightarrow> bool" where "z_is_header_overwrite ht \<longleftrightarrow> z_get_flag_bit ht Z_FLAG_SHIFT_HEADER_OVERWRITE \<noteq> 0"
definition z_is_trailer :: "zht \<Rightarrow> bool" where "z_is_trailer ht \<longleftrightarrow> \<not> z_is_header ht"
definition z_is_data_file :: "zht \<Rightarrow> bool" where "z_is_data_file ht \<longleftrightarrow> z_get_flag_bit ht Z_FLAG_SHIFT_TYPE \<noteq> 0"
definition z_is_sealed :: "zht \<Rightarrow> bool" where "z_is_sealed ht \<longleftrightarrow> z_get_flag_bit ht Z_FLAG_SHIFT_SEALED \<noteq> 0"
definition z_is_digest_enabled :: "zht \<Rightarrow> bool" where "z_is_digest_enabled ht \<longleftrightarrow> z_get_flag_bit ht Z_FLAG_SHIFT_CALC_DIGEST \<noteq> 0"
definition z_is_fastcdc :: "zht \<Rightarrow> bool" where "z_is_fastcdc ht \<longleftrightarrow> z_get_flag_bit ht Z_FLAG_SHIFT_FASTCDC \<noteq> 0"

text \<open>A new object, in memory that was cleared, and the layout of an object.\<close>

definition zht_new :: "CompressOptions \<Rightarrow> zht" where
  "zht_new op = \<lparr>z_magic0 = Z_MAGIC0, z_magic1 = Z_MAGIC1, z_size = 96, z_digest = 0, z_flags = 0, z_index_offset = 0, z_index_size = 0,
     z_original_file_size = 0, z_index_crc = 0, z_reserved = 0, z_opt = op\<rparr>"

definition zht_bytes :: "zht \<Rightarrow> byte list" where
  "zht_bytes ht = le_bytes 8 (z_magic0 ht) @ z_magic1 ht @ le_bytes 4 (z_size ht) @ le_bytes 4 (unat (z_digest ht)) @ le_bytes 8 (unat (z_flags ht)) @
     le_bytes 8 (z_index_offset ht) @ le_bytes 8 (z_index_size ht) @ le_bytes 8 (z_original_file_size ht) @ le_bytes 4 (unat (z_index_crc ht)) @
     le_bytes 4 (z_reserved ht) @ opt_bytes (z_opt ht)"

definition parse_zht :: "byte list \<Rightarrow> zht" where
  "parse_zht buf = \<lparr>z_magic0 = le_value (field 0 8 buf), z_magic1 = field 8 16 buf, z_size = le_value (field 24 4 buf),
     z_digest = of_nat (le_value (field 28 4 buf)), z_flags = of_nat (le_value (field 32 8 buf)), z_index_offset = le_value (field 40 8 buf),
     z_index_size = le_value (field 48 8 buf), z_original_file_size = le_value (field 56 8 buf), z_index_crc = of_nat (le_value (field 64 4 buf)),
     z_reserved = le_value (field 68 4 buf), z_opt = parse_opt (field 72 24 buf)\<rparr>"

definition zht_fits :: "zht \<Rightarrow> bool" where
  "zht_fits ht \<longleftrightarrow> z_magic0 ht < 2 ^ 64 \<and> length (z_magic1 ht) = 16 \<and> z_size ht < 2 ^ 32 \<and> z_index_offset ht < 2 ^ 64 \<and> z_index_size ht < 2 ^ 64 \<and>
     z_original_file_size ht < 2 ^ 64 \<and> z_reserved ht < 2 ^ 32 \<and> opt_fits (z_opt ht)"

text \<open>The block of 512 bytes that holds an object, the rest being zero.\<close>

definition zht_block :: "zht \<Rightarrow> byte list" where
  "zht_block ht = zht_bytes ht @ replicate (Z_SPACE - length (zht_bytes ht)) 0"

lemma length_zht_bytes: "zht_fits ht \<Longrightarrow> length (zht_bytes ht) = 96"
  by (simp add: zht_bytes_def zht_fits_def)

lemma length_zht_block: "zht_fits ht \<Longrightarrow> length (zht_block ht) = Z_SPACE"
  by (simp add: zht_block_def length_zht_bytes Z_SPACE_def)

lemma parse_zht_bytes:
  assumes "zht_fits ht"
  shows "parse_zht (zht_bytes ht @ rest) = ht"
proof -
  have fit: "z_magic0 ht < 256 ^ 8" "z_size ht < 256 ^ 4" "z_index_offset ht < 256 ^ 8" "z_index_size ht < 256 ^ 8" "z_original_file_size ht < 256 ^ 8"
      "z_reserved ht < 256 ^ 4" "unat (z_digest ht) < 256 ^ 4" "unat (z_index_crc ht) < 256 ^ 4" "unat (z_flags ht) < 256 ^ 8"
    and len: "length (z_magic1 ht) = 16"
    using assms unsigned_less [of "z_digest ht", where ?'a = nat] unsigned_less [of "z_index_crc ht", where ?'a = nat]
      unsigned_less [of "z_flags ht", where ?'a = nat] by (simp_all add: zht_fits_def)
  note le = fit [THEN le_value_bytes_small]
  have "parse_opt (opt_bytes (z_opt ht)) = z_opt ht" using assms parse_opt_bytes by (simp add: zht_fits_def)
  then show ?thesis
    by (intro zht.equality) (simp_all add: parse_zht_def zht_bytes_def len field_here le)
qed

lemma parse_zht_block: "zht_fits ht \<Longrightarrow> parse_zht (zht_block ht) = ht"
  by (simp add: zht_block_def parse_zht_bytes)

text \<open>The digest is the checksum of the whole block with the field of the digest cleared.\<close>

definition z_is_valid :: "(byte list \<Rightarrow> u32) \<Rightarrow> byte list \<Rightarrow> bool" where
  "z_is_valid crc32c buf \<longleftrightarrow>
     (if \<not> z_is_digest_enabled (parse_zht buf) then True
      else crc32c (put_bytes 28 (replicate 4 0) buf) = z_digest (parse_zht buf))"

lemma le_bytes_zero: "le_bytes n 0 = replicate n 0"
  by (induction n) simp_all

lemma clear_digest:
  assumes "zht_fits ht"
  shows "put_bytes 28 (replicate 4 0) (zht_block ht) = zht_block (ht\<lparr>z_digest := 0\<rparr>)"
proof -
  have len: "length (z_magic1 ht) = 16" using assms by (simp add: zht_fits_def)
  have zero: "le_bytes 4 0 = replicate 4 0" using le_bytes_zero .
  let ?a = "le_bytes 8 (z_magic0 ht) @ z_magic1 ht @ le_bytes 4 (z_size ht)"
  define rest where "rest = le_bytes 8 (unat (z_flags ht)) @ le_bytes 8 (z_index_offset ht) @ le_bytes 8 (z_index_size ht) @
     le_bytes 8 (z_original_file_size ht) @ le_bytes 4 (unat (z_index_crc ht)) @ le_bytes 4 (z_reserved ht) @ opt_bytes (z_opt ht) @ replicate (Z_SPACE - 96) 0"
  have "zht_block ht = ?a @ le_bytes 4 (unat (z_digest ht)) @ rest"
    unfolding zht_block_def length_zht_bytes [OF assms] by (simp only: zht_bytes_def rest_def append_assoc)
  moreover have "zht_fits (ht\<lparr>z_digest := 0\<rparr>)" using assms by (simp add: zht_fits_def)
  then have "zht_block (ht\<lparr>z_digest := 0\<rparr>) = ?a @ replicate 4 0 @ rest"
    unfolding zht_block_def length_zht_bytes by (simp add: zht_bytes_def rest_def zero len)
  ultimately show ?thesis using len by (simp add: put_bytes_def)
qed

subsection \<open>The jump table\<close>

record jump_table =
  group_size :: nat
  partial_offset :: "nat list"
  deltas :: "nat list"

definition uinttype_max :: nat where "uinttype_max = 65535"

text \<open>\<open>operator[]\<close>; \<open>None\<close> is an access behind the end of a vector or a division by zero.\<close>

definition jt_at :: "jump_table \<Rightarrow> nat \<Rightarrow> nat option" where
  "jt_at jt idx = do {
     ENV_BUG_ON (group_size jt = 0);
     let part_idx = idx div group_size jt;
     let inner_idx = idx AND (group_size jt - 1);
     ENV_BUG_ON (part_idx \<ge> length (partial_offset jt));
     let part_offset = partial_offset jt ! part_idx;
     if inner_idx \<noteq> 0 then do {
       ENV_BUG_ON (idx \<ge> length (deltas jt));
       Some (part_offset + deltas jt ! idx)
     } else Some part_offset
   }"

definition jt_size :: "jump_table \<Rightarrow> nat" where
  "jt_size jt = length (deltas jt)"

text \<open>The loop of \<open>build\<close>, from \<open>i\<close> on, with the lengths that are left.\<close>

fun jt_loop :: "nat \<Rightarrow> nat list \<Rightarrow> nat \<Rightarrow> nat \<Rightarrow> jump_table \<Rightarrow> int \<times> jump_table" where
  "jt_loop min_blksize [] i raw_offset jt = (0, jt)"
| "jt_loop min_blksize (b # bs) i raw_offset jt =
     (if b \<le> min_blksize then (-1, jt)
      else
        let raw_offset = raw_offset + b in
        if i mod group_size jt = 0
        then jt_loop min_blksize bs (i + 1) raw_offset
          (jt\<lparr>partial_offset := partial_offset jt @ [raw_offset], deltas := deltas jt @ [0]\<rparr>)
        else if deltas jt ! (i - 1) + b \<ge> uinttype_max then (-1, jt)
        else jt_loop min_blksize bs (i + 1) raw_offset (jt\<lparr>deltas := deltas jt @ [deltas jt ! (i - 1) + b]\<rparr>))"

definition jt_build :: "nat list \<Rightarrow> nat \<Rightarrow> nat \<Rightarrow> bool \<Rightarrow> (int \<times> jump_table) option" where
  "jt_build ibuf offset_begin bsize enable_crc = do {
     ENV_BUG_ON (bsize = 0);
     let gs = (uinttype_max + 1) div bsize;
     ENV_BUG_ON (gs = 0);
     Some (jt_loop (if enable_crc then 4 else 0) ibuf 1 offset_begin \<lparr>group_size = gs, partial_offset = [offset_begin], deltas = [0]\<rparr>)
   }"

text \<open>The offset of a block: the lengths before it.\<close>

definition psum :: "nat list \<Rightarrow> nat \<Rightarrow> nat" where
  "psum ls i = sum_list (take i ls)"

lemma psum_simps [simp]: "psum ls 0 = 0" "length ls \<le> i \<Longrightarrow> psum ls i = sum_list ls"
  by (simp_all add: psum_def)

lemma psum_Suc: "i < length ls \<Longrightarrow> psum ls (Suc i) = psum ls i + ls ! i"
  by (simp add: psum_def take_Suc_conv_app_nth)

lemma psum_mono: "i \<le> j \<Longrightarrow> psum ls i \<le> psum ls j"
  by (auto simp: psum_def take_add dest!: le_Suc_ex)

text \<open>The table when the loop is at \<open>i\<close>.\<close>

definition jt_inv :: "nat list \<Rightarrow> nat \<Rightarrow> nat \<Rightarrow> jump_table \<Rightarrow> bool" where
  "jt_inv ls base i jt \<longleftrightarrow> 0 < group_size jt \<and> 0 < i \<and> length (deltas jt) = i \<and> length (partial_offset jt) = (i - 1) div group_size jt + 1 \<and>
     (\<forall>p < length (partial_offset jt). partial_offset jt ! p = base + psum ls (p * group_size jt)) \<and>
     (\<forall>j < i. psum ls (j div group_size jt * group_size jt) + deltas jt ! j = psum ls j)"

lemma jt_inv_new_group:
  assumes "jt_inv ls base i jt" "i mod group_size jt = 0"
  shows "jt_inv ls base (i + 1) (jt\<lparr>partial_offset := partial_offset jt @ [base + psum ls i], deltas := deltas jt @ [0]\<rparr>)"
proof -
  have g: "0 < group_size jt" "0 < i" "length (deltas jt) = i" using assms(1) by (simp_all add: jt_inv_def)
  obtain q where q: "i = group_size jt * q" using assms(2) by (auto elim!: dvdE [OF mod_0_imp_dvd])
  have "q \<noteq> 0" using q g(2) by auto
  then obtain r where r: "q = Suc r" by (cases q) auto
  then have "i - 1 = (group_size jt - 1) + group_size jt * r" using q g(1) by simp
  moreover have "((group_size jt - 1) + group_size jt * r) div group_size jt = r" using g(1) by (subst div_mult_self2) auto
  ultimately have "(i - 1) div group_size jt = q - 1" using r by simp
  then have "length (partial_offset jt) = q" "i div group_size jt = q"
    using assms(1) q \<open>q \<noteq> 0\<close> g(1) by (simp_all add: jt_inv_def)
  then show ?thesis using assms(1) g q by (auto simp: jt_inv_def nth_append less_Suc_eq mult.commute)
qed

lemma jt_inv_same_group:
  assumes "jt_inv ls base i jt" "i mod group_size jt \<noteq> 0" "i \<le> length ls"
  shows "jt_inv ls base (i + 1) (jt\<lparr>deltas := deltas jt @ [deltas jt ! (i - 1) + ls ! (i - 1)]\<rparr>)"
proof -
  have g: "0 < group_size jt" "0 < i" "length (deltas jt) = i" using assms(1) by (simp_all add: jt_inv_def)
  obtain k where k: "i = Suc k" using g(2) by (cases i) auto
  have same: "i div group_size jt = k div group_size jt" using assms(2) k by (simp add: div_Suc)
  have "psum ls (k div group_size jt * group_size jt) + deltas jt ! k = psum ls k" using assms(1) k by (simp add: jt_inv_def)
  then have "psum ls (i div group_size jt * group_size jt) + (deltas jt ! k + ls ! k) = psum ls i"
    using psum_Suc [of k ls] assms(3) same k by simp
  then show ?thesis using assms(1) g k same by (auto simp: jt_inv_def nth_append less_Suc_eq)
qed

lemma jt_loop_ok:
  "jt_loop mb bs i raw jt = (0, jt') \<Longrightarrow> jt_inv ls base i jt \<Longrightarrow> raw = base + psum ls (i - 1) \<Longrightarrow> drop (i - 1) ls = bs \<Longrightarrow> i - 1 \<le> length ls \<Longrightarrow>
   jt_inv ls base (length ls + 1) jt' \<and> group_size jt' = group_size jt \<and> (\<forall>b\<in>set bs. mb < b)"
proof (induction mb bs i raw jt rule: jt_loop.induct)
  case (1 mb i raw jt)
  have "0 < i" using 1(2) by (simp add: jt_inv_def)
  then have "i = length ls + 1" using 1(4,5) by auto
  then show ?case using 1 by simp
next
  case (2 mb b bs i raw jt)
  obtain k where k: "i = Suc k" using "2.prems"(2) by (cases i) (auto simp: jt_inv_def)
  have kl: "k < length ls" using "2.prems"(4) k by (cases "k < length ls") auto
  have b: "ls ! k = b" "drop i ls = bs" using "2.prems"(4) Cons_nth_drop_Suc [OF kl] k by auto
  have mb: "\<not> b \<le> mb" using "2.prems"(1) by (auto split: if_splits)
  have raw: "raw + b = base + psum ls i" using "2.prems"(3) psum_Suc [OF kl] b(1) k by simp
  show ?case
  proof (cases "i mod group_size jt = 0")
    case True
    then show ?thesis
      using "2.IH"(1) [OF mb refl True] "2.prems"(1) jt_inv_new_group [OF "2.prems"(2) True] raw b(2) mb kl k by (simp add: Let_def)
  next
    case False
    have d: "\<not> deltas jt ! (i - 1) + b \<ge> uinttype_max" using "2.prems"(1) mb False by (auto simp: Let_def)
    then show ?thesis
      using "2.IH"(2) [OF mb refl False d] "2.prems"(1) jt_inv_same_group [OF "2.prems"(2) False] raw b mb kl k False by (simp add: Let_def)
  qed
qed

lemma jt_at_inv:
  assumes "jt_inv ls base (length ls + 1) jt" "group_size jt = 2 ^ k" "idx \<le> length ls"
  shows "jt_at jt idx = Some (base + psum ls idx)"
proof -
  let ?g = "group_size jt"
  have inner: "idx AND (?g - Suc 0) = idx mod ?g" using assms(2) take_bit_eq_mask [of k idx] by (simp add: mask_eq_exp_minus_1 take_bit_eq_mod)
  have part: "idx div ?g < length (partial_offset jt)" using assms(1,3) div_le_mono [of idx "length ls" ?g] by (simp add: jt_inv_def)
  then have base: "partial_offset jt ! (idx div ?g) = base + psum ls (idx div ?g * ?g)" using assms(1) by (simp add: jt_inv_def)
  have delta: "psum ls (idx div ?g * ?g) + deltas jt ! idx = psum ls idx" "idx < length (deltas jt)" "?g \<noteq> 0" using assms(1,3) by (auto simp: jt_inv_def)
  show ?thesis
  proof (cases "idx mod ?g = 0")
    case True
    then have "idx div ?g * ?g = idx" using div_mult_mod_eq [of idx ?g] by simp
    then show ?thesis using part base delta(3) by (simp add: jt_at_def Let_def inner True)
  next
    case False
    then show ?thesis using part base delta by (simp add: jt_at_def Let_def inner)
  qed
qed

lemma jt_build_ok:
  assumes "jt_build ls base bsize crc = Some (0, jt)" "(uinttype_max + 1) div bsize = 2 ^ k"
  shows "\<forall>idx \<le> length ls. jt_at jt idx = Some (base + psum ls idx)"
proof -
  let ?jt = "\<lparr>group_size = 2 ^ k, partial_offset = [base], deltas = [0]\<rparr>"
  have "jt_loop (if crc then 4 else 0) ls 1 base ?jt = (0, jt)" using assms by (auto simp: jt_build_def Let_def split: bind_splits)
  moreover have "jt_inv ls base 1 ?jt" by (simp add: jt_inv_def)
  ultimately have "jt_inv ls base (length ls + 1) jt" "group_size jt = 2 ^ k" using jt_loop_ok [of _ ls 1 base ?jt jt ls base] by auto
  then show ?thesis using jt_at_inv by blast
qed

text \<open>Building succeeds when every block is longer than its checksum and the blocks of a group but the last fit into 16 bits.\<close>

lemma jt_loop_succeeds:
  "\<forall>b\<in>set bs. mb < b \<and> b \<le> hi \<Longrightarrow> (group_size jt - 1) * hi < uinttype_max \<Longrightarrow> length (deltas jt) = i \<Longrightarrow> 0 < i \<Longrightarrow> 0 < group_size jt \<Longrightarrow>
   deltas jt ! (i - 1) \<le> (i - 1) mod group_size jt * hi \<Longrightarrow> \<exists>jt'. jt_loop mb bs i raw jt = (0, jt')"
proof (induction mb bs i raw jt rule: jt_loop.induct)
  case (2 mb b bs i raw jt)
  have mb: "\<not> b \<le> mb" using "2.prems"(1) by auto
  show ?case
  proof (cases "i mod group_size jt = 0")
    case True
    then show ?thesis using "2.IH"(1) [OF mb refl True] "2.prems" mb by (simp add: Let_def nth_append)
  next
    case False
    obtain k where k: "i = Suc k" using "2.prems"(4) by (cases i) auto
    have m: "i mod group_size jt = Suc (k mod group_size jt)" using False k by (simp add: mod_Suc split: if_splits)
    have d: "deltas jt ! k + b \<le> i mod group_size jt * hi" using "2.prems"(1,6) k m by simp
    moreover have "i mod group_size jt \<le> group_size jt - 1" using "2.prems"(5) by (simp add: mod_less_divisor Suc_leI less_eq_Suc_le [symmetric] le_diff_conv2)
    then have "i mod group_size jt * hi < uinttype_max" using "2.prems"(2) mult_le_mono1 [of "i mod group_size jt" "group_size jt - 1" hi] by linarith
    ultimately have small: "\<not> deltas jt ! (i - 1) + b \<ge> uinttype_max" using k by simp
    then show ?thesis using "2.IH"(2) [OF mb refl False small] "2.prems" d mb False k by (simp add: Let_def nth_append)
  qed
qed simp

lemma jt_build_succeeds:
  assumes "\<forall>b\<in>set ls. (if crc then 4 else 0) < b \<and> b \<le> hi" "gs = (uinttype_max + 1) div bsize" "0 < gs" "0 < bsize" "(gs - 1) * hi < uinttype_max"
  shows "\<exists>jt. jt_build ls base bsize crc = Some (0, jt)"
  using jt_loop_succeeds [of ls "if crc then 4 else 0" hi "\<lparr>group_size = gs, partial_offset = [base], deltas = [0]\<rparr>" 1 base] assms
  by (auto simp: jt_build_def Let_def)

subsection \<open>Properties\<close>

text \<open>The jump table finds every block.  For block sizes such that the number of blocks of a group is a power of two, a table that was built
  from the lengths of the blocks gives, for every index up to the number of blocks, the start of the data and the lengths of the
  blocks before; and the table is built if every block is longer than its checksum and the blocks of a group but one fit into 16
  bits.\<close>

lemma jump_table_offsets:
  assumes "(uinttype_max + 1) div bsize = 2 ^ k" "0 < bsize"
  shows "(jt_build ls base bsize crc = Some (0, jt) \<longrightarrow> (\<forall>idx \<le> length ls. jt_at jt idx = Some (base + sum_list (take idx ls)))) \<and>
    ((\<forall>b\<in>set ls. (if crc then 4 else 0) < b \<and> b \<le> hi) \<and> (2 ^ k - 1) * hi < uinttype_max \<longrightarrow> (\<exists>jt. jt_build ls base bsize crc = Some (0, jt)))"
  using jt_build_ok [of ls base bsize crc jt k] jt_build_succeeds [of ls crc hi "2 ^ k" bsize base] assms by (simp add: psum_def)

text \<open>With a block size of 12288 bytes a group has five blocks, and \<open>operator[]\<close>, which masks the index with the size of the group less
  one, takes the start of the group for its blocks 1 to 3: block 3 is looked up at 512 instead of 812.\<close>

lemma jump_table_misses_groups:
  "\<exists>jt. jt_build [100, 100, 100, 100, 100, 100] 512 12288 False = Some (0, jt) \<and> jt_at jt 4 = Some 912 \<and> jt_at jt 5 = Some 1012 \<and>
     jt_at jt 3 = Some 512"
  by (simp add: jt_build_def uinttype_max_def jt_at_def)

end
