(* ===== verification/ZFile_Read.thy ===== *)
theory ZFile_Read
  imports ZFile_Format
begin

text \<open>
  Reading a compressed file (\<open>zfile/zfile.cpp\<close>: \<open>CompressionFile::BlockReader\<close> and \<open>CompressionFile::pread\<close>).

  The reader fetches compressed blocks into a buffer of 64 KiB and walks over them; for each block, \<open>pread\<close> checks the checksum,
  decompresses the block and copies the part that was asked for, and drops the block from the cache below and fetches it
  again when one of the two fails.

  The file below is a parameter, as are the checksum and the decompression; \<open>trim\<close> drops a range of the file from the cache below
  it.  The buffers are lists of bytes; memory that was not written yet is zero.  An access outside of a buffer or of a vector is
  \<open>None\<close>, and so is a failing assertion.
\<close>

subsection \<open>The reader\<close>

definition MAX_READ_SIZE :: nat where "MAX_READ_SIZE = 65536"

definition FLAG_VALID_FALSE :: nat where "FLAG_VALID_FALSE = 0"
definition FLAG_VALID_TRUE :: nat where "FLAG_VALID_TRUE = 1"
definition FLAG_VALID_CRC_CHECK :: nat where "FLAG_VALID_CRC_CHECK = 2"

definition EIO :: nat where "EIO = 5"
definition ERANGE :: nat where "ERANGE = 34"

text \<open>The file below, with \<open>trim\<close>; writing at an offset and dropping the whole file from the cache are used in other places.\<close>

record 'f cfile = "'f ifile" +
  ftrim :: "'f \<Rightarrow> nat \<Rightarrow> nat \<Rightarrow> int \<times> 'f"
  fpwrite :: "'f \<Rightarrow> byte list \<Rightarrow> nat \<Rightarrow> int \<times> 'f"
  fevict :: "'f \<Rightarrow> int \<times> 'f"

text \<open>\<open>CompressionFile\<close>, without the file.\<close>

record zfile =
  m_jump_table :: jump_table
  m_raw_block_sizes :: "nat list"
  m_ht :: zht
  z_valid :: nat

record BlockReader =
  m_buf_offset :: nat
  m_begin_idx :: nat
  m_original_begin_idx :: nat
  m_idx :: nat
  m_end_idx :: nat
  m_original_offset :: nat
  m_end :: nat
  m_verify :: bool
  m_block_size :: nat
  m_eno :: nat
  m_buf :: "byte list"

text \<open>Subtraction of 64 bits.\<close>

definition sub64 :: "nat \<Rightarrow> nat \<Rightarrow> nat" where
  "sub64 a b = (a + (2 ^ 64 - b mod 2 ^ 64)) mod 2 ^ 64"

lemma sub64_less: "b \<le> a \<Longrightarrow> a < 2 ^ 64 \<Longrightarrow> sub64 a b = a - b"
proof -
  assume "b \<le> a" "a < 2 ^ 64"
  then have "a + (2 ^ 64 - b mod 2 ^ 64) = (a - b) + 2 ^ 64" by simp
  then show ?thesis using \<open>a < 2 ^ 64\<close> unfolding sub64_def by (simp only: mod_add_self2) simp
qed

text \<open>The two loops of the constructor.\<close>

fun find_begin :: "nat list \<Rightarrow> nat \<Rightarrow> nat \<Rightarrow> nat \<Rightarrow> nat" where
  "find_begin [] i cumulative offset = 0"
| "find_begin (s # ss) i cumulative offset = (if cumulative + s > offset then i else find_begin ss (i + 1) (cumulative + s) offset)"

fun find_end :: "nat list \<Rightarrow> nat \<Rightarrow> nat \<Rightarrow> nat \<Rightarrow> nat \<Rightarrow> nat" where
  "find_end [] i cumulative e n = n"
| "find_end (s # ss) i cumulative e n = (if cumulative + s > e then i + 1 else find_end ss (i + 1) (cumulative + s) e n)"

definition by_content :: "zfile \<Rightarrow> bool" where
  "by_content zf \<longleftrightarrow> z_is_fastcdc (m_ht zf) \<and> m_raw_block_sizes zf \<noteq> []"

text \<open>The member \<open>m_original_begin_idx\<close> keeps its initial value 0 in the branch for blocks of a fixed size.\<close>

definition BlockReader_new :: "zfile \<Rightarrow> nat \<Rightarrow> nat \<Rightarrow> BlockReader option" where
  "BlockReader_new zf offset count = (
     let bs = block_size (z_opt (m_ht zf));
         e = sub64 (offset + count) 1;
         br = \<lparr>m_buf_offset = 0, m_begin_idx = 0, m_original_begin_idx = 0, m_idx = 0, m_end_idx = 0, m_original_offset = offset,
           m_end = e, m_verify = (verify (z_opt (m_ht zf)) \<noteq> 0), m_block_size = bs, m_eno = 0, m_buf = replicate MAX_READ_SIZE 0\<rparr>
     in if by_content zf then
          let sizes = m_raw_block_sizes zf; b = find_begin sizes 0 0 offset
          in Some (br\<lparr>m_begin_idx := b, m_idx := b, m_original_begin_idx := b, m_end_idx := find_end sizes 0 0 e (length sizes)\<rparr>)
        else do {
          ENV_BUG_ON (bs = 0);
          let b = offset div bs;
          Some (br\<lparr>m_begin_idx := b, m_idx := b, m_end_idx := e div bs + 1\<rparr>)
        })"

definition get_blocks_length :: "zfile \<Rightarrow> nat \<Rightarrow> nat \<Rightarrow> nat option" where
  "get_blocks_length zf b e = do {
     ENV_BUG_ON (b > e);
     x \<leftarrow> jt_at (m_jump_table zf) e;
     y \<leftarrow> jt_at (m_jump_table zf) b;
     Some (sub64 x y)
   }"

definition get_buf_offset :: "zfile \<Rightarrow> BlockReader \<Rightarrow> nat \<Rightarrow> nat option" where
  "get_buf_offset zf br idx = get_blocks_length zf (m_begin_idx br) idx"

definition buf_exceed :: "zfile \<Rightarrow> BlockReader \<Rightarrow> nat \<Rightarrow> bool option" where
  "buf_exceed zf br idx = map_option (\<lambda>n. n > MAX_READ_SIZE) (get_blocks_length zf (m_begin_idx br) (idx + 1))"

definition get_inblock_offset :: "zfile \<Rightarrow> BlockReader \<Rightarrow> nat \<Rightarrow> nat \<Rightarrow> nat option" where
  "get_inblock_offset zf br offset blk_idx =
     (if by_content zf then do {
        ENV_BUG_ON (blk_idx > length (m_raw_block_sizes zf));
        Some (sub64 offset (sum_list (take blk_idx (m_raw_block_sizes zf))))
      }
      else do { ENV_BUG_ON (m_block_size br = 0); Some (offset mod m_block_size br) })"

definition br_block_size :: "zfile \<Rightarrow> BlockReader \<Rightarrow> nat" where
  "br_block_size zf br =
     (if by_content zf \<and> m_idx br < length (m_raw_block_sizes zf) then m_raw_block_sizes zf ! m_idx br else m_block_size br)"

definition compressed_size :: "zfile \<Rightarrow> BlockReader \<Rightarrow> nat option" where
  "compressed_size zf br = map_option (\<lambda>n. sub64 n (if m_verify br then 4 else 0)) (get_blocks_length zf (m_idx br) (m_idx br + 1))"

text \<open>The checksum behind the block in the buffer.\<close>

definition crc32_code :: "zfile \<Rightarrow> BlockReader \<Rightarrow> u32 option" where
  "crc32_code zf br = do {
     n \<leftarrow> compressed_size zf br;
     ENV_BUG_ON (m_buf_offset br + n + 4 > MAX_READ_SIZE);
     Some (of_nat (le_value (field (m_buf_offset br + n) 4 (m_buf br))))
   }"

text \<open>\<open>reload\<close>: the block is dropped below and read again.\<close>

definition reload :: "'f cfile \<Rightarrow> zfile \<Rightarrow> BlockReader \<Rightarrow> 'f \<Rightarrow> (int \<times> BlockReader \<times> 'f) option" where
  "reload ops zf br fl = do {
     read_size \<leftarrow> get_blocks_length zf (m_idx br) (m_idx br + 1);
     begin_offset \<leftarrow> jt_at (m_jump_table zf) (m_idx br);
     let (trim_res, fl) = ftrim ops fl begin_offset read_size;
     if trim_res < 0 then Some (-1, br, fl)
     else do {
       ENV_BUG_ON (m_buf_offset br + read_size > MAX_READ_SIZE);
       let (readn, bs) = fpread ops fl read_size begin_offset;
       let br = br\<lparr>m_buf := put_bytes (m_buf_offset br) bs (m_buf br)\<rparr>;
       if readn \<noteq> int read_size then Some (-1, br, fl) else Some (0, br, fl)
     }
   }"

text \<open>The error number is \<open>errno\<close> when that is set.\<close>

definition read_blocks :: "'f cfile \<Rightarrow> zfile \<Rightarrow> BlockReader \<Rightarrow> 'f \<Rightarrow> nat \<Rightarrow> nat \<Rightarrow> (int \<times> BlockReader) option" where
  "read_blocks ops zf br fl b e = do {
     n \<leftarrow> get_blocks_length zf b e;
     let read_size = min MAX_READ_SIZE n;
     begin_offset \<leftarrow> jt_at (m_jump_table zf) b;
     let (readn, bs) = fpread ops fl read_size begin_offset;
     let br = br\<lparr>m_buf := put_bytes 0 bs (m_buf br)\<rparr>;
     if readn \<noteq> int read_size then Some (-1, br\<lparr>m_eno := EIO\<rparr>) else Some (0, br)
   }"

subsection \<open>The iterator\<close>

record block =
  blk_compressed_size :: nat
  cp_begin :: nat
  cp_len :: nat

text \<open>\<open>get_current_block\<close>: \<open>Inl\<close> is the result -1.\<close>

definition get_current_block :: "zfile \<Rightarrow> BlockReader \<Rightarrow> (BlockReader + BlockReader \<times> block) option" where
  "get_current_block zf br = do {
     off \<leftarrow> get_buf_offset zf br (m_idx br);
     let br = br\<lparr>m_buf_offset := off\<rparr>;
     if off \<ge> MAX_READ_SIZE then Some (Inl (br\<lparr>m_eno := ERANGE\<rparr>))
     else do {
       let blk_idx = m_idx br;
       csize \<leftarrow> compressed_size zf br;
       if off + csize > MAX_READ_SIZE then Some (Inl (br\<lparr>m_eno := ERANGE\<rparr>))
       else do {
         b \<leftarrow> (if blk_idx = m_original_begin_idx br then get_inblock_offset zf br (m_original_offset br) blk_idx else Some 0);
         n \<leftarrow> (if blk_idx = sub64 (m_end_idx br) 1 then map_option (\<lambda>inblock_end. inblock_end + 1) (get_inblock_offset zf br (m_end br) blk_idx)
              else Some (br_block_size zf br));
         Some (Inr (br, \<lparr>blk_compressed_size = csize, cp_begin = b, cp_len = sub64 n b\<rparr>))
       }
     }
   }"

text \<open>\<open>begin\<close> and \<open>operator++\<close>; \<open>Inl\<close> is the end iterator.\<close>

definition br_begin :: "'f cfile \<Rightarrow> zfile \<Rightarrow> BlockReader \<Rightarrow> 'f \<Rightarrow> (BlockReader + BlockReader \<times> block) option" where
  "br_begin ops zf br fl = do {
     (ret, br) \<leftarrow> read_blocks ops zf br fl (m_idx br) (m_end_idx br);
     if ret \<noteq> 0 then Some (Inl br) else get_current_block zf br
   }"

definition br_end :: "BlockReader \<Rightarrow> BlockReader" where
  "br_end br = br\<lparr>m_idx := m_end_idx br\<rparr>"

definition br_next :: "'f cfile \<Rightarrow> zfile \<Rightarrow> BlockReader \<Rightarrow> 'f \<Rightarrow> (BlockReader + BlockReader \<times> block) option" where
  "br_next ops zf br fl = do {
     let br = br\<lparr>m_idx := m_idx br + 1\<rparr>;
     if m_idx br = m_end_idx br then Some (Inl (br_end br))
     else do {
       exceed \<leftarrow> buf_exceed zf br (m_idx br);
       (ret, br) \<leftarrow> (if exceed then read_blocks ops zf br fl (m_idx br) (m_end_idx br) else Some (0, br));
       if ret \<noteq> 0 then Some (Inl (br_end br))
       else do {
         let br = (if exceed then br\<lparr>m_begin_idx := m_idx br\<rparr> else br);
         r \<leftarrow> get_current_block zf br;
         Some (case r of Inl br \<Rightarrow> Inl (br_end br) | Inr b \<Rightarrow> Inr b)
       }
     }
   }"

subsection \<open>Reading\<close>

text \<open>What an attempt at a block comes to: the read fails, the block has to be fetched again, the checksum was checked and nothing else is asked for,
  or a number of bytes was copied; the last comes with the buffer of the caller and the local buffer \<open>raw\<close>.\<close>

datatype attempt = Failed | Again | Checked | Copied nat "byte list" "byte list"

definition block_try :: "(byte list \<Rightarrow> u32) \<Rightarrow> (byte list \<Rightarrow> nat \<Rightarrow> byte list option) \<Rightarrow> zfile \<Rightarrow> BlockReader \<Rightarrow> block \<Rightarrow> nat \<Rightarrow> nat \<Rightarrow>
    byte list \<Rightarrow> byte list \<Rightarrow> attempt option" where
  "block_try crc32c_salt decompress zf br blk cnt readn buf raw = do {
     let comp = field (m_buf_offset br) (blk_compressed_size blk) (m_buf br);
     let bs = block_size (z_opt (m_ht zf));
     code \<leftarrow> (if verify (z_opt (m_ht zf)) \<noteq> 0 then map_option Some (crc32_code zf br) else Some None);
     if code \<noteq> None \<and> Some (crc32c_salt comp) \<noteq> code then Some (if z_valid zf = FLAG_VALID_TRUE then Again else Failed)
     else if z_valid zf = FLAG_VALID_CRC_CHECK then Some Checked
     else
       let bytes_to_copy = (if readn + cp_len blk > cnt then sub64 cnt readn else cp_len blk) in
       case decompress comp bs of
         None \<Rightarrow> Some Again
       | Some out \<Rightarrow>
           if cp_len blk = bs \<and> bytes_to_copy = cp_len blk then Some (Copied bytes_to_copy (put_bytes readn out buf) raw)
           else do {
             ENV_BUG_ON (cp_begin blk + bytes_to_copy > MAX_READ_SIZE);
             let raw = put_bytes 0 out raw;
             Some (Copied bytes_to_copy (put_bytes readn (field (cp_begin blk) bytes_to_copy raw) buf) raw)
           }
   }"

text \<open>The retries at a block.\<close>

fun block_retry :: "'f cfile \<Rightarrow> (byte list \<Rightarrow> u32) \<Rightarrow> (byte list \<Rightarrow> nat \<Rightarrow> byte list option) \<Rightarrow> zfile \<Rightarrow> nat \<Rightarrow> BlockReader \<Rightarrow> block \<Rightarrow> nat \<Rightarrow> nat \<Rightarrow>
    byte list \<Rightarrow> byte list \<Rightarrow> 'f \<Rightarrow> (attempt \<times> BlockReader \<times> 'f) option" where
  "block_retry ops crc32c_salt decompress zf retry br blk cnt readn buf raw fl = do {
     r \<leftarrow> block_try crc32c_salt decompress zf br blk cnt readn buf raw;
     case r of
       Again \<Rightarrow> (case retry of
           0 \<Rightarrow> Some (Failed, br, fl)
         | Suc retry \<Rightarrow> do {
             (reload_res, br, fl) \<leftarrow> reload ops zf br fl;
             if reload_res < 0 then Some (Failed, br, fl)
             else block_retry ops crc32c_salt decompress zf retry br blk cnt readn buf raw fl
           })
     | _ \<Rightarrow> Some (r, br, fl)
   }"

declare block_retry.simps [simp del]

text \<open>The loop over the blocks, at an iterator; a null pointer as the buffer is \<open>None\<close>.  The result is the number of bytes or \<open>None\<close> for the
  result -1, the reader, the buffer and the file.\<close>

partial_function (option) zpread_loop :: "'f cfile \<Rightarrow> (byte list \<Rightarrow> u32) \<Rightarrow> (byte list \<Rightarrow> nat \<Rightarrow> byte list option) \<Rightarrow> zfile \<Rightarrow> nat \<Rightarrow>
    BlockReader + BlockReader \<times> block \<Rightarrow> nat \<Rightarrow> byte list option \<Rightarrow> byte list \<Rightarrow> 'f \<Rightarrow> (nat option \<times> BlockReader \<times> byte list option \<times> 'f) option" where
  "zpread_loop ops crc32c_salt decompress zf cnt it readn buf raw fl = (case it of
     Inl br \<Rightarrow> Some (Some readn, br, buf, fl)
   | Inr (br, blk) \<Rightarrow> (case buf of
       None \<Rightarrow> br_next ops zf br fl \<bind> (\<lambda>it. zpread_loop ops crc32c_salt decompress zf cnt it (readn + cp_len blk) None raw fl)
     | Some bytes \<Rightarrow>
         if readn \<ge> cnt then Some (Some readn, br, Some bytes, fl)
         else block_retry ops crc32c_salt decompress zf 3 br blk cnt readn bytes raw fl \<bind> (\<lambda>(r, br, fl). case r of
             Copied n bytes raw \<Rightarrow> br_next ops zf br fl \<bind> (\<lambda>it. zpread_loop ops crc32c_salt decompress zf cnt it (readn + n) (Some bytes) raw fl)
           | Checked \<Rightarrow> br_next ops zf br fl \<bind> (\<lambda>it. zpread_loop ops crc32c_salt decompress zf cnt it (readn + cp_len blk) (Some bytes) raw fl)
           | _ \<Rightarrow> Some (None, br, Some bytes, fl))))"

text \<open>A number of 64 bits as a \<open>ssize_t\<close>.\<close>

definition ssize :: "nat \<Rightarrow> int" where
  "ssize v = (if v < 2 ^ 63 then int v else int v - 2 ^ 64)"

definition z_pread :: "'f cfile \<Rightarrow> (byte list \<Rightarrow> u32) \<Rightarrow> (byte list \<Rightarrow> nat \<Rightarrow> byte list option) \<Rightarrow> zfile \<Rightarrow> byte list option \<Rightarrow> nat \<Rightarrow> nat \<Rightarrow> 'f \<Rightarrow>
    (int \<times> byte list option \<times> 'f) option" where
  "z_pread ops crc32c_salt decompress zf buf count offset fl =
     (if block_size (z_opt (m_ht zf)) > MAX_READ_SIZE then Some (-1, buf, fl)
      else
        let sz = ssize (z_original_file_size (m_ht zf));
            cnt = (if int (offset + count) > sz then sz - int offset else int count)
        in if cnt \<le> 0 then Some (0, buf, fl)
           else do {
             br \<leftarrow> BlockReader_new zf offset (nat cnt);
             it \<leftarrow> br_begin ops zf br fl;
             (r, br, buf, fl) \<leftarrow> zpread_loop ops crc32c_salt decompress zf (nat cnt) it 0 buf (replicate MAX_READ_SIZE 0) fl;
             case r of
               None \<Rightarrow> Some (-1, buf, fl)
             | Some readn \<Rightarrow> if m_eno br \<noteq> 0 then Some (-1, buf, fl) else Some (min (int readn) cnt, buf, fl)
           })"

subsection \<open>What is stored\<close>

text \<open>The blocks \<open>blks\<close> of the file hold the parts \<open>raws\<close> of the data: compressed, with a checksum behind each when checksums are on.\<close>

definition holds :: "(byte list \<Rightarrow> u32) \<Rightarrow> (byte list \<Rightarrow> nat \<Rightarrow> byte list option) \<Rightarrow> nat \<Rightarrow> bool \<Rightarrow> byte list \<Rightarrow> byte list \<Rightarrow> bool" where
  "holds crc decompress bs vfy r blk \<longleftrightarrow> (\<exists>c. blk = c @ (if vfy then le_bytes 4 (unat (crc c)) else []) \<and> c \<noteq> [] \<and> decompress c bs = Some r) \<and>
     0 < length r \<and> length r \<le> bs \<and> length blk \<le> MAX_READ_SIZE"

definition z_stored :: "('f \<Rightarrow> byte list) \<Rightarrow> (byte list \<Rightarrow> u32) \<Rightarrow> (byte list \<Rightarrow> nat \<Rightarrow> byte list option) \<Rightarrow> zfile \<Rightarrow> 'f \<Rightarrow> byte list list \<Rightarrow> byte list list \<Rightarrow> nat \<Rightarrow> bool" where
  "z_stored content crc decompress zf fl raws blks base \<longleftrightarrow>
     list_all2 (holds crc decompress (block_size (z_opt (m_ht zf))) (verify (z_opt (m_ht zf)) \<noteq> 0)) raws blks \<and>
     take (length (concat blks)) (drop base (content fl)) = concat blks \<and> base + length (concat blks) \<le> length (content fl) \<and> length (content fl) < 2 ^ 63 \<and>
     (\<forall>i \<le> length blks. jt_at (m_jump_table zf) i = Some (base + psum (map length blks) i)) \<and>
     0 < block_size (z_opt (m_ht zf)) \<and> block_size (z_opt (m_ht zf)) \<le> MAX_READ_SIZE \<and> z_valid zf = FLAG_VALID_TRUE \<and>
     z_original_file_size (m_ht zf) = length (concat raws) \<and> length (concat raws) < 2 ^ 63 \<and>
     (if z_is_fastcdc (m_ht zf) then m_raw_block_sizes zf = map length raws
      else \<forall>i. Suc i < length raws \<longrightarrow> length (raws ! i) = block_size (z_opt (m_ht zf)))"

lemma sum_length: "sum_list (map length xss) = length (concat xss)"
  by (induction xss) auto

lemma drop_psum: "i < length xs \<Longrightarrow> drop (psum (map length xs) i) (concat xs) = xs ! i @ concat (drop (Suc i) xs)"
proof (induction xs arbitrary: i)
  case (Cons x xs)
  then show ?case by (cases i) (auto simp: psum_def)
qed simp

lemma psum_block: "i < length xs \<Longrightarrow> psum (map length xs) (Suc i) = psum (map length xs) i + length (xs ! i)"
  by (simp add: psum_Suc)

lemma psum_total: "psum (map length xs) i \<le> length (concat xs)"
proof -
  have "psum (map length xs) i \<le> psum (map length xs) (max i (length xs))" by (intro psum_mono) simp
  then show ?thesis by (simp add: sum_length)
qed

lemma length_le_concat: "\<forall>r\<in>set rs. 0 < length r \<Longrightarrow> length rs \<le> length (concat rs)"
proof (induction rs)
  case (Cons r rs)
  then have "1 \<le> length r" "length rs \<le> length (concat rs)" by (auto simp: Suc_le_eq)
  then show ?case by simp
qed simp

text \<open>The searches for the block of an offset.\<close>

lemma find_begin_ok:
  "c \<le> x \<Longrightarrow> x < c + sum_list ss \<Longrightarrow> \<exists>k < length ss. find_begin ss i c x = i + k \<and> c + psum ss k \<le> x \<and> x < c + psum ss (Suc k)"
proof (induction ss arbitrary: i c)
  case (Cons s ss)
  show ?case
  proof (cases "c + s > x")
    case True
    then show ?thesis using Cons.prems by (auto simp: psum_def intro!: exI [of _ 0])
  next
    case False
    then obtain k where "k < length ss" "find_begin ss (i + 1) (c + s) x = i + 1 + k" "c + s + psum ss k \<le> x" "x < c + s + psum ss (Suc k)"
      using Cons.IH [of "c + s" "i + 1"] Cons.prems by auto
    then show ?thesis using False by (intro exI [of _ "Suc k"]) (auto simp: psum_def)
  qed
qed simp

lemma find_end_ok:
  "c \<le> x \<Longrightarrow> x < c + sum_list ss \<Longrightarrow> \<exists>k < length ss. find_end ss i c x n = i + k + 1 \<and> c + psum ss k \<le> x \<and> x < c + psum ss (Suc k)"
proof (induction ss arbitrary: i c)
  case (Cons s ss)
  show ?case
  proof (cases "c + s > x")
    case True
    then show ?thesis using Cons.prems by (auto simp: psum_def intro!: exI [of _ 0])
  next
    case False
    then obtain k where "k < length ss" "find_end ss (i + 1) (c + s) x n = i + 1 + k + 1" "c + s + psum ss k \<le> x" "x < c + s + psum ss (Suc k)"
      using Cons.IH [of "c + s" "i + 1"] Cons.prems by auto
    then show ?thesis using False by (intro exI [of _ "Suc k"]) (auto simp: psum_def)
  qed
qed simp

text \<open>Blocks of a fixed size.\<close>

lemma psum_fixed:
  assumes "\<forall>i. Suc i < length raws \<longrightarrow> length (raws ! i) = bs" "i < length raws"
  shows "psum (map length raws) i = i * bs"
  using assms(2)
proof (induction i)
  case (Suc i)
  then show ?case using assms(1) psum_block [of i raws] by simp
qed simp

lemma fixed_block:
  assumes "\<forall>i. Suc i < length raws \<longrightarrow> length (raws ! i) = bs" "\<forall>r\<in>set raws. length r \<le> bs" "0 < bs" "x < length (concat raws)"
  shows "x div bs < length raws \<and> psum (map length raws) (x div bs) = x div bs * bs \<and> x < psum (map length raws) (Suc (x div bs))"
proof -
  have "length (concat raws) \<le> length raws * bs" using assms(2) by (induction raws) auto
  then have k: "x div bs < length raws" using assms(3,4) by (simp add: less_mult_imp_div_less)
  then have ps: "psum (map length raws) (x div bs) = x div bs * bs" using psum_fixed [OF assms(1)] by simp
  have "x < psum (map length raws) (Suc (x div bs))"
  proof (cases "Suc (x div bs) < length raws")
    case True
    then show ?thesis using psum_fixed [OF assms(1) True] assms(3) dividend_less_div_times [of bs x] by (simp add: add.commute)
  next
    case False
    then have "psum (map length raws) (Suc (x div bs)) = length (concat raws)" by (simp add: sum_length)
    then show ?thesis using assms(4) by simp
  qed
  then show ?thesis using k ps by simp
qed

subsection \<open>Finding the blocks\<close>

definition in_block :: "byte list list \<Rightarrow> nat \<Rightarrow> nat \<Rightarrow> bool" where
  "in_block raws k x \<longleftrightarrow> k < length raws \<and> psum (map length raws) k \<le> x \<and> x < psum (map length raws) (Suc k)"

lemma in_block_mono: "in_block raws i x \<Longrightarrow> in_block raws j y \<Longrightarrow> x \<le> y \<Longrightarrow> i \<le> j"
  using psum_mono [of "Suc j" i "map length raws"] by (cases "i \<le> j") (auto simp: in_block_def)

text \<open>What is needed of the file in the proofs below.\<close>

definition z_shape :: "zfile \<Rightarrow> byte list list \<Rightarrow> bool" where
  "z_shape zf raws \<longleftrightarrow> raws \<noteq> [] \<and> length (concat raws) < 2 ^ 63 \<and> 0 < block_size (z_opt (m_ht zf)) \<and> (\<forall>r\<in>set raws. length r \<le> block_size (z_opt (m_ht zf))) \<and>
     by_content zf = z_is_fastcdc (m_ht zf) \<and>
     (if by_content zf then m_raw_block_sizes zf = map length raws else \<forall>i. Suc i < length raws \<longrightarrow> length (raws ! i) = block_size (z_opt (m_ht zf)))"

lemma stored_shape:
  assumes "z_stored content crc dec zf fl raws blks base" "raws \<noteq> []"
  shows "z_shape zf raws"
proof -
  have "\<forall>r\<in>set raws. length r \<le> block_size (z_opt (m_ht zf))"
    using assms(1) by (auto simp: z_stored_def list_all2_conv_all_nth holds_def in_set_conv_nth)
  then show ?thesis using assms by (auto simp: z_shape_def z_stored_def by_content_def)
qed

lemma in_block_below: "in_block raws k x \<Longrightarrow> x < length (concat raws)"
  using psum_total [of raws "Suc k"] by (simp add: in_block_def)

lemma inblock_ok:
  assumes "z_shape zf raws" "in_block raws k x" "m_block_size br = block_size (z_opt (m_ht zf))"
  shows "get_inblock_offset zf br x k = Some (x - psum (map length raws) k)"
proof (cases "by_content zf")
  case True
  have "x < 2 ^ 64" using in_block_below [OF assms(2)] assms(1) by (simp add: z_shape_def)
  then show ?thesis using True assms(1,2) sub64_less by (simp add: get_inblock_offset_def z_shape_def in_block_def psum_def)
next
  case False
  let ?bs = "block_size (z_opt (m_ht zf))"
  have k: "k < length raws" "\<forall>i. Suc i < length raws \<longrightarrow> length (raws ! i) = ?bs" "length (raws ! k) \<le> ?bs" "0 < ?bs"
    using assms(1,2) False by (auto simp: z_shape_def in_block_def)
  have "psum (map length raws) k = k * ?bs" using psum_fixed [OF k(2,1)] .
  moreover have "psum (map length raws) (Suc k) \<le> k * ?bs + ?bs" using psum_block [OF k(1)] calculation k(3) by simp
  ultimately have "k * ?bs \<le> x" "x < k * ?bs + ?bs" using assms(2) by (simp_all add: in_block_def)
  then have "x mod ?bs = x - k * ?bs" using mod_mult_self3 [of k ?bs "x - k * ?bs"] by simp
  then show ?thesis using False k(4) assms(3) \<open>psum (map length raws) k = k * ?bs\<close> by (simp add: get_inblock_offset_def)
qed

lemma BlockReader_new_ok:
  assumes shape: "z_shape zf raws" and "0 < cnt" "offset + cnt \<le> length (concat raws)"
  shows "\<exists>b e. BlockReader_new zf offset cnt = Some \<lparr>m_buf_offset = 0, m_begin_idx = b, m_original_begin_idx = (if by_content zf then b else 0),
      m_idx = b, m_end_idx = Suc e, m_original_offset = offset, m_end = offset + cnt - 1, m_verify = (verify (z_opt (m_ht zf)) \<noteq> 0),
      m_block_size = block_size (z_opt (m_ht zf)), m_eno = 0, m_buf = replicate MAX_READ_SIZE 0\<rparr> \<and>
    in_block raws b offset \<and> in_block raws e (offset + cnt - 1)"
proof -
  let ?x = "offset + cnt - 1" and ?bs = "block_size (z_opt (m_ht zf))" and ?ls = "map length raws"
  have x: "offset < length (concat raws)" "?x < length (concat raws)" "length (concat raws) < 2 ^ 63" using assms by (auto simp: z_shape_def)
  then have e: "sub64 (offset + cnt) 1 = ?x" using assms(2,3) by (intro sub64_less) auto
  show ?thesis
  proof (cases "by_content zf")
    case True
    then have sizes: "m_raw_block_sizes zf = ?ls" using shape by (simp add: z_shape_def)
    obtain b where b: "b < length raws" "find_begin ?ls 0 0 offset = b" "psum ?ls b \<le> offset" "offset < psum ?ls (Suc b)"
      using find_begin_ok [of 0 offset ?ls 0] x(1) by (auto simp: sum_length)
    obtain k where k: "k < length raws" "find_end ?ls 0 0 ?x (length ?ls) = Suc k" "psum ?ls k \<le> ?x" "?x < psum ?ls (Suc k)"
      using find_end_ok [of 0 ?x ?ls 0 "length ?ls"] x(2) by (auto simp: sum_length)
    have "BlockReader_new zf offset cnt = Some \<lparr>m_buf_offset = 0, m_begin_idx = b, m_original_begin_idx = b, m_idx = b, m_end_idx = Suc k,
        m_original_offset = offset, m_end = ?x, m_verify = (verify (z_opt (m_ht zf)) \<noteq> 0), m_block_size = ?bs, m_eno = 0,
        m_buf = replicate MAX_READ_SIZE 0\<rparr>"
      unfolding BlockReader_new_def Let_def e if_P [OF True] sizes b(2) k(2) by simp
    then show ?thesis using True b k by (auto simp: in_block_def)
  next
    case False
    then have fixed: "\<forall>i. Suc i < length raws \<longrightarrow> length (raws ! i) = ?bs" "\<forall>r\<in>set raws. length r \<le> ?bs" "0 < ?bs" using shape by (simp_all add: z_shape_def)
    have "in_block raws (y div ?bs) y" if "y < length (concat raws)" for y
      using fixed_block [OF fixed that] by (simp add: in_block_def)
    moreover have "BlockReader_new zf offset cnt = Some \<lparr>m_buf_offset = 0, m_begin_idx = offset div ?bs, m_original_begin_idx = 0, m_idx = offset div ?bs,
        m_end_idx = Suc (?x div ?bs), m_original_offset = offset, m_end = ?x, m_verify = (verify (z_opt (m_ht zf)) \<noteq> 0), m_block_size = ?bs, m_eno = 0,
        m_buf = replicate MAX_READ_SIZE 0\<rparr>"
      unfolding BlockReader_new_def Let_def e if_not_P [OF False] using fixed(3) by simp
    ultimately show ?thesis using False x by auto
  qed
qed

lemma blocks_length_ok:
  assumes "z_stored content crc dec zf fl raws blks base" "i \<le> j" "j \<le> length blks"
  shows "get_blocks_length zf i j = Some (psum (map length blks) j - psum (map length blks) i)"
proof -
  have "base + psum (map length blks) j < 2 ^ 64" using assms(1) psum_total [of blks j] by (auto simp: z_stored_def)
  then have "sub64 (base + psum (map length blks) j) (base + psum (map length blks) i) = psum (map length blks) j - psum (map length blks) i"
    using psum_mono [OF assms(2), of "map length blks"] by (subst sub64_less) auto
  then show ?thesis using assms by (simp add: get_blocks_length_def z_stored_def)
qed

subsection \<open>Walking over the blocks\<close>

text \<open>The reader stands at block \<open>idx\<close> of a read from \<open>offset\<close>, in block \<open>b\<close>, to \<open>x\<close>, in block \<open>e\<close>: the buffer holds the blocks from
  \<open>m_begin_idx\<close> on, as many as fit, and the current block is among them.\<close>

definition reader_at :: "zfile \<Rightarrow> byte list list \<Rightarrow> nat \<Rightarrow> nat \<Rightarrow> nat \<Rightarrow> nat \<Rightarrow> nat \<Rightarrow> BlockReader \<Rightarrow> bool" where
  "reader_at zf blks b e offset x idx br \<longleftrightarrow> m_idx br = idx \<and> b \<le> idx \<and> idx \<le> e \<and> m_end_idx br = Suc e \<and> m_begin_idx br \<le> idx \<and>
     m_original_offset br = offset \<and> m_end br = x \<and> m_original_begin_idx br = (if by_content zf then b else 0) \<and>
     m_verify br = (verify (z_opt (m_ht zf)) \<noteq> 0) \<and> m_block_size br = block_size (z_opt (m_ht zf)) \<and> m_eno br = 0 \<and> length (m_buf br) = MAX_READ_SIZE \<and>
     psum (map length blks) (Suc idx) - psum (map length blks) (m_begin_idx br) \<le> MAX_READ_SIZE \<and>
     (let n = min MAX_READ_SIZE (psum (map length blks) (Suc e) - psum (map length blks) (m_begin_idx br))
      in take n (m_buf br) = take n (drop (psum (map length blks) (m_begin_idx br)) (concat blks)))"

text \<open>The part of block \<open>idx\<close> that is copied.\<close>

definition from_in :: "byte list list \<Rightarrow> nat \<Rightarrow> nat \<Rightarrow> nat \<Rightarrow> nat" where
  "from_in raws b offset idx = (if idx = b then offset - psum (map length raws) b else 0)"

definition upto_in :: "byte list list \<Rightarrow> nat \<Rightarrow> nat \<Rightarrow> nat \<Rightarrow> nat" where
  "upto_in raws e x idx = (if idx = e then x + 1 - psum (map length raws) e else length (raws ! idx))"

text \<open>Reads of files with blocks of a fixed size start in the first block or at the start of a block.\<close>

definition start_ok :: "zfile \<Rightarrow> nat \<Rightarrow> bool" where
  "start_ok zf offset \<longleftrightarrow> z_is_fastcdc (m_ht zf) \<or> offset < block_size (z_opt (m_ht zf)) \<or> block_size (z_opt (m_ht zf)) dvd offset"

definition z_read :: "('f \<Rightarrow> byte list) \<Rightarrow> (byte list \<Rightarrow> u32) \<Rightarrow> (byte list \<Rightarrow> nat \<Rightarrow> byte list option) \<Rightarrow> zfile \<Rightarrow> 'f \<Rightarrow> byte list list \<Rightarrow> byte list list \<Rightarrow> nat \<Rightarrow>
    nat \<Rightarrow> nat \<Rightarrow> nat \<Rightarrow> nat \<Rightarrow> bool" where
  "z_read content crc dec zf fl raws blks base b e offset x \<longleftrightarrow> z_stored content crc dec zf fl raws blks base \<and> in_block raws b offset \<and>
     in_block raws e x \<and> offset \<le> x \<and> start_ok zf offset"

lemma z_read_lengths:
  assumes "z_read content crc dec zf fl raws blks base b e offset x"
  shows "length blks = length raws" "b \<le> e" "e < length raws" "z_shape zf raws"
proof -
  show "length blks = length raws" using assms by (auto simp: z_read_def z_stored_def list_all2_lengthD)
  show "b \<le> e" using assms in_block_mono by (auto simp: z_read_def)
  show "e < length raws" using assms by (auto simp: z_read_def in_block_def)
  then have "raws \<noteq> []" by auto
  moreover have "z_stored content crc dec zf fl raws blks base" using assms by (simp add: z_read_def)
  ultimately show "z_shape zf raws" by (intro stored_shape)
qed

lemma from_in_ok:
  assumes rd: "z_read content crc dec zf fl raws blks base b e offset x" and at: "reader_at zf blks b e offset x idx br"
  shows "(if idx = m_original_begin_idx br then get_inblock_offset zf br (m_original_offset br) idx else Some 0) = Some (from_in raws b offset idx)"
proof -
  note shape = z_read_lengths(4) [OF rd]
  have b: "in_block raws b offset" "start_ok zf offset" using rd by (simp_all add: z_read_def)
  have br: "m_original_offset br = offset" "m_original_begin_idx br = (if by_content zf then b else 0)" "b \<le> idx" "m_block_size br = block_size (z_opt (m_ht zf))"
    using at by (simp_all add: reader_at_def)
  note ib = inblock_ok [OF shape b(1) br(4)]
  show ?thesis
  proof (cases "by_content zf \<or> b = 0")
    case True
    then have "m_original_begin_idx br = b" using br(2) by auto
    then show ?thesis using ib br(1) by (simp add: from_in_def)
  next
    case False
    let ?bs = "block_size (z_opt (m_ht zf))"
    have fixed: "\<forall>i. Suc i < length raws \<longrightarrow> length (raws ! i) = ?bs" "z_is_fastcdc (m_ht zf) = False" using False shape by (auto simp: z_shape_def)
    have ps: "psum (map length raws) b = b * ?bs" using psum_fixed [OF fixed(1)] b(1) by (simp add: in_block_def)
    have "?bs \<le> offset" using b(1) ps False by (cases b) (auto simp: in_block_def)
    then have "?bs dvd offset" using b(2) fixed(2) by (auto simp: start_ok_def)
    moreover have "length (raws ! b) \<le> ?bs" "b < length raws" using b(1) shape by (auto simp: in_block_def z_shape_def)
    then have "offset - b * ?bs < ?bs" using b(1) ps psum_block [of b raws] by (auto simp: in_block_def)
    moreover have "b * ?bs \<le> offset" using b(1) ps by (simp add: in_block_def)
    ultimately have "offset = b * ?bs"
      by (metis dvd_diff_nat dvd_triv_right le_add_diff_inverse nat_dvd_not_less add_0_right neq0_conv)
    then show ?thesis using False br(2,3) ps by (auto simp: from_in_def)
  qed
qed

lemma upto_in_ok:
  assumes rd: "z_read content crc dec zf fl raws blks base b e offset x" and at: "reader_at zf blks b e offset x idx br"
  shows "(if idx = sub64 (m_end_idx br) 1 then map_option (\<lambda>n. n + 1) (get_inblock_offset zf br (m_end br) idx) else Some (br_block_size zf br)) =
    Some (upto_in raws e x idx)"
proof -
  note len = z_read_lengths [OF rd]
  have br: "m_end_idx br = Suc e" "m_end br = x" "m_idx br = idx" "idx \<le> e" "m_block_size br = block_size (z_opt (m_ht zf))"
    using at by (simp_all add: reader_at_def)
  have "e < 2 ^ 63"
  proof -
    have "\<forall>r\<in>set raws. 0 < length r" using rd by (auto simp: z_read_def z_stored_def list_all2_conv_all_nth holds_def in_set_conv_nth)
    then have "length raws \<le> length (concat raws)" by (rule length_le_concat)
    then show ?thesis using len(3,4) by (simp add: z_shape_def)
  qed
  then have e: "sub64 (m_end_idx br) 1 = e" using br(1) by (simp add: sub64_less)
  show ?thesis
  proof (cases "idx = e")
    case True
    have "in_block raws e x" using rd by (simp add: z_read_def)
    then show ?thesis using inblock_ok [OF len(4) _ br(5)] True e br(2) by (auto simp: upto_in_def in_block_def)
  next
    case False
    then have "Suc idx < length raws" using br(4) len(3) by simp
    then have "br_block_size zf br = length (raws ! idx)" using len(4) br(3,5) by (auto simp: br_block_size_def z_shape_def)
    then show ?thesis using False e by (simp add: upto_in_def)
  qed
qed

lemma current_block_ok:
  assumes rd: "z_read content crc dec zf fl raws blks base b e offset x" and at: "reader_at zf blks b e offset x idx br"
  shows "get_current_block zf br = Some (Inr (br\<lparr>m_buf_offset := psum (map length blks) idx - psum (map length blks) (m_begin_idx br)\<rparr>,
    \<lparr>blk_compressed_size = length (blks ! idx) - (if m_verify br then 4 else 0), cp_begin = from_in raws b offset idx,
     cp_len = upto_in raws e x idx - from_in raws b offset idx\<rparr>))"
proof -
  note len = z_read_lengths [OF rd]
  let ?ls = "map length blks"
  let ?off = "psum ?ls idx - psum ?ls (m_begin_idx br)"
  have st: "z_stored content crc dec zf fl raws blks base" using rd by (simp add: z_read_def)
  have br: "m_idx br = idx" "m_begin_idx br \<le> idx" "idx < length blks" "m_verify br = (verify (z_opt (m_ht zf)) \<noteq> 0)" "idx \<le> e"
      "psum ?ls (Suc idx) - psum ?ls (m_begin_idx br) \<le> MAX_READ_SIZE"
    using at len(1,3) by (simp_all add: reader_at_def)
  have h: "holds crc dec (block_size (z_opt (m_ht zf))) (verify (z_opt (m_ht zf)) \<noteq> 0) (raws ! idx) (blks ! idx)"
    using st br(3) by (simp add: z_stored_def list_all2_conv_all_nth)
  have size: "(if m_verify br then 4 else 0) < length (blks ! idx)" "length (blks ! idx) < 2 ^ 64"
    using h br(4) by (auto simp: holds_def MAX_READ_SIZE_def)
  have len1: "psum ?ls (Suc idx) = psum ?ls idx + length (blks ! idx)" using psum_block [OF br(3)] .
  have mono: "psum ?ls (m_begin_idx br) \<le> psum ?ls idx" using psum_mono [OF br(2)] .
  have off: "get_buf_offset zf br idx = Some ?off" using blocks_length_ok [OF st br(2)] br(3) by (simp add: get_buf_offset_def)
  have cs: "compressed_size zf (br\<lparr>m_buf_offset := ?off\<rparr>) = Some (length (blks ! idx) - (if m_verify br then 4 else 0))"
    using blocks_length_ok [OF st, of idx "Suc idx"] br(1,3) len1 size sub64_less by (simp add: compressed_size_def)
  have fit: "?off < MAX_READ_SIZE" "?off + (length (blks ! idx) - (if m_verify br then 4 else 0)) \<le> MAX_READ_SIZE"
    using br(6) len1 mono size(1) by auto
  have at': "reader_at zf blks b e offset x idx (br\<lparr>m_buf_offset := ?off\<rparr>)" using at by (simp add: reader_at_def)
  have le: "from_in raws b offset idx \<le> upto_in raws e x idx" "upto_in raws e x idx < 2 ^ 64"
  proof -
    have bounds: "psum (map length raws) b \<le> offset" "offset < psum (map length raws) (Suc b)" "b < length raws" "psum (map length raws) e \<le> x"
        "x < length (concat raws)" "offset \<le> x"
      using rd in_block_below by (auto simp: z_read_def in_block_def)
    then show "from_in raws b offset idx \<le> upto_in raws e x idx"
      using psum_block [of b raws] by (auto simp: from_in_def upto_in_def)
    have "length (raws ! idx) \<le> length (concat raws)" using psum_total [of raws "Suc idx"] psum_block [of idx raws] br(3) len(1) by simp
    then show "upto_in raws e x idx < 2 ^ 64" using bounds(5) len(4) by (auto simp: upto_in_def z_shape_def)
  qed
  show ?thesis
    using from_in_ok [OF rd at'] upto_in_ok [OF rd at'] off cs fit sub64_less [OF le] br(1)
    by (simp add: get_current_block_def Let_def not_le [symmetric] split del: if_split)
qed

text \<open>The iterator at block \<open>idx\<close>.\<close>

definition iter_at :: "zfile \<Rightarrow> byte list list \<Rightarrow> byte list list \<Rightarrow> nat \<Rightarrow> nat \<Rightarrow> nat \<Rightarrow> nat \<Rightarrow> nat \<Rightarrow> BlockReader \<Rightarrow> block \<Rightarrow> bool" where
  "iter_at zf raws blks b e offset x idx br blk \<longleftrightarrow> reader_at zf blks b e offset x idx br \<and>
     m_buf_offset br = psum (map length blks) idx - psum (map length blks) (m_begin_idx br) \<and>
     blk = \<lparr>blk_compressed_size = length (blks ! idx) - (if m_verify br then 4 else 0), cp_begin = from_in raws b offset idx,
       cp_len = upto_in raws e x idx - from_in raws b offset idx\<rparr>"

lemma current_block_iter:
  assumes "z_read content crc dec zf fl raws blks base b e offset x" "reader_at zf blks b e offset x idx br"
  shows "\<exists>br' blk. get_current_block zf br = Some (Inr (br', blk)) \<and> iter_at zf raws blks b e offset x idx br' blk"
  using current_block_ok [OF assms] assms(2) by (auto simp: iter_at_def reader_at_def)

lemma read_range:
  assumes "take (length d) (drop base c) = d" "p + n \<le> length d"
  shows "take n (drop (base + p) c) = take n (drop p d)"
proof -
  have "take n (drop p d) = take n (drop p (take (length d) (drop base c)))" using assms(1) by simp
  also have "\<dots> = take n (drop (base + p) c)" using assms(2) by (simp add: drop_take min_def add.commute)
  finally show ?thesis by simp
qed

lemma read_blocks_ok:
  assumes rc: "reads_content ops content" and rd: "z_read content crc dec zf fl raws blks base b e offset x" and "idx \<le> e" "length (m_buf br) = MAX_READ_SIZE"
  shows "\<exists>buf. read_blocks ops zf br fl idx (Suc e) = Some (0, br\<lparr>m_buf := buf\<rparr>) \<and> length buf = MAX_READ_SIZE \<and>
    (let n = min MAX_READ_SIZE (psum (map length blks) (Suc e) - psum (map length blks) idx)
     in take n buf = take n (drop (psum (map length blks) idx) (concat blks)))"
proof -
  note len = z_read_lengths [OF rd]
  let ?S = "psum (map length blks)"
  let ?n = "min MAX_READ_SIZE (?S (Suc e) - ?S idx)" and ?d = "concat blks"
  have st: "z_stored content crc dec zf fl raws blks base" using rd by (simp add: z_read_def)
  have d: "take (length ?d) (drop base (content fl)) = ?d" using st by (simp add: z_stored_def)
  have total: "?S (Suc e) \<le> length ?d" "?S idx \<le> ?S (Suc e)" using psum_total psum_mono assms(3) by (simp_all add: le_SucI)
  then have fit: "?S idx + ?n \<le> length ?d" by simp
  have at: "jt_at (m_jump_table zf) idx = Some (base + ?S idx)" using st assms(3) len(1,3) by (simp add: z_stored_def)
  have "fpread ops fl ?n (base + ?S idx) = (int (length (take ?n (drop (?S idx) ?d))), take ?n (drop (?S idx) ?d))"
    using rc [unfolded reads_content_def, THEN conjunct2] unfolding read_range [OF d fit, symmetric] by blast
  moreover have "length (take ?n (drop (?S idx) ?d)) = ?n" using fit by simp
  ultimately have bs: "fpread ops fl ?n (base + ?S idx) = (int ?n, take ?n (drop (?S idx) ?d))" by simp
  let ?buf = "put_bytes 0 (take ?n (drop (?S idx) ?d)) (m_buf br)"
  have "read_blocks ops zf br fl idx (Suc e) = Some (0, br\<lparr>m_buf := ?buf\<rparr>)"
    using blocks_length_ok [OF st, of idx "Suc e"] assms(3) len(1,3) at bs by (simp add: read_blocks_def)
  moreover have "length ?buf = MAX_READ_SIZE" "take ?n ?buf = take ?n (drop (?S idx) ?d)"
    using assms(4) fit by (simp_all add: put_bytes_def)
  ultimately show ?thesis by (auto simp: Let_def)
qed

lemma one_block_fits:
  assumes "z_read content crc dec zf fl raws blks base b e offset x" "idx < length blks"
  shows "psum (map length blks) (Suc idx) - psum (map length blks) idx \<le> MAX_READ_SIZE"
proof -
  have "holds crc dec (block_size (z_opt (m_ht zf))) (verify (z_opt (m_ht zf)) \<noteq> 0) (raws ! idx) (blks ! idx)"
    using assms by (simp add: z_read_def z_stored_def list_all2_conv_all_nth)
  then show ?thesis using psum_block [OF assms(2)] by (simp add: holds_def)
qed

lemma br_begin_ok:
  assumes rc: "reads_content ops content" and rd: "z_read content crc dec zf fl raws blks base b e offset x"
    and br: "m_idx br = b" "m_begin_idx br = b" "m_end_idx br = Suc e" "m_original_offset br = offset" "m_end br = x"
      "m_original_begin_idx br = (if by_content zf then b else 0)" "m_verify br = (verify (z_opt (m_ht zf)) \<noteq> 0)"
      "m_block_size br = block_size (z_opt (m_ht zf))" "m_eno br = 0" "length (m_buf br) = MAX_READ_SIZE"
  shows "\<exists>br' blk. br_begin ops zf br fl = Some (Inr (br', blk)) \<and> iter_at zf raws blks b e offset x b br' blk"
proof -
  note len = z_read_lengths [OF rd]
  obtain buf where buf: "read_blocks ops zf br fl b (Suc e) = Some (0, br\<lparr>m_buf := buf\<rparr>)" "length buf = MAX_READ_SIZE"
      "let n = min MAX_READ_SIZE (psum (map length blks) (Suc e) - psum (map length blks) b) in take n buf = take n (drop (psum (map length blks) b) (concat blks))"
    using read_blocks_ok [OF rc rd len(2) br(10)] by blast
  have "reader_at zf blks b e offset x b (br\<lparr>m_buf := buf\<rparr>)"
    unfolding reader_at_def using br buf(2,3) len(2) one_block_fits [OF rd, of b] len(1,3) by simp
  then show ?thesis using current_block_iter [OF rd] buf(1) br(1,3) by (auto simp: br_begin_def)
qed

lemma br_next_last:
  assumes "reader_at zf blks b e offset x e br"
  shows "\<exists>br'. br_next ops zf br fl = Some (Inl br') \<and> m_eno br' = 0"
  using assms by (auto simp: reader_at_def br_next_def br_end_def)

lemma br_next_ok:
  assumes rc: "reads_content ops content" and rd: "z_read content crc dec zf fl raws blks base b e offset x"
    and at: "reader_at zf blks b e offset x idx br" and "idx < e"
  shows "\<exists>br' blk. br_next ops zf br fl = Some (Inr (br', blk)) \<and> iter_at zf raws blks b e offset x (Suc idx) br' blk"
proof -
  note len = z_read_lengths [OF rd]
  let ?S = "psum (map length blks)"
  let ?br = "br\<lparr>m_idx := Suc idx\<rparr>"
  have st: "z_stored content crc dec zf fl raws blks base" using rd by (simp add: z_read_def)
  have i: "m_idx br = idx" "m_begin_idx br \<le> idx" "m_end_idx br = Suc e" "length (m_buf br) = MAX_READ_SIZE" using at by (simp_all add: reader_at_def)
  have ex: "buf_exceed zf ?br (Suc idx) = Some (?S (Suc (Suc idx)) - ?S (m_begin_idx br) > MAX_READ_SIZE)"
    using blocks_length_ok [OF st, of "m_begin_idx br" "Suc (Suc idx)"] i(2) assms(4) len(1,3) by (simp add: buf_exceed_def)
  show ?thesis
  proof (cases "?S (Suc (Suc idx)) - ?S (m_begin_idx br) > MAX_READ_SIZE")
    case False
    then have "reader_at zf blks b e offset x (Suc idx) ?br" using at assms(4) by (simp add: reader_at_def)
    then obtain br' blk where "get_current_block zf ?br = Some (Inr (br', blk))" "iter_at zf raws blks b e offset x (Suc idx) br' blk"
      using current_block_iter [OF rd] by blast
    then show ?thesis using ex False i(1,3) assms(4) by (simp add: br_next_def)
  next
    case True
    obtain buf where buf: "read_blocks ops zf ?br fl (Suc idx) (Suc e) = Some (0, ?br\<lparr>m_buf := buf\<rparr>)" "length buf = MAX_READ_SIZE"
        "let n = min MAX_READ_SIZE (?S (Suc e) - ?S (Suc idx)) in take n buf = take n (drop (?S (Suc idx)) (concat blks))"
      using read_blocks_ok [OF rc rd, of "Suc idx" ?br] assms(4) i(4) by auto
    let ?br2 = "?br\<lparr>m_buf := buf, m_begin_idx := Suc idx\<rparr>"
    have "reader_at zf blks b e offset x (Suc idx) ?br2"
      unfolding reader_at_def using at assms(4) buf(2,3) one_block_fits [OF rd, of "Suc idx"] len(1,3) by (simp add: reader_at_def)
    then obtain br' blk where "get_current_block zf ?br2 = Some (Inr (br', blk))" "iter_at zf raws blks b e offset x (Suc idx) br' blk"
      using current_block_iter [OF rd] by blast
    then show ?thesis using ex True buf(1) i(1,3) assms(4) by (simp add: br_next_def)
  qed
qed

subsection \<open>Copying the blocks\<close>

text \<open>The bytes of the current block in the buffer.\<close>

lemma block_in_buffer:
  assumes rd: "z_read content crc dec zf fl raws blks base b e offset x" and at: "iter_at zf raws blks b e offset x idx br blk"
  shows "field (m_buf_offset br) (length (blks ! idx)) (m_buf br) = blks ! idx"
proof -
  note len = z_read_lengths [OF rd]
  let ?S = "psum (map length blks)"
  define n where "n = min MAX_READ_SIZE (?S (Suc e) - ?S (m_begin_idx br))"
  have a: "m_begin_idx br \<le> idx" "idx \<le> e" "?S (Suc idx) - ?S (m_begin_idx br) \<le> MAX_READ_SIZE" "m_buf_offset br = ?S idx - ?S (m_begin_idx br)"
      "take n (m_buf br) = take n (drop (?S (m_begin_idx br)) (concat blks))"
    using at by (simp_all add: iter_at_def reader_at_def n_def Let_def)
  have i: "idx < length blks" "?S (Suc idx) = ?S idx + length (blks ! idx)" using a(2) len(1,3) psum_block [of idx blks] by simp_all
  have mono: "?S (m_begin_idx br) \<le> ?S idx" "?S (Suc idx) \<le> ?S (Suc e)" using psum_mono a(1,2) by simp_all
  have fit: "m_buf_offset br + length (blks ! idx) \<le> n" using a(3,4) i(2) mono by (auto simp: n_def)
  have "field (m_buf_offset br) (length (blks ! idx)) (m_buf br) = take (length (blks ! idx)) (drop (m_buf_offset br) (take n (m_buf br)))"
    using fit by (simp add: field_def drop_take min_def)
  also have "\<dots> = take (length (blks ! idx)) (drop (?S idx) (concat blks))"
    unfolding a(5) using fit a(4) mono(1) by (simp add: drop_take min_def add.commute)
  also have "\<dots> = blks ! idx" unfolding drop_psum [OF i(1)] by simp
  finally show ?thesis .
qed

text \<open>How much was read before block \<open>idx\<close>.\<close>

definition done_before :: "byte list list \<Rightarrow> nat \<Rightarrow> nat \<Rightarrow> nat \<Rightarrow> nat" where
  "done_before raws b offset idx = (if idx = b then 0 else psum (map length raws) idx - offset)"

lemma part_of_block:
  assumes rd: "z_read content crc dec zf fl raws blks base b e offset x" and "b \<le> idx" "idx \<le> e"
  shows "take (upto_in raws e x idx - from_in raws b offset idx) (drop (from_in raws b offset idx) (raws ! idx)) =
      take (upto_in raws e x idx - from_in raws b offset idx) (drop (offset + done_before raws b offset idx) (concat raws))"
    "done_before raws b offset idx + (upto_in raws e x idx - from_in raws b offset idx) = (if idx = e then x + 1 - offset else done_before raws b offset (Suc idx))"
    "from_in raws b offset idx < upto_in raws e x idx" "upto_in raws e x idx \<le> length (raws ! idx)"
proof -
  note len = z_read_lengths [OF rd]
  let ?R = "psum (map length raws)"
  have r: "?R b \<le> offset" "offset < ?R (Suc b)" "?R e \<le> x" "x < ?R (Suc e)" "offset \<le> x" using rd by (auto simp: z_read_def in_block_def)
  have i: "idx < length raws" "?R (Suc idx) = ?R idx + length (raws ! idx)" "?R (Suc b) = ?R b + length (raws ! b)" "?R (Suc e) = ?R e + length (raws ! e)"
    using assms(2,3) len(2,3) psum_block [of idx raws] psum_block [of b raws] psum_block [of e raws] by auto
  have later: "offset \<le> ?R idx" if "idx \<noteq> b" using psum_mono [of "Suc b" idx "map length raws"] that assms(2) r(2) by linarith
  have "raws ! idx \<noteq> []"
    using rd i(1) by (auto simp: z_read_def z_stored_def list_all2_conv_all_nth holds_def)
  then have pos: "0 < length (raws ! idx)" by simp
  show le: "upto_in raws e x idx \<le> length (raws ! idx)" using r i by (auto simp: upto_in_def)
  show "from_in raws b offset idx < upto_in raws e x idx" using r i pos by (auto simp: from_in_def upto_in_def)
  have at: "offset + done_before raws b offset idx = ?R idx + from_in raws b offset idx" using r(1) later by (auto simp: done_before_def from_in_def)
  show "done_before raws b offset idx + (upto_in raws e x idx - from_in raws b offset idx) = (if idx = e then x + 1 - offset else done_before raws b offset (Suc idx))"
    using r i later assms(2) by (auto simp: done_before_def from_in_def upto_in_def)
  have "drop (?R idx + from_in raws b offset idx) (concat raws) = drop (from_in raws b offset idx) (raws ! idx @ concat (drop (Suc idx) raws))"
    unfolding drop_psum [OF i(1), symmetric] drop_drop by (simp only: add.commute)
  then show "take (upto_in raws e x idx - from_in raws b offset idx) (drop (from_in raws b offset idx) (raws ! idx)) =
      take (upto_in raws e x idx - from_in raws b offset idx) (drop (offset + done_before raws b offset idx) (concat raws))"
    unfolding at using le by simp
qed

lemma field_append:
  assumes "field off (length u + length v) xs = u @ v"
  shows "field off (length u) xs = u" "field (off + length u) (length v) xs = v"
proof -
  have t: "take (length u + length v) (drop off xs) = u @ v" using assms by (simp add: field_def)
  have "take (length u) (drop off xs) = take (length u) (take (length u + length v) (drop off xs))" by (simp add: min_def)
  then show "field off (length u) xs = u" unfolding t by (simp add: field_def)
  have "take (length v) (drop (length u) (drop off xs)) = drop (length u) (take (length u + length v) (drop off xs))" by (simp add: drop_take)
  then show "field (off + length u) (length v) xs = v" unfolding t by (simp add: field_def add.commute)
qed

lemma block_parts:
  assumes rd: "z_read content crc dec zf fl raws blks base b e offset x" and at: "iter_at zf raws blks b e offset x idx br blk"
  shows "\<exists>c. field (m_buf_offset br) (blk_compressed_size blk) (m_buf br) = c \<and> dec c (block_size (z_opt (m_ht zf))) = Some (raws ! idx) \<and>
    (verify (z_opt (m_ht zf)) \<noteq> 0 \<longrightarrow> crc32_code zf br = Some (crc c))"
proof -
  note len = z_read_lengths [OF rd]
  let ?S = "psum (map length blks)" and ?v = "verify (z_opt (m_ht zf)) \<noteq> 0"
  have st: "z_stored content crc dec zf fl raws blks base" using rd by (simp add: z_read_def)
  have a: "idx < length blks" "m_idx br = idx" "m_begin_idx br \<le> idx" "m_verify br = ?v" "m_buf_offset br = ?S idx - ?S (m_begin_idx br)"
      "?S (Suc idx) - ?S (m_begin_idx br) \<le> MAX_READ_SIZE" "blk_compressed_size blk = length (blks ! idx) - (if m_verify br then 4 else 0)"
    using at len(1,3) by (auto simp: iter_at_def reader_at_def)
  obtain c where c: "blks ! idx = c @ (if ?v then le_bytes 4 (unat (crc c)) else [])" "dec c (block_size (z_opt (m_ht zf))) = Some (raws ! idx)"
      "length (blks ! idx) \<le> MAX_READ_SIZE"
    using st a(1) by (auto simp: z_stored_def list_all2_conv_all_nth holds_def)
  let ?t = "if ?v then le_bytes 4 (unat (crc c)) else []"
  have buf: "field (m_buf_offset br) (length c + length ?t) (m_buf br) = c @ ?t" using block_in_buffer [OF rd at] c(1) by simp
  have cs: "blk_compressed_size blk = length c" using a(4,7) c(1) by simp
  have "crc32_code zf br = Some (crc c)" if v: ?v
  proof -
    have S: "?S (Suc idx) = ?S idx + length (blks ! idx)" using psum_block [OF a(1)] .
    have "compressed_size zf br = Some (length c)"
      using blocks_length_ok [OF st, of idx "Suc idx"] a(1,2,4) S v c(1,3) sub64_less [of 4 "length (blks ! idx)"]
      by (simp add: compressed_size_def MAX_READ_SIZE_def)
    moreover have "m_buf_offset br + length c + 4 \<le> MAX_READ_SIZE" using a(5,6) S c(1) v psum_mono [OF a(3), of "map length blks"] by simp
    moreover have "field (m_buf_offset br + length c) 4 (m_buf br) = le_bytes 4 (unat (crc c))" using field_append(2) [OF buf] v by simp
    moreover have "unat (crc c) < 256 ^ 4" using unsigned_less [of "crc c", where ?'a = nat] by simp
    ultimately show ?thesis by (simp add: crc32_code_def le_value_bytes_small)
  qed
  then show ?thesis using field_append(1) [OF buf] cs c(2) by auto
qed

lemma block_try_ok:
  assumes rd: "z_read content crc dec zf fl raws blks base b e offset x" and at: "iter_at zf raws blks b e offset x idx br blk"
    and cnt: "readn + (upto_in raws e x idx - from_in raws b offset idx) \<le> cnt" and raw: "length raw = MAX_READ_SIZE"
  shows "\<exists>raw'. block_try crc dec zf br blk cnt readn buf raw = Some (Copied (upto_in raws e x idx - from_in raws b offset idx)
      (put_bytes readn (take (upto_in raws e x idx - from_in raws b offset idx) (drop (from_in raws b offset idx) (raws ! idx))) buf) raw') \<and>
    length raw' = MAX_READ_SIZE"
proof -
  let ?f = "from_in raws b offset idx" and ?u = "upto_in raws e x idx" and ?bs = "block_size (z_opt (m_ht zf))" and ?out = "raws ! idx"
  let ?n = "?u - ?f"
  have i: "b \<le> idx" "idx \<le> e" "idx < length blks" using at z_read_lengths [OF rd] by (auto simp: iter_at_def reader_at_def)
  note part = part_of_block(3,4) [OF rd i(1,2)]
  obtain c where c: "field (m_buf_offset br) (blk_compressed_size blk) (m_buf br) = c" "dec c ?bs = Some ?out"
      "verify (z_opt (m_ht zf)) \<noteq> 0 \<longrightarrow> crc32_code zf br = Some (crc c)"
    using block_parts [OF rd at] by blast
  have st: "z_valid zf = FLAG_VALID_TRUE" "?bs \<le> MAX_READ_SIZE" "length ?out \<le> ?bs" "length ?out \<le> MAX_READ_SIZE"
    using rd i(3) by (auto simp: z_read_def z_stored_def list_all2_conv_all_nth holds_def)
  have blk: "cp_begin blk = ?f" "cp_len blk = ?n" using at by (simp_all add: iter_at_def)
  have code: "(if verify (z_opt (m_ht zf)) \<noteq> 0 then map_option Some (crc32_code zf br) else Some None) =
      Some (if verify (z_opt (m_ht zf)) \<noteq> 0 then Some (crc c) else None)" using c(3) by simp
  have bytes: "(if readn + ?n > cnt then sub64 cnt readn else ?n) = ?n" using cnt by simp
  have attempted: "block_try crc dec zf br blk cnt readn buf raw =
      (if ?n = ?bs then Some (Copied ?n (put_bytes readn ?out buf) raw)
       else Some (Copied ?n (put_bytes readn (field ?f ?n (put_bytes 0 ?out raw)) buf) (put_bytes 0 ?out raw)))"
    unfolding block_try_def Let_def c(1) blk code bytes using c(2) st part by (simp add: FLAG_VALID_TRUE_def FLAG_VALID_CRC_CHECK_def)
  show ?thesis
  proof (cases "?n = ?bs")
    case True
    then have "?f = 0" "?n = length ?out" using part st(3) by linarith+
    then show ?thesis using attempted True raw by auto
  next
    case False
    have "field ?f ?n (put_bytes 0 ?out raw) = take ?n (drop ?f ?out)" using part by (simp add: field_def put_bytes_def)
    then show ?thesis using attempted False raw st(4) by auto
  qed
qed

lemma block_retry_ok:
  assumes "block_try crc dec zf br blk cnt readn buf raw = Some (Copied n bytes raw')"
  shows "block_retry ops crc dec zf retry br blk cnt readn buf raw fl = Some (Copied n bytes raw', br, fl)"
  using assms by (simp add: block_retry.simps)

lemma zpread_loop_ok:
  assumes rc: "reads_content ops content" and rd: "z_read content crc dec zf fl raws blks base b e offset x"
    and at: "iter_at zf raws blks b e offset x idx br blk"
    and "readn = done_before raws b offset idx" "cnt = x + 1 - offset" "cnt \<le> length buf" "length raw = MAX_READ_SIZE"
  shows "\<exists>br'. zpread_loop ops crc dec zf cnt (Inr (br, blk)) readn (Some buf) raw fl =
      Some (Some cnt, br', Some (put_bytes readn (take (cnt - readn) (drop (offset + readn) (concat raws))) buf), fl) \<and> m_eno br' = 0"
  using at assms(4,6,7)
proof (induction "e - idx" arbitrary: idx br blk readn buf raw rule: less_induct)
  case less
  have i: "b \<le> idx" "idx \<le> e" "reader_at zf blks b e offset x idx br" using less.prems(1) by (auto simp: iter_at_def reader_at_def)
  note part = part_of_block [OF rd i(1,2)]
  define n where "n = upto_in raws e x idx - from_in raws b offset idx"
  let ?d = "concat raws"
  have n: "0 < n" "readn + n = (if idx = e then cnt else done_before raws b offset (Suc idx))"
    using part(2,3) less.prems(2) assms(5) by (simp_all add: n_def)
  have off: "offset \<le> x" "x < length ?d" using rd in_block_below by (auto simp: z_read_def)
  have le: "readn + n \<le> cnt"
  proof (cases "idx = e")
    case False
    then have "Suc idx \<le> e" "Suc idx \<noteq> b" using i by auto
    then have "psum (map length raws) (Suc idx) \<le> x" using psum_mono [of "Suc idx" e "map length raws"] rd by (auto simp: z_read_def in_block_def)
    then show ?thesis using n(2) False \<open>Suc idx \<noteq> b\<close> assms(5) by (simp add: done_before_def)
  qed (use n(2) in simp)
  let ?bytes = "take n (drop (offset + readn) ?d)"
  obtain raw' where tr: "block_try crc dec zf br blk cnt readn buf raw = Some (Copied n (put_bytes readn ?bytes buf) raw')" "length raw' = MAX_READ_SIZE"
    using block_try_ok [OF rd less.prems(1) _ less.prems(4), of readn cnt buf] le part(1) less.prems(2) by (auto simp: n_def)
  have len: "length ?bytes = n" using le off assms(5) by simp
  have run: "zpread_loop ops crc dec zf cnt (Inr (br, blk)) readn (Some buf) raw fl =
      br_next ops zf br fl \<bind> (\<lambda>it. zpread_loop ops crc dec zf cnt it (readn + n) (Some (put_bytes readn ?bytes buf)) raw' fl)"
    using le n(1) block_retry_ok [OF tr(1), of ops 3 fl] by (subst zpread_loop.simps) simp
  show ?case
  proof (cases "idx = e")
    case True
    obtain br' where "br_next ops zf br fl = Some (Inl br')" "m_eno br' = 0" using br_next_last i(3) True by metis
    moreover have "cnt - readn = n" using n(2) True by simp
    ultimately show ?thesis using run n(2) True by (simp add: zpread_loop.simps [of ops crc dec zf cnt "Inl br'"])
  next
    case False
    then obtain br1 blk1 where nx: "br_next ops zf br fl = Some (Inr (br1, blk1))" "iter_at zf raws blks b e offset x (Suc idx) br1 blk1"
      using br_next_ok [OF rc rd i(3)] i(2) by auto
    let ?buf1 = "put_bytes readn ?bytes buf" and ?r1 = "readn + n"
    have small: "e - Suc idx < e - idx" "?r1 = done_before raws b offset (Suc idx)" "cnt \<le> length ?buf1"
      using False i(2) n(2) less.prems(3) le len by auto
    obtain br' where ih: "zpread_loop ops crc dec zf cnt (Inr (br1, blk1)) ?r1 (Some ?buf1) raw' fl =
          Some (Some cnt, br', Some (put_bytes ?r1 (take (cnt - ?r1) (drop (offset + ?r1) ?d)) ?buf1), fl)" "m_eno br' = 0"
      using less.hyps [OF small(1) nx(2) small(2,3) tr(2)] by blast
    have tail: "length (take (cnt - ?r1) (drop (offset + ?r1) ?d)) = cnt - ?r1" using off assms(5) by simp
    have "put_bytes ?r1 (take (cnt - ?r1) (drop (offset + ?r1) ?d)) ?buf1 = put_bytes readn (?bytes @ take (cnt - ?r1) (drop (offset + ?r1) ?d)) buf"
      using put_bytes_append [of readn ?bytes "take (cnt - ?r1) (drop (offset + ?r1) ?d)" buf] len tail le less.prems(3) by simp
    also have "?bytes @ take (cnt - ?r1) (drop (offset + ?r1) ?d) = take (n + (cnt - ?r1)) (drop (offset + readn) ?d)"
      by (simp add: take_add add.assoc add.commute add.left_commute)
    also have "n + (cnt - ?r1) = cnt - readn" using le by simp
    finally show ?thesis using run nx(1) ih by auto
  qed
qed

lemma z_pread_ok:
  assumes rc: "reads_content ops content" and st: "z_stored content crc dec zf fl raws blks base" and "start_ok zf offset"
    and "min count (length (concat raws) - offset) \<le> length buf"
  shows "z_pread ops crc dec zf (Some buf) count offset fl =
    (let n = min count (length (concat raws) - offset) in Some (int n, Some (put_bytes 0 (take n (drop offset (concat raws))) buf), fl))"
proof -
  let ?d = "concat raws"
  define n where "n = min count (length ?d - offset)"
  have z: "z_original_file_size (m_ht zf) = length ?d" "length ?d < 2 ^ 63" "block_size (z_opt (m_ht zf)) \<le> MAX_READ_SIZE" using st by (simp_all add: z_stored_def)
  have cnt: "(if int (offset + count) > ssize (length ?d) then ssize (length ?d) - int offset else int count) =
      (if offset + count > length ?d then int (length ?d) - int offset else int count)" using z(2) by (simp add: ssize_def)
  show ?thesis
  proof (cases "n = 0")
    case True
    then have "(if offset + count > length ?d then int (length ?d) - int offset else int count) \<le> 0" by (auto simp: n_def)
    then show ?thesis using z(3) True unfolding z_pread_def Let_def z(1) cnt n_def [symmetric] by simp
  next
    case False
    have n: "(if offset + count > length ?d then int (length ?d) - int offset else int count) = int n" "offset + n \<le> length ?d" using False by (auto simp: n_def)
    have "raws \<noteq> []" using False by (auto simp: n_def)
    then have shape: "z_shape zf raws" by (rule stored_shape [OF st])
    obtain b e where be: "BlockReader_new zf offset n = Some \<lparr>m_buf_offset = 0, m_begin_idx = b, m_original_begin_idx = (if by_content zf then b else 0),
          m_idx = b, m_end_idx = Suc e, m_original_offset = offset, m_end = offset + n - 1, m_verify = (verify (z_opt (m_ht zf)) \<noteq> 0),
          m_block_size = block_size (z_opt (m_ht zf)), m_eno = 0, m_buf = replicate MAX_READ_SIZE 0\<rparr>"
        "in_block raws b offset" "in_block raws e (offset + n - 1)"
      using BlockReader_new_ok [OF shape _ n(2)] False by auto
    have rd: "z_read content crc dec zf fl raws blks base b e offset (offset + n - 1)" using be(2,3) st assms(3) False by (simp add: z_read_def)
    let ?br = "\<lparr>m_buf_offset = 0, m_begin_idx = b, m_original_begin_idx = (if by_content zf then b else 0), m_idx = b, m_end_idx = Suc e,
      m_original_offset = offset, m_end = offset + n - 1, m_verify = (verify (z_opt (m_ht zf)) \<noteq> 0), m_block_size = block_size (z_opt (m_ht zf)),
      m_eno = 0, m_buf = replicate MAX_READ_SIZE 0\<rparr>"
    obtain br blk where it: "br_begin ops zf ?br fl = Some (Inr (br, blk))" "iter_at zf raws blks b e offset (offset + n - 1) b br blk"
      using br_begin_ok [OF rc rd, of ?br] by auto
    obtain br' where "zpread_loop ops crc dec zf n (Inr (br, blk)) 0 (Some buf) (replicate MAX_READ_SIZE 0) fl =
        Some (Some n, br', Some (put_bytes 0 (take (n - 0) (drop (offset + 0) ?d)) buf), fl)" "m_eno br' = 0"
      using zpread_loop_ok [OF rc rd it(2), of 0 n buf "replicate MAX_READ_SIZE 0"] False assms(4) by (auto simp: done_before_def n_def)
    then show ?thesis using z(3) False be(1) it(1) unfolding z_pread_def Let_def z(1) cnt n(1) n_def [symmetric] by simp
  qed
qed


subsection \<open>Reads that go wrong\<close>

text \<open>The branch for blocks of a fixed size leaves \<open>m_original_begin_idx\<close> at 0.  A read that starts inside a later block therefore copies
  from the start of that block: the first block it delivers begins at 0, wherever the offset lies in it.\<close>

lemma read_blocks_keeps:
  assumes "read_blocks ops zf br fl b e = Some (ret, br')"
  shows "m_idx br' = m_idx br" "m_original_begin_idx br' = m_original_begin_idx br"
  using assms by (auto simp: read_blocks_def Let_def split: bind_splits if_splits prod.splits)

lemma fixed_size_read_from_block_start:
  assumes "\<not> by_content zf" "0 < block_size (z_opt (m_ht zf))" "block_size (z_opt (m_ht zf)) \<le> offset"
    "BlockReader_new zf offset count = Some br" "br_begin ops zf br fl = Some (Inr (br', blk))"
  shows "cp_begin blk = 0"
proof -
  have "0 < offset div block_size (z_opt (m_ht zf))" using assms(2,3) by (simp add: div_greater_zero_iff)
  then have new: "0 < m_idx br" "m_original_begin_idx br = 0" using assms(1,2,4) by (auto simp: BlockReader_new_def Let_def)
  obtain ret br1 where r: "read_blocks ops zf br fl (m_idx br) (m_end_idx br) = Some (ret, br1)" "get_current_block zf br1 = Some (Inr (br', blk))"
    using assms(5) by (auto simp: br_begin_def split: bind_splits if_splits)
  have "m_idx br1 \<noteq> m_original_begin_idx br1" using read_blocks_keeps [OF r(1)] new by simp
  then show ?thesis using r(2) by (auto simp: get_current_block_def Let_def split: bind_splits if_splits)
qed

text \<open>A block that is longer than the buffer of the reader, as the compressed form of 64 KiB that do not compress, is never delivered.\<close>

lemma oversized_block_not_read:
  assumes "m_begin_idx br = m_idx br" "compressed_size zf br = Some n" "MAX_READ_SIZE < n" "jt_at (m_jump_table zf) (m_idx br) = Some x" "x < 2 ^ 64"
  shows "\<exists>br'. get_current_block zf br = Some (Inl br') \<and> m_eno br' = ERANGE"
proof -
  have off: "get_buf_offset zf br (m_idx br) = Some 0" using assms(1,4,5) by (simp add: get_buf_offset_def get_blocks_length_def sub64_def)
  have "compressed_size zf (br\<lparr>m_buf_offset := 0\<rparr>) = Some n" using assms(2) by (simp add: compressed_size_def)
  then show ?thesis using off assms(3) by (simp add: get_current_block_def Let_def MAX_READ_SIZE_def)
qed

end
