(* ===== verification/ZFile_Codec.thy ===== *)
theory ZFile_Codec
  imports ZFile_Read FastCDC
begin

text \<open>
  The compressors (\<^verbatim>\<open>src/overlaybd/zfile/compressor.cpp\<close>, \<^verbatim>\<open>compressor.h\<close>): \<open>BaseCompressor\<close>, \<open>LZ4Compressor\<close>,
  \<open>Compressor_zstd\<close>, \<open>create_compressor\<close>, and \<open>compress_data\<close> of \<^verbatim>\<open>zfile.cpp\<close>.

  The libraries LZ4 and ZSTD are a parameter, the record \<open>codec_libs\<close>; what is relied on is the documented behaviour in
  \<open>codec_ok\<close>: a buffer of the bound's size is enough, and what was compressed is decompressed to what it was.  Compressors without
  QAT are modelled, for which \<open>nbatch\<close> is 1.
\<close>

subsection \<open>The libraries\<close>

text \<open>\<open>LZ4_compress_default src capacity\<close> and \<open>LZ4_decompress_safe src capacity\<close>: the result and the bytes that are stored.  The
  functions of ZSTD: \<open>None\<close> where \<open>ZSTD_isError\<close> holds of the result, otherwise the bytes whose number is the result.\<close>

record codec_libs =
  LZ4_compressBound :: "nat \<Rightarrow> nat"
  LZ4_compress_default :: "byte list \<Rightarrow> nat \<Rightarrow> int \<times> byte list"
  LZ4_decompress_safe :: "byte list \<Rightarrow> nat \<Rightarrow> int \<times> byte list"
  ZSTD_compressBound :: "nat \<Rightarrow> nat"
  ZSTD_compress :: "byte list \<Rightarrow> nat \<Rightarrow> byte list option"
  ZSTD_decompress :: "byte list \<Rightarrow> nat \<Rightarrow> byte list option"

subsection \<open>The classes\<close>

datatype compressor_class = LZ4Compressor | Compressor_zstd

record compressor =
  c_class :: compressor_class
  max_dst_size :: nat
  src_blk_size :: nat

record CompressArgs =
  args_opt :: CompressOptions
  overwrite_header :: bool
  workers :: nat
  use_fastcdc :: bool
  fastcdc_min_size :: u32
  fastcdc_avg_size :: u32
  fastcdc_max_size :: u32

definition CompressArgs_new :: "CompressOptions \<Rightarrow> CompressArgs" where
  "CompressArgs_new op = \<lparr>args_opt = op, overwrite_header = False, workers = 1, use_fastcdc = False,
     fastcdc_min_size = 2048, fastcdc_avg_size = 8192, fastcdc_max_size = 65536\<rparr>"

definition OPT_LZ4 :: byte where "OPT_LZ4 = 1"
definition OPT_ZSTD :: byte where "OPT_ZSTD = 2"

definition LZ4_init :: "codec_libs \<Rightarrow> CompressArgs \<Rightarrow> compressor option" where
  "LZ4_init L args =
     (if algo (args_opt args) \<noteq> OPT_LZ4 then None
      else Some \<lparr>c_class = LZ4Compressor, max_dst_size = LZ4_compressBound L (block_size (args_opt args)), src_blk_size = block_size (args_opt args)\<rparr>)"

definition zstd_init :: "codec_libs \<Rightarrow> CompressArgs \<Rightarrow> compressor option" where
  "zstd_init L args =
     (if algo (args_opt args) \<noteq> OPT_ZSTD then None
      else Some \<lparr>c_class = Compressor_zstd, max_dst_size = ZSTD_compressBound L (block_size (args_opt args)), src_blk_size = block_size (args_opt args)\<rparr>)"

definition create_compressor :: "codec_libs \<Rightarrow> CompressArgs \<Rightarrow> compressor option" where
  "create_compressor L args =
     (if algo (args_opt args) = OPT_LZ4 then LZ4_init L args
      else if algo (args_opt args) = OPT_ZSTD then zstd_init L args
      else None)"

definition nbatch :: "compressor \<Rightarrow> nat" where
  "nbatch c = 1"

subsection \<open>Compressing\<close>

text \<open>One block with a buffer of \<open>cap\<close> bytes: the body of the loops of \<open>LZ4Compressor::do_compress\<close> and of
  \<open>Compressor_zstd::do_compress\<close>, which calls \<open>Compressor_zstd::compress\<close>.  \<open>None\<close> is the result \<open>-1\<close>.\<close>

definition LZ4_compress_block :: "codec_libs \<Rightarrow> byte list \<Rightarrow> nat \<Rightarrow> byte list option" where
  "LZ4_compress_block L src cap =
     (let (ret, out) = LZ4_compress_default L src cap
      in if ret < 0 then None else if ret = 0 then None else Some (take (nat ret) out))"

definition zstd_compress :: "codec_libs \<Rightarrow> compressor \<Rightarrow> byte list \<Rightarrow> nat \<Rightarrow> byte list option" where
  "zstd_compress L c src cap = (if cap < max_dst_size c then None else ZSTD_compress L src cap)"

definition compress_block :: "codec_libs \<Rightarrow> compressor \<Rightarrow> byte list \<Rightarrow> nat \<Rightarrow> byte list option" where
  "compress_block L c src cap =
     (case c_class c of LZ4Compressor \<Rightarrow> LZ4_compress_block L src cap | Compressor_zstd \<Rightarrow> zstd_compress L c src cap)"

text \<open>\<open>do_compress\<close> on the blocks of a batch, in order; the first block that fails ends it.\<close>

fun do_compress :: "codec_libs \<Rightarrow> compressor \<Rightarrow> nat \<Rightarrow> byte list list \<Rightarrow> byte list list option" where
  "do_compress L c cap [] = Some []"
| "do_compress L c cap (src # srcs) = do {
     out \<leftarrow> compress_block L c src cap;
     outs \<leftarrow> do_compress L c cap srcs;
     Some (out # outs)
   }"

text \<open>\<open>compress_batch\<close>: the outer \<open>None\<close> is the division by zero for a batch without blocks, the inner one the result \<open>-1\<close>.\<close>

definition compress_batch :: "codec_libs \<Rightarrow> compressor \<Rightarrow> byte list \<Rightarrow> nat list \<Rightarrow> nat \<Rightarrow> byte list list option option" where
  "compress_batch L c src src_chunk_len dst_buffer_capacity = do {
     let n = length src_chunk_len;
     ENV_BUG_ON (n = 0);
     if dst_buffer_capacity div n < max_dst_size c then Some None
     else Some (do_compress L c (dst_buffer_capacity div n) (slices src src_chunk_len))
   }"

definition compress :: "codec_libs \<Rightarrow> compressor \<Rightarrow> byte list \<Rightarrow> nat \<Rightarrow> byte list option" where
  "compress L c src dst_len =
     (case c_class c of
        LZ4Compressor \<Rightarrow> (case compress_batch L c src [length src] dst_len of Some (Some [out]) \<Rightarrow> Some out | _ \<Rightarrow> None)
      | Compressor_zstd \<Rightarrow> zstd_compress L c src dst_len)"

text \<open>\<open>compress_data\<close>: the block, with its checksum when it is wanted.\<close>

definition compress_data :: "(byte list \<Rightarrow> u32) \<Rightarrow> codec_libs \<Rightarrow> compressor \<Rightarrow> byte list \<Rightarrow> nat \<Rightarrow> bool \<Rightarrow> byte list option" where
  "compress_data crc32c_salt L c buf dest_len gen_crc =
     (case compress L c buf dest_len of
        None \<Rightarrow> None
      | Some out \<Rightarrow> if out = [] then None else Some (out @ (if gen_crc then le_bytes 4 (unat (crc32c_salt out)) else [])))"

subsection \<open>Decompressing\<close>

definition LZ4_decompress_block :: "codec_libs \<Rightarrow> byte list \<Rightarrow> nat \<Rightarrow> byte list option" where
  "LZ4_decompress_block L src cap =
     (let (ret, out) = LZ4_decompress_safe L src cap
      in if ret < 0 then None else if ret = 0 then None else Some (take (nat ret) out))"

fun LZ4_do_decompress :: "codec_libs \<Rightarrow> nat \<Rightarrow> byte list list \<Rightarrow> byte list list option" where
  "LZ4_do_decompress L cap [] = Some []"
| "LZ4_do_decompress L cap (src # srcs) = do {
     out \<leftarrow> LZ4_decompress_block L src cap;
     outs \<leftarrow> LZ4_do_decompress L cap srcs;
     Some (out # outs)
   }"

definition LZ4_decompress_batch :: "codec_libs \<Rightarrow> compressor \<Rightarrow> byte list \<Rightarrow> nat list \<Rightarrow> nat \<Rightarrow> byte list list option option" where
  "LZ4_decompress_batch L c src src_chunk_len dst_buffer_capacity = do {
     let n = length src_chunk_len;
     ENV_BUG_ON (n = 0);
     if dst_buffer_capacity div n < src_blk_size c then Some None
     else Some (LZ4_do_decompress L (dst_buffer_capacity div n) (slices src src_chunk_len))
   }"

definition zstd_decompress :: "codec_libs \<Rightarrow> compressor \<Rightarrow> byte list \<Rightarrow> nat \<Rightarrow> byte list option" where
  "zstd_decompress L c src dst_len = (if dst_len < src_blk_size c then None else ZSTD_decompress L src dst_len)"

definition decompress :: "codec_libs \<Rightarrow> compressor \<Rightarrow> byte list \<Rightarrow> nat \<Rightarrow> byte list option" where
  "decompress L c src dst_len =
     (case c_class c of
        LZ4Compressor \<Rightarrow> (case LZ4_decompress_batch L c src [length src] dst_len of Some (Some [out]) \<Rightarrow> Some out | _ \<Rightarrow> None)
      | Compressor_zstd \<Rightarrow> zstd_decompress L c src dst_len)"

subsection \<open>The documented behaviour of the libraries\<close>

text \<open>For sources of at most \<open>N\<close> bytes (LZ4 takes at most \<open>LZ4_MAX_INPUT_SIZE\<close>): a buffer of \<open>bound n\<close> bytes is enough for the compressed form of \<open>n\<close> bytes; the compressed form is not empty, not longer than
  the bound, and is decompressed into any buffer that is large enough for the original.\<close>

definition codec_ok :: "codec_libs \<Rightarrow> nat \<Rightarrow> bool" where
  "codec_ok L N \<longleftrightarrow>
     (\<forall>src cap. src \<noteq> [] \<and> length src \<le> N \<and> LZ4_compressBound L (length src) \<le> cap \<longrightarrow> (\<exists>out. LZ4_compress_default L src cap = (int (length out), out) \<and>
        out \<noteq> [] \<and> length out \<le> LZ4_compressBound L (length src) \<and>
        (\<forall>m. length src \<le> m \<longrightarrow> LZ4_decompress_safe L out m = (int (length src), src)))) \<and>
     (\<forall>src cap. src \<noteq> [] \<and> length src \<le> N \<and> ZSTD_compressBound L (length src) \<le> cap \<longrightarrow> (\<exists>out. ZSTD_compress L src cap = Some out \<and>
        out \<noteq> [] \<and> length out \<le> ZSTD_compressBound L (length src) \<and>
        (\<forall>m. length src \<le> m \<longrightarrow> ZSTD_decompress L out m = Some src)))"

definition bound :: "codec_libs \<Rightarrow> compressor \<Rightarrow> nat \<Rightarrow> nat" where
  "bound L c = (case c_class c of LZ4Compressor \<Rightarrow> LZ4_compressBound L | Compressor_zstd \<Rightarrow> ZSTD_compressBound L)"

text \<open>A codec that stores the bytes behind a mark, as an instance of the libraries.\<close>

definition store_libs :: codec_libs where
  "store_libs = \<lparr>LZ4_compressBound = (\<lambda>n. n + 1),
     LZ4_compress_default = (\<lambda>src cap. if length src < cap then (int (length src) + 1, 76 # src) else (0, [])),
     LZ4_decompress_safe = (\<lambda>src cap. if src \<noteq> [] \<and> length src - 1 \<le> cap then (int (length src) - 1, tl src) else (-1, [])),
     ZSTD_compressBound = (\<lambda>n. n + 1),
     ZSTD_compress = (\<lambda>src cap. if length src < cap then Some (90 # src) else None),
     ZSTD_decompress = (\<lambda>src cap. if src \<noteq> [] \<and> length src - 1 \<le> cap then Some (tl src) else None)\<rparr>"

lemma store_libs_ok: "codec_ok store_libs N"
  by (auto simp: codec_ok_def store_libs_def)

subsection \<open>Every block comes back\<close>

text \<open>What a compressor makes of one block.\<close>

definition packs :: "codec_libs \<Rightarrow> compressor \<Rightarrow> byte list \<Rightarrow> byte list \<Rightarrow> bool" where
  "packs L c src out \<longleftrightarrow> out \<noteq> [] \<and> length out \<le> bound L c (length src) \<and>
     (\<forall>d m. c_class d = c_class c \<and> src_blk_size d \<le> m \<and> length src \<le> m \<longrightarrow> decompress L d out m = Some src)"

text \<open>\<open>out\<close> is the compressed form of \<open>src\<close> in a buffer of \<open>cap\<close> bytes.\<close>

definition packed :: "codec_libs \<Rightarrow> compressor \<Rightarrow> nat \<Rightarrow> byte list \<Rightarrow> byte list \<Rightarrow> bool" where
  "packed L c cap src out \<longleftrightarrow> compress_block L c src cap = Some out \<and> packs L c src out"

lemma packed_block:
  assumes "codec_ok L N" "src \<noteq> []" "max_dst_size c \<le> cap" "bound L c (length src) \<le> cap" "length src \<le> N"
  shows "\<exists>out. compress_block L c src cap = Some out \<and> packs L c src out"
proof (cases "c_class c")
  case LZ4Compressor
  then obtain out where o: "LZ4_compress_default L src cap = (int (length out), out)" "out \<noteq> []" "length out \<le> LZ4_compressBound L (length src)"
      "\<forall>m. length src \<le> m \<longrightarrow> LZ4_decompress_safe L out m = (int (length src), src)"
    using assms unfolding codec_ok_def bound_def by (metis compressor_class.simps(3))
  moreover have "decompress L d out m = Some src" if "c_class d = LZ4Compressor" "src_blk_size d \<le> m" "length src \<le> m" for d m
    using that o(4) assms(2) by (simp add: decompress_def LZ4_decompress_batch_def LZ4_decompress_block_def)
  ultimately show ?thesis using LZ4Compressor by (auto simp: packs_def bound_def compress_block_def LZ4_compress_block_def)
next
  case Compressor_zstd
  then obtain out where o: "ZSTD_compress L src cap = Some out" "out \<noteq> []" "length out \<le> ZSTD_compressBound L (length src)"
      "\<forall>m. length src \<le> m \<longrightarrow> ZSTD_decompress L out m = Some src"
    using assms unfolding codec_ok_def bound_def by (metis compressor_class.simps(4))
  then show ?thesis using Compressor_zstd assms(3) by (auto simp: packs_def bound_def compress_block_def zstd_compress_def decompress_def zstd_decompress_def)
qed

lemma do_compress_ok:
  assumes "codec_ok L N" "max_dst_size c \<le> cap" "\<forall>src\<in>set srcs. src \<noteq> [] \<and> length src \<le> N \<and> bound L c (length src) \<le> cap"
  shows "\<exists>outs. do_compress L c cap srcs = Some outs \<and> list_all2 (packed L c cap) srcs outs"
  using assms(3)
proof (induction srcs)
  case (Cons src srcs)
  then obtain outs out where "do_compress L c cap srcs = Some outs" "list_all2 (packed L c cap) srcs outs"
    "compress_block L c src cap = Some out" "packs L c src out"
    using packed_block [OF assms(1), of src c cap] assms(2) by auto
  moreover from calculation have "packed L c cap src out" by (simp add: packed_def)
  ultimately show ?case by simp
qed simp

lemma compress_batch_ok:
  assumes "codec_ok L N" "lens \<noteq> []" "max_dst_size c \<le> cap" "\<forall>src\<in>set (slices data lens). src \<noteq> [] \<and> length src \<le> N \<and> bound L c (length src) \<le> cap"
  shows "\<exists>outs. compress_batch L c data lens (length lens * cap) = Some (Some outs) \<and> list_all2 (packed L c cap) (slices data lens) outs"
  using do_compress_ok [OF assms(1,3,4)] assms(2,3) by (simp add: compress_batch_def)

lemma compress_data_ok:
  assumes "codec_ok L N" "src \<noteq> []" "max_dst_size c \<le> cap" "bound L c (length src) \<le> cap" "length src \<le> N"
  shows "\<exists>out. compress_data crc L c src cap vfy = Some (out @ (if vfy then le_bytes 4 (unat (crc out)) else [])) \<and> packed L c cap src out"
proof -
  obtain out where "compress_block L c src cap = Some out" "packs L c src out"
    using packed_block [OF assms] by auto
  then show ?thesis using assms(3) by (cases "c_class c") (auto simp: compress_data_def compress_def compress_batch_def packed_def packs_def compress_block_def)
qed

lemma create_compressor_cases:
  assumes "create_compressor L args = Some c"
  shows "src_blk_size c = block_size (args_opt args)" "max_dst_size c = bound L c (block_size (args_opt args))"
    "c_class c = (if algo (args_opt args) = OPT_LZ4 then LZ4Compressor else Compressor_zstd)" "algo (args_opt args) \<in> {OPT_LZ4, OPT_ZSTD}"
  using assms by (auto simp: create_compressor_def LZ4_init_def zstd_init_def bound_def split: if_splits)

end
