(* ===== verification/ZFile_Write.thy ===== *)
theory ZFile_Write
  imports ZFile_Codec
begin

text \<open>
  Writing compressed files (\<^verbatim>\<open>src/overlaybd/zfile/zfile.cpp\<close>): \<open>write_header_trailer\<close>, \<open>zfile_compress\<close> with blocks of a fixed
  size and with content-defined chunks, and the streaming writer \<open>ZFileBuilder\<close>.

  The checksums \<open>crc32::crc32c\<close> and \<open>crc32c_salt\<close> are parameters.  The source of \<open>zfile_compress\<close> is a state with a function that
  reads on, \<open>rd src n\<close>: the result of \<open>read\<close>, the bytes and the next state.  Every function that writes returns its result and
  the file as it is then, also when it fails; the outer \<open>None\<close> is a division by zero, a null pointer, or a loop that does not end.
\<close>

subsection \<open>Header and trailer\<close>

text \<open>The position is the end of the file for the offset \<open>-1\<close>, here \<open>None\<close>.\<close>

definition z_mark :: "bool \<Rightarrow> bool \<Rightarrow> bool \<Rightarrow> nat option \<Rightarrow> zht \<Rightarrow> zht" where
  "z_mark is_header is_sealed is_data_file offset pht =
     (let pht = (if is_header then z_set_flag_bit Z_FLAG_SHIFT_HEADER pht else z_clr_flag_bit Z_FLAG_SHIFT_HEADER pht);
          pht = (if is_sealed then z_set_flag_bit Z_FLAG_SHIFT_SEALED pht else z_clr_flag_bit Z_FLAG_SHIFT_SEALED pht);
          pht = (if is_data_file then z_set_flag_bit Z_FLAG_SHIFT_TYPE pht else z_clr_flag_bit Z_FLAG_SHIFT_TYPE pht);
          pht = (if offset \<noteq> None then z_set_flag_bit Z_FLAG_SHIFT_HEADER_OVERWRITE pht else pht)
      in z_set_flag_bit Z_FLAG_SHIFT_CALC_DIGEST pht)"

definition z_digested :: "(byte list \<Rightarrow> u32) \<Rightarrow> zht \<Rightarrow> zht" where
  "z_digested crc32c pht = (let pht = pht\<lparr>z_digest := 0\<rparr> in pht\<lparr>z_digest := crc32c (zht_block pht)\<rparr>)"

definition z_write_header_trailer :: "'f cfile \<Rightarrow> (byte list \<Rightarrow> u32) \<Rightarrow> bool \<Rightarrow> bool \<Rightarrow> bool \<Rightarrow> zht \<Rightarrow> nat option \<Rightarrow> 'f \<Rightarrow> int \<times> zht \<times> 'f" where
  "z_write_header_trailer ops crc32c is_header is_sealed is_data_file pht offset f =
     (let pht = z_digested crc32c (z_mark is_header is_sealed is_data_file offset pht);
          (ret, f) = (case offset of None \<Rightarrow> fwrite ops f (zht_block pht) | Some x \<Rightarrow> fpwrite ops f (zht_block pht) x)
      in (ret, pht, f))"

subsection \<open>Blocks\<close>

definition BUF_SIZE :: nat where "BUF_SIZE = 512"

text \<open>What is known of the file that is written: the file, the lengths of the blocks in it and of their contents, and the offset of its end.\<close>

record 'f zout =
  out_file :: 'f
  block_len :: "nat list"
  raw_block_len :: "nat list"
  moffset :: nat

text \<open>One block of \<open>zfile_compress\<close>: the compressed bytes, then the checksum.\<close>

definition put_block :: "'f cfile \<Rightarrow> (byte list \<Rightarrow> u32) \<Rightarrow> bool \<Rightarrow> byte list \<Rightarrow> nat \<Rightarrow> 'f zout \<Rightarrow> int \<times> 'f zout" where
  "put_block ops crc32c_salt crc32_verify c raw_len st =
     (let (ret, f) = fwrite ops (out_file st) c; st = st\<lparr>out_file := f\<rparr>
      in if ret < int (length c) then (-1, st)
         else if crc32_verify then
           (let (ret, f) = fwrite ops (out_file st) (le_bytes 4 (unat (crc32c_salt c))); st = st\<lparr>out_file := f\<rparr>
            in if ret < 4 then (-1, st)
               else (0, st\<lparr>block_len := block_len st @ [length c + 4], raw_block_len := raw_block_len st @ [raw_len],
                 moffset := moffset st + (length c + 4)\<rparr>))
         else (0, st\<lparr>block_len := block_len st @ [length c], raw_block_len := raw_block_len st @ [raw_len], moffset := moffset st + length c\<rparr>))"

fun put_blocks :: "'f cfile \<Rightarrow> (byte list \<Rightarrow> u32) \<Rightarrow> bool \<Rightarrow> (byte list \<times> nat) list \<Rightarrow> 'f zout \<Rightarrow> int \<times> 'f zout" where
  "put_blocks ops crc32c_salt crc32_verify [] st = (0, st)"
| "put_blocks ops crc32c_salt crc32_verify ((c, raw_len) # blks) st =
     (let (r, st) = put_block ops crc32c_salt crc32_verify c raw_len st
      in if r \<noteq> 0 then (r, st) else put_blocks ops crc32c_salt crc32_verify blks st)"

text \<open>A batch is compressed, then its blocks are written.\<close>

definition put_batch :: "'f cfile \<Rightarrow> (byte list \<Rightarrow> u32) \<Rightarrow> codec_libs \<Rightarrow> compressor \<Rightarrow> bool \<Rightarrow> nat \<Rightarrow> byte list \<Rightarrow> batch \<Rightarrow> 'f zout \<Rightarrow> (int \<times> 'f zout) option" where
  "put_batch ops crc32c_salt L c crc32_verify buf_size raw_data b st =
     (case compress_batch L c (drop (fst b) raw_data) (snd b) (length (snd b) * buf_size) of
        None \<Rightarrow> None
      | Some None \<Rightarrow> Some (-1, st)
      | Some (Some outs) \<Rightarrow> Some (put_blocks ops crc32c_salt crc32_verify (zip outs (snd b)) st))"

fun put_batches :: "'f cfile \<Rightarrow> (byte list \<Rightarrow> u32) \<Rightarrow> codec_libs \<Rightarrow> compressor \<Rightarrow> bool \<Rightarrow> nat \<Rightarrow> byte list \<Rightarrow> batch list \<Rightarrow> 'f zout \<Rightarrow> (int \<times> 'f zout) option" where
  "put_batches ops crc32c_salt L c crc32_verify buf_size raw_data [] st = Some (0, st)"
| "put_batches ops crc32c_salt L c crc32_verify buf_size raw_data (b # bs) st = do {
     (r, st) \<leftarrow> put_batch ops crc32c_salt L c crc32_verify buf_size raw_data b st;
     if r \<noteq> 0 then Some (-1, st) else put_batches ops crc32c_salt L c crc32_verify buf_size raw_data bs st
   }"

text \<open>The lengths of blocks of a fixed size; a block size of zero would fill \<open>raw_chunk_len\<close> without an end.\<close>

fun fixed_lens :: "nat \<Rightarrow> nat \<Rightarrow> nat list" where
  "fixed_lens bs readn =
     (if readn = 0 \<or> bs = 0 then [] else if readn < bs then [readn] else bs # fixed_lens bs (readn - bs))"

declare fixed_lens.simps [simp del]

text \<open>The chunks of what was read, as the batches that are compressed: by content, with the state of the chunker, or of a fixed size.\<close>

definition cut_batches :: "CompressArgs \<Rightarrow> nat \<Rightarrow> nat \<Rightarrow> byte list \<Rightarrow> fastcdc_globals \<times> FastCDCChunker \<Rightarrow>
    ((fastcdc_globals \<times> FastCDCChunker) \<times> batch list) option" where
  "cut_batches args bs nb raw_data ch =
     (if use_fastcdc args then chunk_data chunker_next nb raw_data ch
      else do {
        ENV_BUG_ON (bs = 0);
        let lens = fixed_lens bs (length raw_data);
        ENV_BUG_ON (length lens > nb);
        Some (ch, if lens = [] then [] else [(0, lens)])
      })"

subsection \<open>Compressing a file\<close>

text \<open>The loop of \<open>zfile_compress\<close>: read, cut, compress and write until the source is at its end; the result with the size of the source.\<close>

partial_function (option) zcompress_loop :: "'f cfile \<Rightarrow> (byte list \<Rightarrow> u32) \<Rightarrow> codec_libs \<Rightarrow> ('s \<Rightarrow> nat \<Rightarrow> int \<times> byte list \<times> 's) \<Rightarrow> CompressArgs \<Rightarrow> compressor \<Rightarrow> bool \<Rightarrow> nat \<Rightarrow>
    's \<Rightarrow> fastcdc_globals \<times> FastCDCChunker \<Rightarrow> nat \<Rightarrow> 'f zout \<Rightarrow> (int \<times> nat \<times> 'f zout) option" where
  "zcompress_loop ops crc32c_salt L rd args c crc32_verify bs src ch infile_size st =
     (let (readn, raw_data, src) = rd src (bs * nbatch c)
      in if readn = 0 then Some (0, infile_size, st)
         else if readn < 0 then Some (-1, infile_size, st)
         else do {
           (ch, batches) \<leftarrow> cut_batches args bs (nbatch c) raw_data ch;
           (r, st) \<leftarrow> put_batches ops crc32c_salt L c crc32_verify (bs + BUF_SIZE) raw_data batches st;
           if r \<noteq> 0 then Some (-1, infile_size + nat readn, st)
           else zcompress_loop ops crc32c_salt L rd args c crc32_verify bs src ch (infile_size + nat readn) st
         })"

definition u32_bytes :: "nat list \<Rightarrow> byte list" where
  "u32_bytes ls = concat (map (le_bytes 4) ls)"

text \<open>What follows the blocks: the index, the lengths of the contents when they differ, the trailer, and the header again.\<close>

definition z_finish :: "'f cfile \<Rightarrow> (byte list \<Rightarrow> u32) \<Rightarrow> bool \<Rightarrow> bool \<Rightarrow> zht \<Rightarrow> nat \<Rightarrow> 'f zout \<Rightarrow> int \<times> 'f" where
  "z_finish ops crc32c by_cdc overwrite pht raw_size st =
     (let index_bytes = u32_bytes (block_len st);
          (ret, f) = fwrite ops (out_file st) index_bytes
      in if ret \<noteq> int (length index_bytes) then (-1, f)
         else
           let (ok, f) = (if by_cdc then let (ret, f) = fwrite ops f (u32_bytes (raw_block_len st)) in (ret = int (length (u32_bytes (raw_block_len st))), f)
                  else (True, f))
           in if \<not> ok then (-1, f)
              else
                let pht = pht\<lparr>z_index_crc := crc32c index_bytes, z_index_offset := moffset st, z_index_size := length (block_len st),
                      z_original_file_size := raw_size\<rparr>;
                    (ret, pht, f) = z_write_header_trailer ops crc32c False True True pht None f
                in if ret < 0 then (-1, f)
                   else if overwrite then
                     let (ret, pht, f) = z_write_header_trailer ops crc32c True False True pht (Some 0) f
                     in if ret < 0 then (-1, f) else (0, f)
                   else (0, f))"

text \<open>\<open>zfile_compress\<close> on an empty destination; \<open>MD5\<close>, \<open>s_initialized\<close> and \<open>g\<close> are what the constructor of the chunker uses.  The
  compressor is created from the arguments, before the block size is replaced by the largest chunk.  The chunker is used by the loop only when the chunks are cut by content.\<close>

definition zfile_compress :: "'f cfile \<Rightarrow> (byte list \<Rightarrow> u32) \<Rightarrow> (byte list \<Rightarrow> u32) \<Rightarrow> codec_libs \<Rightarrow> (u8 list \<Rightarrow> u8 list) \<Rightarrow> bool \<Rightarrow> fastcdc_globals \<Rightarrow>
    ('s \<Rightarrow> nat \<Rightarrow> int \<times> byte list \<times> 's) \<Rightarrow> 's \<Rightarrow> 'f \<Rightarrow> CompressArgs \<Rightarrow> (int \<times> 'f) option" where
  "zfile_compress ops crc32c crc32c_salt L MD5 s_initialized g rd src f args =
     (let op = args_opt args;
          op = (if use_fastcdc args then op\<lparr>block_size := unat (fastcdc_max_size args)\<rparr> else op)
      in case create_compressor L args of
           None \<Rightarrow> Some (-1, f)
         | Some c \<Rightarrow>
             let pht = zht_new op;
                 pht = (if use_fastcdc args then z_set_flag_bit Z_FLAG_SHIFT_FASTCDC pht else pht);
                 (ret, pht, f) = z_write_header_trailer ops crc32c True False True pht None f
             in if ret < 0 then Some (-1, f)
                else
                  let (ch, _, g) = FastCDCChunker_new MD5 s_initialized g (fastcdc_min_size args) (fastcdc_avg_size args) (fastcdc_max_size args);
                      st = \<lparr>out_file = f, block_len = [], raw_block_len = [], moffset = Z_SPACE + dict_size op\<rparr>
                  in do {
                    (r, infile_size, st) \<leftarrow> zcompress_loop ops crc32c_salt L rd args c (verify op \<noteq> 0) (block_size op) src (g, ch) 0 st;
                    if r \<noteq> 0 then Some (-1, out_file st)
                    else Some (z_finish ops crc32c (use_fastcdc args) (overwrite_header args) pht infile_size st)
                  })"


subsection \<open>The streaming writer\<close>

text \<open>\<open>ZFileBuilder\<close>; \<open>reserved_buf\<close> is the buffer up to \<open>reserved_size\<close>, \<open>b_out\<close> holds \<open>m_dest\<close>, \<open>m_block_len\<close> and \<open>moffset\<close>.\<close>

record 'f builder =
  b_out :: "'f zout"
  raw_data_size :: nat
  m_buf_size :: nat
  m_args :: CompressArgs
  b_compressor :: compressor
  reserved_buf :: "byte list"
  b_ht :: zht

text \<open>The constructor and \<open>init\<close>: \<open>None\<close> for the builder when it fails.\<close>

definition builder_init :: "'f cfile \<Rightarrow> (byte list \<Rightarrow> u32) \<Rightarrow> codec_libs \<Rightarrow> CompressArgs \<Rightarrow> 'f \<Rightarrow> 'f builder option \<times> 'f" where
  "builder_init ops crc32c L args f =
     (case create_compressor L args of
        None \<Rightarrow> (None, f)
      | Some c \<Rightarrow>
          let (ret, pht, f) = z_write_header_trailer ops crc32c True False True (zht_new (args_opt args)) None f
          in if ret < 0 then (None, f)
             else (Some \<lparr>b_out = \<lparr>out_file = f, block_len = [], raw_block_len = [], moffset = Z_SPACE + 0\<rparr>, raw_data_size = 0,
                 m_buf_size = block_size (args_opt args) + BUF_SIZE, m_args = args, b_compressor = c, reserved_buf = [], b_ht = pht\<rparr>, f))"

definition write_buffer :: "'f cfile \<Rightarrow> (byte list \<Rightarrow> u32) \<Rightarrow> codec_libs \<Rightarrow> byte list \<Rightarrow> 'f builder \<Rightarrow> int \<times> 'f builder" where
  "write_buffer ops crc32c_salt L buf b =
     (case compress_data crc32c_salt L (b_compressor b) buf (m_buf_size b) (verify (args_opt (m_args b)) \<noteq> 0) of
        None \<Rightarrow> (-1, b)
      | Some bs \<Rightarrow>
          let st = b_out b; (ret, f) = fwrite ops (out_file st) bs
          in if ret \<noteq> int (length bs) then (-1, b\<lparr>b_out := st\<lparr>out_file := f\<rparr>\<rparr>)
             else (0, b\<lparr>b_out := st\<lparr>out_file := f, block_len := block_len st @ [length bs], moffset := moffset st + length bs\<rparr>\<rparr>))"

text \<open>The loop of \<open>write\<close> over what is left of the buffer; a block size of zero makes it endless.\<close>

function builder_loop :: "'f cfile \<Rightarrow> (byte list \<Rightarrow> u32) \<Rightarrow> codec_libs \<Rightarrow> byte list \<Rightarrow> 'f builder \<Rightarrow> (int \<times> 'f builder) option" where
  "builder_loop ops crc32c_salt L buf b =
     (let bs = block_size (args_opt (m_args b))
      in if buf = [] then Some (0, b)
         else if bs > length buf then Some (0, b\<lparr>reserved_buf := buf\<rparr>)
         else if bs = 0 then None
         else let (r, b') = write_buffer ops crc32c_salt L (take bs buf) b
              in if r \<noteq> 0 then Some (-1, b') else builder_loop ops crc32c_salt L (drop bs buf) b')"
  by pat_completeness auto
termination
  by (relation "measure (\<lambda>(ops, crc, L, buf, b). length buf)") auto

declare builder_loop.simps [simp del]

definition builder_write :: "'f cfile \<Rightarrow> (byte list \<Rightarrow> u32) \<Rightarrow> codec_libs \<Rightarrow> byte list \<Rightarrow> 'f builder \<Rightarrow> (int \<times> 'f builder) option" where
  "builder_write ops crc32c_salt L buf b =
     (let b = b\<lparr>raw_data_size := raw_data_size b + length buf\<rparr>;
          expected_ret = int (length buf);
          bs = block_size (args_opt (m_args b));
          finish = (\<lambda>buf b. do {
            (r, b) \<leftarrow> builder_loop ops crc32c_salt L buf b;
            Some (if r \<noteq> 0 then -1 else expected_ret, b)
          })
      in if reserved_buf b \<noteq> [] then
           if length (reserved_buf b) + length buf < bs then Some (expected_ret, b\<lparr>reserved_buf := reserved_buf b @ buf\<rparr>)
           else
             let delta = bs - length (reserved_buf b);
                 (r, b) = write_buffer ops crc32c_salt L (reserved_buf b @ take delta buf) b
             in if r \<noteq> 0 then Some (-1, b) else finish (drop delta buf) (b\<lparr>reserved_buf := []\<rparr>)
         else finish buf b)"

definition builder_fini :: "'f cfile \<Rightarrow> (byte list \<Rightarrow> u32) \<Rightarrow> (byte list \<Rightarrow> u32) \<Rightarrow> codec_libs \<Rightarrow> 'f builder \<Rightarrow> int \<times> 'f" where
  "builder_fini ops crc32c crc32c_salt L b =
     (let (r, b) = (if reserved_buf b \<noteq> [] then write_buffer ops crc32c_salt L (reserved_buf b) b else (0, b))
      in if r \<noteq> 0 then (-1, out_file (b_out b))
         else z_finish ops crc32c False (overwrite_header (m_args b)) (b_ht b) (raw_data_size b) (b_out b))"

text \<open>A stream of writes: from \<open>new_zfile_builder\<close> with one worker to \<open>close\<close>.\<close>

fun builder_writes :: "'f cfile \<Rightarrow> (byte list \<Rightarrow> u32) \<Rightarrow> codec_libs \<Rightarrow> byte list list \<Rightarrow> 'f builder \<Rightarrow> (int list \<times> 'f builder) option" where
  "builder_writes ops crc32c_salt L [] b = Some ([], b)"
| "builder_writes ops crc32c_salt L (buf # bufs) b = do {
     (r, b) \<leftarrow> builder_write ops crc32c_salt L buf b;
     (rs, b) \<leftarrow> builder_writes ops crc32c_salt L bufs b;
     Some (r # rs, b)
   }"


subsection \<open>Flags\<close>

lemma z_get_flag_bit_iff: "shift < 32 \<Longrightarrow> z_get_flag_bit ht shift \<noteq> 0 \<longleftrightarrow> bit (z_flags ht) shift"
proof
  assume "shift < 32" "z_get_flag_bit ht shift \<noteq> 0"
  then obtain n where "bit (z_get_flag_bit ht shift) n" by (auto simp: bit_eq_iff)
  then show "bit (z_flags ht) shift" by (auto simp: z_get_flag_bit_def bit_simps)
next
  assume "shift < 32" "bit (z_flags ht) shift"
  then have "bit (z_get_flag_bit ht shift) shift" by (simp add: z_get_flag_bit_def bit_simps)
  then show "z_get_flag_bit ht shift \<noteq> 0" by auto
qed

lemma bit_z_set_flag [simp]: "n < 64 \<Longrightarrow> bit (z_flags (z_set_flag_bit s ht)) n \<longleftrightarrow> n = s \<or> bit (z_flags ht) n"
  by (auto simp: z_set_flag_bit_def bit_simps)

lemma bit_z_clr_flag [simp]: "n < 64 \<Longrightarrow> bit (z_flags (z_clr_flag_bit s ht)) n \<longleftrightarrow> n \<noteq> s \<and> bit (z_flags ht) n"
  by (auto simp: z_clr_flag_bit_def bit_simps)

lemmas z_flag_iffs = z_is_header_def z_is_header_overwrite_def z_is_trailer_def z_is_data_file_def z_is_sealed_def z_is_digest_enabled_def z_is_fastcdc_def
  z_get_flag_bit_iff Z_FLAG_SHIFT_HEADER_def Z_FLAG_SHIFT_TYPE_def Z_FLAG_SHIFT_SEALED_def Z_FLAG_SHIFT_HEADER_OVERWRITE_def Z_FLAG_SHIFT_CALC_DIGEST_def
  Z_FLAG_SHIFT_FASTCDC_def

lemma z_mark_flags [simp]:
  "z_is_header (z_mark h s d off ht) = h" "z_is_trailer (z_mark h s d off ht) = (\<not> h)" "z_is_sealed (z_mark h s d off ht) = s"
  "z_is_data_file (z_mark h s d off ht) = d" "z_is_digest_enabled (z_mark h s d off ht)"
  "z_is_header_overwrite (z_mark h s d off ht) \<longleftrightarrow> off \<noteq> None \<or> z_is_header_overwrite ht"
  "z_is_fastcdc (z_mark h s d off ht) = z_is_fastcdc ht"
  by (auto simp: z_mark_def Let_def z_flag_iffs)

lemma z_mark_flags_update: "\<exists>fs. z_mark h s d off ht = ht\<lparr>z_flags := fs\<rparr>"
  by (auto simp: z_mark_def Let_def z_set_flag_bit_def z_clr_flag_bit_def)

lemma z_mark_fields [simp]:
  "z_verify_magic (z_mark h s d off ht) = z_verify_magic ht" "z_opt (z_mark h s d off ht) = z_opt ht" "z_index_offset (z_mark h s d off ht) = z_index_offset ht"
  "z_index_size (z_mark h s d off ht) = z_index_size ht" "z_original_file_size (z_mark h s d off ht) = z_original_file_size ht"
  "z_index_crc (z_mark h s d off ht) = z_index_crc ht" "zht_fits (z_mark h s d off ht) = zht_fits ht"
  using z_mark_flags_update [of h s d off ht] by (auto simp: z_verify_magic_def zht_fits_def)

lemma z_digested_fields [simp]:
  "z_flags (z_digested crc ht) = z_flags ht" "z_verify_magic (z_digested crc ht) = z_verify_magic ht" "z_opt (z_digested crc ht) = z_opt ht"
  "z_index_offset (z_digested crc ht) = z_index_offset ht" "z_index_size (z_digested crc ht) = z_index_size ht"
  "z_original_file_size (z_digested crc ht) = z_original_file_size ht" "z_index_crc (z_digested crc ht) = z_index_crc ht"
  "zht_fits (z_digested crc ht) = zht_fits ht" "z_digest (z_digested crc ht) = crc (zht_block (ht\<lparr>z_digest := 0\<rparr>))"
  "z_digested crc ht\<lparr>z_digest := 0\<rparr> = ht\<lparr>z_digest := 0\<rparr>"
  by (simp_all add: z_digested_def Let_def z_verify_magic_def zht_fits_def)

lemma z_digested_flags [simp]:
  "z_is_header (z_digested crc ht) = z_is_header ht" "z_is_trailer (z_digested crc ht) = z_is_trailer ht" "z_is_sealed (z_digested crc ht) = z_is_sealed ht"
  "z_is_data_file (z_digested crc ht) = z_is_data_file ht" "z_is_digest_enabled (z_digested crc ht) = z_is_digest_enabled ht"
  "z_is_header_overwrite (z_digested crc ht) = z_is_header_overwrite ht" "z_is_fastcdc (z_digested crc ht) = z_is_fastcdc ht"
  by (simp_all add: z_flag_iffs)

text \<open>A header that was written is found valid.\<close>

lemma z_digested_valid: "zht_fits ht \<Longrightarrow> z_is_valid crc (zht_block (z_digested crc ht))"
  by (simp add: z_is_valid_def parse_zht_block clear_digest)


subsection \<open>The blocks that are written\<close>

definition stored_block :: "codec_libs \<Rightarrow> compressor \<Rightarrow> nat \<Rightarrow> (byte list \<Rightarrow> u32) \<Rightarrow> bool \<Rightarrow> byte list \<Rightarrow> byte list \<Rightarrow> bool" where
  "stored_block L c cap crc vfy r blk \<longleftrightarrow> r \<noteq> [] \<and> (\<exists>out. packed L c cap r out \<and> blk = out @ (if vfy then le_bytes 4 (unat (crc out)) else []))"

text \<open>The file holds \<open>pre\<close> and then the blocks \<open>blks\<close>, which store the parts \<open>raws\<close>, and \<open>st\<close> says so.\<close>

definition out_at :: "'f cfile \<Rightarrow> ('f \<Rightarrow> byte list) \<Rightarrow> (byte list \<Rightarrow> byte list \<Rightarrow> bool) \<Rightarrow> byte list \<Rightarrow> byte list list \<Rightarrow> byte list list \<Rightarrow> 'f zout \<Rightarrow> bool" where
  "out_at ops content stored pre raws blks st \<longleftrightarrow> content (out_file st) = pre @ concat blks \<and> ftell ops (out_file st) = length (content (out_file st)) \<and>
     block_len st = map length blks \<and> moffset st = length pre + length (concat blks) \<and> list_all2 stored raws blks"

lemma put_block_ok:
  assumes cf: "complete_files ops content" and "ftell ops (out_file st) = length (content (out_file st))"
  shows "\<exists>f'. put_block ops crc vfy c n st = (0, let bs = c @ (if vfy then le_bytes 4 (unat (crc c)) else []) in
        \<lparr>out_file = f', block_len = block_len st @ [length bs], raw_block_len = raw_block_len st @ [n], moffset = moffset st + length bs\<rparr>) \<and>
      content f' = content (out_file st) @ c @ (if vfy then le_bytes 4 (unat (crc c)) else []) \<and> ftell ops f' = length (content f')"
proof -
  obtain f1 where f1: "fwrite ops (out_file st) c = (int (length c), f1)" "content f1 = content (out_file st) @ c" "ftell ops f1 = length (content f1)"
    using write_complete [OF assms] by blast
  obtain f2 where f2: "fwrite ops f1 (le_bytes 4 (unat (crc c))) = (int 4, f2)" "content f2 = content f1 @ le_bytes 4 (unat (crc c))" "ftell ops f2 = length (content f2)"
    using write_complete [OF cf f1(3), of "le_bytes 4 (unat (crc c))"] by auto
  show ?thesis using f1 f2 by (cases st) (auto simp: put_block_def Let_def)
qed

lemma put_block_out_at:
  assumes "complete_files ops content" "out_at ops content (stored_block L c cap crc vfy) pre raws blks st" "packed L c cap r out" "r \<noteq> []"
  shows "\<exists>st' blk. put_block ops crc vfy out n st = (0, st') \<and> out_at ops content (stored_block L c cap crc vfy) pre (raws @ [r]) (blks @ [blk]) st' \<and>
    raw_block_len st' = raw_block_len st @ [n]"
proof -
  have "ftell ops (out_file st) = length (content (out_file st))" using assms(2) by (simp add: out_at_def)
  then obtain f' where f': "put_block ops crc vfy out n st = (0, let bs = out @ (if vfy then le_bytes 4 (unat (crc out)) else []) in
        \<lparr>out_file = f', block_len = block_len st @ [length bs], raw_block_len = raw_block_len st @ [n], moffset = moffset st + length bs\<rparr>)"
      "content f' = content (out_file st) @ out @ (if vfy then le_bytes 4 (unat (crc out)) else [])" "ftell ops f' = length (content f')"
    using put_block_ok [OF assms(1)] by blast
  let ?blk = "out @ (if vfy then le_bytes 4 (unat (crc out)) else [])"
  have "stored_block L c cap crc vfy r ?blk" using assms(3,4) by (auto simp: stored_block_def)
  then show ?thesis using assms(2) f' by (intro exI [of _ "snd (put_block ops crc vfy out n st)"] exI [of _ ?blk]) (auto simp: out_at_def Let_def list_all2_appendI)
qed

lemma put_blocks_out_at:
  assumes "complete_files ops content" "list_all2 (packed L c cap) rs outs" "\<forall>r\<in>set rs. r \<noteq> []"
    "out_at ops content (stored_block L c cap crc vfy) pre raws blks st" "raw_block_len st = map length raws"
  shows "\<exists>st' blks'. put_blocks ops crc vfy (zip outs (map length rs)) st = (0, st') \<and>
    out_at ops content (stored_block L c cap crc vfy) pre (raws @ rs) blks' st' \<and> raw_block_len st' = map length (raws @ rs)"
  using assms(2-)
proof (induction rs outs arbitrary: raws blks st rule: list_all2_induct)
  case (Cons r rs out outs)
  obtain st1 blk where 1: "put_block ops crc vfy out (length r) st = (0, st1)" "out_at ops content (stored_block L c cap crc vfy) pre (raws @ [r]) (blks @ [blk]) st1"
      "raw_block_len st1 = map length (raws @ [r])"
    using put_block_out_at [OF assms(1) Cons.prems(2) Cons.hyps(1), of "length r"] Cons.prems(1,3) by auto
  then show ?case using Cons.IH [OF _ 1(2,3)] Cons.prems(1) by simp
qed auto

lemma length_slices: "sum_list ls \<le> length src \<Longrightarrow> map length (slices src ls) = ls"
  by (induction src ls rule: slices.induct) auto

lemma put_batches_out_at:
  assumes cf: "complete_files ops content" and cd: "codec_ok L N" "max_dst_size c \<le> cap"
    and bs: "\<forall>b\<in>set bs. snd b \<noteq> [] \<and> fst b + sum_list (snd b) \<le> length data"
    and small: "\<forall>r\<in>set (concat (map (batch_blocks data) bs)). r \<noteq> [] \<and> length r \<le> N \<and> bound L c (length r) \<le> cap"
    and st: "out_at ops content (stored_block L c cap crc vfy) pre raws blks st" "raw_block_len st = map length raws"
  shows "\<exists>st' blks'. put_batches ops crc L c vfy cap data bs st = Some (0, st') \<and>
    out_at ops content (stored_block L c cap crc vfy) pre (raws @ concat (map (batch_blocks data) bs)) blks' st' \<and>
    raw_block_len st' = map length (raws @ concat (map (batch_blocks data) bs))"
  using bs small st
proof (induction bs arbitrary: raws blks st)
  case (Cons b bs)
  let ?rs = "batch_blocks data b"
  have b: "snd b \<noteq> []" "map length ?rs = snd b" using Cons.prems(1) by (auto simp: batch_blocks_def intro!: length_slices)
  have rs: "\<forall>r\<in>set ?rs. r \<noteq> [] \<and> length r \<le> N \<and> bound L c (length r) \<le> cap" using Cons.prems(2) by auto
  obtain outs where outs: "compress_batch L c (drop (fst b) data) (snd b) (length (snd b) * cap) = Some (Some outs)" "list_all2 (packed L c cap) ?rs outs"
    using compress_batch_ok [OF cd(1) b(1) cd(2), of "drop (fst b) data"] rs by (auto simp: batch_blocks_def)
  obtain st1 blks1 where 1: "put_blocks ops crc vfy (zip outs (map length ?rs)) st = (0, st1)"
      "out_at ops content (stored_block L c cap crc vfy) pre (raws @ ?rs) blks1 st1" "raw_block_len st1 = map length (raws @ ?rs)"
    using put_blocks_out_at [OF cf outs(2) _ Cons.prems(3,4)] rs by blast
  have "put_batch ops crc L c vfy cap data b st = Some (0, st1)" using outs(1) 1(1) b(2) by (simp add: put_batch_def)
  then show ?case using Cons.IH [OF _ _ 1(2,3)] Cons.prems(1,2) by simp
qed auto


subsection \<open>The source\<close>

text \<open>\<open>rest src\<close> is what is left of the source.  A read returns a part of it, which is empty only at the end; a full read returns as much
  as was asked for, while there is so much.\<close>

definition reads_source :: "('s \<Rightarrow> nat \<Rightarrow> int \<times> byte list \<times> 's) \<Rightarrow> ('s \<Rightarrow> byte list) \<Rightarrow> bool" where
  "reads_source rd rest \<longleftrightarrow> (\<forall>src n. 0 < n \<longrightarrow> (\<exists>bs src'. rd src n = (int (length bs), bs, src') \<and> length bs \<le> n \<and> rest src = bs @ rest src' \<and>
     (bs = [] \<longrightarrow> rest src = [])))"

definition reads_full :: "('s \<Rightarrow> nat \<Rightarrow> int \<times> byte list \<times> 's) \<Rightarrow> ('s \<Rightarrow> byte list) \<Rightarrow> bool" where
  "reads_full rd rest \<longleftrightarrow> (\<forall>src n. fst (rd src n) = int (min n (length (rest src))))"

subsection \<open>The loop\<close>

lemma fixed_lens_block: "0 < n \<Longrightarrow> n \<le> bs \<Longrightarrow> fixed_lens bs n = [n]"
  by (simp add: fixed_lens.simps [of bs n] fixed_lens.simps [of bs 0])

lemma cut_batches_ok:
  assumes "data \<noteq> []" "length data \<le> bs" "use_fastcdc args \<longrightarrow> chunker_ok ch \<and> unat (m_max_size (snd ch)) = bs"
  shows "\<exists>ch' batches. cut_batches args bs (nbatch c) data ch = Some (ch', batches) \<and> (use_fastcdc args \<longrightarrow> chunker_ok ch' \<and> unat (m_max_size (snd ch')) = bs) \<and>
     (\<forall>b\<in>set batches. snd b \<noteq> [] \<and> fst b + sum_list (snd b) \<le> length data) \<and> concat (concat (map (batch_blocks data) batches)) = data \<and>
     (\<forall>r\<in>set (concat (map (batch_blocks data) batches)). r \<noteq> [] \<and> length r \<le> bs) \<and>
     (\<not> use_fastcdc args \<longrightarrow> concat (map (batch_blocks data) batches) = [data])"
proof (cases "use_fastcdc args")
  case True
  then obtain ch' batches where c: "chunk_data chunker_next 1 data ch = Some (ch', batches)" "chunker_ok ch'" "unat (m_max_size (snd ch')) = unat (m_max_size (snd ch))"
      "fastcdc.loop_post ch 1 data batches"
    using fastcdc.chunk_data_ok [of ch 1 data] assms(3) by auto
  have b: "\<forall>b\<in>set batches. snd b \<noteq> [] \<and> fst b + sum_list (snd b) \<le> length data" "concat (concat (map (batch_blocks data) batches)) = data"
    "\<forall>l\<in>set (batch_lens batches). 0 < l \<and> l \<le> bs"
    using c(4) assms(3) True by (auto simp: fastcdc.loop_post_def)
  have "r \<noteq> [] \<and> length r \<le> bs" if r: "r \<in> set (concat (map (batch_blocks data) batches))" for r
  proof -
    obtain b' where b': "b' \<in> set batches" "r \<in> set (batch_blocks data b')" using r by auto
    then have "map length (batch_blocks data b') = snd b'" using b(1) by (auto simp: batch_blocks_def intro!: length_slices)
    then have "length r \<in> set (snd b')" using b'(2) by (metis image_eqI set_map)
    then have "length r \<in> set (batch_lens batches)" using b'(1) by (auto simp: batch_lens_def)
    then show ?thesis using b(3) by auto
  qed
  then show ?thesis using True c(1-3) b(1,2) assms(3) by (auto simp: cut_batches_def nbatch_def)
next
  case False
  have "fixed_lens bs (length data) = [length data]" using assms by (intro fixed_lens_block) auto
  moreover have "0 < bs" using assms(1,2) by (cases data) auto
  ultimately show ?thesis using False assms by (auto simp: cut_batches_def nbatch_def batch_blocks_def)
qed

text \<open>The parts before the last have the full size, and all of them when there is more to come.\<close>

definition full_blocks :: "nat \<Rightarrow> byte list list \<Rightarrow> bool" where
  "full_blocks bs raws \<longleftrightarrow> (\<forall>i. Suc i < length raws \<longrightarrow> length (raws ! i) = bs)"

definition all_full :: "nat \<Rightarrow> byte list list \<Rightarrow> bool" where
  "all_full bs raws \<longleftrightarrow> (\<forall>r\<in>set raws. length r = bs)"

lemma full_blocks_snoc: "all_full bs raws \<Longrightarrow> full_blocks bs (raws @ [r])"
  by (auto simp: all_full_def full_blocks_def nth_append)

lemma all_full_blocks: "all_full bs raws \<Longrightarrow> full_blocks bs raws"
  by (auto simp: all_full_def full_blocks_def)

lemma zcompress_loop_ok:
  assumes cf: "complete_files ops content" and cd: "codec_ok L bs" "max_dst_size c \<le> bs + BUF_SIZE" "\<forall>n \<le> bs. bound L c n \<le> bs + BUF_SIZE"
    and rd: "reads_source rd rest" "use_fastcdc args \<or> reads_full rd rest" and "0 < bs"
    and ch: "use_fastcdc args \<longrightarrow> chunker_ok ch \<and> unat (m_max_size (snd ch)) = bs"
    and st: "out_at ops content (stored_block L c (bs + BUF_SIZE) crc vfy) pre raws blks st" "raw_block_len st = map length raws"
    and raws: "\<forall>r\<in>set raws. length r \<le> bs" "use_fastcdc args \<or> (if rest src = [] then full_blocks bs raws else all_full bs raws)"
  shows "\<exists>st' raws' blks'. zcompress_loop ops crc L rd args c vfy bs src ch isz st = Some (0, isz + length (rest src), st') \<and>
    out_at ops content (stored_block L c (bs + BUF_SIZE) crc vfy) pre raws' blks' st' \<and> raw_block_len st' = map length raws' \<and>
    concat raws' = concat raws @ rest src \<and> (\<forall>r\<in>set raws'. length r \<le> bs) \<and> (use_fastcdc args \<or> full_blocks bs raws')"
  using ch st raws
proof (induction "length (rest src)" arbitrary: src ch raws blks st isz rule: less_induct)
  case less
  obtain data src' where d: "rd src (bs * nbatch c) = (int (length data), data, src')" "length data \<le> bs" "rest src = data @ rest src'" "data = [] \<longrightarrow> rest src = []"
    using rd(1) [unfolded reads_source_def, rule_format, of "bs * nbatch c" src] \<open>0 < bs\<close> by (auto simp: nbatch_def)
  show ?case
  proof (cases "data = []")
    case True
    then show ?thesis using d less.prems by (auto simp: zcompress_loop.simps [of ops crc L rd args c vfy bs src])
  next
    case False
    obtain ch' batches where b: "cut_batches args bs (nbatch c) data ch = Some (ch', batches)" "use_fastcdc args \<longrightarrow> chunker_ok ch' \<and> unat (m_max_size (snd ch')) = bs"
        "\<forall>b\<in>set batches. snd b \<noteq> [] \<and> fst b + sum_list (snd b) \<le> length data" "concat (concat (map (batch_blocks data) batches)) = data"
        "\<forall>r\<in>set (concat (map (batch_blocks data) batches)). r \<noteq> [] \<and> length r \<le> bs" "\<not> use_fastcdc args \<longrightarrow> concat (map (batch_blocks data) batches) = [data]"
      using cut_batches_ok [OF False d(2) less.prems(1)] by blast
    let ?raws = "raws @ concat (map (batch_blocks data) batches)"
    obtain st1 blks1 where 1: "put_batches ops crc L c vfy (bs + BUF_SIZE) data batches st = Some (0, st1)"
        "out_at ops content (stored_block L c (bs + BUF_SIZE) crc vfy) pre ?raws blks1 st1" "raw_block_len st1 = map length ?raws"
      using put_batches_out_at [OF cf cd(1,2) b(3) _ less.prems(2,3)] b(5) cd(3) by blast
    have len: "length (rest src') < length (rest src)" using d(3) False by simp
    have full: "use_fastcdc args \<or> (if rest src' = [] then full_blocks bs ?raws else all_full bs ?raws)"
    proof (cases "use_fastcdc args")
      case fx: False
      have "rest src \<noteq> []" using d(3) False by simp
      then have a: "all_full bs raws" "?raws = raws @ [data]" using less.prems(5) fx b(6) by auto
      have "length data = min bs (length (rest src))" using rd(2) fx d(1) unfolding reads_full_def nbatch_def by (metis fst_conv mult.right_neutral of_nat_eq_iff)
      then have "rest src' \<noteq> [] \<longrightarrow> length data = bs" using d(3) by (cases "rest src'") (auto simp: min_def split: if_splits)
      then show ?thesis using a full_blocks_snoc [OF a(1), of data] by (auto simp: all_full_def)
    qed simp
    have "\<forall>r\<in>set ?raws. length r \<le> bs" using less.prems(4) b(5) by auto
    from less.hyps [OF len b(2) 1(2,3) this full, of "isz + length data"]
    show ?thesis using d(1,3) False b(1,4) 1(1) by (simp add: zcompress_loop.simps [of ops crc L rd args c vfy bs src] add.assoc)
  qed
qed


subsection \<open>The whole file\<close>

text \<open>\<open>ht\<close> describes the blocks.\<close>

definition describes :: "(byte list \<Rightarrow> u32) \<Rightarrow> CompressOptions \<Rightarrow> bool \<Rightarrow> nat \<Rightarrow> byte list list \<Rightarrow> zht \<Rightarrow> bool" where
  "describes crc op cdc isz blks ht \<longleftrightarrow> z_index_offset ht = Z_SPACE + length (concat blks) \<and> z_index_size ht = length blks \<and>
     z_original_file_size ht = isz \<and> z_index_crc ht = crc (u32_bytes (map length blks)) \<and> z_opt ht = op \<and> z_is_fastcdc ht = cdc \<and> z_is_digest_enabled ht"

text \<open>The bytes of a finished file: header, blocks, index, the lengths of the contents, trailer.  The description is in the trailer, or in
  the header when that was overwritten.\<close>

definition z_image :: "(byte list \<Rightarrow> u32) \<Rightarrow> CompressOptions \<Rightarrow> bool \<Rightarrow> bool \<Rightarrow> nat \<Rightarrow> byte list list \<Rightarrow> byte list list \<Rightarrow> byte list \<Rightarrow> bool" where
  "z_image crc op cdc ow isz raws blks bytes \<longleftrightarrow> (\<exists>h t.
     bytes = zht_block h @ concat blks @ u32_bytes (map length blks) @ (if cdc then u32_bytes (map length raws) else []) @ zht_block t \<and>
     zht_fits h \<and> zht_fits t \<and> z_is_valid crc (zht_block h) \<and> z_verify_magic h \<and> z_is_header h \<and> z_is_data_file h \<and> z_is_header_overwrite h = ow \<and>
     z_verify_magic t \<and> z_is_trailer t \<and> z_is_data_file t \<and> z_is_sealed t \<and>
     describes crc op cdc isz blks (if ow then h else t))"

text \<open>Writing at an offset replaces the bytes there.\<close>

definition pwrites_content :: "'f cfile \<Rightarrow> ('f \<Rightarrow> byte list) \<Rightarrow> bool" where
  "pwrites_content ops content \<longleftrightarrow> (\<forall>f bs off. off + length bs \<le> length (content f) \<longrightarrow>
     (\<exists>f'. fpwrite ops f bs off = (int (length bs), f') \<and> content f' = put_bytes off bs (content f)))"

lemma length_u32_bytes [simp]: "length (u32_bytes ls) = 4 * length ls"
  by (induction ls) (simp_all add: u32_bytes_def)

lemma z_finish_ok:
  assumes cf: "complete_files ops content" and pw: "pwrites_content ops content"
    and st: "out_at ops content stored (zht_block h) raws blks st" "cdc \<longrightarrow> raw_block_len st = map length raws"
    and h: "zht_fits h" "h = z_digested crc (z_mark True False True None h0)" "z_verify_magic h0" "z_opt h0 = op" "z_is_fastcdc h0 = cdc" "\<not> z_is_header_overwrite h0"
    and small: "Z_SPACE + length (concat blks) < 2 ^ 64" "length blks < 2 ^ 64" "isz < 2 ^ 64"
  shows "\<exists>f'. z_finish ops crc cdc ow h isz st = (0, f') \<and> z_image crc op cdc ow isz raws blks (content f')"
proof -
  have o: "content (out_file st) = zht_block h @ concat blks" "ftell ops (out_file st) = length (content (out_file st))" "block_len st = map length blks"
      "moffset st = Z_SPACE + length (concat blks)"
    using st length_zht_block [OF h(1)] by (simp_all add: out_at_def)
  let ?ix = "u32_bytes (map length blks)" and ?rx = "if cdc then u32_bytes (map length raws) else []"
  obtain f1 where f1: "fwrite ops (out_file st) ?ix = (int (length ?ix), f1)" "content f1 = content (out_file st) @ ?ix" "ftell ops f1 = length (content f1)"
    using write_complete [OF cf o(2)] by blast
  obtain f2 where f2: "(if cdc then let (ret, f) = fwrite ops f1 (u32_bytes (raw_block_len st)) in (ret = int (length (u32_bytes (raw_block_len st))), f)
                  else (True, f1)) = (True, f2)" "content f2 = content f1 @ ?rx" "ftell ops f2 = length (content f2)"
    using write_complete [OF cf f1(3), of "u32_bytes (map length raws)"] f1(3) st(2) by (cases cdc) auto
  define p where "p = h\<lparr>z_index_crc := crc ?ix, z_index_offset := moffset st, z_index_size := length blks, z_original_file_size := isz\<rparr>"
  define t where "t = z_digested crc (z_mark False True True None p)"
  have flags: "z_is_header_overwrite p = z_is_header_overwrite h" "z_is_fastcdc p = z_is_fastcdc h" by (simp_all add: z_flag_iffs p_def)
  have hf: "z_verify_magic h" "z_opt h = op" "z_is_fastcdc h = cdc" "\<not> z_is_header_overwrite h" using h by simp_all
  have p: "zht_fits p" "z_verify_magic p" "z_opt p = op" "z_is_fastcdc p = cdc" "\<not> z_is_header_overwrite p" "z_index_offset p = Z_SPACE + length (concat blks)"
      "z_index_size p = length blks" "z_original_file_size p = isz" "z_index_crc p = crc ?ix"
    using hf h(1) small o(3,4) by (simp_all add: flags) (simp_all add: p_def zht_fits_def z_verify_magic_def)
  obtain f3 where f3: "fwrite ops f2 (zht_block t) = (int (length (zht_block t)), f3)" "content f3 = content f2 @ zht_block t" "ftell ops f3 = length (content f3)"
    using write_complete [OF cf f2(3)] by blast
  have t: "z_write_header_trailer ops crc False True True p None f2 = (int (length (zht_block t)), t, f3)" "zht_fits t"
    using f3(1) p by (simp_all add: z_write_header_trailer_def t_def Let_def)
  have c3: "content f3 = zht_block h @ concat blks @ ?ix @ ?rx @ zht_block t" using o(1) f1(2) f2(2) f3(2) by simp
  show ?thesis
  proof (cases ow)
    case False
    have "z_image crc op cdc ow isz raws blks (content f3)" unfolding z_image_def
      by (rule exI [of _ h], rule exI [of _ t]) (use False h p t c3 in \<open>simp add: t_def describes_def z_digested_valid\<close>)
    then show ?thesis using False f1(1) f2(1) o(3) t(1) by (simp add: z_finish_def Let_def p_def [symmetric])
  next
    case True
    define h' where "h' = z_digested crc (z_mark True False True (Some 0) t)"
    have h': "zht_fits h'" "length (zht_block h') = length (zht_block h)" using p h t by (simp_all add: h'_def length_zht_block)
    then obtain f4 where f4: "fpwrite ops f3 (zht_block h') 0 = (int (length (zht_block h')), f4)" "content f4 = put_bytes 0 (zht_block h') (content f3)"
      using pw c3 unfolding pwrites_content_def by (metis add_0 le_add1 length_append)
    then have c4: "content f4 = zht_block h' @ concat blks @ ?ix @ ?rx @ zht_block t" using c3 h'(2) by (simp add: put_bytes_def)
    have w: "z_write_header_trailer ops crc True False True t (Some 0) f3 = (int (length (zht_block h')), h', f4)"
      using f4(1) by (simp add: z_write_header_trailer_def h'_def Let_def)
    have "z_image crc op cdc ow isz raws blks (content f4)" unfolding z_image_def
      by (rule exI [of _ h'], rule exI [of _ t]) (use True h p t c4 h' in \<open>simp add: t_def h'_def describes_def z_digested_valid\<close>)
    then show ?thesis using True f1(1) f2(1) o(3) t(1) w by (simp add: z_finish_def Let_def p_def [symmetric])
  qed
qed


subsection \<open>Compressing a file\<close>

text \<open>Arguments that make sense: a known algorithm, no dictionary, buffers that are large enough for the bound of the library, and, for chunks
  by content, a smallest size that is positive and not above the largest.\<close>

definition z_setup :: "codec_libs \<Rightarrow> CompressArgs \<Rightarrow> compressor \<Rightarrow> nat \<Rightarrow> bool" where
  "z_setup L args c bs \<longleftrightarrow> create_compressor L args = Some c \<and> bs = (if use_fastcdc args then unat (fastcdc_max_size args) else block_size (args_opt args)) \<and>
     0 < bs \<and> dict_size (args_opt args) = 0 \<and> opt_fits (args_opt args) \<and> max_dst_size c \<le> bs + BUF_SIZE \<and> (\<forall>n \<le> bs. bound L c n \<le> bs + BUF_SIZE) \<and>
     (use_fastcdc args \<longrightarrow> 0 < fastcdc_min_size args \<and> fastcdc_min_size args \<le> fastcdc_max_size args \<and> unat (fastcdc_max_size args) \<le> INT_MAX)"

text \<open>The parts of the data and the blocks that store them.\<close>

definition z_parts :: "codec_libs \<Rightarrow> compressor \<Rightarrow> nat \<Rightarrow> (byte list \<Rightarrow> u32) \<Rightarrow> bool \<Rightarrow> bool \<Rightarrow> byte list \<Rightarrow> byte list list \<Rightarrow> byte list list \<Rightarrow> bool" where
  "z_parts L c bs crc vfy cdc data raws blks \<longleftrightarrow> concat raws = data \<and> list_all2 (stored_block L c (bs + BUF_SIZE) crc vfy) raws blks \<and>
     (\<forall>r\<in>set raws. length r \<le> bs) \<and> (cdc \<or> full_blocks bs raws)"

lemma zht_new_fits: "opt_fits op \<Longrightarrow> zht_fits (zht_new op)"
  by (simp add: zht_new_def zht_fits_def Z_MAGIC0_def Z_MAGIC1_def)

lemma zht_new_fields:
  "z_verify_magic (zht_new op)" "z_opt (zht_new op) = op" "\<not> z_is_fastcdc (zht_new op)" "\<not> z_is_header_overwrite (zht_new op)"
  by (simp_all add: zht_new_def z_verify_magic_def z_flag_iffs)

lemma z_set_fastcdc:
  "z_verify_magic (z_set_flag_bit Z_FLAG_SHIFT_FASTCDC ht) = z_verify_magic ht" "z_opt (z_set_flag_bit Z_FLAG_SHIFT_FASTCDC ht) = z_opt ht"
  "z_is_fastcdc (z_set_flag_bit Z_FLAG_SHIFT_FASTCDC ht)" "z_is_header_overwrite (z_set_flag_bit Z_FLAG_SHIFT_FASTCDC ht) = z_is_header_overwrite ht"
  "zht_fits (z_set_flag_bit Z_FLAG_SHIFT_FASTCDC ht) = zht_fits ht"
  by (simp_all add: z_flag_iffs) (simp_all add: z_set_flag_bit_def z_verify_magic_def zht_fits_def)

lemma parts_small:
  assumes "list_all2 (stored_block L c cap crc vfy) raws blks" "\<forall>r\<in>set raws. bound L c (length r) \<le> cap"
  shows "length blks \<le> length (concat raws)" "length (concat blks) \<le> length (concat raws) * (cap + 4)"
proof -
  have "length blks \<le> length (concat raws) \<and> length (concat blks) \<le> length (concat raws) * (cap + 4)"
    using assms
  proof (induction rule: list_all2_induct)
    case (Cons r raws blk blks)
    have r: "1 \<le> length r" using Cons.hyps(1) by (cases r) (auto simp: stored_block_def)
    have "length blk \<le> cap + 4" using Cons.hyps(1) Cons.prems by (auto simp: stored_block_def packed_def packs_def)
    also have "\<dots> \<le> length r * (cap + 4)" using r mult_le_mono1 [OF r, of "cap + 4"] by simp
    finally show ?case using Cons.IH Cons.prems r by (auto simp: add_mult_distrib)
  qed simp
  then show "length blks \<le> length (concat raws)" "length (concat blks) \<le> length (concat raws) * (cap + 4)" by auto
qed

lemma new_chunker:
  assumes "FastCDCChunker_new MD5 i g lo avg hi = (ch, i', g')" "0 < lo" "lo \<le> hi" "unat hi \<le> INT_MAX"
  shows "chunker_ok (g', ch)" "m_max_size ch = hi"
  using assms by (auto simp: FastCDCChunker_new_def chunker_ok_def Let_def split: if_splits)

lemma zfile_compress_ok:
  assumes cf: "complete_files ops content" and pw: "pwrites_content ops content" and cd: "codec_ok L bs" and su: "z_setup L args c bs"
    and rd: "reads_source rd rest" "use_fastcdc args \<or> reads_full rd rest" and f: "content f = []" "ftell ops f = 0"
    and small: "Z_SPACE + length (rest src) * (bs + BUF_SIZE + 4) < 2 ^ 63"
  shows "\<exists>f' raws blks. zfile_compress ops crc32c crc L MD5 i g rd src f args = Some (0, f') \<and>
    z_image crc32c (args_opt args\<lparr>block_size := bs\<rparr>) (use_fastcdc args) (overwrite_header args) (length (rest src)) raws blks (content f') \<and>
    z_parts L c bs crc (verify (args_opt args) \<noteq> 0) (use_fastcdc args) (rest src) raws blks"
proof -
  let ?op = "args_opt args\<lparr>block_size := bs\<rparr>" and ?vfy = "verify (args_opt args) \<noteq> 0" and ?cap = "bs + BUF_SIZE"
  have s: "create_compressor L args = Some c" "bs = (if use_fastcdc args then unat (fastcdc_max_size args) else block_size (args_opt args))"
     "0 < bs" "dict_size (args_opt args) = 0" "opt_fits (args_opt args)" "max_dst_size c \<le> ?cap" "\<forall>n \<le> bs. bound L c n \<le> ?cap"
     "use_fastcdc args \<longrightarrow> 0 < fastcdc_min_size args \<and> fastcdc_min_size args \<le> fastcdc_max_size args \<and> unat (fastcdc_max_size args) \<le> INT_MAX"
    using su unfolding z_setup_def by blast+
  have op: "(if use_fastcdc args then args_opt args\<lparr>block_size := unat (fastcdc_max_size args)\<rparr> else args_opt args) = ?op" using s(2) by simp
  have "unat (fastcdc_max_size args) < 2 ^ 32" using unsigned_less [of "fastcdc_max_size args", where ?'a = nat] by simp
  then have fits: "opt_fits ?op" using s(2,5) by (simp add: opt_fits_def)
  define h0 where "h0 = (if use_fastcdc args then z_set_flag_bit Z_FLAG_SHIFT_FASTCDC (zht_new ?op) else zht_new ?op)"
  have h0: "z_verify_magic h0" "z_opt h0 = ?op" "z_is_fastcdc h0 = use_fastcdc args" "\<not> z_is_header_overwrite h0" "zht_fits h0"
    using zht_new_fits [OF fits] by (simp_all add: h0_def zht_new_fields z_set_fastcdc)
  define h where "h = z_digested crc32c (z_mark True False True None h0)"
  have hf: "zht_fits h" using h0 by (simp add: h_def)
  obtain f1 where f1: "fwrite ops f (zht_block h) = (int (length (zht_block h)), f1)" "content f1 = zht_block h" "ftell ops f1 = length (content f1)"
    using write_complete [OF cf, of f "zht_block h"] f by auto
  have w: "z_write_header_trailer ops crc32c True False True h0 None f = (int (length (zht_block h)), h, f1)"
    using f1(1) by (simp add: z_write_header_trailer_def h_def Let_def)
  obtain ch i' g' where ch: "FastCDCChunker_new MD5 i g (fastcdc_min_size args) (fastcdc_avg_size args) (fastcdc_max_size args) = (ch, i', g')" by (metis prod_cases3)
  have cho: "use_fastcdc args \<longrightarrow> chunker_ok (g', ch) \<and> unat (m_max_size (snd (g', ch))) = bs" using new_chunker [OF ch] s(2,8) by auto
  let ?st = "\<lparr>out_file = f1, block_len = [], raw_block_len = [], moffset = Z_SPACE + 0\<rparr>"
  have st: "out_at ops content (stored_block L c ?cap crc ?vfy) (zht_block h) [] [] ?st" "raw_block_len ?st = map length []"
    using f1 length_zht_block [OF hf] by (simp_all add: out_at_def)
  have e: "\<forall>r\<in>set []. length r \<le> bs" "use_fastcdc args \<or> (if rest src = [] then full_blocks bs [] else all_full bs [])"
    by (simp_all add: all_full_def full_blocks_def)
  obtain st' raws blks where l: "zcompress_loop ops crc L rd args c ?vfy bs src (g', ch) 0 ?st = Some (0, 0 + length (rest src), st')"
      "out_at ops content (stored_block L c ?cap crc ?vfy) (zht_block h) raws blks st'" "raw_block_len st' = map length raws"
      "concat raws = concat [] @ rest src" "\<forall>r\<in>set raws. length r \<le> bs" "use_fastcdc args \<or> full_blocks bs raws"
    using zcompress_loop_ok [OF cf cd s(6,7) rd s(3) cho st e, of 0] by blast
  have parts: "z_parts L c bs crc ?vfy (use_fastcdc args) (rest src) raws blks" using l by (simp add: z_parts_def out_at_def)
  have sm: "length blks \<le> length (rest src)" "length (concat blks) \<le> length (rest src) * (?cap + 4)"
    using parts_small [of L c ?cap crc ?vfy raws blks] l(2,4,5) s(7) by (auto simp: out_at_def)
  have "length (rest src) \<le> length (rest src) * (?cap + 4)" "(2 :: nat) ^ 63 < 2 ^ 64" by simp_all
  then have sizes: "Z_SPACE + length (concat blks) < 2 ^ 64" "length blks < 2 ^ 64" "length (rest src) < 2 ^ 64" using small sm by linarith+
  obtain f' where f': "z_finish ops crc32c (use_fastcdc args) (overwrite_header args) h (length (rest src)) st' = (0, f')"
      "z_image crc32c ?op (use_fastcdc args) (overwrite_header args) (length (rest src)) raws blks (content f')"
    using z_finish_ok [OF cf pw l(2) _ hf h_def h0(1-4) sizes, of "overwrite_header args"] l(3) by blast
  have "zfile_compress ops crc32c crc L MD5 i g rd src f args = Some (0, f')"
    using l(1) f'(1) s(4) unfolding zfile_compress_def Let_def op s(1) option.case h0_def [symmetric] w ch prod.case by simp
  then show ?thesis using f'(2) parts by blast
qed


subsection \<open>A stream of writes\<close>

text \<open>The builder has written the full blocks of \<open>data\<close> and keeps the rest.\<close>

definition built :: "'f cfile \<Rightarrow> ('f \<Rightarrow> byte list) \<Rightarrow> codec_libs \<Rightarrow> (byte list \<Rightarrow> u32) \<Rightarrow> CompressArgs \<Rightarrow> compressor \<Rightarrow> nat \<Rightarrow> zht \<Rightarrow> byte list list \<Rightarrow> byte list list \<Rightarrow> byte list \<Rightarrow> 'f builder \<Rightarrow> bool" where
  "built ops content L crc args c bs h raws blks data b \<longleftrightarrow>
     out_at ops content (stored_block L c (bs + BUF_SIZE) crc (verify (args_opt args) \<noteq> 0)) (zht_block h) raws blks (b_out b) \<and> all_full bs raws \<and>
     concat raws @ reserved_buf b = data \<and> length (reserved_buf b) < bs \<and> m_buf_size b = bs + BUF_SIZE \<and> m_args b = args \<and>
     b_compressor b = c \<and> b_ht b = h"

lemma write_buffer_ok:
  assumes cf: "complete_files ops content" and cd: "codec_ok L bs" "max_dst_size c \<le> bs + BUF_SIZE" "\<forall>n \<le> bs. bound L c n \<le> bs + BUF_SIZE"
    and b: "m_buf_size b = bs + BUF_SIZE" "b_compressor b = c"
      "out_at ops content (stored_block L c (bs + BUF_SIZE) crc (verify (args_opt (m_args b)) \<noteq> 0)) pre raws blks (b_out b)"
    and r: "r \<noteq> []" "length r \<le> bs"
  shows "\<exists>st' blk. write_buffer ops crc L r b = (0, b\<lparr>b_out := st'\<rparr>) \<and>
    out_at ops content (stored_block L c (bs + BUF_SIZE) crc (verify (args_opt (m_args b)) \<noteq> 0)) pre (raws @ [r]) (blks @ [blk]) st'"
proof -
  let ?vfy = "verify (args_opt (m_args b)) \<noteq> 0" and ?st = "b_out b"
  obtain out where out: "compress_data crc L c r (bs + BUF_SIZE) ?vfy = Some (out @ (if ?vfy then le_bytes 4 (unat (crc out)) else []))" "packed L c (bs + BUF_SIZE) r out"
    using compress_data_ok [OF cd(1) r(1) cd(2)] cd(3) r(2) by blast
  let ?blk = "out @ (if ?vfy then le_bytes 4 (unat (crc out)) else [])"
  have "ftell ops (out_file ?st) = length (content (out_file ?st))" using b(3) by (simp add: out_at_def)
  then obtain f' where f': "fwrite ops (out_file ?st) ?blk = (int (length ?blk), f')" "content f' = content (out_file ?st) @ ?blk" "ftell ops f' = length (content f')"
    using write_complete [OF cf] by blast
  have s: "stored_block L c (bs + BUF_SIZE) crc ?vfy r ?blk" using out(2) r(1) by (auto simp: stored_block_def)
  let ?st' = "?st\<lparr>out_file := f', block_len := block_len ?st @ [length ?blk], moffset := moffset ?st + length ?blk\<rparr>"
  have "write_buffer ops crc L r b = (0, b\<lparr>b_out := ?st'\<rparr>)"
    unfolding write_buffer_def b(1,2) out(1) option.case Let_def f'(1) by simp
  moreover have "out_at ops content (stored_block L c (bs + BUF_SIZE) crc ?vfy) pre (raws @ [r]) (blks @ [?blk]) ?st'"
    using b(3) f'(2,3) s by (simp add: out_at_def list_all2_appendI)
  ultimately show ?thesis by blast
qed

lemma built_write_buffer:
  assumes cf: "complete_files ops content" and cd: "codec_ok L bs" "max_dst_size c \<le> bs + BUF_SIZE" "\<forall>n \<le> bs. bound L c n \<le> bs + BUF_SIZE"
    and b: "built ops content L crc args c bs h raws blks data (b\<lparr>reserved_buf := []\<rparr>)" and r: "r \<noteq> []" "length r = bs"
  shows "\<exists>b' blk. write_buffer ops crc L r b = (0, b') \<and> reserved_buf b' = reserved_buf b \<and> raw_data_size b' = raw_data_size b \<and>
    built ops content L crc args c bs h (raws @ [r]) (blks @ [blk]) (data @ r) (b'\<lparr>reserved_buf := []\<rparr>)"
proof -
  have bb: "m_buf_size b = bs + BUF_SIZE" "b_compressor b = c" "m_args b = args"
      "out_at ops content (stored_block L c (bs + BUF_SIZE) crc (verify (args_opt (m_args b)) \<noteq> 0)) (zht_block h) raws blks (b_out b)"
    using b by (simp_all add: built_def)
  obtain st' blk where "write_buffer ops crc L r b = (0, b\<lparr>b_out := st'\<rparr>)"
      "out_at ops content (stored_block L c (bs + BUF_SIZE) crc (verify (args_opt (m_args b)) \<noteq> 0)) (zht_block h) (raws @ [r]) (blks @ [blk]) st'"
    using write_buffer_ok [OF cf cd bb(1,2,4) r(1)] r(2) by blast
  then show ?thesis using b r bb(3)
    by (intro exI [of _ "b\<lparr>b_out := st'\<rparr>"] exI [of _ blk]) (simp add: built_def all_full_def)
qed

lemma builder_loop_ok:
  assumes cf: "complete_files ops content" and cd: "codec_ok L bs" "max_dst_size c \<le> bs + BUF_SIZE" "\<forall>n \<le> bs. bound L c n \<le> bs + BUF_SIZE"
    and bs: "0 < bs" "block_size (args_opt args) = bs"
  shows "built ops content L crc args c bs h raws blks data b \<Longrightarrow> reserved_buf b = [] \<Longrightarrow>
    \<exists>b' raws' blks'. builder_loop ops crc L buf b = Some (0, b') \<and> built ops content L crc args c bs h raws' blks' (data @ buf) b' \<and>
      raw_data_size b' = raw_data_size b"
proof (induction "length buf" arbitrary: buf b raws blks data rule: less_induct)
  case less
  have args: "m_args b = args" using less.prems(1) by (simp add: built_def)
  note unf = builder_loop.simps [of ops crc L buf b, unfolded Let_def args bs(2)]
  consider "buf = []" | "buf \<noteq> []" "bs > length buf" | "buf \<noteq> []" "bs \<le> length buf" by linarith
  then show ?case
  proof cases
    case 1
    then have "builder_loop ops crc L buf b = Some (0, b)" by (subst unf) simp
    then show ?thesis using 1 less.prems(1) by auto
  next
    case 2
    then have "built ops content L crc args c bs h raws blks (data @ buf) (b\<lparr>reserved_buf := buf\<rparr>)" using less.prems by (simp add: built_def)
    then show ?thesis using 2 by (simp add: unf) (metis builder.select_convs(2) builder.surjective builder.update_convs(6))
  next
    case 3
    have eq: "b\<lparr>reserved_buf := []\<rparr> = b" using less.prems(2) by (cases b) simp
    obtain b1 blk where 1: "write_buffer ops crc L (take bs buf) b = (0, b1)" "reserved_buf b1 = []" "raw_data_size b1 = raw_data_size b"
        "built ops content L crc args c bs h (raws @ [take bs buf]) (blks @ [blk]) (data @ take bs buf) (b1\<lparr>reserved_buf := []\<rparr>)"
      using built_write_buffer [OF cf cd, of crc args h raws blks data b "take bs buf"] less.prems bs(1) 3 unfolding eq by auto
    have "b1\<lparr>reserved_buf := []\<rparr> = b1" using 1(2) by (cases b1) simp
    then have b1: "built ops content L crc args c bs h (raws @ [take bs buf]) (blks @ [blk]) (data @ take bs buf) b1" using 1(4) by simp
    have "length (drop bs buf) < length buf" using 3 bs(1) by simp
    then obtain b' raws' blks' where "builder_loop ops crc L (drop bs buf) b1 = Some (0, b')"
        "built ops content L crc args c bs h raws' blks' ((data @ take bs buf) @ drop bs buf) b'" "raw_data_size b' = raw_data_size b1"
      using less.hyps b1 1(2) by blast
    moreover have "builder_loop ops crc L buf b = builder_loop ops crc L (drop bs buf) b1" using 3 bs(1) 1(1) by (simp add: unf)
    ultimately show ?thesis using 1(3) by auto
  qed
qed


lemma builder_write_ok:
  assumes cf: "complete_files ops content" and cd: "codec_ok L bs" "max_dst_size c \<le> bs + BUF_SIZE" "\<forall>n \<le> bs. bound L c n \<le> bs + BUF_SIZE"
    and bs: "0 < bs" "block_size (args_opt args) = bs" and b: "built ops content L crc args c bs h raws blks data b"
  shows "\<exists>b' raws' blks'. builder_write ops crc L buf b = Some (int (length buf), b') \<and> built ops content L crc args c bs h raws' blks' (data @ buf) b' \<and>
    raw_data_size b' = raw_data_size b + length buf"
proof -
  define b0 where "b0 = b\<lparr>raw_data_size := raw_data_size b + length buf\<rparr>"
  have b0: "built ops content L crc args c bs h raws blks data b0" "m_args b0 = args" "raw_data_size b0 = raw_data_size b + length buf"
      "length (reserved_buf b0) < bs" "concat raws @ reserved_buf b0 = data"
    using b by (simp_all add: built_def b0_def)
  note unf = builder_write_def [of ops crc L buf b, unfolded Let_def b0_def [symmetric] b0(2) bs(2)]
  show ?thesis
  proof (cases "reserved_buf b0 = []")
    case True
    obtain b' raws' blks' where "builder_loop ops crc L buf b0 = Some (0, b')" "built ops content L crc args c bs h raws' blks' (data @ buf) b'"
        "raw_data_size b' = raw_data_size b0"
      using builder_loop_ok [OF cf cd bs b0(1) True] by blast
    then show ?thesis using True b0(3) by (auto simp: unf)
  next
    case rs: False
    show ?thesis
    proof (cases "length (reserved_buf b0) + length buf < bs")
      case True
      let ?b' = "b0\<lparr>reserved_buf := reserved_buf b0 @ buf\<rparr>"
      have "built ops content L crc args c bs h raws blks (data @ buf) ?b'" using b0 True by (auto simp: built_def)
      moreover have "builder_write ops crc L buf b = Some (int (length buf), ?b')" "raw_data_size ?b' = raw_data_size b + length buf" using True rs b0(3) by (simp_all add: unf)
      ultimately show ?thesis by blast
    next
      case False
      define d where "d = bs - length (reserved_buf b0)"
      let ?r = "reserved_buf b0 @ take d buf"
      have r: "?r \<noteq> []" "length ?r = bs" using rs False b0(4) by (simp_all add: d_def)
      have e: "built ops content L crc args c bs h raws blks (concat raws) (b0\<lparr>reserved_buf := []\<rparr>)" using b0(1) bs(1) by (simp add: built_def)
      obtain b1 blk where 1: "write_buffer ops crc L ?r b0 = (0, b1)" "raw_data_size b1 = raw_data_size b0"
          "built ops content L crc args c bs h (raws @ [?r]) (blks @ [blk]) (concat raws @ ?r) (b1\<lparr>reserved_buf := []\<rparr>)"
        using built_write_buffer [OF cf cd e r] by blast
      obtain b' raws' blks' where 2: "builder_loop ops crc L (drop d buf) (b1\<lparr>reserved_buf := []\<rparr>) = Some (0, b')"
          "built ops content L crc args c bs h raws' blks' ((concat raws @ ?r) @ drop d buf) b'" "raw_data_size b' = raw_data_size (b1\<lparr>reserved_buf := []\<rparr>)"
        using builder_loop_ok [OF cf cd bs 1(3), of "drop d buf"] by auto
      have "(concat raws @ ?r) @ drop d buf = data @ buf" using b0(5) by auto
      then have "built ops content L crc args c bs h raws' blks' (data @ buf) b'" using 2(2) by metis
      moreover have "raw_data_size b' = raw_data_size b + length buf" using 1(2) 2(3) b0(3) by simp
      moreover have "builder_write ops crc L buf b = Some (int (length buf), b')"
        using rs False 1(1) 2(1) by (simp add: unf d_def [symmetric])
      ultimately show ?thesis by blast
    qed
  qed
qed

lemma builder_writes_ok:
  assumes cf: "complete_files ops content" and cd: "codec_ok L bs" "max_dst_size c \<le> bs + BUF_SIZE" "\<forall>n \<le> bs. bound L c n \<le> bs + BUF_SIZE"
    and bs: "0 < bs" "block_size (args_opt args) = bs" and b: "built ops content L crc args c bs h raws blks data b"
  shows "\<exists>b' raws' blks'. builder_writes ops crc L bufs b = Some (map (int \<circ> length) bufs, b') \<and>
    built ops content L crc args c bs h raws' blks' (data @ concat bufs) b' \<and> raw_data_size b' = raw_data_size b + length (concat bufs)"
  using b
proof (induction bufs arbitrary: b raws blks data)
  case (Cons buf bufs)
  obtain b1 raws1 blks1 where 1: "builder_write ops crc L buf b = Some (int (length buf), b1)" "built ops content L crc args c bs h raws1 blks1 (data @ buf) b1"
      "raw_data_size b1 = raw_data_size b + length buf"
    using builder_write_ok [OF cf cd bs Cons.prems] by blast
  obtain b' raws' blks' where 2: "builder_writes ops crc L bufs b1 = Some (map (int \<circ> length) bufs, b')"
      "built ops content L crc args c bs h raws' blks' ((data @ buf) @ concat bufs) b'" "raw_data_size b' = raw_data_size b1 + length (concat bufs)"
    using Cons.IH [OF 1(2)] by blast
  have "builder_writes ops crc L (buf # bufs) b = Some (map (int \<circ> length) (buf # bufs), b')" using 1(1) 2(1) by simp
  moreover have "built ops content L crc args c bs h raws' blks' (data @ concat (buf # bufs)) b'" using 2(2) by simp
  moreover have "raw_data_size b' = raw_data_size b + length (concat (buf # bufs))" using 1(3) 2(3) by simp
  ultimately show ?case by blast
qed auto

text \<open>A stream of writes from the start to the end, with the results of the writes.\<close>

lemma builder_ok:
  assumes cf: "complete_files ops content" and pw: "pwrites_content ops content" and cd: "codec_ok L bs" and su: "z_setup L args c bs" "\<not> use_fastcdc args"
    and f: "content f = []" "ftell ops f = 0" and small: "Z_SPACE + length (concat bufs) * (bs + BUF_SIZE + 4) < 2 ^ 63"
  shows "\<exists>b f1 b' f' raws blks. builder_init ops crc32c L args f = (Some b, f1) \<and> builder_writes ops crc L bufs b = Some (map (int \<circ> length) bufs, b') \<and>
    builder_fini ops crc32c crc L b' = (0, f') \<and>
    z_image crc32c (args_opt args\<lparr>block_size := bs\<rparr>) False (overwrite_header args) (length (concat bufs)) raws blks (content f') \<and>
    z_parts L c bs crc (verify (args_opt args) \<noteq> 0) False (concat bufs) raws blks"
proof -
  let ?op = "args_opt args" and ?vfy = "verify (args_opt args) \<noteq> 0" and ?cap = "bs + BUF_SIZE"
  have s: "create_compressor L args = Some c" "bs = block_size (args_opt args)"
     "0 < bs" "dict_size (args_opt args) = 0" "opt_fits (args_opt args)" "max_dst_size c \<le> ?cap" "\<forall>n \<le> bs. bound L c n \<le> ?cap"
    using su(1) unfolding z_setup_def if_not_P [OF su(2)] by blast+
  define h where "h = z_digested crc32c (z_mark True False True None (zht_new ?op))"
  have hf: "zht_fits h" using zht_new_fits [OF s(5)] by (simp add: h_def)
  obtain f1 where f1: "fwrite ops f (zht_block h) = (int (length (zht_block h)), f1)" "content f1 = zht_block h" "ftell ops f1 = length (content f1)"
    using write_complete [OF cf, of f "zht_block h"] f by auto
  have w: "z_write_header_trailer ops crc32c True False True (zht_new ?op) None f = (int (length (zht_block h)), h, f1)"
    using f1(1) by (simp add: z_write_header_trailer_def h_def Let_def)
  define b where "b = \<lparr>b_out = \<lparr>out_file = f1, block_len = [], raw_block_len = [], moffset = Z_SPACE + 0\<rparr>, raw_data_size = 0,
      m_buf_size = bs + BUF_SIZE, m_args = args, b_compressor = c, reserved_buf = [], b_ht = h\<rparr>"
  have i: "builder_init ops crc32c L args f = (Some b, f1)" using w s(2) by (simp add: builder_init_def s(1) b_def)
  have "built ops content L crc args c bs h [] [] [] b" using f1 s(3) length_zht_block [OF hf] by (simp add: built_def b_def out_at_def all_full_def)
  then obtain b' raws blks where b': "builder_writes ops crc L bufs b = Some (map (int \<circ> length) bufs, b')"
      "built ops content L crc args c bs h raws blks ([] @ concat bufs) b'" "raw_data_size b' = raw_data_size b + length (concat bufs)"
    using builder_writes_ok [OF cf cd s(6,7,3) s(2) [symmetric], of crc h] by blast
  have bb: "m_buf_size b' = bs + BUF_SIZE" "b_compressor b' = c" "m_args b' = args" "b_ht b' = h" "all_full bs raws" "length (reserved_buf b') < bs"
      "concat raws @ reserved_buf b' = concat bufs"
      "out_at ops content (stored_block L c ?cap crc (verify (args_opt (m_args b')) \<noteq> 0)) (zht_block h) raws blks (b_out b')"
      "raw_data_size b' = length (concat bufs)"
    using b'(2,3) by (simp_all add: built_def b_def)
  obtain b2 raws2 blks2 where b2: "(if reserved_buf b' \<noteq> [] then write_buffer ops crc L (reserved_buf b') b' else (0, b')) = (0, b2)"
      "out_at ops content (stored_block L c ?cap crc ?vfy) (zht_block h) raws2 blks2 (b_out b2)" "z_parts L c bs crc ?vfy False (concat bufs) raws2 blks2"
      "b_ht b2 = h" "m_args b2 = args" "raw_data_size b2 = length (concat bufs)"
  proof (cases "reserved_buf b' = []")
    case True
    then have "z_parts L c bs crc ?vfy False (concat bufs) raws blks" using bb by (auto simp: z_parts_def out_at_def all_full_blocks all_full_def)
    then show ?thesis using that [of b' raws blks] True bb by simp
  next
    case False
    obtain st' blk where wb: "write_buffer ops crc L (reserved_buf b') b' = (0, b'\<lparr>b_out := st'\<rparr>)"
        "out_at ops content (stored_block L c ?cap crc ?vfy) (zht_block h) (raws @ [reserved_buf b']) (blks @ [blk]) st'"
      using write_buffer_ok [OF cf cd s(6,7) bb(1,2,8) False] bb(3,6) by auto
    then have "z_parts L c bs crc ?vfy False (concat bufs) (raws @ [reserved_buf b']) (blks @ [blk])"
      using bb by (auto simp: z_parts_def out_at_def full_blocks_snoc all_full_def)
    then show ?thesis using that [of "b'\<lparr>b_out := st'\<rparr>"] False wb bb by simp
  qed
  have sm: "length blks2 \<le> length (concat bufs)" "length (concat blks2) \<le> length (concat bufs) * (?cap + 4)"
    using parts_small [of L c ?cap crc ?vfy raws2 blks2] b2(3) s(7) by (auto simp: z_parts_def)
  have "length (concat bufs) \<le> length (concat bufs) * (?cap + 4)" "(2 :: nat) ^ 63 < 2 ^ 64" by simp_all
  then have sizes: "Z_SPACE + length (concat blks2) < 2 ^ 64" "length blks2 < 2 ^ 64" "length (concat bufs) < 2 ^ 64" using small sm by linarith+
  obtain f' where f': "z_finish ops crc32c False (overwrite_header args) h (length (concat bufs)) (b_out b2) = (0, f')"
      "z_image crc32c ?op False (overwrite_header args) (length (concat bufs)) raws2 blks2 (content f')"
    using z_finish_ok [OF cf pw b2(2) _ hf h_def _ _ _ _ sizes, of False] zht_new_fields [of ?op] by auto
  have "builder_fini ops crc32c crc L b' = (0, f')" using f'(1) b2(1,4-6) by (simp add: builder_fini_def)
  moreover have "?op\<lparr>block_size := bs\<rparr> = ?op" using s(2) by simp
  ultimately show ?thesis using i b'(1) f'(2) b2(3) by auto
qed

end
