(* ===== verification/ZFile_Open.thy ===== *)
theory ZFile_Open
  imports ZFile_Write
begin

text \<open>
  Opening compressed files (\<^verbatim>\<open>src/overlaybd/zfile/zfile.cpp\<close>): \<open>is_zfile\<close>, \<open>load_jump_table\<close>, \<open>zfile_open_ro\<close>, and the functions that
  read a whole file, \<open>zfile_decompress\<close> and \<open>zfile_validation_check\<close>.
\<close>

subsection \<open>The header\<close>

definition read_space :: "'f cfile \<Rightarrow> 'f \<Rightarrow> nat \<Rightarrow> byte list option" where
  "read_space ops fl off = (let (ret, buf) = fpread ops fl Z_SPACE off in if ret < int Z_SPACE then None else Some buf)"

definition is_zfile :: "'f cfile \<Rightarrow> (byte list \<Rightarrow> u32) \<Rightarrow> 'f option \<Rightarrow> int" where
  "is_zfile ops crc32c fl =
     (case fl of
        None \<Rightarrow> -1
      | Some fl \<Rightarrow>
        (case read_space ops fl 0 of
           None \<Rightarrow> -1
         | Some buf \<Rightarrow>
             let pht = parse_zht buf
             in if \<not> z_verify_magic pht \<or> \<not> z_is_header pht then 0
                else if \<not> z_is_valid crc32c buf then -1
                else 1))"

subsection \<open>The jump table\<close>

text \<open>The chunks of the index, of at most a mebibyte, are read by threads; \<open>None\<close> when one of them fails.\<close>

function read_chunks :: "'f cfile \<Rightarrow> 'f \<Rightarrow> nat \<Rightarrow> nat \<Rightarrow> byte list option" where
  "read_chunks ops fl offset len =
     (if len = 0 then Some []
      else
        let chunk_size = min len (2 ^ 20);
            (ret, bs) = fpread ops fl chunk_size offset;
            rest = read_chunks ops fl (offset + chunk_size) (len - chunk_size)
        in if ret \<noteq> int chunk_size then None else map_option ((@) bs) rest)"
  by pat_completeness auto
termination by (relation "measure (\<lambda>(ops, fl, offset, len). len)") auto

declare read_chunks.simps [simp del]

function u32_values :: "byte list \<Rightarrow> nat list" where
  "u32_values bs = (if length bs < 4 then [] else le_value (take 4 bs) # u32_values (drop 4 bs))"
  by pat_completeness auto
termination by (relation "measure length") auto

declare u32_values.simps [simp del]

text \<open>The header or trailer that describes the index.  The trailer replaces the header in the buffer; its digest is not checked.\<close>

definition load_ht :: "'f cfile \<Rightarrow> (byte list \<Rightarrow> u32) \<Rightarrow> 'f \<Rightarrow> zht option" where
  "load_ht ops crc32c fl = do {
     buf \<leftarrow> read_space ops fl 0;
     let pht = parse_zht buf;
     if \<not> z_verify_magic pht \<or> \<not> z_is_header pht then None
     else if \<not> z_is_valid crc32c buf then None
     else if \<not> z_is_header_overwrite pht then
       if \<not> z_is_data_file pht then None
       else do {
         let trailer_offset = fsize ops fl - Z_SPACE;
         buf \<leftarrow> read_space ops fl trailer_offset;
         let pht = parse_zht buf;
         if \<not> z_verify_magic pht \<or> \<not> z_is_trailer pht \<or> \<not> z_is_data_file pht \<or> \<not> z_is_sealed pht then None
         else if z_index_size pht * 4 mod 2 ^ 64 > sub64 trailer_offset (z_index_offset pht) then None
         else Some pht
       }
     else Some pht
   }"

text \<open>\<open>load_jump_table\<close>.  The outer \<open>None\<close> is an exception, when the index is too large to be allocated, or the division by zero of
  \<open>build\<close>.\<close>

definition load_jump_table :: "'f cfile \<Rightarrow> (byte list \<Rightarrow> u32) \<Rightarrow> 'f \<Rightarrow> (zht \<times> jump_table) option option" where
  "load_jump_table ops crc32c fl =
     (case load_ht ops crc32c fl of
        None \<Rightarrow> Some None
      | Some pht \<Rightarrow> do {
          let index_bytes = z_index_size pht * 4;
          ENV_BUG_ON (index_bytes \<ge> 2 ^ 63);
          (case read_chunks ops fl (z_index_offset pht) index_bytes of
             None \<Rightarrow> Some None
           | Some ibuf \<Rightarrow>
               if z_is_digest_enabled pht \<and> crc32c ibuf \<noteq> z_index_crc pht then Some None
               else do {
                 (ret, jt) \<leftarrow> jt_build (u32_values ibuf) ((Z_SPACE + dict_size (z_opt pht)) mod 2 ^ 32) (block_size (z_opt pht)) (verify (z_opt pht) \<noteq> 0);
                 Some (if ret \<noteq> 0 then None else Some (pht, jt))
               })
        })"

subsection \<open>Opening\<close>

text \<open>The attempts to load the table: with \<open>verify\<close> the file is dropped from the cache after each failure.\<close>

fun open_retry :: "'f cfile \<Rightarrow> (byte list \<Rightarrow> u32) \<Rightarrow> bool \<Rightarrow> nat \<Rightarrow> 'f \<Rightarrow> ((zht \<times> jump_table) option \<times> 'f) option" where
  "open_retry ops crc32c vfy retry fl =
     (case load_jump_table ops crc32c fl of
        None \<Rightarrow> None
      | Some (Some r) \<Rightarrow> Some (Some r, fl)
      | Some None \<Rightarrow>
          if vfy then
            let (res, fl) = fevict ops fl
            in if res < 0 then Some (None, fl)
               else (case retry of 0 \<Rightarrow> Some (None, fl) | Suc retry \<Rightarrow> open_retry ops crc32c vfy retry fl)
          else Some (None, fl))"

declare open_retry.simps [simp del]

text \<open>\<open>zfile_open_ro\<close>: the file object with its compressor, which is null for an unknown algorithm.  The header is copied into the object
  before the parameter \<open>verify\<close> is applied to the local one.\<close>

definition zfile_open_ro :: "'f cfile \<Rightarrow> (byte list \<Rightarrow> u32) \<Rightarrow> codec_libs \<Rightarrow> bool \<Rightarrow> 'f \<Rightarrow> ((zfile \<times> compressor option) option \<times> 'f) option" where
  "zfile_open_ro ops crc32c L vfy fl = do {
     (r, fl) \<leftarrow> open_retry ops crc32c vfy 2 fl;
     case r of
       None \<Rightarrow> Some (None, fl)
     | Some (ht, jt) \<Rightarrow>
         let c = create_compressor L (CompressArgs_new (z_opt ht));
             zf = \<lparr>m_jump_table = jt, m_raw_block_sizes = [], m_ht = ht, z_valid = FLAG_VALID_TRUE\<rparr>
         in if z_is_fastcdc ht then
              let raw_index_bytes = z_index_size ht * 4;
                  (readn, bs) = fpread ops fl raw_index_bytes ((z_index_offset ht + raw_index_bytes) mod 2 ^ 64)
              in if readn \<noteq> int raw_index_bytes then Some (None, fl)
                 else Some (Some (zf\<lparr>m_raw_block_sizes := u32_values bs\<rparr>, c), fl)
            else Some (Some (zf, c), fl)
   }"

text \<open>A read through the compressor of the object.  A null compressor is a null pointer that a read which decompresses a block uses; a
  file that is only checked is not decompressed.\<close>

definition zfile_pread :: "'f cfile \<Rightarrow> (byte list \<Rightarrow> u32) \<Rightarrow> codec_libs \<Rightarrow> zfile \<times> compressor option \<Rightarrow> byte list \<Rightarrow> nat \<Rightarrow> nat \<Rightarrow> 'f \<Rightarrow> (int \<times> byte list \<times> 'f) option" where
  "zfile_pread ops crc32c_salt L zc buf count offset fl = do {
     dec \<leftarrow> (case snd zc of Some c \<Rightarrow> Some (decompress L c) | None \<Rightarrow> if z_valid (fst zc) = FLAG_VALID_CRC_CHECK then Some (\<lambda>_ _. None) else None);
     (r, buf, fl) \<leftarrow> z_pread ops crc32c_salt dec (fst zc) (Some buf) count offset fl;
     buf \<leftarrow> buf;
     Some (r, buf, fl)
   }"

subsection \<open>Whole files\<close>

partial_function (option) decompress_loop :: "'f cfile \<Rightarrow> (byte list \<Rightarrow> u32) \<Rightarrow> codec_libs \<Rightarrow> zfile \<times> compressor option \<Rightarrow> int \<Rightarrow> nat \<Rightarrow> byte list \<Rightarrow> 'f \<Rightarrow> 'f \<Rightarrow> (int \<times> 'f \<times> 'f) option" where
  "decompress_loop ops crc32c_salt L zc raw_size offset buf fl dst =
     (if int offset < raw_size then do {
        let len = min (block_size (z_opt (m_ht (fst zc)))) (nat raw_size - offset);
        (readn, buf, fl) \<leftarrow> zfile_pread ops crc32c_salt L zc buf len offset fl;
        if readn \<le> 0 then Some (-1, fl, dst)
        else
          let readn = min (nat readn) len;
              (writen, dst) = fwrite ops dst (take readn buf)
          in if writen \<noteq> int readn then Some (-1, fl, dst)
             else decompress_loop ops crc32c_salt L zc raw_size (offset + readn) buf fl dst
      }
      else Some (0, fl, dst))"

definition zfile_decompress :: "'f cfile \<Rightarrow> (byte list \<Rightarrow> u32) \<Rightarrow> (byte list \<Rightarrow> u32) \<Rightarrow> codec_libs \<Rightarrow> 'f \<Rightarrow> 'f \<Rightarrow> (int \<times> 'f \<times> 'f) option" where
  "zfile_decompress ops crc32c crc32c_salt L src dst = do {
     (r, fl) \<leftarrow> zfile_open_ro ops crc32c L True src;
     case r of
       None \<Rightarrow> Some (-1, fl, dst)
     | Some zc \<Rightarrow> decompress_loop ops crc32c_salt L zc (ssize (z_original_file_size (m_ht (fst zc)))) 0
         (replicate (block_size (z_opt (m_ht (fst zc)))) 0) fl dst
   }"

partial_function (option) check_loop :: "'f cfile \<Rightarrow> (byte list \<Rightarrow> u32) \<Rightarrow> codec_libs \<Rightarrow> zfile \<times> compressor option \<Rightarrow> int \<Rightarrow> nat \<Rightarrow> byte list \<Rightarrow> 'f \<Rightarrow> (int \<times> 'f) option" where
  "check_loop ops crc32c_salt L zc raw_size offset buf fl =
     (if int offset < raw_size then do {
        let bs = block_size (z_opt (m_ht (fst zc)));
        let len = min bs (nat raw_size - offset);
        (readn, buf, fl) \<leftarrow> zfile_pread ops crc32c_salt L zc buf len offset fl;
        if readn \<noteq> int len then Some (-1, fl)
        else check_loop ops crc32c_salt L zc raw_size (offset + bs) buf fl
      }
      else Some (0, fl))"

definition zfile_validation_check :: "'f cfile \<Rightarrow> (byte list \<Rightarrow> u32) \<Rightarrow> (byte list \<Rightarrow> u32) \<Rightarrow> codec_libs \<Rightarrow> 'f \<Rightarrow> (int \<times> 'f) option" where
  "zfile_validation_check ops crc32c crc32c_salt L src = do {
     (r, fl) \<leftarrow> zfile_open_ro ops crc32c L True src;
     case r of
       None \<Rightarrow> Some (-1, fl)
     | Some (zf, c) \<Rightarrow>
         if verify (z_opt (m_ht zf)) = 0 then Some (-1, fl)
         else check_loop ops crc32c_salt L (zf\<lparr>z_valid := FLAG_VALID_CRC_CHECK\<rparr>, c) (ssize (z_original_file_size (m_ht zf))) 0
           (replicate (block_size (z_opt (m_ht zf))) 0) fl
   }"


subsection \<open>Reading what was written\<close>

lemma fpread_content:
  "reads_content ops content \<Longrightarrow> off + n \<le> length (content f) \<Longrightarrow> fpread ops f n off = (int n, take n (drop off (content f)))"
  by (simp add: reads_content_def)

lemma read_chunks_ok:
  assumes rc: "reads_content ops content"
  shows "off + len \<le> length (content fl) \<Longrightarrow> read_chunks ops fl off len = Some (take len (drop off (content fl)))"
proof (induction len arbitrary: off rule: less_induct)
  case (less len)
  let ?m = "min len (2 ^ 20)"
  show ?case
  proof (cases "len = 0")
    case False
    have r: "fpread ops fl ?m off = (int ?m, take ?m (drop off (content fl)))" using fpread_content [OF rc] less.prems by simp
    have "read_chunks ops fl (off + ?m) (len - ?m) = Some (take (len - ?m) (drop (off + ?m) (content fl)))"
      using less.IH [of "len - ?m" "off + ?m"] False less.prems by simp
    moreover have "take len (drop off (content fl)) = take ?m (drop off (content fl)) @ take (len - ?m) (drop (off + ?m) (content fl))"
      using take_add [of ?m "len - ?m" "drop off (content fl)"] by (simp add: add.commute)
    ultimately show ?thesis using False r by (simp add: read_chunks.simps [of ops fl off len] Let_def)
  qed (simp add: read_chunks.simps)
qed

lemma u32_values_bytes: "\<forall>v\<in>set ls. v < 2 ^ 32 \<Longrightarrow> u32_values (u32_bytes ls) = ls"
proof (induction ls)
  case (Cons v ls)
  then have "le_value (le_bytes 4 v) = v" by (intro le_value_bytes_small) simp
  then show ?case using Cons by (simp add: u32_bytes_def u32_values.simps [of "le_bytes 4 v @ _"])
qed (simp add: u32_bytes_def u32_values.simps)

lemma sub64_diff: "b \<le> a \<Longrightarrow> a < 2 ^ 64 \<Longrightarrow> sub64 a b = a - b"
proof -
  assume "b \<le> a" "a < 2 ^ 64"
  then have "a + (2 ^ 64 - b mod 2 ^ 64) = (a - b) + 2 ^ 64" "a - b < 2 ^ 64" by simp_all
  then show ?thesis by (simp add: sub64_def)
qed

lemma read_space_ok:
  assumes "reads_content ops content" "content fl = xs @ zht_block h @ ys" "zht_fits h"
  shows "read_space ops fl (length xs) = Some (zht_block h)"
  using fpread_content [OF assms(1), of "length xs" Z_SPACE fl] assms(2) length_zht_block [OF assms(3)] by (simp add: read_space_def)

lemma load_ht_ok:
  assumes rc: "reads_content ops content" and im: "z_image crc op cdc ow isz raws blks (content fl)" and small: "length (content fl) < 2 ^ 63"
  shows "\<exists>ht. load_ht ops crc fl = Some ht \<and> describes crc op cdc isz blks ht"
proof -
  obtain h t where i: "content fl = zht_block h @ concat blks @ u32_bytes (map length blks) @ (if cdc then u32_bytes (map length raws) else []) @ zht_block t"
      "zht_fits h" "zht_fits t" "z_is_valid crc (zht_block h)" "z_verify_magic h" "z_is_header h" "z_is_data_file h" "z_is_header_overwrite h = ow"
      "z_verify_magic t" "z_is_trailer t" "z_is_data_file t" "z_is_sealed t" "describes crc op cdc isz blks (if ow then h else t)"
    using im unfolding z_image_def by blast
  have h: "read_space ops fl 0 = Some (zht_block h)" using read_space_ok [OF rc, of fl "[]" h] i(1,2) by simp
  show ?thesis
  proof (cases ow)
    case True
    then show ?thesis using h i by (auto simp: load_ht_def parse_zht_block)
  next
    case False
    let ?pre = "zht_block h @ concat blks @ u32_bytes (map length blks) @ (if cdc then u32_bytes (map length raws) else [])"
    have sz: "fsize ops fl - Z_SPACE = length ?pre" using rc i(1) length_zht_block [OF i(3)] by (simp add: reads_content_def)
    have t: "read_space ops fl (length ?pre) = Some (zht_block t)" using read_space_ok [OF rc, of fl ?pre t "[]"] i(1,3) by simp
    have d: "z_index_size t = length blks" "z_index_offset t = Z_SPACE + length (concat blks)" "describes crc op cdc isz blks t"
      using i(13) False by (simp_all add: describes_def)
    have le: "z_index_offset t + z_index_size t * 4 \<le> length ?pre" using d(1,2) length_zht_block [OF i(2)] by simp
    have "length ?pre < 2 ^ 63" using small i(1) by simp
    then have "z_index_size t * 4 mod 2 ^ 64 \<le> sub64 (length ?pre) (z_index_offset t)" using le sub64_diff [of "z_index_offset t" "length ?pre"] by auto
    then show ?thesis
      using False h t d(3) i(4-12) unfolding load_ht_def sz by (simp add: parse_zht_block [OF i(2)] parse_zht_block [OF i(3)] Let_def)
  qed
qed


lemma image_content:
  assumes "z_image crc op cdc ow isz raws blks bytes"
  shows "Z_SPACE + length (concat blks) \<le> length bytes" "take (length (concat blks)) (drop Z_SPACE bytes) = concat blks"
    "Z_SPACE + length (concat blks) + 4 * length blks \<le> length bytes"
    "take (4 * length blks) (drop (Z_SPACE + length (concat blks)) bytes) = u32_bytes (map length blks)"
    "cdc \<Longrightarrow> length raws = length blks \<Longrightarrow> Z_SPACE + length (concat blks) + 4 * length blks + 4 * length blks \<le> length bytes \<and>
       take (4 * length blks) (drop (Z_SPACE + length (concat blks) + 4 * length blks) bytes) = u32_bytes (map length raws)"
proof -
  obtain h rest where "bytes = zht_block h @ concat blks @ u32_bytes (map length blks) @ (if cdc then u32_bytes (map length raws) else []) @ rest" "zht_fits h"
    using assms unfolding z_image_def by blast
  then show "Z_SPACE + length (concat blks) \<le> length bytes" "take (length (concat blks)) (drop Z_SPACE bytes) = concat blks"
    "Z_SPACE + length (concat blks) + 4 * length blks \<le> length bytes"
    "take (4 * length blks) (drop (Z_SPACE + length (concat blks)) bytes) = u32_bytes (map length blks)"
    "cdc \<Longrightarrow> length raws = length blks \<Longrightarrow> Z_SPACE + length (concat blks) + 4 * length blks + 4 * length blks \<le> length bytes \<and>
       take (4 * length blks) (drop (Z_SPACE + length (concat blks) + 4 * length blks) bytes) = u32_bytes (map length raws)"
    using length_zht_block [of h] by simp_all
qed

text \<open>Sizes that the reader can work with: groups whose size is a power of two, blocks that fit into the buffer of the reader, and groups
  whose blocks but one fit into 16 bits.\<close>

definition z_sizes :: "nat \<Rightarrow> nat \<Rightarrow> byte list list \<Rightarrow> bool" where
  "z_sizes bs hi blks \<longleftrightarrow> 0 < bs \<and> bs \<le> MAX_READ_SIZE \<and> (\<exists>k. (uinttype_max + 1) div bs = 2 ^ k) \<and> hi \<le> MAX_READ_SIZE \<and>
     ((uinttype_max + 1) div bs - 1) * hi < uinttype_max \<and> (\<forall>blk\<in>set blks. length blk \<le> hi)"

lemma load_jump_table_ok:
  assumes rc: "reads_content ops content" and im: "z_image crc op cdc ow isz raws blks (content fl)" and small: "length (content fl) < 2 ^ 63"
    and sz: "z_sizes (block_size op) hi blks" "dict_size op = 0" "\<forall>blk\<in>set blks. (if verify op \<noteq> 0 then 4 else 0) < length blk"
  shows "\<exists>ht jt. load_jump_table ops crc fl = Some (Some (ht, jt)) \<and> describes crc op cdc isz blks ht \<and>
    (\<forall>i \<le> length blks. jt_at jt i = Some (Z_SPACE + psum (map length blks) i))"
proof -
  obtain ht where ht: "load_ht ops crc fl = Some ht" "describes crc op cdc isz blks ht" using load_ht_ok [OF rc im small] by blast
  have d: "z_index_offset ht = Z_SPACE + length (concat blks)" "z_index_size ht = length blks" "z_index_crc ht = crc (u32_bytes (map length blks))" "z_opt ht = op"
    using ht(2) by (simp_all add: describes_def)
  have rd: "read_chunks ops fl (z_index_offset ht) (z_index_size ht * 4) = Some (u32_bytes (map length blks))"
    using read_chunks_ok [OF rc, of "z_index_offset ht" "z_index_size ht * 4" fl] image_content(3,4) [OF im] d(1,2) by (simp add: mult.commute)
  have "\<forall>blk\<in>set blks. length blk < 2 ^ 32" using sz(1) by (force simp: z_sizes_def MAX_READ_SIZE_def)
  then have u: "u32_values (u32_bytes (map length blks)) = map length blks" by (intro u32_values_bytes) simp
  obtain k where k: "(uinttype_max + 1) div block_size op = 2 ^ k" using sz(1) by (auto simp: z_sizes_def)
  obtain jt where jt: "jt_build (map length blks) Z_SPACE (block_size op) (verify op \<noteq> 0) = Some (0, jt)"
    using jt_build_succeeds [of "map length blks" "verify op \<noteq> 0" hi "(uinttype_max + 1) div block_size op" "block_size op" Z_SPACE] sz k by (auto simp: z_sizes_def)
  have "z_index_size ht * 4 < 2 ^ 63" using image_content(3) [OF im] small d(2) by simp
  then have "load_jump_table ops crc fl = Some (Some (ht, jt))"
    using ht(1) rd u jt d(3,4) sz(2) by (simp add: load_jump_table_def Z_SPACE_def)
  then show ?thesis using ht(2) jt_build_ok [OF jt k] by auto
qed

lemma stored_holds:
  assumes "stored_block L c cap crc vfy r blk" "c_class d = c_class c" "src_blk_size d \<le> bs" "length r \<le> bs" "length blk \<le> MAX_READ_SIZE"
  shows "holds crc (decompress L d) bs vfy r blk"
  using assms by (auto simp: stored_block_def packed_def packs_def holds_def)

text \<open>What was written is opened, and the object has the parts of the data.\<close>

lemma zfile_open_ro_ok:
  assumes rc: "reads_content ops content" and im: "z_image crc32c (args_opt args\<lparr>block_size := bs\<rparr>) cdc ow (length data) raws blks (content fl)"
    and su: "z_setup L args c bs" and pt: "z_parts L c bs crc (verify (args_opt args) \<noteq> 0) cdc data raws blks"
    and sz: "z_sizes bs hi blks" "length (content fl) < 2 ^ 63" "length data < 2 ^ 63"
  shows "\<exists>zf d. zfile_open_ro ops crc32c L vf fl = Some (Some (zf, Some d), fl) \<and> z_stored content crc (decompress L d) zf fl raws blks Z_SPACE \<and>
    z_is_fastcdc (m_ht zf) = cdc \<and> block_size (z_opt (m_ht zf)) = bs \<and> verify (z_opt (m_ht zf)) = verify (args_opt args) \<and>
    z_original_file_size (m_ht zf) = length data"
proof -
  let ?op = "args_opt args\<lparr>block_size := bs\<rparr>" and ?vfy = "verify (args_opt args) \<noteq> 0"
  have cc: "create_compressor L args = Some c" "dict_size (args_opt args) = 0" using su by (simp_all add: z_setup_def)
  note c = create_compressor_cases [OF cc(1)]
  have p: "concat raws = data" "list_all2 (stored_block L c (bs + BUF_SIZE) crc ?vfy) raws blks" "\<forall>r\<in>set raws. length r \<le> bs" "cdc \<or> full_blocks bs raws"
    using pt by (simp_all add: z_parts_def)
  have len: "length blks = length raws" using p(2) by (simp add: list_all2_lengthD)
  have big: "\<forall>blk\<in>set blks. (if ?vfy then 4 else 0) < length blk"
  proof
    fix blk assume "blk \<in> set blks"
    then obtain r where "stored_block L c (bs + BUF_SIZE) crc ?vfy r blk" using p(2) by (metis in_set_conv_nth list_all2_conv_all_nth)
    then show "(if ?vfy then 4 else 0) < length blk" by (auto simp: stored_block_def packed_def packs_def)
  qed
  obtain ht jt where j: "load_jump_table ops crc32c fl = Some (Some (ht, jt))" "describes crc32c ?op cdc (length data) blks ht"
      "\<forall>i \<le> length blks. jt_at jt i = Some (Z_SPACE + psum (map length blks) i)"
    using load_jump_table_ok [OF rc im sz(2), of hi] sz(1) cc(2) big by auto
  have d: "z_opt ht = ?op" "z_is_fastcdc ht = cdc" "z_original_file_size ht = length data" "z_index_offset ht = Z_SPACE + length (concat blks)" "z_index_size ht = length blks"
    using j(2) by (simp_all add: describes_def)
  obtain e where e: "create_compressor L (CompressArgs_new ?op) = Some e" "c_class e = c_class c" "src_blk_size e = bs"
    using c(3,4) by (auto simp: create_compressor_def LZ4_init_def zstd_init_def CompressArgs_new_def OPT_LZ4_def OPT_ZSTD_def)
  have rt: "open_retry ops crc32c vf 2 fl = Some (Some (ht, jt), fl)" using j(1) by (simp add: open_retry.simps [of ops crc32c vf 2 fl])
  define zf where "zf = \<lparr>m_jump_table = jt, m_raw_block_sizes = (if cdc then map length raws else []), m_ht = ht, z_valid = FLAG_VALID_TRUE\<rparr>"
  have "zfile_open_ro ops crc32c L vf fl = Some (Some (zf, Some e), fl)"
  proof (cases cdc)
    case True
    note ic = image_content(5) [OF im True len [symmetric]]
    have "z_index_offset ht + z_index_size ht * 4 < 2 ^ 64" using ic sz(2) d(4,5) by simp
    then have "fpread ops fl (z_index_size ht * 4) ((z_index_offset ht + z_index_size ht * 4) mod 2 ^ 64) = (int (z_index_size ht * 4), u32_bytes (map length raws))"
      using fpread_content [OF rc, of "z_index_offset ht + z_index_size ht * 4" "z_index_size ht * 4" fl] ic d(4,5) by (simp add: mult.commute)
    moreover have "u32_values (u32_bytes (map length raws)) = map length raws"
      using p(3) sz(1) by (intro u32_values_bytes) (force simp: z_sizes_def MAX_READ_SIZE_def)
    ultimately show ?thesis using rt True e(1) d(1,2) by (simp add: zfile_open_ro_def zf_def Let_def)
  next
    case False
    then show ?thesis using rt e(1) d(1,2) by (simp add: zfile_open_ro_def zf_def)
  qed
  moreover have "z_stored content crc (decompress L e) zf fl raws blks Z_SPACE"
  proof -
    have "\<forall>blk\<in>set blks. length blk \<le> MAX_READ_SIZE" using sz(1) by (meson le_trans z_sizes_def)
    then have "holds crc (decompress L e) bs ?vfy r blk" if "(r, blk) \<in> set (zip raws blks)" for r blk
      using that p(2,3) e(2,3) by (intro stored_holds [where c = c and cap = "bs + BUF_SIZE"]) (auto simp: list_all2_iff dest: set_zip_leftD set_zip_rightD)
    then have "list_all2 (holds crc (decompress L e) bs ?vfy) raws blks" using len by (auto simp: list_all2_iff)
    then show ?thesis using p(1,4) sz d j(3) image_content(1,2) [OF im] by (auto simp: z_stored_def zf_def z_sizes_def full_blocks_def)
  qed
  ultimately show ?thesis using d by (auto simp: zf_def)
qed


lemma zfile_pread_ok:
  assumes "reads_content ops content" "z_stored content crc (decompress L d) zf fl raws blks base" "start_ok zf offset"
    "min count (length (concat raws) - offset) \<le> length buf"
  shows "zfile_pread ops crc L (zf, Some d) buf count offset fl = (let n = min count (length (concat raws) - offset)
    in Some (int n, put_bytes 0 (take n (drop offset (concat raws))) buf, fl))"
  using z_pread_ok [OF assms] by (simp add: zfile_pread_def Let_def)

lemma decompress_loop_ok:
  assumes cf: "complete_files ops content" and st: "z_stored content crc (decompress L d) zf fl raws blks base"
    and bs: "block_size (z_opt (m_ht zf)) = bs" and sz: "raw_size = int (length (concat raws))"
  shows "ftell ops dst = length (content dst) \<Longrightarrow> length buf = bs \<Longrightarrow> offset \<le> length (concat raws) \<Longrightarrow> z_is_fastcdc (m_ht zf) \<or> bs dvd offset \<or> offset = length (concat raws) \<Longrightarrow>
    \<exists>dst'. decompress_loop ops crc L (zf, Some d) raw_size offset buf fl dst = Some (0, fl, dst') \<and> content dst' = content dst @ drop offset (concat raws)"
proof (induction "length (concat raws) - offset" arbitrary: offset buf dst rule: less_induct)
  case less
  let ?d = "concat raws"
  note unf = decompress_loop.simps [of ops crc L "(zf, Some d)" raw_size offset buf fl dst]
  show ?case
  proof (cases "offset < length ?d")
    case False
    then have "decompress_loop ops crc L (zf, Some d) raw_size offset buf fl dst = Some (0, fl, dst)" using sz by (subst unf) simp
    then show ?thesis using False by simp
  next
    case True
    define n where "n = min bs (length ?d - offset)"
    have rc: "reads_content ops content" using cf by (simp add: complete_files_def)
    have "0 < bs" using st bs by (simp add: z_stored_def)
    then have n: "0 < n" "n \<le> bs" "offset + n \<le> length ?d" "min n (length ?d - offset) = n" using True by (auto simp: n_def)
    have "start_ok zf offset" using less.prems(4) True bs by (auto simp: start_ok_def)
    then have pr: "zfile_pread ops crc L (zf, Some d) buf n offset fl = Some (int n, put_bytes 0 (take n (drop offset ?d)) buf, fl)"
      using zfile_pread_ok [OF rc st, of offset n buf] n less.prems(2) by (simp add: Let_def)
    let ?buf = "put_bytes 0 (take n (drop offset ?d)) buf"
    have tk: "take n ?buf = take n (drop offset ?d)" "length ?buf = bs" using n less.prems(2) by (simp_all add: put_bytes_def)
    obtain dst1 where w: "fwrite ops dst (take n (drop offset ?d)) = (int n, dst1)" "content dst1 = content dst @ take n (drop offset ?d)" "ftell ops dst1 = length (content dst1)"
      using write_complete [OF cf less.prems(1), of "take n (drop offset ?d)"] n by auto
    have "length ?d - (offset + n) < length ?d - offset" using n(1) True by simp
    moreover have "z_is_fastcdc (m_ht zf) \<or> bs dvd offset + n \<or> offset + n = length ?d" using less.prems(4) n True by (auto simp: n_def min_def split: if_splits)
    ultimately obtain dst' where "decompress_loop ops crc L (zf, Some d) raw_size (offset + n) ?buf fl dst1 = Some (0, fl, dst')"
        "content dst' = content dst1 @ drop (offset + n) ?d"
      using less.hyps [of "offset + n" dst1 ?buf] w(3) tk(2) n(3) by blast
    moreover have "decompress_loop ops crc L (zf, Some d) raw_size offset buf fl dst = decompress_loop ops crc L (zf, Some d) raw_size (offset + n) ?buf fl dst1"
      using True pr n(1) tk(1) w(1) by (subst unf) (simp add: sz bs n_def [symmetric])
    moreover have "take n (drop offset ?d) @ drop (offset + n) ?d = drop offset ?d" by (metis add.commute append_take_drop_id drop_drop)
    ultimately show ?thesis using w(2) by auto
  qed
qed

end
