(* ===== verification/ZFile_Roundtrip.thy ===== *)
theory ZFile_Roundtrip
  imports ZFile_Open
begin

text \<open>
  Compressed files from end to end: what \<open>zfile_compress\<close> and the streaming writer write is what a reader gets back, through reads at
  any offset and through \<open>zfile_decompress\<close>.

  The files, the libraries and the checksums are parameters with their documented behaviour; \<open>z_mem\<close> and \<open>store_libs\<close> are instances of
  it on which the properties are evaluated.
\<close>

subsection \<open>Sizes\<close>

text \<open>The compressed form of every part of the data, with its checksum, is at most \<open>hi\<close> bytes long, and the reader can work with such
  blocks.\<close>

definition packs_within :: "codec_libs \<Rightarrow> CompressArgs \<Rightarrow> compressor \<Rightarrow> nat \<Rightarrow> nat \<Rightarrow> byte list \<Rightarrow> bool" where
  "packs_within L args c bs hi data \<longleftrightarrow> 0 < bs \<and> bs \<le> MAX_READ_SIZE \<and> (\<exists>k. (uinttype_max + 1) div bs = 2 ^ k) \<and> hi \<le> MAX_READ_SIZE \<and>
     ((uinttype_max + 1) div bs - 1) * hi < uinttype_max \<and>
     (\<forall>xs r ys out. data = xs @ r @ ys \<and> r \<noteq> [] \<and> length r \<le> bs \<and> compress_block L c r (bs + BUF_SIZE) = Some out \<longrightarrow>
        length out + (if verify (args_opt args) \<noteq> 0 then 4 else 0) \<le> hi)"

lemma packs_within_sizes:
  assumes "packs_within L args c bs hi data" "z_parts L c bs crc (verify (args_opt args) \<noteq> 0) cdc data raws blks"
  shows "z_sizes bs hi blks"
proof -
  have "length blk \<le> hi" if b: "blk \<in> set blks" for blk
  proof -
    have p: "list_all2 (stored_block L c (bs + BUF_SIZE) crc (verify (args_opt args) \<noteq> 0)) raws blks" "concat raws = data" "\<forall>r\<in>set raws. length r \<le> bs"
      using assms(2) by (simp_all add: z_parts_def)
    obtain i where i: "i < length blks" "blk = blks ! i" using b by (metis in_set_conv_nth)
    then have r: "stored_block L c (bs + BUF_SIZE) crc (verify (args_opt args) \<noteq> 0) (raws ! i) blk" "i < length raws" using p(1) by (auto simp: list_all2_conv_all_nth)
    then obtain out where o: "raws ! i \<noteq> []" "compress_block L c (raws ! i) (bs + BUF_SIZE) = Some out"
        "length blk = length out + (if verify (args_opt args) \<noteq> 0 then 4 else 0)"
      by (auto simp: stored_block_def packed_def)
    have "data = concat (take i raws) @ raws ! i @ concat (drop (Suc i) raws)"
      using p(2) id_take_nth_drop [OF r(2)] by (metis concat.simps(2) concat_append)
    then show ?thesis using assms(1) o p(3) r(2) unfolding packs_within_def by (metis nth_mem)
  qed
  then show ?thesis using assms(1) by (auto simp: packs_within_def z_sizes_def)
qed

lemma image_length:
  assumes "z_image crc op cdc ow isz raws blks bytes" "length raws = length blks"
  shows "length bytes \<le> 2 * Z_SPACE + length (concat blks) + 8 * length blks"
proof -
  obtain h t where "bytes = zht_block h @ concat blks @ u32_bytes (map length blks) @ (if cdc then u32_bytes (map length raws) else []) @ zht_block t" "zht_fits h" "zht_fits t"
    using assms(1) unfolding z_image_def by blast
  then show ?thesis using length_zht_block [of h] length_zht_block [of t] assms(2) by simp
qed

text \<open>A file with such parts is opened, and what is read from it are bytes of the data.\<close>

lemma image_opens:
  assumes cf: "complete_files ops content" and im: "z_image crc32c (args_opt args\<lparr>block_size := bs\<rparr>) cdc ow (length data) raws blks (content fl)"
    and su: "z_setup L args c bs" and pt: "z_parts L c bs crc (verify (args_opt args) \<noteq> 0) cdc data raws blks"
    and pw: "packs_within L args c bs hi data" and small: "2 * Z_SPACE + length data * (bs + BUF_SIZE + 12) < 2 ^ 63"
  shows "\<exists>zf d. zfile_open_ro ops crc32c L vf fl = Some (Some (zf, Some d), fl) \<and> z_stored content crc (decompress L d) zf fl raws blks Z_SPACE \<and>
    z_is_fastcdc (m_ht zf) = cdc \<and> block_size (z_opt (m_ht zf)) = bs \<and> verify (z_opt (m_ht zf)) = verify (args_opt args) \<and>
    z_original_file_size (m_ht zf) = length data"
proof -
  have p: "list_all2 (stored_block L c (bs + BUF_SIZE) crc (verify (args_opt args) \<noteq> 0)) raws blks" "concat raws = data" "\<forall>r\<in>set raws. length r \<le> bs"
    using pt by (simp_all add: z_parts_def)
  have "\<forall>r\<in>set raws. bound L c (length r) \<le> bs + BUF_SIZE" using p(3) su by (auto simp: z_setup_def)
  note ps = parts_small [OF p(1) this]
  have "length (content fl) \<le> 2 * Z_SPACE + length (concat blks) + 8 * length blks" using image_length [OF im] p(1) by (simp add: list_all2_lengthD)
  also have "\<dots> \<le> 2 * Z_SPACE + length data * (bs + BUF_SIZE + 12)" using ps p(2) by (simp add: distrib_left)
  finally have "length (content fl) < 2 ^ 63" "length data < 2 ^ 63" using small by (auto simp: distrib_left)
  moreover have rc: "reads_content ops content" using cf by (simp add: complete_files_def)
  ultimately show ?thesis using zfile_open_ro_ok [OF rc im su pt packs_within_sizes [OF pw pt]] by blast
qed

lemma open_decompress:
  assumes cf: "complete_files ops content" and op: "zfile_open_ro ops crc32c L True fl = Some (Some (zf, Some d), fl)"
    and st: "z_stored content crc (decompress L d) zf fl raws blks Z_SPACE" and dst: "ftell ops dst = length (content dst)"
  shows "\<exists>dst'. zfile_decompress ops crc32c crc L fl dst = Some (0, fl, dst') \<and> content dst' = content dst @ concat raws"
proof -
  have z: "z_original_file_size (m_ht zf) = length (concat raws)" "length (concat raws) < 2 ^ 63" using st by (simp_all add: z_stored_def)
  then have sz: "ssize (z_original_file_size (m_ht zf)) = int (length (concat raws))" by (simp add: ssize_def)
  obtain dst' where "decompress_loop ops crc L (zf, Some d) (ssize (z_original_file_size (m_ht zf))) 0 (replicate (block_size (z_opt (m_ht zf))) 0) fl dst = Some (0, fl, dst')"
      "content dst' = content dst @ drop 0 (concat raws)"
    using decompress_loop_ok [OF cf st refl sz dst, of "replicate (block_size (z_opt (m_ht zf))) 0" 0] by auto
  then show ?thesis using op by (simp add: zfile_decompress_def)
qed

subsection \<open>Properties\<close>

text \<open>C2. Decompressing undoes compressing.  For a source that is read to its end, in pieces of any size for chunks cut by content and in full
  pieces for blocks of a fixed size, and for blocks that fit into the buffer of the reader, \<open>zfile_compress\<close> succeeds, and
  \<open>zfile_decompress\<close> of the file that it wrote succeeds and appends the bytes of the source to its destination.\<close>

theorem compress_decompress:
  assumes "complete_files ops content" "pwrites_content ops content" "codec_ok L bs" "z_setup L args c bs" "reads_source rd rest"
    "use_fastcdc args \<or> reads_full rd rest" "packs_within L args c bs hi (rest src)" "content f = []" "ftell ops f = 0"
    "2 * Z_SPACE + length (rest src) * (bs + BUF_SIZE + 12) < 2 ^ 63" "ftell ops dst = length (content dst)"
  shows "\<exists>f' dst'. zfile_compress ops crc32c crc32c_salt L MD5 s_initialized g rd src f args = Some (0, f') \<and>
    zfile_decompress ops crc32c crc32c_salt L f' dst = Some (0, f', dst') \<and> content dst' = content dst @ rest src"
proof -
  have small: "Z_SPACE + length (rest src) * (bs + BUF_SIZE + 4) < 2 ^ 63" using assms(10) by (simp add: distrib_left)
  obtain f' raws blks where 1: "zfile_compress ops crc32c crc32c_salt L MD5 s_initialized g rd src f args = Some (0, f')"
      "z_image crc32c (args_opt args\<lparr>block_size := bs\<rparr>) (use_fastcdc args) (overwrite_header args) (length (rest src)) raws blks (content f')"
      "z_parts L c bs crc32c_salt (verify (args_opt args) \<noteq> 0) (use_fastcdc args) (rest src) raws blks"
    using zfile_compress_ok [OF assms(1-6,8,9) small] by blast
  obtain zf d where 2: "zfile_open_ro ops crc32c L True f' = Some (Some (zf, Some d), f')" "z_stored content crc32c_salt (decompress L d) zf f' raws blks Z_SPACE"
    using image_opens [OF assms(1) 1(2) assms(4) 1(3) assms(7,10)] by blast
  show ?thesis using open_decompress [OF assms(1) 2 assms(11)] 1(1,3) by (auto simp: z_parts_def)
qed

text \<open>C9. Reading a compressed file.  A file that was compressed with chunks cut by content is opened, and every read of it, at any offset
  and of any length, returns the number of bytes that are there and stores exactly these bytes of the source.\<close>

theorem compressed_random_access:
  assumes "complete_files ops content" "pwrites_content ops content" "codec_ok L bs" "z_setup L args c bs" "reads_source rd rest"
    "use_fastcdc args" "packs_within L args c bs hi (rest src)" "content f = []" "ftell ops f = 0"
    "2 * Z_SPACE + length (rest src) * (bs + BUF_SIZE + 12) < 2 ^ 63"
  shows "\<exists>f' zc. zfile_compress ops crc32c crc32c_salt L MD5 s_initialized g rd src f args = Some (0, f') \<and>
    zfile_open_ro ops crc32c L vf f' = Some (Some zc, f') \<and>
    (\<forall>offset buf. \<exists>r. zfile_pread ops crc32c_salt L zc buf (length buf) offset f' =
       Some (int (length r), r @ drop (length r) buf, f') \<and> r = take (length buf) (drop offset (rest src)))"
proof -
  have small: "Z_SPACE + length (rest src) * (bs + BUF_SIZE + 4) < 2 ^ 63" using assms(10) by (simp add: distrib_left)
  obtain f' raws blks where 1: "zfile_compress ops crc32c crc32c_salt L MD5 s_initialized g rd src f args = Some (0, f')"
      "z_image crc32c (args_opt args\<lparr>block_size := bs\<rparr>) (use_fastcdc args) (overwrite_header args) (length (rest src)) raws blks (content f')"
      "z_parts L c bs crc32c_salt (verify (args_opt args) \<noteq> 0) (use_fastcdc args) (rest src) raws blks"
    using zfile_compress_ok [OF assms(1-5) _ assms(8,9) small] assms(6) by blast
  obtain zf d where 2: "zfile_open_ro ops crc32c L vf f' = Some (Some (zf, Some d), f')" "z_stored content crc32c_salt (decompress L d) zf f' raws blks Z_SPACE"
      "z_is_fastcdc (m_ht zf)"
    using image_opens [OF assms(1) 1(2) assms(4) 1(3) assms(7,10)] assms(6) by blast
  have rc: "reads_content ops content" using assms(1) by (simp add: complete_files_def)
  have "zfile_pread ops crc32c_salt L (zf, Some d) buf (length buf) offset f' = (let r = take (length buf) (drop offset (rest src)) in
       Some (int (length r), r @ drop (length r) buf, f'))" for buf offset
  proof -
    have "start_ok zf offset" "concat raws = rest src" using 2(3) 1(3) by (simp_all add: start_ok_def z_parts_def)
    moreover have "take (min (length buf) (length (rest src) - offset)) (drop offset (rest src)) = take (length buf) (drop offset (rest src))" by (simp add: min_def)
    ultimately show ?thesis using zfile_pread_ok [OF rc 2(2), of offset "length buf" buf] by (simp add: Let_def put_bytes_def min.commute)
  qed
  then show ?thesis using 1(1) 2(1) by (auto simp: Let_def)
qed

text \<open>C10. The streaming writer.  However the data is split into writes, every write returns its length, the writer closes without an error, and
  decompressing the file that it wrote gives the data.\<close>

theorem builder_roundtrip:
  assumes "complete_files ops content" "pwrites_content ops content" "codec_ok L bs" "z_setup L args c bs" "\<not> use_fastcdc args"
    "packs_within L args c bs hi (concat bufs)" "content f = []" "ftell ops f = 0"
    "2 * Z_SPACE + length (concat bufs) * (bs + BUF_SIZE + 12) < 2 ^ 63" "ftell ops dst = length (content dst)"
  shows "\<exists>b f1 b' f' dst'. builder_init ops crc32c L args f = (Some b, f1) \<and> builder_writes ops crc32c_salt L bufs b = Some (map (int \<circ> length) bufs, b') \<and>
    builder_fini ops crc32c crc32c_salt L b' = (0, f') \<and>
    zfile_decompress ops crc32c crc32c_salt L f' dst = Some (0, f', dst') \<and> content dst' = content dst @ concat bufs"
proof -
  have small: "Z_SPACE + length (concat bufs) * (bs + BUF_SIZE + 4) < 2 ^ 63" using assms(9) by (simp add: distrib_left)
  obtain b f1 b' f' raws blks where 1: "builder_init ops crc32c L args f = (Some b, f1)" "builder_writes ops crc32c_salt L bufs b = Some (map (int \<circ> length) bufs, b')"
      "builder_fini ops crc32c crc32c_salt L b' = (0, f')"
      "z_image crc32c (args_opt args\<lparr>block_size := bs\<rparr>) False (overwrite_header args) (length (concat bufs)) raws blks (content f')"
      "z_parts L c bs crc32c_salt (verify (args_opt args) \<noteq> 0) False (concat bufs) raws blks"
    using builder_ok [OF assms(1-5,7,8) small] by blast
  obtain zf d where 2: "zfile_open_ro ops crc32c L True f' = Some (Some (zf, Some d), f')" "z_stored content crc32c_salt (decompress L d) zf f' raws blks Z_SPACE"
    using image_opens [OF assms(1) 1(4) assms(4) 1(5) assms(6,9)] by blast
  show ?thesis using open_decompress [OF assms(1) 2 assms(10)] 1(1-3,5) by (auto simp: z_parts_def)
qed


subsection \<open>An instance\<close>

definition z_mem :: "byte list cfile" where
  "z_mem = \<lparr>fpread = (\<lambda>f n off. (int (length (take n (drop off f))), take n (drop off f))), fseek_end = (\<lambda>f. (length f, f)),
     fwrite = (\<lambda>f bs. (int (length bs), f @ bs)), ftell = length, fsize = length, ftrim = (\<lambda>f off n. (0, f)),
     fpwrite = (\<lambda>f bs off. (int (length bs), put_bytes off bs f)), fevict = (\<lambda>f. (0, f))\<rparr>"

lemma z_mem_ok: "complete_files z_mem id" "pwrites_content z_mem id"
  by (simp_all add: complete_files_def reads_content_def appends_content_def pwrites_content_def z_mem_def)

definition list_read :: "byte list \<Rightarrow> nat \<Rightarrow> int \<times> byte list \<times> byte list" where
  "list_read src n = (int (length (take n src)), take n src, drop n src)"

lemma list_read_ok: "reads_source list_read id" "reads_full list_read id"
  by (auto simp: reads_source_def reads_full_def list_read_def min.commute)

definition args0 :: "bool \<Rightarrow> CompressArgs" where
  "args0 cdc = \<lparr>args_opt = \<lparr>block_size = 16384, algo = 1, level = 0, use_dict = 0, dict_size = 0, verify = 1\<rparr>, overwrite_header = True, workers = 1,
     use_fastcdc = cdc, fastcdc_min_size = 2048, fastcdc_avg_size = 8192, fastcdc_max_size = 16384\<rparr>"

definition comp0 :: compressor where
  "comp0 = \<lparr>c_class = LZ4Compressor, max_dst_size = 16385, src_blk_size = 16384\<rparr>"

lemma setup0: "z_setup store_libs (args0 cdc) comp0 16384"
  by (auto simp: z_setup_def args0_def comp0_def create_compressor_def LZ4_init_def OPT_LZ4_def store_libs_def opt_fits_def BUF_SIZE_def bound_def INT_MAX_def
      word_less_nat_alt word_le_nat_alt)

lemma packs0: "packs_within store_libs (args0 cdc) comp0 16384 16389 data"
proof -
  have "\<exists>k. (uinttype_max + 1) div 16384 = 2 ^ k" by (rule exI [of _ 2]) (simp add: uinttype_max_def)
  moreover have "length out = length r + 1" if "compress_block store_libs comp0 r cap = Some out" for r cap out
    using that by (auto simp: compress_block_def comp0_def LZ4_compress_block_def store_libs_def split: if_splits)
  ultimately show ?thesis unfolding packs_within_def by (intro conjI) (assumption | auto simp: MAX_READ_SIZE_def uinttype_max_def)+
qed

lemma compress_decompress_witness:
  "\<exists>f'. zfile_compress z_mem (of_nat \<circ> length) (of_nat \<circ> sum_list \<circ> map unat) store_libs id False globals0 list_read [10, 20, 30] [] (args0 True) = Some (0, f') \<and>
     zfile_decompress z_mem (of_nat \<circ> length) (of_nat \<circ> sum_list \<circ> map unat) store_libs f' [7] = Some (0, f', [7, 10, 20, 30])"
  using compress_decompress [OF z_mem_ok store_libs_ok setup0 [of True] list_read_ok(1) _ packs0, where src = "[10, 20, 30]" and f = "[]" and dst = "[7]"
      and crc32c = "of_nat \<circ> length" and crc32c_salt = "of_nat \<circ> sum_list \<circ> map unat" and ?MD5.0 = id and s_initialized = False and g = globals0]
    list_read_ok(2) by (simp add: z_mem_def Z_SPACE_def BUF_SIZE_def)

lemma compressed_random_access_witness:
  "\<exists>f' zc. zfile_compress z_mem (of_nat \<circ> length) (\<lambda>_. 5) store_libs id False globals0 list_read [10, 20, 30, 40] [] (args0 True) = Some (0, f') \<and>
     zfile_open_ro z_mem (of_nat \<circ> length) store_libs False f' = Some (Some zc, f') \<and>
     zfile_pread z_mem (\<lambda>_. 5) store_libs zc [0, 0] 2 1 f' = Some (2, [20, 30], f')"
proof -
  have "use_fastcdc (args0 True)" "2 * Z_SPACE + length (id [10, 20, 30, 40 :: byte]) * (16384 + BUF_SIZE + 12) < 2 ^ 63" "ftell z_mem [] = 0"
    by (simp_all add: args0_def Z_SPACE_def BUF_SIZE_def z_mem_def)
  from compressed_random_access [OF z_mem_ok store_libs_ok setup0 list_read_ok(1) this(1) packs0 _ this(3,2),
      of "of_nat \<circ> length" "\<lambda>_. 5" id False globals0 False]
  obtain f' zc where f': "zfile_compress z_mem (of_nat \<circ> length) (\<lambda>_. 5) store_libs id False globals0 list_read [10, 20, 30, 40] [] (args0 True) = Some (0, f')"
      "zfile_open_ro z_mem (of_nat \<circ> length) store_libs False f' = Some (Some zc, f')"
      "\<forall>offset buf. \<exists>r. zfile_pread z_mem (\<lambda>_. 5) store_libs zc buf (length buf) offset f' =
       Some (int (length r), r @ drop (length r) buf, f') \<and> r = take (length buf) (drop offset (id [10, 20, 30, 40]))"
    by auto
  have "zfile_pread z_mem (\<lambda>_. 5) store_libs zc [0, 0] 2 1 f' = Some (2, [20, 30], f')"
    using f'(3) [rule_format, of "[0, 0]" 1] by (simp add: numeral_2_eq_2)
  then show ?thesis using f'(1,2) by blast
qed

lemma builder_roundtrip_witness:
  "\<exists>b f1 b' f'. builder_init z_mem (of_nat \<circ> length) store_libs (args0 False) [] = (Some b, f1) \<and>
     builder_writes z_mem (\<lambda>_. 5) store_libs [[10], [20, 30]] b = Some ([1, 2], b') \<and> builder_fini z_mem (of_nat \<circ> length) (\<lambda>_. 5) store_libs b' = (0, f') \<and>
     zfile_decompress z_mem (of_nat \<circ> length) (\<lambda>_. 5) store_libs f' [] = Some (0, f', [10, 20, 30])"
proof -
  have "\<not> use_fastcdc (args0 False)" "2 * Z_SPACE + length (concat [[10], [20, 30 :: byte]]) * (16384 + BUF_SIZE + 12) < 2 ^ 63" "ftell z_mem [] = 0"
      "ftell z_mem [] = length (id [])"
    by (simp_all add: args0_def Z_SPACE_def BUF_SIZE_def z_mem_def)
  from builder_roundtrip [OF z_mem_ok store_libs_ok setup0 this(1) packs0 _ this(3,2,4), of "of_nat \<circ> length" "\<lambda>_. 5"]
  show ?thesis by auto
qed

end
