(* ===== verification/Spec2Isabelle.thy ===== *)
theory Spec2Isabelle
  imports FastCDC Metadata_Collision Lru Remap LSMT_Commit ZFile_Roundtrip
begin

text \<open>
  \<^bold>\<open>A verification development of CORA.\<close>

  CORA serves container images from layered block devices.  The parts of it that are modelled here are written in C and C++ below
  \<^verbatim>\<open>src/overlaybd/\<close>:

  \<^item> \<^bold>\<open>LSMT\<close> (\<^verbatim>\<open>src/overlaybd/src/overlaybd/lsmt\<close>): a block device whose sectors lie in a stack of layers.  An index maps ranges of sectors to
    places in the files of the layers.  A writable layer appends data and records every write in its index.
  \<^item> \<^bold>\<open>ZFile\<close> (\<^verbatim>\<open>src/overlaybd/src/overlaybd/zfile\<close>): a compressed file that is read at any offset.  The data is cut into blocks, of a fixed size or by
    its content; a jump table finds the block of an offset.
  \<^item> \<^bold>\<open>FastCDC\<close> (\<^verbatim>\<open>src/overlaybd/FastCDC-c\<close>): the library that cuts by content, used by \<open>zfile_compress\<close>.
  \<^item> \<^bold>\<open>OCF\<close> (\<^verbatim>\<open>src/overlaybd/src/overlaybd/cache/ocf_cache/ocf\<close>): the block cache below the layers.  Modelled are the metadata of cache lines, the hash
    table of cached core lines, the LRU lists, requests, and the asynchronous locks of the lines of a request.

  A committed LSMT layer is compressed into a ZFile; the device reads the layer through the compressed file, and that through the cache.

  \<^bold>\<open>Conventions.\<close>  State is passed explicitly.  A structure is a record, an enumeration a datatype.  The outer \<open>None\<close> of a result is a failed
  \<open>ENV_BUG_ON\<close> or \<open>assert\<close>, an access out of bounds, a division by zero, a null pointer, or a loop that does not end; an error that the code
  returns is a value, most often a negative number or an inner \<open>None\<close>.  The words of OCF and of FastCDC are words of their width, the bit
  fields of LSMT are natural numbers with the modulus of their width written out, sizes in bytes are natural numbers with the wrap-around
  written out where the code subtracts.  Loops are functions with a termination proof; \<open>partial_function (option)\<close> is used for the loops
  over blocks whose end depends on the file (\<open>zpread_loop\<close>, \<open>zcompress_loop\<close>, \<open>decompress_loop\<close>, \<open>check_loop\<close>) and for the walks over the
  tables of OCF (\<open>collision_walk\<close>, \<open>lookup_loop\<close>, \<open>lru_walk\<close>, \<open>lru_rounds\<close>, \<open>next_unmapped\<close>, \<open>req_clines_loop\<close>, \<open>each_from\<close>, \<open>sort_pos\<close>, \<open>sort_loop\<close>), and that they end is part of the lemmas about them (\<open>z_pread_ok\<close>,
  \<open>zcompress_loop_ok\<close>, \<open>decompress_loop_ok\<close>, \<open>lookup_loop_ok\<close>, \<open>lru_walk_find\<close>, \<open>lru_rounds_ok\<close>, \<open>next_unmapped_ok\<close>, \<open>req_clines_loop_ok\<close>,
  \<open>each_from_ring\<close>, \<open>sort_pos_ok\<close>, \<open>sort_loop_ok\<close>).  No loop is cut off by fuel: \<open>next_phys_invalid_loop\<close> and
  \<open>populate_loop\<close> recurse over the number of lines that are left, as the code counts them.

  \<^bold>\<open>The theories.\<close>

  \<^item> \<^verbatim>\<open>OCF_Prelude\<close>: words, bug checks, doubly linked lists in tables.  \<^verbatim>\<open>Byte_File\<close>: the interface of a file as a record of functions, its documented
    behaviour as predicates (\<open>reads_content\<close>, \<open>appends_content\<close>, \<open>complete_files\<close>), numbers in little endian order.
  \<^item> \<^verbatim>\<open>Chunking\<close>, \<^verbatim>\<open>FastCDC\<close> (\<^verbatim>\<open>fastcdc.c\<close>, \<^verbatim>\<open>fastcdc_wrapper.cpp\<close>, the chunking loop of \<^verbatim>\<open>zfile.cpp\<close>): the locale \<open>chunker\<close> says what the loop
    relies on and is interpreted on the FastCDC chunker.  Shown: where the cuts are, that they depend on the content before them only, that the
    optimised chunkers agree with the plain ones, and that the loop ends and loses nothing.
  \<^item> \<^verbatim>\<open>Cache_State\<close>, \<^verbatim>\<open>Metadata_Status\<close>, \<^verbatim>\<open>Striping\<close>, \<^verbatim>\<open>Line_Index\<close>, \<^verbatim>\<open>Metadata_Collision\<close> (\<^verbatim>\<open>metadata_*.c\<close>, \<^verbatim>\<open>metadata_*.h\<close>, parts of \<^verbatim>\<open>metadata.c\<close>): status
    bits as sets of sectors, the bijection between physical and logical lines, the hash table as a map from core lines to cache lines.  The
    locale \<open>line_index\<close> holds the contract of such a map and the lemmas about runs of insertions and removals; the hash table interprets it.
  \<^item> \<^verbatim>\<open>Recency_List\<close>, \<^verbatim>\<open>Lru_List\<close>, \<^verbatim>\<open>Lru\<close> (\<^verbatim>\<open>ocf_lru.c\<close> and the partition accessors): the linked lists with their hot part refine sequences, the lists of all
    partitions hold every line exactly where its metadata says; a line that was used recently is not at the tail of its list.
  \<^item> \<^verbatim>\<open>Request\<close>, \<^verbatim>\<open>Alock\<close>, \<^verbatim>\<open>Req_Lock\<close> (\<^verbatim>\<open>ocf_request.c\<close>, \<^verbatim>\<open>utils_alock.c\<close>, \<^verbatim>\<open>ocf_cache_line_concurrency.c\<close>, \<^verbatim>\<open>ocf_mio_concurrency.c\<close>): the sectors of a request; the lock of a line
    as a state machine whose reachable states are safe and whose unlock hands over and wakes the waiters; locking all lines of a request, at once or by waiting.
  \<^item> \<^verbatim>\<open>Metadata_Locks\<close> (\<^verbatim>\<open>ocf_metadata_concurrency.c\<close>): the buckets of a request are locked once each and in ascending order; threads that run
    the locking functions form a state machine \<open>sem_step\<close>, which never gets stuck; the attempts that do not wait and the locks of
    the LRU lists are not among its steps.
  \<^item> \<^verbatim>\<open>Engine_Lookup\<close> (the lookup part of \<^verbatim>\<open>engine_common.c\<close> and \<^verbatim>\<open>engine_common.h\<close>): the lookup of a request tells which of its sectors are cached,
    valid and dirty; checking a request again finds exactly the lines that were replaced.
  \<^item> \<^verbatim>\<open>Lru_Iter\<close> (the iterators of \<^verbatim>\<open>ocf_lru.c\<close>): looking for a line to evict, or for a free one, visits the lists of a partition until the least recently
    used line that can be locked is found, and fails only if there is none.
  \<^item> \<^verbatim>\<open>Cache_Line\<close> (\<^verbatim>\<open>utils_cache_line.c\<close>, \<^verbatim>\<open>utils_cache_line.h\<close>): making the lines of a request valid, dirty, clean or invalid changes exactly the sectors
    of the request and keeps the invariant of all metadata (\<open>meta_inv\<close>): lists, hash table, status bits and the counters of the cores.
  \<^item> \<^verbatim>\<open>Part_List\<close> (\<^verbatim>\<open>utils_list.h\<close>, \<^verbatim>\<open>utils_list.c\<close>), \<^verbatim>\<open>User_Part\<close> (\<^verbatim>\<open>utils_user_part.h\<close>, \<^verbatim>\<open>utils_user_part.c\<close>, \<^verbatim>\<open>ocf_mngt_io_class.c\<close>, \<^verbatim>\<open>ocf_io_class.c\<close>): the
    linked list of partitions is set up with all of them and its sorting in place gives the order of eviction; configuring I/O classes applies
    the elements up to the first one that is refused.
  \<^item> \<^verbatim>\<open>Space\<close> (\<open>ocf_lru_req_clines\<close> of \<^verbatim>\<open>ocf_lru.c\<close>), \<^verbatim>\<open>Remap\<close> (\<^verbatim>\<open>ocf_space.c\<close>, \<open>ocf_engine_remap\<close>): a request that was looked up gets empty,
    locked lines for all of its core lines that are not mapped, or is left as it was; no dirty sector is lost on the way.  The counters of
    cached lines are kept when every mapped line that nobody holds has a valid sector; \<open>invalidate_counts_again\<close> shows the other case.
  \<^item> \<^verbatim>\<open>LSMT_Segment\<close>, \<^verbatim>\<open>LSMT_Index\<close>, \<^verbatim>\<open>LSMT_Combo\<close>, \<^verbatim>\<open>LSMT_Merge\<close>, \<^verbatim>\<open>LSMT_Level\<close> (\<^verbatim>\<open>index.h\<close>, \<^verbatim>\<open>index.cpp\<close>): every index means a map from sectors to places; insertion
    overrides, a combined index overlays, merging overlays all layers, compression and paging change nothing.
  \<^item> \<^verbatim>\<open>LSMT_File\<close>, \<^verbatim>\<open>LSMT_Format\<close>, \<^verbatim>\<open>LSMT_Write\<close>, \<^verbatim>\<open>LSMT_Store\<close>, \<^verbatim>\<open>LSMT_Commit\<close> (\<^verbatim>\<open>file.h\<close>, \<^verbatim>\<open>file.cpp\<close>): reading and writing a device refine reading and writing an
    array of sectors; a layer that is closed and opened again, or committed and opened, has the same sectors; a write that fails changes no sector but those of the pieces before.
  \<^item> \<^verbatim>\<open>ZFile_Format\<close>, \<^verbatim>\<open>ZFile_Read\<close> (the structures, the jump table, \<open>BlockReader\<close> and \<open>CompressionFile::pread\<close> of \<^verbatim>\<open>zfile.cpp\<close>), \<^verbatim>\<open>ZFile_Codec\<close>
    (\<^verbatim>\<open>compressor.cpp\<close>), \<^verbatim>\<open>ZFile_Write\<close> (\<open>zfile_compress\<close>, \<open>ZFileBuilder\<close>), \<^verbatim>\<open>ZFile_Open\<close> (\<open>zfile_open_ro\<close>, \<open>zfile_decompress\<close>, \<open>zfile_validation_check\<close>,
    \<open>is_zfile\<close>), \<^verbatim>\<open>ZFile_Roundtrip\<close>: the jump table gives the offsets of the blocks; what was compressed is read back, as a whole and at any
    offset; the streaming writer does not depend on how the data is split.

  \<^bold>\<open>Parameters.\<close>  The files below, LZ4 and ZSTD (\<open>codec_libs\<close>), CRC32C, MD5 and the allocator are not part of these sources or are vendored;
  they are arguments of the definitions, and what is relied on is named in the hypotheses (\<open>complete_files\<close>, \<open>pwrites_content\<close>,
  \<open>codec_ok\<close>).  \<open>mem_ops\<close>, \<open>z_mem\<close> and \<open>store_libs\<close> are instances on which the hypotheses hold.

  \<^bold>\<open>Bounds.\<close>  The properties about compressed files need blocks that fit into the 64 KiB buffer of the reader (\<open>packs_within\<close>), a block size for
  which the number of blocks of a group is a power of two, and files below \<open>2 ^ 63\<close> bytes; the lemmas \<open>jump_table_misses_groups\<close>,
  \<open>fixed_size_read_from_block_start\<close> and \<open>oversized_block_not_read\<close> show what happens outside.  The libraries are relied on for sources of at most the block size.
  A paged index has at most \<open>2 ^ 31 - 256\<close> mappings, as its positions are of type \<open>int\<close>.

  \<^bold>\<open>Not modelled.\<close>  The I/O engines, the cleaner and the management of OCF issue asynchronous I/O through pipelines of callbacks; the registry and
  local file systems, the image service and the command line tools call the photon library and HTTP; gzip and tar support wrap zlib and file
  systems; LZ4 and the CRC instructions are vendored.  Of LSMT, sparse and warp files are not modelled; of ZFile, the writer with several
  threads.
\<close>

end
